(* ===== verification/Prelude.thy ===== *)
theory Prelude
  imports Main "HOL-Library.Monad_Syntax" "HOL-Library.Multiset"
begin

text \<open>
  Shared vocabulary of the development.

  A device buffer is a list, and every access is checked: \<open>rd\<close> and \<open>wr\<close> return \<open>None\<close>
  outside the buffer, where the C++ would be undefined.  A kernel is therefore an
  \<open>option\<close> valued function of its buffers and \<open>None\<close> means that some work-item left its
  buffers.  \<open>foldM\<close> runs a loop body over a list of indices; a SYCL \<open>parallel_for\<close> over
  \<open>n\<close> work-items is \<open>foldM\<close> over a \<^emph>\<open>schedule\<close>, an arbitrary permutation of
  \<open>[0..<n]\<close>, so a theorem about a kernel quantifies over every order in which the device
  may run the items.  \<open>strided\<close> is the index sequence of a grid-stride loop
  \<open>for (i = lo; i < hi; i += step)\<close>.
\<close>

named_theorems loop_simps \<open>unfolding of loops over literal index lists\<close>
named_theorems buf_intros \<open>definedness of buffer accesses\<close>

section \<open>Checked buffer access\<close>

definition rd :: "'a list \<Rightarrow> nat \<Rightarrow> 'a option" where
  "rd b i = (if i < length b then Some (b ! i) else None)"

definition wr :: "'a list \<Rightarrow> nat \<Rightarrow> 'a \<Rightarrow> 'a list option" where
  "wr b i v = (if i < length b then Some (b[i := v]) else None)"

lemma rd_Some [simp, buf_intros]: "i < length b \<Longrightarrow> rd b i = Some (b ! i)"
  by (simp add: rd_def)

lemma wr_Some [simp, buf_intros]: "i < length b \<Longrightarrow> wr b i v = Some (b[i := v])"
  by (simp add: wr_def)

lemma rd_eq_Some_iff: "rd b i = Some v \<longleftrightarrow> i < length b \<and> v = b ! i"
  by (auto simp: rd_def)

lemma wr_eq_Some_iff: "wr b i v = Some b' \<longleftrightarrow> i < length b \<and> b' = b[i := v]"
  by (auto simp: wr_def)

section \<open>Loops in the option monad\<close>

primrec foldM :: "('i \<Rightarrow> 's \<Rightarrow> 's option) \<Rightarrow> 'i list \<Rightarrow> 's \<Rightarrow> 's option" where
  "foldM f [] s = Some s"
| "foldM f (x # xs) s = Option.bind (f x s) (foldM f xs)"

lemma foldM_append: "foldM f (xs @ ys) s = Option.bind (foldM f xs s) (foldM f ys)"
  by (induction xs arbitrary: s) (auto simp: Option.bind_assoc split: bind_splits)

lemma foldM_cong [fundef_cong]:
  "xs = ys \<Longrightarrow> s = t \<Longrightarrow> (\<And>x s. x \<in> set ys \<Longrightarrow> f x s = g x s) \<Longrightarrow> foldM f xs s = foldM g ys t"
proof (induction xs arbitrary: s t ys)
  case (Cons a xs)
  then show ?case
    by (cases "g a t") auto
qed simp

lemma foldM_pure:
  assumes "Q s" and "\<And>x s. x \<in> set xs \<Longrightarrow> Q s \<Longrightarrow> f x s = Some (g x s) \<and> Q (g x s)"
  shows "foldM f xs s = Some (fold g xs s) \<and> Q (fold g xs s)"
  using assms by (induction xs arbitrary: s) auto

lemma foldM_pure':
  assumes "\<And>x s. x \<in> set xs \<Longrightarrow> f x s = Some (g x s)"
  shows "foldM f xs s = Some (fold g xs s)"
  using foldM_pure [of "\<lambda>_. True" s xs f g] assms by simp

lemma foldM_map: "foldM f (map h xs) s = foldM (\<lambda>x. f (h x)) xs s"
  by (induction xs arbitrary: s) (auto split: bind_splits)

text \<open>An ascending loop with an invariant indexed by the counter.\<close>

lemma foldM_upt:
  assumes "lo \<le> hi" and "P lo s"
    and "\<And>i s. lo \<le> i \<Longrightarrow> i < hi \<Longrightarrow> P i s \<Longrightarrow> \<exists>s'. f i s = Some s' \<and> P (Suc i) s'"
  shows "\<exists>s'. foldM f [lo..<hi] s = Some s' \<and> P hi s'"
  using assms
proof (induction "hi - lo" arbitrary: lo s)
  case 0
  then show ?case by simp
next
  case (Suc k)
  then have "lo < hi" by simp
  with Suc.prems obtain s' where "f lo s = Some s'" "P (Suc lo) s'" by blast
  moreover have "\<exists>t. foldM f [Suc lo..<hi] s' = Some t \<and> P hi t"
    using Suc.hyps(2) \<open>lo < hi\<close> \<open>P (Suc lo) s'\<close> by (intro Suc.hyps(1) Suc.prems) auto
  ultimately show ?case using \<open>lo < hi\<close> by (simp add: upt_conv_Cons)
qed

text \<open>A loop over distinct indices with an invariant indexed by the set already done.\<close>

lemma foldM_distinct:
  assumes "distinct xs" and "P D s" and "set xs \<inter> D = {}"
    and "\<And>D i s. i \<in> set xs \<Longrightarrow> i \<notin> D \<Longrightarrow> P D s \<Longrightarrow> \<exists>s'. f i s = Some s' \<and> P (insert i D) s'"
  shows "\<exists>s'. foldM f xs s = Some s' \<and> P (D \<union> set xs) s'"
  using assms
proof (induction xs arbitrary: D s)
  case (Cons x xs)
  from Cons.prems obtain s' where s': "f x s = Some s'" "P (insert x D) s'"
    by (metis disjoint_iff list.set_intros(1))
  have "\<exists>t. foldM f xs s' = Some t \<and> P (insert x D \<union> set xs) t"
    using Cons.prems s'(2) by (intro Cons.IH) auto
  with s'(1) show ?case by auto
qed simp

section \<open>Schedules of a parallel launch\<close>

definition schedule :: "nat \<Rightarrow> nat list \<Rightarrow> bool" where
  "schedule n ord \<longleftrightarrow> distinct ord \<and> set ord = {..<n}"

lemma schedule_upt [simp]: "schedule n [0..<n]"
  by (auto simp: schedule_def)

lemma schedule_rev_upt [simp]: "schedule n (rev [0..<n])"
  by (auto simp: schedule_def)

lemma schedule_length: "schedule n ord \<Longrightarrow> length ord = n"
  by (metis card_lessThan distinct_card schedule_def)

lemma schedule_mset: "schedule n ord \<Longrightarrow> mset ord = mset [0..<n]"
  by (metis schedule_def schedule_upt set_eq_iff_mset_eq_distinct)

lemma schedule_in: "schedule n ord \<Longrightarrow> i \<in> set ord \<longleftrightarrow> i < n"
  by (auto simp: schedule_def)

lemma foldM_schedule:
  assumes "schedule n ord" and "P {} s"
    and "\<And>D i s. i < n \<Longrightarrow> i \<notin> D \<Longrightarrow> P D s \<Longrightarrow> \<exists>s'. f i s = Some s' \<and> P (insert i D) s'"
  shows "\<exists>s'. foldM f ord s = Some s' \<and> P {..<n} s'"
  using foldM_distinct [of ord P "{}" s f] assms by (auto simp: schedule_def)

text \<open>
  The common shape of a launch: work-item \<open>i\<close> writes the cells \<open>addr i\<close> of a buffer with
  values that do not depend on the buffer, and no two items share a cell.  Then every
  schedule gives the same buffer, described cell by cell.
\<close>

definition owns :: "nat \<Rightarrow> (nat \<Rightarrow> nat set) \<Rightarrow> bool" where
  "owns n cells \<longleftrightarrow> (\<forall>i<n. \<forall>j<n. i \<noteq> j \<longrightarrow> cells i \<inter> cells j = {})"

definition writes :: "nat set \<Rightarrow> (nat \<Rightarrow> 'a) \<Rightarrow> 'a list \<Rightarrow> 'a list \<Rightarrow> bool" where
  "writes C v b b' \<longleftrightarrow> length b' = length b \<and>
     (\<forall>a<length b. b' ! a = (if a \<in> C then v a else b ! a))"

lemma writes_empty [simp]: "writes {} v b b' \<longleftrightarrow> b' = b"
  by (auto simp: writes_def list_eq_iff_nth_eq)

lemma writes_unique: "writes C v b b1 \<Longrightarrow> writes C v b b2 \<Longrightarrow> b1 = b2"
  by (simp add: writes_def list_eq_iff_nth_eq)

lemma writes_single: "a < length b \<Longrightarrow> writes {a} v b (b[a := v a])"
  by (auto simp: writes_def nth_list_update)

lemma writes_trans: "writes C v b b1 \<Longrightarrow> writes C' v b1 b2 \<Longrightarrow> writes (C \<union> C') v b b2"
  by (auto simp: writes_def)

lemma writes_length: "writes C v b b' \<Longrightarrow> length b' = length b"
  by (simp add: writes_def)

lemma writes_map_upt: "writes {..<n} v b b' \<Longrightarrow> length b = n \<Longrightarrow> b' = map v [0..<n]"
  by (auto simp: writes_def list_eq_iff_nth_eq)

lemma launch_writes:
  assumes ord: "schedule n ord"
    and item: "\<And>i m. i < n \<Longrightarrow> length m = length b \<Longrightarrow> \<exists>m'. f i m = Some m' \<and> writes (cells i) v m m'"
  shows "\<exists>b'. foldM f ord b = Some b' \<and> writes (\<Union>i<n. cells i) v b b'"
proof -
  have "\<exists>b'. foldM f ord b = Some b' \<and> (writes (\<Union>i\<in>{..<n}. cells i) v b b')"
  proof (rule foldM_schedule [OF ord, where P = "\<lambda>D m. writes (\<Union>i\<in>D. cells i) v b m"])
    fix D i s assume "i < n" "i \<notin> D" and P: "writes (\<Union>i\<in>D. cells i) v b s"
    with item [of i s] obtain m' where "f i s = Some m'" "writes (cells i) v s m'"
      by (auto dest: writes_length)
    with writes_trans [OF P this(2)] show "\<exists>s'. f i s = Some s' \<and> writes (\<Union>i\<in>insert i D. cells i) v b s'"
      by (auto simp: Un_commute)
  qed simp
  then show ?thesis by simp
qed

lemma launch_store:
  assumes "schedule n ord" and "length b = n"
    and "\<And>i m. i < n \<Longrightarrow> length m = n \<Longrightarrow> f i m = wr m i (v i)"
  shows "foldM f ord b = Some (map v [0..<n])"
proof -
  have "\<exists>b'. foldM f ord b = Some b' \<and> writes (\<Union>i<n. {i}) v b b'"
    using assms by (intro launch_writes) (auto intro: writes_single)
  moreover have "(\<Union>i<n. {i}) = {..<n}" by auto
  ultimately show ?thesis using assms(2) by (metis writes_map_upt)
qed

text \<open>
  Several buffers, or values that depend on the item: \<open>rows_done\<close> says that the items in \<open>D\<close>
  have written their cells and nothing else has changed.
\<close>

definition rows_done :: "(nat \<Rightarrow> nat set) \<Rightarrow> (nat \<Rightarrow> nat \<Rightarrow> 'a) \<Rightarrow> 'a list \<Rightarrow> nat set \<Rightarrow> 'a list \<Rightarrow> bool" where
  "rows_done cells w b D m \<longleftrightarrow> length m = length b \<and>
     (\<forall>i\<in>D. \<forall>a\<in>cells i. a < length b \<longrightarrow> m ! a = w i a) \<and>
     (\<forall>a<length b. a \<notin> (\<Union>i\<in>D. cells i) \<longrightarrow> m ! a = b ! a)"

lemma rows_done_empty [simp]: "rows_done cells w b {} b"
  by (simp add: rows_done_def)

lemma rows_done_length: "rows_done cells w b D m \<Longrightarrow> length m = length b"
  by (simp add: rows_done_def)

lemma rows_done_step:
  assumes "owns n cells" "rows_done cells w b D m" "writes (cells i) (w i) m m'"
    and "i < n" "i \<notin> D" "D \<subseteq> {..<n}"
  shows "rows_done cells w b (insert i D) m'"
proof -
  have "cells j \<inter> cells i = {}" if "j \<in> D" for j
    using assms(1,4-6) that unfolding owns_def by (metis lessThan_iff subsetD)
  then show ?thesis
    using assms(2,3) unfolding rows_done_def writes_def by auto
qed

lemma rows_done_cell: "rows_done cells w b {..<n} m \<Longrightarrow> i < n \<Longrightarrow> a \<in> cells i \<Longrightarrow> a < length b \<Longrightarrow> m ! a = w i a"
  by (auto simp: rows_done_def)

lemma rows_done_frame: "rows_done cells w b D m \<Longrightarrow> a < length b \<Longrightarrow> (\<And>i. i \<in> D \<Longrightarrow> a \<notin> cells i) \<Longrightarrow> m ! a = b ! a"
  by (auto simp: rows_done_def)

text \<open>The same as one step of a launch whose items may read the cells they own: an item finds there what the
  launch started with.\<close>

lemma launch_rows:
  assumes sched: "schedule n ord" and own: "owns n cells"
    and item: "\<And>i m. i < n \<Longrightarrow> length m = length b \<Longrightarrow> (\<And>a. a \<in> cells i \<Longrightarrow> a < length b \<Longrightarrow> m ! a = b ! a) \<Longrightarrow>
      \<exists>m'. f i m = Some m' \<and> writes (cells i) (w i) m m'"
  shows "\<exists>m. foldM f ord b = Some m \<and> rows_done cells w b {..<n} m"
proof -
  have "\<exists>m. foldM f ord b = Some m \<and> (rows_done cells w b {..<n} m \<and> {..<n} \<subseteq> {..<n})"
  proof (rule foldM_schedule [OF sched, where P = "\<lambda>D m. rows_done cells w b D m \<and> D \<subseteq> {..<n}"])
    fix D i m assume i: "i < n" "i \<notin> D" and P: "rows_done cells w b D m \<and> D \<subseteq> {..<n}"
    have "m ! a = b ! a" if a: "a \<in> cells i" "a < length b" for a
    proof (rule rows_done_frame [OF conjunct1 [OF P] a(2)])
      fix j assume "j \<in> D"
      then have "j < n" "j \<noteq> i" using P i(2) by auto
      then show "a \<notin> cells j" using own i(1) a(1) unfolding owns_def by blast
    qed
    from item [OF i(1) rows_done_length [OF conjunct1 [OF P]] this] obtain m' where m': "f i m = Some m'" "writes (cells i) (w i) m m'" by blast
    have "rows_done cells w b (insert i D) m'" using rows_done_step [OF own conjunct1 [OF P] m'(2) i] P by blast
    then show "\<exists>m'. f i m = Some m' \<and> (rows_done cells w b (insert i D) m' \<and> insert i D \<subseteq> {..<n})" using m'(1) P i(1) by blast
  qed simp
  then show ?thesis by blast
qed

text \<open>Two buffers, of which an item reads its cells of the first.\<close>

lemma launch_rows2:
  assumes sched: "schedule n ord" and own: "owns n cells" "owns n cells'"
    and item: "\<And>i a b. i < n \<Longrightarrow> length a = length a0 \<Longrightarrow> length b = length b0 \<Longrightarrow> (\<And>c. c \<in> cells i \<Longrightarrow> c < length a0 \<Longrightarrow> a ! c = a0 ! c) \<Longrightarrow>
      \<exists>a' b'. f i (a, b) = Some (a', b') \<and> writes (cells i) (u i) a a' \<and> writes (cells' i) (v i) b b'"
  shows "\<exists>a b. foldM f ord (a0, b0) = Some (a, b) \<and> rows_done cells u a0 {..<n} a \<and> rows_done cells' v b0 {..<n} b"
proof -
  let ?P = "\<lambda>D s. rows_done cells u a0 D (fst s) \<and> rows_done cells' v b0 D (snd s) \<and> D \<subseteq> {..<n}"
  have "\<exists>s. foldM f ord (a0, b0) = Some s \<and> ?P {..<n} s"
  proof (rule foldM_schedule [OF sched, where P = ?P])
    fix D i s assume i: "i < n" "i \<notin> D" and P: "?P D s"
    obtain a b where s: "s = (a, b)" by (cases s)
    have da: "rows_done cells u a0 D a" and db: "rows_done cells' v b0 D b" and D: "D \<subseteq> {..<n}" using P s by simp_all
    have "a ! c = a0 ! c" if c: "c \<in> cells i" "c < length a0" for c
    proof (rule rows_done_frame [OF da c(2)])
      fix j assume "j \<in> D"
      then have "j < n" "j \<noteq> i" using D i(2) by auto
      then show "c \<notin> cells j" using own(1) i(1) c(1) unfolding owns_def by blast
    qed
    from item [OF i(1) rows_done_length [OF da] rows_done_length [OF db] this] obtain a' b'
      where ab: "f i (a, b) = Some (a', b')" "writes (cells i) (u i) a a'" "writes (cells' i) (v i) b b'" by blast
    have "?P (insert i D) (a', b')"
      using rows_done_step [OF own(1) da ab(2) i D] rows_done_step [OF own(2) db ab(3) i D] D i(1) by simp
    then show "\<exists>s'. f i s = Some s' \<and> ?P (insert i D) s'" using ab(1) s by blast
  qed simp
  then obtain a b where "foldM f ord (a0, b0) = Some (a, b)" "?P {..<n} (a, b)" by fast
  then show ?thesis by auto
qed

section \<open>Arrays addressed by signed strides\<close>

definition rdi :: "'a list \<Rightarrow> int \<Rightarrow> 'a option" where
  "rdi b a = (if a < 0 then None else rd b (nat a))"

definition wri :: "'a list \<Rightarrow> int \<Rightarrow> 'a \<Rightarrow> 'a list option" where
  "wri b a v = (if a < 0 then None else wr b (nat a) v)"

text \<open>\<open>static_cast<std::size_t>\<close> of a signed integer.\<close>

definition usize :: "int \<Rightarrow> nat" where
  "usize i = nat (i mod 2 ^ 64)"

lemma usize_nonneg [simp]: "0 \<le> i \<Longrightarrow> i < 2 ^ 64 \<Longrightarrow> usize i = nat i"
  by (simp add: usize_def)

lemma rdi_Some [simp]: "0 \<le> a \<Longrightarrow> nat a < length b \<Longrightarrow> rdi b a = Some (b ! nat a)"
  by (simp add: rdi_def)

lemma wri_Some [simp]: "0 \<le> a \<Longrightarrow> nat a < length b \<Longrightarrow> wri b a v = Some (b[nat a := v])"
  by (simp add: wri_def)

text \<open>A launch rounds the number of work-items up to whole groups; the items beyond do nothing.\<close>

lemma cells_guard_owns:
  "owns n cells \<Longrightarrow> owns N (\<lambda>i. if i < n then cells i else {})"
  by (auto simp: owns_def)

text \<open>One buffer, one loop of stores at distinct places.\<close>

lemma store_loop:
  assumes "\<And>i m. i < n \<Longrightarrow> length m = length b \<Longrightarrow> f i m = wr m (off + i) (v i)" and "off + n \<le> length b"
  shows "\<exists>b'. foldM f [0..<n] b = Some b' \<and> writes {off..<off + n} (\<lambda>a. v (a - off)) b b'"
proof -
  have "\<exists>b'. foldM f [0..<n] b = Some b' \<and> writes {off..<off + n} (\<lambda>a. v (a - off)) b b'"
  proof (rule foldM_upt [where P = "\<lambda>k m. writes {off..<off + k} (\<lambda>a. v (a - off)) b m"])
    fix i m assume i: "i < n" and m: "writes {off..<off + i} (\<lambda>a. v (a - off)) b m"
    have "f i m = Some (m[off + i := v i])"
      using assms i writes_length [OF m] by simp
    moreover have "writes {off..<off + Suc i} (\<lambda>a. v (a - off)) b (m[off + i := v i])"
      using m unfolding writes_def by (auto simp: nth_list_update less_Suc_eq)
    ultimately show "\<exists>s'. f i m = Some s' \<and> writes {off..<off + Suc i} (\<lambda>a. v (a - off)) b s'" by blast
  qed auto
  then show ?thesis .
qed

lemma writes_Suc:
  assumes "writes {off..<off + i} v b m" "x = v (off + i)"
  shows "writes {off..<Suc (off + i)} v b (m[off + i := x])"
  using assms unfolding writes_def by (auto simp: nth_list_update less_Suc_eq)

text \<open>Registers loaded from a buffer, and registers stored to distinct cells.\<close>

lemma store_cells:
  assumes "inj_on A {..<n}" "\<And>k. k < n \<Longrightarrow> A k < length b" "\<And>k m. k < n \<Longrightarrow> length m = length b \<Longrightarrow> f k m = Some (m[A k := h k])"
  shows "\<exists>b'. foldM f [0..<n] b = Some b' \<and> writes (A ` {..<n}) (\<lambda>a. h (the_inv_into {..<n} A a)) b b'"
proof (rule foldM_upt [where P = "\<lambda>k m. writes (A ` {..<k}) (\<lambda>a. h (the_inv_into {..<n} A a)) b m"])
  fix k m assume k: "k < n" and m: "writes (A ` {..<k}) (\<lambda>a. h (the_inv_into {..<n} A a)) b m"
  have "f k m = Some (m[A k := h k])" using assms(3) [OF k] m by (simp add: writes_length)
  moreover have "the_inv_into {..<n} A (A k) = k" using assms(1) k by (simp add: the_inv_into_f_f)
  then have "writes (A ` {..<Suc k}) (\<lambda>a. h (the_inv_into {..<n} A a)) b (m[A k := h k])"
    using m assms(2) [OF k] by (auto simp: writes_def nth_list_update lessThan_Suc)
  ultimately show "\<exists>s'. f k m = Some s' \<and> writes (A ` {..<Suc k}) (\<lambda>a. h (the_inv_into {..<n} A a)) b s'" by blast
qed simp_all

lemma load_regs:
  assumes "n \<le> N" "\<And>k. k < n \<Longrightarrow> g k = Some (r k)" "\<And>k. k < n \<Longrightarrow> f (r k) = h k"
  shows "foldM (\<lambda>k w. do { v \<leftarrow> g k; wr w k (f v) }) [0..<n] (replicate N z) = Some (map h [0..<n] @ replicate (N - n) z)"
  using assms
proof (induction n)
  case (Suc n)
  have "(map h [0..<n] @ replicate (N - n) z)[n := h n] = map h [0..<Suc n] @ replicate (N - Suc n) z"
    using Suc.prems(1) by (intro nth_equalityI) (auto simp: nth_list_update nth_append less_Suc_eq)
  then show ?case using Suc by (simp add: foldM_append)
qed simp

lemma store2_loop:
  assumes "distinct is" "set is = {..<n}" "off + n \<le> length a0" "off + n \<le> length b0"
    and body: "\<And>i a b. i < n \<Longrightarrow> length a = length a0 \<Longrightarrow> a ! (off + i) = a0 ! (off + i) \<Longrightarrow> length b = length b0 \<Longrightarrow>
      body i (a, b) = Some (a[off + i := u i], b[off + i := v i])"
  shows "\<exists>a b. foldM body is (a0, b0) = Some (a, b) \<and> writes {off..<off + n} (\<lambda>c. u (c - off)) a0 a \<and> writes {off..<off + n} (\<lambda>c. v (c - off)) b0 b"
proof -
  let ?P = "\<lambda>D s. writes ((+) off ` D) (\<lambda>c. u (c - off)) a0 (fst s) \<and> writes ((+) off ` D) (\<lambda>c. v (c - off)) b0 (snd s)"
  have "\<exists>s. foldM body is (a0, b0) = Some s \<and> ?P ({} \<union> set is) s"
  proof (rule foldM_distinct [OF assms(1), where P = ?P])
    fix D i s assume i: "i \<in> set is" "i \<notin> D" and P: "?P D s"
    obtain a b where s: "s = (a, b)" by (cases s)
    have n: "i < n" using i(1) assms(2) by simp
    have wa: "writes ((+) off ` D) (\<lambda>c. u (c - off)) a0 a" and wb: "writes ((+) off ` D) (\<lambda>c. v (c - off)) b0 b" using P s by simp_all
    have la: "length a = length a0" "length b = length b0" using wa wb by (auto dest: writes_length)
    have in': "off + i < length a0" "off + i < length b0" using n assms(3,4) by simp_all
    have "off + i \<notin> (+) off ` D" using i(2) by auto
    then have "a ! (off + i) = a0 ! (off + i)" using wa in'(1) by (simp add: writes_def)
    then have b: "body i s = Some (a[off + i := u i], b[off + i := v i])" unfolding s using body [OF n] la by simp
    have "writes ((+) off ` insert i D) (\<lambda>c. u (c - off)) a0 (a[off + i := u i])"
      using wa in'(1) by (auto simp: writes_def nth_list_update)
    moreover have "writes ((+) off ` insert i D) (\<lambda>c. v (c - off)) b0 (b[off + i := v i])"
      using wb in'(2) by (auto simp: writes_def nth_list_update)
    ultimately show "\<exists>s'. body i s = Some s' \<and> ?P (insert i D) s'" unfolding b by auto
  qed auto
  then obtain a b where ab: "foldM body is (a0, b0) = Some (a, b)" "?P ({} \<union> set is) (a, b)" by fast
  have "(+) off ` ({} \<union> set is) = {off..<off + n}" using assms(2) by (simp add: lessThan_atLeast0 add.commute)
  then show ?thesis using ab by auto
qed

section \<open>Packed sequences\<close>

text \<open>Prefix offsets of a batch of sequences: sequence \<open>s\<close> has the tokens from \<open>qsl ! s\<close> up to \<open>qsl ! (s + 1)\<close>.\<close>

definition packed :: "int list \<Rightarrow> nat \<Rightarrow> nat \<Rightarrow> bool" where
  "packed qsl batch ntok \<longleftrightarrow> length qsl = batch + 1 \<and> qsl ! 0 = 0 \<and> (\<forall>s<batch. qsl ! s \<le> qsl ! (s + 1)) \<and> qsl ! batch = int ntok \<and> ntok < 2 ^ 31"

definition bos_of :: "int list \<Rightarrow> nat \<Rightarrow> nat" where "bos_of qsl s = nat (qsl ! s)"

definition seq_len :: "int list \<Rightarrow> nat \<Rightarrow> nat" where "seq_len qsl s = nat (qsl ! (s + 1)) - nat (qsl ! s)"

lemma packed_mono: "packed qsl batch ntok \<Longrightarrow> i \<le> j \<Longrightarrow> j \<le> batch \<Longrightarrow> qsl ! i \<le> qsl ! j"
proof (induction j)
  case (Suc j)
  then show ?case
    by (cases "i = Suc j") (auto simp: packed_def intro: order_trans [where y = "qsl ! j"])
qed simp

lemma packed_bounds: "packed qsl batch ntok \<Longrightarrow> s \<le> batch \<Longrightarrow> 0 \<le> qsl ! s \<and> qsl ! s \<le> int ntok"
  using packed_mono [of qsl batch ntok 0 s] packed_mono [of qsl batch ntok s batch] by (simp add: packed_def)

lemma packed_rd:
  assumes "packed qsl batch ntok" "s \<le> batch"
  shows "rd qsl s = Some (qsl ! s)" "usize (qsl ! s) = nat (qsl ! s)"
proof -
  show "rd qsl s = Some (qsl ! s)" using assms by (simp add: packed_def)
  have "qsl ! s < 2 ^ 64" using packed_bounds [OF assms] assms(1) by (simp add: packed_def)
  then show "usize (qsl ! s) = nat (qsl ! s)" using packed_bounds [OF assms] by (intro usize_nonneg) simp_all
qed

lemma packed_token:
  assumes "packed qsl batch ntok" "tok < ntok"
  obtains s t where "s < batch" "t < seq_len qsl s" "tok = bos_of qsl s + t"
proof -
  let ?P = "\<lambda>s. tok < nat (qsl ! (s + 1))"
  have b: "0 < batch" using assms by (cases batch) (auto simp: packed_def)
  have "?P (batch - 1)" using assms b by (simp add: packed_def)
  then have L: "?P (LEAST s. ?P s)" "(LEAST s. ?P s) \<le> batch - 1" by (rule LeastI, rule Least_le)
  define s where "s = (LEAST s. ?P s)"
  have s: "s < batch" using L(2) b by (simp add: s_def)
  have lo: "nat (qsl ! s) \<le> tok"
  proof (cases s)
    case 0
    then show ?thesis using assms(1) by (simp add: packed_def)
  next
    case (Suc r)
    then have "\<not> ?P r" unfolding s_def using not_less_Least [of r ?P] by simp
    then show ?thesis using Suc by simp
  qed
  have "tok - nat (qsl ! s) < seq_len qsl s" using lo L(1) unfolding s_def [symmetric] seq_len_def by linarith
  moreover have "tok = bos_of qsl s + (tok - nat (qsl ! s))" using lo by (simp add: bos_of_def)
  ultimately show ?thesis using that s by blast
qed

text \<open>A launch whose item \<open>i\<close> establishes \<open>Q i\<close> and keeps what the others have established.\<close>

lemma launch_inv:
  assumes "schedule n ord" "I s"
    and item: "\<And>i s. i < n \<Longrightarrow> I s \<Longrightarrow> \<exists>s'. f i s = Some s' \<and> I s' \<and> Q i s' \<and> (\<forall>j<n. j \<noteq> i \<longrightarrow> Q j s \<longrightarrow> Q j s')"
  shows "\<exists>s'. foldM f ord s = Some s' \<and> I s' \<and> (\<forall>i<n. Q i s')"
proof -
  have "\<exists>s'. foldM f ord s = Some s' \<and> (I s' \<and> (\<forall>i\<in>{..<n}. Q i s') \<and> {..<n} \<subseteq> {..<n})"
  proof (rule foldM_schedule [OF assms(1), where P = "\<lambda>D s. I s \<and> (\<forall>i\<in>D. Q i s) \<and> D \<subseteq> {..<n}"])
    fix D i s assume i: "i < n" "i \<notin> D" and P: "I s \<and> (\<forall>i\<in>D. Q i s) \<and> D \<subseteq> {..<n}"
    obtain s' where s': "f i s = Some s'" "I s'" "Q i s'" "\<forall>j<n. j \<noteq> i \<longrightarrow> Q j s \<longrightarrow> Q j s'" using item [OF i(1)] P by blast
    have "Q j s'" if "j \<in> insert i D" for j
      using that s'(3,4) P i(2) by (cases "j = i") auto
    then show "\<exists>s'. f i s = Some s' \<and> (I s' \<and> (\<forall>i\<in>insert i D. Q i s') \<and> insert i D \<subseteq> {..<n})" using s' P i(1) by blast
  qed (use assms(2) in simp)
  then show ?thesis by auto
qed

section \<open>Ceiling division and grid-stride loops\<close>

definition cdiv :: "nat \<Rightarrow> nat \<Rightarrow> nat" where
  "cdiv a b = (a + b - 1) div b"

lemma cdiv_0 [simp]: "0 < b \<Longrightarrow> cdiv 0 b = 0"
  by (simp add: cdiv_def)

lemma cdiv_upper: "0 < b \<Longrightarrow> a \<le> cdiv a b * b"
proof -
  assume b: "0 < b"
  have "a + b - 1 = (a + b - 1) div b * b + (a + b - 1) mod b"
    by (rule div_mult_mod_eq [symmetric])
  moreover have "(a + b - 1) mod b < b" using b by simp
  ultimately show ?thesis unfolding cdiv_def by linarith
qed

lemma cdiv_lower: "0 < b \<Longrightarrow> cdiv a b * b < a + b"
proof -
  assume b: "0 < b"
  have "(a + b - 1) div b * b \<le> a + b - 1" by (rule div_times_less_eq_dividend)
  then show ?thesis using b unfolding cdiv_def by linarith
qed

lemma cdiv_less_iff: "0 < b \<Longrightarrow> i < cdiv a b \<longleftrightarrow> i * b < a"
proof -
  assume b: "0 < b"
  have "i < cdiv a b \<longleftrightarrow> Suc i \<le> (a + b - 1) div b" by (auto simp: cdiv_def)
  also have "\<dots> \<longleftrightarrow> Suc i * b \<le> a + b - 1" using b by (simp add: less_eq_div_iff_mult_less_eq)
  also have "\<dots> \<longleftrightarrow> i * b < a" using b by auto
  finally show ?thesis .
qed

lemma cdiv_mono: "a \<le> a' \<Longrightarrow> cdiv a b \<le> cdiv a' b"
  by (simp add: cdiv_def div_le_mono diff_le_mono)

lemma cdiv_add_le: "0 < b \<Longrightarrow> cdiv a b \<le> a div b + 1"
  by (metis add_diff_cancel_right' add_diff_inverse_nat cdiv_def div_add_self2 div_le_mono le_add1 less_one
      linorder_not_less nat_less_le not_add_less1 diff_le_self)

function strided :: "nat \<Rightarrow> nat \<Rightarrow> nat \<Rightarrow> nat list" where
  "strided lo step hi = (if lo < hi \<and> 0 < step then lo # strided (lo + step) step hi else [])"
  by pat_completeness auto
termination
  by (relation "measure (\<lambda>(lo, step, hi). hi - lo)") auto

declare strided.simps [simp del]

lemma strided_Nil [simp]: "hi \<le> lo \<Longrightarrow> strided lo step hi = []"
  by (subst strided.simps) simp

lemma strided_Cons: "lo < hi \<Longrightarrow> 0 < step \<Longrightarrow> strided lo step hi = lo # strided (lo + step) step hi"
  by (subst strided.simps) simp

lemma strided_ge: "i \<in> set (strided lo step hi) \<Longrightarrow> lo \<le> i \<and> i < hi"
proof (induction lo step hi rule: strided.induct)
  case (1 lo step hi)
  then show ?case by (subst (asm) (2) strided.simps) (auto split: if_splits)
qed

lemma set_strided:
  "0 < step \<Longrightarrow> set (strided lo step hi) = {i. lo \<le> i \<and> i < hi \<and> i mod step = lo mod step}"
proof (induction lo step hi rule: strided.induct)
  case (1 lo step hi)
  show ?case
  proof (cases "lo < hi")
    case True
    have "{i. lo \<le> i \<and> i < hi \<and> i mod step = lo mod step} =
        insert lo {i. lo + step \<le> i \<and> i < hi \<and> i mod step = lo mod step}" (is "?L = ?R")
    proof (intro set_eqI iffI)
      fix i assume i: "i \<in> ?L"
      show "i \<in> ?R"
      proof (cases "i = lo")
        case False
        with i have "lo < i" "step dvd i - lo" by (auto simp: mod_eq_dvd_iff_nat)
        then have "step \<le> i - lo" by (auto dest: dvd_imp_le)
        with i show ?thesis by auto
      qed (use True in simp)
    qed (use True in auto)
    with 1 True show ?thesis by (simp add: strided_Cons)
  qed (use 1 in auto)
qed

lemma distinct_strided [simp]: "distinct (strided lo step hi)"
proof (induction lo step hi rule: strided.induct)
  case (1 lo step hi)
  show ?case
  proof (cases "lo < hi \<and> 0 < step")
    case True
    then show ?thesis using 1 by (auto simp: strided_Cons dest: strided_ge)
  next
    case False
    then show ?thesis by (subst strided.simps) auto
  qed
qed

lemma sorted_strided [simp]: "sorted_wrt (<) (strided lo step hi)"
proof (induction lo step hi rule: strided.induct)
  case (1 lo step hi)
  show ?case
  proof (cases "lo < hi \<and> 0 < step")
    case True
    then show ?thesis using 1 by (auto simp: strided_Cons dest!: strided_ge)
  next
    case False
    then show ?thesis by (subst strided.simps) auto
  qed
qed

lemma strided_1: "strided lo 1 hi = [lo..<hi]"
proof (induction "hi - lo" arbitrary: lo)
  case (Suc k)
  then show ?case by (simp add: strided_Cons upt_conv_Cons)
qed simp

lemma strided_mult_from: "0 < step \<Longrightarrow> strided lo step (lo + step * m) = map (\<lambda>g. lo + step * g) [0..<m]"
proof (induction m arbitrary: lo)
  case (Suc m)
  have "strided lo step (lo + step * Suc m) = lo # strided (lo + step) step (lo + step + step * m)"
    using Suc.prems by (subst strided.simps) (simp add: add.assoc)
  also have "\<dots> = lo # map (\<lambda>g. lo + step * Suc g) [0..<m]"
    unfolding Suc.IH [OF Suc.prems] by (simp add: add.assoc)
  also have "\<dots> = map (\<lambda>g. lo + step * g) (0 # map Suc [0..<m])"
    by (simp add: comp_def)
  finally show ?case by (simp only: map_Suc_upt upt_conv_Cons [symmetric] zero_less_Suc)
qed simp

lemma strided_mult: "0 < step \<Longrightarrow> strided 0 step (step * m) = map (\<lambda>g. step * g) [0..<m]"
  using strided_mult_from [of step 0 m] by simp

text \<open>The lanes \<open>0..<step\<close> of a grid-stride loop visit every index below \<open>hi\<close> exactly once.\<close>

lemma count_mset_distinct: "distinct xs \<Longrightarrow> count (mset xs) i = (if i \<in> set xs then 1 else 0)"
  by (simp add: distinct_count_atmost_1)

lemma count_sum_list_map: "count (\<Sum>x\<leftarrow>xs. f x) i = (\<Sum>x\<leftarrow>xs. count (f x) i)"
  by (induction xs) auto

lemma mset_strided_lanes:
  assumes "0 < step"
  shows "(\<Sum>l\<leftarrow>[0..<step]. mset (strided l step hi)) = mset [0..<hi]"
proof (rule multiset_eqI)
  fix i
  have "count (\<Sum>l\<leftarrow>[0..<step]. mset (strided l step hi)) i
      = (\<Sum>l\<leftarrow>[0..<step]. count (mset (strided l step hi)) i)"
    by (rule count_sum_list_map)
  also have "\<dots> = (\<Sum>l\<leftarrow>[0..<step]. if i mod step = l \<and> i < hi then 1 else 0)"
    using assms
    by (intro arg_cong [where f = sum_list] map_cong)
       (auto simp: count_mset_distinct set_strided dest: mod_le_divisor intro: mod_less_eq_dividend)
  also have "\<dots> = (\<Sum>l\<in>{0..<step}. if i mod step = l \<and> i < hi then 1 else 0)"
    by (simp add: interv_sum_list_conv_sum_set_nat)
  also have "\<dots> = (if i < hi then 1 else 0)"
    using assms by (cases "i < hi") (simp_all add: sum.delta)
  also have "\<dots> = count (mset [0..<hi]) i"
    by (simp add: distinct_count_atmost_1)
  finally show "count (\<Sum>l\<leftarrow>[0..<step]. mset (strided l step hi)) i = count (mset [0..<hi]) i" .
qed

lemma sum_strided_lanes:
  fixes f :: "nat \<Rightarrow> 'a::comm_monoid_add"
  assumes "0 < step"
  shows "(\<Sum>l\<leftarrow>[0..<step]. \<Sum>i\<leftarrow>strided l step hi. f i) = (\<Sum>i<hi. f i)"
proof -
  have eq: "(\<Sum>l\<leftarrow>ls. \<Sum>i\<leftarrow>strided l step hi. f i)
      = sum_mset (image_mset f (\<Sum>l\<leftarrow>ls. mset (strided l step hi)))" for ls
    by (induction ls) (auto simp: sum_mset_sum_list [symmetric])
  show ?thesis
    unfolding eq mset_strided_lanes [OF assms]
    by (simp add: sum_unfold_sum_mset atLeast0LessThan)
qed

section \<open>Sums of lists\<close>

lemma fold_plus_sum: "fold (\<lambda>i acc. acc + f i) xs (a::'a::comm_monoid_add) = a + (\<Sum>i\<leftarrow>xs. f i)"
  by (induction xs arbitrary: a) (auto simp: ac_simps)

lemma div_mult_add_lt: "i < (m::nat) \<Longrightarrow> j < n \<Longrightarrow> i * n + j < m * n"
proof -
  assume "i < m" "j < n"
  then have "i * n + j < Suc i * n" by simp
  also have "\<dots> \<le> m * n" using \<open>i < m\<close> by (intro mult_le_mono1) simp
  finally show ?thesis .
qed

lemma row_col_inj: "j < (n::nat) \<Longrightarrow> j' < n \<Longrightarrow> i * n + j = i' * n + j' \<longleftrightarrow> i = i' \<and> j = j'"
proof
  assume "j < n" "j' < n" "i * n + j = i' * n + j'"
  then have "(i * n + j) div n = (i' * n + j') div n" "(i * n + j) mod n = (i' * n + j') mod n" by simp_all
  with \<open>j < n\<close> \<open>j' < n\<close> show "i = i' \<and> j = j'" by simp
qed auto

text \<open>Rows of width \<open>w\<close> of a matrix.\<close>

lemma src_row: "t < T \<Longrightarrow> t * w + w \<le> T * (w::nat)"
  using mult_le_mono1 [of "Suc t" T w] by simp

lemma rows_apart: "d \<noteq> d' \<Longrightarrow> {d * w..<d * w + w} \<inter> {d' * w..<d' * w + (w::nat)} = {}"
proof -
  have "{d * w..<d * w + w} \<inter> {d' * w..<d' * w + w} = {}" if "d < d'" for d d' :: nat
    using src_row [OF that, of w] by auto
  then show "d \<noteq> d' \<Longrightarrow> ?thesis" by (metis inf_commute linorder_neqE_nat)
qed

lemma rows_own: "owns n (\<lambda>i. {i * w..<i * w + w})"
  unfolding owns_def using rows_apart by blast

lemma those_map_Some: "(\<And>i. i \<in> set xs \<Longrightarrow> f i = Some (g i)) \<Longrightarrow> those (map f xs) = Some (map g xs)"
  by (induction xs) auto

lemma fold_add_sum: "(\<And>b acc. f b acc = acc + g b) \<Longrightarrow> fold f bs (a :: 'f::comm_monoid_add) = a + (\<Sum>b\<leftarrow>bs. g b)"
  by (induction bs arbitrary: a) (auto simp: ac_simps)

text \<open>A launch that writes the same cells of two buffers.\<close>

lemma launch_pair:
  assumes ord: "schedule n ord" and own: "owns n cells"
    and item: "\<And>i m m'. i < n \<Longrightarrow> length m = length b \<Longrightarrow> length m' = length c \<Longrightarrow>
      \<exists>m1 m2. f i (m, m') = Some (m1, m2) \<and> writes (cells i) (v i) m m1 \<and> writes (cells i) (u i) m' m2"
  shows "\<exists>b' c'. foldM f ord (b, c) = Some (b', c') \<and> rows_done cells v b {..<n} b' \<and> rows_done cells u c {..<n} c'"
proof -
  have "\<exists>st. foldM f ord (b, c) = Some st \<and>
    (rows_done cells v b {..<n} (fst st) \<and> rows_done cells u c {..<n} (snd st) \<and> {..<n} \<subseteq> {..<n})"
  proof (rule foldM_schedule [OF ord, where P = "\<lambda>D st. rows_done cells v b D (fst st) \<and> rows_done cells u c D (snd st) \<and> D \<subseteq> {..<n}"])
    fix D i st assume i: "i < n" "i \<notin> D" and P: "rows_done cells v b D (fst st) \<and> rows_done cells u c D (snd st) \<and> D \<subseteq> {..<n}"
    obtain m m' where st: "st = (m, m')" by fastforce
    have len: "length m = length b" "length m' = length c" using P st by (auto dest: rows_done_length)
    obtain m1 m2 where r: "f i (m, m') = Some (m1, m2)" "writes (cells i) (v i) m m1" "writes (cells i) (u i) m' m2"
      using item [OF i(1) len] by blast
    have "rows_done cells v b (insert i D) m1"
      by (rule rows_done_step [where w = v, OF own _ r(2) i]) (use P st in auto)
    moreover have "rows_done cells u c (insert i D) m2"
      by (rule rows_done_step [where w = u, OF own _ r(3) i]) (use P st in auto)
    ultimately show "\<exists>s'. f i st = Some s' \<and>
        (rows_done cells v b (insert i D) (fst s') \<and> rows_done cells u c (insert i D) (snd s') \<and> insert i D \<subseteq> {..<n})"
      using r(1) st P i by auto
  qed simp
  then show ?thesis by auto
qed

lemma rows_done_writes: "rows_done cells (\<lambda>i. w) b {..<n} m \<Longrightarrow> writes (\<Union>i<n. cells i) w b m"
  unfolding rows_done_def writes_def by auto

text \<open>A launch whose item \<open>r\<close> stores one value with property \<open>Q r\<close> in cell \<open>r\<close>.\<close>

lemma launch_choose:
  assumes "schedule n ord" "length out = n"
    and item: "\<And>r m. r < n \<Longrightarrow> length m = n \<Longrightarrow> \<exists>v. f r m = Some (m[r := v]) \<and> Q r v"
  shows "\<exists>out'. foldM f ord out = Some out' \<and> length out' = n \<and> (\<forall>r<n. Q r (out' ! r))"
proof -
  have "\<exists>out'. foldM f ord out = Some out' \<and> (length out' = n \<and> (\<forall>r\<in>{..<n}. Q r (out' ! r)) \<and> {..<n} \<subseteq> {..<n})"
  proof (rule foldM_schedule [OF assms(1), where P = "\<lambda>D m. length m = n \<and> (\<forall>r\<in>D. Q r (m ! r)) \<and> D \<subseteq> {..<n}"])
    fix D r m assume r: "r < n" "r \<notin> D" and P: "length m = n \<and> (\<forall>r\<in>D. Q r (m ! r)) \<and> D \<subseteq> {..<n}"
    obtain v where "f r m = Some (m[r := v])" "Q r v" using item [OF r(1)] P by blast
    then show "\<exists>s'. f r m = Some s' \<and> (length s' = n \<and> (\<forall>r\<in>insert r D. Q r (s' ! r)) \<and> insert r D \<subseteq> {..<n})"
      using P r by (auto simp: nth_list_update)
  qed (use assms(2) in simp)
  then show ?thesis by auto
qed

end
