(* ===== verification/Ieee.thy ===== *)
theory Ieee
  imports Prelude Complex_Main "HOL-Library.Word"
begin

unbundle bit_operations_syntax

named_theorems f32_eval \<open>evaluation of float operations on literal bit patterns\<close>

text \<open>
  IEEE-754 binary interchange formats, as far as the kernels use them.

  A magnitude of a format with \<open>m\<close> fraction bits is a natural number \<open>k\<close> (the exponent
  and fraction fields read as one integer).  \<open>nval m k\<close> is its value in units of the
  smallest subnormal, \<open>round_units m d n\<close> is the magnitude nearest to \<open>n / 2 ^ d\<close> units,
  ties to the even magnitude: both are plain arithmetic on naturals, and hold for binary32
  (\<open>m = 23\<close>, unit \<open>2 ^ -149\<close>), binary16 (\<open>m = 10\<close>, unit \<open>2 ^ -24\<close>), bfloat16
  (\<open>m = 7\<close>, unit \<open>2 ^ -133\<close>) and e4m3 (\<open>m = 3\<close>, unit \<open>2 ^ -9\<close>).

  \<open>f32\<close> is the C++ type \<open>float\<close>: a 32-bit pattern with the correctly rounded
  (round-to-nearest-even) operations of the standard.  It instantiates the arithmetic
  classes of the library, so a kernel written over \<open>+\<close>, \<open>*\<close>, \<open><\<close> runs on \<open>f32\<close> bit for
  bit and on \<open>rat\<close> exactly.  A NaN produced by an operation is the quiet NaN
  \<open>0x7fc00000\<close>: the standard leaves its payload and sign open, and no theorem reads them.
\<close>

section \<open>Magnitudes in units of the smallest subnormal\<close>

definition nval :: "nat \<Rightarrow> nat \<Rightarrow> nat" where
  "nval m k = (if k < 2 ^ m then k else (2 ^ m + k mod 2 ^ m) * 2 ^ (k div 2 ^ m - 1))"

lemma nval_eq:
  assumes "E = 0 \<or> 2 ^ m \<le> q" and "q \<le> 2 ^ Suc m"
  shows "nval m (E * 2 ^ m + q) = q * 2 ^ E"
proof (cases "q < 2 ^ m")
  case True
  then show ?thesis using assms by (simp add: nval_def)
next
  case ge: False
  show ?thesis
  proof (cases "q = 2 ^ Suc m")
    case True
    then have "E * 2 ^ m + q = (E + 2) * 2 ^ m" by (simp add: algebra_simps)
    then have "(E * 2 ^ m + q) div 2 ^ m = E + 2" "(E * 2 ^ m + q) mod 2 ^ m = 0" by simp_all
    moreover have "\<not> E * 2 ^ m + q < 2 ^ m" using ge by simp
    ultimately show ?thesis using True by (simp add: nval_def)
  next
    case False
    define r where "r = q - 2 ^ m"
    from ge False assms have q: "q = 2 ^ m + r" "r < 2 ^ m" by (auto simp: r_def)
    then have "E * 2 ^ m + q = r + (E + 1) * 2 ^ m" by (simp add: algebra_simps)
    then have "(E * 2 ^ m + q) div 2 ^ m = E + 1" "(E * 2 ^ m + q) mod 2 ^ m = r"
      using q(2) by simp_all
    moreover have "\<not> E * 2 ^ m + q < 2 ^ m" using ge by simp
    ultimately show ?thesis using q by (simp add: nval_def)
  qed
qed

lemma nval_cases:
  obtains E q where "k = E * 2 ^ m + q" and "E = 0 \<or> 2 ^ m \<le> q" and "q < 2 ^ Suc m"
    and "nval m k = q * 2 ^ E"
proof (cases "k < 2 ^ m")
  case True
  then show ?thesis using that [of 0 k] by (simp add: nval_def)
next
  case False
  define E where "E = k div 2 ^ m - 1"
  define q where "q = 2 ^ m + k mod 2 ^ m"
  from False have "1 \<le> k div 2 ^ m" by (simp add: Suc_le_eq div_greater_zero_iff)
  then have "Suc E = k div 2 ^ m" by (simp add: E_def)
  then have "Suc E * 2 ^ m + k mod 2 ^ m = k" by (simp only: div_mult_mod_eq)
  then have k: "k = E * 2 ^ m + q" by (simp add: q_def algebra_simps)
  have q: "2 ^ m \<le> q" "q < 2 ^ Suc m" by (auto simp: q_def)
  then show ?thesis using that [of E q] nval_eq [of E m q] k by simp
qed

lemma nval_Suc_less: "nval m k < nval m (Suc k)"
proof -
  obtain E q where k: "k = E * 2 ^ m + q" and q: "E = 0 \<or> 2 ^ m \<le> q" "q < 2 ^ Suc m"
    and v: "nval m k = q * 2 ^ E" by (rule nval_cases)
  from q have "E = 0 \<or> 2 ^ m \<le> Suc q" "Suc q \<le> 2 ^ Suc m" by auto
  then have "nval m (E * 2 ^ m + Suc q) = Suc q * 2 ^ E" by (rule nval_eq)
  with k v show ?thesis by simp
qed

lemma strict_mono_nval: "strict_mono (nval m)"
  by (simp add: strict_mono_Suc_iff nval_Suc_less)

lemma nval_less_iff [simp]: "nval m k < nval m k' \<longleftrightarrow> k < k'"
  by (rule strict_mono_less [OF strict_mono_nval])

lemma nval_le_iff [simp]: "nval m k \<le> nval m k' \<longleftrightarrow> k \<le> k'"
  by (rule strict_mono_less_eq [OF strict_mono_nval])

lemma nval_inj [simp]: "nval m k = nval m k' \<longleftrightarrow> k = k'"
  by (rule strict_mono_eq [OF strict_mono_nval])

lemma nval_0 [simp]: "nval m 0 = 0"
  by (simp add: nval_def)

lemma nval_eq_0_iff [simp]: "nval m k = 0 \<longleftrightarrow> k = 0"
  using nval_inj [of m k 0] by simp

section \<open>Rounding to nearest, ties to even\<close>

fun blen :: "nat \<Rightarrow> nat" where
  "blen n = (if n = 0 then 0 else Suc (blen (n div 2)))"

declare blen.simps [simp del]

lemma blen_0 [simp]: "blen 0 = 0"
  by (simp add: blen.simps)

lemma blen_upper: "n < 2 ^ blen n"
proof (induction n rule: blen.induct)
  case (1 n)
  show ?case
  proof (cases "n = 0")
    case False
    with 1 have "n div 2 < 2 ^ blen (n div 2)" by simp
    then show ?thesis using False by (subst blen.simps) simp
  qed simp
qed

lemma blen_lower: "0 < n \<Longrightarrow> 2 ^ (blen n - 1) \<le> n"
proof (induction n rule: blen.induct)
  case (1 n)
  show ?case
  proof (cases "n div 2 = 0")
    case True
    then show ?thesis using 1 by (subst blen.simps) (simp add: blen.simps [of "n div 2"])
  next
    case False
    with 1 have "2 ^ (blen (n div 2) - 1) \<le> n div 2" by simp
    moreover have "0 < blen (n div 2)" using False by (subst blen.simps) simp
    ultimately have "2 ^ blen (n div 2) \<le> n"
      by (cases "blen (n div 2)") auto
    then show ?thesis using 1 by (subst blen.simps) simp
  qed
qed

lemma blen_unique:
  assumes "2 ^ k \<le> n" and "n < 2 ^ Suc k"
  shows "blen n = Suc k"
proof -
  have "0 < n" using assms(1) by (cases n) auto
  have "2 ^ (blen n - 1) < (2::nat) ^ Suc k"
    using blen_lower [OF \<open>0 < n\<close>] assms(2) by (rule le_less_trans)
  then have "blen n - 1 < Suc k" by (rule power_less_imp_less_exp [rotated]) simp
  moreover have "2 ^ k < (2::nat) ^ blen n"
    using assms(1) blen_upper by (rule le_less_trans)
  then have "k < blen n" by (rule power_less_imp_less_exp [rotated]) simp
  ultimately show ?thesis by simp
qed

lemma blen_le: "n < 2 ^ k \<Longrightarrow> blen n \<le> k"
proof (cases "n = 0")
  case False
  assume "n < 2 ^ k"
  with False have "2 ^ (blen n - 1) < (2::nat) ^ k"
    using blen_lower [of n] by (metis gr0I le_less_trans)
  then have "blen n - 1 < k" by (rule power_less_imp_less_exp [rotated]) simp
  then show ?thesis by simp
qed simp

definition rne :: "nat \<Rightarrow> nat \<Rightarrow> nat" where
  "rne s n = (let q = n div 2 ^ s; r = 2 * (n mod 2 ^ s)
     in if r > 2 ^ s \<or> (r = 2 ^ s \<and> odd q) then q + 1 else q)"

lemma rne_exact [simp]: "rne s (q * 2 ^ s) = q"
  by (simp add: rne_def)

lemma rne_0 [simp]: "rne 0 n = n"
  by (simp add: rne_def)

lemma rne_bounds: "n div 2 ^ s \<le> rne s n \<and> rne s n \<le> n div 2 ^ s + 1"
  by (simp add: rne_def Let_def)

lemma rne_nearest:
  fixes j :: nat
  shows "\<bar>int (rne s n) * 2 ^ s - int n\<bar> \<le> \<bar>int j * 2 ^ s - int n\<bar>"
proof -
  define q r where "q = n div 2 ^ s" and "r = n mod 2 ^ s"
  have "n = q * 2 ^ s + r" unfolding q_def r_def by (rule div_mult_mod_eq [symmetric])
  then have n: "int n = int q * 2 ^ s + int r" by simp
  have "r < 2 ^ s" by (simp add: r_def)
  then have r: "int r < 2 ^ s" by (metis of_nat_less_iff of_nat_numeral of_nat_power)
  have lo: "\<bar>int j * 2 ^ s - int n\<bar> \<ge> int r" if "j \<le> q"
  proof -
    have "int j * 2 ^ s \<le> int q * 2 ^ s" using that by (intro mult_right_mono) auto
    then show ?thesis unfolding n by linarith
  qed
  have hi: "\<bar>int j * 2 ^ s - int n\<bar> \<ge> 2 ^ s - int r" if "q + 1 \<le> j"
  proof -
    have "(int q + 1) * 2 ^ s \<le> int j * 2 ^ s" using that by (intro mult_right_mono) auto
    then show ?thesis using r unfolding n distrib_right by linarith
  qed
  have "\<bar>int j * 2 ^ s - int n\<bar> \<ge> min (int r) (2 ^ s - int r)"
    using lo hi by (cases "j \<le> q") auto
  moreover have "\<bar>int (rne s n) * 2 ^ s - int n\<bar> = min (int r) (2 ^ s - int r)"
  proof -
    have up: "\<bar>int (q + 1) * 2 ^ s - int n\<bar> = 2 ^ s - int r" using r unfolding n by (simp add: algebra_simps)
    have dn: "\<bar>int q * 2 ^ s - int n\<bar> = int r" unfolding n by simp
    have "int (2 ^ s) = 2 ^ s" by simp
    then have c: "(2 * r > 2 ^ s) = (2 * int r > 2 ^ s)" "(2 * r = 2 ^ s) = (2 * int r = 2 ^ s)"
      by linarith+
    show ?thesis
      using up dn r by (auto simp: rne_def Let_def c simp flip: q_def r_def)
  qed
  ultimately show ?thesis by simp
qed

definition round_units :: "nat \<Rightarrow> nat \<Rightarrow> nat \<Rightarrow> nat" where
  "round_units m d n = (let E = blen n - (d + m + 1) in E * 2 ^ m + rne (d + E) n)"

lemma round_units_0 [simp]: "round_units m d 0 = 0"
  by (simp add: round_units_def rne_def)

text \<open>The integer that \<open>round_units\<close> keeps fits the significand of the format.\<close>

lemma round_units_sig:
  fixes n m d :: nat
  defines "E \<equiv> blen n - (d + m + 1)"
  shows "E = 0 \<or> 2 ^ m \<le> rne (d + E) n" and "rne (d + E) n \<le> 2 ^ Suc m"
proof -
  have "blen n \<le> d + E + Suc m" by (simp add: E_def)
  then have "n < 2 ^ (d + E + Suc m)"
    using blen_upper [of n] power_increasing [of "blen n" "d + E + Suc m" "2::nat"] by simp
  then have "n div 2 ^ (d + E) < 2 ^ Suc m"
    by (simp add: less_mult_imp_div_less power_add mult.commute)
  then show "rne (d + E) n \<le> 2 ^ Suc m" using rne_bounds [of n "d + E"] by linarith
  show "E = 0 \<or> 2 ^ m \<le> rne (d + E) n"
  proof (cases "E = 0")
    case False
    then have "blen n = d + E + m + 1" by (simp add: E_def)
    then have "2 ^ (d + E + m) \<le> n" using blen_lower [of n] by (cases "n = 0") auto
    then have "2 ^ m \<le> n div 2 ^ (d + E)"
      by (simp add: less_eq_div_iff_mult_less_eq power_add mult.commute)
    then show ?thesis using rne_bounds [of n "d + E"] by linarith
  qed simp
qed

lemma nval_round_units:
  "nval m (round_units m d n) = rne (d + (blen n - (d + m + 1))) n * 2 ^ (blen n - (d + m + 1))"
  unfolding round_units_def Let_def by (intro nval_eq round_units_sig)

text \<open>Representable values are fixed points of rounding.\<close>

lemma round_units_nval [simp]: "round_units m d (nval m k * 2 ^ d) = k"
proof -
  obtain E q where k: "k = E * 2 ^ m + q" and q: "E = 0 \<or> 2 ^ m \<le> q" "q < 2 ^ Suc m"
    and v: "nval m k = q * 2 ^ E" by (rule nval_cases)
  have n: "nval m k * 2 ^ d = q * 2 ^ (d + E)" by (simp add: v power_add)
  have E: "blen (q * 2 ^ (d + E)) - (d + m + 1) = E"
  proof (cases "2 ^ m \<le> q")
    case True
    then have "2 ^ (d + E + m) \<le> q * 2 ^ (d + E)" "q * 2 ^ (d + E) < 2 ^ Suc (d + E + m)"
      using q(2) by (simp_all add: power_add)
    then show ?thesis by (subst blen_unique) auto
  next
    case False
    with q have "E = 0" by simp
    have "q * 2 ^ (d + E) < 2 ^ (d + m)" using False \<open>E = 0\<close> by (simp add: power_add)
    then have "blen (q * 2 ^ (d + E)) \<le> d + m" by (rule blen_le)
    then show ?thesis using \<open>E = 0\<close> by auto
  qed
  show ?thesis unfolding n round_units_def Let_def E by (simp add: k)
qed

lemma round_units_nval_0 [simp]: "round_units m 0 (nval m k) = k"
  using round_units_nval [of m 0 k] by simp

text \<open>No representable magnitude is nearer to \<open>n / 2 ^ d\<close> than the rounded one.\<close>

lemma round_units_nearest:
  "\<bar>int (nval m (round_units m d n)) * 2 ^ d - int n\<bar> \<le> \<bar>int (nval m k) * 2 ^ d - int n\<bar>"
proof -
  define E where "E = blen n - (d + m + 1)"
  define R where "R = \<bar>int (rne (d + E) n) * 2 ^ (d + E) - int n\<bar>"
  have R: "\<bar>int (nval m (round_units m d n)) * 2 ^ d - int n\<bar> = R"
    unfolding nval_round_units R_def E_def [symmetric] by (simp add: power_add mult_ac)
  have grid: "R \<le> \<bar>int j * 2 ^ (d + E) - int n\<bar>" for j
    unfolding R_def by (rule rne_nearest)
  obtain F q where k: "F = 0 \<or> 2 ^ m \<le> q" "q < 2 ^ Suc m" and v: "nval m k = q * 2 ^ F"
    by (rule nval_cases)
  show ?thesis
  proof (cases "E \<le> F")
    case True
    then have "(2::int) ^ F = 2 ^ (F - E) * 2 ^ E" by (simp flip: power_add)
    then have "int (nval m k) * 2 ^ d = int (q * 2 ^ (F - E)) * 2 ^ (d + E)"
      by (simp add: v power_add)
    then show ?thesis using grid [of "q * 2 ^ (F - E)"] unfolding R by simp
  next
    case False
    then have "0 < E" by simp
    then have "blen n = d + E + m + 1" by (simp add: E_def)
    then have n: "2 ^ (d + E + m) \<le> n" using blen_lower [of n] by (cases "n = 0") auto
    have "q * 2 ^ F < 2 ^ Suc m * 2 ^ F" using k(2) by simp
    also have "\<dots> = 2 ^ (Suc m + F)" by (simp add: power_add)
    also have "\<dots> \<le> (2::nat) ^ (m + E)" using False by (intro power_increasing) auto
    finally have "nval m k * 2 ^ d < 2 ^ (d + E + m)" unfolding v
      by (simp add: power_add mult_ac)
    then have "int (nval m k * 2 ^ d) < int (2 ^ (d + E + m))" by (simp only: of_nat_less_iff)
    then have "int (nval m k) * 2 ^ d < 2 ^ (d + E + m)" by simp
    moreover have "int (2 ^ (d + E + m)) \<le> int n" using n by (simp only: of_nat_le_iff)
    then have "(2::int) ^ (d + E + m) \<le> int n" by simp
    moreover have "R \<le> \<bar>int (2 ^ m) * 2 ^ (d + E) - int n\<bar>" by (rule grid)
    moreover have "int (2 ^ m) * 2 ^ (d + E) = 2 ^ (d + E + m)" by (simp add: power_add)
    ultimately show ?thesis unfolding R by linarith
  qed
qed

section \<open>Conversion between formats\<close>

lemma rne_shift: "rne (s + t) (n * 2 ^ t) = rne s n"
proof -
  have "n * 2 ^ t div 2 ^ (s + t) = n div 2 ^ s" "n * 2 ^ t mod 2 ^ (s + t) = n mod 2 ^ s * 2 ^ t"
    by (simp_all add: power_add mult_mod_left)
  moreover have "(2 * (r * 2 ^ t) > 2 ^ (s + t)) = (2 * r > 2 ^ s)"
    "(2 * (r * 2 ^ t) = 2 ^ (s + t)) = (2 * r = 2 ^ s)" for r :: nat
  proof -
    have "2 * (r * 2 ^ t) = (2 * r) * 2 ^ t" "(2::nat) ^ (s + t) = 2 ^ s * 2 ^ t"
      by (simp_all add: power_add)
    then show "(2 * (r * 2 ^ t) > 2 ^ (s + t)) = (2 * r > 2 ^ s)"
      "(2 * (r * 2 ^ t) = 2 ^ (s + t)) = (2 * r = 2 ^ s)"
      by (simp_all only: mult_less_cancel2 mult_cancel2) simp_all
  qed
  ultimately show ?thesis by (simp add: rne_def Let_def)
qed

lemma rne_add_even: "even a \<Longrightarrow> rne s (a * 2 ^ s + r) = a + rne s r"
  by (simp add: rne_def Let_def)

lemma rne_small: "2 * n < 2 ^ s \<Longrightarrow> rne s n = 0"
  by (simp add: rne_def Let_def)

lemma nval_normal: "2 ^ m \<le> k \<Longrightarrow> nval m k = (2 ^ m + k mod 2 ^ m) * 2 ^ (k div 2 ^ m - 1)"
  by (simp add: nval_def)

lemma blen_nval: "2 ^ m \<le> k \<Longrightarrow> blen (nval m k) = m + k div 2 ^ m"
proof -
  assume k: "2 ^ m \<le> k"
  then have e: "0 < k div 2 ^ m" by (simp add: div_greater_zero_iff)
  have r: "k mod 2 ^ m < 2 ^ m" by simp
  have "blen (nval m k) = Suc (m + (k div 2 ^ m - 1))"
  proof (rule blen_unique)
    show "2 ^ (m + (k div 2 ^ m - 1)) \<le> nval m k"
      using k by (simp add: nval_normal power_add)
    have "(2 ^ m + k mod 2 ^ m) * 2 ^ (k div 2 ^ m - 1) < (2 ^ m * 2) * 2 ^ (k div 2 ^ m - 1)"
      using r by (intro mult_strict_right_mono) auto
    then show "nval m k < 2 ^ Suc (m + (k div 2 ^ m - 1))"
      using k by (simp add: nval_normal power_add mult_ac)
  qed
  with e show ?thesis by simp
qed

text \<open>Rounding a normal number of a wider format: the three cases of a conversion routine.\<close>

lemma narrow_normal:
  assumes "0 < m" "2 ^ (m + s) \<le> k" "d < k div 2 ^ (m + s) + s" "s \<le> d"
  shows "round_units m d (nval (m + s) k)
    = (k div 2 ^ (m + s) + s - d) * 2 ^ m + rne s (k mod 2 ^ (m + s))"
proof -
  define e r where "e = k div 2 ^ (m + s)" and "r = k mod 2 ^ (m + s)"
  have e: "0 < e" using assms(2) by (simp add: e_def div_greater_zero_iff)
  have n: "nval (m + s) k = (2 ^ m * 2 ^ s + r) * 2 ^ (e - 1)"
    using assms(2) by (simp add: nval_normal e_def r_def power_add)
  have b: "blen (nval (m + s) k) = m + s + e" using assms(2) by (simp add: blen_nval e_def)
  have E: "m + s + e - (d + m + 1) = e + s - d - 1" by simp
  have D: "d + (e + s - d - 1) = s + (e - 1)" using assms(3) e by (simp add: e_def)
  have ev: "even (2 ^ m :: nat)" using assms(1) by simp
  have "rne (d + (e + s - d - 1)) (nval (m + s) k) = 2 ^ m + rne s r"
    unfolding D n rne_shift by (rule rne_add_even [OF ev])
  then have "round_units m d (nval (m + s) k) = (e + s - d - 1) * 2 ^ m + (2 ^ m + rne s r)"
    unfolding round_units_def Let_def b E by simp
  also have "\<dots> = (e + s - d) * 2 ^ m + rne s r"
  proof -
    have "0 < e + s - d" using assms(3) by (simp add: e_def)
    then obtain j where "e + s - d = Suc j" by (cases "e + s - d") auto
    then show ?thesis by simp
  qed
  finally show ?thesis by (simp add: e_def r_def)
qed

lemma narrow_subnormal:
  assumes "2 ^ (m + s) \<le> k" "k div 2 ^ (m + s) + s \<le> d"
  shows "round_units m d (nval (m + s) k)
    = rne (d + 1 - k div 2 ^ (m + s)) (2 ^ (m + s) + k mod 2 ^ (m + s))"
proof -
  define e where "e = k div 2 ^ (m + s)"
  have e: "0 < e" using assms(1) by (simp add: e_def div_greater_zero_iff)
  have b: "blen (nval (m + s) k) = m + s + e" using assms(1) by (simp add: blen_nval e_def)
  have E: "m + s + e - (d + m + 1) = 0" using assms(2) by (simp add: e_def)
  have D: "d = (d + 1 - e) + (e - 1)" using assms(2) e by (simp add: e_def)
  have n: "nval (m + s) k = (2 ^ (m + s) + k mod 2 ^ (m + s)) * 2 ^ (e - 1)"
    using assms(1) by (simp add: nval_normal e_def)
  have "rne d (nval (m + s) k) = rne (d + 1 - e) (2 ^ (m + s) + k mod 2 ^ (m + s))"
    unfolding n by (subst D) (rule rne_shift)
  then show ?thesis unfolding round_units_def Let_def b E e_def [symmetric] by simp
qed

lemma narrow_zero:
  assumes "k < 2 ^ M" "M < d"
  shows "round_units m d (nval M k) = 0"
proof -
  have "blen k \<le> M" using assms(1) by (rule blen_le)
  then have "blen k - (d + m + 1) = 0" using assms(2) by simp
  moreover have "2 * k < 2 ^ d"
    using assms power_increasing [of "Suc M" d "2::nat"] by simp
  ultimately show ?thesis using assms(1)
    by (simp add: nval_def round_units_def Let_def rne_small)
qed

text \<open>Every \<open>q * 2 ^ E\<close> with a significand that fits is representable.\<close>

lemma nval_representable: "q \<le> 2 ^ Suc m \<Longrightarrow> \<exists>k. nval m k = q * 2 ^ E"
proof (induction E arbitrary: q)
  case 0
  then show ?case using nval_eq [of 0 m q] by auto
next
  case (Suc E)
  show ?case
  proof (cases "2 ^ m \<le> q")
    case True
    then show ?thesis using nval_eq [of "Suc E" m q] Suc.prems by auto
  next
    case False
    then have "2 * q \<le> 2 ^ Suc m" by simp
    from Suc.IH [OF this] show ?thesis by (simp add: mult_ac)
  qed
qed

section \<open>The type float\<close>

datatype f32 = F32 (f32_bits: "32 word")

definition f32_mag :: "f32 \<Rightarrow> nat" where
  "f32_mag x = unat (f32_bits x AND 0x7fffffff)"

definition f32_neg :: "f32 \<Rightarrow> bool" where
  "f32_neg x = bit (f32_bits x) 31"

definition f32_make :: "bool \<Rightarrow> nat \<Rightarrow> f32" where
  "f32_make s k = F32 ((if s then 0x80000000 else 0) OR word_of_nat k)"

definition f32_inf :: nat where
  "f32_inf = 0x7f800000"

definition f32_nan :: "f32 \<Rightarrow> bool" where
  "f32_nan x \<longleftrightarrow> f32_inf < f32_mag x"

definition f32_is_inf :: "f32 \<Rightarrow> bool" where
  "f32_is_inf x \<longleftrightarrow> f32_mag x = f32_inf"

definition f32_finite :: "f32 \<Rightarrow> bool" where
  "f32_finite x \<longleftrightarrow> f32_mag x < f32_inf"

definition f32_qnan :: f32 where
  "f32_qnan = F32 0x7fc00000"

text \<open>The value of a finite number, in units of \<open>2 ^ -149\<close>.\<close>

definition f32_nval :: "f32 \<Rightarrow> nat" where
  "f32_nval x = nval 23 (f32_mag x)"

definition f32_sval :: "f32 \<Rightarrow> int" where
  "f32_sval x = (if f32_neg x then - int (f32_nval x) else int (f32_nval x))"

definition f32_val :: "f32 \<Rightarrow> real" where
  "f32_val x = real_of_int (f32_sval x) / 2 ^ 149"

text \<open>\<open>f32_of_units s d n\<close>: the float nearest to \<open>\<plusminus> n / 2 ^ d\<close> units; it overflows to infinity.\<close>

definition f32_of_units :: "bool \<Rightarrow> nat \<Rightarrow> nat \<Rightarrow> f32" where
  "f32_of_units s d n = f32_make s (min (round_units 23 d n) f32_inf)"

lemma f32_mag_le: "f32_mag x \<le> 0x7fffffff"
proof -
  have "f32_bits x AND 0x7fffffff \<le> 0x7fffffff" by (rule word_and_le1)
  then have "unat (f32_bits x AND 0x7fffffff) \<le> unat (0x7fffffff :: 32 word)"
    by (simp only: word_le_nat_alt)
  then show ?thesis by (simp add: f32_mag_def)
qed

lemma mask31: "(0x7fffffff :: 32 word) = mask 31"
  by (simp add: mask_eq_exp_minus_1)

lemma f32_mag_mod: "f32_mag x = unat (f32_bits x) mod 2 ^ 31"
  by (simp add: f32_mag_def mask31 unsigned_take_bit_eq flip: take_bit_eq_mask)
     (simp add: take_bit_eq_mod)

lemma bit_word_of_nat: "bit (word_of_nat k :: 'a::len word) n \<longleftrightarrow> n < LENGTH('a) \<and> bit k n"
  by transfer (simp add: bit_take_bit_iff bit_of_nat_iff)

lemma unat_word_of_nat: "k < 2 ^ LENGTH('a) \<Longrightarrow> unat (word_of_nat k :: 'a::len word) = k"
  by (simp add: unsigned_of_nat take_bit_nat_eq_self)

lemma sign_bit: "bit (0x80000000 :: int) n \<longleftrightarrow> n = 31"
proof -
  have "(0x80000000 :: int) = push_bit 31 1" by (simp add: push_bit_eq_mult)
  then show ?thesis by (simp only: bit_push_bit_iff bit_1_iff) auto
qed

lemma f32_make_mag [simp]: "k < 2 ^ 31 \<Longrightarrow> f32_mag (f32_make s k) = k"
proof -
  assume k: "k < 2 ^ 31"
  have "f32_bits (f32_make s k) AND mask 31 = word_of_nat k AND mask 31"
    by (rule bit_word_eqI) (auto simp: f32_make_def bit_or_iff bit_and_iff bit_mask_iff sign_bit)
  also have "unat \<dots> = k"
    using k by (simp add: unsigned_take_bit_eq unat_word_of_nat take_bit_nat_eq_self flip: take_bit_eq_mask)
  finally show ?thesis by (simp add: f32_mag_def mask31)
qed

lemma f32_make_neg [simp]: "k < 2 ^ 31 \<Longrightarrow> f32_neg (f32_make s k) = s"
proof -
  assume k: "k < 2 ^ 31"
  then have "\<not> bit k 31" by (simp add: bit_iff_odd)
  then show ?thesis
    by (simp add: f32_neg_def f32_make_def bit_or_iff sign_bit bit_word_of_nat)
qed

lemma f32_make_eta: "f32_make (f32_neg x) (f32_mag x) = x"
proof (cases x)
  case (F32 w)
  have "(if bit w 31 then 0x80000000 else 0) OR (w AND mask 31) = w"
  proof (rule bit_word_eqI)
    fix n assume "n < LENGTH(32)"
    then have "n < 31 \<or> n = 31" by auto
    then show "bit ((if bit w 31 then 0x80000000 else 0) OR (w AND mask 31)) n = bit w n"
      by (auto simp: bit_or_iff bit_and_iff bit_mask_iff sign_bit)
  qed
  then show ?thesis by (simp add: F32 f32_make_def f32_neg_def f32_mag_def mask31)
qed

lemma f32_eqI: "f32_neg x = f32_neg y \<Longrightarrow> f32_mag x = f32_mag y \<Longrightarrow> x = y"
  by (subst f32_make_eta [of x, symmetric], subst f32_make_eta [of y, symmetric]) (rule arg_cong2)

subsection \<open>Arithmetic\<close>

definition f32_add :: "f32 \<Rightarrow> f32 \<Rightarrow> f32" where
  "f32_add x y =
    (if f32_nan x \<or> f32_nan y then f32_qnan
     else if f32_is_inf x then (if f32_is_inf y \<and> f32_neg x \<noteq> f32_neg y then f32_qnan else x)
     else if f32_is_inf y then y
     else let v = f32_sval x + f32_sval y in
       if v = 0 then f32_make (f32_neg x \<and> f32_neg y) 0
       else f32_of_units (v < 0) 0 (nat \<bar>v\<bar>))"

definition f32_mul :: "f32 \<Rightarrow> f32 \<Rightarrow> f32" where
  "f32_mul x y = (let s = (f32_neg x \<noteq> f32_neg y) in
     if f32_nan x \<or> f32_nan y then f32_qnan
     else if f32_is_inf x \<or> f32_is_inf y then
       (if f32_mag x = 0 \<or> f32_mag y = 0 then f32_qnan else f32_make s f32_inf)
     else f32_of_units s 149 (f32_nval x * f32_nval y))"

text \<open>
  \<open>quot_units s a b\<close> is the float nearest to \<open>\<plusminus> a / b\<close> units: three bits of quotient below
  the unit, the last of them sticky, decide every tie.
\<close>

definition quot_units :: "bool \<Rightarrow> nat \<Rightarrow> nat \<Rightarrow> f32" where
  "quot_units s a b = f32_of_units s 3
     (2 * (a * 4 div b) + (if a * 4 mod b = 0 then 0 else 1))"

definition f32_div :: "f32 \<Rightarrow> f32 \<Rightarrow> f32" where
  "f32_div x y = (let s = (f32_neg x \<noteq> f32_neg y) in
     if f32_nan x \<or> f32_nan y then f32_qnan
     else if f32_is_inf x then (if f32_is_inf y then f32_qnan else f32_make s f32_inf)
     else if f32_is_inf y then f32_make s 0
     else if f32_mag y = 0 then (if f32_mag x = 0 then f32_qnan else f32_make s f32_inf)
     else quot_units s (f32_nval x * 2 ^ 149) (f32_nval y))"

definition f32_neg_of :: "f32 \<Rightarrow> f32" where
  "f32_neg_of x = f32_make (\<not> f32_neg x) (f32_mag x)"

text \<open>The order key: comparison of non-NaN floats is comparison of keys.\<close>

definition f32_key :: "f32 \<Rightarrow> int" where
  "f32_key x = (if f32_neg x then - int (f32_mag x) else int (f32_mag x))"

instantiation f32 :: "{plus, minus, uminus, times, inverse, zero, one, ord}"
begin
definition plus_f32 where "plus_f32 = f32_add"
definition uminus_f32 where "uminus_f32 = f32_neg_of"
definition minus_f32 where "minus_f32 x y = f32_add x (f32_neg_of y)"
definition times_f32 where "times_f32 = f32_mul"
definition divide_f32 where "divide_f32 = f32_div"
definition inverse_f32 where "inverse_f32 = f32_div (F32 0x3f800000)"
definition zero_f32 where "zero_f32 = F32 0"
definition one_f32 where "one_f32 = F32 0x3f800000"
definition less_f32 where "less_f32 x y \<longleftrightarrow> \<not> f32_nan x \<and> \<not> f32_nan y \<and> f32_key x < f32_key y"
definition less_eq_f32 where "less_eq_f32 x y \<longleftrightarrow> \<not> f32_nan x \<and> \<not> f32_nan y \<and> f32_key x \<le> f32_key y"
instance ..
end

text \<open>Conversions: \<open>static_cast<float>\<close> of an integer, of a literal, and back.\<close>

definition f32_of_int :: "int \<Rightarrow> f32" where
  "f32_of_int i = f32_of_units (i < 0) 0 (nat \<bar>i\<bar> * 2 ^ 149)"

definition f32_of_rat :: "rat \<Rightarrow> f32" where
  "f32_of_rat q = (case quotient_of q of (n, d) \<Rightarrow>
     quot_units (n < 0) (nat \<bar>n\<bar> * 2 ^ 149) (nat d))"

text \<open>Truncation toward zero; the C++ conversion is undefined outside the target type.\<close>

definition f32_trunc :: "f32 \<Rightarrow> int" where
  "f32_trunc x = (let k = int (f32_nval x div 2 ^ 149) in if f32_neg x then - k else k)"

definition f32_integral :: "f32 \<Rightarrow> int \<Rightarrow> f32" where
  "f32_integral x i = (if f32_finite x then f32_make (f32_neg x) (f32_mag (f32_of_int i)) else x)"

text \<open>\<open>sycl::floor\<close>, \<open>ceil\<close>, \<open>rint\<close> (ties to even) and \<open>round\<close> (ties away from zero).\<close>

definition f32_floor :: "f32 \<Rightarrow> f32" where
  "f32_floor x = f32_integral x (f32_sval x div 2 ^ 149)"

definition f32_ceil :: "f32 \<Rightarrow> f32" where
  "f32_ceil x = f32_integral x (- ((- f32_sval x) div 2 ^ 149))"

definition f32_rint :: "f32 \<Rightarrow> f32" where
  "f32_rint x = f32_integral x (int (rne 149 (f32_nval x)))"

definition f32_round :: "f32 \<Rightarrow> f32" where
  "f32_round x = f32_integral x (int ((f32_nval x + 2 ^ 148) div 2 ^ 149))"

text \<open>\<open>isqrt n\<close> is the integer square root, by bisection on the bits.\<close>

primrec isqrt_bits :: "nat \<Rightarrow> nat \<Rightarrow> nat \<Rightarrow> nat" where
  "isqrt_bits 0 n r = r"
| "isqrt_bits (Suc b) n r =
    isqrt_bits b n (if (r + 2 ^ b) * (r + 2 ^ b) \<le> n then r + 2 ^ b else r)"

definition isqrt :: "nat \<Rightarrow> nat" where
  "isqrt n = isqrt_bits (blen n) n 0"

definition f32_sqrt :: "f32 \<Rightarrow> f32" where
  "f32_sqrt x =
    (if f32_nan x then f32_qnan
     else if f32_mag x = 0 then x
     else if f32_neg x then f32_qnan
     else if f32_is_inf x then x
     else let n = f32_nval x * 2 ^ 153; r = isqrt n
       in f32_of_units False 3 (2 * r + (if r * r = n then 0 else 1)))"

definition f32_fabs :: "f32 \<Rightarrow> f32" where
  "f32_fabs x = f32_make False (f32_mag x)"

text \<open>Evaluation on literals: binary numerals of \<open>nat\<close>, so no unary numbers arise.\<close>

lemma blen_double: "0 < n \<Longrightarrow> blen (2 * n) = Suc (blen n)" "blen (Suc (2 * n)) = Suc (blen n)"
  by (simp_all add: blen.simps [of "2 * n"] blen.simps [of "Suc (2 * n)"])

lemma blen_1 [simp]: "blen (Suc 0) = 1"
  using blen_double(2) [of 0] by simp

lemma blen_numeral [simp]:
  "blen (numeral (Num.Bit0 n)) = Suc (blen (numeral n))"
  "blen (numeral (Num.Bit1 n)) = Suc (blen (numeral n))"
  using blen_double [of "numeral n"] by (simp_all add: numeral_Bit0 numeral_Bit1 mult_2)

lemma f32_field_eval [f32_eval]:
  "f32_mag (F32 w) = unat (w AND 0x7fffffff)" "f32_neg (F32 w) = bit w 31"
  by (simp_all add: f32_mag_def f32_neg_def)

lemmas f32_op_eval [f32_eval] =
  plus_f32_def minus_f32_def uminus_f32_def times_f32_def divide_f32_def zero_f32_def one_f32_def
  less_f32_def less_eq_f32_def f32_add_def f32_mul_def f32_div_def f32_neg_of_def f32_key_def
  f32_make_def f32_inf_def f32_nan_def f32_is_inf_def f32_finite_def f32_qnan_def f32_nval_def
  f32_sval_def f32_of_units_def quot_units_def nval_def rne_def round_units_def
  f32_of_int_def f32_trunc_def f32_integral_def f32_floor_def f32_ceil_def f32_rint_def
  f32_round_def f32_fabs_def

subsection \<open>Exact results\<close>

text \<open>\<open>f32_is x s n\<close>: the finite float \<open>x\<close> has sign \<open>s\<close> and magnitude \<open>n\<close> units.\<close>

definition f32_is :: "f32 \<Rightarrow> bool \<Rightarrow> nat \<Rightarrow> bool" where
  "f32_is x s n \<longleftrightarrow> f32_finite x \<and> f32_neg x = s \<and> f32_nval x = n"

definition f32_repr :: "nat \<Rightarrow> bool" where
  "f32_repr n \<longleftrightarrow> (\<exists>k<f32_inf. nval 23 k = n)"

lemma f32_mag_less [simp]: "f32_mag x < 2147483648"
  using f32_mag_le [of x] by simp

lemma f32_of_units_mag [simp]: "f32_mag (f32_of_units s d n) = min (round_units 23 d n) f32_inf"
proof -
  have "min (round_units 23 d n) f32_inf < 2 ^ 31" by (simp add: f32_inf_def min_less_iff_disj)
  then show ?thesis unfolding f32_of_units_def by (rule f32_make_mag)
qed

lemma f32_of_units_neg [simp]: "f32_neg (f32_of_units s d n) = s"
proof -
  have "min (round_units 23 d n) f32_inf < 2 ^ 31" by (simp add: f32_inf_def min_less_iff_disj)
  then show ?thesis unfolding f32_of_units_def by (rule f32_make_neg)
qed

lemma f32_of_units_exact: "f32_repr n \<Longrightarrow> f32_is (f32_of_units s d (n * 2 ^ d)) s n"
  by (auto simp: f32_repr_def f32_is_def f32_finite_def f32_nval_def min_def)

lemma f32_is_repr: "f32_is x s n \<Longrightarrow> f32_repr n"
  by (auto simp: f32_is_def f32_repr_def f32_finite_def f32_nval_def)

lemma f32_is_unique: "f32_is x s n \<Longrightarrow> f32_is y s n \<Longrightarrow> x = y"
  by (rule f32_eqI) (auto simp: f32_is_def f32_nval_def)

lemma f32_is_make: "k < f32_inf \<Longrightarrow> f32_is (f32_make s k) s (nval 23 k)"
proof -
  assume k: "k < f32_inf"
  then have "k < 2 ^ 31" by (simp add: f32_inf_def)
  with k show ?thesis by (simp add: f32_is_def f32_finite_def f32_nval_def)
qed

lemma f32_is_not_nan: "f32_is x s n \<Longrightarrow> \<not> f32_nan x \<and> \<not> f32_is_inf x"
  by (auto simp: f32_is_def f32_finite_def f32_nan_def f32_is_inf_def)

lemma f32_is_mul:
  assumes "f32_is x s a" "f32_is y t b" "a * b = n * 2 ^ 149" "f32_repr n"
  shows "f32_is (x * y) (s \<noteq> t) n"
proof -
  have "x * y = f32_of_units (s \<noteq> t) 149 (n * 2 ^ 149)"
    using assms(1-3) f32_is_not_nan [OF assms(1)] f32_is_not_nan [OF assms(2)]
    by (simp add: times_f32_def f32_mul_def f32_is_def)
  then show ?thesis using f32_of_units_exact [OF assms(4)] by (simp only:)
qed

lemma f32_is_div:
  assumes "f32_is x s a" "f32_is y t b" "a * 2 ^ 149 = n * b" "0 < b" "f32_repr n"
  shows "f32_is (x / y) (s \<noteq> t) n"
proof -
  have mag: "f32_mag y \<noteq> 0"
    using assms(2,4) nval_eq_0_iff [of 23 "f32_mag y"] by (metis f32_is_def f32_nval_def less_irrefl)
  have "x / y = quot_units (s \<noteq> t) (a * 2 ^ 149) b"
    using assms(1,2) mag f32_is_not_nan [OF assms(1)] f32_is_not_nan [OF assms(2)]
    by (simp add: divide_f32_def f32_div_def f32_is_def)
  also have "\<dots> = f32_of_units (s \<noteq> t) 3 (n * 2 ^ 3)"
  proof -
    have "a * 2 ^ 149 * 4 = n * 4 * b" using assms(3) by (simp only: mult.assoc mult.left_commute mult.commute [of b 4])
    then show ?thesis using assms(4) unfolding quot_units_def by (simp only:) (simp add: mult.commute)
  qed
  finally show ?thesis using f32_of_units_exact [OF assms(5)] by (simp only:)
qed

lemma f32_is_neg: "f32_is x s n \<Longrightarrow> f32_is (- x) (\<not> s) n"
  by (simp add: uminus_f32_def f32_neg_of_def f32_is_def f32_finite_def f32_nval_def)

lemma f32_is_add:
  assumes "f32_is x s a" "f32_is y t b"
    "(if s then - int a else int a) + (if t then - int b else int b) = (if u then - int n else int n)"
    "0 < n" "f32_repr n"
  shows "f32_is (x + y) u n"
proof -
  have "f32_sval x + f32_sval y = (if u then - int n else int n)"
    using assms(1-3) unfolding f32_sval_def f32_is_def by presburger
  then have "x + y = f32_of_units u 0 (n * 2 ^ 0)"
    using assms(4) f32_is_not_nan [OF assms(1)] f32_is_not_nan [OF assms(2)]
    by (auto simp: plus_f32_def f32_add_def Let_def)
  then show ?thesis using f32_of_units_exact [OF assms(5), of u 0] by simp
qed

lemma f32_repr_le:
  assumes "q \<le> 2 ^ 24" "E \<le> 250"
  shows "f32_repr (q * 2 ^ E)"
proof -
  obtain k where k: "nval 23 k = q * 2 ^ E" using nval_representable [of q 23 E] assms by auto
  have "nval 23 f32_inf = 2 ^ 277" by (simp add: nval_def f32_inf_def)
  moreover have "q * 2 ^ E \<le> 2 ^ 24 * 2 ^ 250"
    using assms by (intro mult_le_mono power_increasing) auto
  moreover have "(2::nat) ^ 24 * 2 ^ 250 < 2 ^ 277" by (simp flip: power_add)
  ultimately have "nval 23 k < nval 23 f32_inf" unfolding k by linarith
  then have "k < f32_inf" by (simp only: nval_less_iff)
  with k show ?thesis by (auto simp: f32_repr_def)
qed

lemma f32_is_of_int:
  assumes "\<bar>i\<bar> \<le> 2 ^ 24"
  shows "f32_is (f32_of_int i) (i < 0) (nat \<bar>i\<bar> * 2 ^ 149)"
proof -
  have "nat \<bar>i\<bar> \<le> 2 ^ 24" using assms by (simp add: nat_le_iff)
  then have "f32_repr (nat \<bar>i\<bar> * 2 ^ 149)" by (intro f32_repr_le) auto
  from f32_of_units_exact [OF this, of _ 0] show ?thesis by (simp add: f32_of_int_def)
qed

subsection \<open>Order\<close>

lemma f32_key_sval_less: "f32_key x < f32_key y \<longleftrightarrow> f32_sval x < f32_sval y"
proof -
  have "int (f32_mag z) = 0 \<longleftrightarrow> int (nval 23 (f32_mag z)) = 0" for z by simp
  moreover have "0 \<le> int (f32_mag z)" "0 \<le> int (nval 23 (f32_mag z))" for z by simp_all
  ultimately have "(- int (f32_mag x) < int (f32_mag y)) =
      (- int (nval 23 (f32_mag x)) < int (nval 23 (f32_mag y)))"
    by (smt (verit))
  then show ?thesis by (auto simp: f32_key_def f32_sval_def f32_nval_def)
qed

lemma f32_less_iff: "x < y \<longleftrightarrow> \<not> f32_nan x \<and> \<not> f32_nan y \<and> f32_sval x < f32_sval y"
  by (simp add: less_f32_def f32_key_sval_less)

lemma f32_le_iff: "x \<le> y \<longleftrightarrow> \<not> f32_nan x \<and> \<not> f32_nan y \<and> f32_sval x \<le> f32_sval y"
  using f32_key_sval_less [of y x] by (auto simp: less_eq_f32_def)

section \<open>Words as naturals\<close>

lemma wn_bit_ge: "k < 2 ^ n \<Longrightarrow> n \<le> i \<Longrightarrow> \<not> bit (k::nat) i"
proof -
  assume "k < 2 ^ n" "n \<le> i"
  then have "k < 2 ^ i" using power_increasing [of n i "2::nat"] by linarith
  then show ?thesis by (simp add: bit_iff_odd)
qed

lemma wn_drop: "k < 2 ^ LENGTH('a) \<Longrightarrow> drop_bit n (word_of_nat k :: 'a::len word) = word_of_nat (k div 2 ^ n)"
  by (rule bit_word_eqI)
     (auto simp: bit_word_of_nat bit_drop_bit_eq not_less dest: wn_bit_ge simp flip: drop_bit_eq_div
       intro: ccontr)

lemma wn_mask: "word_of_nat k AND mask n = (word_of_nat (k mod 2 ^ n) :: 'a::len word)"
  by (rule bit_word_eqI)
     (auto simp: bit_word_of_nat bit_and_iff bit_mask_iff bit_take_bit_iff simp flip: take_bit_eq_mod)

lemma wn_eq: "a < 2 ^ LENGTH('a) \<Longrightarrow> b < 2 ^ LENGTH('a) \<Longrightarrow> (word_of_nat a :: 'a::len word) = word_of_nat b \<longleftrightarrow> a = b"
  by (simp add: word_unat_eq_iff unat_word_of_nat)

lemma wn_less: "a < 2 ^ LENGTH('a) \<Longrightarrow> b < 2 ^ LENGTH('a) \<Longrightarrow> (word_of_nat a :: 'a::len word) < word_of_nat b \<longleftrightarrow> a < b"
  by (simp add: word_less_nat_alt unat_word_of_nat)

lemma wn_le: "a < 2 ^ LENGTH('a) \<Longrightarrow> b < 2 ^ LENGTH('a) \<Longrightarrow> (word_of_nat a :: 'a::len word) \<le> word_of_nat b \<longleftrightarrow> a \<le> b"
  by (simp add: word_le_nat_alt unat_word_of_nat)

lemma wn_odd: "(word_of_nat k :: 'a::len word) AND 1 = (if odd k then 1 else 0)"
  using wn_mask [of k 1, where 'a = 'a] by (simp add: mask_eq_exp_minus_1 odd_iff_mod_2_eq_one even_iff_mod_2_eq_zero)

lemma wn_push: "push_bit n (word_of_nat k :: 'a::len word) = word_of_nat (k * 2 ^ n)"
  by (simp add: push_bit_eq_mult)

lemma wn_or:
  assumes "b < 2 ^ n"
  shows "word_of_nat (a * 2 ^ n) OR word_of_nat b = (word_of_nat (a * 2 ^ n + b) :: 'a::len word)"
proof -
  have lo: "\<not> bit (a * 2 ^ n) i" if "i < n" for i
    using that by (simp add: bit_push_bit_iff flip: push_bit_eq_mult)
  have "\<not> bit (word_of_nat (a * 2 ^ n) :: 'a word) i \<or> \<not> bit (word_of_nat b :: 'a word) i" for i
    using lo [of i] wn_bit_ge [OF assms, of i] by (simp only: bit_word_of_nat) (meson not_less)
  then have "(word_of_nat (a * 2 ^ n) :: 'a word) + word_of_nat b = word_of_nat (a * 2 ^ n) OR word_of_nat b"
    by (intro disjunctive_add) auto
  then show ?thesis by (simp only: of_nat_add)
qed

lemma wn_ucast: "k < 2 ^ LENGTH('a) \<Longrightarrow> ucast (word_of_nat k :: 'a::len word) = (word_of_nat k :: 'b::len word)"
proof -
  assume "k < 2 ^ LENGTH('a)"
  then have "(word_of_nat (unat (word_of_nat k :: 'a word)) :: 'b word) = word_of_nat k"
    by (simp only: unat_word_of_nat)
  then show ?thesis by (simp add: unsigned_ucast_eq)
qed

lemma wn_ucast_down: "LENGTH('b) \<le> LENGTH('a) \<Longrightarrow> ucast (word_of_nat k :: 'a::len word) = (word_of_nat k :: 'b::len word)"
  by (rule bit_word_eqI) (auto simp: bit_ucast_iff bit_word_of_nat)

lemma f32_bits_mag: "f32_bits x AND 0x7fffffff = word_of_nat (f32_mag x)"
  by (simp add: f32_mag_def)

lemma wn_numeral:
  assumes "a < 2 ^ LENGTH('a)" "numeral n < (2::nat) ^ LENGTH('a)"
  shows "((word_of_nat a :: 'a::len word) = numeral n) = (a = numeral n)"
    "(numeral n < (word_of_nat a :: 'a word)) = (numeral n < a)"
    "(numeral n \<le> (word_of_nat a :: 'a word)) = (numeral n \<le> a)"
    "((word_of_nat a :: 'a word) < numeral n) = (a < numeral n)"
    "((word_of_nat a :: 'a word) \<le> numeral n) = (a \<le> numeral n)"
  using wn_eq [OF assms] wn_less [OF assms] wn_le [OF assms]
    wn_less [OF assms(2,1)] wn_le [OF assms(2,1)] by simp_all

end
