(* ===== verification/Codecs.thy ===== *)
theory Codecs
  imports Ieee
begin

text \<open>
  The element codecs of the quantized formats: \<open>kernels/common/quant_codecs.hpp\<close> and the
  scalar conversions of \<open>kernels/quantization/turboquant/turboquant_codec.hpp\<close>, on machine
  words and with the float operations in the order of the code.  Each conversion is proved
  equal to its specification, the nearest-even rounding of \<^theory_text>\<open>Ieee\<close>, and each decoder to the
  exact value of its format; round trips follow.  An instance of the locale \<open>code\<close> is a
  pair of an encoder and a decoder that is lossless on the valid codes.
\<close>

section \<open>The interface of a lossless code\<close>

text \<open>
  What a cache or a weight store relies on: on valid codes, encoding undoes decoding.
  Clients: the fp8 key/value cache, the half-precision scales of the TurboQuant cache.
\<close>

locale code =
  fixes enc :: "'v \<Rightarrow> 'c" and dec :: "'c \<Rightarrow> 'v" and valid :: "'c \<Rightarrow> bool"
  assumes enc_dec: "valid c \<Longrightarrow> enc (dec c) = c"
begin

lemma dec_inj: "valid c \<Longrightarrow> valid c' \<Longrightarrow> dec c = dec c' \<longleftrightarrow> c = c'"
  using enc_dec by metis

lemma recode_list: "list_all valid cs \<Longrightarrow> map (enc \<circ> dec) cs = cs"
  by (induction cs) (auto simp: enc_dec)

lemma reencode_idem: "valid (enc v) \<Longrightarrow> enc (dec (enc v)) = enc v"
  by (rule enc_dec)

end

section \<open>binary16\<close>

definition f32_to_f16_bits :: "f32 \<Rightarrow> 16 word" where
  "f32_to_f16_bits x =
    (let b0 = f32_bits x;
         sign = drop_bit 16 b0 AND 0x8000;
         b = b0 AND 0x7fffffff in
     if b \<ge> 0x7f800000 then
       ucast (sign OR 0x7c00 OR (if b > 0x7f800000 then 0x200 else 0))
     else
       let exp32 = uint (drop_bit 23 b) - 127 in
       if exp32 \<ge> -14 then
         let mant = b AND 0x7fffff;
             keep = drop_bit 13 mant;
             rest = mant AND 0x1fff;
             e = word_of_int (exp32 + 15);
             (keep, e) =
               (if rest > 0x1000 \<or> (rest = 0x1000 \<and> keep AND 1 \<noteq> 0) then
                  (let keep = keep + 1 in if keep = 0x400 then (0, e + 1) else (keep, e))
                else (keep, e)) in
         if e \<ge> 31 then ucast (sign OR 0x7c00)
         else ucast (sign OR push_bit 10 e OR keep)
       else
         let shift = nat (- exp32 - 1) in
         if shift \<ge> 25 then ucast sign
         else
           let sig = 0x800000 OR (b AND 0x7fffff);
               m = drop_bit shift sig;
               rem = sig AND (push_bit shift 1 - 1);
               halfway = push_bit (shift - 1) 1;
               m = (if rem > halfway \<or> (rem = halfway \<and> m AND 1 \<noteq> 0) then m + 1 else m) in
           ucast (sign OR m))"

text \<open>The specification: the binary16 pattern nearest to the value, overflow to infinity.\<close>

definition f16_of_f32 :: "f32 \<Rightarrow> 16 word" where
  "f16_of_f32 x = (if f32_neg x then 0x8000 else 0) OR
     (if f32_nan x then 0x7e00
      else word_of_nat (min (round_units 10 125 (f32_nval x)) 0x7c00))"

lemma sign16: "ucast (drop_bit 16 (f32_bits x) AND 0x8000 OR w) = (if f32_neg x then 0x8000 else 0) OR (ucast w :: 16 word)"
proof (rule bit_word_eqI)
  fix n assume "n < LENGTH(16)"
  have "bit (0x8000 :: int) n \<longleftrightarrow> n = 15" 
  proof -
    have "(0x8000 :: int) = push_bit 15 1" by (simp add: push_bit_eq_mult)
    then show ?thesis by (simp only: bit_push_bit_iff bit_1_iff) auto
  qed
  then show "bit (ucast (drop_bit 16 (f32_bits x) AND 0x8000 OR w) :: 16 word) n \<longleftrightarrow>
      bit ((if f32_neg x then 0x8000 else 0) OR (ucast w :: 16 word)) n"
    using \<open>n < LENGTH(16)\<close>
    by (auto simp: bit_ucast_iff bit_or_iff bit_and_iff bit_drop_bit_eq f32_neg_def)
qed

lemma f16_normal_case:
  fixes k :: nat
  assumes "113 \<le> k div 2 ^ 23" "k < 0x7f800000"
  defines "keep \<equiv> rne 13 (k mod 2 ^ 23)" and "e \<equiv> k div 2 ^ 23 - 112"
  shows "min (round_units 10 125 (nval 23 k)) 0x7c00 =
    (if keep = 1024 then (if 31 \<le> e + 1 then 0x7c00 else (e + 1) * 1024)
     else if 31 \<le> e then 0x7c00 else e * 1024 + keep)"
proof -
  have "2 ^ 23 \<le> k" using assms(1) by (rule contrapos_pp) simp
  then have "round_units 10 125 (nval 23 k) = e * 1024 + keep"
    using narrow_normal [of 10 13 k 125] assms(1) by (simp add: keep_def e_def)
  moreover have "keep \<le> 1024"
  proof -
    have "k mod 2 ^ 23 div 2 ^ 13 < 1024" by (simp add: less_mult_imp_div_less)
    then show ?thesis using rne_bounds [of "k mod 2 ^ 23" 13] unfolding keep_def by linarith
  qed
  ultimately show ?thesis by auto
qed


lemma f16_word_normal:
  fixes r e :: nat
  assumes "r < 2 ^ 23" "e < 300"
  defines "keep \<equiv> rne 13 r"
  shows "(let mant = word_of_nat r :: 32 word; k = drop_bit 13 mant; rest = mant AND 0x1fff;
             (k, e') =
               (if rest > 0x1000 \<or> (rest = 0x1000 \<and> k AND 1 \<noteq> 0) then
                  (let k = k + 1 in if k = 0x400 then (0, word_of_nat e + 1) else (k, word_of_nat e))
                else (k, word_of_nat e)) in
         if e' \<ge> 31 then ucast (s OR 0x7c00)
         else ucast (s OR push_bit 10 e' OR k)) =
      (ucast (s OR word_of_nat (if keep = 1024 then (if 31 \<le> e + 1 then 0x7c00 else (e + 1) * 1024)
          else if 31 \<le> e then 0x7c00 else e * 1024 + keep)) :: 16 word)"
proof -
  define q t where "q = r div 2 ^ 13" and "t = r mod 2 ^ 13"
  have bnd: "q < 1024" "t < 8192" using assms(1) by (simp_all add: q_def t_def less_mult_imp_div_less)
  have keep: "keep = (if t > 4096 \<or> t = 4096 \<and> odd q then q + 1 else q)"
    by (auto simp: keep_def rne_def Let_def q_def t_def)
  have m13: "(0x1fff :: 32 word) = mask 13" by (simp add: mask_eq_exp_minus_1)
  have w: "drop_bit 13 (word_of_nat r :: 32 word) = word_of_nat q"
      "(word_of_nat r :: 32 word) AND 0x1fff = word_of_nat t"
    using assms(1) by (simp_all add: wn_drop q_def t_def m13 wn_mask)
  have c: "(0x1000 < (word_of_nat t :: 32 word)) = (4096 < t)"
      "((word_of_nat t :: 32 word) = 0x1000) = (t = 4096)"
    using bnd wn_less [of 4096 t, where 'a = 32] wn_eq [of t 4096, where 'a = 32] by simp_all
  have o: "((word_of_nat q :: 32 word) AND 1 \<noteq> 0) = odd q" by (simp add: wn_odd)
  have k1: "((word_of_nat q :: 32 word) + 1 = 0x400) = (q + 1 = 1024)"
  proof -
    have "((word_of_nat (q + 1) :: 32 word) = word_of_nat 1024) = (q + 1 = 1024)"
      using bnd by (intro wn_eq) simp_all
    then show ?thesis by (simp only: of_nat_add of_nat_1 of_nat_numeral)
  qed
  have e: "((word_of_nat e :: 32 word) + 1 \<ge> 31) = (31 \<le> e + 1)" "((word_of_nat e :: 32 word) \<ge> 31) = (31 \<le> e)"
  proof -
    have "(word_of_nat 31 \<le> (word_of_nat (e + 1) :: 32 word)) = (31 \<le> e + 1)"
      "(word_of_nat 31 \<le> (word_of_nat e :: 32 word)) = (31 \<le> e)"
      using assms(2) by (intro wn_le; simp)+
    then show "((word_of_nat e :: 32 word) + 1 \<ge> 31) = (31 \<le> e + 1)" "((word_of_nat e :: 32 word) \<ge> 31) = (31 \<le> e)"
      by (simp_all only: of_nat_add of_nat_1 of_nat_numeral)
  qed
  have j: "push_bit 10 (word_of_nat a) OR word_of_nat b = (word_of_nat (a * 1024 + b) :: 32 word)" if "b < 1024" for a b
    using wn_or [of b 10 a] that by (simp add: wn_push)
  have j0: "push_bit 10 (word_of_nat a + 1) = (word_of_nat ((a + 1) * 1024) :: 32 word)" for a
    by (simp add: push_bit_eq_mult algebra_simps)
  show ?thesis
  proof (cases "t > 4096 \<or> t = 4096 \<and> odd q")
    case up: True
    then have K: "keep = q + 1" by (simp add: keep)
    show ?thesis
    proof (cases "q + 1 = 1024")
      case True
      with K have K': "keep = 1024" by simp
      show ?thesis
        by (cases "31 \<le> e + 1") (simp_all only: Let_def w c o k1 e True up K' if_True if_False simp_thms prod.case j0 or.right_neutral of_nat_numeral)
    next
      case False
      with K have K': "(keep = 1024) = False" "q + 1 < 1024" using bnd by simp_all
      have p: "(word_of_nat q :: 32 word) + 1 = word_of_nat (q + 1)" by simp
      have k2: "((word_of_nat (q + 1) :: 32 word) = 0x400) = False"
        using K' wn_numeral(1) [of "q + 1" "Num.Bit0 Num.One", where 'a = 32] k1 False by (simp only: p)
      show ?thesis
        by (cases "31 \<le> e")
          (simp_all only: Let_def w c o k1 e False up K' if_True if_False simp_thms prod.case p k2 or.assoc j [OF K'(2)] K of_nat_numeral)
    qed
  next
    case False
    then have K: "keep = q" "(q = 1024) = False" using bnd by (simp_all only: keep) auto
    show ?thesis
      by (cases "31 \<le> e")
        (simp_all only: Let_def w c o k1 e False K(2) if_True if_False simp_thms prod.case or.assoc j [OF bnd(1)] K(1) of_nat_numeral)
  qed
qed

lemma f16_word_subnormal:
  fixes r sh :: nat
  assumes "r < 2 ^ 23" "14 \<le> sh" "sh < 25"
  shows "(let sig = 0x800000 OR word_of_nat r :: 32 word;
              m = drop_bit sh sig;
              rem = sig AND (push_bit sh 1 - 1);
              halfway = push_bit (sh - 1) 1;
              m = (if rem > halfway \<or> (rem = halfway \<and> m AND 1 \<noteq> 0) then m + 1 else m) in
           ucast (s OR m)) = (ucast (s OR word_of_nat (rne sh (2 ^ 23 + r))) :: 16 word)"
proof -
  define n where "n = 2 ^ 23 + r"
  have n: "n < 2 ^ 24" using assms(1) by (simp add: n_def)
  have sig: "0x800000 OR word_of_nat r = (word_of_nat n :: 32 word)"
    using wn_or [OF assms(1), of 1, where 'a = 32] by (simp add: n_def)
  have mk: "push_bit sh 1 - 1 = (mask sh :: 32 word)" by (simp add: mask_eq_exp_minus_1 push_bit_eq_mult)
  have d: "drop_bit sh (word_of_nat n :: 32 word) = word_of_nat (n div 2 ^ sh)"
    using n by (intro wn_drop) simp
  have h: "push_bit (sh - 1) 1 = (word_of_nat (2 ^ (sh - 1)) :: 32 word)" by (simp add: push_bit_eq_mult)
  have "(2::nat) ^ sh < 2 ^ 32" "(2::nat) ^ (sh - 1) < 2 ^ 32"
    using assms(3) by (intro power_strict_increasing; simp)+
  then have half: "2 ^ (sh - 1) < (2::nat) ^ LENGTH(32)" "(2::nat) ^ sh < 2 ^ LENGTH(32)" by simp_all
  have two: "2 * 2 ^ (sh - 1) = (2::nat) ^ sh" using assms(2) by (simp flip: power_Suc)
  have r: "n mod 2 ^ sh < 2 ^ LENGTH(32)" using half(2) by (metis le_less_trans less_imp_le mod_less_divisor pos2 zero_less_power)
  have o: "((word_of_nat a :: 32 word) AND 1 \<noteq> 0) = odd a" for a by (simp add: wn_odd)
  have up: "(2 ^ (sh - 1) < n mod 2 ^ sh) = (2 ^ sh < 2 * (n mod 2 ^ sh))"
    "(n mod 2 ^ sh = 2 ^ (sh - 1)) = (2 * (n mod 2 ^ sh) = 2 ^ sh)"
    unfolding two [symmetric] by linarith+
  show ?thesis
    by (simp only: Let_def sig mk d h o wn_mask wn_less [OF half(1) r] wn_eq [OF r half(1)] up rne_def n_def [symmetric])
       (simp add: add.commute)
qed

lemma f32_to_f16_bits_nearest: "f32_to_f16_bits x = f16_of_f32 x"
proof -
  define k where "k = f32_mag x"
  have k: "k < 2 ^ LENGTH(32)" using less_trans [OF f32_mag_less [of x], of "2 ^ 32"] by (simp add: k_def)
  have b: "f32_bits x AND 0x7fffffff = word_of_nat k" by (simp add: f32_bits_mag k_def)
  have inf: "(0x7f800000 \<le> (word_of_nat k :: 32 word)) = (f32_inf \<le> k)"
    "(0x7f800000 < (word_of_nat k :: 32 word)) = (f32_inf < k)"
    using k wn_numeral(2,3) [of k _, where 'a = 32] by (simp_all add: f32_inf_def)
  have ex: "uint (drop_bit 23 (word_of_nat k :: 32 word)) = int (k div 2 ^ 23)"
  proof -
    have "k div 2 ^ 23 < 2 ^ LENGTH(32)" using k by (simp add: less_mult_imp_div_less)
    then show ?thesis using k by (simp only: wn_drop uint_nat unat_word_of_nat)
  qed
  have m23: "(0x7fffff :: 32 word) = mask 23" by (simp add: mask_eq_exp_minus_1)
  show ?thesis
  proof (cases "f32_inf \<le> k")
    case True
    then have "round_units 10 125 (f32_nval x) \<ge> 0x7c00" if "k = f32_inf"
      using that by (simp add: f32_nval_def f32_inf_def nval_def round_units_def Let_def rne_def flip: k_def)
    with True show ?thesis
      by (simp add: f32_to_f16_bits_def f16_of_f32_def Let_def b inf f32_nan_def or.assoc sign16 flip: k_def)
  next
    case False
    then have nn: "\<not> f32_nan x" by (simp add: f32_nan_def flip: k_def)
    from False have kinf: "k < 0x7f800000" by (simp add: f32_inf_def)
    have e255: "k div 2 ^ 23 < 255" using kinf by (simp add: less_mult_imp_div_less)
    have m: "word_of_nat k AND 0x7fffff = (word_of_nat (k mod 2 ^ 23) :: 32 word)"
      by (simp only: m23 wn_mask)
    have F: "(f32_inf \<le> k) = False" using False by simp
    have r: "k mod 2 ^ 23 < 2 ^ 23" by simp
    have spec: "f16_of_f32 x = (if f32_neg x then 0x8000 else 0) OR
        word_of_nat (min (round_units 10 125 (nval 23 k)) 0x7c00)"
      using nn by (simp add: f16_of_f32_def f32_nval_def k_def)
    have g: "(-14 \<le> int (k div 2 ^ 23) - 127) = (113 \<le> k div 2 ^ 23)" by linarith
    show ?thesis
    proof (cases "113 \<le> k div 2 ^ 23")
      case True
      then have "int (k div 2 ^ 23) - 127 + 15 = int (k div 2 ^ 23 - 112)" by linarith
      then have e: "word_of_int (int (k div 2 ^ 23) - 127 + 15) = (word_of_nat (k div 2 ^ 23 - 112) :: 32 word)"
        by (simp only: of_int_of_nat_eq)
      note nc = f16_normal_case [OF True kinf]
      have "k div 2 ^ 23 - 112 < 300" using e255 by simp
      note w = f16_word_normal [OF r this, of "drop_bit 16 (f32_bits x) AND 0x8000"]
      show ?thesis
        unfolding f32_to_f16_bits_def spec
        by (simp only: b inf F if_False ex g True if_True e m w [unfolded Let_def] Let_def nc)
          (simp add: sign16 wn_ucast_down)
    next
      case False
      define sh where "sh = 126 - k div 2 ^ 23"
      have sh: "nat (- (int (k div 2 ^ 23) - 127) - 1) = sh" using False by (simp add: sh_def)
      have s0: "word_of_nat 0 = (0 :: 32 word)" by simp
      show ?thesis
      proof (cases "25 \<le> sh")
        case True
        have "round_units 10 125 (nval 23 k) = 0"
        proof (cases "2 ^ 23 \<le> k")
          case ge: True
          have "(2::nat) ^ 25 \<le> 2 ^ sh" using True by (intro power_increasing) auto
          moreover have "2 * (2 ^ 23 + k mod 2 ^ 23) < (2::nat) ^ 25" using r by simp
          ultimately have "2 * (2 ^ 23 + k mod 2 ^ 23) < 2 ^ sh" by (rule less_le_trans [rotated])
          then show ?thesis
            using narrow_subnormal [of 10 13 k 125] ge False by (simp add: sh_def rne_small)
        next
          case lt: False
          then show ?thesis by (intro narrow_zero) auto
        qed
        with True show ?thesis
          unfolding f32_to_f16_bits_def spec
          by (simp only: b inf F if_False ex g False sh if_True Let_def sign16 [of x 0, simplified])
             simp
      next
        case ge: False
        then have "14 \<le> sh" "sh < 25" using False by (simp_all add: sh_def)
        note w = f16_word_subnormal [OF r this, of "drop_bit 16 (f32_bits x) AND 0x8000"]
        have "2 ^ 23 \<le> k" using ge by (cases "k < 2 ^ 23") (simp_all add: sh_def)
        then have R: "round_units 10 125 (nval 23 k) = rne sh (2 ^ 23 + k mod 2 ^ 23)"
          using narrow_subnormal [of 10 13 k 125] False by (simp add: sh_def)
        have "(2 ^ 23 + k mod 2 ^ 23) div 2 ^ sh < 2048"
        proof -
          have "(2::nat) ^ 14 \<le> 2 ^ sh" using \<open>14 \<le> sh\<close> by (intro power_increasing) auto
          then have "2048 * (2::nat) ^ 14 \<le> 2048 * 2 ^ sh" by simp
          moreover have "2 ^ 23 + k mod 2 ^ 23 < 2048 * (2::nat) ^ 14" using r by simp
          ultimately have "2 ^ 23 + k mod 2 ^ 23 < 2048 * 2 ^ sh" by (rule less_le_trans [rotated])
          then show ?thesis by (simp add: less_mult_imp_div_less)
        qed
        then have "rne sh (2 ^ 23 + k mod 2 ^ 23) \<le> 0x7c00"
          using rne_bounds [of "2 ^ 23 + k mod 2 ^ 23" sh] by linarith
        then have M: "min (rne sh (2 ^ 23 + k mod 2 ^ 23)) 0x7c00 = rne sh (2 ^ 23 + k mod 2 ^ 23)" by (rule min_absorb1)
        show ?thesis
          unfolding f32_to_f16_bits_def spec R M
          by (simp only: b inf F if_False ex g False sh ge m w [unfolded Let_def] Let_def)
             (simp add: sign16 wn_ucast_down)
      qed
    qed
  qed
qed

definition f16_bits_to_f32 :: "16 word \<Rightarrow> f32" where
  "f16_bits_to_f32 h =
    (let sign = push_bit 16 (ucast (h AND 0x8000) :: 32 word);
         e = ucast (drop_bit 10 h AND 0x1f) :: 32 word;
         m = ucast (h AND 0x3ff) :: 32 word in
     if e = 0 then
       if m = 0 then F32 sign
       else let v = f32_of_int (uint m) * F32 0x33800000
         in if h AND 0x8000 \<noteq> 0 then - v else v
     else if e = 31 then F32 (sign OR 0x7f800000 OR push_bit 13 m)
     else F32 (sign OR push_bit 23 (e + 112) OR push_bit 13 m))"

lemma wn_lt_mask: "m < 2 ^ n \<Longrightarrow> word_of_nat m AND mask n = (word_of_nat m :: 'a::len word)"
  by (simp add: wn_mask)

text \<open>Sign and magnitude of a 16-bit pattern.\<close>

definition f16_mag :: "16 word \<Rightarrow> nat" where
  "f16_mag h = unat (h AND 0x7fff)"

lemma f16_mag_lt: "f16_mag h < 2 ^ 15"
proof -
  have "(0x7fff :: 16 word) = mask 15" by (simp add: mask_eq_exp_minus_1)
  then have "f16_mag h = take_bit 15 (unat h)"
    by (simp only: f16_mag_def unsigned_take_bit_eq take_bit_eq_mask [symmetric])
  then show ?thesis by (simp only: take_bit_nat_less_exp)
qed

lemma f16_fields:
  "drop_bit 10 h AND 0x1f = word_of_nat (f16_mag h div 2 ^ 10)"
  "h AND 0x3ff = word_of_nat (f16_mag h mod 2 ^ 10)"
proof -
  have m: "(0x7fff :: 16 word) = mask 15" "(0x1f :: 16 word) = mask 5" "(0x3ff :: 16 word) = mask 10"
    by (simp_all add: mask_eq_exp_minus_1)
  have w: "h AND mask 15 = word_of_nat (f16_mag h)" by (simp add: f16_mag_def m)
  have "drop_bit 10 h AND 0x1f = drop_bit 10 (h AND mask 15)"
    unfolding m by (rule bit_word_eqI) (auto simp: bit_simps)
  also have "\<dots> = word_of_nat (f16_mag h div 2 ^ 10)"
    using f16_mag_lt [of h] unfolding w by (intro wn_drop) simp
  finally show "drop_bit 10 h AND 0x1f = word_of_nat (f16_mag h div 2 ^ 10)" .
  have "h AND 0x3ff = (h AND mask 15) AND mask 10"
    unfolding m by (rule bit_word_eqI) (auto simp: bit_simps)
  also have "\<dots> = word_of_nat (f16_mag h mod 2 ^ 10)" unfolding w by (rule wn_mask)
  finally show "h AND 0x3ff = word_of_nat (f16_mag h mod 2 ^ 10)" .
qed

lemma bit_0x8000: "bit (0x8000 :: int) n \<longleftrightarrow> n = 15"
proof -
  have "(0x8000 :: int) = push_bit 15 1" by (simp add: push_bit_eq_mult)
  then show ?thesis by (simp only: bit_push_bit_iff bit_1_iff) auto
qed

lemma f16_eta: "(h :: 16 word) = (if bit h 15 then 0x8000 else 0) OR word_of_nat (f16_mag h)"
proof (rule bit_word_eqI)
  fix n assume n: "n < LENGTH(16)"
  have m: "(0x7fff :: 16 word) = mask 15" by (simp add: mask_eq_exp_minus_1)
  from n have "n = 15 \<or> n < 15" by auto
  then show "bit h n = bit ((if bit h 15 then 0x8000 else 0) OR word_of_nat (f16_mag h) :: 16 word) n"
    by (auto simp: f16_mag_def m bit_or_iff bit_and_iff bit_mask_iff bit_0x8000)
qed

lemma sign_of_f16: "(h :: 16 word) AND 0x8000 = (if bit h 15 then 0x8000 else 0)"
  by (rule bit_word_eqI) (auto simp: bit_and_iff bit_0x8000)

lemma f16_sign_word: "push_bit 16 (ucast ((h :: 16 word) AND 0x8000) :: 32 word) = (if bit h 15 then 0x80000000 else 0)"
  by (simp add: sign_of_f16)

lemma f16_sign_nz: "((h :: 16 word) AND 0x8000 \<noteq> 0) = bit h 15"
  by (simp add: sign_of_f16)

lemma f16_wide_normal:
  assumes "e < 143" "0 < e" "m < 2 ^ 10"
  shows "f32_is (F32 ((if s then 0x80000000 else 0) OR push_bit 23 (word_of_nat (e + 112)) OR push_bit 13 (word_of_nat m)))
    s (nval 10 (e * 2 ^ 10 + m) * 2 ^ 125)"
proof -
  define k where "k = (e + 112) * 2 ^ 23 + m * 2 ^ 13"
  have "push_bit 23 (word_of_nat (e + 112)) OR push_bit 13 (word_of_nat m) = (word_of_nat k :: 32 word)"
    using wn_or [of "m * 2 ^ 13" 23 "e + 112", where 'a = 32] assms(3) by (simp only: wn_push k_def) simp
  then have F: "F32 ((if s then 0x80000000 else 0) OR push_bit 23 (word_of_nat (e + 112)) OR push_bit 13 (word_of_nat m))
      = f32_make s k"
    by (simp only: f32_make_def or.assoc)
  have k: "k < f32_inf" using assms by (simp add: k_def f32_inf_def)
  have "k = (e + 111) * 2 ^ 23 + (2 ^ 23 + m * 2 ^ 13)" by (simp add: k_def)
  then have "nval 23 k = (2 ^ 23 + m * 2 ^ 13) * 2 ^ (e + 111)"
    using nval_eq [of "e + 111" 23 "2 ^ 23 + m * 2 ^ 13"] assms(3) by simp
  moreover have "nval 10 (e * 2 ^ 10 + m) = (2 ^ 10 + m) * 2 ^ (e - 1)"
  proof -
  have "e * 2 ^ 10 + m = (e - 1) * 2 ^ 10 + (2 ^ 10 + m)"
    using assms(2) by (cases e) auto
  then have "nval 10 (e * 2 ^ 10 + m) = nval 10 ((e - 1) * 2 ^ 10 + (2 ^ 10 + m))" by (simp only:)
  also have "\<dots> = (2 ^ 10 + m) * 2 ^ (e - 1)" using assms(3) by (intro nval_eq) auto
  finally show ?thesis .
  qed
  moreover have "(2 ^ 23 + m * 2 ^ 13) * 2 ^ (e + 111) = (2 ^ 10 + m) * 2 ^ (e - 1) * 2 ^ 125"
  proof -
    have "2 ^ 23 + m * 2 ^ 13 = (2 ^ 10 + m) * 2 ^ 13" by simp
    moreover have "(2::nat) ^ 13 * 2 ^ (e + 111) = 2 ^ (e - 1) * 2 ^ 125"
    proof -
      have "13 + (e + 111) = e - 1 + 125" using assms(2) by simp
      then show ?thesis by (simp only: power_add [symmetric])
    qed
    ultimately show ?thesis by (simp only: mult.assoc)
  qed
  ultimately show ?thesis unfolding F using f32_is_make [OF k] by simp
qed

lemma f16_wide_subnormal:
  assumes "m < 2 ^ 10"
  shows "f32_is (f32_of_int (int m) * F32 0x33800000) False (m * 2 ^ 125)"
proof -
  have a: "f32_is (f32_of_int (int m)) False (m * 2 ^ 149)" using f32_is_of_int [of "int m"] assms by simp
  have b: "f32_is (F32 0x33800000) False (2 ^ 125)"
    by (simp add: f32_is_def f32_eval)
  have "f32_is (f32_of_int (int m) * F32 0x33800000) (False \<noteq> False) (m * 2 ^ 125)"
    using assms by (intro f32_is_mul [OF a b] f32_repr_le) simp_all
  then show ?thesis by simp
qed

lemma f16_bits_to_f32_exact:
  assumes "f16_mag h < 0x7c00"
  shows "f32_is (f16_bits_to_f32 h) (bit h 15) (nval 10 (f16_mag h) * 2 ^ 125)"
proof -
  define e m where "e = f16_mag h div 2 ^ 10" and "m = f16_mag h mod 2 ^ 10"
  have k: "f16_mag h = e * 2 ^ 10 + m" by (simp add: e_def m_def)
  have b: "e < 31" "m < 2 ^ 10" using assms by (simp_all add: e_def m_def less_mult_imp_div_less)
  have u: "(ucast (word_of_nat i :: 16 word) :: 32 word) = word_of_nat i" if "i < 2 ^ 16" for i
    using that by (intro wn_ucast) simp
  have f: "(ucast (drop_bit 10 h AND 0x1f) :: 32 word) = word_of_nat e" "(ucast (h AND 0x3ff) :: 32 word) = word_of_nat m"
    using b by (simp_all only: f16_fields e_def [symmetric] m_def [symmetric]) (simp_all add: u)
  have z: "((word_of_nat e :: 32 word) = 0) = (e = 0)" "((word_of_nat m :: 32 word) = 0) = (m = 0)"
     "((word_of_nat e :: 32 word) = 31) = (e = 31)"
    using b wn_eq [of e 0, where 'a = 32] wn_eq [of m 0, where 'a = 32] wn_eq [of e 31, where 'a = 32] by simp_all
  have um: "uint (word_of_nat m :: 32 word) = int m" using b by (simp add: uint_nat unat_word_of_nat)
  have e112: "(word_of_nat e :: 32 word) + 112 = word_of_nat (e + 112)" by simp
  consider "e = 0" "m = 0" | "e = 0" "0 < m" | "0 < e" by auto
  then show ?thesis
  proof cases
    case 1
    then show ?thesis
      by (simp add: f16_bits_to_f32_def Let_def f z f16_sign_word k f32_is_def f32_eval)
  next
    case 2
    have "nval 10 m = m" using b by (simp add: nval_def)
    then show ?thesis
      using f16_wide_subnormal [OF b(2)] f32_is_neg [OF f16_wide_subnormal [OF b(2)]] 2
      by (simp add: f16_bits_to_f32_def Let_def f z um f16_sign_nz k)
  next
    case 3
    then show ?thesis
      using f16_wide_normal [of e m "bit h 15"] b
      by (simp only: f16_bits_to_f32_def Let_def f z f16_sign_word e112 k) (simp add: or.assoc)
  qed
qed

lemma f16_recode:
  assumes "f16_mag h \<le> 0x7c00"
  shows "f32_to_f16_bits (f16_bits_to_f32 h) = h"
proof (cases "f16_mag h = 0x7c00")
  case True
  then have f: "drop_bit 10 h AND 0x1f = 31" "h AND 0x3ff = 0" by (simp_all add: f16_fields)
  have "f16_bits_to_f32 h = f32_make (bit h 15) f32_inf"
    by (simp add: f16_bits_to_f32_def Let_def f f16_sign_word f32_make_def f32_inf_def)
  moreover have "min (round_units 10 125 (nval 23 f32_inf)) 0x7c00 = 0x7c00"
    by (simp add: f32_inf_def nval_def round_units_def Let_def rne_def)
  ultimately show ?thesis
    using f16_eta [of h] True
    by (simp add: f32_to_f16_bits_nearest f16_of_f32_def f32_nan_def f32_nval_def f32_inf_def)
next
  case False
  with assms have lt: "f16_mag h < 0x7c00" by simp
  note x = f16_bits_to_f32_exact [OF lt]
  then have "round_units 10 125 (f32_nval (f16_bits_to_f32 h)) = f16_mag h"
    unfolding f32_is_def by (simp only: round_units_nval)
  then show ?thesis
    using x f32_is_not_nan [OF x] lt f16_eta [of h]
    by (simp add: f32_to_f16_bits_nearest f16_of_f32_def f32_is_def min_absorb1)
qed

section \<open>e4m3\<close>

definition feq :: "f32 \<Rightarrow> f32 \<Rightarrow> bool" where
  "feq x y \<longleftrightarrow> x \<le> y \<and> y \<le> x"

definition e4m3_encode :: "f32 \<Rightarrow> 8 word" where
  "e4m3_encode x =
    (let bits = f32_bits x;
         sign = ucast (drop_bit 24 bits AND 0x80);
         abs_bits = bits AND 0x7fffffff in
     if abs_bits > 0x7f800000 then sign OR 0x7f
     else let ax = F32 abs_bits in
     if ax > f32_of_int 448 then sign OR 0x7e
     else if drop_bit 23 abs_bits = 0 then sign
     else let e32 = uint (drop_bit 23 abs_bits) - 127 in
     if e32 \<ge> -6 then
       let mant = abs_bits AND 0x7fffff;
           keep = drop_bit 20 mant;
           rest = mant AND 0xfffff;
           keep = (if rest > 0x80000 \<or> (rest = 0x80000 \<and> keep AND 1 \<noteq> 0) then keep + 1 else keep);
           exp4 = e32 + 7;
           (keep, exp4) = (if keep = 8 then (0, exp4 + 1) else (keep, exp4)) in
       if exp4 > 15 \<or> (exp4 = 15 \<and> keep = 7) then sign OR 0x7e
       else sign OR ucast (push_bit 3 (word_of_int exp4) OR keep)
     else
       let t = ax * f32_of_int 512;
           k = word_of_int (f32_trunc t) :: 32 word;
           frac = t - f32_of_int (uint k);
           k = (if frac > F32 0x3f000000 \<or> (feq frac (F32 0x3f000000) \<and> k AND 1 \<noteq> 0) then k + 1 else k) in
       if k \<ge> 8 then sign OR push_bit 3 1 else sign OR ucast k)"

definition e4m3_of_f32 :: "f32 \<Rightarrow> 8 word" where
  "e4m3_of_f32 x = (if f32_neg x then 0x80 else 0) OR
     (if f32_nan x then 0x7f
      else word_of_nat (min (round_units 3 140 (f32_nval x)) 0x7e))"

lemma sign8: "ucast (drop_bit 24 (f32_bits x) AND 0x80) = (if f32_neg x then 0x80 else (0 :: 8 word))"
proof -
  have s: "bit (0x80 :: int) n \<longleftrightarrow> n = 7" for n
  proof -
    have "(0x80 :: int) = push_bit 7 1" by (simp add: push_bit_eq_mult)
    then show ?thesis by (simp only: bit_push_bit_iff bit_1_iff) auto
  qed
  show ?thesis
    by (rule bit_word_eqI) (auto simp: bit_ucast_iff bit_and_iff bit_drop_bit_eq f32_neg_def s)
qed

lemma round_units_small: "n < 2 ^ (d + m + 1) \<Longrightarrow> round_units m d n = rne d n"
  using blen_le [of n "d + m + 1"] by (simp add: round_units_def Let_def)

lemma e4m3_word_normal:
  fixes r e :: nat
  assumes "r < 2 ^ 23" "e \<le> 15" "e = 15 \<Longrightarrow> r \<le> 6 * 2 ^ 20" "0 < e"
  defines "n \<equiv> rne 20 r"
  shows "(let mant = word_of_nat r :: 32 word;
           k = drop_bit 20 mant;
           rest = mant AND 0xfffff;
           k = (if rest > 0x80000 \<or> (rest = 0x80000 \<and> k AND 1 \<noteq> 0) then k + 1 else k);
           (k, exp4) = (if k = 8 then (0, int e + 1) else (k, int e)) in
       if exp4 > 15 \<or> (exp4 = 15 \<and> k = 7) then s OR 0x7e
       else s OR ucast (push_bit 3 (word_of_int exp4) OR k)) =
      (s OR word_of_nat (min (e * 8 + n) 0x7e) :: 8 word)"
proof -
  define q t where "q = r div 2 ^ 20" and "t = r mod 2 ^ 20"
  have bnd: "q < 8" "t < 2 ^ 20" using assms(1) by (simp_all add: q_def t_def less_mult_imp_div_less)
  have n: "n = (if t > 2 ^ 19 \<or> t = 2 ^ 19 \<and> odd q then q + 1 else q)"
    by (auto simp: n_def rne_def Let_def q_def t_def)
  have m20: "(0xfffff :: 32 word) = mask 20" by (simp add: mask_eq_exp_minus_1)
  have w: "drop_bit 20 (word_of_nat r :: 32 word) = word_of_nat q"
      "(word_of_nat r :: 32 word) AND 0xfffff = word_of_nat t"
    using assms(1) by (simp_all add: wn_drop q_def t_def m20 wn_mask)
  have c: "(0x80000 < (word_of_nat t :: 32 word)) = (2 ^ 19 < t)"
      "((word_of_nat t :: 32 word) = 0x80000) = (t = 2 ^ 19)"
    using bnd wn_numeral(1,2) [of t "num.Bit0 _", where 'a = 32] by simp_all
  have o: "((word_of_nat q :: 32 word) AND 1 \<noteq> 0) = odd q" by (simp add: wn_odd)
  have k1: "(if 0x80000 < (word_of_nat t :: 32 word) \<or> (word_of_nat t :: 32 word) = 0x80000 \<and> word_of_nat q AND (1 :: 32 word) \<noteq> 0
      then word_of_nat q + 1 else word_of_nat q) = (word_of_nat n :: 32 word)"
    unfolding c o n by simp
  have n8: "n \<le> 8" using n bnd by auto
  have z: "((word_of_nat n :: 32 word) = 8) = (n = 8)" "((word_of_nat n :: 32 word) = 7) = (n = 7)"
    using n8 wn_numeral(1) [of n _, where 'a = 32] by simp_all
  have top: "e = 15 \<Longrightarrow> n \<le> 6"
  proof -
    assume "e = 15"
    then have "r \<le> 6291456" using assms(3) by simp
    moreover have "r = q * 1048576 + t" unfolding q_def t_def using div_mult_mod_eq [of r 1048576] by simp
    ultimately have "q < 6 \<or> q = 6 \<and> t = 0" by linarith
    then show "n \<le> 6" by (auto simp: n)
  qed
  have j: "ucast (push_bit 3 (word_of_int (int a)) OR word_of_nat b :: 32 word) = (word_of_nat (a * 8 + b) :: 8 word)" if "b < 8" for a b
  proof -
    have "push_bit 3 (word_of_int (int a)) OR word_of_nat b = (word_of_nat (a * 8 + b) :: 32 word)"
      using wn_or [of b 3 a, where 'a = 32] that by (simp only: of_int_of_nat_eq wn_push) simp
    then show ?thesis by (simp only:) (rule wn_ucast_down, simp)
  qed
  have j0: "ucast (push_bit 3 (word_of_int (int e + 1)) OR 0 :: 32 word) = (word_of_nat (e * 8 + 8) :: 8 word)"
    using j [of 0 "e + 1"] by (simp add: algebra_simps)
  show ?thesis
  proof (cases "n = 8")
    case True
    then have "e < 15" using top assms(2) by (cases "e = 15") auto
    then have "(15 < int e + 1) = False" "((0 :: 32 word) = 7) = False" "min (e * 8 + n) 0x7e = e * 8 + 8" using True by auto
    then show ?thesis by (simp only: Let_def w k1 z True if_True if_False prod.case simp_thms j0 of_nat_numeral)
  next
    case False
    then have "n < 8" using n8 by simp
    have "(15 < int e) = False" "(int e = 15 \<and> n = 7) = False" "min (e * 8 + n) 0x7e = e * 8 + n"
      using assms(2) top \<open>n < 8\<close> by (cases "e = 15"; simp)+
    then show ?thesis by (simp only: Let_def w k1 z False if_True if_False prod.case simp_thms j [OF \<open>n < 8\<close>])
  qed
qed

lemma f32_is_less: "f32_is x False a \<Longrightarrow> f32_is y False b \<Longrightarrow> x < y \<longleftrightarrow> a < b"
  using f32_is_not_nan [of x False a] f32_is_not_nan [of y False b]
  by (simp add: f32_less_iff f32_sval_def f32_is_def)

lemma f32_is_feq: "f32_is x False a \<Longrightarrow> f32_is y False b \<Longrightarrow> feq x y \<longleftrightarrow> a = b"
  using f32_is_not_nan [of x False a] f32_is_not_nan [of y False b]
  by (auto simp: feq_def f32_le_iff f32_sval_def f32_is_def)

lemma f32_is_sub:
  assumes "f32_is x False a" "f32_is y False b" "b \<le> a" "f32_repr (a - b)"
  shows "f32_is (x - y) False (a - b)"
proof (cases "a = b")
  case True
  then have "x + - y = f32_make False 0"
    using assms f32_is_neg [OF assms(2)] f32_is_not_nan [OF assms(1)] f32_is_not_nan [OF f32_is_neg [OF assms(2)]]
    by (simp add: plus_f32_def f32_add_def Let_def f32_sval_def f32_is_def)
  then show ?thesis using True f32_is_make [of 0 False]
    by (simp add: minus_f32_def plus_f32_def uminus_f32_def f32_inf_def)
next
  case False
  then have "f32_is (x + - y) False (a - b)"
    using assms(3,4) by (intro f32_is_add [OF assms(1) f32_is_neg [OF assms(2)]]) auto
  then show ?thesis by (simp add: minus_f32_def plus_f32_def uminus_f32_def)
qed

text \<open>\<open>x * 512\<close>, its integer part and its fraction are computed exactly.\<close>

lemma e4m3_scaled:
  assumes x: "f32_is x False (q * 2 ^ E)" and q: "q < 2 ^ 24" "E < 120"
  defines "k \<equiv> q * 2 ^ E div 2 ^ 140" and "f \<equiv> q * 2 ^ E mod 2 ^ 140"
  shows "f32_trunc (x * f32_of_int 512) = int k" "k < 8"
    "f32_is (x * f32_of_int 512 - f32_of_int (int k)) False (f * 2 ^ 9)"
proof -
  have t: "f32_is (x * f32_of_int 512) False (q * 2 ^ (E + 9))"
  proof -
    have "f32_is (f32_of_int 512) False (512 * 2 ^ 149)" using f32_is_of_int [of 512] by simp
    moreover have "q * 2 ^ E * (2 ^ 9 * 2 ^ 149) = q * 2 ^ (E + 9) * 2 ^ 149" by (simp only: power_add mult.assoc)
    then have "q * 2 ^ E * (512 * 2 ^ 149) = q * 2 ^ (E + 9) * 2 ^ 149" by simp
    ultimately have "f32_is (x * f32_of_int 512) (False \<noteq> False) (q * 2 ^ (E + 9))"
      using q by (intro f32_is_mul [OF x] f32_repr_le) auto
    then show ?thesis by simp
  qed
  have s: "q * 2 ^ (E + 9) = q * 2 ^ E * 2 ^ 9" "(2::nat) ^ 149 = 2 ^ 140 * 2 ^ 9" by (simp_all add: power_add)
  have d: "q * 2 ^ (E + 9) div 2 ^ 149 = k" unfolding s k_def by (rule div_mult_mult2) simp
  show "f32_trunc (x * f32_of_int 512) = int k"
    using t d by (simp only: f32_trunc_def f32_is_def Let_def if_False)
  have "q * 2 ^ E < 2 ^ 24 * 2 ^ 119"
    using q by (intro mult_less_le_imp_less power_increasing) auto
  then show k8: "k < 8" unfolding k_def by (simp add: less_mult_imp_div_less)
  have k: "f32_is (f32_of_int (int k)) False (k * 2 ^ 149)"
    using f32_is_of_int [of "int k"] k8 by simp
  have split: "q * 2 ^ E = k * 2 ^ 140 + f" by (simp only: k_def f_def div_mult_mod_eq)
  then have a: "q * 2 ^ (E + 9) - k * 2 ^ 149 = f * 2 ^ 9" "k * 2 ^ 149 \<le> q * 2 ^ (E + 9)"
    unfolding s by (simp_all only: distrib_right)
  have "(2::nat) ^ 140 = 2 ^ (140 - E) * 2 ^ E" using q by (simp flip: power_add)
  then have "f = (q mod 2 ^ (140 - E)) * 2 ^ E" unfolding f_def by (simp only: mult_mod_left)
  then have f: "f * 2 ^ 9 = (q mod 2 ^ (140 - E)) * 2 ^ (E + 9)" by (simp add: power_add)
  have "q mod 2 ^ (140 - E) \<le> 2 ^ 24" using q mod_less_eq_dividend [of q "2 ^ (140 - E)"] by linarith
  then have "f32_repr (f * 2 ^ 9)" unfolding f using q by (intro f32_repr_le) auto
  with f32_is_sub [OF t k] a show "f32_is (x * f32_of_int 512 - f32_of_int (int k)) False (f * 2 ^ 9)" by simp
qed

lemma e4m3_word_subnormal:
  assumes x: "f32_is x False (q * 2 ^ E)" and q: "q < 2 ^ 24" "E < 120"
  shows "(let t = x * f32_of_int 512;
           k = word_of_int (f32_trunc t) :: 32 word;
           frac = t - f32_of_int (uint k);
           k = (if frac > F32 0x3f000000 \<or> (feq frac (F32 0x3f000000) \<and> k AND 1 \<noteq> 0) then k + 1 else k) in
       if k \<ge> 8 then s OR push_bit 3 1 else s OR ucast k) = (s OR word_of_nat (rne 140 (q * 2 ^ E)) :: 8 word)"
proof -
  define k f n where "k = q * 2 ^ E div 2 ^ 140" and "f = q * 2 ^ E mod 2 ^ 140" and "n = rne 140 (q * 2 ^ E)"
  note t = e4m3_scaled [OF x q, folded k_def f_def]
  have w: "word_of_int (int k) = (word_of_nat k :: 32 word)" by simp
  have u: "uint (word_of_nat k :: 32 word) = int k" using t(2) by (simp add: uint_nat unat_word_of_nat)
  have h: "f32_is (F32 0x3f000000) False (2 ^ 148)" by (simp add: f32_is_def f32_eval)
  have c: "(F32 0x3f000000 < x * f32_of_int 512 - f32_of_int (int k)) = (2 ^ 140 < 2 * f)"
    "feq (x * f32_of_int 512 - f32_of_int (int k)) (F32 0x3f000000) = (2 * f = 2 ^ 140)"
    by (simp_all add: f32_is_less [OF h t(3)] f32_is_feq [OF t(3) h])
  have n: "n = (if 2 ^ 140 < 2 * f \<or> 2 * f = 2 ^ 140 \<and> odd k then k + 1 else k)"
    by (simp only: n_def rne_def Let_def k_def f_def)
  have o: "((word_of_nat k :: 32 word) AND 1 \<noteq> 0) = odd k" by (simp add: wn_odd)
  have k1: "(if 2 ^ 140 < 2 * f \<or> 2 * f = 2 ^ 140 \<and> odd k then word_of_nat k + 1 else word_of_nat k) = (word_of_nat n :: 32 word)"
    unfolding n by simp
  have n8: "n \<le> 8" using n t(2) by auto
  have z: "(8 \<le> (word_of_nat n :: 32 word)) = (8 \<le> n)" using n8 wn_numeral(3) [of n _, where 'a = 32] by simp
  show ?thesis
    using n8 unfolding n_def [symmetric]
    by (cases "8 \<le> n") (simp_all only: Let_def t(1) w u c o k1 z if_True if_False, simp_all add: wn_ucast_down)
qed

lemma e4m3_saturates:
  assumes "0x43e00000 < k"
  shows "0x7e \<le> round_units 3 140 (nval 23 k)"
proof -
  define r where "r = k mod 2 ^ 23"
  have e: "135 \<le> k div 2 ^ 23" using assms div_le_mono [of "0x43e00000" k "2 ^ 23"] by simp
  have "2 ^ 23 \<le> k" using assms by simp
  then have R: "round_units 3 140 (nval 23 k) = (k div 2 ^ 23 - 120) * 8 + rne 20 r"
    using narrow_normal [of 3 20 k 140] e by (simp add: r_def)
  show ?thesis
  proof (cases "k div 2 ^ 23 = 135")
    case True
    then have "k = 135 * 2 ^ 23 + r" unfolding r_def by (metis div_mult_mod_eq)
    then have "6 * 2 ^ 20 \<le> r" using assms by simp
    then have "6 \<le> r div 2 ^ 20" by (simp add: less_eq_div_iff_mult_less_eq)
    then show ?thesis using rne_bounds [of r 20] R True by simp
  next
    case False
    then show ?thesis using e R by simp
  qed
qed

lemma f32_abs_is: "k < f32_inf \<Longrightarrow> f32_is (F32 (word_of_nat k)) False (nval 23 k)"
  using f32_is_make [of k False] by (simp add: f32_make_def)

lemma f32_abs_key: "k < 2 ^ 31 \<Longrightarrow> f32_key (F32 (word_of_nat k)) = int k \<and> f32_mag (F32 (word_of_nat k)) = k"
proof -
  assume k: "k < 2 ^ 31"
  have "F32 (word_of_nat k) = f32_make False k" by (simp add: f32_make_def)
  then show ?thesis using f32_make_mag [OF k, of False] f32_make_neg [OF k, of False] by (simp add: f32_key_def)
qed

lemma e4m3_encode_nearest: "e4m3_encode x = e4m3_of_f32 x"
proof -
  define k where "k = f32_mag x"
  have k31: "k < 2 ^ 31" using f32_mag_less [of x] by (simp add: k_def)
  then have k: "k < 2 ^ LENGTH(32)" by simp
  have b: "f32_bits x AND 0x7fffffff = word_of_nat k" by (simp add: f32_bits_mag k_def)
  have inf: "(0x7f800000 < (word_of_nat k :: 32 word)) = (f32_inf < k)"
    using k wn_numeral(2) [of k _, where 'a = 32] by (simp add: f32_inf_def)
  have i448: "f32_of_int 448 = F32 0x43e00000" by (simp add: f32_eval)
  have cmp: "(f32_of_int 448 < F32 (word_of_nat k)) = (0x43e00000 < k)" if "\<not> f32_inf < k"
    using that f32_abs_key [OF k31] by (simp add: i448 less_f32_def f32_eval)
  have d: "drop_bit 23 (word_of_nat k :: 32 word) = word_of_nat (k div 2 ^ 23)"
    using k by (rule wn_drop)
  have e31: "k div 2 ^ 23 < 2 ^ LENGTH(32)" using k by (simp add: less_mult_imp_div_less)
  have u: "uint (word_of_nat (k div 2 ^ 23) :: 32 word) = int (k div 2 ^ 23)"
    using e31 by (simp only: uint_nat unat_word_of_nat)
  have z: "((word_of_nat (k div 2 ^ 23) :: 32 word) = 0) = (k div 2 ^ 23 = 0)"
    using wn_eq [OF e31, of 0] by simp
  have m23: "(0x7fffff :: 32 word) = mask 23" by (simp add: mask_eq_exp_minus_1)
  have m: "word_of_nat k AND 0x7fffff = (word_of_nat (k mod 2 ^ 23) :: 32 word)"
    by (simp only: m23 wn_mask)
  have r: "k mod 2 ^ 23 < 2 ^ 23" by simp
  have g: "(-6 \<le> int (k div 2 ^ 23) - 127) = (121 \<le> k div 2 ^ 23)" by linarith
  consider "f32_inf < k" | "\<not> f32_inf < k" "0x43e00000 < k"
    | "k \<le> 0x43e00000" "k div 2 ^ 23 = 0" | "k \<le> 0x43e00000" "121 \<le> k div 2 ^ 23"
    | "k \<le> 0x43e00000" "k div 2 ^ 23 < 121" "0 < k div 2 ^ 23" by linarith
  then show ?thesis
  proof cases
    case 1
    then show ?thesis
      by (simp add: e4m3_encode_def e4m3_of_f32_def Let_def b inf f32_nan_def sign8 flip: k_def)
  next
    case 2
    then show ?thesis using e4m3_saturates [of k]
      by (simp add: e4m3_encode_def e4m3_of_f32_def Let_def b inf cmp f32_nan_def sign8 f32_nval_def min_absorb2 flip: k_def)
  next
    case 3
    then have "round_units 3 140 (nval 23 k) = 0" by (intro narrow_zero) (auto simp: div_eq_0_iff)
    with 3 show ?thesis
      by (simp add: e4m3_encode_def e4m3_of_f32_def Let_def b inf cmp d z f32_nan_def sign8 f32_nval_def f32_inf_def flip: k_def)
  next
    case 4
    define e where "e = k div 2 ^ 23 - 120"
    have e7: "int (k div 2 ^ 23) - 127 + 7 = int e" using 4(2) by (simp add: e_def)
    have "k div 2 ^ 23 \<le> 135" using div_le_mono [OF 4(1), of "2 ^ 23"] by simp
    then have e15: "e \<le> 15" "0 < e" using 4(2) by (simp_all add: e_def)
    have kk: "k = k div 2 ^ 23 * 8388608 + k mod 2 ^ 23" using div_mult_mod_eq [of k 8388608] by simp
    have top: "k mod 2 ^ 23 \<le> 6 * 2 ^ 20" if "e = 15"
    proof -
      have "k div 2 ^ 23 = 135" using that 4 by (simp add: e_def)
      then have "k = 135 * 8388608 + k mod 2 ^ 23" using kk by metis
      with 4(1) show ?thesis by simp
    qed
    have "2 ^ 23 \<le> k" using 4(2) by (cases "k < 2 ^ 23") simp_all
    then have R: "round_units 3 140 (nval 23 k) = e * 8 + rne 20 (k mod 2 ^ 23)"
      using narrow_normal [of 3 20 k 140] 4(2) by (simp add: e_def)
    have nn: "\<not> f32_inf < k" "\<not> 0x43e00000 < k" "k div 2 ^ 23 \<noteq> 0" using 4 by (simp_all add: f32_inf_def)
    note w = e4m3_word_normal [OF r e15(1) top e15(2), of "if f32_neg x then 0x80 else 0"]
    show ?thesis
      unfolding e4m3_of_f32_def f32_nval_def f32_nan_def k_def [symmetric] R
      by (simp only: e4m3_encode_def b inf cmp [OF nn(1)] nn d z u g 4(2) m e7 sign8 w [unfolded Let_def] if_True if_False Let_def)
  next
    case 5
    define E where "E = k div 2 ^ 23 - 1"
    have "2 ^ 23 \<le> k" using 5(3) by (simp add: div_greater_zero_iff)
    then have v: "nval 23 k = (2 ^ 23 + k mod 2 ^ 23) * 2 ^ E" by (simp add: nval_normal E_def)
    have E: "E < 120" "2 ^ 23 + k mod 2 ^ 23 < (2 :: nat) ^ 24" using 5 by (simp_all add: E_def)
    have x: "f32_is (F32 (word_of_nat k)) False ((2 ^ 23 + k mod 2 ^ 23) * 2 ^ E)"
      using f32_abs_is [of k] 5(1) unfolding v by (simp add: f32_inf_def)
    have "nval 23 k < 2 ^ 24 * 2 ^ 119"
      unfolding v using E by (intro mult_less_le_imp_less power_increasing) auto
    then have small: "nval 23 k < 2 ^ 143" by simp
    then have R: "round_units 3 140 (nval 23 k) = rne 140 (nval 23 k)" by (intro round_units_small) simp
    have "nval 23 k div 2 ^ 140 < 8" using small by (simp add: less_mult_imp_div_less)
    then have "rne 140 (nval 23 k) \<le> 0x7e" using rne_bounds [of "nval 23 k" 140] by linarith
    then have M: "min (rne 140 (nval 23 k)) 0x7e = rne 140 (nval 23 k)" by (rule min_absorb1)
    have nn: "\<not> f32_inf < k" "\<not> 0x43e00000 < k" "k div 2 ^ 23 \<noteq> 0" "\<not> 121 \<le> k div 2 ^ 23"
      using 5 by (simp_all add: f32_inf_def)
    note w = e4m3_word_subnormal [OF x E(2,1), of "if f32_neg x then 0x80 else 0", folded v]
    show ?thesis
      unfolding e4m3_of_f32_def f32_nval_def f32_nan_def k_def [symmetric] R M
      by (simp only: e4m3_encode_def b inf cmp [OF nn(1)] nn d z u g sign8 w [unfolded Let_def] if_True if_False Let_def)
  qed
qed

definition e4m3_decode :: "8 word \<Rightarrow> f32" where
  "e4m3_decode b =
    (let sign = (if b AND 0x80 \<noteq> 0 then - 1 else 1);
         exp4 = uint (drop_bit 3 b AND 0xf);
         mant = uint (b AND 7) in
     if exp4 = 15 \<and> mant = 7 then sign * F32 0x7fc00000
     else if exp4 = 0 then sign * (f32_of_int mant / f32_of_int 512)
     else let scale = F32 (push_bit 23 (word_of_int (exp4 - 10 + 127))) in
       sign * f32_of_int (8 + mant) * scale)"

definition fp8_e4m3 :: "8 word \<Rightarrow> f32" where
  "fp8_e4m3 b =
    (let sign = (if b AND 0x80 \<noteq> 0 then - 1 else 1);
         exp4 = uint (drop_bit 3 b AND 0xf);
         mant = uint (b AND 7) in
     if exp4 = 15 \<and> mant = 7 then sign * F32 0x7fc00000
     else if exp4 = 0 then sign * (f32_of_int mant / f32_of_int 512)
     else let scale = F32 (push_bit 23 (word_of_int (exp4 - 10 + 127))) in
       sign * f32_of_int (8 + mant) * scale)"

definition fp8_e5m2 :: "8 word \<Rightarrow> f32" where
  "fp8_e5m2 b =
    (let h = push_bit 8 (ucast b :: 16 word);
         sign = push_bit 16 (ucast (h AND 0x8000) :: 32 word);
         e = ucast (drop_bit 10 h AND 0x1f) :: 32 word;
         m = ucast (h AND 0x3ff) :: 32 word in
     if e = 0 then
       if m = 0 then F32 sign
       else let v = f32_of_int (uint m) * F32 0x33800000
         in if h AND 0x8000 \<noteq> 0 then - v else v
     else if e = 31 then F32 (sign OR 0x7f800000 OR push_bit 13 m)
     else F32 (sign OR push_bit 23 (e + 112) OR push_bit 13 m))"

definition e2m1_mag :: "f32 list" where
  "e2m1_mag = [0, F32 0x3f000000, 1, F32 0x3fc00000, f32_of_int 2, f32_of_int 3, f32_of_int 4, f32_of_int 6]"

definition e2m1 :: "8 word \<Rightarrow> f32" where
  "e2m1 nibble =
    (let m = e2m1_mag ! unat (nibble AND 7) in if nibble AND 8 \<noteq> 0 then - m else m)"

definition e8m0 :: "8 word \<Rightarrow> f32" where
  "e8m0 b =
    (if b = 0 then F32 0x00400000 * F32 0x3f000000
     else if b = 0xff then F32 0x7fc00000
     else F32 (push_bit 23 (ucast b)))"

definition s4 :: "int \<Rightarrow> int" where
  "s4 nibble = (if nibble \<ge> 8 then nibble - 16 else nibble)"

definition e4m3_mag :: "8 word \<Rightarrow> nat" where
  "e4m3_mag b = unat (b AND 0x7f)"

lemma e4m3_mag_lt: "e4m3_mag b < 128"
proof -
  have "(0x7f :: 8 word) = mask 7" by (simp add: mask_eq_exp_minus_1)
  then have "e4m3_mag b = take_bit 7 (unat b)"
    by (simp only: e4m3_mag_def unsigned_take_bit_eq take_bit_eq_mask [symmetric])
  then show ?thesis using take_bit_nat_less_exp [of 7 "unat b"] by simp
qed

lemma e4m3_fields:
  "drop_bit 3 b AND 0xf = (word_of_nat (e4m3_mag b div 8) :: 8 word)"
  "b AND 7 = (word_of_nat (e4m3_mag b mod 8) :: 8 word)"
proof -
  have m: "(0x7f :: 8 word) = mask 7" "(0xf :: 8 word) = mask 4" "(7 :: 8 word) = mask 3"
    by (simp_all add: mask_eq_exp_minus_1)
  have w: "b AND mask 7 = word_of_nat (e4m3_mag b)" by (simp add: e4m3_mag_def m)
  have "drop_bit 3 b AND 0xf = drop_bit 3 (b AND mask 7)"
    unfolding m by (rule bit_word_eqI) (auto simp: bit_simps)
  also have "\<dots> = word_of_nat (e4m3_mag b div 2 ^ 3)"
    using e4m3_mag_lt [of b] unfolding w by (intro wn_drop) simp
  finally show "drop_bit 3 b AND 0xf = word_of_nat (e4m3_mag b div 8)" by simp
  have "b AND 7 = (b AND mask 7) AND mask 3"
    unfolding m by (rule bit_word_eqI) (auto simp: bit_simps)
  also have "\<dots> = word_of_nat (e4m3_mag b mod 2 ^ 3)" unfolding w by (rule wn_mask)
  finally show "b AND 7 = word_of_nat (e4m3_mag b mod 8)" by simp
qed

lemma bit_0x80: "bit (0x80 :: int) n \<longleftrightarrow> n = 7"
proof -
  have "(0x80 :: int) = push_bit 7 1" by (simp add: push_bit_eq_mult)
  then show ?thesis by (simp only: bit_push_bit_iff bit_1_iff) auto
qed

lemma e4m3_sign_nz: "((b :: 8 word) AND 0x80 \<noteq> 0) = bit b 7"
proof -
  have "b AND 0x80 = (if bit b 7 then 0x80 else 0)"
    by (rule bit_word_eqI) (auto simp: bit_and_iff bit_0x80)
  then show ?thesis by simp
qed

lemma e4m3_eta: "(b :: 8 word) = (if bit b 7 then 0x80 else 0) OR word_of_nat (e4m3_mag b)"
proof (rule bit_word_eqI)
  fix n assume n: "n < LENGTH(8)"
  have m: "(0x7f :: 8 word) = mask 7" by (simp add: mask_eq_exp_minus_1)
  from n have "n = 7 \<or> n < 7" by auto
  then show "bit b n = bit ((if bit b 7 then 0x80 else 0) OR word_of_nat (e4m3_mag b) :: 8 word) n"
    by (auto simp: e4m3_mag_def m bit_or_iff bit_and_iff bit_mask_iff bit_0x80)
qed

lemma f32_sign_is: "f32_is (if s then - 1 else 1) s (2 ^ 149)"
  by (simp add: f32_is_def f32_eval)

lemma f32_is_sign_mul: "f32_is x False n \<Longrightarrow> f32_is ((if s then - 1 else 1) * x) s n"
  using f32_is_mul [OF f32_sign_is [of s], of x False n n] f32_is_repr [of x False n] by simp

lemma e4m3_subnormal_value:
  assumes "m < 8"
  shows "f32_is (f32_of_int (int m) / f32_of_int 512) False (m * 2 ^ 140)"
proof -
  have m: "f32_is (f32_of_int (int m)) False (m * 2 ^ 149)" using f32_is_of_int [of "int m"] assms by simp
  have c: "f32_is (f32_of_int 512) False (512 * 2 ^ 149)" using f32_is_of_int [of 512] by simp
  have "f32_is (f32_of_int (int m) / f32_of_int 512) (False \<noteq> False) (m * 2 ^ 140)"
    using assms by (intro f32_is_div [OF m c] f32_repr_le) simp_all
  then show ?thesis by simp
qed

lemma e4m3_normal_value:
  assumes "m < 8" "0 < e" "e \<le> 15"
  shows "f32_is ((if s then - 1 else 1) * f32_of_int (8 + int m) * F32 (push_bit 23 (word_of_int (int e - 10 + 127))))
    s ((8 + m) * 2 ^ (e + 139))"
proof -
  have "int e - 10 + 127 = int (e + 117)" by simp
  then have w: "F32 (push_bit 23 (word_of_int (int e - 10 + 127))) = F32 (word_of_nat ((e + 117) * 2 ^ 23))"
    by (simp only: of_int_of_nat_eq wn_push)
  have k: "(e + 117) * 2 ^ 23 < f32_inf" using assms by (simp add: f32_inf_def)
  have "(e + 117) * 2 ^ 23 = (e + 116) * 2 ^ 23 + 2 ^ 23" by simp
  then have "nval 23 ((e + 117) * 2 ^ 23) = nval 23 ((e + 116) * 2 ^ 23 + 2 ^ 23)" by (simp only:)
  also have "\<dots> = 2 ^ 23 * 2 ^ (e + 116)" by (rule nval_eq) simp_all
  also have "\<dots> = 2 ^ (23 + (e + 116))" by (simp only: power_add)
  also have "23 + (e + 116) = e + 139" by simp
  finally have sc: "f32_is (F32 (word_of_nat ((e + 117) * 2 ^ 23))) False (2 ^ (e + 139))"
    using f32_abs_is [OF k] by simp
  have i: "f32_is (f32_of_int (8 + int m)) False ((8 + m) * 2 ^ 149)"
    using f32_is_of_int [of "8 + int m"] assms(1) by (simp add: nat_add_distrib)
  have "f32_is ((if s then - 1 else 1) * f32_of_int (8 + int m) * F32 (word_of_nat ((e + 117) * 2 ^ 23)))
      (s \<noteq> False) ((8 + m) * 2 ^ (e + 139))"
  proof (intro f32_is_mul [OF f32_is_sign_mul [OF i] sc] f32_repr_le)
    show "(8 + m) * 2 ^ 149 * 2 ^ (e + 139) = (8 + m) * 2 ^ (e + 139) * 2 ^ 149" by (simp only: mult_ac)
  qed (use assms in auto)
  then show ?thesis unfolding w by simp
qed

lemma e4m3_decode_exact:
  assumes "e4m3_mag b < 0x7f"
  shows "f32_is (e4m3_decode b) (bit b 7) (nval 3 (e4m3_mag b) * 2 ^ 140)"
proof -
  define e m where "e = e4m3_mag b div 8" and "m = e4m3_mag b mod 8"
  have k: "e4m3_mag b = e * 8 + m" by (simp add: e_def m_def)
  have bd: "e \<le> 15" "m < 8" using e4m3_mag_lt [of b] by (simp_all add: e_def m_def)
  have nn: "\<not> (e = 15 \<and> m = 7)" using assms unfolding k by auto
  have f: "uint (drop_bit 3 b AND 0xf) = int e" "uint (b AND 7) = int m"
    using bd by (simp_all only: e4m3_fields e_def [symmetric] m_def [symmetric])
      (simp_all add: uint_nat unat_word_of_nat)
  show ?thesis
  proof (cases "e = 0")
    case True
    then have "nval 3 (e4m3_mag b) = m" using bd k by (simp add: nval_def)
    then show ?thesis
      using f32_is_sign_mul [OF e4m3_subnormal_value [OF bd(2)], of "bit b 7"] True
      by (simp add: e4m3_decode_def Let_def f e4m3_sign_nz)
  next
    case False
    then have "e4m3_mag b = (e - 1) * 2 ^ 3 + (8 + m)" using k by (cases e) auto
    then have "nval 3 (e4m3_mag b) = nval 3 ((e - 1) * 2 ^ 3 + (8 + m))" by (simp only:)
    also have "\<dots> = (8 + m) * 2 ^ (e - 1)" using bd by (intro nval_eq) auto
    finally have "nval 3 (e4m3_mag b) * 2 ^ 140 = (8 + m) * 2 ^ (e - 1 + 140)" by (simp only: power_add mult.assoc)
    moreover have "e - 1 + 140 = e + 139" using False by simp
    ultimately have v: "nval 3 (e4m3_mag b) * 2 ^ 140 = (8 + m) * 2 ^ (e + 139)" by (simp only:)
    have "int e = 15 \<and> int m = 7 \<longleftrightarrow> False" "int e = 0 \<longleftrightarrow> False" using nn False by auto
    then show ?thesis
      unfolding v using e4m3_normal_value [OF bd(2), of e "bit b 7"] False bd
      by (simp only: e4m3_decode_def Let_def f e4m3_sign_nz if_False)
  qed
qed

lemma e4m3_recode:
  assumes "e4m3_mag b < 0x7f"
  shows "e4m3_encode (e4m3_decode b) = b"
proof -
  note x = e4m3_decode_exact [OF assms]
  then have "round_units 3 140 (f32_nval (e4m3_decode b)) = e4m3_mag b"
    unfolding f32_is_def by (simp only: round_units_nval)
  then show ?thesis
    using x f32_is_not_nan [OF x] assms e4m3_eta [of b]
    by (simp add: e4m3_encode_nearest e4m3_of_f32_def f32_is_def min_absorb1)
qed

lemma fp8_e4m3_decode: "fp8_e4m3 b = e4m3_decode b"
  by (simp only: fp8_e4m3_def e4m3_decode_def)

lemma nval_relocate: "nval (m + s) (k * 2 ^ s) = nval m k * 2 ^ s"
  by (simp add: nval_def power_add distrib_right flip: mult_mod_left)

lemma fp8_e5m2_relocates: "fp8_e5m2 b = f16_bits_to_f32 (push_bit 8 (ucast b))"
  by (simp only: fp8_e5m2_def f16_bits_to_f32_def Let_def)

text \<open>e8m0: every nonzero scale byte decodes to \<open>2 ^ (b - 127)\<close>; byte 0 decodes to \<open>2 ^ -128\<close>.\<close>

lemma e8m0_value:
  assumes "b \<noteq> 0xff"
  shows "f32_is (e8m0 b) False (if b = 0 then 2 ^ 21 else 2 ^ (unat b + 22))"
proof (cases "b = 0")
  case True
  have "f32_is (F32 0x00400000 * F32 0x3f000000) False (2 ^ 21)" by (simp add: f32_is_def f32_eval)
  then show ?thesis using True by (simp add: e8m0_def)
next
  case False
  define k where "k = unat b"
  have "k < 256" using unsigned_less [of b] by (simp add: k_def)
  moreover have "0 < k" using False by (simp add: k_def unat_gt_0)
  moreover have "k \<noteq> 255" using assms by (auto simp: k_def dest: word_unat_eq_iff [THEN iffD2, of b 255, simplified])
  ultimately have k: "k < 256" "0 < k" "k \<noteq> 255" by simp_all
  have w: "push_bit 23 (ucast b) = (word_of_nat (k * 2 ^ 23) :: 32 word)"
    unfolding k_def wn_push [symmetric] by simp
  have lt: "k * 2 ^ 23 < f32_inf" using k by (simp add: f32_inf_def)
  have "k * 2 ^ 23 = (k - 1) * 2 ^ 23 + 2 ^ 23" using k(2) by (cases k) auto
  then have "nval 23 (k * 2 ^ 23) = nval 23 ((k - 1) * 2 ^ 23 + 2 ^ 23)" by (simp only:)
  also have "\<dots> = 2 ^ 23 * 2 ^ (k - 1)" by (rule nval_eq) simp_all
  also have "\<dots> = 2 ^ (23 + (k - 1))" by (simp only: power_add)
  also have "23 + (k - 1) = k + 22" using k(2) by simp
  finally show ?thesis
    using f32_abs_is [OF lt] False assms by (simp add: e8m0_def w flip: k_def)
qed

section \<open>The codecs as lossless codes, and their properties\<close>

interpretation e4m3c: code e4m3_encode e4m3_decode "\<lambda>b. e4m3_mag b < 0x7f"
  by unfold_locales (rule e4m3_recode)

interpretation f16c: code f32_to_f16_bits f16_bits_to_f32 "\<lambda>h. f16_mag h \<le> 0x7c00"
  by unfold_locales (rule f16_recode)

lemma f16_of_f32_mag: "\<not> f32_nan x \<Longrightarrow> f16_mag (f16_of_f32 x) = min (round_units 10 125 (f32_nval x)) 0x7c00"
  and f16_of_f32_sign: "bit (f16_of_f32 x) 15 = f32_neg x"
proof -
  have fields: "f16_mag ((if s then 0x8000 else 0) OR word_of_nat k) = k"
    "bit ((if s then 0x8000 else 0) OR word_of_nat k :: 16 word) 15 = s" if "k \<le> 0x7fff" for s k
  proof -
    have k: "k < 2 ^ 15" using that by simp
    have m: "(0x7fff :: 16 word) = mask 15" by (simp add: mask_eq_exp_minus_1)
    have "((if s then 0x8000 else 0) OR word_of_nat k) AND mask 15 = (word_of_nat k AND mask 15 :: 16 word)"
      by (rule bit_word_eqI) (auto simp: bit_or_iff bit_and_iff bit_mask_iff bit_0x8000)
    also have "\<dots> = word_of_nat k" using k by (rule wn_lt_mask)
    finally show "f16_mag ((if s then 0x8000 else 0) OR word_of_nat k) = k"
      using k by (simp only: f16_mag_def m) (simp add: unat_word_of_nat)
    show "bit ((if s then 0x8000 else 0) OR word_of_nat k :: 16 word) 15 = s"
      using wn_bit_ge [OF k order_refl] by (auto simp: bit_or_iff bit_0x8000 bit_word_of_nat)
  qed
  show "f16_mag (f16_of_f32 x) = min (round_units 10 125 (f32_nval x)) 0x7c00" if "\<not> f32_nan x"
    using that fields(1) [of "min (round_units 10 125 (f32_nval x)) 0x7c00"] by (simp add: f16_of_f32_def)
  have "(0x7e00 :: 16 word) = word_of_nat 0x7e00" by simp
  then show "bit (f16_of_f32 x) 15 = f32_neg x"
    using fields(2) [of "0x7e00"] fields(2) [of "min (round_units 10 125 (f32_nval x)) 0x7c00"]
    by (simp only: f16_of_f32_def split: if_split) simp
qed

text \<open>C10: the hand-written float to half conversion keeps the sign and, unless it overflows to
  infinity, no half is nearer to the input than the one it returns; it rounds as the
  nearest-even specification \<open>f16_of_f32\<close> does, on every input, subnormal results included.\<close>

theorem f32_to_f16_bits_correct:
  assumes "\<not> f32_nan x"
  shows "bit (f32_to_f16_bits x) 15 = f32_neg x \<and>
    f16_mag (f32_to_f16_bits x) = min (round_units 10 125 (f32_nval x)) 0x7c00 \<and>
    (f16_mag (f32_to_f16_bits x) < 0x7c00 \<longrightarrow> (\<forall>h.
      \<bar>int (nval 10 (f16_mag (f32_to_f16_bits x))) * 2 ^ 125 - int (f32_nval x)\<bar>
        \<le> \<bar>int (nval 10 (f16_mag h)) * 2 ^ 125 - int (f32_nval x)\<bar>))"
  using f16_of_f32_sign [of x] f16_of_f32_mag [OF assms] round_units_nearest [of 10 125 "f32_nval x"]
  by (auto simp: f32_to_f16_bits_nearest min_def split: if_splits)

theorem f32_to_f16_bits_correct_witness:
  "f16_mag (f32_to_f16_bits (F32 0x3f802001)) = 0x3c01"
  using f32_to_f16_bits_correct [of "F32 0x3f802001"] by (simp add: f32_eval Let_def)

text \<open>every half pattern that is not a NaN survives decoding to float and encoding back,
  and the decoded float has exactly the value of the half.\<close>

theorem f16_bits_roundtrip:
  assumes "f16_mag h \<le> 0x7c00"
  shows "f32_to_f16_bits (f16_bits_to_f32 h) = h \<and>
    (f16_mag h < 0x7c00 \<longrightarrow> f32_is (f16_bits_to_f32 h) (bit h 15) (nval 10 (f16_mag h) * 2 ^ 125))"
  using f16c.enc_dec f16_bits_to_f32_exact assms by simp

text \<open>C24: the saturating float to e4m3 encoder, with its float arithmetic on the subnormal path, is
  nearest-even rounding to the e4m3 grid clamped at the largest finite code.\<close>

theorem e4m3_encode_rne: "e4m3_encode x = e4m3_of_f32 x"
  by (rule e4m3_encode_nearest)

text \<open>Both e4m3 decoders return exactly the value of the byte, and encoding the decoded float
  gives back every byte that is not a NaN: the fp8 cache format loses nothing on re-encoding.\<close>

theorem e4m3_codec_roundtrip:
  assumes "e4m3_mag b < 0x7f"
  shows "e4m3_encode (e4m3_decode b) = b \<and> e4m3_encode (fp8_e4m3 b) = b \<and>
    f32_is (fp8_e4m3 b) (bit b 7) (nval 3 (e4m3_mag b) * 2 ^ 140)"
  using e4m3c.enc_dec e4m3_decode_exact assms by (simp add: fp8_e4m3_decode)

text \<open>the e8m0 block scale decodes to \<open>2 ^ (b - 127)\<close> for every byte but 0 and the NaN code;
  byte 0 decodes to \<open>2 ^ -128\<close>, half of the \<open>2 ^ -127\<close> its comment promises.\<close>

theorem e8m0_scale:
  assumes "b \<noteq> 0xff"
  shows "f32_is (e8m0 b) False (if b = 0 then 2 ^ 21 else 2 ^ (unat b + 22))"
  using assms by (rule e8m0_value)

text \<open>the e5m2 decoder returns exactly the value of its byte, through binary16 relocation.\<close>

theorem fp8_e5m2_exact:
  assumes "e4m3_mag b < 0x7c"
  shows "f32_is (fp8_e5m2 b) (bit b 7) (nval 2 (e4m3_mag b) * 2 ^ 133)"
proof -
  define h where "h = push_bit 8 (ucast b :: 16 word)"
  have sg: "bit h 15 = bit b 7" by (simp add: h_def bit_push_bit_iff bit_ucast_iff)
  have "h AND 0x7fff = push_bit 8 (ucast (b AND 0x7f) :: 16 word)"
  proof -
    have m: "(0x7fff :: 16 word) = mask 15" "(0x7f :: 8 word) = mask 7" by (simp_all add: mask_eq_exp_minus_1)
    show ?thesis unfolding h_def m
      by (rule bit_word_eqI) (auto simp: bit_push_bit_iff bit_and_iff bit_mask_iff bit_ucast_iff)
  qed
  also have "\<dots> = word_of_nat (e4m3_mag b * 2 ^ 8)"
    unfolding wn_push [symmetric] e4m3_mag_def by simp
  finally have k: "f16_mag h = e4m3_mag b * 2 ^ 8"
    using e4m3_mag_lt [of b] by (simp only: f16_mag_def) (rule unat_word_of_nat, simp)
  have "nval 10 (e4m3_mag b * 2 ^ 8) = nval 2 (e4m3_mag b) * 2 ^ 8"
    using nval_relocate [of 2 8 "e4m3_mag b"] by simp
  then show ?thesis
    using f16_bits_to_f32_exact [of h] assms unfolding fp8_e5m2_relocates h_def [symmetric] sg k by (simp add: mult.commute)
qed

end
