(* ===== verification/Runtime.thy ===== *)
theory Runtime
  imports Prelude
begin

text \<open>
  The host runtime: element types and device selection (\<open>src/runtime/runtime.cpp\<close>), variant
  resolution (\<open>src/dispatch/variants.cpp\<close>), the contract registry (\<open>src/backend.cpp\<close>) and command
  graphs (\<open>src/runtime/graph.cpp\<close>).

  The SYCL runtime is a parameter: what \<open>get_platforms\<close> reports is the argument of the
  device functions; of a command graph's queue the model keeps the recording state and a log of the
  calls attempted on it.
\<close>

section \<open>Element types\<close>

datatype DType = DF32 | DF16 | DBF16

fun dtype_size :: "DType \<Rightarrow> nat" where
  "dtype_size DF32 = 4"
| "dtype_size DF16 = 2"
| "dtype_size DBF16 = 2"

fun dtype_name :: "DType \<Rightarrow> string" where
  "dtype_name DF32 = ''f32''"
| "dtype_name DF16 = ''f16''"
| "dtype_name DBF16 = ''bf16''"

section \<open>Device selection\<close>

record device_info =
  dev_id :: nat
  is_gpu :: bool
  vendor_id :: nat

record platform_info =
  backend_level_zero :: bool
  get_devices :: "device_info list"

definition intel_gpus :: "platform_info \<Rightarrow> device_info list" where
  "intel_gpus p = [d \<leftarrow> get_devices p. is_gpu d \<and> vendor_id d = 0x8086]"

definition gpu_step :: "platform_info \<Rightarrow> device_info list \<times> bool \<Rightarrow> device_info list \<times> bool" where
  "gpu_step p st = (let (devices, selected_level_zero) = st;
       platform_devices = intel_gpus p;
       level_zero = backend_level_zero p in
     if length platform_devices > length devices \<or>
        (length platform_devices = length devices \<and> level_zero \<and> \<not> selected_level_zero)
     then (platform_devices, level_zero) else st)"

definition gpu_devices :: "platform_info list \<Rightarrow> device_info list" where
  "gpu_devices platforms = fst (fold gpu_step platforms ([], False))"

datatype rt_error = NoGpuDevice | GraphUnsupported | CaptureActive | NeedsReset | CaptureInactive
  | NotFinalized | ResetWhileRecording | QueueRefused | FinalizeFailed

record queue_info =
  q_device :: device_info
  q_in_order :: bool
  q_profiling :: bool

definition make_gpu_queue :: "platform_info list \<Rightarrow> nat \<Rightarrow> bool \<Rightarrow> rt_error + queue_info" where
  "make_gpu_queue platforms index enable_profiling =
    (let devices = gpu_devices platforms in
     if devices = [] then Inl NoGpuDevice
     else let pick = min index (length devices - 1) in
       Inr \<lparr>q_device = devices ! pick, q_in_order = True, q_profiling = enable_profiling\<rparr>)"

text \<open>What the selection loop has found after a prefix of the platforms.\<close>

lemma gpu_step_inv:
  fixes st :: "device_info list \<times> bool"
  assumes "fold gpu_step ps ([], False) = (devices, l0)"
  shows "(\<forall>p\<in>set ps. length (intel_gpus p) \<le> length devices) \<and>
    (l0 \<longleftrightarrow> (\<exists>p\<in>set ps. backend_level_zero p \<and> length (intel_gpus p) = length devices)) \<and>
    (devices = [] \<or> (\<exists>p\<in>set ps. devices = intel_gpus p \<and> backend_level_zero p = l0))"
  using assms
proof (induction ps arbitrary: devices l0 rule: rev_induct)
  case (snoc p ps)
  obtain d b where db: "fold gpu_step ps ([], False) = (d, b)" by (cases "fold gpu_step ps ([], False)")
  note IH = snoc.IH [OF db]
  have "gpu_step p (d, b) = (devices, l0)" using snoc.prems db by simp
  then show ?case
    using IH by (auto simp: gpu_step_def Let_def split: if_splits)
qed simp

section \<open>Variants and the contract registry\<close>

datatype Variant = VSycl | VVendor | VBest

fun variant_name :: "Variant \<Rightarrow> string" where
  "variant_name VSycl = ''sycl''"
| "variant_name VVendor = ''vendor''"
| "variant_name VBest = ''best''"

text \<open>\<open>has_onednn\<close> is the build flag \<open>QUIXICORE_XPU_HAS_ONEDNN\<close>.\<close>

fun variant_available :: "bool \<Rightarrow> Variant \<Rightarrow> bool" where
  "variant_available has_onednn VSycl = True"
| "variant_available has_onednn VVendor = has_onednn"
| "variant_available has_onednn VBest = True"

fun resolve_variant :: "bool \<Rightarrow> Variant \<Rightarrow> Variant" where
  "resolve_variant has_onednn VSycl = VSycl"
| "resolve_variant has_onednn VVendor = (if variant_available has_onednn VVendor then VVendor else VSycl)"
| "resolve_variant has_onednn VBest = VSycl"

definition kContractKernelFamilies :: "string list" where
  "kContractKernelFamilies = [''norms'', ''softmax'', ''activations'', ''causal_attention'',
    ''paged_attention'', ''mla_decode'', ''quant_gemv'', ''quant_gemm'', ''quantized_lm_head'',
    ''sampling'', ''beam_search'', ''speculative_decode'', ''mamba_ssd'', ''moe_routing'',
    ''grouped_moe_gemm'', ''optimizers'']"

definition is_contract_kernel_family :: "string \<Rightarrow> bool" where
  "is_contract_kernel_family family = list_ex (\<lambda>known. family = known) kContractKernelFamilies"

definition status_for_kernel_family :: "string \<Rightarrow> string" where
  "status_for_kernel_family family =
    (if is_contract_kernel_family family then ''planned'' else ''unknown'')"

section \<open>Command graphs\<close>

text \<open>
  \<open>'g\<close> is the modifiable graph object and \<open>'x\<close> the executable one, both owned by the oneAPI
  extension: \<open>fresh\<close> (the constructor) and \<open>finalize\<close> (\<open>None\<close> when it throws) are parameters.
  Of the queue the model keeps its state, \<open>queue_recording\<close> (\<open>queue_state::recording\<close>), which only
  the calls on the queue change and the wrapper never reads, and a log of the calls attempted, each
  with the operation that made it.  How the queue answers a call is a parameter too: \<open>Q r c\<close> is its
  state after the call \<open>c\<close> in state \<open>r\<close>, or \<open>None\<close> when \<open>c\<close> throws, which leaves the state as it
  is and ends the operation.  \<open>graph_queue Q\<close> is what the extension documents of it; nothing is said of
  other misuses.  The queue handed to the constructor is not recording, and the client uses \<open>queue()\<close>
  only to submit commands.
\<close>

datatype graph_op = CaptureBegin | CaptureEnd | Replay | Synchronize | Reset

datatype 'x qcall = QWait | QBeginRecording | QEndRecording | QSubmitGraph 'x

record ('g, 'x) graph_impl =
  g_supported :: bool
  modifiable :: 'g
  executable :: "'x option"
  is_recording :: bool
  queue_recording :: bool
  calls :: "(graph_op \<times> 'x qcall) list"

definition graph_create :: "bool \<Rightarrow> 'g \<Rightarrow> ('g, 'x) graph_impl" where
  "graph_create supported fresh = \<lparr>g_supported = supported, modifiable = fresh, executable = None,
     is_recording = False, queue_recording = False, calls = []\<rparr>"

type_synonym 'x graph_queue_sem = "bool \<Rightarrow> 'x qcall \<Rightarrow> bool option"

definition graph_queue :: "'x graph_queue_sem \<Rightarrow> bool" where
  "graph_queue Q \<longleftrightarrow> Q False QWait = Some False \<and> Q True QWait = None \<and>
     Q False QBeginRecording = Some True \<and> Q True QEndRecording = Some False \<and>
     (\<forall>x. Q False (QSubmitGraph x) = Some False)"

text \<open>A call on the queue; \<open>queue_then\<close> continues an operation after it unless it threw.\<close>

definition queue_call :: "'x graph_queue_sem \<Rightarrow> graph_op \<Rightarrow> 'x qcall \<Rightarrow> ('g, 'x) graph_impl \<Rightarrow>
    (rt_error + unit) \<times> ('g, 'x) graph_impl" where
  "queue_call Q who c s = (let s' = s\<lparr>calls := calls s @ [(who, c)]\<rparr> in
     case Q (queue_recording s) c of None \<Rightarrow> (Inl QueueRefused, s')
     | Some r \<Rightarrow> (Inr (), s'\<lparr>queue_recording := r\<rparr>))"

definition queue_then :: "(rt_error + unit) \<times> ('g, 'x) graph_impl \<Rightarrow>
    (('g, 'x) graph_impl \<Rightarrow> (rt_error + unit) \<times> ('g, 'x) graph_impl) \<Rightarrow>
    (rt_error + unit) \<times> ('g, 'x) graph_impl" where
  "queue_then r k = (case r of (Inl err, s) \<Rightarrow> (Inl err, s) | (Inr u, s) \<Rightarrow> k s)"

definition capture_begin :: "'x graph_queue_sem \<Rightarrow> ('g, 'x) graph_impl \<Rightarrow> (rt_error + unit) \<times> ('g, 'x) graph_impl" where
  "capture_begin Q s =
    (if \<not> g_supported s then (Inl GraphUnsupported, s)
     else if is_recording s then (Inl CaptureActive, s)
     else if executable s \<noteq> None then (Inl NeedsReset, s)
     else queue_then (queue_call Q CaptureBegin QWait s) (\<lambda>s.
       queue_then (queue_call Q CaptureBegin QBeginRecording s) (\<lambda>s.
         (Inr (), s\<lparr>is_recording := True\<rparr>))))"

definition capture_end :: "'x graph_queue_sem \<Rightarrow> ('g \<Rightarrow> 'x option) \<Rightarrow> ('g, 'x) graph_impl \<Rightarrow>
    (rt_error + unit) \<times> ('g, 'x) graph_impl" where
  "capture_end Q finalize s =
    (if \<not> is_recording s then (Inl CaptureInactive, s)
     else queue_then (queue_call Q CaptureEnd QEndRecording s) (\<lambda>s.
       let s' = s\<lparr>is_recording := False\<rparr> in
       case finalize (modifiable s') of None \<Rightarrow> (Inl FinalizeFailed, s')
       | Some x \<Rightarrow> (Inr (), s'\<lparr>executable := Some x\<rparr>)))"

definition replay :: "'x graph_queue_sem \<Rightarrow> ('g, 'x) graph_impl \<Rightarrow> (rt_error + unit) \<times> ('g, 'x) graph_impl" where
  "replay Q s = (case executable s of None \<Rightarrow> (Inl NotFinalized, s)
     | Some x \<Rightarrow> queue_call Q Replay (QSubmitGraph x) s)"

definition synchronize :: "'x graph_queue_sem \<Rightarrow> ('g, 'x) graph_impl \<Rightarrow> (rt_error + unit) \<times> ('g, 'x) graph_impl" where
  "synchronize Q s = queue_call Q Synchronize QWait s"

definition graph_reset :: "'x graph_queue_sem \<Rightarrow> 'g \<Rightarrow> ('g, 'x) graph_impl \<Rightarrow> (rt_error + unit) \<times> ('g, 'x) graph_impl" where
  "graph_reset Q fresh s =
    (if is_recording s then (Inl ResetWhileRecording, s)
     else queue_then (queue_call Q Reset QWait s) (\<lambda>s.
       (Inr (), s\<lparr>executable := None, modifiable := fresh\<rparr>)))"

definition ready :: "('g, 'x) graph_impl \<Rightarrow> bool" where
  "ready s \<longleftrightarrow> executable s \<noteq> None"

text \<open>
  One call by the client, successful or not; while the queue records, the client's submissions
  to it change the modifiable graph (\<open>record_cmd\<close>), otherwise they leave the wrapper alone.
\<close>

inductive graph_step :: "'x graph_queue_sem \<Rightarrow> ('g \<Rightarrow> 'x option) \<Rightarrow> 'g \<Rightarrow> ('g, 'x) graph_impl \<Rightarrow> ('g, 'x) graph_impl \<Rightarrow> bool"
  for Q :: "'x graph_queue_sem" and finalize :: "'g \<Rightarrow> 'x option" and fresh :: 'g where
  begin_capture: "graph_step Q finalize fresh s (snd (capture_begin Q s))"
| end_capture: "graph_step Q finalize fresh s (snd (capture_end Q finalize s))"
| replay: "graph_step Q finalize fresh s (snd (replay Q s))"
| sync: "graph_step Q finalize fresh s (snd (synchronize Q s))"
| reset: "graph_step Q finalize fresh s (snd (graph_reset Q fresh s))"
| record_cmd: "queue_recording s \<Longrightarrow> graph_step Q finalize fresh s (s\<lparr>modifiable := g\<rparr>)"

inductive graph_reach :: "'x graph_queue_sem \<Rightarrow> ('g \<Rightarrow> 'x option) \<Rightarrow> 'g \<Rightarrow> bool \<Rightarrow> ('g, 'x) graph_impl \<Rightarrow> bool"
  for Q :: "'x graph_queue_sem" and finalize :: "'g \<Rightarrow> 'x option" and fresh :: 'g and supported :: bool where
  start: "graph_reach Q finalize fresh supported (graph_create supported fresh)"
| step: "graph_reach Q finalize fresh supported s \<Longrightarrow> graph_step Q finalize fresh s s' \<Longrightarrow>
    graph_reach Q finalize fresh supported s'"

text \<open>The calls of a log made out of turn, for a queue that starts in the given state: a wait, the
  begin of a recording or the submission of a graph while the queue records, and the end of a
  recording while it does not.\<close>

fun out_of_turn :: "bool \<Rightarrow> (graph_op \<times> 'x qcall) list \<Rightarrow> (graph_op \<times> 'x qcall) list" where
  "out_of_turn r [] = []"
| "out_of_turn r ((who, QWait) # cs) = (if r then [(who, QWait)] else []) @ out_of_turn r cs"
| "out_of_turn r ((who, QBeginRecording) # cs) =
    (if r then [(who, QBeginRecording)] else []) @ out_of_turn True cs"
| "out_of_turn r ((who, QEndRecording) # cs) =
    (if r then [] else [(who, QEndRecording)]) @ out_of_turn False cs"
| "out_of_turn r ((who, QSubmitGraph x) # cs) =
    (if r then [(who, QSubmitGraph x)] else []) @ out_of_turn r cs"

fun recording_after :: "'x qcall \<Rightarrow> bool \<Rightarrow> bool" where
  "recording_after QBeginRecording r = True"
| "recording_after QEndRecording r = False"
| "recording_after c r = r"

definition queue_after :: "bool \<Rightarrow> (graph_op \<times> 'x qcall) list \<Rightarrow> bool" where
  "queue_after r cs = fold (\<lambda>(who, c). recording_after c) cs r"

lemma queue_after_simps [simp]:
  "queue_after r [] = r"
  "queue_after r ((who, c) # cs) = queue_after (recording_after c r) cs"
  "queue_after r (cs @ ds) = queue_after (queue_after r cs) ds"
  by (simp_all add: queue_after_def)

lemma out_of_turn_append:
  "out_of_turn r (cs @ ds) = out_of_turn r cs @ out_of_turn (queue_after r cs) ds"
  by (induction r cs rule: out_of_turn.induct) auto

definition graph_inv :: "('g \<Rightarrow> 'x option) \<Rightarrow> bool \<Rightarrow> ('g, 'x) graph_impl \<Rightarrow> bool" where
  "graph_inv finalize supported s \<longleftrightarrow> g_supported s = supported \<and>
     (is_recording s \<longrightarrow> executable s = None) \<and>
     (\<forall>x. executable s = Some x \<longrightarrow> finalize (modifiable s) = Some x) \<and>
     queue_recording s = is_recording s \<and> queue_after False (calls s) = is_recording s \<and>
     set (out_of_turn False (calls s)) \<subseteq> {(Synchronize, QWait)}"

lemmas graph_op_defs = capture_begin_def capture_end_def replay_def synchronize_def graph_reset_def
  queue_call_def queue_then_def Let_def

lemma graph_step_inv:
  "graph_step Q finalize fresh s s' \<Longrightarrow> graph_queue Q \<Longrightarrow> graph_inv finalize supported s \<Longrightarrow> graph_inv finalize supported s'"
  by (induction rule: graph_step.induct)
     (auto simp: graph_inv_def graph_op_defs graph_queue_def out_of_turn_append split: if_splits option.splits)

lemma graph_reach_inv: "graph_reach Q finalize fresh supported s \<Longrightarrow> graph_queue Q \<Longrightarrow> graph_inv finalize supported s"
proof (induction rule: graph_reach.induct)
  case start
  show ?case by (simp add: graph_inv_def graph_create_def)
qed (rule graph_step_inv)

section \<open>Properties\<close>

text \<open>Device selection returns the Intel GPUs of one reported platform, of maximal count, and
  the ones of a Level Zero platform whenever some Level Zero platform attains that count.\<close>

theorem gpu_devices_selects:
  "(\<forall>p\<in>set ps. length (intel_gpus p) \<le> length (gpu_devices ps)) \<and>
   (gpu_devices ps \<noteq> [] \<longrightarrow> (\<exists>p\<in>set ps. gpu_devices ps = intel_gpus p \<and>
      ((\<exists>p'\<in>set ps. backend_level_zero p' \<and> length (intel_gpus p') = length (gpu_devices ps))
        \<longrightarrow> backend_level_zero p)))"
proof -
  obtain d b where db: "fold gpu_step ps ([], False) = (d, b)" by (cases "fold gpu_step ps ([], False)")
  then show ?thesis using gpu_step_inv [OF db] by (auto simp: gpu_devices_def)
qed

definition ocl_platform :: platform_info where
  "ocl_platform = \<lparr>backend_level_zero = False,
     get_devices = [\<lparr>dev_id = 1, is_gpu = True, vendor_id = 0x8086\<rparr>, \<lparr>dev_id = 2, is_gpu = False, vendor_id = 0x8086\<rparr>]\<rparr>"

definition ze_platform :: platform_info where
  "ze_platform = \<lparr>backend_level_zero = True, get_devices = [\<lparr>dev_id = 3, is_gpu = True, vendor_id = 0x8086\<rparr>]\<rparr>"

text \<open>A queue is made exactly when some Intel GPU is visible, on a device of the selected
  platform, the index clamped to the last one, always in order.\<close>

theorem make_gpu_queue_clamps:
  "make_gpu_queue ps index prof =
    (if gpu_devices ps = [] then Inl NoGpuDevice
     else Inr \<lparr>q_device = (if index < length (gpu_devices ps) then gpu_devices ps ! index else last (gpu_devices ps)),
       q_in_order = True, q_profiling = prof\<rparr>)"
proof (cases "gpu_devices ps = []")
  case False
  then have "min index (length (gpu_devices ps) - 1) =
      (if index < length (gpu_devices ps) then index else length (gpu_devices ps) - 1)"
    by (cases "gpu_devices ps") auto
  with False show ?thesis by (simp add: make_gpu_queue_def Let_def last_conv_nth)
qed (simp add: make_gpu_queue_def)

text \<open>C9: in every state a client can bring a command graph to, by calls that succeed or throw
  and whatever \<open>finalize\<close> does, on a queue as the extension documents it: a capture excludes a finalized graph, the finalized graph is the one
  last recorded, and \<open>is_recording\<close> tells the state of the queue. Every call the wrapper ever made on
  its queue was made in turn (nothing but the end of the capture inside a capture), but for the wait of
  \<open>synchronize\<close>, which has no guard: it throws exactly during a capture. Outside a capture
  \<open>reset\<close> succeeds and restores the constructor's state.\<close>

theorem command_graph_safe:
  fixes s :: "('g, 'x) graph_impl"
  assumes "graph_reach Q finalize fresh supported s" "graph_queue Q"
  shows "\<not> (is_recording s \<and> ready s) \<and>
    (\<forall>x. executable s = Some x \<longrightarrow> finalize (modifiable s) = Some x) \<and>
    queue_recording s = is_recording s \<and>
    set (out_of_turn False (calls s)) \<subseteq> {(Synchronize, QWait)} \<and>
    fst (synchronize Q s) = (if is_recording s then Inl QueueRefused else Inr ()) \<and>
    (\<not> is_recording s \<longrightarrow> fst (graph_reset Q fresh s) = Inr () \<and>
       (snd (graph_reset Q fresh s))\<lparr>calls := []\<rparr> = graph_create supported fresh)"
  using graph_reach_inv [OF assms] assms(2)
  by (auto simp: graph_inv_def graph_queue_def ready_def graph_create_def synchronize_def graph_reset_def
      queue_call_def queue_then_def Let_def)

text \<open>A queue that refuses to wait while it records and otherwise does what it is asked.\<close>

definition sample_queue :: "nat graph_queue_sem" where
  "sample_queue r c = (if r \<and> c = QWait then None else Some (recording_after c r))"

theorem command_graph_safe_witness:
  "\<exists>s. s = snd (synchronize sample_queue (snd (capture_begin sample_queue (graph_create True []) :: _ \<times> (nat list, nat) graph_impl))) \<and>
     is_recording s \<and> \<not> ready s \<and> fst (synchronize sample_queue s) = Inl QueueRefused \<and>
     out_of_turn False (calls s) = [(Synchronize, QWait)]"
proof -
  define s :: "(nat list, nat) graph_impl" where
    "s = snd (synchronize sample_queue (snd (capture_begin sample_queue (graph_create True []))))"
  have r: "graph_reach sample_queue (\<lambda>g. Some (length g)) [] True s"
    unfolding s_def by (intro graph_reach.step [OF _ sync] graph_reach.step [OF _ begin_capture] start)
  have q: "graph_queue sample_queue" by (simp add: graph_queue_def sample_queue_def)
  note safe = command_graph_safe [OF r q]
  have "is_recording s" "out_of_turn False (calls s) = [(Synchronize, QWait)]"
    by (simp_all add: s_def graph_op_defs graph_create_def sample_queue_def)
  with safe s_def show ?thesis by auto
qed

text \<open>a full capture succeeds from a fresh or reset graph on a supporting device, and replay then
  submits exactly the graph finalized from what was recorded, leaving it ready for more replays;
  a second capture is refused until \<open>reset\<close>.\<close>

theorem capture_replay:
  assumes "graph_queue Q" "g_supported s" "\<not> is_recording s" "\<not> queue_recording s" "executable s = None"
    "finalize g = Some x"
  shows "\<exists>s1 s2 s3. capture_begin Q s = (Inr (), s1) \<and>
    capture_end Q finalize (s1\<lparr>modifiable := g\<rparr>) = (Inr (), s2) \<and>
    replay Q s2 = (Inr (), s3) \<and> last (calls s3) = (Replay, QSubmitGraph x) \<and> ready s3 \<and>
    fst (capture_begin Q s3) = Inl NeedsReset \<and>
    (\<exists>s4. graph_reset Q fresh s3 = (Inr (), s4) \<and> \<not> ready s4 \<and> fst (capture_begin Q s4) = Inr ())"
  using assms by (simp add: graph_op_defs graph_queue_def ready_def)

text \<open>A resolved variant is concrete and compiled into the build, whatever was requested.\<close>

theorem resolve_variant_concrete:
  "resolve_variant has v \<noteq> VBest \<and> variant_available has (resolve_variant has v) \<and>
   (v \<noteq> VBest \<and> variant_available has v \<longrightarrow> resolve_variant has v = v)"
  by (cases v) auto

theorem resolve_variant_concrete_witness: "resolve_variant True VVendor = VVendor"
  using resolve_variant_concrete [of True VVendor] by simp

end
