(* ===== verification/Elem.thy ===== *)
theory Elem
  imports Codecs Runtime
begin

text \<open>
  Element types of the activation buffers.  Every entry point of the kernels takes untyped
  pointers and a \<open>DType\<close>, and instantiates one template at \<open>float\<close>, \<open>half_t\<close> or \<open>bf16_t\<close>
  (\<open>runtime.hpp\<close>).  A cell of such a buffer is modelled by its bits (in a 32-bit word, the low
  half for the 16-bit types); \<open>elem_ld\<close> and \<open>elem_st\<close> are the conversions to and from \<open>float\<close> that
  \<open>static_cast\<close> performs: exact when widening, nearest with ties to even when narrowing.
\<close>

definition bf16_of_f32 :: "f32 \<Rightarrow> 16 word" where
  "bf16_of_f32 x = (if f32_nan x then 0x7fc0
     else (if f32_neg x then 0x8000 else 0) OR word_of_nat (rne 16 (f32_mag x)))"

fun elem_ld :: "DType \<Rightarrow> 32 word \<Rightarrow> f32" where
  "elem_ld DF32 w = F32 w"
| "elem_ld DF16 w = f16_bits_to_f32 (ucast w)"
| "elem_ld DBF16 w = F32 (push_bit 16 w)"

fun elem_st :: "DType \<Rightarrow> f32 \<Rightarrow> 32 word" where
  "elem_st DF32 x = f32_bits x"
| "elem_st DF16 x = ucast (f16_of_f32 x)"
| "elem_st DBF16 x = ucast (bf16_of_f32 x)"

lemma elem_st_ld_f32 [simp]: "elem_ld DF32 (elem_st DF32 x) = x"
  by simp

lemma uint_drop: "uint (drop_bit n (b :: 'a::len word)) = uint b div 2 ^ n"
  by (simp add: unsigned_drop_bit_eq drop_bit_eq_div [where 'a = int] take_bit_int_eq_self)

end
