(* ===== verification/Lanes.thy ===== *)
theory Lanes
  imports Elem
begin

text \<open>
  Work-groups that share a row.  The row kernels (argmax, softmax, the norms) give a row of \<open>n\<close>
  elements to \<open>T\<close> work-items: item \<open>l\<close> first visits whole vectors of \<open>V\<close> elements, vector \<open>l\<close>, then
  \<open>l + T\<close>, and so on, then the scalar tail in the same strided way.  \<open>lane_indices\<close> is that sequence in
  program order.  \<open>lane_loop\<close> is a scan with one accumulator per item, \<open>row_store\<close> the store
  pass, run over an arbitrary order of the items of the group.  What the group functions of SYCL compute
  from the items' partial results (\<open>reduce_over_group\<close>, \<open>exclusive_scan_over_group\<close>) and the math functions of the device library are
  fields of a record of parameters.
\<close>

record 'f gmath =
  sum_group :: "'f list \<Rightarrow> 'f"
  max_group :: "'f list \<Rightarrow> 'f"
  rsqrt_fn :: "'f \<Rightarrow> 'f"
  exp_fn :: "'f \<Rightarrow> 'f"
  scan_group :: "'f list \<Rightarrow> 'f list"
  fma_fn :: "'f \<Rightarrow> 'f \<Rightarrow> 'f \<Rightarrow> 'f"
  of_num :: "int \<Rightarrow> 'f"

text \<open>The parameters in exact arithmetic.\<close>

definition exact_math :: "real gmath" where
  "exact_math = \<lparr>sum_group = sum_list, max_group = (\<lambda>xs. Max (set xs)), rsqrt_fn = (\<lambda>x. 1 / sqrt x), exp_fn = exp,
     scan_group = (\<lambda>xs. map (\<lambda>l. sum_list (take l xs)) [0..<length xs]), fma_fn = (\<lambda>a b c. a * b + c), of_num = real_of_int\<rparr>"

lemma exact_math_simps [simp]:
  "sum_group exact_math = sum_list" "max_group exact_math = (\<lambda>xs. Max (set xs))" "rsqrt_fn exact_math x = 1 / sqrt x"
  "exp_fn exact_math = exp" "scan_group exact_math = (\<lambda>xs. map (\<lambda>l. sum_list (take l xs)) [0..<length xs])" "fma_fn exact_math a b c = a * b + c" "of_num exact_math i = real_of_int i"
  by (simp_all add: exact_math_def)

definition kRowThreads :: nat where "kRowThreads = 256"

definition vec_width :: "DType \<Rightarrow> nat" where
  "vec_width dt = (if dtype_size dt = 2 then 8 else 4)"

lemma vec_width_pos [simp]: "0 < vec_width dt"
  by (simp add: vec_width_def)

lemma kRowThreads_pos [simp]: "0 < kRowThreads"
  by (simp add: kRowThreads_def)

definition lane_indices :: "nat \<Rightarrow> nat \<Rightarrow> nat \<Rightarrow> nat \<Rightarrow> nat list" where
  "lane_indices V T n l = concat (map (\<lambda>vi. map (\<lambda>k. vi * V + k) [0..<V]) (strided l T (n div V)))
     @ strided (n div V * V + l) T n"

definition lane_loop :: "nat \<Rightarrow> nat \<Rightarrow> nat \<Rightarrow> (nat \<Rightarrow> 's \<Rightarrow> 's option) \<Rightarrow> 's \<Rightarrow> nat \<Rightarrow> 's option" where
  "lane_loop V T n body s l = foldM body (lane_indices V T n l) s"

definition row_store :: "nat \<Rightarrow> nat \<Rightarrow> nat \<Rightarrow> nat \<Rightarrow> (nat \<Rightarrow> 'w option) \<Rightarrow> nat list \<Rightarrow> 'w list \<Rightarrow> 'w list option" where
  "row_store V T n off v lanes out =
     foldM (\<lambda>l. foldM (\<lambda>i out. do { x \<leftarrow> v i; wr out (off + i) x }) (lane_indices V T n l)) lanes out"

section \<open>Every element belongs to exactly one item\<close>

lemma strided_add: "0 < T \<Longrightarrow> strided (a + l) T (a + m) = map ((+) a) (strided l T m)"
proof (induction l T m rule: strided.induct)
  case (1 l T m)
  show ?case
  proof (cases "l < m")
    case True
    then show ?thesis using 1 by (simp add: strided_Cons add.assoc)
  qed simp
qed

lemma mset_map_strided:
  "0 < T \<Longrightarrow> (\<Sum>l\<leftarrow>[0..<T]. mset (map f (strided l T m))) = mset (map f [0..<m])"
proof -
  assume T: "0 < T"
  have "(\<Sum>l\<leftarrow>ls. mset (map f (strided l T m))) = image_mset f (\<Sum>l\<leftarrow>ls. mset (strided l T m))" for ls
    by (induction ls) auto
  then show ?thesis using mset_strided_lanes [OF T, of m] by simp
qed

lemma mset_concat_strided:
  "0 < T \<Longrightarrow> (\<Sum>l\<leftarrow>[0..<T]. mset (concat (map f (strided l T m)))) = mset (concat (map f [0..<m]))"
proof -
  assume T: "0 < T"
  have c: "mset (concat (map f xs)) = sum_mset (image_mset (\<lambda>x. mset (f x)) (mset xs))" for xs
    by (induction xs) auto
  have "(\<Sum>l\<leftarrow>ls. sum_mset (image_mset (\<lambda>x. mset (f x)) (mset (strided l T m)))) =
      sum_mset (image_mset (\<lambda>x. mset (f x)) (\<Sum>l\<leftarrow>ls. mset (strided l T m)))" for ls
    by (induction ls) auto
  then show ?thesis unfolding c using mset_strided_lanes [OF T, of m] by simp
qed

lemma map_plus_upt: "map ((+) a) [0..<m] = [a..<a + m]"
  by (simp add: list_eq_iff_nth_eq)

lemma concat_rows: "concat (map (\<lambda>i. map (\<lambda>k. i * V + k) [0..<V]) [0..<m]) = [0..<m * V]"
proof (induction m)
  case (Suc m)
  have "map (\<lambda>k. m * V + k) [0..<V] = [m * V..<Suc m * V]"
    unfolding map_plus_upt by (simp add: add.commute)
  moreover have "[0..<m * V] @ [m * V..<Suc m * V] = [0..<Suc m * V]"
    by (metis add.commute le_add1 mult_Suc upt_add_eq_append zero_le)
  ultimately show ?case using Suc by simp
qed simp

lemma mset_lane_indices:
  assumes "0 < T" "0 < V"
  shows "(\<Sum>l\<leftarrow>[0..<T]. mset (lane_indices V T n l)) = mset [0..<n]"
proof -
  let ?t = "n div V * V"
  have t: "?t \<le> n" by simp
  have n: "?t + (n - ?t) = n" using t by simp
  have tail: "strided (?t + l) T n = map ((+) ?t) (strided l T (n - ?t))" for l
    using strided_add [OF assms(1), of ?t l "n - ?t"] unfolding n .
  have "(\<Sum>l\<leftarrow>ls. mset (lane_indices V T n l)) =
      (\<Sum>l\<leftarrow>ls. mset (concat (map (\<lambda>vi. map (\<lambda>k. vi * V + k) [0..<V]) (strided l T (n div V))))) +
      (\<Sum>l\<leftarrow>ls. mset (map ((+) ?t) (strided l T (n - ?t))))" for ls
    unfolding lane_indices_def mset_append tail by (induction ls) (simp_all add: ac_simps)
  then have "(\<Sum>l\<leftarrow>[0..<T]. mset (lane_indices V T n l)) = mset [0..<?t] + mset (map ((+) ?t) [0..<n - ?t])"
    by (simp only: mset_concat_strided [OF assms(1)] mset_map_strided [OF assms(1)] concat_rows)
  also have "map ((+) ?t) [0..<n - ?t] = [?t..<n]" using n by (simp only: map_plus_upt)
  also have "mset [0..<?t] + mset [?t..<n] = mset [0..<n]"
    using t by (metis mset_append upt_add_eq_append zero_le le_add_diff_inverse)
  finally show ?thesis .
qed

lemma sum_list_mset_concat: "mset (concat xss) = (\<Sum>xs\<leftarrow>xss. mset xs)"
  by (induction xss) auto

lemma lanes_mset:
  assumes "0 < T" "0 < V" "schedule T lanes"
  shows "mset (concat (map (lane_indices V T n) lanes)) = mset [0..<n]"
proof -
  have "mset (concat (map (lane_indices V T n) lanes)) = sum_mset (image_mset (\<lambda>l. mset (lane_indices V T n l)) (mset lanes))"
    unfolding sum_list_mset_concat by (simp add: comp_def sum_mset_sum_list [symmetric])
  also have "mset lanes = mset [0..<T]" by (rule schedule_mset [OF assms(3)])
  also have "sum_mset (image_mset (\<lambda>l. mset (lane_indices V T n l)) (mset [0..<T])) = (\<Sum>l\<leftarrow>[0..<T]. mset (lane_indices V T n l))"
    by (metis mset_map sum_mset_sum_list)
  finally show ?thesis using mset_lane_indices [OF assms(1,2)] by simp
qed

lemma lanes_sum_eq:
  fixes f :: "nat \<Rightarrow> 'a::comm_monoid_add"
  assumes "0 < T" "0 < V"
  shows "(\<Sum>l\<leftarrow>[0..<T]. \<Sum>i\<leftarrow>lane_indices V T n l. f i) = (\<Sum>i<n. f i)"
proof -
  have "(\<Sum>l\<leftarrow>ls. \<Sum>i\<leftarrow>lane_indices V T n l. f i) = sum_mset (image_mset f (\<Sum>l\<leftarrow>ls. mset (lane_indices V T n l)))" for ls
    by (induction ls) (auto simp: sum_mset_sum_list [symmetric])
  then show ?thesis by (simp add: mset_lane_indices [OF assms] sum_unfold_sum_mset atLeast0LessThan)
qed

lemma lane_index_less: "0 < T \<Longrightarrow> 0 < V \<Longrightarrow> l < T \<Longrightarrow> i \<in> set (lane_indices V T n l) \<Longrightarrow> i < n"
proof -
  assume a: "0 < T" "0 < V" "l < T" and i: "i \<in> set (lane_indices V T n l)"
  have "set (lane_indices V T n l) \<subseteq> set (concat (map (lane_indices V T n) [0..<T]))" using a(3) by auto
  also have "\<dots> = {..<n}" using lanes_mset [OF a(1,2) schedule_upt, of n] by (metis atLeast_upt set_mset_mset)
  finally show "i < n" using i by auto
qed

lemma lanes_cover: "0 < T \<Longrightarrow> 0 < V \<Longrightarrow> i < n \<Longrightarrow> \<exists>l<T. i \<in> set (lane_indices V T n l)"
proof -
  assume a: "0 < T" "0 < V" "i < n"
  have "set (concat (map (lane_indices V T n) [0..<T])) = {..<n}"
    using lanes_mset [OF a(1,2) schedule_upt, of n] by (metis atLeast_upt set_mset_mset)
  then have "i \<in> set (concat (map (lane_indices V T n) [0..<T]))" using a(3) by blast
  then show ?thesis by auto
qed

section \<open>Scans and stores\<close>

lemma lane_loop_pure:
  assumes "0 < T" "0 < V" "l < T" "\<And>i s. i < n \<Longrightarrow> body i s = Some (g i s)"
  shows "lane_loop V T n body s l = Some (fold g (lane_indices V T n l) s)"
  unfolding lane_loop_def using assms lane_index_less [OF assms(1-3)] by (intro foldM_pure') auto

lemma lanes_pure:
  assumes "0 < T" "0 < V" "\<And>i s. i < n \<Longrightarrow> body i s = Some (g i s)"
  shows "those (map (lane_loop V T n body s) [0..<T]) = Some (map (\<lambda>l. fold g (lane_indices V T n l) s) [0..<T])"
  using assms by (intro those_map_Some lane_loop_pure) auto

lemma foldM_concat: "foldM f (concat xss) s = foldM (\<lambda>xs. foldM f xs) xss s"
  by (induction xss arbitrary: s) (auto simp: foldM_append split: bind_splits)

lemma foldM_store:
  assumes "mset is = mset [0..<n]" "off + n \<le> length out" "\<And>i. i < n \<Longrightarrow> v i = Some (u i)"
  shows "\<exists>out'. foldM (\<lambda>i out. do { x \<leftarrow> v i; wr out (off + i) x }) is out = Some out' \<and>
    writes {off..<off + n} (\<lambda>a. u (a - off)) out out'"
proof -
  have s: "set is = {..<n}" "distinct is"
    using assms(1) by (metis atLeast_upt set_mset_mset, metis distinct_upt mset_eq_imp_distinct_iff)
  have "\<exists>out'. foldM (\<lambda>i out. do { x \<leftarrow> v i; wr out (off + i) x }) is out = Some out' \<and>
    writes ((+) off ` ({} \<union> set is)) (\<lambda>a. u (a - off)) out out'"
  proof (rule foldM_distinct [OF s(2), where P = "\<lambda>D m. writes ((+) off ` D) (\<lambda>a. u (a - off)) out m"])
    fix D i m assume i: "i \<in> set is" "i \<notin> D" and m: "writes ((+) off ` D) (\<lambda>a. u (a - off)) out m"
    have "off + i < length m" using i s(1) assms(2) m by (auto simp: writes_def)
    then have "writes (insert (off + i) ((+) off ` D)) (\<lambda>a. u (a - off)) out (m[off + i := u i])"
      using m by (auto simp: writes_def nth_list_update)
    then show "\<exists>s'. do { x \<leftarrow> v i; wr m (off + i) x } = Some s' \<and> writes ((+) off ` insert i D) (\<lambda>a. u (a - off)) out s'"
      using assms(3) [of i] i s(1) \<open>off + i < length m\<close> by simp
  qed auto
  moreover have "(+) off ` ({} \<union> set is) = {off..<off + n}"
    using s(1) by (simp add: lessThan_atLeast0 add.commute)
  ultimately show ?thesis by simp
qed

lemma row_store_writes:
  assumes "schedule T lanes" "0 < T" "0 < V" "off + n \<le> length out" "\<And>i. i < n \<Longrightarrow> v i = Some (u i)"
  shows "\<exists>out'. row_store V T n off v lanes out = Some out' \<and> writes {off..<off + n} (\<lambda>a. u (a - off)) out out'"
proof -
  have "row_store V T n off v lanes out =
      foldM (\<lambda>i out. do { x \<leftarrow> v i; wr out (off + i) x }) (concat (map (lane_indices V T n) lanes)) out"
    by (simp add: row_store_def foldM_concat foldM_map)
  then show ?thesis using foldM_store [OF lanes_mset [OF assms(2,3,1)] assms(4,5)] by simp
qed

text \<open>A launch of one group per row.\<close>

abbreviation row_cells :: "nat \<Rightarrow> nat \<Rightarrow> nat set" where
  "row_cells n r \<equiv> {r * n..<r * n + n}"

lemma row_div_mod: "a \<in> row_cells n r \<Longrightarrow> a div n = r" "a \<in> row_cells n r \<Longrightarrow> a mod n = a - r * n"
proof -
  show d: "a div n = r" if "a \<in> row_cells n r"
  proof -
    have "a = r * n + (a - r * n)" "a - r * n < n" using that by auto
    then show ?thesis by (metis add.right_neutral div_less div_mult_self3 mult.commute not_less_zero)
  qed
  show "a mod n = a - r * n" if "a \<in> row_cells n r" using d [OF that] by (metis minus_div_mult_eq_mod)
qed

lemma row_cells_UN: "(\<Union>r<rows. row_cells n r) = {..<rows * n}"
proof
  show "(\<Union>r<rows. row_cells n r) \<subseteq> {..<rows * n}"
    using src_row [of _ rows n] by fastforce
  show "{..<rows * n} \<subseteq> (\<Union>r<rows. row_cells n r)"
  proof
    fix a assume a: "a \<in> {..<rows * n}"
    then have "0 < n" by (cases n) auto
    then have "a div n < rows" "a mod n < n" using a by (simp_all add: less_mult_imp_div_less)
    moreover have "a = a div n * n + a mod n" by simp
    ultimately show "a \<in> (\<Union>r<rows. row_cells n r)" by (metis UN_iff add_less_cancel_left atLeastLessThan_iff le_add1 lessThan_iff)
  qed
qed

lemma writes_row: "writes (row_cells n r) (\<lambda>a. u (a - r * n)) m m' \<Longrightarrow> (\<And>i. u i = w r i) \<Longrightarrow> writes (row_cells n r) (\<lambda>a. w (a div n) (a mod n)) m m'"
  unfolding writes_def using row_div_mod by metis

lemma rows_launch:
  assumes sched: "schedule rows sched" and len: "length out = rows * n"
    and item: "\<And>r m. r < rows \<Longrightarrow> length m = rows * n \<Longrightarrow>
      \<exists>m'. f r m = Some m' \<and> writes (row_cells n r) (\<lambda>a. u r (a - r * n)) m m'"
  shows "foldM f sched out = Some (map (\<lambda>a. u (a div n) (a mod n)) [0..<rows * n])"
proof -
  have "\<exists>b'. foldM f sched out = Some b' \<and> writes (\<Union>r<rows. row_cells n r) (\<lambda>a. u (a div n) (a mod n)) out b'"
  proof (rule launch_writes [OF sched])
    fix r and m :: "'a list" assume "r < rows" "length m = length out"
    then obtain m' where m': "f r m = Some m'" "writes (row_cells n r) (\<lambda>a. u r (a - r * n)) m m'" using item len by metis
    then show "\<exists>m'. f r m = Some m' \<and> writes (row_cells n r) (\<lambda>a. u (a div n) (a mod n)) m m'" using writes_row by blast
  qed
  then show ?thesis unfolding row_cells_UN using len writes_map_upt by metis
qed

text \<open>The same where an item rewrites its row of one buffer and fills its row of another.\<close>

lemma rows_launch2:
  assumes sched: "schedule rows sched" and len: "length a0 = rows * n" "length b0 = rows * n"
    and item: "\<And>r a b. r < rows \<Longrightarrow> length a = rows * n \<Longrightarrow> length b = rows * n \<Longrightarrow> (\<And>i. i < n \<Longrightarrow> a ! (r * n + i) = a0 ! (r * n + i)) \<Longrightarrow>
      \<exists>a' b'. f r (a, b) = Some (a', b') \<and> writes (row_cells n r) (\<lambda>c. u r (c - r * n)) a a' \<and> writes (row_cells n r) (\<lambda>c. v r (c - r * n)) b b'"
  shows "foldM f sched (a0, b0) = Some (map (\<lambda>c. u (c div n) (c mod n)) [0..<rows * n], map (\<lambda>c. v (c div n) (c mod n)) [0..<rows * n])"
proof -
  let ?P = "\<lambda>D s. writes (\<Union>r\<in>D. row_cells n r) (\<lambda>c. u (c div n) (c mod n)) a0 (fst s) \<and>
    writes (\<Union>r\<in>D. row_cells n r) (\<lambda>c. v (c div n) (c mod n)) b0 (snd s)"
  have "\<exists>s'. foldM f sched (a0, b0) = Some s' \<and> ?P {..<rows} s'"
  proof (rule foldM_schedule [OF sched, where P = ?P])
    fix D r s assume r: "r < rows" "r \<notin> D" and P: "?P D s"
    obtain a b where s: "s = (a, b)" by (cases s)
    have lab: "length a = rows * n" "length b = rows * n" using P len s by (auto dest: writes_length)
    have "a ! (r * n + i) = a0 ! (r * n + i)" if i: "i < n" for i
    proof -
      have c: "r * n + i \<in> row_cells n r" using i by simp
      have "r * n + i \<notin> (\<Union>r\<in>D. row_cells n r)"
      proof
        assume "r * n + i \<in> (\<Union>r\<in>D. row_cells n r)"
        then obtain q where "q \<in> D" "r * n + i \<in> row_cells n q" by (rule UN_E)
        then show False using row_div_mod(1) [OF c] row_div_mod(1) [of "r * n + i" q n] r(2) by simp
      qed
      moreover have "r * n + i < length a0" using src_row [OF r(1), of n] i len by linarith
      moreover have "writes (\<Union>r\<in>D. row_cells n r) (\<lambda>c. u (c div n) (c mod n)) a0 a" using P s by simp
      ultimately show ?thesis unfolding writes_def by metis
    qed
    from item [OF r(1) lab this] obtain a' b' where ab: "f r (a, b) = Some (a', b')"
        "writes (row_cells n r) (\<lambda>c. u r (c - r * n)) a a'" "writes (row_cells n r) (\<lambda>c. v r (c - r * n)) b b'" by blast
    have wa: "writes (\<Union>r\<in>D. row_cells n r) (\<lambda>c. u (c div n) (c mod n)) a0 a" and wb: "writes (\<Union>r\<in>D. row_cells n r) (\<lambda>c. v (c div n) (c mod n)) b0 b"
      using P s by simp_all
    have ua: "writes (\<Union>r\<in>insert r D. row_cells n r) (\<lambda>c. u (c div n) (c mod n)) a0 a'"
      using writes_trans [OF wa writes_row [where w = u, OF ab(2)]] by (simp add: Un_commute)
    have ub: "writes (\<Union>r\<in>insert r D. row_cells n r) (\<lambda>c. v (c div n) (c mod n)) b0 b'"
      using writes_trans [OF wb writes_row [where w = v, OF ab(3)]] by (simp add: Un_commute)
    show "\<exists>s'. f r s = Some s' \<and> ?P (insert r D) s'"
      by (rule exI [of _ "(a', b')"]) (simp only: s ab(1) fst_conv snd_conv ua ub simp_thms)
  qed simp
  then obtain a' b' where ab: "foldM f sched (a0, b0) = Some (a', b')" "?P {..<rows} (a', b')" by fast
  have "writes {..<rows * n} (\<lambda>c. u (c div n) (c mod n)) a0 a'" "writes {..<rows * n} (\<lambda>c. v (c div n) (c mod n)) b0 b'"
    using ab(2) unfolding row_cells_UN by simp_all
  from writes_map_upt [OF this(1) len(1)] writes_map_upt [OF this(2) len(2)] ab(1) show ?thesis by simp
qed

text \<open>A lane of width 1 is a plain strided loop.\<close>

lemma lane_indices_1: "lane_indices 1 T n l = strided l T n"
proof -
  have "concat (map (\<lambda>vi. [vi]) xs) = xs" for xs :: "nat list" by (induction xs) auto
  moreover have "n + l \<ge> n" by simp
  ultimately show ?thesis by (simp add: lane_indices_def)
qed

lemma lane_indices_distinct:
  assumes "schedule T lanes" "0 < T" "0 < V"
  shows "distinct (concat (map (lane_indices V T n) lanes))" "set (concat (map (lane_indices V T n) lanes)) = {..<n}"
proof -
  have m: "mset (concat (map (lane_indices V T n) lanes)) = mset [0..<n]" by (rule lanes_mset [OF assms(2,3,1)])
  show "distinct (concat (map (lane_indices V T n) lanes))" using mset_eq_imp_distinct_iff [OF m] by simp
  show "set (concat (map (lane_indices V T n) lanes)) = {..<n}" using m by (metis atLeast_upt set_mset_mset)
qed

end
