(* ===== verification/Nvfp4.thy ===== *)
theory Nvfp4
  imports Lanes
begin

text \<open>
  The dot products of the NVFP4 mixture-of-experts kernels (\<open>nvfp4_moe.sycl.cpp\<close>).  A weight row holds
  e2m1 nibbles, two a byte, with one e4m3 scale byte for 16 of them.  The decoders place the bits of the small formats in
  the fields of a half, which leaves every value too small by a power of two that a single factor of the
  global scale makes up for.  A sub-group of 32 work-items shares a row in chunks of 32 elements; \<open>hv\<close> is the conversion
  of a half to the arithmetic.
\<close>

section \<open>Decoders and dot products\<close>

definition kSG_moe :: nat where "kSG_moe = 32"

definition decode_e2m1_pair :: "(16 word \<Rightarrow> 'f) \<Rightarrow> 32 word \<Rightarrow> 'f \<times> 'f" where
  "decode_e2m1_pair hv word =
     (let nibbles = word AND 0x000f000f;
          halves = push_bit 12 (nibbles AND 0x00080008) OR push_bit 9 (nibbles AND 0x00070007)
      in (hv (ucast halves), hv (ucast (drop_bit 16 halves))))"

definition decode_e4m3_raw :: "(16 word \<Rightarrow> 'f) \<Rightarrow> 8 word \<Rightarrow> 'f" where
  "decode_e4m3_raw hv value =
     (let v = ucast value :: 32 word in hv (ucast (push_bit 8 (v AND 0x80) OR push_bit 7 (v AND 0x7f))))"

text \<open>Four bytes read as a little-endian word.\<close>

definition rd32 :: "8 word list \<Rightarrow> nat \<Rightarrow> 32 word option" where
  "rd32 w i = do {
     b0 \<leftarrow> rd w i; b1 \<leftarrow> rd w (i + 1); b2 \<leftarrow> rd w (i + 2); b3 \<leftarrow> rd w (i + 3);
     Some (ucast b0 OR push_bit 8 (ucast b1) OR push_bit 16 (ucast b2) OR push_bit 24 (ucast b3)) }"

definition row_word :: "(16 word \<Rightarrow> 'f::{plus,times,zero}) \<Rightarrow> 8 word list \<Rightarrow> nat \<Rightarrow> (nat \<Rightarrow> 'f option) \<Rightarrow> nat \<Rightarrow> nat \<Rightarrow> 'f option" where
  "row_word hv weight w0 input chunk wi = do {
     word \<leftarrow> rd32 weight (w0 + chunk * 16 + wi * 4);
     (low, high) \<leftarrow> foldM (\<lambda>pair (low, high). do {
       let decoded = decode_e2m1_pair hv (drop_bit (4 * pair) word);
       x_low \<leftarrow> input (chunk * 32 + wi * 8 + pair);
       x_high \<leftarrow> input (chunk * 32 + wi * 8 + (pair + 4));
       Some (low + fst decoded * x_low, high + snd decoded * x_high) }) [0..<4] (0, 0);
     Some (low + high) }"

definition row_lane :: "(16 word \<Rightarrow> 'f::{plus,times,zero}) \<Rightarrow> 8 word list \<Rightarrow> nat \<Rightarrow> 8 word list \<Rightarrow> nat \<Rightarrow> 'f \<Rightarrow> (nat \<Rightarrow> 'f option) \<Rightarrow> nat \<Rightarrow> nat \<Rightarrow> 'f option" where
  "row_lane hv weight w0 scales s0 global input K lane = foldM (\<lambda>chunk partial. do {
     b0 \<leftarrow> rd scales (s0 + 2 * chunk);
     b1 \<leftarrow> rd scales (s0 + (2 * chunk + 1));
     let scale0 = decode_e4m3_raw hv b0 * global;
     let scale1 = decode_e4m3_raw hv b1 * global;
     words \<leftarrow> those (map (row_word hv weight w0 input chunk) [0..<4]);
     Some (partial + ((words ! 0 + words ! 1) * scale0 + (words ! 2 + words ! 3) * scale1)) }) (strided lane kSG_moe (K div 32)) 0"

definition nvfp4_row_dot :: "('f::{plus,times,zero}, 'z) gmath_scheme \<Rightarrow> (16 word \<Rightarrow> 'f) \<Rightarrow> 8 word list \<Rightarrow> nat \<Rightarrow> 8 word list \<Rightarrow> nat \<Rightarrow> 'f \<Rightarrow> (nat \<Rightarrow> 'f option) \<Rightarrow> nat \<Rightarrow> 'f option" where
  "nvfp4_row_dot M hv weight w0 scales s0 global input K = do {
     partials \<leftarrow> those (map (row_lane hv weight w0 scales s0 global input K) [0..<kSG_moe]);
     Some (sum_group M partials) }"

text \<open>Gate and up row in one pass.\<close>

definition pair_word :: "(16 word \<Rightarrow> 'f::{plus,times,zero}) \<Rightarrow> 8 word list \<Rightarrow> nat \<Rightarrow> nat \<Rightarrow> (nat \<Rightarrow> 'f option) \<Rightarrow> nat \<Rightarrow> nat \<Rightarrow> ('f \<times> 'f) option" where
  "pair_word hv weight g0 u0 input chunk wi = do {
     gate_word \<leftarrow> rd32 weight (g0 + chunk * 16 + wi * 4);
     up_word \<leftarrow> rd32 weight (u0 + chunk * 16 + wi * 4);
     (gate_low, gate_high, up_low, up_high) \<leftarrow> foldM (\<lambda>pair (gate_low, gate_high, up_low, up_high). do {
       let gate = decode_e2m1_pair hv (drop_bit (4 * pair) gate_word);
       let up = decode_e2m1_pair hv (drop_bit (4 * pair) up_word);
       x_low \<leftarrow> input (chunk * 32 + wi * 8 + pair);
       x_high \<leftarrow> input (chunk * 32 + wi * 8 + (pair + 4));
       Some (gate_low + fst gate * x_low, gate_high + snd gate * x_high, up_low + fst up * x_low, up_high + snd up * x_high) }) [0..<4] (0, 0, 0, 0);
     Some (gate_low + gate_high, up_low + up_high) }"

definition pair_lane :: "(16 word \<Rightarrow> 'f::{plus,times,zero}) \<Rightarrow> 8 word list \<Rightarrow> nat \<Rightarrow> nat \<Rightarrow> 8 word list \<Rightarrow> nat \<Rightarrow> nat \<Rightarrow> 'f \<Rightarrow> (nat \<Rightarrow> 'f option) \<Rightarrow> nat \<Rightarrow> nat \<Rightarrow> ('f \<times> 'f) option" where
  "pair_lane hv weight g0 u0 scales gs0 us0 global input K lane = foldM (\<lambda>chunk (gate_partial, up_partial). do {
     gb0 \<leftarrow> rd scales (gs0 + 2 * chunk);
     gb1 \<leftarrow> rd scales (gs0 + (2 * chunk + 1));
     ub0 \<leftarrow> rd scales (us0 + 2 * chunk);
     ub1 \<leftarrow> rd scales (us0 + (2 * chunk + 1));
     let gate_scale0 = decode_e4m3_raw hv gb0 * global;
     let gate_scale1 = decode_e4m3_raw hv gb1 * global;
     let up_scale0 = decode_e4m3_raw hv ub0 * global;
     let up_scale1 = decode_e4m3_raw hv ub1 * global;
     words \<leftarrow> those (map (pair_word hv weight g0 u0 input chunk) [0..<4]);
     Some (gate_partial + ((fst (words ! 0) + fst (words ! 1)) * gate_scale0 + (fst (words ! 2) + fst (words ! 3)) * gate_scale1),
       up_partial + ((snd (words ! 0) + snd (words ! 1)) * up_scale0 + (snd (words ! 2) + snd (words ! 3)) * up_scale1)) })
     (strided lane kSG_moe (K div 32)) (0, 0)"

definition nvfp4_row_dot_pair :: "('f::{plus,times,zero}, 'z) gmath_scheme \<Rightarrow> (16 word \<Rightarrow> 'f) \<Rightarrow> 8 word list \<Rightarrow> nat \<Rightarrow> nat \<Rightarrow> 8 word list \<Rightarrow> nat \<Rightarrow> nat \<Rightarrow> 'f \<Rightarrow> (nat \<Rightarrow> 'f option) \<Rightarrow> nat \<Rightarrow> ('f \<times> 'f) option" where
  "nvfp4_row_dot_pair M hv weight g0 u0 scales gs0 us0 global input K = do {
     partials \<leftarrow> those (map (pair_lane hv weight g0 u0 scales gs0 us0 global input K) [0..<kSG_moe]);
     Some (sum_group M (map fst partials), sum_group M (map snd partials)) }"

section \<open>The pass over both rows is two passes\<close>

lemma foldM_split:
  assumes "\<And>x a b a' b'. x \<in> set xs \<Longrightarrow> f x a = Some a' \<Longrightarrow> g x b = Some b' \<Longrightarrow> h x (a, b) = Some (a', b')"
    and "foldM f xs a = Some a'" "foldM g xs b = Some b'"
  shows "foldM h xs (a, b) = Some (a', b')"
  using assms
proof (induction xs arbitrary: a b)
  case (Cons x xs)
  from Cons.prems(2,3) obtain a1 b1 where 1: "f x a = Some a1" "foldM f xs a1 = Some a'" "g x b = Some b1" "foldM g xs b1 = Some b'"
    by (auto split: bind_splits)
  have "h x (a, b) = Some (a1, b1)" using Cons.prems(1) 1 by simp
  moreover have "foldM h xs (a1, b1) = Some (a', b')" by (rule Cons.IH [OF _ 1(2,4)]) (use Cons.prems(1) in auto)
  ultimately show ?case by simp
qed simp

lemma those_split:
  assumes "\<And>x a b. x \<in> set xs \<Longrightarrow> f x = Some a \<Longrightarrow> g x = Some b \<Longrightarrow> h x = Some (a, b)"
    and "those (map f xs) = Some as" "those (map g xs) = Some bs"
  shows "those (map h xs) = Some (zip as bs) \<and> length as = length xs \<and> length bs = length xs"
  using assms
proof (induction xs arbitrary: as bs)
  case (Cons x xs)
  from Cons.prems(2,3) obtain a as' b bs' where 1: "f x = Some a" "those (map f xs) = Some as'" "as = a # as'" "g x = Some b" "those (map g xs) = Some bs'" "bs = b # bs'"
    by (auto split: option.splits)
  have "h x = Some (a, b)" using Cons.prems(1) 1 by simp
  moreover have "those (map h xs) = Some (zip as' bs') \<and> length as' = length xs \<and> length bs' = length xs"
    by (rule Cons.IH [OF _ 1(2,5)]) (use Cons.prems(1) in auto)
  ultimately show ?case using 1 by simp
qed simp

lemma upt_4: "[0..<4] = [0, 1, 2, 3 :: nat]"
  by (simp add: upt_rec)

lemma pair_word_split:
  assumes "row_word hv weight g0 input chunk wi = Some a" "row_word hv weight u0 input chunk wi = Some b"
  shows "pair_word hv weight g0 u0 input chunk wi = Some (a, b)"
  using assms unfolding row_word_def pair_word_def upt_4 by (auto simp: Let_def split: bind_splits)

lemma pair_lane_split:
  assumes "row_lane hv weight g0 scales gs0 global input K lane = Some a" "row_lane hv weight u0 scales us0 global input K lane = Some b"
  shows "pair_lane hv weight g0 u0 scales gs0 us0 global input K lane = Some (a, b)"
  unfolding pair_lane_def
proof (rule foldM_split [OF _ assms [unfolded row_lane_def]], goal_cases)
  case (1 chunk pa pb pa' pb')
  from 1(2) obtain g0' g1' gw where g: "rd scales (gs0 + 2 * chunk) = Some g0'" "rd scales (gs0 + (2 * chunk + 1)) = Some g1'"
      "those (map (row_word hv weight g0 input chunk) [0..<4]) = Some gw"
      "pa' = pa + ((gw ! 0 + gw ! 1) * (decode_e4m3_raw hv g0' * global) + (gw ! 2 + gw ! 3) * (decode_e4m3_raw hv g1' * global))"
    by (auto simp: Let_def split: bind_splits)
  from 1(3) obtain u0' u1' uw where u: "rd scales (us0 + 2 * chunk) = Some u0'" "rd scales (us0 + (2 * chunk + 1)) = Some u1'"
      "those (map (row_word hv weight u0 input chunk) [0..<4]) = Some uw"
      "pb' = pb + ((uw ! 0 + uw ! 1) * (decode_e4m3_raw hv u0' * global) + (uw ! 2 + uw ! 3) * (decode_e4m3_raw hv u1' * global))"
    by (auto simp: Let_def split: bind_splits)
  have w: "those (map (pair_word hv weight g0 u0 input chunk) [0..<4]) = Some (zip gw uw) \<and> length gw = length [0..<4 :: nat] \<and> length uw = length [0..<4 :: nat]"
    by (rule those_split [OF pair_word_split g(3) u(3)])
  then have z: "fst (zip gw uw ! i) = gw ! i" "snd (zip gw uw ! i) = uw ! i" if "i < 4" for i using that by simp_all
  show ?case using g(1,2) u(1,2) z w by (simp add: Let_def g(4) u(4))
qed

lemma row_dot_pair_split:
  assumes "nvfp4_row_dot M hv weight g0 scales gs0 global input K = Some a" "nvfp4_row_dot M hv weight u0 scales us0 global input K = Some b"
  shows "nvfp4_row_dot_pair M hv weight g0 u0 scales gs0 us0 global input K = Some (a, b)"
proof -
  obtain as where as: "those (map (row_lane hv weight g0 scales gs0 global input K) [0..<kSG_moe]) = Some as" "a = sum_group M as"
    using assms(1) by (auto simp: nvfp4_row_dot_def split: bind_splits)
  obtain bs where bs: "those (map (row_lane hv weight u0 scales us0 global input K) [0..<kSG_moe]) = Some bs" "b = sum_group M bs"
    using assms(2) by (auto simp: nvfp4_row_dot_def split: bind_splits)
  have "those (map (pair_lane hv weight g0 u0 scales gs0 us0 global input K) [0..<kSG_moe]) = Some (zip as bs) \<and>
      length as = length [0..<kSG_moe] \<and> length bs = length [0..<kSG_moe]"
    by (rule those_split [OF pair_lane_split as(1) bs(1)])
  then show ?thesis by (simp add: nvfp4_row_dot_pair_def as(2) bs(2))
qed

section \<open>What the bits mean\<close>

text \<open>Element \<open>j\<close> of a row of nibbles, and the values of the formats.\<close>

definition nib :: "8 word list \<Rightarrow> nat \<Rightarrow> 8 word" where
  "nib w j = (if even j then w ! (j div 2) AND 0xf else drop_bit 4 (w ! (j div 2)))"

definition e2m1_half :: "8 word \<Rightarrow> 16 word" where
  "e2m1_half n = push_bit 12 (ucast n AND 8) OR push_bit 9 (ucast n AND 7)"

definition half_val :: "16 word \<Rightarrow> real" where
  "half_val h = (if bit h 15 then -1 else 1) * (real (nval 10 (f16_mag h)) / 2 ^ 24)"

definition e2m1_val :: "8 word \<Rightarrow> real" where
  "e2m1_val n = (if bit n 3 then -1 else 1) * (real (nval 1 (unat (n AND 7))) / 2)"

definition e4m3_val :: "8 word \<Rightarrow> real" where
  "e4m3_val b = (if bit b 7 then -1 else 1) * (real (nval 3 (unat (b AND 0x7f))) / 2 ^ 9)"

lemma bits_16: "(\<And>n. n < 16 \<Longrightarrow> bit a n = bit b n) \<Longrightarrow> a = b" for a b :: "16 word"
  by (rule bit_word_eqI) simp

lemma less_16: "n < 16 \<Longrightarrow> (n = 0 \<or> n = 1 \<or> n = 2 \<or> n = 3) \<or> (n = 4 \<or> n = 5 \<or> n = 6 \<or> n = 7) \<or> (n = 8 \<or> n = 9 \<or> n = 10 \<or> n = 11) \<or> (n = 12 \<or> n = 13 \<or> n = 14 \<or> n = (15 :: nat))"
  by presburger

lemma e2m1_halves:
  fixes word :: "32 word"
  shows "decode_e2m1_pair hv word = (hv (e2m1_half (ucast word)), hv (e2m1_half (ucast (drop_bit 16 word))))"
proof -
  have "(ucast (push_bit 12 ((word AND 0x000f000f) AND 0x00080008) OR push_bit 9 ((word AND 0x000f000f) AND 0x00070007)) :: 16 word) = e2m1_half (ucast word)"
    by (rule bits_16) (drule less_16, elim disjE; simp add: e2m1_half_def bit_simps)
  moreover have "(ucast (drop_bit 16 (push_bit 12 ((word AND 0x000f000f) AND 0x00080008) OR push_bit 9 ((word AND 0x000f000f) AND 0x00070007))) :: 16 word) =
      e2m1_half (ucast (drop_bit 16 word))"
    by (rule bits_16) (drule less_16, elim disjE; simp add: e2m1_half_def bit_simps)
  ultimately show ?thesis by (simp add: decode_e2m1_pair_def Let_def)
qed

lemma e2m1_half_cong: "(\<And>k. k < 4 \<Longrightarrow> bit a k = bit b k) \<Longrightarrow> e2m1_half a = e2m1_half b"
proof (rule bits_16)
  fix n :: nat assume h: "\<And>k. k < 4 \<Longrightarrow> bit a k = bit b k" and n: "n < 16"
  have "bit a 0 = bit b 0" "bit a 1 = bit b 1" "bit a 2 = bit b 2" "bit a 3 = bit b 3" using h by simp_all
  then show "bit (e2m1_half a) n = bit (e2m1_half b) n"
    using less_16 [OF n] by (elim disjE; simp add: e2m1_half_def bit_simps)
qed

lemma rd32_nib:
  assumes "rd32 w i = Some word" "p < 4"
  shows "decode_e2m1_pair hv (drop_bit (4 * p) word) = (hv (e2m1_half (nib w (2 * i + p))), hv (e2m1_half (nib w (2 * i + (p + 4)))))"
proof -
  have word: "word = ucast (w ! i) OR push_bit 8 (ucast (w ! (i + 1))) OR push_bit 16 (ucast (w ! (i + 2))) OR push_bit 24 (ucast (w ! (i + 3)))"
    using assms(1) by (auto simp: rd32_def rd_def split: bind_splits if_splits)
  have p: "p = 0 \<or> p = 1 \<or> p = 2 \<or> p = 3" using assms(2) by auto
  have top: "\<not> bit (b :: 8 word) n" if "8 \<le> n" for b n using that bit_imp_le_length [of b n] by auto
  have "e2m1_half (ucast (drop_bit (4 * p) word)) = e2m1_half (nib w (2 * i + p))"
  proof (rule e2m1_half_cong)
    fix k :: nat assume "k < 4"
    then have "k = 0 \<or> k = 1 \<or> k = 2 \<or> k = 3" by auto
    then show "bit (ucast (drop_bit (4 * p) word) :: 8 word) k = bit (nib w (2 * i + p)) k"
      using p by (elim disjE; simp add: word nib_def bit_simps top)
  qed
  moreover have "e2m1_half (ucast (drop_bit 16 (drop_bit (4 * p) word))) = e2m1_half (nib w (2 * i + (p + 4)))"
  proof (rule e2m1_half_cong)
    fix k :: nat assume "k < 4"
    then have "k = 0 \<or> k = 1 \<or> k = 2 \<or> k = 3" by auto
    then show "bit (ucast (drop_bit 16 (drop_bit (4 * p) word)) :: 8 word) k = bit (nib w (2 * i + (p + 4))) k"
      using p by (elim disjE; simp add: word nib_def bit_simps top)
  qed
  ultimately show ?thesis by (simp add: e2m1_halves)
qed

text \<open>The decoders return every value a power of two too small.\<close>

lemma nib_less: "unat (nib w j) < 16"
proof -
  have a: "x AND 0xf = take_bit 4 x" for x :: "8 word" by (simp add: take_bit_eq_mask mask_eq_exp_minus_1)
  have "unat (w ! (j div 2)) < 2 ^ 8" using unsigned_less [of "w ! (j div 2)"] by simp
  then have b: "unat (drop_bit 4 (w ! (j div 2))) < 16" unfolding unsigned_drop_bit_eq by (simp add: drop_bit_eq_div take_bit_nat_eq_self)
  have "unat (take_bit 4 (w ! (j div 2))) < 2 ^ 4" unfolding unsigned_take_bit_eq by (rule take_bit_nat_less_exp)
  then show ?thesis unfolding nib_def a using b by (cases "even j") simp_all
qed

lemma word_16_cases:
  fixes n :: "8 word"
  assumes "unat n < 16"
  shows "(n = 0 \<or> n = 1 \<or> n = 2 \<or> n = 3) \<or> (n = 4 \<or> n = 5 \<or> n = 6 \<or> n = 7) \<or> (n = 8 \<or> n = 9 \<or> n = 10 \<or> n = 11) \<or> (n = 12 \<or> n = 13 \<or> n = 14 \<or> n = 15)"
proof -
  have "n = word_of_nat (unat n)" by simp
  then show ?thesis using less_16 [OF assms] by (elim disjE; simp)
qed

lemma e2m1_decode:
  assumes "unat n < 16"
  shows "half_val (e2m1_half n) = e2m1_val n / 2 ^ 14"
  using word_16_cases [OF assms]
  by (elim disjE; simp add: e2m1_half_def half_val_def e2m1_val_def f16_mag_def nval_def)

lemma e4m3_decode_raw: "decode_e4m3_raw half_val b = e4m3_val b / 2 ^ 8"
proof -
  let ?h = "ucast (push_bit 8 ((ucast b :: 32 word) AND 0x80) OR push_bit 7 (ucast b AND 0x7f)) :: 16 word"
  have sign: "bit ?h 15 = bit b 7" by (simp add: bit_simps)
  have h: "?h AND 0x7fff = push_bit 7 (ucast (b AND 0x7f))"
    by (rule bits_16) (drule less_16, elim disjE; simp add: bit_simps)
  have t: "b AND 0x7f = take_bit 7 b" by (simp add: take_bit_eq_mask mask_eq_exp_minus_1)
  have l: "unat (b AND 0x7f) < 2 ^ 7" unfolding t unsigned_take_bit_eq by (rule take_bit_nat_less_exp)
  then have "f16_mag ?h = unat (b AND 0x7f) * 2 ^ 7"
    unfolding f16_mag_def h unsigned_push_bit_eq unsigned_ucast_eq by (simp add: push_bit_eq_mult take_bit_eq_mod)
  then have "nval 10 (f16_mag ?h) = nval 3 (unat (b AND 0x7f)) * 2 ^ 7"
    using nval_relocate [of 3 7 "unat (b AND 0x7f)"] by simp
  then show ?thesis unfolding decode_e4m3_raw_def Let_def half_val_def e4m3_val_def sign by simp
qed

section \<open>The dot product in exact arithmetic\<close>

definition w_el :: "8 word list \<Rightarrow> nat \<Rightarrow> 8 word list \<Rightarrow> nat \<Rightarrow> nat \<Rightarrow> real" where
  "w_el weight w0 scales s0 j = e2m1_val (nib weight (2 * w0 + j)) * e4m3_val (scales ! (s0 + j div 16))"

lemma rd32_Some: "i + 4 \<le> length w \<Longrightarrow> \<exists>word. rd32 w i = Some word"
  by (simp add: rd32_def)

lemma row_word_exact:
  assumes "w0 + chunk * 16 + wi * 4 + 4 \<le> length weight" "\<And>k. k < 8 \<Longrightarrow> input (chunk * 32 + wi * 8 + k) = Some (x (chunk * 32 + wi * 8 + k))"
  shows "row_word half_val weight w0 input chunk wi =
    Some ((\<Sum>k<8. e2m1_val (nib weight (2 * w0 + (chunk * 32 + wi * 8 + k))) * x (chunk * 32 + wi * 8 + k)) / 2 ^ 14)"
proof -
  let ?i = "w0 + chunk * 16 + wi * 4"
  have i: "2 * ?i + k = 2 * w0 + (chunk * 32 + wi * 8 + k)" for k by simp
  obtain word where word: "rd32 weight ?i = Some word" using rd32_Some assms(1) by blast
  have d: "decode_e2m1_pair half_val (drop_bit (4 * p) word) =
      (e2m1_val (nib weight (2 * w0 + (chunk * 32 + wi * 8 + p))) / 2 ^ 14, e2m1_val (nib weight (2 * w0 + (chunk * 32 + wi * 8 + (p + 4)))) / 2 ^ 14)" if "p < 4" for p
    unfolding rd32_nib [OF word that] i by (simp add: e2m1_decode nib_less)
  have l8: "{..<8 :: nat} = {0, 1, 2, 3, 4, 5, 6, 7}" by auto
  note dd = d [of 0, simplified] d [of 1, simplified] d [of 2, simplified] d [of 3, simplified]
  have inp: "input (chunk * 32 + wi * 8) = Some (x (chunk * 32 + wi * 8))" using assms(2) [of 0] by simp
  show ?thesis unfolding row_word_def word upt_4
    using dd assms(2) assms(2) [of 1, simplified] assms(2) [of 2, simplified] inp by (simp add: Let_def l8 field_simps)
qed

lemma scale_cancel:
  fixes e0 e1 gs :: real
  assumes "e0 * t0 = b0" "e0 * t1 = b1" "e1 * t2 = b2" "e1 * t3 = b3"
  shows "gs * (b0 + b1 + b2 + b3) = (t0 / 2 ^ 14 + t1 / 2 ^ 14) * (e0 / 2 ^ 8 * (gs * 2 ^ 22)) + (t2 / 2 ^ 14 + t3 / 2 ^ 14) * (e1 / 2 ^ 8 * (gs * 2 ^ 22))"
  unfolding assms [symmetric] by (simp add: field_simps)

lemma row_lane_exact:
  assumes "w0 + K div 32 * 16 \<le> length weight" "s0 + K div 32 * 2 \<le> length scales" "\<And>j. j < K \<Longrightarrow> input j = Some (x j)" "global = gs * 2 ^ 22"
  shows "row_lane half_val weight w0 scales s0 global input K lane =
    Some (\<Sum>c\<leftarrow>strided lane kSG_moe (K div 32). gs * (\<Sum>j = c * 32..<c * 32 + 32. w_el weight w0 scales s0 j * x j))"
proof -
  let ?f = "\<lambda>c. gs * (\<Sum>j = c * 32..<c * 32 + 32. w_el weight w0 scales s0 j * x j)"
  have step: "(do {
     b0 \<leftarrow> rd scales (s0 + 2 * c);
     b1 \<leftarrow> rd scales (s0 + (2 * c + 1));
     let scale0 = decode_e4m3_raw half_val b0 * global;
     let scale1 = decode_e4m3_raw half_val b1 * global;
     words \<leftarrow> those (map (row_word half_val weight w0 input c) [0..<4]);
     Some (partial + ((words ! 0 + words ! 1) * scale0 + (words ! 2 + words ! 3) * scale1)) }) = Some (partial + ?f c)"
    if "c \<in> set (strided lane kSG_moe (K div 32))" for c partial
  proof -
    have c: "c < K div 32" using strided_ge that by blast
    then have cs: "s0 + 2 * c < length scales" "s0 + (2 * c + 1) < length scales" and c16: "c * 16 + 16 \<le> K div 32 * 16" and cK: "c * 32 + 32 \<le> K"
      using assms(2) by linarith+
    let ?S = "\<lambda>wi. (\<Sum>k<8. e2m1_val (nib weight (2 * w0 + (c * 32 + wi * 8 + k))) * x (c * 32 + wi * 8 + k)) / 2 ^ 14"
    have w: "row_word half_val weight w0 input c wi = Some (?S wi)" if "wi < 4" for wi
      by (rule row_word_exact) (use that assms(1,3) c16 cK in auto)
    have words: "those (map (row_word half_val weight w0 input c) [0..<4]) = Some [?S 0, ?S 1, ?S 2, ?S 3]"
      unfolding upt_4 by (simp add: w del: sum.lessThan_Suc)
    have blk: "e4m3_val (scales ! (s0 + (2 * c + h))) * (\<Sum>k<8. e2m1_val (nib weight (2 * w0 + (c * 32 + (2 * h + b) * 8 + k))) * x (c * 32 + (2 * h + b) * 8 + k)) =
      (\<Sum>k<8. w_el weight w0 scales s0 (c * 32 + ((2 * h + b) * 8 + k)) * x (c * 32 + ((2 * h + b) * 8 + k)))" if "b < 2" "h < 2" for h b
    proof -
      have "(c * 32 + ((2 * h + b) * 8 + k)) div 16 = 2 * c + h" if "k < 8" for k
      proof -
        have "c * 32 + ((2 * h + b) * 8 + k) = (2 * c + h) * 16 + (b * 8 + k)" by simp
        moreover have "b * 8 + k < 16" using that \<open>b < 2\<close> by linarith
        ultimately show ?thesis by simp
      qed
      then show ?thesis by (simp add: w_el_def sum_distrib_left mult_ac add.assoc)
    qed
    have shift: "(\<Sum>j = c * 32..<c * 32 + 32. g j) = (\<Sum>k<32. g (c * 32 + k))" for g :: "nat \<Rightarrow> real"
      using sum.shift_bounds_nat_ivl [of g 0 "c * 32" 32] by (simp add: add.commute lessThan_atLeast0)
    have "(\<Sum>k<32. g k) = (\<Sum>k<8. g ((2 * 0 + 0) * 8 + k)) + (\<Sum>k<8. g ((2 * 0 + 1) * 8 + k)) + (\<Sum>k<8. g ((2 * 1 + 0) * 8 + k)) + (\<Sum>k<8. g ((2 * 1 + 1) * 8 + k))" for g :: "nat \<Rightarrow> real"
      by (simp add: lessThan_nat_numeral lessThan_Suc)
    note split = this [of "\<lambda>k. w_el weight w0 scales s0 (c * 32 + k) * x (c * 32 + k)"]
    have "?f c = (?S 0 + ?S 1) * (e4m3_val (scales ! (s0 + 2 * c)) / 2 ^ 8 * global) + (?S 2 + ?S 3) * (e4m3_val (scales ! (s0 + (2 * c + 1))) / 2 ^ 8 * global)"
      unfolding shift split assms(4)
      by (rule scale_cancel) (use blk [of 0 0] blk [of 1 0] blk [of 0 1] blk [of 1 1] in simp_all)
    then show ?thesis using cs by (simp add: Let_def words e4m3_decode_raw)
  qed
  show ?thesis unfolding row_lane_def
    by (subst foldM_pure' [where g = "\<lambda>c p. p + ?f c"]) (rule step, assumption, simp add: fold_plus_sum)
qed

lemma row_dot_exact:
  assumes "w0 + K div 32 * 16 \<le> length weight" "s0 + K div 32 * 2 \<le> length scales" "\<And>j. j < K \<Longrightarrow> input j = Some (x j)" "global = gs * 2 ^ 22"
  shows "nvfp4_row_dot exact_math half_val weight w0 scales s0 global input K =
    Some (gs * (\<Sum>j<K div 32 * 32. w_el weight w0 scales s0 j * x j))"
proof -
  let ?f = "\<lambda>c. gs * (\<Sum>j = c * 32..<c * 32 + 32. w_el weight w0 scales s0 j * x j)"
  have "those (map (row_lane half_val weight w0 scales s0 global input K) [0..<kSG_moe]) = Some (map (\<lambda>l. \<Sum>c\<leftarrow>strided l kSG_moe (K div 32). ?f c) [0..<kSG_moe])"
    by (rule those_map_Some) (rule row_lane_exact [OF assms])
  moreover have "(\<Sum>l\<leftarrow>[0..<kSG_moe]. \<Sum>c\<leftarrow>strided l kSG_moe (K div 32). ?f c) = (\<Sum>c<K div 32. ?f c)"
    using lanes_sum_eq [of kSG_moe 1 ?f "K div 32"] by (simp add: lane_indices_1 [simplified] kSG_moe_def)
  moreover have "(\<Sum>c<K div 32. ?f c) = gs * (\<Sum>j<K div 32 * 32. w_el weight w0 scales s0 j * x j)"
    unfolding sum_distrib_left [symmetric] sum.nat_group by (rule refl)
  ultimately show ?thesis by (simp add: nvfp4_row_dot_def)
qed

end
