(* ===== verification/Gemv.thy ===== *)
theory Gemv
  imports Nvfp4
begin

text \<open>
  Matrix products with NVFP4 weights on the vector engines (\<open>nvfp4_gemv.sycl.cpp\<close>).  A sub-group of 32 work-items owns an output row: its
  items take chunks of the packed weight row in turn, decode them in registers and multiply them with the activations; the sub-group
  reduction of their sums is stored.  Modelled are the product with one row, the loop over the rows of a batch, and the tiled
  variant that decodes a chunk once for up to eight rows.  In exact arithmetic all three compute the dot products with the decoded weights
  (\<open>nvfp4_dot\<close>).
\<close>

section \<open>A sub-group per row\<close>

text \<open>The grid is rounded up to whole work-groups; sub-groups beyond the last row do nothing.\<close>

definition row_groups :: "nat \<Rightarrow> nat \<Rightarrow> (nat \<Rightarrow> 't option) \<Rightarrow> nat list \<Rightarrow> 't list \<Rightarrow> 't list option" where
  "row_groups N off f sched y = foldM (\<lambda>n y. if n \<ge> N then Some y else do { v \<leftarrow> f n; wr y (off + n) v }) sched y"

lemma row_groups_writes:
  assumes sched: "schedule R sched" "N \<le> R" and len: "off + N \<le> length y" and f: "\<And>n. n < N \<Longrightarrow> f n = Some (v n)"
  shows "\<exists>y'. row_groups N off f sched y = Some y' \<and> writes {off..<off + N} (\<lambda>a. v (a - off)) y y'"
proof -
  let ?cells = "\<lambda>n. if n < N then {off + n} else {}"
  have "\<exists>y'. foldM (\<lambda>n y. if n \<ge> N then Some y else do { v \<leftarrow> f n; wr y (off + n) v }) sched y = Some y' \<and> writes (\<Union>n<R. ?cells n) (\<lambda>a. v (a - off)) y y'"
  proof (rule launch_writes [OF sched(1)])
    fix n and m :: "'a list" assume m: "length m = length y"
    show "\<exists>m'. (if n \<ge> N then Some m else do { v \<leftarrow> f n; wr m (off + n) v }) = Some m' \<and> writes (?cells n) (\<lambda>a. v (a - off)) m m'"
    proof (cases "n < N")
      case True
      then have "off + n < length m" using m len by simp
      then show ?thesis using True f writes_single [of "off + n" m "\<lambda>a. v (a - off)"] by simp
    qed simp
  qed
  moreover have "(\<Union>n<R. ?cells n) = {off..<off + N}"
  proof
    show "{off..<off + N} \<subseteq> (\<Union>n<R. ?cells n)"
    proof
      fix a assume "a \<in> {off..<off + N}"
      then have "a - off < N" "a - off < R" "off + (a - off) = a" using sched(2) by auto
      then show "a \<in> (\<Union>n<R. ?cells n)" by (intro UN_I [of "a - off"]) auto
    qed
  qed (auto split: if_splits)
  ultimately show ?thesis by (simp add: row_groups_def)
qed

lemma row_groups_map:
  assumes "schedule R sched" "N \<le> R" "length y = N" "\<And>n. n < N \<Longrightarrow> f n = Some (v n)"
  shows "row_groups N 0 f sched y = Some (map v [0..<N])"
proof -
  have "\<exists>y'. row_groups N 0 f sched y = Some y' \<and> writes {0..<0 + N} (\<lambda>a. v (a - 0)) y y'"
    by (rule row_groups_writes [OF assms(1,2) _ assms(4)]) (simp add: assms(3))
  then obtain y' where "row_groups N 0 f sched y = Some y'" "writes {0..<0 + N} (\<lambda>a. v (a - 0)) y y'" by blast
  then show ?thesis using writes_map_upt [of N v y y'] assms(3) by (simp add: atLeast0LessThan)
qed

text \<open>What the lanes of a sub-group sum up to.\<close>

lemma lane_chunks_sum:
  fixes f :: "nat \<Rightarrow> real"
  assumes "0 < T"
  shows "(\<Sum>l\<leftarrow>[0..<T]. \<Sum>c\<leftarrow>strided l T n. f c) = (\<Sum>c<n. f c)"
  using lanes_sum_eq [of T 1 f n] assms by (simp add: lane_indices_1 [simplified])

section \<open>NVFP4\<close>

definition kMaxM :: nat where "kMaxM = 8"

datatype gemm_error = InvalidArgument

definition nvfp4_row :: "('f::{plus,times,zero}, 'z) gmath_scheme \<Rightarrow> (16 word \<Rightarrow> 'f) \<Rightarrow> ('t \<Rightarrow> 'f) \<Rightarrow> ('f \<Rightarrow> 't) \<Rightarrow> 8 word list \<Rightarrow> 8 word list \<Rightarrow> 'f \<Rightarrow> 't list \<Rightarrow> nat \<Rightarrow> nat \<Rightarrow> nat \<Rightarrow> 't option" where
  "nvfp4_row M hv ld st w bscale gscale x x0 K n = do {
     sum \<leftarrow> nvfp4_row_dot M hv w (n * (K div 2)) bscale (n * (K div 16)) gscale (\<lambda>i. map_option ld (rd x (x0 + i))) K;
     Some (st sum) }"

definition nvfp4_typed :: "('f::{plus,times,zero}, 'z) gmath_scheme \<Rightarrow> (16 word \<Rightarrow> 'f) \<Rightarrow> ('t \<Rightarrow> 'f) \<Rightarrow> ('f \<Rightarrow> 't) \<Rightarrow> 8 word list \<Rightarrow> 8 word list \<Rightarrow> 'f \<Rightarrow> 't list \<Rightarrow> nat \<Rightarrow> nat \<Rightarrow> nat \<Rightarrow> nat \<Rightarrow>
    nat list \<Rightarrow> 't list \<Rightarrow> 't list option" where
  "nvfp4_typed M hv ld st w bscale gscale x x0 y0 N K sched y = row_groups N y0 (nvfp4_row M hv ld st w bscale gscale x x0 K) sched y"

text \<open>The bits of both formats are decoded a power of two too small; the host multiplies the global scale by \<open>2 ^ 22\<close> once.\<close>

definition nvfp4_gemv :: "('f::{plus,times,zero}, 'z) gmath_scheme \<Rightarrow> (16 word \<Rightarrow> 'f) \<Rightarrow> ('t \<Rightarrow> 'f) \<Rightarrow> ('f \<Rightarrow> 't) \<Rightarrow> 8 word list \<Rightarrow> 8 word list \<Rightarrow> 'f \<Rightarrow> 't list \<Rightarrow> nat \<Rightarrow> nat \<Rightarrow>
    nat list \<Rightarrow> 't list \<Rightarrow> 't list option" where
  "nvfp4_gemv M hv ld st w bscale gscale x N K sched y = nvfp4_typed M hv ld st w bscale (gscale * of_num M 4194304) x 0 0 N K sched y"

definition nvfp4_gemm :: "('f::{plus,times,zero}, 'z) gmath_scheme \<Rightarrow> (16 word \<Rightarrow> 'f) \<Rightarrow> ('t \<Rightarrow> 'f) \<Rightarrow> ('f \<Rightarrow> 't) \<Rightarrow> 8 word list \<Rightarrow> 8 word list \<Rightarrow> 'f \<Rightarrow> 't list \<Rightarrow> nat \<Rightarrow> nat \<Rightarrow> nat \<Rightarrow>
    (nat \<Rightarrow> nat list) \<Rightarrow> 't list \<Rightarrow> 't list option" where
  "nvfp4_gemm M hv ld st w bscale gscale x rows N K scheds y =
     (let gscale = gscale * of_num M 4194304
      in foldM (\<lambda>m. nvfp4_typed M hv ld st w bscale gscale x (m * K) (m * N) N K (scheds m)) [0..<rows] y)"

definition decode_chunk :: "(16 word \<Rightarrow> 'f::{times,zero}) \<Rightarrow> 8 word list \<Rightarrow> nat \<Rightarrow> nat \<Rightarrow> 'f \<Rightarrow> 'f \<Rightarrow> 'f list option" where
  "decode_chunk hv w w0 c s0 s1 = foldM (\<lambda>wi decoded. do {
     word \<leftarrow> rd32 w (w0 + c * 16 + wi * 4);
     let scale = (if wi < 2 then s0 else s1);
     foldM (\<lambda>p decoded. do {
       let value = decode_e2m1_pair hv (drop_bit (4 * p) word);
       decoded \<leftarrow> wr decoded (wi * 8 + p) (fst value * scale);
       wr decoded (wi * 8 + p + 4) (snd value * scale) }) [0..<4] decoded }) [0..<4] (replicate 32 0)"

definition mtiled_lane :: "(16 word \<Rightarrow> 'f::{plus,times,zero}) \<Rightarrow> ('t \<Rightarrow> 'f) \<Rightarrow> 8 word list \<Rightarrow> nat \<Rightarrow> 8 word list \<Rightarrow> nat \<Rightarrow> 'f \<Rightarrow> 't list \<Rightarrow> nat \<Rightarrow> nat \<Rightarrow> nat \<Rightarrow> 'f list option" where
  "mtiled_lane hv ld w w0 bscale sc0 gscale x rows K lane = foldM (\<lambda>c acc. do {
     b0 \<leftarrow> rd bscale (sc0 + 2 * c);
     b1 \<leftarrow> rd bscale (sc0 + (2 * c + 1));
     decoded \<leftarrow> decode_chunk hv w w0 c (decode_e4m3_raw hv b0 * gscale) (decode_e4m3_raw hv b1 * gscale);
     foldM (\<lambda>m acc. do {
       dot \<leftarrow> foldM (\<lambda>i dot. do { d \<leftarrow> rd decoded i; xv \<leftarrow> rd x (m * K + c * 32 + i); Some (dot + d * ld xv) }) [0..<32] 0;
       a \<leftarrow> rd acc m;
       wr acc m (a + dot) }) [0..<rows] acc }) (strided lane kSG_moe (K div 32)) (replicate kMaxM 0)"

definition mtiled_item :: "('f::{plus,times,zero}, 'z) gmath_scheme \<Rightarrow> (16 word \<Rightarrow> 'f) \<Rightarrow> ('t \<Rightarrow> 'f) \<Rightarrow> ('f \<Rightarrow> 't) \<Rightarrow> 8 word list \<Rightarrow> 8 word list \<Rightarrow> 'f \<Rightarrow> 't list \<Rightarrow> nat \<Rightarrow> nat \<Rightarrow> nat \<Rightarrow>
    nat \<Rightarrow> 't list \<Rightarrow> 't list option" where
  "mtiled_item M hv ld st w bscale gscale x rows N K n y = (if n \<ge> N then Some y else do {
     accs \<leftarrow> those (map (mtiled_lane hv ld w (n * (K div 2)) bscale (n * (K div 16)) gscale x rows K) [0..<kSG_moe]);
     foldM (\<lambda>m y. do {
       parts \<leftarrow> those (map (\<lambda>acc. rd acc m) accs);
       wr y (m * N + n) (st (sum_group M parts)) }) [0..<rows] y })"

definition nvfp4_gemm_mtiled :: "('f::{plus,times,zero}, 'z) gmath_scheme \<Rightarrow> (16 word \<Rightarrow> 'f) \<Rightarrow> ('t \<Rightarrow> 'f) \<Rightarrow> ('f \<Rightarrow> 't) \<Rightarrow> 8 word list \<Rightarrow> 8 word list \<Rightarrow> 'f \<Rightarrow> 't list \<Rightarrow> nat \<Rightarrow> nat \<Rightarrow> nat \<Rightarrow>
    nat list \<Rightarrow> 't list \<Rightarrow> gemm_error + 't list option" where
  "nvfp4_gemm_mtiled M hv ld st w bscale gscale x rows N K sched y =
     (if rows = 0 \<or> rows > kMaxM then Inl InvalidArgument
      else Inr (let gscale = gscale * of_num M 4194304 in foldM (mtiled_item M hv ld st w bscale gscale x rows N K) sched y))"

definition nvfp4_gemv_sycl :: "f32 gmath \<Rightarrow> (16 word \<Rightarrow> f32) \<Rightarrow> DType \<Rightarrow> 8 word list \<Rightarrow> 8 word list \<Rightarrow> f32 \<Rightarrow> 32 word list \<Rightarrow> nat \<Rightarrow> nat \<Rightarrow> nat list \<Rightarrow> 32 word list \<Rightarrow> 32 word list option" where
  "nvfp4_gemv_sycl M hv dt = nvfp4_gemv M hv (elem_ld dt) (elem_st dt)"

definition nvfp4_gemm_sycl :: "f32 gmath \<Rightarrow> (16 word \<Rightarrow> f32) \<Rightarrow> DType \<Rightarrow> 8 word list \<Rightarrow> 8 word list \<Rightarrow> f32 \<Rightarrow> 32 word list \<Rightarrow> nat \<Rightarrow> nat \<Rightarrow> nat \<Rightarrow> (nat \<Rightarrow> nat list) \<Rightarrow> 32 word list \<Rightarrow> 32 word list option" where
  "nvfp4_gemm_sycl M hv dt = nvfp4_gemm M hv (elem_ld dt) (elem_st dt)"

definition nvfp4_gemm_mtiled_sycl :: "f32 gmath \<Rightarrow> (16 word \<Rightarrow> f32) \<Rightarrow> DType \<Rightarrow> 8 word list \<Rightarrow> 8 word list \<Rightarrow> f32 \<Rightarrow> 32 word list \<Rightarrow> nat \<Rightarrow> nat \<Rightarrow> nat \<Rightarrow> nat list \<Rightarrow> 32 word list \<Rightarrow> gemm_error + 32 word list option" where
  "nvfp4_gemm_mtiled_sycl M hv dt = nvfp4_gemm_mtiled M hv (elem_ld dt) (elem_st dt)"

subsection \<open>In exact arithmetic\<close>

definition nvfp4_dot :: "8 word list \<Rightarrow> 8 word list \<Rightarrow> real \<Rightarrow> (nat \<Rightarrow> real) \<Rightarrow> nat \<Rightarrow> nat \<Rightarrow> real" where
  "nvfp4_dot w bscale gs x K n = gs * (\<Sum>j<K. w_el w (n * (K div 2)) bscale (n * (K div 16)) j * x j)"

lemma k32:
  fixes K :: nat
  assumes "32 dvd K"
  shows "K div 32 * 32 = K" "K div 2 = K div 32 * 16" "K div 16 = K div 32 * 2"
proof -
  obtain q where "K = 32 * q" using assms by blast
  then show "K div 32 * 32 = K" "K div 2 = K div 32 * 16" "K div 16 = K div 32 * 2" by simp_all
qed

lemma nvfp4_row_exact:
  assumes K: "32 dvd K" and n: "n < N" and len: "length w = N * (K div 2)" "length bscale = N * (K div 16)" "x0 + K \<le> length x"
  shows "nvfp4_row exact_math half_val ld st w bscale (gs * 2 ^ 22) x x0 K n = Some (st (nvfp4_dot w bscale gs (\<lambda>j. ld (x ! (x0 + j))) K n))"
proof -
  note k = k32 [OF K]
  have r: "n * (K div 2) + K div 2 \<le> N * (K div 2)" "n * (K div 16) + K div 16 \<le> N * (K div 16)" by (rule src_row [OF n])+
  have "nvfp4_row_dot exact_math half_val w (n * (K div 2)) bscale (n * (K div 16)) (gs * 2 ^ 22) (\<lambda>i. map_option ld (rd x (x0 + i))) K =
      Some (gs * (\<Sum>j<K div 32 * 32. w_el w (n * (K div 2)) bscale (n * (K div 16)) j * ld (x ! (x0 + j))))"
    by (rule row_dot_exact) (use r len k(2,3) in simp_all)
  then show ?thesis unfolding k(1) by (simp add: nvfp4_row_def nvfp4_dot_def)
qed


lemma nvfp4_gemm_rows:
  fixes y :: "'t list"
  assumes K: "32 dvd K" and len: "length w = N * (K div 2)" "length bscale = N * (K div 16)" "length x = rows * K" "length y = rows * N"
    and scheds: "\<And>m. schedule R (scheds m)" "N \<le> R"
  shows "nvfp4_gemm exact_math half_val ld st w bscale gs x rows N K scheds y =
    Some (map (\<lambda>a. st (nvfp4_dot w bscale gs (\<lambda>j. ld (x ! (a div N * K + j))) K (a mod N))) [0..<rows * N])"
proof -
  let ?v = "\<lambda>m n. st (nvfp4_dot w bscale gs (\<lambda>j. ld (x ! (m * K + j))) K n)"
  have "foldM (\<lambda>m. nvfp4_typed exact_math half_val ld st w bscale (gs * 2 ^ 22) x (m * K) (m * N) N K (scheds m)) [0..<rows] y =
      Some (map (\<lambda>a. ?v (a div N) (a mod N)) [0..<rows * N])"
  proof (rule rows_launch [OF schedule_upt len(4)])
    fix m and y' :: "'t list" assume m: "m < rows" and l: "length y' = rows * N"
    have "m * N + N \<le> length y'" "m * K + K \<le> length x" using src_row [OF m] len(3) l by simp_all
    then show "\<exists>m'. nvfp4_typed exact_math half_val ld st w bscale (gs * 2 ^ 22) x (m * K) (m * N) N K (scheds m) y' = Some m' \<and>
        writes (row_cells N m) (\<lambda>a. ?v m (a - m * N)) y' m'"
      unfolding nvfp4_typed_def by (intro row_groups_writes [OF scheds] nvfp4_row_exact [OF K _ len(1,2)])
  qed
  then show ?thesis by (simp add: nvfp4_gemm_def)
qed

lemma pair_stores:
  assumes len: "off + 8 \<le> length d" and AB: "\<And>p. p < 4 \<Longrightarrow> A p = u (off + p)" "\<And>p. p < 4 \<Longrightarrow> B p = u (off + p + 4)"
  shows "\<exists>d'. foldM (\<lambda>p d. do { d \<leftarrow> wr d (off + p) (A p); wr d (off + p + 4) (B p) }) [0..<4] d = Some d' \<and> writes {off..<off + 8} u d d'"
proof -
  have "\<exists>d'. foldM (\<lambda>p d. do { d \<leftarrow> wr d (off + p) (A p); wr d (off + p + 4) (B p) }) [0..<4] d = Some d' \<and> writes ({off..<off + 4} \<union> {off + 4..<off + 4 + 4}) u d d'"
  proof (rule foldM_upt [where P = "\<lambda>p d'. writes ({off..<off + p} \<union> {off + 4..<off + 4 + p}) u d d'"])
    fix p d' assume p: "p < 4" and w: "writes ({off..<off + p} \<union> {off + 4..<off + 4 + p}) u d d'"
    have b: "off + p < length d'" "off + p + 4 < length d'" using w len p by (simp_all add: writes_def)
    have "writes ({off..<off + Suc p} \<union> {off + 4..<off + 4 + Suc p}) u d (d'[off + p := u (off + p), off + p + 4 := u (off + p + 4)])"
      using w b p by (auto simp: writes_def nth_list_update less_Suc_eq)
    then show "\<exists>s'. do { d \<leftarrow> wr d' (off + p) (A p); wr d (off + p + 4) (B p) } = Some s' \<and> writes ({off..<off + Suc p} \<union> {off + 4..<off + 4 + Suc p}) u d s'"
      using b AB [OF p] by simp
  qed simp_all
  moreover have "{off..<off + 4} \<union> {off + 4..<off + 4 + 4} = {off..<off + 8}" by auto
  ultimately show ?thesis by simp
qed

lemma decode_chunk_exact:
  assumes "w0 + c * 16 + 16 \<le> length w"
  shows "decode_chunk half_val w w0 c s0 s1 = Some (map (\<lambda>i. e2m1_val (nib w (2 * w0 + (c * 32 + i))) / 2 ^ 14 * (if i < 16 then s0 else s1)) [0..<32])"
proof -
  let ?v = "\<lambda>i. e2m1_val (nib w (2 * w0 + (c * 32 + i))) / 2 ^ 14 * (if i < 16 then s0 else s1)"
  have "\<exists>d. decode_chunk half_val w w0 c s0 s1 = Some d \<and> writes {0..<4 * 8} ?v (replicate 32 0) d"
    unfolding decode_chunk_def
  proof (rule foldM_upt [where P = "\<lambda>wi d. writes {0..<wi * 8} ?v (replicate 32 0) d"])
    fix wi d assume wi: "wi < 4" and d: "writes {0..<wi * 8} ?v (replicate 32 0) d"
    let ?i = "w0 + c * 16 + wi * 4"
    have i: "2 * ?i + k = 2 * w0 + (c * 32 + (wi * 8 + k))" for k by simp
    have "?i + 4 \<le> length w" using assms wi by simp
    then obtain word where word: "rd32 w ?i = Some word" using rd32_Some by blast
    let ?s = "if wi < 2 then s0 else s1"
    have s: "(if wi * 8 + k < 16 then s0 else s1) = ?s" if "k < 8" for k using that wi by auto
    have dec: "fst (decode_e2m1_pair half_val (drop_bit (4 * p) word)) * ?s = ?v (wi * 8 + p)"
      "snd (decode_e2m1_pair half_val (drop_bit (4 * p) word)) * ?s = ?v (wi * 8 + p + 4)" if "p < 4" for p
      unfolding rd32_nib [OF word that] i using s [of p] s [of "p + 4"] that by (simp_all add: e2m1_decode nib_less add.assoc)
    have "\<exists>d'. foldM (\<lambda>p d. do { d \<leftarrow> wr d (wi * 8 + p) (fst (decode_e2m1_pair half_val (drop_bit (4 * p) word)) * ?s);
        wr d (wi * 8 + p + 4) (snd (decode_e2m1_pair half_val (drop_bit (4 * p) word)) * ?s) }) [0..<4] d = Some d' \<and> writes {wi * 8..<wi * 8 + 8} ?v d d'"
      by (rule pair_stores [where u = ?v]) (use d wi dec in \<open>simp_all add: writes_def\<close>)
    then obtain d' where d': "foldM (\<lambda>p d. do { d \<leftarrow> wr d (wi * 8 + p) (fst (decode_e2m1_pair half_val (drop_bit (4 * p) word)) * ?s);
        wr d (wi * 8 + p + 4) (snd (decode_e2m1_pair half_val (drop_bit (4 * p) word)) * ?s) }) [0..<4] d = Some d'" "writes {wi * 8..<wi * 8 + 8} ?v d d'" by (elim exE conjE)
    have "{0..<wi * 8} \<union> {wi * 8..<wi * 8 + 8} = {0..<Suc wi * 8}" by auto
    then have "writes {0..<Suc wi * 8} ?v (replicate 32 0) d'" using writes_trans [OF d d'(2)] by simp
    then show "\<exists>s'. (do {
     word \<leftarrow> rd32 w (w0 + c * 16 + wi * 4);
     let scale = (if wi < 2 then s0 else s1);
     foldM (\<lambda>p decoded. do {
       let value = decode_e2m1_pair half_val (drop_bit (4 * p) word);
       decoded \<leftarrow> wr decoded (wi * 8 + p) (fst value * scale);
       wr decoded (wi * 8 + p + 4) (snd value * scale) }) [0..<4] d }) = Some s' \<and> writes {0..<Suc wi * 8} ?v (replicate 32 0) s'"
      unfolding word Let_def Option.bind.bind_lunit d'(1) by blast
  qed simp_all
  then show ?thesis using writes_map_upt [of 32 ?v "replicate 32 0"] by (auto simp: atLeast0LessThan)
qed

lemma mtiled_lane_exact:
  assumes K: "32 dvd K" and n: "n < N" and rows: "rows \<le> kMaxM" and len: "length w = N * (K div 2)" "length bscale = N * (K div 16)" "length x = rows * K"
  shows "\<exists>acc. mtiled_lane half_val ld w (n * (K div 2)) bscale (n * (K div 16)) (gs * 2 ^ 22) x rows K lane = Some acc \<and> length acc = kMaxM \<and>
    (\<forall>m<rows. acc ! m = (\<Sum>c\<leftarrow>strided lane kSG_moe (K div 32). gs * (\<Sum>j = c * 32..<c * 32 + 32. w_el w (n * (K div 2)) bscale (n * (K div 16)) j * ld (x ! (m * K + j)))))"
proof -
  note k = k32 [OF K]
  let ?w0 = "n * (K div 2)" and ?s0 = "n * (K div 16)"
  let ?f = "\<lambda>m c. gs * (\<Sum>j = c * 32..<c * 32 + 32. w_el w ?w0 bscale ?s0 j * ld (x ! (m * K + j)))"
  let ?body = "\<lambda>c acc. do {
     b0 \<leftarrow> rd bscale (?s0 + 2 * c);
     b1 \<leftarrow> rd bscale (?s0 + (2 * c + 1));
     decoded \<leftarrow> decode_chunk half_val w ?w0 c (decode_e4m3_raw half_val b0 * (gs * 2 ^ 22)) (decode_e4m3_raw half_val b1 * (gs * 2 ^ 22));
     foldM (\<lambda>m acc. do {
       dot \<leftarrow> foldM (\<lambda>i dot. do { d \<leftarrow> rd decoded i; xv \<leftarrow> rd x (m * K + c * 32 + i); Some (dot + d * ld xv) }) [0..<32] 0;
       a \<leftarrow> rd acc m;
       wr acc m (a + dot) }) [0..<rows] acc }"
  have step: "\<exists>acc'. ?body c acc = Some acc' \<and> length acc' = kMaxM \<and> (\<forall>m<rows. acc' ! m = acc ! m + ?f m c)"
    if c: "c < K div 32" and acc: "length acc = kMaxM" for c acc
  proof -
    have r: "?w0 + K div 2 \<le> N * (K div 2)" "?s0 + K div 16 \<le> N * (K div 16)" by (rule src_row [OF n])+
    have cb: "?w0 + c * 16 + 16 \<le> length w" "?s0 + 2 * c < length bscale" "?s0 + (2 * c + 1) < length bscale" "c * 32 + 32 \<le> K"
      using c r len(1,2) k by linarith+
    let ?e0 = "decode_e4m3_raw half_val (bscale ! (?s0 + 2 * c)) * (gs * 2 ^ 22)" and ?e1 = "decode_e4m3_raw half_val (bscale ! (?s0 + (2 * c + 1))) * (gs * 2 ^ 22)"
    let ?d = "\<lambda>i. e2m1_val (nib w (2 * ?w0 + (c * 32 + i))) / 2 ^ 14 * (if i < 16 then ?e0 else ?e1)"
    have el: "?d i = gs * w_el w ?w0 bscale ?s0 (c * 32 + i)" if "i < 32" for i
    proof -
      have "(c * 32 + i) div 16 = 2 * c + i div 16" by simp
      moreover have "i div 16 = (if i < 16 then 0 else 1)" using that by simp linarith
      ultimately show ?thesis by (simp add: w_el_def e4m3_decode_raw)
    qed
    have dot: "foldM (\<lambda>i dot. do { d \<leftarrow> rd (map ?d [0..<32]) i; xv \<leftarrow> rd x (m * K + c * 32 + i); Some (dot + d * ld xv) }) [0..<32] 0 = Some (?f m c)" if m: "m < rows" for m
    proof -
      have "m * K + K \<le> length x" using src_row [OF m, of K] len(3) by simp
      then have "foldM (\<lambda>i dot. do { d \<leftarrow> rd (map ?d [0..<32]) i; xv \<leftarrow> rd x (m * K + c * 32 + i); Some (dot + d * ld xv) }) [0..<32] 0 =
          Some (fold (\<lambda>i dot. dot + ?d i * ld (x ! (m * K + (c * 32 + i)))) [0..<32] 0)"
        using cb(4) by (intro foldM_pure') (simp add: add.assoc)
      also have "fold (\<lambda>i dot. dot + ?d i * ld (x ! (m * K + (c * 32 + i)))) [0..<32] 0 = (\<Sum>i<32. ?d i * ld (x ! (m * K + (c * 32 + i))))"
        by (simp only: fold_add_sum [OF refl] interv_sum_list_conv_sum_set_nat atLeast0LessThan set_upt add_0)
      also have "\<dots> = (\<Sum>i<32. gs * (w_el w ?w0 bscale ?s0 (c * 32 + i) * ld (x ! (m * K + (c * 32 + i)))))"
        by (rule sum.cong [OF refl]) (simp only: lessThan_iff el mult.assoc)
      also have "\<dots> = ?f m c"
        using sum.shift_bounds_nat_ivl [of "\<lambda>j. w_el w ?w0 bscale ?s0 j * ld (x ! (m * K + j))" 0 "c * 32" 32]
        by (simp only: sum_distrib_left [symmetric] add.commute [of _ "c * 32"] lessThan_atLeast0 add_0 add_0_right)
      finally show ?thesis .
    qed
    have "\<exists>acc'. foldM (\<lambda>m acc. do { a \<leftarrow> rd acc m; wr acc m (a + ?f m c) }) [0..<rows] acc = Some acc' \<and> (length acc' = kMaxM \<and>
        (\<forall>m<rows. acc' ! m = acc ! m + ?f m c) \<and> (\<forall>m\<ge>rows. acc' ! m = acc ! m))"
      by (rule foldM_upt [where P = "\<lambda>r acc'. length acc' = kMaxM \<and> (\<forall>m<r. acc' ! m = acc ! m + ?f m c) \<and> (\<forall>m\<ge>r. acc' ! m = acc ! m)"])
        (use acc rows in \<open>auto simp: nth_list_update less_Suc_eq\<close>)
    moreover have "?body c acc = foldM (\<lambda>m acc. do { a \<leftarrow> rd acc m; wr acc m (a + ?f m c) }) [0..<rows] acc"
    proof -
      have rb: "rd bscale (?s0 + 2 * c) = Some (bscale ! (?s0 + 2 * c))" "rd bscale (?s0 + (2 * c + 1)) = Some (bscale ! (?s0 + (2 * c + 1)))" using cb(2,3) by simp_all
      show ?thesis unfolding rb Option.bind.bind_lunit decode_chunk_exact [OF cb(1)]
      proof (rule foldM_cong)
        fix m and s :: "real list" assume "m \<in> set [0..<rows]"
        then have m: "m < rows" by simp
        show "(do {
       dot \<leftarrow> foldM (\<lambda>i dot. do { d \<leftarrow> rd (map ?d [0..<32]) i; xv \<leftarrow> rd x (m * K + c * 32 + i); Some (dot + d * ld xv) }) [0..<32] 0;
       a \<leftarrow> rd s m;
       wr s m (a + dot) }) = (do { a \<leftarrow> rd s m; wr s m (a + ?f m c) })" unfolding dot [OF m] Option.bind.bind_lunit by (rule refl)
      qed simp_all
    qed
    ultimately show ?thesis by auto
  qed
  have run: "\<exists>acc'. foldM ?body cs acc = Some acc' \<and> length acc' = kMaxM \<and> (\<forall>m<rows. acc' ! m = acc ! m + (\<Sum>c\<leftarrow>cs. ?f m c))"
    if "\<forall>c\<in>set cs. c < K div 32" "length acc = kMaxM" for cs acc
    using that
  proof (induction cs arbitrary: acc)
    case (Cons c cs)
    from step [of c acc] Cons.prems obtain a1 where a1: "?body c acc = Some a1" "length a1 = kMaxM" "\<forall>m<rows. a1 ! m = acc ! m + ?f m c" by auto
    from Cons.IH [OF _ a1(2)] Cons.prems(1) obtain a2 where a2: "foldM ?body cs a1 = Some a2" "length a2 = kMaxM" "\<forall>m<rows. a2 ! m = a1 ! m + (\<Sum>c\<leftarrow>cs. ?f m c)" by auto
    have "foldM ?body (c # cs) acc = Some a2" unfolding foldM.simps a1(1) Option.bind.bind_lunit by (rule a2(1))
    then show ?case using a1(3) a2(2,3) by (intro exI [of _ a2]) (simp add: add.assoc)
  qed simp
  from run [of "strided lane kSG_moe (K div 32)" "replicate kMaxM 0"] obtain acc where
    "mtiled_lane half_val ld w ?w0 bscale ?s0 (gs * 2 ^ 22) x rows K lane = Some acc" "length acc = kMaxM" "\<forall>m<rows. acc ! m = replicate kMaxM 0 ! m + (\<Sum>c\<leftarrow>strided lane kSG_moe (K div 32). ?f m c)"
    unfolding mtiled_lane_def using strided_ge by fastforce
  then show ?thesis using rows by (intro exI [of _ acc]) simp
qed

lemma mtiled_item_exact:
  fixes y :: "'t list"
  assumes K: "32 dvd K" and n: "n < N" and rows: "rows \<le> kMaxM" and len: "length w = N * (K div 2)" "length bscale = N * (K div 16)" "length x = rows * K" "length y = rows * N"
  shows "\<exists>y'. mtiled_item exact_math half_val ld st w bscale (gs * 2 ^ 22) x rows N K n y = Some y' \<and>
    writes ((\<lambda>m. m * N + n) ` {..<rows}) (\<lambda>a. st (nvfp4_dot w bscale gs (\<lambda>j. ld (x ! (a div N * K + j))) K (a mod N))) y y'"
proof -
  let ?f = "\<lambda>m c. gs * (\<Sum>j = c * 32..<c * 32 + 32. w_el w (n * (K div 2)) bscale (n * (K div 16)) j * ld (x ! (m * K + j)))"
  let ?lane = "mtiled_lane half_val ld w (n * (K div 2)) bscale (n * (K div 16)) (gs * 2 ^ 22) x rows K"
  have ex: "\<forall>l. \<exists>acc. ?lane l = Some acc \<and> length acc = kMaxM \<and> (\<forall>m<rows. acc ! m = (\<Sum>c\<leftarrow>strided l kSG_moe (K div 32). ?f m c))"
    using mtiled_lane_exact [OF K n rows len(1-3)] by blast
  from choice [OF ex] obtain A where A': "\<forall>l. ?lane l = Some (A l) \<and> length (A l) = kMaxM \<and> (\<forall>m<rows. A l ! m = (\<Sum>c\<leftarrow>strided l kSG_moe (K div 32). ?f m c))" ..
  have A: "?lane l = Some (A l)" "length (A l) = kMaxM" "m < rows \<Longrightarrow> A l ! m = (\<Sum>c\<leftarrow>strided l kSG_moe (K div 32). ?f m c)" for l m
    using A' by (simp_all only: simp_thms)
  have accs: "those (map ?lane [0..<kSG_moe]) = Some (map A [0..<kSG_moe])" by (rule those_map_Some) (rule A(1))
  have parts: "those (map (\<lambda>acc. rd acc m) (map A [0..<kSG_moe])) = Some (map (\<lambda>l. A l ! m) [0..<kSG_moe])" if "m < rows" for m
  proof -
    have "those (map (\<lambda>l. rd (A l) m) [0..<kSG_moe]) = Some (map (\<lambda>l. A l ! m) [0..<kSG_moe])"
      by (rule those_map_Some) (use that rows A(2) in simp)
    then show ?thesis by (simp add: comp_def)
  qed
  have total: "(\<Sum>l\<leftarrow>[0..<kSG_moe]. A l ! m) = nvfp4_dot w bscale gs (\<lambda>j. ld (x ! (m * K + j))) K n" if "m < rows" for m
  proof -
    have "(\<Sum>l\<leftarrow>[0..<kSG_moe]. A l ! m) = (\<Sum>c<K div 32. ?f m c)" using lane_chunks_sum [of kSG_moe "?f m" "K div 32"] by (simp add: A(3) [OF that] kSG_moe_def)
    also have "\<dots> = gs * (\<Sum>j<K div 32 * 32. w_el w (n * (K div 2)) bscale (n * (K div 16)) j * ld (x ! (m * K + j)))"
      unfolding sum_distrib_left [symmetric] sum.nat_group by (rule refl)
    finally show ?thesis by (simp add: nvfp4_dot_def k32(1) [OF K])
  qed
  let ?v = "\<lambda>a. st (nvfp4_dot w bscale gs (\<lambda>j. ld (x ! (a div N * K + j))) K (a mod N))"
  have v: "?v (m * N + n) = st (nvfp4_dot w bscale gs (\<lambda>j. ld (x ! (m * K + j))) K n)" for m using n by simp
  have "\<exists>y'. foldM (\<lambda>m y. do { parts \<leftarrow> those (map (\<lambda>acc. rd acc m) (map A [0..<kSG_moe])); wr y (m * N + n) (st (sum_group exact_math parts)) }) [0..<rows] y = Some y' \<and>
      writes ((\<lambda>m. m * N + n) ` {..<rows}) ?v y y'"
  proof (rule foldM_upt [where P = "\<lambda>r y'. writes ((\<lambda>m. m * N + n) ` {..<r}) ?v y y'"])
    fix m y' assume m: "m < rows" and w: "writes ((\<lambda>m. m * N + n) ` {..<m}) ?v y y'"
    have b: "m * N + n < length y'" using div_mult_add_lt [OF m n] len(4) writes_length [OF w] by simp
    have "writes ((\<lambda>m. m * N + n) ` {..<m} \<union> {m * N + n}) ?v y (y'[m * N + n := ?v (m * N + n)])"
      by (rule writes_trans [OF w writes_single [OF b]])
    moreover have "(\<lambda>m. m * N + n) ` {..<m} \<union> {m * N + n} = (\<lambda>m. m * N + n) ` {..<Suc m}" by (auto simp: lessThan_Suc)
    ultimately show "\<exists>s'. do { parts \<leftarrow> those (map (\<lambda>acc. rd acc m) (map A [0..<kSG_moe])); wr y' (m * N + n) (st (sum_group exact_math parts)) } = Some s' \<and>
        writes ((\<lambda>m. m * N + n) ` {..<Suc m}) ?v y s'"
      unfolding parts [OF m] using b v [of m] by (simp add: total [OF m])
  qed simp_all
  moreover have "\<not> N \<le> n" using n by simp
  ultimately show ?thesis unfolding mtiled_item_def accs Option.bind.bind_lunit by (simp only: if_False)
qed

lemma mtiled_rows:
  fixes y :: "'t list"
  assumes K: "32 dvd K" and rows: "rows \<le> kMaxM" and len: "length w = N * (K div 2)" "length bscale = N * (K div 16)" "length x = rows * K" "length y = rows * N"
    and sched: "schedule R sched" "N \<le> R"
  shows "foldM (mtiled_item exact_math half_val ld st w bscale (gs * 2 ^ 22) x rows N K) sched y =
    Some (map (\<lambda>a. st (nvfp4_dot w bscale gs (\<lambda>j. ld (x ! (a div N * K + j))) K (a mod N))) [0..<rows * N])"
proof -
  let ?v = "\<lambda>a. st (nvfp4_dot w bscale gs (\<lambda>j. ld (x ! (a div N * K + j))) K (a mod N))"
  let ?cells = "\<lambda>n. if n < N then (\<lambda>m. m * N + n) ` {..<rows} else {}"
  have "\<exists>y'. foldM (mtiled_item exact_math half_val ld st w bscale (gs * 2 ^ 22) x rows N K) sched y = Some y' \<and> writes (\<Union>n<R. ?cells n) ?v y y'"
  proof (rule launch_writes [OF sched(1)])
    fix n and m :: "'t list" assume m: "length m = length y"
    show "\<exists>m'. mtiled_item exact_math half_val ld st w bscale (gs * 2 ^ 22) x rows N K n m = Some m' \<and> writes (?cells n) ?v m m'"
    proof (cases "n < N")
      case True
      then show ?thesis using mtiled_item_exact [OF K True rows len(1-3), of m ld st gs] m len(4) by simp
    qed (simp add: mtiled_item_def)
  qed
  moreover have "(\<Union>n<R. ?cells n) = {..<rows * N}"
  proof
    show "{..<rows * N} \<subseteq> (\<Union>n<R. ?cells n)"
    proof
      fix a assume "a \<in> {..<rows * N}"
      then have lt: "a < rows * N" by simp
      then have "0 < N" by (cases N) auto
      then have a: "a div N < rows" "a mod N < N" using less_mult_imp_div_less [OF lt] by simp_all
      then have "a mod N < R" "a = a div N * N + a mod N" using sched(2) by simp_all
      then have "a \<in> ?cells (a mod N)" using a by (simp only: if_True) (intro image_eqI [of _ _ "a div N"], simp_all)
      then show "a \<in> (\<Union>n<R. ?cells n)" using \<open>a mod N < R\<close> by blast
    qed
  qed (auto split: if_splits intro: div_mult_add_lt)
  ultimately obtain y' where "foldM (mtiled_item exact_math half_val ld st w bscale (gs * 2 ^ 22) x rows N K) sched y = Some y'" "writes {..<rows * N} ?v y y'"
    by (elim exE conjE) simp
  then show ?thesis using writes_map_upt [of "rows * N" ?v y y'] len(4) by simp
qed

text \<open>Over the reals, the product of a batch with NVFP4 weights is, row by row, the dot product of the activations with
  the decoded weights (fp4 element times its block scale) times the global scale; the tiled variant accepts one to eight rows and
  gives the same matrix, any order of the sub-groups in both.\<close>

theorem nvfp4_gemm_batched:
  assumes "32 dvd K" and "length w = N * (K div 2)" "length bscale = N * (K div 16)" "length x = rows * K" "length y = rows * N"
    and "\<And>m. schedule R (scheds m)" "schedule R sched" "N \<le> R"
  shows "nvfp4_gemm exact_math half_val ld st w bscale gs x rows N K scheds y =
      Some (map (\<lambda>a. st (nvfp4_dot w bscale gs (\<lambda>j. ld (x ! (a div N * K + j))) K (a mod N))) [0..<rows * N]) \<and>
    nvfp4_gemm_mtiled exact_math half_val ld st w bscale gs x rows N K sched y =
      (if rows = 0 \<or> rows > 8 then Inl InvalidArgument else Inr (nvfp4_gemm exact_math half_val ld st w bscale gs x rows N K scheds y))"
proof -
  note rows = nvfp4_gemm_rows [OF assms(1-6,8), of ld st gs]
  moreover have "foldM (mtiled_item exact_math half_val ld st w bscale (gs * 2 ^ 22) x rows N K) sched y =
      nvfp4_gemm exact_math half_val ld st w bscale gs x rows N K scheds y" if "rows \<le> kMaxM"
    unfolding rows by (rule mtiled_rows [OF assms(1) that assms(2-5,7,8)])
  ultimately show ?thesis by (simp add: nvfp4_gemm_mtiled_def kMaxM_def)
qed

end
