(* ===== verification/Qgemv.thy ===== *)
theory Qgemv
  imports Gemv
begin

text \<open>
  Matrix-vector products with int4, MXFP4 and FP8 weights (\<open>qgemv.sycl.cpp\<close>, \<open>mxfp4_gemv.sycl.cpp\<close>, \<open>fp8_w8a16.sycl.cpp\<close>,
  \<open>fp8_gemv.sycl.cpp\<close>).  The first three give an output row to a sub-group of 32 work-items, which take wide chunks of the weight
  row in turn; the int4 kernel finishes the row byte by byte.  The FP8 kernel for one activation row works along
  the other axis: an item owns eight adjacent columns and a slab of rows, stores its partial sums, and a second kernel adds the slabs.
  In exact arithmetic each is the dot product of the decoded weights with the activations.
\<close>

definition kSG_q :: nat where "kSG_q = 32"

text \<open>The sub-group reduction and the store of its leader.\<close>

definition sg_row :: "('f, 'z) gmath_scheme \<Rightarrow> (nat \<Rightarrow> 'f option) \<Rightarrow> ('f \<Rightarrow> 't) \<Rightarrow> 't option" where
  "sg_row M lane fin = do { accs \<leftarrow> those (map lane [0..<kSG_q]); Some (fin (sum_group M accs)) }"

section \<open>Group-wise int4\<close>

definition qgemv_word :: "('f::{plus,times,zero}, 'z) gmath_scheme \<Rightarrow> ('t \<Rightarrow> 'f) \<Rightarrow> 8 word list \<Rightarrow> nat \<Rightarrow> 't list \<Rightarrow> nat \<Rightarrow> 'f \<Rightarrow> 'f option" where
  "qgemv_word M ld w wi x xi s = do {
     word \<leftarrow> rd32 w wi;
     a \<leftarrow> foldM (\<lambda>nib a. do {
       xv \<leftarrow> rd x (xi + nib);
       Some (a + of_num M (s4 (uint (drop_bit (nib * 4) word AND 0xF))) * ld xv) }) [0..<8] 0;
     Some (a * s) }"

definition qgemv_chunk :: "('f::{plus,times,zero}, 'z) gmath_scheme \<Rightarrow> (16 word \<Rightarrow> 'f) \<Rightarrow> ('t \<Rightarrow> 'f) \<Rightarrow> 8 word list \<Rightarrow> nat \<Rightarrow> 16 word list \<Rightarrow> nat \<Rightarrow> 't list \<Rightarrow> nat \<Rightarrow> nat \<Rightarrow> 'f \<Rightarrow> 'f option" where
  "qgemv_chunk M hv ld w w0 scales s0 x grp c acc = do {
     let kbase = c * 32;
     let fast_scale = (grp mod 32 = 0);
     sc \<leftarrow> (if fast_scale then map_option hv (rd scales (s0 + kbase div grp)) else Some 0);
     aw \<leftarrow> those (map (\<lambda>wi. do {
       s \<leftarrow> (if fast_scale then Some sc else map_option hv (rd scales (s0 + (kbase + wi * 8) div grp)));
       qgemv_word M ld w (w0 + c * 16 + wi * 4) x (kbase + wi * 8) s }) [0..<4]);
     Some (acc + ((aw ! 0 + aw ! 1) + (aw ! 2 + aw ! 3))) }"

definition qgemv_tail :: "('f::{plus,times,zero}, 'z) gmath_scheme \<Rightarrow> (16 word \<Rightarrow> 'f) \<Rightarrow> ('t \<Rightarrow> 'f) \<Rightarrow> 8 word list \<Rightarrow> nat \<Rightarrow> 16 word list \<Rightarrow> nat \<Rightarrow> 't list \<Rightarrow> nat \<Rightarrow> nat \<Rightarrow> 'f \<Rightarrow> 'f option" where
  "qgemv_tail M hv ld w w0 scales s0 x grp b acc = do {
     byte \<leftarrow> rd w (w0 + b);
     let k0 = 2 * b;
     sc \<leftarrow> map_option hv (rd scales (s0 + k0 div grp));
     x0 \<leftarrow> rd x k0;
     x1 \<leftarrow> rd x (k0 + 1);
     let acc = acc + of_num M (s4 (uint (byte AND 0xF))) * sc * ld x0;
     Some (acc + of_num M (s4 (uint (drop_bit 4 byte AND 0xF))) * sc * ld x1) }"

definition qgemv_lane :: "('f::{plus,times,zero}, 'z) gmath_scheme \<Rightarrow> (16 word \<Rightarrow> 'f) \<Rightarrow> ('t \<Rightarrow> 'f) \<Rightarrow> 8 word list \<Rightarrow> 16 word list \<Rightarrow> 't list \<Rightarrow> nat \<Rightarrow> nat \<Rightarrow> nat \<Rightarrow> nat \<Rightarrow> 'f option" where
  "qgemv_lane M hv ld w scales x K grp n lane = do {
     let bytes_per_row = K div 2;
     let groups_per_row = K div grp;
     let nchunks = bytes_per_row div 16;
     let tail_b0 = nchunks * 16;
     acc \<leftarrow> foldM (qgemv_chunk M hv ld w (n * bytes_per_row) scales (n * groups_per_row) x grp) (strided lane kSG_q nchunks) 0;
     foldM (qgemv_tail M hv ld w (n * bytes_per_row) scales (n * groups_per_row) x grp) (strided (tail_b0 + lane) kSG_q bytes_per_row) acc }"

definition qgemv :: "('f::{plus,times,zero}, 'z) gmath_scheme \<Rightarrow> (16 word \<Rightarrow> 'f) \<Rightarrow> ('t \<Rightarrow> 'f) \<Rightarrow> ('f \<Rightarrow> 't) \<Rightarrow> 8 word list \<Rightarrow> 16 word list \<Rightarrow> 't list \<Rightarrow> nat \<Rightarrow> nat \<Rightarrow> nat \<Rightarrow> nat list \<Rightarrow> 't list \<Rightarrow> 't list option" where
  "qgemv M hv ld st w scales x N K grp sched y =
     row_groups N 0 (\<lambda>n. sg_row M (qgemv_lane M hv ld w scales x K grp n) st) sched y"

definition qgemv_int4_sycl :: "f32 gmath \<Rightarrow> DType \<Rightarrow> 8 word list \<Rightarrow> 16 word list \<Rightarrow> 32 word list \<Rightarrow> nat \<Rightarrow> nat \<Rightarrow> nat \<Rightarrow> nat list \<Rightarrow> 32 word list \<Rightarrow> 32 word list option" where
  "qgemv_int4_sycl M dt = qgemv M f16_bits_to_f32 (elem_ld dt) (elem_st dt)"

section \<open>MXFP4\<close>

definition kE2M1 :: "('f::inverse, 'z) gmath_scheme \<Rightarrow> 'f list" where
  "kE2M1 M = map (\<lambda>n. of_num M n / of_num M 2) [0, 1, 2, 3, 4, 6, 8, 12]"

definition mxfp4_word :: "('f::{plus,times,zero,uminus,inverse}, 'z) gmath_scheme \<Rightarrow> ('t \<Rightarrow> 'f) \<Rightarrow> 8 word list \<Rightarrow> nat \<Rightarrow> 't list \<Rightarrow> nat \<Rightarrow> 'f option" where
  "mxfp4_word M ld w wi x xi = do {
     word \<leftarrow> rd32 w wi;
     foldM (\<lambda>nib a. do {
       let n4 = drop_bit (nib * 4) word AND 0xF;
       mag \<leftarrow> rd (kE2M1 M) (unat (n4 AND 7));
       let val = (if n4 AND 8 \<noteq> 0 then - mag else mag);
       xv \<leftarrow> rd x (xi + nib);
       Some (a + val * ld xv) }) [0..<8] 0 }"

definition mxfp4_lane :: "('f::{plus,minus,times,zero,uminus,inverse}, 'z) gmath_scheme \<Rightarrow> ('f \<Rightarrow> 'f) \<Rightarrow> ('t \<Rightarrow> 'f) \<Rightarrow> 8 word list \<Rightarrow> 8 word list \<Rightarrow> 't list \<Rightarrow> nat \<Rightarrow> nat \<Rightarrow> nat \<Rightarrow> 'f option" where
  "mxfp4_lane M exp2 ld w bscale x K n lane = foldM (\<lambda>c acc. do {
     sb \<leftarrow> rd bscale (n * (K div 32) + c);
     let scale = exp2 (of_num M (uint sb) - of_num M 127);
     aw \<leftarrow> those (map (\<lambda>wi. mxfp4_word M ld w (n * (K div 2) + c * 16 + wi * 4) x (c * 32 + wi * 8)) [0..<4]);
     Some (acc + ((aw ! 0 + aw ! 1) + (aw ! 2 + aw ! 3)) * scale) }) (strided lane kSG_q (K div 32)) 0"

definition mxfp4_gemv :: "('f::{plus,minus,times,zero,uminus,inverse}, 'z) gmath_scheme \<Rightarrow> ('f \<Rightarrow> 'f) \<Rightarrow> ('t \<Rightarrow> 'f) \<Rightarrow> ('f \<Rightarrow> 't) \<Rightarrow> 8 word list \<Rightarrow> 8 word list \<Rightarrow> 't list \<Rightarrow> nat \<Rightarrow> nat \<Rightarrow> nat list \<Rightarrow> 't list \<Rightarrow> 't list option" where
  "mxfp4_gemv M exp2 ld st w bscale x N K sched y = row_groups N 0 (\<lambda>n. sg_row M (mxfp4_lane M exp2 ld w bscale x K n) st) sched y"

definition mxfp4_gemv_sycl :: "f32 gmath \<Rightarrow> (f32 \<Rightarrow> f32) \<Rightarrow> DType \<Rightarrow> 8 word list \<Rightarrow> 8 word list \<Rightarrow> 32 word list \<Rightarrow> nat \<Rightarrow> nat \<Rightarrow> nat list \<Rightarrow> 32 word list \<Rightarrow> 32 word list option" where
  "mxfp4_gemv_sycl M exp2 dt = mxfp4_gemv M exp2 (elem_ld dt) (elem_st dt)"

section \<open>FP8 weights, wide activations\<close>

definition decode_fp8 :: "(16 word \<Rightarrow> 'f) \<Rightarrow> int \<Rightarrow> 8 word \<Rightarrow> 'f" where
  "decode_fp8 hv kind b = (if kind = 1 then hv (push_bit 8 (ucast b)) else decode_e4m3_raw hv b)"

definition fp8_lane :: "(16 word \<Rightarrow> 'f::{plus,times,zero}) \<Rightarrow> int \<Rightarrow> ('t \<Rightarrow> 'f) \<Rightarrow> 8 word list \<Rightarrow> 't list \<Rightarrow> nat \<Rightarrow> nat \<Rightarrow> nat \<Rightarrow> nat \<Rightarrow> 'f option" where
  "fp8_lane hv kind ld w x K m n lane = foldM (\<lambda>chunk partial. do {
     partial \<leftarrow> foldM (\<lambda>i partial. do {
       b \<leftarrow> rd w (n * K + chunk * 16 + i); xv \<leftarrow> rd x (m * K + chunk * 16 + i); Some (partial + decode_fp8 hv kind b * ld xv) }) [0..<8] partial;
     foldM (\<lambda>i partial. do {
       b \<leftarrow> rd w (n * K + chunk * 16 + (i + 8)); xv \<leftarrow> rd x (m * K + chunk * 16 + 8 + i); Some (partial + decode_fp8 hv kind b * ld xv) }) [0..<8] partial })
     (strided lane kSG_q (K div 16)) 0"

text \<open>One sub-group of the two-dimensional grid: row \<open>r\<close> of it is padded to whole work-groups, \<open>P\<close> sub-groups wide.\<close>

definition fp8_item :: "('f::{plus,times,zero}, 'z) gmath_scheme \<Rightarrow> (16 word \<Rightarrow> 'f) \<Rightarrow> int \<Rightarrow> ('t \<Rightarrow> 'f) \<Rightarrow> ('f \<Rightarrow> 't) \<Rightarrow> 8 word list \<Rightarrow> 'f list \<Rightarrow> bool \<Rightarrow> 't list \<Rightarrow> nat \<Rightarrow> nat \<Rightarrow> nat \<Rightarrow> nat \<Rightarrow> 't list \<Rightarrow> 't list option" where
  "fp8_item M hv kind ld st w weight_scale per_channel x N K P g out =
     (let m = g div P; n = g mod P; compensation = of_num M (if kind = 0 then 256 else 1)
      in if n \<ge> N then Some out else do {
        s \<leftarrow> rd weight_scale (if per_channel then n else 0);
        v \<leftarrow> sg_row M (fp8_lane hv kind ld w x K m n) (\<lambda>sum. st (sum * (s * compensation)));
        wr out (m * N + n) v })"

definition fp8_w8a16 :: "('f::{plus,times,zero}, 'z) gmath_scheme \<Rightarrow> (16 word \<Rightarrow> 'f) \<Rightarrow> int \<Rightarrow> ('t \<Rightarrow> 'f) \<Rightarrow> ('f \<Rightarrow> 't) \<Rightarrow> 8 word list \<Rightarrow> 'f list \<Rightarrow> bool \<Rightarrow> 't list \<Rightarrow> nat \<Rightarrow> nat \<Rightarrow> nat list \<Rightarrow> 't list \<Rightarrow> 't list option" where
  "fp8_w8a16 M hv kind ld st w weight_scale per_channel x N K sched out =
     foldM (fp8_item M hv kind ld st w weight_scale per_channel x N K (cdiv N 8 * 8)) sched out"

definition fp8_gemm_w8a16_sycl :: "f32 gmath \<Rightarrow> int \<Rightarrow> DType \<Rightarrow> 8 word list \<Rightarrow> f32 list \<Rightarrow> bool \<Rightarrow> 32 word list \<Rightarrow> nat \<Rightarrow> nat \<Rightarrow> nat list \<Rightarrow> 32 word list \<Rightarrow> 32 word list option" where
  "fp8_gemm_w8a16_sycl M kind dt = fp8_w8a16 M f16_bits_to_f32 (if kind = 1 then 1 else 0) (elem_ld dt) (elem_st dt)"

section \<open>FP8 weights and activations, one row\<close>

definition kCols :: nat where "kCols = 8"
definition kSlabs :: nat where "kSlabs = 32"

definition fp8_dec_raw :: "(16 word \<Rightarrow> 'f) \<Rightarrow> int \<Rightarrow> 8 word \<Rightarrow> 'f" where
  "fp8_dec_raw hv kind b = (let b = ucast b :: 32 word in
     if kind = 1 then hv (ucast (push_bit 8 b)) else hv (ucast (push_bit 8 (b AND 0x80) OR push_bit 7 (b AND 0x7F))))"

definition fp8_dec2 :: "(16 word \<Rightarrow> 'f) \<Rightarrow> int \<Rightarrow> 32 word \<Rightarrow> 'f \<times> 'f" where
  "fp8_dec2 hv kind two =
     (let h2 = (if kind = 1 then push_bit 8 (two AND 0x00FF00FF) else push_bit 8 (two AND 0x00800080) OR push_bit 7 (two AND 0x007F007F))
      in (hv (ucast h2), hv (ucast (drop_bit 16 h2))))"

text \<open>Whole groups of columns: four rows at a time through the pair decoder, then the remaining rows one by one.\<close>

definition slab_quad :: "(16 word \<Rightarrow> 'f::{plus,times,zero}) \<Rightarrow> int \<Rightarrow> 8 word list \<Rightarrow> 8 word list \<Rightarrow> nat \<Rightarrow> nat \<Rightarrow> nat \<Rightarrow> 'f list \<Rightarrow> 'f list option" where
  "slab_quad hv kind x B N n0 k a = do {
     xw \<leftarrow> rd32 x k;
     let xe = fp8_dec2 hv kind xw;
     let xo = fp8_dec2 hv kind (drop_bit 8 xw);
     let xf4 = [fst xe, fst xo, snd xe, snd xo];
     foldM (\<lambda>j a. do {
       xf \<leftarrow> rd xf4 j;
       foldM (\<lambda>w a. do {
         bw \<leftarrow> rd32 B ((k + j) * N + n0 + 4 * w);
         let fe = fp8_dec2 hv kind bw;
         let fo = fp8_dec2 hv kind (drop_bit 8 bw);
         foldM (\<lambda>(i, f) a. do { v \<leftarrow> rd a (4 * w + i); wr a (4 * w + i) (v + xf * f) })
           [(0, fst fe), (1, fst fo), (2, snd fe), (3, snd fo)] a }) [0..<2] a }) [0..<4] a }"

definition slab_row :: "(16 word \<Rightarrow> 'f::{plus,times,zero}) \<Rightarrow> int \<Rightarrow> 8 word list \<Rightarrow> 8 word list \<Rightarrow> nat \<Rightarrow> nat \<Rightarrow> nat list \<Rightarrow> nat \<Rightarrow> 'f list \<Rightarrow> 'f list option" where
  "slab_row hv kind x B N n0 cols k a = do {
     xb \<leftarrow> rd x k;
     let xf = fp8_dec_raw hv kind xb;
     foldM (\<lambda>j a. do { b \<leftarrow> rd B (k * N + n0 + j); v \<leftarrow> rd a j; wr a j (v + xf * fp8_dec_raw hv kind b) }) cols a }"

definition fp8_partial_item :: "(16 word \<Rightarrow> 'f::{plus,times,zero}) \<Rightarrow> int \<Rightarrow> 8 word list \<Rightarrow> 8 word list \<Rightarrow> nat \<Rightarrow> nat \<Rightarrow> nat \<Rightarrow> nat \<Rightarrow> nat \<Rightarrow> 'f list \<Rightarrow> 'f list option" where
  "fp8_partial_item hv kind x B N K slab tn_pad i part =
     (let s = i div tn_pad; n0 = i mod tn_pad * kCols in
      if n0 \<ge> N then Some part
      else do {
        let k0 = s * slab;
        let kend = min (k0 + slab) K;
        let cols = takeWhile (\<lambda>j. n0 + j < N) [0..<kCols];
        a \<leftarrow> (if N mod kCols = 0
              then do {
                let quads = (kend - k0) div 4;
                a \<leftarrow> foldM (\<lambda>t. slab_quad hv kind x B N n0 (k0 + 4 * t)) [0..<quads] (replicate kCols 0);
                foldM (slab_row hv kind x B N n0 [0..<kCols]) [k0 + 4 * quads..<kend] a }
              else foldM (slab_row hv kind x B N n0 cols) [k0..<kend] (replicate kCols 0));
        foldM (\<lambda>j part. do { v \<leftarrow> rd a j; wr part (s * N + n0 + j) v }) cols part })"

definition fp8_reduce_item :: "('t \<Rightarrow> 'f::{plus,times,zero}) \<Rightarrow> ('f \<Rightarrow> 'y) \<Rightarrow> 't list \<Rightarrow> nat \<Rightarrow> nat \<Rightarrow> 'f \<Rightarrow> nat \<Rightarrow> 'y list \<Rightarrow> 'y list option" where
  "fp8_reduce_item ld st part N S scale n y = (if n \<ge> N then Some y else do {
     acc \<leftarrow> foldM (\<lambda>s acc. do { p \<leftarrow> rd part (s * N + n); Some (acc + ld p) }) [0..<S] 0;
     wr y n (st (acc * scale)) })"

text \<open>The host chooses the slabs, runs both kernels and frees the scratch, which starts out with arbitrary contents.  A
  slab of no rows divides by zero.\<close>

definition fp8_gemv :: "('f::{plus,times,zero}, 'z) gmath_scheme \<Rightarrow> (16 word \<Rightarrow> 'f) \<Rightarrow> ('f \<Rightarrow> 'y) \<Rightarrow> 8 word list \<Rightarrow> 8 word list \<Rightarrow> nat \<Rightarrow> nat \<Rightarrow> int \<Rightarrow> 'f \<Rightarrow> (nat \<Rightarrow> 'f list) \<Rightarrow>
    (nat \<Rightarrow> nat list) \<Rightarrow> nat list \<Rightarrow> 'y list \<Rightarrow> 'y list option" where
  "fp8_gemv M hv st x B N K kind scale scratch sched1 sched2 y = do {
     let slab = cdiv K kSlabs;
     let slab = cdiv slab 4 * 4;
     S \<leftarrow> (if slab = 0 then None else Some (cdiv K slab));
     let scale = (if kind = 0 then scale * of_num M 65536 else scale);
     let tn_pad = cdiv (cdiv N kCols) 256 * 256;
     part \<leftarrow> foldM (fp8_partial_item hv (if kind = 1 then 1 else 0) x B N K slab tn_pad) (sched1 S) (scratch (S * N));
     foldM (fp8_reduce_item (\<lambda>v. v) st part N S scale) sched2 y }"

definition fp8_gemv_sycl :: "f32 gmath \<Rightarrow> DType \<Rightarrow> 8 word list \<Rightarrow> 8 word list \<Rightarrow> nat \<Rightarrow> nat \<Rightarrow> int \<Rightarrow> f32 \<Rightarrow> (nat \<Rightarrow> f32 list) \<Rightarrow> (nat \<Rightarrow> nat list) \<Rightarrow> nat list \<Rightarrow> 32 word list \<Rightarrow> 32 word list option" where
  "fp8_gemv_sycl M dt = fp8_gemv M f16_bits_to_f32 (elem_st dt)"

section \<open>In exact arithmetic\<close>

lemma sg_row_exact: "(\<And>l. l < kSG_q \<Longrightarrow> lane l = Some (g l)) \<Longrightarrow> sg_row exact_math lane fin = Some (fin (\<Sum>l\<leftarrow>[0..<kSG_q]. g l))"
  unfolding sg_row_def using those_map_Some [of "[0..<kSG_q]" lane g] by simp

lemma kSG_q_pos [simp]: "0 < kSG_q"
  by (simp add: kSG_q_def)

lemma lane_sum_pure:
  assumes "\<And>c acc. c < n \<Longrightarrow> f c acc = Some (acc + g c :: real)" "l < T"
  shows "foldM f (strided l T n) a = Some (a + (\<Sum>c\<leftarrow>strided l T n. g c))"
proof -
  have "foldM f (strided l T n) a = Some (fold (\<lambda>c acc. acc + g c) (strided l T n) a)"
    by (rule foldM_pure') (use strided_ge assms(1) in blast)
  then show ?thesis by (simp add: fold_add_sum)
qed

lemma sum_octets: "(\<Sum>k<8. f (b + k)) = (\<Sum>k = b..<b + 8. f k)" for f :: "nat \<Rightarrow> real"
  using sum.shift_bounds_nat_ivl [of f 0 b 8] by (simp add: add.commute lessThan_atLeast0)

lemma sum_chunk: "(\<Sum>wi<4. \<Sum>k<8. f (c * 32 + wi * 8 + k)) = (\<Sum>k = c * 32..<c * 32 + 32. f k)" for f :: "nat \<Rightarrow> real"
proof -
  have "(\<Sum>wi<4. \<Sum>k<8. f (c * 32 + wi * 8 + k)) = (\<Sum>wi<4. \<Sum>k = wi * 8..<wi * 8 + 8. f (c * 32 + k))"
    using sum_octets [of "\<lambda>k. f (c * 32 + k)"] by (simp add: add.assoc)
  also have "\<dots> = (\<Sum>k<32. f (c * 32 + k))" using sum.nat_group [of "\<lambda>k. f (c * 32 + k)" 8 4] by simp
  also have "\<dots> = (\<Sum>k = c * 32..<c * 32 + 32. f k)"
    using sum.shift_bounds_nat_ivl [of f 0 "c * 32" 32] by (simp add: add.commute lessThan_atLeast0)
  finally show ?thesis .
qed

lemma bit_15: "bit (15 :: int) k \<longleftrightarrow> k < 4"
proof -
  have "(15 :: int) = mask 4" by (simp add: mask_eq_exp_minus_1)
  then show ?thesis by (simp only: bit_mask_iff) (simp add: bit_simps)
qed

lemma rd32_nibble:
  assumes "rd32 w i = Some word" "p < 8"
  shows "drop_bit (p * 4) word AND 0xF = ucast (nib w (2 * i + p))"
proof -
  have word: "word = ucast (w ! i) OR push_bit 8 (ucast (w ! (i + 1))) OR push_bit 16 (ucast (w ! (i + 2))) OR push_bit 24 (ucast (w ! (i + 3)))"
    using assms(1) by (auto simp: rd32_def rd_def split: bind_splits if_splits)
  have p: "p = 0 \<or> p = 1 \<or> p = 2 \<or> p = 3 \<or> p = 4 \<or> p = 5 \<or> p = 6 \<or> p = 7" using assms(2) by auto
  have top: "\<not> bit (b :: 8 word) n" if "8 \<le> n" for b n using that bit_imp_le_length [of b n] by auto
  show ?thesis
  proof (rule bit_eqI)
    fix k assume "possible_bit TYPE(32 word) k"
    show "bit (drop_bit (p * 4) word AND 0xF) k = bit (ucast (nib w (2 * i + p)) :: 32 word) k"
    proof (cases "k < 4")
      case True
      then have "k = 0 \<or> k = 1 \<or> k = 2 \<or> k = 3" by auto
      then show ?thesis using p by (elim disjE; simp add: word nib_def bit_simps top bit_15)
    next
      case False
      have "\<not> bit (nib w (2 * i + p)) k" using False by (auto simp: nib_def bit_simps bit_15 top)
      then show ?thesis using False by (simp add: bit_simps bit_15)
    qed
  qed
qed

subsection \<open>Int4\<close>

definition w4_val :: "8 word list \<Rightarrow> nat \<Rightarrow> int" where
  "w4_val w j = s4 (uint (nib w j))"

text \<open>The scale the kernel multiplies element \<open>k\<close> of a row with: that of the first element of its wide unit.\<close>

definition w4_scale :: "nat \<Rightarrow> nat \<Rightarrow> nat \<Rightarrow> nat" where
  "w4_scale K grp k = (if k < K div 32 * 32 then if grp mod 32 = 0 then k div 32 * 32 else k div 8 * 8 else k div 2 * 2) div grp"

definition w4_dot :: "8 word list \<Rightarrow> 16 word list \<Rightarrow> (nat \<Rightarrow> nat) \<Rightarrow> (nat \<Rightarrow> real) \<Rightarrow> nat \<Rightarrow> nat \<Rightarrow> nat \<Rightarrow> real" where
  "w4_dot w scales sc x K grp n = (\<Sum>k<K. real_of_int (w4_val w (n * K + k)) * half_val (scales ! (n * (K div grp) + sc k)) * x k)"

lemma w4_scale_group:
  assumes "8 dvd grp"
  shows "w4_scale K grp k = k div grp"
proof -
  have *: "k div d * d div grp = k div grp" if "d dvd grp" "0 < d" for d
  proof -
    from that(1) obtain q where q: "grp = d * q" by blast
    show ?thesis unfolding q using that(2) by (simp add: div_mult2_eq)
  qed
  have "2 dvd grp" by (rule dvd_trans [OF _ assms]) simp
  then show ?thesis using * [of 8] * [of 2] * [of 32] assms by (auto simp: w4_scale_def mod_eq_0_iff_dvd)
qed

lemma uint_ucast_8 [simp]: "uint (ucast (b :: 8 word) :: 32 word) = uint b"
proof -
  have "uint b < 2 ^ 8" using unsigned_less [of b, where 'a = int] by simp
  then have "uint b < 2 ^ 32" by simp
  then show ?thesis by (simp add: unsigned_ucast_eq take_bit_int_eq_self)
qed

lemma qgemv_word_exact:
  assumes "wi + 4 \<le> length w" "xi + 8 \<le> length x"
  shows "qgemv_word exact_math ld w wi x xi s = Some ((\<Sum>k<8. real_of_int (w4_val w (2 * wi + k)) * ld (x ! (xi + k))) * s)"
proof -
  obtain word where word: "rd32 w wi = Some word" using rd32_Some assms(1) by blast
  have "foldM (\<lambda>nib a. do { xv \<leftarrow> rd x (xi + nib);
      Some (a + of_num exact_math (s4 (uint (drop_bit (nib * 4) word AND 0xF))) * ld xv) }) [0..<8] 0 =
      Some (fold (\<lambda>k a. a + real_of_int (w4_val w (2 * wi + k)) * ld (x ! (xi + k))) [0..<8] 0)"
    by (rule foldM_pure') (use assms(2) rd32_nibble [OF word] in \<open>simp add: w4_val_def\<close>)
  then show ?thesis unfolding qgemv_word_def word
    by (simp add: fold_add_sum interv_sum_list_conv_sum_set_nat lessThan_atLeast0)
qed

definition w4_term :: "('t \<Rightarrow> real) \<Rightarrow> 8 word list \<Rightarrow> 16 word list \<Rightarrow> 't list \<Rightarrow> nat \<Rightarrow> nat \<Rightarrow> nat \<Rightarrow> nat \<Rightarrow> real" where
  "w4_term ld w scales x K grp n k = real_of_int (w4_val w (n * K + k)) * half_val (scales ! (n * (K div grp) + w4_scale K grp k)) * ld (x ! k)"

lemma w4_scale_less:
  assumes "grp dvd K" "0 < grp" "k < K"
  shows "n * (K div grp) + w4_scale K grp k < n * (K div grp) + K div grp"
proof -
  have "k div 32 * 32 \<le> k" "k div 8 * 8 \<le> k" "k div 2 * 2 \<le> k" by simp_all
  then have "w4_scale K grp k \<le> k div grp" unfolding w4_scale_def by (intro div_le_mono) simp
  also have "k div grp < K div grp" using assms by (metis dvd_div_mult_self less_mult_imp_div_less)
  finally show ?thesis by simp
qed

lemma qgemv_chunk_exact:
  assumes K: "even K" "grp dvd K" "0 < grp" and n: "n < N" and len: "length w = N * (K div 2)" "length scales = N * (K div grp)" "length x = K" and c: "c < K div 32"
  shows "qgemv_chunk exact_math half_val ld w (n * (K div 2)) scales (n * (K div grp)) x grp c acc =
    Some (acc + (\<Sum>k = c * 32..<c * 32 + 32. w4_term ld w scales x K grp n k))"
proof -
  let ?f = "w4_term ld w scales x K grp n" and ?w0 = "n * (K div 2)" and ?s0 = "n * (K div grp)"
  let ?sv = "\<lambda>wi. half_val (scales ! (?s0 + (if grp mod 32 = 0 then c * 32 else c * 32 + wi * 8) div grp))"
  have r: "?w0 + K div 2 \<le> N * (K div 2)" "?s0 + K div grp \<le> N * (K div grp)" by (rule src_row [OF n])+
  have cK: "c * 32 + 32 \<le> K div 32 * 32" "K div 32 * 32 \<le> K" using c by simp_all
  have w2: "2 * (?w0 + c * 16 + wi * 4) + k = n * K + (c * 32 + wi * 8 + k)" for wi k using K(1) by (auto elim: evenE)
  have sc: "w4_scale K grp (c * 32 + wi * 8 + k) = (if grp mod 32 = 0 then c * 32 else c * 32 + wi * 8) div grp" if "wi < 4" "k < 8" for wi k
  proof -
    have "c * 32 + wi * 8 + k < K div 32 * 32" "(c * 32 + wi * 8 + k) div 32 = c" "(c * 32 + wi * 8 + k) div 8 = c * 4 + wi" using cK that by linarith+
    then show ?thesis by (simp only: w4_scale_def if_True add_mult_distrib mult.assoc) simp
  qed
  have sb: "?s0 + (if grp mod 32 = 0 then c * 32 else c * 32 + wi * 8) div grp < length scales" if "wi < 4" for wi
    using w4_scale_less [OF K(2,3), of "c * 32 + wi * 8" n] sc [OF that, of 0] cK that r(2) len(2) by simp
  have word: "qgemv_word exact_math ld w (?w0 + c * 16 + wi * 4) x (c * 32 + wi * 8) (?sv wi) = Some (\<Sum>k<8. ?f (c * 32 + wi * 8 + k))" if wi: "wi < 4" for wi
  proof -
    have "c * 16 + 16 \<le> K div 2" using c by linarith
    then have "?w0 + c * 16 + wi * 4 + 4 \<le> length w" "c * 32 + wi * 8 + 8 \<le> length x" using wi r(1) len cK by simp_all
    moreover have "(\<Sum>k<8. real_of_int (w4_val w (2 * (?w0 + c * 16 + wi * 4) + k)) * ld (x ! (c * 32 + wi * 8 + k))) * ?sv wi = (\<Sum>k<8. ?f (c * 32 + wi * 8 + k))"
      unfolding sum_distrib_right by (rule sum.cong [OF refl], simp only: lessThan_iff w2 w4_term_def sc [OF wi]) (simp only: mult_ac)
    ultimately show ?thesis by (simp only: qgemv_word_exact)
  qed
  have words: "those (map (\<lambda>wi. qgemv_word exact_math ld w (?w0 + c * 16 + wi * 4) x (c * 32 + wi * 8) (?sv wi)) [0..<4]) =
      Some (map (\<lambda>wi. \<Sum>k<8. ?f (c * 32 + wi * 8 + k)) [0..<4])" by (rule those_map_Some) (simp add: word)
  have l4: "{..<4 :: nat} = {0, 1, 2, 3}" by auto
  have total: "(map g [0..<4] ! 0 + map g [0..<4] ! 1) + (map g [0..<4] ! 2 + map g [0..<4] ! 3) = (\<Sum>wi<4. g wi)" for g :: "nat \<Rightarrow> real"
    by (simp add: upt_4 l4 add.assoc)
  show ?thesis
  proof (cases "grp mod 32 = 0")
    case True
    then have "rd scales (?s0 + c * 32 div grp) = Some (scales ! (?s0 + c * 32 div grp))" using sb [of 0] by simp
    then show ?thesis using words unfolding qgemv_chunk_def Let_def by (simp only: True simp_thms if_True option.map bind.bind_lunit total sum_chunk)
  next
    case False
    then have rs: "rd scales (?s0 + (c * 32 + wi * 8) div grp) = Some (scales ! (?s0 + (c * 32 + wi * 8) div grp))" if "wi < 4" for wi using sb [OF that] by simp
    have "those (map (\<lambda>wi. do { s \<leftarrow> map_option half_val (rd scales (?s0 + (c * 32 + wi * 8) div grp));
        qgemv_word exact_math ld w (?w0 + c * 16 + wi * 4) x (c * 32 + wi * 8) s }) [0..<4]) = Some (map (\<lambda>wi. \<Sum>k<8. ?f (c * 32 + wi * 8 + k)) [0..<4])"
      by (rule those_map_Some) (use rs word False in simp)
    then show ?thesis unfolding qgemv_chunk_def Let_def by (simp only: False simp_thms if_False bind.bind_lunit total sum_chunk)
  qed
qed

lemma qgemv_tail_exact:
  assumes K: "even K" "grp dvd K" "0 < grp" and n: "n < N" and len: "length w = N * (K div 2)" "length scales = N * (K div grp)" "length x = K" and b: "K div 32 * 16 \<le> b" "b < K div 2"
  shows "qgemv_tail exact_math half_val ld w (n * (K div 2)) scales (n * (K div grp)) x grp b acc =
    Some (acc + (w4_term ld w scales x K grp n (2 * b) + w4_term ld w scales x K grp n (2 * b + 1)))"
proof -
  have r: "n * (K div 2) + K div 2 \<le> N * (K div 2)" "n * (K div grp) + K div grp \<le> N * (K div grp)" by (rule src_row [OF n])+
  have k: "2 * b < K" "2 * b + 1 < K" "\<not> 2 * b < K div 32 * 32" "\<not> 2 * b + 1 < K div 32 * 32" using b K(1) by (auto elim!: evenE)
  have sc: "w4_scale K grp (2 * b) = 2 * b div grp" "w4_scale K grp (2 * b + 1) = 2 * b div grp" using k(3,4) by (simp_all add: w4_scale_def mult.commute)
  have "n * (K div grp) + 2 * b div grp < length scales" using w4_scale_less [OF K(2,3) k(1), of n] sc(1) r(2) len(2) by simp
  moreover have "n * (K div 2) + b < length w" using b(2) r(1) len(1) by simp
  ultimately have rds: "rd scales (n * (K div grp) + 2 * b div grp) = Some (scales ! (n * (K div grp) + 2 * b div grp))" "rd w (n * (K div 2) + b) = Some (w ! (n * (K div 2) + b))"
    "rd x (2 * b) = Some (x ! (2 * b))" "rd x (2 * b + 1) = Some (x ! (2 * b + 1))" using k(1,2) len(3) by simp_all
  have nibs: "nib w (n * K + 2 * b) = w ! (n * (K div 2) + b) AND 0xF" "nib w (n * K + (2 * b + 1)) = drop_bit 4 (w ! (n * (K div 2) + b))"
    using K(1) by (auto simp: nib_def elim!: evenE)
  have hi: "drop_bit 4 v AND 0xF = drop_bit 4 v" for v :: "8 word"
  proof (rule bit_eqI)
    fix m show "bit (drop_bit 4 v AND 0xF) m = bit (drop_bit 4 v) m" using bit_imp_le_length [of v "4 + m"] by (auto simp: bit_simps bit_15)
  qed
  show ?thesis by (simp only: qgemv_tail_def Let_def rds option.map bind.bind_lunit w4_term_def w4_val_def sc nibs hi exact_math_simps add.assoc)
qed

lemma sum_pairs: "(\<Sum>b = lo..<hi. f (2 * b) + f (2 * b + 1)) = (\<Sum>k = 2 * lo..<2 * hi. f k)" if "lo \<le> hi" for f :: "nat \<Rightarrow> real"
  using that
proof (induction hi rule: dec_induct)
  case (step hi)
  have "2 * Suc hi = Suc (Suc (2 * hi))" by simp
  then show ?case using step by (simp add: add.assoc)
qed simp

lemma lane_tail_sum:
  assumes "0 < T" "a \<le> n"
  shows "(\<Sum>l\<leftarrow>[0..<T]. \<Sum>b\<leftarrow>strided (a + l) T n. f b) = (\<Sum>b = a..<n. (f b :: real))"
proof -
  have "strided (a + l) T n = map ((+) a) (strided l T (n - a))" for l using strided_add [OF assms(1), of a l "n - a"] assms(2) by simp
  then have "(\<Sum>l\<leftarrow>[0..<T]. \<Sum>b\<leftarrow>strided (a + l) T n. f b) = (\<Sum>b<n - a. f (a + b))"
    using lane_chunks_sum [OF assms(1), of "\<lambda>b. f (a + b)" "n - a"] by (simp add: comp_def)
  also have "\<dots> = (\<Sum>b = a..<n. f b)" using sum.shift_bounds_nat_ivl [of f 0 a "n - a"] assms(2) by (simp add: add.commute lessThan_atLeast0)
  finally show ?thesis .
qed

lemma qgemv_row_exact:
  assumes K: "even K" "grp dvd K" "0 < grp" and n: "n < N" and len: "length w = N * (K div 2)" "length scales = N * (K div grp)" "length x = K"
  shows "sg_row exact_math (qgemv_lane exact_math half_val ld w scales x K grp n) st = Some (st (\<Sum>k<K. w4_term ld w scales x K grp n k))"
proof -
  let ?f = "w4_term ld w scales x K grp n"
  let ?g = "\<lambda>l. (\<Sum>c\<leftarrow>strided l kSG_q (K div 32). \<Sum>k = c * 32..<c * 32 + 32. ?f k) + (\<Sum>b\<leftarrow>strided (K div 32 * 16 + l) kSG_q (K div 2). ?f (2 * b) + ?f (2 * b + 1))"
  have nch: "K div 2 div 16 = K div 32" by (simp add: div_mult2_eq [symmetric])
  have lane: "qgemv_lane exact_math half_val ld w scales x K grp n l = Some (?g l)" if "l < kSG_q" for l
  proof -
    have "foldM (qgemv_chunk exact_math half_val ld w (n * (K div 2)) scales (n * (K div grp)) x grp) (strided l kSG_q (K div 32)) 0 =
        Some (0 + (\<Sum>c\<leftarrow>strided l kSG_q (K div 32). \<Sum>k = c * 32..<c * 32 + 32. ?f k))"
      by (rule lane_sum_pure [OF qgemv_chunk_exact [OF K n len] that])
    moreover have "foldM (qgemv_tail exact_math half_val ld w (n * (K div 2)) scales (n * (K div grp)) x grp) (strided (K div 32 * 16 + l) kSG_q (K div 2)) a =
        Some (fold (\<lambda>b acc. acc + (?f (2 * b) + ?f (2 * b + 1))) (strided (K div 32 * 16 + l) kSG_q (K div 2)) a)" for a
    proof (rule foldM_pure')
      fix b acc assume "b \<in> set (strided (K div 32 * 16 + l) kSG_q (K div 2))"
      then have "K div 32 * 16 \<le> b" "b < K div 2" using strided_ge by fastforce+
      then show "qgemv_tail exact_math half_val ld w (n * (K div 2)) scales (n * (K div grp)) x grp b acc = Some (acc + (?f (2 * b) + ?f (2 * b + 1)))"
        by (rule qgemv_tail_exact [OF K n len])
    qed
    ultimately show ?thesis by (simp add: qgemv_lane_def nch fold_add_sum Let_def)
  qed
  have le: "K div 32 * 16 \<le> K div 2" by simp
  have "(\<Sum>l\<leftarrow>[0..<kSG_q]. ?g l) = (\<Sum>c<K div 32. \<Sum>k = c * 32..<c * 32 + 32. ?f k) + (\<Sum>b = K div 32 * 16..<K div 2. ?f (2 * b) + ?f (2 * b + 1))"
    unfolding sum_list_addf [of "\<lambda>l. \<Sum>c\<leftarrow>strided l kSG_q (K div 32). \<Sum>k = c * 32..<c * 32 + 32. ?f k"] using lane_chunks_sum [OF kSG_q_pos, of "\<lambda>c. \<Sum>k = c * 32..<c * 32 + 32. ?f k" "K div 32"]
      lane_tail_sum [OF kSG_q_pos le, of "\<lambda>b. ?f (2 * b) + ?f (2 * b + 1)"] by (simp only:)
  also have "\<dots> = (\<Sum>k<K div 32 * 32. ?f k) + (\<Sum>k = K div 32 * 32..<K. ?f k)"
    unfolding sum.nat_group sum_pairs [OF le] using K(1) by (auto simp: mult.commute elim!: evenE)
  also have "\<dots> = (\<Sum>k<K. ?f k)" unfolding lessThan_atLeast0 by (rule sum.atLeastLessThan_concat) simp_all
  finally have total: "(\<Sum>l\<leftarrow>[0..<kSG_q]. ?g l) = (\<Sum>k<K. ?f k)" .
  have "sg_row exact_math (qgemv_lane exact_math half_val ld w scales x K grp n) st = Some (st (\<Sum>l\<leftarrow>[0..<kSG_q]. ?g l))"
    by (rule sg_row_exact) (rule lane)
  then show ?thesis unfolding total .
qed

text \<open>The int4 product with the symmetric group-wise format: over the reals each output is the dot product of the activations
  with the sign-extended nibbles times a scale, in any order of the sub-groups; the scale of an element is that of the
  first element of the 32-wide chunk, 8-wide word or byte it is decoded with, which is its own group's whenever the group
  size is a multiple of eight.\<close>

theorem qgemv_int4_exact:
  assumes "even K" "grp dvd K" "0 < grp" and "length w = N * (K div 2)" "length scales = N * (K div grp)" "length x = K" "length y = N"
    and "schedule R sched" "N \<le> R"
  shows "qgemv exact_math half_val ld st w scales x N K grp sched y = Some (map (\<lambda>n. st (w4_dot w scales (w4_scale K grp) (\<lambda>k. ld (x ! k)) K grp n)) [0..<N]) \<and>
    (8 dvd grp \<longrightarrow> w4_scale K grp = (\<lambda>k. k div grp))"
proof -
  have "qgemv exact_math half_val ld st w scales x N K grp sched y = Some (map (\<lambda>n. st (\<Sum>k<K. w4_term ld w scales x K grp n k)) [0..<N])"
    unfolding qgemv_def by (rule row_groups_map [OF assms(8,9,7)]) (rule qgemv_row_exact [OF assms(1-3) _ assms(4-6)])
  then show ?thesis using w4_scale_group [of grp K] by (auto simp: w4_dot_def w4_term_def)
qed

lemma half_12: "half_val 0x3C00 = 1" "half_val 0x4000 = 2"
  by (simp_all add: half_val_def f16_mag_def nval_def)

subsection \<open>MXFP4\<close>

definition mx_el :: "8 word list \<Rightarrow> 8 word list \<Rightarrow> nat \<Rightarrow> nat \<Rightarrow> nat \<Rightarrow> real" where
  "mx_el w bscale K n k = e2m1_val (nib w (n * K + k)) * 2 powr (real_of_int (uint (bscale ! (n * (K div 32) + k div 32))) - 127)"

lemma kE2M1_exact:
  assumes "unat n < 16"
  shows "rd (kE2M1 exact_math) (unat (ucast (n :: 8 word) AND 7 :: 32 word)) = Some \<bar>e2m1_val n\<bar>"
    "(if (ucast n :: 32 word) AND 8 \<noteq> 0 then - \<bar>e2m1_val n\<bar> else \<bar>e2m1_val n\<bar>) = e2m1_val n"
  using word_16_cases [OF assms] by (elim disjE; simp add: kE2M1_def e2m1_val_def nval_def)+

lemma mxfp4_word_exact:
  assumes "wi + 4 \<le> length w" "xi + 8 \<le> length x"
  shows "mxfp4_word exact_math ld w wi x xi = Some (\<Sum>k<8. e2m1_val (nib w (2 * wi + k)) * ld (x ! (xi + k)))"
proof -
  obtain word where word: "rd32 w wi = Some word" using rd32_Some assms(1) by blast
  have "foldM (\<lambda>nib a. do {
      let n4 = drop_bit (nib * 4) word AND 0xF;
      mag \<leftarrow> rd (kE2M1 exact_math) (unat (n4 AND 7));
      let val = (if n4 AND 8 \<noteq> 0 then - mag else mag);
      xv \<leftarrow> rd x (xi + nib);
      Some (a + val * ld xv) }) [0..<8] 0 = Some (fold (\<lambda>k a. a + e2m1_val (nib w (2 * wi + k)) * ld (x ! (xi + k))) [0..<8] 0)"
  proof (rule foldM_pure')
    fix k and a :: real assume "k \<in> set [0..<8 :: nat]"
    then have k: "k < 8" "rd x (xi + k) = Some (x ! (xi + k))" using assms(2) by simp_all
    show "(do {
      let n4 = drop_bit (k * 4) word AND 0xF;
      mag \<leftarrow> rd (kE2M1 exact_math) (unat (n4 AND 7));
      let val = (if n4 AND 8 \<noteq> 0 then - mag else mag);
      xv \<leftarrow> rd x (xi + k);
      Some (a + val * ld xv) }) = Some (a + e2m1_val (nib w (2 * wi + k)) * ld (x ! (xi + k)))"
      unfolding rd32_nibble [OF word k(1)] Let_def kE2M1_exact [OF nib_less] bind.bind_lunit k(2) by (rule refl)
  qed
  then show ?thesis unfolding mxfp4_word_def word
    by (simp add: fold_add_sum interv_sum_list_conv_sum_set_nat lessThan_atLeast0)
qed

lemma mxfp4_row_exact:
  assumes K: "32 dvd K" and n: "n < N" and len: "length w = N * (K div 2)" "length bscale = N * (K div 32)" "length x = K"
  shows "sg_row exact_math (mxfp4_lane exact_math (\<lambda>e. 2 powr e) ld w bscale x K n) st = Some (st (\<Sum>k<K. mx_el w bscale K n k * ld (x ! k)))"
proof -
  note k = k32 [OF K]
  let ?f = "\<lambda>k. mx_el w bscale K n k * ld (x ! k)"
  have r: "n * (K div 2) + K div 2 \<le> N * (K div 2)" "n * (K div 32) + K div 32 \<le> N * (K div 32)" by (rule src_row [OF n])+
  have "even K" using K by (rule dvd_trans [rotated]) simp
  then have w2: "2 * (n * (K div 2) + c * 16 + wi * 4) + i = n * K + (c * 32 + wi * 8 + i)" for c wi i by (auto elim: evenE)
  have lane: "mxfp4_lane exact_math (\<lambda>e. 2 powr e) ld w bscale x K n l = Some (0 + (\<Sum>c\<leftarrow>strided l kSG_q (K div 32). \<Sum>k = c * 32..<c * 32 + 32. ?f k))"
    if "l < kSG_q" for l
    unfolding mxfp4_lane_def
  proof (rule lane_sum_pure [OF _ that])
    fix c and acc :: real assume c: "c < K div 32"
    let ?sc = "2 powr (real_of_int (uint (bscale ! (n * (K div 32) + c))) - 127)"
    have cK: "c * 32 + 32 \<le> K" "c * 16 + 16 \<le> K div 2" using c k by linarith+
    have "those (map (\<lambda>wi. mxfp4_word exact_math ld w (n * (K div 2) + c * 16 + wi * 4) x (c * 32 + wi * 8)) [0..<4]) =
        Some (map (\<lambda>wi. \<Sum>i<8. e2m1_val (nib w (n * K + (c * 32 + wi * 8 + i))) * ld (x ! (c * 32 + wi * 8 + i))) [0..<4])"
    proof (rule those_map_Some)
      fix wi assume "wi \<in> set [0..<4 :: nat]"
      then have "n * (K div 2) + c * 16 + wi * 4 + 4 \<le> length w" "c * 32 + wi * 8 + 8 \<le> length x" using cK r(1) len by simp_all
      then show "mxfp4_word exact_math ld w (n * (K div 2) + c * 16 + wi * 4) x (c * 32 + wi * 8) =
          Some (\<Sum>i<8. e2m1_val (nib w (n * K + (c * 32 + wi * 8 + i))) * ld (x ! (c * 32 + wi * 8 + i)))"
        unfolding w2 [symmetric] by (rule mxfp4_word_exact)
    qed
    moreover have "rd bscale (n * (K div 32) + c) = Some (bscale ! (n * (K div 32) + c))" using c r(2) len(2) by simp
    moreover have "(\<Sum>k = c * 32..<c * 32 + 32. ?f k) = (\<Sum>k = c * 32..<c * 32 + 32. e2m1_val (nib w (n * K + k)) * ld (x ! k)) * ?sc"
      unfolding sum_distrib_right
    proof (rule sum.cong [OF refl])
      fix k assume "k \<in> {c * 32..<c * 32 + 32}"
      then have "k div 32 = c" by auto
      then show "?f k = e2m1_val (nib w (n * K + k)) * ld (x ! k) * ?sc" by (simp add: mx_el_def)
    qed
    moreover have "{..<4 :: nat} = {0, 1, 2, 3}" by auto
    then have "(map g [0..<4] ! 0 + map g [0..<4] ! 1) + (map g [0..<4] ! 2 + map g [0..<4] ! 3) = (\<Sum>wi<4. g wi)" for g :: "nat \<Rightarrow> real"
      by (simp add: upt_4 add.assoc)
    ultimately show "(do {
     sb \<leftarrow> rd bscale (n * (K div 32) + c);
     let scale = 2 powr (of_num exact_math (uint sb) - of_num exact_math 127);
     aw \<leftarrow> those (map (\<lambda>wi. mxfp4_word exact_math ld w (n * (K div 2) + c * 16 + wi * 4) x (c * 32 + wi * 8)) [0..<4]);
     Some (acc + ((aw ! 0 + aw ! 1) + (aw ! 2 + aw ! 3)) * scale) }) = Some (acc + (\<Sum>k = c * 32..<c * 32 + 32. ?f k))"
      using sum_chunk [of "\<lambda>k. e2m1_val (nib w (n * K + k)) * ld (x ! k)" c]
      by (simp only: bind.bind_lunit Let_def exact_math_simps) simp
  qed
  have "(\<Sum>l\<leftarrow>[0..<kSG_q]. 0 + (\<Sum>c\<leftarrow>strided l kSG_q (K div 32). \<Sum>k = c * 32..<c * 32 + 32. ?f k)) = (\<Sum>k<K. ?f k)"
    using lane_chunks_sum [OF kSG_q_pos, of "\<lambda>c. \<Sum>k = c * 32..<c * 32 + 32. ?f k" "K div 32"]
    by (simp only: add_0 sum.nat_group k(1))
  moreover have "sg_row exact_math (mxfp4_lane exact_math (\<lambda>e. 2 powr e) ld w bscale x K n) st =
      Some (st (\<Sum>l\<leftarrow>[0..<kSG_q]. 0 + (\<Sum>c\<leftarrow>strided l kSG_q (K div 32). \<Sum>k = c * 32..<c * 32 + 32. ?f k)))"
    by (rule sg_row_exact) (rule lane)
  ultimately show ?thesis by (simp only:)
qed

lemma mxfp4_gemv_exact:
  assumes "32 dvd K" "length w = N * (K div 2)" "length bscale = N * (K div 32)" "length x = K" "length y = N" and "schedule R sched" "N \<le> R"
  shows "mxfp4_gemv exact_math (\<lambda>e. 2 powr e) ld st w bscale x N K sched y = Some (map (\<lambda>n. st (\<Sum>k<K. mx_el w bscale K n k * ld (x ! k))) [0..<N])"
  unfolding mxfp4_gemv_def by (rule row_groups_map [OF assms(6,7,5)]) (rule mxfp4_row_exact [OF assms(1) _ assms(2-4)])

subsection \<open>FP8 weights\<close>

definition e5m2_val :: "8 word \<Rightarrow> real" where
  "e5m2_val b = half_val (push_bit 8 (ucast b))"

definition fp8_val :: "int \<Rightarrow> 8 word \<Rightarrow> real" where
  "fp8_val kind b = (if kind = 1 then e5m2_val b else e4m3_val b)"

lemma decode_fp8_exact: "decode_fp8 half_val kind b = fp8_val kind b / (if kind = 1 then 1 else 2 ^ 8)"
  by (simp add: decode_fp8_def fp8_val_def e5m2_val_def e4m3_decode_raw)

lemma fp8_lane_exact:
  assumes w: "n * K + K div 16 * 16 \<le> length w" and x: "m * K + K div 16 * 16 \<le> length x" and l: "l < kSG_q"
  shows "fp8_lane half_val kind ld w x K m n l =
    Some (0 + (\<Sum>c\<leftarrow>strided l kSG_q (K div 16). \<Sum>k = c * 16..<c * 16 + 16. decode_fp8 half_val kind (w ! (n * K + k)) * ld (x ! (m * K + k))))"
  unfolding fp8_lane_def
proof (rule lane_sum_pure [OF _ l])
  fix c and acc :: real assume c: "c < K div 16"
  let ?f = "\<lambda>k. decode_fp8 half_val kind (w ! (n * K + k)) * ld (x ! (m * K + k))"
  have b: "n * K + c * 16 + 16 \<le> length w" "m * K + c * 16 + 16 \<le> length x" using c w x by linarith+
  have h1: "foldM (\<lambda>i partial. do {
       b \<leftarrow> rd w (n * K + c * 16 + i); xv \<leftarrow> rd x (m * K + c * 16 + i); Some (partial + decode_fp8 half_val kind b * ld xv) }) [0..<8] acc =
      Some (fold (\<lambda>i a. a + ?f (c * 16 + i)) [0..<8] acc)" for acc
    by (rule foldM_pure') (use b in \<open>simp add: add.assoc\<close>)
  have h2: "foldM (\<lambda>i partial. do {
       b \<leftarrow> rd w (n * K + c * 16 + (i + 8)); xv \<leftarrow> rd x (m * K + c * 16 + 8 + i); Some (partial + decode_fp8 half_val kind b * ld xv) }) [0..<8] acc =
      Some (fold (\<lambda>i a. a + ?f (c * 16 + 8 + i)) [0..<8] acc)" for acc
  proof (rule foldM_pure')
    fix i and a :: real assume "i \<in> set [0..<8 :: nat]"
    moreover have "n * K + c * 16 + (i + 8) = n * K + (c * 16 + 8 + i)" "m * K + c * 16 + 8 + i = m * K + (c * 16 + 8 + i)" by simp_all
    ultimately show "(do { b \<leftarrow> rd w (n * K + c * 16 + (i + 8)); xv \<leftarrow> rd x (m * K + c * 16 + 8 + i); Some (a + decode_fp8 half_val kind b * ld xv) }) = Some (a + ?f (c * 16 + 8 + i))"
      using b by (simp only:) simp
  qed
  have "(\<Sum>i<8. ?f (c * 16 + i)) + (\<Sum>i<8. ?f (c * 16 + 8 + i)) = (\<Sum>k = c * 16..<c * 16 + 8. ?f k) + (\<Sum>k = c * 16 + 8..<c * 16 + 8 + 8. ?f k)"
    using sum_octets [of ?f "c * 16"] sum_octets [of ?f "c * 16 + 8"] by (simp only:)
  also have "\<dots> = (\<Sum>k = c * 16..<c * 16 + 8 + 8. ?f k)" by (rule sum.atLeastLessThan_concat) simp_all
  also have "c * 16 + 8 + 8 = c * 16 + 16" by simp
  finally have "(\<Sum>i<8. ?f (c * 16 + i)) + (\<Sum>i<8. ?f (c * 16 + 8 + i)) = (\<Sum>k = c * 16..<c * 16 + 16. ?f k)" .
  then show "(do {
     partial \<leftarrow> foldM (\<lambda>i partial. do {
       b \<leftarrow> rd w (n * K + c * 16 + i); xv \<leftarrow> rd x (m * K + c * 16 + i); Some (partial + decode_fp8 half_val kind b * ld xv) }) [0..<8] acc;
     foldM (\<lambda>i partial. do {
       b \<leftarrow> rd w (n * K + c * 16 + (i + 8)); xv \<leftarrow> rd x (m * K + c * 16 + 8 + i); Some (partial + decode_fp8 half_val kind b * ld xv) }) [0..<8] partial }) =
     Some (acc + (\<Sum>k = c * 16..<c * 16 + 16. ?f k))"
    unfolding h1 h2 bind.bind_lunit fold_add_sum [OF refl] interv_sum_list_conv_sum_set_nat set_upt atLeast0LessThan by (simp only: add.assoc)
qed

lemma fp8_row_exact:
  assumes K: "16 dvd K" and b: "n * K + K \<le> length w" "m * K + K \<le> length x"
  shows "sg_row exact_math (fp8_lane half_val kind ld w x K m n) fin = Some (fin (\<Sum>k<K. decode_fp8 half_val kind (w ! (n * K + k)) * ld (x ! (m * K + k))))"
proof -
  let ?f = "\<lambda>k. decode_fp8 half_val kind (w ! (n * K + k)) * ld (x ! (m * K + k))"
  have K16: "K div 16 * 16 = K" using K by simp
  have "sg_row exact_math (fp8_lane half_val kind ld w x K m n) fin = Some (fin (\<Sum>l\<leftarrow>[0..<kSG_q]. 0 + (\<Sum>c\<leftarrow>strided l kSG_q (K div 16). \<Sum>k = c * 16..<c * 16 + 16. ?f k)))"
    by (rule sg_row_exact, rule fp8_lane_exact) (use b K16 in simp_all)
  moreover have "(\<Sum>l\<leftarrow>[0..<kSG_q]. 0 + (\<Sum>c\<leftarrow>strided l kSG_q (K div 16). \<Sum>k = c * 16..<c * 16 + 16. ?f k)) = (\<Sum>k<K. ?f k)"
    using lane_chunks_sum [OF kSG_q_pos, of "\<lambda>c. \<Sum>k = c * 16..<c * 16 + 16. ?f k" "K div 16"]
    by (simp only: add_0 sum.nat_group K16)
  ultimately show ?thesis by (simp only:)
qed

text \<open>A grid of \<open>rows\<close> by \<open>P\<close> items of which the first \<open>N\<close> of each row store a value.\<close>

lemma padded_launch:
  assumes sched: "schedule (rows * P) sched" and P: "N \<le> P" and len: "length out = rows * N"
    and item: "\<And>m n b. m < rows \<Longrightarrow> n < P \<Longrightarrow> length b = rows * N \<Longrightarrow> f (m * P + n) b = Some (if n < N then b[m * N + n := u m n] else b)"
  shows "foldM f sched out = Some (map (\<lambda>a. u (a div N) (a mod N)) [0..<rows * N])"
proof -
  let ?v = "\<lambda>a. u (a div N) (a mod N)"
  let ?cells = "\<lambda>g. if g mod P < N then {g div P * N + g mod P} else {}"
  have "\<exists>b'. foldM f sched out = Some b' \<and> writes (\<Union>g<rows * P. ?cells g) ?v out b'"
  proof (rule launch_writes [OF sched])
    fix g and b :: "'a list" assume g: "g < rows * P" and "length b = length out"
    then have b: "length b = rows * N" using len by simp
    have "0 < P" using g by (cases P) auto
    then have d: "g div P < rows" "g mod P < P" using less_mult_imp_div_less [OF g] by simp_all
    have eq: "f g b = Some (if g mod P < N then b[g div P * N + g mod P := u (g div P) (g mod P)] else b)" using item [OF d b] by simp
    show "\<exists>b'. f g b = Some b' \<and> writes (?cells g) ?v b b'"
    proof (cases "g mod P < N")
      case True
      then have "g div P * N + g mod P < length b" using div_mult_add_lt [OF d(1)] b by simp
      from writes_single [OF this, of ?v] show ?thesis using True by (simp add: eq)
    qed (simp add: eq)
  qed
  moreover have "(\<Union>g<rows * P. ?cells g) = {..<rows * N}"
  proof
    show "{..<rows * N} \<subseteq> (\<Union>g<rows * P. ?cells g)"
    proof
      fix a assume "a \<in> {..<rows * N}"
      then have a: "a < rows * N" by simp
      then have "0 < N" by (cases N) auto
      then have d: "a div N < rows" "a mod N < N" using less_mult_imp_div_less [OF a] by simp_all
      let ?g = "a div N * P + a mod N"
      have "a mod N < P" using d(2) P by simp
      then have "?g < rows * P" "?g div P = a div N" "?g mod P = a mod N" using div_mult_add_lt [OF d(1)] by simp_all
      then show "a \<in> (\<Union>g<rows * P. ?cells g)" using d(2) by (intro UN_I [of ?g]) auto
    qed
    show "(\<Union>g<rows * P. ?cells g) \<subseteq> {..<rows * N}"
      by (auto split: if_splits intro!: div_mult_add_lt less_mult_imp_div_less)
  qed
  ultimately obtain b' where "foldM f sched out = Some b'" "writes {..<rows * N} ?v out b'" by auto
  then show ?thesis using writes_map_upt [of "rows * N" ?v out b'] len by simp
qed

lemma fp8_w8a16_exact:
  assumes K: "16 dvd K" and len: "length w = N * K" "length x = M * K" "length out = M * N" and ws: "length weight_scale = (if per_channel then N else 1)"
    and kind: "kind = 0 \<or> kind = 1" and sched: "schedule (M * (cdiv N 8 * 8)) sched"
  shows "fp8_w8a16 exact_math half_val kind ld st w weight_scale per_channel x N K sched out =
    Some (map (\<lambda>a. st ((\<Sum>k<K. fp8_val kind (w ! (a mod N * K + k)) * ld (x ! (a div N * K + k))) * weight_scale ! (if per_channel then a mod N else 0))) [0..<M * N])"
  unfolding fp8_w8a16_def
proof (rule padded_launch [OF sched cdiv_upper len(3)])
  fix m n and b :: "'a list" assume m: "m < M" and n: "n < cdiv N 8 * 8" and b: "length b = M * N"
  let ?P = "cdiv N 8 * 8" and ?f = "\<lambda>k. decode_fp8 half_val kind (w ! (n * K + k)) * ld (x ! (m * K + k))"
  have d: "(m * ?P + n) div ?P = m" "(m * ?P + n) mod ?P = n" using n by simp_all
  show "fp8_item exact_math half_val kind ld st w weight_scale per_channel x N K ?P (m * ?P + n) b = Some (if n < N
      then b[m * N + n := st ((\<Sum>k<K. fp8_val kind (w ! (n * K + k)) * ld (x ! (m * K + k))) * weight_scale ! (if per_channel then n else 0))] else b)"
  proof (cases "n < N")
    case True
    have r: "n * K + K \<le> length w" "m * K + K \<le> length x" using src_row [OF True, of K] src_row [OF m, of K] len by simp_all
    have lt: "m * N + n < length b" using div_mult_add_lt [OF m True] b by simp
    have rds: "rd weight_scale (if per_channel then n else 0) = Some (weight_scale ! (if per_channel then n else 0))" using ws True by simp
    have total: "(\<Sum>k<K. ?f k) * (s * of_num exact_math (if kind = 0 then 256 else 1)) = (\<Sum>k<K. fp8_val kind (w ! (n * K + k)) * ld (x ! (m * K + k))) * s" for s
    proof -
      have "(\<Sum>k<K. ?f k) * c = (\<Sum>k<K. ?f k * c)" for c by (rule sum_distrib_right)
      then have "(\<Sum>k<K. ?f k) * (if kind = 0 then 256 else 1) = (\<Sum>k<K. fp8_val kind (w ! (n * K + k)) * ld (x ! (m * K + k)))"
        using kind by (auto simp: decode_fp8_exact)
      then show ?thesis by (auto simp: mult.commute mult.left_commute)
    qed
    have wrb: "wr b (m * N + n) v = Some (b[m * N + n := v])" for v using lt by simp
    have "\<not> N \<le> n" using True by simp
    then show ?thesis
      by (simp only: fp8_item_def Let_def d fp8_row_exact [OF K r] rds bind.bind_lunit total wrb True if_True if_False)
  next
    case False
    then have "N \<le> n" by simp
    then show ?thesis by (simp only: fp8_item_def Let_def d if_True False if_False)
  qed
qed simp

subsection \<open>The slabs\<close>

lemma fp8_dec_raw_eq: "fp8_dec_raw hv kind b = decode_fp8 hv kind b"
proof -
  have "(ucast (push_bit 8 (ucast b :: 32 word)) :: 16 word) = push_bit 8 (ucast b)"
    by (rule bit_eqI) (auto simp: bit_simps)
  then show ?thesis by (simp add: fp8_dec_raw_def decode_fp8_def decode_e4m3_raw_def Let_def)
qed

lemma fp8_dec2_halves:
  fixes m :: "32 word"
  shows "fp8_dec2 hv kind m = (decode_fp8 hv kind (ucast m), decode_fp8 hv kind (ucast (drop_bit 16 m)))"
proof -
  have "(ucast (push_bit 8 (m AND 0x00FF00FF)) :: 16 word) = push_bit 8 (ucast (ucast m :: 8 word))"
    "(ucast (drop_bit 16 (push_bit 8 (m AND 0x00FF00FF))) :: 16 word) = push_bit 8 (ucast (ucast (drop_bit 16 m) :: 8 word))"
    by (rule bits_16, drule less_16, elim disjE; simp add: bit_simps)+
  moreover have "(ucast (push_bit 8 (m AND 0x00800080) OR push_bit 7 (m AND 0x007F007F)) :: 16 word) =
      ucast (push_bit 8 ((ucast (ucast m :: 8 word) :: 32 word) AND 0x80) OR push_bit 7 (ucast (ucast m :: 8 word) AND 0x7f))"
    "(ucast (drop_bit 16 (push_bit 8 (m AND 0x00800080) OR push_bit 7 (m AND 0x007F007F))) :: 16 word) =
      ucast (push_bit 8 ((ucast (ucast (drop_bit 16 m) :: 8 word) :: 32 word) AND 0x80) OR push_bit 7 (ucast (ucast (drop_bit 16 m) :: 8 word) AND 0x7f))"
    by (rule bits_16, drule less_16, elim disjE; simp add: bit_simps)+
  ultimately show ?thesis by (simp add: fp8_dec2_def decode_fp8_def decode_e4m3_raw_def Let_def)
qed

lemma rd32_bytes:
  assumes "rd32 B i = Some word"
  shows "ucast word = B ! i" "ucast (drop_bit 8 word) = B ! (i + 1)" "ucast (drop_bit 16 word) = B ! (i + 2)" "ucast (drop_bit 16 (drop_bit 8 word)) = B ! (i + 3)"
proof -
  have word: "word = ucast (B ! i) OR push_bit 8 (ucast (B ! (i + 1))) OR push_bit 16 (ucast (B ! (i + 2))) OR push_bit 24 (ucast (B ! (i + 3)))"
    using assms by (auto simp: rd32_def rd_def split: bind_splits if_splits)
  have top: "\<not> bit (b :: 8 word) n" if "8 \<le> n" for b n using that bit_imp_le_length [of b n] by auto
  show "ucast word = B ! i" "ucast (drop_bit 8 word) = B ! (i + 1)" "ucast (drop_bit 16 word) = B ! (i + 2)" "ucast (drop_bit 16 (drop_bit 8 word)) = B ! (i + 3)"
    unfolding word by (rule bit_word_eqI; simp add: bit_simps top; arith?)+
qed

text \<open>What both paths add to the accumulators of a group of columns for row \<open>k\<close>, of which the first \<open>c\<close> exist.\<close>

definition slab_add :: "(16 word \<Rightarrow> 'f::{plus,times}) \<Rightarrow> int \<Rightarrow> 8 word list \<Rightarrow> 8 word list \<Rightarrow> nat \<Rightarrow> nat \<Rightarrow> nat \<Rightarrow> nat \<Rightarrow> 'f list \<Rightarrow> 'f list" where
  "slab_add hv kind x B N n0 c k a =
     map (\<lambda>i. if i < c then a ! i + decode_fp8 hv kind (x ! k) * decode_fp8 hv kind (B ! (k * N + n0 + i)) else a ! i) [0..<8]"

lemma slab_add_length [simp]: "length (slab_add hv kind x B N n0 c k a) = 8"
  by (simp add: slab_add_def)

lemma slab_row_add:
  assumes a: "length a = 8" and c: "c \<le> 8" and b: "k < length x" "k * N + n0 + c \<le> length B"
  shows "slab_row hv kind x B N n0 [0..<c] k a = Some (slab_add hv kind x B N n0 c k a)"
proof -
  let ?g = "\<lambda>i. a ! i + decode_fp8 hv kind (x ! k) * decode_fp8 hv kind (B ! (k * N + n0 + i))"
  have "\<exists>a'. foldM (\<lambda>j a. do { b \<leftarrow> rd B (k * N + n0 + j); v \<leftarrow> rd a j; wr a j (v + decode_fp8 hv kind (x ! k) * decode_fp8 hv kind b) }) [0..<c] a = Some a' \<and>
      a' = map (\<lambda>i. if i < c then ?g i else a ! i) [0..<8]"
  proof (rule foldM_upt [where P = "\<lambda>r a'. a' = map (\<lambda>i. if i < r then ?g i else a ! i) [0..<8]"])
    show "a = map (\<lambda>i. if i < 0 then ?g i else a ! i) [0..<8]" using a by (simp add: list_eq_iff_nth_eq)
  next
    fix j a' assume j: "j < c" and a': "a' = map (\<lambda>i. if i < j then ?g i else a ! i) [0..<8]"
    have "k * N + n0 + j < length B" "j < 8" "a' ! j = a ! j" "length a' = 8" using j b(2) c a' by simp_all
    moreover have "a'[j := ?g j] = map (\<lambda>i. if i < Suc j then ?g i else a ! i) [0..<8]"
      by (rule nth_equalityI) (auto simp: a' nth_list_update less_Suc_eq)
    ultimately show "\<exists>s'. do { b \<leftarrow> rd B (k * N + n0 + j); v \<leftarrow> rd a' j; wr a' j (v + decode_fp8 hv kind (x ! k) * decode_fp8 hv kind b) } = Some s' \<and>
        s' = map (\<lambda>i. if i < Suc j then ?g i else a ! i) [0..<8]" by simp
  qed simp
  then show ?thesis using b(1) by (simp add: slab_row_def slab_add_def fp8_dec_raw_eq)
qed

lemma upt_2: "[0..<2] = [0, 1 :: nat]"
  by (simp add: upt_rec)

lemma quad_cols:
  assumes a: "length a = 8" and b: "i0 + 8 \<le> length B"
  shows "foldM (\<lambda>w a. do {
         bw \<leftarrow> rd32 B (i0 + 4 * w);
         let fe = fp8_dec2 hv kind bw;
         let fo = fp8_dec2 hv kind (drop_bit 8 bw);
         foldM (\<lambda>(i, f) a. do { v \<leftarrow> rd a (4 * w + i); wr a (4 * w + i) (v + xf * f) })
           [(0, fst fe), (1, fst fo), (2, snd fe), (3, snd fo)] a }) [0..<2] a = Some (map (\<lambda>i. a ! i + xf * decode_fp8 hv kind (B ! (i0 + i))) [0..<8])"
proof -
  have w: "\<exists>word. rd32 B i0 = Some word" "\<exists>word. rd32 B (i0 + 4) = Some word" using b by (simp_all add: rd32_Some)
  then obtain w0 w1 where w: "rd32 B i0 = Some w0" "rd32 B (i0 + 4) = Some w1" by blast
  note d0 = fp8_dec2_halves [of hv kind w0, unfolded rd32_bytes [OF w(1)]] fp8_dec2_halves [of hv kind "drop_bit 8 w0", unfolded rd32_bytes [OF w(1)]]
  note d1 = fp8_dec2_halves [of hv kind w1, unfolded rd32_bytes [OF w(2)]] fp8_dec2_halves [of hv kind "drop_bit 8 w1", unfolded rd32_bytes [OF w(2)]]
  from a obtain a0 a1 a2 a3 a4 a5 a6 a7 where A: "a = [a0, a1, a2, a3, a4, a5, a6, a7]"
    by (auto simp: numeral_eq_Suc length_Suc_conv)
  have u8: "[0..<8] = [0, 1, 2, 3, 4, 5, 6, 7 :: nat]" by (simp add: upt_rec)
  show ?thesis unfolding upt_2 u8 A by (simp add: w d0 d1 rd_def wr_def add.assoc add.commute [of _ i0])
qed

lemma slab_quad_add:
  assumes a: "length a = 8" and b: "k + 4 \<le> length x" "(k + 3) * N + n0 + 8 \<le> length B"
  shows "slab_quad hv kind x B N n0 k a = Some (fold (slab_add hv kind x B N n0 8) [k, k + 1, k + 2, k + 3] a)"
proof -
  obtain xw where xw: "rd32 x k = Some xw" using rd32_Some b(1) by blast
  note dx = fp8_dec2_halves [of hv kind xw, unfolded rd32_bytes [OF xw]] fp8_dec2_halves [of hv kind "drop_bit 8 xw", unfolded rd32_bytes [OF xw]]
  have cols: "foldM (\<lambda>w a. do {
         bw \<leftarrow> rd32 B ((k + j) * N + n0 + 4 * w);
         let fe = fp8_dec2 hv kind bw;
         let fo = fp8_dec2 hv kind (drop_bit 8 bw);
         foldM (\<lambda>(i, f) a. do { v \<leftarrow> rd a (4 * w + i); wr a (4 * w + i) (v + decode_fp8 hv kind (x ! (k + j)) * f) })
           [(0, fst fe), (1, fst fo), (2, snd fe), (3, snd fo)] a }) [0..<2] a = Some (slab_add hv kind x B N n0 8 (k + j) a)"
    if "length a = 8" "j < 4" for j a
  proof -
    have "(k + j) * N \<le> (k + 3) * N" using that(2) by simp
    then have le: "(k + j) * N + n0 + 8 \<le> length B" using b(2) by linarith
    have "map (\<lambda>i. a ! i + decode_fp8 hv kind (x ! (k + j)) * decode_fp8 hv kind (B ! ((k + j) * N + n0 + i))) [0..<8] = slab_add hv kind x B N n0 8 (k + j) a"
      by (simp add: slab_add_def)
    then show ?thesis using quad_cols [OF that(1) le, of hv kind "decode_fp8 hv kind (x ! (k + j))"] by (simp only:)
  qed
  let ?body = "\<lambda>xf4 j a. do {
       xf \<leftarrow> rd xf4 j;
       foldM (\<lambda>w a. do {
         bw \<leftarrow> rd32 B ((k + j) * N + n0 + 4 * w);
         let fe = fp8_dec2 hv kind bw;
         let fo = fp8_dec2 hv kind (drop_bit 8 bw);
         foldM (\<lambda>(i, f) a. do { v \<leftarrow> rd a (4 * w + i); wr a (4 * w + i) (v + xf * f) })
           [(0, fst fe), (1, fst fo), (2, snd fe), (3, snd fo)] a }) [0..<2] a }"
  let ?xf = "map (\<lambda>j. decode_fp8 hv kind (x ! (k + j))) [0..<4]"
  have "foldM (?body ?xf) [0..<4] a = Some (fold (\<lambda>j. slab_add hv kind x B N n0 8 (k + j)) [0..<4] a) \<and> length (fold (\<lambda>j. slab_add hv kind x B N n0 8 (k + j)) [0..<4] a) = 8"
  proof (rule foldM_pure [where Q = "\<lambda>a. length a = 8", OF a])
    fix j and a :: "'a list" assume "j \<in> set [0..<4 :: nat]" and a: "length a = 8"
    then have j: "j < 4" by simp
    then have r: "rd ?xf j = Some (decode_fp8 hv kind (x ! (k + j)))" by (auto simp: less_Suc_eq numeral_eq_Suc)
    show "?body ?xf j a = Some (slab_add hv kind x B N n0 8 (k + j) a) \<and> length (slab_add hv kind x B N n0 8 (k + j) a) = 8"
      unfolding r bind.bind_lunit cols [OF a j] by simp
  qed
  moreover have "slab_quad hv kind x B N n0 k a = foldM (?body ?xf) [0..<4] a"
    unfolding slab_quad_def xw bind.bind_lunit Let_def dx by (simp add: upt_4)
  ultimately show ?thesis by (simp add: upt_4)
qed

lemma slab_fold_nth:
  assumes "length a = 8" "i < c" "c \<le> 8"
  shows "length (fold (slab_add hv kind x B N n0 c) ks a) = 8"
    "fold (slab_add hv kind x B N n0 c) ks a ! i = fold (\<lambda>k v. v + decode_fp8 hv kind (x ! k) * decode_fp8 hv kind (B ! (k * N + n0 + i))) ks (a ! i)"
proof (use assms(1) in \<open>induction ks arbitrary: a\<close>)
  case (Cons k ks) case 2
  have "slab_add hv kind x B N n0 c k a ! i = a ! i + decode_fp8 hv kind (x ! k) * decode_fp8 hv kind (B ! (k * N + n0 + i))"
    using assms(2,3) by (simp add: slab_add_def)
  then show ?case using Cons(2) [of "slab_add hv kind x B N n0 c k a"] by simp
qed simp_all

lemma upt_plus_4: "[m..<m + 4] = [m, m + 1, m + 2, m + 3]"
  by (simp add: upt_conv_Cons numeral_eq_Suc)

lemma slab_quads:
  assumes a: "length a = 8" and len: "length x = K" "length B = K * N" and n0: "n0 + 8 \<le> N" and q: "k0 + 4 * quads \<le> K"
  shows "foldM (\<lambda>t. slab_quad hv kind x B N n0 (k0 + 4 * t)) [0..<quads] a = Some (fold (slab_add hv kind x B N n0 8) [k0..<k0 + 4 * quads] a)"
proof -
  let ?P = "\<lambda>t a'. a' = fold (slab_add hv kind x B N n0 8) [k0..<k0 + 4 * t] a"
  have "\<exists>a'. foldM (\<lambda>t. slab_quad hv kind x B N n0 (k0 + 4 * t)) [0..<quads] a = Some a' \<and> ?P quads a'"
  proof (rule foldM_upt [where P = ?P])
    fix t a' assume t: "t < quads" and a': "?P t a'"
    have "length a' = 8" using slab_fold_nth(1) [OF a, of 0 8] a' by simp
    moreover have k: "k0 + 4 * t + 4 \<le> K" using t q by simp
    then have "(k0 + 4 * t + 3) * N + N \<le> K * N" by (intro src_row) simp
    then have "(k0 + 4 * t + 3) * N + n0 + 8 \<le> length B" using n0 len(2) by simp
    ultimately have "slab_quad hv kind x B N n0 (k0 + 4 * t) a' = Some (fold (slab_add hv kind x B N n0 8) [k0 + 4 * t, k0 + 4 * t + 1, k0 + 4 * t + 2, k0 + 4 * t + 3] a')"
      using k len(1) by (intro slab_quad_add) simp_all
    moreover have "[k0..<k0 + 4 * Suc t] = [k0..<k0 + 4 * t] @ [k0 + 4 * t, k0 + 4 * t + 1, k0 + 4 * t + 2, k0 + 4 * t + 3]"
    proof -
      have e: "k0 + 4 * Suc t = k0 + 4 * t + 4" by simp
      show ?thesis unfolding e upt_add_eq_append [OF le_add1 [of k0 "4 * t"]] upt_plus_4 by (rule refl)
    qed
    ultimately show "\<exists>s'. slab_quad hv kind x B N n0 (k0 + 4 * t) a' = Some s' \<and> ?P (Suc t) s'" using a' by simp
  qed simp_all
  then show ?thesis by simp
qed

lemma slab_rows:
  assumes a: "length a = 8" and len: "length x = K" "length B = K * N" and c: "c \<le> 8" "n0 + c \<le> N" and ks: "\<forall>k\<in>set ks. k < K"
  shows "foldM (slab_row hv kind x B N n0 [0..<c]) ks a = Some (fold (slab_add hv kind x B N n0 c) ks a)"
proof -
  have "foldM (slab_row hv kind x B N n0 [0..<c]) ks a = Some (fold (slab_add hv kind x B N n0 c) ks a) \<and> length (fold (slab_add hv kind x B N n0 c) ks a) = 8"
  proof (rule foldM_pure [where Q = "\<lambda>a. length a = 8", OF a])
    fix k and a :: "'a list" assume "k \<in> set ks" and a: "length a = 8"
    then have k: "k < K" using ks by blast
    then have "k * N + N \<le> K * N" by (rule src_row)
    then show "slab_row hv kind x B N n0 [0..<c] k a = Some (slab_add hv kind x B N n0 c k a) \<and> length (slab_add hv kind x B N n0 c k a) = 8"
      using slab_row_add [OF a c(1), of k x N n0 B hv kind] k c len by simp
  qed
  then show ?thesis ..
qed

text \<open>The partial sum of a slab for one column, in program order; the same on both paths.\<close>

definition slab_sum :: "(16 word \<Rightarrow> 'f::{plus,times,zero}) \<Rightarrow> int \<Rightarrow> 8 word list \<Rightarrow> 8 word list \<Rightarrow> nat \<Rightarrow> nat \<Rightarrow> nat \<Rightarrow> nat \<Rightarrow> nat \<Rightarrow> 'f" where
  "slab_sum hv kind x B N K slab s n =
     fold (\<lambda>k v. v + decode_fp8 hv kind (x ! k) * decode_fp8 hv kind (B ! (k * N + n))) [s * slab..<min (s * slab + slab) K] 0"

lemma takeWhile_cols: "n0 < N \<Longrightarrow> takeWhile (\<lambda>j. n0 + j < N) [0..<kCols] = [0..<min 8 (N - n0)]"
proof -
  have "takeWhile (\<lambda>j. n0 + j < N) [0..<m] = [0..<min m (N - n0)]" if "n0 < N" for m
    using that
  proof (induction m)
    case (Suc m)
    show ?case
    proof (cases "n0 + m < N")
      case True
      then have "\<forall>j\<in>set [0..<m]. n0 + j < N" by auto
      then show ?thesis using True by (simp add: takeWhile_append2 min_def)
    next
      case False
      then have m: "min m (N - n0) = N - n0" "min (Suc m) (N - n0) = N - n0" by auto
      show ?thesis
      proof (cases "n0 + m = N")
        case True
        then have "\<forall>j\<in>set [0..<m]. n0 + j < N" by auto
        then have "takeWhile (\<lambda>j. n0 + j < N) ([0..<m] @ [m]) = [0..<m] @ takeWhile (\<lambda>j. n0 + j < N) [m]" by (intro takeWhile_append2) blast
        moreover have "N - n0 = m" using True by simp
        ultimately show ?thesis using True m by simp
      next
        case False
        then have "N - n0 \<in> set [0..<m]" "\<not> n0 + (N - n0) < N" using \<open>\<not> n0 + m < N\<close> Suc.prems by auto
        then have "takeWhile (\<lambda>j. n0 + j < N) ([0..<m] @ [m]) = takeWhile (\<lambda>j. n0 + j < N) [0..<m]" by (intro takeWhile_append1)
        then show ?thesis using Suc m by simp
      qed
    qed
  qed simp
  then show "n0 < N \<Longrightarrow> ?thesis" by (simp add: kCols_def)
qed

lemma partial_item_writes:
  assumes s: "s < S" "(S - 1) * slab < K" and t: "t < P" and len: "length x = K" "length B = K * N" "length part = S * N"
  shows "\<exists>part'. fp8_partial_item hv kind x B N K slab P (s * P + t) part = Some part' \<and>
    writes {s * N + min N (t * 8)..<s * N + min N (t * 8 + 8)} (\<lambda>a. slab_sum hv kind x B N K slab (a div N) (a mod N)) part part'"
proof (cases "N \<le> t * 8")
  case True
  then show ?thesis using t by (simp add: fp8_partial_item_def kCols_def Let_def)
next
  case False
  define n0 where "n0 = t * 8"
  define c where "c = min 8 (N - n0)"
  have n0: "n0 < N" "c \<le> 8" "n0 + c \<le> N" "0 < c" using False by (auto simp: n0_def c_def)
  let ?k0 = "s * slab" and ?kend = "min (s * slab + slab) K"
  have "s * slab \<le> (S - 1) * slab" using s(1) by (intro mult_le_mono1) simp
  then have "s * slab < K" using s(2) by (rule le_less_trans)
  then have k0: "?k0 \<le> ?kend" "?k0 \<le> K" "?kend \<le> K" by simp_all
  have ks: "\<forall>k\<in>set [lo..<?kend]. k < K" for lo by auto
  let ?add = "slab_add hv kind x B N n0 c" and ?a = "replicate kCols 0"
  define acc where "acc = fold ?add [?k0..<?kend] ?a"
  have a8: "length ?a = 8" by (simp add: kCols_def)
  have cols: "takeWhile (\<lambda>j. n0 + j < N) [0..<kCols] = [0..<c]" using takeWhile_cols [OF n0(1)] by (simp add: c_def)
  have run: "(if N mod kCols = 0
              then do {
                let quads = (?kend - ?k0) div 4;
                a \<leftarrow> foldM (\<lambda>t. slab_quad hv kind x B N n0 (?k0 + 4 * t)) [0..<quads] ?a;
                foldM (slab_row hv kind x B N n0 [0..<kCols]) [?k0 + 4 * quads..<?kend] a }
              else foldM (slab_row hv kind x B N n0 [0..<c]) [?k0..<?kend] ?a) = Some acc"
  proof (cases "N mod kCols = 0")
    case True
    then have "8 dvd N" by (simp add: kCols_def mod_eq_0_iff_dvd)
    then obtain m where N: "N = 8 * m" by blast
    then have "t < m" using n0(1) by (simp add: n0_def)
    then have c8: "c = 8" "n0 + 8 \<le> N" using N by (auto simp: c_def n0_def)
    let ?q = "(?kend - ?k0) div 4"
    have q: "?k0 + 4 * ?q \<le> ?kend" using k0(1) by linarith
    then have "?k0 + 4 * ?q \<le> K" using k0(3) by linarith
    note quads = slab_quads [OF a8 len(1,2) c8(2) this, of hv kind]
    have "length (fold ?add [?k0..<?k0 + 4 * ?q] ?a) = 8" using slab_fold_nth(1) [OF a8 n0(4,2)] .
    note rows = slab_rows [OF this len(1,2) n0(2,3) ks, of hv kind]
    have "[?k0..<?kend] = [?k0..<?k0 + 4 * ?q] @ [?k0 + 4 * ?q..<?kend]" using q by (metis le_add1 le_add_diff_inverse upt_add_eq_append)
    then have "fold ?add [?k0 + 4 * ?q..<?kend] (fold ?add [?k0..<?k0 + 4 * ?q] ?a) = acc" unfolding acc_def by (simp only: fold_append comp_apply)
    then show ?thesis using True quads rows unfolding c8(1) by (simp only: simp_thms if_True Let_def bind.bind_lunit kCols_def)
  next
    case False
    then show ?thesis using slab_rows [OF a8 len(1,2) n0(2,3) ks, of hv kind ?k0] by (simp only: simp_thms if_False acc_def)
  qed
  have acc: "length acc = 8" "\<And>i. i < c \<Longrightarrow> acc ! i = slab_sum hv kind x B N K slab s (n0 + i)"
    using slab_fold_nth [OF a8 _ n0(2)] n0(2,4) by (simp_all add: acc_def slab_sum_def kCols_def add.assoc)
  let ?v = "\<lambda>a. slab_sum hv kind x B N K slab (a div N) (a mod N)"
  have "\<exists>part'. foldM (\<lambda>j part. do { v \<leftarrow> rd acc j; wr part (s * N + n0 + j) v }) [0..<c] part = Some part' \<and> writes {s * N + n0..<s * N + n0 + c} ?v part part'"
  proof (rule foldM_upt [where P = "\<lambda>j p. writes {s * N + n0..<s * N + n0 + j} ?v part p"])
    fix j p assume j: "j < c" and p: "writes {s * N + n0..<s * N + n0 + j} ?v part p"
    have nj: "n0 + j < N" using j n0(3) by simp
    have lt: "s * N + n0 + j < length p" using div_mult_add_lt [OF s(1) nj] len(3) writes_length [OF p] by (simp add: add.assoc)
    have "(s * N + n0 + j) div N = s" "(s * N + n0 + j) mod N = n0 + j" using nj by (simp_all add: add.assoc)
    then have v: "?v (s * N + n0 + j) = acc ! j" using acc(2) [OF j] by (simp only:)
    have "{s * N + n0..<s * N + n0 + j} \<union> {s * N + n0 + j} = {s * N + n0..<s * N + n0 + Suc j}" by auto
    then have "writes {s * N + n0..<s * N + n0 + Suc j} ?v part (p[s * N + n0 + j := acc ! j])"
      using writes_trans [OF p writes_single [OF lt, of ?v]] v by simp
    then show "\<exists>s'. do { v \<leftarrow> rd acc j; wr p (s * N + n0 + j) v } = Some s' \<and> writes {s * N + n0..<s * N + n0 + Suc j} ?v part s'"
      using j n0(2) acc(1) lt by simp
  qed simp_all
  moreover have "fp8_partial_item hv kind x B N K slab P (s * P + t) part =
      foldM (\<lambda>j part. do { v \<leftarrow> rd acc j; wr part (s * N + n0 + j) v }) [0..<c] part"
  proof -
    have d: "(s * P + t) div P = s" "(s * P + t) mod P = t" using t by simp_all
    have t8: "t * kCols = n0" "\<not> N \<le> n0" using n0(1) by (simp_all add: n0_def kCols_def)
    show ?thesis unfolding fp8_partial_item_def Let_def d t8(1) cols
      using run [unfolded Let_def] t8(2) by (simp only: if_False bind.bind_lunit)
  qed
  moreover have "min N (t * 8) = n0" "min N (t * 8 + 8) = n0 + c" using n0(1) by (auto simp: n0_def c_def)
  ultimately show ?thesis by (simp add: add.assoc)
qed

lemma partial_launch:
  assumes S: "(S - 1) * slab < K" and P: "N \<le> P * 8" and sched: "schedule (S * P) sched" and len: "length x = K" "length B = K * N" "length part = S * N"
  shows "foldM (fp8_partial_item hv kind x B N K slab P) sched part = Some (map (\<lambda>a. slab_sum hv kind x B N K slab (a div N) (a mod N)) [0..<S * N])"
proof -
  let ?v = "\<lambda>a. slab_sum hv kind x B N K slab (a div N) (a mod N)"
  let ?cells = "\<lambda>g. {g div P * N + min N (g mod P * 8)..<g div P * N + min N (g mod P * 8 + 8)}"
  have "\<exists>b'. foldM (fp8_partial_item hv kind x B N K slab P) sched part = Some b' \<and> writes (\<Union>g<S * P. ?cells g) ?v part b'"
  proof (rule launch_writes [OF sched])
    fix g and b :: "'a list" assume g: "g < S * P" and b: "length b = length part"
    have "0 < P" using g by (cases P) auto
    then have d: "g div P < S" "g mod P < P" using less_mult_imp_div_less [OF g] by simp_all
    have "length b = S * N" using b len(3) by simp
    from partial_item_writes [OF d(1) S d(2) len(1,2) this, of hv kind] show "\<exists>b'. fp8_partial_item hv kind x B N K slab P g b = Some b' \<and> writes (?cells g) ?v b b'"
      by simp
  qed
  moreover have "(\<Union>g<S * P. ?cells g) = {..<S * N}"
  proof
    show "{..<S * N} \<subseteq> (\<Union>g<S * P. ?cells g)"
    proof
      fix a assume "a \<in> {..<S * N}"
      then have a: "a < S * N" by simp
      then have "0 < N" by (cases N) auto
      then have d: "a div N < S" "a mod N < N" using less_mult_imp_div_less [OF a] by simp_all
      let ?t = "a mod N div 8"
      let ?g = "a div N * P + ?t"
      have t: "?t < P" using d(2) P by (intro less_mult_imp_div_less) simp
      then have g: "?g < S * P" "?g div P = a div N" "?g mod P = ?t" using div_mult_add_lt [OF d(1)] by simp_all
      have "?t * 8 \<le> a mod N" "a mod N < ?t * 8 + 8" by linarith+
      then have "min N (?t * 8) \<le> a mod N" "a mod N < min N (?t * 8 + 8)" using d(2) by simp_all
      then have "a div N * N + min N (?t * 8) \<le> a div N * N + a mod N" "a div N * N + a mod N < a div N * N + min N (?t * 8 + 8)"
        by (simp_all only: nat_add_left_cancel_le nat_add_left_cancel_less)
      then have "a \<in> ?cells ?g" unfolding g(2,3) atLeastLessThan_iff div_mult_mod_eq by (rule conjI)
      then show "a \<in> (\<Union>g<S * P. ?cells g)" using g(1) by blast
    qed
    show "(\<Union>g<S * P. ?cells g) \<subseteq> {..<S * N}"
    proof
      fix a assume "a \<in> (\<Union>g<S * P. ?cells g)"
      then obtain g where g: "g < S * P" "a < g div P * N + min N (g mod P * 8 + 8)" by auto
      have "g div P < S" using g(1) by (rule less_mult_imp_div_less)
      then have "g div P * N + N \<le> S * N" by (rule src_row)
      then show "a \<in> {..<S * N}" using g(2) by simp
    qed
  qed
  ultimately obtain b' where "foldM (fp8_partial_item hv kind x B N K slab P) sched part = Some b'" "writes {..<S * N} ?v part b'" by auto
  then show ?thesis using writes_map_upt [of "S * N" ?v part b'] len(3) by simp
qed

lemma fp8_reduce_item_eq:
  assumes "length part = S * N" "length y = N"
  shows "fp8_reduce_item ld st part N S scale n y = Some (if n < N then y[n := st (fold (\<lambda>s acc. acc + ld (part ! (s * N + n))) [0..<S] 0 * scale)] else y)"
proof (cases "n < N")
  case True
  have "foldM (\<lambda>s acc. do { p \<leftarrow> rd part (s * N + n); Some (acc + ld p) }) [0..<S] 0 = Some (fold (\<lambda>s acc. acc + ld (part ! (s * N + n))) [0..<S] 0)"
    by (rule foldM_pure') (use div_mult_add_lt [OF _ True] assms(1) in simp)
  then show ?thesis using True assms(2) by (simp add: fp8_reduce_item_def)
qed (simp add: fp8_reduce_item_def)

text \<open>The number of slabs the host runs.\<close>

definition fp8_slab :: "nat \<Rightarrow> nat" where
  "fp8_slab K = cdiv (cdiv K kSlabs) 4 * 4"

lemma fp8_slab_pos: "0 < K \<Longrightarrow> 0 < fp8_slab K"
  by (simp add: fp8_slab_def cdiv_def kSlabs_def)

lemma fp8_gemv_float:
  assumes K: "0 < K" and kind: "kind = 0 \<or> kind = 1" and len: "length x = K" "length B = K * N" "length y = N" "\<And>n. length (scratch n) = n"
    and sched: "schedule (cdiv K (fp8_slab K) * (cdiv (cdiv N 8) 256 * 256)) (sched1 (cdiv K (fp8_slab K)))" "schedule R sched2" "N \<le> R"
  shows "fp8_gemv M hv st x B N K kind scale scratch sched1 sched2 y = Some (map (\<lambda>n.
    st (fold (\<lambda>s acc. acc + slab_sum hv kind x B N K (fp8_slab K) s n) [0..<cdiv K (fp8_slab K)] 0 * (if kind = 0 then scale * of_num M 65536 else scale))) [0..<N])"
proof -
  let ?slab = "fp8_slab K" and ?scale = "if kind = 0 then scale * of_num M 65536 else scale"
  let ?S = "cdiv K ?slab" and ?P = "cdiv (cdiv N 8) 256 * 256"
  note pos = fp8_slab_pos [OF K]
  have S: "(?S - 1) * ?slab < K"
  proof -
    have "0 < ?S" using K cdiv_less_iff [OF pos, of 0 K] by simp
    then show ?thesis using cdiv_less_iff [OF pos, of "?S - 1" K] by simp
  qed
  have "cdiv N 8 \<le> ?P" by (rule cdiv_upper) simp
  then have P: "N \<le> ?P * 8" using cdiv_upper [of 8 N] by linarith
  let ?part = "map (\<lambda>a. slab_sum hv kind x B N K ?slab (a div N) (a mod N)) [0..<?S * N]"
  have p: "foldM (fp8_partial_item hv (if kind = 1 then 1 else 0) x B N K ?slab ?P) (sched1 ?S) (scratch (?S * N)) = Some ?part"
    using partial_launch [OF S P sched(1) len(1,2), of "scratch (?S * N)" hv kind] len(4) kind by auto
  have nth: "?part ! (s * N + n) = slab_sum hv kind x B N K ?slab s n" if "s < ?S" "n < N" for s n
    using div_mult_add_lt [OF that] that(2) by simp
  have "foldM (fp8_reduce_item (\<lambda>v. v) st ?part N ?S ?scale) sched2 y =
      Some (map (\<lambda>n. st (fold (\<lambda>s acc. acc + ?part ! (s * N + n)) [0..<?S] 0 * ?scale)) [0..<N])"
  proof -
    have "foldM (fp8_reduce_item (\<lambda>v. v) st ?part N ?S ?scale) sched2 y =
        Some (map (\<lambda>a. (\<lambda>_ n. st (fold (\<lambda>s acc. acc + ?part ! (s * N + n)) [0..<?S] 0 * ?scale)) (a div N) (a mod N)) [0..<1 * N])"
    proof (rule padded_launch [where P = R])
      fix m n :: nat and b :: "'a list" assume m: "m < 1" and b: "length b = 1 * N"
      then have "length b = N" by simp
      from fp8_reduce_item_eq [OF _ this, of ?part ?S "\<lambda>v. v" st ?scale "m * R + n"]
      show "fp8_reduce_item (\<lambda>v. v) st ?part N ?S ?scale (m * R + n) b = Some (if n < N then b[m * N + n := st (fold (\<lambda>s acc. acc + ?part ! (s * N + n)) [0..<?S] 0 * ?scale)] else b)"
        using m by simp
    qed (use sched len in simp_all)
    then show ?thesis by (simp cong: map_cong)
  qed
  also have "map (\<lambda>n. st (fold (\<lambda>s acc. acc + ?part ! (s * N + n)) [0..<?S] 0 * ?scale)) [0..<N] =
      map (\<lambda>n. st (fold (\<lambda>s acc. acc + slab_sum hv kind x B N K ?slab s n) [0..<?S] 0 * ?scale)) [0..<N]"
    by (intro map_cong [OF refl] arg_cong [where f = st] arg_cong2 [where f = times] fold_cong refl) (use nth in simp)
  finally show ?thesis using p pos unfolding fp8_gemv_def Let_def fp8_slab_def [symmetric] kCols_def by simp
qed

lemma sum_slabs: "(\<Sum>s<S. \<Sum>k = s * d..<min (s * d + d) K. f k) = (\<Sum>k<min (S * d) K. f k)" for f :: "nat \<Rightarrow> real"
proof (induction S)
  case (Suc S)
  have "(\<Sum>k<min (S * d) K. f k) + (\<Sum>k = S * d..<min (S * d + d) K. f k) = (\<Sum>k<min (S * d + d) K. f k)"
  proof (cases "S * d \<le> K")
    case True
    then show ?thesis unfolding lessThan_atLeast0 by (simp add: sum.atLeastLessThan_concat)
  qed simp
  then show ?case using Suc by (simp add: add.commute)
qed simp

text \<open>C39: the FP8 product with one activation row: over the reals every output is the scaled dot product of the decoded bytes, of
  either format, whatever the slabs and the remainders of both sizes, the initial contents of the scratch and the order of
  the items; without any rows the choice of the slab divides by zero.\<close>

theorem fp8_gemv_exact:
  assumes kind: "kind = 0 \<or> kind = 1" and len: "length x = K" "length B = K * N" "length y = N" "\<And>n. length (scratch n) = n"
    and sched: "schedule (cdiv K (fp8_slab K) * (cdiv (cdiv N 8) 256 * 256)) (sched1 (cdiv K (fp8_slab K)))" "schedule R sched2" "N \<le> R"
  shows "fp8_gemv exact_math half_val st x B N K kind scale scratch sched1 sched2 y =
    (if K = 0 then None else Some (map (\<lambda>n. st (scale * (\<Sum>k<K. fp8_val kind (x ! k) * fp8_val kind (B ! (k * N + n))))) [0..<N]))"
proof (cases "K = 0")
  case True
  then show ?thesis by (simp add: fp8_gemv_def cdiv_def kSlabs_def)
next
  case False
  then have K: "0 < K" by simp
  note pos = fp8_slab_pos [OF K]
  let ?d = "fp8_slab K"
  let ?S = "cdiv K ?d"
  let ?c = "if kind = 1 then 1 else 2 ^ 16 :: real"
  let ?f = "\<lambda>n k. fp8_val kind (x ! k) * fp8_val kind (B ! (k * N + n))"
  have trm: "decode_fp8 half_val kind (x ! k) * decode_fp8 half_val kind (B ! (k * N + n)) = ?f n k / ?c" for k n
    by (simp add: decode_fp8_exact)
  have "slab_sum half_val kind x B N K ?d s n = (\<Sum>k = s * ?d..<min (s * ?d + ?d) K. ?f n k / ?c)" for s n
    unfolding slab_sum_def trm by (simp add: fold_add_sum interv_sum_list_conv_sum_set_nat)
  then have "fold (\<lambda>s acc. acc + slab_sum half_val kind x B N K ?d s n) [0..<?S] 0 = (\<Sum>k<min (?S * ?d) K. ?f n k / ?c)" for n
    by (simp only: fold_add_sum [OF refl] interv_sum_list_conv_sum_set_nat set_upt atLeast0LessThan sum_slabs add_0)
  moreover have "min (?S * ?d) K = K" using cdiv_upper [OF pos, of K] by simp
  ultimately have total: "fold (\<lambda>s acc. acc + slab_sum half_val kind x B N K ?d s n) [0..<?S] 0 = (\<Sum>k<K. ?f n k) / ?c" for n
    by (simp only: sum_divide_distrib)
  have "(\<Sum>k<K. ?f n k) / ?c * (if kind = 0 then scale * of_num exact_math 65536 else scale) = scale * (\<Sum>k<K. ?f n k)" for n
    using kind by auto
  moreover have "fp8_gemv exact_math half_val st x B N K kind scale scratch sched1 sched2 y = Some (map (\<lambda>n.
      st (fold (\<lambda>s acc. acc + slab_sum half_val kind x B N K ?d s n) [0..<?S] 0 * (if kind = 0 then scale * of_num exact_math 65536 else scale))) [0..<N])"
    by (rule fp8_gemv_float [OF K kind len(1-3)]) (rule len(4) sched)+
  ultimately show ?thesis using False by (simp only: total if_False)
qed

lemma fp8_gemv_exact_witness:
  "fp8_gemv exact_math half_val id [] [] 0 0 1 2 (\<lambda>n. replicate n 5) (\<lambda>S. []) [] [] = None \<and>
   fp8_gemv exact_math half_val id [0x3C, 0x40] [0x3C, 0x40] 1 2 1 2 (\<lambda>n. replicate n 5) (\<lambda>S. [0..<256]) [0] [7 :: real] = Some [10]"
proof -
  have v: "fp8_val 1 0x3C = 1" "fp8_val 1 0x40 = 2"
    by (simp_all add: fp8_val_def e5m2_val_def half_val_def f16_mag_def nval_def)
  have s: "fp8_slab 2 = 4" "cdiv 2 4 = 1" "cdiv (cdiv 1 8) 256 * 256 = 256" "cdiv 1 8 = 1" "cdiv 1 256 = 1" by (simp_all add: fp8_slab_def cdiv_def kSlabs_def)
  have l2: "{..<2 :: nat} = {0, 1}" by auto
  have "schedule (1 * 256) [0..<256]" "schedule 1 [0]" using schedule_upt [of 256] by (simp_all add: schedule_def lessThan_Suc)
  then have "fp8_gemv exact_math half_val id [0x3C, 0x40] [0x3C, 0x40] 1 2 1 2 (\<lambda>n. replicate n 5) (\<lambda>S. [0..<256]) [0] [7 :: real] = Some [10]"
    using fp8_gemv_exact [of 1 "[0x3C, 0x40]" 2 "[0x3C, 0x40]" 1 "[7 :: real]" "\<lambda>n. replicate n 5" "\<lambda>S. [0..<256]" 1 "[0]" id 2]
    by (simp add: s s [unfolded One_nat_def] l2 v)
  then show ?thesis by (simp add: fp8_gemv_def cdiv_def kSlabs_def)
qed

end
