(* ===== verification/Select.thy ===== *)
theory Select
  imports Codecs
begin

text \<open>
  Selection of the largest element with the lowest index, the loop that argmax, MoE routing and
  top-k sampling share, over an abstract float order.  The interface \<open>key_order\<close> is what the
  loops need of the comparison: on good values (not NaN) it is the order of an integer key.
  The provider is \<open>f32\<close> with its sign-magnitude key.
\<close>

text \<open>One step of a left-to-right scan that keeps the first strict maximum.\<close>

definition amax_step :: "(nat \<Rightarrow> 'v::ord) \<Rightarrow> nat \<Rightarrow> 'v \<times> nat \<Rightarrow> 'v \<times> nat" where
  "amax_step f e st = (if f e > fst st then (f e, e) else st)"

text \<open>\<open>first_max key f xs e\<close>: \<open>e\<close> has the largest key among \<open>xs\<close>, the first of the equal ones.\<close>

definition first_max :: "('v \<Rightarrow> int) \<Rightarrow> (nat \<Rightarrow> 'v) \<Rightarrow> nat set \<Rightarrow> nat \<Rightarrow> bool" where
  "first_max key f A e \<longleftrightarrow> e \<in> A \<and> (\<forall>e'\<in>A. key (f e') \<le> key (f e) \<and> (key (f e') = key (f e) \<longrightarrow> e \<le> e'))"

lemma first_max_unique: "first_max key f A e \<Longrightarrow> first_max key f A e' \<Longrightarrow> e = e'"
  unfolding first_max_def by (metis order_antisym)

definition better :: "('v \<Rightarrow> int) \<Rightarrow> (nat \<Rightarrow> 'v) \<Rightarrow> nat \<Rightarrow> nat \<Rightarrow> bool" where
  "better key f e e' \<longleftrightarrow> key (f e') < key (f e) \<or> (key (f e') = key (f e) \<and> e < e')"

locale key_order =
  fixes key :: "'v::ord \<Rightarrow> int" and good :: "'v \<Rightarrow> bool"
  assumes less_key: "good a \<Longrightarrow> good b \<Longrightarrow> a < b \<longleftrightarrow> key a < key b"
    and key_inj: "good a \<Longrightarrow> good b \<Longrightarrow> \<not> a < b \<Longrightarrow> \<not> b < a \<Longrightarrow> key a = key b"
begin

lemma scan_cases:
  assumes "good b0" "\<forall>e\<in>set xs. good (f e)" "sorted_wrt (<) xs"
  shows "fold (amax_step f) xs (b0, e0) = (b, m) \<Longrightarrow>
    (b = b0 \<and> m = e0 \<and> (\<forall>e\<in>set xs. key (f e) \<le> key b0)) \<or>
    (first_max key f (set xs) m \<and> b = f m \<and> key b0 < key (f m))"
  using assms
proof (induction xs arbitrary: b m rule: rev_induct)
  case (snoc x xs)
  obtain b1 m1 where st: "fold (amax_step f) xs (b0, e0) = (b1, m1)" by (cases "fold (amax_step f) xs (b0, e0)")
  have step: "amax_step f x (b1, m1) = (b, m)" using snoc.prems(1) st by simp
  have srt: "sorted_wrt (<) xs" "\<forall>e\<in>set xs. e < x" using snoc.prems(4) by (auto simp: sorted_wrt_append)
  have gx: "good (f x)" using snoc.prems(3) by simp
  from snoc.IH [OF st snoc.prems(2) _ srt(1)] snoc.prems(3)
  consider "b1 = b0" "m1 = e0" "\<forall>e\<in>set xs. key (f e) \<le> key b0"
    | "first_max key f (set xs) m1" "b1 = f m1" "key b0 < key (f m1)" by auto
  then show ?case
  proof cases
    case 1
    have c: "b0 < f x \<longleftrightarrow> key b0 < key (f x)" using less_key snoc.prems(2) gx by simp
    show ?thesis
    proof (cases "key b0 < key (f x)")
      case True
      then have "b = f x" "m = x" using step 1 c by (auto simp: amax_step_def)
      moreover have "first_max key f (set (xs @ [x])) x" using 1(3) True srt(2) by (auto simp: first_max_def)
      ultimately show ?thesis using True by simp
    next
      case False
      then show ?thesis using step 1 c by (auto simp: amax_step_def)
    qed
  next
    case 2
    have gm: "good (f m1)" using 2(1) snoc.prems(3) by (auto simp: first_max_def)
    have c: "f m1 < f x \<longleftrightarrow> key (f m1) < key (f x)" using less_key gm gx by simp
    show ?thesis
    proof (cases "key (f m1) < key (f x)")
      case True
      then have "b = f x" "m = x" using step 2 c by (auto simp: amax_step_def)
      moreover have "first_max key f (set (xs @ [x])) x" using 2(1) True srt(2) by (auto simp: first_max_def)
      ultimately show ?thesis using True 2(3) by simp
    next
      case False
      then have "b = f m1" "m = m1" using step 2 c by (auto simp: amax_step_def)
      moreover have "first_max key f (set (xs @ [x])) m1" using 2(1) False srt(2) by (auto simp: first_max_def)
      ultimately show ?thesis using 2(3) by simp
    qed
  qed
qed simp

text \<open>When every value beats the initial one, the scan finds the first maximum.\<close>

lemma scan_first_max:
  assumes "good b0" "\<forall>e\<in>set xs. good (f e) \<and> key b0 < key (f e)" "sorted_wrt (<) xs" "xs \<noteq> []"
  obtains m where "fold (amax_step f) xs (b0, e0) = (f m, m)" "first_max key f (set xs) m"
proof -
  obtain b m where st: "fold (amax_step f) xs (b0, e0) = (b, m)" by (cases "fold (amax_step f) xs (b0, e0)")
  obtain x where x: "x \<in> set xs" using assms(4) by (cases xs) auto
  have "\<not> (\<forall>e\<in>set xs. key (f e) \<le> key b0)" using x assms(2) by (meson leD)
  with scan_cases [OF assms(1) _ assms(3) st] assms(2) st that show ?thesis by auto
qed

lemma first_max_exists: "finite A \<Longrightarrow> A \<noteq> {} \<Longrightarrow> \<exists>m. first_max key f A m"
proof -
  assume A: "finite A" "A \<noteq> {}"
  obtain k where k: "k = Max ((key \<circ> f) ` A)" by simp
  have "k \<in> (key \<circ> f) ` A" unfolding k using A by (intro Max_in) auto
  then have ne: "{e \<in> A. key (f e) = k} \<noteq> {}" by auto
  have "first_max key f A (Min {e \<in> A. key (f e) = k})"
  proof -
    have "Min {e \<in> A. key (f e) = k} \<in> {e \<in> A. key (f e) = k}" using A ne by (intro Min_in) auto
    moreover have "key (f e) \<le> k" if "e \<in> A" for e unfolding k using A that by (intro Max_ge) auto
    moreover have "Min {e \<in> A. key (f e) = k} \<le> e" if "e \<in> A" "key (f e) = k" for e
      using A that by (intro Min_le) auto
    ultimately show ?thesis by (auto simp: first_max_def)
  qed
  then show ?thesis ..
qed

text \<open>Repeated selection without replacement sorts by \<open>better\<close> and keeps the best ones.\<close>

lemma select_best:
  assumes "sorted_wrt (better key f) sel" "\<forall>s\<in>set sel. \<forall>e\<in>A - set sel. better key f s e"
    and "first_max key f (A - set sel) m"
  shows "sorted_wrt (better key f) (sel @ [m]) \<and>
    (\<forall>s\<in>set (sel @ [m]). \<forall>e\<in>A - set (sel @ [m]). better key f s e)"
proof -
  have m: "m \<in> A - set sel" using assms(3) by (simp add: first_max_def)
  have "better key f m e" if "e \<in> A - set (sel @ [m])" for e
    using assms(3) that unfolding first_max_def better_def by (auto simp: order_less_le)
  then show ?thesis using assms(1,2) m by (auto simp: sorted_wrt_append)
qed

end

interpretation f32o: key_order f32_key "\<lambda>x. \<not> f32_nan x"
  by unfold_locales (auto simp: less_f32_def)

end
