(* ===== verification/Moe.thy ===== *)
theory Moe
  imports Select Elem
begin

text \<open>
  Mixture-of-experts routing: the expert-sorted permutation and its weighted inverse
  (\<open>moe_permute.sycl.cpp\<close>), and top-k routing (\<open>moe_route.sycl.cpp\<close>).

  The four kernels of the permutation run one after the other on the queue; inside each, the
  work-items run in any order.  An atomic \<open>fetch_add\<close> is a step of its own in the order of the
  schedule.  \<open>pairs = n_tokens * top_k\<close> routed pairs; expert ids outside \<open>0..<n_experts\<close> are
  skipped.  Rows are copied bit for bit, so the permutation is polymorphic in the element type.
\<close>

section \<open>Permutation by expert\<close>

record 't perm_state =
  permuted :: "'t list"
  rows_per_expert :: "int list"
  row_map :: "int list"
  cursors :: "int list"

definition valid_id :: "nat \<Rightarrow> int \<Rightarrow> bool" where
  "valid_id n_experts e \<longleftrightarrow> 0 \<le> e \<and> nat e < n_experts"

definition permute_reset :: "nat \<Rightarrow> nat \<Rightarrow> int list \<Rightarrow> int list option" where
  "permute_reset n_experts idx rows = (if idx < n_experts then wr rows idx 0 else Some rows)"

definition permute_count :: "int list \<Rightarrow> nat \<Rightarrow> nat \<Rightarrow> int list \<Rightarrow> int list option" where
  "permute_count topk_ids n_experts idx rows = do {
     e \<leftarrow> rd topk_ids idx;
     if valid_id n_experts e then do { c \<leftarrow> rd rows (nat e); wr rows (nat e) (c + 1) }
     else Some rows }"

definition permute_scan :: "nat \<Rightarrow> int list \<Rightarrow> int list \<Rightarrow> int list option" where
  "permute_scan n_experts rows curs = do {
     (acc, curs) \<leftarrow> foldM (\<lambda>e (acc, curs). do {
         curs \<leftarrow> wr curs e acc;
         r \<leftarrow> rd rows e;
         Some (acc + r, curs) }) [0..<n_experts] (0, curs);
     Some curs }"

definition permute_scatter :: "'t list \<Rightarrow> int list \<Rightarrow> nat \<Rightarrow> nat \<Rightarrow> nat \<Rightarrow> nat \<Rightarrow> 't perm_state \<Rightarrow> 't perm_state option" where
  "permute_scatter hidden topk_ids n_experts top_k hidden_dim idx s = do {
     e \<leftarrow> rd topk_ids idx;
     if \<not> valid_id n_experts e then do {
       rm \<leftarrow> wr (row_map s) idx (-1);
       Some (s\<lparr>row_map := rm\<rparr>) }
     else do {
       dst \<leftarrow> rd (cursors s) (nat e);
       cu \<leftarrow> wr (cursors s) (nat e) (dst + 1);
       rm \<leftarrow> wr (row_map s) idx dst;
       let t = idx div top_k;
       pm \<leftarrow> foldM (\<lambda>i pm. do {
           x \<leftarrow> rd hidden (t * hidden_dim + i);
           wr pm (nat dst * hidden_dim + i) x }) [0..<hidden_dim] (permuted s);
       Some (s\<lparr>permuted := pm, row_map := rm, cursors := cu\<rparr>) } }"

text \<open>The schedules of the three parallel launches are the arguments \<open>o1\<close>, \<open>o2\<close> and \<open>o4\<close>.\<close>

definition moe_permute :: "'t list \<Rightarrow> int list \<Rightarrow> nat \<Rightarrow> nat \<Rightarrow> nat \<Rightarrow> nat \<Rightarrow> nat list \<Rightarrow> nat list \<Rightarrow> nat list \<Rightarrow>
    't perm_state \<Rightarrow> 't perm_state option" where
  "moe_permute hidden topk_ids n_tokens top_k hidden_dim n_experts o1 o2 o4 s = do {
     rows \<leftarrow> foldM (permute_reset n_experts) o1 (rows_per_expert s);
     rows \<leftarrow> foldM (permute_count topk_ids n_experts) o2 rows;
     curs \<leftarrow> permute_scan n_experts rows (cursors s);
     foldM (permute_scatter hidden topk_ids n_experts top_k hidden_dim) o4
       (s\<lparr>rows_per_expert := rows, cursors := curs\<rparr>) }"

definition unpermute_item :: "('t \<Rightarrow> 'f) \<Rightarrow> ('f \<Rightarrow> 't) \<Rightarrow> 't list \<Rightarrow> int list \<Rightarrow> 'f::{plus,times,zero} list \<Rightarrow> nat \<Rightarrow> nat \<Rightarrow>
    nat \<Rightarrow> 't list \<Rightarrow> 't list option" where
  "unpermute_item ld st perm rmap topk_weights top_k hidden_dim idx out = do {
     let t = idx div hidden_dim;
     let i = idx mod hidden_dim;
     acc \<leftarrow> foldM (\<lambda>j acc. do {
         r \<leftarrow> rd rmap (t * top_k + j);
         if r < 0 then Some acc
         else do {
           w \<leftarrow> rd topk_weights (t * top_k + j);
           x \<leftarrow> rd perm (nat r * hidden_dim + i);
           Some (acc + w * ld x) } }) [0..<top_k] 0;
     wr out idx (st acc) }"

definition moe_unpermute_weighted_reduce :: "('t \<Rightarrow> 'f) \<Rightarrow> ('f \<Rightarrow> 't) \<Rightarrow> 't list \<Rightarrow> int list \<Rightarrow> 'f::{plus,times,zero} list \<Rightarrow>
    nat \<Rightarrow> nat \<Rightarrow> nat list \<Rightarrow> 't list \<Rightarrow> 't list option" where
  "moe_unpermute_weighted_reduce ld st perm rmap topk_weights top_k hidden_dim sched out =
     foldM (unpermute_item ld st perm rmap topk_weights top_k hidden_dim) sched out"

text \<open>The entry points instantiate the templates at the element type; the permutation copies cells
  whatever they hold.\<close>

fun moe_permute_sycl :: "DType \<Rightarrow> 32 word list \<Rightarrow> int list \<Rightarrow> nat \<Rightarrow> nat \<Rightarrow> nat \<Rightarrow> nat \<Rightarrow> nat list \<Rightarrow> nat list \<Rightarrow> nat list \<Rightarrow>
    32 word perm_state \<Rightarrow> 32 word perm_state option" where
  "moe_permute_sycl DF32 hidden ids n_tokens top_k hidden_dim n_experts o1 o2 o4 s =
     moe_permute hidden ids n_tokens top_k hidden_dim n_experts o1 o2 o4 s"
| "moe_permute_sycl DF16 hidden ids n_tokens top_k hidden_dim n_experts o1 o2 o4 s =
     moe_permute hidden ids n_tokens top_k hidden_dim n_experts o1 o2 o4 s"
| "moe_permute_sycl DBF16 hidden ids n_tokens top_k hidden_dim n_experts o1 o2 o4 s =
     moe_permute hidden ids n_tokens top_k hidden_dim n_experts o1 o2 o4 s"

definition moe_unpermute_weighted_reduce_sycl :: "DType \<Rightarrow> 32 word list \<Rightarrow> int list \<Rightarrow> f32 list \<Rightarrow> nat \<Rightarrow> nat \<Rightarrow> nat list \<Rightarrow>
    32 word list \<Rightarrow> 32 word list option" where
  "moe_unpermute_weighted_reduce_sycl dt = moe_unpermute_weighted_reduce (elem_ld dt) (elem_st dt)"

lemma moe_permute_sycl_eq: "moe_permute_sycl dt = moe_permute"
  by (cases dt) (auto intro!: ext)

subsection \<open>Counts and segments\<close>

text \<open>\<open>pairs_of ids D e\<close>: the routed pairs of \<open>D\<close> that chose expert \<open>e\<close>.\<close>

definition pairs_of :: "int list \<Rightarrow> nat set \<Rightarrow> nat \<Rightarrow> nat set" where
  "pairs_of ids D e = {p \<in> D. ids ! p = int e}"

definition seg_base :: "int list \<Rightarrow> nat \<Rightarrow> nat" where
  "seg_base ids e = (\<Sum>e'<e. card (pairs_of ids {..<length ids} e'))"

lemma pairs_of_insert: "pairs_of ids (insert p D) e = (if ids ! p = int e then insert p (pairs_of ids D e) else pairs_of ids D e)"
  by (auto simp: pairs_of_def)

lemma finite_pairs_of [simp]: "finite D \<Longrightarrow> finite (pairs_of ids D e)"
  by (simp add: pairs_of_def)

lemma card_pairs_of_insert:
  "finite D \<Longrightarrow> p \<notin> D \<Longrightarrow> card (pairs_of ids (insert p D) e) = card (pairs_of ids D e) + (if ids ! p = int e then 1 else 0)"
  by (simp add: pairs_of_insert) (simp add: pairs_of_def)

lemma seg_base_Suc: "seg_base ids (Suc e) = seg_base ids e + card (pairs_of ids {..<length ids} e)"
  by (simp add: seg_base_def)

lemma seg_base_mono: "e \<le> e' \<Longrightarrow> seg_base ids e \<le> seg_base ids e'"
  unfolding seg_base_def by (intro sum_mono2) auto

lemma seg_base_le: "seg_base ids n \<le> length ids"
proof -
  have "seg_base ids n = card (\<Union>e\<in>{..<n}. pairs_of ids {..<length ids} e)"
    unfolding seg_base_def by (subst card_UN_disjoint) (auto simp: pairs_of_def)
  also have "\<dots> \<le> card {..<length ids}" by (intro card_mono) (auto simp: pairs_of_def)
  finally show ?thesis by simp
qed

lemma seg_disjoint: "e < e' \<Longrightarrow> seg_base ids e + card (pairs_of ids {..<length ids} e) \<le> seg_base ids e'"
  using seg_base_mono [of "Suc e" e' ids] by (simp add: seg_base_Suc)

lemma valid_id_iff: "valid_id E i \<longleftrightarrow> (\<exists>e<E. i = int e)"
  by (auto simp: valid_id_def)

subsection \<open>The four launches\<close>

lemma permute_reset_ok:
  assumes "schedule n ord" "E \<le> n" "length rows = E"
  shows "foldM (permute_reset E) ord rows = Some (replicate E 0)"
proof -
  have "\<exists>r. foldM (permute_reset E) ord rows = Some r \<and> (length r = E \<and> (\<forall>e<E. e \<in> {..<n} \<longrightarrow> r ! e = 0))"
    by (rule foldM_schedule [OF assms(1), where P = "\<lambda>D r. length r = E \<and> (\<forall>e<E. e \<in> D \<longrightarrow> r ! e = 0)"])
       (use assms in \<open>auto simp: permute_reset_def nth_list_update\<close>)
  then show ?thesis using assms(2) by (auto intro!: nth_equalityI)
qed

lemma permute_count_ok:
  assumes "schedule (length ids) ord"
  shows "foldM (permute_count ids E) ord (replicate E 0) =
    Some (map (\<lambda>e. int (card (pairs_of ids {..<length ids} e))) [0..<E])"
proof -
  have "\<exists>r. foldM (permute_count ids E) ord (replicate E 0) = Some r \<and>
    (length r = E \<and> finite {..<length ids} \<and> (\<forall>e<E. r ! e = int (card (pairs_of ids {..<length ids} e))))"
  proof (rule foldM_schedule [OF assms, where P = "\<lambda>D r. length r = E \<and> finite D \<and> (\<forall>e<E. r ! e = int (card (pairs_of ids D e)))"])
    show "length (replicate E (0::int)) = E \<and> finite ({}::nat set) \<and> (\<forall>e<E. replicate E 0 ! e = int (card (pairs_of ids {} e)))"
      by (simp add: pairs_of_def)
  next
    fix D i s assume i: "i < length ids" "i \<notin> D"
      and s: "length s = E \<and> finite D \<and> (\<forall>e<E. s ! e = int (card (pairs_of ids D e)))"
    show "\<exists>s'. permute_count ids E i s = Some s' \<and>
        (length s' = E \<and> finite (insert i D) \<and> (\<forall>e<E. s' ! e = int (card (pairs_of ids (insert i D) e))))"
    proof (cases "valid_id E (ids ! i)")
      case True
      then obtain e where e: "e < E" "ids ! i = int e" by (auto simp: valid_id_iff)
      then show ?thesis using i s True
        by (auto simp: permute_count_def card_pairs_of_insert nth_list_update)
    next
      case False
      then have "ids ! i \<noteq> int e" if "e < E" for e using that by (auto simp: valid_id_iff)
      then show ?thesis using i s False by (simp add: permute_count_def card_pairs_of_insert)
    qed
  qed
  then show ?thesis by (auto intro!: nth_equalityI)
qed

lemma permute_scan_ok:
  assumes "length curs = E"
  shows "permute_scan E (map (\<lambda>e. int (card (pairs_of ids {..<length ids} e))) [0..<E]) curs =
    Some (map (\<lambda>e. int (seg_base ids e)) [0..<E])"
proof -
  let ?rows = "map (\<lambda>e. int (card (pairs_of ids {..<length ids} e))) [0..<E]"
  let ?P = "\<lambda>k st. fst st = int (seg_base ids k) \<and> length (snd st) = E \<and> (\<forall>e<k. snd st ! e = int (seg_base ids e))"
  have "\<exists>st. foldM (\<lambda>e (acc, curs). do {
         curs \<leftarrow> wr curs e acc;
         r \<leftarrow> rd ?rows e;
         Some (acc + r, curs) }) [0..<E] (0, curs) = Some st \<and> ?P E st"
    by (rule foldM_upt) (use assms in \<open>auto simp: seg_base_def nth_list_update less_Suc_eq\<close>)
  then obtain acc c where "foldM (\<lambda>e (acc, curs). do {
         curs \<leftarrow> wr curs e acc;
         r \<leftarrow> rd ?rows e;
         Some (acc + r, curs) }) [0..<E] (0, curs) = Some (acc, c)" "length c = E" "\<forall>e<E. c ! e = int (seg_base ids e)"
    by auto
  then show ?thesis by (auto simp: permute_scan_def intro!: nth_equalityI)
qed

text \<open>What the scatter has done after the pairs in \<open>D\<close>: cursors count, the map is injective into the
  expert's segment, and every mapped row is the token's hidden row.\<close>

definition scattered :: "'t list \<Rightarrow> int list \<Rightarrow> nat \<Rightarrow> nat \<Rightarrow> nat \<Rightarrow> nat set \<Rightarrow> 't perm_state \<Rightarrow> bool" where
  "scattered hidden ids E top_k hdim D s \<longleftrightarrow> finite D \<and>
     length (row_map s) = length ids \<and> length (cursors s) = E \<and> length (permuted s) = length ids * hdim \<and>
     (\<forall>e<E. cursors s ! e = int (seg_base ids e + card (pairs_of ids D e))) \<and>
     (\<forall>p\<in>D. if valid_id E (ids ! p) then
         (\<exists>r. row_map s ! p = int r \<and> seg_base ids (nat (ids ! p)) \<le> r \<and>
            r < seg_base ids (nat (ids ! p)) + card (pairs_of ids D (nat (ids ! p))) \<and>
            (\<forall>i<hdim. permuted s ! (r * hdim + i) = hidden ! (p div top_k * hdim + i)))
       else row_map s ! p = -1) \<and>
     (\<forall>p\<in>D. \<forall>p'\<in>D. valid_id E (ids ! p) \<and> valid_id E (ids ! p') \<and> p \<noteq> p' \<longrightarrow> row_map s ! p \<noteq> row_map s ! p')"

lemma copy_row:
  assumes "dst * hdim + hdim \<le> length pm" "src + hdim \<le> length hidden"
  shows "\<exists>pm'. foldM (\<lambda>i pm. do { x \<leftarrow> rd hidden (src + i); wr pm (dst * hdim + i) x }) [0..<hdim] pm = Some pm' \<and>
    writes {dst * hdim..<dst * hdim + hdim} (\<lambda>a. hidden ! (src + (a - dst * hdim))) pm pm'"
  by (rule store_loop) (use assms in auto)

lemma scattered_row:
  assumes "scattered hidden ids E top_k hdim D s" "q \<in> D" "valid_id E (ids ! q)"
  shows "\<exists>r. row_map s ! q = int r \<and> seg_base ids (nat (ids ! q)) \<le> r \<and>
    r < seg_base ids (nat (ids ! q)) + card (pairs_of ids D (nat (ids ! q))) \<and>
    (\<forall>i<hdim. permuted s ! (r * hdim + i) = hidden ! (q div top_k * hdim + i))"
proof -
  have "\<forall>p\<in>D. if valid_id E (ids ! p) then (\<exists>r. row_map s ! p = int r \<and> seg_base ids (nat (ids ! p)) \<le> r \<and>
      r < seg_base ids (nat (ids ! p)) + card (pairs_of ids D (nat (ids ! p))) \<and>
      (\<forall>i<hdim. permuted s ! (r * hdim + i) = hidden ! (p div top_k * hdim + i))) else row_map s ! p = -1"
    using assms(1) unfolding scattered_def by blast
  from bspec [OF this assms(2)] assms(3) show ?thesis by simp
qed

lemma scatter_fresh:
  assumes s: "scattered hidden ids E top_k hdim D s" and D: "D \<subseteq> {..<length ids}" and p: "p < length ids" "p \<notin> D"
    and e: "e < E" "ids ! p = int e"
  defines "dst \<equiv> seg_base ids e + card (pairs_of ids D e)"
  shows "dst < length ids" "cursors s ! e = int dst" "length (cursors s) = E"
    "\<And>p'. p' \<in> D \<Longrightarrow> valid_id E (ids ! p') \<Longrightarrow> row_map s ! p' \<noteq> int dst"
proof -
  have "card (pairs_of ids (insert p D) e) \<le> card (pairs_of ids {..<length ids} e)"
    using D p by (intro card_mono) (auto simp: pairs_of_def)
  then have c: "card (pairs_of ids D e) < card (pairs_of ids {..<length ids} e)"
    using s p(2) e(2) by (simp add: card_pairs_of_insert scattered_def)
  then show "dst < length ids" using seg_base_le [of ids "Suc e"] by (simp add: dst_def seg_base_Suc)
  show "cursors s ! e = int dst" "length (cursors s) = E" using s e(1) by (auto simp: scattered_def dst_def)
  fix p' assume p': "p' \<in> D" "valid_id E (ids ! p')"
  then obtain e' where e': "e' < E" "ids ! p' = int e'" by (auto simp: valid_id_iff)
  obtain r where r: "row_map s ! p' = int r" "seg_base ids e' \<le> r" "r < seg_base ids e' + card (pairs_of ids D e')"
    using scattered_row [OF s p'] e' by auto
  have "card (pairs_of ids D e') \<le> card (pairs_of ids {..<length ids} e')"
    using D by (intro card_mono) (auto simp: pairs_of_def)
  then have "r < dst \<or> dst < r"
    using r c seg_disjoint [of e e' ids] seg_disjoint [of e' e ids] unfolding dst_def
    by (cases e e' rule: linorder_cases) auto
  then show "row_map s ! p' \<noteq> int dst" using r(1) by auto
qed

lemma scatter_step:
  assumes s: "scattered hidden ids E top_k hdim D s" and D: "D \<subseteq> {..<length ids}" and p: "p < length ids" "p \<notin> D"
    and h: "length ids \<le> T * top_k" "T * hdim \<le> length hidden"
  shows "\<exists>s'. permute_scatter hidden ids E top_k hdim p s = Some s' \<and> scattered hidden ids E top_k hdim (insert p D) s' \<and>
    rows_per_expert s' = rows_per_expert s"
proof (cases "valid_id E (ids ! p)")
  case False
  then have n: "\<And>e. e < E \<Longrightarrow> ids ! p \<noteq> int e" by (auto simp: valid_id_iff)
  show ?thesis
    using s p False n
    by (auto simp: permute_scatter_def scattered_def card_pairs_of_insert nth_list_update valid_id_def)
next
  case True
  then obtain e where e: "e < E" "ids ! p = int e" by (auto simp: valid_id_iff)
  define dst where "dst = seg_base ids e + card (pairs_of ids D e)"
  note fr = scatter_fresh [OF s D p e, folded dst_def]
  have t: "p div top_k < T" using p(1) h(1) by (cases "top_k = 0") (auto simp: div_less_iff_less_mult)
  have src: "p div top_k * hdim + hdim \<le> length hidden" using src_row [OF t, of hdim] h(2) by linarith
  have len: "length (permuted s) = length ids * hdim" "length (row_map s) = length ids" using s by (auto simp: scattered_def)
  have dstb: "dst * hdim + hdim \<le> length (permuted s)" using src_row [OF fr(1), of hdim] len by simp
  obtain pm where pm: "foldM (\<lambda>i pm. do { x \<leftarrow> rd hidden (p div top_k * hdim + i); wr pm (dst * hdim + i) x }) [0..<hdim] (permuted s) = Some pm"
    "writes {dst * hdim..<dst * hdim + hdim} (\<lambda>a. hidden ! (p div top_k * hdim + (a - dst * hdim))) (permuted s) pm"
    using copy_row [OF dstb src] by blast
  define s' where "s' = s\<lparr>permuted := pm, row_map := (row_map s)[p := int dst], cursors := (cursors s)[e := int dst + 1]\<rparr>"
  have eq: "permute_scatter hidden ids E top_k hdim p s = Some s'"
    using p e True fr pm(1) len by (simp add: permute_scatter_def s'_def)
  have rows: "pm ! (r * hdim + i) = (if r = dst then hidden ! (p div top_k * hdim + i) else permuted s ! (r * hdim + i))"
    if "i < hdim" "r < length ids" for r i
  proof -
    have "r * hdim + i < length (permuted s)" using that len by (simp add: div_mult_add_lt)
    moreover have "r * hdim + i \<in> {dst * hdim..<dst * hdim + hdim} \<longleftrightarrow> r = dst"
    proof
      assume a: "r * hdim + i \<in> {dst * hdim..<dst * hdim + hdim}"
      show "r = dst"
      proof (rule ccontr)
        assume "r \<noteq> dst"
        with rows_apart [of r dst hdim] a that(1) show False by auto
      qed
    qed (use that in simp)
    ultimately show ?thesis using pm(2) unfolding writes_def by auto
  qed
  have fin: "finite D" using s by (simp add: scattered_def)
  have inv: "\<exists>r. row_map s' ! q = int r \<and> seg_base ids (nat (ids ! q)) \<le> r \<and>
       r < seg_base ids (nat (ids ! q)) + card (pairs_of ids (insert p D) (nat (ids ! q))) \<and>
       (\<forall>i<hdim. permuted s' ! (r * hdim + i) = hidden ! (q div top_k * hdim + i))"
    if q: "q \<in> insert p D" "valid_id E (ids ! q)" for q
  proof (cases "q = p")
    case True
    have "\<forall>i<hdim. pm ! (dst * hdim + i) = hidden ! (p div top_k * hdim + i)" using rows fr(1) by simp
    then show ?thesis using True e p len fin by (intro exI [of _ dst]) (simp add: s'_def dst_def card_pairs_of_insert)
  next
    case ne: False
    then obtain r where r: "row_map s ! q = int r" "seg_base ids (nat (ids ! q)) \<le> r"
      "r < seg_base ids (nat (ids ! q)) + card (pairs_of ids D (nat (ids ! q)))"
      "\<forall>i<hdim. permuted s ! (r * hdim + i) = hidden ! (q div top_k * hdim + i)"
      using scattered_row [OF s _ q(2)] q(1) by blast
    have "card (pairs_of ids D (nat (ids ! q))) \<le> card (pairs_of ids {..<length ids} (nat (ids ! q)))"
      using D by (intro card_mono) (auto simp: pairs_of_def)
    then have "r < length ids" using r(3) seg_base_le [of ids "Suc (nat (ids ! q))"] by (simp add: seg_base_Suc)
    moreover have "r \<noteq> dst" using fr(4) [of q] q ne r(1) by auto
    ultimately have "\<forall>i<hdim. pm ! (r * hdim + i) = hidden ! (q div top_k * hdim + i)" using rows r(4) by simp
    then show ?thesis using r ne fin p by (intro exI [of _ r]) (auto simp: s'_def card_pairs_of_insert)
  qed
  have inj: "row_map s' ! q \<noteq> row_map s' ! q'"
    if "q \<in> insert p D" "q' \<in> insert p D" "valid_id E (ids ! q)" "valid_id E (ids ! q')" "q \<noteq> q'" for q q'
  proof -
    have new: "row_map s' ! p = int dst" using p len by (simp add: s'_def)
    have keep: "row_map s' ! x = row_map s ! x" if "x \<in> D" for x
      using that p by (cases "x = p") (auto simp: s'_def)
    have old: "row_map s ! x \<noteq> row_map s ! y"
      if "x \<in> D" "y \<in> D" "valid_id E (ids ! x)" "valid_id E (ids ! y)" "x \<noteq> y" for x y
      using s that unfolding scattered_def by blast
    show ?thesis
      using that new keep old fr(4) by (metis insert_iff)
  qed
  have unmapped: "row_map s' ! q = -1" if "q \<in> insert p D" "\<not> valid_id E (ids ! q)" for q
  proof -
    have "q \<in> D" "q \<noteq> p" using that True by auto
    then show ?thesis using that s by (auto simp: s'_def scattered_def)
  qed
  have cur: "\<forall>e'<E. cursors s' ! e' = int (seg_base ids e' + card (pairs_of ids (insert p D) e'))"
    using s e fin p by (auto simp: s'_def scattered_def card_pairs_of_insert nth_list_update dst_def)
  have "scattered hidden ids E top_k hdim (insert p D) s'"
    unfolding scattered_def using inv inj unmapped cur fin s writes_length [OF pm(2)]
    by (auto simp: s'_def scattered_def)
  with eq show ?thesis by (simp add: s'_def)
qed


subsection \<open>The whole permutation\<close>

lemma seg_counts: "card (pairs_of ids {..<length ids} e) = count_list ids (int e)"
proof -
  have "card (pairs_of ids {..<length ids} e) = length (filter (\<lambda>x. x = int e) ids)"
    by (simp add: length_filter_conv_card pairs_of_def)
  moreover have "(\<lambda>x. x = int e) = (=) (int e)" by auto
  ultimately show ?thesis by (simp add: count_list_eq_length_filter)
qed

lemma seg_base_counts: "seg_base ids e = (\<Sum>e'<e. count_list ids (int e'))"
  by (simp add: seg_base_def seg_counts)

lemma scatter_launch:
  assumes o4: "schedule (length ids) o4" and h: "length ids \<le> T * top_k" "T * hdim \<le> length hidden"
    and len: "length (row_map s) = length ids" "length (permuted s) = length ids * hdim"
    and cur: "cursors s = map (\<lambda>e. int (seg_base ids e)) [0..<E]"
  shows "\<exists>s'. foldM (permute_scatter hidden ids E top_k hdim) o4 s = Some s' \<and>
    (scattered hidden ids E top_k hdim {..<length ids} s' \<and> rows_per_expert s' = rows_per_expert s \<and> {..<length ids} \<subseteq> {..<length ids})"
proof (rule foldM_schedule [OF o4, where P = "\<lambda>D s'. scattered hidden ids E top_k hdim D s' \<and>
    rows_per_expert s' = rows_per_expert s \<and> D \<subseteq> {..<length ids}"])
  show "scattered hidden ids E top_k hdim {} s \<and> rows_per_expert s = rows_per_expert s \<and> {} \<subseteq> {..<length ids}"
    using len cur by (simp add: scattered_def pairs_of_def)
next
  fix D i s' assume i: "i < length ids" "i \<notin> D" and P: "scattered hidden ids E top_k hdim D s' \<and>
    rows_per_expert s' = rows_per_expert s \<and> D \<subseteq> {..<length ids}"
  then obtain s'' where "permute_scatter hidden ids E top_k hdim i s' = Some s''"
    "scattered hidden ids E top_k hdim (insert i D) s''" "rows_per_expert s'' = rows_per_expert s'"
    using scatter_step [OF _ _ i h, of E s'] by blast
  then show "\<exists>s''. permute_scatter hidden ids E top_k hdim i s' = Some s'' \<and> scattered hidden ids E top_k hdim (insert i D) s'' \<and>
      rows_per_expert s'' = rows_per_expert s \<and> insert i D \<subseteq> {..<length ids}"
    using P i by auto
qed

text \<open>The buffers and schedules of a permutation have the sizes of the launch.\<close>

definition permute_sizes :: "'t list \<Rightarrow> int list \<Rightarrow> nat \<Rightarrow> nat \<Rightarrow> nat \<Rightarrow> nat \<Rightarrow> 't perm_state \<Rightarrow> bool" where
  "permute_sizes hidden ids n_tokens top_k hdim n_experts s \<longleftrightarrow>
     length ids = n_tokens * top_k \<and> length hidden = n_tokens * hdim \<and> length (rows_per_expert s) = n_experts \<and>
     length (row_map s) = length ids \<and> length (cursors s) = n_experts \<and> length (permuted s) = length ids * hdim"

lemma moe_permute_runs:
  assumes sz: "permute_sizes hidden ids T top_k hdim E s"
    and o: "schedule (max (length ids) E) o1" "schedule (length ids) o2" "schedule (length ids) o4"
  shows "\<exists>s'. moe_permute hidden ids T top_k hdim E o1 o2 o4 s = Some s' \<and>
    scattered hidden ids E top_k hdim {..<length ids} s' \<and> rows_per_expert s' = map (\<lambda>e. int (count_list ids (int e))) [0..<E]"
proof -
  let ?s = "s\<lparr>rows_per_expert := map (\<lambda>e. int (card (pairs_of ids {..<length ids} e))) [0..<E],
    cursors := map (\<lambda>e. int (seg_base ids e)) [0..<E]\<rparr>"
  have a: "foldM (permute_reset E) o1 (rows_per_expert s) = Some (replicate E 0)"
    using sz by (intro permute_reset_ok [OF o(1)]) (auto simp: permute_sizes_def)
  note b = permute_count_ok [OF o(2), of E]
  have c: "permute_scan E (map (\<lambda>e. int (card (pairs_of ids {..<length ids} e))) [0..<E]) (cursors s) =
      Some (map (\<lambda>e. int (seg_base ids e)) [0..<E])"
    using sz by (intro permute_scan_ok) (simp add: permute_sizes_def)
  obtain s' where "foldM (permute_scatter hidden ids E top_k hdim) o4 ?s = Some s'"
    "scattered hidden ids E top_k hdim {..<length ids} s'" "rows_per_expert s' = rows_per_expert ?s"
    using scatter_launch [OF o(3), of T top_k hdim hidden ?s E] sz by (auto simp: permute_sizes_def)
  then show ?thesis using a b c by (simp add: moe_permute_def seg_counts)
qed

text \<open>C17: under every schedule of the four launches the permutation counts the rows of each expert,
  gives every routed pair its own row inside its expert's segment (segments in expert order), copies
  the token's hidden row there, and marks a pair with an expert id outside the range by -1.\<close>

theorem moe_permute_groups:
  assumes "permute_sizes hidden ids n_tokens top_k hdim n_experts s"
    and "schedule (max (length ids) n_experts) o1" "schedule (length ids) o2" "schedule (length ids) o4"
  shows "\<exists>s'. moe_permute hidden ids n_tokens top_k hdim n_experts o1 o2 o4 s = Some s' \<and>
    rows_per_expert s' = map (\<lambda>e. int (count_list ids (int e))) [0..<n_experts] \<and>
    inj_on (\<lambda>p. row_map s' ! p) {p. p < length ids \<and> valid_id n_experts (ids ! p)} \<and>
    (\<forall>p<length ids.
       if valid_id n_experts (ids ! p)
       then \<exists>r<length ids. row_map s' ! p = int r \<and>
          (\<Sum>e<nat (ids ! p). count_list ids (int e)) \<le> r \<and> r < (\<Sum>e\<le>nat (ids ! p). count_list ids (int e)) \<and>
          (\<forall>i<hdim. permuted s' ! (r * hdim + i) = hidden ! (p div top_k * hdim + i))
       else row_map s' ! p = -1)"
proof -
  from moe_permute_runs [OF assms] obtain s' where s': "moe_permute hidden ids n_tokens top_k hdim n_experts o1 o2 o4 s = Some s'"
    "scattered hidden ids n_experts top_k hdim {..<length ids} s'" "rows_per_expert s' = map (\<lambda>e. int (count_list ids (int e))) [0..<n_experts]"
    by blast
  have "\<exists>r<length ids. row_map s' ! p = int r \<and>
          (\<Sum>e<nat (ids ! p). count_list ids (int e)) \<le> r \<and> r < (\<Sum>e\<le>nat (ids ! p). count_list ids (int e)) \<and>
          (\<forall>i<hdim. permuted s' ! (r * hdim + i) = hidden ! (p div top_k * hdim + i))"
    if p: "p < length ids" "valid_id n_experts (ids ! p)" for p
  proof -
    from scattered_row [OF s'(2) _ p(2)] p(1) obtain r where r: "row_map s' ! p = int r" "seg_base ids (nat (ids ! p)) \<le> r"
      "r < seg_base ids (nat (ids ! p)) + card (pairs_of ids {..<length ids} (nat (ids ! p)))"
      "\<forall>i<hdim. permuted s' ! (r * hdim + i) = hidden ! (p div top_k * hdim + i)" by auto
    have "r < seg_base ids (Suc (nat (ids ! p)))" using r(3) by (simp add: seg_base_Suc)
    moreover from this seg_base_le [of ids "Suc (nat (ids ! p))"] have "r < length ids" by simp
    ultimately show ?thesis using r by (auto simp: seg_base_counts lessThan_Suc_atMost)
  qed
  moreover have "row_map s' ! p = -1" if "p < length ids" "\<not> valid_id n_experts (ids ! p)" for p
    using s'(2) that unfolding scattered_def by (metis lessThan_iff)
  moreover have "inj_on (\<lambda>p. row_map s' ! p) {p. p < length ids \<and> valid_id n_experts (ids ! p)}"
    using s'(2) unfolding scattered_def inj_on_def by (metis (mono_tags, lifting) lessThan_iff mem_Collect_eq)
  ultimately show ?thesis using s'(1,3) by auto
qed

theorem moe_permute_groups_witness:
  "\<exists>s'. moe_permute ''ab'' [1, 0] 2 1 1 2 [1, 0] [1, 0] [0, 1]
       \<lparr>permuted = ''xx'', rows_per_expert = [9, 9], row_map = [0, 0], cursors = [0, 0]\<rparr> = Some s' \<and>
     rows_per_expert s' = [1, 1]"
proof -
  have o: "schedule (max (length [1, 0 :: int]) 2) [1, 0]" "schedule (length [1, 0 :: int]) [1, 0]" "schedule (length [1, 0 :: int]) [0, 1]"
    by (auto simp: schedule_def)
  have u: "map (\<lambda>e. int (count_list [1, 0] (int e))) [0..<2] = [1, 1]" by (simp add: upt_rec)
  have z: "permute_sizes ''ab'' [1, 0] 2 1 1 2 \<lparr>permuted = ''xx'', rows_per_expert = [9, 9], row_map = [0, 0], cursors = [0, 0]\<rparr>"
    by (simp add: permute_sizes_def)
  from moe_permute_groups [OF z o] u show ?thesis by metis
qed

subsection \<open>Permute, then reduce\<close>

lemma unpermute_item_ok:
  assumes s: "scattered hidden ids E top_k hdim {..<length ids} s" and l: "length ids = T * top_k" "length topk_weights = T * top_k"
    and i: "idx < T * hdim" "length out = T * hdim"
  shows "unpermute_item ld st (permuted s) (row_map s) topk_weights top_k hdim idx out =
    wr out idx (st (fold (\<lambda>j acc. if valid_id E (ids ! (idx div hdim * top_k + j))
       then acc + topk_weights ! (idx div hdim * top_k + j) * ld (hidden ! (idx div hdim * hdim + idx mod hdim)) else acc) [0..<top_k] 0))"
proof -
  let ?t = "idx div hdim" and ?i = "idx mod hdim"
  have h: "0 < hdim" using i by (cases hdim) auto
  have t: "?t < T" using i h by (simp add: div_less_iff_less_mult)
  let ?F = "\<lambda>j acc. do { r \<leftarrow> rd (row_map s) (?t * top_k + j);
         if r < 0 then Some acc
         else do { w \<leftarrow> rd topk_weights (?t * top_k + j);
           x \<leftarrow> rd (permuted s) (nat r * hdim + ?i);
           Some (acc + w * ld x) } }"
  let ?G = "\<lambda>j acc. if valid_id E (ids ! (?t * top_k + j))
       then acc + topk_weights ! (?t * top_k + j) * ld (hidden ! (?t * hdim + ?i)) else acc"
  have "?F j acc = Some (?G j acc)"
    if j: "j < top_k" for j acc
  proof -
    let ?p = "?t * top_k + j"
    have p: "?p < length ids" using t j l by (simp add: div_mult_add_lt)
    have pt: "?p div top_k = ?t" using j by simp
    have len: "length (row_map s) = length ids" "length (permuted s) = length ids * hdim" using s by (auto simp: scattered_def)
    show ?thesis
    proof (cases "valid_id E (ids ! ?p)")
      case True
      obtain r where r: "row_map s ! ?p = int r" "r < seg_base ids (nat (ids ! ?p)) + card (pairs_of ids {..<length ids} (nat (ids ! ?p)))"
        "\<forall>i<hdim. permuted s ! (r * hdim + i) = hidden ! (?p div top_k * hdim + i)"
        using scattered_row [OF s _ True] p by auto
      have "r < length ids" using r(2) seg_base_le [of ids "Suc (nat (ids ! ?p))"] by (simp add: seg_base_Suc)
      then have "r * hdim + ?i < length ids * hdim" using h by (simp add: div_mult_add_lt)
      then show ?thesis using r True p l len h pt by simp
    next
      case False
      then have "row_map s ! ?p = -1" using s p unfolding scattered_def by (metis lessThan_iff)
      then show ?thesis using False p len by simp
    qed
  qed
  then have "foldM ?F [0..<top_k] 0 = Some (fold ?G [0..<top_k] 0)" by (intro foldM_pure') simp
  then show ?thesis by (simp add: unpermute_item_def Let_def)
qed

text \<open>C18: permuting the tokens by expert and reducing back gives, bit for bit and whatever order the
  device ran the work-items of any launch in, each token's hidden row times its weights, accumulated
  over its top-k choices in order; choices with an invalid expert id are skipped.\<close>

theorem moe_permute_unpermute:
  assumes "permute_sizes hidden ids n_tokens top_k hdim n_experts s" "length topk_weights = length ids"
    and "schedule (max (length ids) n_experts) o1" "schedule (length ids) o2" "schedule (length ids) o4"
    and "schedule (n_tokens * hdim) o5" "length out = n_tokens * hdim"
  shows "\<exists>s'. moe_permute_sycl dt hidden ids n_tokens top_k hdim n_experts o1 o2 o4 s = Some s' \<and>
    moe_unpermute_weighted_reduce_sycl dt (permuted s') (row_map s') topk_weights top_k hdim o5 out =
      Some (map (\<lambda>idx. let t = idx div hdim; i = idx mod hdim in
        elem_st dt (fold (\<lambda>j acc. if valid_id n_experts (ids ! (t * top_k + j))
             then acc + topk_weights ! (t * top_k + j) * elem_ld dt (hidden ! (t * hdim + i)) else acc) [0..<top_k] 0))
        [0..<n_tokens * hdim])"
proof -
  from moe_permute_runs [OF assms(1,3-5)] obtain s' where s': "moe_permute hidden ids n_tokens top_k hdim n_experts o1 o2 o4 s = Some s'"
    "scattered hidden ids n_experts top_k hdim {..<length ids} s'" by blast
  have l: "length ids = n_tokens * top_k" "length topk_weights = n_tokens * top_k" using assms(1,2) by (auto simp: permute_sizes_def)
  have "moe_unpermute_weighted_reduce (elem_ld dt) (elem_st dt) (permuted s') (row_map s') topk_weights top_k hdim o5 out =
      Some (map (\<lambda>idx. elem_st dt (fold (\<lambda>j acc. if valid_id n_experts (ids ! (idx div hdim * top_k + j))
             then acc + topk_weights ! (idx div hdim * top_k + j) * elem_ld dt (hidden ! (idx div hdim * hdim + idx mod hdim)) else acc) [0..<top_k] 0))
        [0..<n_tokens * hdim])"
    unfolding moe_unpermute_weighted_reduce_def
    using unpermute_item_ok [OF s'(2) l] by (intro launch_store [OF assms(6,7)]) blast
  then show ?thesis using s'(1) by (simp add: Let_def moe_permute_sycl_eq moe_unpermute_weighted_reduce_sycl_def)
qed


theorem moe_permute_unpermute_witness:
  "\<exists>s'. moe_permute_sycl DF32 [0x40000000, 0x40400000] [1, 0] 2 1 1 2 [1, 0] [1, 0] [1, 0]
       \<lparr>permuted = [0, 0], rows_per_expert = [9, 9], row_map = [0, 0], cursors = [0, 0]\<rparr> = Some s' \<and>
     moe_unpermute_weighted_reduce_sycl DF32 (permuted s') (row_map s') [1, 1] 1 1 [1, 0] [0, 0] = Some [0x40000000, 0x40400000]"
proof -
  let ?s = "\<lparr>permuted = [0, 0 :: 32 word], rows_per_expert = [9, 9], row_map = [0, 0], cursors = [0, 0]\<rparr>"
  have o: "schedule (max (length [1, 0 :: int]) 2) [1, 0]" "schedule (length [1, 0 :: int]) [1, 0]" "schedule (length [1, 0 :: int]) [1, 0]"
    "schedule (2 * 1) [1, 0]" by (auto simp: schedule_def less_2_cases_iff)
  have z: "permute_sizes [0x40000000, 0x40400000] [1, 0] 2 1 1 2 ?s" by (simp add: permute_sizes_def)
  have u: "[0..<2] = [0, 1::nat]" by (simp add: upt_rec)
  show ?thesis
    using moe_permute_unpermute [OF z _ o, of "[1, 1]" "[0, 0]" DF32] u by (simp add: valid_id_def f32_eval)
qed

section \<open>Top-k routing\<close>

definition kMaxK :: nat where "kMaxK = 16"

definition fmax :: "'v::ord \<Rightarrow> 'v \<Rightarrow> 'v" where
  "fmax a b = (if a < b then b else a)"

text \<open>One selection pass: the largest logit among the experts not yet taken, lowest index on ties.\<close>

definition route_pick :: "('t \<Rightarrow> 'v::ord) \<Rightarrow> 'v \<Rightarrow> 't list \<Rightarrow> nat \<Rightarrow> nat \<Rightarrow> nat list \<Rightarrow> ('v \<times> nat) option" where
  "route_pick ld ninf logits n_experts t sel = foldM (\<lambda>e (best, best_e).
     if e \<in> set sel then Some (best, best_e)
     else do {
       x \<leftarrow> rd logits (t * n_experts + e);
       Some (if ld x > best then (ld x, e) else (best, best_e)) }) [0..<n_experts] (ninf, 0)"

text \<open>Register arrays of \<open>kmax\<close> entries hold the selection.\<close>

definition topk_select :: "nat \<Rightarrow> ('t \<Rightarrow> 'v::ord) \<Rightarrow> 'v \<Rightarrow> 't list \<Rightarrow> nat \<Rightarrow> nat \<Rightarrow> nat \<Rightarrow> (nat list \<times> 'v list) option" where
  "topk_select kmax ld ninf logits n_experts k t = foldM (\<lambda>i (sel, val). do {
     (best, best_e) \<leftarrow> route_pick ld ninf logits n_experts t sel;
     if i < kmax then Some (sel @ [best_e], val @ [best]) else None }) [0..<k] ([], [])"

definition route_select :: "('t \<Rightarrow> 'v::ord) \<Rightarrow> 'v \<Rightarrow> 't list \<Rightarrow> nat \<Rightarrow> nat \<Rightarrow> nat \<Rightarrow> (nat list \<times> 'v list) option" where
  "route_select ld ninf logits n_experts k t = topk_select kMaxK ld ninf logits n_experts k t"

text \<open>The library functions \<open>ex\<close>, \<open>lg\<close> and \<open>sq\<close> (\<open>sycl::exp\<close>, \<open>log\<close>, \<open>sqrt\<close>) are parameters, \<open>c20\<close> the
  literal \<open>20.0f\<close>.  \<open>gating\<close>: 0 softmax over the selected logits, 1 sigmoid, otherwise the root of softplus.\<close>

definition route_score :: "('v \<Rightarrow> 'v) \<Rightarrow> ('v \<Rightarrow> 'v) \<Rightarrow> ('v \<Rightarrow> 'v) \<Rightarrow> 'v \<Rightarrow> int \<Rightarrow> 'v::{plus,uminus,inverse,one,ord} \<Rightarrow> 'v" where
  "route_score ex lg sq c20 gating v =
     (if gating = 1 then 1 / (1 + ex (- v))
      else sq (if v \<le> c20 then lg (1 + ex v) else v))"

definition route_weights :: "('v \<Rightarrow> 'v) \<Rightarrow> ('v \<Rightarrow> 'v) \<Rightarrow> ('v \<Rightarrow> 'v) \<Rightarrow> 'v \<Rightarrow> int \<Rightarrow> bool \<Rightarrow> 'v \<Rightarrow>
    'v::{plus,minus,uminus,times,inverse,zero,one,ord} list \<Rightarrow> 'v list" where
  "route_weights ex lg sq c20 gating renormalize routed_scaling val =
     (if gating = 0 then
        let m = fold (\<lambda>v m. fmax m v) (tl val) (hd val);
            val = map (\<lambda>v. ex (v - m)) val;
            inv = 1 / fold (\<lambda>v s. s + v) val 0
        in map (\<lambda>v. v * inv * routed_scaling) val
      else
        let val = map (route_score ex lg sq c20 gating) val;
            total = fold (\<lambda>v s. s + v) val 0;
            inv = (if renormalize \<and> total > 0 then 1 / total else 1)
        in map (\<lambda>v. v * inv * routed_scaling) val)"

definition route_item :: "('v \<Rightarrow> 'v) \<Rightarrow> ('v \<Rightarrow> 'v) \<Rightarrow> ('v \<Rightarrow> 'v) \<Rightarrow> 'v \<Rightarrow> ('t \<Rightarrow> 'v) \<Rightarrow> 'v \<Rightarrow> 't list \<Rightarrow> nat \<Rightarrow> nat \<Rightarrow> int \<Rightarrow> bool \<Rightarrow>
    'v::{plus,minus,uminus,times,inverse,zero,one,ord} \<Rightarrow> nat \<Rightarrow> int list \<times> 'v list \<Rightarrow> (int list \<times> 'v list) option" where
  "route_item ex lg sq c20 ld ninf logits n_experts k gating renormalize routed_scaling t out = do {
     (sel, val) \<leftarrow> route_select ld ninf logits n_experts k t;
     let ws = route_weights ex lg sq c20 gating renormalize routed_scaling val;
     foldM (\<lambda>i (ids, weights). do {
       ids \<leftarrow> wr ids (t * k + i) (int (sel ! i));
       weights \<leftarrow> wr weights (t * k + i) (ws ! i);
       Some (ids, weights) }) [0..<k] out }"

definition moe_route_topk :: "(f32 \<Rightarrow> f32) \<Rightarrow> (f32 \<Rightarrow> f32) \<Rightarrow> (f32 \<Rightarrow> f32) \<Rightarrow> 32 word list \<Rightarrow> nat \<Rightarrow> nat \<Rightarrow> int \<Rightarrow> bool \<Rightarrow>
    f32 \<Rightarrow> DType \<Rightarrow> nat list \<Rightarrow> int list \<times> f32 list \<Rightarrow> (int list \<times> f32 list) option" where
  "moe_route_topk ex lg sq logits n_experts k gating renormalize routed_scaling dt sched out =
     foldM (route_item ex lg sq (f32_of_int 20) (elem_ld dt) (F32 0xff800000) logits n_experts k gating
       renormalize routed_scaling) sched out"

subsection \<open>Selection\<close>

lemma route_pick_fold:
  assumes "\<And>e. e < E \<Longrightarrow> t * E + e < length logits"
  shows "route_pick ld ninf logits E t sel =
    Some (fold (amax_step (\<lambda>e. ld (logits ! (t * E + e)))) (filter (\<lambda>e. e \<notin> set sel) [0..<E]) (ninf, 0))"
proof -
  let ?f = "amax_step (\<lambda>e. ld (logits ! (t * E + e)))"
  have "route_pick ld ninf logits E t sel = Some (fold (\<lambda>e st. if e \<in> set sel then st else ?f e st) [0..<E] (ninf, 0))"
    unfolding route_pick_def
    by (rule foldM_pure') (use assms in \<open>auto simp: amax_step_def split: prod.splits\<close>)
  moreover have "fold (\<lambda>e st. if e \<in> set sel then st else ?f e st) xs a = fold ?f (filter (\<lambda>e. e \<notin> set sel) xs) a" for xs a
    by (induction xs arbitrary: a) auto
  ultimately show ?thesis by simp
qed

context key_order
begin

lemma topk_select_best:
  assumes good: "good ninf" "\<And>e. e < E \<Longrightarrow> good (f e) \<and> key ninf < key (f e)"
    and f: "\<And>e. e < E \<Longrightarrow> t * E + e < length logits \<and> f e = ld (logits ! (t * E + e))"
    and k: "k \<le> E" "k \<le> kmax"
  shows "\<exists>sel. topk_select kmax ld ninf logits E k t = Some (sel, map f sel) \<and> length sel = k \<and> set sel \<subseteq> {..<E} \<and>
    sorted_wrt (better key f) sel \<and> (\<forall>s\<in>set sel. \<forall>e\<in>{..<E} - set sel. better key f s e)"
proof -
  let ?P = "\<lambda>i st. snd st = map f (fst st) \<and> length (fst st) = i \<and> set (fst st) \<subseteq> {..<E} \<and>
    sorted_wrt (better key f) (fst st) \<and> (\<forall>s\<in>set (fst st). \<forall>e\<in>{..<E} - set (fst st). better key f s e)"
  have "\<exists>st. topk_select kmax ld ninf logits E k t = Some st \<and> ?P k st"
    unfolding topk_select_def
  proof (rule foldM_upt [where P = ?P])
    fix i st assume i: "i < k" and P: "?P i st"
    obtain sel val where st: "st = (sel, val)" by fastforce
    let ?xs = "filter (\<lambda>e. e \<notin> set sel) [0..<E]"
    have xs: "set ?xs = {..<E} - set sel" by auto
    have "card (set sel) \<le> i" using P st card_length [of sel] by simp
    moreover have "E \<le> card (set sel)" if "?xs = []"
    proof -
      have "{..<E} \<subseteq> set sel" using xs that by (metis Diff_eq_empty_iff list.set(1))
      then show ?thesis using card_mono [of "set sel" "{..<E}"] by simp
    qed
    ultimately have ne: "?xs \<noteq> []" using i k(1) by linarith
    have srt: "sorted_wrt (<) ?xs" by (simp add: sorted_wrt_filter)
    have fe: "fold (amax_step (\<lambda>e. ld (logits ! (t * E + e)))) ?xs (ninf, 0) = fold (amax_step f) ?xs (ninf, 0)"
      by (rule fold_cong) (use f in \<open>auto simp: amax_step_def\<close>)
    obtain m where m: "fold (amax_step f) ?xs (ninf, 0) = (f m, m)" "first_max key f (set ?xs) m"
      using scan_first_max [of ninf ?xs f, OF good(1) _ srt ne] good(2) by auto
    have pick: "route_pick ld ninf logits E t sel = Some (f m, m)"
      using route_pick_fold [of E t logits ld ninf sel] f fe m(1) by simp
    have "m \<in> {..<E} - set sel" using m(2) xs by (auto simp: first_max_def)
    moreover have "sorted_wrt (better key f) (sel @ [m]) \<and> (\<forall>s\<in>set (sel @ [m]). \<forall>e\<in>{..<E} - set (sel @ [m]). better key f s e)"
      using P st m(2) xs by (intro select_best) auto
    ultimately show "\<exists>s'. (case st of (sel, val) \<Rightarrow> route_pick ld ninf logits E t sel \<bind>
        (\<lambda>(best, best_e). if i < kmax then Some (sel @ [best_e], val @ [best]) else None)) = Some s' \<and> ?P (Suc i) s'"
      using P st pick i k(2) by simp
  qed auto
  then show ?thesis by fastforce
qed

lemmas route_select_best = topk_select_best [where kmax = kMaxK, folded route_select_def]

lemma fold_fmax_hd:
  assumes "\<forall>x\<in>set vs. good x \<and> key x \<le> key v" "good v"
  shows "fold (\<lambda>x m. fmax m x) vs v = v"
  using assms by (induction vs) (auto simp: fmax_def less_key)

end

lemma sorted_better_hd: "sorted_wrt (better key f) (s # sel) \<Longrightarrow> x \<in> set (map f sel) \<Longrightarrow> key x \<le> key (f s)"
  by (auto simp: better_def)

subsection \<open>The launch\<close>

lemma route_item_writes:
  assumes "route_select ld ninf logits E k t = Some (sel, val)" "t < T" "length ids = T * k" "length ws = T * k"
  shows "\<exists>ids' ws'. route_item ex lg sq c20 ld ninf logits E k g r sc t (ids, ws) = Some (ids', ws') \<and>
    writes {t * k..<t * k + k} (\<lambda>a. int (sel ! (a - t * k))) ids ids' \<and>
    writes {t * k..<t * k + k} (\<lambda>a. route_weights ex lg sq c20 g r sc val ! (a - t * k)) ws ws'"
proof -
  have b: "t * k + k \<le> T * k" using src_row [OF assms(2)] .
  have "\<exists>st. foldM (\<lambda>i (ids, weights). do {
       ids \<leftarrow> wr ids (t * k + i) (int (sel ! i));
       weights \<leftarrow> wr weights (t * k + i) (route_weights ex lg sq c20 g r sc val ! i);
       Some (ids, weights) }) [0..<k] (ids, ws) = Some st \<and>
     (writes {t * k..<t * k + k} (\<lambda>a. int (sel ! (a - t * k))) ids (fst st) \<and>
      writes {t * k..<t * k + k} (\<lambda>a. route_weights ex lg sq c20 g r sc val ! (a - t * k)) ws (snd st))"
  proof (rule foldM_upt [where P = "\<lambda>i st. writes {t * k..<t * k + i} (\<lambda>a. int (sel ! (a - t * k))) ids (fst st) \<and>
      writes {t * k..<t * k + i} (\<lambda>a. route_weights ex lg sq c20 g r sc val ! (a - t * k)) ws (snd st)"])
    fix i st assume i: "i < k" and P: "writes {t * k..<t * k + i} (\<lambda>a. int (sel ! (a - t * k))) ids (fst st) \<and>
      writes {t * k..<t * k + i} (\<lambda>a. route_weights ex lg sq c20 g r sc val ! (a - t * k)) ws (snd st)"
    obtain im wm where st: "st = (im, wm)" by fastforce
    have "length im = T * k" "length wm = T * k" using P st assms(3,4) by (auto dest: writes_length)
    then have "(case st of (ids, weights) \<Rightarrow> do {
         ids \<leftarrow> wr ids (t * k + i) (int (sel ! i));
         weights \<leftarrow> wr weights (t * k + i) (route_weights ex lg sq c20 g r sc val ! i);
         Some (ids, weights) }) = Some (im[t * k + i := int (sel ! i)], wm[t * k + i := route_weights ex lg sq c20 g r sc val ! i])"
      using st i b by simp
    then show "\<exists>s'. (case st of (ids, weights) \<Rightarrow> do {
         ids \<leftarrow> wr ids (t * k + i) (int (sel ! i));
         weights \<leftarrow> wr weights (t * k + i) (route_weights ex lg sq c20 g r sc val ! i);
         Some (ids, weights) }) = Some s' \<and>
      (writes {t * k..<t * k + Suc i} (\<lambda>a. int (sel ! (a - t * k))) ids (fst s') \<and>
       writes {t * k..<t * k + Suc i} (\<lambda>a. route_weights ex lg sq c20 g r sc val ! (a - t * k)) ws (snd s'))"
      using P st by (auto intro!: writes_Suc)
  qed auto
  then show ?thesis using assms(1) by (auto simp: route_item_def Let_def)
qed


text \<open>A token's logits, converted to float.\<close>

definition route_row :: "('t \<Rightarrow> 'v) \<Rightarrow> 't list \<Rightarrow> nat \<Rightarrow> nat \<Rightarrow> nat \<Rightarrow> 'v" where
  "route_row ld logits E t e = ld (logits ! (t * E + e))"

text \<open>What the kernel leaves for one token: the experts \<open>sel\<close> are the \<open>k\<close> best, in order.\<close>

definition routed :: "('v \<Rightarrow> int) \<Rightarrow> (nat \<Rightarrow> 'v) \<Rightarrow> nat \<Rightarrow> nat list \<Rightarrow> bool" where
  "routed key f E sel \<longleftrightarrow> set sel \<subseteq> {..<E} \<and> sorted_wrt (better key f) sel \<and>
     (\<forall>s\<in>set sel. \<forall>e\<in>{..<E} - set sel. better key f s e)"

lemma route_launch:
  assumes sched: "schedule T sched" and sz: "length logits = T * E" "length ids = T * k" "length ws = T * k"
    and k: "k \<le> E" "k \<le> kMaxK"
    and ok: "\<And>t e. t < T \<Longrightarrow> e < E \<Longrightarrow> \<not> f32_nan (route_row ld logits E t e) \<and> F32 0xff800000 < route_row ld logits E t e"
  shows "\<exists>ids' ws'. foldM (route_item ex lg sq c20 ld (F32 0xff800000) logits E k g r sc) sched (ids, ws) = Some (ids', ws') \<and>
    (\<forall>t<T. \<exists>sel. length sel = k \<and> routed f32_key (route_row ld logits E t) E sel \<and>
       (\<forall>i<k. ids' ! (t * k + i) = int (sel ! i) \<and>
          ws' ! (t * k + i) = route_weights ex lg sq c20 g r sc (map (route_row ld logits E t) sel) ! i))"
proof -
  have nn: "\<not> f32_nan (F32 0xff800000)" by (simp add: f32_eval)
  have "\<exists>sel. route_select ld (F32 0xff800000) logits E k t = Some (sel, map (route_row ld logits E t) sel) \<and> length sel = k \<and>
      routed f32_key (route_row ld logits E t) E sel" if t: "t < T" for t
    unfolding routed_def
  proof (rule f32o.route_select_best)
    show "\<not> f32_nan (F32 0xff800000)" by (rule nn)
    show "\<not> f32_nan (route_row ld logits E t e) \<and> f32_key (F32 0xff800000) < f32_key (route_row ld logits E t e)" if "e < E" for e
      using ok [OF t that] by (simp add: less_f32_def)
    show "t * E + e < length logits \<and> route_row ld logits E t e = ld (logits ! (t * E + e))" if "e < E" for e
      using that t sz by (simp add: div_mult_add_lt route_row_def)
  qed (use k in simp_all)
  then obtain S where S: "\<And>t. t < T \<Longrightarrow> route_select ld (F32 0xff800000) logits E k t = Some (S t, map (route_row ld logits E t) (S t)) \<and>
      length (S t) = k \<and> routed f32_key (route_row ld logits E t) E (S t)" by metis
  let ?c = "\<lambda>t. {t * k..<t * k + k}"
  let ?vi = "\<lambda>t a. int (S t ! (a - t * k))"
  let ?vw = "\<lambda>t a. route_weights ex lg sq c20 g r sc (map (route_row ld logits E t) (S t)) ! (a - t * k)"
  have "\<exists>ids' ws'. foldM (route_item ex lg sq c20 ld (F32 0xff800000) logits E k g r sc) sched (ids, ws) = Some (ids', ws') \<and>
      rows_done ?c ?vi ids {..<T} ids' \<and> rows_done ?c ?vw ws {..<T} ws'"
  proof (rule launch_pair [OF sched rows_own])
    fix t and im :: "int list" and wm :: "f32 list"
    assume t: "t < T" and len: "length im = length ids" "length wm = length ws"
    show "\<exists>m1 m2. route_item ex lg sq c20 ld (F32 0xff800000) logits E k g r sc t (im, wm) = Some (m1, m2) \<and>
        writes (?c t) (?vi t) im m1 \<and> writes (?c t) (?vw t) wm m2"
      using route_item_writes [OF _ t, of ld _ logits E k "S t" _ im wm] S [OF t] len sz by auto
  qed
  then obtain ids' ws' where out: "foldM (route_item ex lg sq c20 ld (F32 0xff800000) logits E k g r sc) sched (ids, ws) = Some (ids', ws')"
    "rows_done ?c ?vi ids {..<T} ids'" "rows_done ?c ?vw ws {..<T} ws'" by auto
  have "ids' ! (t * k + i) = int (S t ! i) \<and>
     ws' ! (t * k + i) = route_weights ex lg sq c20 g r sc (map (route_row ld logits E t) (S t)) ! i" if "t < T" "i < k" for t i
    using rows_done_cell [OF out(2) that(1), of "t * k + i"] rows_done_cell [OF out(3) that(1), of "t * k + i"] that sz
    by (simp add: div_mult_add_lt)
  then show ?thesis using out(1) S by blast
qed

text \<open>C19: for \<open>k\<close> at most the number of experts and the 16 registers, and logits that are numbers above
  minus infinity, every token gets the \<open>k\<close> experts of largest logit in descending order, the lower
  index first among equal logits, none twice; its weights are the gating function of those logits.\<close>

theorem moe_route_topk_best:
  assumes "schedule n_tokens sched" "length logits = n_tokens * n_experts" "length ids = n_tokens * k" "length ws = n_tokens * k"
    and "k \<le> n_experts" "k \<le> kMaxK"
    and "\<And>t e. t < n_tokens \<Longrightarrow> e < n_experts \<Longrightarrow> \<not> f32_nan (route_row (elem_ld dt) logits n_experts t e) \<and>
      F32 0xff800000 < route_row (elem_ld dt) logits n_experts t e"
  shows "\<exists>ids' ws'. moe_route_topk ex lg sq logits n_experts k gating renormalize scaling dt sched (ids, ws) = Some (ids', ws') \<and>
    (\<forall>t<n_tokens. \<exists>sel. length sel = k \<and> routed f32_key (route_row (elem_ld dt) logits n_experts t) n_experts sel \<and>
       (\<forall>i<k. ids' ! (t * k + i) = int (sel ! i) \<and>
          ws' ! (t * k + i) = route_weights ex lg sq (f32_of_int 20) gating renormalize scaling
            (map (route_row (elem_ld dt) logits n_experts t) sel) ! i))"
  unfolding moe_route_topk_def by (rule route_launch [OF assms])

theorem moe_route_topk_best_witness:
  "\<exists>ids' ws' sel. moe_route_topk id id id [0x40000000, 0x3f800000, 0x40000000] 3 2 0 False 1 DF32 [0] ([0, 0], [0, 0]) = Some (ids', ws')
    \<and> length sel = 2 \<and> routed f32_key (route_row (elem_ld DF32) [0x40000000, 0x3f800000, 0x40000000] 3 0) 3 sel"
proof -
  have ok: "\<not> f32_nan (route_row (elem_ld DF32) [0x40000000, 0x3f800000, 0x40000000] 3 t e) \<and>
      F32 0xff800000 < route_row (elem_ld DF32) [0x40000000, 0x3f800000, 0x40000000] 3 t e" if "t < 1" "e < 3" for t e
  proof -
    consider "e = 0" | "e = 1" | "e = 2" using \<open>e < 3\<close> by linarith
    then show ?thesis using \<open>t < 1\<close> by cases (simp_all add: route_row_def f32_eval less_f32_def)
  qed
  show ?thesis
    using moe_route_topk_best [of 1 "[0]" "[0x40000000, 0x3f800000, 0x40000000]" 3 "[0, 0]" 2 "[0, 0]" DF32 id id id 0 False 1, OF _ _ _ _ _ _ ok]
      schedule_upt [of 1]
    by (simp add: kMaxK_def) blast
qed

subsection \<open>Weights\<close>

lemma route_sum: "fold (\<lambda>v s. s + v) vs (a::'v::comm_monoid_add) = a + sum_list vs"
  by (induction vs arbitrary: a) (auto simp: ac_simps)

text \<open>in exact arithmetic the softmax weights, and the renormalized weights of the other gatings
  whose scores have a positive sum, add up to the scaling factor.\<close>

theorem route_weights_sum:
  fixes val :: "'v::linordered_field list"
  assumes "gating = 0 \<and> val \<noteq> [] \<and> (\<forall>x. 0 < ex x) \<or>
    gating \<noteq> 0 \<and> renormalize \<and> 0 < sum_list (map (route_score ex lg sq c20 gating) val)"
  shows "sum_list (route_weights ex lg sq c20 gating renormalize scaling val) = scaling"
proof -
  have s: "sum_list (map (\<lambda>v. v * inv * scaling) vs) = sum_list vs * inv * scaling" for inv and vs :: "'v list"
    by (induction vs) (auto simp: algebra_simps)
  show ?thesis
  proof (cases "gating = 0")
    case True
    let ?vs = "map (\<lambda>v. ex (v - fold (\<lambda>v m. fmax m v) (tl val) (hd val))) val"
    have "0 < sum_list ?vs" using assms True by (cases val) (auto intro!: add_pos_nonneg sum_list_nonneg simp: less_imp_le)
    moreover have "route_weights ex lg sq c20 gating renormalize scaling val =
        map (\<lambda>v. v * (1 / fold (\<lambda>v s. s + v) ?vs 0) * scaling) ?vs"
      unfolding route_weights_def Let_def using True by (simp only: if_True simp_thms)
    ultimately show ?thesis by (simp only: s route_sum) simp
  next
    case False
    let ?vs = "map (route_score ex lg sq c20 gating) val"
    have p: "renormalize" "0 < sum_list ?vs" using assms False by auto
    then have "route_weights ex lg sq c20 gating renormalize scaling val =
        map (\<lambda>v. v * (1 / sum_list ?vs) * scaling) ?vs"
      unfolding route_weights_def Let_def using False by (simp only: if_False route_sum add_0 if_True simp_thms)
    then show ?thesis using p by (simp only: s) simp
  qed
qed

end
