(* ===== verification/Norms.thy ===== *)
theory Norms
  imports Lanes Moe
begin

text \<open>
  The normalization kernels (\<open>rms_norm.sycl.cpp\<close>, \<open>layernorm.sycl.cpp\<close>, \<open>softmax.sycl.cpp\<close>).  One
  work-group per row: each work-item scans its elements into a register, the group combines the
  registers, and a store pass writes the row.  \<open>lanes r\<close>, or \<open>lanes r p\<close> with a pass number where an
  intermediate buffer is written, is the order in which the items of row \<open>r\<close> run a pass, and \<open>sched\<close> the
  order of the rows; the loops without vector loads are lanes of width 1.  The arithmetic is a type
  parameter, the group functions and the math library fields of a \<open>gmath\<close>, \<open>ld\<close> and \<open>st\<close> the conversions
  of the element type.
\<close>

section \<open>The kernels\<close>

definition row_partials :: "nat \<Rightarrow> nat \<Rightarrow> (nat \<Rightarrow> 'f \<Rightarrow> 'f option) \<Rightarrow> 'f \<Rightarrow> 'f list option" where
  "row_partials V n_dim body init = those (map (lane_loop V kRowThreads n_dim body init) [0..<kRowThreads])"

definition rms_norm_item :: "'f::{plus,times,inverse,zero,one} gmath \<Rightarrow> ('w \<Rightarrow> 'f) \<Rightarrow> ('f \<Rightarrow> 'w) \<Rightarrow> nat \<Rightarrow> 'w list \<Rightarrow> 'w list \<Rightarrow> nat \<Rightarrow> 'f \<Rightarrow>
    (nat \<Rightarrow> nat list) \<Rightarrow> nat \<Rightarrow> 'w list \<Rightarrow> 'w list option" where
  "rms_norm_item m ld st V x w n_dim eps lanes row out = do {
     partials \<leftarrow> row_partials V n_dim (\<lambda>i partial. do { v \<leftarrow> rd x (row * n_dim + i); let f = ld v; Some (partial + f * f) }) 0;
     let sumsq = sum_group m partials;
     let inv = rsqrt_fn m (sumsq / of_num m (int n_dim) + eps);
     row_store V kRowThreads n_dim (row * n_dim) (\<lambda>i. do { v \<leftarrow> rd x (row * n_dim + i); wv \<leftarrow> rd w i; Some (st (ld v * inv * ld wv)) }) (lanes row) out }"

definition rms_norm_typed :: "'f::{plus,times,inverse,zero,one} gmath \<Rightarrow> ('w \<Rightarrow> 'f) \<Rightarrow> ('f \<Rightarrow> 'w) \<Rightarrow> nat \<Rightarrow> 'w list \<Rightarrow> 'w list \<Rightarrow> nat \<Rightarrow> 'f \<Rightarrow>
    nat list \<Rightarrow> (nat \<Rightarrow> nat list) \<Rightarrow> 'w list \<Rightarrow> 'w list option" where
  "rms_norm_typed m ld st V x w n_dim eps sched lanes out = foldM (rms_norm_item m ld st V x w n_dim eps lanes) sched out"

definition rms_norm_sycl :: "f32 gmath \<Rightarrow> DType \<Rightarrow> 32 word list \<Rightarrow> 32 word list \<Rightarrow> nat \<Rightarrow> f32 \<Rightarrow> nat list \<Rightarrow> (nat \<Rightarrow> nat list) \<Rightarrow>
    32 word list \<Rightarrow> 32 word list option" where
  "rms_norm_sycl m dt x weight n_dim eps sched lanes out =
     rms_norm_typed m (elem_ld dt) (elem_st dt) (vec_width dt) x weight n_dim eps sched lanes out"

text \<open>Residual addition and norm; the state of the store pass is the residual and the output.\<close>

definition fused_add_item :: "'f::{plus,times,inverse,zero,one} gmath \<Rightarrow> ('w \<Rightarrow> 'f) \<Rightarrow> ('f \<Rightarrow> 'w) \<Rightarrow> 'w list \<Rightarrow> 'w list \<Rightarrow> nat \<Rightarrow> 'f \<Rightarrow>
    (nat \<Rightarrow> nat list) \<Rightarrow> nat \<Rightarrow> 'w list \<times> 'w list \<Rightarrow> ('w list \<times> 'w list) option" where
  "fused_add_item m ld st x weight n_dim eps lanes row s = do {
     let inv_dim = 1 / of_num m (int n_dim);
     partials \<leftarrow> row_partials 1 n_dim (\<lambda>i partial. do {
       xv \<leftarrow> rd x (row * n_dim + i); rv \<leftarrow> rd (fst s) (row * n_dim + i); let val = ld xv + ld rv; Some (partial + val * val) }) 0;
     let sum_squares = sum_group m partials;
     let inverse_rms = rsqrt_fn m (sum_squares * inv_dim + eps);
     foldM (\<lambda>lane. foldM (\<lambda>i (res, out). do {
         xv \<leftarrow> rd x (row * n_dim + i); rv \<leftarrow> rd res (row * n_dim + i); let val = ld xv + ld rv;
         res \<leftarrow> wr res (row * n_dim + i) (st val);
         let normalized = ld (st (val * inverse_rms));
         wv \<leftarrow> rd weight i;
         out \<leftarrow> wr out (row * n_dim + i) (st (normalized * ld wv));
         Some (res, out) }) (lane_indices 1 kRowThreads n_dim lane)) (lanes row) s }"

definition fused_add_rms_norm_typed :: "'f::{plus,times,inverse,zero,one} gmath \<Rightarrow> ('w \<Rightarrow> 'f) \<Rightarrow> ('f \<Rightarrow> 'w) \<Rightarrow> 'w list \<Rightarrow> 'w list \<Rightarrow> nat \<Rightarrow> 'f \<Rightarrow>
    nat list \<Rightarrow> (nat \<Rightarrow> nat list) \<Rightarrow> 'w list \<times> 'w list \<Rightarrow> ('w list \<times> 'w list) option" where
  "fused_add_rms_norm_typed m ld st x weight n_dim eps sched lanes s = foldM (fused_add_item m ld st x weight n_dim eps lanes) sched s"

definition fused_add_rms_norm_sycl :: "f32 gmath \<Rightarrow> DType \<Rightarrow> 32 word list \<Rightarrow> 32 word list \<Rightarrow> nat \<Rightarrow> f32 \<Rightarrow> nat list \<Rightarrow> (nat \<Rightarrow> nat list) \<Rightarrow>
    32 word list \<times> 32 word list \<Rightarrow> (32 word list \<times> 32 word list) option" where
  "fused_add_rms_norm_sycl m dt x weight n_dim eps sched lanes s =
     fused_add_rms_norm_typed m (elem_ld dt) (elem_st dt) x weight n_dim eps sched lanes s"

text \<open>Post-norm of the projection into the residual, then the pre-norm of the next layer in \<open>half_t\<close>.\<close>

definition rms_residual_item :: "'f::{plus,times,inverse,zero,one} gmath \<Rightarrow> ('w \<Rightarrow> 'f) \<Rightarrow> ('f \<Rightarrow> 'w) \<Rightarrow> ('f \<Rightarrow> 'w) \<Rightarrow> 'w list \<Rightarrow> 'w list \<Rightarrow> 'w list \<Rightarrow>
    nat \<Rightarrow> 'f \<Rightarrow> (nat \<Rightarrow> nat \<Rightarrow> nat list) \<Rightarrow> nat \<Rightarrow> 'w list \<times> 'w list \<Rightarrow> ('w list \<times> 'w list) option" where
  "rms_residual_item m ld st st16 projection post_weight next_weight n_dim eps lanes row s = do {
     let inv_dim = 1 / of_num m (int n_dim);
     parts \<leftarrow> row_partials 1 n_dim (\<lambda>i acc. do { pv \<leftarrow> rd projection (row * n_dim + i); let v = ld pv; Some (acc + v * v) }) 0;
     let proj_inv = rsqrt_fn m (sum_group m parts * inv_dim + eps);
     (res, parts) \<leftarrow> foldM (\<lambda>lane (res, parts). do {
         (res, res_ss) \<leftarrow> foldM (\<lambda>i (res, res_ss). do {
             rv \<leftarrow> rd res (row * n_dim + i); pv \<leftarrow> rd projection (row * n_dim + i); wv \<leftarrow> rd post_weight i;
             let val = ld rv + ld pv * ld wv * proj_inv;
             res \<leftarrow> wr res (row * n_dim + i) (st val);
             Some (res, res_ss + val * val) }) (lane_indices 1 kRowThreads n_dim lane) (res, 0);
         parts \<leftarrow> wr parts lane res_ss;
         Some (res, parts) }) (lanes row 0) (fst s, replicate kRowThreads 0);
     let res_inv = rsqrt_fn m (sum_group m parts * inv_dim + eps);
     out \<leftarrow> row_store 1 kRowThreads n_dim (row * n_dim) (\<lambda>i. do {
         rv \<leftarrow> rd res (row * n_dim + i); wv \<leftarrow> rd next_weight i; Some (st16 (ld rv * ld wv * res_inv)) }) (lanes row 1) (snd s);
     Some (res, out) }"

definition rms_residual_next_typed :: "'f::{plus,times,inverse,zero,one} gmath \<Rightarrow> ('w \<Rightarrow> 'f) \<Rightarrow> ('f \<Rightarrow> 'w) \<Rightarrow> ('f \<Rightarrow> 'w) \<Rightarrow> 'w list \<Rightarrow> 'w list \<Rightarrow> 'w list \<Rightarrow>
    nat \<Rightarrow> 'f \<Rightarrow> nat list \<Rightarrow> (nat \<Rightarrow> nat \<Rightarrow> nat list) \<Rightarrow> 'w list \<times> 'w list \<Rightarrow> ('w list \<times> 'w list) option" where
  "rms_residual_next_typed m ld st st16 projection post_weight next_weight n_dim eps sched lanes s =
     foldM (rms_residual_item m ld st st16 projection post_weight next_weight n_dim eps lanes) sched s"

definition rms_residual_next_sycl :: "f32 gmath \<Rightarrow> DType \<Rightarrow> 32 word list \<Rightarrow> 32 word list \<Rightarrow> 32 word list \<Rightarrow>
    nat \<Rightarrow> f32 \<Rightarrow> nat list \<Rightarrow> (nat \<Rightarrow> nat \<Rightarrow> nat list) \<Rightarrow> 32 word list \<times> 32 word list \<Rightarrow> (32 word list \<times> 32 word list) option" where
  "rms_residual_next_sycl m dt projection post_weight next_weight n_dim eps sched lanes s =
     rms_residual_next_typed m (elem_ld dt) (elem_st dt) (elem_st DF16) projection post_weight next_weight n_dim eps sched lanes s"

text \<open>Layer norm, with a bias that may be null, and softmax.\<close>

definition layernorm_item :: "'f::{plus,times,inverse,minus,zero,one} gmath \<Rightarrow> ('w \<Rightarrow> 'f) \<Rightarrow> ('f \<Rightarrow> 'w) \<Rightarrow> nat \<Rightarrow> 'w list \<Rightarrow> 'w list \<Rightarrow> 'w list option \<Rightarrow>
    nat \<Rightarrow> 'f \<Rightarrow> (nat \<Rightarrow> nat list) \<Rightarrow> nat \<Rightarrow> 'w list \<Rightarrow> 'w list option" where
  "layernorm_item m ld st V x w b n_dim eps lanes row out = do {
     partials \<leftarrow> those (map (lane_loop V kRowThreads n_dim (\<lambda>i (psum, psumsq). do {
       v \<leftarrow> rd x (row * n_dim + i); let f = ld v; Some (psum + f, psumsq + f * f) }) (0, 0)) [0..<kRowThreads]);
     let total = sum_group m (map fst partials);
     let sumsq = sum_group m (map snd partials);
     let inv_dim = 1 / of_num m (int n_dim);
     let mean = total * inv_dim;
     let var = sumsq * inv_dim - mean * mean;
     let inv = rsqrt_fn m (var + eps);
     row_store V kRowThreads n_dim (row * n_dim) (\<lambda>i. do {
       v \<leftarrow> rd x (row * n_dim + i); wv \<leftarrow> rd w i;
       let y = (ld v - mean) * inv * ld wv;
       case b of None \<Rightarrow> Some (st y) | Some b \<Rightarrow> do { bv \<leftarrow> rd b i; Some (st (y + ld bv)) } }) (lanes row) out }"

definition layernorm_typed :: "'f::{plus,times,inverse,minus,zero,one} gmath \<Rightarrow> ('w \<Rightarrow> 'f) \<Rightarrow> ('f \<Rightarrow> 'w) \<Rightarrow> nat \<Rightarrow> 'w list \<Rightarrow> 'w list \<Rightarrow> 'w list option \<Rightarrow>
    nat \<Rightarrow> 'f \<Rightarrow> nat list \<Rightarrow> (nat \<Rightarrow> nat list) \<Rightarrow> 'w list \<Rightarrow> 'w list option" where
  "layernorm_typed m ld st V x w b n_dim eps sched lanes out = foldM (layernorm_item m ld st V x w b n_dim eps lanes) sched out"

definition layernorm_sycl :: "f32 gmath \<Rightarrow> DType \<Rightarrow> 32 word list \<Rightarrow> 32 word list \<Rightarrow> 32 word list option \<Rightarrow> nat \<Rightarrow> f32 \<Rightarrow> nat list \<Rightarrow>
    (nat \<Rightarrow> nat list) \<Rightarrow> 32 word list \<Rightarrow> 32 word list option" where
  "layernorm_sycl m dt x weight bias n_dim eps sched lanes out =
     layernorm_typed m (elem_ld dt) (elem_st dt) (vec_width dt) x weight bias n_dim eps sched lanes out"

definition softmax_item :: "'f::{plus,times,inverse,minus,zero,one,ord} gmath \<Rightarrow> ('w \<Rightarrow> 'f) \<Rightarrow> ('f \<Rightarrow> 'w) \<Rightarrow> nat \<Rightarrow> 'f \<Rightarrow> 'w list \<Rightarrow> nat \<Rightarrow>
    (nat \<Rightarrow> nat list) \<Rightarrow> nat \<Rightarrow> 'w list \<Rightarrow> 'w list option" where
  "softmax_item m ld st V minus_inf x n_dim lanes row out = do {
     pmax \<leftarrow> row_partials V n_dim (\<lambda>i pmax. do { v \<leftarrow> rd x (row * n_dim + i); Some (fmax pmax (ld v)) }) minus_inf;
     let row_max = max_group m pmax;
     psum \<leftarrow> row_partials V n_dim (\<lambda>i psum. do { v \<leftarrow> rd x (row * n_dim + i); Some (psum + exp_fn m (ld v - row_max)) }) 0;
     let row_sum = sum_group m psum;
     let inv = 1 / row_sum;
     row_store V kRowThreads n_dim (row * n_dim) (\<lambda>i. do { v \<leftarrow> rd x (row * n_dim + i); Some (st (exp_fn m (ld v - row_max) * inv)) }) (lanes row) out }"

definition softmax_typed :: "'f::{plus,times,inverse,minus,zero,one,ord} gmath \<Rightarrow> ('w \<Rightarrow> 'f) \<Rightarrow> ('f \<Rightarrow> 'w) \<Rightarrow> nat \<Rightarrow> 'f \<Rightarrow> 'w list \<Rightarrow> nat \<Rightarrow>
    nat list \<Rightarrow> (nat \<Rightarrow> nat list) \<Rightarrow> 'w list \<Rightarrow> 'w list option" where
  "softmax_typed m ld st V minus_inf x n_dim sched lanes out = foldM (softmax_item m ld st V minus_inf x n_dim lanes) sched out"

definition softmax_sycl :: "f32 gmath \<Rightarrow> DType \<Rightarrow> 32 word list \<Rightarrow> nat \<Rightarrow> nat list \<Rightarrow> (nat \<Rightarrow> nat list) \<Rightarrow> 32 word list \<Rightarrow> 32 word list option" where
  "softmax_sycl m dt x n_dim sched lanes out =
     softmax_typed m (elem_ld dt) (elem_st dt) (vec_width dt) (F32 0xff800000) x n_dim sched lanes out"

section \<open>Group reductions\<close>

lemma row_partials_pure:
  assumes "0 < V" "\<And>i a. i < n \<Longrightarrow> body i a = Some (g i a)"
  shows "row_partials V n body a = Some (map (\<lambda>l. fold g (lane_indices V kRowThreads n l) a) [0..<kRowThreads])"
  unfolding row_partials_def using assms by (intro lanes_pure) auto

lemma row_partials_sum:
  fixes f :: "nat \<Rightarrow> 'a::comm_monoid_add"
  assumes "0 < V" "\<And>i a. i < n \<Longrightarrow> body i a = Some (a + f i)"
  shows "\<exists>ps. row_partials V n body 0 = Some ps \<and> sum_list ps = (\<Sum>i<n. f i)"
proof -
  have "row_partials V n body 0 = Some (map (\<lambda>l. fold (\<lambda>i a. a + f i) (lane_indices V kRowThreads n l) 0) [0..<kRowThreads])"
    by (rule row_partials_pure [OF assms])
  moreover have "(\<Sum>l\<leftarrow>[0..<kRowThreads]. fold (\<lambda>i a. a + f i) (lane_indices V kRowThreads n l) 0) = (\<Sum>i<n. f i)"
    by (simp add: fold_add_sum [OF refl] lanes_sum_eq [OF kRowThreads_pos assms(1)])
  ultimately show ?thesis by blast
qed

text \<open>What the kernels compute of row \<open>r\<close>, in exact arithmetic.\<close>

definition mean_square :: "(nat \<Rightarrow> real) \<Rightarrow> nat \<Rightarrow> real" where
  "mean_square f n = (\<Sum>i<n. f i * f i) / real n"

definition rms_scaled :: "(nat \<Rightarrow> real) \<Rightarrow> (nat \<Rightarrow> real) \<Rightarrow> nat \<Rightarrow> real \<Rightarrow> nat \<Rightarrow> real" where
  "rms_scaled f w n eps i = f i / sqrt (mean_square f n + eps) * w i"

abbreviation row_of :: "('w \<Rightarrow> real) \<Rightarrow> 'w list \<Rightarrow> nat \<Rightarrow> nat \<Rightarrow> nat \<Rightarrow> real" where
  "row_of ld x n r \<equiv> \<lambda>i. ld (x ! (r * n + i))"

lemma rms_norm_row:
  assumes "0 < V" "schedule kRowThreads (lanes r)" "r < rows" "length x = rows * n" "length w = n" "length out = rows * n"
  shows "\<exists>out'. rms_norm_item exact_math ld st V x w n eps lanes r out = Some out' \<and>
    writes (row_cells n r) (\<lambda>a. st (rms_scaled (row_of ld x n r) (\<lambda>i. ld (w ! i)) n eps (a - r * n))) out out'"
proof -
  have row: "r * n + i < rows * n" if "i < n" for i using src_row [OF assms(3), of n] that by linarith
  have "\<exists>ps. row_partials V n (\<lambda>i partial. do { v \<leftarrow> rd x (r * n + i); let f = ld v; Some (partial + f * f) }) 0 = Some ps \<and>
      sum_list ps = (\<Sum>i<n. row_of ld x n r i * row_of ld x n r i)"
    by (rule row_partials_sum [OF assms(1)]) (use row assms(4) in \<open>simp add: Let_def\<close>)
  then obtain ps where ps: "row_partials V n (\<lambda>i partial. do { v \<leftarrow> rd x (r * n + i); let f = ld v; Some (partial + f * f) }) 0 = Some ps"
      "sum_list ps = (\<Sum>i<n. row_of ld x n r i * row_of ld x n r i)" by blast
  have "\<exists>out'. row_store V kRowThreads n (r * n) (\<lambda>i. do { v \<leftarrow> rd x (r * n + i); wv \<leftarrow> rd w i;
      Some (st (ld v * (1 / sqrt (sum_list ps / real n + eps)) * ld wv)) }) (lanes r) out = Some out' \<and>
    writes (row_cells n r) (\<lambda>a. st (rms_scaled (row_of ld x n r) (\<lambda>i. ld (w ! i)) n eps (a - r * n))) out out'"
    by (rule row_store_writes [OF assms(2) kRowThreads_pos assms(1)])
      (use src_row [OF assms(3), of n] row assms(4-6) in \<open>simp_all add: rms_scaled_def mean_square_def ps(2)\<close>)
  then show ?thesis by (simp add: rms_norm_item_def ps(1) [unfolded Let_def] Let_def)
qed

lemma rms_norm_rows:
  assumes "0 < V" "schedule rows sched" "\<And>r. r < rows \<Longrightarrow> schedule kRowThreads (lanes r)"
    "length x = rows * n" "length w = n" "length out = rows * n"
  shows "rms_norm_typed exact_math ld st V x w n eps sched lanes out =
    Some (map (\<lambda>a. st (rms_scaled (row_of ld x n (a div n)) (\<lambda>i. ld (w ! i)) n eps (a mod n))) [0..<rows * n])"
  unfolding rms_norm_typed_def
  by (rule rows_launch [OF assms(2,6)]) (rule rms_norm_row [OF assms(1) assms(3)], use assms in auto)

section \<open>In-place updates\<close>

lemma foldM_lanes: "foldM (\<lambda>l. foldM body (f l)) ls s = foldM body (concat (map f ls)) s"
  by (simp add: foldM_concat foldM_map)

text \<open>Residual addition and norm of one row.\<close>

lemma fused_add_row:
  assumes "schedule kRowThreads (lanes r)" "r < rows" "length x = rows * n" "length w = n" "length res = rows * n" "length out = rows * n"
  shows "\<exists>res' out'. fused_add_item exact_math ld st x w n eps lanes r (res, out) = Some (res', out') \<and>
    writes (row_cells n r) (\<lambda>a. st (row_of ld x n r (a - r * n) + row_of ld res n r (a - r * n))) res res' \<and>
    writes (row_cells n r) (\<lambda>a. let f = (\<lambda>i. row_of ld x n r i + row_of ld res n r i); i = a - r * n in
      st (ld (st (f i / sqrt (mean_square f n + eps))) * ld (w ! i))) out out'"
proof -
  let ?f = "\<lambda>i. row_of ld x n r i + row_of ld res n r i"
  have row: "r * n + i < rows * n" if "i < n" for i using src_row [OF assms(2), of n] that by linarith
  have "\<exists>ps. row_partials 1 n (\<lambda>i partial. do { xv \<leftarrow> rd x (r * n + i); rv \<leftarrow> rd res (r * n + i); let val = ld xv + ld rv; Some (partial + val * val) }) 0 = Some ps \<and>
      sum_list ps = (\<Sum>i<n. ?f i * ?f i)"
    by (rule row_partials_sum) (use row assms(3,5) in \<open>simp_all add: Let_def\<close>)
  then obtain ps where ps: "row_partials 1 n (\<lambda>i partial. do { xv \<leftarrow> rd x (r * n + i); rv \<leftarrow> rd res (r * n + i); let val = ld xv + ld rv; Some (partial + val * val) }) 0 = Some ps"
      "sum_list ps = (\<Sum>i<n. ?f i * ?f i)" by blast
  let ?is = "concat (map (lane_indices 1 kRowThreads n) (lanes r))"
  let ?body = "\<lambda>i (res, out). do {
         xv \<leftarrow> rd x (r * n + i); rv \<leftarrow> rd res (r * n + i); let val = ld xv + ld rv;
         res \<leftarrow> wr res (r * n + i) (st val);
         let normalized = ld (st (val * (1 / sqrt (sum_list ps * (1 / real n) + eps))));
         wv \<leftarrow> rd w i;
         out \<leftarrow> wr out (r * n + i) (st (normalized * ld wv));
         Some (res, out) }"
  have "\<exists>a b. foldM ?body ?is (res, out) = Some (a, b) \<and> writes (row_cells n r) (\<lambda>c. st (?f (c - r * n))) res a \<and>
      writes (row_cells n r) (\<lambda>c. st (ld (st (?f (c - r * n) / sqrt (mean_square ?f n + eps))) * ld (w ! (c - r * n)))) out b"
    by (rule store2_loop [OF lane_indices_distinct [OF assms(1)]])
      (use src_row [OF assms(2), of n] row assms(3-6) in \<open>simp_all add: Let_def mean_square_def ps(2)\<close>)
  then show ?thesis by (simp add: fused_add_item_def ps(1) [unfolded Let_def] foldM_lanes Let_def del: One_nat_def)
qed

lemma writes_cong: "(\<And>c. c \<in> C \<Longrightarrow> v c = w c) \<Longrightarrow> writes C v b b' \<longleftrightarrow> writes C w b b'"
  by (simp add: writes_def)

lemma fused_add_rows:
  fixes x w res out :: "'w list"
  assumes "schedule rows sched" "\<And>r. r < rows \<Longrightarrow> schedule kRowThreads (lanes r)"
    "length x = rows * n" "length w = n" "length res = rows * n" "length out = rows * n"
  shows "fused_add_rms_norm_typed exact_math ld st x w n eps sched lanes (res, out) =
    Some (map (\<lambda>a. st (ld (x ! a) + ld (res ! a))) [0..<rows * n],
      map (\<lambda>a. let f = (\<lambda>i. row_of ld x n (a div n) i + row_of ld res n (a div n) i); i = a mod n in
        st (ld (st (f i / sqrt (mean_square f n + eps))) * ld (w ! i))) [0..<rows * n])"
proof -
  let ?u = "\<lambda>r i. st (row_of ld x n r i + row_of ld res n r i)"
  let ?v = "\<lambda>r i. let f = (\<lambda>i. row_of ld x n r i + row_of ld res n r i) in st (ld (st (f i / sqrt (mean_square f n + eps))) * ld (w ! i))"
  have "foldM (fused_add_item exact_math ld st x w n eps lanes) sched (res, out) =
      Some (map (\<lambda>c. ?u (c div n) (c mod n)) [0..<rows * n], map (\<lambda>c. ?v (c div n) (c mod n)) [0..<rows * n])"
  proof (rule rows_launch2 [OF assms(1,5,6)])
    fix r and a b :: "'w list" assume r: "r < rows" "length a = rows * n" "length b = rows * n" and e: "\<And>i. i < n \<Longrightarrow> a ! (r * n + i) = res ! (r * n + i)"
    have m: "mean_square (\<lambda>i. row_of ld x n r i + row_of ld a n r i) n = mean_square (\<lambda>i. row_of ld x n r i + row_of ld res n r i) n"
      unfolding mean_square_def using e by simp
    have c: "a ! (r * n + (c - r * n)) = res ! (r * n + (c - r * n))" if "c \<in> row_cells n r" for c by (rule e) (use that in auto)
    from fused_add_row [where lanes = lanes, OF assms(2) [OF r(1)] r(1) assms(3,4) r(2,3), of ld st eps] obtain a' b'
      where ab: "fused_add_item exact_math ld st x w n eps lanes r (a, b) = Some (a', b')"
        "writes (row_cells n r) (\<lambda>c. st (row_of ld x n r (c - r * n) + row_of ld a n r (c - r * n))) a a'"
        "writes (row_cells n r) (\<lambda>c. let f = (\<lambda>i. row_of ld x n r i + row_of ld a n r i); i = c - r * n in
          st (ld (st (f i / sqrt (mean_square f n + eps))) * ld (w ! i))) b b'" by blast
    have "writes (row_cells n r) (\<lambda>c. ?u r (c - r * n)) a a'" using ab(2) by (rule writes_cong [THEN iffD1, rotated]) (simp only: c)
    moreover have "writes (row_cells n r) (\<lambda>c. ?v r (c - r * n)) b b'" using ab(3) by (rule writes_cong [THEN iffD1, rotated]) (simp only: c m Let_def)
    ultimately show "\<exists>a' b'. fused_add_item exact_math ld st x w n eps lanes r (a, b) = Some (a', b') \<and>
        writes (row_cells n r) (\<lambda>c. ?u r (c - r * n)) a a' \<and> writes (row_cells n r) (\<lambda>c. ?v r (c - r * n)) b b'" using ab(1) by blast
  qed
  then show ?thesis by (simp add: fused_add_rms_norm_typed_def Let_def)
qed

lemma distinct_concat_disjoint:
  "distinct (concat (map f xs)) \<Longrightarrow> x \<in> set xs \<Longrightarrow> y \<in> set xs \<Longrightarrow> x \<noteq> y \<Longrightarrow> set (f x) \<inter> set (f y) = {}"
  by (induction xs) auto

lemma store_acc_loop:
  fixes q :: "nat \<Rightarrow> 'f::comm_monoid_add"
  assumes "distinct js" "\<And>i. i \<in> set js \<Longrightarrow> off + i < length a0" "writes ((+) off ` D) (\<lambda>c. u (c - off)) a0 a" "set js \<inter> D = {}"
    and body: "\<And>i a acc. i \<in> set js \<Longrightarrow> length a = length a0 \<Longrightarrow> a ! (off + i) = a0 ! (off + i) \<Longrightarrow> body i (a, acc) = Some (a[off + i := u i], acc + q i)"
  shows "\<exists>a'. foldM body js (a, acc) = Some (a', acc + (\<Sum>i\<leftarrow>js. q i)) \<and> writes ((+) off ` (D \<union> set js)) (\<lambda>c. u (c - off)) a0 a'"
  using assms
proof (induction js arbitrary: D a acc)
  case (Cons i js)
  have i: "off + i < length a0" "length a = length a0" using Cons.prems(2,3) by (auto dest: writes_length)
  have "off + i \<notin> (+) off ` D" using Cons.prems(4) by auto
  then have "a ! (off + i) = a0 ! (off + i)" using Cons.prems(3) i by (simp add: writes_def)
  then have b: "body i (a, acc) = Some (a[off + i := u i], acc + q i)" using Cons.prems(5) i by simp
  have "writes ((+) off ` insert i D) (\<lambda>c. u (c - off)) a0 (a[off + i := u i])"
    using Cons.prems(3) i by (auto simp: writes_def nth_list_update)
  then have "\<exists>a'. foldM body js (a[off + i := u i], acc + q i) = Some (a', acc + q i + (\<Sum>i\<leftarrow>js. q i)) \<and>
      writes ((+) off ` (insert i D \<union> set js)) (\<lambda>c. u (c - off)) a0 a'"
    using Cons.prems by (intro Cons.IH) auto
  then show ?case using b by (auto simp: ac_simps)
qed simp

text \<open>A pass of the items of a group that updates the row and leaves one partial result each.\<close>

lemma store_acc_lanes:
  fixes q :: "nat \<Rightarrow> 'f::comm_monoid_add"
  assumes "schedule T lanes" "0 < T" "0 < V" "off + n \<le> length a0"
    and body: "\<And>i a acc. i < n \<Longrightarrow> length a = length a0 \<Longrightarrow> a ! (off + i) = a0 ! (off + i) \<Longrightarrow> body i (a, acc) = Some (a[off + i := u i], acc + q i)"
  shows "\<exists>a' parts. foldM (\<lambda>lane (a, parts). do { (a, acc) \<leftarrow> foldM body (lane_indices V T n lane) (a, 0); parts \<leftarrow> wr parts lane acc; Some (a, parts) })
      lanes (a0, replicate T 0) = Some (a', parts) \<and> writes {off..<off + n} (\<lambda>c. u (c - off)) a0 a' \<and> sum_list parts = (\<Sum>i<n. q i)"
proof -
  let ?L = "lane_indices V T n"
  let ?b = "\<lambda>lane (a, parts). do { (a, acc) \<leftarrow> foldM body (?L lane) (a, 0); parts \<leftarrow> wr parts lane acc; Some (a, parts) }"
  let ?P = "\<lambda>D s. writes ((+) off ` (\<Union>l\<in>D. set (?L l))) (\<lambda>c. u (c - off)) a0 (fst s) \<and> length (snd s) = T \<and>
    (\<forall>l\<in>D. snd s ! l = (\<Sum>i\<leftarrow>?L l. q i)) \<and> D \<subseteq> {..<T}"
  note dist = lane_indices_distinct [OF assms(1-3), of n]
  have "\<exists>s. foldM ?b lanes (a0, replicate T 0) = Some s \<and> ?P {..<T} s"
  proof (rule foldM_schedule [OF assms(1), where P = ?P])
    fix D l s assume l: "l < T" "l \<notin> D" and P: "?P D s"
    obtain a parts where s: "s = (a, parts)" by (cases s)
    have lin: "l \<in> set lanes" "D \<subseteq> set lanes" using l P schedule_in [OF assms(1)] by auto
    have disj: "set (?L l) \<inter> (\<Union>l\<in>D. set (?L l)) = {}"
      using distinct_concat_disjoint [OF dist(1)] lin l(2) by fastforce
    have less: "i < n" if "i \<in> set (?L l)" for i using lane_index_less [OF assms(2,3) l(1)] that by simp
    have dl: "distinct (?L l)" using dist(1) lin(1) by (simp add: distinct_concat_iff)
    have "\<exists>a'. foldM body (?L l) (a, 0) = Some (a', 0 + (\<Sum>i\<leftarrow>?L l. q i)) \<and>
        writes ((+) off ` ((\<Union>l\<in>D. set (?L l)) \<union> set (?L l))) (\<lambda>c. u (c - off)) a0 a'"
    proof (rule store_acc_loop [OF dl])
      show "off + i < length a0" if "i \<in> set (?L l)" for i using less [OF that] assms(4) by linarith
      show "writes ((+) off ` (\<Union>l\<in>D. set (?L l))) (\<lambda>c. u (c - off)) a0 a" using P s by simp
    qed (use disj less body in auto)
    then obtain a' where a': "foldM body (?L l) (a, 0) = Some (a', 0 + (\<Sum>i\<leftarrow>?L l. q i))"
        "writes ((+) off ` ((\<Union>l\<in>D. set (?L l)) \<union> set (?L l))) (\<lambda>c. u (c - off)) a0 a'" by blast
    have "?b l s = Some (a', parts[l := (\<Sum>i\<leftarrow>?L l. q i)])" using a'(1) s l(1) P by simp
    moreover have "?P (insert l D) (a', parts[l := (\<Sum>i\<leftarrow>?L l. q i)])"
      using a'(2) P s l by (auto simp: Un_commute nth_list_update)
    ultimately show "\<exists>s'. ?b l s = Some s' \<and> ?P (insert l D) s'" by blast
  qed simp
  then obtain a' parts where r: "foldM ?b lanes (a0, replicate T 0) = Some (a', parts)" "?P {..<T} (a', parts)" by fast
  have u: "(\<Union>l<T. set (?L l)) = {..<n}"
    using dist(2) schedule_in [OF assms(1)] by (auto simp: set_eq_iff)
  have "parts = map (\<lambda>l. \<Sum>i\<leftarrow>?L l. q i) [0..<T]" using r(2) by (simp add: list_eq_iff_nth_eq)
  then have "sum_list parts = (\<Sum>i<n. q i)" using lanes_sum_eq [OF assms(2,3), of q n] by simp
  moreover have "writes {off..<off + n} (\<lambda>c. u (c - off)) a0 a'"
    using r(2) unfolding u by (simp add: lessThan_atLeast0 add.commute)
  ultimately show ?thesis using r(1) by blast
qed

definition post_normed :: "('w \<Rightarrow> real) \<Rightarrow> 'w list \<Rightarrow> 'w list \<Rightarrow> 'w list \<Rightarrow> nat \<Rightarrow> real \<Rightarrow> nat \<Rightarrow> nat \<Rightarrow> real" where
  "post_normed ld p pw res n eps r i = row_of ld res n r i + rms_scaled (row_of ld p n r) (\<lambda>i. ld (pw ! i)) n eps i"

definition next_normed :: "('w \<Rightarrow> real) \<Rightarrow> (real \<Rightarrow> 'w) \<Rightarrow> 'w list \<Rightarrow> 'w list \<Rightarrow> 'w list \<Rightarrow> 'w list \<Rightarrow> nat \<Rightarrow> real \<Rightarrow> nat \<Rightarrow> nat \<Rightarrow> real" where
  "next_normed ld st p pw nw res n eps r i =
     ld (st (post_normed ld p pw res n eps r i)) / sqrt (mean_square (post_normed ld p pw res n eps r) n + eps) * ld (nw ! i)"

lemma rms_residual_row:
  assumes "schedule kRowThreads (lanes r 0)" "schedule kRowThreads (lanes r 1)" "r < rows" "length p = rows * n" "length pw = n" "length nw = n"
    "length res = rows * n" "length out = rows * n"
  shows "\<exists>res' out'. rms_residual_item exact_math ld st st16 p pw nw n eps lanes r (res, out) = Some (res', out') \<and>
    writes (row_cells n r) (\<lambda>a. st (post_normed ld p pw res n eps r (a - r * n))) res res' \<and>
    writes (row_cells n r) (\<lambda>a. st16 (next_normed ld st p pw nw res n eps r (a - r * n))) out out'"
proof -
  have row: "r * n + i < rows * n" if "i < n" for i using src_row [OF assms(3), of n] that by linarith
  have "\<exists>ps. row_partials 1 n (\<lambda>i acc. do { pv \<leftarrow> rd p (r * n + i); let v = ld pv; Some (acc + v * v) }) 0 = Some ps \<and>
      sum_list ps = (\<Sum>i<n. row_of ld p n r i * row_of ld p n r i)"
    by (rule row_partials_sum) (use row assms(4) in \<open>simp_all add: Let_def\<close>)
  then obtain ps where ps: "row_partials 1 n (\<lambda>i acc. do { pv \<leftarrow> rd p (r * n + i); let v = ld pv; Some (acc + v * v) }) 0 = Some ps"
      "sum_list ps = (\<Sum>i<n. row_of ld p n r i * row_of ld p n r i)" by blast
  let ?val = "post_normed ld p pw res n eps r"
  let ?inv = "1 / sqrt (sum_list ps * (1 / real n) + eps)"
  let ?body = "\<lambda>i (res, res_ss). do {
             rv \<leftarrow> rd res (r * n + i); pv \<leftarrow> rd p (r * n + i); wv \<leftarrow> rd pw i;
             let val = ld rv + ld pv * ld wv * ?inv;
             res \<leftarrow> wr res (r * n + i) (st val);
             Some (res, res_ss + val * val) }"
  let ?pass = "foldM (\<lambda>lane (res, parts). do { (res, res_ss) \<leftarrow> foldM ?body (lane_indices 1 kRowThreads n lane) (res, 0); parts \<leftarrow> wr parts lane res_ss; Some (res, parts) })
      (lanes r 0) (res, replicate kRowThreads 0)"
  have "\<exists>res' parts. ?pass = Some (res', parts) \<and> writes {r * n..<r * n + n} (\<lambda>c. st (?val (c - r * n))) res res' \<and> sum_list parts = (\<Sum>i<n. ?val i * ?val i)"
  proof (rule store_acc_lanes [OF assms(1)])
    fix i a acc assume i: "i < n" "length a = length res" "a ! (r * n + i) = res ! (r * n + i)"
    have "ld (a ! (r * n + i)) + ld (p ! (r * n + i)) * ld (pw ! i) * ?inv = ?val i"
      using i by (simp add: post_normed_def rms_scaled_def mean_square_def ps(2))
    then show "?body i (a, acc) = Some (a[r * n + i := st (?val i)], acc + ?val i * ?val i)"
      using i row [OF i(1)] assms(4,5,7) by (simp add: Let_def)
  qed (use src_row [OF assms(3), of n] assms in simp_all)
  then obtain res' parts where pass: "?pass = Some (res', parts)" "writes {r * n..<r * n + n} (\<lambda>c. st (?val (c - r * n))) res res'"
      "sum_list parts = (\<Sum>i<n. ?val i * ?val i)" by blast
  have res': "length res' = rows * n" "res' ! (r * n + i) = st (?val i)" if "i < n" for i
    using pass(2) row [OF that] that assms(7) by (auto simp: writes_def)
  have "\<exists>out'. row_store 1 kRowThreads n (r * n) (\<lambda>i. do { rv \<leftarrow> rd res' (r * n + i); wv \<leftarrow> rd nw i;
      Some (st16 (ld rv * ld wv * (1 / sqrt (sum_list parts * (1 / real n) + eps)))) }) (lanes r 1) out = Some out' \<and>
    writes (row_cells n r) (\<lambda>a. st16 (next_normed ld st p pw nw res n eps r (a - r * n))) out out'"
    by (rule row_store_writes [OF assms(2)])
      (use src_row [OF assms(3), of n] row res' assms(6,8) in \<open>simp_all add: next_normed_def mean_square_def pass(3)\<close>)
  then obtain out' where out': "row_store 1 kRowThreads n (r * n) (\<lambda>i. do { rv \<leftarrow> rd res' (r * n + i); wv \<leftarrow> rd nw i;
      Some (st16 (ld rv * ld wv * (1 / sqrt (sum_list parts * (1 / real n) + eps)))) }) (lanes r 1) out = Some out'"
    "writes (row_cells n r) (\<lambda>a. st16 (next_normed ld st p pw nw res n eps r (a - r * n))) out out'" by blast
  have "rms_residual_item exact_math ld st st16 p pw nw n eps lanes r (res, out) = Some (res', out')"
    unfolding rms_residual_item_def exact_math_simps of_int_1 of_int_of_nat_eq fst_conv snd_conv Let_def ps(1) [unfolded Let_def] bind.simps
    using pass(1) out'(1) by (simp add: Let_def del: One_nat_def)
  then show ?thesis using pass(2) out'(2) by blast
qed

lemma rms_residual_rows:
  fixes p pw nw res out :: "'w list"
  assumes "schedule rows sched" "\<And>r. r < rows \<Longrightarrow> schedule kRowThreads (lanes r 0)" "\<And>r. r < rows \<Longrightarrow> schedule kRowThreads (lanes r 1)"
    "length p = rows * n" "length pw = n" "length nw = n" "length res = rows * n" "length out = rows * n"
  shows "rms_residual_next_typed exact_math ld st st16 p pw nw n eps sched lanes (res, out) =
    Some (map (\<lambda>a. st (post_normed ld p pw res n eps (a div n) (a mod n))) [0..<rows * n],
      map (\<lambda>a. st16 (next_normed ld st p pw nw res n eps (a div n) (a mod n))) [0..<rows * n])"
  unfolding rms_residual_next_typed_def
proof (rule rows_launch2 [OF assms(1,7,8)])
  fix r and a b :: "'w list" assume r: "r < rows" "length a = rows * n" "length b = rows * n" and e: "\<And>i. i < n \<Longrightarrow> a ! (r * n + i) = res ! (r * n + i)"
  have v: "post_normed ld p pw a n eps r i = post_normed ld p pw res n eps r i" if "i < n" for i using e [OF that] by (simp add: post_normed_def)
  then have "mean_square (post_normed ld p pw a n eps r) n = mean_square (post_normed ld p pw res n eps r) n" by (simp add: mean_square_def)
  then have w: "next_normed ld st p pw nw a n eps r i = next_normed ld st p pw nw res n eps r i" if "i < n" for i using v [OF that] by (simp add: next_normed_def)
  from rms_residual_row [where lanes = lanes, OF assms(2) [OF r(1)] assms(3) [OF r(1)] r(1) assms(4-6) r(2,3), of ld st st16 eps] obtain a' b'
    where ab: "rms_residual_item exact_math ld st st16 p pw nw n eps lanes r (a, b) = Some (a', b')"
      "writes (row_cells n r) (\<lambda>c. st (post_normed ld p pw a n eps r (c - r * n))) a a'"
      "writes (row_cells n r) (\<lambda>c. st16 (next_normed ld st p pw nw a n eps r (c - r * n))) b b'" by blast
  have "writes (row_cells n r) (\<lambda>c. st (post_normed ld p pw res n eps r (c - r * n))) a a'" using ab(2) by (rule writes_cong [THEN iffD1, rotated]) (subst v, auto)
  moreover have "writes (row_cells n r) (\<lambda>c. st16 (next_normed ld st p pw nw res n eps r (c - r * n))) b b'" using ab(3) by (rule writes_cong [THEN iffD1, rotated]) (subst w, auto)
  ultimately show "\<exists>a' b'. rms_residual_item exact_math ld st st16 p pw nw n eps lanes r (a, b) = Some (a', b') \<and>
      writes (row_cells n r) (\<lambda>c. st (post_normed ld p pw res n eps r (c - r * n))) a a' \<and>
      writes (row_cells n r) (\<lambda>c. st16 (next_normed ld st p pw nw res n eps r (c - r * n))) b b'" using ab(1) by blast
qed

section \<open>Layer norm and softmax\<close>

definition row_mean :: "(nat \<Rightarrow> real) \<Rightarrow> nat \<Rightarrow> real" where
  "row_mean f n = (\<Sum>i<n. f i) / real n"

definition row_variance :: "(nat \<Rightarrow> real) \<Rightarrow> nat \<Rightarrow> real" where
  "row_variance f n = (\<Sum>i<n. (f i - row_mean f n)\<^sup>2) / real n"

lemma row_variance_one_pass:
  assumes "0 < n"
  shows "mean_square f n - row_mean f n * row_mean f n = row_variance f n"
proof -
  have m: "(\<Sum>i<n. f i) = real n * row_mean f n" using assms by (simp add: row_mean_def)
  have "(\<Sum>i<n. (f i - row_mean f n)\<^sup>2) = (\<Sum>i<n. f i * f i) - 2 * row_mean f n * (\<Sum>i<n. f i) + real n * (row_mean f n)\<^sup>2"
  proof -
    have "(f i - row_mean f n)\<^sup>2 = f i * f i - 2 * row_mean f n * f i + (row_mean f n)\<^sup>2" for i
      by (simp add: power2_eq_square algebra_simps)
    then show ?thesis by (simp only: sum.distrib sum_subtractf sum_distrib_left [symmetric] sum_constant card_lessThan)
  qed
  also have "\<dots> = (\<Sum>i<n. f i * f i) - real n * (row_mean f n)\<^sup>2" unfolding m by (simp add: power2_eq_square)
  finally show ?thesis using assms by (simp add: row_variance_def mean_square_def power2_eq_square diff_divide_distrib)
qed

lemma fold_pair_sums: "fold (\<lambda>i (a, b). (a + f i, b + g i)) js (a, b) = (a + (\<Sum>i\<leftarrow>js. f i :: 'f::comm_monoid_add), b + (\<Sum>i\<leftarrow>js. g i :: 'f))"
  by (induction js arbitrary: a b) (simp_all add: ac_simps)

definition biased :: "('w \<Rightarrow> real) \<Rightarrow> 'w list option \<Rightarrow> nat \<Rightarrow> real" where
  "biased ld b i = (case b of None \<Rightarrow> 0 | Some b \<Rightarrow> ld (b ! i))"

lemma layernorm_row:
  assumes "0 < V" "schedule kRowThreads (lanes r)" "r < rows" "length x = rows * n" "length w = n" "\<And>b'. b = Some b' \<Longrightarrow> length b' = n"
    "length out = rows * n" "0 < n"
  shows "\<exists>out'. layernorm_item exact_math ld st V x w b n eps lanes r out = Some out' \<and>
    writes (row_cells n r) (\<lambda>a. st ((row_of ld x n r (a - r * n) - row_mean (row_of ld x n r) n) / sqrt (row_variance (row_of ld x n r) n + eps)
      * ld (w ! (a - r * n)) + biased ld b (a - r * n))) out out'"
proof -
  let ?f = "row_of ld x n r"
  have row: "r * n + i < rows * n" if "i < n" for i using src_row [OF assms(3), of n] that by linarith
  define ps where "ps = map (\<lambda>l. (\<Sum>i\<leftarrow>lane_indices V kRowThreads n l. ?f i, \<Sum>i\<leftarrow>lane_indices V kRowThreads n l. ?f i * ?f i)) [0..<kRowThreads]"
  have "those (map (lane_loop V kRowThreads n (\<lambda>i (psum, psumsq). do { v \<leftarrow> rd x (r * n + i); Some (psum + ld v, psumsq + ld v * ld v) }) (0, 0)) [0..<kRowThreads]) =
      Some (map (\<lambda>l. fold (\<lambda>i (a, b). (a + ?f i, b + ?f i * ?f i)) (lane_indices V kRowThreads n l) (0, 0)) [0..<kRowThreads])"
    by (rule lanes_pure [OF kRowThreads_pos assms(1)]) (use row assms(4) in auto)
  then have ps: "those (map (lane_loop V kRowThreads n (\<lambda>i (psum, psumsq). do { v \<leftarrow> rd x (r * n + i); Some (psum + ld v, psumsq + ld v * ld v) }) (0, 0)) [0..<kRowThreads]) = Some ps"
    by (simp add: fold_pair_sums ps_def)
  have s: "sum_list (map fst ps) = (\<Sum>i<n. ?f i)" "sum_list (map snd ps) = (\<Sum>i<n. ?f i * ?f i)"
    by (simp_all add: ps_def comp_def lanes_sum_eq [OF kRowThreads_pos assms(1)])
  have mean: "sum_list (map fst ps) * (1 / real n) = row_mean ?f n" by (simp add: s row_mean_def)
  have var: "sum_list (map snd ps) * (1 / real n) - row_mean ?f n * row_mean ?f n = row_variance ?f n"
    using row_variance_one_pass [OF assms(8), of ?f] by (simp add: s mean_square_def)
  have "\<exists>out'. row_store V kRowThreads n (r * n) (\<lambda>i. do { v \<leftarrow> rd x (r * n + i); wv \<leftarrow> rd w i;
      case b of None \<Rightarrow> Some (st ((ld v - row_mean ?f n) * (1 / sqrt (row_variance ?f n + eps)) * ld wv))
      | Some b \<Rightarrow> do { bv \<leftarrow> rd b i; Some (st ((ld v - row_mean ?f n) * (1 / sqrt (row_variance ?f n + eps)) * ld wv + ld bv)) } }) (lanes r) out = Some out' \<and>
    writes (row_cells n r) (\<lambda>a. st ((?f (a - r * n) - row_mean ?f n) / sqrt (row_variance ?f n + eps) * ld (w ! (a - r * n)) + biased ld b (a - r * n))) out out'"
    by (rule row_store_writes [OF assms(2) kRowThreads_pos assms(1)])
      (use src_row [OF assms(3), of n] row assms(4-7) in \<open>auto simp: biased_def split: option.splits\<close>)
  then show ?thesis unfolding layernorm_item_def exact_math_simps of_int_of_nat_eq Let_def ps bind.simps mean var .
qed

lemma softmax_row:
  assumes "0 < V" "schedule kRowThreads (lanes r)" "r < rows" "length x = rows * n" "length out = rows * n"
  shows "\<exists>out'. softmax_item exact_math ld st V minus_inf x n lanes r out = Some out' \<and>
    writes (row_cells n r) (\<lambda>a. st (exp (row_of ld x n r (a - r * n)) / (\<Sum>i<n. exp (row_of ld x n r i)))) out out'"
proof -
  let ?f = "row_of ld x n r"
  have row: "r * n + i < rows * n" if "i < n" for i using src_row [OF assms(3), of n] that by linarith
  have "row_partials V n (\<lambda>i pmax. do { v \<leftarrow> rd x (r * n + i); Some (fmax pmax (ld v)) }) minus_inf =
      Some (map (\<lambda>l. fold (\<lambda>i a. fmax a (?f i)) (lane_indices V kRowThreads n l) minus_inf) [0..<kRowThreads])"
    by (rule row_partials_pure [OF assms(1)]) (use row assms(4) in simp)
  then obtain ms where ms: "row_partials V n (\<lambda>i pmax. do { v \<leftarrow> rd x (r * n + i); Some (fmax pmax (ld v)) }) minus_inf = Some ms" by blast
  define M where "M = Max (set ms)"
  have "\<exists>ps. row_partials V n (\<lambda>i psum. do { v \<leftarrow> rd x (r * n + i); Some (psum + exp (ld v - M)) }) 0 = Some ps \<and> sum_list ps = (\<Sum>i<n. exp (?f i - M))"
    by (rule row_partials_sum [OF assms(1)]) (use row assms(4) in simp)
  then obtain ps where ps: "row_partials V n (\<lambda>i psum. do { v \<leftarrow> rd x (r * n + i); Some (psum + exp (ld v - M)) }) 0 = Some ps" "sum_list ps = (\<Sum>i<n. exp (?f i - M))" by blast
  have "(\<Sum>i<n. exp (?f i - M)) = (\<Sum>i<n. exp (?f i)) / exp M" by (simp add: exp_diff sum_divide_distrib)
  then have e: "exp (y - M) * (1 / sum_list ps) = exp y / (\<Sum>i<n. exp (?f i))" for y by (simp add: ps(2) exp_diff)
  have "\<exists>out'. row_store V kRowThreads n (r * n) (\<lambda>i. do { v \<leftarrow> rd x (r * n + i); Some (st (exp (ld v - M) * (1 / sum_list ps))) }) (lanes r) out = Some out' \<and>
    writes (row_cells n r) (\<lambda>a. st (exp (?f (a - r * n)) / (\<Sum>i<n. exp (?f i)))) out out'"
    by (rule row_store_writes [OF assms(2) kRowThreads_pos assms(1)]) (use src_row [OF assms(3), of n] row assms(4,5) e in auto)
  then show ?thesis unfolding softmax_item_def exact_math_simps Let_def ms bind.simps M_def [symmetric] ps(1) .
qed

section \<open>The properties\<close>

text \<open>In exact arithmetic, for every element type, row length, schedule and order of the items of a group,
  the RMS norm scales each element by the reciprocal root mean square of its row and the weight, and the
  layer norm, although it takes the variance as mean square less squared mean in one pass, subtracts the
  mean of the row, divides by the root of its variance and applies weight and bias.\<close>

theorem norms_exact:
  assumes "0 < V" "0 < n" "schedule rows sched" "\<And>r. r < rows \<Longrightarrow> schedule kRowThreads (lanes r)"
    and "length x = rows * n" "length w = n" "\<And>b'. b = Some b' \<Longrightarrow> length b' = n" "length out = rows * n"
  shows "rms_norm_typed exact_math ld st V x w n eps sched lanes out =
      Some (map (\<lambda>a. st (ld (x ! a) / sqrt ((\<Sum>j<n. (ld (x ! (a div n * n + j)))\<^sup>2) / n + eps) * ld (w ! (a mod n)))) [0..<rows * n]) \<and>
    layernorm_typed exact_math ld st V x w b n eps sched lanes out =
      Some (map (\<lambda>a. let row = (\<lambda>j. ld (x ! (a div n * n + j))); mu = (\<Sum>j<n. row j) / n in
        st ((ld (x ! a) - mu) / sqrt ((\<Sum>j<n. (row j - mu)\<^sup>2) / n + eps) * ld (w ! (a mod n)) + biased ld b (a mod n))) [0..<rows * n])"
proof
  show "rms_norm_typed exact_math ld st V x w n eps sched lanes out =
      Some (map (\<lambda>a. st (ld (x ! a) / sqrt ((\<Sum>j<n. (ld (x ! (a div n * n + j)))\<^sup>2) / n + eps) * ld (w ! (a mod n)))) [0..<rows * n])"
    by (subst rms_norm_rows [OF assms(1,3,4,5,6,8)]) (simp_all add: rms_scaled_def mean_square_def power2_eq_square)
  let ?u = "\<lambda>r i. st ((row_of ld x n r i - row_mean (row_of ld x n r) n) / sqrt (row_variance (row_of ld x n r) n + eps) * ld (w ! i) + biased ld b i)"
  have "foldM (layernorm_item exact_math ld st V x w b n eps lanes) sched out = Some (map (\<lambda>a. ?u (a div n) (a mod n)) [0..<rows * n])"
    by (rule rows_launch [OF assms(3,8)]) (rule layernorm_row [OF assms(1) assms(4)], use assms in auto)
  then show "layernorm_typed exact_math ld st V x w b n eps sched lanes out =
      Some (map (\<lambda>a. let row = (\<lambda>j. ld (x ! (a div n * n + j))); mu = (\<Sum>j<n. row j) / n in
        st ((ld (x ! a) - mu) / sqrt ((\<Sum>j<n. (row j - mu)\<^sup>2) / n + eps) * ld (w ! (a mod n)) + biased ld b (a mod n))) [0..<rows * n])"
    by (simp add: layernorm_typed_def row_mean_def row_variance_def Let_def)
qed

text \<open>In exact arithmetic the softmax kernel returns, for every row, schedule and starting value of the maximum, the
  exponentials over their sum: each row of the result is positive and sums to 1.\<close>

theorem softmax_exact:
  assumes "0 < V" "0 < n" "schedule rows sched" "\<And>r. r < rows \<Longrightarrow> schedule kRowThreads (lanes r)" "length x = rows * n" "length out = rows * n"
  shows "\<exists>out'. softmax_typed exact_math ld id V minus_inf x n sched lanes out = Some out' \<and> length out' = rows * n \<and>
    (\<forall>r<rows. (\<Sum>i<n. out' ! (r * n + i)) = 1 \<and>
      (\<forall>i<n. out' ! (r * n + i) = exp (ld (x ! (r * n + i))) / (\<Sum>j<n. exp (ld (x ! (r * n + j))))))"
proof -
  let ?u = "\<lambda>r i. id (exp (row_of ld x n r i) / (\<Sum>j<n. exp (row_of ld x n r j)))"
  let ?out = "map (\<lambda>a. ?u (a div n) (a mod n)) [0..<rows * n]"
  have "foldM (softmax_item exact_math ld id V minus_inf x n lanes) sched out = Some ?out"
    by (rule rows_launch [OF assms(3,6)]) (rule softmax_row [OF assms(1) assms(4)], use assms in auto)
  moreover have o: "?out ! (r * n + i) = exp (ld (x ! (r * n + i))) / (\<Sum>j<n. exp (ld (x ! (r * n + j))))" if "r < rows" "i < n" for r i
  proof -
    have "r * n + i < rows * n" using src_row [OF that(1), of n] that(2) by linarith
    then show ?thesis using that(2) by simp
  qed
  moreover have "(\<Sum>i<n. ?out ! (r * n + i)) = 1" if "r < rows" for r
  proof -
    have "(\<Sum>j<n. exp (ld (x ! (r * n + j)))) > 0" using assms(2) by (intro sum_pos) auto
    moreover have "(\<Sum>i<n. ?out ! (r * n + i)) = (\<Sum>i<n. exp (ld (x ! (r * n + i))) / (\<Sum>j<n. exp (ld (x ! (r * n + j)))))"
      by (rule sum.cong [OF refl], rule o [OF that]) simp
    ultimately show ?thesis by (simp add: sum_divide_distrib [symmetric])
  qed
  ultimately show ?thesis by (intro exI [of _ ?out]) (simp add: softmax_typed_def)
qed

text \<open>C27: in exact arithmetic the fused kernels are the compositions of the plain ones: the fused addition and norm
  leaves the sum in the residual and its RMS norm in the output, and the three-pass kernel between two
  layers adds the RMS norm of the projection to the residual and returns the RMS norm of the new residual,
  whatever the schedules on either side.\<close>

theorem fused_norms_compose:
  fixes x w pw nw res out :: "real list"
  assumes "0 < V" "schedule rows sched" "\<And>r k. r < rows \<Longrightarrow> schedule kRowThreads (lanes r k)" "schedule rows sched'" "\<And>r. r < rows \<Longrightarrow> schedule kRowThreads (lanes' r)"
    and "length x = rows * n" "length w = n" "length nw = n" "length res = rows * n" "length out = rows * n"
  shows "fused_add_rms_norm_typed exact_math id id x w n eps sched (\<lambda>r. lanes r 0) (res, out) =
      (let s = map2 (+) x res in do { y \<leftarrow> rms_norm_typed exact_math id id V s w n eps sched' lanes' out; Some (s, y) }) \<and>
    rms_residual_next_typed exact_math id id id x w nw n eps sched lanes (res, out) =
      do { post \<leftarrow> rms_norm_typed exact_math id id V x w n eps sched' lanes' out;
           let s = map2 (+) res post;
           y \<leftarrow> rms_norm_typed exact_math id id V s nw n eps sched' lanes' out;
           Some (s, y) }"
proof -
  have cell: "a div n * n + (a mod n) = a" for a by simp
  have row: "(a div n) * n + j < rows * n" "n > 0" if "a < rows * n" "j < n" for a j
  proof -
    show "n > 0" using that(2) by simp
    have "a div n < rows" using that(1) by (simp add: less_mult_imp_div_less)
    then show "(a div n) * n + j < rows * n" using src_row [of "a div n" rows n] that(2) by linarith
  qed
  have ms: "mean_square f n = mean_square g n" if "\<And>j. j < n \<Longrightarrow> f j = g j" for f g using that by (simp add: mean_square_def)
  note rms = rms_norm_rows [where n = n and out = out and ld = id and st = id, OF assms(1,4,5)]
  have "rms_norm_typed exact_math id id V (map2 (+) x res) w n eps sched' lanes' out =
      Some (map (\<lambda>a. let f = (\<lambda>i. row_of id x n (a div n) i + row_of id res n (a div n) i); i = a mod n in
        id (id (id (f i / sqrt (mean_square f n + eps))) * id (w ! i))) [0..<rows * n])"
  proof -
    have "mean_square (row_of id (map2 (+) x res) n (a div n)) n = mean_square (\<lambda>i. row_of id x n (a div n) i + row_of id res n (a div n) i) n" if "a < rows * n" for a
      by (rule ms) (use row [OF that] assms(6,9) in simp)
    then show ?thesis using assms(6-10) by (subst rms) (simp_all add: rms_scaled_def Let_def)
  qed
  moreover have "map (\<lambda>a. id (id (x ! a) + id (res ! a))) [0..<rows * n] = map2 (+) x res"
    using assms(6,9) by (simp add: list_eq_iff_nth_eq)
  ultimately have 1: "fused_add_rms_norm_typed exact_math id id x w n eps sched (\<lambda>r. lanes r 0) (res, out) =
      (let s = map2 (+) x res in do { y \<leftarrow> rms_norm_typed exact_math id id V s w n eps sched' lanes' out; Some (s, y) })"
    by (simp only: Let_def bind.simps fused_add_rows [where lanes = "\<lambda>r. lanes r 0" and ld = id and st = id, OF assms(2,3,6,7,9,10)])
  define post where "post = map (\<lambda>a. rms_scaled (row_of id x n (a div n)) (\<lambda>i. w ! i) n eps (a mod n)) [0..<rows * n]"
  have p: "rms_norm_typed exact_math id id V x w n eps sched' lanes' out = Some post"
    using assms(6,7,10) by (subst rms) (simp_all add: post_def)
  have lp: "length post = rows * n" by (simp add: post_def)
  have pv: "post_normed id x w res n eps (a div n) j = (map2 (+) res post) ! (a div n * n + j)" if "a < rows * n" "j < n" for a j
    using row [OF that] that(2) assms(9) by (simp add: post_normed_def post_def)
  have "rms_norm_typed exact_math id id V (map2 (+) res post) nw n eps sched' lanes' out =
      Some (map (\<lambda>a. id (next_normed id id x w nw res n eps (a div n) (a mod n))) [0..<rows * n])"
  proof -
    have "mean_square (row_of id (map2 (+) res post) n (a div n)) n = mean_square (post_normed id x w res n eps (a div n)) n" if "a < rows * n" for a
      by (rule ms) (simp only: pv [OF that] id_apply)
    moreover have "0 < n" if "a < rows * n" for a using that by (cases n) auto
    ultimately show ?thesis using assms(8-10) lp by (subst rms) (simp_all add: rms_scaled_def next_normed_def pv)
  qed
  moreover have "map (\<lambda>a. id (post_normed id x w res n eps (a div n) (a mod n))) [0..<rows * n] = map2 (+) res post"
  proof (rule nth_equalityI)
    fix a assume a: "a < length (map (\<lambda>a. id (post_normed id x w res n eps (a div n) (a mod n))) [0..<rows * n])"
    then have "0 < n" by (cases n) auto
    then show "map (\<lambda>a. id (post_normed id x w res n eps (a div n) (a mod n))) [0..<rows * n] ! a = map2 (+) res post ! a"
      using a pv [of a "a mod n"] by simp
  qed (use assms(9) lp in simp)
  ultimately show ?thesis using 1 p
    by (simp only: Let_def bind.simps rms_residual_rows [where lanes = lanes and ld = id and st = id and ?st16.0 = id, OF assms(2) assms(3) assms(3) assms(6,7,8,9,10)] simp_thms)
qed

theorem fused_norms_compose_witness:
  "rms_residual_next_typed exact_math id id id [3] [2] [1] 1 0 [0] (\<lambda>_ _. [0..<kRowThreads]) ([1], [0 :: real]) = Some ([3], [1])"
proof -
  have "rms_residual_next_typed exact_math id id id [3] [2] [1] 1 0 [0] (\<lambda>_ _. [0..<kRowThreads]) ([1], [0 :: real]) =
      do { post \<leftarrow> rms_norm_typed exact_math id id 4 [3] [2] 1 0 [0] (\<lambda>_. [0..<kRowThreads]) [0];
           let s = map2 (+) [1] post;
           y \<leftarrow> rms_norm_typed exact_math id id 4 s [1] 1 0 [0] (\<lambda>_. [0..<kRowThreads]) [0];
           Some (s, y) }"
    by (rule fused_norms_compose [where rows = 1, THEN conjunct2]) (auto simp: schedule_def)
  moreover have r: "rms_norm_typed exact_math id id 4 [a] [b] 1 0 [0] (\<lambda>_. [0..<kRowThreads]) [0] = Some [a / \<bar>a\<bar> * b]" for a b :: real
    by (subst rms_norm_rows [where rows = 1]) (auto simp: schedule_def rms_scaled_def mean_square_def)
  ultimately show ?thesis by simp
qed

end
