(* ===== verification/Quantize.thy ===== *)
theory Quantize
  imports Qgemv Norms
begin

text \<open>
  Quantization of weights and activations, and the integer product.  \<open>quantize_int4_group\<close> packs weights in the format that
  \<open>qgemv_int4\<close> decodes (\<open>quantize.sycl.cpp\<close>), \<open>act_quant_int8\<close> quantizes activation rows (\<open>act_quant.sycl.cpp\<close>), \<open>qgemm_int8\<close>
  multiplies int8 matrices tile by tile through local memory with 32-bit accumulators (\<open>qgemm.sycl.cpp\<close>).  In exact arithmetic the
  quantizers are off by at most half a step, and the integer product is exact as long as the accumulator cannot wrap.
\<close>

section \<open>Device functions\<close>

record 'f qmath = "'f gmath" +
  abs_fn :: "'f \<Rightarrow> 'f"
  round_fn :: "'f \<Rightarrow> int"
  exp2_fn :: "'f \<Rightarrow> 'f"
  log2_fn :: "'f \<Rightarrow> 'f"
  ceil_fn :: "'f \<Rightarrow> 'f"

text \<open>\<open>round\<close> followed by the conversion to an integer: nearest, ties away from zero.\<close>

definition round_away :: "real \<Rightarrow> int" where
  "round_away x = (if x < 0 then - \<lfloor>1 / 2 - x\<rfloor> else \<lfloor>x + 1 / 2\<rfloor>)"

definition exact_qmath :: "real qmath" where
  "exact_qmath = gmath.extend exact_math \<lparr>abs_fn = abs, round_fn = round_away, exp2_fn = (\<lambda>x. 2 powr x), log2_fn = log 2, ceil_fn = (\<lambda>x. real_of_int \<lceil>x\<rceil>)\<rparr>"

lemma exact_qmath_simps [simp]:
  "sum_group exact_qmath = sum_list" "max_group exact_qmath = (\<lambda>xs. Max (set xs))" "rsqrt_fn exact_qmath x = 1 / sqrt x"
  "exp_fn exact_qmath = exp" "fma_fn exact_qmath a b c = a * b + c" "of_num exact_qmath i = real_of_int i"
  "abs_fn exact_qmath = abs" "round_fn exact_qmath = round_away" "exp2_fn exact_qmath x = 2 powr x" "log2_fn exact_qmath x = log 2 x" "ceil_fn exact_qmath x = real_of_int \<lceil>x\<rceil>"
  by (simp_all add: exact_qmath_def exact_math_def gmath.extend_def)

lemma round_away_near: "\<bar>real_of_int (round_away x) - x\<bar> \<le> 1 / 2"
proof (cases "x < 0")
  case True
  have "real_of_int \<lfloor>1 / 2 - x\<rfloor> \<le> 1 / 2 - x" "1 / 2 - x < real_of_int \<lfloor>1 / 2 - x\<rfloor> + 1" by linarith+
  then have "\<bar>- real_of_int \<lfloor>1 / 2 - x\<rfloor> - x\<bar> \<le> 1 / 2" unfolding abs_le_iff by linarith
  then show ?thesis using True by (simp add: round_away_def)
next
  case False
  have "real_of_int \<lfloor>x + 1 / 2\<rfloor> \<le> x + 1 / 2" "x + 1 / 2 < real_of_int \<lfloor>x + 1 / 2\<rfloor> + 1" by linarith+
  then have "\<bar>real_of_int \<lfloor>x + 1 / 2\<rfloor> - x\<bar> \<le> 1 / 2" unfolding abs_le_iff by linarith
  then show ?thesis using False by (simp add: round_away_def)
qed

lemma round_away_bounded:
  assumes "\<bar>x\<bar> \<le> real_of_int m"
  shows "\<bar>round_away x\<bar> \<le> m"
proof -
  have "\<bar>real_of_int (round_away x)\<bar> < real_of_int (m + 1)"
    using round_away_near [of x] assms by linarith
  then show ?thesis by linarith
qed

section \<open>Weights to int4\<close>

definition quant_item :: "('f::{times,inverse,zero,one,ord}, 'z) qmath_scheme \<Rightarrow> ('t \<Rightarrow> 'f) \<Rightarrow> ('f \<Rightarrow> 16 word) \<Rightarrow> nat \<Rightarrow> 't list \<Rightarrow> nat \<Rightarrow> nat \<Rightarrow> nat \<Rightarrow>
    8 word list \<times> 16 word list \<Rightarrow> (8 word list \<times> 16 word list) option" where
  "quant_item Q ld hst V w K grp t = (\<lambda>(wp, scales). do {
     let gpr = K div grp;
     let bpr = K div 2;
     let n = t div gpr;
     let g = t mod gpr;
     let w0 = n * K + g * grp;
     let nv = grp div V;
     amax \<leftarrow> foldM (\<lambda>v. foldM (\<lambda>k amax. do { c \<leftarrow> rd w (w0 + (v * V + k)); Some (fmax amax (abs_fn Q (ld c))) }) [0..<V]) [0..<nv] 0;
     let scale = (if 0 < amax then amax / of_num Q 7 else 1);
     let inv = 1 / scale;
     scales \<leftarrow> wr scales (n * gpr + g) (hst scale);
     let byte0 = n * bpr + (g * grp) div 2;
     wp \<leftarrow> foldM (\<lambda>v. foldM (\<lambda>h wp. do {
       let k = 2 * h;
       c0 \<leftarrow> rd w (w0 + (v * V + k));
       c1 \<leftarrow> rd w (w0 + (v * V + k + 1));
       let q0 = max (- 8) (min 7 (round_fn Q (ld c0 * inv)));
       let q1 = max (- 8) (min 7 (round_fn Q (ld c1 * inv)));
       wr wp (byte0 + (v * V + k) div 2) (word_of_int ((q0 AND 0xF) OR push_bit 4 (q1 AND 0xF))) }) [0..<V div 2]) [0..<nv] wp;
     Some (wp, scales) })"

definition quant_typed :: "('f::{times,inverse,zero,one,ord}, 'z) qmath_scheme \<Rightarrow> ('t \<Rightarrow> 'f) \<Rightarrow> ('f \<Rightarrow> 16 word) \<Rightarrow> nat \<Rightarrow> 't list \<Rightarrow> nat \<Rightarrow> nat \<Rightarrow> nat list \<Rightarrow>
    8 word list \<times> 16 word list \<Rightarrow> (8 word list \<times> 16 word list) option" where
  "quant_typed Q ld hst V w K grp sched s = foldM (quant_item Q ld hst V w K grp) sched s"

definition quantize_int4_group_sycl :: "f32 qmath \<Rightarrow> DType \<Rightarrow> 32 word list \<Rightarrow> nat \<Rightarrow> nat \<Rightarrow> nat list \<Rightarrow>
    8 word list \<times> 16 word list \<Rightarrow> (8 word list \<times> 16 word list) option" where
  "quantize_int4_group_sycl Q dt = quant_typed Q (elem_ld dt) f16_of_f32 (vec_width dt)"

section \<open>Activations to int8\<close>

definition aq_item :: "('f::{times,inverse,zero,one,ord}, 'z) qmath_scheme \<Rightarrow> ('t \<Rightarrow> 'f) \<Rightarrow> 't list \<Rightarrow> nat \<Rightarrow> (nat \<Rightarrow> nat list) \<Rightarrow> nat \<Rightarrow>
    8 word list \<times> 'f list \<Rightarrow> (8 word list \<times> 'f list) option" where
  "aq_item Q ld x cols lanes r = (\<lambda>(qo, scale). do {
     parts \<leftarrow> those (map (\<lambda>lid. foldM (\<lambda>j amax. do { c \<leftarrow> rd x (r * cols + j); Some (fmax amax (abs_fn Q (ld c))) }) (strided lid kRowThreads cols) 0) [0..<kRowThreads]);
     let amax = max_group Q parts;
     let s = (if 0 < amax then amax / of_num Q 127 else 1);
     let inv = 1 / s;
     scale \<leftarrow> wr scale r s;
     qo \<leftarrow> foldM (\<lambda>lid. foldM (\<lambda>j qo. do {
       c \<leftarrow> rd x (r * cols + j);
       let v = max (- 127) (min 127 (round_fn Q (ld c * inv)));
       wr qo (r * cols + j) (word_of_int v) }) (strided lid kRowThreads cols)) (lanes r) qo;
     Some (qo, scale) })"

definition act_quant :: "('f::{times,inverse,zero,one,ord}, 'z) qmath_scheme \<Rightarrow> ('t \<Rightarrow> 'f) \<Rightarrow> 't list \<Rightarrow> nat \<Rightarrow> nat list \<Rightarrow> (nat \<Rightarrow> nat list) \<Rightarrow>
    8 word list \<times> 'f list \<Rightarrow> (8 word list \<times> 'f list) option" where
  "act_quant Q ld x cols sched lanes s = foldM (aq_item Q ld x cols lanes) sched s"

definition act_quant_int8_sycl :: "f32 qmath \<Rightarrow> DType \<Rightarrow> 32 word list \<Rightarrow> nat \<Rightarrow> nat list \<Rightarrow> (nat \<Rightarrow> nat list) \<Rightarrow>
    8 word list \<times> f32 list \<Rightarrow> (8 word list \<times> f32 list) option" where
  "act_quant_int8_sycl Q dt = act_quant Q (elem_ld dt)"

section \<open>The int8 product\<close>

definition TS :: nat where "TS = 16"

text \<open>A work-group of 16 by 16 items computes one tile of the output.  For every tile of the inner dimension its items stage one element
  of each operand in local memory, wait, and add the products of their row and column to their own 32-bit accumulator.\<close>

definition stage_tile :: "8 word list \<Rightarrow> 8 word list \<Rightarrow> nat \<Rightarrow> nat \<Rightarrow> nat \<Rightarrow> nat \<Rightarrow> nat \<Rightarrow> nat \<Rightarrow> nat list \<Rightarrow> 8 word list \<times> 8 word list \<Rightarrow> (8 word list \<times> 8 word list) option" where
  "stage_tile A B M N K gr gc t items s = foldM (\<lambda>i (As, Bs). do {
     let lr = i div TS;
     let lc = i mod TS;
     let row = gr * TS + lr;
     let col = gc * TS + lc;
     let kA = t * TS + lc;
     let kB = t * TS + lr;
     a \<leftarrow> (if row < M \<and> kA < K then rd A (row * K + kA) else Some 0);
     b \<leftarrow> (if kB < K \<and> col < N then rd B (kB * N + col) else Some 0);
     As \<leftarrow> wr As (lr * TS + lc) a;
     Bs \<leftarrow> wr Bs (lr * TS + lc) b;
     Some (As, Bs) }) items s"

definition tile_acc :: "8 word list \<Rightarrow> 8 word list \<Rightarrow> nat \<Rightarrow> 32 word \<Rightarrow> 32 word option" where
  "tile_acc As Bs i acc = foldM (\<lambda>k acc. do {
     a \<leftarrow> rd As (i div TS * TS + k);
     b \<leftarrow> rd Bs (k * TS + i mod TS);
     Some (acc + scast a * scast b) }) [0..<TS] acc"

definition qgemm_group :: "('f::times, 'z) gmath_scheme \<Rightarrow> ('f \<Rightarrow> 't) \<Rightarrow> 8 word list \<Rightarrow> 8 word list \<Rightarrow> 'f list \<Rightarrow> 'f list \<Rightarrow> nat \<Rightarrow> nat \<Rightarrow> nat \<Rightarrow>
    (nat \<Rightarrow> nat \<Rightarrow> nat list) \<Rightarrow> 8 word list \<times> 8 word list \<Rightarrow> nat \<Rightarrow> 't list \<Rightarrow> 't list option" where
  "qgemm_group Q st A B as bs M N K items local g C = do {
     let gr = g div cdiv N TS;
     let gc = g mod cdiv N TS;
     (accs, _) \<leftarrow> foldM (\<lambda>t (accs, loc). do {
       loc \<leftarrow> stage_tile A B M N K gr gc t (items g t) loc;
       accs \<leftarrow> those (map (\<lambda>i. do { acc \<leftarrow> rd accs i; tile_acc (fst loc) (snd loc) i acc }) [0..<TS * TS]);
       Some (accs, loc) }) [0..<cdiv K TS] (replicate (TS * TS) 0, local);
     foldM (\<lambda>i C. do {
       let row = gr * TS + i div TS;
       let col = gc * TS + i mod TS;
       if row < M \<and> col < N then do {
         acc \<leftarrow> rd accs i;
         sa \<leftarrow> rd as row;
         sb \<leftarrow> rd bs col;
         wr C (row * N + col) (st (of_num Q (sint acc) * sa * sb)) }
       else Some C }) (items g (cdiv K TS)) C }"

definition qgemm :: "('f::times, 'z) gmath_scheme \<Rightarrow> ('f \<Rightarrow> 't) \<Rightarrow> 8 word list \<Rightarrow> 8 word list \<Rightarrow> 'f list \<Rightarrow> 'f list \<Rightarrow> nat \<Rightarrow> nat \<Rightarrow> nat \<Rightarrow>
    nat list \<Rightarrow> (nat \<Rightarrow> nat \<Rightarrow> nat list) \<Rightarrow> (nat \<Rightarrow> 8 word list \<times> 8 word list) \<Rightarrow> 't list \<Rightarrow> 't list option" where
  "qgemm Q st A B as bs M N K sched items local C = foldM (\<lambda>g. qgemm_group Q st A B as bs M N K items (local g) g) sched C"

definition qgemm_int8_sycl :: "f32 gmath \<Rightarrow> DType \<Rightarrow> 8 word list \<Rightarrow> 8 word list \<Rightarrow> f32 list \<Rightarrow> f32 list \<Rightarrow> nat \<Rightarrow> nat \<Rightarrow> nat \<Rightarrow>
    nat list \<Rightarrow> (nat \<Rightarrow> nat \<Rightarrow> nat list) \<Rightarrow> (nat \<Rightarrow> 8 word list \<times> 8 word list) \<Rightarrow> 32 word list \<Rightarrow> 32 word list option" where
  "qgemm_int8_sycl Q dt = qgemm Q (elem_st dt)"

section \<open>In exact arithmetic\<close>

definition absmax :: "(nat \<Rightarrow> real) \<Rightarrow> nat \<Rightarrow> real" where
  "absmax f n = fold (\<lambda>k a. max a \<bar>f k\<bar>) [0..<n] 0"

definition qscale :: "int \<Rightarrow> real \<Rightarrow> real" where
  "qscale m a = (if 0 < a then a / real_of_int m else 1)"

lemma fold_max_ge: "a \<le> fold (\<lambda>k a. max a (g k :: real)) ks a" "k \<in> set ks \<Longrightarrow> g k \<le> fold (\<lambda>k a. max a (g k)) ks a"
proof (induction ks arbitrary: a)
  case (Cons j ks) case 1
  then show ?case using Cons(1) [of "max a (g j)"] by simp
next
  case (Cons j ks) case 2
  then show ?case using Cons(1,2) [of "max a (g j)"] by (auto intro: order_trans)
qed simp_all

lemma absmax_ge: "k < n \<Longrightarrow> \<bar>f k\<bar> \<le> absmax f n"
  unfolding absmax_def by (rule fold_max_ge) simp

lemma absmax_nonneg: "0 \<le> absmax f n"
  unfolding absmax_def by (rule fold_max_ge)

lemma qscale_pos: "0 < m \<Longrightarrow> 0 < qscale m a"
  by (simp add: qscale_def)

text \<open>A value not above the maximum is off by at most half a step and is not clamped.\<close>

lemma quantized:
  assumes m: "0 < m" and v: "\<bar>v\<bar> \<le> a"
  shows "\<bar>round_away (v * (1 / qscale m a))\<bar> \<le> m" "\<bar>real_of_int (round_away (v * (1 / qscale m a))) * qscale m a - v\<bar> \<le> qscale m a / 2"
proof -
  let ?s = "qscale m a"
  have s: "0 < ?s" by (rule qscale_pos [OF m])
  have "\<bar>v\<bar> \<le> real_of_int m * ?s" using v m by (auto simp: qscale_def)
  then have "\<bar>v * (1 / ?s)\<bar> \<le> real_of_int m" using s by (simp add: abs_mult divide_le_eq)
  then show "\<bar>round_away (v * (1 / ?s))\<bar> \<le> m" by (rule round_away_bounded)
  have "\<bar>real_of_int (round_away (v * (1 / ?s))) - v * (1 / ?s)\<bar> * ?s \<le> 1 / 2 * ?s"
    using round_away_near s by (intro mult_right_mono) simp_all
  moreover have "\<bar>real_of_int (round_away (v * (1 / ?s))) - v * (1 / ?s)\<bar> * ?s = \<bar>(real_of_int (round_away (v * (1 / ?s))) - v * (1 / ?s)) * ?s\<bar>"
    using s by (simp add: abs_mult)
  moreover have "(real_of_int (round_away (v * (1 / ?s))) - v * (1 / ?s)) * ?s = real_of_int (round_away (v * (1 / ?s))) * ?s - v"
    using s by (simp add: left_diff_distrib)
  ultimately show "\<bar>real_of_int (round_away (v * (1 / ?s))) * ?s - v\<bar> \<le> ?s / 2" by simp
qed

subsection \<open>Nibbles\<close>

definition pack_int4 :: "int \<Rightarrow> int \<Rightarrow> 8 word" where
  "pack_int4 q0 q1 = word_of_int ((q0 AND 0xF) OR push_bit 4 (q1 AND 0xF))"

lemma s4_mod: "- 8 \<le> q \<Longrightarrow> q \<le> 7 \<Longrightarrow> s4 (q mod 16) = q"
  unfolding s4_def by (cases "q < 0") presburger+

lemma bit_240: "bit (240 :: int) k \<longleftrightarrow> 4 \<le> k \<and> k < 8"
proof -
  have "(240 :: int) = push_bit 4 15" by (simp add: push_bit_eq_mult)
  then have "bit (240 :: int) k \<longleftrightarrow> 4 \<le> k \<and> bit (15 :: int) (k - 4)" by (simp only: bit_push_bit_iff_int)
  then show ?thesis by (auto simp: bit_15)
qed

lemma pack_int4_nibs: "pack_int4 q0 q1 AND 0xF = word_of_int (take_bit 4 q0)" "drop_bit 4 (pack_int4 q0 q1) = word_of_int (take_bit 4 q1)"
  unfolding pack_int4_def by (rule bit_word_eqI; auto simp: bit_simps bit_15 bit_240)+

lemma uint_nibble: "uint (word_of_int (take_bit 4 q) :: 8 word) = q mod 16"
proof -
  have "take_bit 4 q = q mod 16" by (simp add: take_bit_eq_mod)
  moreover have "0 \<le> q mod 16" "q mod 16 < 256" by (simp_all add: order_less_trans [OF pos_mod_bound])
  ultimately show ?thesis by (simp add: uint_word_of_int_eq take_bit_int_eq_self)
qed

lemma w4_val_pack:
  assumes "b < length wp" "wp ! b = pack_int4 q0 q1" "- 8 \<le> q0" "q0 \<le> 7" "- 8 \<le> q1" "q1 \<le> 7"
  shows "w4_val wp (2 * b) = q0" "w4_val wp (2 * b + 1) = q1"
  using assms(2-) by (simp_all add: w4_val_def nib_def pack_int4_nibs uint_nibble s4_mod)

subsection \<open>Groups\<close>

text \<open>The maximum, step and codes of group \<open>t\<close> of the flattened matrix.\<close>

definition group_max :: "('t \<Rightarrow> real) \<Rightarrow> 't list \<Rightarrow> nat \<Rightarrow> nat \<Rightarrow> real" where
  "group_max ld w grp t = absmax (\<lambda>k. ld (w ! (t * grp + k))) grp"

definition int4_code :: "('t \<Rightarrow> real) \<Rightarrow> 't list \<Rightarrow> nat \<Rightarrow> nat \<Rightarrow> int" where
  "int4_code ld w grp i = round_away (ld (w ! i) * (1 / qscale 7 (group_max ld w grp (i div grp))))"

lemma int4_code_near:
  assumes "0 < grp"
  shows "\<bar>int4_code ld w grp i\<bar> \<le> 7" "\<bar>real_of_int (int4_code ld w grp i) * qscale 7 (group_max ld w grp (i div grp)) - ld (w ! i)\<bar> \<le> qscale 7 (group_max ld w grp (i div grp)) / 2"
proof -
  have "\<bar>ld (w ! (i div grp * grp + i mod grp))\<bar> \<le> group_max ld w grp (i div grp)"
    unfolding group_max_def by (rule absmax_ge) (use assms in simp)
  then have v: "\<bar>ld (w ! i)\<bar> \<le> group_max ld w grp (i div grp)" by simp
  show "\<bar>int4_code ld w grp i\<bar> \<le> 7" "\<bar>real_of_int (int4_code ld w grp i) * qscale 7 (group_max ld w grp (i div grp)) - ld (w ! i)\<bar> \<le> qscale 7 (group_max ld w grp (i div grp)) / 2"
    using quantized [OF _ v, of 7] by (simp_all add: int4_code_def)
qed

lemma foldM_map_fun: "foldM f (map h xs) = foldM (\<lambda>x. f (h x)) xs"
  by (rule ext) (rule foldM_map)

lemma group_max_loop:
  assumes "V dvd grp" "w0 + grp \<le> length w"
  shows "foldM (\<lambda>v. foldM (\<lambda>k amax. do { c \<leftarrow> rd w (w0 + (v * V + k)); Some (fmax amax (abs_fn exact_qmath (ld c))) }) [0..<V]) [0..<grp div V] 0 =
    Some (absmax (\<lambda>k. ld (w ! (w0 + k))) grp)"
proof -
  have "foldM (\<lambda>v. foldM (\<lambda>k amax. do { c \<leftarrow> rd w (w0 + (v * V + k)); Some (fmax amax (abs_fn exact_qmath (ld c))) }) [0..<V]) [0..<grp div V] 0 =
      foldM (\<lambda>j amax. do { c \<leftarrow> rd w (w0 + j); Some (fmax amax (abs_fn exact_qmath (ld c))) }) (concat (map (\<lambda>v. map (\<lambda>k. v * V + k) [0..<V]) [0..<grp div V])) 0"
    by (simp add: foldM_concat foldM_map foldM_map_fun)
  also have "concat (map (\<lambda>v. map (\<lambda>k. v * V + k) [0..<V]) [0..<grp div V]) = [0..<grp]" using assms(1) by (simp add: concat_rows)
  also have "foldM (\<lambda>j amax. do { c \<leftarrow> rd w (w0 + j); Some (fmax amax (abs_fn exact_qmath (ld c))) }) [0..<grp] 0 =
      Some (fold (\<lambda>j a. max a \<bar>ld (w ! (w0 + j))\<bar>) [0..<grp] 0)"
    by (rule foldM_pure') (use assms(2) in \<open>simp add: fmax_def max_def\<close>)
  finally show ?thesis by (simp add: absmax_def)
qed

lemma quant_item_writes:
  assumes V: "even V" "0 < V" "V dvd grp" and K: "grp dvd K" and t: "t < N * (K div grp)" and grp: "0 < grp"
    and len: "length w = N * K" "length wp = N * (K div 2)" "length scales = N * (K div grp)"
  shows "\<exists>wp' scales'. quant_item exact_qmath ld hst V w K grp t (wp, scales) = Some (wp', scales') \<and>
    writes {t * (grp div 2)..<t * (grp div 2) + grp div 2} (\<lambda>b. pack_int4 (int4_code ld w grp (2 * b)) (int4_code ld w grp (2 * b + 1))) wp wp' \<and>
    writes {t} (\<lambda>t. hst (qscale 7 (group_max ld w grp t))) scales scales'"
proof -
  obtain G where G: "K = G * grp" using K by (metis dvd_div_mult_self)
  obtain g2 where g2: "grp = 2 * g2" using V(1,3) by (metis dvd_trans evenE)
  obtain V2 where V2: "V = 2 * V2" using V(1) by blast
  have gpr: "K div grp = G" using grp by (simp add: G)
  have tG: "t < N * G" using t gpr by simp
  then have tw: "t * grp + grp \<le> length w" using src_row [OF tG, of grp] len(1) by (simp add: G)
  have w0: "t div G * K + t mod G * grp = t * grp" unfolding G by (metis add_mult_distrib div_mult_mod_eq mult.assoc)
  have K2: "K div 2 = G * g2" by (simp add: G g2)
  have byte0: "t div G * (K div 2) + (t mod G * grp) div 2 = t * g2"
    unfolding K2 g2 by (simp add: mult.left_commute [of _ 2] mult.assoc [symmetric] add_mult_distrib [symmetric])
  have div2: "grp div 2 = g2" by (simp add: g2)
  let ?s = "qscale 7 (group_max ld w grp t)"
  let ?q = "int4_code ld w grp"
  have mx: "foldM (\<lambda>v. foldM (\<lambda>k amax. do { c \<leftarrow> rd w (t * grp + (v * V + k)); Some (fmax amax (abs_fn exact_qmath (ld c))) }) [0..<V]) [0..<grp div V] 0 = Some (group_max ld w grp t)"
    unfolding group_max_def by (rule group_max_loop [OF V(3) tw])
  have sc: "(if 0 < group_max ld w grp t then group_max ld w grp t / of_num exact_qmath 7 else 1) = ?s" by (simp add: qscale_def)
  have store: "\<exists>wp'. foldM (\<lambda>v. foldM (\<lambda>h wp. do {
       let k = 2 * h;
       c0 \<leftarrow> rd w (t * grp + (v * V + k));
       c1 \<leftarrow> rd w (t * grp + (v * V + k + 1));
       let q0 = max (- 8) (min 7 (round_fn exact_qmath (ld c0 * (1 / ?s))));
       let q1 = max (- 8) (min 7 (round_fn exact_qmath (ld c1 * (1 / ?s))));
       wr wp (t * g2 + (v * V + k) div 2) (word_of_int ((q0 AND 0xF) OR push_bit 4 (q1 AND 0xF))) }) [0..<V div 2]) [0..<grp div V] wp = Some wp' \<and>
     writes {t * g2..<t * g2 + g2} (\<lambda>b. pack_int4 (?q (2 * b)) (?q (2 * b + 1))) wp wp'"
  proof -
    let ?body = "\<lambda>j wp. do {
       c0 \<leftarrow> rd w (t * grp + 2 * j);
       c1 \<leftarrow> rd w (t * grp + (2 * j + 1));
       wr wp (t * g2 + j) (pack_int4 (max (- 8) (min 7 (round_away (ld c0 * (1 / ?s))))) (max (- 8) (min 7 (round_away (ld c1 * (1 / ?s)))))) }"
    have cells: "concat (map (\<lambda>v. map (\<lambda>h. v * V2 + h) [0..<V2]) [0..<grp div V]) = [0..<g2]"
    proof -
      have "grp div V * V2 = g2" using V(2,3) by (auto simp: g2 V2 elim!: dvdE)
      then show ?thesis by (simp add: concat_rows)
    qed
    have "foldM (\<lambda>v. foldM (\<lambda>h wp. do {
       let k = 2 * h;
       c0 \<leftarrow> rd w (t * grp + (v * V + k));
       c1 \<leftarrow> rd w (t * grp + (v * V + k + 1));
       let q0 = max (- 8) (min 7 (round_fn exact_qmath (ld c0 * (1 / ?s))));
       let q1 = max (- 8) (min 7 (round_fn exact_qmath (ld c1 * (1 / ?s))));
       wr wp (t * g2 + (v * V + k) div 2) (word_of_int ((q0 AND 0xF) OR push_bit 4 (q1 AND 0xF))) }) [0..<V div 2]) [0..<grp div V] wp =
      foldM (\<lambda>v. foldM (\<lambda>h. ?body (v * V2 + h)) [0..<V2]) [0..<grp div V] wp"
    proof -
      have e: "v * V + 2 * h = 2 * (v * V2 + h)" "2 * j div 2 = j" for v h j :: nat by (simp_all add: V2)
      have "V div 2 = V2" by (simp add: V2)
      then show ?thesis unfolding Let_def e pack_int4_def [symmetric] exact_qmath_simps by (simp only: add.assoc)
    qed
    also have "\<dots> = foldM ?body [0..<g2] wp" unfolding cells [symmetric] by (simp add: foldM_concat foldM_map foldM_map_fun)
    finally have loop: "foldM (\<lambda>v. foldM (\<lambda>h wp. do {
       let k = 2 * h;
       c0 \<leftarrow> rd w (t * grp + (v * V + k));
       c1 \<leftarrow> rd w (t * grp + (v * V + k + 1));
       let q0 = max (- 8) (min 7 (round_fn exact_qmath (ld c0 * (1 / ?s))));
       let q1 = max (- 8) (min 7 (round_fn exact_qmath (ld c1 * (1 / ?s))));
       wr wp (t * g2 + (v * V + k) div 2) (word_of_int ((q0 AND 0xF) OR push_bit 4 (q1 AND 0xF))) }) [0..<V div 2]) [0..<grp div V] wp = foldM ?body [0..<g2] wp" .
    have "\<exists>wp'. foldM ?body [0..<g2] wp = Some wp' \<and> writes {t * g2..<t * g2 + g2} (\<lambda>b. pack_int4 (?q (2 * (t * g2 + (b - t * g2)))) (?q (2 * (t * g2 + (b - t * g2)) + 1))) wp wp'"
    proof (rule store_loop)
      show "t * g2 + g2 \<le> length wp" using src_row [OF tG, of g2] len(2) K2 by (simp add: mult.assoc)
    next
      fix j and m :: "8 word list" assume j: "j < g2"
      have i: "t * grp + 2 * j = 2 * (t * g2 + j)" "t * grp + (2 * j + 1) = 2 * (t * g2 + j) + 1" by (simp_all add: g2)
      have d: "(t * grp + 2 * j) div grp = t" "(t * grp + (2 * j + 1)) div grp = t" 
      proof -
        have "2 * j < grp" "2 * j + 1 < grp" using j g2 by simp_all
        then show "(t * grp + 2 * j) div grp = t" "(t * grp + (2 * j + 1)) div grp = t" by (simp_all only: div_mult_self3 div_less add_0_right mult.commute [of t] div_mult_self4 add.commute)
      qed
      have q: "max (- 8) (min 7 (round_away (ld (w ! i) * (1 / ?s)))) = ?q i" if "i div grp = t" for i
        using int4_code_near(1) [OF grp, of ld w i] that by (auto simp: int4_code_def)
      have "rd w (t * grp + 2 * j) = Some (w ! (t * grp + 2 * j))" "rd w (t * grp + (2 * j + 1)) = Some (w ! (t * grp + (2 * j + 1)))" using tw j by (simp_all add: g2)
      then show "?body j m = wr m (t * g2 + j) (pack_int4 (?q (2 * (t * g2 + j))) (?q (2 * (t * g2 + j) + 1)))"
        by (simp only: bind.bind_lunit q [OF d(1)] q [OF d(2)]) (simp only: i)
    qed
    moreover have "writes {t * g2..<t * g2 + g2} (\<lambda>b. pack_int4 (?q (2 * (t * g2 + (b - t * g2)))) (?q (2 * (t * g2 + (b - t * g2)) + 1))) wp wp' =
        writes {t * g2..<t * g2 + g2} (\<lambda>b. pack_int4 (?q (2 * b)) (?q (2 * b + 1))) wp wp'" for wp'
      by (rule writes_cong) simp
    ultimately show ?thesis unfolding loop by simp
  qed
  then obtain wp' where wp': "foldM (\<lambda>v. foldM (\<lambda>h wp. do {
       let k = 2 * h;
       c0 \<leftarrow> rd w (t * grp + (v * V + k));
       c1 \<leftarrow> rd w (t * grp + (v * V + k + 1));
       let q0 = max (- 8) (min 7 (round_fn exact_qmath (ld c0 * (1 / ?s))));
       let q1 = max (- 8) (min 7 (round_fn exact_qmath (ld c1 * (1 / ?s))));
       wr wp (t * g2 + (v * V + k) div 2) (word_of_int ((q0 AND 0xF) OR push_bit 4 (q1 AND 0xF))) }) [0..<V div 2]) [0..<grp div V] wp = Some wp'"
     "writes {t * g2..<t * g2 + g2} (\<lambda>b. pack_int4 (?q (2 * b)) (?q (2 * b + 1))) wp wp'" by (elim exE conjE)
  have ts: "t div G * G + t mod G = t" by simp
  have wrs: "wr scales t (hst ?s) = Some (scales[t := hst ?s])" using t len(3) by simp
  have "quant_item exact_qmath ld hst V w K grp t (wp, scales) = Some (wp', scales[t := hst ?s])"
    unfolding quant_item_def prod.case Let_def gpr w0 mx bind.bind_lunit sc ts wrs byte0 using wp'(1) [unfolded Let_def] by (simp only: bind.bind_lunit)
  moreover have "writes {t} (\<lambda>t. hst (qscale 7 (group_max ld w grp t))) scales (scales[t := hst ?s])"
    using writes_single [of t scales "\<lambda>t. hst (qscale 7 (group_max ld w grp t))"] t len(3) by simp
  ultimately show ?thesis using wp'(2) unfolding div2 by blast
qed

lemma quant_groups:
  assumes V: "even V" "0 < V" "V dvd grp" and K: "grp dvd K" and grp: "0 < grp" and sched: "schedule (N * (K div grp)) sched"
    and len: "length w = N * K" "length wp0 = N * (K div 2)" "length scales0 = N * (K div grp)"
  shows "quant_typed exact_qmath ld hst V w K grp sched (wp0, scales0) =
    Some (map (\<lambda>b. pack_int4 (int4_code ld w grp (2 * b)) (int4_code ld w grp (2 * b + 1))) [0..<N * (K div 2)],
      map (\<lambda>t. hst (qscale 7 (group_max ld w grp t))) [0..<N * (K div grp)])"
proof -
  let ?p = "\<lambda>b. pack_int4 (int4_code ld w grp (2 * b)) (int4_code ld w grp (2 * b + 1))" and ?s = "\<lambda>t. hst (qscale 7 (group_max ld w grp t))"
  let ?G = "N * (K div grp)" and ?h = "grp div 2"
  have "even grp" using V(1,3) by (rule dvd_trans)
  then have "K div 2 = K div grp * ?h" using K by (auto elim!: dvdE)
  then have total: "N * (K div 2) = ?G * ?h" by simp
  have "\<exists>a b. foldM (quant_item exact_qmath ld hst V w K grp) sched (wp0, scales0) = Some (a, b) \<and>
      rows_done (\<lambda>i. {i * ?h..<i * ?h + ?h}) (\<lambda>_. ?p) wp0 {..<?G} a \<and> rows_done (\<lambda>i. {i}) (\<lambda>_. ?s) scales0 {..<?G} b"
  proof (rule launch_rows2 [OF sched])
    show "owns ?G (\<lambda>i. {i * ?h..<i * ?h + ?h})" unfolding owns_def using rows_apart by blast
    show "owns ?G (\<lambda>i. {i})" by (simp add: owns_def)
    fix i and a :: "8 word list" and b :: "16 word list" assume i: "i < ?G" and "length a = length wp0" "length b = length scales0"
    then show "\<exists>a' b'. quant_item exact_qmath ld hst V w K grp i (a, b) = Some (a', b') \<and> writes {i * ?h..<i * ?h + ?h} ?p a a' \<and> writes {i} ?s b b'"
      using quant_item_writes [OF V K i grp len(1), of a b ld hst] len(2,3) by simp
  qed
  then obtain a b where run: "foldM (quant_item exact_qmath ld hst V w K grp) sched (wp0, scales0) = Some (a, b)"
    and a: "rows_done (\<lambda>i. {i * ?h..<i * ?h + ?h}) (\<lambda>_. ?p) wp0 {..<?G} a" and b: "rows_done (\<lambda>i. {i}) (\<lambda>_. ?s) scales0 {..<?G} b" by blast
  have "a = map ?p [0..<N * (K div 2)]"
  proof (rule nth_equalityI)
    show "length a = length (map ?p [0..<N * (K div 2)])" using rows_done_length [OF a] len(2) by simp
    fix c assume "c < length a"
    then have c: "c < ?G * ?h" "c < length wp0" using rows_done_length [OF a] len(2) total by simp_all
    then have "0 < ?h" by (cases ?h) auto
    then have "c div ?h < ?G" "c \<in> {c div ?h * ?h..<c div ?h * ?h + ?h}" using less_mult_imp_div_less [OF c(1)] dividend_less_div_times [of ?h c] by auto
    then have "a ! c = ?p c" by (rule rows_done_cell [OF a _ _ c(2)])
    moreover have "c < N * (K div 2)" using c(1) by (simp only: total)
    ultimately show "a ! c = map ?p [0..<N * (K div 2)] ! c" by simp
  qed
  moreover have "b = map ?s [0..<?G]"
  proof (rule nth_equalityI)
    show "length b = length (map ?s [0..<?G])" using rows_done_length [OF b] len(3) by simp
    fix c assume "c < length b"
    then have "c < ?G" "c < length scales0" using rows_done_length [OF b] len(3) by simp_all
    then show "b ! c = map ?s [0..<?G] ! c" using rows_done_cell [OF b, of c c] by simp
  qed
  ultimately show ?thesis using run by (simp add: quant_typed_def)
qed

lemma quant_codes:
  assumes grp: "0 < grp" and K: "even K" and i: "i < N * K"
  shows "w4_val (map (\<lambda>b. pack_int4 (int4_code ld w grp (2 * b)) (int4_code ld w grp (2 * b + 1))) [0..<N * (K div 2)]) i = int4_code ld w grp i"
proof -
  let ?wp = "map (\<lambda>b. pack_int4 (int4_code ld w grp (2 * b)) (int4_code ld w grp (2 * b + 1))) [0..<N * (K div 2)]"
  have b: "i div 2 < N * (K div 2)" using i K by (auto elim!: evenE)
  have q: "- 8 \<le> int4_code ld w grp j" "int4_code ld w grp j \<le> 7" for j using int4_code_near(1) [OF grp, of ld w j] by (simp_all add: abs_le_iff)
  have "?wp ! (i div 2) = pack_int4 (int4_code ld w grp (2 * (i div 2))) (int4_code ld w grp (2 * (i div 2) + 1))" "i div 2 < length ?wp" using b by simp_all
  from w4_val_pack [OF this(2,1) q q] have v: "w4_val ?wp (2 * (i div 2)) = int4_code ld w grp (2 * (i div 2))" "w4_val ?wp (2 * (i div 2) + 1) = int4_code ld w grp (2 * (i div 2) + 1)" .
  show ?thesis
  proof (cases "even i")
    case True
    then have "2 * (i div 2) = i" by simp
    then show ?thesis using v(1) by (simp only:)
  next
    case False
    then have "2 * (i div 2) + 1 = i" by simp
    then show ?thesis using v(2) by (simp only:)
  qed
qed

text \<open>C25: quantizing a weight matrix to int4 and multiplying with it is the product with the original weights, up to half a step
  of each element's group and seven times the relative rounding of the stored scale, times the activation; any order of the items of both
  kernels.\<close>

theorem quantize_qgemv_error:
  assumes V: "even V" "0 < V" "V dvd grp" and grp: "0 < grp" "8 dvd grp" "grp dvd K" and len: "length w = N * K" "length wp0 = N * (K div 2)" "length scales0 = N * (K div grp)" "length x = K" "length y = N"
    and sched: "schedule (N * (K div grp)) sched" "schedule R sched'" "N \<le> R"
    and hst: "\<And>t. t < N * (K div grp) \<Longrightarrow> \<bar>half_val (hst (qscale 7 (group_max ld w grp t))) - qscale 7 (group_max ld w grp t)\<bar> \<le> \<delta> * qscale 7 (group_max ld w grp t)"
  shows "\<exists>wp scales y'. quant_typed exact_qmath ld hst V w K grp sched (wp0, scales0) = Some (wp, scales) \<and>
    qgemv exact_math half_val ldx (\<lambda>v. v) wp scales x N K grp sched' y = Some y' \<and>
    (\<forall>n<N. \<bar>y' ! n - (\<Sum>k<K. ld (w ! (n * K + k)) * ldx (x ! k))\<bar> \<le>
      (\<Sum>k<K. (1 / 2 + 7 * \<delta>) * qscale 7 (group_max ld w grp (n * (K div grp) + k div grp)) * \<bar>ldx (x ! k)\<bar>))"
proof -
  have ev: "even grp" using V(1,3) by (rule dvd_trans)
  then have K2: "even K" using grp(3) by (rule dvd_trans)
  let ?wp = "map (\<lambda>b. pack_int4 (int4_code ld w grp (2 * b)) (int4_code ld w grp (2 * b + 1))) [0..<N * (K div 2)]"
  let ?s = "\<lambda>t. qscale 7 (group_max ld w grp t)"
  let ?sc = "map (\<lambda>t. hst (?s t)) [0..<N * (K div grp)]"
  have run: "quant_typed exact_qmath ld hst V w K grp sched (wp0, scales0) = Some (?wp, ?sc)"
    by (rule quant_groups [OF V grp(3,1) sched(1) len(1-3)])
  have mul: "qgemv exact_math half_val ldx (\<lambda>v. v) ?wp ?sc x N K grp sched' y = Some (map (\<lambda>n. w4_dot ?wp ?sc (\<lambda>k. k div grp) (\<lambda>k. ldx (x ! k)) K grp n) [0..<N])"
    using qgemv_int4_exact [OF K2 grp(3,1) _ _ len(4,5) sched(2,3), of ?wp ?sc ldx "\<lambda>v. v"] grp(2) by simp
  have err: "\<bar>w4_dot ?wp ?sc (\<lambda>k. k div grp) (\<lambda>k. ldx (x ! k)) K grp n - (\<Sum>k<K. ld (w ! (n * K + k)) * ldx (x ! k))\<bar> \<le>
      (\<Sum>k<K. (1 / 2 + 7 * \<delta>) * ?s (n * (K div grp) + k div grp) * \<bar>ldx (x ! k)\<bar>)" if n: "n < N" for n
  proof -
    let ?q = "\<lambda>k. real_of_int (w4_val ?wp (n * K + k))" and ?h = "\<lambda>k. half_val (?sc ! (n * (K div grp) + k div grp))"
    have trm: "\<bar>?q k * ?h k - ld (w ! (n * K + k))\<bar> \<le> (1 / 2 + 7 * \<delta>) * ?s (n * (K div grp) + k div grp)" if k: "k < K" for k
    proof -
      let ?i = "n * K + k" and ?t = "n * (K div grp) + k div grp"
      have i: "?i < N * K" by (rule div_mult_add_lt [OF n k])
      have "n * K = n * (K div grp) * grp" using grp(3) by simp
      then have t: "?i div grp = ?t" using grp(1) by (simp only:) simp
      have "k div grp < K div grp" using k grp(1,3) by (metis dvd_div_mult_self less_mult_imp_div_less)
      then have tl: "?t < N * (K div grp)" by (rule div_mult_add_lt [OF n])
      then have h: "?h k = half_val (hst (?s ?t))" by simp
      have q: "?q k = real_of_int (int4_code ld w grp ?i)" using quant_codes [OF grp(1) K2 i] by simp
      have s: "0 < ?s ?t" by (rule qscale_pos) simp
      have near: "\<bar>?q k\<bar> \<le> 7" "\<bar>?q k * ?s ?t - ld (w ! ?i)\<bar> \<le> ?s ?t / 2"
        using int4_code_near [OF grp(1), of ld w ?i] unfolding t q by (simp_all add: of_int_abs [symmetric] del: of_int_abs)
      have "\<bar>?q k * ?h k - ld (w ! ?i)\<bar> = \<bar>(?q k * ?s ?t - ld (w ! ?i)) + ?q k * (?h k - ?s ?t)\<bar>" by (simp add: right_diff_distrib)
      also have "\<dots> \<le> \<bar>?q k * ?s ?t - ld (w ! ?i)\<bar> + \<bar>?q k\<bar> * \<bar>?h k - ?s ?t\<bar>" unfolding abs_mult [symmetric] by (rule abs_triangle_ineq)
      also have "\<dots> \<le> ?s ?t / 2 + 7 * (\<delta> * ?s ?t)"
        using near hst [OF tl] s unfolding h by (intro add_mono mult_mono) simp_all
      finally show ?thesis by (simp add: distrib_right)
    qed
    have "\<bar>w4_dot ?wp ?sc (\<lambda>k. k div grp) (\<lambda>k. ldx (x ! k)) K grp n - (\<Sum>k<K. ld (w ! (n * K + k)) * ldx (x ! k))\<bar> =
        \<bar>\<Sum>k<K. (?q k * ?h k - ld (w ! (n * K + k))) * ldx (x ! k)\<bar>"
      unfolding w4_dot_def by (simp only: sum_subtractf [symmetric] left_diff_distrib)
    also have "\<dots> \<le> (\<Sum>k<K. \<bar>(?q k * ?h k - ld (w ! (n * K + k))) * ldx (x ! k)\<bar>)" by (rule sum_abs)
    also have "\<dots> \<le> (\<Sum>k<K. (1 / 2 + 7 * \<delta>) * ?s (n * (K div grp) + k div grp) * \<bar>ldx (x ! k)\<bar>)"
      unfolding abs_mult by (rule sum_mono, rule mult_right_mono) (use trm in simp_all)
    finally show ?thesis .
  qed
  show ?thesis
  proof (intro exI conjI allI impI)
    show "quant_typed exact_qmath ld hst V w K grp sched (wp0, scales0) = Some (?wp, ?sc)" by (rule run)
    show "qgemv exact_math half_val ldx (\<lambda>v. v) ?wp ?sc x N K grp sched' y = Some (map (\<lambda>n. w4_dot ?wp ?sc (\<lambda>k. k div grp) (\<lambda>k. ldx (x ! k)) K grp n) [0..<N])" by (rule mul)
  qed (use err in simp)
qed

lemma quantize_qgemv_error_witness:
  "\<exists>wp scales y'. quant_typed exact_qmath id (\<lambda>_. 0x3C00) 8 [7, 1, 0, 0, 0, 0, 0, 1 / 4 :: real] 8 8 [0] ([0, 0, 0, 0], [0]) = Some (wp, scales) \<and>
    qgemv exact_math half_val id (\<lambda>v. v) wp scales [1, 1, 1, 1, 1, 1, 1, 1 :: real] 1 8 8 [0] [0] = Some y' \<and> \<bar>y' ! 0 - (33 / 4)\<bar> \<le> 4"
proof -
  have u: "[0..<8] = [0, 1, 2, 3, 4, 5, 6, 7 :: nat]" by (simp add: upt_rec)
  have l: "{..<8 :: nat} = {0, 1, 2, 3, 4, 5, 6, 7}" by auto
  have g: "group_max id [7, 1, 0, 0, 0, 0, 0, 1 / 4] 8 0 = 7" by (simp add: group_max_def absmax_def u)
  have s: "schedule (1 * (8 div 8)) [0]" "schedule 1 [0]" by (simp_all add: schedule_def lessThan_Suc)
  have h: "\<bar>half_val 0x3C00 - qscale 7 (group_max id [7, 1, 0, 0, 0, 0, 0, 1 / 4] 8 t)\<bar> \<le> 0 * qscale 7 (group_max id [7, 1, 0, 0, 0, 0, 0, 1 / 4] 8 t)" if "t < 1 * (8 div 8)" for t
    using that by (simp add: g qscale_def half_12)
  from quantize_qgemv_error [of 8 8 8 "[7, 1, 0, 0, 0, 0, 0, 1 / 4]" 1 "[0, 0, 0, 0]" "[0]" "[1, 1, 1, 1, 1, 1, 1, 1]" "[0]" "[0]" 1 "[0]" "\<lambda>_. 0x3C00" id 0 id, OF _ _ _ _ _ _ _ _ _ _ _ s _ h]
  show ?thesis by (auto simp: l g qscale_def)
qed

subsection \<open>Activations\<close>

lemma fold_max_lanes:
  fixes f :: "nat \<Rightarrow> real"
  assumes "0 < T"
  shows "Max (set (map (\<lambda>l. fold (\<lambda>j a. max a \<bar>f j\<bar>) (strided l T n) 0) [0..<T])) = absmax f n"
proof (rule antisym)
  have at: "fold (\<lambda>k a. max a (g k)) ks a = a \<or> (\<exists>k\<in>set ks. fold (\<lambda>k a. max a (g k)) ks a = g k)" for g :: "nat \<Rightarrow> real" and ks a
  proof (induction ks arbitrary: a)
    case (Cons j ks)
    then show ?case using Cons [of "max a (g j)"] by (auto simp: max_def split: if_splits)
  qed simp
  have "fold (\<lambda>j a. max a \<bar>f j\<bar>) (strided l T n) 0 \<le> absmax f n" for l
    using at [of "\<lambda>j. \<bar>f j\<bar>" "strided l T n" 0] absmax_nonneg [of f n] strided_ge [of _ l T n] absmax_ge [of _ n f] by fastforce
  then show "Max (set (map (\<lambda>l. fold (\<lambda>j a. max a \<bar>f j\<bar>) (strided l T n) 0) [0..<T])) \<le> absmax f n"
    using assms by (intro Max.boundedI) auto
  show "absmax f n \<le> Max (set (map (\<lambda>l. fold (\<lambda>j a. max a \<bar>f j\<bar>) (strided l T n) 0) [0..<T]))"
    using at [of "\<lambda>j. \<bar>f j\<bar>" "[0..<n]" 0] unfolding absmax_def [symmetric]
  proof
    assume "absmax f n = 0"
    moreover have "0 \<le> fold (\<lambda>j a. max a \<bar>f j\<bar>) (strided 0 T n) 0" by (rule fold_max_ge)
    moreover have "fold (\<lambda>j a. max a \<bar>f j\<bar>) (strided 0 T n) 0 \<le> Max (set (map (\<lambda>l. fold (\<lambda>j a. max a \<bar>f j\<bar>) (strided l T n) 0) [0..<T]))"
      by (rule Max_ge) (use assms in auto)
    ultimately show ?thesis by linarith
  next
    assume "\<exists>k\<in>set [0..<n]. absmax f n = \<bar>f k\<bar>"
    then obtain k where k: "k < n" "absmax f n = \<bar>f k\<bar>" by auto
    obtain l where l: "l < T" "k \<in> set (strided l T n)" using lanes_cover [OF assms, of 1 k n] k(1) lane_indices_1 by auto
    have "\<bar>f k\<bar> \<le> fold (\<lambda>j a. max a \<bar>f j\<bar>) (strided l T n) 0" by (rule fold_max_ge(2) [where g = "\<lambda>j. \<bar>f j\<bar>", OF l(2)])
    also have "\<dots> \<le> Max (set (map (\<lambda>l. fold (\<lambda>j a. max a \<bar>f j\<bar>) (strided l T n) 0) [0..<T]))" by (rule Max_ge) (use l(1) in auto)
    finally show ?thesis using k(2) by simp
  qed
qed

definition act_scale :: "('t \<Rightarrow> real) \<Rightarrow> 't list \<Rightarrow> nat \<Rightarrow> nat \<Rightarrow> real" where
  "act_scale ld x cols r = qscale 127 (absmax (\<lambda>j. ld (x ! (r * cols + j))) cols)"

definition act_code :: "('t \<Rightarrow> real) \<Rightarrow> 't list \<Rightarrow> nat \<Rightarrow> nat \<Rightarrow> int" where
  "act_code ld x cols a = round_away (ld (x ! a) * (1 / act_scale ld x cols (a div cols)))"

lemma act_code_near:
  assumes "0 < cols"
  shows "\<bar>act_code ld x cols a\<bar> \<le> 127" "\<bar>real_of_int (act_code ld x cols a) * act_scale ld x cols (a div cols) - ld (x ! a)\<bar> \<le> act_scale ld x cols (a div cols) / 2"
proof -
  have "\<bar>ld (x ! (a div cols * cols + a mod cols))\<bar> \<le> absmax (\<lambda>j. ld (x ! (a div cols * cols + j))) cols"
    by (rule absmax_ge) (use assms in simp)
  then have v: "\<bar>ld (x ! a)\<bar> \<le> absmax (\<lambda>j. ld (x ! (a div cols * cols + j))) cols" by simp
  show "\<bar>act_code ld x cols a\<bar> \<le> 127" "\<bar>real_of_int (act_code ld x cols a) * act_scale ld x cols (a div cols) - ld (x ! a)\<bar> \<le> act_scale ld x cols (a div cols) / 2"
    using quantized [OF _ v, of 127] by (simp_all add: act_code_def act_scale_def)
qed

lemma aq_item_writes:
  assumes r: "r < rows" and lanes: "schedule kRowThreads (lanes r)" and len: "length x = rows * cols" "length qo = rows * cols" "length sc = rows"
  shows "\<exists>qo' sc'. aq_item exact_qmath ld x cols lanes r (qo, sc) = Some (qo', sc') \<and>
    writes (row_cells cols r) (\<lambda>a. word_of_int (act_code ld x cols a)) qo qo' \<and> writes {r} (act_scale ld x cols) sc sc'"
proof -
  let ?s = "act_scale ld x cols r"
  have rc: "r * cols + cols \<le> rows * cols" by (rule src_row [OF r])
  have parts: "those (map (\<lambda>lid. foldM (\<lambda>j amax. do { c \<leftarrow> rd x (r * cols + j); Some (fmax amax (abs_fn exact_qmath (ld c))) }) (strided lid kRowThreads cols) 0) [0..<kRowThreads]) =
      Some (map (\<lambda>l. fold (\<lambda>j a. max a \<bar>ld (x ! (r * cols + j))\<bar>) (strided l kRowThreads cols) 0) [0..<kRowThreads])"
  proof (rule those_map_Some, rule foldM_pure')
    fix l j and a :: real assume "j \<in> set (strided l kRowThreads cols)"
    then have "j < cols" using strided_ge by blast
    then show "(do { c \<leftarrow> rd x (r * cols + j); Some (fmax a (abs_fn exact_qmath (ld c))) }) = Some (max a \<bar>ld (x ! (r * cols + j))\<bar>)"
      using rc len(1) by (simp add: fmax_def max_def)
  qed
  have sc: "(if 0 < absmax (\<lambda>j. ld (x ! (r * cols + j))) cols then absmax (\<lambda>j. ld (x ! (r * cols + j))) cols / of_num exact_qmath 127 else 1) = ?s"
    by (simp add: act_scale_def qscale_def)
  let ?body = "\<lambda>j qo. do {
       c \<leftarrow> rd x (r * cols + j);
       let v = max (- 127) (min 127 (round_fn exact_qmath (ld c * (1 / ?s))));
       wr qo (r * cols + j) (word_of_int v) }"
  have "mset (concat (map (lane_indices 1 kRowThreads cols) (lanes r))) = mset [0..<cols]"
    by (rule lanes_mset [OF kRowThreads_pos _ lanes]) simp
  moreover have "lane_indices 1 kRowThreads cols = (\<lambda>lid. strided lid kRowThreads cols)" by (rule ext) (rule lane_indices_1)
  ultimately have ms: "mset (concat (map (\<lambda>lid. strided lid kRowThreads cols) (lanes r))) = mset [0..<cols]" by (simp only:)
  have "\<exists>qo'. foldM (\<lambda>i out. do { v \<leftarrow> (do { c \<leftarrow> rd x (r * cols + i); Some (word_of_int (max (- 127) (min 127 (round_fn exact_qmath (ld c * (1 / ?s)))))) }); wr out (r * cols + i) v })
        (concat (map (\<lambda>lid. strided lid kRowThreads cols) (lanes r))) qo = Some qo' \<and>
      writes {r * cols..<r * cols + cols} (\<lambda>a. word_of_int (act_code ld x cols (r * cols + (a - r * cols)))) qo qo'"
  proof (rule foldM_store [OF ms])
    show "r * cols + cols \<le> length qo" using rc len(2) by simp
    fix i assume i: "i < cols"
    then have "(r * cols + i) div cols = r" by simp
    then have "max (- 127) (min 127 (round_away (ld (x ! (r * cols + i)) * (1 / ?s)))) = act_code ld x cols (r * cols + i)"
      using act_code_near(1) [of cols ld x "r * cols + i"] i by (simp add: act_code_def)
    then show "(do { c \<leftarrow> rd x (r * cols + i); Some (word_of_int (max (- 127) (min 127 (round_fn exact_qmath (ld c * (1 / ?s)))))) }) = Some (word_of_int (act_code ld x cols (r * cols + i)))"
      using rc len(1) i by simp
  qed
  then obtain qo' where qo': "foldM (\<lambda>lid. foldM ?body (strided lid kRowThreads cols)) (lanes r) qo = Some qo'"
    "writes {r * cols..<r * cols + cols} (\<lambda>a. word_of_int (act_code ld x cols (r * cols + (a - r * cols)))) qo qo'"
    by (auto simp: foldM_concat foldM_map Option.bind_assoc Let_def)
  have w: "writes (row_cells cols r) (\<lambda>a. word_of_int (act_code ld x cols a)) qo qo'"
    using qo'(2) by (subst (asm) writes_cong [where w = "\<lambda>a. word_of_int (act_code ld x cols a)"]) (auto simp: add.commute)
  have wrs: "wr sc r ?s = Some (sc[r := ?s])" using r len(3) by simp
  have "aq_item exact_qmath ld x cols lanes r (qo, sc) = Some (qo', sc[r := ?s])"
    unfolding aq_item_def prod.case parts bind.bind_lunit exact_qmath_simps(2) fold_max_lanes [OF kRowThreads_pos] Let_def sc wrs using qo'(1) [unfolded Let_def] by (simp only: bind.bind_lunit)
  then show ?thesis using w writes_single [of r sc "act_scale ld x cols"] r len(3) by auto
qed

lemma act_quant_rows:
  assumes sched: "schedule rows sched" and lanes: "\<And>r. schedule kRowThreads (lanes r)" and len: "length x = rows * cols" "length qo0 = rows * cols" "length sc0 = rows"
  shows "act_quant exact_qmath ld x cols sched lanes (qo0, sc0) =
    Some (map (\<lambda>a. word_of_int (act_code ld x cols a)) [0..<rows * cols], map (act_scale ld x cols) [0..<rows])"
proof -
  let ?q = "\<lambda>a. word_of_int (act_code ld x cols a) :: 8 word"
  have "\<exists>a b. foldM (aq_item exact_qmath ld x cols lanes) sched (qo0, sc0) = Some (a, b) \<and>
      rows_done (row_cells cols) (\<lambda>_. ?q) qo0 {..<rows} a \<and> rows_done (\<lambda>i. {i}) (\<lambda>_. act_scale ld x cols) sc0 {..<rows} b"
  proof (rule launch_rows2 [OF sched])
    show "owns rows (row_cells cols)" unfolding owns_def using rows_apart by blast
    show "owns rows (\<lambda>i. {i})" by (simp add: owns_def)
    fix i and a :: "8 word list" and b :: "real list" assume i: "i < rows" and "length a = length qo0" "length b = length sc0"
    then show "\<exists>a' b'. aq_item exact_qmath ld x cols lanes i (a, b) = Some (a', b') \<and> writes (row_cells cols i) ?q a a' \<and> writes {i} (act_scale ld x cols) b b'"
      using aq_item_writes [OF i lanes len(1), of a b ld] len(2,3) by simp
  qed
  then obtain a b where run: "foldM (aq_item exact_qmath ld x cols lanes) sched (qo0, sc0) = Some (a, b)"
    and a: "rows_done (row_cells cols) (\<lambda>_. ?q) qo0 {..<rows} a" and b: "rows_done (\<lambda>i. {i}) (\<lambda>_. act_scale ld x cols) sc0 {..<rows} b" by blast
  have "writes {..<rows * cols} ?q qo0 a" using rows_done_writes [OF a] by (simp only: row_cells_UN)
  then have "a = map ?q [0..<rows * cols]" using writes_map_upt len(2) by blast
  moreover have "(\<Union>i<rows. {i}) = {..<rows}" by auto
  then have "writes {..<rows} (act_scale ld x cols) sc0 b" using rows_done_writes [OF b] by (simp only:)
  then have "b = map (act_scale ld x cols) [0..<rows]" using writes_map_upt len(3) by blast
  ultimately show ?thesis using run by (simp add: act_quant_def)
qed

subsection \<open>The int8 product\<close>

lemma TS_pos [simp]: "0 < TS"
  by (simp add: TS_def)

text \<open>Operands with zeros beyond their borders, and what the accumulators hold.\<close>

definition a8 :: "8 word list \<Rightarrow> nat \<Rightarrow> nat \<Rightarrow> nat \<Rightarrow> nat \<Rightarrow> int" where
  "a8 A M K row k = (if row < M \<and> k < K then sint (A ! (row * K + k)) else 0)"

definition b8 :: "8 word list \<Rightarrow> nat \<Rightarrow> nat \<Rightarrow> nat \<Rightarrow> nat \<Rightarrow> int" where
  "b8 B N K k col = (if k < K \<and> col < N then sint (B ! (k * N + col)) else 0)"

definition dot8 :: "8 word list \<Rightarrow> 8 word list \<Rightarrow> nat \<Rightarrow> nat \<Rightarrow> nat \<Rightarrow> nat \<Rightarrow> int" where
  "dot8 A B N K row col = (\<Sum>k<K. sint (A ! (row * K + k)) * sint (B ! (k * N + col)))"

lemma stage_tile_exact:
  assumes items: "schedule (TS * TS) items" and len: "length A = M * K" "length B = K * N" "length As = TS * TS" "length Bs = TS * TS"
  shows "\<exists>As' Bs'. stage_tile A B M N K gr gc t items (As, Bs) = Some (As', Bs') \<and> length As' = TS * TS \<and> length Bs' = TS * TS \<and>
    (\<forall>i<TS * TS. sint (As' ! i) = a8 A M K (gr * TS + i div TS) (t * TS + i mod TS) \<and> sint (Bs' ! i) = b8 B N K (t * TS + i div TS) (gc * TS + i mod TS))"
proof -
  let ?a = "\<lambda>i. let row = gr * TS + i div TS; k = t * TS + i mod TS in if row < M \<and> k < K then A ! (row * K + k) else 0"
  let ?b = "\<lambda>i. let k = t * TS + i div TS; col = gc * TS + i mod TS in if k < K \<and> col < N then B ! (k * N + col) else 0"
  have "\<exists>As' Bs'. stage_tile A B M N K gr gc t items (As, Bs) = Some (As', Bs') \<and> rows_done (\<lambda>i. {i}) (\<lambda>_. ?a) As {..<TS * TS} As' \<and> rows_done (\<lambda>i. {i}) (\<lambda>_. ?b) Bs {..<TS * TS} Bs'"
    unfolding stage_tile_def
  proof (rule launch_pair [OF items])
    show "owns (TS * TS) (\<lambda>i. {i})" by (simp add: owns_def)
    fix i and m m' :: "8 word list" assume i: "i < TS * TS" and l: "length m = length As" "length m' = length Bs"
    let ?row = "gr * TS + i div TS" and ?col = "gc * TS + i mod TS" and ?kA = "t * TS + i mod TS" and ?kB = "t * TS + i div TS"
    have c: "i div TS * TS + i mod TS = i" by simp
    have "(if ?row < M \<and> ?kA < K then rd A (?row * K + ?kA) else Some 0) = Some (?a i)"
      using div_mult_add_lt [of ?row M ?kA K] len(1) by (simp add: Let_def)
    moreover have "(if ?kB < K \<and> ?col < N then rd B (?kB * N + ?col) else Some 0) = Some (?b i)"
      using div_mult_add_lt [of ?kB K ?col N] len(2) by (simp add: Let_def)
    moreover have "wr m i v = Some (m[i := v])" "wr m' i v = Some (m'[i := v])" for v using i l len(3,4) by simp_all
    ultimately have "(case (m, m') of (As, Bs) \<Rightarrow> do {
     let lr = i div TS; let lc = i mod TS; let row = gr * TS + lr; let col = gc * TS + lc; let kA = t * TS + lc; let kB = t * TS + lr;
     a \<leftarrow> (if row < M \<and> kA < K then rd A (row * K + kA) else Some 0);
     b \<leftarrow> (if kB < K \<and> col < N then rd B (kB * N + col) else Some 0);
     As \<leftarrow> wr As (lr * TS + lc) a;
     Bs \<leftarrow> wr Bs (lr * TS + lc) b;
     Some (As, Bs) }) = Some (m[i := ?a i], m'[i := ?b i])" unfolding prod.case Let_def c by (simp only: bind.bind_lunit)
    then show "\<exists>m1 m2. (case (m, m') of (As, Bs) \<Rightarrow> do {
     let lr = i div TS; let lc = i mod TS; let row = gr * TS + lr; let col = gc * TS + lc; let kA = t * TS + lc; let kB = t * TS + lr;
     a \<leftarrow> (if row < M \<and> kA < K then rd A (row * K + kA) else Some 0);
     b \<leftarrow> (if kB < K \<and> col < N then rd B (kB * N + col) else Some 0);
     As \<leftarrow> wr As (lr * TS + lc) a;
     Bs \<leftarrow> wr Bs (lr * TS + lc) b;
     Some (As, Bs) }) = Some (m1, m2) \<and> writes {i} ?a m m1 \<and> writes {i} ?b m' m2"
      using writes_single [of i m ?a] writes_single [of i m' ?b] i l len(3,4) by (intro exI conjI) simp_all
  qed
  then obtain As' Bs' where r: "stage_tile A B M N K gr gc t items (As, Bs) = Some (As', Bs')"
    "rows_done (\<lambda>i. {i}) (\<lambda>_. ?a) As {..<TS * TS} As'" "rows_done (\<lambda>i. {i}) (\<lambda>_. ?b) Bs {..<TS * TS} Bs'" by (elim exE conjE)
  have "sint (As' ! i) = a8 A M K (gr * TS + i div TS) (t * TS + i mod TS) \<and> sint (Bs' ! i) = b8 B N K (t * TS + i div TS) (gc * TS + i mod TS)" if "i < TS * TS" for i
  proof -
    have e1: "As' ! i = ?a i" by (rule rows_done_cell [OF r(2) that]) (use that len(3) in simp_all)
    have e2: "Bs' ! i = ?b i" by (rule rows_done_cell [OF r(3) that]) (use that len(4) in simp_all)
    have "sint (0 :: 8 word) = 0" by simp
    then show ?thesis by (simp only: e1 e2 a8_def b8_def Let_def if_distrib [of sint] simp_thms)
  qed
  then show ?thesis using r(1) rows_done_length [OF r(2)] rows_done_length [OF r(3)] len(3,4) by auto
qed

lemma tile_acc_exact:
  assumes i: "i < TS * TS" and len: "length As = TS * TS" "length Bs = TS * TS"
  shows "tile_acc As Bs i (word_of_int S) = Some (word_of_int (S + (\<Sum>k<TS. sint (As ! (i div TS * TS + k)) * sint (Bs ! (k * TS + i mod TS)))))"
proof -
  let ?f = "\<lambda>k. sint (As ! (i div TS * TS + k)) * sint (Bs ! (k * TS + i mod TS))"
  have d: "i div TS < TS" "i mod TS < TS" using i by (simp_all add: less_mult_imp_div_less)
  have sc: "scast b = (word_of_int (sint b) :: 32 word)" for b :: "8 word" by (rule scast_eq)
  have "\<exists>acc. tile_acc As Bs i (word_of_int S) = Some acc \<and> acc = word_of_int (S + (\<Sum>k<TS. ?f k))"
    unfolding tile_acc_def
  proof (rule foldM_upt [where P = "\<lambda>n acc. acc = word_of_int (S + (\<Sum>k<n. ?f k))"])
    fix k and acc :: "32 word" assume k: "k < TS" and acc: "acc = word_of_int (S + (\<Sum>k<k. ?f k))"
    have "rd As (i div TS * TS + k) = Some (As ! (i div TS * TS + k))" "rd Bs (k * TS + i mod TS) = Some (Bs ! (k * TS + i mod TS))"
      using div_mult_add_lt [OF d(1) k] div_mult_add_lt [OF k d(2)] len by simp_all
    moreover have "acc + scast (As ! (i div TS * TS + k)) * scast (Bs ! (k * TS + i mod TS)) = word_of_int (S + (\<Sum>k<Suc k. ?f k))"
      unfolding acc sc by (simp add: add.assoc)
    ultimately show "\<exists>s'. do { a \<leftarrow> rd As (i div TS * TS + k); b \<leftarrow> rd Bs (k * TS + i mod TS); Some (acc + scast a * scast b) } = Some s' \<and> s' = word_of_int (S + (\<Sum>k<Suc k. ?f k))"
      by (simp only: bind.bind_lunit) blast
  qed simp_all
  then show ?thesis by blast
qed

lemma sum_a8_b8:
  assumes "row < M" "col < N" "K \<le> T * TS"
  shows "(\<Sum>k<T * TS. a8 A M K row k * b8 B N K k col) = dot8 A B N K row col"
proof -
  have "(\<Sum>k<T * TS. a8 A M K row k * b8 B N K k col) = (\<Sum>k\<in>{..<T * TS} \<inter> {k. k < K}. sint (A ! (row * K + k)) * sint (B ! (k * N + col)))"
    unfolding sum.inter_restrict [OF finite_lessThan] by (rule sum.cong) (use assms in \<open>simp_all add: a8_def b8_def\<close>)
  also have "{..<T * TS} \<inter> {k. k < K} = {..<K}" using assms(3) by auto
  finally show ?thesis by (simp add: dot8_def)
qed

text \<open>The cells that the items of a group store are its tile, and the tiles cover the output.\<close>

lemma tile_cells:
  "(\<Union>i<TS * TS. if gr * TS + i div TS < M \<and> gc * TS + i mod TS < N then {(gr * TS + i div TS) * N + (gc * TS + i mod TS)} else {}) =
    {a. a < M * N \<and> a div N div TS = gr \<and> a mod N div TS = gc}"
proof (intro equalityI subsetI)
  fix a assume "a \<in> (\<Union>i<TS * TS. (if gr * TS + i div TS < M \<and> gc * TS + i mod TS < N then {(gr * TS + i div TS) * N + (gc * TS + i mod TS)} else {}))"
  then obtain i where i: "i < TS * TS" "gr * TS + i div TS < M" "gc * TS + i mod TS < N" "a = (gr * TS + i div TS) * N + (gc * TS + i mod TS)" by (auto split: if_splits)
  have d: "i div TS < TS" "i mod TS < TS" using i(1) by (simp_all add: less_mult_imp_div_less)
  have "a div N = gr * TS + i div TS" "a mod N = gc * TS + i mod TS" using i(3,4) by simp_all
  moreover have "(gr * TS + i div TS) div TS = gr" "(gc * TS + i mod TS) div TS = gc" using d by simp_all
  ultimately show "a \<in> {a. a < M * N \<and> a div N div TS = gr \<and> a mod N div TS = gc}" using div_mult_add_lt [OF i(2,3)] i(4) by simp
next
  fix a assume "a \<in> {a. a < M * N \<and> a div N div TS = gr \<and> a mod N div TS = gc}"
  then have a: "a < M * N" "a div N div TS = gr" "a mod N div TS = gc" by simp_all
  let ?i = "a div N mod TS * TS + a mod N mod TS"
  have "0 < N" using a(1) by (cases N) auto
  then have "a div N < M" "a mod N < N" using less_mult_imp_div_less [OF a(1)] by simp_all
  moreover have i: "?i < TS * TS" "?i div TS = a div N mod TS" "?i mod TS = a mod N mod TS" using div_mult_add_lt [of "a div N mod TS" TS "a mod N mod TS" TS] by simp_all
  moreover have "gr * TS + ?i div TS = a div N" "gc * TS + ?i mod TS = a mod N" unfolding i(2,3) a(2,3) [symmetric] by simp_all
  ultimately have "a \<in> (if gr * TS + ?i div TS < M \<and> gc * TS + ?i mod TS < N then {(gr * TS + ?i div TS) * N + (gc * TS + ?i mod TS)} else {})" by simp
  then show "a \<in> (\<Union>i<TS * TS. (if gr * TS + i div TS < M \<and> gc * TS + i mod TS < N then {(gr * TS + i div TS) * N + (gc * TS + i mod TS)} else {}))" using i(1) by blast
qed

lemma tiles_cover:
  "(\<Union>g<cdiv M TS * cdiv N TS. {a. a < M * N \<and> a div N div TS = g div cdiv N TS \<and> a mod N div TS = g mod cdiv N TS}) = {..<M * N}"
proof (intro equalityI subsetI)
  fix a assume "a \<in> {..<M * N}"
  then have a: "a < M * N" by simp
  then have "0 < N" by (cases N) auto
  then have d: "a div N < M" "a mod N < N" using less_mult_imp_div_less [OF a] by simp_all
  have "a div N div TS * TS \<le> a div N" "a mod N div TS * TS \<le> a mod N" by simp_all
  then have "a div N div TS * TS < M" "a mod N div TS * TS < N" using d by linarith+
  then have t: "a div N div TS < cdiv M TS" "a mod N div TS < cdiv N TS" by (simp_all add: cdiv_less_iff)
  let ?g = "a div N div TS * cdiv N TS + a mod N div TS"
  have "?g < cdiv M TS * cdiv N TS" "?g div cdiv N TS = a div N div TS" "?g mod cdiv N TS = a mod N div TS" using div_mult_add_lt [OF t] t(2) by simp_all
  then show "a \<in> (\<Union>g<cdiv M TS * cdiv N TS. {a. a < M * N \<and> a div N div TS = g div cdiv N TS \<and> a mod N div TS = g mod cdiv N TS})" using a by (intro UN_I [of ?g]) auto
qed auto

lemma qgemm_group_writes:
  assumes len: "length A = M * K" "length B = K * N" "length as = M" "length bs = N" "length C = M * N" and loc: "length (fst local) = TS * TS" "length (snd local) = TS * TS"
    and items: "\<And>t. schedule (TS * TS) (items g t)"
  shows "\<exists>C'. qgemm_group Q st A B as bs M N K items local g C = Some C' \<and>
    writes {a. a < M * N \<and> a div N div TS = g div cdiv N TS \<and> a mod N div TS = g mod cdiv N TS}
      (\<lambda>a. st (of_num Q (sint (word_of_int (dot8 A B N K (a div N) (a mod N)) :: 32 word)) * as ! (a div N) * bs ! (a mod N))) C C'"
proof -
  let ?gr = "g div cdiv N TS" and ?gc = "g mod cdiv N TS"
  let ?row = "\<lambda>i. ?gr * TS + i div TS" and ?col = "\<lambda>i. ?gc * TS + i mod TS"
  let ?S = "\<lambda>T i. \<Sum>k<T * TS. a8 A M K (?row i) k * b8 B N K k (?col i)"
  let ?accs = "\<lambda>T. map (\<lambda>i. word_of_int (?S T i) :: 32 word) [0..<TS * TS]"
  let ?step = "\<lambda>t (accs, loc). do {
       loc \<leftarrow> stage_tile A B M N K ?gr ?gc t (items g t) loc;
       accs \<leftarrow> those (map (\<lambda>i. do { acc \<leftarrow> rd accs i; tile_acc (fst loc) (snd loc) i acc }) [0..<TS * TS]);
       Some (accs, loc) }"
  have run: "\<exists>s. foldM ?step [0..<cdiv K TS] (replicate (TS * TS) 0, local) = Some s \<and> (fst s = ?accs (cdiv K TS) \<and> length (fst (snd s)) = TS * TS \<and> length (snd (snd s)) = TS * TS)"
  proof (rule foldM_upt [where P = "\<lambda>T s. fst s = ?accs T \<and> length (fst (snd s)) = TS * TS \<and> length (snd (snd s)) = TS * TS"])
    show "fst (replicate (TS * TS) 0, local) = ?accs 0 \<and> length (fst (snd (replicate (TS * TS) (0 :: 32 word), local))) = TS * TS \<and> length (snd (snd (replicate (TS * TS) (0 :: 32 word), local))) = TS * TS"
      using loc by (simp add: map_replicate_const)
  next
    fix t and s :: "32 word list \<times> 8 word list \<times> 8 word list"
    assume s: "fst s = ?accs t \<and> length (fst (snd s)) = TS * TS \<and> length (snd (snd s)) = TS * TS"
    obtain accs As Bs where sd: "s = (accs, As, Bs)" by (cases s) auto
    then have l: "length As = TS * TS" "length Bs = TS * TS" "accs = ?accs t" using s by simp_all
    obtain As' Bs' where stage: "stage_tile A B M N K ?gr ?gc t (items g t) (As, Bs) = Some (As', Bs')" "length As' = TS * TS" "length Bs' = TS * TS"
      and el: "\<forall>i<TS * TS. sint (As' ! i) = a8 A M K (?gr * TS + i div TS) (t * TS + i mod TS) \<and> sint (Bs' ! i) = b8 B N K (t * TS + i div TS) (?gc * TS + i mod TS)"
      using stage_tile_exact [OF items [of t] len(1,2) l(1,2), of ?gr ?gc t] by blast
    have accs: "those (map (\<lambda>i. do { acc \<leftarrow> rd accs i; tile_acc As' Bs' i acc }) [0..<TS * TS]) = Some (?accs (Suc t))"
    proof (rule those_map_Some)
      fix i assume "i \<in> set [0..<TS * TS]"
      then have i: "i < TS * TS" by simp
      then have d: "i div TS < TS" "i mod TS < TS" by (simp_all add: less_mult_imp_div_less)
      have "sint (As' ! (i div TS * TS + k)) * sint (Bs' ! (k * TS + i mod TS)) = a8 A M K (?row i) (t * TS + k) * b8 B N K (t * TS + k) (?col i)" if k: "k < TS" for k
      proof -
        have "i div TS * TS + k < TS * TS" "k * TS + i mod TS < TS * TS" using div_mult_add_lt [OF d(1) k] div_mult_add_lt [OF k d(2)] by simp_all
        then show ?thesis using el k d by simp
      qed
      then have "(\<Sum>k<TS. sint (As' ! (i div TS * TS + k)) * sint (Bs' ! (k * TS + i mod TS))) = (\<Sum>k<TS. a8 A M K (?row i) (t * TS + k) * b8 B N K (t * TS + k) (?col i))"
        by (intro sum.cong) simp_all
      also have "\<dots> = (\<Sum>k = t * TS..<t * TS + TS. a8 A M K (?row i) k * b8 B N K k (?col i))"
        using sum.shift_bounds_nat_ivl [of "\<lambda>k. a8 A M K (?row i) k * b8 B N K k (?col i)" 0 "t * TS" TS] by (simp add: lessThan_atLeast0 add.commute)
      finally have "?S t i + (\<Sum>k<TS. sint (As' ! (i div TS * TS + k)) * sint (Bs' ! (k * TS + i mod TS))) = ?S (Suc t) i"
        unfolding lessThan_atLeast0 by (simp add: sum.atLeastLessThan_concat add.commute [of TS])
      moreover have "rd accs i = Some (word_of_int (?S t i))" using i l(3) by simp
      ultimately show "(do { acc \<leftarrow> rd accs i; tile_acc As' Bs' i acc }) = Some (word_of_int (?S (Suc t) i))"
        using tile_acc_exact [OF i stage(2,3), of "?S t i"] by (simp only: bind.bind_lunit)
    qed
    then show "\<exists>s'. ?step t s = Some s' \<and> (fst s' = ?accs (Suc t) \<and> length (fst (snd s')) = TS * TS \<and> length (snd (snd s')) = TS * TS)"
      unfolding sd prod.case stage(1) bind.bind_lunit fst_conv snd_conv accs using stage(2,3) by simp
  qed simp
  then obtain accs loc' where run: "foldM ?step [0..<cdiv K TS] (replicate (TS * TS) 0, local) = Some (accs, loc')" "accs = ?accs (cdiv K TS)" by fastforce
  let ?v = "\<lambda>a. st (of_num Q (sint (word_of_int (dot8 A B N K (a div N) (a mod N)) :: 32 word)) * as ! (a div N) * bs ! (a mod N))"
  let ?cells = "\<lambda>i. if ?row i < M \<and> ?col i < N then {?row i * N + ?col i} else {}"
  have "\<exists>C'. foldM (\<lambda>i C. do {
       let row = ?row i; let col = ?col i;
       if row < M \<and> col < N then do { acc \<leftarrow> rd accs i; sa \<leftarrow> rd as row; sb \<leftarrow> rd bs col; wr C (row * N + col) (st (of_num Q (sint acc) * sa * sb)) }
       else Some C }) (items g (cdiv K TS)) C = Some C' \<and> writes (\<Union>i<TS * TS. ?cells i) ?v C C'"
  proof (rule launch_writes [OF items])
    fix i and m :: "'b list" assume i: "i < TS * TS" and m: "length m = length C"
    show "\<exists>m'. (do { let row = ?row i; let col = ?col i;
       if row < M \<and> col < N then do { acc \<leftarrow> rd accs i; sa \<leftarrow> rd as row; sb \<leftarrow> rd bs col; wr m (row * N + col) (st (of_num Q (sint acc) * sa * sb)) }
       else Some m }) = Some m' \<and> writes (?cells i) ?v m m'"
    proof (cases "?row i < M \<and> ?col i < N")
      case True
      then have d: "?row i < M" "?col i < N" by simp_all
      have lt: "?row i * N + ?col i < length m" using div_mult_add_lt [OF d] m len(5) by simp
      have dm: "(?row i * N + ?col i) div N = ?row i" "(?row i * N + ?col i) mod N = ?col i" using d(2) by simp_all
      have "K \<le> cdiv K TS * TS" by (rule cdiv_upper) simp
      then have "?S (cdiv K TS) i = dot8 A B N K (?row i) (?col i)" by (rule sum_a8_b8 [OF d])
      moreover have "accs ! i = word_of_int (?S (cdiv K TS) i)" unfolding run(2) using i by (simp del: of_int_sum of_int_mult)
      ultimately have "accs ! i = word_of_int (dot8 A B N K (?row i) (?col i))" by (simp only:)
      moreover have "rd accs i = Some (accs ! i)" "rd as (?row i) = Some (as ! ?row i)" "rd bs (?col i) = Some (bs ! ?col i)" using i run(2) d len(3,4) by simp_all
      moreover have "wr m (?row i * N + ?col i) v = Some (m[?row i * N + ?col i := v])" for v using lt by simp
      moreover have "writes {?row i * N + ?col i} ?v m (m[?row i * N + ?col i := ?v (?row i * N + ?col i)])" by (rule writes_single [OF lt])
      ultimately show ?thesis unfolding Let_def dm by (simp only: True simp_thms if_True bind.bind_lunit) blast
    qed (auto simp: Let_def)
  qed
  moreover have "(\<Union>i<TS * TS. ?cells i) = {a. a < M * N \<and> a div N div TS = ?gr \<and> a mod N div TS = ?gc}" by (rule tile_cells)
  ultimately show ?thesis unfolding qgemm_group_def using run(1) by (simp add: Let_def)
qed

lemma qgemm_wrapped:
  assumes len: "length A = M * K" "length B = K * N" "length as = M" "length bs = N" "length C = M * N"
    and loc: "\<And>g. length (fst (local g)) = TS * TS" "\<And>g. length (snd (local g)) = TS * TS"
    and sched: "schedule (cdiv M TS * cdiv N TS) sched" and items: "\<And>g t. schedule (TS * TS) (items g t)"
  shows "qgemm Q st A B as bs M N K sched items local C =
    Some (map (\<lambda>a. st (of_num Q (sint (word_of_int (dot8 A B N K (a div N) (a mod N)) :: 32 word)) * as ! (a div N) * bs ! (a mod N))) [0..<M * N])"
proof -
  let ?v = "\<lambda>a. st (of_num Q (sint (word_of_int (dot8 A B N K (a div N) (a mod N)) :: 32 word)) * as ! (a div N) * bs ! (a mod N))"
  let ?cells = "\<lambda>g. {a. a < M * N \<and> a div N div TS = g div cdiv N TS \<and> a mod N div TS = g mod cdiv N TS}"
  have "\<exists>C'. foldM (\<lambda>g. qgemm_group Q st A B as bs M N K items (local g) g) sched C = Some C' \<and> writes (\<Union>g<cdiv M TS * cdiv N TS. ?cells g) ?v C C'"
  proof (rule launch_writes [OF sched])
    fix g and m :: "'b list" assume "length m = length C"
    then have "length m = M * N" using len(5) by simp
    then show "\<exists>m'. qgemm_group Q st A B as bs M N K items (local g) g m = Some m' \<and> writes (?cells g) ?v m m'"
      by (rule qgemm_group_writes [OF len(1-4) _ loc items])
  qed
  moreover have "(\<Union>g<cdiv M TS * cdiv N TS. ?cells g) = {..<M * N}" by (rule tiles_cover)
  ultimately obtain C' where "foldM (\<lambda>g. qgemm_group Q st A B as bs M N K items (local g) g) sched C = Some C'" "writes {..<M * N} ?v C C'" by auto
  then show ?thesis using writes_map_upt [of "M * N" ?v C C'] len(5) by (simp add: qgemm_def)
qed

lemma sint_fits: "- (2 ^ 31) \<le> S \<Longrightarrow> S < 2 ^ 31 \<Longrightarrow> sint (word_of_int S :: 32 word) = S"
  by (simp add: signed_of_int signed_take_bit_int_eq_self)

lemma dot8_bound: "\<bar>dot8 A B N K row col\<bar> \<le> int K * 2 ^ 14"
proof -
  have s: "\<bar>sint b\<bar> \<le> 2 ^ 7" for b :: "8 word"
    using sint_ge [of b] sint_lt [of b] by simp
  have "\<bar>dot8 A B N K row col\<bar> \<le> (\<Sum>k<K. \<bar>sint (A ! (row * K + k)) * sint (B ! (k * N + col))\<bar>)" unfolding dot8_def by (rule sum_abs)
  also have "\<dots> \<le> (\<Sum>k<K. 2 ^ 7 * 2 ^ 7)" unfolding abs_mult by (intro sum_mono mult_mono s) simp_all
  finally show ?thesis by simp
qed

text \<open>C26: the int8 product multiplies exactly, whatever the remainders of the three sizes against the tile, the initial contents of
  local memory and the order of groups and items, for inner dimensions below \<open>2 ^ 17\<close>; there 32 bits can
  wrap, and the value wrapped is what is scaled.\<close>

theorem qgemm_int8_exact:
  assumes len: "length A = M * K" "length B = K * N" "length as = M" "length bs = N" "length C = M * N"
    and loc: "\<And>g. length (fst (local g)) = TS * TS" "\<And>g. length (snd (local g)) = TS * TS"
    and sched: "schedule (cdiv M TS * cdiv N TS) sched" and items: "\<And>g t. schedule (TS * TS) (items g t)"
  shows "qgemm Q st A B as bs M N K sched items local C = Some (map (\<lambda>a.
      st (of_num Q (if K < 2 ^ 17 then dot8 A B N K (a div N) (a mod N) else signed_take_bit 31 (dot8 A B N K (a div N) (a mod N)))
        * as ! (a div N) * bs ! (a mod N))) [0..<M * N])"
proof -
  have "sint (word_of_int (dot8 A B N K row col) :: 32 word) = (if K < 2 ^ 17 then dot8 A B N K row col else signed_take_bit 31 (dot8 A B N K row col))" for row col
  proof (cases "K < 2 ^ 17")
    case True
    then have "int K * 2 ^ 14 \<le> (2 ^ 17 - 1) * 2 ^ 14" by (intro mult_right_mono) simp_all
    then have "\<bar>dot8 A B N K row col\<bar> < 2 ^ 31" using dot8_bound [of A B N K row col] by simp
    then show ?thesis using True sint_fits [of "dot8 A B N K row col"] by (simp add: abs_less_iff)
  qed (simp add: signed_of_int)
  then show ?thesis using qgemm_wrapped [OF len loc sched items, of Q st] by (simp only:)
qed

lemma qgemm_int8_exact_witness:
  "qgemm exact_math id [2, - 3] [5, 7] [1 / 2] [4] 1 1 2 [0] (\<lambda>g t. [0..<256]) (\<lambda>g. (replicate 256 9, replicate 256 9)) [0] = Some [- 22]"
proof -
  have t: "TS * TS = 256" "cdiv 1 TS = 1" by (simp_all add: TS_def cdiv_def)
  have l2: "{..<2 :: nat} = {0, 1}" by auto
  have "dot8 [2, - 3] [5, 7] 1 2 0 0 = - 11" by (simp add: dot8_def l2)
  then show ?thesis
    using qgemm_int8_exact [of "[2, - 3]" 1 2 "[5, 7]" 1 "[1 / 2 :: real]" "[4]" "[0 :: real]" "\<lambda>g. (replicate 256 9, replicate 256 9)" "[0]" "\<lambda>g t. [0..<256]" exact_math id]
    by (simp add: t t [unfolded One_nat_def] schedule_def lessThan_Suc atLeast0LessThan)
qed

end
