(* ===== verification/RowQuant.thy ===== *)
theory RowQuant
  imports Quantize
begin

text \<open>
  Fused activation quantization: RMS norm, with an optional residual, and SwiGLU, followed by the quantization of the
  row to FP8 with one scale, to FP8 with a scale per group, or to MXFP4 with a power of two per 32 elements (\<open>norm_quant.sycl.cpp\<close>,
  \<open>glu_quant.sycl.cpp\<close>).  In the FP4 path a sub-group takes a whole 32-element group, one element per lane, and packs pairs of codes by
  a shuffle; the size of the sub-group is chosen by the compiler and is a parameter here.
\<close>

section \<open>Codes\<close>

text \<open>\<open>fmin\<close> with a bound that is a number.\<close>

definition fmin :: "'f::ord \<Rightarrow> 'f \<Rightarrow> 'f" where
  "fmin a b = (if a < b then a else b)"

definition e2m1_encode :: "('f::{inverse,zero,ord}, 'z) qmath_scheme \<Rightarrow> 'f \<Rightarrow> 8 word" where
  "e2m1_encode Q x =
     (let a = abs_fn Q x; code = length (filter (\<lambda>n. of_num Q n / of_num Q 4 < a) [1, 3, 5, 7, 10, 14, 20])
      in word_of_nat code OR (if x < 0 then 8 else 0))"

definition kMinScale :: "('f::{times,inverse}, 'z) qmath_scheme \<Rightarrow> 'f" where
  "kMinScale Q = of_num Q 1 / (of_num Q 448 * of_num Q 512)"

definition mx_scale :: "('f::{inverse,ord}, 'z) qmath_scheme \<Rightarrow> 'f \<Rightarrow> 'f \<Rightarrow> 'f" where
  "mx_scale Q kMxEps amax = exp2_fn Q (ceil_fn Q (log2_fn Q (fmax (amax / of_num Q 6) kMxEps)))"

text \<open>The codes of one group of 32 elements, on the lanes below 32 of a sub-group of \<open>sg\<close>, and their packed store by the even lanes.\<close>

definition mx_codes :: "('f::{times,inverse,uminus,zero,one,ord}, 'z) qmath_scheme \<Rightarrow> 'f \<Rightarrow> nat \<Rightarrow> (nat \<Rightarrow> 'f option) \<Rightarrow> 8 word list option" where
  "mx_codes Q ys sg val = (let inv = 1 / ys in those (map (\<lambda>lane. do {
     v \<leftarrow> val lane;
     Some (e2m1_encode Q (fmax (- of_num Q 6) (fmin (v * inv) (of_num Q 6)))) }) [0..<min 32 sg]))"

definition mx_store :: "8 word list \<Rightarrow> nat \<Rightarrow> nat \<Rightarrow> nat list \<Rightarrow> 8 word list \<Rightarrow> 8 word list option" where
  "mx_store codes obase ebase lanes out = foldM (\<lambda>lane out.
     if lane < length codes \<and> even lane then do {
       code \<leftarrow> rd codes lane;
       nxt \<leftarrow> rd codes (lane + 1);
       wr out (obase + (ebase + lane) div 2) (push_bit 4 (nxt AND 0x0f) OR (code AND 0x0f)) }
     else Some out) lanes out"

section \<open>RMS norm and quantization\<close>

text \<open>The first pass, with or without the residual, the normalized value, and the two epilogues.\<close>

definition nq_pass1 :: "('t \<Rightarrow> 'f::{plus,times,zero}) \<Rightarrow> ('f \<Rightarrow> 't) \<Rightarrow> bool \<Rightarrow> 't list \<Rightarrow> nat \<Rightarrow> nat list \<Rightarrow> nat \<Rightarrow> 't list \<Rightarrow> ('t list \<times> 'f list) option" where
  "nq_pass1 ld st has_res x hidden lanes row rr =
     (if has_res then foldM (\<lambda>lane (rr, parts). do {
        (rr, partial) \<leftarrow> foldM (\<lambda>i (rr, partial). do {
          xv \<leftarrow> rd x (row * hidden + i);
          rv \<leftarrow> rd rr (row * hidden + i);
          let r = st (ld xv + ld rv);
          rr \<leftarrow> wr rr (row * hidden + i) r;
          let v = ld r;
          Some (rr, partial + v * v) }) (lane_indices 1 kRowThreads hidden lane) (rr, 0);
        parts \<leftarrow> wr parts lane partial;
        Some (rr, parts) }) lanes (rr, replicate kRowThreads 0)
      else do {
        parts \<leftarrow> row_partials 1 hidden (\<lambda>i partial. do { xv \<leftarrow> rd x (row * hidden + i); let v = ld xv; Some (partial + v * v) }) 0;
        Some (rr, parts) })"

definition norm_at :: "('t \<Rightarrow> 'f::times) \<Rightarrow> bool \<Rightarrow> 't list \<Rightarrow> 't list \<Rightarrow> 't list \<Rightarrow> 'f \<Rightarrow> nat \<Rightarrow> nat \<Rightarrow> 'f option" where
  "norm_at ld has_res x rr w inv_rms base i = do {
     v \<leftarrow> (if has_res then rd rr (base + i) else rd x (base + i));
     wv \<leftarrow> rd w i;
     Some (ld v * inv_rms * ld wv) }"

definition fp8_row :: "('f::{times,inverse,uminus,one,ord}, 'z) qmath_scheme \<Rightarrow> ('f \<Rightarrow> 8 word) \<Rightarrow> 'f \<Rightarrow> (nat \<Rightarrow> 'f option) \<Rightarrow> nat \<Rightarrow> nat \<Rightarrow> nat list \<Rightarrow> 8 word list \<Rightarrow> 8 word list option" where
  "fp8_row Q e4 scale val hidden base lanes out = (let inv_scale = 1 / scale in row_store 1 kRowThreads hidden base (\<lambda>i. do {
     v \<leftarrow> val i;
     Some (e4 (fmax (fmin (v * inv_scale) (of_num Q 448)) (- of_num Q 448))) }) lanes out)"

text \<open>The sub-groups are full: their size divides the 256 items of the work-group.\<close>

definition mxfp4_row :: "('f::{times,inverse,uminus,zero,one,ord}, 'z) qmath_scheme \<Rightarrow> 'f \<Rightarrow> nat \<Rightarrow> (nat \<Rightarrow> 'f option) \<Rightarrow> nat \<Rightarrow> nat \<Rightarrow> nat list \<Rightarrow> nat list \<Rightarrow>
    8 word list \<times> 'f list \<Rightarrow> (8 word list \<times> 'f list) option" where
  "mxfp4_row Q kMxEps sg val hidden row sgs slanes s = foldM (\<lambda>sg_id. foldM (\<lambda>g (out, scales). do {
     amaxs \<leftarrow> those (map (\<lambda>lane. if lane < 32 then do { v \<leftarrow> val (g * 32 + lane); Some (fmax kMxEps (abs_fn Q v)) } else Some kMxEps) [0..<sg]);
     let ys = mx_scale Q kMxEps (max_group Q amaxs);
     scales \<leftarrow> wr scales (row * (hidden div 32) + g) ys;
     codes \<leftarrow> mx_codes Q ys sg (\<lambda>lane. val (g * 32 + lane));
     out \<leftarrow> mx_store codes (row * (hidden div 2)) (g * 32) slanes out;
     Some (out, scales) }) (strided sg_id (kRowThreads div sg) (hidden div 32))) sgs s"

definition norm_quant_item :: "('f::{plus,times,inverse,uminus,zero,one,ord}, 'z) qmath_scheme \<Rightarrow> ('t \<Rightarrow> 'f) \<Rightarrow> ('f \<Rightarrow> 't) \<Rightarrow> ('f \<Rightarrow> 8 word) \<Rightarrow> 'f \<Rightarrow> nat \<Rightarrow> bool \<Rightarrow> nat \<Rightarrow> 't list \<Rightarrow> 't list \<Rightarrow> 'f \<Rightarrow> nat \<Rightarrow> 'f \<Rightarrow>
    (nat \<Rightarrow> nat \<Rightarrow> nat list) \<Rightarrow> (nat \<Rightarrow> nat list) \<Rightarrow> nat list \<Rightarrow> nat \<Rightarrow> 't list \<times> 8 word list \<times> 'f list \<Rightarrow> ('t list \<times> 8 word list \<times> 'f list) option" where
  "norm_quant_item Q ld st e4 kMxEps sg has_res mode x w static_scale hidden eps lanes sgs slanes row = (\<lambda>(rr, out, scales). do {
     (rr, parts) \<leftarrow> nq_pass1 ld st has_res x hidden (lanes row 0) row rr;
     let inv_rms = rsqrt_fn Q (sum_group Q parts / of_num Q (int hidden) + eps);
     let val = norm_at ld has_res x rr w inv_rms (row * hidden);
     if mode = 2 then do {
       (out, scales) \<leftarrow> mxfp4_row Q kMxEps sg val hidden row (sgs row) slanes (out, scales);
       Some (rr, out, scales) }
     else do {
       (scale, scales) \<leftarrow> (if mode = 0 then Some (static_scale, scales)
         else do {
           amaxs \<leftarrow> row_partials 1 hidden (\<lambda>i amax. do { v \<leftarrow> val i; Some (fmax amax (abs_fn Q v)) }) 0;
           let s = fmax (max_group Q amaxs / of_num Q 448) (kMinScale Q);
           scales \<leftarrow> wr scales row s;
           Some (s, scales) });
       out \<leftarrow> fp8_row Q e4 scale val hidden (row * hidden) (lanes row 1) out;
       Some (rr, out, scales) } })"

text \<open>Modes 0 and 1 are FP8 with a static and a dynamic scale, mode 2 is MXFP4 and needs whole groups; the switch falls out without a
  launch for any other mode.\<close>

definition norm_quant :: "('f::{plus,times,inverse,uminus,zero,one,ord}, 'z) qmath_scheme \<Rightarrow> ('t \<Rightarrow> 'f) \<Rightarrow> ('f \<Rightarrow> 't) \<Rightarrow> ('f \<Rightarrow> 8 word) \<Rightarrow> 'f \<Rightarrow> nat \<Rightarrow> bool \<Rightarrow> nat \<Rightarrow> 't list \<Rightarrow> 't list \<Rightarrow> 'f \<Rightarrow> nat \<Rightarrow> 'f \<Rightarrow>
    nat list \<Rightarrow> (nat \<Rightarrow> nat \<Rightarrow> nat list) \<Rightarrow> (nat \<Rightarrow> nat list) \<Rightarrow> nat list \<Rightarrow> 't list \<times> 8 word list \<times> 'f list \<Rightarrow> ('t list \<times> 8 word list \<times> 'f list) option" where
  "norm_quant Q ld st e4 kMxEps sg has_res mode x w static_scale hidden eps sched lanes sgs slanes s =
     (if mode > 2 \<or> mode = 2 \<and> hidden mod 32 \<noteq> 0 then Some s
      else foldM (norm_quant_item Q ld st e4 kMxEps sg has_res mode x w static_scale hidden eps lanes sgs slanes) sched s)"

definition norm_quant_sycl :: "f32 qmath \<Rightarrow> nat \<Rightarrow> DType \<Rightarrow> bool \<Rightarrow> nat \<Rightarrow> 32 word list \<Rightarrow> 32 word list \<Rightarrow> f32 \<Rightarrow> nat \<Rightarrow> f32 \<Rightarrow>
    nat list \<Rightarrow> (nat \<Rightarrow> nat \<Rightarrow> nat list) \<Rightarrow> (nat \<Rightarrow> nat list) \<Rightarrow> nat list \<Rightarrow> 32 word list \<times> 8 word list \<times> f32 list \<Rightarrow> (32 word list \<times> 8 word list \<times> f32 list) option" where
  "norm_quant_sycl Q sg dt = norm_quant Q (elem_ld dt) (elem_st dt) e4m3_encode (F32 0x2edbe6ff) sg"

section \<open>SwiGLU and quantization\<close>

definition y_at :: "('f::{plus,times,inverse,uminus,one}, 'z) qmath_scheme \<Rightarrow> ('t \<Rightarrow> 'f) \<Rightarrow> 't list \<Rightarrow> nat \<Rightarrow> nat \<Rightarrow> nat \<Rightarrow> 'f option" where
  "y_at Q ld x row d i = do {
     gv \<leftarrow> rd x (row * 2 * d + i);
     vv \<leftarrow> rd x (row * 2 * d + d + i);
     let g = ld gv;
     Some ((g / (1 + exp_fn Q (- g))) * ld vv) }"

definition glu_quant_group :: "('f::{plus,times,inverse,uminus,zero,one,ord}, 'z) qmath_scheme \<Rightarrow> ('f \<Rightarrow> 8 word) \<Rightarrow> 'f \<Rightarrow> nat \<Rightarrow> nat \<Rightarrow> (nat \<Rightarrow> 'f option) \<Rightarrow> nat \<Rightarrow> nat \<Rightarrow> nat \<Rightarrow> nat list \<Rightarrow> nat \<Rightarrow>
    8 word list \<times> 'f list \<Rightarrow> (8 word list \<times> 'f list) option" where
  "glu_quant_group Q e4 kMxEps sg mode val row d grp slanes gi = (\<lambda>(out, scales). do {
     amaxs \<leftarrow> those (map (\<lambda>lane. foldM (\<lambda>j amax. do { v \<leftarrow> val (gi * grp + j); Some (fmax amax (abs_fn Q v)) }) (strided lane sg grp) (if mode = 1 then kMxEps else 0)) [0..<sg]);
     let amax = max_group Q amaxs;
     if mode = 0 then do {
       let scale = fmax (amax / of_num Q 448) (kMinScale Q);
       scales \<leftarrow> wr scales (row * (d div grp) + gi) scale;
       let inv = 1 / scale;
       out \<leftarrow> foldM (\<lambda>lane. foldM (\<lambda>j out. do {
         v \<leftarrow> val (gi * grp + j);
         wr out (row * d + (gi * grp + j)) (e4 (fmax (fmin (v * inv) (of_num Q 448)) (- of_num Q 448))) }) (strided lane sg grp)) slanes out;
       Some (out, scales) }
     else do {
       let ys = mx_scale Q kMxEps amax;
       scales \<leftarrow> wr scales (row * (d div grp) + gi) ys;
       codes \<leftarrow> mx_codes Q ys sg (\<lambda>lane. val (gi * 32 + lane));
       out \<leftarrow> mx_store codes 0 (row * d + gi * 32) slanes out;
       Some (out, scales) } })"

definition glu_quant_item :: "('f::{plus,times,inverse,uminus,zero,one,ord}, 'z) qmath_scheme \<Rightarrow> ('t \<Rightarrow> 'f) \<Rightarrow> ('f \<Rightarrow> 8 word) \<Rightarrow> 'f \<Rightarrow> nat \<Rightarrow> nat \<Rightarrow> 't list \<Rightarrow> nat \<Rightarrow> nat \<Rightarrow> (nat \<Rightarrow> nat list) \<Rightarrow> nat list \<Rightarrow> nat \<Rightarrow>
    8 word list \<times> 'f list \<Rightarrow> (8 word list \<times> 'f list) option" where
  "glu_quant_item Q ld e4 kMxEps sg mode x d grp sgs slanes row = foldM (\<lambda>sg_id. foldM (glu_quant_group Q e4 kMxEps sg mode (y_at Q ld x row d) row d grp slanes)
     (strided sg_id (kRowThreads div sg) (d div grp))) (sgs row)"

text \<open>MXFP4 forces groups of 32; sizes that do not divide the row are not launched.\<close>

definition glu_quant :: "('f::{plus,times,inverse,uminus,zero,one,ord}, 'z) qmath_scheme \<Rightarrow> ('t \<Rightarrow> 'f) \<Rightarrow> ('f \<Rightarrow> 8 word) \<Rightarrow> 'f \<Rightarrow> nat \<Rightarrow> nat \<Rightarrow> 't list \<Rightarrow> nat \<Rightarrow> nat \<Rightarrow> nat list \<Rightarrow> (nat \<Rightarrow> nat list) \<Rightarrow> nat list \<Rightarrow>
    8 word list \<times> 'f list \<Rightarrow> (8 word list \<times> 'f list) option" where
  "glu_quant Q ld e4 kMxEps sg mode x d grp0 sched sgs slanes s =
     (let grp = (if mode = 1 then 32 else grp0)
      in if grp = 0 \<or> d mod grp \<noteq> 0 then Some s
         else foldM (glu_quant_item Q ld e4 kMxEps sg (if mode = 0 then 0 else 1) x d grp sgs slanes) sched s)"

definition glu_quant_sycl :: "f32 qmath \<Rightarrow> nat \<Rightarrow> DType \<Rightarrow> nat \<Rightarrow> 32 word list \<Rightarrow> nat \<Rightarrow> nat \<Rightarrow> nat list \<Rightarrow> (nat \<Rightarrow> nat list) \<Rightarrow> nat list \<Rightarrow>
    8 word list \<times> f32 list \<Rightarrow> (8 word list \<times> f32 list) option" where
  "glu_quant_sycl Q sg dt mode = glu_quant Q (elem_ld dt) e4m3_encode (F32 0x2edbe6ff) sg mode"

section \<open>Codes in exact arithmetic\<close>

lemma e2m1_val_cases: "e2m1_val n \<in> {0, 1 / 2, 1, 3 / 2, 2, 3, 4, 6, - 1 / 2, - 1, - 3 / 2, - 2, - 3, - 4, - 6}"
proof -
  have "n AND 7 = take_bit 3 n" by (simp add: take_bit_eq_mask mask_eq_exp_minus_1)
  then have "unat (n AND 7) < 2 ^ 3" unfolding unsigned_take_bit_eq by (simp only: unsigned_take_bit_eq take_bit_nat_less_exp)
  then have "unat (n AND 7) \<in> {0, 1, 2, 3, 4, 5, 6, 7}" by auto
  then have "real (nval 1 (unat (n AND 7))) / 2 \<in> {0, 1 / 2, 1, 3 / 2, 2, 3, 4, 6}" by (auto simp: nval_def)
  then show ?thesis unfolding e2m1_val_def by auto
qed

lemma e2m1_code_val:
  fixes x :: real
  defines "v \<equiv> e2m1_val (e2m1_encode exact_qmath x)" and "s \<equiv> if x < 0 then - 1 else 1 :: real"
  shows "\<bar>x\<bar> \<le> 1 / 4 \<Longrightarrow> v = 0" "1 / 4 < \<bar>x\<bar> \<Longrightarrow> \<bar>x\<bar> \<le> 3 / 4 \<Longrightarrow> v = s / 2" "3 / 4 < \<bar>x\<bar> \<Longrightarrow> \<bar>x\<bar> \<le> 5 / 4 \<Longrightarrow> v = s"
    "5 / 4 < \<bar>x\<bar> \<Longrightarrow> \<bar>x\<bar> \<le> 7 / 4 \<Longrightarrow> v = 3 * s / 2" "7 / 4 < \<bar>x\<bar> \<Longrightarrow> \<bar>x\<bar> \<le> 5 / 2 \<Longrightarrow> v = 2 * s" "5 / 2 < \<bar>x\<bar> \<Longrightarrow> \<bar>x\<bar> \<le> 7 / 2 \<Longrightarrow> v = 3 * s"
    "7 / 2 < \<bar>x\<bar> \<Longrightarrow> \<bar>x\<bar> \<le> 5 \<Longrightarrow> v = 4 * s" "5 < \<bar>x\<bar> \<Longrightarrow> v = 6 * s"
  unfolding v_def s_def e2m1_encode_def Let_def by (auto simp: e2m1_val_def nval_def)

text \<open>The code is a nearest one, and of two nearest ones the smaller in magnitude.\<close>

lemma nearest_mid:
  fixes x :: real
  assumes "l + c < 2 * x \<or> c = 0 \<and> l \<le> 2 * x" "2 * x \<le> c + u" "l \<le> c" "c \<le> u" "0 \<le> c" "e \<le> l \<or> e = c \<or> u \<le> e"
  shows "\<bar>c - x\<bar> \<le> \<bar>e - x\<bar> \<and> (\<bar>c - x\<bar> = \<bar>e - x\<bar> \<longrightarrow> \<bar>c\<bar> \<le> \<bar>e\<bar>)"
  using assms by (auto simp: abs_if)

abbreviation fp4_values :: "real set" where
  "fp4_values \<equiv> {0, 1 / 2, 1, 3 / 2, 2, 3, 4, 6, - 1 / 2, - 1, - 3 / 2, - 2, - 3, - 4, - 6}"

lemma e2m1_nearest_pos:
  assumes "0 \<le> x" "e \<in> fp4_values"
  defines "c \<equiv> e2m1_val (e2m1_encode exact_qmath x)"
  shows "\<bar>c - x\<bar> \<le> \<bar>e - x\<bar> \<and> (\<bar>c - x\<bar> = \<bar>e - x\<bar> \<longrightarrow> \<bar>c\<bar> \<le> \<bar>e\<bar>)"
proof -
  note v = e2m1_code_val [of x, folded c_def]
  consider "x \<le> 1 / 4" | "1 / 4 < x" "x \<le> 3 / 4" | "3 / 4 < x" "x \<le> 5 / 4" | "5 / 4 < x" "x \<le> 7 / 4" | "7 / 4 < x" "x \<le> 5 / 2"
    | "5 / 2 < x" "x \<le> 7 / 2" | "7 / 2 < x" "x \<le> 5" | "5 < x" by linarith
  then show ?thesis
  proof cases
    case 1
    then have c: "c = 0" using v assms(1) by simp
    show ?thesis unfolding c by (rule nearest_mid [of "- 1 / 2" _ _ "1 / 2"]) (use 1 assms in \<open>auto\<close>)
  next
    case 2
    then have c: "c = 1 / 2" using v assms(1) by simp
    show ?thesis unfolding c by (rule nearest_mid [of "0" _ _ "1"]) (use 2 assms in \<open>auto\<close>)
  next
    case 3
    then have c: "c = 1" using v assms(1) by simp
    show ?thesis unfolding c by (rule nearest_mid [of "1 / 2" _ _ "3 / 2"]) (use 3 assms in \<open>auto\<close>)
  next
    case 4
    then have c: "c = 3 / 2" using v assms(1) by simp
    show ?thesis unfolding c by (rule nearest_mid [of "1" _ _ "2"]) (use 4 assms in \<open>auto\<close>)
  next
    case 5
    then have c: "c = 2" using v assms(1) by simp
    show ?thesis unfolding c by (rule nearest_mid [of "3 / 2" _ _ "3"]) (use 5 assms in \<open>auto\<close>)
  next
    case 6
    then have c: "c = 3" using v assms(1) by simp
    show ?thesis unfolding c by (rule nearest_mid [of "2" _ _ "4"]) (use 6 assms in \<open>auto\<close>)
  next
    case 7
    then have c: "c = 4" using v assms(1) by simp
    show ?thesis unfolding c by (rule nearest_mid [of "3" _ _ "6"]) (use 7 assms in \<open>auto\<close>)
  next
    case 8
    then have c: "c = 6" using v assms(1) by simp
    show ?thesis unfolding c by (rule nearest_mid [of "4" _ _ "2 * x"]) (use 8 assms in \<open>auto\<close>)
  qed
qed

lemma e2m1_code_neg: "x \<noteq> 0 \<Longrightarrow> e2m1_val (e2m1_encode exact_qmath (- x)) = - e2m1_val (e2m1_encode exact_qmath x)"
proof -
  assume x: "x \<noteq> 0"
  note v = e2m1_code_val [of x] and w = e2m1_code_val [of "- x"]
  consider "\<bar>x\<bar> \<le> 1 / 4" | "1 / 4 < \<bar>x\<bar>" "\<bar>x\<bar> \<le> 3 / 4" | "3 / 4 < \<bar>x\<bar>" "\<bar>x\<bar> \<le> 5 / 4" | "5 / 4 < \<bar>x\<bar>" "\<bar>x\<bar> \<le> 7 / 4" | "7 / 4 < \<bar>x\<bar>" "\<bar>x\<bar> \<le> 5 / 2"
    | "5 / 2 < \<bar>x\<bar>" "\<bar>x\<bar> \<le> 7 / 2" | "7 / 2 < \<bar>x\<bar>" "\<bar>x\<bar> \<le> 5" | "5 < \<bar>x\<bar>" by linarith
  then show ?thesis by cases (use v w x in \<open>simp_all only: abs_minus_cancel\<close>; auto)+
qed

lemma e2m1_nearest:
  fixes x :: real
  defines "c \<equiv> e2m1_val (e2m1_encode exact_qmath x)"
  shows "\<bar>c - x\<bar> \<le> \<bar>e2m1_val n - x\<bar> \<and> (\<bar>c - x\<bar> = \<bar>e2m1_val n - x\<bar> \<longrightarrow> \<bar>c\<bar> \<le> \<bar>e2m1_val n\<bar>)"
proof (cases "0 \<le> x")
  case True
  then show ?thesis unfolding c_def by (rule e2m1_nearest_pos) (rule e2m1_val_cases)
next
  case False
  have "- e2m1_val n \<in> fp4_values" using e2m1_val_cases [of n] by auto
  moreover have "e2m1_val (e2m1_encode exact_qmath (- x)) = - c" using e2m1_code_neg [of x] False by (simp add: c_def)
  ultimately show ?thesis using e2m1_nearest_pos [of "- x" "- e2m1_val n"] False by (simp add: abs_minus_commute)
qed

lemma mx_scale_bounds:
  assumes "0 < eps"
  shows "fmax (amax / 6) eps \<le> mx_scale exact_qmath eps amax" "mx_scale exact_qmath eps amax < 2 * fmax (amax / 6) eps"
proof -
  let ?m = "fmax (amax / 6) eps"
  have m: "0 < ?m" using assms by (auto simp: fmax_def)
  have "?m = 2 powr (log 2 ?m)" using m by simp
  also have "\<dots> \<le> 2 powr (real_of_int \<lceil>log 2 ?m\<rceil>)" by (rule powr_mono) linarith+
  finally show "?m \<le> mx_scale exact_qmath eps amax" by (simp add: mx_scale_def)
  have "2 powr (real_of_int \<lceil>log 2 ?m\<rceil>) < 2 powr (1 + log 2 ?m)" by (rule powr_less_mono) linarith+
  also have "\<dots> = 2 * ?m" using m by (simp add: powr_add)
  finally show "mx_scale exact_qmath eps amax < 2 * ?m" by (simp add: mx_scale_def)
qed

section \<open>Launches over three buffers\<close>

text \<open>Items that read the cells they own of the first buffer; every value depends on its address only.\<close>

lemma launch3:
  assumes sched: "schedule n ord" and own: "owns n cells"
    and item: "\<And>i a b c. i < n \<Longrightarrow> length a = length a0 \<Longrightarrow> length b = length b0 \<Longrightarrow> length c = length c0 \<Longrightarrow> (\<And>x. x \<in> cells i \<Longrightarrow> x < length a0 \<Longrightarrow> a ! x = a0 ! x) \<Longrightarrow>
      \<exists>a' b' c'. f i (a, b, c) = Some (a', b', c') \<and> writes (cells i) u a a' \<and> writes (cells2 i) v b b' \<and> writes (cells3 i) w c c'"
  shows "\<exists>a b c. foldM f ord (a0, b0, c0) = Some (a, b, c) \<and> writes (\<Union>i<n. cells i) u a0 a \<and> writes (\<Union>i<n. cells2 i) v b0 b \<and> writes (\<Union>i<n. cells3 i) w c0 c"
proof -
  let ?P = "\<lambda>D s. writes (\<Union>i\<in>D. cells i) u a0 (fst s) \<and> writes (\<Union>i\<in>D. cells2 i) v b0 (fst (snd s)) \<and> writes (\<Union>i\<in>D. cells3 i) w c0 (snd (snd s)) \<and> D \<subseteq> {..<n}"
  have "\<exists>s. foldM f ord (a0, b0, c0) = Some s \<and> ?P {..<n} s"
  proof (rule foldM_schedule [OF sched, where P = ?P])
    fix D i s assume i: "i < n" "i \<notin> D" and P: "?P D s"
    obtain a b c where s: "s = (a, b, c)" by (cases s)
    have w: "writes (\<Union>i\<in>D. cells i) u a0 a" "writes (\<Union>i\<in>D. cells2 i) v b0 b" "writes (\<Union>i\<in>D. cells3 i) w c0 c" and D: "D \<subseteq> {..<n}" using P s by simp_all
    have "a ! x = a0 ! x" if x: "x \<in> cells i" "x < length a0" for x
    proof -
      have "x \<notin> cells j" if "j \<in> D" for j
      proof -
        have "j < n" "j \<noteq> i" using that D i(2) by auto
        then show ?thesis using own i(1) x(1) unfolding owns_def by blast
      qed
      then show ?thesis using w(1) x(2) by (simp add: writes_def)
    qed
    from item [OF i(1) writes_length [OF w(1)] writes_length [OF w(2)] writes_length [OF w(3)] this] obtain a' b' c'
      where r: "f i (a, b, c) = Some (a', b', c')" "writes (cells i) u a a'" "writes (cells2 i) v b b'" "writes (cells3 i) w c c'" by blast
    have "?P (insert i D) (a', b', c')"
      using writes_trans [OF w(1) r(2)] writes_trans [OF w(2) r(3)] writes_trans [OF w(3) r(4)] D i(1) by (simp add: Un_commute)
    then show "\<exists>s'. f i s = Some s' \<and> ?P (insert i D) s'" using r(1) s by blast
  qed simp
  then obtain a b c where "foldM f ord (a0, b0, c0) = Some (a, b, c)" "?P {..<n} (a, b, c)" by fast
  then show ?thesis by auto
qed

section \<open>MXFP4 groups\<close>

definition mx_code :: "real \<Rightarrow> real \<Rightarrow> 8 word" where
  "mx_code ys v = e2m1_encode exact_qmath (max (- 6) (min (v * (1 / ys)) 6))"

definition mx_byte :: "(nat \<Rightarrow> 8 word) \<Rightarrow> nat \<Rightarrow> 8 word" where
  "mx_byte cv b = push_bit 4 (cv (2 * b + 1) AND 0x0f) OR (cv (2 * b) AND 0x0f)"

lemma mx_codes_exact:
  assumes "\<And>l. l < min 32 sg \<Longrightarrow> val l = Some (v l)"
  shows "mx_codes exact_qmath ys sg val = Some (map (\<lambda>l. mx_code ys (v l)) [0..<min 32 sg])"
  unfolding mx_codes_def Let_def
proof (rule those_map_Some)
  fix l assume "l \<in> set [0..<min 32 sg]"
  then have "val l = Some (v l)" using assms by simp
  then show "(do { v \<leftarrow> val l; Some (e2m1_encode exact_qmath (fmax (- of_num exact_qmath 6) (fmin (v * (1 / ys)) (of_num exact_qmath 6)))) }) = Some (mx_code ys (v l))"
    by (simp add: mx_code_def fmax_def fmin_def max_def min_def not_less)
qed

lemma mx_store_writes:
  fixes out :: "8 word list"
  assumes lanes: "schedule sg lanes" and sg: "even sg" and codes: "codes = map cv [0..<min 32 sg]" and eb: "even ebase" and len: "obase + ebase div 2 + min 32 sg div 2 \<le> length out"
  shows "\<exists>out'. mx_store codes obase ebase lanes out = Some out' \<and>
    writes {obase + ebase div 2..<obase + ebase div 2 + min 32 sg div 2} (\<lambda>a. mx_byte cv (a - (obase + ebase div 2))) out out'"
proof -
  let ?o = "obase + ebase div 2" and ?c = "min 32 sg"
  let ?v = "\<lambda>a. mx_byte cv (a - ?o)"
  let ?cells = "\<lambda>l. if l < ?c \<and> even l then {?o + l div 2} else {}"
  have c: "even ?c" using sg by (simp add: min_def)
  have "\<exists>out'. mx_store codes obase ebase lanes out = Some out' \<and> writes (\<Union>l< sg. ?cells l) ?v out out'"
    unfolding mx_store_def
  proof (rule launch_writes [OF lanes])
    fix l and m :: "8 word list" assume m: "length m = length out"
    show "\<exists>m'. (if l < length codes \<and> even l then do { code \<leftarrow> rd codes l; nxt \<leftarrow> rd codes (l + 1);
        wr m (obase + (ebase + l) div 2) (push_bit 4 (nxt AND 0x0f) OR (code AND 0x0f)) } else Some m) = Some m' \<and> writes (?cells l) ?v m m'"
    proof (cases "l < ?c \<and> even l")
      case True
      then obtain h where h: "l = 2 * h" by blast
      have hc: "2 * h + 1 < ?c" using True h c by presburger
      have "h < ?c div 2" using hc by linarith
      then have lt: "?o + h < length m" using len m by simp
      have "obase + (ebase + l) div 2 = ?o + h" using eb h by (auto elim!: evenE)
      moreover have "rd codes (2 * h) = Some (cv (2 * h))" "rd codes (2 * h + 1) = Some (cv (2 * h + 1))" using hc by (simp_all add: codes)
      moreover have "?v (?o + h) = push_bit 4 (cv (2 * h + 1) AND 0x0f) OR (cv (2 * h) AND 0x0f)" by (simp add: mx_byte_def)
      moreover have "wr m (?o + h) v = Some (m[?o + h := v])" for v using lt by simp
      moreover have "length codes = ?c" by (simp add: codes)
      moreover have "?cells l = {?o + h}" using True h by simp
      ultimately show ?thesis using writes_single [OF lt, of ?v] True unfolding h by (simp only: simp_thms if_True bind.bind_lunit) blast
    next
      case False
      have "length codes = ?c" by (simp add: codes)
      then show ?thesis using False by (auto split: if_splits)
    qed
  qed
  moreover have "(\<Union>l< sg. ?cells l) = {?o..<?o + ?c div 2}"
  proof (intro equalityI subsetI)
    fix a assume "a \<in> (\<Union>l< sg. ?cells l)"
    then obtain l where "l < ?c" "even l" "a = ?o + l div 2" by (auto split: if_splits)
    then show "a \<in> {?o..<?o + ?c div 2}" using c by (auto elim!: evenE)
  next
    fix a assume "a \<in> {?o..<?o + ?c div 2}"
    then have a: "?o \<le> a" "a - ?o < ?c div 2" by auto
    let ?l = "2 * (a - ?o)"
    have "?l < ?c" using a(2) by linarith
    moreover have "?o + ?l div 2 = a" using a(1) by simp
    ultimately show "a \<in> (\<Union>l< sg. ?cells l)" by (intro UN_I [of ?l]) auto
  qed
  ultimately show ?thesis by simp
qed

lemma even_mult_32 [simp]: "even (g * 32 :: nat)"
  by simp

text \<open>The groups of a row, dealt to the sub-groups, are each taken once.\<close>

lemma dealt_schedule:
  assumes "schedule T sgs" "0 < T"
  shows "schedule n (concat (map (\<lambda>s. strided s T n) sgs))"
proof -
  have "lane_indices 1 T n = (\<lambda>s. strided s T n)" by (rule ext) (rule lane_indices_1)
  then show ?thesis using lane_indices_distinct [OF assms(1,2), of 1 n] by (auto simp: schedule_def)
qed

definition mx_ys :: "real \<Rightarrow> nat \<Rightarrow> (nat \<Rightarrow> real) \<Rightarrow> nat \<Rightarrow> real" where
  "mx_ys eps n v g = mx_scale exact_qmath eps (max eps (absmax (\<lambda>l. v (g * 32 + l)) n))"

lemma Max_absmax:
  assumes "0 < sg" "0 \<le> eps"
  shows "Max (set (map (\<lambda>l. if l < 32 then max eps \<bar>f l\<bar> else eps) [0..<sg])) = max eps (absmax f (min 32 sg))"
proof (rule antisym)
  show "Max (set (map (\<lambda>l. if l < 32 then max eps \<bar>f l\<bar> else eps) [0..<sg])) \<le> max eps (absmax f (min 32 sg))"
  proof (rule Max.boundedI)
    fix y assume "y \<in> set (map (\<lambda>l. if l < 32 then max eps \<bar>f l\<bar> else eps) [0..<sg])"
    then obtain l where l: "l < sg" "y = (if l < 32 then max eps \<bar>f l\<bar> else eps)" by auto
    then show "y \<le> max eps (absmax f (min 32 sg))" using absmax_ge [of l "min 32 sg" f] by (auto simp: max_def)
  qed (use assms in auto)
  have fin: "finite (set (map (\<lambda>l. if l < 32 then max eps \<bar>f l\<bar> else eps) [0..<sg]))" by simp
  have ge: "(if l < 32 then max eps \<bar>f l\<bar> else eps) \<le> Max (set (map (\<lambda>l. if l < 32 then max eps \<bar>f l\<bar> else eps) [0..<sg]))" if "l < sg" for l
    by (rule Max_ge [OF fin]) (use that in auto)
  have "absmax f n \<le> Max (set (map (\<lambda>l. if l < 32 then max eps \<bar>f l\<bar> else eps) [0..<sg]))" if "n \<le> min 32 sg" for n
    using that
  proof (induction n)
    case 0
    then show ?case using ge [of 0] assms by (simp add: absmax_def)
  next
    case (Suc n)
    then show ?case using ge [of n] by (simp add: absmax_def)
  qed
  then show "max eps (absmax f (min 32 sg)) \<le> Max (set (map (\<lambda>l. if l < 32 then max eps \<bar>f l\<bar> else eps) [0..<sg]))"
    using ge [of 0] assms by simp
qed

definition mx_out :: "real \<Rightarrow> nat \<Rightarrow> (nat \<Rightarrow> real) \<Rightarrow> nat \<Rightarrow> 8 word" where
  "mx_out eps n v b = mx_byte (\<lambda>l. mx_code (mx_ys eps n v (b div 16)) (v (b div 16 * 32 + l))) (b mod 16)"

lemma mxfp4_row_writes:
  assumes val: "\<And>i. i < hidden \<Longrightarrow> val i = Some (v i)" and h: "32 dvd hidden" and sg: "even sg" "0 < sg" "sg \<le> 256" and eps: "0 \<le> eps"
    and sgs: "schedule (kRowThreads div sg) sgs" and slanes: "schedule sg slanes"
    and len: "row * (hidden div 2) + hidden div 2 \<le> length out" "row * (hidden div 32) + hidden div 32 \<le> length scales"
  shows "\<exists>out' scales'. mxfp4_row exact_qmath eps sg val hidden row sgs slanes (out, scales) = Some (out', scales') \<and>
    writes {a \<in> row_cells (hidden div 2) row. a mod 16 < min 32 sg div 2} (\<lambda>a. mx_out eps (min 32 sg) v (a - row * (hidden div 2))) out out' \<and>
    writes (row_cells (hidden div 32) row) (\<lambda>a. mx_ys eps (min 32 sg) v (a - row * (hidden div 32))) scales scales'"
proof -
  obtain ng where ng: "hidden = 32 * ng" using h by blast
  have hd: "hidden div 32 = ng" "hidden div 2 = ng * 16" by (simp_all add: ng)
  let ?c = "min 32 sg" and ?o = "row * (ng * 16)"
  let ?gs = "concat (map (\<lambda>s. strided s (kRowThreads div sg) ng) sgs)"
  let ?body = "\<lambda>g (out, scales). do {
     amaxs \<leftarrow> those (map (\<lambda>lane. if lane < 32 then do { v \<leftarrow> val (g * 32 + lane); Some (fmax eps (abs_fn exact_qmath v)) } else Some eps) [0..<sg]);
     let ys = mx_scale exact_qmath eps (max_group exact_qmath amaxs);
     scales \<leftarrow> wr scales (row * ng + g) ys;
     codes \<leftarrow> mx_codes exact_qmath ys sg (\<lambda>lane. val (g * 32 + lane));
     out \<leftarrow> mx_store codes (row * (ng * 16)) (g * 32) slanes out;
     Some (out, scales) }"
  let ?u = "\<lambda>a. mx_out eps ?c v (a - ?o)" and ?w = "\<lambda>a. mx_ys eps ?c v (a - row * ng)"
  let ?cells = "\<lambda>g. {?o + g * 16..<?o + g * 16 + ?c div 2}"
  have "0 < kRowThreads div sg" using sg by (simp add: kRowThreads_def div_greater_zero_iff)
  then have sched: "schedule ng ?gs" by (rule dealt_schedule [OF sgs])
  have c16: "?c div 2 \<le> 16" by simp
  have "\<exists>out' scales'. foldM ?body ?gs (out, scales) = Some (out', scales') \<and> rows_done ?cells (\<lambda>_. ?u) out {..<ng} out' \<and> rows_done (\<lambda>g. {row * ng + g}) (\<lambda>_. ?w) scales {..<ng} scales'"
  proof (rule launch_rows2 [OF sched])
    show "owns ng ?cells" unfolding owns_def
    proof (intro allI impI)
      fix i j :: nat assume "i \<noteq> j"
      then have "i * 16 + 16 \<le> j * 16 \<or> j * 16 + 16 \<le> i * 16" by linarith
      then show "?cells i \<inter> ?cells j = {}" using c16 by auto
    qed
    show "owns ng (\<lambda>g. {row * ng + g})" by (simp add: owns_def)
    fix g and a :: "8 word list" and b :: "real list" assume g: "g < ng" and la: "length a = length out" and lb: "length b = length scales"
    have vg: "val (g * 32 + l) = Some (v (g * 32 + l))" if "l < 32" for l using val [of "g * 32 + l"] that g ng by simp
    have am: "those (map (\<lambda>lane. if lane < 32 then do { v \<leftarrow> val (g * 32 + lane); Some (fmax eps (abs_fn exact_qmath v)) } else Some eps) [0..<sg]) =
        Some (map (\<lambda>l. if l < 32 then max eps \<bar>v (g * 32 + l)\<bar> else eps) [0..<sg])"
      by (rule those_map_Some) (simp add: vg fmax_def max_def)
    have ys: "mx_scale exact_qmath eps (max_group exact_qmath (map (\<lambda>l. if l < 32 then max eps \<bar>v (g * 32 + l)\<bar> else eps) [0..<sg])) = mx_ys eps ?c v g"
      unfolding mx_ys_def using Max_absmax [OF sg(2) eps, of "\<lambda>l. v (g * 32 + l)"] by simp
    have lt: "row * ng + g < length b" using g lb len(2) hd by simp
    have wb: "wr b (row * ng + g) (mx_ys eps ?c v g) = Some (b[row * ng + g := ?w (row * ng + g)])" using lt by simp
    have codes: "mx_codes exact_qmath (mx_ys eps ?c v g) sg (\<lambda>lane. val (g * 32 + lane)) = Some (map (\<lambda>l. mx_code (mx_ys eps ?c v g) (v (g * 32 + l))) [0..<?c])"
      by (rule mx_codes_exact) (rule vg, simp)
    have "g * 16 + 16 \<le> ng * 16" using g by simp
    then have "?o + g * 32 div 2 + ?c div 2 \<le> length a" using la len(1) hd c16 by simp
    from mx_store_writes [OF slanes sg(1) refl even_mult_32 this] obtain a' where a': "mx_store (map (\<lambda>l. mx_code (mx_ys eps ?c v g) (v (g * 32 + l))) [0..<?c]) ?o (g * 32) slanes a = Some a'"
      "writes {?o + g * 32 div 2..<?o + g * 32 div 2 + ?c div 2} (\<lambda>x. mx_byte (\<lambda>l. mx_code (mx_ys eps ?c v g) (v (g * 32 + l))) (x - (?o + g * 32 div 2))) a a'" by blast
    have "writes (?cells g) ?u a a'"
    proof (rule writes_cong [THEN iffD1, rotated])
      show "writes (?cells g) (\<lambda>x. mx_byte (\<lambda>l. mx_code (mx_ys eps ?c v g) (v (g * 32 + l))) (x - (?o + g * 16))) a a'"
      proof -
        have "g * 32 div 2 = g * 16" by simp
        then show ?thesis using a'(2) by (simp only:)
      qed
      fix x assume x: "x \<in> ?cells g"
      then obtain d where d: "x = ?o + g * 16 + d" "d < 16" using c16 by (metis atLeastLessThan_iff le_iff_add nat_add_left_cancel_less order_less_le_trans)
      then have "(x - ?o) div 16 = g" "(x - ?o) mod 16 = d" "x - (?o + g * 16) = d" by simp_all
      then show "mx_byte (\<lambda>l. mx_code (mx_ys eps ?c v g) (v (g * 32 + l))) (x - (?o + g * 16)) = ?u x" by (simp only: mx_out_def)
    qed
    moreover have "writes {row * ng + g} ?w b (b[row * ng + g := ?w (row * ng + g)])" by (rule writes_single [OF lt])
    moreover have "?body g (a, b) = Some (a', b[row * ng + g := ?w (row * ng + g)])"
      unfolding prod.case am bind.bind_lunit Let_def ys wb codes a'(1) by (rule refl)
    ultimately show "\<exists>a' b'. ?body g (a, b) = Some (a', b') \<and> writes (?cells g) ?u a a' \<and> writes {row * ng + g} ?w b b'" by blast
  qed
  then obtain out' scales' where run: "foldM ?body ?gs (out, scales) = Some (out', scales')"
    and o: "rows_done ?cells (\<lambda>_. ?u) out {..<ng} out'" and sc: "rows_done (\<lambda>g. {row * ng + g}) (\<lambda>_. ?w) scales {..<ng} scales'" by blast
  have c1: "(\<Union>g<ng. ?cells g) = {a \<in> row_cells (ng * 16) row. a mod 16 < ?c div 2}"
  proof (intro equalityI subsetI)
    fix a assume "a \<in> (\<Union>g<ng. ?cells g)"
    then obtain g d where g: "g < ng" "a = ?o + g * 16 + d" "d < ?c div 2" by (auto simp: atLeastLessThan_iff le_iff_add)
    then have d: "d < 16" using c16 by linarith
    have "g * 16 + d < ng * 16" using g(1) d by linarith
    moreover have "a = (row * ng + g) * 16 + d" using g(2) by (simp add: add_mult_distrib)
    then have "a mod 16 = d" using d by (simp only: mod_mult_self3 mod_less)
    ultimately show "a \<in> {a \<in> row_cells (ng * 16) row. a mod 16 < ?c div 2}" using g by simp
  next
    fix a assume "a \<in> {a \<in> row_cells (ng * 16) row. a mod 16 < ?c div 2}"
    then have a: "?o \<le> a" "a < ?o + ng * 16" "a mod 16 < ?c div 2" by simp_all
    obtain d where d: "a = ?o + d" "d < ng * 16" using a(1,2) by (metis le_iff_add nat_add_left_cancel_less)
    have "a = row * ng * 16 + d" using d(1) by simp
    then have "a mod 16 = d mod 16" by (simp only: mod_mult_self3)
    moreover have "d div 16 < ng" using d(2) by (rule less_mult_imp_div_less)
    moreover have "d = d div 16 * 16 + d mod 16" by simp
    ultimately have "?o + d div 16 * 16 \<le> a \<and> a < ?o + d div 16 * 16 + ?c div 2" using a(3) d(1) by linarith
    then show "a \<in> (\<Union>g<ng. ?cells g)" using \<open>d div 16 < ng\<close> by (intro UN_I [of "d div 16"]) simp_all
  qed
  have c2: "(\<Union>g<ng. {row * ng + g}) = row_cells ng row"
  proof (intro equalityI subsetI)
    fix a assume "a \<in> row_cells ng row"
    then show "a \<in> (\<Union>g<ng. {row * ng + g})" by (intro UN_I [of "a - row * ng"]) auto
  qed auto
  have "mxfp4_row exact_qmath eps sg val hidden row sgs slanes (out, scales) = Some (out', scales')"
    using run unfolding mxfp4_row_def hd by (simp only: foldM_concat foldM_map)
  then show ?thesis using rows_done_writes [OF o] rows_done_writes [OF sc] unfolding c1 c2 hd by blast
qed

section \<open>The rows of the norm\<close>

text \<open>The residual row after the first pass, the values normalized, and the normalized row.\<close>

definition nq_res :: "('t \<Rightarrow> real) \<Rightarrow> (real \<Rightarrow> 't) \<Rightarrow> 't list \<Rightarrow> 't list \<Rightarrow> nat \<Rightarrow> 't" where
  "nq_res ld st x rr a = st (ld (x ! a) + ld (rr ! a))"

definition nq_pre :: "('t \<Rightarrow> real) \<Rightarrow> (real \<Rightarrow> 't) \<Rightarrow> bool \<Rightarrow> 't list \<Rightarrow> 't list \<Rightarrow> nat \<Rightarrow> real" where
  "nq_pre ld st has_res x rr a = ld (if has_res then nq_res ld st x rr a else x ! a)"

definition nq_norm :: "('t \<Rightarrow> real) \<Rightarrow> (real \<Rightarrow> 't) \<Rightarrow> bool \<Rightarrow> 't list \<Rightarrow> 't list \<Rightarrow> 't list \<Rightarrow> nat \<Rightarrow> real \<Rightarrow> nat \<Rightarrow> nat \<Rightarrow> real" where
  "nq_norm ld st has_res x rr w hidden eps row i =
     nq_pre ld st has_res x rr (row * hidden + i) / sqrt (mean_square (\<lambda>i. nq_pre ld st has_res x rr (row * hidden + i)) hidden + eps) * ld (w ! i)"

lemma nq_pass1_exact:
  assumes row: "row < rows" and lanes: "schedule kRowThreads lanes" and len: "length x = rows * hidden" "has_res \<Longrightarrow> length rr = rows * hidden"
  shows "\<exists>rr' parts. nq_pass1 ld st has_res x hidden lanes row rr = Some (rr', parts) \<and>
    writes (if has_res then row_cells hidden row else {}) (nq_res ld st x rr) rr rr' \<and>
    sum_list parts = (\<Sum>i<hidden. nq_pre ld st has_res x rr (row * hidden + i) * nq_pre ld st has_res x rr (row * hidden + i))"
proof -
  have r: "row * hidden + i < rows * hidden" if "i < hidden" for i using src_row [OF row, of hidden] that by linarith
  show ?thesis
  proof (cases has_res)
    case True
    let ?q = "\<lambda>i. ld (nq_res ld st x rr (row * hidden + i)) * ld (nq_res ld st x rr (row * hidden + i))"
    let ?body = "\<lambda>i (rr, partial). do {
          xv \<leftarrow> rd x (row * hidden + i);
          rv \<leftarrow> rd rr (row * hidden + i);
          let r = st (ld xv + ld rv);
          rr \<leftarrow> wr rr (row * hidden + i) r;
          let v = ld r;
          Some (rr, partial + v * v) }"
    have "\<exists>a' parts. foldM (\<lambda>lane (a, parts). do { (a, acc) \<leftarrow> foldM ?body (lane_indices 1 kRowThreads hidden lane) (a, 0); parts \<leftarrow> wr parts lane acc; Some (a, parts) })
        lanes (rr, replicate kRowThreads 0) = Some (a', parts) \<and>
      writes {row * hidden..<row * hidden + hidden} (\<lambda>c. nq_res ld st x rr (row * hidden + (c - row * hidden))) rr a' \<and> sum_list parts = (\<Sum>i<hidden. ?q i)"
    proof (rule store_acc_lanes [OF lanes])
      show "row * hidden + hidden \<le> length rr" using src_row [OF row, of hidden] len(2) True by simp
      fix i a and acc :: real assume i: "i < hidden" and a: "length a = length rr" "a ! (row * hidden + i) = rr ! (row * hidden + i)"
      show "?body i (a, acc) = Some (a[row * hidden + i := nq_res ld st x rr (row * hidden + i)], acc + ?q i)"
        using r [OF i] a len True by (simp add: nq_res_def Let_def)
    qed simp_all
    then obtain a' parts where ap: "foldM (\<lambda>lane (a, parts). do { (a, acc) \<leftarrow> foldM ?body (lane_indices 1 kRowThreads hidden lane) (a, 0); parts \<leftarrow> wr parts lane acc; Some (a, parts) })
        lanes (rr, replicate kRowThreads 0) = Some (a', parts)"
      "writes {row * hidden..<row * hidden + hidden} (\<lambda>c. nq_res ld st x rr (row * hidden + (c - row * hidden))) rr a'" "sum_list parts = (\<Sum>i<hidden. ?q i)" by (elim exE conjE)
    have "writes (row_cells hidden row) (nq_res ld st x rr) rr a'" using ap(2) by (rule writes_cong [THEN iffD1, rotated]) simp
    then show ?thesis using ap(1,3) True unfolding nq_pass1_def by (simp add: nq_pre_def)
  next
    case False
    have "\<exists>ps. row_partials 1 hidden (\<lambda>i partial. do { xv \<leftarrow> rd x (row * hidden + i); let v = ld xv; Some (partial + v * v) }) 0 = Some ps \<and>
        sum_list ps = (\<Sum>i<hidden. ld (x ! (row * hidden + i)) * ld (x ! (row * hidden + i)))"
      by (rule row_partials_sum) (use r len(1) in \<open>simp_all add: Let_def\<close>)
    then show ?thesis using False by (auto simp: nq_pass1_def nq_pre_def)
  qed
qed

text \<open>The first pass of a row whose residual cells still hold their initial values, and the residual buffer of the whole launch.\<close>

lemma nq_pass1_rows:
  assumes r: "r < rows" and lanes: "schedule kRowThreads lanes" and len: "length x = rows * hidden" "has_res \<Longrightarrow> length rr = rows * hidden" and la: "length a = length rr"
    and own: "\<And>i. i \<in> (if has_res then row_cells hidden r else {}) \<Longrightarrow> i < length rr \<Longrightarrow> a ! i = rr ! i"
  shows "\<exists>a' parts. nq_pass1 ld st has_res x hidden lanes r a = Some (a', parts) \<and> writes (if has_res then row_cells hidden r else {}) (nq_res ld st x rr) a a' \<and>
    sum_list parts = (\<Sum>i<hidden. nq_pre ld st has_res x rr (r * hidden + i) * nq_pre ld st has_res x rr (r * hidden + i))"
proof -
  let ?c1 = "if has_res then row_cells hidden r else {}"
  have lh: "has_res \<Longrightarrow> length a = rows * hidden" using la len(2) by simp
  have rc: "r * hidden + hidden \<le> rows * hidden" by (rule src_row [OF r])
  have res: "nq_res ld st x a (r * hidden + i) = nq_res ld st x rr (r * hidden + i)" if "has_res" "i < hidden" for i
    using own [of "r * hidden + i"] that rc len(2) by (simp add: nq_res_def)
  then have pre: "nq_pre ld st has_res x a (r * hidden + i) = nq_pre ld st has_res x rr (r * hidden + i)" if "i < hidden" for i
    using that by (simp add: nq_pre_def)
  from nq_pass1_exact [OF r lanes len(1), of has_res a ld st] lh obtain a' parts where p1: "nq_pass1 ld st has_res x hidden lanes r a = Some (a', parts)"
    "writes ?c1 (nq_res ld st x a) a a'" "sum_list parts = (\<Sum>i<hidden. nq_pre ld st has_res x a (r * hidden + i) * nq_pre ld st has_res x a (r * hidden + i))" by blast
  have "writes ?c1 (nq_res ld st x rr) a a'" using p1(2)
  proof (rule writes_cong [THEN iffD1, rotated])
    fix i assume "i \<in> ?c1"
    then show "nq_res ld st x a i = nq_res ld st x rr i" using res [of "i - r * hidden"] by (auto split: if_splits)
  qed
  moreover have "sum_list parts = (\<Sum>i<hidden. nq_pre ld st has_res x rr (r * hidden + i) * nq_pre ld st has_res x rr (r * hidden + i))"
    unfolding p1(3) by (rule sum.cong) (simp_all add: pre)
  ultimately show ?thesis using p1(1) by blast
qed

lemma res_cells_map:
  assumes "writes (\<Union>r<rows. if has_res then row_cells hidden r else {}) u rr a" "has_res \<Longrightarrow> length rr = rows * hidden"
  shows "a = (if has_res then map u [0..<rows * hidden] else rr)"
proof (cases has_res)
  case True
  then have "writes {..<rows * hidden} u rr a" using assms(1) by (simp only: if_True row_cells_UN)
  then show ?thesis using writes_map_upt [of "rows * hidden" u rr a] True assms(2) by (simp only: if_True simp_thms)
qed (use assms in simp)

lemma norm_at_exact:
  assumes row: "row < rows" and i: "i < hidden" and len: "length x = rows * hidden" "length w = hidden" "has_res \<Longrightarrow> length rr0 = rows * hidden"
    and rr: "writes (if has_res then row_cells hidden row else {}) (nq_res ld st x rr0) rr rr'" "length rr = length rr0"
    and parts: "sum_list parts = (\<Sum>i<hidden. nq_pre ld st has_res x rr0 (row * hidden + i) * nq_pre ld st has_res x rr0 (row * hidden + i))"
  shows "norm_at ld has_res x rr' w (rsqrt_fn exact_qmath (sum_group exact_qmath parts / of_num exact_qmath (int hidden) + eps)) (row * hidden) i =
    Some (nq_norm ld st has_res x rr0 w hidden eps row i)"
proof -
  have r: "row * hidden + i < rows * hidden" using src_row [OF row, of hidden] i by linarith
  have "has_res \<Longrightarrow> rd rr' (row * hidden + i) = Some (nq_res ld st x rr0 (row * hidden + i))"
    using rr r i len(3) by (simp add: writes_def)
  then show ?thesis using r i len(1,2) by (simp add: norm_at_def nq_norm_def nq_pre_def mean_square_def parts)
qed

definition fp8_scale :: "(nat \<Rightarrow> real) \<Rightarrow> nat \<Rightarrow> real" where
  "fp8_scale v n = max (absmax v n / 448) (1 / (448 * 512))"

definition fp8_code :: "(real \<Rightarrow> 8 word) \<Rightarrow> real \<Rightarrow> real \<Rightarrow> 8 word" where
  "fp8_code e4 scale v = e4 (max (- 448) (min (v * (1 / scale)) 448))"

text \<open>With the dynamic scale nothing is clamped.\<close>

lemma fp8_code_dynamic: "i < n \<Longrightarrow> fp8_code e4 (fp8_scale v n) (v i) = e4 (v i / fp8_scale v n)"
proof -
  assume "i < n"
  then have a: "\<bar>v i\<bar> \<le> absmax v n" by (rule absmax_ge)
  have s: "0 < fp8_scale v n" "absmax v n \<le> 448 * fp8_scale v n" by (auto simp: fp8_scale_def max_def)
  then have "\<bar>v i\<bar> \<le> 448 * fp8_scale v n" using a by linarith
  then have "v i \<le> 448 * fp8_scale v n" "- (448 * fp8_scale v n) \<le> v i" by linarith+
  then have "v i * (1 / fp8_scale v n) \<le> 448" "- 448 \<le> v i * (1 / fp8_scale v n)" using s(1) by (simp_all add: pos_divide_le_eq pos_le_divide_eq)
  then show ?thesis by (simp only: fp8_code_def min_absorb1 max_absorb2) simp
qed

lemma fp8_row_writes:
  assumes val: "\<And>i. i < hidden \<Longrightarrow> val i = Some (v i)" and lanes: "schedule kRowThreads lanes" and len: "base + hidden \<le> length out"
  shows "\<exists>out'. fp8_row exact_qmath e4 scale val hidden base lanes out = Some out' \<and> writes {base..<base + hidden} (\<lambda>a. fp8_code e4 scale (v (a - base))) out out'"
  unfolding fp8_row_def Let_def
proof (rule row_store_writes [OF lanes kRowThreads_pos _ len])
  fix i assume "i < hidden"
  then have "val i = Some (v i)" by (rule val)
  then show "(do { v \<leftarrow> val i; Some (e4 (fmax (fmin (v * (1 / scale)) (of_num exact_qmath 448)) (- of_num exact_qmath 448))) }) = Some (fp8_code e4 scale (v i))"
    by (simp add: fp8_code_def fmax_def fmin_def max_def min_def not_less)
qed simp

lemma row_absmax:
  assumes val: "\<And>i. i < hidden \<Longrightarrow> val i = Some (v i)"
  shows "\<exists>amaxs. row_partials 1 hidden (\<lambda>i amax. do { v \<leftarrow> val i; Some (fmax amax (abs_fn exact_qmath v)) }) 0 = Some amaxs \<and> max_group exact_qmath amaxs = absmax v hidden"
proof -
  have "row_partials 1 hidden (\<lambda>i amax. do { v \<leftarrow> val i; Some (fmax amax (abs_fn exact_qmath v)) }) 0 =
      Some (map (\<lambda>l. fold (\<lambda>i a. max a \<bar>v i\<bar>) (lane_indices 1 kRowThreads hidden l) 0) [0..<kRowThreads])"
    by (rule row_partials_pure) (simp_all add: val fmax_def max_def)
  then show ?thesis using fold_max_lanes [OF kRowThreads_pos, of v hidden] by (simp add: lane_indices_1 del: One_nat_def)
qed

text \<open>The FP8 modes of norm_quant, in exact arithmetic and under every order of the rows and of the work-items: the residual buffer becomes the
  rounded sum, every element is the RMS-normalized and weighted value divided by its scale, clamped to 448 and encoded, and in the dynamic mode the
  scale stored for the row is the largest magnitude of the normalized row over 448, but at least kMinScale.  (With the dynamic scale the clamp
  never acts, see \<open>fp8_code_dynamic\<close>.)\<close>

theorem norm_quant_fp8_exact:
  fixes x rr w :: "'t list"
  assumes mode: "mode < 2" and sched: "schedule rows sched" and lanes: "\<And>r p. schedule kRowThreads (lanes r p)"
    and len: "length x = rows * hidden" "length w = hidden" "has_res \<Longrightarrow> length rr = rows * hidden" "length out = rows * hidden" "mode = 1 \<Longrightarrow> length scales = rows"
  shows "norm_quant exact_qmath ld st e4 kMxEps sg has_res mode x w static_scale hidden eps sched lanes sgs slanes (rr, out, scales) =
    Some (if has_res then map (nq_res ld st x rr) [0..<rows * hidden] else rr,
      map (\<lambda>a. let v = nq_norm ld st has_res x rr w hidden eps (a div hidden) in fp8_code e4 (if mode = 0 then static_scale else fp8_scale v hidden) (v (a mod hidden))) [0..<rows * hidden],
      if mode = 0 then scales else map (\<lambda>r. fp8_scale (nq_norm ld st has_res x rr w hidden eps r) hidden) [0..<rows])"
proof -
  let ?N = "nq_norm ld st has_res x rr w hidden eps"
  let ?sc = "\<lambda>r. if mode = 0 then static_scale else fp8_scale (?N r) hidden"
  let ?u = "nq_res ld st x rr" and ?v = "\<lambda>a. fp8_code e4 (?sc (a div hidden)) (?N (a div hidden) (a mod hidden))" and ?w = "\<lambda>r. fp8_scale (?N r) hidden"
  let ?c1 = "\<lambda>r. if has_res then row_cells hidden r else {}" and ?c3 = "\<lambda>r. if mode = 0 then {} else {r}"
  have "\<exists>a b c. foldM (norm_quant_item exact_qmath ld st e4 kMxEps sg has_res mode x w static_scale hidden eps lanes sgs slanes) sched (rr, out, scales) = Some (a, b, c) \<and>
      writes (\<Union>r<rows. ?c1 r) ?u rr a \<and> writes (\<Union>r<rows. row_cells hidden r) ?v out b \<and> writes (\<Union>r<rows. ?c3 r) ?w scales c"
  proof (rule launch3 [OF sched])
    show "owns rows ?c1" unfolding owns_def using rows_apart by auto
    fix r and a :: "'t list" and b :: "8 word list" and c :: "real list" assume r: "r < rows" and la: "length a = length rr" and lb: "length b = length out" and lc: "length c = length scales"
      and own: "\<And>i. i \<in> ?c1 r \<Longrightarrow> i < length rr \<Longrightarrow> a ! i = rr ! i"
    from nq_pass1_rows [OF r lanes [of r 0] len(1) len(3) la own, of has_res ld st] obtain a' parts
      where p1: "nq_pass1 ld st has_res x hidden (lanes r 0) r a = Some (a', parts)" and w1: "writes (?c1 r) ?u a a'"
        and parts: "sum_list parts = (\<Sum>i<hidden. nq_pre ld st has_res x rr (r * hidden + i) * nq_pre ld st has_res x rr (r * hidden + i))" by blast
    have rc: "r * hidden + hidden \<le> rows * hidden" by (rule src_row [OF r])
    let ?val = "norm_at ld has_res x a' w (rsqrt_fn exact_qmath (sum_group exact_qmath parts / of_num exact_qmath (int hidden) + eps)) (r * hidden)"
    have val: "?val i = Some (?N r i)" if "i < hidden" for i
      by (rule norm_at_exact [OF r that len(1,2) _ w1 la parts]) (rule len(3))
    from row_absmax [where val = ?val and v = "?N r" and hidden = hidden, OF val] obtain amaxs where am: "row_partials 1 hidden (\<lambda>i amax. do { v \<leftarrow> ?val i; Some (fmax amax (abs_fn exact_qmath v)) }) 0 = Some amaxs" "max_group exact_qmath amaxs = absmax (?N r) hidden" by blast
    have kmin: "fmax (absmax (?N r) hidden / of_num exact_qmath 448) (kMinScale exact_qmath) = ?w r"
      by (simp add: fp8_scale_def kMinScale_def fmax_def max_def)
    define c' where "c' = (if mode = 0 then c else c[r := ?w r])"
    have wc: "writes (?c3 r) ?w c c'" using writes_single [of r c ?w] r lc len(5) mode by (auto simp: c'_def)
    have scale: "(if mode = 0 then Some (static_scale, c) else do {
           amaxs \<leftarrow> row_partials 1 hidden (\<lambda>i amax. do { v \<leftarrow> ?val i; Some (fmax amax (abs_fn exact_qmath v)) }) 0;
           let s = fmax (max_group exact_qmath amaxs / of_num exact_qmath 448) (kMinScale exact_qmath);
           scales \<leftarrow> wr c r s;
           Some (s, scales) }) = Some (?sc r, c')"
    proof (cases "mode = 0")
      case False
      then have "wr c r (?w r) = Some (c[r := ?w r])" using r lc len(5) mode by simp
      then show ?thesis using False by (simp only: am kmin Let_def bind.bind_lunit if_False c'_def)
    qed (simp add: c'_def)
    have "r * hidden + hidden \<le> length b" using rc lb len(4) by simp
    from fp8_row_writes [where val = ?val and v = "?N r" and hidden = hidden, OF val lanes [of r 1] this, of e4 "?sc r"] obtain b' where b': "fp8_row exact_qmath e4 (?sc r) ?val hidden (r * hidden) (lanes r 1) b = Some b'"
      "writes {r * hidden..<r * hidden + hidden} (\<lambda>a. fp8_code e4 (?sc r) (?N r (a - r * hidden))) b b'" by blast
    have wb: "writes (row_cells hidden r) ?v b b'" using b'(2)
    proof (rule writes_cong [THEN iffD1, rotated])
      fix i assume "i \<in> row_cells hidden r"
      then show "fp8_code e4 (?sc r) (?N r (i - r * hidden)) = ?v i" using row_div_mod [of i r hidden] by simp
    qed
    have "mode \<noteq> 2" using mode by simp
    then have "norm_quant_item exact_qmath ld st e4 kMxEps sg has_res mode x w static_scale hidden eps lanes sgs slanes r (a, b, c) = Some (a', b', c')"
      unfolding norm_quant_item_def prod.case p1 bind.bind_lunit using b'(1) by (simp only: Let_def if_False scale [unfolded Let_def] prod.case bind.bind_lunit)
    then show "\<exists>a' b' c'. norm_quant_item exact_qmath ld st e4 kMxEps sg has_res mode x w static_scale hidden eps lanes sgs slanes r (a, b, c) = Some (a', b', c') \<and>
        writes (?c1 r) ?u a a' \<and> writes (row_cells hidden r) ?v b b' \<and> writes (?c3 r) ?w c c'" using w1 wb wc by blast
  qed
  then obtain a b c where run: "foldM (norm_quant_item exact_qmath ld st e4 kMxEps sg has_res mode x w static_scale hidden eps lanes sgs slanes) sched (rr, out, scales) = Some (a, b, c)"
    and wa: "writes (\<Union>r<rows. ?c1 r) ?u rr a" and wb: "writes (\<Union>r<rows. row_cells hidden r) ?v out b" and wc: "writes (\<Union>r<rows. ?c3 r) ?w scales c" by blast
  have "a = (if has_res then map ?u [0..<rows * hidden] else rr)" by (rule res_cells_map [OF wa]) (rule len(3))
  moreover have "b = map ?v [0..<rows * hidden]" using wb writes_map_upt [of "rows * hidden" ?v out b] len(4) by (simp only: row_cells_UN)
  moreover have "c = (if mode = 0 then scales else map ?w [0..<rows])"
  proof (cases "mode = 0")
    case False
    moreover have "(\<Union>r<rows. {r}) = {..<rows}" by auto
    ultimately have "writes {..<rows} ?w scales c" using wc by (simp only: if_False)
    then show ?thesis using False writes_map_upt [of rows ?w scales c] len(5) mode by simp
  qed (use wc in simp)
  ultimately show ?thesis using run mode by (simp add: norm_quant_def Let_def)
qed

text \<open>\<open>c\<close> is the code of \<open>v\<close> at scale \<open>s\<close>: no FP4 value times \<open>s\<close> is nearer, and those as near are not smaller in magnitude.\<close>

definition nearest_fp4 :: "real \<Rightarrow> real \<Rightarrow> 8 word \<Rightarrow> bool" where
  "nearest_fp4 s v c \<longleftrightarrow> (\<forall>e. \<bar>s * e2m1_val c - v\<bar> \<le> \<bar>s * e2m1_val e - v\<bar> \<and>
     (\<bar>s * e2m1_val c - v\<bar> = \<bar>s * e2m1_val e - v\<bar> \<longrightarrow> \<bar>e2m1_val c\<bar> \<le> \<bar>e2m1_val e\<bar>))"

lemma mx_ys_bounds:
  fixes v :: "nat \<Rightarrow> real" and g n :: nat
  assumes "0 < eps"
  defines "m \<equiv> max eps (absmax (\<lambda>l. v (g * 32 + l)) n / 6)"
  shows "m \<le> mx_ys eps n v g" "mx_ys eps n v g < 2 * m" "\<exists>k::int. mx_ys eps n v g = 2 powr real_of_int k"
proof -
  have "fmax (max eps (absmax (\<lambda>l. v (g * 32 + l)) n) / 6) eps = m"
    using assms(1) by (auto simp: m_def fmax_def max_def)
  then show "m \<le> mx_ys eps n v g" "mx_ys eps n v g < 2 * m" "\<exists>k::int. mx_ys eps n v g = 2 powr real_of_int k"
    using mx_scale_bounds [OF assms(1), of "max eps (absmax (\<lambda>l. v (g * 32 + l)) n)"]
    by (auto simp: mx_ys_def mx_scale_def)
qed

lemma mx_code_nearest:
  assumes eps: "0 < eps" and l: "l < n"
  shows "nearest_fp4 (mx_ys eps n v g) (v (g * 32 + l)) (mx_code (mx_ys eps n v g) (v (g * 32 + l)))"
proof -
  let ?a = "absmax (\<lambda>l. v (g * 32 + l)) n" and ?y = "mx_ys eps n v g" and ?v = "v (g * 32 + l)"
  have a: "\<bar>?v\<bar> \<le> ?a" by (rule absmax_ge [OF l])
  have y: "0 < ?y" "?a \<le> 6 * ?y" using mx_ys_bounds(1) [OF eps, of v g n] eps by auto
  have "?v \<le> 6 * ?y" "- (6 * ?y) \<le> ?v" using a y(2) by linarith+
  then have "?v * (1 / ?y) \<le> 6" "- 6 \<le> ?v * (1 / ?y)" using y(1) by (simp_all add: pos_divide_le_eq pos_le_divide_eq)
  then have c: "mx_code ?y ?v = e2m1_encode exact_qmath (?v / ?y)" by (simp only: mx_code_def min_absorb1 max_absorb2) simp
  have d: "\<bar>?y * t - ?v\<bar> = ?y * \<bar>t - ?v / ?y\<bar>" for t
  proof -
    have "?y * t - ?v = ?y * (t - ?v / ?y)" using y(1) by (simp add: right_diff_distrib)
    then show ?thesis using y(1) by (simp add: abs_mult)
  qed
  show ?thesis unfolding nearest_fp4_def c d using e2m1_nearest [of "?v / ?y"] y(1) by simp
qed

text \<open>A nibble of a packed byte has the value of its code.\<close>

lemma e2m1_val_low: "e2m1_val (c AND 15) = e2m1_val c"
proof -
  have "(c AND 15) AND 7 = c AND 7" by (simp add: and.assoc)
  then show ?thesis by (simp add: e2m1_val_def bit_simps)
qed

lemma nearest_fp4_low: "nearest_fp4 s v (c AND 15) = nearest_fp4 s v c"
  by (simp add: nearest_fp4_def e2m1_val_low)

lemma mx_byte_nibbles:
  "mx_byte cv b AND 15 = cv (2 * b) AND 15" "drop_bit 4 (mx_byte cv b) = cv (2 * b + 1) AND 15"
proof -
  have k: "(15 :: 8 word) = mask 4" by (simp add: mask_eq_exp_minus_1)
  show "mx_byte cv b AND 15 = cv (2 * b) AND 15" "drop_bit 4 (mx_byte cv b) = cv (2 * b + 1) AND 15"
    unfolding mx_byte_def k by (rule bit_word_eqI; auto simp: bit_simps)+
qed

lemma writes_map_if:
  assumes "writes {a. a < n \<and> P a} u xs ys" "length xs = n"
  shows "ys = map (\<lambda>a. if P a then u a else xs ! a) [0..<n]"
  by (rule nth_equalityI) (use assms in \<open>auto simp: writes_def\<close>)

text \<open>The buffers after the launch cell by cell, in terms of the codec.\<close>

lemma norm_quant_mxfp4_cells:
  fixes x rr w :: "'t list"
  assumes sg: "even sg" "0 < sg" "sg \<le> 256" and sched: "schedule rows sched" and lanes: "\<And>r p. schedule kRowThreads (lanes r p)"
    and sgs: "\<And>r. schedule (kRowThreads div sg) (sgs r)" and slanes: "schedule sg slanes"
    and h: "32 dvd hidden" and eps: "0 \<le> kMxEps"
    and len: "length x = rows * hidden" "length w = hidden" "has_res \<Longrightarrow> length rr = rows * hidden" "length out = rows * (hidden div 2)" "length scales = rows * (hidden div 32)"
  shows "norm_quant exact_qmath ld st e4 kMxEps sg has_res 2 x w static_scale hidden eps sched lanes sgs slanes (rr, out, scales) =
    Some (if has_res then map (nq_res ld st x rr) [0..<rows * hidden] else rr,
      map (\<lambda>a. if a mod 16 < min 32 sg div 2
        then mx_out kMxEps (min 32 sg) (nq_norm ld st has_res x rr w hidden eps (a div (hidden div 2))) (a mod (hidden div 2)) else out ! a) [0..<rows * (hidden div 2)],
      map (\<lambda>a. mx_ys kMxEps (min 32 sg) (nq_norm ld st has_res x rr w hidden eps (a div (hidden div 32))) (a mod (hidden div 32))) [0..<rows * (hidden div 32)])"
proof -
  let ?N = "nq_norm ld st has_res x rr w hidden eps" and ?c = "min 32 sg"
  let ?u = "nq_res ld st x rr" and ?v = "\<lambda>a. mx_out kMxEps ?c (?N (a div (hidden div 2))) (a mod (hidden div 2))"
    and ?w = "\<lambda>a. mx_ys kMxEps ?c (?N (a div (hidden div 32))) (a mod (hidden div 32))"
  let ?c1 = "\<lambda>r. if has_res then row_cells hidden r else {}" and ?c2 = "\<lambda>r. {a \<in> row_cells (hidden div 2) r. a mod 16 < ?c div 2}"
  have "\<exists>a b c. foldM (norm_quant_item exact_qmath ld st e4 kMxEps sg has_res 2 x w static_scale hidden eps lanes sgs slanes) sched (rr, out, scales) = Some (a, b, c) \<and>
      writes (\<Union>r<rows. ?c1 r) ?u rr a \<and> writes (\<Union>r<rows. ?c2 r) ?v out b \<and> writes (\<Union>r<rows. row_cells (hidden div 32) r) ?w scales c"
  proof (rule launch3 [OF sched])
    show "owns rows ?c1" unfolding owns_def using rows_apart by auto
    fix r and a :: "'t list" and b :: "8 word list" and c :: "real list"
    assume r: "r < rows" and la: "length a = length rr" and lb: "length b = length out" and lc: "length c = length scales"
      and own: "\<And>i. i \<in> ?c1 r \<Longrightarrow> i < length rr \<Longrightarrow> a ! i = rr ! i"
    from nq_pass1_rows [OF r lanes [of r 0] len(1) len(3) la own, of has_res ld st] obtain a' parts
      where p1: "nq_pass1 ld st has_res x hidden (lanes r 0) r a = Some (a', parts)" "writes (?c1 r) ?u a a'"
        "sum_list parts = (\<Sum>i<hidden. nq_pre ld st has_res x rr (r * hidden + i) * nq_pre ld st has_res x rr (r * hidden + i))" by blast
    let ?val = "norm_at ld has_res x a' w (rsqrt_fn exact_qmath (sum_group exact_qmath parts / of_num exact_qmath (int hidden) + eps)) (r * hidden)"
    have val: "?val i = Some (?N r i)" if "i < hidden" for i
      by (rule norm_at_exact [OF r that len(1,2) _ p1(2) la p1(3)]) (rule len(3))
    have l2: "r * (hidden div 2) + hidden div 2 \<le> length b" "r * (hidden div 32) + hidden div 32 \<le> length c"
      using src_row [OF r, of "hidden div 2"] src_row [OF r, of "hidden div 32"] lb lc len(4,5) by simp_all
    from mxfp4_row_writes [where val = ?val and v = "?N r" and hidden = hidden, OF val h sg eps sgs [of r] slanes l2] obtain b' c'
      where bc: "mxfp4_row exact_qmath kMxEps sg ?val hidden r (sgs r) slanes (b, c) = Some (b', c')"
        "writes (?c2 r) (\<lambda>a. mx_out kMxEps ?c (?N r) (a - r * (hidden div 2))) b b'"
        "writes (row_cells (hidden div 32) r) (\<lambda>a. mx_ys kMxEps ?c (?N r) (a - r * (hidden div 32))) c c'" by blast
    have wb: "writes (?c2 r) ?v b b'" using bc(2)
    proof (rule writes_cong [THEN iffD1, rotated])
      fix i assume "i \<in> ?c2 r"
      then show "mx_out kMxEps ?c (?N r) (i - r * (hidden div 2)) = ?v i" using row_div_mod [of i r "hidden div 2"] by simp
    qed
    have wc: "writes (row_cells (hidden div 32) r) ?w c c'" using bc(3)
    proof (rule writes_cong [THEN iffD1, rotated])
      fix i assume "i \<in> row_cells (hidden div 32) r"
      then show "mx_ys kMxEps ?c (?N r) (i - r * (hidden div 32)) = ?w i" using row_div_mod [of i r "hidden div 32"] by simp
    qed
    have "norm_quant_item exact_qmath ld st e4 kMxEps sg has_res 2 x w static_scale hidden eps lanes sgs slanes r (a, b, c) = Some (a', b', c')"
      unfolding norm_quant_item_def prod.case p1(1) bind.bind_lunit using bc(1) by (simp only: Let_def simp_thms if_True prod.case bind.bind_lunit)
    then show "\<exists>a' b' c'. norm_quant_item exact_qmath ld st e4 kMxEps sg has_res 2 x w static_scale hidden eps lanes sgs slanes r (a, b, c) = Some (a', b', c') \<and>
        writes (?c1 r) ?u a a' \<and> writes (?c2 r) ?v b b' \<and> writes (row_cells (hidden div 32) r) ?w c c'" using p1(2) wb wc by blast
  qed
  then obtain a b c where run: "foldM (norm_quant_item exact_qmath ld st e4 kMxEps sg has_res 2 x w static_scale hidden eps lanes sgs slanes) sched (rr, out, scales) = Some (a, b, c)"
    and wa: "writes (\<Union>r<rows. ?c1 r) ?u rr a" and wb: "writes (\<Union>r<rows. ?c2 r) ?v out b" and wc: "writes (\<Union>r<rows. row_cells (hidden div 32) r) ?w scales c" by blast
  have "a = (if has_res then map ?u [0..<rows * hidden] else rr)" by (rule res_cells_map [OF wa]) (rule len(3))
  moreover have "(\<Union>r<rows. ?c2 r) = {a. a < rows * (hidden div 2) \<and> a mod 16 < ?c div 2}"
  proof -
    have "(\<Union>r<rows. ?c2 r) = {a \<in> (\<Union>r<rows. row_cells (hidden div 2) r). a mod 16 < ?c div 2}" by blast
    then show ?thesis by (simp only: row_cells_UN lessThan_iff)
  qed
  then have "b = map (\<lambda>a. if a mod 16 < ?c div 2 then ?v a else out ! a) [0..<rows * (hidden div 2)]"
    using wb len(4) by (intro writes_map_if) (simp_all only:)
  moreover have "c = map ?w [0..<rows * (hidden div 32)]" using wc writes_map_upt [of "rows * (hidden div 32)" ?w scales c] len(5) by (simp only: row_cells_UN)
  moreover have "\<not> ((2::nat) > 2 \<or> (2::nat) = 2 \<and> hidden mod 32 \<noteq> 0)" using h by (simp add: dvd_eq_mod_eq_0)
  ultimately show ?thesis using run unfolding norm_quant_def by (simp only: if_False)
qed

lemma mx_out_nibble:
  assumes g: "g < ng" and r: "r < rows" and l: "l < n" "n \<le> 32" "even n"
    and out: "length out = rows * (ng * 16)" "\<And>a. a < rows * (ng * 16) \<Longrightarrow> a mod 16 < n div 2 \<Longrightarrow> out ! a = mx_out eps n (N (a div (ng * 16))) (a mod (ng * 16))"
    and eps: "0 < eps"
  shows "nearest_fp4 (mx_ys eps n (N r) g) (N r (g * 32 + l)) (nib out (r * (ng * 32) + g * 32 + l))"
proof -
  let ?b = "g * 16 + l div 2" and ?a = "r * (ng * 16) + (g * 16 + l div 2)"
  let ?cv = "\<lambda>l. mx_code (mx_ys eps n (N r) g) (N r (g * 32 + l))"
  have b: "?b < ng * 16" "?b div 16 = g" "?b mod 16 = l div 2"
  proof -
    have "l div 2 < 16" using l(1,2) by linarith
    then show "?b div 16 = g" "?b mod 16 = l div 2" by simp_all
    have "(g + 1) * 16 \<le> ng * 16" using g by (intro mult_le_mono1) simp
    then show "?b < ng * 16" using \<open>l div 2 < 16\<close> by simp
  qed
  have a: "?a < rows * (ng * 16)" using src_row [OF r, of "ng * 16"] b(1) by linarith
  have "?a div (ng * 16) = r" "?a mod (ng * 16) = ?b" using b(1) by simp_all
  moreover have "?a mod 16 = l div 2"
  proof -
    have "?a = l div 2 + 16 * (r * ng + g)" by simp
    then show ?thesis using b(3) by (metis mod_mult_self2 mod_mod_trivial b(3) add.commute mult.commute)
  qed
  moreover have "l div 2 < n div 2" using l(1,3) by (elim evenE) simp
  ultimately have byte: "out ! ?a = mx_byte ?cv (l div 2)" using out(2) [OF a] b by (simp add: mx_out_def)
  have j: "(r * (ng * 32) + g * 32 + l) div 2 = ?a" "even (r * (ng * 32) + g * 32 + l) = even l" by simp_all
  have "nib out (r * (ng * 32) + g * 32 + l) = ?cv l AND 15"
  proof (cases "even l")
    case True
    then have "2 * (l div 2) = l" by simp
    then show ?thesis using True by (simp only: nib_def j byte mx_byte_nibbles if_True)
  next
    case False
    then have "2 * (l div 2) + 1 = l" by simp
    then show ?thesis using False by (simp only: nib_def j byte mx_byte_nibbles if_False)
  qed
  then show ?thesis using mx_code_nearest [OF eps l(1), of "N r" g] by (simp only: nearest_fp4_low)
qed

text \<open>C31: The MXFP4 mode of norm_quant, in exact arithmetic, under every order and for every even sub-group size dividing the 256 items.
  Each group of 32 normalized values gets the least power of two that is at least the floor \<open>kMxEps\<close> and a sixth of the group's largest magnitude,
  so nothing is clipped; the nibble of each element, low nibble first, holds the FP4 code whose value times the scale is nearest to it, ties
  to the smaller magnitude, where the value of a code is that of the decoders; the residual buffer becomes the input plus itself.  With sub-groups of at least 32 lanes that
  is the whole group; with fewer lanes the scale looks at the first \<open>sg\<close> elements of the group only and the bytes of the others keep what was in the buffer.\<close>

theorem norm_quant_mxfp4:
  fixes x rr w :: "'t list"
  assumes sg: "even sg" "sg dvd kRowThreads" and sched: "schedule rows sched" and lanes: "\<And>r p. schedule kRowThreads (lanes r p)"
    and sgs: "\<And>r. schedule (kRowThreads div sg) (sgs r)" and slanes: "schedule sg slanes"
    and h: "32 dvd hidden" and eps: "0 < kMxEps"
    and len: "length x = rows * hidden" "length w = hidden" "has_res \<Longrightarrow> length rr = rows * hidden" "length out = rows * (hidden div 2)" "length scales = rows * (hidden div 32)"
  shows "\<exists>out' scales'. norm_quant exact_qmath ld st e4 kMxEps sg has_res 2 x w static_scale hidden eps sched lanes sgs slanes (rr, out, scales) =
      Some (if has_res then map (nq_res ld st x rr) [0..<rows * hidden] else rr, out', scales') \<and>
    length out' = length out \<and> length scales' = length scales \<and>
    (\<forall>r<rows. \<forall>g<hidden div 32.
      let v = \<lambda>l. nq_norm ld st has_res x rr w hidden eps r (g * 32 + l); n = min 32 sg;
        s = scales' ! (r * (hidden div 32) + g); m = max kMxEps (absmax v n / 6)
      in (\<exists>k::int. s = 2 powr real_of_int k) \<and> m \<le> s \<and> s < 2 * m \<and>
        (\<forall>l<n. nearest_fp4 s (v l) (nib out' (r * hidden + g * 32 + l))) \<and>
        (\<forall>b<16. n div 2 \<le> b \<longrightarrow> out' ! (r * (hidden div 2) + g * 16 + b) = out ! (r * (hidden div 2) + g * 16 + b)))"
proof -
  let ?N = "nq_norm ld st has_res x rr w hidden eps" and ?n = "min 32 sg"
  obtain ng where hd: "hidden = ng * 32" using h by (auto elim: dvdE)
  have h2: "hidden div 2 = ng * 16" "hidden div 32 = ng" by (simp_all add: hd)
  have k: "0 < sg" "sg \<le> 256" using sg(2) by (auto simp: kRowThreads_def intro!: Nat.gr0I dest: dvd_imp_le)
  have n: "even ?n" "?n \<le> 32" using sg(1) by (simp_all add: min_def)
  define out' scales' where
    o: "out' = map (\<lambda>a. if a mod 16 < ?n div 2 then mx_out kMxEps ?n (?N (a div (hidden div 2))) (a mod (hidden div 2)) else out ! a) [0..<rows * (hidden div 2)]"
    and sc: "scales' = map (\<lambda>a. mx_ys kMxEps ?n (?N (a div (hidden div 32))) (a mod (hidden div 32))) [0..<rows * (hidden div 32)]"
  have cells: "norm_quant exact_qmath ld st e4 kMxEps sg has_res 2 x w static_scale hidden eps sched lanes sgs slanes (rr, out, scales) =
      Some (if has_res then map (nq_res ld st x rr) [0..<rows * hidden] else rr, out', scales')"
    unfolding o sc by (rule norm_quant_mxfp4_cells [OF sg(1) k sched lanes sgs slanes h less_imp_le [OF eps] len])
  have group: "let v = \<lambda>l. ?N r (g * 32 + l); n = ?n; s = scales' ! (r * ng + g); m = max kMxEps (absmax v n / 6)
      in (\<exists>k::int. s = 2 powr real_of_int k) \<and> m \<le> s \<and> s < 2 * m \<and>
        (\<forall>l<n. nearest_fp4 s (v l) (nib out' (r * hidden + g * 32 + l))) \<and>
        (\<forall>b<16. n div 2 \<le> b \<longrightarrow> out' ! (r * (ng * 16) + g * 16 + b) = out ! (r * (ng * 16) + g * 16 + b))"
    if r: "r < rows" and g: "g < ng" for r g
  proof -
    have s: "scales' ! (r * ng + g) = mx_ys kMxEps ?n (?N r) g"
      using src_row [OF r, of ng] g by (simp add: sc h2)
    have "nearest_fp4 (mx_ys kMxEps ?n (?N r) g) (?N r (g * 32 + l)) (nib out' (r * (ng * 32) + g * 32 + l))" if "l < ?n" for l
      by (rule mx_out_nibble [OF g r that n(2,1) _ _ eps]) (simp_all add: o h2)
    then have "\<forall>l<?n. nearest_fp4 (mx_ys kMxEps ?n (?N r) g) (?N r (g * 32 + l)) (nib out' (r * hidden + g * 32 + l))" by (simp only: hd) simp
    moreover have "out' ! (r * (ng * 16) + g * 16 + b) = out ! (r * (ng * 16) + g * 16 + b)" if b: "b < 16" "?n div 2 \<le> b" for b
    proof -
      have "(g + 1) * 16 \<le> ng * 16" using g by (intro mult_le_mono1) simp
      then have "r * (ng * 16) + g * 16 + b < rows * (ng * 16)" using src_row [OF r, of "ng * 16"] b(1) by simp
      moreover have "(r * (ng * 16) + g * 16 + b) mod 16 = b"
      proof -
        have "r * (ng * 16) + g * 16 + b = b + 16 * (r * ng + g)" by simp
        then show ?thesis using b(1) by (simp only: mod_mult_self2 mod_less)
      qed
      moreover have "\<not> b < ?n div 2" using b(2) by (simp only: not_less simp_thms)
      ultimately show ?thesis by (simp only: o h2 nth_map_upt add_0 minus_nat.diff_0 if_False)
    qed
    ultimately show ?thesis using mx_ys_bounds [OF eps, where v = "?N r" and g = g and n = ?n] by (simp add: Let_def s)
  qed
  have "length out' = length out" "length scales' = length scales" using len(4,5) by (simp_all add: o sc)
  then show ?thesis unfolding h2 by (intro exI [of _ out'] exI [of _ scales'] conjI allI impI cells group)
qed

lemma norm_quant_mxfp4_witness:
  "\<exists>b c. norm_quant exact_qmath id id (\<lambda>_. 0) (1 / 10) 16 False 2 (replicate 32 1) (replicate 32 1) 0 32 0 [0] (\<lambda>_ _. [0..<256]) (\<lambda>_. [0..<16]) [0..<16]
      ([] :: real list, replicate 16 0xFF, [0]) = Some ([], b, c) \<and> b ! 8 = 0xFF \<and> length c = 1 \<and> 1 / 10 \<le> c ! 0 \<and>
      nearest_fp4 (c ! 0) (nq_norm id id False (replicate 32 1) [] (replicate 32 1) 32 0 0 5) (nib b 5)"
proof -
  have k: "kRowThreads = 256" "kRowThreads div 16 = 16" "16 dvd kRowThreads" by (simp_all add: kRowThreads_def)
  have s: "schedule 1 [0]" "schedule kRowThreads [0..<256]" "schedule (kRowThreads div 16) [0..<16]" by (simp_all add: kRowThreads_def schedule_def lessThan_Suc atLeast0LessThan)
  from norm_quant_mxfp4 [of 16 1 "[0]" "\<lambda>_ _. [0..<256]" "\<lambda>_. [0..<16]" "[0..<16]" 32 "1 / 10" "replicate 32 1" "replicate 32 1" False "[]" "replicate 16 0xFF" "[0]" id id "\<lambda>_. 0" 0 0] s k
  obtain b c where *: "norm_quant exact_qmath id id (\<lambda>_. 0) (1 / 10) 16 False 2 (replicate 32 1) (replicate 32 1) 0 32 0 [0] (\<lambda>_ _. [0..<256]) (\<lambda>_. [0..<16]) [0..<16]
      ([] :: real list, replicate 16 0xFF, [0]) = Some ([], b, c)" "length c = 1" "1 / 10 \<le> c ! 0"
      "\<And>l. l < 16 \<Longrightarrow> nearest_fp4 (c ! 0) (nq_norm id id False (replicate 32 1) [] (replicate 32 1) 32 0 0 l) (nib b l)"
      "\<And>a. a < 16 \<Longrightarrow> 8 \<le> a \<Longrightarrow> b ! a = replicate 16 0xFF ! a"
    by (auto simp: Let_def)
  have "b ! 8 = 0xFF" using *(5) [of 8] by (simp add: nth_append)
  with *(1-3) *(4) [of 5] show ?thesis by auto
qed

end
