(* ===== verification/Xmx.thy ===== *)
theory Xmx
  imports RowQuant
begin

text \<open>
  The products on the matrix engine: the building block \<open>xmx_tile.hpp\<close> and its users, the int4 by 16-bit product
  (\<open>w4a16_gemm.sycl.cpp\<close>), the product of rows grouped by expert (\<open>grouped_qgemm.sycl.cpp\<close>) and the logits of the FP8 indexer
  (\<open>mqa_logits.sycl.cpp\<close>).  One sub-group of 16 lanes owns an output tile of 8 by 16; per step of 16 it stages both operands in local
  memory, zero beyond the borders, and issues one \<open>joint_matrix_mad\<close>.  That instruction is not part of the sources: it is the
  parameter \<open>mad\<close>, a function of the two staged tiles and the accumulator, and the predicate \<open>dpas\<close> states what its documentation promises,
  over the reals.
\<close>

section \<open>Tiles\<close>

definition kTM :: nat where "kTM = 8"
definition kTN :: nat where "kTN = 16"
definition kTK :: nat where "kTK = 16"
definition kSG_xmx :: nat where "kSG_xmx = 16"

definition xmx_stage :: "nat \<Rightarrow> nat \<Rightarrow> (nat \<Rightarrow> nat \<Rightarrow> 't option) \<Rightarrow> nat list \<Rightarrow> 't list \<Rightarrow> 't list option" where
  "xmx_stage rows cols fn lanes slm = foldM (\<lambda>lane. foldM (\<lambda>e slm. do {
     v \<leftarrow> fn (e div cols) (e mod cols);
     wr slm e v }) (strided lane kSG_xmx (rows * cols))) lanes slm"

definition xmx_store :: "(nat \<Rightarrow> nat \<Rightarrow> nat \<Rightarrow> 'f \<Rightarrow> 's \<Rightarrow> 's option) \<Rightarrow> 'f list \<Rightarrow> nat list \<Rightarrow> 's \<Rightarrow> 's option" where
  "xmx_store fn Cs lanes s = foldM (\<lambda>lane. foldM (\<lambda>e s. do {
     v \<leftarrow> rd Cs e;
     fn lane (e div kTN) (e mod kTN) v s }) (strided lane kSG_xmx (kTM * kTN))) lanes s"

text \<open>The loop over the inner dimension: the accumulator starts at zero, \<open>fa kt\<close> and \<open>fb kt\<close> supply the elements of the step, the lanes of the two
  staging passes of a step run in the orders \<open>lanes kt 0\<close> and \<open>lanes kt 1\<close>.\<close>

definition xmx_loop :: "('t list \<Rightarrow> 't list \<Rightarrow> 'f list \<Rightarrow> 'f list) \<Rightarrow> (nat \<Rightarrow> nat \<Rightarrow> nat \<Rightarrow> 't option) \<Rightarrow> (nat \<Rightarrow> nat \<Rightarrow> nat \<Rightarrow> 't option) \<Rightarrow> nat \<Rightarrow> (nat \<Rightarrow> nat \<Rightarrow> nat list) \<Rightarrow>
    't list \<times> 't list \<Rightarrow> ('f::zero list \<times> 't list \<times> 't list) option" where
  "xmx_loop mad fa fb ktiles lanes loc = foldM (\<lambda>kt (acc, As, Bs). do {
     As \<leftarrow> xmx_stage kTM kTK (fa kt) (lanes kt 0) As;
     Bs \<leftarrow> xmx_stage kTK kTN (fb kt) (lanes kt 1) Bs;
     Some (mad As Bs acc, As, Bs) }) [0..<ktiles] (replicate (kTM * kTN) 0, loc)"

section \<open>Int4 weights and 16-bit activations\<close>

text \<open>A weight decoded to the activation type.\<close>

definition s4_weight :: "('f::times, 'z) gmath_scheme \<Rightarrow> (16 word \<Rightarrow> 'f) \<Rightarrow> ('f \<Rightarrow> 't) \<Rightarrow> 8 word list \<Rightarrow> nat \<Rightarrow> 16 word list \<Rightarrow> nat \<Rightarrow> nat \<Rightarrow> 't option" where
  "s4_weight M hv st W w0 scales si k = do {
     byte \<leftarrow> rd W (w0 + k div 2);
     let nib = (if odd k then drop_bit 4 byte AND 0xF else byte AND 0xF);
     sc \<leftarrow> map_option hv (rd scales si);
     Some (st (of_num M (s4 (uint nib)) * sc)) }"

definition w4a16_group :: "('f::{times,zero}, 'z) gmath_scheme \<Rightarrow> ('t list \<Rightarrow> 't list \<Rightarrow> 'f list \<Rightarrow> 'f list) \<Rightarrow> (16 word \<Rightarrow> 'f) \<Rightarrow> ('f \<Rightarrow> 't) \<Rightarrow> 't list \<Rightarrow> 8 word list \<Rightarrow> 16 word list \<Rightarrow>
    nat \<Rightarrow> nat \<Rightarrow> nat \<Rightarrow> nat \<Rightarrow> (nat \<Rightarrow> nat \<Rightarrow> nat list) \<Rightarrow> 't list \<times> 't list \<Rightarrow> nat \<Rightarrow> 't list \<Rightarrow> 't list option" where
  "w4a16_group M mad hv st A W scales mm N K grp lanes loc g C = do {
     let m0 = g div cdiv N kTN * kTM;
     let n0 = g mod cdiv N kTN * kTN;
     (acc, _) \<leftarrow> xmx_loop mad
       (\<lambda>kt r c. let gm = m0 + r; gk = kt * kTK + c in if gm < mm \<and> gk < K then rd A (gm * K + gk) else Some (st 0))
       (\<lambda>kt r c. let gk = kt * kTK + r; gn = n0 + c in
         if gk < K \<and> gn < N then s4_weight M hv st W (gn * (K div 2)) scales (gn * (K div grp) + gk div grp) gk else Some (st 0))
       (cdiv K kTK) lanes loc;
     xmx_store (\<lambda>lane r c v C. let gm = m0 + r; gn = n0 + c in if gm < mm \<and> gn < N then wr C (gm * N + gn) (st v) else Some C) acc (lanes (cdiv K kTK) 0) C }"

definition w4a16 :: "('f::{times,zero}, 'z) gmath_scheme \<Rightarrow> ('t list \<Rightarrow> 't list \<Rightarrow> 'f list \<Rightarrow> 'f list) \<Rightarrow> (16 word \<Rightarrow> 'f) \<Rightarrow> ('f \<Rightarrow> 't) \<Rightarrow> 't list \<Rightarrow> 8 word list \<Rightarrow> 16 word list \<Rightarrow>
    nat \<Rightarrow> nat \<Rightarrow> nat \<Rightarrow> nat \<Rightarrow> nat list \<Rightarrow> (nat \<Rightarrow> nat \<Rightarrow> nat \<Rightarrow> nat list) \<Rightarrow> (nat \<Rightarrow> 't list \<times> 't list) \<Rightarrow> 't list \<Rightarrow> 't list option" where
  "w4a16 M mad hv st A W scales mm N K grp sched lanes loc C =
     foldM (\<lambda>g. w4a16_group M mad hv st A W scales mm N K grp (lanes g) (loc g) g) sched C"

text \<open>Activations of 32 bits are out of contract and nothing is launched.\<close>

definition w4a16_gemm_sycl :: "f32 gmath \<Rightarrow> (DType \<Rightarrow> 32 word list \<Rightarrow> 32 word list \<Rightarrow> f32 list \<Rightarrow> f32 list) \<Rightarrow> DType \<Rightarrow> 32 word list \<Rightarrow> 8 word list \<Rightarrow> 16 word list \<Rightarrow>
    nat \<Rightarrow> nat \<Rightarrow> nat \<Rightarrow> nat \<Rightarrow> nat list \<Rightarrow> (nat \<Rightarrow> nat \<Rightarrow> nat \<Rightarrow> nat list) \<Rightarrow> (nat \<Rightarrow> 32 word list \<times> 32 word list) \<Rightarrow> 32 word list \<Rightarrow> 32 word list option" where
  "w4a16_gemm_sycl M mad dt A W scales mm N K grp sched lanes loc C =
     (if dt = DF32 then Some C else w4a16 M (mad dt) f16_bits_to_f32 (elem_st dt) A W scales mm N K grp sched lanes loc C)"

section \<open>Rows grouped by expert\<close>

definition kMaxExperts :: nat where "kMaxExperts = 256"

text \<open>The first tile of every expert, by lane 0, and the walk from a tile to its expert.  The counts are 32-bit integers of the caller; they are
  taken to be non-negative and their sum to fit.\<close>

definition seg_fill :: "nat list \<Rightarrow> nat \<Rightarrow> nat list \<Rightarrow> nat list option" where
  "seg_fill rows E seg = do {
     (seg, tile0) \<leftarrow> foldM (\<lambda>e (seg, tile0). do {
       seg \<leftarrow> wr seg e tile0;
       n \<leftarrow> rd rows e;
       Some (seg, tile0 + cdiv n kTM) }) [0..<E] (seg, 0);
     wr seg E tile0 }"

function find_expert :: "nat list \<Rightarrow> nat \<Rightarrow> nat \<Rightarrow> nat \<Rightarrow> nat option" where
  "find_expert seg E mt e = (if e + 1 < E then do {
       s \<leftarrow> rd seg (e + 1);
       if s \<le> mt then find_expert seg E mt (e + 1) else Some e }
     else Some e)"
  by pat_completeness auto
termination by (relation "measure (\<lambda>(seg, E, mt, e). E - e)") auto

declare find_expert.simps [simp del]

datatype ('t, 'f) grouped_weights = W16 "'t list" | Int4 "8 word list" "16 word list" | Nvfp4 "8 word list" "8 word list" "'f list option"

text \<open>The three formats of the weights, decoded to the activation type; \<open>e2\<close> and \<open>e8\<close> are the codecs of \<open>quant_codecs.hpp\<close>.\<close>

definition grouped_weight :: "('f::times, 'z) gmath_scheme \<Rightarrow> (16 word \<Rightarrow> 'f) \<Rightarrow> (8 word \<Rightarrow> 'f) \<Rightarrow> (8 word \<Rightarrow> 'f) \<Rightarrow> ('f \<Rightarrow> 't) \<Rightarrow> ('t, 'f) grouped_weights \<Rightarrow>
    nat \<Rightarrow> nat \<Rightarrow> nat \<Rightarrow> nat \<Rightarrow> nat \<Rightarrow> nat \<Rightarrow> 't option" where
  "grouped_weight M hv e2 e8 st W N K grp e n k = (case W of
     W16 w \<Rightarrow> rd w (e * (N * K) + n * K + k)
   | Int4 w s \<Rightarrow> s4_weight M hv st w (e * (N * (K div 2)) + n * (K div 2)) s (e * (N * (K div grp)) + n * (K div grp) + k div grp) k
   | Nvfp4 w s _ \<Rightarrow> do {
       byte \<leftarrow> rd w (e * (N * (K div 2)) + n * (K div 2) + k div 2);
       sc \<leftarrow> map_option e8 (rd s (e * (N * (K div 16)) + n * (K div 16) + k div 16));
       Some (st (e2 (if odd k then drop_bit 4 byte else byte AND 0x0f) * sc)) })"

definition grouped_scale :: "('f, 'z) gmath_scheme \<Rightarrow> ('t, 'f) grouped_weights \<Rightarrow> nat \<Rightarrow> 'f option" where
  "grouped_scale M W e = (case W of Nvfp4 _ _ (Some gs) \<Rightarrow> rd gs e | _ \<Rightarrow> Some (of_num M 1))"

definition grouped_group :: "('f::{times,zero}, 'z) gmath_scheme \<Rightarrow> ('t list \<Rightarrow> 't list \<Rightarrow> 'f list \<Rightarrow> 'f list) \<Rightarrow> (16 word \<Rightarrow> 'f) \<Rightarrow> (8 word \<Rightarrow> 'f) \<Rightarrow> (8 word \<Rightarrow> 'f) \<Rightarrow> ('f \<Rightarrow> 't) \<Rightarrow> 't list \<Rightarrow> ('t, 'f) grouped_weights \<Rightarrow>
    nat list \<Rightarrow> nat \<Rightarrow> nat \<Rightarrow> nat \<Rightarrow> nat \<Rightarrow> (nat \<Rightarrow> nat \<Rightarrow> nat list) \<Rightarrow> 't list \<times> 't list \<Rightarrow> nat list \<Rightarrow> nat \<Rightarrow> 't list \<Rightarrow> 't list option" where
  "grouped_group M mad hv e2 e8 st A W rows N K E grp lanes loc seg g C = do {
     seg \<leftarrow> seg_fill rows E seg;
     let mt = g div cdiv N kTN;
     segE \<leftarrow> rd seg E;
     if segE \<le> mt then Some C else do {
       e \<leftarrow> find_expert seg E mt 0;
       row0 \<leftarrow> foldM (\<lambda>ee row0. do { n \<leftarrow> rd rows ee; Some (row0 + n) }) [0..<e] 0;
       sege \<leftarrow> rd seg e;
       let rlocal0 = (mt - sege) * kTM;
       rows_e \<leftarrow> rd rows e;
       let col0 = g mod cdiv N kTN * kTN;
       (acc, _) \<leftarrow> xmx_loop mad
         (\<lambda>kt r c. let rl = rlocal0 + r in if rl < rows_e then rd A ((row0 + rl) * K + kt * kTK + c) else Some (st 0))
         (\<lambda>kt r c. let n = col0 + c in if n \<ge> N then Some (st 0) else grouped_weight M hv e2 e8 st W N K grp e n (kt * kTK + r))
         (K div kTK) lanes loc;
       gscale \<leftarrow> grouped_scale M W e;
       xmx_store (\<lambda>lane r c v C. let rl = rlocal0 + r; n = col0 + c in
         if rl < rows_e \<and> n < N then wr C ((row0 + rl) * N + n) (st (v * gscale)) else Some C) acc (lanes (K div kTK) 0) C } }"

definition grouped_qgemm :: "('f::{times,zero}, 'z) gmath_scheme \<Rightarrow> ('t list \<Rightarrow> 't list \<Rightarrow> 'f list \<Rightarrow> 'f list) \<Rightarrow> (16 word \<Rightarrow> 'f) \<Rightarrow> (8 word \<Rightarrow> 'f) \<Rightarrow> (8 word \<Rightarrow> 'f) \<Rightarrow> ('f \<Rightarrow> 't) \<Rightarrow> 't list \<Rightarrow> ('t, 'f) grouped_weights \<Rightarrow>
    nat list \<Rightarrow> nat \<Rightarrow> nat \<Rightarrow> nat \<Rightarrow> nat \<Rightarrow> nat list \<Rightarrow> (nat \<Rightarrow> nat \<Rightarrow> nat \<Rightarrow> nat list) \<Rightarrow> (nat \<Rightarrow> 't list \<times> 't list) \<Rightarrow> (nat \<Rightarrow> nat list) \<Rightarrow> 't list \<Rightarrow> 't list option" where
  "grouped_qgemm M mad hv e2 e8 st A W rows N K E grp sched lanes loc seg C =
     (if E > kMaxExperts \<or> K mod kTK \<noteq> 0 \<or> (\<exists>w s. W = Int4 w s) \<and> (grp = 0 \<or> K mod grp \<noteq> 0) then Some C
      else foldM (\<lambda>g. grouped_group M mad hv e2 e8 st A W rows N K E grp (lanes g) (loc g) (seg g) g) sched C)"

text \<open>The grid has \<open>cdiv M_total kTM + E\<close> by \<open>cdiv N kTN\<close> groups whatever the counts; activations of 32 bits are not launched.\<close>

definition moe_grouped_qgemm_sycl :: "f32 gmath \<Rightarrow> (DType \<Rightarrow> 32 word list \<Rightarrow> 32 word list \<Rightarrow> f32 list \<Rightarrow> f32 list) \<Rightarrow> DType \<Rightarrow> 32 word list \<Rightarrow> (32 word, f32) grouped_weights \<Rightarrow>
    nat list \<Rightarrow> nat \<Rightarrow> nat \<Rightarrow> nat \<Rightarrow> nat \<Rightarrow> nat list \<Rightarrow> (nat \<Rightarrow> nat \<Rightarrow> nat \<Rightarrow> nat list) \<Rightarrow> (nat \<Rightarrow> 32 word list \<times> 32 word list) \<Rightarrow> (nat \<Rightarrow> nat list) \<Rightarrow> 32 word list \<Rightarrow> 32 word list option" where
  "moe_grouped_qgemm_sycl M mad dt A W rows N K E grp sched lanes loc seg C =
     (if dt = DF32 then Some C
      else grouped_qgemm M (mad dt) f16_bits_to_f32 e2m1 fp8_e4m3 (elem_st dt) A W rows N K E grp sched lanes loc seg C)"

section \<open>Logits of the FP8 indexer\<close>

text \<open>A sub-group owns 16 keys of one query; lane \<open>c\<close> keeps the sum of column \<open>c\<close> over the heads.\<close>

definition mqa_group :: "('f::{times,plus,zero,ord}, 'z) gmath_scheme \<Rightarrow> ('t list \<Rightarrow> 't list \<Rightarrow> 'f list \<Rightarrow> 'f list) \<Rightarrow> (8 word \<Rightarrow> 'f) \<Rightarrow> ('f \<Rightarrow> 't) \<Rightarrow> 'f \<Rightarrow> 8 word list \<Rightarrow> 8 word list \<Rightarrow> 'f list \<Rightarrow> 'f list \<Rightarrow> int list \<Rightarrow> int list \<Rightarrow>
    nat \<Rightarrow> nat \<Rightarrow> nat \<Rightarrow> (nat \<Rightarrow> nat \<Rightarrow> nat \<Rightarrow> nat list) \<Rightarrow> 't list \<times> 't list \<Rightarrow> nat \<Rightarrow> 'f list \<Rightarrow> 'f list option" where
  "mqa_group M mad e8 st ninf qv kv kv_scales weights ks ke H D Skv lanes loc g logits = do {
     let s = g div cdiv Skv kTN;
     let kv0 = g mod cdiv Skv kTN * kTN;
     (colsum, _) \<leftarrow> foldM (\<lambda>ht (colsum, loc). do {
       let h0 = ht * kTM;
       (acc, loc) \<leftarrow> xmx_loop mad
         (\<lambda>kt r c. let hh = h0 + r in if hh < H then map_option (\<lambda>b. st (e8 b)) (rd qv ((s * H + hh) * D + kt * kTK + c)) else Some (st 0))
         (\<lambda>kt r c. let j = kv0 + c in if j < Skv then map_option (\<lambda>b. st (e8 b)) (rd kv (j * D + kt * kTK + r)) else Some (st 0))
         (D div kTK) (lanes ht) loc;
       colsum \<leftarrow> xmx_store (\<lambda>lane r c v colsum. do {
         kscale \<leftarrow> (if kv0 + lane < Skv then rd kv_scales (kv0 + lane) else Some 0);
         let hh = h0 + r;
         if hh < H then do {
           w \<leftarrow> rd weights (s * H + hh);
           old \<leftarrow> rd colsum lane;
           wr colsum lane (old + w * fmax (v * kscale) 0) }
         else Some colsum }) acc (lanes ht (D div kTK) 0) colsum;
       Some (colsum, loc) }) [0..<cdiv H kTM] (replicate kSG_xmx 0, loc);
     foldM (\<lambda>lane logits. if kv0 + lane < Skv then do {
         k0 \<leftarrow> rd ks s;
         k1 \<leftarrow> rd ke s;
         v \<leftarrow> rd colsum lane;
         wr logits (s * Skv + (kv0 + lane)) (if k0 \<le> int (kv0 + lane) \<and> int (kv0 + lane) < k1 then v else ninf) }
       else Some logits) (lanes (cdiv H kTM) 0 0) logits }"

definition mqa_logits :: "('f::{times,plus,zero,ord}, 'z) gmath_scheme \<Rightarrow> ('t list \<Rightarrow> 't list \<Rightarrow> 'f list \<Rightarrow> 'f list) \<Rightarrow> (8 word \<Rightarrow> 'f) \<Rightarrow> ('f \<Rightarrow> 't) \<Rightarrow> 'f \<Rightarrow> 8 word list \<Rightarrow> 8 word list \<Rightarrow> 'f list \<Rightarrow> 'f list \<Rightarrow> int list \<Rightarrow> int list \<Rightarrow>
    nat \<Rightarrow> nat \<Rightarrow> nat \<Rightarrow> nat list \<Rightarrow> (nat \<Rightarrow> nat \<Rightarrow> nat \<Rightarrow> nat \<Rightarrow> nat list) \<Rightarrow> (nat \<Rightarrow> 't list \<times> 't list) \<Rightarrow> 'f list \<Rightarrow> 'f list option" where
  "mqa_logits M mad e8 st ninf qv kv kv_scales weights ks ke H D Skv sched lanes loc logits =
     (if D mod kTK \<noteq> 0 then Some logits
      else foldM (\<lambda>g. mqa_group M mad e8 st ninf qv kv kv_scales weights ks ke H D Skv (lanes g) (loc g) g) sched logits)"

definition mqa_logits_sycl :: "f32 gmath \<Rightarrow> (32 word list \<Rightarrow> 32 word list \<Rightarrow> f32 list \<Rightarrow> f32 list) \<Rightarrow> 8 word list \<Rightarrow> 8 word list \<Rightarrow> f32 list \<Rightarrow> f32 list \<Rightarrow> int list \<Rightarrow> int list \<Rightarrow>
    nat \<Rightarrow> nat \<Rightarrow> nat \<Rightarrow> nat list \<Rightarrow> (nat \<Rightarrow> nat \<Rightarrow> nat \<Rightarrow> nat \<Rightarrow> nat list) \<Rightarrow> (nat \<Rightarrow> 32 word list \<times> 32 word list) \<Rightarrow> f32 list \<Rightarrow> f32 list option" where
  "mqa_logits_sycl M mad = mqa_logits M mad fp8_e4m3 (elem_st DBF16) (F32 0xff800000)"

section \<open>Tiles in exact arithmetic\<close>

text \<open>What the matrix instruction promises: it adds the product of the staged tiles to the accumulator.\<close>

definition dpas :: "('t \<Rightarrow> real) \<Rightarrow> ('t list \<Rightarrow> 't list \<Rightarrow> real list \<Rightarrow> real list) \<Rightarrow> bool" where
  "dpas ld mad \<longleftrightarrow> (\<forall>As Bs acc. length As = kTM * kTK \<longrightarrow> length Bs = kTK * kTN \<longrightarrow> length acc = kTM * kTN \<longrightarrow>
     mad As Bs acc = map (\<lambda>e. acc ! e + (\<Sum>k<kTK. ld (As ! (e div kTN * kTK + k)) * ld (Bs ! (k * kTN + e mod kTN)))) [0..<kTM * kTN])"

lemma tile_sizes: "kTM = 8" "kTN = 16" "kTK = 16" "kSG_xmx = 16"
  by (simp_all add: kTM_def kTN_def kTK_def kSG_xmx_def)

lemma tile_pos [simp]: "0 < kTM" "0 < kTN" "0 < kTK" "0 < kSG_xmx"
  by (simp_all add: tile_sizes)

lemma lane_walk: "foldM (\<lambda>lane. foldM f (strided lane step n)) lanes s = foldM f (concat (map (\<lambda>lane. strided lane step n) lanes)) s"
  by (simp only: foldM_concat foldM_map)

lemma xmx_stage_exact:
  assumes lanes: "schedule kSG_xmx lanes" and len: "length slm = rows * cols"
    and fn: "\<And>r c. r < rows \<Longrightarrow> c < cols \<Longrightarrow> fn r c = Some (v r c)"
  shows "xmx_stage rows cols fn lanes slm = Some (map (\<lambda>e. v (e div cols) (e mod cols)) [0..<rows * cols])"
proof -
  let ?v = "\<lambda>e. v (e div cols) (e mod cols)"
  have "\<exists>slm'. xmx_stage rows cols fn lanes slm = Some slm' \<and> writes (\<Union>e<rows * cols. {e}) ?v slm slm'"
    unfolding xmx_stage_def lane_walk
  proof (rule launch_writes [OF dealt_schedule [OF lanes tile_pos(4)]])
    fix e and m :: "'a list" assume e: "e < rows * cols" and m: "length m = length slm"
    have "0 < cols" using e by (cases cols) auto
    then have "fn (e div cols) (e mod cols) = Some (?v e)" using e by (intro fn) (simp_all add: less_mult_imp_div_less)
    moreover have "wr m e (?v e) = Some (m[e := ?v e])" using e m len by simp
    ultimately show "\<exists>m'. (do { x \<leftarrow> fn (e div cols) (e mod cols); wr m e x }) = Some m' \<and> writes {e} ?v m m'"
      using writes_single [of e m ?v] e m len by simp
  qed
  moreover have "(\<Union>e<rows * cols. {e}) = {..<rows * cols}" by auto
  ultimately show ?thesis using writes_map_upt len by metis
qed

lemma xmx_loop_exact:
  assumes mad: "dpas ld mad" and lanes: "\<And>kt p. schedule kSG_xmx (lanes kt p)" and loc: "length (fst loc) = kTM * kTK" "length (snd loc) = kTK * kTN"
    and fa: "\<And>kt r c. kt < ktiles \<Longrightarrow> r < kTM \<Longrightarrow> c < kTK \<Longrightarrow> fa kt r c = Some (a r (kt * kTK + c))"
    and fb: "\<And>kt r c. kt < ktiles \<Longrightarrow> r < kTK \<Longrightarrow> c < kTN \<Longrightarrow> fb kt r c = Some (b (kt * kTK + r) c)"
  shows "\<exists>loc'. xmx_loop mad fa fb ktiles lanes loc = Some (map (\<lambda>e. \<Sum>k<ktiles * kTK. ld (a (e div kTN) k) * ld (b k (e mod kTN))) [0..<kTM * kTN], loc') \<and>
    length (fst loc') = kTM * kTK \<and> length (snd loc') = kTK * kTN"
proof -
  let ?acc = "\<lambda>T. map (\<lambda>e. \<Sum>k<T * kTK. ld (a (e div kTN) k) * ld (b k (e mod kTN))) [0..<kTM * kTN]"
  let ?P = "\<lambda>T s. fst s = ?acc T \<and> length (fst (snd s)) = kTM * kTK \<and> length (snd (snd s)) = kTK * kTN"
  let ?step = "\<lambda>kt (acc, As, Bs). do {
     As \<leftarrow> xmx_stage kTM kTK (fa kt) (lanes kt 0) As;
     Bs \<leftarrow> xmx_stage kTK kTN (fb kt) (lanes kt 1) Bs;
     Some (mad As Bs acc, As, Bs) }"
  have "\<exists>s. foldM ?step [0..<ktiles] (replicate (kTM * kTN) 0, loc) = Some s \<and> ?P ktiles s"
  proof (rule foldM_upt [where P = ?P])
    show "?P 0 (replicate (kTM * kTN) 0, loc)" using loc by (simp add: map_replicate_const)
    fix kt and s :: "real list \<times> 'a list \<times> 'a list" assume kt: "kt < ktiles" and P: "?P kt s"
    obtain acc As Bs where s: "s = (acc, As, Bs)" by (cases s) auto
    let ?As = "map (\<lambda>e. a (e div kTK) (kt * kTK + e mod kTK)) [0..<kTM * kTK]" and ?Bs = "map (\<lambda>e. b (kt * kTK + e div kTN) (e mod kTN)) [0..<kTK * kTN]"
    have sa: "xmx_stage kTM kTK (fa kt) (lanes kt 0) As = Some ?As"
      by (rule xmx_stage_exact [OF lanes]) (use P s fa kt in simp_all)
    have sb: "xmx_stage kTK kTN (fb kt) (lanes kt 1) Bs = Some ?Bs"
      by (rule xmx_stage_exact [OF lanes]) (use P s fb kt in simp_all)
    have "mad ?As ?Bs acc = ?acc (Suc kt)"
    proof -
      have "mad ?As ?Bs acc = map (\<lambda>e. acc ! e + (\<Sum>k<kTK. ld (?As ! (e div kTN * kTK + k)) * ld (?Bs ! (k * kTN + e mod kTN)))) [0..<kTM * kTN]"
        using mad P s unfolding dpas_def by simp
      also have "\<dots> = ?acc (Suc kt)"
      proof (rule map_cong [OF refl])
        fix e assume "e \<in> set [0..<kTM * kTN]"
        then have e: "e < kTM * kTN" by simp
        then have d: "e div kTN < kTM" "e mod kTN < kTN" by (simp_all add: less_mult_imp_div_less)
        have "ld (?As ! (e div kTN * kTK + k)) * ld (?Bs ! (k * kTN + e mod kTN)) = ld (a (e div kTN) (k + kt * kTK)) * ld (b (k + kt * kTK) (e mod kTN))" if k: "k < kTK" for k
          using div_mult_add_lt [OF d(1) k] div_mult_add_lt [OF k d(2)] k d by (simp add: add.commute)
        then have "(\<Sum>k<kTK. ld (?As ! (e div kTN * kTK + k)) * ld (?Bs ! (k * kTN + e mod kTN))) = (\<Sum>k<kTK. ld (a (e div kTN) (k + kt * kTK)) * ld (b (k + kt * kTK) (e mod kTN)))"
          by (intro sum.cong) simp_all
        also have "\<dots> = (\<Sum>k = kt * kTK..<Suc kt * kTK. ld (a (e div kTN) k) * ld (b k (e mod kTN)))"
          using sum.shift_bounds_nat_ivl [of "\<lambda>k. ld (a (e div kTN) k) * ld (b k (e mod kTN))" 0 "kt * kTK" kTK] by (simp add: lessThan_atLeast0 add.commute)
        finally have "(\<Sum>k<kt * kTK. ld (a (e div kTN) k) * ld (b k (e mod kTN))) + (\<Sum>k<kTK. ld (?As ! (e div kTN * kTK + k)) * ld (?Bs ! (k * kTN + e mod kTN))) = (\<Sum>k<Suc kt * kTK. ld (a (e div kTN) k) * ld (b k (e mod kTN)))"
          unfolding lessThan_atLeast0 by (simp add: sum.atLeastLessThan_concat)
        moreover have "acc ! e = (\<Sum>k<kt * kTK. ld (a (e div kTN) k) * ld (b k (e mod kTN)))" using P s e by simp
        ultimately show "acc ! e + (\<Sum>k<kTK. ld (?As ! (e div kTN * kTK + k)) * ld (?Bs ! (k * kTN + e mod kTN))) = (\<Sum>k<Suc kt * kTK. ld (a (e div kTN) k) * ld (b k (e mod kTN)))"
          by (simp only:)
      qed
      finally show ?thesis .
    qed
    then show "\<exists>s'. ?step kt s = Some s' \<and> ?P (Suc kt) s'" unfolding s prod.case sa sb bind.bind_lunit by simp
  qed simp
  then show ?thesis unfolding xmx_loop_def by fastforce
qed

lemma xmx_store_writes:
  fixes C :: "'t list"
  assumes lanes: "schedule kSG_xmx lanes" and len: "length acc = kTM * kTN"
    and fn: "\<And>lane e m. e < kTM * kTN \<Longrightarrow> length m = length C \<Longrightarrow> \<exists>m'. fn lane (e div kTN) (e mod kTN) (acc ! e) m = Some m' \<and> writes (cells e) v m m'"
  shows "\<exists>C'. xmx_store fn acc lanes C = Some C' \<and> writes (\<Union>e<kTM * kTN. cells e) v C C'"
proof -
  have "xmx_store fn acc lanes C = foldM (\<lambda>lane. foldM (\<lambda>e s. do { v \<leftarrow> rd acc e; fn (e mod kSG_xmx) (e div kTN) (e mod kTN) v s }) (strided lane kSG_xmx (kTM * kTN))) lanes C"
    unfolding xmx_store_def
  proof (rule foldM_cong)
    fix lane and s :: "'t list" assume "lane \<in> set lanes"
    then have "lane < kSG_xmx" using lanes by (auto simp: schedule_def)
    then show "foldM (\<lambda>e s. do { v \<leftarrow> rd acc e; fn lane (e div kTN) (e mod kTN) v s }) (strided lane kSG_xmx (kTM * kTN)) s =
        foldM (\<lambda>e s. do { v \<leftarrow> rd acc e; fn (e mod kSG_xmx) (e div kTN) (e mod kTN) v s }) (strided lane kSG_xmx (kTM * kTN)) s"
      by (intro foldM_cong) (auto simp: set_strided)
  qed simp_all
  moreover have "\<exists>C'. foldM (\<lambda>e s. do { v \<leftarrow> rd acc e; fn (e mod kSG_xmx) (e div kTN) (e mod kTN) v s }) (concat (map (\<lambda>lane. strided lane kSG_xmx (kTM * kTN)) lanes)) C = Some C' \<and>
      writes (\<Union>e<kTM * kTN. cells e) v C C'"
    by (rule launch_writes [OF dealt_schedule [OF lanes tile_pos(4)]]) (use fn len in simp)
  ultimately show ?thesis unfolding lane_walk by simp
qed

text \<open>The part of an output matrix a tile covers: rows \<open>base\<close> to \<open>base + mr\<close>, at most a tile, and one column block.\<close>

definition tile_part :: "nat \<Rightarrow> nat \<Rightarrow> nat \<Rightarrow> nat \<Rightarrow> nat set" where
  "tile_part N base mr nt = {a. 0 < N \<and> base \<le> a div N \<and> a div N < base + min mr kTM \<and> a mod N div kTN = nt}"

lemma xmx_tile_cells:
  "(\<Union>e<kTM * kTN. if e div kTN < mr \<and> nt * kTN + e mod kTN < N then {(base + e div kTN) * N + (nt * kTN + e mod kTN)} else {}) = tile_part N base mr nt"
  (is "(\<Union>e<_. ?cells e) = _")
proof (intro equalityI subsetI)
  fix a assume "a \<in> (\<Union>e<kTM * kTN. ?cells e)"
  then obtain e where e: "e < kTM * kTN" "e div kTN < mr" "nt * kTN + e mod kTN < N" "a = (base + e div kTN) * N + (nt * kTN + e mod kTN)" by (auto split: if_splits)
  have "a div N = base + e div kTN" "a mod N = nt * kTN + e mod kTN" using e(3,4) by simp_all
  moreover have "e div kTN < kTM" using e(1) by (simp add: less_mult_imp_div_less)
  ultimately show "a \<in> tile_part N base mr nt" using e(2,3) by (auto simp: tile_part_def)
next
  fix a assume "a \<in> tile_part N base mr nt"
  then have a: "0 < N" "base \<le> a div N" "a div N < base + min mr kTM" "a mod N div kTN = nt" by (simp_all add: tile_part_def)
  let ?e = "(a div N - base) * kTN + a mod N mod kTN"
  have r: "a div N - base < kTM" "a div N - base < mr" using a(2,3) by auto
  have e: "?e < kTM * kTN" "?e div kTN = a div N - base" "?e mod kTN = a mod N mod kTN" using div_mult_add_lt [OF r(1), of "a mod N mod kTN" kTN] by simp_all
  have col: "nt * kTN + ?e mod kTN = a mod N" unfolding e(3) a(4) [symmetric] by simp
  have row: "base + ?e div kTN = a div N" using e(2) a(2) by simp
  have "a \<in> ?cells ?e" unfolding col row using e(2) r(2) a(1) by simp
  then show "a \<in> (\<Union>e<kTM * kTN. ?cells e)" using e(1) by blast
qed

lemma xmx_store_tile:
  fixes C :: "'t list"
  assumes lanes: "schedule kSG_xmx lanes" and acc: "length acc = kTM * kTN" and len: "\<And>r. r < mr \<Longrightarrow> r < kTM \<Longrightarrow> (base + r) * N + N \<le> length C"
    and fn: "\<And>lane r c v m. fn lane r c v m = (if r < mr \<and> nt * kTN + c < N then wr m ((base + r) * N + (nt * kTN + c)) (h v) else Some m)"
    and val: "\<And>r c. r < mr \<Longrightarrow> r < kTM \<Longrightarrow> c < kTN \<Longrightarrow> nt * kTN + c < N \<Longrightarrow> h (acc ! (r * kTN + c)) = val (base + r) (nt * kTN + c)"
  shows "\<exists>C'. xmx_store fn acc lanes C = Some C' \<and> writes (tile_part N base mr nt) (\<lambda>a. val (a div N) (a mod N)) C C'"
  unfolding xmx_tile_cells [symmetric]
proof (rule xmx_store_writes [OF lanes acc])
  fix lane e and m :: "'t list" assume e: "e < kTM * kTN" and m: "length m = length C"
  let ?r = "e div kTN" and ?c = "e mod kTN"
  let ?cells = "if ?r < mr \<and> nt * kTN + ?c < N then {(base + ?r) * N + (nt * kTN + ?c)} else {}"
  have d: "?r < kTM" "?c < kTN" using e by (simp_all add: less_mult_imp_div_less)
  show "\<exists>m'. fn lane ?r ?c (acc ! e) m = Some m' \<and> writes ?cells (\<lambda>a. val (a div N) (a mod N)) m m'"
  proof (cases "?r < mr \<and> nt * kTN + ?c < N")
    case True
    let ?a = "(base + ?r) * N + (nt * kTN + ?c)"
    have lt: "?a < length m" using len [of ?r] True d m by simp
    have "acc ! e = acc ! (?r * kTN + ?c)" by simp
    then have hv: "h (acc ! e) = val (?a div N) (?a mod N)" using val [of ?r ?c] True d by simp
    have "wr m ?a (h (acc ! e)) = Some (m[?a := val (?a div N) (?a mod N)])" using lt unfolding hv by simp
    then show ?thesis using True writes_single [OF lt, of "\<lambda>a. val (a div N) (a mod N)"] unfolding fn by (simp only: simp_thms if_True) blast
  next
    case False
    show ?thesis by (simp only: fn False if_False writes_empty) simp
  qed
qed

lemma map_upt_nth: "e < n \<Longrightarrow> map f [0..<n] ! e = f e"
  by simp

section \<open>Int4 weights and 16-bit activations, exact\<close>

definition s4_el :: "(real \<Rightarrow> 't) \<Rightarrow> 8 word list \<Rightarrow> nat \<Rightarrow> 16 word list \<Rightarrow> nat \<Rightarrow> nat \<Rightarrow> 't" where
  "s4_el st W w0 scales si k = st (real_of_int (w4_val W (2 * w0 + k)) * half_val (scales ! si))"

lemma high_nibble: "drop_bit 4 v AND 0xF = drop_bit 4 v" for v :: "8 word"
proof (rule bit_word_eqI)
  fix m show "bit (drop_bit 4 v AND 0xF) m = bit (drop_bit 4 v) m" using bit_imp_le_length [of v "4 + m"] by (auto simp: bit_simps bit_15)
qed

lemma s4_weight_exact: "w0 + k div 2 < length W \<Longrightarrow> si < length scales \<Longrightarrow> s4_weight exact_math half_val st W w0 scales si k = Some (s4_el st W w0 scales si k)"
  by (simp add: s4_weight_def s4_el_def w4_val_def nib_def high_nibble Let_def)

text \<open>Elements beyond the inner size are zero and add nothing.\<close>

lemma padded_sum:
  fixes f :: "nat \<Rightarrow> real"
  assumes "K \<le> T" "\<And>k. \<not> k < K \<Longrightarrow> f k = 0"
  shows "(\<Sum>k<T. f k) = (\<Sum>k<K. f k)"
  using assms(1) by (intro sum.mono_neutral_right) (auto simp: assms(2))

theorem w4a16_exact:
  fixes A C :: "'t list"
  assumes mad: "dpas ld mad" and ld0: "ld (st 0) = 0" and K: "even K" "grp dvd K"
    and len: "length A = mm * K" "length W = N * (K div 2)" "length scales = N * (K div grp)" "length C = mm * N"
    and sched: "schedule (cdiv mm kTM * cdiv N kTN) sched" and lanes: "\<And>g kt p. schedule kSG_xmx (lanes g kt p)"
    and loc: "\<And>g. length (fst (loc g)) = kTM * kTK" "\<And>g. length (snd (loc g)) = kTK * kTN"
  shows "w4a16 exact_math mad half_val st A W scales mm N K grp sched lanes loc C =
    Some (map (\<lambda>a. st (\<Sum>k<K. ld (A ! (a div N * K + k)) * ld (s4_el st W (a mod N * (K div 2)) scales (a mod N * (K div grp) + k div grp) k))) [0..<mm * N])"
proof -
  let ?val = "\<lambda>m n. st (\<Sum>k<K. ld (A ! (m * K + k)) * ld (s4_el st W (n * (K div 2)) scales (n * (K div grp) + k div grp) k))"
  let ?part = "\<lambda>g. tile_part N (g div cdiv N kTN * kTM) (mm - g div cdiv N kTN * kTM) (g mod cdiv N kTN)"
  have group: "\<exists>C'. w4a16_group exact_math mad half_val st A W scales mm N K grp (lanes g) (loc g) g m = Some C' \<and> writes (?part g) (\<lambda>a. ?val (a div N) (a mod N)) m C'"
    if m: "length m = length C" for g and m :: "'t list"
  proof -
    let ?m0 = "g div cdiv N kTN * kTM" and ?n0 = "g mod cdiv N kTN * kTN"
    let ?a = "\<lambda>r k. if ?m0 + r < mm \<and> k < K then A ! ((?m0 + r) * K + k) else st 0"
    let ?b = "\<lambda>k c. if k < K \<and> ?n0 + c < N then s4_el st W ((?n0 + c) * (K div 2)) scales ((?n0 + c) * (K div grp) + k div grp) k else st 0"
    let ?acc = "map (\<lambda>e. \<Sum>k<cdiv K kTK * kTK. ld (?a (e div kTN) k) * ld (?b k (e mod kTN))) [0..<kTM * kTN]"
    have "\<exists>loc'. xmx_loop mad
       (\<lambda>kt r c. let gm = ?m0 + r; gk = kt * kTK + c in if gm < mm \<and> gk < K then rd A (gm * K + gk) else Some (st 0))
       (\<lambda>kt r c. let gk = kt * kTK + r; gn = ?n0 + c in
         if gk < K \<and> gn < N then s4_weight exact_math half_val st W (gn * (K div 2)) scales (gn * (K div grp) + gk div grp) gk else Some (st 0))
       (cdiv K kTK) (lanes g) (loc g) = Some (?acc, loc') \<and> length (fst loc') = kTM * kTK \<and> length (snd loc') = kTK * kTN"
    proof (rule xmx_loop_exact [where a = ?a and b = ?b, OF mad lanes loc])
      fix kt r c
      show "(let gm = ?m0 + r; gk = kt * kTK + c in if gm < mm \<and> gk < K then rd A (gm * K + gk) else Some (st 0)) = Some (?a r (kt * kTK + c))"
        using div_mult_add_lt [of "?m0 + r" mm "kt * kTK + c" K] len(1) by (simp add: Let_def)
    next
      fix kt r c
      show "(let gk = kt * kTK + r; gn = ?n0 + c in
         if gk < K \<and> gn < N then s4_weight exact_math half_val st W (gn * (K div 2)) scales (gn * (K div grp) + gk div grp) gk else Some (st 0)) = Some (?b (kt * kTK + r) c)"
      proof (cases "kt * kTK + r < K \<and> ?n0 + c < N")
        case True
        then have k: "kt * kTK + r < K" "?n0 + c < N" by simp_all
        have "(kt * kTK + r) div 2 < K div 2" using k(1) K(1) by (auto elim!: evenE)
        then have "(?n0 + c) * (K div 2) + (kt * kTK + r) div 2 < length W" using div_mult_add_lt [OF k(2)] len(2) by simp
        moreover have "(kt * kTK + r) div grp < K div grp" using k(1) K(2) by (auto elim!: dvdE simp: less_mult_imp_div_less mult.commute)
        then have "(?n0 + c) * (K div grp) + (kt * kTK + r) div grp < length scales" using div_mult_add_lt [OF k(2)] len(3) by simp
        ultimately show ?thesis using k by (simp only: Let_def s4_weight_exact simp_thms if_True)
      qed (simp only: Let_def if_False)
    qed
    then obtain loc' where loop: "xmx_loop mad
       (\<lambda>kt r c. let gm = ?m0 + r; gk = kt * kTK + c in if gm < mm \<and> gk < K then rd A (gm * K + gk) else Some (st 0))
       (\<lambda>kt r c. let gk = kt * kTK + r; gn = ?n0 + c in
         if gk < K \<and> gn < N then s4_weight exact_math half_val st W (gn * (K div 2)) scales (gn * (K div grp) + gk div grp) gk else Some (st 0))
       (cdiv K kTK) (lanes g) (loc g) = Some (?acc, loc')" by blast
    have store: "\<exists>C'. xmx_store (\<lambda>lane r c v C. let gm = ?m0 + r; gn = ?n0 + c in if gm < mm \<and> gn < N then wr C (gm * N + gn) (st v) else Some C) ?acc (lanes g (cdiv K kTK) 0) m = Some C' \<and>
        writes (?part g) (\<lambda>a. ?val (a div N) (a mod N)) m C'"
    proof (rule xmx_store_tile [where h = st])
      fix r assume "r < mm - ?m0"
      then have "?m0 + r < mm" by simp
      from src_row [OF this, of N] show "(?m0 + r) * N + N \<le> length m" using m len(4) by simp
    next
      fix r c assume r: "r < mm - ?m0" "r < kTM" "c < kTN" "?n0 + c < N"
      have i: "r * kTN + c < kTM * kTN" "(r * kTN + c) div kTN = r" "(r * kTN + c) mod kTN = c" using div_mult_add_lt [OF r(2,3)] r(3) by simp_all
      have "?m0 + r < mm" using r(1) by simp
      then have "?acc ! (r * kTN + c) = (\<Sum>k<cdiv K kTK * kTK. ld (if k < K then A ! ((?m0 + r) * K + k) else st 0) *
          ld (if k < K then s4_el st W ((?n0 + c) * (K div 2)) scales ((?n0 + c) * (K div grp) + k div grp) k else st 0))" using r(4) by (simp only: map_upt_nth [OF i(1)] i(2,3) simp_thms)
      also have "\<dots> = (\<Sum>k<K. ld (if k < K then A ! ((?m0 + r) * K + k) else st 0) *
          ld (if k < K then s4_el st W ((?n0 + c) * (K div 2)) scales ((?n0 + c) * (K div grp) + k div grp) k else st 0))"
        by (rule padded_sum) (simp_all add: ld0 cdiv_upper)
      finally show "st (?acc ! (r * kTN + c)) = ?val (?m0 + r) (?n0 + c)" by simp
    qed (auto simp: lanes Let_def less_diff_conv2 less_diff_conv add.commute)
    then show ?thesis unfolding w4a16_group_def Let_def [of "_ * kTM"] Let_def [of "_ * kTN"] using loop by simp
  qed
  have "\<exists>C'. w4a16 exact_math mad half_val st A W scales mm N K grp sched lanes loc C = Some C' \<and> writes (\<Union>g<cdiv mm kTM * cdiv N kTN. ?part g) (\<lambda>a. ?val (a div N) (a mod N)) C C'"
    unfolding w4a16_def by (rule launch_writes [OF sched group])
  moreover have "(\<Union>g<cdiv mm kTM * cdiv N kTN. ?part g) = {..<mm * N}"
  proof (intro equalityI subsetI)
    fix a assume "a \<in> (\<Union>g<cdiv mm kTM * cdiv N kTN. ?part g)"
    then have "a div N < mm" "0 < N" by (auto simp: tile_part_def)
    then show "a \<in> {..<mm * N}" by (simp add: div_less_iff_less_mult)
  next
    fix a assume "a \<in> {..<mm * N}"
    then have a: "a < mm * N" by simp
    then have N: "0 < N" by (cases N) auto
    have d: "a div N < mm" "a mod N < N" using less_mult_imp_div_less [OF a] N by simp_all
    have q: "a div N div kTM * kTM \<le> a div N" "a mod N div kTN * kTN \<le> a mod N" "a div N < a div N div kTM * kTM + kTM"
      using dividend_less_div_times [of kTM "a div N"] by (simp_all add: add.commute)
    then have "a div N div kTM * kTM < mm" "a mod N div kTN * kTN < N" using d by linarith+
    then have t: "a div N div kTM < cdiv mm kTM" "a mod N div kTN < cdiv N kTN" by (simp_all add: cdiv_less_iff)
    let ?g = "a div N div kTM * cdiv N kTN + a mod N div kTN"
    have g: "?g < cdiv mm kTM * cdiv N kTN" "?g div cdiv N kTN = a div N div kTM" "?g mod cdiv N kTN = a mod N div kTN" using div_mult_add_lt [OF t] t(2) by simp_all
    have "a \<in> ?part ?g" unfolding g(2,3) tile_part_def using N q d(1) by simp
    then show "a \<in> (\<Union>g<cdiv mm kTM * cdiv N kTN. ?part g)" using g(1) by blast
  qed
  ultimately show ?thesis using writes_map_upt [of "mm * N" "\<lambda>a. ?val (a div N) (a mod N)" C] len(4) by auto
qed

section \<open>Rows grouped by expert, exact\<close>

text \<open>The rows and the tiles before an expert.\<close>

abbreviation rows_before :: "nat list \<Rightarrow> nat \<Rightarrow> nat" where
  "rows_before rows e \<equiv> \<Sum>i<e. rows ! i"

abbreviation tiles_before :: "nat list \<Rightarrow> nat \<Rightarrow> nat" where
  "tiles_before rows e \<equiv> \<Sum>i<e. cdiv (rows ! i) kTM"

text \<open>The expert of a row, and the tile that computes it.\<close>

definition row_experts :: "nat list \<Rightarrow> nat list" where
  "row_experts rows = concat (map (\<lambda>e. replicate (rows ! e) e) [0..<length rows])"

lemma row_experts_prefix: "length (concat (map (\<lambda>e. replicate (rows ! e) e) [0..<E])) = rows_before rows E"
  by (induction E) simp_all

lemma row_experts_nth:
  assumes "e < length rows" "rows_before rows e \<le> r" "r < rows_before rows e + rows ! e"
  shows "row_experts rows ! r = e"
proof -
  have "[0..<length rows] = [0..<e] @ e # [Suc e..<length rows]" using assms(1) by (metis append_Cons append_Nil le_add1 le_add_same_cancel1 less_imp_le_nat upt_add_eq_append upt_conv_Cons le_Suc_ex)
  then have "row_experts rows = concat (map (\<lambda>e. replicate (rows ! e) e) [0..<e]) @ replicate (rows ! e) e @ concat (map (\<lambda>e. replicate (rows ! e) e) [Suc e..<length rows])"
    by (simp add: row_experts_def)
  moreover have "r - rows_before rows e < rows ! e" using assms(2,3) by linarith
  ultimately show ?thesis using assms(2) by (simp add: nth_append row_experts_prefix)
qed

lemma rows_before_sum: "rows_before rows (length rows) = sum_list rows"
  by (simp add: sum_list_sum_nth atLeast0LessThan)

lemma before_mono: "e \<le> e' \<Longrightarrow> (\<Sum>i<e. f i) \<le> (\<Sum>i<e'. (f i :: nat))" for e e' :: nat
  by (rule sum_mono2) auto

lemma row_has_expert:
  assumes "r < sum_list rows"
  shows "\<exists>e<length rows. rows_before rows e \<le> r \<and> r < rows_before rows e + rows ! e"
proof -
  have "\<exists>e<E. rows_before rows e \<le> r \<and> r < rows_before rows e + rows ! e" if "r < rows_before rows E" for E
    using that
  proof (induction E)
    case (Suc E)
    then show ?case by (cases "r < rows_before rows E") (auto simp: less_Suc_eq)
  qed simp
  then show ?thesis using assms by (simp add: rows_before_sum)
qed

lemma seg_fill_exact:
  assumes "length rows = E" "E < length seg"
  shows "\<exists>seg'. seg_fill rows E seg = Some seg' \<and> length seg' = length seg \<and> (\<forall>e\<le>E. seg' ! e = tiles_before rows e)"
proof -
  let ?step = "\<lambda>e (seg, tile0). do { seg \<leftarrow> wr seg e tile0; n \<leftarrow> rd rows e; Some (seg, tile0 + cdiv n kTM) }"
  let ?P = "\<lambda>E' s. length (fst s) = length seg \<and> snd s = tiles_before rows E' \<and> (\<forall>e<E'. fst s ! e = tiles_before rows e)"
  have "\<exists>s. foldM ?step [0..<E] (seg, 0) = Some s \<and> ?P E s"
  proof (rule foldM_upt [where P = ?P])
    fix e and s :: "nat list \<times> nat" assume e: "e < E" and P: "?P e s"
    then show "\<exists>s'. ?step e s = Some s' \<and> ?P (Suc e) s'"
      using assms by (cases s) (auto simp: nth_list_update less_Suc_eq)
  qed simp_all
  then obtain s1 t1 where "foldM ?step [0..<E] (seg, 0) = Some (s1, t1)" "?P E (s1, t1)" by fastforce
  then show ?thesis using assms(2) by (auto simp: seg_fill_def nth_list_update le_less)
qed

text \<open>The walk ends at the expert that owns the tile.\<close>

lemma find_expert_finds:
  assumes "E \<le> length seg" "e < E" "seg ! e \<le> mt"
  shows "\<exists>e'. find_expert seg E mt e = Some e' \<and> e \<le> e' \<and> e' < E \<and> seg ! e' \<le> mt \<and> (e' + 1 < E \<longrightarrow> mt < seg ! (e' + 1))"
  using assms
proof (induction seg E mt e rule: find_expert.induct)
  case (1 seg E mt e)
  show ?case
  proof (cases "e + 1 < E \<and> seg ! (e + 1) \<le> mt")
    case True
    then have r: "rd seg (e + 1) = Some (seg ! (e + 1))" using 1(2) by simp
    from 1(1) [OF conjunct1 [OF True] r conjunct2 [OF True] 1(2)] True
    obtain e' where "find_expert seg E mt (e + 1) = Some e'" "e + 1 \<le> e'" "e' < E" "seg ! e' \<le> mt" "e' + 1 < E \<longrightarrow> mt < seg ! (e' + 1)" by blast
    then show ?thesis using True r by (subst find_expert.simps) auto
  next
    case False
    then show ?thesis using 1(2-4) by (subst find_expert.simps) auto
  qed
qed

lemma tile_owner:
  assumes seg: "\<forall>e\<le>E. seg ! e = tiles_before rows e" "E < length seg" and mt: "mt < tiles_before rows E"
  shows "\<exists>e. find_expert seg E mt 0 = Some e \<and> e < E \<and> tiles_before rows e \<le> mt \<and> mt < tiles_before rows (Suc e)"
proof -
  have E: "0 < E" using mt by (cases E) simp_all
  have "seg ! 0 \<le> mt" using seg(1) by simp
  from find_expert_finds [OF _ E this] seg(2) obtain e where e: "find_expert seg E mt 0 = Some e" "e < E" "seg ! e \<le> mt" "e + 1 < E \<longrightarrow> mt < seg ! (e + 1)" by auto
  have "mt < tiles_before rows (Suc e)"
  proof (cases "e + 1 < E")
    case True
    then show ?thesis using e(4) seg(1) by (simp del: sum.lessThan_Suc)
  next
    case False
    then have "Suc e = E" using e(2) by simp
    then show ?thesis using mt by (simp only:)
  qed
  then show ?thesis using e seg(1) by auto
qed

lemma tile_owner_unique: "tiles_before rows e \<le> mt \<Longrightarrow> mt < tiles_before rows (Suc e) \<Longrightarrow> tiles_before rows e' \<le> mt \<Longrightarrow> mt < tiles_before rows (Suc e') \<Longrightarrow> e = e'"
proof (rule ccontr)
  assume b: "tiles_before rows e \<le> mt" "mt < tiles_before rows (Suc e)" "tiles_before rows e' \<le> mt" "mt < tiles_before rows (Suc e')" and "e \<noteq> e'"
  then have "Suc e \<le> e' \<or> Suc e' \<le> e" by linarith
  then have "tiles_before rows (Suc e) \<le> tiles_before rows e' \<or> tiles_before rows (Suc e') \<le> tiles_before rows e" using before_mono by blast
  then show False using b by linarith
qed

lemma tiles_fit: "tiles_before rows E \<le> cdiv (rows_before rows E) kTM + E"
proof (induction E)
  case (Suc E)
  have "cdiv (rows_before rows E) kTM + cdiv (rows ! E) kTM \<le> cdiv (rows_before rows E + rows ! E) kTM + 1"
    by (simp add: cdiv_def tile_sizes)
  then show ?case using Suc by simp
qed simp

definition grouped_ok :: "('t, 'f) grouped_weights \<Rightarrow> nat \<Rightarrow> nat \<Rightarrow> nat \<Rightarrow> nat \<Rightarrow> bool" where
  "grouped_ok W E N K grp = (case W of W16 w \<Rightarrow> length w = E * (N * K)
     | Int4 w s \<Rightarrow> length w = E * (N * (K div 2)) \<and> length s = E * (N * (K div grp)) \<and> 0 < grp \<and> grp dvd K
     | Nvfp4 w s gs \<Rightarrow> length w = E * (N * (K div 2)) \<and> length s = E * (N * (K div 16)) \<and> (\<forall>g. gs = Some g \<longrightarrow> length g = E))"

definition grouped_el :: "(real \<Rightarrow> 't) \<Rightarrow> ('t, real) grouped_weights \<Rightarrow> nat \<Rightarrow> nat \<Rightarrow> nat \<Rightarrow> nat \<Rightarrow> nat \<Rightarrow> nat \<Rightarrow> 't" where
  "grouped_el st W N K grp e n k = (case W of W16 w \<Rightarrow> w ! ((e * N + n) * K + k)
     | Int4 w s \<Rightarrow> s4_el st w ((e * N + n) * (K div 2)) s ((e * N + n) * (K div grp) + k div grp) k
     | Nvfp4 w s _ \<Rightarrow> st (e2m1_val (nib w ((e * N + n) * (K div 2) * 2 + k)) * e4m3_val (s ! ((e * N + n) * (K div 16) + k div 16))))"

definition grouped_factor :: "('t, real) grouped_weights \<Rightarrow> nat \<Rightarrow> real" where
  "grouped_factor W e = (case W of Nvfp4 _ _ (Some gs) \<Rightarrow> gs ! e | _ \<Rightarrow> 1)"

lemma expert_offset: "e * (N * d) + n * d = (e * N + n) * d" for e :: nat
  by (simp add: algebra_simps)

lemma expert_index:
  fixes e E n N j d :: nat
  assumes "e < E" "n < N" "j < d"
  shows "(e * N + n) * d + j < E * (N * d)"
  using div_mult_add_lt [OF div_mult_add_lt [OF assms(1,2)] assms(3)] by (simp add: mult.assoc)

lemma div_lt_div: "k < K \<Longrightarrow> d dvd K \<Longrightarrow> k div d < K div d" for k :: nat
  by (auto elim!: dvdE simp: less_mult_imp_div_less mult.commute)

lemma grouped_weight_exact:
  assumes ok: "grouped_ok W E N K grp" and i: "e < E" "n < N" "k < K" and K: "16 dvd K"
  shows "grouped_weight exact_math half_val e2m1_val e4m3_val st W N K grp e n k = Some (grouped_el st W N K grp e n k)"
proof -
  have "2 dvd K" by (rule dvd_trans [OF _ K]) simp
  then have k2: "k div 2 < K div 2" using div_lt_div i(3) by blast
  note b = expert_index [OF i(1,2) k2] expert_index [OF i(1,2) i(3)]
  show ?thesis
  proof (cases W)
    case (W16 w)
    then show ?thesis using ok b by (simp add: grouped_weight_def grouped_el_def grouped_ok_def expert_offset)
  next
    case (Int4 w s)
    then have "grp dvd K" using ok by (simp add: grouped_ok_def)
    then show ?thesis using Int4 ok b expert_index [OF i(1,2) div_lt_div [OF i(3), of grp]]
      by (simp add: grouped_weight_def grouped_el_def grouped_ok_def expert_offset s4_weight_exact)
  next
    case (Nvfp4 w s gs)
    have "(if odd k then drop_bit 4 (w ! ((e * N + n) * (K div 2) + k div 2)) else w ! ((e * N + n) * (K div 2) + k div 2) AND 0x0f) = nib w ((e * N + n) * (K div 2) * 2 + k)"
      by (simp add: nib_def)
    then show ?thesis using Nvfp4 ok b expert_index [OF i(1,2) div_lt_div [OF i(3) K]]
      by (simp add: grouped_weight_def grouped_el_def grouped_ok_def expert_offset)
  qed
qed

lemma grouped_scale_exact: "grouped_ok W E N K grp \<Longrightarrow> e < E \<Longrightarrow> grouped_scale exact_math W e = Some (grouped_factor W e)"
  by (auto simp: grouped_scale_def grouped_factor_def grouped_ok_def split: grouped_weights.splits option.splits)

definition grouped_out :: "('t \<Rightarrow> real) \<Rightarrow> (real \<Rightarrow> 't) \<Rightarrow> 't list \<Rightarrow> ('t, real) grouped_weights \<Rightarrow> nat list \<Rightarrow> nat \<Rightarrow> nat \<Rightarrow> nat \<Rightarrow> nat \<Rightarrow> nat \<Rightarrow> 't" where
  "grouped_out ld st A W rows N K grp r n = (let e = row_experts rows ! r in
     st ((\<Sum>k<K. ld (A ! (r * K + k)) * ld (grouped_el st W N K grp e n k)) * grouped_factor W e))"

text \<open>The part of the output a group computes.\<close>

definition grouped_part :: "nat list \<Rightarrow> nat \<Rightarrow> nat \<Rightarrow> nat \<Rightarrow> nat set" where
  "grouped_part rows N mt nt = {a. \<exists>e<length rows. tiles_before rows e \<le> mt \<and> mt < tiles_before rows (Suc e) \<and>
     a \<in> tile_part N (rows_before rows e + (mt - tiles_before rows e) * kTM) (rows ! e - (mt - tiles_before rows e) * kTM) nt}"

lemma grouped_group_writes:
  fixes A m :: "'t list"
  assumes mad: "dpas ld mad" and ld0: "ld (st 0) = 0" and K: "16 dvd K" and rows: "length rows = E" "sum_list rows \<le> M" and E: "E < length seg"
    and ok: "grouped_ok W E N K grp" and len: "length A = M * K" "length m = M * N"
    and lanes: "\<And>kt p. schedule kSG_xmx (lanes kt p)" and loc: "length (fst loc) = kTM * kTK" "length (snd loc) = kTK * kTN"
  shows "\<exists>m'. grouped_group exact_math mad half_val e2m1_val e4m3_val st A W rows N K E grp lanes loc seg g m = Some m' \<and>
    writes (grouped_part rows N (g div cdiv N kTN) (g mod cdiv N kTN)) (\<lambda>a. grouped_out ld st A W rows N K grp (a div N) (a mod N)) m m'"
proof -
  let ?mt = "g div cdiv N kTN" and ?nt = "g mod cdiv N kTN"
  obtain seg' where seg: "seg_fill rows E seg = Some seg'" "length seg' = length seg" "\<forall>e\<le>E. seg' ! e = tiles_before rows e"
    using seg_fill_exact [OF rows(1) E] by blast
  have segE: "rd seg' E = Some (tiles_before rows E)" using seg E by simp
  show ?thesis
  proof (cases "tiles_before rows E \<le> ?mt")
    case True
    have "grouped_part rows N ?mt ?nt = {}"
    proof -
      have "\<not> ?mt < tiles_before rows (Suc e)" if "e < E" for e
        using before_mono [of "Suc e" E "\<lambda>i. cdiv (rows ! i) kTM"] that True by linarith
      then show ?thesis unfolding grouped_part_def rows(1) by blast
    qed
    then show ?thesis using True segE unfolding grouped_group_def seg(1) bind.bind_lunit Let_def by simp
  next
    case False
    then have mt: "?mt < tiles_before rows E" by simp
    from tile_owner [OF seg(3) _ mt] seg(2) E obtain e where e: "find_expert seg' E ?mt 0 = Some e" "e < E" "tiles_before rows e \<le> ?mt" "?mt < tiles_before rows (Suc e)" by auto
    let ?rl = "(?mt - tiles_before rows e) * kTM"
    let ?base = "rows_before rows e + ?rl"
    have part: "grouped_part rows N ?mt ?nt = tile_part N ?base (rows ! e - ?rl) ?nt"
      using e tile_owner_unique [OF _ _ e(3,4)] unfolding grouped_part_def rows(1) by blast
    have row0: "foldM (\<lambda>ee row0. do { n \<leftarrow> rd rows ee; Some (row0 + n) }) [0..<e] 0 = Some (rows_before rows e)"
    proof -
      have "\<exists>s. foldM (\<lambda>ee row0. do { n \<leftarrow> rd rows ee; Some (row0 + n) }) [0..<e] 0 = Some s \<and> s = rows_before rows e"
        by (rule foldM_upt [where P = "\<lambda>e s. s = rows_before rows e"]) (use e(2) rows(1) in auto)
      then show ?thesis by blast
    qed
    have below: "?base + r < M" if "?rl + r < rows ! e" for r
    proof -
      have "rows_before rows (Suc e) \<le> rows_before rows E" using e(2) by (intro before_mono) simp
      then have "rows_before rows e + rows ! e \<le> sum_list rows" using rows_before_sum [of rows] rows(1) by simp
      then show ?thesis using that rows(2) by linarith
    qed
    let ?a = "\<lambda>r k. if ?rl + r < rows ! e then A ! ((?base + r) * K + k) else st 0"
    let ?b = "\<lambda>k c. if N \<le> ?nt * kTN + c then st 0 else grouped_el st W N K grp e (?nt * kTN + c) k"
    let ?fa = "\<lambda>kt r c. let rl = ?rl + r in if rl < rows ! e then rd A ((rows_before rows e + rl) * K + kt * kTK + c) else Some (st 0)"
    let ?fb = "\<lambda>kt r c. let n = ?nt * kTN + c in if n \<ge> N then Some (st 0) else grouped_weight exact_math half_val e2m1_val e4m3_val st W N K grp e n (kt * kTK + r)"
    let ?acc = "map (\<lambda>e. \<Sum>k<K div kTK * kTK. ld (?a (e div kTN) k) * ld (?b k (e mod kTN))) [0..<kTM * kTN]"
    have KK: "K div kTK * kTK = K" using K by (simp add: tile_sizes)
    have kin: "kt * kTK + r < K" if "kt < K div kTK" "r < kTK" for kt r
      using div_mult_add_lt [OF that] KK by simp
    have "\<exists>loc'. xmx_loop mad ?fa ?fb (K div kTK) lanes loc = Some (?acc, loc') \<and> length (fst loc') = kTM * kTK \<and> length (snd loc') = kTK * kTN"
    proof (rule xmx_loop_exact [where a = ?a and b = ?b, OF mad lanes loc])
      fix kt r c assume i: "kt < K div kTK" "c < kTK"
      show "?fa kt r c = Some (?a r (kt * kTK + c))"
      proof (cases "?rl + r < rows ! e")
        case True
        have "(?base + r) * K + (kt * kTK + c) < length A" using div_mult_add_lt [OF below [OF True] kin [OF i]] len(1) by simp
        then show ?thesis using True by (simp add: Let_def add.assoc)
      qed (simp add: Let_def)
    next
      fix kt r c assume i: "kt < K div kTK" "r < kTK"
      show "?fb kt r c = Some (?b (kt * kTK + r) c)"
        using grouped_weight_exact [OF ok e(2) _ kin [OF i] K, of "?nt * kTN + c" st] by (simp add: Let_def)
    qed
    then obtain loc' where loop: "xmx_loop mad ?fa ?fb (K div kTK) lanes loc = Some (?acc, loc')" by blast
    let ?store = "\<lambda>lane r c v C. let rl = ?rl + r; n = ?nt * kTN + c in if rl < rows ! e \<and> n < N then wr C ((rows_before rows e + rl) * N + n) (st (v * grouped_factor W e)) else Some C"
    have "\<exists>m'. xmx_store ?store ?acc (lanes (K div kTK) 0) m = Some m' \<and> writes (tile_part N ?base (rows ! e - ?rl) ?nt) (\<lambda>a. grouped_out ld st A W rows N K grp (a div N) (a mod N)) m m'"
    proof (rule xmx_store_tile [where h = "\<lambda>v. st (v * grouped_factor W e)"])
      fix r assume "r < rows ! e - ?rl"
      then have "?base + r < M" by (intro below) linarith
      from src_row [OF this, of N] show "(?base + r) * N + N \<le> length m" using len(2) by simp
    next
      fix r c assume r: "r < rows ! e - ?rl" "r < kTM" "c < kTN" "?nt * kTN + c < N"
      have i: "r * kTN + c < kTM * kTN" "(r * kTN + c) div kTN = r" "(r * kTN + c) mod kTN = c" using div_mult_add_lt [OF r(2,3)] r(3) by simp_all
      have l: "?rl + r < rows ! e" "\<not> N \<le> ?nt * kTN + c" using r(1,4) by linarith+
      have "row_experts rows ! (?base + r) = e" by (rule row_experts_nth) (use e(2) rows(1) l(1) in linarith)+
      then show "st (?acc ! (r * kTN + c) * grouped_factor W e) = grouped_out ld st A W rows N K grp (?base + r) (?nt * kTN + c)"
        unfolding map_upt_nth [OF i(1)] i(2,3) grouped_out_def Let_def using l by (simp only: if_True if_False KK)
    next
      fix lane r c v and m :: "'t list"
      have "?rl + r < rows ! e \<longleftrightarrow> r < rows ! e - ?rl" by linarith
      then show "?store lane r c v m = (if r < rows ! e - ?rl \<and> ?nt * kTN + c < N then wr m ((?base + r) * N + (?nt * kTN + c)) (st (v * grouped_factor W e)) else Some m)"
        by (simp only: Let_def add.assoc)
    qed (simp_all add: lanes)
    then obtain m' where store: "xmx_store ?store ?acc (lanes (K div kTK) 0) m = Some m'" "writes (tile_part N ?base (rows ! e - ?rl) ?nt) (\<lambda>a. grouped_out ld st A W rows N K grp (a div N) (a mod N)) m m'" by blast
    have sege: "rd seg' e = Some (tiles_before rows e)" "rd rows e = Some (rows ! e)" using seg e(2) E rows(1) by simp_all
    have "grouped_group exact_math mad half_val e2m1_val e4m3_val st A W rows N K E grp lanes loc seg g m = Some m'"
      unfolding grouped_group_def Let_def [of "?mt"] Let_def [of "_ * kTM"] Let_def [of "_ * kTN"] seg(1) bind.bind_lunit segE if_not_P [OF False] e(1) row0 sege loop prod.case grouped_scale_exact [OF ok e(2)]
      by (rule store(1))
    then show ?thesis using store(2) part by simp
  qed
qed

lemma grouped_parts_cover:
  assumes "length rows = E" "sum_list rows \<le> M"
  shows "(\<Union>g<(cdiv M kTM + E) * cdiv N kTN. grouped_part rows N (g div cdiv N kTN) (g mod cdiv N kTN)) = {..<sum_list rows * N}"
proof (intro equalityI subsetI)
  fix a assume "a \<in> (\<Union>g<(cdiv M kTM + E) * cdiv N kTN. grouped_part rows N (g div cdiv N kTN) (g mod cdiv N kTN))"
  then obtain mt nt where "a \<in> grouped_part rows N mt nt" by auto
  then obtain e where e: "e < length rows" "a \<in> tile_part N (rows_before rows e + (mt - tiles_before rows e) * kTM) (rows ! e - (mt - tiles_before rows e) * kTM) nt"
    unfolding grouped_part_def by blast
  let ?rl = "(mt - tiles_before rows e) * kTM"
  have a: "0 < N" "rows_before rows e + ?rl \<le> a div N" "a div N < rows_before rows e + ?rl + min (rows ! e - ?rl) kTM" using e(2) by (simp_all add: tile_part_def)
  have "rows_before rows (Suc e) \<le> rows_before rows (length rows)" using e(1) by (intro before_mono) simp
  then have "rows_before rows e + rows ! e \<le> sum_list rows" by (simp add: rows_before_sum)
  then have "a div N < sum_list rows" using a(2,3) by linarith
  then show "a \<in> {..<sum_list rows * N}" using a(1) by (simp add: div_less_iff_less_mult)
next
  fix a assume "a \<in> {..<sum_list rows * N}"
  then have a: "a < sum_list rows * N" by simp
  then have N: "0 < N" by (cases N) auto
  have "a div N < sum_list rows" using less_mult_imp_div_less [OF a] .
  then obtain e where e: "e < E" "rows_before rows e \<le> a div N" "a div N < rows_before rows e + rows ! e" using row_has_expert assms(1) by blast
  let ?j = "(a div N - rows_before rows e) div kTM" and ?nt = "a mod N div kTN"
  let ?mt = "tiles_before rows e + ?j"
  have q: "?j * kTM \<le> a div N - rows_before rows e" "a div N - rows_before rows e < ?j * kTM + kTM"
    using dividend_less_div_times [of kTM "a div N - rows_before rows e"] by (simp_all add: add.commute)
  have "?j * kTM < rows ! e" using q(1) e(2,3) by linarith
  then have j: "?j < cdiv (rows ! e) kTM" by (simp add: cdiv_less_iff)
  have "?mt < tiles_before rows (Suc e)" using j by simp
  moreover have "tiles_before rows (Suc e) \<le> tiles_before rows E" using e(1) by (intro before_mono) simp
  moreover have "tiles_before rows E \<le> cdiv M kTM + E"
    using tiles_fit [of rows E] cdiv_mono [OF assms(2), of kTM] rows_before_sum [of rows] assms(1) by simp
  ultimately have mt: "?mt < tiles_before rows (Suc e)" "?mt < cdiv M kTM + E" by linarith+
  have "?nt * kTN \<le> a mod N" "a mod N < N" using N by simp_all
  then have "?nt * kTN < N" by linarith
  then have nt: "?nt < cdiv N kTN" by (simp add: cdiv_less_iff)
  let ?g = "?mt * cdiv N kTN + ?nt"
  have g: "?g < (cdiv M kTM + E) * cdiv N kTN" "?g div cdiv N kTN = ?mt" "?g mod cdiv N kTN = ?nt" using div_mult_add_lt [OF mt(2) nt] nt by simp_all
  have "?mt - tiles_before rows e = ?j" by simp
  moreover have "rows_before rows e + ?j * kTM \<le> a div N \<and> a div N < rows_before rows e + ?j * kTM + min (rows ! e - ?j * kTM) kTM" using q e(2,3) by linarith
  ultimately have "a \<in> grouped_part rows N ?mt ?nt" unfolding grouped_part_def tile_part_def using N e(1) assms(1) mt(1) by auto
  then show "a \<in> (\<Union>g<(cdiv M kTM + E) * cdiv N kTN. grouped_part rows N (g div cdiv N kTN) (g mod cdiv N kTN))" using g by (intro UN_I [of ?g]) simp_all
qed

lemma grouped_launch:
  fixes A C :: "'t list"
  assumes mad: "dpas ld mad" and ld0: "ld (st 0) = 0" and K: "16 dvd K" and rows: "length rows = E" "sum_list rows \<le> M" "E \<le> kMaxExperts"
    and ok: "grouped_ok W E N K grp" and len: "length A = M * K" "length C = M * N"
    and sched: "schedule ((cdiv M kTM + E) * cdiv N kTN) sched" and lanes: "\<And>g kt p. schedule kSG_xmx (lanes g kt p)"
    and loc: "\<And>g. length (fst (loc g)) = kTM * kTK" "\<And>g. length (snd (loc g)) = kTK * kTN" "\<And>g. length (seg g) = kMaxExperts + 1"
  shows "grouped_qgemm exact_math mad half_val e2m1_val e4m3_val st A W rows N K E grp sched lanes loc seg C =
    Some (map (\<lambda>a. if a < sum_list rows * N then grouped_out ld st A W rows N K grp (a div N) (a mod N) else C ! a) [0..<M * N])"
proof -
  let ?u = "\<lambda>a. grouped_out ld st A W rows N K grp (a div N) (a mod N)"
  have "\<exists>C'. foldM (\<lambda>g. grouped_group exact_math mad half_val e2m1_val e4m3_val st A W rows N K E grp (lanes g) (loc g) (seg g) g) sched C = Some C' \<and>
      writes (\<Union>g<(cdiv M kTM + E) * cdiv N kTN. grouped_part rows N (g div cdiv N kTN) (g mod cdiv N kTN)) ?u C C'"
  proof (rule launch_writes [OF sched])
    fix g and m :: "'t list" assume "length m = length C"
    then have "length m = M * N" using len(2) by simp
    moreover have "E < length (seg g)" using rows(3) loc(3) by simp
    ultimately show "\<exists>m'. grouped_group exact_math mad half_val e2m1_val e4m3_val st A W rows N K E grp (lanes g) (loc g) (seg g) g m = Some m' \<and>
        writes (grouped_part rows N (g div cdiv N kTN) (g mod cdiv N kTN)) ?u m m'"
      using grouped_group_writes [where ld = ld and st = st and lanes = "lanes g" and loc = "loc g" and seg = "seg g", OF mad ld0 K rows(1,2)] ok len(1) lanes loc(1,2) by blast
  qed
  then obtain C' where run: "foldM (\<lambda>g. grouped_group exact_math mad half_val e2m1_val e4m3_val st A W rows N K E grp (lanes g) (loc g) (seg g) g) sched C = Some C'"
    and w: "writes {..<sum_list rows * N} ?u C C'" unfolding grouped_parts_cover [OF rows(1,2)] by blast
  have "writes {a. a < M * N \<and> a < sum_list rows * N} ?u C C'" using w len(2) by (simp add: writes_def)
  then have "C' = map (\<lambda>a. if a < sum_list rows * N then ?u a else C ! a) [0..<M * N]" by (rule writes_map_if) (rule len(2))
  moreover have "\<not> (E > kMaxExperts \<or> K mod kTK \<noteq> 0 \<or> (\<exists>w s. W = Int4 w s) \<and> (grp = 0 \<or> K mod grp \<noteq> 0))"
    using rows(3) K ok by (auto simp: tile_sizes grouped_ok_def dvd_eq_mod_eq_0)
  ultimately show ?thesis using run unfolding grouped_qgemm_def by (simp only: if_False)
qed

text \<open>C15: The product of rows grouped by expert, for the three weight formats: whatever the counts per expert (zero included), the initial contents of local
  memory and the order of the groups and lanes, the walk of every group finds the expert of its tile, the grid covers all tiles, and each row is multiplied
  with the decoded weights of its own expert and the expert's scale, exactly over the reals; the rows beyond the counted ones keep their
  contents.\<close>

theorem grouped_qgemm_exact:
  fixes A C :: "'t list"
  assumes mad: "dpas ld mad" and ld0: "ld (st 0) = 0" and K: "16 dvd K" and rows: "length rows = E" "sum_list rows \<le> M" "E \<le> kMaxExperts"
    and ok: "grouped_ok W E N K grp" and len: "length A = M * K" "length C = M * N"
    and sched: "schedule ((cdiv M kTM + E) * cdiv N kTN) sched" and lanes: "\<And>g kt p. schedule kSG_xmx (lanes g kt p)"
    and loc: "\<And>g. length (fst (loc g)) = kTM * kTK" "\<And>g. length (snd (loc g)) = kTK * kTN" "\<And>g. length (seg g) = kMaxExperts + 1"
  shows "grouped_qgemm exact_math mad half_val e2m1_val e4m3_val st A W rows N K E grp sched lanes loc seg C =
    Some (map (\<lambda>a. if a < sum_list rows * N then grouped_out ld st A W rows N K grp (a div N) (a mod N) else C ! a) [0..<M * N])"
  by (rule grouped_launch [where ld = ld and st = st and mad = mad and rows = rows and lanes = lanes and loc = loc and seg = seg, OF mad ld0 K rows ok len sched lanes loc])

text \<open>The witness uses the product the instruction is documented to compute.\<close>

definition exact_mad :: "('t \<Rightarrow> real) \<Rightarrow> 't list \<Rightarrow> 't list \<Rightarrow> real list \<Rightarrow> real list" where
  "exact_mad ld As Bs acc = map (\<lambda>e. acc ! e + (\<Sum>k<kTK. ld (As ! (e div kTN * kTK + k)) * ld (Bs ! (k * kTN + e mod kTN)))) [0..<kTM * kTN]"

lemma exact_mad: "dpas ld (exact_mad ld)"
  by (simp add: dpas_def exact_mad_def)

lemma grouped_qgemm_exact_witness:
  "grouped_qgemm exact_math (exact_mad id) half_val e2m1_val e4m3_val id (replicate 16 2 @ replicate 16 5) (W16 (replicate 16 0 @ replicate 16 3 @ replicate 16 7)) [0, 1, 0] 1 16 3 0
      [0, 1, 2, 3] (\<lambda>_ _ _. [0..<16]) (\<lambda>_. (replicate 128 7, replicate 256 7)) (\<lambda>_. replicate 257 9) [9, 8 :: real] = Some [96, 8]"
proof -
  have k: "kMaxExperts = 256" "cdiv 2 kTM = 1" "cdiv 1 kTN = 1" "kSG_xmx = 16" "kTM * kTK = 128" "kTK * kTN = 256" by (simp_all add: kMaxExperts_def cdiv_def tile_sizes)
  have s: "schedule ((cdiv 2 kTM + 3) * cdiv 1 kTN) [0, 1, 2, 3]" "schedule kSG_xmx [0..<16]" unfolding k by (auto simp: schedule_def)
  have ok: "grouped_ok (W16 (replicate 16 0 @ replicate 16 3 @ replicate 16 7)) 3 1 16 0" by (simp add: grouped_ok_def)
  have u: "[0..<2] = [0, 1 :: nat]" "[0..<3] = [0, 1, 2 :: nat]" by (simp_all add: upt_rec)
  have ex: "row_experts [0, 1, 0] = [1]" by (simp add: row_experts_def u)
  have "(\<Sum>k<16. (replicate 16 2 @ replicate 16 5) ! k * (replicate 16 0 @ replicate 16 3 @ replicate 16 7) ! (16 + k)) = (\<Sum>k<(16 :: nat). 2 * 3 :: real)"
    by (rule sum.cong) (simp_all add: nth_append)
  then have out: "grouped_out id id (replicate 16 2 @ replicate 16 5) (W16 (replicate 16 0 @ replicate 16 3 @ replicate 16 7)) [0, 1, 0] 1 16 0 0 0 = (96 :: real)"
    by (simp add: grouped_out_def grouped_el_def grouped_factor_def ex ex [unfolded One_nat_def])
  have "grouped_qgemm exact_math (exact_mad id) half_val e2m1_val e4m3_val id (replicate 16 2 @ replicate 16 5) (W16 (replicate 16 0 @ replicate 16 3 @ replicate 16 7)) [0, 1, 0] 1 16 3 0
      [0, 1, 2, 3] (\<lambda>_ _ _. [0..<16]) (\<lambda>_. (replicate 128 7, replicate 256 7)) (\<lambda>_. replicate 257 9) [9, 8 :: real] =
    Some (map (\<lambda>a. if a < sum_list [0, 1, 0] * 1 then grouped_out id id (replicate 16 2 @ replicate 16 5) (W16 (replicate 16 0 @ replicate 16 3 @ replicate 16 7)) [0, 1, 0] 1 16 0 (a div 1) (a mod 1)
      else [9, 8] ! a) [0..<2 * 1])"
    by (rule grouped_qgemm_exact [OF exact_mad]) (use s ok in \<open>simp_all add: k\<close>)
  then show ?thesis by (simp add: u out [unfolded One_nat_def])
qed

section \<open>Logits, exact\<close>

lemma strided_lane: "lane < kSG_xmx \<Longrightarrow> strided lane kSG_xmx (kTM * kTN) = map (\<lambda>r. r * kTN + lane) [0..<kTM]"
  by (simp add: tile_sizes strided_Cons upt_rec)

text \<open>A lane adds the contributions of the eight rows of its column.\<close>

lemma colsum_store:
  fixes acc colsum :: "real list"
  assumes lanes: "schedule kSG_xmx lanes" and acc: "length acc = kTM * kTN" and cs: "length colsum = kSG_xmx"
    and fn: "\<And>lane r cs. lane < kSG_xmx \<Longrightarrow> r < kTM \<Longrightarrow> length cs = kSG_xmx \<Longrightarrow> fn lane r lane (acc ! (r * kTN + lane)) cs = Some (cs[lane := cs ! lane + t r lane])"
  shows "xmx_store fn acc lanes colsum = Some (map (\<lambda>c. colsum ! c + (\<Sum>r<kTM. t r c)) [0..<kSG_xmx])"
proof -
  let ?new = "\<lambda>c. colsum ! c + (\<Sum>r<kTM. t r c)"
  let ?P = "\<lambda>D m. length m = kSG_xmx \<and> (\<forall>c<kSG_xmx. m ! c = (if c \<in> D then ?new c else colsum ! c))"
  have "\<exists>m. xmx_store fn acc lanes colsum = Some m \<and> ?P {..<kSG_xmx} m"
    unfolding xmx_store_def
  proof (rule foldM_schedule [OF lanes, where P = ?P])
    fix D lane and m :: "real list" assume l: "lane < kSG_xmx" "lane \<notin> D" and P: "?P D m"
    have "\<exists>m'. foldM (\<lambda>r s. do { v \<leftarrow> rd acc (r * kTN + lane); fn lane ((r * kTN + lane) div kTN) ((r * kTN + lane) mod kTN) v s }) [0..<kTM] m = Some m' \<and>
        m' = m[lane := colsum ! lane + (\<Sum>r<kTM. t r lane)]"
    proof (rule foldM_upt [where P = "\<lambda>R m'. m' = m[lane := colsum ! lane + (\<Sum>r<R. t r lane)]"])
      show "m = m[lane := colsum ! lane + (\<Sum>r<0. t r lane)]" using P l by (simp add: list_eq_iff_nth_eq nth_list_update)
      fix r m' assume r: "r < kTM" and m': "m' = m[lane := colsum ! lane + (\<Sum>r<r. t r lane)]"
      have lt: "lane < kTN" using l(1) by (simp add: tile_sizes)
      have "rd acc (r * kTN + lane) = Some (acc ! (r * kTN + lane))" "(r * kTN + lane) div kTN = r" "(r * kTN + lane) mod kTN = lane"
        using div_mult_add_lt [OF r lt] lt acc by simp_all
      then show "\<exists>m''. (do { v \<leftarrow> rd acc (r * kTN + lane); fn lane ((r * kTN + lane) div kTN) ((r * kTN + lane) mod kTN) v m' }) = Some m'' \<and>
          m'' = m[lane := colsum ! lane + (\<Sum>r<Suc r. t r lane)]"
        using fn [OF l(1) r, of m'] P l(1) by (simp add: m' add.assoc)
    qed simp
    then show "\<exists>m'. foldM (\<lambda>e s. do { v \<leftarrow> rd acc e; fn lane (e div kTN) (e mod kTN) v s }) (strided lane kSG_xmx (kTM * kTN)) m = Some m' \<and> ?P (insert lane D) m'"
      unfolding strided_lane [OF l(1)] foldM_map using P l by (auto simp: nth_list_update)
  qed (simp add: cs)
  then obtain m where m: "xmx_store fn acc lanes colsum = Some m" "?P {..<kSG_xmx} m" by blast
  then have "m = map ?new [0..<kSG_xmx]" by (intro nth_equalityI) simp_all
  then show ?thesis using m(1) by simp
qed

definition mqa_term :: "('t \<Rightarrow> real) \<Rightarrow> (real \<Rightarrow> 't) \<Rightarrow> 8 word list \<Rightarrow> 8 word list \<Rightarrow> real list \<Rightarrow> real list \<Rightarrow> nat \<Rightarrow> nat \<Rightarrow> nat \<Rightarrow> nat \<Rightarrow> nat \<Rightarrow> real" where
  "mqa_term ld st qv kv kv_scales weights H D s j h = weights ! (s * H + h) *
     max 0 ((\<Sum>d<D. ld (st (e4m3_val (qv ! ((s * H + h) * D + d)))) * ld (st (e4m3_val (kv ! (j * D + d))))) * kv_scales ! j)"

lemma mqa_group_writes:
  fixes qv kv :: "8 word list" and logits :: "real list"
  assumes mad: "dpas ld mad" and ld0: "ld (st 0) = 0" and D: "16 dvd D" and s: "g div cdiv Skv kTN < S"
    and len: "length qv = S * H * D" "length kv = Skv * D" "length kv_scales = Skv" "length weights = S * H" "length ks = S" "length ke = S" "length logits = S * Skv"
    and lanes: "\<And>ht kt p. schedule kSG_xmx (lanes ht kt p)" and loc: "length (fst loc) = kTM * kTK" "length (snd loc) = kTK * kTN"
  shows "\<exists>logits'. mqa_group exact_math mad e4m3_val st ninf qv kv kv_scales weights ks ke H D Skv lanes loc g logits = Some logits' \<and>
    writes {a. 0 < Skv \<and> a div Skv = g div cdiv Skv kTN \<and> a mod Skv div kTN = g mod cdiv Skv kTN}
      (\<lambda>a. if ks ! (a div Skv) \<le> int (a mod Skv) \<and> int (a mod Skv) < ke ! (a div Skv) then \<Sum>h<H. mqa_term ld st qv kv kv_scales weights H D (a div Skv) (a mod Skv) h else ninf) logits logits'"
proof -
  let ?s = "g div cdiv Skv kTN" and ?nt = "g mod cdiv Skv kTN"
  let ?kv0 = "?nt * kTN"
  let ?T = "\<lambda>j h. mqa_term ld st qv kv kv_scales weights H D ?s j h"
  let ?fa = "\<lambda>ht kt r c. let hh = ht * kTM + r in if hh < H then map_option (\<lambda>b. st (e4m3_val b)) (rd qv ((?s * H + hh) * D + kt * kTK + c)) else Some (st 0)"
  let ?fb = "\<lambda>kt r c. let j = ?kv0 + c in if j < Skv then map_option (\<lambda>b. st (e4m3_val b)) (rd kv (j * D + kt * kTK + r)) else Some (st 0)"
  let ?st = "\<lambda>ht lane r c v colsum. do {
         kscale \<leftarrow> (if ?kv0 + lane < Skv then rd kv_scales (?kv0 + lane) else Some 0);
         let hh = ht * kTM + r;
         if hh < H then do {
           w \<leftarrow> rd weights (?s * H + hh);
           old \<leftarrow> rd colsum lane;
           wr colsum lane (old + w * fmax (v * kscale) 0) }
         else Some colsum }"
  let ?step = "\<lambda>ht (colsum, loc). do {
       (acc, loc) \<leftarrow> xmx_loop mad (?fa ht) ?fb (D div kTK) (lanes ht) loc;
       colsum \<leftarrow> xmx_store (?st ht) acc (lanes ht (D div kTK) 0) colsum;
       Some (colsum, loc) }"
  let ?P = "\<lambda>ht s. length (fst s) = kSG_xmx \<and> (\<forall>c<kSG_xmx. ?kv0 + c < Skv \<longrightarrow> fst s ! c = (\<Sum>h<ht * kTM. if h < H then ?T (?kv0 + c) h else 0)) \<and>
      length (fst (snd s)) = kTM * kTK \<and> length (snd (snd s)) = kTK * kTN"
  have DD: "D div kTK * kTK = D" using D by (simp add: tile_sizes)
  have din: "kt * kTK + r < D" if "kt < D div kTK" "r < kTK" for kt r using div_mult_add_lt [OF that] DD by simp
  have "\<exists>s. foldM ?step [0..<cdiv H kTM] (replicate kSG_xmx 0, loc) = Some s \<and> ?P (cdiv H kTM) s"
  proof (rule foldM_upt [where P = ?P])
    show "?P 0 (replicate kSG_xmx 0, loc)" using loc by simp
    fix ht and s :: "real list \<times> 'a list \<times> 'a list" assume P: "?P ht s"
    obtain colsum loc1 where sd: "s = (colsum, loc1)" by (cases s)
    let ?a = "\<lambda>r k. if ht * kTM + r < H then st (e4m3_val (qv ! ((?s * H + (ht * kTM + r)) * D + k))) else st 0"
    let ?b = "\<lambda>k c. if ?kv0 + c < Skv then st (e4m3_val (kv ! ((?kv0 + c) * D + k))) else st 0"
    let ?acc = "map (\<lambda>e. \<Sum>k<D div kTK * kTK. ld (?a (e div kTN) k) * ld (?b k (e mod kTN))) [0..<kTM * kTN]"
    have "\<exists>loc'. xmx_loop mad (?fa ht) ?fb (D div kTK) (lanes ht) loc1 = Some (?acc, loc') \<and> length (fst loc') = kTM * kTK \<and> length (snd loc') = kTK * kTN"
    proof (rule xmx_loop_exact [where a = ?a and b = ?b, OF mad lanes])
      fix kt r c assume i: "kt < D div kTK" "c < kTK"
      show "?fa ht kt r c = Some (?a r (kt * kTK + c))"
      proof (cases "ht * kTM + r < H")
        case True
        have "(?s * H + (ht * kTM + r)) * D + (kt * kTK + c) < length qv" using div_mult_add_lt [OF div_mult_add_lt [OF assms(4) True] din [OF i]] len(1) by simp
        then show ?thesis using True by (simp add: Let_def add.assoc)
      qed (simp add: Let_def)
    next
      fix kt r c assume i: "kt < D div kTK" "r < kTK"
      show "?fb kt r c = Some (?b (kt * kTK + r) c)"
      proof (cases "?kv0 + c < Skv")
        case True
        have "(?kv0 + c) * D + (kt * kTK + r) < length kv" using div_mult_add_lt [OF True din [OF i]] len(2) by simp
        then show ?thesis using True by (simp add: Let_def add.assoc)
      qed (simp add: Let_def)
    qed (use P sd in simp_all)
    then obtain loc2 where loop: "xmx_loop mad (?fa ht) ?fb (D div kTK) (lanes ht) loc1 = Some (?acc, loc2)" "length (fst loc2) = kTM * kTK" "length (snd loc2) = kTK * kTN" by blast
    let ?ksc = "\<lambda>lane. if ?kv0 + lane < Skv then kv_scales ! (?kv0 + lane) else 0"
    let ?t = "\<lambda>r lane. if ht * kTM + r < H then weights ! (?s * H + (ht * kTM + r)) * fmax (?acc ! (r * kTN + lane) * ?ksc lane) 0 else 0"
    have store: "xmx_store (?st ht) ?acc (lanes ht (D div kTK) 0) colsum = Some (map (\<lambda>c. colsum ! c + (\<Sum>r<kTM. ?t r c)) [0..<kSG_xmx])"
    proof (rule colsum_store [OF lanes])
      fix lane r and cs :: "real list" assume l: "lane < kSG_xmx" "length cs = kSG_xmx"
      have k: "(if ?kv0 + lane < Skv then rd kv_scales (?kv0 + lane) else Some 0) = Some (?ksc lane)" using len(3) by simp
      have w: "rd weights (?s * H + (ht * kTM + r)) = Some (weights ! (?s * H + (ht * kTM + r)))" if "ht * kTM + r < H"
        using div_mult_add_lt [OF assms(4) that] len(4) by simp
      have c: "rd cs lane = Some (cs ! lane)" "wr cs lane v = Some (cs[lane := v])" for v using l by simp_all
      show "?st ht lane r lane (?acc ! (r * kTN + lane)) cs = Some (cs[lane := cs ! lane + ?t r lane])"
      proof (cases "ht * kTM + r < H")
        case True
        show ?thesis by (simp only: k bind.bind_lunit Let_def True if_True w [OF True] c)
      next
        case False
        show ?thesis by (simp only: k bind.bind_lunit Let_def False if_False) simp
      qed
    qed (use P sd in simp_all)
    have tsum: "(\<Sum>r<kTM. ?t r c) = (\<Sum>h = ht * kTM..<Suc ht * kTM. if h < H then ?T (?kv0 + c) h else 0)" if c: "c < kSG_xmx" "?kv0 + c < Skv" for c
    proof -
      have "?t r c = (if r + ht * kTM < H then ?T (?kv0 + c) (r + ht * kTM) else 0)" if r: "r < kTM" for r
      proof (cases "ht * kTM + r < H")
        case True
        have ct: "c < kTN" using c(1) by (simp add: tile_sizes)
        have i: "r * kTN + c < kTM * kTN" "(r * kTN + c) div kTN = r" "(r * kTN + c) mod kTN = c" using div_mult_add_lt [OF r ct] ct by simp_all
        have "?acc ! (r * kTN + c) = (\<Sum>d<D. ld (st (e4m3_val (qv ! ((?s * H + (ht * kTM + r)) * D + d)))) * ld (st (e4m3_val (kv ! ((?kv0 + c) * D + d)))))"
          unfolding map_upt_nth [OF i(1)] i(2,3) DD using True c(2) by (simp only: if_True)
        moreover have "r + ht * kTM = ht * kTM + r" by (rule add.commute)
        ultimately show ?thesis using True c(2) by (simp only: if_True mqa_term_def fmax_def max_def) (auto simp: max_def)
      qed (simp add: add.commute)
      then have "(\<Sum>r<kTM. ?t r c) = (\<Sum>r<kTM. if r + ht * kTM < H then ?T (?kv0 + c) (r + ht * kTM) else 0)" by (intro sum.cong) simp_all
      also have "\<dots> = (\<Sum>h = ht * kTM..<Suc ht * kTM. if h < H then ?T (?kv0 + c) h else 0)"
        using sum.shift_bounds_nat_ivl [of "\<lambda>h. if h < H then ?T (?kv0 + c) h else 0" 0 "ht * kTM" kTM] by (simp add: lessThan_atLeast0 add.commute)
      finally show ?thesis .
    qed
    define colsum' where "colsum' = map (\<lambda>c. colsum ! c + (\<Sum>r<kTM. ?t r c)) [0..<kSG_xmx]"
    have new: "colsum' ! c = (\<Sum>h<Suc ht * kTM. if h < H then ?T (?kv0 + c) h else 0)" if c: "c < kSG_xmx" "?kv0 + c < Skv" for c
    proof -
      have old: "colsum ! c = (\<Sum>h = 0..<ht * kTM. if h < H then ?T (?kv0 + c) h else 0)" using P c sd by (simp add: lessThan_atLeast0)
      have "0 \<le> ht * kTM" "ht * kTM \<le> Suc ht * kTM" by simp_all
      from sum.atLeastLessThan_concat [OF this, of "\<lambda>h. if h < H then ?T (?kv0 + c) h else 0"]
      have "colsum ! c + (\<Sum>r<kTM. ?t r c) = (\<Sum>h<Suc ht * kTM. if h < H then ?T (?kv0 + c) h else 0)"
        by (simp only: tsum [OF c] old) (simp only: lessThan_atLeast0)
      then show ?thesis unfolding colsum'_def map_upt_nth [OF c(1)] .
    qed
    have "length colsum' = kSG_xmx" by (simp add: colsum'_def)
    then have "?P (Suc ht) (colsum', loc2)" using new loop(2,3) by (simp only: fst_conv snd_conv simp_thms) blast
    then show "\<exists>s'. ?step ht s = Some s' \<and> ?P (Suc ht) s'" unfolding sd prod.case loop(1) bind.bind_lunit store colsum'_def [symmetric] by blast
  qed simp
  then obtain colsum loc' where run: "foldM ?step [0..<cdiv H kTM] (replicate kSG_xmx 0, loc) = Some (colsum, loc')" and P: "?P (cdiv H kTM) (colsum, loc')" by fastforce
  have col: "colsum ! c = (\<Sum>h<H. ?T (?kv0 + c) h)" if "c < kSG_xmx" "?kv0 + c < Skv" for c
  proof -
    have "(\<Sum>h<cdiv H kTM * kTM. if h < H then ?T (?kv0 + c) h else 0) = (\<Sum>h<H. if h < H then ?T (?kv0 + c) h else 0)"
      by (rule padded_sum) (simp_all add: cdiv_upper)
    then show ?thesis using P that by simp
  qed
  let ?v = "\<lambda>a. if ks ! (a div Skv) \<le> int (a mod Skv) \<and> int (a mod Skv) < ke ! (a div Skv) then \<Sum>h<H. mqa_term ld st qv kv kv_scales weights H D (a div Skv) (a mod Skv) h else ninf"
  let ?cells = "\<lambda>lane. if ?kv0 + lane < Skv then {?s * Skv + (?kv0 + lane)} else {}"
  let ?out = "\<lambda>lane logits. if ?kv0 + lane < Skv then do {
         k0 \<leftarrow> rd ks ?s;
         k1 \<leftarrow> rd ke ?s;
         v \<leftarrow> rd colsum lane;
         wr logits (?s * Skv + (?kv0 + lane)) (if k0 \<le> int (?kv0 + lane) \<and> int (?kv0 + lane) < k1 then v else ninf) }
       else Some logits"
  have "\<exists>l'. foldM ?out (lanes (cdiv H kTM) 0 0) logits = Some l' \<and> writes (\<Union>lane<kSG_xmx. ?cells lane) ?v logits l'"
  proof (rule launch_writes [OF lanes])
    fix lane and m :: "real list" assume l: "lane < kSG_xmx" and m: "length m = length logits"
    show "\<exists>m'. ?out lane m = Some m' \<and> writes (?cells lane) ?v m m'"
    proof (cases "?kv0 + lane < Skv")
      case True
      let ?x = "?s * Skv + (?kv0 + lane)"
      have lt: "?x < length m" using div_mult_add_lt [OF s True] m len(7) by simp
      have dm: "?x div Skv = ?s" "?x mod Skv = ?kv0 + lane" using True by simp_all
      have "rd ks ?s = Some (ks ! ?s)" "rd ke ?s = Some (ke ! ?s)" using s len(5,6) by simp_all
      moreover have "rd colsum lane = Some (\<Sum>h<H. ?T (?kv0 + lane) h)" using col [OF l True] P l by simp
      moreover have "wr m ?x v = Some (m[?x := v])" for v using lt by simp
      ultimately have "?out lane m = Some (m[?x := ?v ?x])" using True unfolding dm by (simp only: if_True bind.bind_lunit)
      then show ?thesis using True writes_single [OF lt, of ?v] by (simp only: if_True) blast
    next
      case False
      show ?thesis by (simp only: False if_False writes_empty) simp
    qed
  qed
  moreover have "(\<Union>lane<kSG_xmx. ?cells lane) = {a. 0 < Skv \<and> a div Skv = ?s \<and> a mod Skv div kTN = ?nt}"
  proof (intro equalityI subsetI)
    fix a assume "a \<in> (\<Union>lane<kSG_xmx. ?cells lane)"
    then obtain lane where l: "lane < kTN" "?kv0 + lane < Skv" "a = ?s * Skv + (?kv0 + lane)" by (auto simp: tile_sizes split: if_splits)
    then show "a \<in> {a. 0 < Skv \<and> a div Skv = ?s \<and> a mod Skv div kTN = ?nt}" by auto
  next
    fix a assume "a \<in> {a. 0 < Skv \<and> a div Skv = ?s \<and> a mod Skv div kTN = ?nt}"
    then have a: "0 < Skv" "a div Skv = ?s" "a mod Skv div kTN = ?nt" by simp_all
    have "?kv0 + a mod Skv mod kTN = a mod Skv" unfolding a(3) [symmetric] by simp
    moreover have "a = ?s * Skv + a mod Skv" unfolding a(2) [symmetric] by simp
    ultimately have "a \<in> ?cells (a mod Skv mod kTN)" using a(1) by simp
    moreover have "a mod Skv mod kTN < kSG_xmx" by (simp add: tile_sizes)
    ultimately show "a \<in> (\<Union>lane<kSG_xmx. ?cells lane)" by blast
  qed
  ultimately show ?thesis unfolding mqa_group_def Let_def [of "_ * kTM"] Let_def [of "_ * kTN"] Let_def [of "?s"] using run by simp
qed

text \<open>The logits of every query and key: over the heads, the weighted positive part of the scaled dot product of the decoded bytes, and minus infinity
  outside the band of the query; any numbers of heads and keys against the tiles, any order of groups and lanes.\<close>

theorem mqa_logits_exact:
  fixes qv kv :: "8 word list" and logits :: "real list"
  assumes mad: "dpas ld mad" and ld0: "ld (st 0) = 0" and D: "16 dvd D"
    and len: "length qv = S * H * D" "length kv = Skv * D" "length kv_scales = Skv" "length weights = S * H" "length ks = S" "length ke = S" "length logits = S * Skv"
    and sched: "schedule (S * cdiv Skv kTN) sched" and lanes: "\<And>g ht kt p. schedule kSG_xmx (lanes g ht kt p)"
    and loc: "\<And>g. length (fst (loc g)) = kTM * kTK" "\<And>g. length (snd (loc g)) = kTK * kTN"
  shows "mqa_logits exact_math mad e4m3_val st ninf qv kv kv_scales weights ks ke H D Skv sched lanes loc logits =
    Some (map (\<lambda>a. let s = a div Skv; j = a mod Skv in
      if ks ! s \<le> int j \<and> int j < ke ! s then \<Sum>h<H. mqa_term ld st qv kv kv_scales weights H D s j h else ninf) [0..<S * Skv])"
proof -
  let ?v = "\<lambda>a. if ks ! (a div Skv) \<le> int (a mod Skv) \<and> int (a mod Skv) < ke ! (a div Skv) then \<Sum>h<H. mqa_term ld st qv kv kv_scales weights H D (a div Skv) (a mod Skv) h else ninf"
  let ?cells = "\<lambda>g. {a. 0 < Skv \<and> a div Skv = g div cdiv Skv kTN \<and> a mod Skv div kTN = g mod cdiv Skv kTN}"
  have "\<exists>l'. foldM (\<lambda>g. mqa_group exact_math mad e4m3_val st ninf qv kv kv_scales weights ks ke H D Skv (lanes g) (loc g) g) sched logits = Some l' \<and>
      writes (\<Union>g<S * cdiv Skv kTN. ?cells g) ?v logits l'"
  proof (rule launch_writes [OF sched])
    fix g and m :: "real list" assume g: "g < S * cdiv Skv kTN" and m: "length m = length logits"
    have s: "g div cdiv Skv kTN < S" using less_mult_imp_div_less [OF g] .
    have l: "length m = S * Skv" using m len(7) by simp
    show "\<exists>m'. mqa_group exact_math mad e4m3_val st ninf qv kv kv_scales weights ks ke H D Skv (lanes g) (loc g) g m = Some m' \<and> writes (?cells g) ?v m m'"
      by (rule mqa_group_writes [where ld = ld and st = st, OF mad ld0 D s len(1-6) l lanes loc])
  qed
  moreover have "(\<Union>g<S * cdiv Skv kTN. ?cells g) = {..<S * Skv}"
  proof (intro equalityI subsetI)
    fix a assume "a \<in> (\<Union>g<S * cdiv Skv kTN. ?cells g)"
    then obtain g where g: "g < S * cdiv Skv kTN" "0 < Skv" "a div Skv = g div cdiv Skv kTN" by auto
    have "a div Skv < S" using less_mult_imp_div_less [OF g(1)] g(3) by simp
    then show "a \<in> {..<S * Skv}" using g(2) by (simp add: div_less_iff_less_mult)
  next
    fix a assume "a \<in> {..<S * Skv}"
    then have a: "a < S * Skv" by simp
    then have Skv: "0 < Skv" by (cases Skv) auto
    have "a mod Skv div kTN * kTN \<le> a mod Skv" "a mod Skv < Skv" using Skv by simp_all
    then have "a mod Skv div kTN * kTN < Skv" by linarith
    then have nt: "a mod Skv div kTN < cdiv Skv kTN" by (simp add: cdiv_less_iff)
    let ?g = "a div Skv * cdiv Skv kTN + a mod Skv div kTN"
    have "?g < S * cdiv Skv kTN" "?g div cdiv Skv kTN = a div Skv" "?g mod cdiv Skv kTN = a mod Skv div kTN"
      using div_mult_add_lt [OF less_mult_imp_div_less [OF a] nt] nt by simp_all
    then show "a \<in> (\<Union>g<S * cdiv Skv kTN. ?cells g)" using Skv by (intro UN_I [of ?g]) simp_all
  qed
  ultimately obtain l' where r: "foldM (\<lambda>g. mqa_group exact_math mad e4m3_val st ninf qv kv kv_scales weights ks ke H D Skv (lanes g) (loc g) g) sched logits = Some l'" "writes {..<S * Skv} ?v logits l'" by auto
  have "D mod kTK = 0" using D by (simp add: tile_sizes)
  then show ?thesis using r(1) writes_map_upt [OF r(2) len(7)] by (simp add: mqa_logits_def Let_def)
qed

text \<open>C40: The loop that walks from a tile to its expert terminates for every tile below the last segment, inside the bounds of the segment table, at the one
  expert whose segment holds the tile (experts without rows are passed over), for any counts and any initial contents of the
  table.\<close>

theorem expert_walk_returns:
  assumes "length rows = E" "E < length seg" "mt < (\<Sum>i<E. cdiv (rows ! i) kTM)"
  shows "\<exists>seg' e. seg_fill rows E seg = Some seg' \<and> find_expert seg' E mt 0 = Some e \<and> e < E \<and> 0 < rows ! e \<and>
    (\<Sum>i<e. cdiv (rows ! i) kTM) \<le> mt \<and> mt < (\<Sum>i<Suc e. cdiv (rows ! i) kTM)"
proof -
  obtain seg' where seg: "seg_fill rows E seg = Some seg'" "length seg' = length seg" "\<forall>e\<le>E. seg' ! e = tiles_before rows e"
    using seg_fill_exact [OF assms(1,2)] by blast
  then obtain e where e: "find_expert seg' E mt 0 = Some e" "e < E" "tiles_before rows e \<le> mt" "mt < tiles_before rows (Suc e)"
    using tile_owner [OF seg(3) _ assms(3)] assms(2) by auto
  have "0 < rows ! e"
  proof (rule ccontr)
    assume "\<not> 0 < rows ! e"
    then have "cdiv (rows ! e) kTM = 0" by simp
    then show False using e(3,4) by simp
  qed
  then show ?thesis using seg(1) e by blast
qed

lemma expert_walk_returns_witness:
  "\<exists>seg' e. seg_fill [9, 0, 1] 3 (replicate 4 7) = Some seg' \<and> find_expert seg' 3 2 0 = Some e \<and> e < 3 \<and> 0 < [9, 0, 1 :: nat] ! e \<and>
    (\<Sum>i<e. cdiv ([9, 0, 1] ! i) kTM) \<le> 2 \<and> 2 < (\<Sum>i<Suc e. cdiv ([9, 0, 1] ! i) kTM)"
proof -
  have "{..<3 :: nat} = {0, 1, 2}" by auto
  then have "2 < (\<Sum>i<3. cdiv ([9, 0, 1] ! i) kTM)" by (simp add: cdiv_def kTM_def)
  then show ?thesis using expert_walk_returns [of "[9, 0, 1]" 3 "replicate 4 7" 2] by simp
qed

end
