(* ===== verification/Sampling.thy ===== *)
theory Sampling
  imports Lanes Moe
begin

text \<open>
  Sampling: the counter-based generator (\<open>rng.hpp\<close>) and categorical and top-k sampling
  (\<open>sample.sycl.cpp\<close>).  The kernels are generic in the arithmetic: they run on \<open>f32\<close> and, for the
  statements on distributions, on exact numbers.
\<close>

section \<open>The generator\<close>

definition pcg_hash :: "32 word \<Rightarrow> 32 word" where
  "pcg_hash x = (let x = x * 747796405 + 2891336453;
     w = (drop_bit (unat (drop_bit 28 x) + 4) x XOR x) * 277803737
   in drop_bit 22 w XOR w)"

definition uniform01 :: "32 word \<Rightarrow> 64 word \<Rightarrow> f32" where
  "uniform01 seed idx = (let lo = ucast idx; hi = ucast (drop_bit 32 idx);
     h = pcg_hash (lo XOR (seed * 2654435761) XOR pcg_hash hi)
   in f32_of_int (uint (drop_bit 8 h)) * (F32 0x3f800000 / f32_of_int 16777216))"

lemma uint_drop8: "uint (drop_bit 8 (h :: 32 word)) < 2 ^ 24"
  using uint_lt2p [of h] by (simp add: uint_drop)

lemma f32_is_literals: "f32_is (F32 0x3f800000) False (2 ^ 149)" "f32_is (F32 0x3f800000 / f32_of_int 16777216) False (2 ^ 125)"
proof -
  show one: "f32_is (F32 0x3f800000) False (2 ^ 149)"
    by (simp add: f32_is_def f32_eval)
  have "f32_is (f32_of_int 16777216) False (2 ^ 24 * 2 ^ 149)" using f32_is_of_int [of 16777216] by simp
  from f32_is_div [OF one this, of "2 ^ 125"] show "f32_is (F32 0x3f800000 / f32_of_int 16777216) False (2 ^ 125)"
    using f32_repr_le [of 1 125] by simp
qed

lemma f32_is_le: "f32_is x False a \<Longrightarrow> f32_is y False b \<Longrightarrow> x \<le> y \<longleftrightarrow> a \<le> b"
  by (auto simp: f32_le_iff f32_is_def f32_sval_def f32_finite_def f32_nan_def)

text \<open>For every seed and counter \<open>uniform01\<close> is exactly a multiple of \<open>2 ^ -24\<close> in \<open>[0, 1)\<close>: neither
  the conversion nor the product rounds, and 1 is never reached.\<close>

theorem uniform01_range:
  "\<exists>k<2 ^ 24. f32_is (uniform01 seed idx) False (k * 2 ^ 125) \<and> 0 \<le> uniform01 seed idx \<and> uniform01 seed idx < 1"
proof -
  define h where "h = pcg_hash (ucast idx XOR (seed * 2654435761) XOR pcg_hash (ucast (drop_bit 32 idx)))"
  define k where "k = nat (uint (drop_bit 8 h))"
  have k: "k < 2 ^ 24" using uint_drop8 [of h] unfolding k_def by (simp only: nat_less_iff uint_ge_0) simp
  have u: "uniform01 seed idx = f32_of_int (uint (drop_bit 8 h)) * (F32 0x3f800000 / f32_of_int 16777216)"
    by (simp add: uniform01_def h_def Let_def)
  have "f32_is (f32_of_int (uint (drop_bit 8 h))) False (k * 2 ^ 149)"
    using f32_is_of_int [of "uint (drop_bit 8 h)"] uint_drop8 [of h] by (simp add: k_def)
  from f32_is_mul [OF this f32_is_literals(2), of "k * 2 ^ 125"]
  have u_is: "f32_is (uniform01 seed idx) False (k * 2 ^ 125)"
    using f32_repr_le [of k 125] k by (simp add: u mult_ac)
  have "f32_is 0 False 0" "f32_is 1 False (2 ^ 149)"
    using f32_is_literals(1) by (simp_all add: one_f32_def) (simp add: f32_is_def f32_eval)
  moreover have "k * 2 ^ 125 < 2 ^ 149"
  proof -
    have "k * 2 ^ 125 < 2 ^ 24 * (2 :: nat) ^ 125" using k by (intro mult_strict_right_mono) auto
    then show ?thesis by (simp flip: power_add)
  qed
  ultimately show ?thesis using k u_is f32_is_le f32_is_less by blast
qed

section \<open>Categorical sampling\<close>

text \<open>The loop that adds weights until the target is reached, \<open>r\<close> if it never is.\<close>

fun cdf_find :: "(nat \<Rightarrow> 'v::{plus,ord} option) \<Rightarrow> 'v \<Rightarrow> 'v \<Rightarrow> nat list \<Rightarrow> nat \<Rightarrow> nat option" where
  "cdf_find w target c [] r = Some r"
| "cdf_find w target c (j # js) r = do {
     x \<leftarrow> w j;
     let c = c + x;
     if target \<le> c then Some j else cdf_find w target c js r }"

definition cat_weight :: "'v::{minus,times} gmath \<Rightarrow> ('t \<Rightarrow> 'v) \<Rightarrow> 't list \<Rightarrow> nat \<Rightarrow> nat \<Rightarrow> 'v \<Rightarrow> 'v \<Rightarrow> nat \<Rightarrow> 'v option" where
  "cat_weight M ld logits row vocab inv_temp m j = do {
     x \<leftarrow> rd logits (row * vocab + j);
     Some (exp_fn M (ld x * inv_temp - m)) }"

definition cat_item :: "'v::{plus,minus,times,zero,ord} gmath \<Rightarrow> ('t \<Rightarrow> 'v) \<Rightarrow> 'v \<Rightarrow> 't list \<Rightarrow> nat \<Rightarrow> 'v \<Rightarrow> (nat \<Rightarrow> 'v) \<Rightarrow> nat list \<Rightarrow>
    nat \<Rightarrow> int list \<Rightarrow> int list option" where
  "cat_item M ld ninf logits vocab inv_temp uni lanes row out = do {
     let w = cat_weight M ld logits row vocab inv_temp;
     lms \<leftarrow> those (map (\<lambda>lid. foldM (\<lambda>j lm. do { x \<leftarrow> rd logits (row * vocab + j); Some (fmax lm (ld x * inv_temp)) })
       (strided lid kRowThreads vocab) ninf) [0..<kRowThreads]);
     let m = max_group M lms;
     lzs \<leftarrow> those (map (\<lambda>lid. foldM (\<lambda>j lz. do { e \<leftarrow> w m j; Some (lz + e) }) (strided lid kRowThreads vocab) 0) [0..<kRowThreads]);
     let Z = sum_group M lzs;
     let chunk = (vocab + kRowThreads - 1) div kRowThreads;
     let lo = (\<lambda>lid. lid * chunk);
     let hi = (\<lambda>lid. min (lo lid + chunk) vocab);
     parts \<leftarrow> those (map (\<lambda>lid. foldM (\<lambda>j p. do { e \<leftarrow> w m j; Some (p + e) }) [lo lid..<hi lid] 0) [0..<kRowThreads]);
     let prefixes = scan_group M parts;
     let target = uni row * Z;
     sres \<leftarrow> foldM (\<lambda>lid sres. do {
       mypart \<leftarrow> rd parts lid;
       myprefix \<leftarrow> rd prefixes lid;
       if 0 < mypart \<and> myprefix \<le> target \<and> target < myprefix + mypart then do {
         r \<leftarrow> cdf_find (w m) target myprefix [lo lid..<hi lid] (hi lid - 1);
         Some (int r) }
       else Some sres }) lanes (int vocab - 1);
     wr out row sres }"

definition sample_categorical_sycl :: "f32 gmath \<Rightarrow> 32 word list \<Rightarrow> nat \<Rightarrow> f32 \<Rightarrow> 32 word \<Rightarrow> DType \<Rightarrow> nat list \<Rightarrow> nat list \<Rightarrow>
    int list \<Rightarrow> int list option" where
  "sample_categorical_sycl M logits vocab temperature seed dt lanes sched out =
     foldM (cat_item M (elem_ld dt) (F32 0xff800000) logits vocab (F32 0x3f800000 / temperature)
       (\<lambda>row. uniform01 seed (word_of_nat row)) lanes) sched out"

section \<open>Top-k sampling\<close>

definition sample_kMaxK :: nat where "sample_kMaxK = 64"

definition topk_item :: "'v::{plus,minus,times,zero,ord} gmath \<Rightarrow> ('t \<Rightarrow> 'v) \<Rightarrow> 'v \<Rightarrow> 't list \<Rightarrow> nat \<Rightarrow> nat \<Rightarrow> 'v \<Rightarrow> (nat \<Rightarrow> 'v) \<Rightarrow>
    nat \<Rightarrow> int list \<Rightarrow> int list option" where
  "topk_item M ld ninf logits vocab k inv_temp uni t out = do {
     (sel, val) \<leftarrow> topk_select sample_kMaxK ld ninf logits vocab k t;
     let m = fold (\<lambda>v m. fmax m v) (tl val) (hd val);
     let e = (\<lambda>i. exp_fn M (val ! i * inv_temp - m));
     let Z = fold (\<lambda>i Z. Z + e i) [0..<k] 0;
     let target = uni t * Z;
     i \<leftarrow> cdf_find (\<lambda>i. Some (e i)) target 0 [0..<k] (k - 1);
     chosen \<leftarrow> rd sel i;
     wr out t (int chosen) }"

definition top_k_sample_sycl :: "f32 gmath \<Rightarrow> 32 word list \<Rightarrow> nat \<Rightarrow> nat \<Rightarrow> f32 \<Rightarrow> 32 word \<Rightarrow> DType \<Rightarrow> nat list \<Rightarrow>
    int list \<Rightarrow> int list option" where
  "top_k_sample_sycl M logits vocab k temperature seed dt sched out =
     foldM (topk_item M (elem_ld dt) (F32 0xff800000) logits vocab k (F32 0x3f800000 / temperature)
       (\<lambda>row. uniform01 seed (word_of_nat row))) sched out"

section \<open>Inverse of the distribution function\<close>

lemma cdf_find_ok:
  fixes W :: "nat \<Rightarrow> real"
  assumes "\<And>j. lo \<le> j \<Longrightarrow> j < hi \<Longrightarrow> wt j = Some (W (Suc j) - W j)" "W lo \<le> target" "target \<le> W hi" "lo < hi"
  shows "\<exists>j. cdf_find wt target (W lo) [lo..<hi] r = Some j \<and> lo \<le> j \<and> j < hi \<and> W j \<le> target \<and> target \<le> W (Suc j)"
  using assms
proof (induction "hi - lo" arbitrary: lo)
  case (Suc n)
  have w: "wt lo = Some (W (Suc lo) - W lo)" and u: "[lo..<hi] = lo # [Suc lo..<hi]" using Suc.prems by (auto simp: upt_conv_Cons)
  show ?case
  proof (cases "target \<le> W (Suc lo)")
    case True
    then show ?thesis using w Suc.prems unfolding u by (intro exI [of _ lo]) simp
  next
    case False
    then have "Suc lo \<noteq> hi" using Suc.prems(3) by auto
    then have "\<exists>j. cdf_find wt target (W (Suc lo)) [Suc lo..<hi] r = Some j \<and> Suc lo \<le> j \<and> j < hi \<and> W j \<le> target \<and> target \<le> W (Suc j)"
      using Suc.hyps(2) Suc.prems False by (intro Suc.hyps(1)) auto
    then show ?thesis using w False unfolding u by auto
  qed
qed simp

text \<open>Bounds \<open>B 0 = 0, ..., B n\<close> cut a range into chunks; a target below the total lies in one of them.\<close>

lemma chunk_exists:
  fixes W :: "nat \<Rightarrow> real"
  assumes "W (B 0) \<le> target" "target < W (B n)"
  shows "\<exists>l<n. W (B l) \<le> target \<and> target < W (B (Suc l))"
  using assms
proof (induction n)
  case (Suc n)
  then show ?case by (cases "target < W (B n)") (auto simp: less_Suc_eq not_less)
qed simp

text \<open>The reductions and partial sums of a row, evaluated; what is left is the selection.\<close>

definition cat_select :: "(nat \<Rightarrow> 'v::{plus,zero,ord} option) \<Rightarrow> nat \<Rightarrow> 'v \<Rightarrow> 'v list \<Rightarrow> 'v list \<Rightarrow> nat \<Rightarrow> int \<Rightarrow> int option" where
  "cat_select w vocab target parts prefixes lid sres = do {
     let c = cdiv vocab kRowThreads;
     mypart \<leftarrow> rd parts lid;
     myprefix \<leftarrow> rd prefixes lid;
     if 0 < mypart \<and> myprefix \<le> target \<and> target < myprefix + mypart then do {
       r \<leftarrow> cdf_find w target myprefix [lid * c..<min (lid * c + c) vocab] (min (lid * c + c) vocab - 1);
       Some (int r) }
     else Some sres }"

definition cat_parts :: "(nat \<Rightarrow> 'v::{plus,zero}) \<Rightarrow> nat \<Rightarrow> 'v list" where
  "cat_parts w vocab = (let c = cdiv vocab kRowThreads in
     map (\<lambda>l. fold (\<lambda>j p. p + w j) [l * c..<min (l * c + c) vocab] 0) [0..<kRowThreads])"

definition cat_target :: "'v::{plus,times,zero} gmath \<Rightarrow> (nat \<Rightarrow> 'v) \<Rightarrow> nat \<Rightarrow> 'v \<Rightarrow> 'v" where
  "cat_target M w vocab u = u * sum_group M (map (\<lambda>lid. fold (\<lambda>j z. z + w j) (strided lid kRowThreads vocab) 0) [0..<kRowThreads])"

lemma cat_item_unfold:
  assumes len: "row * vocab + vocab \<le> length logits"
  shows "\<exists>m w. w = (\<lambda>j. exp_fn M (ld (logits ! (row * vocab + j)) * inv_temp - m)) \<and>
    (\<forall>j<vocab. cat_weight M ld logits row vocab inv_temp m j = Some (w j)) \<and>
    cat_item M ld ninf logits vocab inv_temp uni lanes row out = do {
      sres \<leftarrow> foldM (cat_select (cat_weight M ld logits row vocab inv_temp m) vocab (cat_target M w vocab (uni row))
        (cat_parts w vocab) (scan_group M (cat_parts w vocab))) lanes (int vocab - 1);
      wr out row sres }"
proof -
  let ?x = "\<lambda>j. ld (logits ! (row * vocab + j)) * inv_temp"
  let ?T = kRowThreads
  let ?c = "cdiv vocab kRowThreads"
  have lms: "those (map (\<lambda>lid. foldM (\<lambda>j lm. do { x \<leftarrow> rd logits (row * vocab + j); Some (fmax lm (ld x * inv_temp)) })
       (strided lid ?T vocab) ninf) [0..<?T]) = Some (map (\<lambda>lid. fold (\<lambda>j lm. fmax lm (?x j)) (strided lid ?T vocab) ninf) [0..<?T])"
    using len by (intro those_map_Some foldM_pure') (auto dest!: strided_ge)
  define m where "m = max_group M (map (\<lambda>lid. fold (\<lambda>j lm. fmax lm (?x j)) (strided lid ?T vocab) ninf) [0..<?T])"
  define w where "w j = exp_fn M (?x j - m)" for j
  have wt: "cat_weight M ld logits row vocab inv_temp m j = Some (w j)" if "j < vocab" for j
    using that len by (simp add: cat_weight_def w_def)
  have loop: "foldM (\<lambda>j p. do { e \<leftarrow> cat_weight M ld logits row vocab inv_temp m j; Some (p + e) }) js 0 = Some (fold (\<lambda>j p. p + w j) js 0)"
    if "\<And>j. j \<in> set js \<Longrightarrow> j < vocab" for js
    by (rule foldM_pure') (simp add: wt that)
  have lzs: "those (map (\<lambda>lid. foldM (\<lambda>j lz. do { e \<leftarrow> cat_weight M ld logits row vocab inv_temp m j; Some (lz + e) })
      (strided lid ?T vocab) 0) [0..<?T]) = Some (map (\<lambda>lid. fold (\<lambda>j z. z + w j) (strided lid ?T vocab) 0) [0..<?T])"
    by (intro those_map_Some loop) (auto dest: strided_ge)
  have parts: "those (map (\<lambda>l. foldM (\<lambda>j p. do { e \<leftarrow> cat_weight M ld logits row vocab inv_temp m j; Some (p + e) })
      [l * ?c..<min (l * ?c + ?c) vocab] 0) [0..<?T]) = Some (map (\<lambda>l. fold (\<lambda>j p. p + w j) [l * ?c..<min (l * ?c + ?c) vocab] 0) [0..<?T])"
    by (intro those_map_Some loop) auto
  have "cat_item M ld ninf logits vocab inv_temp uni lanes row out = do {
      sres \<leftarrow> foldM (cat_select (cat_weight M ld logits row vocab inv_temp m) vocab (cat_target M w vocab (uni row))
        (cat_parts w vocab) (scan_group M (cat_parts w vocab))) lanes (int vocab - 1);
      wr out row sres }"
    unfolding cat_item_def Let_def lms cat_select_def cat_parts_def cat_target_def
    by (simp only: bind.bind_lunit m_def [symmetric] lzs cdiv_def [symmetric] parts)
  moreover have "w = (\<lambda>j. exp_fn M (?x j - m))" by (simp add: w_def fun_eq_iff)
  ultimately show ?thesis using wt by blast
qed

definition cat_cdf :: "('t \<Rightarrow> real) \<Rightarrow> 't list \<Rightarrow> nat \<Rightarrow> real \<Rightarrow> nat \<Rightarrow> nat \<Rightarrow> real" where
  "cat_cdf ld logits vocab inv_temp row n = (\<Sum>i<n. exp (ld (logits ! (row * vocab + i)) * inv_temp)) /
     (\<Sum>i<vocab. exp (ld (logits ! (row * vocab + i)) * inv_temp))"

lemma cat_item_exact:
  assumes len: "row * vocab + vocab \<le> length logits" "row < length out" and lanes: "schedule kRowThreads lanes"
    and vocab: "0 < vocab" and u: "0 \<le> uni row" "uni row < 1"
  shows "\<exists>j<vocab. cat_item exact_math ld ninf logits vocab inv_temp uni lanes row out = Some (out[row := int j]) \<and>
    cat_cdf ld logits vocab inv_temp row j \<le> uni row \<and> uni row \<le> cat_cdf ld logits vocab inv_temp row (Suc j)"
proof -
  let ?x = "\<lambda>j. ld (logits ! (row * vocab + j)) * inv_temp"
  let ?T = kRowThreads
  define c where "c = cdiv vocab ?T"
  define B where "B l = min (l * c) vocab" for l
  have hi: "min (l * c + c) vocab = B (Suc l)" for l by (simp add: B_def add.commute)
  obtain m w where w: "w = (\<lambda>j. exp_fn exact_math (ld (logits ! (row * vocab + j)) * inv_temp - m))"
    and wt: "\<forall>j<vocab. cat_weight exact_math ld logits row vocab inv_temp m j = Some (w j)"
    and item: "cat_item exact_math ld ninf logits vocab inv_temp uni lanes row out = do {
      sres \<leftarrow> foldM (cat_select (cat_weight exact_math ld logits row vocab inv_temp m) vocab (cat_target exact_math w vocab (uni row))
        (cat_parts w vocab) (scan_group exact_math (cat_parts w vocab))) lanes (int vocab - 1);
      wr out row sres }"
    using cat_item_unfold [OF len(1), where M = exact_math and ld = ld and inv_temp = inv_temp and ninf = ninf and uni = uni and lanes = lanes and out = out]
    by (elim exE conjE) (rule that, assumption+)
  define W where "W n = (\<Sum>j<n. w j)" for n
  have Z: "cat_target exact_math w vocab (uni row) = uni row * W vocab"
    unfolding W_def cat_target_def exact_math_simps fold_plus_sum add_0 by (subst sum_strided_lanes) simp_all
  have part: "fold (\<lambda>j p. p + w j) [l * c..<B (Suc l)] 0 = W (B (Suc l)) - W (B l)" for l
  proof (cases "l * c \<le> vocab")
    case True
    then have b: "B l = l * c" "l * c \<le> B (Suc l)" by (auto simp: B_def)
    have "W (B (Suc l)) = W (l * c) + (\<Sum>j = l * c..<B (Suc l). w j)"
      unfolding W_def lessThan_atLeast0 by (rule sum.atLeastLessThan_concat [symmetric]) (use b in auto)
    then show ?thesis by (simp add: b(1) fold_plus_sum interv_sum_list_conv_sum_set_nat)
  next
    case False
    then have "B l = vocab" "B (Suc l) = vocab" by (auto simp: B_def)
    then show ?thesis using False by simp
  qed
  let ?parts = "map (\<lambda>l. W (B (Suc l)) - W (B l)) [0..<?T]"
  have parts: "cat_parts w vocab = ?parts" unfolding cat_parts_def c_def [symmetric] Let_def hi part ..
  have W0: "W (B 0) = 0" by (simp add: W_def B_def)
  have pre: "sum_list (take l ?parts) = W (B l)" if "l < ?T" for l
  proof -
    have "take l ?parts = map (\<lambda>l. W (B (Suc l)) - W (B l)) [0..<l]" using that by (simp add: take_map)
    then have "sum_list (take l ?parts) = (\<Sum>i<l. W (B (Suc i)) - W (B i))"
      by (simp add: interv_sum_list_conv_sum_set_nat lessThan_atLeast0)
    also have "\<dots> = W (B l) - W (B 0)" by (rule sum_lessThan_telescope)
    finally show ?thesis by (simp add: W0)
  qed
  define target where "target = uni row * W vocab"
  have pos: "0 < W vocab" using vocab unfolding W_def by (intro sum_pos) (auto simp: w)
  have t: "W (B 0) \<le> target" "target < W vocab" using u pos by (simp_all add: target_def W0)
  have "vocab \<le> ?T * c" using cdiv_upper [OF kRowThreads_pos, of vocab] by (simp add: c_def mult.commute)
  then have BT: "B ?T = vocab" by (simp add: B_def)
  let ?own = "\<lambda>l. 0 < W (B (Suc l)) - W (B l) \<and> W (B l) \<le> target \<and> target < W (B l) + (W (B (Suc l)) - W (B l))"
  let ?ok = "\<lambda>s. \<exists>j<vocab. s = int j \<and> W j \<le> target \<and> target \<le> W (Suc j)"
  let ?step = "cat_select (cat_weight exact_math ld logits row vocab inv_temp m) vocab target ?parts (scan_group exact_math ?parts)"
  let ?P = "\<lambda>D s. (\<exists>l\<in>D. ?own l) \<longrightarrow> ?ok s"
  have "\<exists>s. foldM ?step lanes (int vocab - 1) = Some s \<and> ?P {..<?T} s"
  proof (rule foldM_schedule [OF lanes, where P = ?P])
    fix D l s assume l: "l < ?T" and P: "?P D s"
    show "\<exists>s'. ?step l s = Some s' \<and> ?P (insert l D) s'"
    proof (cases "?own l")
      case True
      then have "B l \<noteq> B (Suc l)" by auto
      then have lo: "l * c < B (Suc l)" "B l = l * c" by (auto simp: B_def min_def split: if_splits)
      have "\<exists>j. cdf_find (cat_weight exact_math ld logits row vocab inv_temp m) target (W (l * c)) [l * c..<B (Suc l)] (B (Suc l) - 1) = Some j \<and>
          l * c \<le> j \<and> j < B (Suc l) \<and> W j \<le> target \<and> target \<le> W (Suc j)"
        using True lo wt by (intro cdf_find_ok) (auto simp: B_def W_def)
      then obtain j where j: "cdf_find (cat_weight exact_math ld logits row vocab inv_temp m) target (W (l * c)) [l * c..<B (Suc l)] (B (Suc l) - 1) = Some j"
        "j < vocab" "W j \<le> target" "target \<le> W (Suc j)" by (auto simp: B_def)
      then have "?step l s = Some (int j)" using True l pre [OF l] lo(2) by (simp add: cat_select_def hi flip: c_def)
      then show ?thesis using j by blast
    next
      case False
      then have "?step l s = Some s" using l pre [OF l] by (auto simp: cat_select_def)
      then show ?thesis using P False by auto
    qed
  qed simp
  moreover have "\<exists>l\<in>{..<?T}. ?own l"
    using chunk_exists [of W B target ?T] t BT by force
  ultimately obtain j where j: "foldM ?step lanes (int vocab - 1) = Some (int j)" "j < vocab" "W j \<le> target" "target \<le> W (Suc j)" by blast
  have item: "cat_item exact_math ld ninf logits vocab inv_temp uni lanes row out = Some (out[row := int j])"
    using item j(1) len(2) unfolding parts Z target_def [symmetric] by simp
  have cdf: "cat_cdf ld logits vocab inv_temp row n = W n / W vocab" for n
  proof -
    have "W n = (\<Sum>i<n. exp (?x i)) / exp m" for n by (simp add: W_def w exp_diff sum_divide_distrib)
    then show ?thesis by (simp add: cat_cdf_def)
  qed
  show ?thesis using item j(2-4) pos unfolding cdf target_def
    by (intro exI [of _ j]) (simp add: pos_divide_le_eq pos_le_divide_eq)
qed

text \<open>C22: in exact arithmetic categorical sampling is the inverse of the softmax distribution function:
  for a uniform number \<open>u\<close> in \<open>[0, 1)\<close> each row gets the token \<open>j\<close> with \<open>cdf j \<le> u \<le> cdf (j + 1)\<close>, whatever
  the vocabulary size, the chunking among the 256 work-items and the order in which they and the rows run.\<close>

theorem sample_categorical_inverse_cdf:
  assumes "schedule rows sched" "schedule kRowThreads lanes" "length logits = rows * vocab" "length out = rows" "0 < vocab"
    and "\<And>r. 0 \<le> uni r \<and> uni r < 1"
  shows "\<exists>out'. foldM (cat_item exact_math ld ninf logits vocab inv_temp uni lanes) sched out = Some out' \<and> length out' = rows \<and>
    (\<forall>r<rows. \<exists>j<vocab. out' ! r = int j \<and> cat_cdf ld logits vocab inv_temp r j \<le> uni r \<and> uni r \<le> cat_cdf ld logits vocab inv_temp r (Suc j))"
proof (rule launch_choose [OF assms(1,4)])
  fix r and m :: "int list" assume r: "r < rows" "length m = rows"
  have "r * vocab + vocab \<le> length logits" "r < length m" using src_row [OF r(1), of vocab] assms(3) r by simp_all
  from cat_item_exact [OF this assms(2,5), of uni ld ninf inv_temp] assms(6) [of r]
  show "\<exists>v. cat_item exact_math ld ninf logits vocab inv_temp uni lanes r m = Some (m[r := v]) \<and>
      (\<exists>j<vocab. v = int j \<and> cat_cdf ld logits vocab inv_temp r j \<le> uni r \<and> uni r \<le> cat_cdf ld logits vocab inv_temp r (Suc j))" by blast
qed

theorem sample_categorical_inverse_cdf_witness:
  "foldM (cat_item exact_math id 0 [0, 0] 2 1 (\<lambda>_. 1 / 4) (rev [0..<kRowThreads])) [0] [7] = Some [0]"
proof -
  have o: "schedule 1 [0]" by (auto simp: schedule_def)
  have l: "length [0, 0 :: real] = 1 * 2" "length [7 :: int] = 1" "0 < (2 :: nat)" "\<And>r::nat. 0 \<le> (1 / 4 :: real) \<and> (1 / 4 :: real) < 1" by simp_all
  obtain out' where r: "foldM (cat_item exact_math id 0 [0, 0] 2 1 (\<lambda>_. 1 / 4) (rev [0..<kRowThreads])) [0] [7] = Some out'" "length out' = 1"
    and best: "\<forall>r<1. \<exists>j<2. out' ! r = int j \<and> cat_cdf id [0, 0] 2 1 r j \<le> 1 / 4 \<and> 1 / 4 \<le> cat_cdf id [0, 0] 2 1 r (Suc j)"
    using sample_categorical_inverse_cdf [OF o schedule_rev_upt l, of id 0 1] by blast
  obtain j where j: "j < 2" "out' ! 0 = int j" "cat_cdf id [0, 0] 2 1 0 j \<le> 1 / 4" using best by auto
  have "cat_cdf id [0, 0] 2 1 0 1 = 1 / 2" by (simp add: cat_cdf_def numeral_2_eq_2)
  then have "j = 0" using j(1,3) by (cases "j = 1") auto
  then show ?thesis using r j(2) by (cases out') auto
qed

section \<open>Results in range, in any arithmetic\<close>

lemma cdf_find_mem: "(\<And>j. j \<in> set js \<Longrightarrow> \<exists>x. w j = Some x) \<Longrightarrow> \<exists>j. cdf_find w target c js r = Some j \<and> (j \<in> set js \<or> j = r)"
proof (induction js arbitrary: c)
  case (Cons a js)
  then obtain x where "w a = Some x" by auto
  then show ?case using Cons.IH [of "c + x"] Cons.prems by (cases "target \<le> c + x") auto
qed simp

lemma cat_item_range:
  fixes M :: "'v::{plus,minus,times,zero,ord} gmath"
  assumes len: "row * vocab + vocab \<le> length logits" "row < length out" and lanes: "schedule kRowThreads lanes"
    and vocab: "0 < vocab" and scan: "\<And>xs. length (scan_group M xs) = length xs" and irr: "\<not> (0 :: 'v) < 0"
  shows "\<exists>i. cat_item M ld ninf logits vocab inv_temp uni lanes row out = Some (out[row := i]) \<and> 0 \<le> i \<and> i < int vocab"
proof -
  let ?c = "cdiv vocab kRowThreads"
  obtain m w where w: "w = (\<lambda>j. exp_fn M (ld (logits ! (row * vocab + j)) * inv_temp - m))"
    and wt: "\<forall>j<vocab. cat_weight M ld logits row vocab inv_temp m j = Some (w j)"
    and item: "cat_item M ld ninf logits vocab inv_temp uni lanes row out = do {
      sres \<leftarrow> foldM (cat_select (cat_weight M ld logits row vocab inv_temp m) vocab (cat_target M w vocab (uni row))
        (cat_parts w vocab) (scan_group M (cat_parts w vocab))) lanes (int vocab - 1);
      wr out row sres }"
    using cat_item_unfold [OF len(1), where M = M and ld = ld and inv_temp = inv_temp and ninf = ninf and uni = uni and lanes = lanes and out = out]
    by (elim exE conjE) (rule that, assumption+)
  let ?parts = "cat_parts w vocab"
  have parts: "length ?parts = kRowThreads" "\<And>l. l < kRowThreads \<Longrightarrow> ?parts ! l = fold (\<lambda>j p. p + w j) [l * ?c..<min (l * ?c + ?c) vocab] 0"
    by (simp_all add: cat_parts_def Let_def)
  have "\<exists>s. foldM (cat_select (cat_weight M ld logits row vocab inv_temp m) vocab target ?parts (scan_group M ?parts)) lanes (int vocab - 1) = Some s \<and>
      (0 \<le> s \<and> s < int vocab)" (is "\<exists>s. foldM ?step _ _ = _ \<and> _") for target
  proof (rule foldM_schedule [OF lanes, where P = "\<lambda>_ s. 0 \<le> s \<and> s < int vocab"])
    fix D l s assume l: "l < kRowThreads" and P: "0 \<le> s \<and> s < int vocab"
    show "\<exists>s'. ?step l s = Some s' \<and> 0 \<le> s' \<and> s' < int vocab"
    proof (cases "0 < ?parts ! l \<and> scan_group M ?parts ! l \<le> target \<and> target < scan_group M ?parts ! l + ?parts ! l")
      case True
      let ?hi = "min (l * ?c + ?c) vocab"
      have "l * ?c < ?hi" using True l irr parts(2) [OF l] by (cases "l * ?c < ?hi") auto
      moreover obtain j where j: "cdf_find (cat_weight M ld logits row vocab inv_temp m) target (scan_group M ?parts ! l) [l * ?c..<?hi] (?hi - 1) = Some j"
        "j \<in> set [l * ?c..<?hi] \<or> j = ?hi - 1"
        using cdf_find_mem [of "[l * ?c..<?hi]" "cat_weight M ld logits row vocab inv_temp m" target "scan_group M ?parts ! l" "?hi - 1"] wt by auto
      ultimately have "j < vocab" using vocab by auto
      moreover have "?step l s = Some (int j)" using True l j(1) scan parts(1) by (simp add: cat_select_def Let_def)
      ultimately show ?thesis by simp
    next
      case False
      then have "?step l s = Some s" using l scan parts(1) by (auto simp: cat_select_def Let_def)
      then show ?thesis using P by simp
    qed
  qed (use vocab in simp)
  from this [of "cat_target M w vocab (uni row)"]
  obtain s where s: "foldM (cat_select (cat_weight M ld logits row vocab inv_temp m) vocab (cat_target M w vocab (uni row)) ?parts (scan_group M ?parts)) lanes (int vocab - 1) = Some s"
    "0 \<le> s" "s < int vocab" by blast
  have "cat_item M ld ninf logits vocab inv_temp uni lanes row out = Some (out[row := s])" unfolding item s(1) using len(2) by simp
  then show ?thesis using s(2,3) by blast
qed

text \<open>Whatever the logits (NaN included), the temperature, the math functions and the rounding of the
  reductions and of the scan, and even when several work-items claim a row, categorical sampling stays
  inside its buffers and writes a token index below the vocabulary size for every row.\<close>

theorem sample_categorical_in_range:
  assumes "schedule rows sched" "schedule kRowThreads lanes" "length logits = rows * vocab" "length out = rows" "0 < vocab"
    and "\<And>xs. length (scan_group M xs) = length xs"
  shows "\<exists>out'. sample_categorical_sycl M logits vocab temperature seed dt lanes sched out = Some out' \<and> length out' = rows \<and>
    (\<forall>r<rows. 0 \<le> out' ! r \<and> out' ! r < int vocab)"
  unfolding sample_categorical_sycl_def
proof (rule launch_choose [OF assms(1,4)])
  fix r and m :: "int list" assume r: "r < rows" "length m = rows"
  have "r * vocab + vocab \<le> length logits" "r < length m" using src_row [OF r(1), of vocab] assms(3) r by simp_all
  from cat_item_range [OF this assms(2,5,6), of "elem_ld dt" "F32 0xff800000" "F32 0x3f800000 / temperature" "\<lambda>row. uniform01 seed (word_of_nat row)"]
  show "\<exists>v. cat_item M (elem_ld dt) (F32 0xff800000) logits vocab (F32 0x3f800000 / temperature) (\<lambda>row. uniform01 seed (word_of_nat row)) lanes r m =
      Some (m[r := v]) \<and> 0 \<le> v \<and> v < int vocab" unfolding less_f32_def by blast
qed

section \<open>Top-k sampling picks one of the k best\<close>

text \<open>For \<open>1 \<le> k \<le> 64\<close> at most the vocabulary size and logits that are numbers above minus infinity,
  top-k sampling writes for every row one of its \<open>k\<close> largest logits (ordered, lower index first on
  ties), whatever the temperature and the exponential of the device.\<close>

theorem top_k_sample_one_of_best:
  assumes "schedule rows sched" "length logits = rows * vocab" "length out = rows" "0 < k" "k \<le> vocab" "k \<le> sample_kMaxK"
    and "\<And>t e. t < rows \<Longrightarrow> e < vocab \<Longrightarrow> \<not> f32_nan (route_row (elem_ld dt) logits vocab t e) \<and>
      F32 0xff800000 < route_row (elem_ld dt) logits vocab t e"
  shows "\<exists>out'. top_k_sample_sycl M logits vocab k temperature seed dt sched out = Some out' \<and> length out' = rows \<and>
    (\<forall>t<rows. \<exists>sel i. length sel = k \<and> routed f32_key (route_row (elem_ld dt) logits vocab t) vocab sel \<and> i < k \<and> out' ! t = int (sel ! i))"
  unfolding top_k_sample_sycl_def
proof (rule launch_choose [OF assms(1,3)])
  fix t and m :: "int list" assume t: "t < rows" "length m = rows"
  let ?f = "route_row (elem_ld dt) logits vocab t" and ?uni = "\<lambda>row. uniform01 seed (word_of_nat row)"
  have f: "t * vocab + e < length logits \<and> ?f e = elem_ld dt (logits ! (t * vocab + e))" if "e < vocab" for e
    using div_mult_add_lt [OF t(1) that] assms(2) by (simp add: route_row_def)
  have good: "\<not> f32_nan (?f e) \<and> f32_key (F32 0xff800000) < f32_key (?f e)" if "e < vocab" for e
    using assms(7) [OF t(1) that] by (auto simp: less_f32_def)
  have nn: "\<not> f32_nan (F32 0xff800000)" by (simp add: f32_eval)
  have "\<exists>sel. topk_select sample_kMaxK (elem_ld dt) (F32 0xff800000) logits vocab k t = Some (sel, map ?f sel) \<and> length sel = k \<and>
    routed f32_key ?f vocab sel"
    unfolding routed_def by (rule f32o.topk_select_best [where f = ?f]) (use nn good f assms(5,6) in blast)+
  then obtain sel where sel: "topk_select sample_kMaxK (elem_ld dt) (F32 0xff800000) logits vocab k t = Some (sel, map ?f sel)" "length sel = k"
    "routed f32_key ?f vocab sel" by blast
  let ?e = "\<lambda>i. exp_fn M (map ?f sel ! i * (F32 0x3f800000 / temperature) - fold (\<lambda>v m. fmax m v) (tl (map ?f sel)) (hd (map ?f sel)))"
  have "\<exists>j. cdf_find (\<lambda>i. Some (e i)) tg c [0..<k] (k - 1) = Some j \<and> j < k" for e :: "nat \<Rightarrow> f32" and tg c
    using cdf_find_mem [of "[0..<k]" "\<lambda>i. Some (e i)" tg c "k - 1"] assms(4) by auto
  from this [of ?e "?uni t * fold (\<lambda>i Z. Z + ?e i) [0..<k] 0" 0]
  obtain j where j: "cdf_find (\<lambda>i. Some (?e i)) (?uni t * fold (\<lambda>i Z. Z + ?e i) [0..<k] 0) 0 [0..<k] (k - 1) = Some j" "j < k" by blast
  have "topk_item M (elem_ld dt) (F32 0xff800000) logits vocab k (F32 0x3f800000 / temperature) ?uni t m = Some (m[t := int (sel ! j)])"
    unfolding topk_item_def Let_def sel(1) using t sel(2) j(2)
    by (simp only: bind.bind_lunit prod.case j(1) rd_Some wr_Some)
  then show "\<exists>v. topk_item M (elem_ld dt) (F32 0xff800000) logits vocab k (F32 0x3f800000 / temperature) ?uni t m = Some (m[t := v]) \<and>
      (\<exists>sel i. length sel = k \<and> routed f32_key ?f vocab sel \<and> i < k \<and> v = int (sel ! i))"
    using sel(2,3) j(2) by blast
qed

end
