(* ===== verification/Pointwise.thy ===== *)
theory Pointwise
  imports RowQuant Sampling
begin

text \<open>
  Pointwise kernels: the vectorized maps of \<open>vec_map.hpp\<close>, GELU and its derivative, SiLU, the gated linear units, dropout and the
  AdamW step.  The device functions beyond those of \<open>qmath\<close> are further parameters; over the reals they are the
  mathematical ones, \<open>erf\<close> by its power series.
\<close>

section \<open>Device functions\<close>

record 'f pmath = "'f qmath" +
  erf_fn :: "'f \<Rightarrow> 'f"
  tanh_fn :: "'f \<Rightarrow> 'f"
  sin_fn :: "'f \<Rightarrow> 'f"
  cos_fn :: "'f \<Rightarrow> 'f"
  sqrt_fn :: "'f \<Rightarrow> 'f"
  log_fn :: "'f \<Rightarrow> 'f"

definition erf_coeff :: "nat \<Rightarrow> real" where
  "erf_coeff n = (if even n then 0 else 2 / sqrt pi * ((- 1) ^ (n div 2) / (fact (n div 2) * real n)))"

definition erf_real :: "real \<Rightarrow> real" where
  "erf_real x = (\<Sum>n. erf_coeff n * x ^ n)"

definition exact_pmath :: "real pmath" where
  "exact_pmath = qmath.extend exact_qmath \<lparr>erf_fn = erf_real, tanh_fn = tanh, sin_fn = sin, cos_fn = cos, sqrt_fn = sqrt, log_fn = ln\<rparr>"

section \<open>Vectorized maps\<close>

text \<open>A work-item reads a vector of \<open>V\<close> elements, computes and writes it; one more item takes the remainder.\<close>

definition vec_item :: "nat \<Rightarrow> nat \<Rightarrow> (nat \<Rightarrow> 't option) \<Rightarrow> nat \<Rightarrow> 't list \<Rightarrow> 't list option" where
  "vec_item V n f vi out =
     (if vi < n div V then do {
        ys \<leftarrow> those (map (\<lambda>k. f (vi * V + k)) [0..<V]);
        foldM (\<lambda>k out. do { y \<leftarrow> rd ys k; wr out (vi * V + k) y }) [0..<V] out }
      else foldM (\<lambda>i out. do { y \<leftarrow> f i; wr out i y }) [n div V * V..<n] out)"

definition vec_items :: "nat \<Rightarrow> nat \<Rightarrow> nat" where
  "vec_items V n = n div V + (if n div V * V < n then 1 else 0)"

definition vec_launch :: "nat \<Rightarrow> nat \<Rightarrow> (nat \<Rightarrow> 't option) \<Rightarrow> nat list \<Rightarrow> 't list \<Rightarrow> 't list option" where
  "vec_launch V n f sched out = foldM (vec_item V n f) sched out"

definition vec_unary :: "('t \<Rightarrow> 'f) \<Rightarrow> ('f \<Rightarrow> 't) \<Rightarrow> nat \<Rightarrow> ('f \<Rightarrow> 'f) \<Rightarrow> 't list \<Rightarrow> nat \<Rightarrow> nat list \<Rightarrow> 't list \<Rightarrow> 't list option" where
  "vec_unary ld st V f a n = vec_launch V n (\<lambda>i. do { x \<leftarrow> rd a i; Some (st (f (ld x))) })"

definition vec_binary :: "('t \<Rightarrow> 'f) \<Rightarrow> ('f \<Rightarrow> 't) \<Rightarrow> nat \<Rightarrow> ('f \<Rightarrow> 'f \<Rightarrow> 'f) \<Rightarrow> 't list \<Rightarrow> 't list \<Rightarrow> nat \<Rightarrow> nat list \<Rightarrow> 't list \<Rightarrow> 't list option" where
  "vec_binary ld st V f a b n = vec_launch V n (\<lambda>i. do { x \<leftarrow> rd a i; y \<leftarrow> rd b i; Some (st (f (ld x) (ld y))) })"

definition sigmoidf :: "('f::{plus,inverse,uminus,one}, 'z) pmath_scheme \<Rightarrow> 'f \<Rightarrow> 'f" where
  "sigmoidf M x = 1 / (1 + exp_fn M (- x))"

definition siluf :: "('f::{plus,times,inverse,uminus,one}, 'z) pmath_scheme \<Rightarrow> 'f \<Rightarrow> 'f" where
  "siluf M x = x * sigmoidf M x"

definition geluf :: "('f::{plus,times,inverse,one}, 'z) pmath_scheme \<Rightarrow> 'f \<Rightarrow> 'f \<Rightarrow> 'f" where
  "geluf M kInvSqrt2 x = (of_num M 1 / of_num M 2) * x * (1 + erf_fn M (x * kInvSqrt2))"

definition reluf :: "'f::{zero,ord} \<Rightarrow> 'f" where
  "reluf x = (if 0 < x then x else 0)"

section \<open>GELU, SiLU and the derivative of GELU\<close>

text \<open>The literals are arguments: \<open>kS\<close> for the root of 2 over pi, \<open>kC\<close> for 0.044715, \<open>kI\<close> for the inverse root of 2 and \<open>kP\<close> for the inverse root of 2 pi.\<close>

definition gelu_scalar :: "('f::{plus,times,inverse,one}, 'z) pmath_scheme \<Rightarrow> 'f \<Rightarrow> 'f \<Rightarrow> 'f \<Rightarrow> bool \<Rightarrow> 'f \<Rightarrow> 'f" where
  "gelu_scalar M kS kC kI tanh_approx x =
     (if tanh_approx then let inner = kS * (x + kC * x * x * x) in (of_num M 1 / of_num M 2) * x * (1 + tanh_fn M inner)
      else (of_num M 1 / of_num M 2) * x * (1 + erf_fn M (x * kI)))"

definition gelu_typed :: "('f::{plus,times,inverse,one}, 'z) pmath_scheme \<Rightarrow> 'f \<Rightarrow> 'f \<Rightarrow> 'f \<Rightarrow> ('t \<Rightarrow> 'f) \<Rightarrow> ('f \<Rightarrow> 't) \<Rightarrow> nat \<Rightarrow> bool \<Rightarrow> 't list \<Rightarrow> nat \<Rightarrow> nat list \<Rightarrow> 't list \<Rightarrow> 't list option" where
  "gelu_typed M kS kC kI ld st V tanh_approx inp n = vec_launch V n (\<lambda>i. do { v \<leftarrow> rd inp i; Some (st (gelu_scalar M kS kC kI tanh_approx (ld v))) })"

definition gelu_sycl :: "f32 pmath \<Rightarrow> DType \<Rightarrow> bool \<Rightarrow> 32 word list \<Rightarrow> nat \<Rightarrow> nat list \<Rightarrow> 32 word list \<Rightarrow> 32 word list option" where
  "gelu_sycl M dt = gelu_typed M (F32 0x3f4c422a) (F32 0x3d372713) (F32 0x3f3504f3) (elem_ld dt) (elem_st dt) (vec_width dt)"

definition silu :: "('f::{plus,times,inverse,uminus,one}, 'z) pmath_scheme \<Rightarrow> ('t \<Rightarrow> 'f) \<Rightarrow> ('f \<Rightarrow> 't) \<Rightarrow> nat \<Rightarrow> 't list \<Rightarrow> nat \<Rightarrow> nat list \<Rightarrow> 't list \<Rightarrow> 't list option" where
  "silu M ld st V = vec_unary ld st V (siluf M)"

definition silu_sycl :: "f32 pmath \<Rightarrow> DType \<Rightarrow> 32 word list \<Rightarrow> nat \<Rightarrow> nat list \<Rightarrow> 32 word list \<Rightarrow> 32 word list option" where
  "silu_sycl M dt = silu M (elem_ld dt) (elem_st dt) (vec_width dt)"

definition gelu_grad :: "('f::{plus,minus,times,inverse,uminus,one}, 'z) pmath_scheme \<Rightarrow> 'f \<Rightarrow> 'f \<Rightarrow> 'f \<Rightarrow> 'f \<Rightarrow> bool \<Rightarrow> 'f \<Rightarrow> 'f" where
  "gelu_grad M kS kC kI kP tanh_approx x =
     (let half = of_num M 1 / of_num M 2 in
      if tanh_approx then
        let u = kS * (x + kC * x * x * x);
            t = tanh_fn M u;
            du = kS * (1 + of_num M 3 * kC * x * x)
        in half * (1 + t) + half * x * (1 - t * t) * du
      else
        let cdf = half * (1 + erf_fn M (x * kI));
            pdf = kP * exp_fn M (- half * x * x)
        in cdf + x * pdf)"

definition gelu_backward :: "('f::{plus,minus,times,inverse,uminus,one}, 'z) pmath_scheme \<Rightarrow> 'f \<Rightarrow> 'f \<Rightarrow> 'f \<Rightarrow> 'f \<Rightarrow> ('t \<Rightarrow> 'f) \<Rightarrow> ('f \<Rightarrow> 't) \<Rightarrow> nat \<Rightarrow> bool \<Rightarrow>
    't list \<Rightarrow> 't list \<Rightarrow> nat \<Rightarrow> nat list \<Rightarrow> 't list \<Rightarrow> 't list option" where
  "gelu_backward M kS kC kI kP ld st V tanh_approx = vec_binary ld st V (\<lambda>g xv. g * gelu_grad M kS kC kI kP tanh_approx xv)"

definition gelu_backward_sycl :: "f32 pmath \<Rightarrow> DType \<Rightarrow> bool \<Rightarrow> 32 word list \<Rightarrow> 32 word list \<Rightarrow> nat \<Rightarrow> nat list \<Rightarrow> 32 word list \<Rightarrow> 32 word list option" where
  "gelu_backward_sycl M dt = gelu_backward M (F32 0x3f4c422a) (F32 0x3d372713) (F32 0x3f3504f3) (F32 0x3ecc422a) (elem_ld dt) (elem_st dt) (vec_width dt)"

section \<open>Gated linear units\<close>

definition glu_act :: "('f::{plus,times,inverse,uminus,zero,one,ord}, 'z) pmath_scheme \<Rightarrow> 'f \<Rightarrow> 'f \<Rightarrow> int \<Rightarrow> 'f" where
  "glu_act M kI x mode = (if mode = 0 then siluf M x else if mode = 1 then geluf M kI x else if mode = 2 then reluf x else sigmoidf M x)"

definition glu_item :: "('f::{plus,times,inverse,uminus,zero,one,ord}, 'z) pmath_scheme \<Rightarrow> 'f \<Rightarrow> ('t \<Rightarrow> 'f) \<Rightarrow> ('f \<Rightarrow> 't) \<Rightarrow> nat \<Rightarrow> 't list \<Rightarrow> nat \<Rightarrow> int \<Rightarrow> (nat \<Rightarrow> nat list) \<Rightarrow> nat \<Rightarrow> 't list \<Rightarrow> 't list option" where
  "glu_item M kI ld st V x d mode lanes row = row_store (if d mod V = 0 then V else 1) kRowThreads d (row * d) (\<lambda>i. do {
     g \<leftarrow> rd x (row * 2 * d + i);
     v \<leftarrow> rd x (row * 2 * d + d + i);
     Some (st (glu_act M kI (ld g) mode * ld v)) }) (lanes row)"

definition glu_typed :: "('f::{plus,times,inverse,uminus,zero,one,ord}, 'z) pmath_scheme \<Rightarrow> 'f \<Rightarrow> ('t \<Rightarrow> 'f) \<Rightarrow> ('f \<Rightarrow> 't) \<Rightarrow> nat \<Rightarrow> 't list \<Rightarrow> nat \<Rightarrow> int \<Rightarrow> nat list \<Rightarrow> (nat \<Rightarrow> nat list) \<Rightarrow> 't list \<Rightarrow> 't list option" where
  "glu_typed M kI ld st V x d mode sched lanes out = foldM (glu_item M kI ld st V x d mode lanes) sched out"

definition glu_sycl :: "f32 pmath \<Rightarrow> DType \<Rightarrow> 32 word list \<Rightarrow> nat \<Rightarrow> int \<Rightarrow> nat list \<Rightarrow> (nat \<Rightarrow> nat list) \<Rightarrow> 32 word list \<Rightarrow> 32 word list option" where
  "glu_sycl M dt = glu_typed M (F32 0x3f3504f3) (elem_ld dt) (elem_st dt) (vec_width dt)"

definition gelu_tanh :: "('f::{plus,times,inverse,one}, 'z) pmath_scheme \<Rightarrow> 'f \<Rightarrow> 'f \<Rightarrow> 'f \<Rightarrow> 'f" where
  "gelu_tanh M a s x = (of_num M 1 / of_num M 2) * x * (1 + tanh_fn M (s * x * (1 + a * x * x)))"

definition glu_gelu_f16_item :: "('f::{plus,times,inverse,one}, 'z) pmath_scheme \<Rightarrow> 'f \<Rightarrow> 'f \<Rightarrow> ('t \<Rightarrow> 'f) \<Rightarrow> ('f \<Rightarrow> 'u) \<Rightarrow> 't list \<Rightarrow> nat \<Rightarrow> nat \<Rightarrow> 'u list \<Rightarrow> 'u list option" where
  "glu_gelu_f16_item M a s ld st16 x d idx out = do {
     let row = idx div d;
     let col = idx mod d;
     g \<leftarrow> rd x (row * 2 * d + col);
     v \<leftarrow> rd x (row * 2 * d + d + col);
     wr out (row * d + col) (st16 (gelu_tanh M a s (ld g) * ld v)) }"

definition glu_gelu_f16 :: "('f::{plus,times,inverse,one}, 'z) pmath_scheme \<Rightarrow> 'f \<Rightarrow> 'f \<Rightarrow> ('t \<Rightarrow> 'f) \<Rightarrow> ('f \<Rightarrow> 'u) \<Rightarrow> 't list \<Rightarrow> nat \<Rightarrow> nat list \<Rightarrow> 'u list \<Rightarrow> 'u list option" where
  "glu_gelu_f16 M a s ld st16 x d sched out = foldM (glu_gelu_f16_item M a s ld st16 x d) sched out"

definition glu_gelu_f16_sycl :: "f32 pmath \<Rightarrow> DType \<Rightarrow> 32 word list \<Rightarrow> nat \<Rightarrow> nat list \<Rightarrow> 16 word list \<Rightarrow> 16 word list option" where
  "glu_gelu_f16_sycl M dt = glu_gelu_f16 M (F32 0x3d372713) (F32 0x3f4c422a) (elem_ld dt) f16_of_f32"

section \<open>Dropout and AdamW\<close>

definition dropout_typed :: "('t \<Rightarrow> 'f::{minus,times,inverse,zero,one,ord}) \<Rightarrow> ('f \<Rightarrow> 't) \<Rightarrow> nat \<Rightarrow> (nat \<Rightarrow> 'f) \<Rightarrow> 'f \<Rightarrow> 't list \<Rightarrow> nat \<Rightarrow> nat list \<Rightarrow> 't list \<Rightarrow> 't list option" where
  "dropout_typed ld st V uniform p inp n = (let scale = 1 / (1 - p) in vec_launch V n (\<lambda>i. do {
     c \<leftarrow> rd inp i;
     let u = uniform i;
     Some (if u < p then st 0 else st (ld c * scale)) }))"

definition dropout_sycl :: "DType \<Rightarrow> f32 \<Rightarrow> 32 word \<Rightarrow> 32 word list \<Rightarrow> nat \<Rightarrow> nat list \<Rightarrow> 32 word list \<Rightarrow> 32 word list option" where
  "dropout_sycl dt p seed = dropout_typed (elem_ld dt) (elem_st dt) (vec_width dt) (\<lambda>i. uniform01 seed (word_of_nat i)) p"

definition adamw_item :: "('f::{plus,minus,times,inverse,one}, 'z) pmath_scheme \<Rightarrow> ('t \<Rightarrow> 'f) \<Rightarrow> ('f \<Rightarrow> 't) \<Rightarrow> 't list \<Rightarrow> 'f \<Rightarrow> 'f \<Rightarrow> 'f \<Rightarrow> 'f \<Rightarrow> 'f \<Rightarrow> 'f \<Rightarrow> 'f \<Rightarrow> nat \<Rightarrow>
    't list \<times> 't list \<times> 't list \<Rightarrow> ('t list \<times> 't list \<times> 't list) option" where
  "adamw_item M ld st g lr b1 b2 eps wd bc1 bc2 i = (\<lambda>(p, m, v). do {
     gv \<leftarrow> rd g i;
     let grad = ld gv;
     mv \<leftarrow> rd m i;
     let mi = b1 * ld mv + (1 - b1) * grad;
     vv \<leftarrow> rd v i;
     let vi = b2 * ld vv + (1 - b2) * grad * grad;
     let mhat = mi / bc1;
     let vhat = vi / bc2;
     pv \<leftarrow> rd p i;
     let pi' = ld pv;
     let pi'' = pi' - lr * (mhat / (sqrt_fn M vhat + eps) + wd * pi');
     m \<leftarrow> wr m i (st mi);
     v \<leftarrow> wr v i (st vi);
     p \<leftarrow> wr p i (st pi'');
     Some (p, m, v) })"

definition adamw :: "('f::{plus,minus,times,inverse,one}, 'z) pmath_scheme \<Rightarrow> ('t \<Rightarrow> 'f) \<Rightarrow> ('f \<Rightarrow> 't) \<Rightarrow> 't list \<Rightarrow> 'f \<Rightarrow> 'f \<Rightarrow> 'f \<Rightarrow> 'f \<Rightarrow> 'f \<Rightarrow> 'f \<Rightarrow> 'f \<Rightarrow> nat list \<Rightarrow>
    't list \<times> 't list \<times> 't list \<Rightarrow> ('t list \<times> 't list \<times> 't list) option" where
  "adamw M ld st g lr b1 b2 eps wd bc1 bc2 sched s = foldM (adamw_item M ld st g lr b1 b2 eps wd bc1 bc2) sched s"

definition adamw_sycl :: "f32 pmath \<Rightarrow> DType \<Rightarrow> 32 word list \<Rightarrow> f32 \<Rightarrow> f32 \<Rightarrow> f32 \<Rightarrow> f32 \<Rightarrow> f32 \<Rightarrow> f32 \<Rightarrow> f32 \<Rightarrow> nat list \<Rightarrow>
    32 word list \<times> 32 word list \<times> 32 word list \<Rightarrow> (32 word list \<times> 32 word list \<times> 32 word list) option" where
  "adamw_sycl M dt = adamw M (elem_ld dt) (elem_st dt)"

section \<open>The error function\<close>

lemma erf_summable: "summable (\<lambda>n. erf_coeff n * y ^ n)"
proof -
  let ?g = "\<lambda>k. 2 / sqrt pi * ((- 1) ^ k / (fact k * real (2 * k + 1))) * y ^ (2 * k + 1)"
  let ?h = "\<lambda>k. 2 / sqrt pi * \<bar>y\<bar> * (inverse (fact k) * (y ^ 2) ^ k)"
  have "summable ?h" by (intro summable_mult summable_exp)
  moreover have "norm (?g k) \<le> ?h k" for k
  proof -
    have "norm (?g k) = 2 / sqrt pi * (\<bar>y\<bar> * (y ^ 2) ^ k) / (fact k * real (2 * k + 1))"
      using power_even_abs [of "k * 2" y] by (simp add: abs_mult power_abs power_mult [symmetric] mult.commute)
    also have "\<dots> \<le> 2 / sqrt pi * (\<bar>y\<bar> * (y ^ 2) ^ k) / fact k"
      by (intro divide_left_mono mult_nonneg_nonneg) (auto intro!: mult_pos_pos)
    finally show ?thesis by (simp add: field_simps)
  qed
  ultimately have "summable ?g" by (rule summable_comparison_test')
  then have "?g sums suminf ?g" by (rule summable_sums)
  from sums_if' [OF this] have "(\<lambda>n. if even n then 0 else ?g ((n - 1) div 2)) sums suminf ?g" .
  moreover have "(\<lambda>n. if even n then 0 else ?g ((n - 1) div 2)) = (\<lambda>n. erf_coeff n * y ^ n)"
    by (rule ext) (auto simp: erf_coeff_def elim!: oddE)
  ultimately show ?thesis by (simp add: sums_iff)
qed

lemma erf_derivative: "(erf_real has_real_derivative 2 / sqrt pi * exp (- (x ^ 2))) (at x)"
proof -
  have "((\<lambda>x. \<Sum>n. erf_coeff n * x ^ n) has_real_derivative (\<Sum>n. diffs erf_coeff n * x ^ n)) (at x)"
    by (rule termdiffs_strong_converges_everywhere) (rule erf_summable)
  moreover have "(\<lambda>n. diffs erf_coeff n * x ^ n) sums (2 / sqrt pi * exp (- (x ^ 2)))"
  proof -
    have "(\<lambda>k. inverse (fact k) * (- (x ^ 2)) ^ k) sums exp (- (x ^ 2))"
      using exp_converges [of "- (x ^ 2)"] by simp
    then have "(\<lambda>k. 2 / sqrt pi * (inverse (fact k) * (- (x ^ 2)) ^ k)) sums (2 / sqrt pi * exp (- (x ^ 2)))" by (rule sums_mult)
    from sums_if [OF sums_zero this] have "(\<lambda>n. if even n then 2 / sqrt pi * (inverse (fact (n div 2)) * (- (x ^ 2)) ^ (n div 2)) else 0) sums (2 / sqrt pi * exp (- (x ^ 2)))" by simp
    moreover have "(\<lambda>n. if even n then 2 / sqrt pi * (inverse (fact (n div 2)) * (- (x ^ 2)) ^ (n div 2)) else 0) = (\<lambda>n. diffs erf_coeff n * x ^ n)"
    proof
      fix n
      show "(if even n then 2 / sqrt pi * (inverse (fact (n div 2)) * (- (x ^ 2)) ^ (n div 2)) else 0) = diffs erf_coeff n * x ^ n"
      proof (cases "even n")
        case True
        then obtain k where n: "n = 2 * k" by blast
        have p: "(- (x ^ 2)) ^ k = (- 1) ^ k * x ^ (2 * k)" by (simp add: power_minus [of "x ^ 2"] power_mult)
        have "real (Suc (2 * k)) * (2 / sqrt pi * ((- 1) ^ k / (fact k * real (Suc (2 * k))))) = 2 / sqrt pi * ((- 1) ^ k / fact k)"
          by (simp del: of_nat_Suc)
        then have "diffs erf_coeff n = 2 / sqrt pi * ((- 1) ^ k / fact k)" by (simp add: n diffs_def erf_coeff_def del: of_nat_Suc)
        then show ?thesis using p by (simp add: n divide_inverse)
      qed (simp add: diffs_def erf_coeff_def)
    qed
    ultimately show ?thesis by simp
  qed
  ultimately show ?thesis by (simp add: erf_real_def [abs_def] sums_iff)
qed

section \<open>Exact results\<close>

lemma exact_pmath_simps [simp]:
  "sum_group exact_pmath = sum_list" "max_group exact_pmath = (\<lambda>xs. Max (set xs))" "rsqrt_fn exact_pmath x = 1 / sqrt x"
  "exp_fn exact_pmath = exp" "fma_fn exact_pmath a b c = a * b + c" "of_num exact_pmath i = real_of_int i" "exp2_fn exact_pmath x = 2 powr x" "log2_fn exact_pmath x = log 2 x"
  "erf_fn exact_pmath = erf_real" "tanh_fn exact_pmath = tanh" "sin_fn exact_pmath = sin" "cos_fn exact_pmath = cos" "sqrt_fn exact_pmath = sqrt" "log_fn exact_pmath = ln"
  by (simp_all add: exact_pmath_def exact_qmath_def exact_math_def gmath.extend_def qmath.extend_def)

text \<open>A vectorized map is the plain map, whatever the width and the order.\<close>

lemma vec_launch_exact:
  assumes V: "0 < V" and sched: "schedule (vec_items V n) sched" and f: "\<And>i. i < n \<Longrightarrow> f i = Some (u i)" and len: "length out = n"
  shows "vec_launch V n f sched out = Some (map u [0..<n])"
proof -
  let ?cells = "\<lambda>vi. if vi < n div V then {vi * V..<vi * V + V} else {n div V * V..<n}"
  have t: "n div V * V \<le> n" by simp
  have "\<exists>out'. foldM (vec_item V n f) sched out = Some out' \<and> writes (\<Union>vi<vec_items V n. ?cells vi) u out out'"
  proof (rule launch_writes [OF sched])
    fix vi and m :: "'a list" assume m: "length m = length out"
    show "\<exists>m'. vec_item V n f vi m = Some m' \<and> writes (?cells vi) u m m'"
    proof (cases "vi < n div V")
      case True
      have le: "vi * V + V \<le> n" using src_row [OF True, of V] t by linarith
      have ys: "those (map (\<lambda>k. f (vi * V + k)) [0..<V]) = Some (map (\<lambda>k. u (vi * V + k)) [0..<V])"
        by (rule those_map_Some) (use f le in simp)
      have "\<exists>m'. foldM (\<lambda>k out. do { y \<leftarrow> rd (map (\<lambda>k. u (vi * V + k)) [0..<V]) k; wr out (vi * V + k) y }) [0..<V] m = Some m' \<and> writes {vi * V..<vi * V + V} u m m'"
      proof (rule foldM_upt [where P = "\<lambda>k m'. writes {vi * V..<vi * V + k} u m m'", simplified])
        fix k m' assume k: "k < V" and w: "writes {vi * V..<vi * V + k} u m m'"
        have lt: "vi * V + k < length m'" using le k m len writes_length [OF w] by simp
        have "{vi * V..<vi * V + Suc k} = {vi * V..<vi * V + k} \<union> {vi * V + k}" by auto
        then have "writes {vi * V..<vi * V + Suc k} u m (m'[vi * V + k := u (vi * V + k)])" using writes_trans [OF w writes_single [OF lt, of u]] by simp
        then show "\<exists>s'. (do { y \<leftarrow> rd (map (\<lambda>k. u (vi * V + k)) [0..<V]) k; wr m' (vi * V + k) y }) = Some s' \<and> writes {vi * V..<Suc (vi * V + k)} u m s'"
          using k lt by simp
      qed simp_all
      then show ?thesis using True ys by (simp add: vec_item_def)
    next
      case False
      have "\<exists>m'. foldM (\<lambda>i out. do { y \<leftarrow> f i; wr out i y }) [n div V * V..<n] m = Some m' \<and> writes {n div V * V..<n} u m m'"
      proof (rule foldM_upt [where P = "\<lambda>i m'. writes {n div V * V..<i} u m m'"])
        fix i m' assume i: "n div V * V \<le> i" "i < n" and w: "writes {n div V * V..<i} u m m'"
        have lt: "i < length m'" using i m len writes_length [OF w] by simp
        have "{n div V * V..<Suc i} = {n div V * V..<i} \<union> {i}" using i by auto
        then have "writes {n div V * V..<Suc i} u m (m'[i := u i])" using writes_trans [OF w writes_single [OF lt, of u]] by simp
        then show "\<exists>s'. (do { y \<leftarrow> f i; wr m' i y }) = Some s' \<and> writes {n div V * V..<Suc i} u m s'" using f [OF i(2)] lt by simp
      qed (use t in simp_all)
      then show ?thesis using False by (simp add: vec_item_def)
    qed
  qed
  moreover have "(\<Union>vi<vec_items V n. ?cells vi) = {..<n}"
  proof (intro equalityI subsetI)
    fix a assume "a \<in> (\<Union>vi<vec_items V n. ?cells vi)"
    then obtain vi where "a \<in> ?cells vi" by blast
    then have "a < n div V * V \<or> a < n" using src_row [of vi "n div V" V] by (auto split: if_splits)
    then show "a \<in> {..<n}" using t unfolding lessThan_iff by linarith
  next
    fix a assume "a \<in> {..<n}"
    then have a: "a < n" by simp
    show "a \<in> (\<Union>vi<vec_items V n. ?cells vi)"
    proof (cases "a < n div V * V")
      case True
      have "a div V < n div V" using less_mult_imp_div_less [OF True] .
      moreover have "a div V * V \<le> a" "a < a div V * V + V" using dividend_less_div_times [OF V, of a] by (simp_all add: add.commute)
      ultimately show ?thesis by (intro UN_I [of "a div V"]) (auto simp: vec_items_def)
    next
      case False
      then show ?thesis using a by (intro UN_I [of "n div V"]) (auto simp: vec_items_def)
    qed
  qed
  ultimately show ?thesis using writes_map_upt [of n u out] len by (auto simp: vec_launch_def)
qed

text \<open>GELU and its derivative.  The tanh form is differentiated exactly for any constants, the \<open>erf\<close> form for the constants the literals stand for.\<close>

lemma gelu_grad_derivative:
  assumes "\<not> tanh_approx \<Longrightarrow> kI = 1 / sqrt 2 \<and> kP = 1 / sqrt (2 * pi)"
  shows "(gelu_scalar exact_pmath kS kC kI tanh_approx has_real_derivative gelu_grad exact_pmath kS kC kI kP tanh_approx x) (at x)"
proof (cases tanh_approx)
  case True
  have "((\<lambda>x. 1 / 2 * x * (1 + tanh (kS * (x + kC * x * x * x)))) has_real_derivative
      1 / 2 * (1 + tanh (kS * (x + kC * x * x * x))) + 1 / 2 * x * (1 - tanh (kS * (x + kC * x * x * x)) * tanh (kS * (x + kC * x * x * x))) * (kS * (1 + 3 * kC * x * x))) (at x)"
    by (rule derivative_eq_intros refl | simp add: cosh_real_nonzero)+ (simp add: algebra_simps power2_eq_square)
  then show ?thesis using True by (simp add: gelu_scalar_def [abs_def] gelu_grad_def Let_def)
next
  case False
  have e: "((\<lambda>x. erf_real (x * (1 / sqrt 2))) has_real_derivative 2 / sqrt pi * exp (- ((x * (1 / sqrt 2)) ^ 2)) * (1 / sqrt 2)) (at x)"
    by (rule DERIV_chain2 [OF erf_derivative], rule DERIV_cong [OF DERIV_cmult_right [OF DERIV_ident]]) simp
  have "((\<lambda>x. 1 / 2 * x * (1 + erf_real (x * (1 / sqrt 2)))) has_real_derivative
      1 / 2 * (1 + erf_real (x * (1 / sqrt 2))) + 1 / 2 * x * (2 / sqrt pi * exp (- ((x * (1 / sqrt 2)) ^ 2)) * (1 / sqrt 2))) (at x)"
    by (rule derivative_eq_intros refl e | simp)+
  moreover have "1 / 2 * x * (2 / sqrt pi * exp (- ((x * (1 / sqrt 2)) ^ 2)) * (1 / sqrt 2)) = x * (1 / sqrt (2 * pi) * exp (- (1 / 2) * x * x))"
  proof -
    have "1 / sqrt (2 * pi) = 1 / 2 * (2 / sqrt pi) * (1 / sqrt 2)" by (simp add: real_sqrt_mult)
    moreover have "(x * (1 / sqrt 2)) ^ 2 = 1 / 2 * x * x" by (simp add: power_mult_distrib power_divide power2_eq_square)
    ultimately show ?thesis by simp
  qed
  ultimately show ?thesis using False assms by (simp add: gelu_scalar_def [abs_def] gelu_grad_def Let_def)
qed

text \<open>C33: The backward kernel of GELU multiplies the incoming gradient with the derivative of what the forward kernel computes: in exact arithmetic, for both forms
  (the tanh form for any constants, the erf form for the constants its literals stand for), any vector width, length and order of the
  items.\<close>

theorem gelu_backward_derivative:
  assumes V: "0 < V" and lits: "\<not> tanh_approx \<Longrightarrow> kI = 1 / sqrt 2 \<and> kP = 1 / sqrt (2 * pi)"
    and sched: "schedule (vec_items V n) sched" and len: "length g = n" "length x = n" "length out = n"
  shows "\<exists>D. (\<forall>i<n. (gelu_scalar exact_pmath kS kC kI tanh_approx has_real_derivative D i) (at (ld (x ! i)))) \<and>
    gelu_typed exact_pmath kS kC kI ld st V tanh_approx x n sched out = Some (map (\<lambda>i. st (gelu_scalar exact_pmath kS kC kI tanh_approx (ld (x ! i)))) [0..<n]) \<and>
    gelu_backward exact_pmath kS kC kI kP ld st V tanh_approx g x n sched out = Some (map (\<lambda>i. st (ld (g ! i) * D i)) [0..<n])"
proof (intro exI conjI allI impI)
  show "(gelu_scalar exact_pmath kS kC kI tanh_approx has_real_derivative gelu_grad exact_pmath kS kC kI kP tanh_approx (ld (x ! i))) (at (ld (x ! i)))" for i
    by (rule gelu_grad_derivative [OF lits])
  show "gelu_typed exact_pmath kS kC kI ld st V tanh_approx x n sched out = Some (map (\<lambda>i. st (gelu_scalar exact_pmath kS kC kI tanh_approx (ld (x ! i)))) [0..<n])"
    unfolding gelu_typed_def by (rule vec_launch_exact [OF V sched _ len(3)]) (simp add: len)
  show "gelu_backward exact_pmath kS kC kI kP ld st V tanh_approx g x n sched out = Some (map (\<lambda>i. st (ld (g ! i) * gelu_grad exact_pmath kS kC kI kP tanh_approx (ld (x ! i)))) [0..<n])"
    unfolding gelu_backward_def vec_binary_def by (rule vec_launch_exact [OF V sched _ len(3)]) (simp add: len)
qed

lemma gelu_backward_derivative_witness:
  "\<exists>D. (\<forall>i<3. (gelu_scalar exact_pmath 1 0 (1 / sqrt 2) False has_real_derivative D i) (at (id ([0, 1, 2] ! i)))) \<and>
    gelu_typed exact_pmath 1 0 (1 / sqrt 2) id id 2 False [0, 1, 2] 3 [1, 0] [9, 9, 9] = Some (map (\<lambda>i. id (gelu_scalar exact_pmath 1 0 (1 / sqrt 2) False (id ([0, 1, 2] ! i)))) [0..<3]) \<and>
    gelu_backward exact_pmath 1 0 (1 / sqrt 2) (1 / sqrt (2 * pi)) id id 2 False [5, 6, 7] [0, 1, 2] 3 [1, 0] [9, 9, 9] = Some (map (\<lambda>i. id (id ([5, 6, 7] ! i) * D i)) [0..<3])"
  by (rule gelu_backward_derivative) (auto simp: vec_items_def schedule_def)

text \<open>The gated unit with the f16 output is the tanh form of GELU applied to the gate.\<close>

lemma gelu_tanh_eq: "gelu_tanh exact_pmath a s x = gelu_scalar exact_pmath s a kI True x"
  by (simp add: gelu_tanh_def gelu_scalar_def algebra_simps)

lemma glu_rows:
  fixes x out :: "'t list"
  assumes V: "0 < V" and sched: "schedule rows sched" and lanes: "\<And>r. r < rows \<Longrightarrow> schedule kRowThreads (lanes r)" and len: "length x = rows * (2 * d)" "length out = rows * d"
  shows "glu_typed M kI ld st V x d mode sched lanes out =
    Some (map (\<lambda>a. st (glu_act M kI (ld (x ! (a div d * (2 * d) + a mod d))) mode * ld (x ! (a div d * (2 * d) + d + a mod d)))) [0..<rows * d])"
proof -
  let ?u = "\<lambda>r i. st (glu_act M kI (ld (x ! (r * (2 * d) + i))) mode * ld (x ! (r * (2 * d) + d + i)))"
  show ?thesis unfolding glu_typed_def
  proof (rule rows_launch [OF sched len(2), of _ ?u])
    fix r and m :: "'t list" assume r: "r < rows" and m: "length m = rows * d"
    have "0 < (if d mod V = 0 then V else 1)" using V by simp
    moreover have "r * d + d \<le> length m" using src_row [OF r, of d] m by simp
    moreover have "(do { g \<leftarrow> rd x (r * 2 * d + i); v \<leftarrow> rd x (r * 2 * d + d + i); Some (st (glu_act M kI (ld g) mode * ld v)) }) = Some (?u r i)" if "i < d" for i
      using src_row [OF r, of "2 * d"] that len(1) by (simp add: mult.assoc)
    ultimately show "\<exists>m'. glu_item M kI ld st V x d mode lanes r m = Some m' \<and> writes (row_cells d r) (\<lambda>a. ?u r (a - r * d)) m m'"
      unfolding glu_item_def by (intro row_store_writes [OF lanes [OF r] kRowThreads_pos])
  qed
qed

text \<open>Dropout decides by the index alone, so that the element type, the vector width and the order do not change the mask.\<close>

lemma dropout_exact:
  assumes "0 < V" "schedule (vec_items V n) sched" "length inp = n" "length out = n"
  shows "dropout_typed ld st V uniform p inp n sched out =
    Some (map (\<lambda>i. if uniform i < p then st 0 else st (ld (inp ! i) * (1 / (1 - p)))) [0..<n])"
  unfolding dropout_typed_def Let_def by (rule vec_launch_exact [OF assms(1,2) _ assms(4)]) (simp add: assms(3))

end
