(* ===== verification/MoeLayer.thy ===== *)
theory MoeLayer
  imports Xmx Pointwise
begin

text \<open>
  The feed-forward layer of a mixture of experts with weights in any of the three formats: the composite product and SwiGLU that
  the dispatch layer (\<open>src/dispatch/moe.cpp\<close>) builds from two kernels, and what it computes between the permutation and the weighted reduction of theory
  \<open>Moe\<close>.
\<close>

section \<open>The composite\<close>

definition moe_grouped_qswiglu :: "('f::{plus,times,inverse,uminus,zero,one,ord}, 'z) gmath_scheme \<Rightarrow> ('f::{plus,times,inverse,uminus,zero,one,ord}, 'y) pmath_scheme \<Rightarrow>
    ('t list \<Rightarrow> 't list \<Rightarrow> 'f list \<Rightarrow> 'f list) \<Rightarrow> (16 word \<Rightarrow> 'f) \<Rightarrow> (8 word \<Rightarrow> 'f) \<Rightarrow> (8 word \<Rightarrow> 'f) \<Rightarrow> 'f \<Rightarrow> ('t \<Rightarrow> 'f) \<Rightarrow> ('f \<Rightarrow> 't) \<Rightarrow> nat \<Rightarrow> 't list \<Rightarrow> ('t, 'f) grouped_weights \<Rightarrow>
    nat list \<Rightarrow> nat \<Rightarrow> nat \<Rightarrow> nat \<Rightarrow> nat \<Rightarrow> nat list \<Rightarrow> (nat \<Rightarrow> nat \<Rightarrow> nat \<Rightarrow> nat list) \<Rightarrow> (nat \<Rightarrow> 't list \<times> 't list) \<Rightarrow> (nat \<Rightarrow> nat list) \<Rightarrow> nat list \<Rightarrow> (nat \<Rightarrow> nat list) \<Rightarrow>
    't list \<Rightarrow> 't list \<Rightarrow> ('t list \<times> 't list) option" where
  "moe_grouped_qswiglu M P mad hv e2 e8 kI ld st V A W rows I K E grp sched lanes loc seg gsched glanes scratch C = do {
     scratch \<leftarrow> grouped_qgemm M mad hv e2 e8 st A W rows (2 * I) K E grp sched lanes loc seg scratch;
     C \<leftarrow> glu_typed P kI ld st V scratch I 0 gsched glanes C;
     Some (scratch, C) }"

definition moe_grouped_qswiglu_ops :: "f32 gmath \<Rightarrow> f32 pmath \<Rightarrow> (DType \<Rightarrow> 32 word list \<Rightarrow> 32 word list \<Rightarrow> f32 list \<Rightarrow> f32 list) \<Rightarrow> DType \<Rightarrow> 32 word list \<Rightarrow> (32 word, f32) grouped_weights \<Rightarrow>
    nat list \<Rightarrow> nat \<Rightarrow> nat \<Rightarrow> nat \<Rightarrow> nat \<Rightarrow> nat list \<Rightarrow> (nat \<Rightarrow> nat \<Rightarrow> nat \<Rightarrow> nat list) \<Rightarrow> (nat \<Rightarrow> 32 word list \<times> 32 word list) \<Rightarrow> (nat \<Rightarrow> nat list) \<Rightarrow> nat list \<Rightarrow> (nat \<Rightarrow> nat list) \<Rightarrow>
    32 word list \<Rightarrow> 32 word list \<Rightarrow> (32 word list \<times> 32 word list) option" where
  "moe_grouped_qswiglu_ops M P mad dt A W rows I K E grp sched lanes loc seg gsched glanes scratch C = do {
     scratch \<leftarrow> moe_grouped_qgemm_sycl M mad dt A W rows (2 * I) K E grp sched lanes loc seg scratch;
     C \<leftarrow> glu_sycl P dt scratch I 0 gsched glanes C;
     Some (scratch, C) }"

text \<open>Both entry points of the composite are one definition at the types of the activations.\<close>

lemma moe_grouped_qswiglu_ops_eq:
  "dt \<noteq> DF32 \<Longrightarrow> moe_grouped_qswiglu_ops M P mad dt A W = moe_grouped_qswiglu M P (mad dt) f16_bits_to_f32 e2m1 fp8_e4m3 (F32 0x3f3504f3) (elem_ld dt) (elem_st dt) (vec_width dt) A W"
  by (intro ext) (simp add: moe_grouped_qswiglu_ops_def moe_grouped_qswiglu_def moe_grouped_qgemm_sycl_def glu_sycl_def)

section \<open>Exact results\<close>

text \<open>A row through one matrix of expert \<open>e\<close>, and through the whole expert.\<close>

definition expert_row :: "('t \<Rightarrow> real) \<Rightarrow> (real \<Rightarrow> 't) \<Rightarrow> ('t, real) grouped_weights \<Rightarrow> nat \<Rightarrow> nat \<Rightarrow> nat \<Rightarrow> nat \<Rightarrow> (nat \<Rightarrow> 't) \<Rightarrow> nat \<Rightarrow> 't" where
  "expert_row ld st W N K grp e x n = st ((\<Sum>k<K. ld (x k) * ld (grouped_el st W N K grp e n k)) * grouped_factor W e)"

definition swiglu_row :: "('t \<Rightarrow> real) \<Rightarrow> (real \<Rightarrow> 't) \<Rightarrow> nat \<Rightarrow> (nat \<Rightarrow> 't) \<Rightarrow> nat \<Rightarrow> 't" where
  "swiglu_row ld st I h m = st (ld (h m) / (1 + exp (- ld (h m))) * ld (h (I + m)))"

definition expert_ffn :: "('t \<Rightarrow> real) \<Rightarrow> (real \<Rightarrow> 't) \<Rightarrow> ('t, real) grouped_weights \<Rightarrow> ('t, real) grouped_weights \<Rightarrow> nat \<Rightarrow> nat \<Rightarrow> nat \<Rightarrow> nat \<Rightarrow> nat \<Rightarrow> (nat \<Rightarrow> 't) \<Rightarrow> nat \<Rightarrow> 't" where
  "expert_ffn ld st W13 W2 I K g13 g2 e x =
     expert_row ld st W2 K I g2 e (swiglu_row ld st I (expert_row ld st W13 (2 * I) K g13 e x))"

lemma grouped_out_row: "grouped_out ld st A W rows N K grp r = expert_row ld st W N K grp (row_experts rows ! r) (\<lambda>k. A ! (r * K + k))"
  by (simp add: fun_eq_iff grouped_out_def expert_row_def Let_def)

lemma expert_row_cong: "(\<And>k. k < K \<Longrightarrow> x k = y k) \<Longrightarrow> expert_row ld st W N K grp e x = expert_row ld st W N K grp e y"
  by (simp add: fun_eq_iff expert_row_def)

lemma swiglu_row_cong: "h m = h' m \<Longrightarrow> h (I + m) = h' (I + m) \<Longrightarrow> swiglu_row ld st I h m = swiglu_row ld st I h' m"
  by (simp add: swiglu_row_def)

text \<open>The composite: the scratch buffer holds the gate and up products, the output their SwiGLU, for every row with an expert.\<close>

lemma qswiglu_exact:
  fixes A scratch C :: "'t list"
  assumes mad: "dpas ld mad" and ld0: "ld (st 0) = 0" and K: "16 dvd K" and rows: "length rows = E" "sum_list rows \<le> M" "E \<le> kMaxExperts"
    and ok: "grouped_ok W E (2 * I) K grp" and V: "0 < V" and len: "length A = M * K" "length scratch = M * (2 * I)" "length C = M * I"
    and sched: "schedule ((cdiv M kTM + E) * cdiv (2 * I) kTN) sched" "schedule M gsched"
    and lanes: "\<And>g kt p. schedule kSG_xmx (lanes g kt p)" "\<And>r. schedule kRowThreads (glanes r)"
    and loc: "\<And>g. length (fst (loc g)) = kTM * kTK" "\<And>g. length (snd (loc g)) = kTK * kTN" "\<And>g. length (seg g) = kMaxExperts + 1"
  shows "\<exists>scratch' C'. moe_grouped_qswiglu exact_math exact_pmath mad half_val e2m1_val e4m3_val kI ld st V A W rows I K E grp sched lanes loc seg gsched glanes scratch C = Some (scratch', C') \<and>
    length C' = M * I \<and> (\<forall>r < sum_list rows. \<forall>m<I. C' ! (r * I + m) =
      swiglu_row ld st I (expert_row ld st W (2 * I) K grp (row_experts rows ! r) (\<lambda>k. A ! (r * K + k))) m)"
proof -
  define sc where "sc = map (\<lambda>a. if a < sum_list rows * (2 * I) then grouped_out ld st A W rows (2 * I) K grp (a div (2 * I)) (a mod (2 * I)) else scratch ! a) [0..<M * (2 * I)]"
  define out where "out = map (\<lambda>a. st (glu_act exact_pmath kI (ld (sc ! (a div I * (2 * I) + a mod I))) 0 * ld (sc ! (a div I * (2 * I) + I + a mod I)))) [0..<M * I]"
  have g: "grouped_qgemm exact_math mad half_val e2m1_val e4m3_val st A W rows (2 * I) K E grp sched lanes loc seg scratch = Some sc"
    unfolding sc_def by (rule grouped_launch [where ld = ld and st = st and mad = mad and rows = rows and lanes = lanes and loc = loc and seg = seg, OF mad ld0 K rows ok len(1,2) sched(1) lanes(1) loc])
  have "length sc = M * (2 * I)" by (simp add: sc_def)
  then have u: "glu_typed exact_pmath kI ld st V sc I 0 gsched glanes C = Some out"
    unfolding out_def by (rule glu_rows [OF V sched(2) lanes(2) _ len(3)])
  have cell: "sc ! (r * (2 * I) + n) = expert_row ld st W (2 * I) K grp (row_experts rows ! r) (\<lambda>k. A ! (r * K + k)) n"
    if "r < sum_list rows" "n < 2 * I" for r n
  proof -
    have "r * (2 * I) + n < sum_list rows * (2 * I)" using that by (rule div_mult_add_lt)
    moreover from this have "r * (2 * I) + n < M * (2 * I)" using rows(2) by (meson less_le_trans mult_le_mono1)
    moreover have "(r * (2 * I) + n) div (2 * I) = r" "(r * (2 * I) + n) mod (2 * I) = n" using that(2) by simp_all
    ultimately show ?thesis by (simp add: sc_def grouped_out_row)
  qed
  have "out ! (r * I + m) = swiglu_row ld st I (expert_row ld st W (2 * I) K grp (row_experts rows ! r) (\<lambda>k. A ! (r * K + k))) m"
    if r: "r < sum_list rows" "m < I" for r m
  proof -
    have "r * I + m < M * I" using r rows(2) by (intro div_mult_add_lt) simp_all
    moreover have "(r * I + m) div I = r" "(r * I + m) mod I = m" using r(2) by simp_all
    moreover note cell [OF r(1), of m] cell [OF r(1), of "I + m"]
    ultimately show ?thesis using r(2) by (simp add: out_def swiglu_row_def glu_act_def siluf_def sigmoidf_def add.assoc)
  qed
  then show ?thesis using g u by (auto simp: moe_grouped_qswiglu_def out_def)
qed

lemma fold_upt_plus: "fold (\<lambda>j acc. acc + v j) [0..<n] 0 = (\<Sum>j<n. v j)" for v :: "nat \<Rightarrow> real"
  by (induction n) simp_all

text \<open>The weighted reduction, for any buffer whose rows the row map points to.\<close>

lemma unpermute_exact:
  fixes P out :: "'t list" and G :: "nat \<Rightarrow> nat \<Rightarrow> real"
  assumes sched: "schedule (T * d) sched" and len: "length out = T * d" "length ids = T * top_k" "length rmap = T * top_k" "length w = T * top_k" "length P = T * top_k * d"
    and rm: "\<And>p. p < T * top_k \<Longrightarrow> if valid_id E (ids ! p) then \<exists>r<T * top_k. rmap ! p = int r \<and> (\<forall>i<d. ld (P ! (r * d + i)) = G p i) else rmap ! p = -1"
  shows "moe_unpermute_weighted_reduce ld st P rmap w top_k d sched out =
    Some (map (\<lambda>a. st (\<Sum>j<top_k. if valid_id E (ids ! (a div d * top_k + j)) then w ! (a div d * top_k + j) * G (a div d * top_k + j) (a mod d) else 0)) [0..<T * d])"
  unfolding moe_unpermute_weighted_reduce_def
proof (rule launch_store [OF sched len(1)])
  fix a and m :: "'t list" assume a: "a < T * d" "length m = T * d"
  have d: "0 < d" using a(1) by (cases d) auto
  have t: "a div d < T" using a(1) d by (simp add: div_less_iff_less_mult)
  let ?v = "\<lambda>j. if valid_id E (ids ! (a div d * top_k + j)) then w ! (a div d * top_k + j) * G (a div d * top_k + j) (a mod d) else 0"
  have "(do { r \<leftarrow> rd rmap (a div d * top_k + j);
         if r < 0 then Some acc
         else do { wv \<leftarrow> rd w (a div d * top_k + j); x \<leftarrow> rd P (nat r * d + a mod d); Some (acc + wv * ld x) } }) = Some (acc + ?v j)"
    if j: "j \<in> set [0..<top_k]" for j acc
  proof -
    have p: "a div d * top_k + j < T * top_k" using t j by (intro div_mult_add_lt) simp_all
    show ?thesis
    proof (cases "valid_id E (ids ! (a div d * top_k + j))")
      case True
      with rm [OF p] obtain r where r: "r < T * top_k" "rmap ! (a div d * top_k + j) = int r" "ld (P ! (r * d + a mod d)) = G (a div d * top_k + j) (a mod d)"
        using d by auto
      have "r * d + a mod d < T * top_k * d" using r(1) d by (intro div_mult_add_lt) simp_all
      then show ?thesis using r True p len by simp
    next
      case False
      then show ?thesis using rm [OF p] p len by simp
    qed
  qed
  then have "foldM (\<lambda>j acc. do { r \<leftarrow> rd rmap (a div d * top_k + j);
         if r < 0 then Some acc
         else do { wv \<leftarrow> rd w (a div d * top_k + j); x \<leftarrow> rd P (nat r * d + a mod d); Some (acc + wv * ld x) } }) [0..<top_k] 0 =
      Some (fold (\<lambda>j acc. acc + ?v j) [0..<top_k] 0)"
    by (rule foldM_pure')
  also have "fold (\<lambda>j acc. acc + ?v j) [0..<top_k] 0 = (\<Sum>j<top_k. ?v j)"
    by (rule fold_upt_plus)
  finally show "unpermute_item ld st P rmap w top_k d a m = wr m a (st (\<Sum>j<top_k. ?v j))"
    by (simp add: unpermute_item_def Let_def)
qed

text \<open>Where the permutation puts the rows of an expert, the product finds that expert.\<close>

lemma permuted_expert:
  assumes s: "scattered hidden ids E top_k hdim {..<length ids} s'" and rows: "rows = map (\<lambda>e. count_list ids (int e)) [0..<E]"
    and p: "p < length ids" "valid_id E (ids ! p)"
  shows "\<exists>r < sum_list rows. row_map s' ! p = int r \<and> row_experts rows ! r = nat (ids ! p) \<and>
    (\<forall>i<hdim. permuted s' ! (r * hdim + i) = hidden ! (p div top_k * hdim + i))"
proof -
  let ?e = "nat (ids ! p)"
  obtain r where r: "row_map s' ! p = int r" "seg_base ids ?e \<le> r" "r < seg_base ids ?e + card (pairs_of ids {..<length ids} ?e)"
    "\<forall>i<hdim. permuted s' ! (r * hdim + i) = hidden ! (p div top_k * hdim + i)"
    using scattered_row [OF s _ p(2)] p(1) by auto
  have e: "?e < length rows" using p(2) rows by (simp add: valid_id_def)
  have b: "rows_before rows k = seg_base ids k" if "k \<le> E" for k
    using that by (simp add: rows seg_base_counts)
  have "rows ! ?e = card (pairs_of ids {..<length ids} ?e)" using e by (simp add: rows seg_counts)
  then have i: "rows_before rows ?e \<le> r" "r < rows_before rows ?e + rows ! ?e" using r(2,3) b [of ?e] e by (simp_all add: rows)
  have "rows_before rows (Suc ?e) \<le> rows_before rows (length rows)" using e by (intro before_mono) simp
  then have "r < sum_list rows" using i(2) by (simp add: rows_before_sum)
  then show ?thesis using r(1,4) row_experts_nth [OF e i] by blast
qed

lemma counted_rows:
  assumes "rows = map (\<lambda>e. count_list ids (int e)) [0..<E]"
  shows "length rows = E" "sum_list rows \<le> length ids"
proof -
  show l: "length rows = E" using assms by simp
  have "sum_list rows = seg_base ids E" using rows_before_sum [of rows] assms l by (simp add: seg_base_counts)
  then show "sum_list rows \<le> length ids" using seg_base_le by metis
qed

text \<open>What the row map leads to after the down product: the expert applied to the token of the pair.\<close>

lemma layer_rows:
  fixes down :: "'t list" and W2 :: "('t, real) grouped_weights" and g2 :: nat
  assumes sc: "scattered hidden ids E top_k K {..<length ids} s'" and rows: "rows = map (\<lambda>e. count_list ids (int e)) [0..<E]" and p: "p < length ids"
    and act: "\<And>r m. r < sum_list rows \<Longrightarrow> m < I \<Longrightarrow> act ! (r * I + m) =
      swiglu_row ld st I (expert_row ld st W13 (2 * I) K g13 (row_experts rows ! r) (\<lambda>k. permuted s' ! (r * K + k))) m"
  defines "down' \<equiv> map (\<lambda>a. if a < sum_list rows * K then grouped_out ld st act W2 rows K I g2 (a div K) (a mod K) else down ! a) [0..<length ids * K]"
  shows "if valid_id E (ids ! p)
    then \<exists>r<length ids. row_map s' ! p = int r \<and>
      (\<forall>i<K. ld (down' ! (r * K + i)) = ld (expert_ffn ld st W13 W2 I K g13 g2 (nat (ids ! p)) (\<lambda>k. hidden ! (p div top_k * K + k)) i))
    else row_map s' ! p = -1"
proof (cases "valid_id E (ids ! p)")
  case True
  let ?h = "\<lambda>k. hidden ! (p div top_k * K + k)"
  note counted = counted_rows [OF rows]
  from permuted_expert [OF sc rows p True] obtain r where r: "r < sum_list rows" "row_map s' ! p = int r" "row_experts rows ! r = nat (ids ! p)"
    "\<And>i. i < K \<Longrightarrow> permuted s' ! (r * K + i) = ?h i" by auto
  have "down' ! (r * K + i) = expert_ffn ld st W13 W2 I K g13 g2 (nat (ids ! p)) ?h i" if i: "i < K" for i
  proof -
    have lt: "r * K + i < sum_list rows * K" using r(1) i by (rule div_mult_add_lt)
    moreover have "r * K + i < length ids * K" using lt counted(2) by (meson less_le_trans mult_le_mono1)
    moreover have "(r * K + i) div K = r" "(r * K + i) mod K = i" using i by simp_all
    ultimately have "down' ! (r * K + i) = expert_row ld st W2 K I g2 (nat (ids ! p)) (\<lambda>m. act ! (r * I + m)) i"
      by (simp add: down'_def grouped_out_row r(3))
    also have "\<dots> = expert_row ld st W2 K I g2 (nat (ids ! p)) (swiglu_row ld st I (expert_row ld st W13 (2 * I) K g13 (nat (ids ! p)) ?h)) i"
      using act [OF r(1)] r(3,4) expert_row_cong [of K "\<lambda>k. permuted s' ! (r * K + k)" ?h]
      by (intro fun_cong [OF expert_row_cong]) simp
    finally show ?thesis by (simp add: expert_ffn_def)
  qed
  then show ?thesis using True r(1,2) counted(2) by auto
next
  case False
  then have "row_map s' ! p = -1" using sc p unfolding scattered_def by (metis lessThan_iff)
  then show ?thesis using False by simp
qed

text \<open>C6: The feed-forward layer of a mixture of experts from its kernels: permute the tokens by expert, the composite of the gate and up
  products with SwiGLU, the down product, and the weighted reduction.  In exact arithmetic, for all weight formats, any number of tokens
  per expert and any order of groups, lanes and items in all launches, every token's output is the sum over its choices of the router
  weight times the expert the router named applied to that token, choices with an invalid id left out: the rows of the experts are never mixed up.\<close>

theorem moe_layer_exact:
  fixes hidden scratch act down out :: "'t list"
  assumes mad: "dpas ld mad" and ld0: "ld (st 0) = 0" and dvd: "16 dvd K" "16 dvd I" and E: "E \<le> kMaxExperts" and V: "0 < V"
    and sizes: "permute_sizes hidden ids T top_k K E s" "length w = length ids" "length scratch = length ids * (2 * I)" "length act = length ids * I"
      "length down = length ids * K" "length out = T * K"
    and ok: "grouped_ok W13 E (2 * I) K g13" "grouped_ok W2 E K I g2"
    and perm: "schedule (max (length ids) E) o1" "schedule (length ids) o2" "schedule (length ids) o4"
    and sched: "schedule ((cdiv (length ids) kTM + E) * cdiv (2 * I) kTN) sched1" "schedule (length ids) gsched"
      "schedule ((cdiv (length ids) kTM + E) * cdiv K kTN) sched2" "schedule (T * K) sched3"
    and lanes: "\<And>g kt p. schedule kSG_xmx (lanesa g kt p)" "\<And>r. schedule kRowThreads (glanes r)" "\<And>g kt p. schedule kSG_xmx (lanesb g kt p)"
    and loc: "\<And>g. length (fst (loc g)) = kTM * kTK" "\<And>g. length (snd (loc g)) = kTK * kTN" "\<And>g. length (seg g) = kMaxExperts + 1"
  shows "\<exists>s' scratch' act' down'.
    moe_permute hidden ids T top_k K E o1 o2 o4 s = Some s' \<and>
    moe_grouped_qswiglu exact_math exact_pmath mad half_val e2m1_val e4m3_val kI ld st V (permuted s') W13 (map nat (rows_per_expert s')) I K E g13
      sched1 lanesa loc seg gsched glanes scratch act = Some (scratch', act') \<and>
    grouped_qgemm exact_math mad half_val e2m1_val e4m3_val st act' W2 (map nat (rows_per_expert s')) K I E g2 sched2 lanesb loc seg down = Some down' \<and>
    moe_unpermute_weighted_reduce ld st down' (row_map s') w top_k K sched3 out =
      Some (map (\<lambda>a. st (\<Sum>j<top_k. let p = a div K * top_k + j in
        if valid_id E (ids ! p)
        then w ! p * ld (expert_ffn ld st W13 W2 I K g13 g2 (nat (ids ! p)) (\<lambda>k. hidden ! (a div K * K + k)) (a mod K)) else 0)) [0..<T * K])"
proof -
  let ?n = "length ids"
  from moe_permute_runs [OF sizes(1) perm] obtain s' where run: "moe_permute hidden ids T top_k K E o1 o2 o4 s = Some s'"
    and sc: "scattered hidden ids E top_k K {..<?n} s'" and cnt: "rows_per_expert s' = map (\<lambda>e. int (count_list ids (int e))) [0..<E]" by blast
  define rows where "rows = map nat (rows_per_expert s')"
  have rows: "rows = map (\<lambda>e. count_list ids (int e)) [0..<E]" by (simp add: rows_def cnt)
  note counted = counted_rows [OF rows]
  have n: "?n = T * top_k" using sizes(1) by (simp add: permute_sizes_def)
  have lp: "length (permuted s') = ?n * K" "length (row_map s') = T * top_k" using sc n by (simp_all add: scattered_def)
  from qswiglu_exact [where ld = ld and st = st and mad = mad and rows = rows and lanes = lanesa and loc = loc and seg = seg and glanes = glanes,
      OF mad ld0 dvd(1) counted E ok(1) V lp(1) sizes(3,4) sched(1,2) lanes(1,2) loc]
  obtain scratch' act' where act: "moe_grouped_qswiglu exact_math exact_pmath mad half_val e2m1_val e4m3_val kI ld st V (permuted s') W13 rows I K E g13
      sched1 lanesa loc seg gsched glanes scratch act = Some (scratch', act')" "length act' = ?n * I"
    and act_at: "\<And>r m. r < sum_list rows \<Longrightarrow> m < I \<Longrightarrow> act' ! (r * I + m) =
      swiglu_row ld st I (expert_row ld st W13 (2 * I) K g13 (row_experts rows ! r) (\<lambda>k. permuted s' ! (r * K + k))) m" by blast
  define down' where "down' = map (\<lambda>a. if a < sum_list rows * K then grouped_out ld st act' W2 rows K I g2 (a div K) (a mod K) else down ! a) [0..<?n * K]"
  have dn: "grouped_qgemm exact_math mad half_val e2m1_val e4m3_val st act' W2 rows K I E g2 sched2 lanesb loc seg down = Some down'"
    unfolding down'_def by (rule grouped_launch [where ld = ld and st = st and mad = mad and rows = rows and lanes = lanesb and loc = loc and seg = seg,
        OF mad ld0 dvd(2) counted E ok(2) act(2) sizes(5) sched(3) lanes(3) loc])
  let ?G = "\<lambda>p i. ld (expert_ffn ld st W13 W2 I K g13 g2 (nat (ids ! p)) (\<lambda>k. hidden ! (p div top_k * K + k)) i)"
  have "if valid_id E (ids ! p) then \<exists>r<T * top_k. row_map s' ! p = int r \<and> (\<forall>i<K. ld (down' ! (r * K + i)) = ?G p i) else row_map s' ! p = -1"
    if "p < T * top_k" for p
    using layer_rows [OF sc rows _ act_at, of p] that unfolding n down'_def by blast
  from unpermute_exact [where ld = ld and st = st and G = ?G, OF sched(4) sizes(6) n lp(2) _ _ this] sizes(2) n
  have "moe_unpermute_weighted_reduce ld st down' (row_map s') w top_k K sched3 out =
    Some (map (\<lambda>a. st (\<Sum>j<top_k. if valid_id E (ids ! (a div K * top_k + j)) then w ! (a div K * top_k + j) * ?G (a div K * top_k + j) (a mod K) else 0)) [0..<T * K])"
    by (simp add: down'_def)
  moreover have "(\<Sum>j<top_k. if valid_id E (ids ! (a div K * top_k + j)) then w ! (a div K * top_k + j) * ?G (a div K * top_k + j) (a mod K) else 0) =
    (\<Sum>j<top_k. let p = a div K * top_k + j in if valid_id E (ids ! p)
      then w ! p * ld (expert_ffn ld st W13 W2 I K g13 g2 (nat (ids ! p)) (\<lambda>k. hidden ! (a div K * K + k)) (a mod K)) else 0)" for a
    by (rule sum.cong) (simp_all add: Let_def)
  ultimately show ?thesis using run act(1) dn unfolding rows_def by (simp only:) blast
qed

lemma moe_layer_exact_witness:
  "\<exists>s' scratch' act' down'.
    moe_permute (replicate 16 1) [0, - 1] 1 2 16 1 [1, 0] [0, 1] [1, 0] \<lparr>permuted = replicate 32 7, rows_per_expert = [9], row_map = [5, 5], cursors = [3]\<rparr> = Some s' \<and>
    moe_grouped_qswiglu exact_math exact_pmath (exact_mad id) half_val e2m1_val e4m3_val 0 id id 8 (permuted s') (W16 (replicate 512 (1 / 16))) (map nat (rows_per_expert s')) 16 16 1 0
      [3, 2, 1, 0] (\<lambda>_ _ _. [0..<16]) (\<lambda>_. (replicate 128 7, replicate 256 7)) (\<lambda>_. replicate 257 9) [1, 0] (\<lambda>_. [0..<kRowThreads]) (replicate 64 4) (replicate 32 4) = Some (scratch', act') \<and>
    grouped_qgemm exact_math (exact_mad id) half_val e2m1_val e4m3_val id act' (W16 (replicate 256 1)) (map nat (rows_per_expert s')) 16 16 1 0 [1, 0] (\<lambda>_ _ _. [0..<16])
      (\<lambda>_. (replicate 128 7, replicate 256 7)) (\<lambda>_. replicate 257 9) (replicate 32 4) = Some down' \<and>
    moe_unpermute_weighted_reduce id id down' (row_map s') [2, 5] 2 16 [0..<16] (replicate 16 (3 :: real)) = Some (map (\<lambda>_. 32 / (1 + exp (- 1))) [0..<16])"
proof -
  let ?s = "\<lparr>permuted = replicate 32 (7 :: real), rows_per_expert = [9], row_map = [5, 5], cursors = [3]\<rparr>"
  let ?ffn = "expert_ffn id id (W16 (replicate 512 (1 / 16))) (W16 (replicate 256 1)) 16 16 0 0 0 (\<lambda>k. replicate 16 1 ! (0 * 16 + k)) :: nat \<Rightarrow> real"
  have k: "kMaxExperts = 256" "cdiv (Suc (Suc 0)) kTM = 1" "cdiv 32 kTN = 2" "cdiv 16 kTN = 1" "kSG_xmx = 16" "kTM * kTK = 128" "kTK * kTN = 256"
    by (simp_all add: kMaxExperts_def cdiv_def tile_sizes)
  have ok: "grouped_ok (W16 (replicate 512 (1 / 16 :: real)) :: (real, real) grouped_weights) 1 (2 * 16) 16 0" "grouped_ok (W16 (replicate 256 (1 :: real)) :: (real, real) grouped_weights) 1 16 16 0"
    by (simp_all add: grouped_ok_def)
  have up: "expert_row id id (W16 (replicate 512 (1 / 16))) (2 * 16) 16 0 0 (\<lambda>k. replicate 16 1 ! (0 * 16 + k)) n = (1 :: real)" if "n < 32" for n
  proof -
    have "(\<Sum>k<16. replicate 16 1 ! k * replicate 512 (1 / 16) ! (n * 16 + k)) = (\<Sum>k<(16 :: nat). 1 / 16 :: real)"
      using that by (intro sum.cong) simp_all
    then show ?thesis by (simp add: expert_row_def grouped_el_def grouped_factor_def)
  qed
  have ffn: "?ffn i = 16 / (1 + exp (- 1))" if i: "i < 16" for i
  proof -
    have "(\<Sum>m<16. swiglu_row id id 16 (expert_row id id (W16 (replicate 512 (1 / 16))) (2 * 16) 16 0 0 (\<lambda>k. replicate 16 1 ! (0 * 16 + k))) m * replicate 256 1 ! (i * 16 + m)) =
        (\<Sum>m<(16 :: nat). 1 / (1 + exp (- 1)) :: real)"
    proof (rule sum.cong)
      fix m :: nat assume "m \<in> {..<16}"
      then show "swiglu_row id id 16 (expert_row id id (W16 (replicate 512 (1 / 16))) (2 * 16) 16 0 0 (\<lambda>k. replicate 16 1 ! (0 * 16 + k))) m * replicate 256 1 ! (i * 16 + m) = 1 / (1 + exp (- 1))"
        using i up [of m] up [of "16 + m"] by (simp add: swiglu_row_def del: nth_replicate) simp
    qed simp
    then show ?thesis by (simp add: expert_ffn_def expert_row_def [of _ _ "W16 (replicate 256 1)"] grouped_el_def grouped_factor_def)
  qed
  have sched: "schedule (max (length [0, - 1 :: int]) 1) [1, 0]" "schedule (length [0, - 1 :: int]) [0, 1]" "schedule (length [0, - 1 :: int]) [1, 0]"
      "schedule ((cdiv (length [0, - 1 :: int]) kTM + 1) * cdiv (2 * 16) kTN) [3, 2, 1, 0]" "schedule ((cdiv (length [0, - 1 :: int]) kTM + 1) * cdiv 16 kTN) [1, 0]"
      "schedule (1 * 16) [0..<16]" "schedule kSG_xmx [0..<16]" "schedule kRowThreads [0..<kRowThreads]"
    by (auto simp: schedule_def k)
  have perm: "permute_sizes (replicate 16 1) [0, - 1] 1 2 16 1 ?s" by (simp add: permute_sizes_def)
  have "\<exists>s' scratch' act' down'.
    moe_permute (replicate 16 1) [0, - 1] 1 2 16 1 [1, 0] [0, 1] [1, 0] ?s = Some s' \<and>
    moe_grouped_qswiglu exact_math exact_pmath (exact_mad id) half_val e2m1_val e4m3_val 0 id id 8 (permuted s') (W16 (replicate 512 (1 / 16))) (map nat (rows_per_expert s')) 16 16 1 0
      [3, 2, 1, 0] (\<lambda>_ _ _. [0..<16]) (\<lambda>_. (replicate 128 7, replicate 256 7)) (\<lambda>_. replicate 257 9) [1, 0] (\<lambda>_. [0..<kRowThreads]) (replicate 64 4) (replicate 32 4) = Some (scratch', act') \<and>
    grouped_qgemm exact_math (exact_mad id) half_val e2m1_val e4m3_val id act' (W16 (replicate 256 1)) (map nat (rows_per_expert s')) 16 16 1 0 [1, 0] (\<lambda>_ _ _. [0..<16])
      (\<lambda>_. (replicate 128 7, replicate 256 7)) (\<lambda>_. replicate 257 9) (replicate 32 4) = Some down' \<and>
    moe_unpermute_weighted_reduce id id down' (row_map s') [2, 5] 2 16 [0..<16] (replicate 16 3) = Some (map (\<lambda>a. id (\<Sum>j<2. let p = a div 16 * 2 + j in
        if valid_id 1 ([0, - 1] ! p)
        then [2, 5] ! p * id (expert_ffn id id (W16 (replicate 512 (1 / 16))) (W16 (replicate 256 1)) 16 16 0 0 (nat ([0, - 1] ! p)) (\<lambda>k. replicate 16 1 ! (a div 16 * 16 + k)) (a mod 16)) else 0)) [0..<1 * 16])"
    by (rule moe_layer_exact [OF exact_mad _ _ _ _ _ perm _ _ _ _ _ ok sched(1-3,4,3,5,6,7,8,7)]) (simp_all add: k)
  moreover have "map (\<lambda>a. id (\<Sum>j<2. let p = a div 16 * 2 + j in
        if valid_id 1 ([0, - 1] ! p)
        then [2, 5] ! p * id (expert_ffn id id (W16 (replicate 512 (1 / 16))) (W16 (replicate 256 1)) 16 16 0 0 (nat ([0, - 1] ! p)) (\<lambda>k. replicate 16 1 ! (a div 16 * 16 + k)) (a mod 16)) else 0)) [0..<1 * 16] =
      map (\<lambda>_. 32 / (1 + exp (- 1) :: real)) [0..<16]"
    using ffn by (simp add: numeral_2_eq_2 valid_id_def)
  ultimately show ?thesis by (simp only:)
qed

end
