(* ===== verification/Dense.thy ===== *)
theory Dense
  imports RowQuant
begin

text \<open>
  Dense linear algebra on the vector engines: the tiled matrix product (\<open>dense_gemm.sycl.cpp\<close>), the low-rank adapters
  (\<open>lora_apply.sycl.cpp\<close>), linear attention (\<open>linear_attn.sycl.cpp\<close>) and the mixing of residual streams
  (\<open>dsv4_hc_post.sycl.cpp\<close>).  Each is compared with the sums it stands for, over the reals; the kernels themselves are generic in the arithmetic.
\<close>

section \<open>Tiled product\<close>

text \<open>The geometry is the one of the int8 product (\<open>TS\<close>, theory \<open>Quantize\<close>); the operands are converted when they are staged and the
  accumulator is a float.\<close>

definition gemm_stage :: "('t \<Rightarrow> 'f::zero) \<Rightarrow> 't list \<Rightarrow> 't list \<Rightarrow> nat \<Rightarrow> nat \<Rightarrow> nat \<Rightarrow> nat \<Rightarrow> nat \<Rightarrow> nat \<Rightarrow> nat list \<Rightarrow> 'f list \<times> 'f list \<Rightarrow> ('f list \<times> 'f list) option" where
  "gemm_stage ld A B M N K gr gc t items s = foldM (\<lambda>i (As, Bs). do {
     let lr = i div TS;
     let lc = i mod TS;
     let row = gr * TS + lr;
     let col = gc * TS + lc;
     let kA = t * TS + lc;
     let kB = t * TS + lr;
     a \<leftarrow> (if row < M \<and> kA < K then map_option ld (rd A (row * K + kA)) else Some 0);
     b \<leftarrow> (if kB < K \<and> col < N then map_option ld (rd B (kB * N + col)) else Some 0);
     As \<leftarrow> wr As (lr * TS + lc) a;
     Bs \<leftarrow> wr Bs (lr * TS + lc) b;
     Some (As, Bs) }) items s"

definition gemm_acc :: "'f::{plus,times} list \<Rightarrow> 'f list \<Rightarrow> nat \<Rightarrow> 'f \<Rightarrow> 'f option" where
  "gemm_acc As Bs i acc = foldM (\<lambda>k acc. do {
     a \<leftarrow> rd As (i div TS * TS + k);
     b \<leftarrow> rd Bs (k * TS + i mod TS);
     Some (acc + a * b) }) [0..<TS] acc"

definition gemm_group :: "('t \<Rightarrow> 'f::{plus,times,zero}) \<Rightarrow> ('f \<Rightarrow> 't) \<Rightarrow> 't list \<Rightarrow> 't list \<Rightarrow> nat \<Rightarrow> nat \<Rightarrow> nat \<Rightarrow>
    (nat \<Rightarrow> nat \<Rightarrow> nat list) \<Rightarrow> 'f list \<times> 'f list \<Rightarrow> nat \<Rightarrow> 't list \<Rightarrow> 't list option" where
  "gemm_group ld st A B M N K items local g C = do {
     let gr = g div cdiv N TS;
     let gc = g mod cdiv N TS;
     (accs, _) \<leftarrow> foldM (\<lambda>t (accs, loc). do {
       loc \<leftarrow> gemm_stage ld A B M N K gr gc t (items g t) loc;
       accs \<leftarrow> those (map (\<lambda>i. do { acc \<leftarrow> rd accs i; gemm_acc (fst loc) (snd loc) i acc }) [0..<TS * TS]);
       Some (accs, loc) }) [0..<cdiv K TS] (replicate (TS * TS) 0, local);
     foldM (\<lambda>i C. do {
       let row = gr * TS + i div TS;
       let col = gc * TS + i mod TS;
       if row < M \<and> col < N then do {
         acc \<leftarrow> rd accs i;
         wr C (row * N + col) (st acc) }
       else Some C }) (items g (cdiv K TS)) C }"

definition dense_gemm :: "('t \<Rightarrow> 'f::{plus,times,zero}) \<Rightarrow> ('f \<Rightarrow> 't) \<Rightarrow> 't list \<Rightarrow> 't list \<Rightarrow> nat \<Rightarrow> nat \<Rightarrow> nat \<Rightarrow>
    nat list \<Rightarrow> (nat \<Rightarrow> nat \<Rightarrow> nat list) \<Rightarrow> (nat \<Rightarrow> 'f list \<times> 'f list) \<Rightarrow> 't list \<Rightarrow> 't list option" where
  "dense_gemm ld st A B M N K sched items local C = foldM (\<lambda>g. gemm_group ld st A B M N K items (local g) g) sched C"

definition dense_gemm_sycl :: "DType \<Rightarrow> 32 word list \<Rightarrow> 32 word list \<Rightarrow> nat \<Rightarrow> nat \<Rightarrow> nat \<Rightarrow>
    nat list \<Rightarrow> (nat \<Rightarrow> nat \<Rightarrow> nat list) \<Rightarrow> (nat \<Rightarrow> f32 list \<times> f32 list) \<Rightarrow> 32 word list \<Rightarrow> 32 word list option" where
  "dense_gemm_sycl dt = dense_gemm (elem_ld dt) (elem_st dt)"

section \<open>Low-rank adapters\<close>

text \<open>An adapter index outside \<open>0..<n_loras\<close> means no adapter.\<close>

definition no_adapter :: "int \<Rightarrow> nat \<Rightarrow> bool" where
  "no_adapter l n_loras \<longleftrightarrow> l < 0 \<or> n_loras \<le> nat l"

definition shrink_item :: "('t \<Rightarrow> 'f::{plus,times,zero}) \<Rightarrow> 't list \<Rightarrow> 't list \<Rightarrow> int list \<Rightarrow> nat \<Rightarrow> nat \<Rightarrow> nat \<Rightarrow> 'f \<Rightarrow> nat \<Rightarrow> 'f list \<Rightarrow> 'f list option" where
  "shrink_item ld x w lora_idx hidden rank n_loras scale idx out = do {
     let b = idx div rank;
     let r = idx mod rank;
     l \<leftarrow> rd lora_idx b;
     if no_adapter l n_loras then wr out idx 0
     else do {
       acc \<leftarrow> foldM (\<lambda>h acc. do {
         xv \<leftarrow> rd x (b * hidden + h);
         wv \<leftarrow> rd w ((nat l * rank + r) * hidden + h);
         Some (acc + ld xv * ld wv) }) [0..<hidden] 0;
       wr out idx (acc * scale) } }"

definition lora_shrink :: "('t \<Rightarrow> 'f::{plus,times,zero}) \<Rightarrow> 't list \<Rightarrow> 't list \<Rightarrow> int list \<Rightarrow> nat \<Rightarrow> nat \<Rightarrow> nat \<Rightarrow> 'f \<Rightarrow> nat list \<Rightarrow> 'f list \<Rightarrow> 'f list option" where
  "lora_shrink ld x w lora_idx hidden rank n_loras scale sched out = foldM (shrink_item ld x w lora_idx hidden rank n_loras scale) sched out"

definition lora_shrink_sycl :: "DType \<Rightarrow> 32 word list \<Rightarrow> 32 word list \<Rightarrow> int list \<Rightarrow> nat \<Rightarrow> nat \<Rightarrow> nat \<Rightarrow> f32 \<Rightarrow> nat list \<Rightarrow> f32 list \<Rightarrow> f32 list option" where
  "lora_shrink_sycl dt = lora_shrink (elem_ld dt)"

definition expand_item :: "('t \<Rightarrow> 'f::{plus,times,zero}) \<Rightarrow> ('f \<Rightarrow> 't) \<Rightarrow> 'f list \<Rightarrow> 't list \<Rightarrow> int list \<Rightarrow> nat \<Rightarrow> nat \<Rightarrow> nat \<Rightarrow> nat \<Rightarrow> nat \<Rightarrow> bool \<Rightarrow> nat \<Rightarrow> 't list \<Rightarrow> 't list option" where
  "expand_item ld st x w lora_idx rank out_dim n_loras out_offset out_stride accumulate idx out = do {
     let b = idx div out_dim;
     let j = idx mod out_dim;
     l \<leftarrow> rd lora_idx b;
     let dst = b * out_stride + out_offset + j;
     if no_adapter l n_loras then Some out
     else do {
       acc \<leftarrow> (if accumulate then map_option ld (rd out dst) else Some 0);
       acc \<leftarrow> foldM (\<lambda>r acc. do {
         xv \<leftarrow> rd x (b * rank + r);
         wv \<leftarrow> rd w ((nat l * out_dim + j) * rank + r);
         Some (acc + xv * ld wv) }) [0..<rank] acc;
       wr out dst (st acc) } }"

definition lora_expand :: "('t \<Rightarrow> 'f::{plus,times,zero}) \<Rightarrow> ('f \<Rightarrow> 't) \<Rightarrow> 'f list \<Rightarrow> 't list \<Rightarrow> int list \<Rightarrow> nat \<Rightarrow> nat \<Rightarrow> nat \<Rightarrow> nat \<Rightarrow> nat \<Rightarrow> bool \<Rightarrow> nat list \<Rightarrow> 't list \<Rightarrow> 't list option" where
  "lora_expand ld st x w lora_idx rank out_dim n_loras out_offset out_stride accumulate sched out =
     foldM (expand_item ld st x w lora_idx rank out_dim n_loras out_offset out_stride accumulate) sched out"

definition lora_expand_sycl :: "DType \<Rightarrow> f32 list \<Rightarrow> 32 word list \<Rightarrow> int list \<Rightarrow> nat \<Rightarrow> nat \<Rightarrow> nat \<Rightarrow> nat \<Rightarrow> nat \<Rightarrow> bool \<Rightarrow> nat list \<Rightarrow> 32 word list \<Rightarrow> 32 word list option" where
  "lora_expand_sycl dt = lora_expand (elem_ld dt) (elem_st dt)"

section \<open>Linear attention\<close>

definition kMaxDim :: nat where "kMaxDim = 64"

definition la_eps :: f32 where "la_eps = F32 0x358637bd"

text \<open>The first pass fills the two local arrays, which do not depend on each other, the second one the output; \<open>lanes head p\<close> orders the items.\<close>

definition la_item :: "('t \<Rightarrow> 'f::{plus,times,inverse,zero}) \<Rightarrow> ('f \<Rightarrow> 't) \<Rightarrow> 'f \<Rightarrow> 't list \<Rightarrow> 't list \<Rightarrow> 't list \<Rightarrow> nat \<Rightarrow> nat \<Rightarrow>
    (nat \<Rightarrow> nat \<Rightarrow> nat list) \<Rightarrow> (nat \<Rightarrow> 'f list \<times> 'f list) \<Rightarrow> nat \<Rightarrow> 't list \<Rightarrow> 't list option" where
  "la_item ld st eps Q K V seq n_dim lanes local head out = do {
     let base = head * seq * n_dim;
     KV \<leftarrow> row_store 1 kRowThreads (n_dim * n_dim) 0 (\<lambda>e. do {
       let i = e div n_dim;
       let j = e mod n_dim;
       foldM (\<lambda>t acc. do {
         kv \<leftarrow> rd K (base + t * n_dim + i);
         vv \<leftarrow> rd V (base + t * n_dim + j);
         Some (acc + ld kv * ld vv) }) [0..<seq] 0 }) (lanes head 0) (fst (local head));
     z \<leftarrow> row_store 1 kRowThreads n_dim 0 (\<lambda>i. foldM (\<lambda>t acc. do { kv \<leftarrow> rd K (base + t * n_dim + i); Some (acc + ld kv) }) [0..<seq] 0)
       (lanes head 1) (snd (local head));
     row_store 1 kRowThreads (seq * n_dim) base (\<lambda>e. do {
       let t = e div n_dim;
       let j = e mod n_dim;
       (num, den) \<leftarrow> foldM (\<lambda>i (num, den). do {
         qv \<leftarrow> rd Q (base + t * n_dim + i);
         let qi = ld qv;
         kv \<leftarrow> rd KV (i * n_dim + j);
         zi \<leftarrow> rd z i;
         Some (num + qi * kv, den + qi * zi) }) [0..<n_dim] (0, 0);
       Some (st (num / (den + eps))) }) (lanes head 2) out }"

definition linear_attn :: "('t \<Rightarrow> 'f::{plus,times,inverse,zero}) \<Rightarrow> ('f \<Rightarrow> 't) \<Rightarrow> 'f \<Rightarrow> 't list \<Rightarrow> 't list \<Rightarrow> 't list \<Rightarrow> nat \<Rightarrow> nat \<Rightarrow>
    nat list \<Rightarrow> (nat \<Rightarrow> nat \<Rightarrow> nat list) \<Rightarrow> (nat \<Rightarrow> 'f list \<times> 'f list) \<Rightarrow> 't list \<Rightarrow> 't list option" where
  "linear_attn ld st eps Q K V seq n_dim sched lanes local out = foldM (la_item ld st eps Q K V seq n_dim lanes local) sched out"

definition linear_attn_sycl :: "DType \<Rightarrow> 32 word list \<Rightarrow> 32 word list \<Rightarrow> 32 word list \<Rightarrow> nat \<Rightarrow> nat \<Rightarrow>
    nat list \<Rightarrow> (nat \<Rightarrow> nat \<Rightarrow> nat list) \<Rightarrow> (nat \<Rightarrow> f32 list \<times> f32 list) \<Rightarrow> 32 word list \<Rightarrow> 32 word list option" where
  "linear_attn_sycl dt = linear_attn (elem_ld dt) (elem_st dt) la_eps"

section \<open>Mixing of residual streams\<close>

definition kMaxStreams :: nat where "kMaxStreams = 8"

definition hc_post_item :: "('t \<Rightarrow> 'f::{plus,times}) \<Rightarrow> ('f \<Rightarrow> 't) \<Rightarrow> 'f list \<Rightarrow> 't list \<Rightarrow> 'f list \<Rightarrow> 't list \<Rightarrow> nat \<Rightarrow> nat \<Rightarrow> nat \<Rightarrow> 't list \<Rightarrow> 't list option" where
  "hc_post_item ld st comb residual post_mix x n_streams hidden idx out = do {
     let h = idx mod hidden;
     let tok_o = idx div hidden;
     let t = tok_o div n_streams;
     let o' = tok_o mod n_streams;
     pm \<leftarrow> rd post_mix (t * n_streams + o');
     xv \<leftarrow> rd x (t * hidden + h);
     acc \<leftarrow> foldM (\<lambda>i acc. do {
       c \<leftarrow> rd comb ((t * n_streams + i) * n_streams + o');
       r \<leftarrow> rd residual ((t * n_streams + i) * hidden + h);
       Some (acc + c * ld r) }) [0..<n_streams] (pm * ld xv);
     wr out idx (st acc) }"

definition dsv4_hc_post :: "('t \<Rightarrow> 'f::{plus,times}) \<Rightarrow> ('f \<Rightarrow> 't) \<Rightarrow> 'f list \<Rightarrow> 't list \<Rightarrow> 'f list \<Rightarrow> 't list \<Rightarrow> nat \<Rightarrow> nat \<Rightarrow> nat list \<Rightarrow> 't list \<Rightarrow> 't list option" where
  "dsv4_hc_post ld st comb residual post_mix x n_streams hidden sched out =
     (if n_streams = 0 \<or> kMaxStreams < n_streams then Some out
      else foldM (hc_post_item ld st comb residual post_mix x n_streams hidden) sched out)"

definition dsv4_hc_post_sycl :: "DType \<Rightarrow> f32 list \<Rightarrow> 32 word list \<Rightarrow> f32 list \<Rightarrow> 32 word list \<Rightarrow> nat \<Rightarrow> nat \<Rightarrow> nat list \<Rightarrow> 32 word list \<Rightarrow> 32 word list option" where
  "dsv4_hc_post_sycl dt = dsv4_hc_post (elem_ld dt) (elem_st dt)"

section \<open>Over the reals\<close>

lemma sum_loop:
  fixes g :: "nat \<Rightarrow> 'f::comm_monoid_add"
  assumes "\<And>k acc. k < n \<Longrightarrow> body k acc = Some (acc + g k)"
  shows "foldM body [0..<n] a = Some (a + (\<Sum>k<n. g k))"
proof -
  have "foldM body [0..<n] a = Some (fold (\<lambda>k acc. acc + g k) [0..<n] a)"
    by (rule foldM_pure') (simp add: assms)
  then show ?thesis by (simp add: fold_plus_sum interv_sum_list_conv_sum_set_nat lessThan_atLeast0)
qed

subsection \<open>The tiled product\<close>

definition pad_a :: "('t \<Rightarrow> real) \<Rightarrow> 't list \<Rightarrow> nat \<Rightarrow> nat \<Rightarrow> nat \<Rightarrow> nat \<Rightarrow> real" where
  "pad_a ld A M K row k = (if row < M \<and> k < K then ld (A ! (row * K + k)) else 0)"

definition pad_b :: "('t \<Rightarrow> real) \<Rightarrow> 't list \<Rightarrow> nat \<Rightarrow> nat \<Rightarrow> nat \<Rightarrow> nat \<Rightarrow> real" where
  "pad_b ld B N K k col = (if k < K \<and> col < N then ld (B ! (k * N + col)) else 0)"

definition mat_dot :: "('t \<Rightarrow> real) \<Rightarrow> 't list \<Rightarrow> 't list \<Rightarrow> nat \<Rightarrow> nat \<Rightarrow> nat \<Rightarrow> nat \<Rightarrow> real" where
  "mat_dot ld A B N K row col = (\<Sum>k<K. ld (A ! (row * K + k)) * ld (B ! (k * N + col)))"

lemma gemm_stage_exact:
  assumes items: "schedule (TS * TS) items" and len: "length A = M * K" "length B = K * N" "length As = TS * TS" "length Bs = TS * TS"
  shows "\<exists>As' Bs'. gemm_stage ld A B M N K gr gc t items (As, Bs) = Some (As', Bs') \<and> length As' = TS * TS \<and> length Bs' = TS * TS \<and>
    (\<forall>i<TS * TS. As' ! i = pad_a ld A M K (gr * TS + i div TS) (t * TS + i mod TS) \<and> Bs' ! i = pad_b ld B N K (t * TS + i div TS) (gc * TS + i mod TS))"
proof -
  let ?a = "\<lambda>i. pad_a ld A M K (gr * TS + i div TS) (t * TS + i mod TS)"
  let ?b = "\<lambda>i. pad_b ld B N K (t * TS + i div TS) (gc * TS + i mod TS)"
  have "\<exists>As' Bs'. gemm_stage ld A B M N K gr gc t items (As, Bs) = Some (As', Bs') \<and> rows_done (\<lambda>i. {i}) (\<lambda>_. ?a) As {..<TS * TS} As' \<and> rows_done (\<lambda>i. {i}) (\<lambda>_. ?b) Bs {..<TS * TS} Bs'"
    unfolding gemm_stage_def
  proof (rule launch_pair [OF items])
    show "owns (TS * TS) (\<lambda>i. {i})" by (simp add: owns_def)
    fix i and m m' :: "real list" assume i: "i < TS * TS" and l: "length m = length As" "length m' = length Bs"
    let ?row = "gr * TS + i div TS" and ?col = "gc * TS + i mod TS" and ?kA = "t * TS + i mod TS" and ?kB = "t * TS + i div TS"
    have c: "i div TS * TS + i mod TS = i" by simp
    have a: "(if ?row < M \<and> ?kA < K then map_option ld (rd A (?row * K + ?kA)) else Some 0) = Some (?a i)"
      using div_mult_add_lt [of ?row M ?kA K] len(1) by (simp add: pad_a_def)
    have b: "(if ?kB < K \<and> ?col < N then map_option ld (rd B (?kB * N + ?col)) else Some 0) = Some (?b i)"
      using div_mult_add_lt [of ?kB K ?col N] len(2) by (simp add: pad_b_def)
    have w: "wr m i v = Some (m[i := v])" "wr m' i v = Some (m'[i := v])" for v using i l len(3,4) by simp_all
    show "\<exists>m1 m2. (case (m, m') of (As, Bs) \<Rightarrow> do {
     let lr = i div TS; let lc = i mod TS; let row = gr * TS + lr; let col = gc * TS + lc; let kA = t * TS + lc; let kB = t * TS + lr;
     a \<leftarrow> (if row < M \<and> kA < K then map_option ld (rd A (row * K + kA)) else Some 0);
     b \<leftarrow> (if kB < K \<and> col < N then map_option ld (rd B (kB * N + col)) else Some 0);
     As \<leftarrow> wr As (lr * TS + lc) a;
     Bs \<leftarrow> wr Bs (lr * TS + lc) b;
     Some (As, Bs) }) = Some (m1, m2) \<and> writes {i} ?a m m1 \<and> writes {i} ?b m' m2"
      unfolding prod.case Let_def c a b bind.bind_lunit w
      using writes_single [of i m ?a] writes_single [of i m' ?b] i l len(3,4) by (intro exI conjI) simp_all
  qed
  then obtain As' Bs' where r: "gemm_stage ld A B M N K gr gc t items (As, Bs) = Some (As', Bs')"
    "rows_done (\<lambda>i. {i}) (\<lambda>_. ?a) As {..<TS * TS} As'" "rows_done (\<lambda>i. {i}) (\<lambda>_. ?b) Bs {..<TS * TS} Bs'" by (elim exE conjE)
  have "As' ! i = ?a i \<and> Bs' ! i = ?b i" if "i < TS * TS" for i
    using rows_done_cell [OF r(2) that, of i] rows_done_cell [OF r(3) that, of i] that len(3,4) by simp
  then show ?thesis using r(1) rows_done_length [OF r(2)] rows_done_length [OF r(3)] len(3,4) by auto
qed

lemma gemm_acc_exact:
  fixes acc :: real
  assumes i: "i < TS * TS" and len: "length As = TS * TS" "length Bs = TS * TS"
  shows "gemm_acc As Bs i acc = Some (acc + (\<Sum>k<TS. As ! (i div TS * TS + k) * Bs ! (k * TS + i mod TS)))"
proof -
  have d: "i div TS < TS" "i mod TS < TS" using i by (simp_all add: less_mult_imp_div_less)
  show ?thesis unfolding gemm_acc_def
    by (rule sum_loop) (use div_mult_add_lt [OF d(1)] div_mult_add_lt [OF _ d(2)] len in simp)
qed

lemma sum_pads:
  assumes "row < M" "col < N" "K \<le> T * TS"
  shows "(\<Sum>k<T * TS. pad_a ld A M K row k * pad_b ld B N K k col) = mat_dot ld A B N K row col"
proof -
  have "(\<Sum>k<T * TS. pad_a ld A M K row k * pad_b ld B N K k col) = (\<Sum>k\<in>{..<T * TS} \<inter> {k. k < K}. ld (A ! (row * K + k)) * ld (B ! (k * N + col)))"
    unfolding sum.inter_restrict [OF finite_lessThan] by (rule sum.cong) (use assms in \<open>simp_all add: pad_a_def pad_b_def\<close>)
  also have "{..<T * TS} \<inter> {k. k < K} = {..<K}" using assms(3) by auto
  finally show ?thesis by (simp add: mat_dot_def)
qed

lemma gemm_group_writes:
  assumes len: "length A = M * K" "length B = K * N" "length C = M * N" and loc: "length (fst local) = TS * TS" "length (snd local) = TS * TS"
    and items: "\<And>t. schedule (TS * TS) (items g t)"
  shows "\<exists>C'. gemm_group ld st A B M N K items local g C = Some C' \<and>
    writes {a. a < M * N \<and> a div N div TS = g div cdiv N TS \<and> a mod N div TS = g mod cdiv N TS} (\<lambda>a. st (mat_dot ld A B N K (a div N) (a mod N))) C C'"
proof -
  let ?gr = "g div cdiv N TS" and ?gc = "g mod cdiv N TS"
  let ?row = "\<lambda>i. ?gr * TS + i div TS" and ?col = "\<lambda>i. ?gc * TS + i mod TS"
  let ?p = "\<lambda>i k. pad_a ld A M K (?row i) k * pad_b ld B N K k (?col i)"
  let ?accs = "\<lambda>T. map (\<lambda>i. \<Sum>k<T * TS. ?p i k) [0..<TS * TS]"
  let ?step = "\<lambda>t (accs, loc). do {
       loc \<leftarrow> gemm_stage ld A B M N K ?gr ?gc t (items g t) loc;
       accs \<leftarrow> those (map (\<lambda>i. do { acc \<leftarrow> rd accs i; gemm_acc (fst loc) (snd loc) i acc }) [0..<TS * TS]);
       Some (accs, loc) }"
  let ?I = "\<lambda>T s. fst s = ?accs T \<and> length (fst (snd s)) = TS * TS \<and> length (snd (snd s)) = TS * TS"
  have "\<exists>s. foldM ?step [0..<cdiv K TS] (replicate (TS * TS) 0, local) = Some s \<and> ?I (cdiv K TS) s"
  proof (rule foldM_upt [where P = ?I])
    show "?I 0 (replicate (TS * TS) 0, local)" using loc by (simp add: map_replicate_const)
  next
    fix t and s :: "real list \<times> real list \<times> real list" assume s: "?I t s"
    obtain accs As Bs where sd: "s = (accs, As, Bs)" by (cases s) auto
    then have l: "length As = TS * TS" "length Bs = TS * TS" "accs = ?accs t" using s by simp_all
    obtain As' Bs' where stage: "gemm_stage ld A B M N K ?gr ?gc t (items g t) (As, Bs) = Some (As', Bs')" "length As' = TS * TS" "length Bs' = TS * TS"
      and el: "\<forall>i<TS * TS. As' ! i = pad_a ld A M K (?gr * TS + i div TS) (t * TS + i mod TS) \<and> Bs' ! i = pad_b ld B N K (t * TS + i div TS) (?gc * TS + i mod TS)"
      using gemm_stage_exact [OF items [of t] len(1,2) l(1,2), of ld ?gr ?gc t] by blast
    have accs: "those (map (\<lambda>i. do { acc \<leftarrow> rd accs i; gemm_acc As' Bs' i acc }) [0..<TS * TS]) = Some (?accs (Suc t))"
    proof (rule those_map_Some)
      fix i assume "i \<in> set [0..<TS * TS]"
      then have i: "i < TS * TS" by simp
      then have d: "i div TS < TS" "i mod TS < TS" by (simp_all add: less_mult_imp_div_less)
      have "As' ! (i div TS * TS + k) * Bs' ! (k * TS + i mod TS) = ?p i (t * TS + k)" if k: "k < TS" for k
        using el div_mult_add_lt [OF d(1) k] div_mult_add_lt [OF k d(2)] k d by simp
      then have "(\<Sum>k<TS. As' ! (i div TS * TS + k) * Bs' ! (k * TS + i mod TS)) = (\<Sum>k<TS. ?p i (t * TS + k))"
        by (intro sum.cong) simp_all
      also have "\<dots> = (\<Sum>k = t * TS..<t * TS + TS. ?p i k)"
        using sum.shift_bounds_nat_ivl [of "?p i" 0 "t * TS" TS] by (simp add: lessThan_atLeast0 add.commute)
      finally have "(\<Sum>k<t * TS. ?p i k) + (\<Sum>k<TS. As' ! (i div TS * TS + k) * Bs' ! (k * TS + i mod TS)) = (\<Sum>k<Suc t * TS. ?p i k)"
        unfolding lessThan_atLeast0 by (simp add: sum.atLeastLessThan_concat add.commute [of TS])
      moreover have "rd accs i = Some (\<Sum>k<t * TS. ?p i k)" using i l(3) by simp
      ultimately show "(do { acc \<leftarrow> rd accs i; gemm_acc As' Bs' i acc }) = Some (\<Sum>k<Suc t * TS. ?p i k)"
        using gemm_acc_exact [OF i stage(2,3), of "\<Sum>k<t * TS. ?p i k"] by (simp only: bind.bind_lunit)
    qed
    then show "\<exists>s'. ?step t s = Some s' \<and> ?I (Suc t) s'"
      unfolding sd prod.case stage(1) bind.bind_lunit fst_conv snd_conv accs using stage(2,3) by simp
  qed simp
  then obtain accs loc' where run: "foldM ?step [0..<cdiv K TS] (replicate (TS * TS) 0, local) = Some (accs, loc')" "accs = ?accs (cdiv K TS)" by fastforce
  let ?v = "\<lambda>a. st (mat_dot ld A B N K (a div N) (a mod N))"
  let ?cells = "\<lambda>i. if ?row i < M \<and> ?col i < N then {?row i * N + ?col i} else {}"
  have "\<exists>C'. foldM (\<lambda>i C. do {
       let row = ?row i; let col = ?col i;
       if row < M \<and> col < N then do { acc \<leftarrow> rd accs i; wr C (row * N + col) (st acc) }
       else Some C }) (items g (cdiv K TS)) C = Some C' \<and> writes (\<Union>i<TS * TS. ?cells i) ?v C C'"
  proof (rule launch_writes [OF items])
    fix i and m :: "'a list" assume i: "i < TS * TS" and m: "length m = length C"
    show "\<exists>m'. (do { let row = ?row i; let col = ?col i;
       if row < M \<and> col < N then do { acc \<leftarrow> rd accs i; wr m (row * N + col) (st acc) }
       else Some m }) = Some m' \<and> writes (?cells i) ?v m m'"
    proof (cases "?row i < M \<and> ?col i < N")
      case True
      then have d: "?row i < M" "?col i < N" by simp_all
      have lt: "?row i * N + ?col i < length m" using div_mult_add_lt [OF d] m len(3) by simp
      have dm: "(?row i * N + ?col i) div N = ?row i" "(?row i * N + ?col i) mod N = ?col i" using d(2) by simp_all
      have "K \<le> cdiv K TS * TS" by (rule cdiv_upper) simp
      then have "rd accs i = Some (mat_dot ld A B N K (?row i) (?col i))" using run(2) i by (simp add: sum_pads [OF d])
      moreover have "writes {?row i * N + ?col i} ?v m (m[?row i * N + ?col i := ?v (?row i * N + ?col i)])" by (rule writes_single [OF lt])
      moreover have "wr m (?row i * N + ?col i) v = Some (m[?row i * N + ?col i := v])" for v using lt by simp
      ultimately show ?thesis unfolding Let_def dm by (simp only: True simp_thms if_True bind.bind_lunit) blast
    qed (auto simp: Let_def)
  qed
  then show ?thesis unfolding gemm_group_def tile_cells using run(1) by (simp add: Let_def)
qed

theorem dense_gemm_exact:
  assumes len: "length A = M * K" "length B = K * N" "length C = M * N"
    and loc: "\<And>g. length (fst (local g)) = TS * TS" "\<And>g. length (snd (local g)) = TS * TS"
    and sched: "schedule (cdiv M TS * cdiv N TS) sched" and items: "\<And>g t. schedule (TS * TS) (items g t)"
  shows "dense_gemm ld st A B M N K sched items local C = Some (map (\<lambda>a. st (mat_dot ld A B N K (a div N) (a mod N))) [0..<M * N])"
proof -
  let ?v = "\<lambda>a. st (mat_dot ld A B N K (a div N) (a mod N))"
  let ?cells = "\<lambda>g. {a. a < M * N \<and> a div N div TS = g div cdiv N TS \<and> a mod N div TS = g mod cdiv N TS}"
  have "\<exists>C'. foldM (\<lambda>g. gemm_group ld st A B M N K items (local g) g) sched C = Some C' \<and> writes (\<Union>g<cdiv M TS * cdiv N TS. ?cells g) ?v C C'"
  proof (rule launch_writes [OF sched])
    fix g and m :: "'a list" assume "length m = length C"
    then have "length m = M * N" using len(3) by simp
    then show "\<exists>m'. gemm_group ld st A B M N K items (local g) g m = Some m' \<and> writes (?cells g) ?v m m'"
      by (rule gemm_group_writes [OF len(1,2) _ loc items])
  qed
  then obtain C' where "foldM (\<lambda>g. gemm_group ld st A B M N K items (local g) g) sched C = Some C'" "writes {..<M * N} ?v C C'" unfolding tiles_cover by blast
  then show ?thesis using writes_map_upt [of "M * N" ?v C C'] len(3) by (simp add: dense_gemm_def)
qed

subsection \<open>Low-rank adapters\<close>

text \<open>What the shrink leaves for row \<open>b\<close> and rank \<open>r\<close>, and what a pair of adapter matrices adds to an output.\<close>

definition lora_mid :: "('t \<Rightarrow> real) \<Rightarrow> 't list \<Rightarrow> 't list \<Rightarrow> int list \<Rightarrow> nat \<Rightarrow> nat \<Rightarrow> nat \<Rightarrow> real \<Rightarrow> nat \<Rightarrow> nat \<Rightarrow> real" where
  "lora_mid ld x wa lora_idx hidden rank n_loras scale b r = (if no_adapter (lora_idx ! b) n_loras then 0
     else (\<Sum>h<hidden. ld (x ! (b * hidden + h)) * ld (wa ! ((nat (lora_idx ! b) * rank + r) * hidden + h))) * scale)"

lemma adapter_row: "\<not> no_adapter l n_loras \<Longrightarrow> r < w \<Longrightarrow> (nat l * w + r) * d + d \<le> n_loras * w * d"
  using src_row [of "nat l * w + r" "n_loras * w" d] div_mult_add_lt [of "nat l" n_loras r w] by (simp add: no_adapter_def)

lemma lora_shrink_exact:
  assumes sched: "schedule (batch * rank) sched" and len: "length x = batch * hidden" "length wa = n_loras * rank * hidden" "length lora_idx = batch" "length out = batch * rank"
  shows "lora_shrink ld x wa lora_idx hidden rank n_loras scale sched out =
    Some (map (\<lambda>a. lora_mid ld x wa lora_idx hidden rank n_loras scale (a div rank) (a mod rank)) [0..<batch * rank])"
  unfolding lora_shrink_def
proof (rule launch_store [OF sched len(4)])
  fix i and m :: "real list" assume i: "i < batch * rank" and m: "length m = batch * rank"
  let ?l = "lora_idx ! (i div rank)"
  have b: "i div rank < batch" using less_mult_imp_div_less [OF i] .
  have r: "i mod rank < rank" using i by (cases rank) auto
  have l: "rd lora_idx (i div rank) = Some ?l" using b len(3) by simp
  show "shrink_item ld x wa lora_idx hidden rank n_loras scale i m = wr m i (lora_mid ld x wa lora_idx hidden rank n_loras scale (i div rank) (i mod rank))"
  proof (cases "no_adapter ?l n_loras")
    case False
    have "foldM (\<lambda>h acc. do { xv \<leftarrow> rd x (i div rank * hidden + h); wv \<leftarrow> rd wa ((nat ?l * rank + i mod rank) * hidden + h); Some (acc + ld xv * ld wv) }) [0..<hidden] 0 =
        Some (0 + (\<Sum>h<hidden. ld (x ! (i div rank * hidden + h)) * ld (wa ! ((nat ?l * rank + i mod rank) * hidden + h))))"
      by (rule sum_loop) (use src_row [OF b, of hidden] adapter_row [OF False r, of hidden] len(1,2) in simp)
    then show ?thesis using False l by (simp add: shrink_item_def lora_mid_def Let_def)
  qed (use l in \<open>simp add: shrink_item_def lora_mid_def Let_def\<close>)
qed

text \<open>The cell that an item of the expansion may write, and what it holds afterwards.\<close>

definition lora_cell :: "nat \<Rightarrow> nat \<Rightarrow> nat \<Rightarrow> nat \<Rightarrow> nat" where
  "lora_cell out_dim out_offset out_stride idx = idx div out_dim * out_stride + out_offset + idx mod out_dim"

definition lora_slice :: "nat \<Rightarrow> nat \<Rightarrow> nat \<Rightarrow> nat \<Rightarrow> bool" where
  "lora_slice out_dim out_offset out_stride a \<longleftrightarrow> out_offset \<le> a mod out_stride \<and> a mod out_stride < out_offset + out_dim"

lemma lora_cells:
  assumes "out_offset + out_dim \<le> out_stride" "idx < batch * out_dim"
  defines "a \<equiv> lora_cell out_dim out_offset out_stride idx"
  shows "a < batch * out_stride" "a div out_stride = idx div out_dim" "a mod out_stride - out_offset = idx mod out_dim" "lora_slice out_dim out_offset out_stride a"
proof -
  have b: "idx div out_dim < batch" using less_mult_imp_div_less [OF assms(2)] .
  have "idx mod out_dim < out_dim" using assms(2) by (cases out_dim) auto
  then have j: "out_offset + idx mod out_dim < out_offset + out_dim" "out_offset + idx mod out_dim < out_stride" using assms(1) by simp_all
  have a: "a = idx div out_dim * out_stride + (out_offset + idx mod out_dim)" by (simp add: a_def lora_cell_def)
  have m: "a div out_stride = idx div out_dim" "a mod out_stride = out_offset + idx mod out_dim" unfolding a using j(2) by simp_all
  show "a < batch * out_stride" unfolding a by (rule div_mult_add_lt [OF b j(2)])
  show "a div out_stride = idx div out_dim" by (rule m)
  show "a mod out_stride - out_offset = idx mod out_dim" "lora_slice out_dim out_offset out_stride a" using m(2) j(1) by (simp_all add: lora_slice_def)
qed

lemma lora_slice_cell:
  assumes "out_offset + out_dim \<le> out_stride" "a < batch * out_stride" "lora_slice out_dim out_offset out_stride a"
  shows "\<exists>idx<batch * out_dim. a = lora_cell out_dim out_offset out_stride idx"
proof (rule exI [of _ "a div out_stride * out_dim + (a mod out_stride - out_offset)"], rule conjI)
  have b: "a div out_stride < batch" using less_mult_imp_div_less [OF assms(2)] .
  have j: "a mod out_stride - out_offset < out_dim" using assms(3) by (auto simp: lora_slice_def)
  show "a div out_stride * out_dim + (a mod out_stride - out_offset) < batch * out_dim" by (rule div_mult_add_lt [OF b j])
  have "a div out_stride * out_stride + (out_offset + (a mod out_stride - out_offset)) = a" using assms(3) by (simp add: lora_slice_def)
  then show "a = lora_cell out_dim out_offset out_stride (a div out_stride * out_dim + (a mod out_stride - out_offset))"
    using j by (simp add: lora_cell_def add.assoc)
qed

definition lora_out :: "('t \<Rightarrow> real) \<Rightarrow> (real \<Rightarrow> 't) \<Rightarrow> real list \<Rightarrow> 't list \<Rightarrow> int list \<Rightarrow> nat \<Rightarrow> nat \<Rightarrow> nat \<Rightarrow> nat \<Rightarrow> nat \<Rightarrow> bool \<Rightarrow> 't list \<Rightarrow> nat \<Rightarrow> 't" where
  "lora_out ld st mid wb lora_idx rank out_dim n_loras out_offset out_stride accumulate out a =
     (let b = a div out_stride; j = a mod out_stride - out_offset in
      if lora_slice out_dim out_offset out_stride a \<and> \<not> no_adapter (lora_idx ! b) n_loras
      then st ((if accumulate then ld (out ! a) else 0) + (\<Sum>r<rank. mid ! (b * rank + r) * ld (wb ! ((nat (lora_idx ! b) * out_dim + j) * rank + r))))
      else out ! a)"

lemma lora_expand_exact:
  fixes out :: "'t list"
  assumes sched: "schedule (batch * out_dim) sched" and stride: "out_offset + out_dim \<le> out_stride"
    and len: "length mid = batch * rank" "length wb = n_loras * out_dim * rank" "length lora_idx = batch" "length out = batch * out_stride"
  shows "lora_expand ld st mid wb lora_idx rank out_dim n_loras out_offset out_stride accumulate sched out =
    Some (map (lora_out ld st mid wb lora_idx rank out_dim n_loras out_offset out_stride accumulate out) [0..<batch * out_stride])"
proof -
  let ?c = "lora_cell out_dim out_offset out_stride"
  let ?v = "lora_out ld st mid wb lora_idx rank out_dim n_loras out_offset out_stride accumulate out"
  let ?f = "expand_item ld st mid wb lora_idx rank out_dim n_loras out_offset out_stride accumulate"
  have inj: "?c i = ?c j \<longleftrightarrow> i = j" if "i < batch * out_dim" "j < batch * out_dim" for i j
    using lora_cells(2,3) [OF stride that(1)] lora_cells(2,3) [OF stride that(2)] by (metis div_mult_mod_eq)
  have "\<exists>m. foldM ?f sched out = Some m \<and> rows_done (\<lambda>i. {?c i}) (\<lambda>_. ?v) out {..<batch * out_dim} m"
  proof (rule launch_rows [OF sched])
    show "owns (batch * out_dim) (\<lambda>i. {?c i})" using inj by (auto simp: owns_def)
    fix i and m :: "'t list" assume i: "i < batch * out_dim" and m: "length m = length out" and own: "\<And>a. a \<in> {?c i} \<Longrightarrow> a < length out \<Longrightarrow> m ! a = out ! a"
    note c = lora_cells [OF stride i]
    let ?l = "lora_idx ! (i div out_dim)"
    have b: "i div out_dim < batch" using less_mult_imp_div_less [OF i] .
    have j: "i mod out_dim < out_dim" using i by (cases out_dim) auto
    have l: "rd lora_idx (i div out_dim) = Some ?l" using b len(3) by simp
    have mc: "m ! ?c i = out ! ?c i" "?c i < length m" using own c(1) m len(4) by simp_all
    show "\<exists>m'. ?f i m = Some m' \<and> writes {?c i} ?v m m'"
    proof (cases "no_adapter ?l n_loras")
      case True
      then have "?v (?c i) = m ! ?c i" using c(2) mc(1) by (simp add: lora_out_def)
      then have "writes {?c i} ?v m m" by (auto simp: writes_def)
      moreover have "?f i m = Some m" using True l by (simp add: expand_item_def Let_def)
      ultimately show ?thesis by blast
    next
      case False
      let ?a = "if accumulate then ld (out ! ?c i) else 0"
      have r1: "foldM (\<lambda>r acc. do { xv \<leftarrow> rd mid (i div out_dim * rank + r); wv \<leftarrow> rd wb ((nat ?l * out_dim + i mod out_dim) * rank + r); Some (acc + xv * ld wv) }) [0..<rank] ?a =
          Some (?a + (\<Sum>r<rank. mid ! (i div out_dim * rank + r) * ld (wb ! ((nat ?l * out_dim + i mod out_dim) * rank + r))))"
        by (rule sum_loop) (use src_row [OF b, of rank] adapter_row [OF False j, of rank] len(1,2) in simp)
      have r2: "(if accumulate then map_option ld (rd m (?c i)) else Some 0) = Some ?a" using mc by simp
      have "?f i m = wr m (?c i) (?v (?c i))"
        unfolding expand_item_def Let_def l bind.bind_lunit lora_cell_def [symmetric] if_not_P [OF False] r2 r1 lora_out_def c(2,3)
        using False c(4) by simp
      then show ?thesis using writes_single [OF mc(2), of ?v] mc(2) by simp
    qed
  qed
  then obtain m where m: "foldM ?f sched out = Some m" "rows_done (\<lambda>i. {?c i}) (\<lambda>_. ?v) out {..<batch * out_dim} m" by blast
  have "m = map ?v [0..<batch * out_stride]"
  proof (rule nth_equalityI)
    show "length m = length (map ?v [0..<batch * out_stride])" using rows_done_length [OF m(2)] len(4) by simp
    fix a assume "a < length m"
    then have a: "a < batch * out_stride" "a < length out" using rows_done_length [OF m(2)] len(4) by simp_all
    have "m ! a = ?v a"
    proof (cases "lora_slice out_dim out_offset out_stride a")
      case True
      then obtain i where "i < batch * out_dim" "a = ?c i" using lora_slice_cell [OF stride a(1)] by blast
      then show ?thesis using rows_done_cell [OF m(2), of i a] a(2) by simp
    next
      case False
      then have "m ! a = out ! a" using lora_cells(4) [OF stride] by (intro rows_done_frame [OF m(2) a(2)]) auto
      then show ?thesis using False by (simp add: lora_out_def)
    qed
    then show "m ! a = map ?v [0..<batch * out_stride] ! a" using a(1) by simp
  qed
  then show ?thesis using m(1) by (simp add: lora_expand_def)
qed

text \<open>C34: The two launches of an adapter add the product with the matrix \<open>B A\<close> of low rank: in exact arithmetic, for any order of the
  items, shrink followed by expand gives every row with an adapter its base output (when accumulating) plus \<open>scale\<close> times that product, in
  the slice of the output row, and leaves rows without an adapter and all other columns as they were.\<close>

theorem lora_low_rank:
  fixes ld :: "'t \<Rightarrow> real"
  assumes sched: "schedule (batch * rank) sched1" "schedule (batch * out_dim) sched2" and stride: "out_offset + out_dim \<le> out_stride"
    and len: "length x = batch * hidden" "length wa = n_loras * rank * hidden" "length wb = n_loras * out_dim * rank" "length lora_idx = batch"
      "length mid = batch * rank" "length out = batch * out_stride"
  shows "Option.bind (lora_shrink ld x wa lora_idx hidden rank n_loras scale sched1 mid)
      (\<lambda>mid. lora_expand ld st mid wb lora_idx rank out_dim n_loras out_offset out_stride accumulate sched2 out) =
    Some (map (\<lambda>a. let b = a div out_stride; j = a mod out_stride - out_offset; l = nat (lora_idx ! b) in
      if lora_slice out_dim out_offset out_stride a \<and> \<not> no_adapter (lora_idx ! b) n_loras
      then st ((if accumulate then ld (out ! a) else 0) +
        scale * (\<Sum>h<hidden. (\<Sum>r<rank. ld (wb ! ((l * out_dim + j) * rank + r)) * ld (wa ! ((l * rank + r) * hidden + h))) * ld (x ! (b * hidden + h))))
      else out ! a) [0..<batch * out_stride])"
proof -
  let ?mid = "map (\<lambda>a. lora_mid ld x wa lora_idx hidden rank n_loras scale (a div rank) (a mod rank)) [0..<batch * rank]"
  have row: "(\<Sum>r<rank. ?mid ! (b * rank + r) * ld (wb ! ((l * out_dim + j) * rank + r))) =
      scale * (\<Sum>h<hidden. (\<Sum>r<rank. ld (wb ! ((l * out_dim + j) * rank + r)) * ld (wa ! ((l * rank + r) * hidden + h))) * ld (x ! (b * hidden + h)))"
    if b: "b < batch" and l: "l = nat (lora_idx ! b)" "\<not> no_adapter (lora_idx ! b) n_loras" for b j l
  proof -
    have "(\<Sum>r<rank. ?mid ! (b * rank + r) * ld (wb ! ((l * out_dim + j) * rank + r))) =
        (\<Sum>r<rank. (\<Sum>h<hidden. scale * (ld (wb ! ((l * out_dim + j) * rank + r)) * ld (wa ! ((l * rank + r) * hidden + h)) * ld (x ! (b * hidden + h)))))"
    proof (rule sum.cong [OF refl])
      fix r assume "r \<in> {..<rank}"
      then have "?mid ! (b * rank + r) = (\<Sum>h<hidden. ld (x ! (b * hidden + h)) * ld (wa ! ((l * rank + r) * hidden + h))) * scale"
        using div_mult_add_lt [OF b, of r rank] l by (simp add: lora_mid_def)
      then show "?mid ! (b * rank + r) * ld (wb ! ((l * out_dim + j) * rank + r)) =
          (\<Sum>h<hidden. scale * (ld (wb ! ((l * out_dim + j) * rank + r)) * ld (wa ! ((l * rank + r) * hidden + h)) * ld (x ! (b * hidden + h))))"
        by (simp only: sum_distrib_left sum_distrib_right) (simp only: ac_simps)
    qed
    also have "\<dots> = (\<Sum>h<hidden. (\<Sum>r<rank. scale * (ld (wb ! ((l * out_dim + j) * rank + r)) * ld (wa ! ((l * rank + r) * hidden + h)) * ld (x ! (b * hidden + h)))))"
      by (rule sum.swap)
    finally show ?thesis by (simp add: sum_distrib_left sum_distrib_right mult.assoc)
  qed
  have eq: "lora_out ld st ?mid wb lora_idx rank out_dim n_loras out_offset out_stride accumulate out a =
      (let b = a div out_stride; j = a mod out_stride - out_offset; l = nat (lora_idx ! b) in
      if lora_slice out_dim out_offset out_stride a \<and> \<not> no_adapter (lora_idx ! b) n_loras
      then st ((if accumulate then ld (out ! a) else 0) +
        scale * (\<Sum>h<hidden. (\<Sum>r<rank. ld (wb ! ((l * out_dim + j) * rank + r)) * ld (wa ! ((l * rank + r) * hidden + h))) * ld (x ! (b * hidden + h))))
      else out ! a)" if "a < batch * out_stride" for a
    unfolding lora_out_def Let_def
  proof (rule if_cong [OF refl _ refl])
    assume c: "lora_slice out_dim out_offset out_stride a \<and> \<not> no_adapter (lora_idx ! (a div out_stride)) n_loras"
    show "st ((if accumulate then ld (out ! a) else 0) +
        (\<Sum>r<rank. ?mid ! (a div out_stride * rank + r) * ld (wb ! ((nat (lora_idx ! (a div out_stride)) * out_dim + (a mod out_stride - out_offset)) * rank + r)))) =
      st ((if accumulate then ld (out ! a) else 0) +
        scale * (\<Sum>h<hidden. (\<Sum>r<rank. ld (wb ! ((nat (lora_idx ! (a div out_stride)) * out_dim + (a mod out_stride - out_offset)) * rank + r)) *
          ld (wa ! ((nat (lora_idx ! (a div out_stride)) * rank + r) * hidden + h))) * ld (x ! (a div out_stride * hidden + h))))"
      unfolding row [OF less_mult_imp_div_less [OF that] refl conjunct2 [OF c]] by (rule refl)
  qed
  have m: "length ?mid = batch * rank" by simp
  show ?thesis
    unfolding lora_shrink_exact [OF sched(1) len(1,2,4,5)] bind.bind_lunit lora_expand_exact [OF sched(2) stride m len(3,4,6)] option.inject
    by (rule map_cong [OF refl]) (rule eq, simp only: set_upt atLeastLessThan_iff)
qed

lemma lora_low_rank_witness:
  "Option.bind (lora_shrink (id :: real \<Rightarrow> real) [1, 2, 5, 5] [3, 4] [0, - 1] 2 1 1 (1 / 2) [0, 1] [0, 0])
      (\<lambda>mid. lora_expand id id mid [10, 20] [0, - 1] 1 2 1 1 3 True [3, 2, 1, 0] [7, 7, 7, 7, 7, 7]) = Some [7, 62, 117, 7, 7, 7]"
proof -
  have "schedule (2 * 1) [0, 1]" "schedule (2 * 2) [3, 2, 1, 0]" by (auto simp: schedule_def)
  then show ?thesis
    using lora_low_rank [of 2 1 "[0, 1]" 2 "[3, 2, 1, 0]" 1 3 "[1, 2, 5, 5 :: real]" 2 "[3, 4]" 1 "[10, 20]" "[0, - 1]" "[0, 0]" "[7, 7, 7, 7, 7, 7]" id "1 / 2" id True]
    by (simp add: upt_rec lessThan_Suc numeral_2_eq_2 no_adapter_def lora_slice_def Let_def)
qed

subsection \<open>Linear attention\<close>

text \<open>The quadratic form: the output at \<open>t\<close> is the mean of the value rows weighted by the products of the query row with the key rows.\<close>

definition la_weight :: "('t \<Rightarrow> real) \<Rightarrow> 't list \<Rightarrow> 't list \<Rightarrow> nat \<Rightarrow> nat \<Rightarrow> nat \<Rightarrow> nat \<Rightarrow> nat \<Rightarrow> real" where
  "la_weight ld Q K seq n_dim head t u = (\<Sum>i<n_dim. ld (Q ! (head * seq * n_dim + t * n_dim + i)) * ld (K ! (head * seq * n_dim + u * n_dim + i)))"

definition la_out :: "('t \<Rightarrow> real) \<Rightarrow> (real \<Rightarrow> 't) \<Rightarrow> real \<Rightarrow> 't list \<Rightarrow> 't list \<Rightarrow> 't list \<Rightarrow> nat \<Rightarrow> nat \<Rightarrow> nat \<Rightarrow> nat \<Rightarrow> nat \<Rightarrow> 't" where
  "la_out ld st eps Q K V seq n_dim head t j = st ((\<Sum>u < seq. la_weight ld Q K seq n_dim head t u * ld (V ! (head * seq * n_dim + u * n_dim + j))) /
     ((\<Sum>u < seq. la_weight ld Q K seq n_dim head t u) + eps))"

lemma la_index:
  fixes head :: nat
  shows "head < n_heads \<Longrightarrow> t < seq \<Longrightarrow> i < n_dim \<Longrightarrow> head * seq * n_dim + t * n_dim + i < n_heads * (seq * n_dim)"
  using div_mult_add_lt [of head n_heads "t * n_dim + i" "seq * n_dim"] div_mult_add_lt [of t seq i n_dim] by (simp add: mult.assoc add.assoc)

lemma sum_pair_loop:
  fixes g h :: "nat \<Rightarrow> 'f::comm_monoid_add"
  assumes "\<And>k a b. k < n \<Longrightarrow> body k (a, b) = Some (a + g k, b + h k)"
  shows "foldM body [0..<n] (a, b) = Some (a + (\<Sum>k<n. g k), b + (\<Sum>k<n. h k))"
proof -
  have "\<exists>s. foldM body [0..<n] (a, b) = Some s \<and> s = (a + (\<Sum>k<n. g k), b + (\<Sum>k<n. h k))"
    by (rule foldM_upt [where P = "\<lambda>k s. s = (a + (\<Sum>k<k. g k), b + (\<Sum>k<k. h k))"]) (simp_all add: assms add.assoc)
  then show ?thesis by simp
qed

lemma la_item_writes:
  assumes lanes: "\<And>p. schedule kRowThreads (lanes head p)" and head: "head < n_heads" and n_dim: "n_dim \<le> kMaxDim"
    and loc: "length (fst (local head)) = kMaxDim * kMaxDim" "length (snd (local head)) = kMaxDim"
    and len: "length Q = n_heads * (seq * n_dim)" "length K = n_heads * (seq * n_dim)" "length V = n_heads * (seq * n_dim)" "length out = n_heads * (seq * n_dim)"
  shows "\<exists>out'. la_item ld st eps Q K V seq n_dim lanes local head out = Some out' \<and>
    writes (row_cells (seq * n_dim) head) (\<lambda>a. la_out ld st eps Q K V seq n_dim head ((a - head * (seq * n_dim)) div n_dim) ((a - head * (seq * n_dim)) mod n_dim)) out out'"
proof -
  let ?q = "\<lambda>t i. ld (Q ! (head * seq * n_dim + t * n_dim + i))" and ?k = "\<lambda>t i. ld (K ! (head * seq * n_dim + t * n_dim + i))" and ?v = "\<lambda>t i. ld (V ! (head * seq * n_dim + t * n_dim + i))"
  note at = la_index [OF head]
  let ?fkv = "\<lambda>e. do { let i = e div n_dim; let j = e mod n_dim; foldM (\<lambda>t acc. do {
         kv \<leftarrow> rd K (head * seq * n_dim + t * n_dim + i); vv \<leftarrow> rd V (head * seq * n_dim + t * n_dim + j); Some (acc + ld kv * ld vv) }) [0..<seq] 0 }"
  have "\<exists>KV. row_store 1 kRowThreads (n_dim * n_dim) 0 ?fkv (lanes head 0) (fst (local head)) = Some KV \<and>
      writes {0..<0 + n_dim * n_dim} (\<lambda>a. \<Sum>t < seq. ?k t ((a - 0) div n_dim) * ?v t ((a - 0) mod n_dim)) (fst (local head)) KV"
  proof (rule row_store_writes [OF lanes kRowThreads_pos])
    show "0 + n_dim * n_dim \<le> length (fst (local head))" using mult_le_mono [OF n_dim n_dim] loc(1) by simp
    fix e assume e: "e < n_dim * n_dim"
    have d: "e div n_dim < n_dim" "e mod n_dim < n_dim" using less_mult_imp_div_less [OF e] e by (cases n_dim; simp)+
    have "foldM (\<lambda>t acc. do { kv \<leftarrow> rd K (head * seq * n_dim + t * n_dim + e div n_dim); vv \<leftarrow> rd V (head * seq * n_dim + t * n_dim + e mod n_dim); Some (acc + ld kv * ld vv) }) [0..<seq] 0 =
        Some (0 + (\<Sum>t < seq. ?k t (e div n_dim) * ?v t (e mod n_dim)))"
      by (rule sum_loop) (use at [OF _ d(1)] at [OF _ d(2)] len(2,3) in simp)
    then show "?fkv e = Some (\<Sum>t < seq. ?k t (e div n_dim) * ?v t (e mod n_dim))" by (simp add: Let_def)
  qed simp
  then obtain KV where KV: "row_store 1 kRowThreads (n_dim * n_dim) 0 ?fkv (lanes head 0) (fst (local head)) = Some KV"
    "writes {0..<n_dim * n_dim} (\<lambda>a. \<Sum>t < seq. ?k t (a div n_dim) * ?v t (a mod n_dim)) (fst (local head)) KV" by auto
  let ?fz = "\<lambda>i. foldM (\<lambda>t acc. do { kv \<leftarrow> rd K (head * seq * n_dim + t * n_dim + i); Some (acc + ld kv) }) [0..<seq] 0"
  have "\<exists>z. row_store 1 kRowThreads n_dim 0 ?fz (lanes head 1) (snd (local head)) = Some z \<and> writes {0..<0 + n_dim} (\<lambda>a. \<Sum>t < seq. ?k t (a - 0)) (snd (local head)) z"
  proof (rule row_store_writes [OF lanes kRowThreads_pos])
    show "0 + n_dim \<le> length (snd (local head))" using n_dim loc(2) by simp
    fix i assume i: "i < n_dim"
    have "?fz i = Some (0 + (\<Sum>t < seq. ?k t i))" by (rule sum_loop) (use at [OF _ i] len(2) in simp)
    then show "?fz i = Some (\<Sum>t < seq. ?k t i)" by simp
  qed simp
  then obtain z where z: "row_store 1 kRowThreads n_dim 0 ?fz (lanes head 1) (snd (local head)) = Some z" "writes {0..<n_dim} (\<lambda>a. \<Sum>t < seq. ?k t a) (snd (local head)) z" by auto
  have KVat: "rd KV (i * n_dim + j) = Some (\<Sum>t < seq. ?k t i * ?v t j)" if "i < n_dim" "j < n_dim" for i j
  proof -
    have "i * n_dim + j < n_dim * n_dim" by (rule div_mult_add_lt [OF that])
    moreover have "n_dim * n_dim \<le> length (fst (local head))" using mult_le_mono [OF n_dim n_dim] loc(1) by simp
    ultimately show ?thesis using KV(2) that(2) by (simp add: writes_def rd_def)
  qed
  have zat: "rd z i = Some (\<Sum>t < seq. ?k t i)" if "i < n_dim" for i
    using z(2) that n_dim loc(2) by (simp add: writes_def rd_def)
  let ?fo = "\<lambda>e. do { let t = e div n_dim; let j = e mod n_dim;
       (num, den) \<leftarrow> foldM (\<lambda>i (num, den). do { qv \<leftarrow> rd Q (head * seq * n_dim + t * n_dim + i); let qi = ld qv; kv \<leftarrow> rd KV (i * n_dim + j); zi \<leftarrow> rd z i; Some (num + qi * kv, den + qi * zi) }) [0..<n_dim] (0, 0);
       Some (st (num / (den + eps))) }"
  have "\<exists>out'. row_store 1 kRowThreads (seq * n_dim) (head * seq * n_dim) ?fo (lanes head 2) out = Some out' \<and>
      writes {head * seq * n_dim..<head * seq * n_dim + seq * n_dim} (\<lambda>a. la_out ld st eps Q K V seq n_dim head ((a - head * seq * n_dim) div n_dim) ((a - head * seq * n_dim) mod n_dim)) out out'"
  proof (rule row_store_writes [OF lanes kRowThreads_pos])
    show "head * seq * n_dim + seq * n_dim \<le> length out" using src_row [OF head, of "seq * n_dim"] len(4) by (simp add: mult.assoc)
    fix e assume e: "e < seq * n_dim"
    let ?t = "e div n_dim" and ?j = "e mod n_dim"
    have d: "?t < seq" "?j < n_dim" using less_mult_imp_div_less [OF e] e by (cases n_dim; simp)+
    have "foldM (\<lambda>i (num, den). do { qv \<leftarrow> rd Q (head * seq * n_dim + ?t * n_dim + i); let qi = ld qv; kv \<leftarrow> rd KV (i * n_dim + ?j); zi \<leftarrow> rd z i; Some (num + qi * kv, den + qi * zi) }) [0..<n_dim] (0, 0) =
        Some (0 + (\<Sum>i<n_dim. ?q ?t i * (\<Sum>u < seq. ?k u i * ?v u ?j)), 0 + (\<Sum>i<n_dim. ?q ?t i * (\<Sum>u < seq. ?k u i)))"
      by (rule sum_pair_loop) (use at [OF d(1)] len(1) KVat [OF _ d(2)] zat in \<open>simp add: Let_def\<close>)
    moreover have "(\<Sum>i<n_dim. ?q ?t i * (\<Sum>u < seq. ?k u i * ?v u ?j)) = (\<Sum>u < seq. la_weight ld Q K seq n_dim head ?t u * ?v u ?j)"
      unfolding la_weight_def sum_distrib_left sum_distrib_right by (subst sum.swap) (simp add: mult.assoc)
    moreover have "(\<Sum>i<n_dim. ?q ?t i * (\<Sum>u < seq. ?k u i)) = (\<Sum>u < seq. la_weight ld Q K seq n_dim head ?t u)"
      unfolding la_weight_def sum_distrib_left by (rule sum.swap)
    ultimately show "?fo e = Some (la_out ld st eps Q K V seq n_dim head ?t ?j)" by (simp add: Let_def la_out_def)
  qed simp
  then show ?thesis unfolding la_item_def Let_def using KV(1) z(1) by (simp add: Let_def mult.assoc)
qed

lemma foldM_overrun:
  assumes "x \<in> set xs" "P s" "\<And>y s s'. P s \<Longrightarrow> f y s = Some s' \<Longrightarrow> P s'" "\<And>s. P s \<Longrightarrow> f x s = None"
  shows "foldM f xs s = None"
  using assms(1,2)
proof (induction xs arbitrary: s)
  case (Cons y ys)
  show ?case
  proof (cases "f y s")
    case (Some s')
    then have "x \<in> set ys" "P s'" using Cons.prems assms(3,4) by auto
    then show ?thesis using Cons.IH Some by simp
  qed simp
qed simp

lemma row_store_overrun:
  assumes "schedule T lanes" "0 < T" "0 < V" "off \<le> length out" "length out < off + n"
  shows "row_store V T n off v lanes out = None"
proof -
  obtain i where i: "i < n" "length out \<le> off + i"
    by (rule that [of "length out - off"]) (use assms(4,5) in simp_all)
  have "row_store V T n off v lanes out = foldM (\<lambda>i out. do { x \<leftarrow> v i; wr out (off + i) x }) (concat (map (lane_indices V T n) lanes)) out"
    by (simp add: row_store_def foldM_concat foldM_map)
  also have "\<dots> = None"
  proof (rule foldM_overrun [where P = "\<lambda>m. length m = length out" and x = i])
    show "i \<in> set (concat (map (lane_indices V T n) lanes))" using lane_indices_distinct(2) [OF assms(1-3)] i(1) by blast
  next
    fix y and m m' :: "'a list" assume "length m = length out" "(do { x \<leftarrow> v y; wr m (off + y) x }) = Some m'"
    then show "length m' = length out" by (auto simp: bind_eq_Some_conv wr_eq_Some_iff)
  next
    fix m :: "'a list" assume "length m = length out"
    then show "(do { x \<leftarrow> v i; wr m (off + i) x }) = None" using i(2) by (cases "v i") (simp_all add: wr_def)
  qed simp
  finally show ?thesis .
qed

text \<open>C37: Linear attention is attention without softmax: for heads of up to 64 elements, in exact arithmetic and any order of heads and items,
  the two passes over the key-value state give each output row the mean of all value rows weighted by the products of the query with the keys, with
  the constant added to the sum of the weights; the state costs a pass over the sequence where the definition costs one for each query.  A larger head
  overruns the local memory.\<close>

theorem linear_attn_exact:
  assumes sched: "schedule n_heads sched" and lanes: "\<And>head p. schedule kRowThreads (lanes head p)"
    and loc: "\<And>head. length (fst (local head)) = kMaxDim * kMaxDim" "\<And>head. length (snd (local head)) = kMaxDim"
    and len: "length Q = n_heads * (seq * n_dim)" "length K = n_heads * (seq * n_dim)" "length V = n_heads * (seq * n_dim)" "length out = n_heads * (seq * n_dim)"
  shows "linear_attn ld st eps Q K V seq n_dim sched lanes local out =
    (if n_dim \<le> kMaxDim \<or> n_heads = 0
     then Some (map (\<lambda>a. la_out ld st eps Q K V seq n_dim (a div (seq * n_dim)) (a mod (seq * n_dim) div n_dim) (a mod (seq * n_dim) mod n_dim)) [0..<n_heads * (seq * n_dim)])
     else None)"
proof (cases "n_dim \<le> kMaxDim \<or> n_heads = 0")
  case True
  have "foldM (la_item ld st eps Q K V seq n_dim lanes local) sched out =
      Some (map (\<lambda>a. la_out ld st eps Q K V seq n_dim (a div (seq * n_dim)) (a mod (seq * n_dim) div n_dim) (a mod (seq * n_dim) mod n_dim)) [0..<n_heads * (seq * n_dim)])"
  proof (rule rows_launch [OF sched len(4)])
    fix r and m :: "'a list" assume r: "r < n_heads" "length m = n_heads * (seq * n_dim)"
    then have "n_dim \<le> kMaxDim" using True by simp
    from la_item_writes [where lanes = lanes and local = local, OF lanes r(1) this loc len(1-3) r(2)]
    show "\<exists>m'. la_item ld st eps Q K V seq n_dim lanes local r m = Some m' \<and> writes (row_cells (seq * n_dim) r)
        (\<lambda>a. la_out ld st eps Q K V seq n_dim r ((a - r * (seq * n_dim)) div n_dim) ((a - r * (seq * n_dim)) mod n_dim)) m m'" .
  qed
  then show ?thesis using True by (simp only: linear_attn_def if_True)
next
  case False
  then have "kMaxDim * kMaxDim < 0 + n_dim * n_dim" by (simp add: mult_strict_mono)
  then have "la_item ld st eps Q K V seq n_dim lanes local head m = None" for head m
    unfolding la_item_def Let_def by (subst row_store_overrun [OF lanes kRowThreads_pos]) (simp_all add: loc)
  moreover obtain s ss where "sched = s # ss" using False sched by (cases sched) (auto simp: schedule_def)
  ultimately show ?thesis using False by (simp add: linear_attn_def)
qed

lemma linear_attn_exact_witness:
  "linear_attn (id :: real \<Rightarrow> real) id (1 / 2) [2, 3] [1, 5] [10, 20] 2 1 [0] (\<lambda>head p. rev [0..<kRowThreads]) (\<lambda>head. (replicate 4096 9, replicate 64 9)) [0, 0] =
    Some [(2 * 10 + 10 * 20) / (25 / 2), (3 * 10 + 15 * 20) / (37 / 2)]"
proof -
  have u: "[0..<2] = [0, 1 :: nat]" by (simp add: upt_rec)
  have l: "{..<2 :: nat} = {0, 1}" "{..<Suc 0} = {0}" by auto
  have "schedule 1 [0]" by (auto simp: schedule_def)
  then show ?thesis
    using linear_attn_exact [of 1 "[0]" "\<lambda>head p. rev [0..<kRowThreads]" "\<lambda>head. (replicate 4096 9, replicate 64 9)" "[2, 3 :: real]" 2 1 "[1, 5]" "[10, 20]" "[0, 0 :: real]" id id "1 / 2"]
    by (simp add: kMaxDim_def u l la_out_def la_weight_def)
qed

subsection \<open>Mixing of residual streams\<close>

lemma hc_post_exact:
  fixes residual x out :: "'t list"
  assumes sched: "schedule (tokens * n_streams * hidden) sched" and n: "0 < n_streams" "n_streams \<le> kMaxStreams"
    and len: "length comb = tokens * n_streams * n_streams" "length residual = tokens * n_streams * hidden" "length post_mix = tokens * n_streams"
      "length x = tokens * hidden" "length out = tokens * n_streams * hidden"
  shows "dsv4_hc_post ld st comb residual post_mix x n_streams hidden sched out =
    Some (map (\<lambda>a. let h = a mod hidden; t = a div hidden div n_streams; o' = a div hidden mod n_streams in
      st (post_mix ! (t * n_streams + o') * ld (x ! (t * hidden + h)) +
        (\<Sum>i<n_streams. comb ! ((t * n_streams + i) * n_streams + o') * ld (residual ! ((t * n_streams + i) * hidden + h))))) [0..<tokens * n_streams * hidden])"
    (is "_ = Some (map ?v _)")
proof -
  have "foldM (hc_post_item ld st comb residual post_mix x n_streams hidden) sched out = Some (map ?v [0..<tokens * n_streams * hidden])"
  proof (rule launch_store [OF sched len(5)])
    fix a and m :: "'t list" assume a: "a < tokens * n_streams * hidden" and m: "length m = tokens * n_streams * hidden"
    let ?h = "a mod hidden" and ?t = "a div hidden div n_streams" and ?o = "a div hidden mod n_streams"
    have h: "?h < hidden" using a by (cases hidden) auto
    have d: "a div hidden < tokens * n_streams" using less_mult_imp_div_less [OF a] .
    have t: "?t < tokens" using less_mult_imp_div_less [OF d] .
    have s: "?o < n_streams" using n(1) by simp
    have "foldM (\<lambda>i acc. do { c \<leftarrow> rd comb ((?t * n_streams + i) * n_streams + ?o); r \<leftarrow> rd residual ((?t * n_streams + i) * hidden + ?h); Some (acc + c * ld r) }) [0..<n_streams]
        (post_mix ! (?t * n_streams + ?o) * ld (x ! (?t * hidden + ?h))) =
      Some (post_mix ! (?t * n_streams + ?o) * ld (x ! (?t * hidden + ?h)) +
        (\<Sum>i<n_streams. comb ! ((?t * n_streams + i) * n_streams + ?o) * ld (residual ! ((?t * n_streams + i) * hidden + ?h))))"
      by (rule sum_loop) (use div_mult_add_lt [OF div_mult_add_lt [OF t] s] div_mult_add_lt [OF div_mult_add_lt [OF t] h] len(1,2) in simp)
    moreover have "rd post_mix (?t * n_streams + ?o) = Some (post_mix ! (?t * n_streams + ?o))" "rd x (?t * hidden + ?h) = Some (x ! (?t * hidden + ?h))"
      using div_mult_add_lt [OF t s] div_mult_add_lt [OF t h] len(3,4) by simp_all
    ultimately show "hc_post_item ld st comb residual post_mix x n_streams hidden a m = wr m a (?v a)"
      unfolding hc_post_item_def Let_def by (simp only: bind.bind_lunit)
  qed
  then show ?thesis using n by (simp add: dsv4_hc_post_def)
qed

end
