(* ===== verification/Dispatch.thy ===== *)
theory Dispatch
  imports Pointwise Dense Norms
begin

text \<open>
  The dispatch layer (\<open>src/dispatch/*.cpp\<close>) where it decides something: the choice between the native kernel and oneDNN for the
  operations that have both, and the bias corrections of AdamW, which it computes on the host.  A launch is the value of the output buffer; what a
  oneDNN primitive leaves there is a parameter.  All other operations of the layer forward their arguments to the one entry point they have.
\<close>

section \<open>Variant routing\<close>

datatype GeluApprox = GeluErf | GeluTanh

datatype fp8_error = Fp8MatmulUnsupported | Fp8RequiresVendor

text \<open>The \<open>switch\<close> over a resolved variant; without oneDNN in the build its vendor case falls through to the native one.\<close>

definition vendor_switch :: "bool \<Rightarrow> Variant \<Rightarrow> 'a \<Rightarrow> 'a \<Rightarrow> 'a" where
  "vendor_switch has_onednn v onednn native =
     (case v of VVendor \<Rightarrow> if has_onednn then onednn else native | VSycl \<Rightarrow> native | VBest \<Rightarrow> native)"

definition ops_gelu :: "bool \<Rightarrow> f32 pmath \<Rightarrow> (DType \<Rightarrow> bool \<Rightarrow> 32 word list \<Rightarrow> nat \<Rightarrow> 32 word list \<Rightarrow> 32 word list option) \<Rightarrow>
    32 word list \<Rightarrow> nat \<Rightarrow> DType \<Rightarrow> GeluApprox \<Rightarrow> Variant \<Rightarrow> nat list \<Rightarrow> 32 word list \<Rightarrow> 32 word list option" where
  "ops_gelu has_onednn M gelu_onednn inp n dt approx variant sched out =
     (let tanh_approx = (approx = GeluTanh); v = resolve_variant has_onednn variant in
      vendor_switch has_onednn v (gelu_onednn dt tanh_approx inp n out) (gelu_sycl M dt tanh_approx inp n sched out))"

definition ops_softmax :: "bool \<Rightarrow> f32 gmath \<Rightarrow> (DType \<Rightarrow> 32 word list \<Rightarrow> nat \<Rightarrow> 32 word list \<Rightarrow> 32 word list option) \<Rightarrow>
    32 word list \<Rightarrow> nat \<Rightarrow> DType \<Rightarrow> Variant \<Rightarrow> nat list \<Rightarrow> (nat \<Rightarrow> nat list) \<Rightarrow> 32 word list \<Rightarrow> 32 word list option" where
  "ops_softmax has_onednn M softmax_onednn x n_dim dt variant sched lanes out =
     (let variant = if variant = VBest then (if dt = DF32 then VSycl else VVendor) else variant; v = resolve_variant has_onednn variant in
      vendor_switch has_onednn v (softmax_onednn dt x n_dim out) (softmax_sycl M dt x n_dim sched lanes out))"

definition ops_layernorm :: "bool \<Rightarrow> f32 gmath \<Rightarrow> (DType \<Rightarrow> 32 word list \<Rightarrow> 32 word list \<Rightarrow> 32 word list option \<Rightarrow> nat \<Rightarrow> f32 \<Rightarrow> 32 word list \<Rightarrow> 32 word list option) \<Rightarrow>
    32 word list \<Rightarrow> 32 word list \<Rightarrow> 32 word list option \<Rightarrow> nat \<Rightarrow> f32 \<Rightarrow> DType \<Rightarrow> Variant \<Rightarrow> nat list \<Rightarrow> (nat \<Rightarrow> nat list) \<Rightarrow> 32 word list \<Rightarrow> 32 word list option" where
  "ops_layernorm has_onednn M layernorm_onednn x weight bias n_dim eps dt variant sched lanes out =
     (let variant = if variant = VBest then VSycl else variant; v = resolve_variant has_onednn variant in
      vendor_switch has_onednn v (layernorm_onednn dt x weight bias n_dim eps out) (layernorm_sycl M dt x weight bias n_dim eps sched lanes out))"

text \<open>The compute-bound products prefer the vendor where there is one.\<close>

definition prefer_vendor :: "bool \<Rightarrow> Variant \<Rightarrow> Variant" where
  "prefer_vendor has_onednn variant =
     (if variant = VBest then (if variant_available has_onednn VVendor then VVendor else VSycl) else variant)"

definition ops_dense_gemm :: "bool \<Rightarrow> (DType \<Rightarrow> 32 word list \<Rightarrow> 32 word list \<Rightarrow> nat \<Rightarrow> nat \<Rightarrow> nat \<Rightarrow> 32 word list \<Rightarrow> 32 word list option) \<Rightarrow>
    32 word list \<Rightarrow> 32 word list \<Rightarrow> nat \<Rightarrow> nat \<Rightarrow> nat \<Rightarrow> DType \<Rightarrow> Variant \<Rightarrow> nat list \<Rightarrow> (nat \<Rightarrow> nat \<Rightarrow> nat list) \<Rightarrow> (nat \<Rightarrow> f32 list \<times> f32 list) \<Rightarrow> 32 word list \<Rightarrow> 32 word list option" where
  "ops_dense_gemm has_onednn gemm_onednn a b M N K dt variant sched lanes local c =
     vendor_switch has_onednn (resolve_variant has_onednn (prefer_vendor has_onednn variant)) (gemm_onednn dt a b M N K c)
       (dense_gemm_sycl dt a b M N K sched lanes local c)"

definition ops_qgemm_int8 :: "bool \<Rightarrow> f32 gmath \<Rightarrow> (DType \<Rightarrow> 8 word list \<Rightarrow> 8 word list \<Rightarrow> f32 list \<Rightarrow> f32 list \<Rightarrow> nat \<Rightarrow> nat \<Rightarrow> nat \<Rightarrow> 32 word list \<Rightarrow> 32 word list option) \<Rightarrow>
    8 word list \<Rightarrow> 8 word list \<Rightarrow> f32 list \<Rightarrow> f32 list \<Rightarrow> nat \<Rightarrow> nat \<Rightarrow> nat \<Rightarrow> DType \<Rightarrow> Variant \<Rightarrow> nat list \<Rightarrow> (nat \<Rightarrow> nat \<Rightarrow> nat list) \<Rightarrow> (nat \<Rightarrow> 8 word list \<times> 8 word list) \<Rightarrow> 32 word list \<Rightarrow>
    32 word list option" where
  "ops_qgemm_int8 has_onednn Q qgemm_onednn a b a_scale b_scale M N K dt variant sched lanes local c =
     vendor_switch has_onednn (resolve_variant has_onednn (prefer_vendor has_onednn variant)) (qgemm_onednn dt a b a_scale b_scale M N K c)
       (qgemm_int8_sycl Q dt a b a_scale b_scale M N K sched lanes local c)"

text \<open>The FP8 product has a native kernel for one row only.  The oneDNN primitive may refuse (\<open>None\<close>).\<close>

definition ops_fp8_gemm :: "bool \<Rightarrow> f32 gmath \<Rightarrow> (8 word list \<Rightarrow> 8 word list \<Rightarrow> nat \<Rightarrow> nat \<Rightarrow> nat \<Rightarrow> int \<Rightarrow> f32 \<Rightarrow> DType \<Rightarrow> 32 word list option) \<Rightarrow>
    8 word list \<Rightarrow> 8 word list \<Rightarrow> nat \<Rightarrow> nat \<Rightarrow> nat \<Rightarrow> int \<Rightarrow> f32 \<Rightarrow> DType \<Rightarrow> Variant \<Rightarrow> (nat \<Rightarrow> f32 list) \<Rightarrow> (nat \<Rightarrow> nat list) \<Rightarrow> nat list \<Rightarrow> 32 word list \<Rightarrow> fp8_error + 32 word list option" where
  "ops_fp8_gemm has_onednn Q fp8_onednn a b M N K kind scale dt variant scratch sched1 sched2 c =
     (if M = 1 \<and> variant \<noteq> VVendor then Inr (fp8_gemv_sycl Q dt a b N K kind scale scratch sched1 sched2 c)
      else if has_onednn then (case fp8_onednn a b M N K kind scale dt of None \<Rightarrow> Inl Fp8MatmulUnsupported | Some c \<Rightarrow> Inr (Some c))
      else Inl Fp8RequiresVendor)"

definition ops_fp8_gemm_w8a16 :: "bool \<Rightarrow> f32 gmath \<Rightarrow> (32 word list \<Rightarrow> 8 word list \<Rightarrow> f32 list \<Rightarrow> bool \<Rightarrow> nat \<Rightarrow> nat \<Rightarrow> nat \<Rightarrow> int \<Rightarrow> DType \<Rightarrow> 32 word list option) \<Rightarrow>
    32 word list \<Rightarrow> 8 word list \<Rightarrow> f32 list \<Rightarrow> nat \<Rightarrow> nat \<Rightarrow> nat \<Rightarrow> int \<Rightarrow> bool \<Rightarrow> DType \<Rightarrow> Variant \<Rightarrow> nat list \<Rightarrow> 32 word list \<Rightarrow> 32 word list option" where
  "ops_fp8_gemm_w8a16 has_onednn Q w8a16_onednn x w weight_scale M N K kind per_channel dt variant sched out =
     (case (if (variant = VVendor \<or> variant = VBest \<and> M > 1) \<and> has_onednn then w8a16_onednn x w weight_scale per_channel M N K kind dt else None) of
        Some out \<Rightarrow> Some out
      | None \<Rightarrow> fp8_gemm_w8a16_sycl Q kind dt w weight_scale per_channel x N K sched out)"

definition ops_fp8_encode :: "bool \<Rightarrow> (f32 list \<Rightarrow> nat \<Rightarrow> int \<Rightarrow> 8 word list) \<Rightarrow> f32 list \<Rightarrow> nat \<Rightarrow> int \<Rightarrow> fp8_error + 8 word list" where
  "ops_fp8_encode has_onednn fp8_from_f32 inp n kind = (if has_onednn then Inr (fp8_from_f32 inp n kind) else Inl Fp8RequiresVendor)"

definition ops_fp8_decode :: "bool \<Rightarrow> (8 word list \<Rightarrow> nat \<Rightarrow> int \<Rightarrow> f32 list) \<Rightarrow> 8 word list \<Rightarrow> nat \<Rightarrow> int \<Rightarrow> fp8_error + f32 list" where
  "ops_fp8_decode has_onednn fp8_to_f32 inp n kind = (if has_onednn then Inr (fp8_to_f32 inp n kind) else Inl Fp8RequiresVendor)"

lemmas dispatch_defs = vendor_switch_def prefer_vendor_def ops_gelu_def ops_softmax_def ops_layernorm_def ops_dense_gemm_def ops_qgemm_int8_def ops_fp8_gemm_def
  ops_fp8_gemm_w8a16_def ops_fp8_encode_def ops_fp8_decode_def

section \<open>AdamW with its bias corrections\<close>

text \<open>\<open>pw\<close> is \<open>std::pow\<close>.\<close>

definition ops_adamw :: "('f::{plus,minus,times,inverse,one}, 'z) pmath_scheme \<Rightarrow> ('f \<Rightarrow> 'f \<Rightarrow> 'f) \<Rightarrow> ('t \<Rightarrow> 'f) \<Rightarrow> ('f \<Rightarrow> 't) \<Rightarrow> 't list \<Rightarrow> 'f \<Rightarrow> 'f \<Rightarrow> 'f \<Rightarrow> 'f \<Rightarrow> 'f \<Rightarrow> int \<Rightarrow> nat list \<Rightarrow>
    't list \<times> 't list \<times> 't list \<Rightarrow> ('t list \<times> 't list \<times> 't list) option" where
  "ops_adamw M pw ld st g lr beta1 beta2 eps weight_decay step sched s =
     (let bc1 = 1 - pw beta1 (of_num M step);
          bc2 = 1 - pw beta2 (of_num M step) in
      adamw M ld st g lr beta1 beta2 eps weight_decay bc1 bc2 sched s)"

text \<open>The specification: an exponentially weighted mean, its weights summing to one, and the path of one parameter.\<close>

definition ema :: "real \<Rightarrow> (nat \<Rightarrow> real) \<Rightarrow> nat \<Rightarrow> real" where
  "ema b x T = (\<Sum>k<T. b ^ (T - 1 - k) * x k)"

definition ema_mean :: "real \<Rightarrow> (nat \<Rightarrow> real) \<Rightarrow> nat \<Rightarrow> real" where
  "ema_mean b x T = ema b x T / ema b (\<lambda>_. 1) T"

primrec adam_path :: "real \<Rightarrow> real \<Rightarrow> real \<Rightarrow> real \<Rightarrow> real \<Rightarrow> (nat \<Rightarrow> real) \<Rightarrow> real \<Rightarrow> nat \<Rightarrow> real" where
  "adam_path lr b1 b2 eps wd g x0 0 = x0"
| "adam_path lr b1 b2 eps wd g x0 (Suc T) = adam_path lr b1 b2 eps wd g x0 T -
     lr * (ema_mean b1 g (Suc T) / (sqrt (ema_mean b2 (\<lambda>k. (g k)\<^sup>2) (Suc T)) + eps) + wd * adam_path lr b1 b2 eps wd g x0 T)"

lemma ema_Suc: "ema b x (Suc T) = b * ema b x T + x T"
proof -
  have "(\<Sum>k<T. b ^ (T - k) * x k) = (\<Sum>k<T. b * (b ^ (T - 1 - k) * x k))"
  proof (rule sum.cong)
    fix k assume "k \<in> {..<T}"
    then have "T - k = Suc (T - 1 - k)" by auto
    then show "b ^ (T - k) * x k = b * (b ^ (T - 1 - k) * x k)" by simp
  qed simp
  then show ?thesis by (simp add: ema_def sum_distrib_left)
qed

lemma ema_0 [simp]: "ema b x 0 = 0"
  by (simp add: ema_def)

lemma ema_norm: "(1 - b) * ema b (\<lambda>_. 1) T = 1 - b ^ T"
proof (induction T)
  case (Suc T)
  have "(1 - b) * ema b (\<lambda>_. 1) (Suc T) = b * ((1 - b) * ema b (\<lambda>_. 1) T) + (1 - b)" by (simp add: ema_Suc algebra_simps)
  also have "\<dots> = 1 - b ^ Suc T" unfolding Suc.IH by (simp add: algebra_simps)
  finally show ?case .
qed simp

text \<open>The corrected moment is the weighted mean.\<close>

lemma corrected_mean:
  assumes b: "0 \<le> b" "b < 1"
  shows "(1 - b) * ema b x (Suc T) / (1 - b powr (real T + 1)) = ema_mean b x (Suc T)"
proof -
  have "b powr (real T + 1) = b ^ Suc T" using powr_realpow [of b "Suc T"] b(1) by (cases "b = 0") (simp_all add: add.commute)
  then have "1 - b powr (real T + 1) = (1 - b) * ema b (\<lambda>_. 1) (Suc T)" using ema_norm [of b "Suc T"] by simp
  then show ?thesis using b(2) by (simp add: ema_mean_def)
qed

lemma adamw_launch:
  fixes p m v g :: "real list" and b1 b2 :: real
  assumes sched: "schedule n sched" and len: "length p = n" "length m = n" "length v = n" "length g = n"
  defines "mi \<equiv> \<lambda>i. b1 * m ! i + (1 - b1) * g ! i" and "vi \<equiv> \<lambda>i. b2 * v ! i + (1 - b2) * (g ! i)\<^sup>2"
  shows "adamw exact_pmath id id g lr b1 b2 eps wd bc1 bc2 sched (p, m, v) =
    Some (map (\<lambda>i. p ! i - lr * (mi i / bc1 / (sqrt (vi i / bc2) + eps) + wd * p ! i)) [0..<n], map mi [0..<n], map vi [0..<n])"
proof -
  let ?pi = "\<lambda>i. p ! i - lr * (mi i / bc1 / (sqrt (vi i / bc2) + eps) + wd * p ! i)"
  have "\<exists>s. foldM (adamw_item exact_pmath id id g lr b1 b2 eps wd bc1 bc2) sched (p, m, v) = Some s \<and>
    (case s of (p', m', v') \<Rightarrow> writes {..<n} ?pi p p' \<and> writes {..<n} mi m m' \<and> writes {..<n} vi v v')"
  proof (rule foldM_schedule [OF sched, where P = "\<lambda>D s. case s of (p', m', v') \<Rightarrow> writes D ?pi p p' \<and> writes D mi m m' \<and> writes D vi v v'"])
    fix D i and s :: "real list \<times> real list \<times> real list"
    obtain p' m' v' where s: "s = (p', m', v')" by (cases s)
    assume i: "i < n" "i \<notin> D" and P: "case s of (p', m', v') \<Rightarrow> writes D ?pi p p' \<and> writes D mi m m' \<and> writes D vi v v'"
    then have cells: "p' ! i = p ! i" "m' ! i = m ! i" "v' ! i = v ! i" "length p' = n" "length m' = n" "length v' = n"
      using len by (simp_all add: s writes_def)
    have "adamw_item exact_pmath id id g lr b1 b2 eps wd bc1 bc2 i s = Some (p'[i := ?pi i], m'[i := mi i], v'[i := vi i])"
      using cells i len by (simp add: s adamw_item_def mi_def vi_def Let_def power2_eq_square mult.assoc)
    moreover have "writes (insert i D) ?pi p (p'[i := ?pi i])" "writes (insert i D) mi m (m'[i := mi i])" "writes (insert i D) vi v (v'[i := vi i])"
      using P i cells len by (auto simp: s writes_def nth_list_update)
    ultimately show "\<exists>s'. adamw_item exact_pmath id id g lr b1 b2 eps wd bc1 bc2 i s = Some s' \<and>
        (case s' of (p', m', v') \<Rightarrow> writes (insert i D) ?pi p p' \<and> writes (insert i D) mi m m' \<and> writes (insert i D) vi v v')" by auto
  qed simp
  then show ?thesis using len by (auto simp: adamw_def dest!: writes_map_upt)
qed

text \<open>C36: AdamW from zero moments, in exact arithmetic: whatever the order of the items in every launch, after \<open>T\<close> steps each parameter has followed, at every step, the ratio of
  the exponentially weighted mean of its gradients to the root of the weighted mean of their squares, with decoupled weight decay; the bias corrections
  make the weights sum to one at every step, the first included.\<close>

theorem adamw_bias_corrected:
  assumes b1: "0 \<le> b1" "b1 < 1" and b2: "0 \<le> b2" "b2 < 1" and sched: "\<And>t. schedule n (sched t)" and len: "length p = n" "\<And>t. length (g t) = n"
  shows "foldM (\<lambda>t. ops_adamw exact_pmath (powr) id id (g t) lr b1 b2 eps wd (int t + 1) (sched t)) [0..<T] (p, replicate n 0, replicate n 0) =
    Some (map (\<lambda>i. adam_path lr b1 b2 eps wd (\<lambda>t. g t ! i) (p ! i) T) [0..<n],
      map (\<lambda>i. (1 - b1) * ema b1 (\<lambda>t. g t ! i) T) [0..<n], map (\<lambda>i. (1 - b2) * ema b2 (\<lambda>t. (g t ! i)\<^sup>2) T) [0..<n])"
proof (induction T)
  case 0
  show ?case using len(1) map_nth [of p] by (simp add: map_replicate_const)
next
  case (Suc T)
  let ?s = "(map (\<lambda>i. adam_path lr b1 b2 eps wd (\<lambda>t. g t ! i) (p ! i) T) [0..<n],
      map (\<lambda>i. (1 - b1) * ema b1 (\<lambda>t. g t ! i) T) [0..<n], map (\<lambda>i. (1 - b2) * ema b2 (\<lambda>t. (g t ! i)\<^sup>2) T) [0..<n])"
  have m: "b * ((1 - b) * ema b x T) + (1 - b) * x T = (1 - b) * ema b x (Suc T)" for b x by (simp add: ema_Suc algebra_simps)
  have "ops_adamw exact_pmath (powr) id id (g T) lr b1 b2 eps wd (int T + 1) (sched T) ?s =
    Some (map (\<lambda>i. adam_path lr b1 b2 eps wd (\<lambda>t. g t ! i) (p ! i) (Suc T)) [0..<n],
      map (\<lambda>i. (1 - b1) * ema b1 (\<lambda>t. g t ! i) (Suc T)) [0..<n], map (\<lambda>i. (1 - b2) * ema b2 (\<lambda>t. (g t ! i)\<^sup>2) (Suc T)) [0..<n])"
    unfolding ops_adamw_def Let_def
    by (subst adamw_launch [OF sched]) (auto simp: len m [of b1 "\<lambda>t. g t ! i" for i] m [of b2 "\<lambda>t. (g t ! i)\<^sup>2" for i] corrected_mean [OF b1] corrected_mean [OF b2] simp del: divide_divide_eq_left)
  then show ?case by (simp only: upt_Suc_append [OF le0] foldM_append Suc.IH foldM.simps bind.bind_lunit)
qed

lemma adamw_bias_corrected_witness:
  "foldM (\<lambda>t. ops_adamw exact_pmath (powr) id id ([[3, - 2], [3, - 2]] ! (t mod 2)) 1 (1 / 2) (1 / 4) 0 0 (int t + 1) [1, 0]) [0..<1] ([7, 7], replicate 2 0, replicate 2 0) =
    Some ([6, 8], [3 / 2, - 1], [27 / 4, 3])"
proof -
  have len: "length ([[3, - 2], [3, - 2 :: real]] ! (t mod 2)) = 2" for t :: nat
    using mod_less_divisor [of 2 t] by (cases "t mod 2 = 0") (simp_all add: nth_Cons')
  have "schedule 2 [1, 0]" by (auto simp: schedule_def)
  from adamw_bias_corrected [of "1 / 2" "1 / 4" 2 "\<lambda>_. [1, 0]" "[7, 7]" "\<lambda>t. [[3, - 2], [3, - 2]] ! (t mod 2)" 1 0 0 1, OF _ _ _ _ this _ len]
  show ?thesis by (simp add: upt_rec ema_def ema_mean_def numeral_2_eq_2)
qed

section \<open>What a build without oneDNN does\<close>

text \<open>In a build without oneDNN every operation that has a native kernel runs it, whatever variant is asked for; only the FP8 product beyond
  one row, a vendor request for one row, and the FP8 codecs are refused, and refused with an error.  With oneDNN, the default choice is native for layer norm and
  for softmax in \<open>f32\<close>, the vendor for 16-bit softmax and for the products, and native for FP8 products of one row.\<close>

lemma variant_routing:
  "ops_gelu False P gelu_v inp n dt approx variant sched out = gelu_sycl P dt (approx = GeluTanh) inp n sched out \<and>
   ops_softmax False Q softmax_v inp n dt variant sched lanes out = softmax_sycl Q dt inp n sched lanes out \<and>
   ops_layernorm False Q ln_v inp w bias n eps dt variant sched lanes out = layernorm_sycl Q dt inp w bias n eps sched lanes out \<and>
   ops_dense_gemm False gemm_v inp w M N K dt variant sched items floc out = dense_gemm_sycl dt inp w M N K sched items floc out \<and>
   ops_qgemm_int8 False Q qgemm_v a b as bs M N K dt variant sched items bloc out = qgemm_int8_sycl Q dt a b as bs M N K sched items bloc out \<and>
   ops_fp8_gemm_w8a16 False Q w8_v inp a as M N K kind pc dt variant sched out = fp8_gemm_w8a16_sycl Q kind dt a as pc inp N K sched out \<and>
   ops_fp8_gemm False Q fp8_v a b M N K kind scale dt variant scratch sched1 sched2 out =
     (if M = 1 \<and> variant \<noteq> VVendor then Inr (fp8_gemv_sycl Q dt a b N K kind scale scratch sched1 sched2 out) else Inl Fp8RequiresVendor) \<and>
   ops_fp8_encode False enc as n kind = Inl Fp8RequiresVendor \<and> ops_fp8_decode False dec a n kind = Inl Fp8RequiresVendor \<and>
   ops_layernorm True Q ln_v inp w bias n eps dt VBest sched lanes out = layernorm_sycl Q dt inp w bias n eps sched lanes out \<and>
   ops_softmax True Q softmax_v inp n dt VBest sched lanes out = (if dt = DF32 then softmax_sycl Q dt inp n sched lanes out else softmax_v dt inp n out) \<and>
   ops_dense_gemm True gemm_v inp w M N K dt VBest sched items floc out = gemm_v dt inp w M N K out \<and>
   ops_fp8_gemm True Q fp8_v a b 1 N K kind scale dt VBest scratch sched1 sched2 out = Inr (fp8_gemv_sycl Q dt a b N K kind scale scratch sched1 sched2 out)"
  by (cases variant) (simp_all add: dispatch_defs)

end
