(* ===== verification/Centroids.thy ===== *)
theory Centroids
  imports Pointwise
begin

text \<open>
  The codebook of the TurboQuant keys: \<open>lloyd_max_centroids\<close> of \<open>turboquant_tables.hpp\<close>, which the host runs once for a head size and a
  number of bits.  It starts from equally spaced levels and repeats the step of Lloyd and Max, each level moving to the mean of a normal density
  over its cell, at most 200 times.  The number of bits is below 31, so \<open>1 << bits\<close> is \<open>2 ^ bits\<close>.  The arithmetic is a parameter, as are the literals (\<open>lm_consts\<close>).
\<close>

section \<open>The solver\<close>

record 'f lm_consts =
  lm_half :: 'f
  lm_support :: 'f
  lm_min_mass :: 'f
  lm_tol :: 'f
  lm_pi :: 'f

definition lm_pdf :: "('f::{times,uminus,inverse,one}, 'z) pmath_scheme \<Rightarrow> 'f lm_consts \<Rightarrow> 'f \<Rightarrow> 'f \<Rightarrow> 'f" where
  "lm_pdf M C sigma2 x = (1 / sqrt_fn M (of_num M 2 * lm_pi C * sigma2)) * exp_fn M (- x * x / (of_num M 2 * sigma2))"

definition trapz :: "('f::{plus,minus,times,inverse}, 'z) pmath_scheme \<Rightarrow> 'f lm_consts \<Rightarrow> ('f \<Rightarrow> 'f) \<Rightarrow> 'f \<Rightarrow> 'f \<Rightarrow> 'f" where
  "trapz M C f a b = (let h = (b - a) / of_num M 200 in
     fold (\<lambda>i result. result + f (a + of_num M (int i) * h)) [1..<200] (lm_half C * (f a + f b)) * h)"

definition lm_edges :: "('f::{plus,times}, 'z) pmath_scheme \<Rightarrow> 'f lm_consts \<Rightarrow> 'f \<Rightarrow> 'f \<Rightarrow> 'f list \<Rightarrow> 'f list" where
  "lm_edges M C lo hi centroids =
     lo * of_num M 3 # map (\<lambda>i. lm_half C * (centroids ! i + centroids ! (i + 1))) [0..<length centroids - 1] @ [hi * of_num M 3]"

definition lm_next :: "('f::{plus,minus,times,uminus,inverse,one,ord}, 'z) pmath_scheme \<Rightarrow> 'f lm_consts \<Rightarrow> 'f \<Rightarrow> 'f list \<Rightarrow> 'f list \<Rightarrow> nat \<Rightarrow> 'f" where
  "lm_next M C sigma2 edges centroids i =
     (let num = trapz M C (\<lambda>x. x * lm_pdf M C sigma2 x) (edges ! i) (edges ! (i + 1));
          den = trapz M C (lm_pdf M C sigma2) (edges ! i) (edges ! (i + 1)) in
      if den > lm_min_mass C then num / den else centroids ! i)"

definition lm_step :: "('f::{plus,minus,times,uminus,inverse,zero,one,ord}, 'z) pmath_scheme \<Rightarrow> 'f lm_consts \<Rightarrow> 'f \<Rightarrow> 'f \<Rightarrow> 'f \<Rightarrow> 'f list \<Rightarrow> 'f list \<times> 'f" where
  "lm_step M C sigma2 lo hi centroids =
     (let edges = lm_edges M C lo hi centroids;
          nxt = map (lm_next M C sigma2 edges centroids) [0..<length centroids];
          delta = fold (\<lambda>i delta. fmax delta (abs_fn M (nxt ! i - centroids ! i))) [0..<length centroids] 0 in
      (nxt, delta))"

primrec lm_iterate :: "('f::{plus,minus,times,uminus,inverse,zero,one,ord}, 'z) pmath_scheme \<Rightarrow> 'f lm_consts \<Rightarrow> 'f \<Rightarrow> 'f \<Rightarrow> 'f \<Rightarrow> nat \<Rightarrow> 'f list \<Rightarrow> 'f list" where
  "lm_iterate M C sigma2 lo hi 0 centroids = centroids"
| "lm_iterate M C sigma2 lo hi (Suc k) centroids =
     (let (nxt, delta) = lm_step M C sigma2 lo hi centroids in
      if delta < lm_tol C then nxt else lm_iterate M C sigma2 lo hi k nxt)"

definition lloyd_max_centroids :: "('f::{plus,minus,times,uminus,inverse,zero,one,ord}, 'z) pmath_scheme \<Rightarrow> 'f lm_consts \<Rightarrow> ('f \<Rightarrow> 's) \<Rightarrow> nat \<Rightarrow> nat \<Rightarrow> 's list" where
  "lloyd_max_centroids M C st d bits =
     (let n_levels = 2 ^ bits;
          sigma2 = 1 / of_num M (int d);
          sigma = sqrt_fn M sigma2;
          lo = - lm_support C * sigma; hi = lm_support C * sigma;
          centroids = map (\<lambda>i. lo + (hi - lo) * (of_num M (int i) + lm_half C) / of_num M (int n_levels)) [0..<n_levels] in
      map st (lm_iterate M C sigma2 lo hi 200 centroids))"

section \<open>The trapezoidal rule\<close>

definition exact_lm :: "real lm_consts" where
  "exact_lm = \<lparr>lm_half = 1 / 2, lm_support = 7 / 2, lm_min_mass = 1 / 10 ^ 15, lm_tol = 1 / 10 ^ 10, lm_pi = pi\<rparr>"

lemma exact_lm_simps [simp]:
  "lm_half exact_lm = 1 / 2" "lm_support exact_lm = 7 / 2" "lm_min_mass exact_lm = 1 / 10 ^ 15" "lm_tol exact_lm = 1 / 10 ^ 10" "lm_pi exact_lm = pi"
  by (simp_all add: exact_lm_def)

abbreviation trapz_at :: "real \<Rightarrow> real \<Rightarrow> nat \<Rightarrow> real" where
  "trapz_at a b i \<equiv> a + real i * ((b - a) / 200)"

lemma trapz_sum: "trapz exact_pmath exact_lm f a b = ((f a + f b) / 2 + (\<Sum>i = 1..<200. f (trapz_at a b i))) * ((b - a) / 200)"
proof -
  have "fold (\<lambda>i r. r + f (trapz_at a b i)) xs s = s + (\<Sum>i\<leftarrow>xs. f (trapz_at a b i))" for xs s
    by (induction xs arbitrary: s) simp_all
  then show ?thesis by (simp add: trapz_def sum_list_distinct_conv_sum_set add_divide_distrib)
qed

lemma weigh_lo: "((b - a) * fb / 2 + (X - a * Y)) * h = ((a * fa + b * fb) / 2 + X) * h - a * (((fa + fb) / 2 + Y) * h)" for a b h X Y :: real
  by (simp add: field_simps)

lemma weigh_hi: "((b - a) * fa / 2 + (b * Y - X)) * h = b * (((fa + fb) / 2 + Y) * h) - ((a * fa + b * fb) / 2 + X) * h" for a b h X Y :: real
  by (simp add: field_simps)

text \<open>The quotient of the two integrals is a weighted mean of points of the cell.\<close>

lemma trapz_mean:
  assumes ab: "a < b" and f: "\<And>x. 0 < f x"
  shows "a * trapz exact_pmath exact_lm f a b < trapz exact_pmath exact_lm (\<lambda>x. x * f x) a b"
    "trapz exact_pmath exact_lm (\<lambda>x. x * f x) a b < b * trapz exact_pmath exact_lm f a b"
proof -
  let ?S = "\<lambda>g. \<Sum>i = 1..<200. g (trapz_at a b i)"
  have h: "0 < (b - a) / 200" using ab by simp
  have at: "a \<le> trapz_at a b i \<and> trapz_at a b i \<le> b" if "i \<in> {1..<200}" for i
  proof -
    have "real i * ((b - a) / 200) \<le> 200 * ((b - a) / 200)" using that h by (intro mult_right_mono) simp_all
    then show ?thesis using h by simp
  qed
  have lo: "?S (\<lambda>x. (x - a) * f x) = ?S (\<lambda>x. x * f x) - a * ?S f" and hi: "?S (\<lambda>x. (b - x) * f x) = b * ?S f - ?S (\<lambda>x. x * f x)"
    by (simp_all only: left_diff_distrib sum_subtractf sum_distrib_left)
  have T: "trapz exact_pmath exact_lm (\<lambda>x. x * f x) a b = ((a * f a + b * f b) / 2 + ?S (\<lambda>x. x * f x)) * ((b - a) / 200)"
    "trapz exact_pmath exact_lm f a b = ((f a + f b) / 2 + ?S f) * ((b - a) / 200)"
    by (rule trapz_sum)+
  have "0 \<le> ?S (\<lambda>x. (x - a) * f x)" using at f by (intro sum_nonneg mult_nonneg_nonneg) (simp_all add: less_imp_le)
  then have "0 < (b - a) * f b / 2 + ?S (\<lambda>x. (x - a) * f x)" using ab f [of b] by (intro add_pos_nonneg) simp_all
  then have "0 < ((b - a) * f b / 2 + ?S (\<lambda>x. (x - a) * f x)) * ((b - a) / 200)" using h by (rule mult_pos_pos)
  also have "\<dots> = trapz exact_pmath exact_lm (\<lambda>x. x * f x) a b - a * trapz exact_pmath exact_lm f a b"
    unfolding lo T by (rule weigh_lo)
  finally show "a * trapz exact_pmath exact_lm f a b < trapz exact_pmath exact_lm (\<lambda>x. x * f x) a b" by simp
  have "0 \<le> ?S (\<lambda>x. (b - x) * f x)" using at f by (intro sum_nonneg mult_nonneg_nonneg) (simp_all add: less_imp_le)
  then have "0 < (b - a) * f a / 2 + ?S (\<lambda>x. (b - x) * f x)" using ab f [of a] by (intro add_pos_nonneg) simp_all
  then have "0 < ((b - a) * f a / 2 + ?S (\<lambda>x. (b - x) * f x)) * ((b - a) / 200)" using h by (rule mult_pos_pos)
  also have "\<dots> = b * trapz exact_pmath exact_lm f a b - trapz exact_pmath exact_lm (\<lambda>x. x * f x) a b"
    unfolding hi T by (rule weigh_hi)
  finally show "trapz exact_pmath exact_lm (\<lambda>x. x * f x) a b < b * trapz exact_pmath exact_lm f a b" by simp
qed

lemma trapz_neg: "trapz exact_pmath exact_lm (\<lambda>x. - f x) a b = - trapz exact_pmath exact_lm f a b"
proof -
  have "((- u + - v) / 2 + - S) * h = - (((u + v) / 2 + S) * h)" for u v S h :: real by (simp add: field_simps)
  then show ?thesis unfolding trapz_sum sum_negf .
qed

lemma trapz_mirror: "trapz exact_pmath exact_lm f (- b) (- a) = trapz exact_pmath exact_lm (\<lambda>x. f (- x)) a b"
proof -
  have "(\<Sum>i = 1..<200. f (trapz_at (- b) (- a) i)) = (\<Sum>i = 1..<200. f (- trapz_at a b i))"
  proof (rule sum.reindex_bij_witness [where i = "\<lambda>i. 200 - i" and j = "\<lambda>i. 200 - i"])
    fix i :: nat assume "i \<in> {1..<200}"
    then have "real (200 - i) = 200 - real i" by (simp add: of_nat_diff)
    then show "f (- trapz_at a b (200 - i)) = f (trapz_at (- b) (- a) i)"
      by (intro arg_cong [where f = f]) (simp add: field_simps)
  qed auto
  then show ?thesis by (simp add: trapz_sum)
qed

section \<open>The codebook stays ordered\<close>

text \<open>An increasing list of levels inside the outer edges.\<close>

definition lm_levels :: "real \<Rightarrow> nat \<Rightarrow> real list \<Rightarrow> bool" where
  "lm_levels hi n c \<longleftrightarrow> length c = n \<and> (\<forall>i. Suc i < n \<longrightarrow> c ! i < c ! Suc i) \<and> (\<forall>i<n. \<bar>c ! i\<bar> < 3 * hi)"

definition lm_mirrored :: "nat \<Rightarrow> real list \<Rightarrow> bool" where
  "lm_mirrored n c \<longleftrightarrow> (\<forall>i<n. c ! (n - 1 - i) = - (c ! i))"

abbreviation edges :: "real \<Rightarrow> real list \<Rightarrow> real list" where
  "edges hi c \<equiv> lm_edges exact_pmath exact_lm (- hi) hi c"

lemma edges_nth:
  assumes "length c = n" "i \<le> n"
  shows "edges hi c ! i = (if i = 0 then - (3 * hi) else if i = n then 3 * hi else (c ! (i - 1) + c ! i) / 2)"
proof (cases i)
  case (Suc k)
  then show ?thesis using assms by (cases "k = n - 1") (auto simp: lm_edges_def nth_append)
qed (simp add: lm_edges_def)

text \<open>Every level lies in its cell, and the cells follow one another.\<close>

lemma level_in_cell:
  assumes c: "lm_levels hi n c" and i: "i < n"
  shows "edges hi c ! i < c ! i" "c ! i < edges hi c ! Suc i" "- (3 * hi) \<le> edges hi c ! i" "edges hi c ! Suc i \<le> 3 * hi"
proof -
  have l: "length c = n" and b: "\<And>j. j < n \<Longrightarrow> \<bar>c ! j\<bar> < 3 * hi" using c by (simp_all add: lm_levels_def)
  have m: "c ! (i - 1) < c ! i" if "0 < i" using c i that unfolding lm_levels_def by (metis Suc_pred')
  have m': "c ! i < c ! Suc i" if "Suc i \<noteq> n" using c i that by (simp add: lm_levels_def)
  show "edges hi c ! i < c ! i" using edges_nth [OF l, of i hi] i b [of i] m by (cases "i = 0") auto
  show "c ! i < edges hi c ! Suc i" using edges_nth [OF l, of "Suc i" hi] i b [of i] m' by (cases "Suc i = n") auto
  show "- (3 * hi) \<le> edges hi c ! i" using edges_nth [OF l, of i hi] i b [of i] b [OF less_imp_diff_less [OF i, of 1]] by (cases "i = 0") auto
  show "edges hi c ! Suc i \<le> 3 * hi" using edges_nth [OF l, of "Suc i" hi] i b [of i] b [of "Suc i"] by (cases "Suc i = n") auto
qed

lemma lm_pdf_pos: "0 < sigma2 \<Longrightarrow> 0 < lm_pdf exact_pmath exact_lm sigma2 x"
  by (simp add: lm_pdf_def)

lemma lm_pdf_even: "lm_pdf exact_pmath exact_lm sigma2 (- x) = lm_pdf exact_pmath exact_lm sigma2 x"
  by (simp add: lm_pdf_def)

lemma lm_next_in_cell:
  assumes s2: "0 < sigma2" and c: "lm_levels hi n c" and i: "i < n"
  shows "edges hi c ! i < lm_next exact_pmath exact_lm sigma2 (edges hi c) c i \<and> lm_next exact_pmath exact_lm sigma2 (edges hi c) c i < edges hi c ! Suc i"
proof -
  let ?a = "edges hi c ! i" and ?b = "edges hi c ! Suc i" and ?p = "lm_pdf exact_pmath exact_lm sigma2"
  note cell = level_in_cell(1,2) [OF c i]
  then have ab: "?a < ?b" by simp
  note m = trapz_mean [OF ab lm_pdf_pos [OF s2]]
  show ?thesis
  proof (cases "trapz exact_pmath exact_lm ?p ?a ?b > 1 / 10 ^ 15")
    case True
    moreover from this have "0 < trapz exact_pmath exact_lm ?p ?a ?b" by (rule less_trans [rotated]) simp
    ultimately show ?thesis using m by (simp add: lm_next_def Let_def pos_less_divide_eq pos_divide_less_eq)
  next
    case False
    then show ?thesis using cell by (simp add: lm_next_def Let_def)
  qed
qed

lemma lm_step_levels:
  assumes s2: "0 < sigma2" and c: "lm_levels hi n c"
  shows "lm_levels hi n (fst (lm_step exact_pmath exact_lm sigma2 (- hi) hi c))"
proof -
  let ?x = "lm_next exact_pmath exact_lm sigma2 (edges hi c) c"
  note cell = lm_next_in_cell [OF s2 c] and out = level_in_cell(3,4) [OF c]
  have l: "length c = n" using c by (simp add: lm_levels_def)
  have "?x i < ?x (Suc i)" if "Suc i < n" for i using cell [of i] cell [of "Suc i"] that by simp
  moreover have "\<bar>?x i\<bar> < 3 * hi" if "i < n" for i using cell [OF that] out [OF that] by (auto simp: abs_less_iff)
  ultimately show ?thesis using l by (simp add: lm_levels_def lm_step_def Let_def)
qed

lemma lm_step_mirrored:
  assumes s2: "0 < sigma2" and c: "lm_levels hi n c" and m: "lm_mirrored n c"
  shows "lm_mirrored n (fst (lm_step exact_pmath exact_lm sigma2 (- hi) hi c))"
proof -
  have l: "length c = n" using c by (simp add: lm_levels_def)
  let ?e = "edges hi c" and ?p = "lm_pdf exact_pmath exact_lm sigma2"
  have e: "?e ! (n - i) = - (?e ! i)" if i: "i \<le> n" "0 < n" for i
  proof (cases "i = 0 \<or> i = n")
    case True
    then show ?thesis using edges_nth [OF l, of i hi] edges_nth [OF l, of "n - i" hi] i by auto
  next
    case False
    then have "i - 1 < n" using i by auto
    with False have "c ! (n - i - 1) = - (c ! i)" "c ! (n - i) = - (c ! (i - 1))"
      using m [unfolded lm_mirrored_def, rule_format, of i] m [unfolded lm_mirrored_def, rule_format, of "i - 1"] i by (simp_all add: diff_commute)
    then show ?thesis using edges_nth [OF l, of i hi] edges_nth [OF l, of "n - i" hi] i False by auto
  qed
  have "lm_next exact_pmath exact_lm sigma2 ?e c (n - 1 - i) = - lm_next exact_pmath exact_lm sigma2 ?e c i" if i: "i < n" for i
  proof -
    have ends: "?e ! (n - 1 - i) = - (?e ! Suc i)" "?e ! Suc (n - 1 - i) = - (?e ! i)" "c ! (n - 1 - i) = - (c ! i)"
      using e [of "Suc i"] e [of i] i m by (simp_all add: lm_mirrored_def Suc_diff_Suc)
    have "trapz exact_pmath exact_lm (\<lambda>x. - x * ?p (- x)) (?e ! i) (?e ! Suc i) = - trapz exact_pmath exact_lm (\<lambda>x. x * ?p x) (?e ! i) (?e ! Suc i)"
      by (simp add: lm_pdf_even trapz_neg)
    then show ?thesis using ends by (simp add: lm_next_def Let_def trapz_mirror lm_pdf_even)
  qed
  then show ?thesis using l by (simp add: lm_mirrored_def lm_step_def Let_def)
qed

lemma lm_iterate_inv:
  assumes "0 < sigma2" "lm_levels hi n c" "lm_mirrored n c"
  shows "lm_levels hi n (lm_iterate exact_pmath exact_lm sigma2 (- hi) hi k c) \<and> lm_mirrored n (lm_iterate exact_pmath exact_lm sigma2 (- hi) hi k c)"
  using assms(2,3)
proof (induction k arbitrary: c)
  case (Suc k)
  then show ?case
    using lm_step_levels [OF assms(1) Suc.prems(1)] lm_step_mirrored [OF assms(1) Suc.prems] by (simp add: case_prod_unfold Let_def)
qed simp

lemma lm_start:
  assumes hi: "0 < hi" and n: "0 < n"
  defines "c \<equiv> map (\<lambda>i. - hi + (hi - - hi) * (real i + 1 / 2) / real n) [0..<n]"
  shows "lm_levels hi n c" "lm_mirrored n c"
proof -
  have at: "c ! i = hi * ((2 * real i + 1) / real n - 1)" if "i < n" for i using that n by (simp add: c_def field_simps)
  have "\<bar>(2 * real i + 1) / real n - 1\<bar> < 3" if "i < n" for i
  proof -
    have "(2 * real i + 1) / real n < 2" "0 < (2 * real i + 1) / real n" using that by (simp_all add: field_simps)
    then show ?thesis by (simp add: abs_less_iff)
  qed
  then have "\<bar>c ! i\<bar> < 3 * hi" if "i < n" for i using at [OF that] that hi by (simp add: abs_mult)
  moreover have "c ! i < c ! Suc i" if "Suc i < n" for i using at [of i] at [of "Suc i"] that hi n by (simp add: divide_strict_right_mono)
  ultimately show "lm_levels hi n c" by (simp add: lm_levels_def c_def)
  have eq: "(2 * real (n - 1 - i) + 1) / real n - 1 = - ((2 * real i + 1) / real n - 1)" if "i < n" for i
    using that n by (simp add: of_nat_diff field_simps)
  have "c ! (n - 1 - i) = - (c ! i)" if i: "i < n" for i
  proof -
    have "c ! (n - 1 - i) = hi * ((2 * real (n - 1 - i) + 1) / real n - 1)" by (rule at) (use i in simp)
    also have "\<dots> = - (c ! i)" unfolding eq [OF i] at [OF i] by (rule mult_minus_right)
    finally show ?thesis .
  qed
  then show "lm_mirrored n c" by (simp add: lm_mirrored_def)
qed

text \<open>C35: In exact arithmetic, for every head size and number of bits, the solver's codebook has \<open>2\<^sup>b\<close> levels in strictly
  increasing order, symmetric about zero and inside three times the support of the density, whether or not the iteration converged within its
  200 rounds and whichever cells had too little mass to move.\<close>

theorem lloyd_max_codebook:
  assumes d: "0 < d"
  shows "let c = lloyd_max_centroids exact_pmath exact_lm id d bits in
    length c = 2 ^ bits \<and> sorted_wrt (<) c \<and> (\<forall>x\<in>set c. \<bar>x\<bar> < 21 / 2 / sqrt (real d)) \<and> rev c = map uminus c"
proof -
  let ?n = "2 ^ bits :: nat" and ?hi = "7 / 2 * sqrt (1 / real d)"
  define c where "c = lloyd_max_centroids exact_pmath exact_lm id d bits"
  have hi: "0 < ?hi" "0 < 1 / real d" using d by simp_all
  have "lm_levels ?hi ?n c \<and> lm_mirrored ?n c"
    using lm_iterate_inv [OF hi(2) lm_start [OF hi(1)], of ?n 200] by (simp add: c_def lloyd_max_centroids_def Let_def)
  then have c: "length c = ?n" "\<And>i. Suc i < ?n \<Longrightarrow> c ! i < c ! Suc i" "\<And>i. i < ?n \<Longrightarrow> \<bar>c ! i\<bar> < 3 * ?hi" "\<And>i. i < ?n \<Longrightarrow> c ! (?n - 1 - i) = - (c ! i)"
    by (simp_all add: lm_levels_def lm_mirrored_def)
  have "sorted_wrt (<) c" using c(1,2) by (simp add: sorted_wrt_iff_nth_Suc_transp)
  moreover have "rev c = map uminus c" using c(1,4) by (intro nth_equalityI) (simp_all add: rev_nth)
  moreover have "3 * ?hi = 21 / 2 / sqrt (real d)" by (simp add: real_sqrt_divide)
  then have "\<forall>x\<in>set c. \<bar>x\<bar> < 21 / 2 / sqrt (real d)" using c(1,3) by (metis in_set_conv_nth)
  ultimately show ?thesis using c(1) unfolding Let_def c_def [symmetric] by blast
qed

lemma lloyd_max_codebook_witness: "\<exists>x>0. lloyd_max_centroids exact_pmath exact_lm id 64 1 = [- x, x]"
proof -
  define c where "c = lloyd_max_centroids exact_pmath exact_lm id 64 1"
  have l: "length c = Suc (Suc 0)" "sorted_wrt (<) c" "rev c = map uminus c"
    using lloyd_max_codebook [of 64 1] unfolding Let_def c_def [symmetric] by simp_all
  obtain y x where yx: "c = [y, x]" using l(1) by (auto simp: length_Suc_conv)
  have "hd (rev c) = hd (map uminus c)" by (rule arg_cong [OF l(3)])
  then have "x = - y" by (simp add: yx)
  moreover have "y < x" using l(2) by (simp add: yx)
  ultimately have "0 < x" "c = [- x, x]" using yx by simp_all
  then show ?thesis unfolding c_def by blast
qed

end
