(* ===== verification/Turboquant.thy ===== *)
theory Turboquant
  imports Codecs Runtime
begin

text \<open>
  TurboQuant: the row codec of \<open>turboquant_codec.hpp\<close> (bit packing, fast Walsh-Hadamard
  transform, key and value rows) and the cache kernels of \<open>turboquant.sycl.cpp\<close>.

  A row pointer of the code is a buffer and an offset into it.  The transform is polymorphic in
  the arithmetic; the row codecs compute on \<open>f32\<close> with the storage conversion as the argument
  \<open>ld\<close>.  One work-item owns one (token, head) row, and the kernels run under any schedule.
\<close>

definition kGroup :: nat where "kGroup = 32"
definition kMaxHead :: nat where "kMaxHead = 256"

definition round_half_away :: "f32 \<Rightarrow> f32" where
  "round_half_away t = (if t \<ge> 0 then f32_floor (t + F32 0x3f000000) else f32_ceil (t - F32 0x3f000000))"

definition f16_round :: "f32 \<Rightarrow> 16 word" where "f16_round x = f32_to_f16_bits x"
definition f16_value :: "16 word \<Rightarrow> f32" where "f16_value h = f16_bits_to_f32 h"

section \<open>Bit packing\<close>

definition row_bytes :: "nat \<Rightarrow> nat \<Rightarrow> nat" where
  "row_bytes head_size bits = (head_size * bits + 7) div 8"

definition pack_step :: "8 word list \<Rightarrow> nat \<Rightarrow> nat \<Rightarrow> nat \<Rightarrow> 8 word list \<Rightarrow> 8 word list option" where
  "pack_step codes bits off i out = do {
     c \<leftarrow> rd codes i;
     let b = i * bits;
     let v = (if bits = 8 then ucast c else ucast c AND (push_bit bits 1 - 1) :: 32 word);
     x \<leftarrow> rd out (off + b div 8);
     out \<leftarrow> wr out (off + b div 8) (x OR ucast (push_bit (b mod 8) v));
     let spill = b mod 8 + bits;
     if spill > 8 then do {
       y \<leftarrow> rd out (off + b div 8 + 1);
       wr out (off + b div 8 + 1) (y OR ucast (drop_bit (8 - b mod 8) v))
     } else Some out }"

definition pack_codes :: "8 word list \<Rightarrow> nat \<Rightarrow> nat \<Rightarrow> nat \<Rightarrow> 8 word list \<Rightarrow> 8 word list option" where
  "pack_codes codes n bits off out = do {
     out \<leftarrow> foldM (\<lambda>b out. wr out (off + b) 0) [0..<row_bytes n bits] out;
     foldM (pack_step codes bits off) [0..<n] out }"

definition unpack_code :: "8 word list \<Rightarrow> nat \<Rightarrow> nat \<Rightarrow> nat \<Rightarrow> 8 word option" where
  "unpack_code row off i bits = do {
     let b = i * bits;
     x \<leftarrow> rd row (off + b div 8);
     let v = drop_bit (b mod 8) (ucast x :: 32 word);
     let spill = b mod 8 + bits;
     v \<leftarrow> (if spill > 8 then do {
            y \<leftarrow> rd row (off + b div 8 + 1);
            Some (v OR push_bit (8 - b mod 8) (ucast y)) }
          else Some v);
     if bits = 8 then Some (ucast v) else Some (ucast (v AND (push_bit bits 1 - 1))) }"

text \<open>The bit stream of a row: bit \<open>j\<close> lives in byte \<open>j div 8\<close> at position \<open>j mod 8\<close>.\<close>

definition stream_bit :: "8 word list \<Rightarrow> nat \<Rightarrow> nat \<Rightarrow> bool" where
  "stream_bit row off j = bit (row ! (off + j div 8)) (j mod 8)"

definition packed :: "8 word list \<Rightarrow> nat \<Rightarrow> nat \<Rightarrow> nat \<Rightarrow> nat \<Rightarrow> 8 word list \<Rightarrow> bool" where
  "packed codes bits off nb i out \<longleftrightarrow>
     (\<forall>j<8 * nb. stream_bit out off j \<longleftrightarrow> j < i * bits \<and> bit (codes ! (j div bits)) (j mod bits))"

lemma div_mod_unique: "x = d * B + r \<Longrightarrow> r < d \<Longrightarrow> x div d = B \<and> x mod d = (r::nat)"
  by simp

lemma mask_word: "push_bit bits 1 - 1 = (mask bits :: 'a::len word)"
  by (simp add: mask_eq_exp_minus_1 push_bit_eq_mult)

lemma packed_value: "(if bits = 8 then ucast c else ucast c AND (push_bit bits 1 - 1)) = (ucast c AND mask bits :: 32 word)" for c :: "8 word"
proof -
  have "(ucast c :: 32 word) = ucast c AND mask 8"
    by (rule bit_word_eqI) (auto simp: bit_and_iff bit_mask_iff bit_ucast_iff dest: bit_imp_le_length)
  then show ?thesis unfolding mask_word by auto
qed

text \<open>Storing one code extends the stream by its low \<open>bits\<close> bits and touches nothing else.\<close>

lemma pack_step_stream:
  fixes out :: "8 word list"
  assumes "0 < bits" "bits \<le> 8" "i < length codes" "off + nb \<le> length out" "(i + 1) * bits \<le> 8 * nb"
  shows "\<exists>out'. pack_step codes bits off i out = Some out' \<and> length out' = length out \<and>
    (\<forall>a. a < off \<or> off + nb \<le> a \<longrightarrow> out' ! a = out ! a) \<and>
    (\<forall>j<8 * nb. stream_bit out' off j \<longleftrightarrow>
       stream_bit out off j \<or> (i * bits \<le> j \<and> j < i * bits + bits \<and> bit (codes ! i) (j - i * bits)))"
proof -
  define b B s c v where "b = i * bits" and "B = b div 8" and "s = b mod 8" and "c = codes ! i"
    and "v = (ucast c AND mask bits :: 32 word)"
  have bs: "b = 8 * B + s" "s < 8" by (simp_all add: B_def s_def)
  have top: "b + bits \<le> 8 * nb" using assms(5) by (simp add: b_def)
  have B: "B < nb" using bs top assms(1) by linarith
  have B1: "B + 1 < nb" if "8 < s + bits" using bs top that by linarith
  have vbit: "bit v q \<longleftrightarrow> q < bits \<and> bit c q" for q
    using assms(2) unfolding v_def bit_and_iff bit_mask_iff bit_ucast_iff
    by (auto dest: bit_imp_le_length)
  have lo: "bit (ucast (push_bit s v) :: 8 word) p \<longleftrightarrow> s \<le> p \<and> p - s < bits \<and> bit c (p - s)" if "p < 8" for p
    using that by (auto simp: bit_ucast_iff bit_push_bit_iff vbit)
  have hi: "bit (ucast (drop_bit (8 - s) v) :: 8 word) p \<longleftrightarrow> 8 - s + p < bits \<and> bit c (8 - s + p)" if "p < 8" for p
    using that by (auto simp: bit_ucast_iff bit_drop_bit_eq vbit)
  define out1 where "out1 = out[off + B := out ! (off + B) OR ucast (push_bit s v)]"
  define out2 where "out2 = (if 8 < s + bits then out1[off + B + 1 := out1 ! (off + B + 1) OR ucast (drop_bit (8 - s) v)] else out1)"
  have len: "off + B < length out" "8 < s + bits \<Longrightarrow> off + B + 1 < length out" using B B1 assms(4) by simp_all
  have st: "pack_step codes bits off i out = Some out2"
    using len assms(3)
    unfolding pack_step_def packed_value Let_def b_def [symmetric] B_def [symmetric] s_def [symmetric]
    by (simp add: out2_def out1_def v_def c_def)
  have stream: "stream_bit out2 off j \<longleftrightarrow> stream_bit out off j \<or> (b \<le> j \<and> j < b + bits \<and> bit c (j - b))"
    if j: "j < 8 * nb" for j
  proof -
    define J p where "J = j div 8" and "p = j mod 8"
    have jp: "j = 8 * J + p" "p < 8" by (simp_all add: J_def p_def)
    consider "J = B" | "J = B + 1" | "J < B \<or> B + 1 < J" by linarith
    then show ?thesis
    proof cases
      case 1
      then have "out2 ! (off + J) = out ! (off + J) OR ucast (push_bit s v)"
        using len by (simp add: out2_def out1_def)
      moreover have "(s \<le> p \<and> p - s < bits \<and> bit c (p - s)) \<longleftrightarrow> (b \<le> j \<and> j < b + bits \<and> bit c (j - b))"
        using 1 jp bs by auto
      ultimately show ?thesis
        unfolding stream_bit_def J_def [symmetric] p_def [symmetric] by (simp add: bit_or_iff lo jp(2))
    next
      case 2
      have e: "(8 - s + p < bits \<and> bit c (8 - s + p)) \<longleftrightarrow> (b \<le> j \<and> j < b + bits \<and> bit c (j - b))"
        using 2 jp bs by (auto simp: algebra_simps)
      show ?thesis
      proof (cases "8 < s + bits")
        case True
        then have "out2 ! (off + J) = out ! (off + J) OR ucast (drop_bit (8 - s) v)"
          using len 2 by (simp add: out2_def out1_def)
        then show ?thesis
          using e unfolding stream_bit_def J_def [symmetric] p_def [symmetric] by (simp add: bit_or_iff hi jp(2))
      next
        case False
        then have "out2 ! (off + J) = out ! (off + J)" "\<not> 8 - s + p < bits" using 2 bs by (auto simp: out2_def out1_def)
        then have "\<not> (b \<le> j \<and> j < b + bits \<and> bit c (j - b))" using e by blast
        then show ?thesis
          using \<open>out2 ! (off + J) = _\<close> unfolding stream_bit_def J_def [symmetric] p_def [symmetric] by auto
      qed
    next
      case 3
      then have "out2 ! (off + J) = out ! (off + J)" by (auto simp: out2_def out1_def)
      moreover have "\<not> (b \<le> j \<and> j < b + bits)" using 3 jp bs assms(2) by linarith
      ultimately show ?thesis unfolding stream_bit_def J_def [symmetric] p_def [symmetric] by auto
    qed
  qed
  have frame: "out2 ! a = out ! a" if "a < off \<or> off + nb \<le> a" for a
    using that B B1 by (auto simp: out2_def out1_def)
  show ?thesis
    using st stream frame unfolding b_def c_def by (intro exI [of _ out2]) (simp add: out2_def out1_def)
qed

lemma code_index: "0 < bits \<Longrightarrow> i * bits \<le> j \<and> j < i * bits + bits \<longleftrightarrow> j div bits = (i::nat)"
proof -
  assume "0 < bits"
  then have "i \<le> j div bits \<longleftrightarrow> i * bits \<le> j" "j div bits < Suc i \<longleftrightarrow> j < Suc i * bits"
    by (simp_all add: less_eq_div_iff_mult_less_eq div_less_iff_less_mult)
  then show ?thesis by auto
qed

lemma pack_step_packed:
  fixes out :: "8 word list"
  assumes "0 < bits" "bits \<le> 8" "i < length codes" "off + nb \<le> length out" "(i + 1) * bits \<le> 8 * nb"
    and P: "packed codes bits off nb i out"
  shows "\<exists>out'. pack_step codes bits off i out = Some out' \<and> packed codes bits off nb (Suc i) out' \<and>
    length out' = length out \<and> (\<forall>a. a < off \<or> off + nb \<le> a \<longrightarrow> out' ! a = out ! a)"
proof -
  have "stream_bit out off j \<or> (i * bits \<le> j \<and> j < i * bits + bits \<and> bit (codes ! i) (j - i * bits)) \<longleftrightarrow>
      j < Suc i * bits \<and> bit (codes ! (j div bits)) (j mod bits)" if "j < 8 * nb" for j
  proof (cases "i * bits \<le> j \<and> j < i * bits + bits")
    case True
    then have d: "j div bits = i" using code_index assms(1) by blast
    then have "j mod bits = j - i * bits" by (metis minus_div_mult_eq_mod)
    with d True P that show ?thesis by (auto simp: packed_def)
  next
    case False
    with P that show ?thesis by (auto simp: packed_def)
  qed
  with pack_step_stream [OF assms(1-5)] show ?thesis
    unfolding packed_def by (metis (no_types, lifting))
qed

text \<open>The packed row: its stream is the low bits of the codes, the padding bits are zero.\<close>

lemma pack_codes_packed:
  fixes out :: "8 word list"
  assumes "0 < bits" "bits \<le> 8" "n \<le> length codes" "off + row_bytes n bits \<le> length out"
  shows "\<exists>out'. pack_codes codes n bits off out = Some out' \<and> length out' = length out \<and>
    packed codes bits off (row_bytes n bits) n out' \<and>
    (\<forall>a. a < off \<or> off + row_bytes n bits \<le> a \<longrightarrow> out' ! a = out ! a)"
proof -
  let ?nb = "row_bytes n bits"
  define Z where "Z i m \<longleftrightarrow> length m = length out \<and> (\<forall>a. m ! a = (if off \<le> a \<and> a < off + i then 0 else out ! a))" for i and m :: "8 word list"
  have "\<exists>m. foldM (\<lambda>b out. wr out (off + b) 0) [0..<?nb] out = Some m \<and> Z ?nb m"
    using assms(4) by (intro foldM_upt) (auto simp: Z_def nth_list_update)
  then obtain m where m: "foldM (\<lambda>b out. wr out (off + b) 0) [0..<?nb] out = Some m" "Z ?nb m" by blast
  have cover: "n * bits \<le> 8 * ?nb" by (simp add: row_bytes_def)
  have "\<exists>m'. foldM (pack_step codes bits off) [0..<n] m = Some m' \<and> (length m' = length out \<and>
      packed codes bits off ?nb n m' \<and> (\<forall>a. a < off \<or> off + ?nb \<le> a \<longrightarrow> m' ! a = out ! a))"
  proof (rule foldM_upt [where P = "\<lambda>i m'. length m' = length out \<and>
      packed codes bits off ?nb i m' \<and> (\<forall>a. a < off \<or> off + ?nb \<le> a \<longrightarrow> m' ! a = out ! a)"])
    show "length m = length out \<and> packed codes bits off ?nb 0 m \<and> (\<forall>a. a < off \<or> off + ?nb \<le> a \<longrightarrow> m ! a = out ! a)"
      using m(2) by (auto simp: Z_def packed_def stream_bit_def)
  next
    fix i s assume i: "0 \<le> i" "i < n" and s: "length s = length out \<and> packed codes bits off ?nb i s \<and>
      (\<forall>a. a < off \<or> off + ?nb \<le> a \<longrightarrow> s ! a = out ! a)"
    have "(i + 1) * bits \<le> n * bits" using i by (intro mult_le_mono1) simp
    then have "(i + 1) * bits \<le> 8 * ?nb" using cover by linarith
    then show "\<exists>s'. pack_step codes bits off i s = Some s' \<and> (length s' = length out \<and>
      packed codes bits off ?nb (Suc i) s' \<and> (\<forall>a. a < off \<or> off + ?nb \<le> a \<longrightarrow> s' ! a = out ! a))"
      using pack_step_packed [of bits i codes off ?nb s] assms i s by auto
  qed simp
  then show ?thesis unfolding pack_codes_def m(1) by auto
qed

text \<open>Reading code \<open>i\<close> of a stream returns its \<open>bits\<close> bits, whatever bytes they straddle.\<close>

lemma unpack_code_bits:
  fixes row :: "8 word list"
  assumes "0 < bits" "bits \<le> 8" "(i + 1) * bits \<le> 8 * nb" "off + nb \<le> length row"
  shows "\<exists>c. unpack_code row off i bits = Some c \<and>
    (\<forall>q. bit c q \<longleftrightarrow> q < bits \<and> stream_bit row off (i * bits + q))"
proof -
  define b B s where "b = i * bits" and "B = b div 8" and "s = b mod 8"
  have bs: "b = 8 * B + s" "s < 8" by (simp_all add: B_def s_def)
  have top: "b + bits \<le> 8 * nb" using assms(3) by (simp add: b_def)
  have B: "B < nb" using bs top assms(1) by linarith
  have B1: "B + 1 < nb" if "8 < s + bits" using bs top that by linarith
  have len: "off + B < length row" "8 < s + bits \<Longrightarrow> off + B + 1 < length row" using B B1 assms(4) by simp_all
  define v :: "32 word" where "v = drop_bit s (ucast (row ! (off + B))) OR
    (if 8 < s + bits then push_bit (8 - s) (ucast (row ! (off + B + 1))) else 0)"
  have eq: "unpack_code row off i bits = Some (ucast (v AND mask bits))"
  proof -
    have "(ucast v :: 8 word) = ucast (v AND mask 8)"
      by (rule bit_word_eqI) (auto simp: bit_ucast_iff bit_and_iff bit_mask_iff)
    then show ?thesis
      using len unfolding unpack_code_def Let_def b_def [symmetric] B_def [symmetric] s_def [symmetric]
      by (auto simp: v_def mask_eq_exp_minus_1)
  qed
  have vbit: "bit v q \<longleftrightarrow> stream_bit row off (b + q)" if q: "q < bits" for q
  proof (cases "s + q < 8")
    case True
    then have "b + q = 8 * B + (s + q)" using bs by simp
    with True have "(b + q) div 8 = B" "(b + q) mod 8 = s + q" using div_mod_unique by blast+
    then show ?thesis using True q assms(2)
      by (auto simp: v_def stream_bit_def bit_or_iff bit_drop_bit_eq bit_ucast_iff bit_push_bit_iff)
  next
    case False
    then have "8 - s \<le> q" using bs(2) by linarith
    then have "b + q = 8 * (B + 1) + (q - (8 - s))" using bs by simp
    moreover have "q - (8 - s) < 8" using bs(2) q assms(2) by simp
    ultimately have "(b + q) div 8 = B + 1" "(b + q) mod 8 = q - (8 - s)" using div_mod_unique by blast+
    moreover have "8 < s + bits" using False q by linarith
    ultimately have "(b + q) div 8 = B + 1" "(b + q) mod 8 = q - (8 - s)" "8 < s + bits" by blast+
    then show ?thesis using False \<open>8 < s + bits\<close> q assms(2) bs(2)
      by (auto simp: v_def stream_bit_def bit_or_iff bit_drop_bit_eq bit_ucast_iff bit_push_bit_iff
          dest: bit_imp_le_length)
  qed
  have "bit (ucast (v AND mask bits) :: 8 word) q \<longleftrightarrow> q < bits \<and> stream_bit row off (b + q)" for q
    using vbit [of q] assms(2) by (auto simp: bit_ucast_iff bit_and_iff bit_mask_iff)
  with eq show ?thesis by (simp add: b_def)
qed

lemma unpack_packed:
  fixes row :: "8 word list"
  assumes "0 < bits" "bits \<le> 8" "i < n" "off + row_bytes n bits \<le> length row"
    "packed codes bits off (row_bytes n bits) n row"
  shows "unpack_code row off i bits = Some (codes ! i AND mask bits)"
proof -
  have "(i + 1) * bits \<le> n * bits" using assms(3) by (intro mult_le_mono1) simp
  moreover have "n * bits \<le> 8 * row_bytes n bits" by (simp add: row_bytes_def)
  ultimately have top: "(i + 1) * bits \<le> 8 * row_bytes n bits" by linarith
  obtain c where c: "unpack_code row off i bits = Some c"
    "\<And>q. bit c q \<longleftrightarrow> q < bits \<and> stream_bit row off (i * bits + q)"
    using unpack_code_bits [OF assms(1,2) top assms(4)] by blast
  have "c = codes ! i AND mask bits"
  proof (rule bit_word_eqI)
    fix q assume "q < LENGTH(8)"
    have "stream_bit row off (i * bits + q) \<longleftrightarrow> bit (codes ! i) q" if "q < bits"
    proof -
      have j: "i * bits + q < 8 * row_bytes n bits" "i * bits + q < n * bits"
        using top that \<open>(i + 1) * bits \<le> n * bits\<close> by (simp_all add: algebra_simps)
      have "(i * bits + q) div bits = i" "(i * bits + q) mod bits = q" using that by simp_all
      then show ?thesis using assms(5) j by (simp add: packed_def)
    qed
    then show "bit c q = bit (codes ! i AND mask bits) q"
      using c(2) [of q] \<open>q < LENGTH(8)\<close> by (auto simp: bit_and_iff bit_mask_iff)
  qed
  with c(1) show ?thesis by simp
qed


section \<open>The fast Walsh-Hadamard transform\<close>

text \<open>One butterfly of span \<open>len\<close>, the loop over one span, and the loop over the spans.\<close>

definition butterfly :: "nat \<Rightarrow> nat \<Rightarrow> 'a::{plus,minus} list \<Rightarrow> 'a list option" where
  "butterfly len j u = do {
     a \<leftarrow> rd u j;
     b \<leftarrow> rd u (j + len);
     u \<leftarrow> wr u j (a + b);
     wr u (j + len) (a - b) }"

definition fwht_span :: "nat \<Rightarrow> nat \<Rightarrow> 'a::{plus,minus} list \<Rightarrow> 'a list option" where
  "fwht_span n len u =
     foldM (\<lambda>i. foldM (butterfly len) [i..<i + len]) (strided 0 (2 * len) n) u"

function fwht_from :: "nat \<Rightarrow> nat \<Rightarrow> 'a::{plus,minus} list \<Rightarrow> 'a list option" where
  "fwht_from n len u = (if 0 < len \<and> len < n then Option.bind (fwht_span n len u) (fwht_from n (2 * len)) else Some u)"
  by pat_completeness auto
termination
  by (relation "measure (\<lambda>(n, len, u). n - len)") auto

declare fwht_from.simps [simp del]

definition fwht :: "nat \<Rightarrow> 'a::{plus,minus} list \<Rightarrow> 'a list option" where
  "fwht n u = fwht_from n 1 u"

text \<open>The reference: the Walsh-Hadamard transform by its recursion on halves.\<close>

primrec wht :: "nat \<Rightarrow> 'a::{plus,minus} list \<Rightarrow> 'a list" where
  "wht 0 u = u"
| "wht (Suc k) u = (let x = wht k (take (2 ^ k) u); y = wht k (drop (2 ^ k) u)
     in map2 (+) x y @ map2 (-) x y)"

text \<open>What one span computes, cell by cell.\<close>

definition span_val :: "nat \<Rightarrow> 'a::{plus,minus} list \<Rightarrow> nat \<Rightarrow> 'a" where
  "span_val len u j = (if even (j div len) then u ! j + u ! (j + len) else u ! (j - len) - u ! j)"

lemma fwht_group:
  fixes u v :: "'a::{plus,minus} list"
  assumes "0 < len" "length v = n" "2 * len * g + 2 * len \<le> n"
    and v: "\<forall>j<n. v ! j = (if j < 2 * len * g then span_val len u j else u ! j)"
  shows "\<exists>w. foldM (butterfly len) [2 * len * g..<2 * len * g + len] v = Some w \<and> length w = n \<and>
    (\<forall>j<n. w ! j = (if j < 2 * len * Suc g then span_val len u j else u ! j))"
proof -
  define base where "base = 2 * len * g"
  define P where "P t w \<longleftrightarrow> length w = n \<and> (\<forall>j<n. w ! j =
    (if j < base \<or> (base \<le> j \<and> j < t) \<or> (base + len \<le> j \<and> j < t + len) then span_val len u j else u ! j))"
    for t and w :: "'a list"
  have "\<exists>w. foldM (butterfly len) [base..<base + len] v = Some w \<and> P (base + len) w"
  proof (rule foldM_upt)
    show "P base v" using v assms(2) by (auto simp: P_def base_def)
  next
    fix t w assume t: "base \<le> t" "t < base + len" and w: "P t w"
    have bd: "t + len < n" using t assms(3) by (simp add: base_def)
    have rdv: "w ! t = u ! t" "w ! (t + len) = u ! (t + len)" "length w = n" using w t bd by (auto simp: P_def)
    have "t = len * (2 * g) + (t - base)" "t - base < len" using t by (simp_all add: base_def mult_ac)
    then have "t div len = 2 * g" "(t + len) div len = 2 * g + 1"
      using div_mod_unique [of t len "2 * g" "t - base"] div_mod_unique [of "t + len" len "2 * g + 1" "t - base"]
      by (simp_all add: algebra_simps)
    then have sv: "span_val len u t = u ! t + u ! (t + len)" "span_val len u (t + len) = u ! t - u ! (t + len)"
      by (simp_all add: span_val_def)
    have "butterfly len t w = Some (w[t := span_val len u t, t + len := span_val len u (t + len)])"
      using bd rdv by (simp add: butterfly_def sv)
    moreover have "P (Suc t) (w[t := span_val len u t, t + len := span_val len u (t + len)])"
      using w bd t by (auto simp: P_def nth_list_update)
    ultimately show "\<exists>s'. butterfly len t w = Some s' \<and> P (Suc t) s'" by blast
  qed simp
  then obtain w where "foldM (butterfly len) [base..<base + len] v = Some w" "P (base + len) w" by blast
  then show ?thesis
    unfolding base_def [symmetric] by (intro exI [of _ w]) (auto simp: P_def base_def)
qed

lemma fwht_span_val:
  fixes u :: "'a::{plus,minus} list"
  assumes "0 < len" "length u = 2 * len * m"
  shows "fwht_span (2 * len * m) len u = Some (map (span_val len u) [0..<2 * len * m])"
proof -
  define n where "n = 2 * len * m"
  define P where "P g w \<longleftrightarrow> length w = n \<and> (\<forall>j<n. w ! j = (if j < 2 * len * g then span_val len u j else u ! j))"
    for g and w :: "'a list"
  have "\<exists>w. foldM (\<lambda>g. foldM (butterfly len) [2 * len * g..<2 * len * g + len]) [0..<m] u = Some w \<and> P m w"
  proof (rule foldM_upt)
    show "P 0 u" using assms by (simp add: P_def n_def)
  next
    fix g w assume g: "0 \<le> g" "g < m" and w: "P g w"
    have "2 * len * g + 2 * len \<le> n" using g mult_le_mono2 [of "Suc g" m "2 * len"] by (simp add: n_def)
    then show "\<exists>s'. foldM (butterfly len) [2 * len * g..<2 * len * g + len] w = Some s' \<and> P (Suc g) s'"
      using fwht_group [of len w n g u] w assms(1) by (auto simp: P_def)
  qed simp
  then obtain w where w: "foldM (\<lambda>g. foldM (butterfly len) [2 * len * g..<2 * len * g + len]) [0..<m] u = Some w" "P m w"
    by blast
  have "fwht_span n len u = Some w"
    using w(1) assms(1) by (simp add: fwht_span_def n_def strided_mult foldM_map)
  moreover have "w = map (span_val len u) [0..<n]"
    using w(2) by (auto simp: P_def n_def intro: nth_equalityI)
  ultimately show ?thesis by (simp add: n_def)
qed

definition wspan :: "nat \<Rightarrow> 'a::{plus,minus} list \<Rightarrow> 'a list" where
  "wspan len u = map (span_val len u) [0..<length u]"

lemma length_span [simp]: "length (wspan len u) = length u"
  by (simp add: wspan_def)

lemma fwht_from_spans:
  fixes u :: "'a::{plus,minus} list"
  shows "s \<le> k \<Longrightarrow> length u = 2 ^ k \<Longrightarrow>
    fwht_from (2 ^ k) (2 ^ s) u = Some (fold (\<lambda>t. wspan (2 ^ t)) [s..<k] u)"
proof (induction "k - s" arbitrary: s u)
  case 0
  then show ?case by (simp add: fwht_from.simps)
next
  case (Suc d)
  then have s: "s < k" by simp
  then have "(2::nat) ^ k = 2 * 2 ^ s * 2 ^ (k - Suc s)" by (simp flip: power_add power_Suc)
  then have "fwht_span (2 ^ k) (2 ^ s) u = Some (wspan (2 ^ s) u)"
    using fwht_span_val [of "2 ^ s" u "2 ^ (k - Suc s)"] Suc.prems by (simp add: wspan_def)
  moreover have "fwht_from (2 ^ k) (2 ^ Suc s) (wspan (2 ^ s) u) = Some (fold (\<lambda>t. wspan (2 ^ t)) [Suc s..<k] (wspan (2 ^ s) u))"
    using Suc s by (intro Suc.hyps(1)) auto
  ultimately show ?case using s by (subst fwht_from.simps) (simp add: upt_conv_Cons)
qed

lemma span_append:
  fixes xs ys :: "'a::{plus,minus} list"
  assumes "0 < len" "length xs = 2 * len * m" "length ys = 2 * len * m"
  shows "wspan len (xs @ ys) = wspan len xs @ wspan len ys"
proof (rule nth_equalityI)
  fix j assume "j < length (wspan len (xs @ ys))"
  then have j: "j < length xs + length ys" by simp
  have inside: "(even (i div len) \<longrightarrow> i + len < 2 * len * m) \<and> (odd (i div len) \<longrightarrow> len \<le> i)" if "i < 2 * len * m" for i
  proof -
    have i: "i = len * (i div len) + i mod len" "i mod len < len" using assms(1) by simp_all
    have "i div len < 2 * m" using that assms(1) by (simp add: div_less_iff_less_mult mult_ac)
    show ?thesis
    proof (cases "even (i div len)")
      case True
      then obtain r where "i div len = 2 * r" by (elim evenE)
      with \<open>i div len < 2 * m\<close> have "r < m" by simp
      with \<open>i div len = 2 * r\<close> have "i div len + 2 \<le> 2 * m" by simp
      then have "len * (i div len + 2) \<le> len * (2 * m)" by (rule mult_le_mono2)
      then have "len * (i div len) + 2 * len \<le> 2 * len * m" by (simp add: algebra_simps)
      then show ?thesis using i True by linarith
    next
      case False
      then have "1 \<le> i div len" by (cases "i div len") auto
      then have "len * 1 \<le> len * (i div len)" by (rule mult_le_mono2)
      then show ?thesis using i False by linarith
    qed
  qed
  show "wspan len (xs @ ys) ! j = (wspan len xs @ wspan len ys) ! j"
  proof (cases "j < length xs")
    case True
    then show ?thesis using inside [of j] assms j by (auto simp: wspan_def span_val_def nth_append)
  next
    case False
    define i where "i = j - length xs"
    have ji: "j = len * (2 * m) + i" "i < 2 * len * m" using False j assms by (simp_all add: i_def mult_ac)
    have "j div len = 2 * m + i div len" unfolding ji(1) using assms(1) by (simp add: add.commute)
    then have e: "even (j div len) = even (i div len)" by simp
    have n: "(wspan len xs @ wspan len ys) ! j = span_val len ys i"
    proof -
      have "i < length ys" using ji(2) assms(3) by simp
      then show ?thesis using False by (simp add: wspan_def nth_append flip: i_def)
    qed
    have o: "len \<le> i" if "odd (i div len)" using inside [OF ji(2)] that by blast
    have L: "j = length xs + i" "j + len = length xs + (i + len)" using False by (simp_all add: i_def)
    have "span_val len (xs @ ys) j = span_val len ys i"
    proof (cases "even (i div len)")
      case True
      then show ?thesis using e L by (simp only: span_val_def if_True nth_append_length_plus)
    next
      case odd: False
      then have "j - len = length xs + (i - len)" using o L by simp
      then show ?thesis using e odd L by (simp only: span_val_def if_False nth_append_length_plus)
    qed
    then show ?thesis using j unfolding n by (simp add: wspan_def)
  qed
qed simp

lemma fold_span_append:
  fixes xs ys :: "'a::{plus,minus} list"
  assumes "length xs = 2 ^ k" "length ys = 2 ^ k" "\<And>t. t \<in> set ts \<Longrightarrow> t < k"
  shows "fold (\<lambda>t. wspan (2 ^ t)) ts (xs @ ys) = fold (\<lambda>t. wspan (2 ^ t)) ts xs @ fold (\<lambda>t. wspan (2 ^ t)) ts ys"
  using assms
proof (induction ts arbitrary: xs ys)
  case (Cons t ts)
  have "t < k" using Cons.prems(3) by simp
  then have "(2::nat) ^ k = 2 * 2 ^ t * 2 ^ (k - Suc t)" by (simp flip: power_add power_Suc)
  then have "wspan (2 ^ t) (xs @ ys) = wspan (2 ^ t) xs @ wspan (2 ^ t) ys"
    using Cons.prems by (intro span_append) auto
  then show ?case using Cons by simp
qed simp

lemma span_top:
  fixes xs ys :: "'a::{plus,minus} list"
  assumes "length xs = len" "length ys = len" "0 < len"
  shows "wspan len (xs @ ys) = map2 (+) xs ys @ map2 (-) xs ys"
proof (rule nth_equalityI)
  fix j assume j: "j < length (wspan len (xs @ ys))"
  have "j div len = (if j < len then 0 else 1)"
  proof (cases "j < len")
    case False
    then have "j = len * 1 + (j - len)" "j - len < len" using j assms by simp_all
    then have "j div len = 1" using div_mod_unique by blast
    then show ?thesis using False by simp
  qed simp
  then show "wspan len (xs @ ys) ! j = (map2 (+) xs ys @ map2 (-) xs ys) ! j"
    using j assms by (auto simp: wspan_def span_val_def nth_append)
qed (use assms in simp)

lemma length_fold_span [simp]: "length (fold (\<lambda>t. wspan (2 ^ t)) ts u) = length u"
  by (induction ts arbitrary: u) auto

lemma wht_spans:
  fixes u :: "'a::{plus,minus} list"
  shows "length u = 2 ^ k \<Longrightarrow> fold (\<lambda>t. wspan (2 ^ t)) [0..<k] u = wht k u"
proof (induction k arbitrary: u)
  case (Suc k)
  define xs ys where "xs = take (2 ^ k) u" and "ys = drop (2 ^ k) u"
  have u: "u = xs @ ys" "length xs = 2 ^ k" "length ys = 2 ^ k" using Suc.prems by (simp_all add: xs_def ys_def)
  have "fold (\<lambda>t. wspan (2 ^ t)) [0..<Suc k] u = wspan (2 ^ k) (fold (\<lambda>t. wspan (2 ^ t)) [0..<k] (xs @ ys))"
    using u(1) by simp
  also have "\<dots> = wspan (2 ^ k) (wht k xs @ wht k ys)"
    using fold_span_append [of xs k ys "[0..<k]"] Suc.IH u by simp
  also have "\<dots> = wht (Suc k) u"
  proof -
    have "length (wht k xs) = 2 ^ k" "length (wht k ys) = 2 ^ k"
      using Suc.IH [OF u(2)] Suc.IH [OF u(3)] u by (metis length_fold_span)+
    then show ?thesis by (simp add: span_top Let_def xs_def ys_def)
  qed
  finally show ?case .
qed simp

lemma fwht_wht: "length u = 2 ^ k \<Longrightarrow> fwht (2 ^ k) u = Some (wht k (u :: 'a::{plus,minus} list))"
  using fwht_from_spans [of 0 k u] by (simp add: fwht_def wht_spans)

subsection \<open>In exact arithmetic the transform is its own inverse up to its size\<close>

lemma length_wht: "length u = 2 ^ k \<Longrightarrow> length (wht k u) = 2 ^ k"
  by (metis length_fold_span wht_spans)

lemma map2_take_drop: "length xs = length ys \<Longrightarrow> take n (map2 f xs ys) = map2 f (take n xs) (take n ys) \<and>
    drop n (map2 f xs ys) = map2 f (drop n xs) (drop n ys)"
  by (simp add: take_map drop_map take_zip drop_zip)

lemma wht_linear:
  fixes u v :: "'a::comm_ring_1 list"
  shows "length u = 2 ^ k \<Longrightarrow> length v = 2 ^ k \<Longrightarrow>
    wht k (map2 (+) u v) = map2 (+) (wht k u) (wht k v) \<and> wht k (map2 (-) u v) = map2 (-) (wht k u) (wht k v)"
proof (induction k arbitrary: u v)
  case (Suc k)
  define a b c d where "a = wht k (take (2 ^ k) u)" and "b = wht k (drop (2 ^ k) u)"
    and "c = wht k (take (2 ^ k) v)" and "d = wht k (drop (2 ^ k) v)"
  have l: "length a = 2 ^ k" "length b = 2 ^ k" "length c = 2 ^ k" "length d = 2 ^ k"
    using Suc.prems by (simp_all add: a_def b_def c_def d_def length_wht)
  have s: "wht k (map2 (+) (take (2 ^ k) u) (take (2 ^ k) v)) = map2 (+) a c"
      "wht k (map2 (+) (drop (2 ^ k) u) (drop (2 ^ k) v)) = map2 (+) b d"
      "wht k (map2 (-) (take (2 ^ k) u) (take (2 ^ k) v)) = map2 (-) a c"
      "wht k (map2 (-) (drop (2 ^ k) u) (drop (2 ^ k) v)) = map2 (-) b d"
    using Suc.IH Suc.prems by (simp_all add: a_def b_def c_def d_def)
  have t: "take (2 ^ k) (map2 f u v) = map2 f (take (2 ^ k) u) (take (2 ^ k) v)"
      "drop (2 ^ k) (map2 f u v) = map2 f (drop (2 ^ k) u) (drop (2 ^ k) v)" for f :: "'a \<Rightarrow> 'a \<Rightarrow> 'a"
    using map2_take_drop [of u v "2 ^ k" f] Suc.prems by simp_all
  have ab: "wht k (take (2 ^ k) u) = a" "wht k (drop (2 ^ k) u) = b" "wht k (take (2 ^ k) v) = c" "wht k (drop (2 ^ k) v) = d"
    by (simp_all add: a_def b_def c_def d_def)
  show ?case
    using l by (simp only: wht.simps Let_def t s ab) (auto simp: nth_append intro!: nth_equalityI)
qed simp

lemma wht_involution:
  fixes u :: "'a::comm_ring_1 list"
  shows "length u = 2 ^ k \<Longrightarrow> wht k (wht k u) = map ((*) (2 ^ k)) u"
proof (induction k arbitrary: u)
  case 0
  then show ?case by (simp add: list.map_ident)
next
  case (Suc k)
  define x y where "x = take (2 ^ k) u" and "y = drop (2 ^ k) u"
  have u: "u = x @ y" and l: "length x = 2 ^ k" "length y = 2 ^ k" using Suc.prems by (simp_all add: x_def y_def)
  have l': "length (wht k x) = 2 ^ k" "length (wht k y) = 2 ^ k" using l by (simp_all add: length_wht)
  have w: "wht (Suc k) u = map2 (+) (wht k x) (wht k y) @ map2 (-) (wht k x) (wht k y)"
    by (simp add: Let_def x_def y_def)
  have "wht (Suc k) (wht (Suc k) u) =
      map2 (+) (wht k (map2 (+) (wht k x) (wht k y))) (wht k (map2 (-) (wht k x) (wht k y))) @
      map2 (-) (wht k (map2 (+) (wht k x) (wht k y))) (wht k (map2 (-) (wht k x) (wht k y)))"
    unfolding w using l' by (simp add: Let_def)
  also have "\<dots> = map ((*) (2 ^ Suc k)) u"
    unfolding conjunct1 [OF wht_linear [OF l']] conjunct2 [OF wht_linear [OF l']] Suc.IH [OF l(1)] Suc.IH [OF l(2)] u
    using l by (auto simp: nth_append algebra_simps intro!: nth_equalityI)
  finally show ?case .
qed

subsection \<open>The transform stays inside a row of \<open>n\<close> cells exactly for powers of two\<close>

lemma butterfly_length: "butterfly len j u = Some v \<Longrightarrow> length v = length u"
  by (auto simp: butterfly_def wr_def split: bind_splits if_splits)

lemma foldM_length:
  assumes "\<And>x s t. x \<in> set xs \<Longrightarrow> f x s = Some t \<Longrightarrow> length t = length s"
  shows "foldM f xs s = Some t \<Longrightarrow> length t = length s"
  using assms
proof (induction xs arbitrary: s)
  case (Cons x xs)
  then show ?case by (cases "f x s") force+
qed simp

lemma foldM_None:
  assumes "x \<in> set xs" "\<And>s. length s = n \<Longrightarrow> f x s = None"
    and "\<And>y s t. f y s = Some t \<Longrightarrow> length t = length s" and "length s = n"
  shows "foldM f xs s = None"
  using assms(1,4)
proof (induction xs arbitrary: s)
  case (Cons y xs)
  show ?case
  proof (cases "f y s")
    case (Some t)
    then have "length t = n" using assms(3) Cons.prems(2) by simp
    moreover have "x \<noteq> y" using Some assms(2) Cons.prems(2) by auto
    ultimately show ?thesis using Cons.IH [of t] Cons.prems Some by simp
  qed simp
qed simp

lemma fwht_span_length: "fwht_span n len u = Some v \<Longrightarrow> length v = length u"
  unfolding fwht_span_def by (erule foldM_length [rotated]) (metis foldM_length butterfly_length)

lemma fwht_span_None:
  fixes u :: "'a::{plus,minus} list"
  assumes "0 < len" "\<not> 2 * len dvd n" "length u = n"
  shows "fwht_span n len u = None"
proof -
  define base where "base = n div (2 * len) * (2 * len)"
  have n: "n = base + n mod (2 * len)" unfolding base_def by (rule div_mult_mod_eq [symmetric])
  have "0 < n mod (2 * len)" using assms(2) by (simp add: dvd_eq_mod_eq_0)
  moreover have "n mod (2 * len) < 2 * len" using assms(1) by simp
  ultimately have b: "base < n" "n < base + 2 * len" using n by linarith+
  have mem: "base \<in> set (strided 0 (2 * len) n)"
    using assms(1) b by (simp add: set_strided base_def)
  have "foldM (butterfly len) [base..<base + len] w = None" if "length w = n" for w :: "'a list"
  proof (rule foldM_None [where x = "base + len - 1"])
    show "base + len - 1 \<in> set [base..<base + len]" using assms(1) by auto
    show "butterfly len (base + len - 1) s = None" if "length s = n" for s :: "'a list"
    proof -
      have "n \<le> base + len - 1 + len" using b by linarith
      then show ?thesis using that by (auto simp: butterfly_def rd_def split: bind_splits)
    qed
  qed (use that in \<open>auto dest: butterfly_length\<close>)
  moreover have "length t = length s" if "foldM (butterfly len) xs s = Some t" for xs and s t :: "'a list"
    using that by (rule foldM_length [rotated]) (rule butterfly_length)
  ultimately show ?thesis unfolding fwht_span_def
    using assms(3) by (intro foldM_None [OF mem, of n "\<lambda>i. foldM (butterfly len) [i..<i + len]" u])
qed

lemma fwht_from_None:
  assumes "\<not> 2 ^ Suc t dvd n" "2 ^ t < n"
  shows "s \<le> t \<Longrightarrow> length u = n \<Longrightarrow> fwht_from n (2 ^ s) u = None"
proof (induction "t - s" arbitrary: s u)
  case 0
  then have "fwht_span n (2 ^ s) u = None" using assms by (intro fwht_span_None) auto
  then show ?case using 0 assms by (subst fwht_from.simps) simp
next
  case (Suc d)
  then have s: "s < t" by simp
  then have lt: "(2::nat) ^ s < n" using assms(2) power_strict_increasing [of s t "2::nat"] by (metis less_trans one_less_numeral_iff semiring_norm(76))
  show ?case
  proof (cases "fwht_span n (2 ^ s) u")
    case None
    then show ?thesis using lt by (subst fwht_from.simps) simp
  next
    case (Some v)
    then have "length v = n" using Suc.prems fwht_span_length by fastforce
    then have "fwht_from n (2 ^ Suc s) v = None" using Suc s by (intro Suc.hyps(1)) auto
    then show ?thesis using Some lt by (subst fwht_from.simps) simp
  qed
qed

lemma not_power_two: "0 < n \<Longrightarrow> (\<And>k. n \<noteq> 2 ^ k) \<Longrightarrow> \<exists>t. \<not> 2 ^ Suc t dvd n \<and> (2::nat) ^ t < n"
proof -
  assume n: "0 < n" "\<And>k. n \<noteq> 2 ^ k"
  define t where "t = (LEAST t. \<not> 2 ^ Suc t dvd n)"
  have "\<not> 2 ^ Suc n dvd n" using n(1) by (metis dvd_imp_le less_exp linorder_not_less lessI less_trans)
  then have "\<not> 2 ^ Suc t dvd n" unfolding t_def by (rule LeastI)
  moreover have "2 ^ t dvd n"
  proof (cases t)
    case (Suc t')
    then show ?thesis using not_less_Least [of t' "\<lambda>t. \<not> 2 ^ Suc t dvd n"] by (simp add: t_def)
  qed simp
  then have "2 ^ t < n" using n by (metis dvd_imp_le le_neq_implies_less)
  ultimately show ?thesis by blast
qed

lemma fwht_leaves_row:
  assumes "0 < n" "\<And>k. n \<noteq> 2 ^ k" "length u = n"
  shows "fwht n u = None"
proof -
  obtain t where t: "\<not> 2 ^ Suc t dvd n" "2 ^ t < n" using not_power_two assms by blast
  then show ?thesis using fwht_from_None [OF t, of 0 u] assms(3) by (simp add: fwht_def)
qed

section \<open>Key rows\<close>

definition key_inv_root :: "nat \<Rightarrow> f32" where
  "key_inv_root head_size = 1 / f32_sqrt (f32_of_int (int head_size))"

definition key_code :: "f32 list \<Rightarrow> nat \<Rightarrow> f32 \<Rightarrow> 32 word option" where
  "key_code centroids n_mid z = foldM (\<lambda>m code. do {
       c0 \<leftarrow> rd centroids m;
       c1 \<leftarrow> rd centroids (m + 1);
       let mid = F32 0x3f000000 * (c0 + c1);
       Some (code + (if z > mid then 1 else 0)) }) [0..<n_mid] 0"

definition key_group :: "f32 list \<Rightarrow> nat \<Rightarrow> f32 list \<Rightarrow> nat \<Rightarrow> nat \<Rightarrow>
    16 word list \<times> 8 word list \<Rightarrow> (16 word list \<times> 8 word list) option" where
  "key_group centroids n_mid scratch goff g st = do {
     let (group_scales, codes) = st;
     ss \<leftarrow> foldM (\<lambda>j ss. do { v \<leftarrow> rd scratch (g * kGroup + j); Some (ss + v * v) }) [0..<kGroup] 0;
     let rms = f16_round (f32_sqrt (ss / f32_of_int (int kGroup)));
     let rms = (if feq (f16_value rms) 0 then f16_round 1 else rms);
     group_scales \<leftarrow> wr group_scales (goff + g) rms;
     let inv = f16_value rms;
     codes \<leftarrow> foldM (\<lambda>j codes. do {
         v \<leftarrow> rd scratch (g * kGroup + j);
         code \<leftarrow> key_code centroids n_mid (v / inv);
         wr codes (g * kGroup + j) (ucast code) }) [0..<kGroup] codes;
     Some (group_scales, codes) }"

definition encode_key_row :: "('t \<Rightarrow> f32) \<Rightarrow> 't list \<Rightarrow> nat \<Rightarrow> f32 list \<Rightarrow> f32 list \<Rightarrow> nat \<Rightarrow> nat \<Rightarrow>
    f32 list \<Rightarrow> 8 word list \<Rightarrow> nat \<Rightarrow> nat \<Rightarrow> 8 word list \<times> 16 word list \<Rightarrow> (8 word list \<times> 16 word list) option" where
  "encode_key_row ld key koff centroids signs head_size key_bits scratch codes roff goff st =
    (let (row, group_scales) = st in
     if key_bits = 8 then do {
       row \<leftarrow> foldM (\<lambda>i row. do { k \<leftarrow> rd key (koff + i); wr row (roff + i) (e4m3_encode (ld k)) }) [0..<head_size] row;
       Some (row, group_scales) }
     else do {
       let inv_root = key_inv_root head_size;
       scratch \<leftarrow> foldM (\<lambda>i scratch. do {
           k \<leftarrow> rd key (koff + i); s \<leftarrow> rd signs i; wr scratch i (ld k * s) }) [0..<head_size] scratch;
       scratch \<leftarrow> fwht head_size scratch;
       scratch \<leftarrow> foldM (\<lambda>i scratch. do { x \<leftarrow> rd scratch i; wr scratch i (x * inv_root) }) [0..<head_size] scratch;
       (group_scales, codes) \<leftarrow> foldM (key_group centroids (2 ^ key_bits - 1) scratch goff)
         [0..<head_size div kGroup] (group_scales, codes);
       row \<leftarrow> pack_codes codes head_size key_bits roff row;
       Some (row, group_scales) })"

definition decode_key_row :: "8 word list \<Rightarrow> nat \<Rightarrow> 16 word list \<Rightarrow> nat \<Rightarrow> f32 list \<Rightarrow> f32 list \<Rightarrow> nat \<Rightarrow> nat \<Rightarrow>
    f32 list \<Rightarrow> nat \<Rightarrow> f32 list \<Rightarrow> f32 list option" where
  "decode_key_row row roff group_scales goff centroids signs head_size key_bits scratch ooff out =
    (if key_bits = 8 then
       foldM (\<lambda>i out. do { b \<leftarrow> rd row (roff + i); wr out (ooff + i) (e4m3_decode b) }) [0..<head_size] out
     else do {
       let inv_root = key_inv_root head_size;
       scratch \<leftarrow> foldM (\<lambda>g scratch. do {
           rms \<leftarrow> rd group_scales (goff + g);
           foldM (\<lambda>j scratch. do {
             let i = g * kGroup + j;
             code \<leftarrow> unpack_code row roff i key_bits;
             c \<leftarrow> rd centroids (unat code);
             wr scratch i (c * f16_value rms) }) [0..<kGroup] scratch }) [0..<head_size div kGroup] scratch;
       scratch \<leftarrow> fwht head_size scratch;
       foldM (\<lambda>i out. do {
           x \<leftarrow> rd scratch i; s \<leftarrow> rd signs i; wr out (ooff + i) (x * inv_root * s) }) [0..<head_size] out })"

section \<open>Value rows\<close>

text \<open>The clamp bounds of the code grid; \<open>twos\<close> is the two's-complement byte grid.\<close>

definition value_twos :: "bool \<Rightarrow> nat \<Rightarrow> bool" where
  "value_twos value_signed value_bits \<longleftrightarrow> value_signed \<and> value_bits = 8"

definition value_cmax :: "bool \<Rightarrow> nat \<Rightarrow> f32" where
  "value_cmax twos value_bits = (if twos then f32_of_int 127 else f32_of_int (2 ^ value_bits - 1))"

definition value_cmin :: "bool \<Rightarrow> f32" where
  "value_cmin twos = (if twos then f32_of_int (-128) else 0)"

definition value_scale_zero :: "f32 \<Rightarrow> f32 \<Rightarrow> f32 \<Rightarrow> f32 \<Rightarrow> 16 word \<times> 16 word" where
  "value_scale_zero cmin cmax lo hi =
    (let scale = f16_round ((hi - lo) / (cmax - cmin)) in
     if feq (f16_value scale) 0 then (f16_round 1, f16_round lo)
     else (scale, f16_round (lo / f16_value scale - cmin)))"

definition value_code :: "f32 \<Rightarrow> f32 \<Rightarrow> f32 \<Rightarrow> f32 \<Rightarrow> f32 \<Rightarrow> 8 word" where
  "value_code cmin cmax s z v =
    (let c = round_half_away (v / s - z);
         c = (if c < cmin then cmin else if c > cmax then cmax else c)
     in word_of_int (f32_trunc c))"

definition value_group :: "('t \<Rightarrow> f32) \<Rightarrow> 't list \<Rightarrow> nat \<Rightarrow> f32 \<Rightarrow> f32 \<Rightarrow> nat \<Rightarrow> nat \<Rightarrow>
    16 word list \<times> 16 word list \<times> 8 word list \<Rightarrow> (16 word list \<times> 16 word list \<times> 8 word list) option" where
  "value_group ld value voff cmin cmax goff g st = do {
     let (group_scales, group_zeros, codes) = st;
     v0 \<leftarrow> rd value (voff + g * kGroup);
     (lo, hi) \<leftarrow> foldM (\<lambda>j lohi. do {
         v \<leftarrow> rd value (voff + (g * kGroup + j));
         let v = ld v;
         Some (if v < fst lohi then v else fst lohi, if v > snd lohi then v else snd lohi) })
       [1..<kGroup] (ld v0, ld v0);
     let (scale, zero) = value_scale_zero cmin cmax lo hi;
     group_scales \<leftarrow> wr group_scales (goff + g) scale;
     group_zeros \<leftarrow> wr group_zeros (goff + g) zero;
     codes \<leftarrow> foldM (\<lambda>j codes. do {
         v \<leftarrow> rd value (voff + (g * kGroup + j));
         wr codes (g * kGroup + j) (value_code cmin cmax (f16_value scale) (f16_value zero) (ld v)) })
       [0..<kGroup] codes;
     Some (group_scales, group_zeros, codes) }"

definition encode_value_row :: "('t \<Rightarrow> f32) \<Rightarrow> 't list \<Rightarrow> nat \<Rightarrow> nat \<Rightarrow> nat \<Rightarrow> bool \<Rightarrow> 8 word list \<Rightarrow> nat \<Rightarrow> nat \<Rightarrow>
    8 word list \<times> 16 word list \<times> 16 word list \<Rightarrow> (8 word list \<times> 16 word list \<times> 16 word list) option" where
  "encode_value_row ld value voff head_size value_bits value_signed codes roff goff st = do {
     let (row, group_scales, group_zeros) = st;
     let twos = value_twos value_signed value_bits;
     (group_scales, group_zeros, codes) \<leftarrow>
       foldM (value_group ld value voff (value_cmin twos) (value_cmax twos value_bits) goff)
         [0..<head_size div kGroup] (group_scales, group_zeros, codes);
     row \<leftarrow> pack_codes codes head_size value_bits roff row;
     Some (row, group_scales, group_zeros) }"

definition decode_value_row :: "8 word list \<Rightarrow> nat \<Rightarrow> 16 word list \<Rightarrow> 16 word list \<Rightarrow> nat \<Rightarrow> nat \<Rightarrow> nat \<Rightarrow> bool \<Rightarrow>
    nat \<Rightarrow> f32 list \<Rightarrow> f32 list option" where
  "decode_value_row row roff group_scales group_zeros goff head_size value_bits value_signed ooff out =
     foldM (\<lambda>g out. do {
       s \<leftarrow> rd group_scales (goff + g);
       z \<leftarrow> rd group_zeros (goff + g);
       foldM (\<lambda>j out. do {
         let i = g * kGroup + j;
         raw \<leftarrow> unpack_code row roff i value_bits;
         let code = (if value_twos value_signed value_bits then f32_of_int (sint raw) else f32_of_int (uint raw));
         wr out (ooff + i) ((code + f16_value z) * f16_value s) }) [0..<kGroup] out })
       [0..<head_size div kGroup] out"

section \<open>The cache kernels\<close>

record tq_cache =
  key_cache :: "8 word list"
  value_cache :: "8 word list"
  key_scales :: "16 word list"
  value_scales :: "16 word list"
  value_zeros :: "16 word list"

text \<open>\<open>scratch\<close> and \<open>codes\<close> are the uninitialised local arrays of a work-item.\<close>

definition tq_encode_item :: "('t \<Rightarrow> f32) \<Rightarrow> 't list \<Rightarrow> 't list \<Rightarrow> int list \<Rightarrow> f32 list \<Rightarrow> f32 list \<Rightarrow>
    nat \<Rightarrow> nat \<Rightarrow> nat \<Rightarrow> nat \<Rightarrow> bool \<Rightarrow> f32 list \<Rightarrow> 8 word list \<Rightarrow> nat \<Rightarrow> tq_cache \<Rightarrow> tq_cache option" where
  "tq_encode_item ld key value slot_mapping centroids signs num_kv_heads head_size key_bits value_bits
      value_signed scratch codes idx c = do {
     let kbytes = row_bytes head_size key_bits;
     let vbytes = row_bytes head_size value_bits;
     let groups = head_size div kGroup;
     let t = idx div num_kv_heads;
     let h = idx - t * num_kv_heads;
     slot \<leftarrow> rd slot_mapping t;
     if slot < 0 then Some c
     else do {
       let src = (t * num_kv_heads + h) * head_size;
       let dst = nat slot * num_kv_heads + h;
       (kc, ks) \<leftarrow> encode_key_row ld key src centroids signs head_size key_bits scratch codes
         (dst * kbytes) (dst * groups) (key_cache c, key_scales c);
       (vc, vs, vz) \<leftarrow> encode_value_row ld value src head_size value_bits value_signed codes
         (dst * vbytes) (dst * groups) (value_cache c, value_scales c, value_zeros c);
       Some \<lparr>key_cache = kc, value_cache = vc, key_scales = ks, value_scales = vs, value_zeros = vz\<rparr> } }"

definition tq_envelope :: "nat \<Rightarrow> int \<Rightarrow> int \<Rightarrow> bool" where
  "tq_envelope head_size key_bits value_bits \<longleftrightarrow>
     \<not> (head_size > kMaxHead \<or> head_size mod kGroup \<noteq> 0 \<or>
        key_bits < 2 \<or> key_bits > 8 \<or> value_bits < 2 \<or> value_bits > 8)"

definition turboquant_encode_sycl :: "(DType \<Rightarrow> 't \<Rightarrow> f32) \<Rightarrow> 't list \<Rightarrow> 't list \<Rightarrow> int list \<Rightarrow> f32 list \<Rightarrow> f32 list \<Rightarrow>
    nat \<Rightarrow> nat \<Rightarrow> nat \<Rightarrow> int \<Rightarrow> int \<Rightarrow> int \<Rightarrow> DType \<Rightarrow> (nat \<Rightarrow> f32 list) \<Rightarrow> (nat \<Rightarrow> 8 word list) \<Rightarrow> nat list \<Rightarrow>
    tq_cache \<Rightarrow> tq_cache option" where
  "turboquant_encode_sycl ld key value slot_mapping centroids signs num_tokens num_kv_heads head_size
      key_bits value_bits value_signed dt scratch codes sched c =
    (if \<not> tq_envelope head_size key_bits value_bits then Some c
     else foldM (\<lambda>idx. tq_encode_item (ld dt) key value slot_mapping centroids signs num_kv_heads head_size
            (nat key_bits) (nat value_bits) (value_signed \<noteq> 0) (scratch idx) (codes idx) idx) sched c)"

definition tq_decode_item :: "tq_cache \<Rightarrow> int list \<Rightarrow> f32 list \<Rightarrow> f32 list \<Rightarrow> nat \<Rightarrow> nat \<Rightarrow> nat \<Rightarrow> nat \<Rightarrow> bool \<Rightarrow>
    f32 list \<Rightarrow> nat \<Rightarrow> f32 list \<times> f32 list \<Rightarrow> (f32 list \<times> f32 list) option" where
  "tq_decode_item c slots centroids signs num_kv_heads head_size key_bits value_bits vsigned scratch idx st = do {
     let (k_out, v_out) = st;
     let kbytes = row_bytes head_size key_bits;
     let vbytes = row_bytes head_size value_bits;
     let groups = head_size div kGroup;
     let s = idx div num_kv_heads;
     let h = idx - s * num_kv_heads;
     slot \<leftarrow> rd slots s;
     let out = (s * num_kv_heads + h) * head_size;
     if slot < 0 then
       foldM (\<lambda>i st. do {
         k \<leftarrow> wr (fst st) (out + i) 0;
         v \<leftarrow> wr (snd st) (out + i) 0;
         Some (k, v) }) [0..<head_size] (k_out, v_out)
     else do {
       let src = nat slot * num_kv_heads + h;
       k_out \<leftarrow> decode_key_row (key_cache c) (src * kbytes) (key_scales c) (src * groups) centroids signs
         head_size key_bits scratch out k_out;
       v_out \<leftarrow> decode_value_row (value_cache c) (src * vbytes) (value_scales c) (value_zeros c) (src * groups)
         head_size value_bits vsigned out v_out;
       Some (k_out, v_out) } }"

definition turboquant_decode_sycl :: "tq_cache \<Rightarrow> int list \<Rightarrow> f32 list \<Rightarrow> f32 list \<Rightarrow> nat \<Rightarrow> nat \<Rightarrow> nat \<Rightarrow>
    int \<Rightarrow> int \<Rightarrow> int \<Rightarrow> (nat \<Rightarrow> f32 list) \<Rightarrow> nat list \<Rightarrow> f32 list \<times> f32 list \<Rightarrow> (f32 list \<times> f32 list) option" where
  "turboquant_decode_sycl c slots centroids signs num_slots num_kv_heads head_size key_bits value_bits
      value_signed scratch sched st =
    (if \<not> tq_envelope head_size key_bits value_bits then Some st
     else foldM (\<lambda>idx. tq_decode_item c slots centroids signs num_kv_heads head_size
            (nat key_bits) (nat value_bits) (value_signed \<noteq> 0) (scratch idx) idx) sched st)"
section \<open>Rows as functions of the input\<close>

lemma nested_store:
  assumes inner: "\<And>g m. g < G \<Longrightarrow> length m = length b \<Longrightarrow>
      \<exists>m'. f g m = Some m' \<and> writes {off + g * N..<off + g * N + N} (\<lambda>a. v (a - off)) m m'"
  shows "\<exists>b'. foldM f [0..<G] b = Some b' \<and> writes {off..<off + G * N} (\<lambda>a. v (a - off)) b b'"
proof -
  have "\<exists>b'. foldM f [0..<G] b = Some b' \<and> writes {off..<off + G * N} (\<lambda>a. v (a - off)) b b'"
  proof (rule foldM_upt [where P = "\<lambda>g m. writes {off..<off + g * N} (\<lambda>a. v (a - off)) b m"])
    fix g m assume g: "g < G" and m: "writes {off..<off + g * N} (\<lambda>a. v (a - off)) b m"
    obtain m' where m': "f g m = Some m'" "writes {off + g * N..<off + g * N + N} (\<lambda>a. v (a - off)) m m'"
      using inner [OF g writes_length [OF m]] by blast
    have "{off..<off + g * N} \<union> {off + g * N..<off + g * N + N} = {off..<off + Suc g * N}" by auto
    with writes_trans [OF m m'(2)] m'(1) show "\<exists>s'. f g m = Some s' \<and> writes {off..<off + Suc g * N} (\<lambda>a. v (a - off)) b s'"
      by auto
  qed auto
  then show ?thesis .
qed

definition packed_row :: "8 word list \<Rightarrow> nat \<Rightarrow> nat \<Rightarrow> 8 word" where
  "packed_row codes bits k =
     (the (pack_codes codes (length codes) bits 0 (replicate (row_bytes (length codes) bits) 0))) ! k"

lemma packed_rowI:
  assumes "0 < bits" "bits \<le> 8" "packed codes' bits off (row_bytes n bits) n out" "length codes = n"
    and "\<And>i. i < n \<Longrightarrow> codes' ! i = codes ! i" and "k < row_bytes n bits"
  shows "out ! (off + k) = packed_row codes bits k"
proof -
  let ?nb = "row_bytes n bits"
  obtain z where z: "pack_codes codes n bits 0 (replicate ?nb 0) = Some z" "packed codes bits 0 ?nb n z"
    using pack_codes_packed [of bits n codes 0 "replicate ?nb 0"] assms by auto
  have "out ! (off + k) = z ! k"
  proof (rule bit_word_eqI)
    fix p assume "p < LENGTH(8)"
    then have p: "(8 * k + p) div 8 = k" "(8 * k + p) mod 8 = p" "8 * k + p < 8 * ?nb" using assms(6) by simp_all
    have "bit (out ! (off + k)) p = stream_bit out off (8 * k + p)" using p by (simp add: stream_bit_def)
    also have "\<dots> = stream_bit z 0 (8 * k + p)"
    proof -
      have "8 * k + p < n * bits \<Longrightarrow> (8 * k + p) div bits < n"
        using assms(1) by (simp add: div_less_iff_less_mult)
      then show ?thesis using assms(3,5) z(2) p(3) by (auto simp: packed_def)
    qed
    also have "\<dots> = bit (z ! k) p" using p by (simp add: stream_bit_def)
    finally show "bit (out ! (off + k)) p = bit (z ! k) p" .
  qed
  then show ?thesis using z(1) assms(4) by (simp add: packed_row_def)
qed

lemma pack_codes_writes:
  assumes "0 < bits" "bits \<le> 8" "length codes = n" "n \<le> length codes'" "off + row_bytes n bits \<le> length out"
    and "\<And>i. i < n \<Longrightarrow> codes' ! i = codes ! i"
  shows "\<exists>out'. pack_codes codes' n bits off out = Some out' \<and>
    writes {off..<off + row_bytes n bits} (\<lambda>a. packed_row codes bits (a - off)) out out'"
proof -
  obtain out' where o: "pack_codes codes' n bits off out = Some out'" "length out' = length out"
    "packed codes' bits off (row_bytes n bits) n out'"
    "\<forall>a. a < off \<or> off + row_bytes n bits \<le> a \<longrightarrow> out' ! a = out ! a"
    using pack_codes_packed [of bits n codes' off out] assms by auto
  have "out' ! a = packed_row codes bits (a - off)" if "off \<le> a" "a < off + row_bytes n bits" for a
    using packed_rowI [OF assms(1,2) o(3) assms(3,6), of "a - off"] that by simp
  with o show ?thesis by (auto simp: writes_def)
qed

lemma packed_row_packed:
  assumes "0 < bits" "bits \<le> 8" "length codes = n"
    and "\<And>k. k < row_bytes n bits \<Longrightarrow> row ! (off + k) = packed_row codes bits k"
  shows "packed codes bits off (row_bytes n bits) n row"
proof -
  let ?nb = "row_bytes n bits"
  obtain z where z: "pack_codes codes n bits 0 (replicate ?nb 0) = Some z" "packed codes bits 0 ?nb n z"
    using pack_codes_packed [of bits n codes 0 "replicate ?nb 0"] assms by auto
  have "row ! (off + k) = z ! k" if "k < ?nb" for k
    using assms(3,4) that z(1) by (simp add: packed_row_def)
  then have "stream_bit row off j = stream_bit z 0 j" if "j < 8 * ?nb" for j
    using that by (simp add: stream_bit_def less_mult_imp_div_less mult.commute)
  then show ?thesis using z(2) by (auto simp: packed_def)
qed

subsection \<open>Value rows\<close>

definition group_range :: "(nat \<Rightarrow> f32) \<Rightarrow> nat \<Rightarrow> f32 \<times> f32" where
  "group_range f g = fold (\<lambda>j lohi. let v = f (g * kGroup + j) in
     (if v < fst lohi then v else fst lohi, if v > snd lohi then v else snd lohi))
   [1..<kGroup] (f (g * kGroup), f (g * kGroup))"

definition value_sz :: "bool \<Rightarrow> nat \<Rightarrow> (nat \<Rightarrow> f32) \<Rightarrow> nat \<Rightarrow> 16 word \<times> 16 word" where
  "value_sz twos bits f g = value_scale_zero (value_cmin twos) (value_cmax twos bits)
     (fst (group_range f g)) (snd (group_range f g))"

definition value_code_at :: "bool \<Rightarrow> nat \<Rightarrow> (nat \<Rightarrow> f32) \<Rightarrow> nat \<Rightarrow> 8 word" where
  "value_code_at twos bits f i = (let (s, z) = value_sz twos bits f (i div kGroup) in
     value_code (value_cmin twos) (value_cmax twos bits) (f16_value s) (f16_value z) (f i))"

lemma value_group_writes:
  fixes ld :: "'t \<Rightarrow> f32" and vals :: "'t list" and voff :: nat
  assumes "voff + (g * kGroup + kGroup) \<le> length vals" "goff + g < length gs" "goff + g < length gz"
    "g * kGroup + kGroup \<le> length codes"
  defines "f \<equiv> \<lambda>i. ld (vals ! (voff + i))"
  shows "\<exists>codes'. value_group ld vals voff (value_cmin twos) (value_cmax twos bits) goff g (gs, gz, codes) =
      Some (gs[goff + g := fst (value_sz twos bits f g)], gz[goff + g := snd (value_sz twos bits f g)], codes') \<and>
    writes {g * kGroup..<g * kGroup + kGroup} (value_code_at twos bits f) codes codes'"
proof -
  obtain s z where sz: "value_sz twos bits f g = (s, z)" by (cases "value_sz twos bits f g")
  have rg: "foldM (\<lambda>j lohi. do {
         v \<leftarrow> rd vals (voff + (g * kGroup + j));
         let v = ld v;
         Some (if v < fst lohi then v else fst lohi, if v > snd lohi then v else snd lohi) })
       [1..<kGroup] (ld (vals ! (voff + g * kGroup)), ld (vals ! (voff + g * kGroup))) = Some (group_range f g)"
    unfolding group_range_def f_def by (rule foldM_pure') (use assms(1) in \<open>simp add: Let_def\<close>)
  have codes: "\<exists>codes'. foldM (\<lambda>j codes. do {
         v \<leftarrow> rd vals (voff + (g * kGroup + j));
         wr codes (g * kGroup + j) (value_code (value_cmin twos) (value_cmax twos bits) (f16_value s) (f16_value z) (ld v)) })
       [0..<kGroup] codes = Some codes' \<and>
    writes {g * kGroup..<g * kGroup + kGroup} (\<lambda>a. value_code (value_cmin twos) (value_cmax twos bits)
      (f16_value s) (f16_value z) (f (g * kGroup + (a - g * kGroup)))) codes codes'"
    by (rule store_loop) (use assms(1,4) in \<open>auto simp: f_def\<close>)
  have eq: "value_code (value_cmin twos) (value_cmax twos bits) (f16_value s) (f16_value z) (f (g * kGroup + (a - g * kGroup)))
      = value_code_at twos bits f a" if "a \<in> {g * kGroup..<g * kGroup + kGroup}" for a
  proof -
    have "a div kGroup = g" using that by (intro conjunct1 [OF div_mod_unique [of a kGroup g "a - g * kGroup"]]) (auto simp: kGroup_def)
    with that show ?thesis by (simp add: value_code_at_def sz)
  qed
  obtain codes' where c: "foldM (\<lambda>j codes. do {
         v \<leftarrow> rd vals (voff + (g * kGroup + j));
         wr codes (g * kGroup + j) (value_code (value_cmin twos) (value_cmax twos bits) (f16_value s) (f16_value z) (ld v)) })
       [0..<kGroup] codes = Some codes'" "writes {g * kGroup..<g * kGroup + kGroup} (value_code_at twos bits f) codes codes'"
    using codes eq unfolding writes_def by auto
  obtain lo hi where lh: "group_range f g = (lo, hi)" by (cases "group_range f g")
  have "voff + g * kGroup < length vals" using assms(1) by (simp add: kGroup_def)
  then show ?thesis
    using lh c rg assms(2,3) sz
    by (intro exI [of _ codes']) (simp add: value_group_def value_sz_def)
qed

definition value_codes :: "bool \<Rightarrow> nat \<Rightarrow> nat \<Rightarrow> (nat \<Rightarrow> f32) \<Rightarrow> 8 word list" where
  "value_codes twos bits n f = map (value_code_at twos bits f) [0..<n]"

lemma value_groups_writes:
  fixes ld :: "'t \<Rightarrow> f32" and vals :: "'t list" and voff :: nat
  assumes "voff + G * kGroup \<le> length vals" "goff + G \<le> length gs" "goff + G \<le> length gz"
    "G * kGroup \<le> length codes"
  defines "f \<equiv> \<lambda>i. ld (vals ! (voff + i))"
  shows "\<exists>gs' gz' codes'. foldM (value_group ld vals voff (value_cmin twos) (value_cmax twos bits) goff)
      [0..<G] (gs, gz, codes) = Some (gs', gz', codes') \<and>
    writes {goff..<goff + G} (\<lambda>a. fst (value_sz twos bits f (a - goff))) gs gs' \<and>
    writes {goff..<goff + G} (\<lambda>a. snd (value_sz twos bits f (a - goff))) gz gz' \<and>
    writes {0..<G * kGroup} (value_code_at twos bits f) codes codes'"
proof -
  define P where "P k st \<longleftrightarrow> (\<exists>gs' gz' codes'. st = (gs', gz', codes') \<and>
    writes {goff..<goff + k} (\<lambda>a. fst (value_sz twos bits f (a - goff))) gs gs' \<and>
    writes {goff..<goff + k} (\<lambda>a. snd (value_sz twos bits f (a - goff))) gz gz' \<and>
    writes {0..<k * kGroup} (value_code_at twos bits f) codes codes')" for k st
  have "\<exists>st. foldM (value_group ld vals voff (value_cmin twos) (value_cmax twos bits) goff)
      [0..<G] (gs, gz, codes) = Some st \<and> P G st"
  proof (rule foldM_upt)
    show "P 0 (gs, gz, codes)" by (simp add: P_def)
  next
    fix k st assume k: "k < G" and "P k st"
    then obtain gs1 gz1 codes1 where st: "st = (gs1, gz1, codes1)"
      and w: "writes {goff..<goff + k} (\<lambda>a. fst (value_sz twos bits f (a - goff))) gs gs1"
        "writes {goff..<goff + k} (\<lambda>a. snd (value_sz twos bits f (a - goff))) gz gz1"
        "writes {0..<k * kGroup} (value_code_at twos bits f) codes codes1"
      by (auto simp: P_def)
    have kk: "k * kGroup + kGroup \<le> G * kGroup" using k mult_le_mono1 [of "Suc k" G kGroup] by simp
    have len: "length gs1 = length gs" "length gz1 = length gz" "length codes1 = length codes"
      using w by (auto dest: writes_length)
    obtain codes2 where c2: "value_group ld vals voff (value_cmin twos) (value_cmax twos bits) goff k (gs1, gz1, codes1) =
      Some (gs1[goff + k := fst (value_sz twos bits f k)], gz1[goff + k := snd (value_sz twos bits f k)], codes2)"
      "writes {k * kGroup..<k * kGroup + kGroup} (value_code_at twos bits f) codes1 codes2"
      using value_group_writes [of voff k vals goff gs1 gz1 codes1 ld twos bits] assms(1-4) k kk len
      unfolding f_def by auto
    have "{0..<k * kGroup} \<union> {k * kGroup..<k * kGroup + kGroup} = {0..<Suc k * kGroup}" by auto
    with writes_trans [OF w(3) c2(2)] have "writes {0..<Suc k * kGroup} (value_code_at twos bits f) codes codes2" by simp
    moreover have "writes {goff..<goff + Suc k} (\<lambda>a. h (value_sz twos bits f (a - goff))) b (b1[goff + k := h (value_sz twos bits f k)])"
      if "writes {goff..<goff + k} (\<lambda>a. h (value_sz twos bits f (a - goff))) b b1" "goff + k < length b" for h and b b1 :: "16 word list"
      using that unfolding writes_def by (auto simp: nth_list_update less_Suc_eq)
    ultimately show "\<exists>st'. value_group ld vals voff (value_cmin twos) (value_cmax twos bits) goff k st = Some st' \<and> P (Suc k) st'"
      using c2(1) w k assms(2,3) unfolding st P_def by auto
  qed simp
  then show ?thesis by (auto simp: P_def)
qed

lemma encode_value_row_writes:
  fixes sg :: bool and ld :: "'t \<Rightarrow> f32" and vals :: "'t list" and voff :: nat
  assumes hs: "hs = G * kGroup" and "0 < bits" "bits \<le> 8" "voff + hs \<le> length vals"
    "goff + G \<le> length gs" "goff + G \<le> length gz" "hs \<le> length codes" "roff + row_bytes hs bits \<le> length row"
  defines "f \<equiv> \<lambda>i. ld (vals ! (voff + i))" and "twos \<equiv> value_twos sg bits"
  shows "\<exists>row' gs' gz'. encode_value_row ld vals voff hs bits sg codes roff goff (row, gs, gz) = Some (row', gs', gz') \<and>
    writes {roff..<roff + row_bytes hs bits} (\<lambda>a. packed_row (value_codes twos bits hs f) bits (a - roff)) row row' \<and>
    writes {goff..<goff + G} (\<lambda>a. fst (value_sz twos bits f (a - goff))) gs gs' \<and>
    writes {goff..<goff + G} (\<lambda>a. snd (value_sz twos bits f (a - goff))) gz gz'"
proof -
  have g: "hs div kGroup = G" using hs by (simp add: kGroup_def)
  obtain gs' gz' codes' where v: "foldM (value_group ld vals voff (value_cmin twos) (value_cmax twos bits) goff)
      [0..<G] (gs, gz, codes) = Some (gs', gz', codes')"
    "writes {goff..<goff + G} (\<lambda>a. fst (value_sz twos bits f (a - goff))) gs gs'"
    "writes {goff..<goff + G} (\<lambda>a. snd (value_sz twos bits f (a - goff))) gz gz'"
    "writes {0..<hs} (value_code_at twos bits f) codes codes'"
    using value_groups_writes [of voff G vals goff gs gz codes ld twos bits] assms(4-7) hs unfolding f_def by auto
  have "\<exists>row'. pack_codes codes' hs bits roff row = Some row' \<and>
    writes {roff..<roff + row_bytes hs bits} (\<lambda>a. packed_row (value_codes twos bits hs f) bits (a - roff)) row row'"
    using v(4) assms(2,3,7,8) by (intro pack_codes_writes) (auto simp: value_codes_def writes_def)
  then show ?thesis using v unfolding encode_value_row_def Let_def twos_def [symmetric] by (auto simp: g)
qed

text \<open>Decoding a row that holds the encoded bytes, scales and zeros.\<close>

definition value_decoded :: "bool \<Rightarrow> nat \<Rightarrow> (nat \<Rightarrow> f32) \<Rightarrow> nat \<Rightarrow> f32" where
  "value_decoded twos bits f i =
    (let (s, z) = value_sz twos bits f (i div kGroup);
         raw = value_code_at twos bits f i AND mask bits;
         code = (if twos then f32_of_int (sint raw) else f32_of_int (uint raw))
     in (code + f16_value z) * f16_value s)"

lemma decode_value_row_writes:
  fixes sg :: bool
  assumes hs: "hs = G * kGroup" and "0 < bits" "bits \<le> 8"
    "goff + G \<le> length gs" "goff + G \<le> length gz" "roff + row_bytes hs bits \<le> length row" "ooff + hs \<le> length out"
  defines "twos \<equiv> value_twos sg bits"
  assumes row: "\<And>k. k < row_bytes hs bits \<Longrightarrow> row ! (roff + k) = packed_row (value_codes twos bits hs f) bits k"
    and gs: "\<And>g. g < G \<Longrightarrow> gs ! (goff + g) = fst (value_sz twos bits f g)"
    and gz: "\<And>g. g < G \<Longrightarrow> gz ! (goff + g) = snd (value_sz twos bits f g)"
  shows "\<exists>out'. decode_value_row row roff gs gz goff hs bits sg ooff out = Some out' \<and>
    writes {ooff..<ooff + hs} (\<lambda>a. value_decoded twos bits f (a - ooff)) out out'"
proof -
  have g: "hs div kGroup = G" using hs by (simp add: kGroup_def)
  have pk: "packed (value_codes twos bits hs f) bits roff (row_bytes hs bits) hs row"
    using assms(2,3) row by (intro packed_row_packed) (simp_all add: value_codes_def)
  have code: "unpack_code row roff i bits = Some (value_code_at twos bits f i AND mask bits)" if "i < hs" for i
    using unpack_packed [OF assms(2,3) that assms(6) pk] that by (simp add: value_codes_def)
  have "\<exists>out'. decode_value_row row roff gs gz goff hs bits sg ooff out = Some out' \<and>
    writes {ooff..<ooff + G * kGroup} (\<lambda>a. value_decoded twos bits f (a - ooff)) out out'"
    unfolding decode_value_row_def g twos_def [symmetric]
  proof (rule nested_store)
    fix k and m :: "f32 list" assume k: "k < G" and len: "length m = length out"
    have kk: "k * kGroup + kGroup \<le> hs" using k mult_le_mono1 [of "Suc k" G kGroup] hs by simp
    obtain s z where sz: "value_sz twos bits f k = (s, z)" by (cases "value_sz twos bits f k")
    have "\<exists>m'. foldM (\<lambda>j out. do {
         let i = k * kGroup + j;
         raw \<leftarrow> unpack_code row roff i bits;
         let code = (if twos then f32_of_int (sint raw) else f32_of_int (uint raw));
         wr out (ooff + i) ((code + f16_value z) * f16_value s) }) [0..<kGroup] m = Some m' \<and>
      writes {ooff + k * kGroup..<ooff + k * kGroup + kGroup} (\<lambda>a. value_decoded twos bits f (k * kGroup + (a - (ooff + k * kGroup)))) m m'"
    proof (rule store_loop)
      fix j and m1 :: "f32 list" assume j: "j < kGroup" "length m1 = length m"
      have "(k * kGroup + j) div kGroup = k"
        using j by (intro conjunct1 [OF div_mod_unique [of _ _ _ j]]) (simp_all add: mult.commute)
      then show "(let i = k * kGroup + j in unpack_code row roff i bits \<bind> (\<lambda>raw.
           let code = if twos then f32_of_int (sint raw) else f32_of_int (uint raw)
           in wr m1 (ooff + i) ((code + f16_value z) * f16_value s))) =
         wr m1 (ooff + k * kGroup + j) (value_decoded twos bits f (k * kGroup + j))"
        using code [of "k * kGroup + j"] j(1) kk sz by (simp add: value_decoded_def Let_def add.assoc)
    qed (use kk assms(7) len in auto)
    moreover have "rd gs (goff + k) = Some s" "rd gz (goff + k) = Some z"
      using gs [OF k] gz [OF k] sz k assms(4,5) by simp_all
    moreover have "k * kGroup + (a - (ooff + k * kGroup)) = a - ooff" if "a \<in> {ooff + k * kGroup..<ooff + k * kGroup + kGroup}" for a
      using that by simp
    ultimately show "\<exists>m'. (rd gs (goff + k) \<bind> (\<lambda>s. rd gz (goff + k) \<bind> (\<lambda>z. foldM (\<lambda>j out.
         let i = k * kGroup + j in unpack_code row roff i bits \<bind> (\<lambda>raw.
           let code = if twos then f32_of_int (sint raw) else f32_of_int (uint raw)
           in wr out (ooff + i) ((code + f16_value z) * f16_value s))) [0..<kGroup] m))) = Some m' \<and>
      writes {ooff + k * kGroup..<ooff + k * kGroup + kGroup} (\<lambda>a. value_decoded twos bits f (a - ooff)) m m'"
      unfolding writes_def by auto
  qed
  then show ?thesis using hs by simp
qed

lemma encode_key8_writes:
  fixes ld :: "'t \<Rightarrow> f32" and vals :: "'t list" and voff :: nat
  assumes "voff + hs \<le> length vals" "roff + hs \<le> length row"
  shows "\<exists>row'. encode_key_row ld vals voff centroids signs hs 8 scratch codes roff goff (row, gs) = Some (row', gs) \<and>
    writes {roff..<roff + hs} (\<lambda>a. e4m3_encode (ld (vals ! (voff + (a - roff))))) row row'"
proof -
  have "\<exists>row'. foldM (\<lambda>i row. do { k \<leftarrow> rd vals (voff + i); wr row (roff + i) (e4m3_encode (ld k)) }) [0..<hs] row = Some row' \<and>
    writes {roff..<roff + hs} (\<lambda>a. e4m3_encode (ld (vals ! (voff + (a - roff))))) row row'"
    by (rule store_loop) (use assms in auto)
  then show ?thesis by (auto simp: encode_key_row_def)
qed

lemma decode_key8_writes:
  assumes "roff + hs \<le> length row" "ooff + hs \<le> length out"
  shows "\<exists>out'. decode_key_row row roff gs goff centroids signs hs 8 scratch ooff out = Some out' \<and>
    writes {ooff..<ooff + hs} (\<lambda>a. e4m3_decode (row ! (roff + (a - ooff)))) out out'"
  unfolding decode_key_row_def using assms by simp (rule store_loop, auto)

section \<open>The kernels: encode, then decode\<close>

text \<open>The cache row of work-item \<open>idx\<close>, and the cells it owns in a buffer of rows of \<open>w\<close> cells.\<close>

definition tq_dst :: "int list \<Rightarrow> nat \<Rightarrow> nat \<Rightarrow> nat" where
  "tq_dst slots H idx = nat (slots ! (idx div H)) * H + idx mod H"

definition tq_cells :: "int list \<Rightarrow> nat \<Rightarrow> nat \<Rightarrow> nat \<Rightarrow> nat set" where
  "tq_cells slots H w idx = (if slots ! (idx div H) < 0 then {}
     else {tq_dst slots H idx * w..<tq_dst slots H idx * w + w})"

definition slots_ok :: "int list \<Rightarrow> nat \<Rightarrow> bool" where
  "slots_ok slots S \<longleftrightarrow> (\<forall>t<length slots. slots ! t < int S) \<and>
     (\<forall>t<length slots. \<forall>t'<length slots. t \<noteq> t' \<and> 0 \<le> slots ! t \<longrightarrow> slots ! t \<noteq> slots ! t')"

lemma tq_idx: "idx < T * (H::nat) \<Longrightarrow> idx div H < T \<and> idx mod H < H \<and> (idx div H) * H + idx mod H = idx"
  by (cases "H = 0") (auto simp: div_less_iff_less_mult)

lemma tq_dst_inj:
  assumes "slots_ok slots S" "i < length slots * H" "j < length slots * H" "i \<noteq> j"
    and "0 \<le> slots ! (i div H)" "0 \<le> slots ! (j div H)"
  shows "tq_dst slots H i \<noteq> tq_dst slots H j"
proof
  assume "tq_dst slots H i = tq_dst slots H j"
  note ti = tq_idx [OF assms(2)] and tj = tq_idx [OF assms(3)]
  have "nat (slots ! (i div H)) = nat (slots ! (j div H)) \<and> i mod H = j mod H"
    using \<open>tq_dst slots H i = _\<close> ti tj unfolding tq_dst_def by (subst (asm) row_col_inj) auto
  then have "slots ! (i div H) = slots ! (j div H)" "i mod H = j mod H" using assms(5,6) by auto
  moreover from this(1) have "i div H = j div H" using assms(1,5) ti tj unfolding slots_ok_def by metis
  ultimately have "i = j" using ti tj by metis
  with assms(4) show False by simp
qed

lemma tq_cells_owns: "slots_ok slots S \<Longrightarrow> owns (length slots * H) (tq_cells slots H w)"
  unfolding owns_def tq_cells_def using tq_dst_inj rows_apart by (auto simp: not_less)

lemma tq_row_fits:
  assumes "slots_ok slots S" "idx < length slots * H" "0 \<le> slots ! (idx div H)"
  shows "tq_dst slots H idx * w + w \<le> S * H * w"
proof -
  note ti = tq_idx [OF assms(2)]
  have "nat (slots ! (idx div H)) < S" using assms(1,3) ti by (auto simp: slots_ok_def)
  then have "tq_dst slots H idx < S * H" unfolding tq_dst_def using ti by (intro div_mult_add_lt) auto
  then show ?thesis using mult_le_mono1 [of "Suc (tq_dst slots H idx)" "S * H" w] by simp
qed

lemma src_fits: "idx < T * H \<Longrightarrow> idx * hs + hs \<le> T * H * (hs :: nat)"
  using mult_le_mono1 [of "Suc idx" "T * H" hs] by simp

lemma row_bytes_8 [simp]: "row_bytes hs 8 = hs"
  by (simp add: row_bytes_def)

text \<open>The shapes of the buffers the caller passes: \<open>S\<close> slots, \<open>T\<close> tokens.\<close>

definition tq_shapes :: "nat \<Rightarrow> nat \<Rightarrow> nat \<Rightarrow> nat \<Rightarrow> tq_cache \<Rightarrow> bool" where
  "tq_shapes S H hs vbits c \<longleftrightarrow> length (key_cache c) = S * H * hs \<and>
     length (value_cache c) = S * H * row_bytes hs vbits \<and>
     length (key_scales c) = S * H * (hs div kGroup) \<and> length (value_scales c) = S * H * (hs div kGroup) \<and>
     length (value_zeros c) = S * H * (hs div kGroup)"

lemma tq_shapes_cong: "tq_shapes S H hs vbits c \<Longrightarrow> length (key_cache c') = length (key_cache c) \<Longrightarrow>
    length (value_cache c') = length (value_cache c) \<Longrightarrow> length (key_scales c') = length (key_scales c) \<Longrightarrow>
    length (value_scales c') = length (value_scales c) \<Longrightarrow> length (value_zeros c') = length (value_zeros c) \<Longrightarrow>
    tq_shapes S H hs vbits c'"
  by (simp add: tq_shapes_def)

text \<open>What the item writes, as functions of the cell.\<close>

definition tq_key_val :: "('t \<Rightarrow> f32) \<Rightarrow> 't list \<Rightarrow> int list \<Rightarrow> nat \<Rightarrow> nat \<Rightarrow> nat \<Rightarrow> nat \<Rightarrow> 8 word" where
  "tq_key_val ld key slots H hs idx a = e4m3_encode (ld (key ! (idx * hs + (a - tq_dst slots H idx * hs))))"

definition tq_in :: "('t \<Rightarrow> f32) \<Rightarrow> 't list \<Rightarrow> nat \<Rightarrow> nat \<Rightarrow> nat \<Rightarrow> f32" where
  "tq_in ld xs hs idx i = ld (xs ! (idx * hs + i))"

definition tq_byte_val :: "bool \<Rightarrow> nat \<Rightarrow> ('t \<Rightarrow> f32) \<Rightarrow> 't list \<Rightarrow> int list \<Rightarrow> nat \<Rightarrow> nat \<Rightarrow> nat \<Rightarrow> nat \<Rightarrow> 8 word" where
  "tq_byte_val twos bits ld xs slots H hs idx a =
     packed_row (value_codes twos bits hs (tq_in ld xs hs idx)) bits (a - tq_dst slots H idx * row_bytes hs bits)"

definition tq_sz_val :: "bool \<Rightarrow> nat \<Rightarrow> ('t \<Rightarrow> f32) \<Rightarrow> 't list \<Rightarrow> int list \<Rightarrow> nat \<Rightarrow> nat \<Rightarrow> nat \<Rightarrow> nat \<Rightarrow> 16 word \<times> 16 word" where
  "tq_sz_val twos bits ld xs slots H hs idx a =
     value_sz twos bits (tq_in ld xs hs idx) (a - tq_dst slots H idx * (hs div kGroup))"

lemma tq_encode_item_writes:
  fixes c :: tq_cache and vsg :: bool
  assumes ok: "slots_ok slots S" and idx: "idx < length slots * H"
    and hs: "hs mod kGroup = 0" and bits: "0 < vb" "vb \<le> 8" and codes: "hs \<le> length codes"
    and len: "length slots * H * hs \<le> length key" "length slots * H * hs \<le> length vals" and sh: "tq_shapes S H hs vb c"
  defines "twos \<equiv> value_twos vsg vb"
  shows "\<exists>c'. tq_encode_item ld key vals slots centroids signs H hs 8 vb vsg scratch codes idx c = Some c' \<and>
    writes (tq_cells slots H hs idx) (tq_key_val ld key slots H hs idx) (key_cache c) (key_cache c') \<and>
    writes (tq_cells slots H (row_bytes hs vb) idx) (tq_byte_val twos vb ld vals slots H hs idx) (value_cache c) (value_cache c') \<and>
    key_scales c' = key_scales c \<and>
    writes (tq_cells slots H (hs div kGroup) idx) (\<lambda>a. fst (tq_sz_val twos vb ld vals slots H hs idx a)) (value_scales c) (value_scales c') \<and>
    writes (tq_cells slots H (hs div kGroup) idx) (\<lambda>a. snd (tq_sz_val twos vb ld vals slots H hs idx a)) (value_zeros c) (value_zeros c')"
proof -
  note ti = tq_idx [OF idx]
  have h: "idx - idx div H * H = idx mod H" by (simp add: minus_div_mult_eq_mod)
  show ?thesis
  proof (cases "slots ! (idx div H) < 0")
    case True
    then show ?thesis using ti by (simp add: tq_encode_item_def Let_def tq_cells_def)
  next
    case False
    define d where "d = tq_dst slots H idx"
    have fit: "d * w + w \<le> S * H * w" for w using tq_row_fits [OF ok idx] False by (simp add: d_def)
    have src: "idx * hs + hs \<le> length key" "idx * hs + hs \<le> length vals"
      using src_fits [OF idx, of hs] len by linarith+
    have G: "hs = hs div kGroup * kGroup" using hs by (metis add.right_neutral div_mult_mod_eq)
    obtain kc where k: "encode_key_row ld key (idx * hs) centroids signs hs 8 scratch codes (d * hs) (d * (hs div kGroup))
        (key_cache c, key_scales c) = Some (kc, key_scales c)"
      "writes {d * hs..<d * hs + hs} (\<lambda>a. e4m3_encode (ld (key ! (idx * hs + (a - d * hs))))) (key_cache c) kc"
      using encode_key8_writes [of "idx * hs" hs key "d * hs" "key_cache c" ld centroids signs scratch codes "d * (hs div kGroup)" "key_scales c"]
        src(1) fit [of hs] sh by (auto simp: tq_shapes_def)
    obtain vc vs vz where v: "encode_value_row ld vals (idx * hs) hs vb vsg codes (d * row_bytes hs vb) (d * (hs div kGroup))
        (value_cache c, value_scales c, value_zeros c) = Some (vc, vs, vz)"
      "writes {d * row_bytes hs vb..<d * row_bytes hs vb + row_bytes hs vb}
        (\<lambda>a. packed_row (value_codes twos vb hs (\<lambda>i. ld (vals ! (idx * hs + i)))) vb (a - d * row_bytes hs vb)) (value_cache c) vc"
      "writes {d * (hs div kGroup)..<d * (hs div kGroup) + hs div kGroup}
        (\<lambda>a. fst (value_sz twos vb (\<lambda>i. ld (vals ! (idx * hs + i))) (a - d * (hs div kGroup)))) (value_scales c) vs"
      "writes {d * (hs div kGroup)..<d * (hs div kGroup) + hs div kGroup}
        (\<lambda>a. snd (value_sz twos vb (\<lambda>i. ld (vals ! (idx * hs + i))) (a - d * (hs div kGroup)))) (value_zeros c) vz"
      using encode_value_row_writes [OF G bits src(2), of "d * (hs div kGroup)" "value_scales c" "value_zeros c" codes
          "d * row_bytes hs vb" "value_cache c" ld vsg] fit [of "row_bytes hs vb"] fit [of "hs div kGroup"] sh codes
      unfolding twos_def by (auto simp: tq_shapes_def)
    have cells: "tq_cells slots H w idx = {d * w..<d * w + w}" for w using False by (simp add: tq_cells_def d_def)
    have eq: "tq_encode_item ld key vals slots centroids signs H hs 8 vb vsg scratch codes idx c =
        Some \<lparr>key_cache = kc, value_cache = vc, key_scales = key_scales c, value_scales = vs, value_zeros = vz\<rparr>"
      using ti False k(1) v(1) by (simp add: tq_encode_item_def Let_def h d_def tq_dst_def)
    show ?thesis unfolding eq cells using k(2) v(2-4)
      by (simp add: tq_key_val_def [abs_def] tq_byte_val_def [abs_def] tq_sz_val_def [abs_def] tq_in_def [abs_def] d_def)
  qed
qed

text \<open>The whole encode launch, and what it leaves in the caches.\<close>

definition tq_encoded :: "nat \<Rightarrow> bool \<Rightarrow> nat \<Rightarrow> ('t \<Rightarrow> f32) \<Rightarrow> 't list \<Rightarrow> 't list \<Rightarrow> int list \<Rightarrow> nat \<Rightarrow> nat \<Rightarrow>
    nat set \<Rightarrow> tq_cache \<Rightarrow> tq_cache \<Rightarrow> bool" where
  "tq_encoded S twos vb ld key vals slots H hs D c c' \<longleftrightarrow>
    rows_done (tq_cells slots H hs) (tq_key_val ld key slots H hs) (key_cache c) D (key_cache c') \<and>
    rows_done (tq_cells slots H (row_bytes hs vb)) (tq_byte_val twos vb ld vals slots H hs) (value_cache c) D (value_cache c') \<and>
    key_scales c' = key_scales c \<and>
    rows_done (tq_cells slots H (hs div kGroup)) (\<lambda>i a. fst (tq_sz_val twos vb ld vals slots H hs i a)) (value_scales c) D (value_scales c') \<and>
    rows_done (tq_cells slots H (hs div kGroup)) (\<lambda>i a. snd (tq_sz_val twos vb ld vals slots H hs i a)) (value_zeros c) D (value_zeros c')"

lemma tq_encode_launch:
  fixes c :: tq_cache and vsg :: bool
  assumes ok: "slots_ok slots S" and sched: "schedule (length slots * H) sched"
    and hs: "hs mod kGroup = 0" and bits: "0 < vb" "vb \<le> 8" and codes: "\<And>i. hs \<le> length (codes i)"
    and len: "length slots * H * hs \<le> length key" "length slots * H * hs \<le> length vals" and sh: "tq_shapes S H hs vb c"
  shows "\<exists>c'. foldM (\<lambda>idx. tq_encode_item ld key vals slots centroids signs H hs 8 vb vsg (scratch idx) (codes idx) idx) sched c = Some c' \<and>
    tq_encoded S (value_twos vsg vb) vb ld key vals slots H hs {..<length slots * H} c c'"
proof -
  let ?n = "length slots * H" and ?E = "\<lambda>D. tq_encoded S (value_twos vsg vb) vb ld key vals slots H hs D c"
  note own = tq_cells_owns [OF ok, of H]
  have "\<exists>c'. foldM (\<lambda>idx. tq_encode_item ld key vals slots centroids signs H hs 8 vb vsg (scratch idx) (codes idx) idx) sched c = Some c' \<and>
      (?E {..<?n} c' \<and> {..<?n} \<subseteq> {..<?n})"
  proof (rule foldM_schedule [OF sched, where P = "\<lambda>D m. ?E D m \<and> D \<subseteq> {..<?n}"])
    show "?E {} c \<and> {} \<subseteq> {..<?n}" by (simp add: tq_encoded_def)
  next
    fix D i m assume i: "i < ?n" "i \<notin> D" and m: "?E D m \<and> D \<subseteq> {..<?n}"
    have "tq_shapes S H hs vb m"
      using m by (intro tq_shapes_cong [OF sh]) (auto simp: tq_encoded_def dest: rows_done_length)
    from tq_encode_item_writes [OF ok i(1) hs bits codes len this, of ld centroids signs vsg "scratch i" i]
    obtain m' where m': "tq_encode_item ld key vals slots centroids signs H hs 8 vb vsg (scratch i) (codes i) i m = Some m'"
      "writes (tq_cells slots H hs i) (tq_key_val ld key slots H hs i) (key_cache m) (key_cache m')"
      "writes (tq_cells slots H (row_bytes hs vb) i) (tq_byte_val (value_twos vsg vb) vb ld vals slots H hs i) (value_cache m) (value_cache m')"
      "key_scales m' = key_scales m"
      "writes (tq_cells slots H (hs div kGroup) i) (\<lambda>a. fst (tq_sz_val (value_twos vsg vb) vb ld vals slots H hs i a)) (value_scales m) (value_scales m')"
      "writes (tq_cells slots H (hs div kGroup) i) (\<lambda>a. snd (tq_sz_val (value_twos vsg vb) vb ld vals slots H hs i a)) (value_zeros m) (value_zeros m')"
      by blast
    have "?E (insert i D) m'"
      using m i m' unfolding tq_encoded_def by (auto intro: rows_done_step [OF own])
    with m'(1) i(1) m show "\<exists>s'. tq_encode_item ld key vals slots centroids signs H hs 8 vb vsg (scratch i) (codes i) i m = Some s' \<and>
        (?E (insert i D) s' \<and> insert i D \<subseteq> {..<?n})" by auto
  qed
  then show ?thesis by auto
qed

text \<open>One decode item over an encoded cache writes its head of both outputs.\<close>

definition tq_k_out :: "('t \<Rightarrow> f32) \<Rightarrow> 't list \<Rightarrow> int list \<Rightarrow> nat \<Rightarrow> nat \<Rightarrow> nat \<Rightarrow> nat \<Rightarrow> f32" where
  "tq_k_out ld key slots H hs idx a = (if slots ! (idx div H) < 0 then 0 else e4m3_decode (e4m3_encode (ld (key ! a))))"

definition tq_v_out :: "bool \<Rightarrow> nat \<Rightarrow> ('t \<Rightarrow> f32) \<Rightarrow> 't list \<Rightarrow> int list \<Rightarrow> nat \<Rightarrow> nat \<Rightarrow> nat \<Rightarrow> nat \<Rightarrow> f32" where
  "tq_v_out twos vb ld vals slots H hs idx a = (if slots ! (idx div H) < 0 then 0
     else value_decoded twos vb (tq_in ld vals hs idx) (a - idx * hs))"

definition tq_out_cells :: "nat \<Rightarrow> nat \<Rightarrow> nat set" where
  "tq_out_cells hs idx = {idx * hs..<idx * hs + hs}"

lemma zero_rows:
  assumes "off + hs \<le> length k" "off + hs \<le> length v"
  shows "\<exists>k' v'. foldM (\<lambda>i st. do { k \<leftarrow> wr (fst st) (off + i) (0::f32); v \<leftarrow> wr (snd st) (off + i) (0::f32); Some (k, v) })
      [0..<hs] (k, v) = Some (k', v') \<and> writes {off..<off + hs} (\<lambda>a. 0) k k' \<and> writes {off..<off + hs} (\<lambda>a. 0) v v'"
proof -
  define P where "P i st \<longleftrightarrow> writes {off..<off + i} (\<lambda>a. 0) k (fst st) \<and> writes {off..<off + i} (\<lambda>a. 0) v (snd st)" for i and st :: "f32 list \<times> f32 list"
  have "\<exists>st. foldM (\<lambda>i st. do { k \<leftarrow> wr (fst st) (off + i) (0::f32); v \<leftarrow> wr (snd st) (off + i) (0::f32); Some (k, v) })
      [0..<hs] (k, v) = Some st \<and> P hs st"
  proof (rule foldM_upt)
    fix i st assume i: "i < hs" and st: "P i st"
    have l: "length (fst st) = length k" "length (snd st) = length v" using st by (auto simp: P_def dest: writes_length)
    have "P (Suc i) ((fst st)[off + i := 0], (snd st)[off + i := 0])"
      using st unfolding P_def writes_def by (auto simp: nth_list_update less_Suc_eq)
    then show "\<exists>s'. (do { k \<leftarrow> wr (fst st) (off + i) (0::f32); v \<leftarrow> wr (snd st) (off + i) (0::f32); Some (k, v) }) = Some s' \<and> P (Suc i) s'"
      using i l assms by simp
  qed (auto simp: P_def)
  then show ?thesis by (auto simp: P_def)
qed

lemma tq_decode_item_writes:
  fixes c c' :: tq_cache and vsg :: bool
  assumes ok: "slots_ok slots S" and idx: "idx < length slots * H"
    and hs: "hs mod kGroup = 0" and bits: "0 < vb" "vb \<le> 8" and sh: "tq_shapes S H hs vb c"
    and enc: "tq_encoded S (value_twos vsg vb) vb ld key vals slots H hs {..<length slots * H} c c'"
    and out: "length slots * H * hs \<le> length ko" "length slots * H * hs \<le> length vo"
  shows "\<exists>ko' vo'. tq_decode_item c' slots centroids signs H hs 8 vb vsg scratch idx (ko, vo) = Some (ko', vo') \<and>
    writes (tq_out_cells hs idx) (tq_k_out ld key slots H hs idx) ko ko' \<and>
    writes (tq_out_cells hs idx) (tq_v_out (value_twos vsg vb) vb ld vals slots H hs idx) vo vo'"
proof -
  note ti = tq_idx [OF idx]
  have h: "idx - idx div H * H = idx mod H" by (simp add: minus_div_mult_eq_mod)
  have fo: "idx * hs + hs \<le> length ko" "idx * hs + hs \<le> length vo" using src_fits [OF idx, of hs] out by linarith+
  show ?thesis
  proof (cases "slots ! (idx div H) < 0")
    case True
    then show ?thesis using ti zero_rows [OF fo]
      by (simp add: tq_decode_item_def Let_def h tq_out_cells_def tq_k_out_def [abs_def] tq_v_out_def [abs_def])
  next
    case False
    define d where "d = tq_dst slots H idx"
    have fit: "d * w + w \<le> S * H * w" for w using tq_row_fits [OF ok idx] False by (simp add: d_def)
    have cells: "a \<in> tq_cells slots H w idx \<longleftrightarrow> d * w \<le> a \<and> a < d * w + w" for a w using False by (simp add: tq_cells_def d_def)
    have G: "hs = hs div kGroup * kGroup" using hs by (metis add.right_neutral div_mult_mod_eq)
    have L: "length (key_cache c') = S * H * hs" "length (value_cache c') = S * H * row_bytes hs vb"
        "length (value_scales c') = S * H * (hs div kGroup)" "length (value_zeros c') = S * H * (hs div kGroup)"
      using enc sh by (auto simp: tq_encoded_def tq_shapes_def dest: rows_done_length)
    have kv: "key_cache c' ! (d * hs + i) = e4m3_encode (ld (key ! (idx * hs + i)))" if "i < hs" for i
      using rows_done_cell [OF conjunct1 [OF enc [unfolded tq_encoded_def]] idx, of "d * hs + i"] that fit [of hs] sh
      by (simp add: cells tq_key_val_def d_def tq_shapes_def)
    obtain ko' where ko': "decode_key_row (key_cache c') (d * hs) (key_scales c') (d * (hs div kGroup)) centroids signs hs 8
        scratch (idx * hs) ko = Some ko'"
      "writes {idx * hs..<idx * hs + hs} (\<lambda>a. e4m3_decode (key_cache c' ! (d * hs + (a - idx * hs)))) ko ko'"
      using decode_key8_writes [of "d * hs" hs "key_cache c'" "idx * hs" ko "key_scales c'" "d * (hs div kGroup)" centroids signs scratch] fit [of hs] L(1) fo(1) by auto
    have "\<exists>vo'. decode_value_row (value_cache c') (d * row_bytes hs vb) (value_scales c') (value_zeros c') (d * (hs div kGroup))
        hs vb vsg (idx * hs) vo = Some vo' \<and>
      writes {idx * hs..<idx * hs + hs} (\<lambda>a. value_decoded (value_twos vsg vb) vb (tq_in ld vals hs idx) (a - idx * hs)) vo vo'"
    proof (rule decode_value_row_writes [OF G bits])
      fix k assume "k < row_bytes hs vb"
      then show "value_cache c' ! (d * row_bytes hs vb + k) = packed_row (value_codes (value_twos vsg vb) vb hs (tq_in ld vals hs idx)) vb k"
        using rows_done_cell [of _ _ "value_cache c" _ "value_cache c'" idx "d * row_bytes hs vb + k"] enc idx fit [of "row_bytes hs vb"] sh
        by (auto simp: tq_encoded_def cells tq_byte_val_def d_def tq_shapes_def)
    next
      fix g assume "g < hs div kGroup"
      then show "value_scales c' ! (d * (hs div kGroup) + g) = fst (value_sz (value_twos vsg vb) vb (tq_in ld vals hs idx) g)"
        "value_zeros c' ! (d * (hs div kGroup) + g) = snd (value_sz (value_twos vsg vb) vb (tq_in ld vals hs idx) g)"
        using rows_done_cell [of _ _ "value_scales c" _ "value_scales c'" idx "d * (hs div kGroup) + g"]
          rows_done_cell [of _ _ "value_zeros c" _ "value_zeros c'" idx "d * (hs div kGroup) + g"] enc idx fit [of "hs div kGroup"] sh
        by (auto simp: tq_encoded_def cells tq_sz_val_def d_def tq_shapes_def)
    qed (use fit L fo in simp_all)
    then obtain vo' where vo': "decode_value_row (value_cache c') (d * row_bytes hs vb) (value_scales c') (value_zeros c') (d * (hs div kGroup))
        hs vb vsg (idx * hs) vo = Some vo'"
      "writes {idx * hs..<idx * hs + hs} (\<lambda>a. value_decoded (value_twos vsg vb) vb (tq_in ld vals hs idx) (a - idx * hs)) vo vo'" by blast
    have "writes {idx * hs..<idx * hs + hs} (tq_k_out ld key slots H hs idx) ko ko'"
    proof -
      have "key_cache c' ! (d * hs + (a - idx * hs)) = e4m3_encode (ld (key ! a))"
        if "idx * hs \<le> a" "a < idx * hs + hs" for a
        using kv [of "a - idx * hs"] that by simp
      then show ?thesis using ko'(2) False unfolding writes_def tq_k_out_def by (auto simp del: diff_add_assoc2 add_diff_assoc)
    qed
    moreover have "writes {idx * hs..<idx * hs + hs} (tq_v_out (value_twos vsg vb) vb ld vals slots H hs idx) vo vo'"
      using vo'(2) False unfolding writes_def tq_v_out_def by auto
    moreover have "tq_decode_item c' slots centroids signs H hs 8 vb vsg scratch idx (ko, vo) = Some (ko', vo')"
      using ti False ko'(1) vo'(1) by (simp add: tq_decode_item_def Let_def h d_def tq_dst_def)
    ultimately show ?thesis by (simp add: tq_out_cells_def)
  qed
qed

lemma tq_out_owns: "owns n (tq_out_cells hs)"
  unfolding owns_def tq_out_cells_def using rows_apart by blast

lemma tq_decode_launch:
  fixes c c' :: tq_cache and vsg :: bool
  assumes ok: "slots_ok slots S" and sched: "schedule (length slots * H) sched"
    and hs: "hs mod kGroup = 0" and bits: "0 < vb" "vb \<le> 8" and sh: "tq_shapes S H hs vb c"
    and enc: "tq_encoded S (value_twos vsg vb) vb ld key vals slots H hs {..<length slots * H} c c'"
    and out: "length slots * H * hs \<le> length ko" "length slots * H * hs \<le> length vo"
  shows "\<exists>ko' vo'. foldM (\<lambda>idx. tq_decode_item c' slots centroids signs H hs 8 vb vsg (scratch idx) idx) sched (ko, vo) = Some (ko', vo') \<and>
    rows_done (tq_out_cells hs) (tq_k_out ld key slots H hs) ko {..<length slots * H} ko' \<and>
    rows_done (tq_out_cells hs) (tq_v_out (value_twos vsg vb) vb ld vals slots H hs) vo {..<length slots * H} vo'"
proof -
  let ?n = "length slots * H"
  define P where "P D st \<longleftrightarrow> rows_done (tq_out_cells hs) (tq_k_out ld key slots H hs) ko D (fst st) \<and>
    rows_done (tq_out_cells hs) (tq_v_out (value_twos vsg vb) vb ld vals slots H hs) vo D (snd st) \<and> D \<subseteq> {..<?n}" for D st
  have "\<exists>st. foldM (\<lambda>idx. tq_decode_item c' slots centroids signs H hs 8 vb vsg (scratch idx) idx) sched (ko, vo) = Some st \<and> P {..<?n} st"
  proof (rule foldM_schedule [OF sched])
    fix D i st assume i: "i < ?n" "i \<notin> D" and st: "P D st"
    obtain k v where kv: "st = (k, v)" by (cases st)
    have len: "?n * hs \<le> length k" "?n * hs \<le> length v" using st out by (auto simp: P_def kv dest: rows_done_length)
    obtain k' v' where s: "tq_decode_item c' slots centroids signs H hs 8 vb vsg (scratch i) i (k, v) = Some (k', v')"
      "writes (tq_out_cells hs i) (tq_k_out ld key slots H hs i) k k'"
      "writes (tq_out_cells hs i) (tq_v_out (value_twos vsg vb) vb ld vals slots H hs i) v v'"
      using tq_decode_item_writes [OF ok i(1) hs bits sh enc len, of centroids signs "scratch i"] by blast
    have "P (insert i D) (k', v')"
      using st i s unfolding P_def kv by (auto intro: rows_done_step [OF tq_out_owns])
    with s(1) kv show "\<exists>s'. tq_decode_item c' slots centroids signs H hs 8 vb vsg (scratch i) i st = Some s' \<and> P (insert i D) s'"
      by blast
  qed (simp add: P_def)
  then show ?thesis by (auto simp: P_def)
qed

lemma tq_out_cell: "rows_done (tq_out_cells hs) w b {..<n} b' \<Longrightarrow> idx < n \<Longrightarrow> i < hs \<Longrightarrow> n * hs \<le> length b \<Longrightarrow>
    b' ! (idx * hs + i) = w idx (idx * hs + i)"
proof -
  assume a: "rows_done (tq_out_cells hs) w b {..<n} b'" "idx < n" "i < hs" "n * hs \<le> length b"
  have "idx * hs + i < n * hs" using a(2,3) by (rule div_mult_add_lt)
  then show ?thesis using a by (intro rows_done_cell [OF a(1)]) (auto simp: tq_out_cells_def)
qed

section \<open>Properties\<close>

text \<open>Packing writes the low bits of the codes as one LSB-first stream and unpacking reads every
  code back, for every width from 1 to 8 and any position of the row in its cache; bytes
  outside the row keep their value.\<close>

theorem pack_unpack_roundtrip:
  assumes "0 < bits" "bits \<le> 8" "n \<le> length codes" "off + row_bytes n bits \<le> length out"
  shows "\<exists>out'. pack_codes codes n bits off out = Some out' \<and> length out' = length out \<and>
    (\<forall>i<n. unpack_code out' off i bits = Some (codes ! i AND mask bits)) \<and>
    (\<forall>a. a < off \<or> off + row_bytes n bits \<le> a \<longrightarrow> out' ! a = out ! a)"
proof -
  obtain out' where o: "pack_codes codes n bits off out = Some out'" "length out' = length out"
    "packed codes bits off (row_bytes n bits) n out'" "\<forall>a. a < off \<or> off + row_bytes n bits \<le> a \<longrightarrow> out' ! a = out ! a"
    using pack_codes_packed [OF assms] by blast
  have "unpack_code out' off i bits = Some (codes ! i AND mask bits)" if "i < n" for i
    using unpack_packed [OF assms(1,2) that _ o(3)] o(2) assms(4) by simp
  with o show ?thesis by blast
qed

text \<open>The iterative butterflies compute the Walsh-Hadamard transform as its recursion on halves
  defines it, in any arithmetic (on floats, bit for bit).\<close>

theorem fwht_computes_wht:
  assumes "length u = 2 ^ k"
  shows "fwht (2 ^ k) u = Some (wht k u)"
  using assms by (rule fwht_wht)

text \<open>in exact arithmetic the transform applied twice multiplies by the row length, so decoding
  with the same transform undoes encoding up to the two factors \<open>1 / sqrt(head_size)\<close>.\<close>

theorem fwht_self_inverse:
  fixes u :: "'a::comm_ring_1 list"
  assumes "length u = 2 ^ k"
  shows "Option.bind (fwht (2 ^ k) u) (fwht (2 ^ k)) = Some (map ((*) (2 ^ k)) u)"
  using fwht_wht [OF assms] fwht_wht [of "wht k u" k] assms by (simp add: length_wht wht_involution)

text \<open>on a row whose length is not a power of two the transform reads past the row: the head
  sizes 96, 160, 192 and 224 pass the format envelope and reach cells the row does not have.\<close>

theorem fwht_leaves_odd_rows:
  assumes "length u = 96"
  shows "fwht 96 u = None \<and> tq_envelope 96 4 4"
proof -
  have "(96::nat) \<noteq> 2 ^ k" for k
  proof
    assume e: "(96::nat) = 2 ^ k"
    then have "(2::nat) ^ k < 2 ^ 7" by simp
    then have "k < 7" by (rule power_less_imp_less_exp [rotated]) simp
    then have "k \<in> {0, 1, 2, 3, 4, 5, 6}" by auto
    with e show False by auto
  qed
  then show ?thesis using fwht_leaves_row [of 96 u] assms
    by (simp add: tq_envelope_def kMaxHead_def kGroup_def)
qed

text \<open>C11: encoding tokens into the cache and decoding their slots, under any two schedules of the
  work-items, never leaves a buffer and returns, for every token, head and coordinate, the
  e4m3 rounding of the key and the affine dequantisation of the value's code; a token with a
  negative slot decodes to zeros.\<close>

theorem turboquant_cache_roundtrip:
  assumes "slots_ok slots S" and "tq_envelope hs 8 vbits" and "tq_shapes S H hs (nat vbits) c"
    and "schedule (length slots * H) sched1" and "schedule (length slots * H) sched2"
    and "length slots * H * hs \<le> length key" "length slots * H * hs \<le> length vals"
    and "length slots * H * hs \<le> length ko" "length slots * H * hs \<le> length vo"
    and "\<And>i. length (codes i) = kMaxHead"
  shows "\<exists>c' ko' vo'.
    turboquant_encode_sycl ld key vals slots centroids signs (length slots) H hs 8 vbits vsg dt scratch codes sched1 c = Some c' \<and>
    turboquant_decode_sycl c' slots centroids signs (length slots) H hs 8 vbits vsg scratch sched2 (ko, vo) = Some (ko', vo') \<and>
    (\<forall>t<length slots. \<forall>h<H. \<forall>i<hs. let a = (t * H + h) * hs + i in
       ko' ! a = (if slots ! t < 0 then 0 else e4m3_decode (e4m3_encode (ld dt (key ! a)))) \<and>
       vo' ! a = (if slots ! t < 0 then 0 else
         value_decoded (value_twos (vsg \<noteq> 0) (nat vbits)) (nat vbits) (tq_in (ld dt) vals hs (t * H + h)) i))"
proof -
  have hs: "hs mod kGroup = 0" "hs \<le> kMaxHead" and bits: "0 < nat vbits" "nat vbits \<le> 8"
    using assms(2) by (auto simp: tq_envelope_def)
  obtain c' where e: "foldM (\<lambda>idx. tq_encode_item (ld dt) key vals slots centroids signs H hs 8 (nat vbits) (vsg \<noteq> 0) (scratch idx) (codes idx) idx) sched1 c = Some c'"
    "tq_encoded S (value_twos (vsg \<noteq> 0) (nat vbits)) (nat vbits) (ld dt) key vals slots H hs {..<length slots * H} c c'"
    using tq_encode_launch [OF assms(1,4) hs(1) bits _ assms(6,7,3), of codes "ld dt" centroids signs "vsg \<noteq> 0" scratch]
      assms(10) hs(2) by auto
  obtain ko' vo' where d: "foldM (\<lambda>idx. tq_decode_item c' slots centroids signs H hs 8 (nat vbits) (vsg \<noteq> 0) (scratch idx) idx) sched2 (ko, vo) = Some (ko', vo')"
    "rows_done (tq_out_cells hs) (tq_k_out (ld dt) key slots H hs) ko {..<length slots * H} ko'"
    "rows_done (tq_out_cells hs) (tq_v_out (value_twos (vsg \<noteq> 0) (nat vbits)) (nat vbits) (ld dt) vals slots H hs) vo {..<length slots * H} vo'"
    using tq_decode_launch [OF assms(1,5) hs(1) bits assms(3) e(2) assms(8,9), of centroids signs scratch] by blast
  have "let a = (t * H + h) * hs + i in
       ko' ! a = (if slots ! t < 0 then 0 else e4m3_decode (e4m3_encode (ld dt (key ! a)))) \<and>
       vo' ! a = (if slots ! t < 0 then 0 else
         value_decoded (value_twos (vsg \<noteq> 0) (nat vbits)) (nat vbits) (tq_in (ld dt) vals hs (t * H + h)) i)"
    if "t < length slots" "h < H" "i < hs" for t h i
  proof -
    have idx: "t * H + h < length slots * H" using that(1,2) by (rule div_mult_add_lt)
    have "(t * H + h) div H = t" using that(2) by simp
    then show ?thesis
      using tq_out_cell [OF d(2) idx that(3) assms(8)] tq_out_cell [OF d(3) idx that(3) assms(9)]
      by (simp add: Let_def tq_k_out_def tq_v_out_def)
  qed
  then show ?thesis using e(1) d(1) assms(2)
    by (intro exI [of _ c'] exI [of _ ko'] exI [of _ vo'])
      (simp add: turboquant_encode_sycl_def turboquant_decode_sycl_def)
qed

text \<open>A one-token, one-head cache of 32 coordinates.\<close>

definition tq_cache1 :: tq_cache where
  "tq_cache1 = \<lparr>key_cache = replicate 32 0, value_cache = replicate 16 0, key_scales = [0], value_scales = [0], value_zeros = [0]\<rparr>"

theorem turboquant_cache_roundtrip_witness:
  "\<exists>c' ko' vo'. turboquant_encode_sycl (\<lambda>_. F32) (replicate 32 0) (replicate 32 0) [0] [] [] 1 1 32 8 4 0 DF32
      (\<lambda>_. []) (\<lambda>_. replicate kMaxHead 0) [0] tq_cache1 = Some c' \<and>
    turboquant_decode_sycl c' [0] [] [] 1 1 32 8 4 0 (\<lambda>_. []) [0] (replicate 32 0, replicate 32 0) = Some (ko', vo')"
proof -
  have "slots_ok [0] 1" by (simp add: slots_ok_def)
  moreover have "tq_envelope 32 8 4" by (simp add: tq_envelope_def kMaxHead_def kGroup_def)
  moreover have "tq_shapes 1 1 32 (nat 4) tq_cache1" by (simp add: tq_shapes_def tq_cache1_def row_bytes_def kGroup_def)
  moreover have "schedule (length [0 :: int] * 1) [0]" by (auto simp: schedule_def)
  ultimately show ?thesis
    using turboquant_cache_roundtrip [of "[0]" 1 32 4 1 tq_cache1 "[0]" "[0]" "replicate 32 0" "replicate 32 0"
        "replicate 32 0" "replicate 32 0" "\<lambda>_. replicate kMaxHead 0" "\<lambda>_. F32" "[]" "[]" 0 DF32 "\<lambda>_. []"]
    by auto
qed

end
