(* ===== verification/Rotary.thy ===== *)
theory Rotary
  imports Pointwise
begin

text \<open>
  Rotary position embeddings: \<open>rope.sycl.cpp\<close>, which computes the angles, \<open>mrope.sycl.cpp\<close>, which rotates in place by a cache of cosines and
  sines with a position per section, and the fusion of the norm of each head with the rotation (\<open>qk_norm_rope.sycl.cpp\<close>).
\<close>

section \<open>Rope\<close>

definition rope_kc :: "('f::{uminus,times,inverse}, 'z) pmath_scheme \<Rightarrow> 'f \<Rightarrow> nat \<Rightarrow> 'f" where
  "rope_kc M base head_dim = - of_num M 2 * log2_fn M base / of_num M (int head_dim)"

definition rope_angle :: "('f::times, 'z) pmath_scheme \<Rightarrow> 'f \<Rightarrow> nat \<Rightarrow> nat \<Rightarrow> 'f" where
  "rope_angle M kc pos i = (let freq = exp2_fn M (of_num M (int i) * kc) in of_num M (int pos) * freq)"

definition rope_item :: "('f::{plus,minus,times}, 'z) pmath_scheme \<Rightarrow> ('t \<Rightarrow> 'f) \<Rightarrow> ('f \<Rightarrow> 't) \<Rightarrow> 't list \<Rightarrow> nat \<Rightarrow> nat \<Rightarrow> 'f \<Rightarrow> nat \<Rightarrow> nat \<Rightarrow> 't list \<Rightarrow> 't list option" where
  "rope_item M ld st x n_heads head_dim kc pos0 idx out = do {
     let half = head_dim div 2;
     let i = idx mod half;
     let hh = idx div half mod n_heads;
     let t = idx div half div n_heads;
     let bufi = (t * n_heads + hh) * head_dim;
     let angle = rope_angle M kc (pos0 + t) i;
     let c = cos_fn M angle;
     let s = sin_fn M angle;
     v1 \<leftarrow> rd x (bufi + i);
     v2 \<leftarrow> rd x (bufi + i + half);
     let x1 = ld v1;
     let x2 = ld v2;
     out \<leftarrow> wr out (bufi + i) (st (x1 * c - x2 * s));
     wr out (bufi + i + half) (st (x1 * s + x2 * c)) }"

definition rope :: "('f::{plus,minus,uminus,times,inverse}, 'z) pmath_scheme \<Rightarrow> ('t \<Rightarrow> 'f) \<Rightarrow> ('f \<Rightarrow> 't) \<Rightarrow> 't list \<Rightarrow> nat \<Rightarrow> nat \<Rightarrow> 'f \<Rightarrow> nat \<Rightarrow> nat list \<Rightarrow> 't list \<Rightarrow> 't list option" where
  "rope M ld st x n_heads head_dim base pos0 sched out = foldM (rope_item M ld st x n_heads head_dim (rope_kc M base head_dim) pos0) sched out"

definition rope_sycl :: "f32 pmath \<Rightarrow> DType \<Rightarrow> 32 word list \<Rightarrow> nat \<Rightarrow> nat \<Rightarrow> f32 \<Rightarrow> nat \<Rightarrow> nat list \<Rightarrow> 32 word list \<Rightarrow> 32 word list option" where
  "rope_sycl M dt = rope M (elem_ld dt) (elem_st dt)"

section \<open>Multimodal rope\<close>

definition kMaxSections :: nat where "kMaxSections = 4"

text \<open>The first section whose cumulative width exceeds the pair, section 0 when none does or no widths are given.\<close>

definition section_of :: "int list option \<Rightarrow> nat \<Rightarrow> nat \<Rightarrow> nat option" where
  "section_of sections n_sections i = (case sections of None \<Rightarrow> Some 0
     | Some ws \<Rightarrow> do {
         (sec, _, _) \<leftarrow> foldM (\<lambda>s2 (sec, hi, found). if found then Some (sec, hi, found) else do {
             w \<leftarrow> rd ws s2;
             let hi = hi + w;
             Some (if int i < hi then (s2, hi, True) else (sec, hi, False)) }) [0..<n_sections] (0, 0, False);
         Some sec })"

definition mrope_item :: "('t \<Rightarrow> 'f::{plus,minus,times}) \<Rightarrow> ('f \<Rightarrow> 't) \<Rightarrow> 't list \<Rightarrow> int list \<Rightarrow> int list option \<Rightarrow> nat \<Rightarrow> nat \<Rightarrow> nat \<Rightarrow> nat \<Rightarrow> nat \<Rightarrow> nat \<Rightarrow> bool \<Rightarrow> nat \<Rightarrow> 't list \<times> 't list \<Rightarrow> ('t list \<times> 't list) option" where
  "mrope_item ld st cache positions sections n_sections tokens n_heads n_kv_heads head_size rot_dim neox idx = (\<lambda>(query, key). do {
     let embed = rot_dim div 2;
     let heads_total = n_heads + n_kv_heads;
     let i = idx mod embed;
     let th = idx div embed;
     let t = th div heads_total;
     let h = th mod heads_total;
     sec \<leftarrow> section_of sections n_sections i;
     pos \<leftarrow> rd positions (sec * tokens + t);
     c \<leftarrow> (if pos < 0 then None else rd cache (nat pos * rot_dim + i));
     s \<leftarrow> rd cache (nat pos * rot_dim + (embed + i));
     let is_q = h < n_heads;
     let base = (if is_q then (t * n_heads + h) * head_size else (t * n_kv_heads + (h - n_heads)) * head_size);
     let i1 = (if neox then i else 2 * i);
     let i2 = (if neox then i + embed else 2 * i + 1);
     let buf = (if is_q then query else key);
     v1 \<leftarrow> rd buf (base + i1);
     v2 \<leftarrow> rd buf (base + i2);
     let x1 = ld v1;
     let x2 = ld v2;
     buf \<leftarrow> wr buf (base + i1) (st (x1 * ld c - x2 * ld s));
     buf \<leftarrow> wr buf (base + i2) (st (x2 * ld c + x1 * ld s));
     Some (if is_q then (buf, key) else (query, buf)) })"

definition mrope :: "('t \<Rightarrow> 'f::{plus,minus,times}) \<Rightarrow> ('f \<Rightarrow> 't) \<Rightarrow> 't list \<Rightarrow> int list \<Rightarrow> int list option \<Rightarrow> nat \<Rightarrow> nat \<Rightarrow> nat \<Rightarrow> nat \<Rightarrow> nat \<Rightarrow> nat \<Rightarrow> bool \<Rightarrow> nat list \<Rightarrow> 't list \<times> 't list \<Rightarrow> ('t list \<times> 't list) option" where
  "mrope ld st cache positions sections n_sections tokens n_heads n_kv_heads head_size rot_dim neox sched s =
     (if n_sections = 0 \<or> n_sections > kMaxSections \<or> odd rot_dim \<or> rot_dim > head_size then Some s
      else foldM (mrope_item ld st cache positions sections n_sections tokens n_heads n_kv_heads head_size rot_dim neox) sched s)"

definition mrope_sycl :: "DType \<Rightarrow> 32 word list \<Rightarrow> int list \<Rightarrow> int list option \<Rightarrow> nat \<Rightarrow> nat \<Rightarrow> nat \<Rightarrow> nat \<Rightarrow> nat \<Rightarrow> nat \<Rightarrow> bool \<Rightarrow> nat list \<Rightarrow> 32 word list \<times> 32 word list \<Rightarrow> (32 word list \<times> 32 word list) option" where
  "mrope_sycl dt = mrope (elem_ld dt) (elem_st dt)"

text \<open>The operation with one position per token passes no widths.\<close>

definition rotary_positioned :: "DType \<Rightarrow> 32 word list \<Rightarrow> int list \<Rightarrow> nat \<Rightarrow> nat \<Rightarrow> nat \<Rightarrow> nat \<Rightarrow> nat \<Rightarrow> bool \<Rightarrow> nat list \<Rightarrow> 32 word list \<times> 32 word list \<Rightarrow> (32 word list \<times> 32 word list) option" where
  "rotary_positioned dt cache positions = mrope_sycl dt cache positions None 1"

section \<open>Norm and rope of each head\<close>

definition kSub :: nat where "kSub = 16"

text \<open>One sub-group owns a head; its lanes sum the squares, then rotate strided pairs in place and copy the results in half precision when asked to.\<close>

definition qk_norm_rope_head :: "('f::{plus,minus,times,inverse,zero}, 'z) pmath_scheme \<Rightarrow> ('t \<Rightarrow> 'f) \<Rightarrow> ('f \<Rightarrow> 't) \<Rightarrow> ('f \<Rightarrow> 'u) \<Rightarrow> 't list \<Rightarrow> nat \<Rightarrow> 'f \<Rightarrow> nat \<Rightarrow> 'f \<Rightarrow> 'f \<Rightarrow> nat \<Rightarrow> nat list \<Rightarrow>
    't list \<times> 'u list option \<Rightarrow> ('t list \<times> 'u list option) option" where
  "qk_norm_rope_head M ld st st16 w head_dim kc pos scale eps bufbase lanes = (\<lambda>(buf, half_out). do {
     let half = head_dim div 2;
     sss \<leftarrow> those (map (\<lambda>lane. foldM (\<lambda>d ss. do { x \<leftarrow> rd buf (bufbase + d); let v = ld x; Some (fma_fn M v v ss) }) (strided lane kSub head_dim) 0) [0..<kSub]);
     let ss = sum_group M sss;
     let inv = rsqrt_fn M (ss / of_num M (int head_dim) + eps) * scale;
     foldM (\<lambda>lane. foldM (\<lambda>i (buf, half_out). do {
       let angle = rope_angle M kc pos i;
       let c = cos_fn M angle;
       let s = sin_fn M angle;
       a0 \<leftarrow> rd buf (bufbase + i);
       w0 \<leftarrow> rd w i;
       a1 \<leftarrow> rd buf (bufbase + i + half);
       w1 \<leftarrow> rd w (i + half);
       let x0 = ld a0 * ld w0 * inv;
       let x1 = ld a1 * ld w1 * inv;
       let r0 = x0 * c - x1 * s;
       let r1 = x0 * s + x1 * c;
       buf \<leftarrow> wr buf (bufbase + i) (st r0);
       buf \<leftarrow> wr buf (bufbase + i + half) (st r1);
       half_out \<leftarrow> (case half_out of None \<Rightarrow> Some None
         | Some h \<Rightarrow> do { h \<leftarrow> wr h (bufbase + i) (st16 r0); h \<leftarrow> wr h (bufbase + i + half) (st16 r1); Some (Some h) });
       Some (buf, half_out) }) (strided lane kSub half)) lanes (buf, half_out) })"

definition qk_norm_rope_item :: "('f::{plus,minus,times,inverse,zero}, 'z) pmath_scheme \<Rightarrow> ('t \<Rightarrow> 'f) \<Rightarrow> ('f \<Rightarrow> 't) \<Rightarrow> ('f \<Rightarrow> 'u) \<Rightarrow> 't list \<Rightarrow> 't list \<Rightarrow> nat \<Rightarrow> nat \<Rightarrow> nat \<Rightarrow> 'f \<Rightarrow> nat \<Rightarrow> 'f \<Rightarrow> 'f \<Rightarrow> (nat \<Rightarrow> nat list) \<Rightarrow> nat \<Rightarrow>
    ('t list \<times> 'u list option) \<times> ('t list \<times> 'u list option) \<Rightarrow> (('t list \<times> 'u list option) \<times> ('t list \<times> 'u list option)) option" where
  "qk_norm_rope_item M ld st st16 q_weight k_weight n_head n_head_kv head_dim kc pos0 query_scale eps lanes task = (\<lambda>(Q, K). do {
     let combined = n_head + n_head_kv;
     let token = task div combined;
     let ch = task - token * combined;
     if ch \<ge> n_head then do {
       K \<leftarrow> qk_norm_rope_head M ld st st16 k_weight head_dim kc (pos0 + token) (of_num M 1) eps ((token * n_head_kv + (ch - n_head)) * head_dim) (lanes task) K;
       Some (Q, K) }
     else do {
       Q \<leftarrow> qk_norm_rope_head M ld st st16 q_weight head_dim kc (pos0 + token) query_scale eps ((token * n_head + ch) * head_dim) (lanes task) Q;
       Some (Q, K) } })"

definition qk_norm_rope :: "('f::{plus,minus,uminus,times,inverse,zero}, 'z) pmath_scheme \<Rightarrow> ('t \<Rightarrow> 'f) \<Rightarrow> ('f \<Rightarrow> 't) \<Rightarrow> ('f \<Rightarrow> 'u) \<Rightarrow> 't list \<Rightarrow> 't list \<Rightarrow> nat \<Rightarrow> nat \<Rightarrow> nat \<Rightarrow> 'f \<Rightarrow> nat \<Rightarrow> 'f \<Rightarrow> 'f \<Rightarrow> nat list \<Rightarrow> (nat \<Rightarrow> nat list) \<Rightarrow>
    ('t list \<times> 'u list option) \<times> ('t list \<times> 'u list option) \<Rightarrow> (('t list \<times> 'u list option) \<times> ('t list \<times> 'u list option)) option" where
  "qk_norm_rope M ld st st16 q_weight k_weight n_head n_head_kv head_dim base pos0 query_scale eps sched lanes s =
     foldM (qk_norm_rope_item M ld st st16 q_weight k_weight n_head n_head_kv head_dim (rope_kc M base head_dim) pos0 query_scale eps lanes) sched s"

definition qk_norm_rope_sycl :: "f32 pmath \<Rightarrow> DType \<Rightarrow> 32 word list \<Rightarrow> 32 word list \<Rightarrow> nat \<Rightarrow> nat \<Rightarrow> nat \<Rightarrow> f32 \<Rightarrow> nat \<Rightarrow> f32 \<Rightarrow> f32 \<Rightarrow> nat list \<Rightarrow> (nat \<Rightarrow> nat list) \<Rightarrow>
    (32 word list \<times> 16 word list option) \<times> (32 word list \<times> 16 word list option) \<Rightarrow> ((32 word list \<times> 16 word list option) \<times> (32 word list \<times> 16 word list option)) option" where
  "qk_norm_rope_sycl M dt = qk_norm_rope M (elem_ld dt) (elem_st dt) f16_of_f32"

section \<open>Rotated vectors\<close>

definition rotated :: "(nat \<Rightarrow> real) \<Rightarrow> (nat \<Rightarrow> real) \<Rightarrow> nat \<Rightarrow> nat \<Rightarrow> real" where
  "rotated f ang half j = (if j < half then f j * cos (ang j) - f (j + half) * sin (ang j) else f (j - half) * sin (ang (j - half)) + f j * cos (ang (j - half)))"

lemma sum_halves: "(\<Sum>j<2 * h. F j) = (\<Sum>i<h. F i + F (i + h))" for F :: "nat \<Rightarrow> real"
proof -
  have "{..<2 * h} = {..<h} \<union> (\<lambda>i. i + h) ` {..<h}"
  proof (intro equalityI subsetI)
    fix j assume j: "j \<in> {..<2 * h}"
    show "j \<in> {..<h} \<union> (\<lambda>i. i + h) ` {..<h}"
    proof (cases "j < h")
      case False
      then have "j = (j - h) + h" "j - h < h" using j by auto
      then show ?thesis by blast
    qed simp
  qed auto
  moreover have "{..<h} \<inter> (\<lambda>i. i + h) ` {..<h} = {}" by auto
  moreover have "(\<Sum>j\<in>(\<lambda>i. i + h) ` {..<h}. F j) = (\<Sum>i<h. F (i + h))" by (subst sum.reindex) auto
  ultimately show ?thesis by (simp add: sum.union_disjoint sum.distrib)
qed

text \<open>The product of two rotated vectors depends on the differences of the angles only.\<close>

lemma rotated_dot:
  "(\<Sum>j<2 * h. rotated f a h j * rotated g b h j) =
    (\<Sum>i<h. (f i * g i + f (i + h) * g (i + h)) * cos (a i - b i) + (f i * g (i + h) - f (i + h) * g i) * sin (a i - b i))"
  unfolding sum_halves
proof (rule sum.cong [OF refl])
  fix i assume "i \<in> {..<h}"
  then have "i < h" by simp
  then show "rotated f a h i * rotated g b h i + rotated f a h (i + h) * rotated g b h (i + h) =
      (f i * g i + f (i + h) * g (i + h)) * cos (a i - b i) + (f i * g (i + h) - f (i + h) * g i) * sin (a i - b i)"
    by (simp add: rotated_def cos_diff sin_diff algebra_simps)
qed

lemma rotated_norm: "(\<Sum>j<2 * h. rotated f a h j ^ 2) = (\<Sum>j<2 * h. f j ^ 2)"
proof -
  have "(\<Sum>j<2 * h. rotated f a h j ^ 2) = (\<Sum>j<2 * h. rotated f a h j * rotated f a h j)" by (simp add: power2_eq_square)
  also have "\<dots> = (\<Sum>i<h. f i * f i + f (i + h) * f (i + h))" unfolding rotated_dot by simp
  also have "\<dots> = (\<Sum>j<2 * h. f j ^ 2)" unfolding sum_halves by (simp add: power2_eq_square)
  finally show ?thesis .
qed

section \<open>Rope, exact\<close>

abbreviation rope_ang :: "real \<Rightarrow> nat \<Rightarrow> nat \<Rightarrow> nat \<Rightarrow> real" where
  "rope_ang base dh \<equiv> rope_angle exact_pmath (rope_kc exact_pmath base dh)"

lemma rope_ang_eq: "0 < base \<Longrightarrow> rope_ang base dh pos i = real pos * base powr (- 2 * real i / real dh)"
proof -
  assume b: "0 < base"
  have "2 powr (real i * (- 2 * log 2 base / real dh)) = (2 powr log 2 base) powr (- 2 * real i / real dh)"
    unfolding powr_powr by (rule arg_cong [of _ _ "(powr) 2"]) (simp add: mult.commute mult.left_commute)
  then show ?thesis using b by (simp add: rope_angle_def rope_kc_def)
qed

text \<open>The cells of one rotated pair, and of the pairs of a head.\<close>

definition pair_cells :: "nat \<Rightarrow> nat \<Rightarrow> nat \<Rightarrow> nat set" where
  "pair_cells base half i = {base + i, base + i + half}"

lemma pair_cells_UN: "(\<Union>i<half. pair_cells base half i) = {base..<base + 2 * half}"
proof (intro equalityI subsetI)
  fix a assume a: "a \<in> {base..<base + 2 * half}"
  show "a \<in> (\<Union>i<half. pair_cells base half i)"
  proof (cases "a < base + half")
    case True
    then show ?thesis using a by (intro UN_I [of "a - base"]) (auto simp: pair_cells_def)
  next
    case False
    then show ?thesis using a by (intro UN_I [of "a - base - half"]) (auto simp: pair_cells_def)
  qed
qed (auto simp: pair_cells_def)

lemma pair_writes:
  assumes "base + i + half < length m" "0 < half"
  shows "writes (pair_cells base half i) v m (m[base + i := v (base + i), base + i + half := v (base + i + half)])"
  using assms by (auto simp: writes_def pair_cells_def nth_list_update)

definition rope_out :: "('t \<Rightarrow> real) \<Rightarrow> 't list \<Rightarrow> nat \<Rightarrow> nat \<Rightarrow> real \<Rightarrow> nat \<Rightarrow> nat \<Rightarrow> real" where
  "rope_out ld x n_heads dh base pos0 a = rotated (row_of ld x dh (a div dh)) (rope_ang base dh (pos0 + a div dh div n_heads)) (dh div 2) (a mod dh)"

lemma rope_exact:
  fixes x :: "'t list" and out :: "'t list"
  assumes sched: "schedule (tokens * n_heads * (dh div 2)) sched" and len: "length x = tokens * n_heads * dh" "length out = tokens * n_heads * dh"
  shows "rope exact_pmath ld st x n_heads dh base pos0 sched out =
    Some (map (\<lambda>a. if a mod dh < 2 * (dh div 2) then st (rope_out ld x n_heads dh base pos0 a) else out ! a) [0..<tokens * n_heads * dh])"
proof -
  let ?h = "dh div 2" and ?v = "\<lambda>a. st (rope_out ld x n_heads dh base pos0 a)"
  let ?cells = "\<lambda>idx. pair_cells (idx div ?h * dh) ?h (idx mod ?h)"
  have h2: "2 * ?h \<le> dh" by simp
  have "\<exists>out'. foldM (rope_item exact_pmath ld st x n_heads dh (rope_kc exact_pmath base dh) pos0) sched out = Some out' \<and> writes (\<Union>idx<tokens * n_heads * ?h. ?cells idx) ?v out out'"
  proof (rule launch_writes [OF sched])
    fix idx and m :: "'t list" assume idx: "idx < tokens * n_heads * ?h" and m: "length m = length out"
    let ?th = "idx div ?h" and ?i = "idx mod ?h"
    have h: "0 < ?h" using idx by (cases "?h") auto
    have th: "?th < tokens * n_heads" using less_mult_imp_div_less [OF idx] .
    have i: "?i < ?h" using h by simp
    have b: "?th div n_heads * n_heads + ?th mod n_heads = ?th" by simp
    have le: "?th * dh + dh \<le> tokens * n_heads * dh" using src_row [OF th] .
    have lt: "?th * dh + ?i + ?h < length m" using le i h2 m len(2) by linarith
    have r: "rd x (?th * dh + ?i) = Some (x ! (?th * dh + ?i))" "rd x (?th * dh + ?i + ?h) = Some (x ! (?th * dh + ?i + ?h))" using le i h2 len(1) by simp_all
    have j1: "(?th * dh + ?i) div dh = ?th" "(?th * dh + ?i) mod dh = ?i" using i h2 by simp_all
    have j2: "(?th * dh + ?i + ?h) div dh = ?th" "(?th * dh + ?i + ?h) mod dh = ?i + ?h" using i h2 by (simp_all add: add.assoc)
    have v1: "?v (?th * dh + ?i) = st (ld (x ! (?th * dh + ?i)) * cos (rope_ang base dh (pos0 + ?th div n_heads) ?i) - ld (x ! (?th * dh + ?i + ?h)) * sin (rope_ang base dh (pos0 + ?th div n_heads) ?i))"
      unfolding rope_out_def j1 rotated_def using i by (simp add: add.assoc)
    have v2: "?v (?th * dh + ?i + ?h) = st (ld (x ! (?th * dh + ?i)) * sin (rope_ang base dh (pos0 + ?th div n_heads) ?i) + ld (x ! (?th * dh + ?i + ?h)) * cos (rope_ang base dh (pos0 + ?th div n_heads) ?i))"
      unfolding rope_out_def j2 rotated_def by (simp add: add.assoc)
    have "rope_item exact_pmath ld st x n_heads dh (rope_kc exact_pmath base dh) pos0 idx m = Some (m[?th * dh + ?i := ?v (?th * dh + ?i), ?th * dh + ?i + ?h := ?v (?th * dh + ?i + ?h)])"
      unfolding rope_item_def Let_def b r bind.bind_lunit exact_pmath_simps v1 v2 using lt by simp
    then show "\<exists>m'. rope_item exact_pmath ld st x n_heads dh (rope_kc exact_pmath base dh) pos0 idx m = Some m' \<and> writes (?cells idx) ?v m m'"
      using pair_writes [OF lt h, of ?v] by blast
  qed
  moreover have "(\<Union>idx<tokens * n_heads * ?h. ?cells idx) = {a. a < tokens * n_heads * dh \<and> a mod dh < 2 * ?h}"
  proof (intro equalityI subsetI)
    fix a assume "a \<in> (\<Union>idx<tokens * n_heads * ?h. ?cells idx)"
    then obtain idx where idx: "idx < tokens * n_heads * ?h" "a \<in> ?cells idx" by blast
    have h: "0 < ?h" using idx(1) by (cases "?h") auto
    have i: "idx mod ?h < ?h" using h by simp
    have th: "idx div ?h < tokens * n_heads" using less_mult_imp_div_less [OF idx(1)] .
    obtain j where j: "a = idx div ?h * dh + j" "j < 2 * ?h" using idx(2) i by (auto simp: pair_cells_def add.assoc)
    then have "a mod dh = j" using h2 by simp
    moreover have "a < tokens * n_heads * dh" using src_row [OF th, of dh] j h2 by linarith
    ultimately show "a \<in> {a. a < tokens * n_heads * dh \<and> a mod dh < 2 * ?h}" using j(2) by simp
  next
    fix a assume "a \<in> {a. a < tokens * n_heads * dh \<and> a mod dh < 2 * ?h}"
    then have a: "a < tokens * n_heads * dh" "a mod dh < 2 * ?h" by simp_all
    have "a div dh * dh + a mod dh \<in> {a div dh * dh..<a div dh * dh + 2 * ?h}" unfolding atLeastLessThan_iff using a(2) div_mult_mod_eq [of a dh] by linarith
    then obtain i where i: "i < ?h" "a \<in> pair_cells (a div dh * dh) ?h i" unfolding pair_cells_UN [symmetric] by auto
    have "a div dh < tokens * n_heads" using less_mult_imp_div_less [OF a(1)] .
    from div_mult_add_lt [OF this i(1)] have "a div dh * ?h + i < tokens * n_heads * ?h" .
    moreover have "a \<in> ?cells (a div dh * ?h + i)" using i by simp
    ultimately show "a \<in> (\<Union>idx<tokens * n_heads * ?h. ?cells idx)" by blast
  qed
  ultimately obtain out' where r: "foldM (rope_item exact_pmath ld st x n_heads dh (rope_kc exact_pmath base dh) pos0) sched out = Some out'"
    "writes {a. a < tokens * n_heads * dh \<and> a mod dh < 2 * ?h} ?v out out'" by auto
  then show ?thesis using writes_map_if [OF r(2) len(2)] by (simp add: rope_def)
qed

text \<open>C32: Rope is relative: in exact arithmetic, whatever the order of the items, the rotated rows keep their norms, and the product of a rotated query row with a rotated
  key row (the attention score) does not change when the positions of both launches are shifted by the same amount.\<close>

theorem rope_relative:
  assumes base: "0 < base" and dh: "even dh"
    and sq: "schedule (tq * nq * (dh div 2)) sq1" "schedule (tq * nq * (dh div 2)) sq2" and sk: "schedule (tk * nk * (dh div 2)) sk1" "schedule (tk * nk * (dh div 2)) sk2"
    and len: "length q = tq * nq * dh" "length k = tk * nk * dh" "length oq = tq * nq * dh" "length ok = tk * nk * dh"
  shows "\<exists>q1 q2 k1 k2. rope exact_pmath ld id q nq dh base p sq1 oq = Some q1 \<and> rope exact_pmath ld id q nq dh base (p + s) sq2 oq = Some q2 \<and>
    rope exact_pmath ld id k nk dh base r sk1 ok = Some k1 \<and> rope exact_pmath ld id k nk dh base (r + s) sk2 ok = Some k2 \<and>
    (\<forall>i<tq * nq. (\<Sum>j<dh. (q1 ! (i * dh + j)) ^ 2) = (\<Sum>j<dh. (ld (q ! (i * dh + j))) ^ 2) \<and>
      (\<forall>i'<tk * nk. (\<Sum>j<dh. q2 ! (i * dh + j) * k2 ! (i' * dh + j)) = (\<Sum>j<dh. q1 ! (i * dh + j) * k1 ! (i' * dh + j))))"
proof -
  let ?q = "\<lambda>p. map (\<lambda>a. if a mod dh < 2 * (dh div 2) then id (rope_out ld q nq dh base p a) else oq ! a) [0..<tq * nq * dh]"
  let ?k = "\<lambda>p. map (\<lambda>a. if a mod dh < 2 * (dh div 2) then id (rope_out ld k nk dh base p a) else ok ! a) [0..<tk * nk * dh]"
  have h: "2 * (dh div 2) = dh" using dh by simp
  have at: "map (\<lambda>a. if a mod dh < 2 * (dh div 2) then id (rope_out ld x n dh base p a) else o0 ! a) [0..<T * dh] ! (i * dh + j) =
      rotated (row_of ld x dh i) (rope_ang base dh (p + i div n)) (dh div 2) j" if "i < T" "j < dh" for x n p o0 T i j
    using div_mult_add_lt [OF that] that(2) by (simp add: h rope_out_def)
  note at_h = at [unfolded h]
  have dot: "(\<Sum>j<dh. ?q p ! (i * dh + j) * ?k r ! (i' * dh + j)) =
      (\<Sum>l<dh div 2. (row_of ld q dh i l * row_of ld k dh i' l + row_of ld q dh i (l + dh div 2) * row_of ld k dh i' (l + dh div 2)) * cos (rope_ang base dh (p + i div nq) l - rope_ang base dh (r + i' div nk) l) +
        (row_of ld q dh i l * row_of ld k dh i' (l + dh div 2) - row_of ld q dh i (l + dh div 2) * row_of ld k dh i' l) * sin (rope_ang base dh (p + i div nq) l - rope_ang base dh (r + i' div nk) l))"
    if "i < tq * nq" "i' < tk * nk" for p r i i'
  proof -
    have "(\<Sum>j<dh. ?q p ! (i * dh + j) * ?k r ! (i' * dh + j)) =
        (\<Sum>j<2 * (dh div 2). rotated (row_of ld q dh i) (rope_ang base dh (p + i div nq)) (dh div 2) j * rotated (row_of ld k dh i') (rope_ang base dh (r + i' div nk)) (dh div 2) j)"
      by (rule sum.cong) (simp_all only: h lessThan_iff at_h [OF that(1)] at_h [OF that(2)])
    then show ?thesis by (simp only: rotated_dot)
  qed
  have shift: "rope_ang base dh (p + s + i) l - rope_ang base dh (r + s + i') l = rope_ang base dh (p + i) l - rope_ang base dh (r + i') l" for i i' l
    by (simp add: rope_ang_eq [OF base] algebra_simps)
  have norm: "(\<Sum>j<dh. (?q p ! (i * dh + j)) ^ 2) = (\<Sum>j<dh. (ld (q ! (i * dh + j))) ^ 2)" if "i < tq * nq" for i
  proof -
    have "(\<Sum>j<dh. (?q p ! (i * dh + j)) ^ 2) = (\<Sum>j<2 * (dh div 2). rotated (row_of ld q dh i) (rope_ang base dh (p + i div nq)) (dh div 2) j ^ 2)"
      by (rule sum.cong) (simp_all only: h lessThan_iff at_h [OF that])
    also note rotated_norm
    finally show ?thesis by (simp only: h)
  qed
  have "(\<Sum>j<dh. ?q (p + s) ! (i * dh + j) * ?k (r + s) ! (i' * dh + j)) = (\<Sum>j<dh. ?q p ! (i * dh + j) * ?k r ! (i' * dh + j))" if "i < tq * nq" "i' < tk * nk" for i i'
    by (simp only: dot [OF that] shift)
  then show ?thesis using norm rope_exact [OF sq(1) len(1,3), of ld id base p] rope_exact [OF sq(2) len(1,3), of ld id base "p + s"]
      rope_exact [OF sk(1) len(2,4), of ld id base r] rope_exact [OF sk(2) len(2,4), of ld id base "r + s"] by blast
qed

lemma rope_relative_witness:
  "\<exists>q1 q2 k1 k2. rope exact_pmath id id [3, 4] 1 2 10000 0 [0] [0, 0] = Some q1 \<and> rope exact_pmath id id [3, 4] 1 2 10000 (0 + 7) [0] [0, 0] = Some q2 \<and>
    rope exact_pmath id id [1, 2] 1 2 10000 5 [0] [0, 0] = Some k1 \<and> rope exact_pmath id id [1, 2] 1 2 10000 (5 + 7) [0] [0, 0] = Some k2 \<and>
    (\<forall>i<1 * 1. (\<Sum>j<2. (q1 ! (i * 2 + j)) ^ 2) = (\<Sum>j<2. (id ([3, 4] ! (i * 2 + j)) :: real) ^ 2) \<and>
      (\<forall>i'<1 * 1. (\<Sum>j<2. q2 ! (i * 2 + j) * k2 ! (i' * 2 + j)) = (\<Sum>j<2. q1 ! (i * 2 + j) * k1 ! (i' * 2 + j))))"
  by (rule rope_relative) (simp_all add: schedule_def lessThan_Suc)

end
