(* ===== verification/RowOps.thy ===== *)
theory RowOps
  imports Turboquant Rotary Dense
begin

text \<open>
  Operations on rows: the Walsh-Hadamard transform of a work-group (\<open>hadamard.sycl.cpp\<close>), the cross entropy of logits
  (\<open>cross_entropy.sycl.cpp\<close>), the gated norm of groups of a row (\<open>group_rms_norm_gated.sycl.cpp\<close>) and the pooling of a sequence to
  an embedding (\<open>serving.sycl.cpp\<close>).  As in theory \<open>Norms\<close>, \<open>lanes\<close> orders the items of a group between two barriers.
\<close>

section \<open>Walsh-Hadamard transform\<close>

definition kMaxN :: nat where "kMaxN = 2048"

text \<open>A pass of span \<open>s\<close>: pair \<open>p\<close> is a butterfly of the transform in theory \<open>Turboquant\<close>.\<close>

definition hada_pass :: "nat \<Rightarrow> nat \<Rightarrow> nat list \<Rightarrow> 'f::{plus,minus} list \<Rightarrow> 'f list option" where
  "hada_pass n s lanes sm = foldM (\<lambda>lid. foldM (\<lambda>p. butterfly s (p div s * (2 * s) + p mod s)) (strided lid kRowThreads (n div 2))) lanes sm"

function hada_passes :: "nat \<Rightarrow> nat \<Rightarrow> (nat \<Rightarrow> nat list) \<Rightarrow> 'f::{plus,minus} list \<Rightarrow> 'f list option" where
  "hada_passes n s lanes sm = (if 0 < s \<and> s < n then Option.bind (hada_pass n s (lanes s) sm) (hada_passes n (2 * s) lanes) else Some sm)"
  by pat_completeness auto
termination
  by (relation "measure (\<lambda>(n, s, _, _). n - s)") auto

declare hada_passes.simps [simp del]

definition hada_item :: "('t \<Rightarrow> 'f::{plus,minus}) \<Rightarrow> ('f \<Rightarrow> 't) \<Rightarrow> 't list \<Rightarrow> nat \<Rightarrow> (nat \<Rightarrow> nat \<Rightarrow> nat list) \<Rightarrow> (nat \<Rightarrow> 'f list) \<Rightarrow> nat \<Rightarrow> 't list \<Rightarrow> 't list option" where
  "hada_item ld st x n lanes local r out = do {
     sm \<leftarrow> row_store 1 kRowThreads n 0 (\<lambda>i. map_option ld (rd x (r * n + i))) (lanes r 0) (local r);
     sm \<leftarrow> hada_passes n 1 (lanes r) sm;
     row_store 1 kRowThreads n (r * n) (\<lambda>i. map_option st (rd sm i)) (lanes r n) out }"

definition hadamard :: "('t \<Rightarrow> 'f::{plus,minus}) \<Rightarrow> ('f \<Rightarrow> 't) \<Rightarrow> 't list \<Rightarrow> nat \<Rightarrow> nat list \<Rightarrow> (nat \<Rightarrow> nat \<Rightarrow> nat list) \<Rightarrow> (nat \<Rightarrow> 'f list) \<Rightarrow> 't list \<Rightarrow> 't list option" where
  "hadamard ld st x n sched lanes local out = foldM (hada_item ld st x n lanes local) sched out"

definition hadamard_sycl :: "DType \<Rightarrow> 32 word list \<Rightarrow> nat \<Rightarrow> nat list \<Rightarrow> (nat \<Rightarrow> nat \<Rightarrow> nat list) \<Rightarrow> (nat \<Rightarrow> f32 list) \<Rightarrow> 32 word list \<Rightarrow> 32 word list option" where
  "hadamard_sycl dt = hadamard (elem_ld dt) (elem_st dt)"

section \<open>Cross entropy\<close>

definition ce_item :: "('f::{plus,minus,zero,ord}, 'z) pmath_scheme \<Rightarrow> ('t \<Rightarrow> 'f) \<Rightarrow> 'f \<Rightarrow> 't list \<Rightarrow> int list \<Rightarrow> nat \<Rightarrow> nat \<Rightarrow> 'f list \<Rightarrow> 'f list option" where
  "ce_item M ld minus_inf logits target vocab r loss = do {
     pmax \<leftarrow> row_partials 1 vocab (\<lambda>j pmax. do { v \<leftarrow> rd logits (r * vocab + j); let f = ld v; Some (if pmax < f then f else pmax) }) minus_inf;
     let m = max_group M pmax;
     psum \<leftarrow> row_partials 1 vocab (\<lambda>j psum. do { v \<leftarrow> rd logits (r * vocab + j); Some (psum + exp_fn M (ld v - m)) }) 0;
     let s = sum_group M psum;
     t \<leftarrow> rd target r;
     v \<leftarrow> rdi logits (int (r * vocab) + t);
     let lt = ld v;
     wr loss r ((m + log_fn M s) - lt) }"

definition cross_entropy :: "('f::{plus,minus,zero,ord}, 'z) pmath_scheme \<Rightarrow> ('t \<Rightarrow> 'f) \<Rightarrow> 'f \<Rightarrow> 't list \<Rightarrow> int list \<Rightarrow> nat \<Rightarrow> nat list \<Rightarrow> 'f list \<Rightarrow> 'f list option" where
  "cross_entropy M ld minus_inf logits target vocab sched loss = foldM (ce_item M ld minus_inf logits target vocab) sched loss"

definition cross_entropy_sycl :: "f32 pmath \<Rightarrow> DType \<Rightarrow> 32 word list \<Rightarrow> int list \<Rightarrow> nat \<Rightarrow> nat list \<Rightarrow> f32 list \<Rightarrow> f32 list option" where
  "cross_entropy_sycl M dt = cross_entropy M (elem_ld dt) (F32 0xff800000)"

section \<open>Gated norm of groups\<close>

definition grng_silu :: "('f::{plus,inverse,uminus,one}, 'z) pmath_scheme \<Rightarrow> 'f \<Rightarrow> 'f" where
  "grng_silu M v = v / (1 + exp_fn M (- v))"

definition grng_item :: "('f::{plus,times,inverse,uminus,zero,one}, 'z) pmath_scheme \<Rightarrow> ('t \<Rightarrow> 'f) \<Rightarrow> ('f \<Rightarrow> 't) \<Rightarrow> 't list \<Rightarrow> 't list \<Rightarrow> 't list \<Rightarrow> nat \<Rightarrow> nat \<Rightarrow> 'f \<Rightarrow> bool \<Rightarrow>
    (nat \<Rightarrow> nat list) \<Rightarrow> nat \<Rightarrow> 't list \<Rightarrow> 't list option" where
  "grng_item M ld st x gate w hidden n_groups eps rms_norm lanes idx out = (
     let group_size = hidden div n_groups;
         row = idx div n_groups;
         g = idx mod n_groups;
         base = row * hidden + g * group_size;
         y = (\<lambda>i. do { xv \<leftarrow> rd x (base + i); gv \<leftarrow> rd gate (base + i); Some (ld xv * grng_silu M (ld gv)) }) in
     if \<not> rms_norm then row_store 1 kRowThreads group_size base (\<lambda>i. map_option st (y i)) (lanes idx) out
     else do {
       partial \<leftarrow> row_partials 1 group_size (\<lambda>i partial. do { v \<leftarrow> y i; Some (partial + v * v) }) 0;
       let sumsq = sum_group M partial;
       let inv = rsqrt_fn M (sumsq / of_num M (int group_size) + eps);
       row_store 1 kRowThreads group_size base (\<lambda>i. do {
         v \<leftarrow> y i;
         let rounded = ld (st (v * inv));
         wv \<leftarrow> rd w (g * group_size + i);
         Some (st (ld wv * rounded)) }) (lanes idx) out })"

definition group_rms_norm_gated :: "('f::{plus,times,inverse,uminus,zero,one}, 'z) pmath_scheme \<Rightarrow> ('t \<Rightarrow> 'f) \<Rightarrow> ('f \<Rightarrow> 't) \<Rightarrow> 't list \<Rightarrow> 't list \<Rightarrow> 't list \<Rightarrow> nat \<Rightarrow> nat \<Rightarrow> 'f \<Rightarrow> bool \<Rightarrow>
    nat list \<Rightarrow> (nat \<Rightarrow> nat list) \<Rightarrow> 't list \<Rightarrow> 't list option" where
  "group_rms_norm_gated M ld st x gate w hidden n_groups eps rms_norm sched lanes out =
     foldM (grng_item M ld st x gate w hidden n_groups eps rms_norm lanes) sched out"

definition group_rms_norm_gated_sycl :: "f32 pmath \<Rightarrow> DType \<Rightarrow> 32 word list \<Rightarrow> 32 word list \<Rightarrow> 32 word list \<Rightarrow> nat \<Rightarrow> nat \<Rightarrow> f32 \<Rightarrow> bool \<Rightarrow>
    nat list \<Rightarrow> (nat \<Rightarrow> nat list) \<Rightarrow> 32 word list \<Rightarrow> 32 word list option" where
  "group_rms_norm_gated_sycl M dt = group_rms_norm_gated M (elem_ld dt) (elem_st dt)"

section \<open>Pooling head\<close>

text \<open>A sub-group owns a sequence.  Lane \<open>l\<close> keeps the elements \<open>l + s * kSub\<close> of the pooled vector in registers: \<open>regs ! l ! s\<close>.\<close>

definition lane_squares :: "('f::zero, 'z) pmath_scheme \<Rightarrow> nat \<Rightarrow> (nat \<Rightarrow> nat \<Rightarrow> 'f option) \<Rightarrow> 'f option" where
  "lane_squares M slots at_reg = map_option (sum_group M) (those (map (\<lambda>lane. foldM (\<lambda>s ss. do { v \<leftarrow> at_reg lane s; Some (fma_fn M v v ss) }) [0..<slots] 0) [0..<kSub]))"

definition update_regs :: "nat \<Rightarrow> (nat \<Rightarrow> nat \<Rightarrow> 'f \<Rightarrow> 'f option) \<Rightarrow> 'f list list \<Rightarrow> 'f list list option" where
  "update_regs slots f regs = those (map (\<lambda>lane. do { row \<leftarrow> rd regs lane; those (map (\<lambda>s. do { p \<leftarrow> rd row s; f lane s p }) [0..<slots]) }) [0..<kSub])"

definition pool_token :: "('f::{plus,times,inverse,zero}, 'z) pmath_scheme \<Rightarrow> ('t \<Rightarrow> 'f) \<Rightarrow> nat \<Rightarrow> 't list \<Rightarrow> 't list \<Rightarrow> 'f \<Rightarrow> nat \<Rightarrow> 'f list list \<Rightarrow> 'f list list option" where
  "pool_token M ld n_dim x weight eps t regs = do {
     let slots = n_dim div kSub;
     let base = t * n_dim;
     ss \<leftarrow> lane_squares M slots (\<lambda>lane s. map_option ld (rd x (base + lane + s * kSub)));
     let inv = rsqrt_fn M (ss / of_num M (int n_dim) + eps);
     update_regs slots (\<lambda>lane s p. do {
       let d = lane + s * kSub;
       xv \<leftarrow> rd x (base + d);
       wv \<leftarrow> rd weight d;
       Some (p + ld xv * ld wv * inv) }) regs }"

definition pool_item :: "('f::{plus,times,inverse,zero,one}, 'z) pmath_scheme \<Rightarrow> ('t \<Rightarrow> 'f) \<Rightarrow> ('f \<Rightarrow> 't) \<Rightarrow> nat \<Rightarrow> 't list \<Rightarrow> 't list \<Rightarrow> int list \<Rightarrow> 'f \<Rightarrow>
    (nat \<Rightarrow> nat list) \<Rightarrow> nat \<Rightarrow> 't list \<Rightarrow> 't list option" where
  "pool_item M ld st n_dim x weight offsets eps lanes seq out = do {
     let slots = n_dim div kSub;
     start \<leftarrow> rd offsets seq;
     stop \<leftarrow> rd offsets (seq + 1);
     regs \<leftarrow> (if start < 0 \<and> start < stop then None
       else foldM (pool_token M ld n_dim x weight eps) [nat start..<nat stop] (replicate kSub (replicate slots 0)));
     let count = stop - start;
     let inv_tokens = (if 0 < count then 1 / of_num M count else 0);
     regs \<leftarrow> update_regs slots (\<lambda>lane s p. Some (p * inv_tokens)) regs;
     ss \<leftarrow> lane_squares M slots (\<lambda>lane s. Option.bind (rd regs lane) (\<lambda>row. rd row s));
     let inv_l2 = (if ss = 0 then 1 else rsqrt_fn M ss);
     foldM (\<lambda>lane. foldM (\<lambda>s out. do {
       row \<leftarrow> rd regs lane;
       p \<leftarrow> rd row s;
       wr out (seq * n_dim + (lane + s * kSub)) (st (p * inv_l2)) }) [0..<slots]) (lanes seq) out }"

definition pool_dim :: "('f::{plus,times,inverse,zero,one}, 'z) pmath_scheme \<Rightarrow> ('t \<Rightarrow> 'f) \<Rightarrow> ('f \<Rightarrow> 't) \<Rightarrow> nat \<Rightarrow> 't list \<Rightarrow> 't list \<Rightarrow> int list \<Rightarrow> 'f \<Rightarrow>
    nat list \<Rightarrow> (nat \<Rightarrow> nat list) \<Rightarrow> 't list \<Rightarrow> 't list option" where
  "pool_dim M ld st n_dim x weight offsets eps sched lanes out = foldM (pool_item M ld st n_dim x weight offsets eps lanes) sched out"

text \<open>Other sizes are refused with an exception.\<close>

definition pool_by_dim :: "('f::{plus,times,inverse,zero,one}, 'z) pmath_scheme \<Rightarrow> ('t \<Rightarrow> 'f) \<Rightarrow> ('f \<Rightarrow> 't) \<Rightarrow> 't list \<Rightarrow> 't list \<Rightarrow> int list \<Rightarrow> nat \<Rightarrow> 'f \<Rightarrow>
    nat list \<Rightarrow> (nat \<Rightarrow> nat list) \<Rightarrow> 't list \<Rightarrow> string + 't list option" where
  "pool_by_dim M ld st x weight offsets n_dim eps sched lanes out =
     (if n_dim = 256 \<or> n_dim = 512 \<or> n_dim = 768 \<or> n_dim = 1024 then Inr (pool_dim M ld st n_dim x weight offsets eps sched lanes out)
      else Inl ''pool_mean_rms_l2: dim must be one of {256,512,768,1024}'')"

definition pool_mean_rms_l2_sycl :: "f32 pmath \<Rightarrow> DType \<Rightarrow> 32 word list \<Rightarrow> 32 word list \<Rightarrow> int list \<Rightarrow> nat \<Rightarrow> f32 \<Rightarrow> nat list \<Rightarrow> (nat \<Rightarrow> nat list) \<Rightarrow> 32 word list \<Rightarrow> string + 32 word list option" where
  "pool_mean_rms_l2_sycl M dt = pool_by_dim M (elem_ld dt) (elem_st dt)"

section \<open>The passes compute the transform\<close>

abbreviation fly_base :: "nat \<Rightarrow> nat \<Rightarrow> nat" where
  "fly_base s p \<equiv> p div s * (2 * s) + p mod s"

lemma fly_base_div:
  assumes "0 < s"
  shows "fly_base s p div s = 2 * (p div s)" "fly_base s p mod s = p mod s" "(fly_base s p + s) div s = 2 * (p div s) + 1" "(fly_base s p + s) mod s = p mod s"
proof -
  have e: "fly_base s p = 2 * (p div s) * s + p mod s" by simp
  show d: "fly_base s p div s = 2 * (p div s)" "fly_base s p mod s = p mod s" unfolding e using assms by simp_all
  show "(fly_base s p + s) div s = 2 * (p div s) + 1" "(fly_base s p + s) mod s = p mod s" using d assms by simp_all
qed

lemma fly_cell:
  assumes "0 < s" "a \<in> {fly_base s p, fly_base s p + s}"
  shows "a div s div 2 * s + a mod s = p"
  using assms(2) fly_base_div [OF assms(1), of p] by (elim insertE emptyE; simp)

lemma fly_cover:
  assumes "0 < s" "a < 2 * s * m"
  shows "a div s div 2 * s + a mod s < s * m" "a \<in> {fly_base s (a div s div 2 * s + a mod s), fly_base s (a div s div 2 * s + a mod s) + s}"
proof -
  let ?p = "a div s div 2 * s + a mod s"
  have "a div s < 2 * m" using assms by (simp add: less_mult_imp_div_less mult.commute mult.left_commute)
  then have "a div s div 2 < m" by simp
  from div_mult_add_lt [OF this mod_less_divisor [OF assms(1)]] show "?p < s * m" by (simp add: mult.commute)
  have p: "?p div s = a div s div 2" "?p mod s = a mod s" using assms(1) by simp_all
  show "a \<in> {fly_base s ?p, fly_base s ?p + s}"
  proof (cases "even (a div s)")
    case True
    then have "a div s = 2 * (a div s div 2)" by (simp only: dvd_mult_div_cancel)
    then have "a div s * s = a div s div 2 * (2 * s)" by (metis mult.assoc mult.commute)
    then have "fly_base s ?p = a" unfolding p using div_mult_mod_eq [of a s] by linarith
    then show ?thesis by simp
  next
    case False
    then have "a div s = 2 * (a div s div 2) + 1" by (rule odd_two_times_div_two_succ [symmetric])
    then have "a div s * s = a div s div 2 * (2 * s) + s" by (metis add_mult_distrib mult.assoc mult.commute mult_1)
    then have "fly_base s ?p + s = a" unfolding p using div_mult_mod_eq [of a s] by linarith
    then show ?thesis by simp
  qed
qed

lemma fly_less: "0 < s \<Longrightarrow> p < s * m \<Longrightarrow> fly_base s p + s < 2 * s * m"
proof -
  assume s: "0 < s" and p: "p < s * m"
  have "p div s < m" using p by (simp add: less_mult_imp_div_less mult.commute)
  then have "p div s * (2 * s) + 2 * s \<le> m * (2 * s)" by (rule src_row)
  moreover have "p mod s < s" using s by simp
  ultimately show ?thesis by (simp add: ac_simps)
qed

lemma hada_pass_span:
  fixes sm :: "'f::{plus,minus} list"
  assumes lanes: "schedule kRowThreads lanes" and s: "0 < s" and n: "n = 2 * s * m" "n \<le> length sm"
  shows "\<exists>sm'. hada_pass n s lanes sm = Some sm' \<and> length sm' = length sm \<and> take n sm' = wspan s (take n sm)"
proof -
  let ?xs = "concat (map (lane_indices 1 kRowThreads (n div 2)) lanes)"
  let ?c = "\<lambda>p. {fly_base s p, fly_base s p + s}"
  have n2: "n div 2 = s * m" by (simp add: n(1))
  have sched: "schedule (s * m) ?xs" using lane_indices_distinct [OF lanes kRowThreads_pos, of 1 "n div 2"] by (simp add: schedule_def n2)
  have "\<exists>sm'. foldM (\<lambda>p. butterfly s (fly_base s p)) ?xs sm = Some sm' \<and> rows_done ?c (\<lambda>_. span_val s sm) sm {..<s * m} sm'"
  proof (rule launch_rows [OF sched])
    show "owns (s * m) ?c" unfolding owns_def
    proof (intro allI impI equals0I)
      fix i j a assume "i \<noteq> j" and "a \<in> ?c i \<inter> ?c j"
      then have "a div s div 2 * s + a mod s = i" "a div s div 2 * s + a mod s = j" using fly_cell [OF s] by (blast, blast)
      then show False using \<open>i \<noteq> j\<close> by simp
    qed
    fix p and v :: "'f list" assume p: "p < s * m" and l: "length v = length sm" and own: "\<And>a. a \<in> ?c p \<Longrightarrow> a < length sm \<Longrightarrow> v ! a = sm ! a"
    have lt: "fly_base s p + s < length sm" using fly_less [OF s p] n by simp
    then have v: "v ! fly_base s p = sm ! fly_base s p" "v ! (fly_base s p + s) = sm ! (fly_base s p + s)" using own by simp_all
    have sv: "span_val s sm (fly_base s p) = sm ! fly_base s p + sm ! (fly_base s p + s)" "span_val s sm (fly_base s p + s) = sm ! fly_base s p - sm ! (fly_base s p + s)"
      unfolding span_val_def fly_base_div [OF s] by simp_all
    have "butterfly s (fly_base s p) v = Some (v[fly_base s p := span_val s sm (fly_base s p), fly_base s p + s := span_val s sm (fly_base s p + s)])"
      unfolding butterfly_def sv using lt l v by simp
    moreover have "writes (?c p) (span_val s sm) v (v[fly_base s p := span_val s sm (fly_base s p), fly_base s p + s := span_val s sm (fly_base s p + s)])"
      using lt l s by (auto simp: writes_def nth_list_update)
    ultimately show "\<exists>v'. butterfly s (fly_base s p) v = Some v' \<and> writes (?c p) (span_val s sm) v v'" by blast
  qed
  then obtain sm' where r: "foldM (\<lambda>p. butterfly s (fly_base s p)) ?xs sm = Some sm'" "rows_done ?c (\<lambda>_. span_val s sm) sm {..<s * m} sm'" by blast
  have "take n sm' = wspan s (take n sm)"
  proof (rule nth_equalityI)
    show l: "length (take n sm') = length (wspan s (take n sm))" using rows_done_length [OF r(2)] by simp
    fix a assume "a < length (take n sm')"
    then have a: "a < n" "a < length sm" using rows_done_length [OF r(2)] by simp_all
    then have "a < 2 * s * m" by (simp add: n(1))
    note c = fly_cover [OF s this]
    have "sm' ! a = span_val s sm a" by (rule rows_done_cell [OF r(2) c a(2)])
    moreover have "span_val s (take n sm) a = span_val s sm a"
    proof (cases "even (a div s)")
      case True
      have "a \<noteq> fly_base s (a div s div 2 * s + a mod s) + s"
        using fly_base_div(3) [OF s, of "a div s div 2 * s + a mod s"] True by (metis even_plus_one_iff dvd_triv_left)
      then have "a = fly_base s (a div s div 2 * s + a mod s)" using c(2) by blast
      then have "a + s < n" using fly_less [OF s c(1)] n(1) by metis
      then show ?thesis using True a by (simp add: span_val_def)
    qed (use a in \<open>simp add: span_val_def\<close>)
    ultimately show "take n sm' ! a = wspan s (take n sm) ! a" using a n(2) by (simp add: wspan_def)
  qed
  moreover have "hada_pass n s lanes sm = foldM (\<lambda>p. butterfly s (fly_base s p)) ?xs sm"
    unfolding hada_pass_def lane_indices_1 [symmetric] by (rule foldM_lanes)
  ultimately show ?thesis using r(1) rows_done_length [OF r(2)] by auto
qed

lemma hada_passes_spans:
  fixes sm :: "'f::{plus,minus} list"
  assumes "\<And>s. schedule kRowThreads (lanes s)"
  shows "t \<le> k \<Longrightarrow> 2 ^ k \<le> length sm \<Longrightarrow>
    \<exists>sm'. hada_passes (2 ^ k) (2 ^ t) lanes sm = Some sm' \<and> length sm' = length sm \<and> take (2 ^ k) sm' = fold (\<lambda>t. wspan (2 ^ t)) [t..<k] (take (2 ^ k) sm)"
proof (induction "k - t" arbitrary: t sm)
  case 0
  then show ?case by (subst hada_passes.simps) simp
next
  case (Suc d)
  then have t: "t < k" by simp
  then have "(2::nat) ^ k = 2 * 2 ^ t * 2 ^ (k - Suc t)" by (simp flip: power_add power_Suc)
  from hada_pass_span [OF assms _ this Suc.prems(2)] obtain v
    where v: "hada_pass (2 ^ k) (2 ^ t) (lanes (2 ^ t)) sm = Some v" "length v = length sm" "take (2 ^ k) v = wspan (2 ^ t) (take (2 ^ k) sm)" by auto
  have "\<exists>sm'. hada_passes (2 ^ k) (2 ^ Suc t) lanes v = Some sm' \<and> length sm' = length v \<and> take (2 ^ k) sm' = fold (\<lambda>t. wspan (2 ^ t)) [Suc t..<k] (take (2 ^ k) v)"
    using Suc t v(2) by (intro Suc.hyps(1)) auto
  then show ?case using t v by (subst hada_passes.simps) (simp add: upt_conv_Cons)
qed

lemma hada_item_writes:
  fixes x out :: "'t list" and ld :: "'t \<Rightarrow> 'f::{plus,minus}"
  assumes lanes: "\<And>s. schedule kRowThreads (lanes r s)" and r: "r < rows" and n: "2 ^ k \<le> length (local r)"
    and len: "length x = rows * 2 ^ k" "length out = rows * 2 ^ k"
  shows "\<exists>out'. hada_item ld st x (2 ^ k) lanes local r out = Some out' \<and>
    writes (row_cells (2 ^ k) r) (\<lambda>a. st (wht k (map (\<lambda>i. ld (x ! (r * 2 ^ k + i))) [0..<2 ^ k]) ! (a - r * 2 ^ k))) out out'"
proof -
  let ?n = "2 ^ k :: nat" and ?row = "map (\<lambda>i. ld (x ! (r * 2 ^ k + i))) [0..<2 ^ k]"
  have xr: "rd x (r * ?n + i) = Some (x ! (r * ?n + i))" if "i < ?n" for i using src_row [OF r, of ?n] that len(1) by simp
  have staged: "\<exists>sm. row_store 1 kRowThreads ?n 0 (\<lambda>i. map_option ld (rd x (r * ?n + i))) (lanes r 0) (local r) = Some sm \<and> writes {0..<0 + ?n} (\<lambda>a. ld (x ! (r * ?n + (a - 0)))) (local r) sm"
    by (rule row_store_writes [OF lanes kRowThreads_pos]) (use n xr in simp_all)
  then obtain sm where sm: "row_store 1 kRowThreads ?n 0 (\<lambda>i. map_option ld (rd x (r * ?n + i))) (lanes r 0) (local r) = Some sm" "length sm = length (local r)" "take ?n sm = ?row"
  proof -
    assume a: "\<And>sm. row_store 1 kRowThreads ?n 0 (\<lambda>i. map_option ld (rd x (r * ?n + i))) (lanes r 0) (local r) = Some sm \<Longrightarrow> length sm = length (local r) \<Longrightarrow> take ?n sm = ?row \<Longrightarrow> thesis"
    obtain sm where sm: "row_store 1 kRowThreads ?n 0 (\<lambda>i. map_option ld (rd x (r * ?n + i))) (lanes r 0) (local r) = Some sm"
      and w: "writes {0..<0 + ?n} (\<lambda>a. ld (x ! (r * ?n + (a - 0)))) (local r) sm" using staged by blast
    have "take ?n sm = ?row" using w n by (intro nth_equalityI) (simp_all add: writes_def)
    then show thesis using a [OF sm] w by (simp add: writes_def)
  qed
  have "0 \<le> k" "2 ^ k \<le> length sm" using n sm(2) by simp_all
  note p = hada_passes_spans [where lanes = "lanes r", OF lanes this, unfolded power_0 sm(3)]
  have w: "fold (\<lambda>t. wspan (2 ^ t)) [0..<k] ?row = wht k ?row" by (rule wht_spans) simp
  obtain v where v: "hada_passes ?n 1 (lanes r) sm = Some v" "length v = length sm" "take ?n v = wht k ?row" using p unfolding w by blast
  have at: "rd v i = Some (wht k ?row ! i)" if "i < ?n" for i
    using that n sm(2) v(2) nth_take [OF that, of v] by (simp add: v(3))
  have "\<exists>out'. row_store 1 kRowThreads ?n (r * ?n) (\<lambda>i. map_option st (rd v i)) (lanes r ?n) out = Some out' \<and>
      writes {r * ?n..<r * ?n + ?n} (\<lambda>a. st (wht k ?row ! (a - r * ?n))) out out'"
    by (rule row_store_writes [OF lanes kRowThreads_pos]) (use src_row [OF r, of ?n] len(2) at in simp_all)
  then show ?thesis unfolding hada_item_def sm(1) v(1) bind.bind_lunit .
qed

text \<open>C38: The Hadamard kernel computes the recursive Walsh-Hadamard transform of every row, bit for bit in any arithmetic, for rows of
  any power of two up to the 2048 elements of its local memory and any order of rows and items between the barriers; it runs the same additions as
  the sequential transform of the codec.\<close>

theorem hadamard_wht:
  fixes x out :: "'t list" and ld :: "'t \<Rightarrow> 'f::{plus,minus}"
  assumes sched: "schedule rows sched" and lanes: "\<And>r s. schedule kRowThreads (lanes r s)" and n: "2 ^ k \<le> kMaxN" "\<And>r. length (local r) = kMaxN"
    and len: "length x = rows * 2 ^ k" "length out = rows * 2 ^ k"
  shows "hadamard ld st x (2 ^ k) sched lanes local out =
      Some (map (\<lambda>a. st (wht k (map (\<lambda>i. ld (x ! (a div 2 ^ k * 2 ^ k + i))) [0..<2 ^ k]) ! (a mod 2 ^ k))) [0..<rows * 2 ^ k]) \<and>
    (\<forall>r<rows. fwht (2 ^ k) (map (\<lambda>i. ld (x ! (r * 2 ^ k + i))) [0..<2 ^ k]) = Some (wht k (map (\<lambda>i. ld (x ! (r * 2 ^ k + i))) [0..<2 ^ k])))"
proof
  show "hadamard ld st x (2 ^ k) sched lanes local out =
      Some (map (\<lambda>a. st (wht k (map (\<lambda>i. ld (x ! (a div 2 ^ k * 2 ^ k + i))) [0..<2 ^ k]) ! (a mod 2 ^ k))) [0..<rows * 2 ^ k])"
    unfolding hadamard_def
  proof (rule rows_launch [OF sched len(2)])
    fix r and m :: "'t list" assume r: "r < rows" "length m = rows * 2 ^ k"
    have "2 ^ k \<le> length (local r)" using n by simp
    from hada_item_writes [where lanes = lanes and r = r and k = k and local = local and ld = ld and st = st, OF lanes r(1) this len(1) r(2)]
    show "\<exists>m'. hada_item ld st x (2 ^ k) lanes local r m = Some m' \<and>
        writes (row_cells (2 ^ k) r) (\<lambda>a. st (wht k (map (\<lambda>i. ld (x ! (r * 2 ^ k + i))) [0..<2 ^ k]) ! (a - r * 2 ^ k))) m m'" .
  qed
qed (simp add: fwht_wht)

lemma hadamard_wht_witness:
  "hadamard id id [1, 2, 3, 5 :: int] (2 ^ 2) [0] (\<lambda>r s. rev [0..<kRowThreads]) (\<lambda>r. replicate 2048 9) [0, 0, 0, 0] = Some [11, - 3, - 5, 1]"
proof -
  have u: "[0..<4] = [0, 1, 2, 3 :: nat]" by (simp add: upt_rec)
  have "schedule 1 [0]" by (auto simp: schedule_def)
  then show ?thesis
    using hadamard_wht [of 1 "[0]" "\<lambda>r s. rev [0..<kRowThreads]" 2 "\<lambda>r. replicate 2048 9" "[1, 2, 3, 5 :: int]" "[0, 0, 0, 0]" id id]
    by (simp add: kMaxN_def u numeral_2_eq_2)
qed

section \<open>Cross entropy and gated norm, exact\<close>

text \<open>The cross entropy kernel returns for every row the negative logarithm of the softmax probability of its target, which is not negative: in
  exact arithmetic, for every target inside the vocabulary, starting value of the maximum and order of the rows.\<close>

theorem cross_entropy_exact:
  assumes sched: "schedule rows sched" and len: "length x = rows * vocab" "length target = rows" "length loss = rows"
    and target: "\<And>r. r < rows \<Longrightarrow> 0 \<le> target ! r \<and> target ! r < int vocab"
  shows "\<exists>loss'. cross_entropy exact_pmath ld minus_inf x target vocab sched loss = Some loss' \<and> length loss' = rows \<and>
    (\<forall>r<rows. 0 \<le> loss' ! r \<and> loss' ! r = - ln (exp (ld (x ! (r * vocab + nat (target ! r)))) / (\<Sum>j<vocab. exp (ld (x ! (r * vocab + j))))))"
proof -
  let ?p = "\<lambda>r. exp (ld (x ! (r * vocab + nat (target ! r)))) / (\<Sum>j<vocab. exp (ld (x ! (r * vocab + j))))"
  have "foldM (ce_item exact_pmath ld minus_inf x target vocab) sched loss = Some (map (\<lambda>r. - ln (?p r)) [0..<rows])"
  proof (rule launch_store [OF sched len(3)])
    fix r and m :: "real list" assume r: "r < rows" and m: "length m = rows"
    let ?f = "row_of ld x vocab r" and ?t = "nat (target ! r)"
    have t: "?t < vocab" "0 \<le> target ! r" using target [OF r] by (simp_all add: nat_less_iff)
    have row: "r * vocab + i < rows * vocab" if "i < vocab" for i using src_row [OF r, of vocab] that by linarith
    have "row_partials 1 vocab (\<lambda>j pmax. do { v \<leftarrow> rd x (r * vocab + j); let f = ld v; Some (if pmax < f then f else pmax) }) minus_inf =
        Some (map (\<lambda>l. fold (\<lambda>i a. if a < ?f i then ?f i else a) (lane_indices 1 kRowThreads vocab l) minus_inf) [0..<kRowThreads])"
      by (rule row_partials_pure) (use row len(1) in \<open>simp_all add: Let_def\<close>)
    then obtain ms where ms: "row_partials 1 vocab (\<lambda>j pmax. do { v \<leftarrow> rd x (r * vocab + j); let f = ld v; Some (if pmax < f then f else pmax) }) minus_inf = Some ms" by blast
    define M where "M = Max (set ms)"
    have "\<exists>ps. row_partials 1 vocab (\<lambda>j psum. do { v \<leftarrow> rd x (r * vocab + j); Some (psum + exp (ld v - M)) }) 0 = Some ps \<and> sum_list ps = (\<Sum>i<vocab. exp (?f i - M))"
      by (rule row_partials_sum) (use row len(1) in simp_all)
    then obtain ps where ps: "row_partials 1 vocab (\<lambda>j psum. do { v \<leftarrow> rd x (r * vocab + j); Some (psum + exp (ld v - M)) }) 0 = Some ps" "sum_list ps = (\<Sum>i<vocab. exp (?f i - M))" by blast
    have pos: "0 < (\<Sum>j<vocab. exp (?f j))" by (rule sum_pos) (use t(1) in auto)
    have "(\<Sum>i<vocab. exp (?f i - M)) = (\<Sum>i<vocab. exp (?f i)) / exp M" by (simp add: exp_diff sum_divide_distrib)
    then have l: "M + ln (sum_list ps) - ?f ?t = - ln (?p r)" using pos by (simp add: ps(2) ln_div)
    have rr: "rd target r = Some (target ! r)" "rdi x (int (r * vocab) + target ! r) = Some (x ! (r * vocab + ?t))"
    proof -
      have "nat (int (r * vocab) + target ! r) = r * vocab + ?t" using t(2) by (metis nat_add_distrib nat_int of_nat_0_le_iff)
      then show "rdi x (int (r * vocab) + target ! r) = Some (x ! (r * vocab + ?t))" using row [OF t(1)] t(2) len(1) by simp
    qed (use r len(2) in simp)
    show "ce_item exact_pmath ld minus_inf x target vocab r m = wr m r (- ln (?p r))"
      unfolding ce_item_def exact_pmath_simps Let_def ms [unfolded Let_def] bind.bind_lunit M_def [symmetric] ps(1) rr l by (rule refl)
  qed
  moreover have "0 \<le> - ln (?p r)" if r: "r < rows" for r
  proof -
    have t: "nat (target ! r) < vocab" using target [OF r] by (simp add: nat_less_iff)
    have "exp (row_of ld x vocab r (nat (target ! r))) \<le> (\<Sum>j<vocab. exp (row_of ld x vocab r j))" by (rule member_le_sum) (use t in auto)
    moreover have "0 < (\<Sum>j<vocab. exp (row_of ld x vocab r j))" by (rule sum_pos) (use t in auto)
    ultimately show ?thesis by (simp add: ln_le_zero_iff divide_le_eq)
  qed
  ultimately show ?thesis by (simp add: cross_entropy_def)
qed

text \<open>The gated product, and the norm of each group of its row with the intermediate rounding to the storage type.\<close>

definition gated_row :: "('t \<Rightarrow> real) \<Rightarrow> 't list \<Rightarrow> 't list \<Rightarrow> nat \<Rightarrow> nat \<Rightarrow> nat \<Rightarrow> real" where
  "gated_row ld x gate n r i = ld (x ! (r * n + i)) * (ld (gate ! (r * n + i)) / (1 + exp (- ld (gate ! (r * n + i)))))"

lemma group_norm_exact:
  fixes x gate w out :: "'t list"
  assumes sched: "schedule (rows * n_groups) sched" and lanes: "\<And>idx. schedule kRowThreads (lanes idx)" and h: "hidden = n_groups * n"
    and len: "length x = rows * hidden" "length gate = rows * hidden" "length w = hidden" "length out = rows * hidden"
  shows "group_rms_norm_gated exact_pmath ld st x gate w hidden n_groups eps rms_norm sched lanes out =
    Some (map (\<lambda>a. let f = gated_row ld x gate n (a div n); i = a mod n in
      if rms_norm then st (ld (w ! (a div n mod n_groups * n + i)) * ld (st (f i / sqrt (mean_square f n + eps)))) else st (f i)) [0..<rows * n_groups * n])"
  unfolding group_rms_norm_gated_def
proof (rule rows_launch [OF sched])
  show "length out = rows * n_groups * n" using len(4) h by simp
  fix r and m :: "'t list" assume r: "r < rows * n_groups" and m: "length m = rows * n_groups * n"
  let ?f = "gated_row ld x gate n r"
  have ng: "0 < n_groups" using r by (cases n_groups) auto
  have gs: "hidden div n_groups = n" using ng h by simp
  have base: "r div n_groups * hidden + r mod n_groups * n = r * n" unfolding h by (metis add_mult_distrib div_mult_mod_eq mult.assoc)
  have row: "r * n + i < rows * hidden" if "i < n" for i using src_row [OF r, of n] that h by (simp add: mult.assoc)
  let ?y = "\<lambda>i. do { xv \<leftarrow> rd x (r * n + i); gv \<leftarrow> rd gate (r * n + i); Some (ld xv * grng_silu exact_pmath (ld gv)) }"
  have y: "?y i = Some (?f i)" if "i < n" for i using row [OF that] len(1,2) by (simp add: gated_row_def grng_silu_def)
  have off: "r * n + n \<le> length m" using src_row [OF r, of n] m by simp
  have gw: "r mod n_groups * n + i < hidden" if "i < n" for i using div_mult_add_lt [OF mod_less_divisor [OF ng] that] h by simp
  show "\<exists>m'. grng_item exact_pmath ld st x gate w hidden n_groups eps rms_norm lanes r m = Some m' \<and> writes (row_cells n r)
      (\<lambda>a. let f = ?f; i = a - r * n in if rms_norm then st (ld (w ! (r mod n_groups * n + i)) * ld (st (f i / sqrt (mean_square f n + eps)))) else st (f i)) m m'"
  proof (cases rms_norm)
    case False
    have "\<exists>m'. row_store 1 kRowThreads n (r * n) (\<lambda>i. map_option st (?y i)) (lanes r) m = Some m' \<and> writes {r * n..<r * n + n} (\<lambda>a. st (?f (a - r * n))) m m'"
      by (rule row_store_writes [OF lanes kRowThreads_pos _ off]) (use y in simp_all)
    then show ?thesis unfolding grng_item_def Let_def gs base using False by simp
  next
    case True
    have "\<exists>ps. row_partials 1 n (\<lambda>i partial. do { v \<leftarrow> ?y i; Some (partial + v * v) }) 0 = Some ps \<and> sum_list ps = (\<Sum>i<n. ?f i * ?f i)"
      by (rule row_partials_sum) (use y in simp_all)
    then obtain ps where ps: "row_partials 1 n (\<lambda>i partial. do { v \<leftarrow> ?y i; Some (partial + v * v) }) 0 = Some ps" "sum_list ps = (\<Sum>i<n. ?f i * ?f i)" by blast
    have "\<exists>m'. row_store 1 kRowThreads n (r * n) (\<lambda>i. do { v \<leftarrow> ?y i; wv \<leftarrow> rd w (r mod n_groups * n + i); Some (st (ld wv * ld (st (v * (1 / sqrt (sum_list ps / real n + eps)))))) }) (lanes r) m = Some m' \<and>
        writes {r * n..<r * n + n} (\<lambda>a. st (ld (w ! (r mod n_groups * n + (a - r * n))) * ld (st (?f (a - r * n) / sqrt (mean_square ?f n + eps))))) m m'"
      by (rule row_store_writes [OF lanes kRowThreads_pos _ off]) (use y gw len(3) in \<open>simp_all add: mean_square_def ps(2)\<close>)
    then show ?thesis unfolding grng_item_def Let_def gs base exact_pmath_simps ps(1) bind.bind_lunit of_int_of_nat_eq using True by simp
  qed
qed

section \<open>Pooling, exact\<close>

lemma kSub_pos [simp]: "0 < kSub"
  by (simp add: kSub_def)

text \<open>The registers that hold a vector.\<close>

definition reg_file :: "nat \<Rightarrow> (nat \<Rightarrow> real) \<Rightarrow> real list list" where
  "reg_file slots P = map (\<lambda>lane. map (\<lambda>s. P (lane + s * kSub)) [0..<slots]) [0..<kSub]"

lemma reg_file_at: "lane < kSub \<Longrightarrow> s < slots \<Longrightarrow> Option.bind (rd (reg_file slots P) lane) (\<lambda>row. rd row s) = Some (P (lane + s * kSub))"
  by (simp add: reg_file_def)

lemma update_regs_exact:
  assumes "\<And>lane s. lane < kSub \<Longrightarrow> s < slots \<Longrightarrow> f lane s (P (lane + s * kSub)) = Some (Q (lane + s * kSub))"
  shows "update_regs slots f (reg_file slots P) = Some (reg_file slots Q)"
proof -
  have "(do { row \<leftarrow> rd (reg_file slots P) lane; those (map (\<lambda>s. do { p \<leftarrow> rd row s; f lane s p }) [0..<slots]) }) = Some (map (\<lambda>s. Q (lane + s * kSub)) [0..<slots])"
    if lane: "lane < kSub" for lane
  proof -
    have "those (map (\<lambda>s. do { p \<leftarrow> rd (map (\<lambda>s. P (lane + s * kSub)) [0..<slots]) s; f lane s p }) [0..<slots]) = Some (map (\<lambda>s. Q (lane + s * kSub)) [0..<slots])"
      by (rule those_map_Some) (simp add: assms [OF lane])
    moreover have "rd (reg_file slots P) lane = Some (map (\<lambda>s. P (lane + s * kSub)) [0..<slots])" using lane by (simp add: reg_file_def)
    ultimately show ?thesis by (simp only: bind.bind_lunit)
  qed
  then have "update_regs slots f (reg_file slots P) = Some (map (\<lambda>lane. map (\<lambda>s. Q (lane + s * kSub)) [0..<slots]) [0..<kSub])"
    unfolding update_regs_def by (intro those_map_Some) simp
  then show ?thesis by (simp add: reg_file_def)
qed

lemma sum_lane_slots: "(\<Sum>lane<m. \<Sum>s < slots. g (lane + s * m)) = (\<Sum>d < slots * m. g d)" for g :: "nat \<Rightarrow> real"
proof -
  have "(\<Sum>d < slots * m. g d) = (\<Sum>s < slots. sum g {s * m..<s * m + m})" by (simp add: sum.nat_group)
  also have "\<dots> = (\<Sum>s < slots. \<Sum>lane<m. g (lane + s * m))"
  proof (rule sum.cong [OF refl])
    fix s assume "s \<in> {..<slots}"
    show "sum g {s * m..<s * m + m} = (\<Sum>lane<m. g (lane + s * m))"
      using sum.shift_bounds_nat_ivl [of g 0 "s * m" m] by (simp add: lessThan_atLeast0 add.commute [of m])
  qed
  finally show ?thesis using sum.swap [of "\<lambda>lane s. g (lane + s * m)" "{..<slots}" "{..<m}"] by simp
qed

lemma lane_squares_exact:
  assumes "\<And>lane s. lane < kSub \<Longrightarrow> s < slots \<Longrightarrow> at_reg lane s = Some (g (lane + s * kSub))"
  shows "lane_squares exact_pmath slots at_reg = Some (\<Sum>d < slots * kSub. g d * g d)"
proof -
  have "those (map (\<lambda>lane. foldM (\<lambda>s ss. do { v \<leftarrow> at_reg lane s; Some (fma_fn exact_pmath v v ss) }) [0..<slots] 0) [0..<kSub]) =
      Some (map (\<lambda>lane. \<Sum>s < slots. g (lane + s * kSub) * g (lane + s * kSub)) [0..<kSub])"
  proof (rule those_map_Some)
    fix lane assume "lane \<in> set [0..<kSub]"
    then have lane: "lane < kSub" by simp
    have "foldM (\<lambda>s ss. do { v \<leftarrow> at_reg lane s; Some (fma_fn exact_pmath v v ss) }) [0..<slots] 0 = Some (0 + (\<Sum>s < slots. g (lane + s * kSub) * g (lane + s * kSub)))"
      by (rule sum_loop) (simp add: assms [OF lane])
    then show "foldM (\<lambda>s ss. do { v \<leftarrow> at_reg lane s; Some (fma_fn exact_pmath v v ss) }) [0..<slots] 0 = Some (\<Sum>s < slots. g (lane + s * kSub) * g (lane + s * kSub))" by simp
  qed
  moreover have "sum_list (map (\<lambda>lane. \<Sum>s < slots. g (lane + s * kSub) * g (lane + s * kSub)) [0..<kSub]) = (\<Sum>d < slots * kSub. g d * g d)"
    unfolding interv_sum_list_conv_sum_set_nat set_upt lessThan_atLeast0 [symmetric] by (rule sum_lane_slots)
  ultimately show ?thesis by (simp only: lane_squares_def option.map exact_pmath_simps)
qed

lemma pool_token_exact:
  assumes n: "n_dim = slots * kSub" and t: "t < tokens" and len: "length x = tokens * n_dim" "length weight = n_dim"
  shows "pool_token exact_pmath ld n_dim x weight eps t (reg_file slots P) =
    Some (reg_file slots (\<lambda>d. P d + rms_scaled (row_of ld x n_dim t) (\<lambda>i. ld (weight ! i)) n_dim eps d))"
proof -
  have slots: "n_dim div kSub = slots" by (simp add: n)
  have d: "lane + s * kSub < n_dim" if "lane < kSub" "s < slots" for lane s using div_mult_add_lt [OF that(2,1)] by (simp add: n add.commute)
  have x: "rd x (t * n_dim + e) = Some (x ! (t * n_dim + e))" if "e < n_dim" for e using src_row [OF t, of n_dim] that len(1) by simp
  have "lane_squares exact_pmath slots (\<lambda>lane s. map_option ld (rd x (t * n_dim + lane + s * kSub))) = Some (\<Sum>e < slots * kSub. row_of ld x n_dim t e * row_of ld x n_dim t e)"
    by (rule lane_squares_exact) (use x [OF d] in \<open>simp add: add.assoc\<close>)
  then have sq: "lane_squares exact_pmath slots (\<lambda>lane s. map_option ld (rd x (t * n_dim + lane + s * kSub))) = Some (mean_square (row_of ld x n_dim t) n_dim * real n_dim)"
    by (cases "n_dim = 0") (simp_all add: mean_square_def n [symmetric])
  have inv: "mean_square (row_of ld x n_dim t) n_dim * real n_dim / real n_dim = mean_square (row_of ld x n_dim t) n_dim"
    by (cases "n_dim = 0") (simp_all add: mean_square_def)
  show ?thesis
    unfolding pool_token_def Let_def slots sq bind.bind_lunit exact_pmath_simps of_int_of_nat_eq inv
    by (rule update_regs_exact) (use x [OF d] d len(2) in \<open>simp add: rms_scaled_def add.assoc\<close>)
qed

text \<open>The mean of the normalized tokens of a sequence, zero when it has none.\<close>

definition pool_mean :: "('t \<Rightarrow> real) \<Rightarrow> 't list \<Rightarrow> 't list \<Rightarrow> int list \<Rightarrow> nat \<Rightarrow> real \<Rightarrow> nat \<Rightarrow> nat \<Rightarrow> real" where
  "pool_mean ld x weight offsets n_dim eps seq d =
     (\<Sum>t = nat (offsets ! seq)..<nat (offsets ! (seq + 1)). rms_scaled (row_of ld x n_dim t) (\<lambda>i. ld (weight ! i)) n_dim eps d) / real_of_int (offsets ! (seq + 1) - offsets ! seq)"

lemma pool_store:
  assumes lanes: "schedule kSub lanes" and off: "off + slots * kSub \<le> length out"
  shows "\<exists>out'. foldM (\<lambda>lane. foldM (\<lambda>s out. do { row \<leftarrow> rd (reg_file slots P) lane; p \<leftarrow> rd row s; wr out (off + (lane + s * kSub)) (st (p * c)) }) [0..<slots]) lanes out = Some out' \<and>
    writes {off..<off + slots * kSub} (\<lambda>a. st (P (a - off) * c)) out out'"
proof -
  let ?cells = "\<lambda>lane k. (\<lambda>s. off + (lane + s * kSub)) ` {..<k}" and ?v = "\<lambda>a. st (P (a - off) * c)"
  have "\<exists>out'. foldM (\<lambda>lane. foldM (\<lambda>s out. do { row \<leftarrow> rd (reg_file slots P) lane; p \<leftarrow> rd row s; wr out (off + (lane + s * kSub)) (st (p * c)) }) [0..<slots]) lanes out = Some out' \<and>
      writes (\<Union>lane<kSub. ?cells lane slots) ?v out out'"
  proof (rule launch_writes [OF lanes])
    fix lane and m :: "'a list" assume lane: "lane < kSub" and m: "length m = length out"
    show "\<exists>m'. foldM (\<lambda>s out. do { row \<leftarrow> rd (reg_file slots P) lane; p \<leftarrow> rd row s; wr out (off + (lane + s * kSub)) (st (p * c)) }) [0..<slots] m = Some m' \<and> writes (?cells lane slots) ?v m m'"
    proof (rule foldM_upt [where P = "\<lambda>k m'. writes (?cells lane k) ?v m m'"])
      fix s m' assume s: "s < slots" and w: "writes (?cells lane s) ?v m m'"
      have lt: "off + (lane + s * kSub) < length m'" using div_mult_add_lt [OF s lane] off m w by (simp add: writes_length)
      have p: "Option.bind (rd (reg_file slots P) lane) (\<lambda>row. Option.bind (rd row s) (\<lambda>p. wr m' (off + (lane + s * kSub)) (st (p * c)))) = wr m' (off + (lane + s * kSub)) (st (P (lane + s * kSub) * c))"
        using lane s by (simp add: reg_file_def)
      have "writes (insert (off + (lane + s * kSub)) (?cells lane s)) ?v m (m'[off + (lane + s * kSub) := ?v (off + (lane + s * kSub))])"
        using writes_trans [OF w writes_single [OF lt]] by simp
      then show "\<exists>s'. (do { row \<leftarrow> rd (reg_file slots P) lane; p \<leftarrow> rd row s; wr m' (off + (lane + s * kSub)) (st (p * c)) }) = Some s' \<and> writes (?cells lane (Suc s)) ?v m s'"
        unfolding p using lt by (simp add: lessThan_Suc)
    qed simp_all
  qed
  moreover have "(\<Union>lane<kSub. ?cells lane slots) = {off..<off + slots * kSub}"
  proof (intro equalityI subsetI)
    fix a assume "a \<in> (\<Union>lane<kSub. ?cells lane slots)"
    then obtain lane s where "lane < kSub" "s < slots" "a = off + (lane + s * kSub)" by blast
    then show "a \<in> {off..<off + slots * kSub}" using div_mult_add_lt [of s slots lane kSub] by simp
  next
    fix a assume a: "a \<in> {off..<off + slots * kSub}"
    then have "a - off < slots * kSub" by auto
    then have "(a - off) div kSub < slots" "(a - off) mod kSub < kSub" by (simp_all add: less_mult_imp_div_less)
    moreover have "a = off + ((a - off) mod kSub + (a - off) div kSub * kSub)" using a by simp
    ultimately show "a \<in> (\<Union>lane<kSub. ?cells lane slots)" by blast
  qed
  ultimately show ?thesis by simp
qed

lemma pool_item_writes:
  fixes x weight out :: "'t list" and ld :: "'t \<Rightarrow> real" and eps :: real
  assumes lanes: "schedule kSub (lanes seq)" and n: "n_dim = slots * kSub" and seq: "seq < batch"
    and offs: "length offsets = batch + 1" "0 \<le> offsets ! seq" "offsets ! (seq + 1) \<le> int tokens"
    and len: "length x = tokens * n_dim" "length weight = n_dim" "length out = batch * n_dim"
  defines "m \<equiv> pool_mean ld x weight offsets n_dim eps seq"
  shows "\<exists>out'. pool_item exact_pmath ld st n_dim x weight offsets eps lanes seq out = Some out' \<and>
    writes (row_cells n_dim seq) (\<lambda>a. st (m (a - seq * n_dim) * (if (\<Sum>d<n_dim. m d * m d) = 0 then 1 else 1 / sqrt (\<Sum>d<n_dim. m d * m d)))) out out'"
proof -
  let ?start = "offsets ! seq" and ?stop = "offsets ! (seq + 1)"
  let ?P = "\<lambda>k d. \<Sum>t = nat ?start..<k. rms_scaled (row_of ld x n_dim t) (\<lambda>i. ld (weight ! i)) n_dim eps d"
  let ?fin = "max (nat ?start) (nat ?stop)"
  have slots: "n_dim div kSub = slots" by (simp add: n)
  have "\<exists>regs. foldM (pool_token exact_pmath ld n_dim x weight eps) [nat ?start..<?fin] (replicate kSub (replicate slots 0)) = Some regs \<and> regs = reg_file slots (?P ?fin)"
  proof (rule foldM_upt [where P = "\<lambda>k regs. regs = reg_file slots (?P k)"])
    show "replicate kSub (replicate slots 0) = reg_file slots (?P (nat ?start))" by (simp add: reg_file_def map_replicate_const)
    fix t regs assume t: "nat ?start \<le> t" "t < ?fin" and regs: "regs = reg_file slots (?P t)"
    have "t < tokens" using t offs(3) by linarith
    then have "pool_token exact_pmath ld n_dim x weight eps t regs = Some (reg_file slots (\<lambda>d. ?P t d + rms_scaled (row_of ld x n_dim t) (\<lambda>i. ld (weight ! i)) n_dim eps d))"
      unfolding regs using pool_token_exact [OF n _ len(1,2)] by blast
    then show "\<exists>s'. pool_token exact_pmath ld n_dim x weight eps t regs = Some s' \<and> s' = reg_file slots (?P (Suc t))" using t(1) by simp
  qed simp
  moreover have "[nat ?start..<?fin] = [nat ?start..<nat ?stop]" "{nat ?start..<?fin} = {nat ?start..<nat ?stop}" by (auto simp: max_def)
  ultimately have regs: "foldM (pool_token exact_pmath ld n_dim x weight eps) [nat ?start..<nat ?stop] (replicate kSub (replicate slots 0)) = Some (reg_file slots (?P (nat ?stop)))" by simp
  have upd: "update_regs slots (\<lambda>lane s p. Some (p * (if 0 < ?stop - ?start then 1 / real_of_int (?stop - ?start) else 0))) (reg_file slots (?P (nat ?stop))) = Some (reg_file slots m)"
    by (rule update_regs_exact) (use offs(2) in \<open>auto simp: m_def pool_mean_def\<close>)
  have sq: "lane_squares exact_pmath slots (\<lambda>lane s. Option.bind (rd (reg_file slots m) lane) (\<lambda>row. rd row s)) = Some (\<Sum>d<n_dim. m d * m d)"
    unfolding n by (rule lane_squares_exact) (rule reg_file_at)
  have st: "\<exists>out'. foldM (\<lambda>lane. foldM (\<lambda>s out. do { row \<leftarrow> rd (reg_file slots m) lane; p \<leftarrow> rd row s; wr out (seq * n_dim + (lane + s * kSub)) (st (p * c)) }) [0..<slots]) (lanes seq) out = Some out' \<and>
      writes (row_cells n_dim seq) (\<lambda>a. st (m (a - seq * n_dim) * c)) out out'" for c
    using pool_store [OF lanes, of "seq * n_dim" slots out m st c] src_row [OF seq, of n_dim] len(3) n by simp
  have ix: "rd offsets seq = Some ?start" "rd offsets (seq + 1) = Some ?stop" using seq offs(1) by simp_all
  have "\<not> (?start < 0 \<and> ?start < ?stop)" using offs(2) by simp
  then show ?thesis
    unfolding pool_item_def Let_def slots ix bind.bind_lunit exact_pmath_simps using st by (simp only: if_False regs upd sq bind.bind_lunit)
qed

text \<open>The pooling head accepts exactly the four vector sizes it is compiled for and otherwise refuses; then, in exact arithmetic, whatever the
  order of sequences and lanes, every output row is the mean of the normalized tokens of its sequence scaled to norm 1, and zero when that mean is
  zero, in particular for an empty sequence.\<close>

theorem pool_mean_exact:
  fixes x weight out :: "real list"
  assumes sched: "schedule batch sched" and lanes: "\<And>seq. schedule kSub (lanes seq)"
    and offs: "length offsets = batch + 1" "\<And>s. s < batch \<Longrightarrow> 0 \<le> offsets ! s \<and> offsets ! (s + 1) \<le> int tokens"
    and len: "length x = tokens * n_dim" "length weight = n_dim" "length out = batch * n_dim"
  shows "if n_dim \<in> {256, 512, 768, 1024}
    then \<exists>out'. pool_by_dim exact_pmath id id x weight offsets n_dim eps sched lanes out = Inr (Some out') \<and> length out' = batch * n_dim \<and>
      (\<forall>seq<batch. let m = pool_mean id x weight offsets n_dim eps seq; sq = (\<Sum>d<n_dim. (m d)\<^sup>2) in
        (\<forall>d<n_dim. out' ! (seq * n_dim + d) = (if sq = 0 then 0 else m d / sqrt sq)) \<and>
        (\<Sum>d<n_dim. (out' ! (seq * n_dim + d))\<^sup>2) = (if sq = 0 then 0 else 1))
    else \<exists>msg. pool_by_dim exact_pmath id id x weight offsets n_dim eps sched lanes out = Inl msg"
proof (cases "n_dim \<in> {256, 512, 768, 1024}")
  case False
  then show ?thesis by (simp add: pool_by_dim_def)
next
  case True
  then have "n_dim div kSub * kSub = n_dim" by (auto simp: kSub_def)
  then obtain slots where n: "n_dim = slots * kSub" by metis
  let ?m = "pool_mean id x weight offsets n_dim eps"
  let ?sq = "\<lambda>seq. \<Sum>d<n_dim. ?m seq d * ?m seq d"
  let ?u = "\<lambda>seq i. ?m seq i * (if ?sq seq = 0 then 1 else 1 / sqrt (?sq seq))"
  let ?out = "map (\<lambda>a. ?u (a div n_dim) (a mod n_dim)) [0..<batch * n_dim]"
  have "foldM (pool_item exact_pmath id id n_dim x weight offsets eps lanes) sched out = Some ?out"
  proof (rule rows_launch [OF sched len(3)])
    fix r and v :: "real list" assume r: "r < batch" "length v = batch * n_dim"
    show "\<exists>v'. pool_item exact_pmath id id n_dim x weight offsets eps lanes r v = Some v' \<and> writes (row_cells n_dim r) (\<lambda>a. ?u r (a - r * n_dim)) v v'"
      using pool_item_writes [where lanes = lanes and seq = r and ld = id and st = id and eps = eps, OF lanes n r(1) offs(1) conjunct1 [OF offs(2) [OF r(1)]] conjunct2 [OF offs(2) [OF r(1)]] len(1,2) r(2)] by simp
  qed
  then have run: "pool_by_dim exact_pmath id id x weight offsets n_dim eps sched lanes out = Inr (Some ?out)" using True by (auto simp: pool_by_dim_def pool_dim_def)
  have row: "let m = ?m seq; sq = (\<Sum>d<n_dim. (m d)\<^sup>2) in
        (\<forall>d<n_dim. ?out ! (seq * n_dim + d) = (if sq = 0 then 0 else m d / sqrt sq)) \<and> (\<Sum>d<n_dim. (?out ! (seq * n_dim + d))\<^sup>2) = (if sq = 0 then 0 else 1)"
    if seq: "seq < batch" for seq
  proof -
    have sq: "(\<Sum>d<n_dim. (?m seq d)\<^sup>2) = ?sq seq" by (simp add: power2_eq_square)
    have z: "?m seq d = 0" if "?sq seq = 0" "d < n_dim" for d
      using that sum_nonneg_eq_0_iff [of "{..<n_dim}" "\<lambda>d. ?m seq d * ?m seq d"] by simp
    have o: "?out ! (seq * n_dim + d) = (if ?sq seq = 0 then 0 else ?m seq d / sqrt (?sq seq))" if d: "d < n_dim" for d
    proof -
      have "?out ! (seq * n_dim + d) = ?u seq d" using div_mult_add_lt [OF seq d] d by simp
      then show ?thesis using z [OF _ d] by simp
    qed
    have "(\<Sum>d<n_dim. (?out ! (seq * n_dim + d))\<^sup>2) = (\<Sum>d<n_dim. (if ?sq seq = 0 then 0 else ?m seq d / sqrt (?sq seq))\<^sup>2)"
      by (rule sum.cong [OF refl]) (simp only: o lessThan_iff)
    also have "\<dots> = (if ?sq seq = 0 then 0 else 1)"
    proof -
      have "0 \<le> ?sq seq" by (rule sum_nonneg) simp
      then have "(?m seq d / sqrt (?sq seq))\<^sup>2 = ?m seq d * ?m seq d / ?sq seq" for d by (simp add: power_divide power2_eq_square)
      then show ?thesis by (simp add: sum_divide_distrib [symmetric])
    qed
    finally have f: "(\<Sum>d<n_dim. (?out ! (seq * n_dim + d))\<^sup>2) = (if ?sq seq = 0 then 0 else 1)" .
    show ?thesis unfolding Let_def sq by (intro conjI allI impI) (erule o, rule f)
  qed
  show ?thesis unfolding if_P [OF True] using run row by (intro exI [of _ ?out] conjI allI impI) (simp_all only: length_map length_upt diff_zero)
qed

end
