(* ===== verification/Recurrence.thy ===== *)
theory Recurrence
  imports Lanes
begin

text \<open>
  What the recurrent kernels (state-space duality, selective scan, gated delta rule) share.  A work-item owns one row of a state
  and takes it through the tokens of its sequence, one \<open>step\<close> a token, which emits one output cell.  \<open>scan_run\<close> is that
  machine on lists.  The locale \<open>row_machine\<close> is its interface: a step keeps the length of the row and of every later row.  \<open>launch_reads2\<close>
  is the launch of work-items that read cells of a state no other item writes, and write cells of their own.
\<close>

section \<open>Scans\<close>

primrec scan_run :: "('i \<Rightarrow> 's \<Rightarrow> 'y \<times> 's) \<Rightarrow> 'i list \<Rightarrow> 's \<Rightarrow> 'y list \<times> 's" where
  "scan_run step [] w = ([], w)"
| "scan_run step (i # is) w = (let (y, w) = step i w; (ys, w) = scan_run step is w in (y # ys, w))"

lemma scan_run_append:
  "scan_run step (xs @ ys) w = (fst (scan_run step xs w) @ fst (scan_run step ys (snd (scan_run step xs w))), snd (scan_run step ys (snd (scan_run step xs w))))"
  by (induction xs arbitrary: w) (auto simp: Let_def split: prod.splits)

lemma scan_run_length: "length (fst (scan_run step xs w)) = length xs"
  by (induction xs arbitrary: w) (simp_all add: Let_def case_prod_beta)

lemma scan_run_snoc:
  "scan_run step (xs @ [x]) w = (fst (scan_run step xs w) @ [fst (step x (snd (scan_run step xs w)))], snd (step x (snd (scan_run step xs w))))"
  by (simp add: scan_run_append Let_def split: prod.splits)

text \<open>Output \<open>k\<close> only depends on the tokens up to \<open>k\<close>.\<close>

lemma scan_run_nth:
  assumes "k < length xs"
  shows "fst (scan_run step xs w) ! k = fst (step (xs ! k) (snd (scan_run step (take k xs) w)))"
proof -
  have "xs = take k xs @ xs ! k # drop (Suc k) xs" using assms by (simp add: id_take_nth_drop)
  then have "fst (scan_run step xs w) ! k = fst (scan_run step (take k xs @ xs ! k # drop (Suc k) xs) w) ! k" by simp
  then show ?thesis using assms by (simp add: scan_run_append nth_append scan_run_length Let_def split: prod.splits)
qed

locale row_machine =
  fixes step :: "'i \<Rightarrow> 'f list \<Rightarrow> 'y \<times> 'f list" and n :: nat
  assumes step_length: "length w = n \<Longrightarrow> length (snd (step i w)) = n"
begin

lemma run_length: "length w = n \<Longrightarrow> length (snd (scan_run step is w)) = n"
  by (induction "is" arbitrary: w) (simp_all add: Let_def case_prod_beta step_length)

text \<open>The loop over the tokens of a sequence, writing output \<open>t\<close> to cell \<open>A t\<close>.\<close>

lemma token_loop:
  assumes body: "\<And>t w out. lo \<le> t \<Longrightarrow> t < hi \<Longrightarrow> length w = n \<Longrightarrow> length out = L \<Longrightarrow>
      body t (w, out) = Some (snd (step (inp t) w), out[A t := st (fst (step (inp t) w))])"
    and A: "inj_on A {lo..<hi}" "\<And>t. lo \<le> t \<Longrightarrow> t < hi \<Longrightarrow> A t < L" and w: "length w = n" and out: "length out = L" and lohi: "lo \<le> hi"
  shows "\<exists>out'. foldM body [lo..<hi] (w, out) = Some (snd (scan_run step (map inp [lo..<hi]) w), out') \<and>
    writes (A ` {lo..<hi}) (\<lambda>a. st (fst (scan_run step (map inp [lo..<hi]) w) ! (the_inv_into {lo..<hi} A a - lo))) out out'"
proof -
  let ?run = "\<lambda>t. scan_run step (map inp [lo..<t]) w"
  let ?v = "\<lambda>a. st (fst (?run hi) ! (the_inv_into {lo..<hi} A a - lo))"
  have "\<exists>s. foldM body [lo..<hi] (w, out) = Some s \<and> fst s = snd (?run hi) \<and> writes (A ` {lo..<hi}) ?v out (snd s)"
  proof (rule foldM_upt [OF lohi, where P = "\<lambda>t s. fst s = snd (?run t) \<and> writes (A ` {lo..<t}) ?v out (snd s)"])
    fix t s assume t: "lo \<le> t" "t < hi" and P: "fst s = snd (?run t) \<and> writes (A ` {lo..<t}) ?v out (snd s)"
    obtain w' o' where s: "s = (w', o')" by (cases s)
    have l: "length w' = n" "length o' = L" using P s run_length [OF w] out by (auto dest: writes_length)
    have S: "[lo..<Suc t] = [lo..<t] @ [t]" using t(1) by simp
    have tk: "take (t - lo) [lo..<hi] = [lo..<t]" using t by (simp add: take_upt)
    have "fst (?run hi) ! (t - lo) = fst (step (inp t) w')"
      using scan_run_nth [of "t - lo" "map inp [lo..<hi]" step w] t P s by (simp add: take_map tk)
    moreover have "the_inv_into {lo..<hi} A (A t) = t" using A(1) t by (simp add: the_inv_into_f_f)
    ultimately have v: "?v (A t) = st (fst (step (inp t) w'))" by simp
    have "writes (A ` {lo..<t} \<union> {A t}) ?v out (o'[A t := ?v (A t)])"
      using writes_trans [OF conjunct2 [OF P, unfolded s snd_conv] writes_single [of "A t" o' ?v]] A(2) [OF t] l by simp
    moreover have "A ` {lo..<t} \<union> {A t} = A ` {lo..<Suc t}" using t(1) by (auto simp: atLeastLessThanSuc)
    moreover have "snd (?run (Suc t)) = snd (step (inp t) w')" unfolding S map_append list.map scan_run_snoc using P s by simp
    ultimately show "\<exists>s'. body t s = Some s' \<and> fst s' = snd (?run (Suc t)) \<and> writes (A ` {lo..<Suc t}) ?v out (snd s')"
      using body [OF t l] v by (simp add: s)
  qed simp
  then show ?thesis by (metis prod.collapse)
qed

end

section \<open>Launches over a state and an output\<close>

lemma launch_reads2:
  assumes sched: "schedule n ord" and own: "owns n cells" "owns n cells'"
    and apart: "\<And>i j. i < n \<Longrightarrow> j < n \<Longrightarrow> i \<noteq> j \<Longrightarrow> reads i \<inter> cells j = {}"
    and item: "\<And>i a b. i < n \<Longrightarrow> length a = length a0 \<Longrightarrow> length b = length b0 \<Longrightarrow> (\<And>c. c \<in> reads i \<Longrightarrow> c < length a0 \<Longrightarrow> a ! c = a0 ! c) \<Longrightarrow>
      \<exists>a' b'. f i (a, b) = Some (a', b') \<and> writes (cells i) (u i) a a' \<and> writes (cells' i) (v i) b b'"
  shows "\<exists>a b. foldM f ord (a0, b0) = Some (a, b) \<and> rows_done cells u a0 {..<n} a \<and> rows_done cells' v b0 {..<n} b"
proof -
  let ?P = "\<lambda>D s. rows_done cells u a0 D (fst s) \<and> rows_done cells' v b0 D (snd s) \<and> D \<subseteq> {..<n}"
  have "\<exists>s. foldM f ord (a0, b0) = Some s \<and> ?P {..<n} s"
  proof (rule foldM_schedule [OF sched, where P = ?P])
    fix D i s assume i: "i < n" "i \<notin> D" and P: "?P D s"
    obtain a b where s: "s = (a, b)" by (cases s)
    have da: "rows_done cells u a0 D a" and db: "rows_done cells' v b0 D b" and D: "D \<subseteq> {..<n}" using P s by simp_all
    have "a ! c = a0 ! c" if c: "c \<in> reads i" "c < length a0" for c
    proof (rule rows_done_frame [OF da c(2)])
      fix j assume "j \<in> D"
      then have "j < n" "j \<noteq> i" using D i(2) by auto
      then show "c \<notin> cells j" using apart [OF i(1)] c(1) by blast
    qed
    from item [OF i(1) rows_done_length [OF da] rows_done_length [OF db] this] obtain a' b'
      where ab: "f i (a, b) = Some (a', b')" "writes (cells i) (u i) a a'" "writes (cells' i) (v i) b b'" by blast
    have "?P (insert i D) (a', b')"
      using rows_done_step [OF own(1) da ab(2) i D] rows_done_step [OF own(2) db ab(3) i D] D i(1) by simp
    then show "\<exists>s'. f i s = Some s' \<and> ?P (insert i D) s'" using ab(1) s by blast
  qed simp
  then obtain a b where "foldM f ord (a0, b0) = Some (a, b)" "?P {..<n} (a, b)" by fast
  then show ?thesis by auto
qed

section \<open>Addresses\<close>

text \<open>A work-item of a launch over \<open>rows\<close> groups of \<open>width\<close> items.\<close>

lemma item_split:
  assumes "i < rows * (width :: nat)"
  shows "i div width < rows" "i mod width < width"
  using assms by (simp_all add: less_mult_imp_div_less) (metis gr_implies_not0 mod_less_divisor mult_0_right not_gr_zero)

text \<open>Token-major cells \<open>(t * H + h) * D + d\<close>.\<close>

definition tcell :: "nat \<Rightarrow> nat \<Rightarrow> nat \<Rightarrow> nat \<Rightarrow> nat \<Rightarrow> nat" where
  "tcell H D h d t = (t * H + h) * D + d"

lemma tcell_less: "t < T \<Longrightarrow> h < H \<Longrightarrow> d < D \<Longrightarrow> tcell H D h d t < T * H * D"
  unfolding tcell_def by (intro div_mult_add_lt)

lemma tcell_inj:
  assumes "tcell H D h d t = tcell H D h' d' t'" "h < H" "d < D" "h' < H" "d' < D"
  shows "t = t' \<and> h = h' \<and> d = d'"
proof -
  have "t * H + h = t' * H + h' \<and> d = d'" using assms row_col_inj [of d D d' "t * H + h" "t' * H + h'"] by (simp add: tcell_def)
  then show ?thesis using row_col_inj [of h H h' t t'] assms(2,4) by simp
qed

lemma tcell_inj_on: "h < H \<Longrightarrow> d < D \<Longrightarrow> inj_on (tcell H D h d) S"
  by (rule inj_onI) (use tcell_inj in blast)

text \<open>The tokens of different sequences are different.\<close>

lemma packed_apart:
  assumes "packed qsl batch ntok" "s < batch" "s' < batch" "bos_of qsl s \<le> t" "t < bos_of qsl (s + 1)" "bos_of qsl s' \<le> t" "t < bos_of qsl (s' + 1)"
  shows "s = s'"
proof -
  have "False" if h: "s < s'" "s' < batch" "t < bos_of qsl (s + 1)" "bos_of qsl s' \<le> t" for s s'
    using packed_mono [OF assms(1), of "s + 1" s'] h by (simp add: bos_of_def)
  then show ?thesis using assms(2-) by (metis linorder_neqE_nat)
qed

text \<open>Lane \<open>(s * H + h) * D + d\<close> of a prefill writes the cells of its tokens.\<close>

definition seq_cells :: "int list \<Rightarrow> nat \<Rightarrow> nat \<Rightarrow> nat \<Rightarrow> nat set" where
  "seq_cells qsl H D i = tcell H D (i div D mod H) (i mod D) ` {bos_of qsl (i div D div H)..<bos_of qsl (i div D div H + 1)}"

lemma head_split:
  assumes "i < batch * H * (D :: nat)"
  shows "i div D div H < batch" "i div D mod H < H" "i mod D < D"
  using item_split [OF assms] item_split [OF item_split(1) [OF assms]] by simp_all

lemma lane_unique: "i div D = j div D \<Longrightarrow> i mod D = j mod D \<Longrightarrow> i = (j :: nat)"
  by (metis div_mult_mod_eq)

lemma seq_cells_owns:
  assumes "packed qsl batch ntok"
  shows "owns (batch * H * D) (seq_cells qsl H D)"
  unfolding owns_def
proof (intro allI impI, rule ccontr)
  fix i j assume ij: "i < batch * H * D" "j < batch * H * D" "i \<noteq> j" and ne: "seq_cells qsl H D i \<inter> seq_cells qsl H D j \<noteq> {}"
  note li = head_split [OF ij(1)] and lj = head_split [OF ij(2)]
  obtain t t' where t: "t \<in> {bos_of qsl (i div D div H)..<bos_of qsl (i div D div H + 1)}" "t' \<in> {bos_of qsl (j div D div H)..<bos_of qsl (j div D div H + 1)}"
      "tcell H D (i div D mod H) (i mod D) t = tcell H D (j div D mod H) (j mod D) t'"
    using ne unfolding seq_cells_def by blast
  have e: "t = t'" "i div D mod H = j div D mod H" "i mod D = j mod D" using tcell_inj [OF t(3) li(2,3) lj(2,3)] by simp_all
  have "i div D div H = j div D div H" using packed_apart [OF assms li(1) lj(1), of t] t(1,2) e(1) by simp
  then show False using e(2,3) ij(3) lane_unique [of "i div D" H "j div D"] lane_unique [of i D j] by blast
qed

text \<open>Row \<open>i\<close> of a state stored row by row.\<close>

lemma row_owns: "owns n (\<lambda>i. {i * w..<i * w + w})"
  by (rule rows_own)

lemma packed_bos: "packed qsl batch ntok \<Longrightarrow> s < batch \<Longrightarrow> bos_of qsl s \<le> bos_of qsl (s + 1) \<and> bos_of qsl (s + 1) \<le> ntok"
  using packed_mono [of qsl batch ntok s "s + 1"] packed_bounds [of qsl batch ntok "s + 1"] by (auto simp: bos_of_def nat_le_iff)

section \<open>Element-wise steps\<close>

text \<open>A step that updates every element of the row and sums a product per element.\<close>

definition lin_step :: "(nat \<Rightarrow> 'f \<Rightarrow> 'f) \<Rightarrow> (nat \<Rightarrow> 'f \<Rightarrow> 'f) \<Rightarrow> ('f \<Rightarrow> 'f) \<Rightarrow> 'f::{plus,zero} list \<Rightarrow> 'f \<times> 'f list" where
  "lin_step upd prd fin row = (fin (fold (\<lambda>n y. y + prd n (upd n (row ! n))) [0..<length row] 0), map (\<lambda>n. upd n (row ! n)) [0..<length row])"

lemma lin_step_length [simp]: "length (snd (lin_step upd prd fin row)) = length row"
  by (simp add: lin_step_def)

lemma lin_loop:
  fixes row :: "'f::{plus,zero} list"
  assumes "\<And>n w y. n < length row \<Longrightarrow> length w = length row \<Longrightarrow> w ! n = row ! n \<Longrightarrow> body n (w, y) = Some (w[n := upd n (row ! n)], y + prd n (upd n (row ! n)))"
  shows "foldM body [0..<length row] (row, 0) = Some (snd (lin_step upd prd id row), fst (lin_step upd prd id row))"
proof -
  let ?y = "\<lambda>k. fold (\<lambda>n y. y + prd n (upd n (row ! n))) [0..<k] 0"
  let ?w = "\<lambda>k. map (\<lambda>n. upd n (row ! n)) [0..<k] @ drop k row"
  have "\<exists>s. foldM body [0..<length row] (row, 0) = Some s \<and> s = (?w (length row), ?y (length row))"
  proof (rule foldM_upt [where P = "\<lambda>k s. s = (?w k, ?y k)"])
    fix k s assume k: "k < length row" and s: "s = (?w k, ?y k)"
    have "?w k ! k = row ! k" using k by (simp add: nth_append)
    moreover have "(?w k)[k := upd k (row ! k)] = ?w (Suc k)"
      using k by (intro nth_equalityI) (auto simp: nth_list_update nth_append less_Suc_eq)
    ultimately show "\<exists>s'. body k s = Some s' \<and> s' = (?w (Suc k), ?y (Suc k))"
      using assms [OF k, of "?w k"] k by (simp add: s)
  qed simp_all
  then show ?thesis by (simp add: lin_step_def)
qed

text \<open>The same where the row lives in a buffer, read at \<open>R\<close> and stored rounded at \<open>W\<close>.\<close>

lemma lin_memory:
  fixes a0 :: "'s list" and lds :: "'s \<Rightarrow> 'f::{plus,zero}"
  assumes row_def: "row = map (\<lambda>n. lds (a0 ! R n)) [0..<N]"
    and W: "inj_on W {..<N}" "\<And>n. n < N \<Longrightarrow> W n < length a0"
    and apart: "\<And>n m. n < N \<Longrightarrow> m < N \<Longrightarrow> n \<noteq> m \<Longrightarrow> R n \<noteq> W m"
    and body: "\<And>n a y. n < N \<Longrightarrow> length a = length a0 \<Longrightarrow> a ! R n = a0 ! R n \<Longrightarrow>
      body n (a, y) = Some (a[W n := sts (upd n (lds (a0 ! R n)))], y + prd n (upd n (lds (a0 ! R n))))"
    and R: "\<And>n. n < N \<Longrightarrow> R n < length a0"
  shows "\<exists>a. foldM body [0..<N] (a0, 0) = Some (a, fst (lin_step upd prd id row)) \<and>
    writes (W ` {..<N}) (\<lambda>c. sts (snd (lin_step upd prd id row) ! the_inv_into {..<N} W c)) a0 a"
proof -
  let ?y = "\<lambda>k. fold (\<lambda>n y. y + prd n (upd n (row ! n))) [0..<k] 0"
  let ?v = "\<lambda>c. sts (snd (lin_step upd prd id row) ! the_inv_into {..<N} W c)"
  have "\<exists>s. foldM body [0..<N] (a0, 0) = Some s \<and> writes (W ` {..<N}) ?v a0 (fst s) \<and> snd s = ?y N"
  proof (rule foldM_upt [where P = "\<lambda>k s. writes (W ` {..<k}) ?v a0 (fst s) \<and> snd s = ?y k"])
    fix k s assume k: "k < N" and P: "writes (W ` {..<k}) ?v a0 (fst s) \<and> snd s = ?y k"
    obtain a y where s: "s = (a, y)" by (cases s)
    have l: "length a = length a0" using P s by (auto dest: writes_length)
    have rk: "row ! k = lds (a0 ! R k)" using k by (simp add: row_def)
    have "R k \<notin> W ` {..<k}"
    proof
      assume "R k \<in> W ` {..<k}"
      then obtain m where "m < k" "R k = W m" by auto
      then show False using apart [OF k, of m] k by simp
    qed
    then have "a ! R k = a0 ! R k" using P s R [OF k] by (simp add: writes_def)
    then have b: "body k s = Some (a[W k := sts (upd k (row ! k))], ?y (Suc k))" using body [OF k l] P by (simp add: s rk)
    have "?v (W k) = sts (upd k (row ! k))" using W(1) k by (simp add: the_inv_into_f_f lin_step_def row_def)
    then have "writes (W ` {..<k} \<union> {W k}) ?v a0 (a[W k := sts (upd k (row ! k))])"
      using writes_trans [OF conjunct1 [OF P, unfolded s fst_conv] writes_single [of "W k" a ?v]] W(2) [OF k] l by simp
    then show "\<exists>s'. body k s = Some s' \<and> writes (W ` {..<Suc k}) ?v a0 (fst s') \<and> snd s' = ?y (Suc k)"
      using b by (simp add: lessThan_Suc)
  qed (use R in simp_all)
  then obtain s where "foldM body [0..<N] (a0, 0) = Some s" "writes (W ` {..<N}) ?v a0 (fst s)" "snd s = ?y N" by blast
  then show ?thesis by (cases s) (auto simp: lin_step_def row_def)
qed

end
