(* ===== verification/Conv1d.thy ===== *)
theory Conv1d
  imports Lanes
begin

text \<open>
  The depthwise causal convolution of the state-space layers (\<open>causal_conv1d_decode.sycl.cpp\<close>,
  \<open>causal_conv1d_prefill.sycl.cpp\<close>).  The cache holds for each slot and channel the last
  \<open>state_len = kernel - 1\<close> samples, at strides given by the caller.  The decode kernel takes one
  sample per row, the prefill kernels whole packed sequences: one launch computes the outputs, a second,
  which depends on it, the windows.  The abstract machine \<open>conv_step\<close> is one window and one sample; the
  kernels are proved to implement it.  \<open>ld\<close>, \<open>st\<close> convert activation cells, \<open>lds\<close>, \<open>sts\<close> state cells.
\<close>

section \<open>The abstract machine\<close>

definition conv_dot :: "'f::{plus,times} list \<Rightarrow> 'f \<Rightarrow> 'f list \<Rightarrow> 'f" where
  "conv_dot wt b ws = fold (\<lambda>k acc. acc + ws ! k * wt ! k) [0..<length wt] b"

definition conv_step :: "('f::{plus,times} \<Rightarrow> 'f) \<Rightarrow> ('f \<Rightarrow> 'f) \<Rightarrow> 'f list \<Rightarrow> 'f \<Rightarrow> 'f list \<Rightarrow> 'f \<Rightarrow> 'f \<times> 'f list" where
  "conv_step act rnd wt b w x = (act (conv_dot wt b (w @ [x])), map rnd (tl (w @ [x])))"

primrec conv_run :: "('f::{plus,times} \<Rightarrow> 'f) \<Rightarrow> ('f \<Rightarrow> 'f) \<Rightarrow> 'f list \<Rightarrow> 'f \<Rightarrow> 'f list \<Rightarrow> 'f list \<Rightarrow> 'f list \<times> 'f list" where
  "conv_run act rnd wt b [] w = ([], w)"
| "conv_run act rnd wt b (x # xs) w =
     (let (y, w) = conv_step act rnd wt b w x; (ys, w) = conv_run act rnd wt b xs w in (y # ys, w))"

section \<open>The kernels\<close>

definition kMaxTaps :: nat where "kMaxTaps = 8"
definition kLocal :: nat where "kLocal = 256"

definition conv1d_silu :: "('f \<Rightarrow> 'f) \<Rightarrow> 'f::{plus,uminus,inverse,one} \<Rightarrow> 'f" where
  "conv1d_silu ex x = x / (1 + ex (- x))"

definition conv_act :: "('f \<Rightarrow> 'f) \<Rightarrow> bool \<Rightarrow> 'f::{plus,uminus,inverse,one} \<Rightarrow> 'f" where
  "conv_act ex silu acc = (if silu then conv1d_silu ex acc else acc)"

definition null_slot :: "int \<Rightarrow> nat \<Rightarrow> bool" where
  "null_slot slot nslots \<longleftrightarrow> slot < 0 \<or> usize slot \<ge> nslots"

definition conv_bias :: "('t \<Rightarrow> 'f::zero) \<Rightarrow> 't list option \<Rightarrow> nat \<Rightarrow> 'f option" where
  "conv_bias ld bias c = (case bias of None \<Rightarrow> Some 0 | Some bs \<Rightarrow> do { v \<leftarrow> rd bs c; Some (ld v) })"

definition saddr :: "int \<times> int \<times> int \<Rightarrow> int \<Rightarrow> nat \<Rightarrow> int \<Rightarrow> int" where
  "saddr cs slot c k = (case cs of (cs0, cs1, cs2) \<Rightarrow> slot * cs0 + int c * cs1 + k * cs2)"

definition conv_decode_item :: "('f \<Rightarrow> 'f) \<Rightarrow> ('t \<Rightarrow> 'f::{plus,times,uminus,inverse,zero,one}) \<Rightarrow> ('f \<Rightarrow> 't) \<Rightarrow> ('s \<Rightarrow> 'f) \<Rightarrow> ('f \<Rightarrow> 's) \<Rightarrow>
    't list \<Rightarrow> 't list \<Rightarrow> 't list option \<Rightarrow> int list \<Rightarrow> bool \<Rightarrow> nat \<Rightarrow> nat \<Rightarrow> nat \<Rightarrow> nat \<Rightarrow> nat \<Rightarrow> int \<times> int \<times> int \<Rightarrow>
    nat \<Rightarrow> 's list \<times> 't list \<Rightarrow> ('s list \<times> 't list) option" where
  "conv_decode_item ex ld st lds sts x weight bias indices silu batch n_dim state_len taps nslots cs gid s =
     (if gid \<ge> batch * n_dim then Some s else do {
       let (state, out) = s;
       let b = gid div n_dim;
       let c = gid - b * n_dim;
       slot \<leftarrow> rd indices b;
       if null_slot slot nslots then do { out \<leftarrow> wr out (b * n_dim + c) (st 0); Some (state, out) }
       else do {
         window \<leftarrow> foldM (\<lambda>k window. do { v \<leftarrow> rdi state (saddr cs slot c (int k)); wr window k (lds v) }) [0..<state_len] (replicate kMaxTaps 0);
         xv \<leftarrow> rd x (b * n_dim + c);
         window \<leftarrow> wr window state_len (ld xv);
         acc \<leftarrow> conv_bias ld bias c;
         acc \<leftarrow> foldM (\<lambda>k acc. do { wk \<leftarrow> rd window k; wt \<leftarrow> rd weight (c * taps + k); Some (acc + wk * ld wt) }) [0..<taps] acc;
         out \<leftarrow> wr out (b * n_dim + c) (st (conv_act ex silu acc));
         state \<leftarrow> foldM (\<lambda>k state. do { v \<leftarrow> rd window (k + 1); wri state (saddr cs slot c (int k)) (sts v) }) [0..<state_len] state;
         Some (state, out) } })"

definition causal_conv1d_decode :: "('f \<Rightarrow> 'f) \<Rightarrow> ('t \<Rightarrow> 'f::{plus,times,uminus,inverse,zero,one}) \<Rightarrow> ('f \<Rightarrow> 't) \<Rightarrow> ('s \<Rightarrow> 'f) \<Rightarrow> ('f \<Rightarrow> 's) \<Rightarrow>
    't list \<Rightarrow> 't list \<Rightarrow> 't list option \<Rightarrow> int list \<Rightarrow> bool \<Rightarrow> nat \<Rightarrow> nat \<Rightarrow> nat \<Rightarrow> nat \<Rightarrow> nat \<Rightarrow> int \<times> int \<times> int \<Rightarrow>
    nat list \<Rightarrow> 's list \<times> 't list \<Rightarrow> ('s list \<times> 't list) option" where
  "causal_conv1d_decode ex ld st lds sts x weight bias indices silu batch n_dim state_len taps nslots cs sched s =
     (if taps > kMaxTaps \<or> taps \<noteq> state_len + 1 then Some s
      else foldM (conv_decode_item ex ld st lds sts x weight bias indices silu batch n_dim state_len taps nslots cs) sched s)"

definition causal_conv1d_decode_sycl :: "(f32 \<Rightarrow> f32) \<Rightarrow> DType \<Rightarrow> DType \<Rightarrow>
    32 word list \<Rightarrow> 32 word list \<Rightarrow> 32 word list option \<Rightarrow> int list \<Rightarrow> bool \<Rightarrow> nat \<Rightarrow> nat \<Rightarrow> nat \<Rightarrow> nat \<Rightarrow> nat \<Rightarrow> int \<times> int \<times> int \<Rightarrow>
    nat list \<Rightarrow> 32 word list \<times> 32 word list \<Rightarrow> (32 word list \<times> 32 word list) option" where
  "causal_conv1d_decode_sycl ex act_dt state_dt =
     causal_conv1d_decode ex (elem_ld act_dt) (elem_st act_dt) (elem_ld state_dt) (elem_st state_dt)"

fun cp_find_seq :: "int list \<Rightarrow> nat \<Rightarrow> nat \<Rightarrow> nat list \<Rightarrow> nat option" where
  "cp_find_seq qsl batch tok [] = Some (batch - 1)"
| "cp_find_seq qsl batch tok (s # ss) = do {
     e \<leftarrow> rd qsl (s + 1);
     if tok < usize e then Some s else cp_find_seq qsl batch tok ss }"

definition use_init :: "bool list option \<Rightarrow> nat \<Rightarrow> bool option" where
  "use_init has_init s = (case has_init of None \<Rightarrow> Some False | Some h \<Rightarrow> rd h s)"

text \<open>Sample \<open>src\<close> of a sequence: a token, or before its start the window of the slot or zero.\<close>

definition conv_sample :: "('t \<Rightarrow> 'f::zero) \<Rightarrow> ('s \<Rightarrow> 'f) \<Rightarrow> 't list \<Rightarrow> 's list \<Rightarrow> bool \<Rightarrow> nat \<Rightarrow> int \<times> int \<Rightarrow> int \<times> int \<times> int \<Rightarrow> int \<Rightarrow> nat \<Rightarrow> nat \<Rightarrow> int \<Rightarrow> 'f option" where
  "conv_sample ld lds x state init state_len xs cs slot c bos src =
     (if src \<ge> 0 then do { v \<leftarrow> rdi x (int c * fst xs + (int bos + src) * snd xs); Some (ld v) }
      else if init then do { v \<leftarrow> rdi state (saddr cs slot c (int state_len + src)); Some (lds v) }
      else Some 0)"

text \<open>\<open>tok - bos\<close> is a difference in \<open>size_t\<close>; the sequence found starts at or before its token when the offsets are packed, so it never wraps
  (the \<open>nat\<close> difference is the same).\<close>

definition conv_out_item :: "('f \<Rightarrow> 'f) \<Rightarrow> ('t \<Rightarrow> 'f::{plus,times,uminus,inverse,zero,one}) \<Rightarrow> ('f \<Rightarrow> 't) \<Rightarrow> ('s \<Rightarrow> 'f) \<Rightarrow>
    's list \<Rightarrow> 't list \<Rightarrow> 't list \<Rightarrow> 't list option \<Rightarrow> int list \<Rightarrow> int list \<Rightarrow> bool list option \<Rightarrow> bool \<Rightarrow> nat \<Rightarrow> nat \<Rightarrow> nat \<Rightarrow> nat \<Rightarrow> nat \<Rightarrow> nat \<Rightarrow>
    int \<times> int \<Rightarrow> int \<times> int \<Rightarrow> int \<times> int \<times> int \<Rightarrow> nat \<Rightarrow> 't list \<Rightarrow> 't list option" where
  "conv_out_item ex ld st lds state x weight bias qsl indices has_init silu total_tokens batch n_dim state_len taps nslots xs os cs gid out =
     (if gid \<ge> total_tokens * n_dim then Some out else do {
       let tok = gid div n_dim;
       let c = gid - tok * n_dim;
       s \<leftarrow> cp_find_seq qsl batch tok [0..<batch];
       q \<leftarrow> rd qsl s;
       let bos = usize q;
       let t = tok - bos;
       slot \<leftarrow> rd indices s;
       if null_slot slot nslots then wri out (int c * fst os + int tok * snd os) (st 0)
       else do {
         init \<leftarrow> use_init has_init s;
         acc \<leftarrow> conv_bias ld bias c;
         acc \<leftarrow> foldM (\<lambda>k acc. do {
           val \<leftarrow> conv_sample ld lds x state init state_len xs cs slot c bos (int t - int (taps - 1) + int k);
           wt \<leftarrow> rd weight (c * taps + k);
           Some (acc + val * ld wt) }) [0..<taps] acc;
         wri out (int c * fst os + int tok * snd os) (st (conv_act ex silu acc)) } })"

definition conv_state_item :: "('t \<Rightarrow> 'f::zero) \<Rightarrow> ('s \<Rightarrow> 'f) \<Rightarrow> ('f \<Rightarrow> 's) \<Rightarrow> 't list \<Rightarrow> int list \<Rightarrow> int list \<Rightarrow> bool list option \<Rightarrow>
    nat \<Rightarrow> nat \<Rightarrow> nat \<Rightarrow> nat \<Rightarrow> int \<times> int \<Rightarrow> int \<times> int \<times> int \<Rightarrow> nat \<Rightarrow> 's list \<Rightarrow> 's list option" where
  "conv_state_item ld lds sts x qsl indices has_init batch n_dim state_len nslots xs cs gid state =
     (if gid \<ge> batch * n_dim then Some state else do {
       let s = gid div n_dim;
       let c = gid - s * n_dim;
       slot \<leftarrow> rd indices s;
       if null_slot slot nslots then Some state
       else do {
         q \<leftarrow> rd qsl s;
         q' \<leftarrow> rd qsl (s + 1);
         let bos = usize q;
         let eos = usize q';
         if eos \<le> bos then Some state
         else do {
           let seqlen = eos - bos;
           init \<leftarrow> use_init has_init s;
           win \<leftarrow> foldM (\<lambda>m win. do {
             v \<leftarrow> conv_sample ld lds x state init state_len xs cs slot c bos (int seqlen - int state_len + int m);
             wr win m v }) [0..<state_len] (replicate kMaxTaps 0);
           foldM (\<lambda>m state. do { v \<leftarrow> rd win m; wri state (saddr cs slot c (int m)) (sts v) }) [0..<state_len] state } } })"

definition causal_conv1d_prefill :: "('f \<Rightarrow> 'f) \<Rightarrow> ('t \<Rightarrow> 'f::{plus,times,uminus,inverse,zero,one}) \<Rightarrow> ('f \<Rightarrow> 't) \<Rightarrow> ('s \<Rightarrow> 'f) \<Rightarrow> ('f \<Rightarrow> 's) \<Rightarrow>
    't list \<Rightarrow> 't list \<Rightarrow> 't list option \<Rightarrow> int list \<Rightarrow> int list \<Rightarrow> bool list option \<Rightarrow> bool \<Rightarrow> nat \<Rightarrow> nat \<Rightarrow> nat \<Rightarrow> nat \<Rightarrow> nat \<Rightarrow> nat \<Rightarrow>
    int \<times> int \<Rightarrow> int \<times> int \<Rightarrow> int \<times> int \<times> int \<Rightarrow> nat list \<Rightarrow> nat list \<Rightarrow> 's list \<times> 't list \<Rightarrow> ('s list \<times> 't list) option" where
  "causal_conv1d_prefill ex ld st lds sts x weight bias qsl indices has_init silu total_tokens batch n_dim state_len taps nslots xs os cs sched_a sched_b s =
     (if taps > kMaxTaps \<or> taps \<noteq> state_len + 1 then Some s
      else do {
        out \<leftarrow> foldM (conv_out_item ex ld st lds (fst s) x weight bias qsl indices has_init silu total_tokens batch n_dim state_len taps nslots xs os cs) sched_a (snd s);
        state \<leftarrow> foldM (conv_state_item ld lds sts x qsl indices has_init batch n_dim state_len nslots xs cs) sched_b (fst s);
        Some (state, out) })"

definition causal_conv1d_prefill_sycl :: "(f32 \<Rightarrow> f32) \<Rightarrow> DType \<Rightarrow> DType \<Rightarrow>
    32 word list \<Rightarrow> 32 word list \<Rightarrow> 32 word list option \<Rightarrow> int list \<Rightarrow> int list \<Rightarrow> bool list option \<Rightarrow> bool \<Rightarrow> nat \<Rightarrow> nat \<Rightarrow> nat \<Rightarrow> nat \<Rightarrow> nat \<Rightarrow> nat \<Rightarrow>
    int \<times> int \<Rightarrow> int \<times> int \<Rightarrow> int \<times> int \<times> int \<Rightarrow> nat list \<Rightarrow> nat list \<Rightarrow> 32 word list \<times> 32 word list \<Rightarrow> (32 word list \<times> 32 word list) option" where
  "causal_conv1d_prefill_sycl ex act_dt state_dt =
     causal_conv1d_prefill ex (elem_ld act_dt) (elem_st act_dt) (elem_ld state_dt) (elem_st state_dt)"

section \<open>Windows in the cache\<close>

text \<open>The strides address \<open>nslots * n_dim * n\<close> different cells of the cache.\<close>

definition layout3 :: "int \<times> int \<times> int \<Rightarrow> nat \<Rightarrow> nat \<Rightarrow> nat \<Rightarrow> nat \<Rightarrow> bool" where
  "layout3 cs nslots n_dim n len \<longleftrightarrow>
     (\<forall>s<nslots. \<forall>c<n_dim. \<forall>k<n. 0 \<le> saddr cs (int s) c (int k) \<and> saddr cs (int s) c (int k) < int len) \<and>
     inj_on (\<lambda>(s, c, k). saddr cs (int s) c (int k)) ({..<nslots} \<times> {..<n_dim} \<times> {..<n})"

definition wcell :: "int \<times> int \<times> int \<Rightarrow> int \<Rightarrow> nat \<Rightarrow> nat \<Rightarrow> nat" where
  "wcell cs slot c k = nat (saddr cs slot c (int k))"

definition window_of :: "('s \<Rightarrow> 'f) \<Rightarrow> int \<times> int \<times> int \<Rightarrow> nat \<Rightarrow> 's list \<Rightarrow> int \<Rightarrow> nat \<Rightarrow> 'f list" where
  "window_of lds cs n state slot c = map (\<lambda>k. lds (state ! wcell cs slot c k)) [0..<n]"

definition i32_slots :: "int list \<Rightarrow> bool" where
  "i32_slots indices \<longleftrightarrow> (\<forall>i\<in>set indices. - (2 ^ 31) \<le> i \<and> i < 2 ^ 31)"

definition slots_distinct :: "int list \<Rightarrow> nat \<Rightarrow> bool" where
  "slots_distinct indices nslots \<longleftrightarrow>
     (\<forall>i<length indices. \<forall>j<length indices. i \<noteq> j \<longrightarrow> \<not> null_slot (indices ! i) nslots \<longrightarrow> indices ! i \<noteq> indices ! j)"

lemma slot_valid:
  assumes "i32_slots indices" "b < length indices" "\<not> null_slot (indices ! b) nslots"
  shows "0 \<le> indices ! b" "nat (indices ! b) < nslots" "indices ! b = int (nat (indices ! b))"
proof -
  have "- (2 ^ 31) \<le> indices ! b" "indices ! b < 2 ^ 31" using assms(1) nth_mem [OF assms(2)] unfolding i32_slots_def by blast+
  moreover show v: "0 \<le> indices ! b" using assms(3) by (simp add: null_slot_def)
  ultimately have "usize (indices ! b) = nat (indices ! b)" by (intro usize_nonneg) simp_all
  then show "nat (indices ! b) < nslots" using assms(3) by (simp add: null_slot_def)
  show "indices ! b = int (nat (indices ! b))" using v(1) by simp
qed

lemma layout3_range:
  assumes "layout3 cs nslots n_dim n len" "0 \<le> slot" "nat slot < nslots" "c < n_dim" "k < n"
  shows "0 \<le> saddr cs slot c (int k)" "wcell cs slot c k < len"
proof -
  have "0 \<le> saddr cs (int (nat slot)) c (int k) \<and> saddr cs (int (nat slot)) c (int k) < int len"
    using assms(1,3-5) unfolding layout3_def by blast
  then show "0 \<le> saddr cs slot c (int k)" "wcell cs slot c k < len" using assms(2) by (simp_all add: wcell_def nat_less_iff)
qed

lemma layout3_inj:
  assumes "layout3 cs nslots n_dim n len" "0 \<le> slot" "nat slot < nslots" "c < n_dim" "k < n"
    "0 \<le> slot'" "nat slot' < nslots" "c' < n_dim" "k' < n" "wcell cs slot c k = wcell cs slot' c' k'"
  shows "slot = slot' \<and> c = c' \<and> k = k'"
proof -
  have "saddr cs slot c (int k) = saddr cs slot' c' (int k')"
    using layout3_range(1) [OF assms(1-5)] layout3_range(1) [OF assms(1,6-9)] assms(10) by (simp add: wcell_def)
  then have "(nat slot, c, k) = (nat slot', c', k')"
    using assms(1) assms(2-9) unfolding layout3_def by (auto dest!: inj_onD [where x = "(nat slot, c, k)" and y = "(nat slot', c', k')"])
  then show ?thesis using assms(2,6) by auto
qed

lemma conv_dot_loop:
  assumes "\<And>k. k < n \<Longrightarrow> f k = Some (ws ! k)" "\<And>k. k < n \<Longrightarrow> rd weight (off + k) = Some (wt k)"
  shows "foldM (\<lambda>k acc. do { wk \<leftarrow> f k; w \<leftarrow> rd weight (off + k); Some (acc + wk * ld w) }) [0..<n] a = Some (conv_dot (map (\<lambda>k. ld (wt k)) [0..<n]) a ws)"
proof -
  have "foldM (\<lambda>k acc. do { wk \<leftarrow> f k; w \<leftarrow> rd weight (off + k); Some (acc + wk * ld w) }) [0..<n] a = Some (fold (\<lambda>k acc. acc + ws ! k * ld (wt k)) [0..<n] a)"
    by (rule foldM_pure') (use assms in auto)
  also have "fold (\<lambda>k acc. acc + ws ! k * ld (wt k)) [0..<n] a = conv_dot (map (\<lambda>k. ld (wt k)) [0..<n]) a ws"
    unfolding conv_dot_def by (rule fold_cong) auto
  finally show ?thesis .
qed

section \<open>One decode step\<close>

definition conv_weights :: "('t \<Rightarrow> 'f) \<Rightarrow> 't list \<Rightarrow> nat \<Rightarrow> nat \<Rightarrow> 'f list" where
  "conv_weights ld weight taps c = map (\<lambda>k. ld (weight ! (c * taps + k))) [0..<taps]"

definition bias_val :: "('t \<Rightarrow> 'f::zero) \<Rightarrow> 't list option \<Rightarrow> nat \<Rightarrow> 'f" where
  "bias_val ld bias c = (case bias of None \<Rightarrow> 0 | Some bs \<Rightarrow> ld (bs ! c))"

lemma conv_bias_Some: "c < n_dim \<Longrightarrow> (\<And>bs. bias = Some bs \<Longrightarrow> length bs = n_dim) \<Longrightarrow> conv_bias ld bias c = Some (bias_val ld bias c)"
  by (auto simp: conv_bias_def bias_val_def split: option.splits)

lemma row_add_less: "b < batch \<Longrightarrow> c < n \<Longrightarrow> b * n + c < batch * (n :: nat)"
  using src_row [of b batch n] by linarith

lemma conv_decode_item_valid:
  fixes state :: "'s list"
  assumes L: "taps = state_len + 1" "taps \<le> kMaxTaps" and b: "b < batch" "c < n_dim"
    and len: "length indices = batch" "length x = batch * n_dim" "length weight = n_dim * taps" "\<And>bs. bias = Some bs \<Longrightarrow> length bs = n_dim"
      "length out = batch * n_dim"
    and lay: "layout3 cs nslots n_dim state_len (length state)" and slot: "i32_slots indices" "\<not> null_slot (indices ! b) nslots"
  shows "\<exists>state'. conv_decode_item ex ld st lds sts x weight bias indices silu batch n_dim state_len taps nslots cs (b * n_dim + c) (state, out) =
      Some (state', out[b * n_dim + c := st (conv_act ex silu (conv_dot (conv_weights ld weight taps c) (bias_val ld bias c)
        (window_of lds cs state_len state (indices ! b) c @ [ld (x ! (b * n_dim + c))])))]) \<and>
    writes (wcell cs (indices ! b) c ` {..<state_len})
      (\<lambda>a. sts ((window_of lds cs state_len state (indices ! b) c @ [ld (x ! (b * n_dim + c))]) ! (the_inv_into {..<state_len} (wcell cs (indices ! b) c) a + 1))) state state'"
proof -
  let ?slot = "indices ! b" and ?g = "b * n_dim + c"
  let ?w = "window_of lds cs state_len state ?slot c" and ?x = "ld (x ! ?g)"
  note sv = slot_valid [OF slot(1) _ slot(2)] 
  have sv: "0 \<le> ?slot" "nat ?slot < nslots" using slot_valid [OF slot(1) _ slot(2)] b(1) len(1) by simp_all
  note R = layout3_range [OF lay sv b(2)]
  have g: "?g < batch * n_dim" by (rule row_add_less [OF b])
  have gd: "?g div n_dim = b" using b(2) by simp
  have ld1: "foldM (\<lambda>k window. do { v \<leftarrow> rdi state (saddr cs ?slot c (int k)); wr window k (lds v) }) [0..<state_len] (replicate kMaxTaps 0) =
      Some (?w @ replicate (kMaxTaps - state_len) 0)"
    unfolding window_of_def by (rule load_regs) (use L R in \<open>simp_all add: wcell_def\<close>)
  have lw: "length ?w = state_len" by (simp add: window_of_def)
  have wx: "wr (?w @ replicate (kMaxTaps - state_len) 0) state_len ?x = Some (?w @ ?x # replicate (kMaxTaps - taps) 0)"
    using L lw by (simp add: list_update_append Suc_diff_Suc [symmetric])
  let ?win = "?w @ ?x # replicate (kMaxTaps - taps) 0"
  have wk: "rd ?win k = Some ((?w @ [?x]) ! k)" if "k < taps" for k
    using that L lw by (auto simp: nth_append rd_def)
  have dot: "foldM (\<lambda>k acc. do { wk \<leftarrow> rd ?win k; wt \<leftarrow> rd weight (c * taps + k); Some (acc + wk * ld wt) }) [0..<taps] (bias_val ld bias c) =
      Some (conv_dot (conv_weights ld weight taps c) (bias_val ld bias c) (?w @ [?x]))"
    unfolding conv_weights_def by (rule conv_dot_loop [OF wk]) (use row_add_less [OF b(2)] len(3) in auto)
  have inj: "inj_on (wcell cs ?slot c) {..<state_len}"
    using layout3_inj [OF lay sv b(2) _ sv b(2)] by (auto intro: inj_onI)
  have "\<exists>state'. foldM (\<lambda>k state. do { v \<leftarrow> rd ?win (k + 1); wri state (saddr cs ?slot c (int k)) (sts v) }) [0..<state_len] state = Some state' \<and>
      writes (wcell cs ?slot c ` {..<state_len}) (\<lambda>a. sts ((?w @ [?x]) ! (the_inv_into {..<state_len} (wcell cs ?slot c) a + 1))) state state'"
  proof (rule store_cells [OF inj])
    fix k and m :: "'s list" assume k: "k < state_len" "length m = length state"
    have "rd ?win (k + 1) = Some ((?w @ [?x]) ! (k + 1))" by (rule wk) (use k L in simp)
    then show "do { v \<leftarrow> rd ?win (k + 1); wri m (saddr cs ?slot c (int k)) (sts v) } = Some (m[wcell cs ?slot c k := sts ((?w @ [?x]) ! (k + 1))])"
      using R [OF k(1)] k(2) by (simp add: wcell_def)
  qed (use R in auto)
  then obtain state' where state': "foldM (\<lambda>k state. do { v \<leftarrow> rd ?win (k + 1); wri state (saddr cs ?slot c (int k)) (sts v) }) [0..<state_len] state = Some state'"
      "writes (wcell cs ?slot c ` {..<state_len}) (\<lambda>a. sts ((?w @ [?x]) ! (the_inv_into {..<state_len} (wcell cs ?slot c) a + 1))) state state'" by blast
  have gg: "\<not> batch * n_dim \<le> ?g" using g by simp
  show ?thesis
    by (rule exI [of _ state'], rule conjI [OF _ state'(2)])
      (simp add: conv_decode_item_def Let_def gd gg g b slot(2) len ld1 wx conv_bias_Some [OF b(2) len(4)] dot [simplified] state'(1) [simplified])
qed

lemma conv_decode_item_null:
  assumes "b < batch" "c < n_dim" "length indices = batch" "length out = batch * n_dim" "null_slot (indices ! b) nslots"
  shows "conv_decode_item ex ld st lds sts x weight bias indices silu batch n_dim state_len taps nslots cs (b * n_dim + c) (state, out) =
      Some (state, out[b * n_dim + c := st 0])"
  using assms row_add_less [OF assms(1,2)] by (simp add: conv_decode_item_def Let_def)

lemma window_of_cong: "(\<And>k. k < n \<Longrightarrow> a ! wcell cs slot c k = a' ! wcell cs slot c k) \<Longrightarrow> window_of lds cs n a slot c = window_of lds cs n a' slot c"
  by (simp add: window_of_def)

definition slot_cells :: "int \<times> int \<times> int \<Rightarrow> nat \<Rightarrow> int list \<Rightarrow> nat \<Rightarrow> nat \<Rightarrow> nat \<Rightarrow> nat set" where
  "slot_cells cs n indices nslots n_dim gid =
     (if null_slot (indices ! (gid div n_dim)) nslots then {} else wcell cs (indices ! (gid div n_dim)) (gid mod n_dim) ` {..<n})"

lemma slot_cells_owns:
  assumes "layout3 cs nslots n_dim n len" "i32_slots indices" "slots_distinct indices nslots" "length indices = batch"
  shows "owns (batch * n_dim) (slot_cells cs n indices nslots n_dim)"
  unfolding owns_def
proof (intro allI impI, rule ccontr)
  fix i j assume ij: "i < batch * n_dim" "j < batch * n_dim" "i \<noteq> j"
    and ne: "slot_cells cs n indices nslots n_dim i \<inter> slot_cells cs n indices nslots n_dim j \<noteq> {}"
  let ?s = "indices ! (i div n_dim)" and ?s' = "indices ! (j div n_dim)"
  have d: "0 < n_dim" using ij(1) by (cases n_dim) auto
  then have c: "i mod n_dim < n_dim" "j mod n_dim < n_dim" by simp_all
  have b: "i div n_dim < length indices" "j div n_dim < length indices" using ij(1,2) assms(4) by (simp_all add: less_mult_imp_div_less)
  have nn: "\<not> null_slot ?s nslots" "\<not> null_slot ?s' nslots" using ne by (auto simp: slot_cells_def split: if_splits)
  obtain k k' where k: "k < n" "k' < n" "wcell cs ?s (i mod n_dim) k = wcell cs ?s' (j mod n_dim) k'"
    using ne nn by (auto simp: slot_cells_def)
  have e: "?s = ?s'" "i mod n_dim = j mod n_dim"
    using layout3_inj [OF assms(1) slot_valid(1,2) [OF assms(2) b(1) nn(1)] c(1) k(1) slot_valid(1,2) [OF assms(2) b(2) nn(2)] c(2) k(2,3)] by simp_all
  have "i div n_dim = j div n_dim" using assms(3) b nn(1) e(1) unfolding slots_distinct_def by blast
  then show False using e(2) ij(3) by (metis div_mult_mod_eq)
qed

lemma rounded_up: "n \<le> cdiv n kLocal * kLocal"
  by (rule cdiv_upper) (simp add: kLocal_def)

lemma window_shift:
  assumes "length w = n" "\<And>k. k < n \<Longrightarrow> v k = sts ((w @ [x]) ! (k + 1))"
  shows "map (\<lambda>k. lds (v k)) [0..<n] = map (lds \<circ> sts) (tl (w @ [x]))"
proof (rule nth_equalityI)
  fix k assume "k < length (map (\<lambda>k. lds (v k)) [0..<n])"
  then have k: "k < n" by simp
  have "tl (w @ [x]) ! k = (w @ [x]) ! Suc k" by (rule nth_tl) (use k assms(1) in simp)
  then show "map (\<lambda>k. lds (v k)) [0..<n] ! k = map (lds \<circ> sts) (tl (w @ [x])) ! k" using assms k by simp
qed (use assms in simp)

text \<open>The decode kernel implements one step of the abstract machine for every row and channel, bit for bit
  and under every order of the work-items: the output is the activation of the window and the new
  sample against the weights, the window in the cache is shifted by one with the sample appended (both as the
  state type rounds them), rows with a null slot give zero, and no other cell of the cache changes.\<close>

theorem conv1d_decode_refines:
  fixes state :: "'s list" and out :: "'t list"
  assumes "taps = state_len + 1" "taps \<le> kMaxTaps" "schedule (cdiv (batch * n_dim) kLocal * kLocal) sched"
    and "length indices = batch" "length x = batch * n_dim" "length weight = n_dim * taps" "\<And>bs. bias = Some bs \<Longrightarrow> length bs = n_dim"
    and "length out = batch * n_dim" "layout3 cs nslots n_dim state_len (length state)" "i32_slots indices" "slots_distinct indices nslots"
  shows "\<exists>state' out'. causal_conv1d_decode ex ld st lds sts x weight bias indices silu batch n_dim state_len taps nslots cs sched (state, out) = Some (state', out') \<and>
    (\<forall>b<batch. \<forall>c<n_dim. if null_slot (indices ! b) nslots then out' ! (b * n_dim + c) = st 0
      else let r = conv_step (conv_act ex silu) (lds \<circ> sts) (conv_weights ld weight taps c) (bias_val ld bias c)
          (window_of lds cs state_len state (indices ! b) c) (ld (x ! (b * n_dim + c)))
        in out' ! (b * n_dim + c) = st (fst r) \<and> window_of lds cs state_len state' (indices ! b) c = snd r) \<and>
    (\<forall>a<length state. (\<forall>gid<batch * n_dim. a \<notin> slot_cells cs state_len indices nslots n_dim gid) \<longrightarrow> state' ! a = state ! a)"
proof -
  let ?n = "batch * n_dim" and ?N = "cdiv (batch * n_dim) kLocal * kLocal"
  let ?C = "\<lambda>i. if i < ?n then slot_cells cs state_len indices nslots n_dim i else {}" and ?E = "\<lambda>i. if i < ?n then {i} else {}"
  let ?slot = "\<lambda>i. indices ! (i div n_dim)"
  let ?w = "\<lambda>i. window_of lds cs state_len state (?slot i) (i mod n_dim) @ [ld (x ! i)]"
  let ?u = "\<lambda>i a. sts (?w i ! (the_inv_into {..<state_len} (wcell cs (?slot i) (i mod n_dim)) a + 1))"
  let ?v = "\<lambda>i a. if null_slot (?slot i) nslots then st 0
    else st (conv_act ex silu (conv_dot (conv_weights ld weight taps (i mod n_dim)) (bias_val ld bias (i mod n_dim)) (?w i)))"
  let ?f = "conv_decode_item ex ld st lds sts x weight bias indices silu batch n_dim state_len taps nslots cs"
  have "\<exists>state' out'. foldM ?f sched (state, out) = Some (state', out') \<and> rows_done ?C ?u state {..<?N} state' \<and> rows_done ?E ?v out {..<?N} out'"
  proof (rule launch_rows2 [OF assms(3)])
    show "owns ?N ?C" by (rule cells_guard_owns [OF slot_cells_owns [OF assms(9-11,4)]])
    show "owns ?N ?E" by (rule cells_guard_owns) (simp add: owns_def)
    fix i and a :: "'s list" and b :: "'t list"
    assume i: "i < ?N" and l: "length a = length state" "length b = length out" and eq: "\<And>c. c \<in> ?C i \<Longrightarrow> c < length state \<Longrightarrow> a ! c = state ! c"
    show "\<exists>a' b'. ?f i (a, b) = Some (a', b') \<and> writes (?C i) (?u i) a a' \<and> writes (?E i) (?v i) b b'"
    proof (cases "i < ?n")
      case False
      then show ?thesis by (simp add: conv_decode_item_def)
    next
      case True
      define r c where "r = i div n_dim" and "c = i mod n_dim"
      have rc: "i = r * n_dim + c" by (simp add: r_def c_def)
      have "0 < n_dim" using True by (cases n_dim) auto
      then have r: "r < batch" "c < n_dim" using True by (simp_all add: r_def c_def less_mult_imp_div_less)
      have ilen: "i < length b" using True l(2) assms(8) by simp
      show ?thesis
      proof (cases "null_slot (?slot i) nslots")
        case nul: True
        have "?f i (a, b) = Some (a, b[i := st 0])"
          unfolding rc by (rule conv_decode_item_null [OF r assms(4)]) (use l assms(8) nul in \<open>simp_all add: r_def\<close>)
        moreover have "writes (?E i) (?v i) b (b[i := st 0])" using True nul ilen by (auto simp: writes_def nth_list_update)
        ultimately show ?thesis using nul by (simp add: slot_cells_def)
      next
        case valid: False
        have sv: "0 \<le> ?slot i" "nat (?slot i) < nslots" using slot_valid(1,2) [OF assms(10) _ valid] r(1) assms(4) by (simp_all add: r_def)
        have "a ! wcell cs (?slot i) c k = state ! wcell cs (?slot i) c k" if "k < state_len" for k
          using eq [of "wcell cs (?slot i) c k"] layout3_range(2) [OF assms(9) sv r(2) that] True valid that by (simp add: slot_cells_def c_def)
        then have w: "window_of lds cs state_len a (?slot i) c = window_of lds cs state_len state (?slot i) c" by (rule window_of_cong)
        have "layout3 cs nslots n_dim state_len (length a)" using assms(9) l(1) by simp
        from conv_decode_item_valid [OF assms(1,2) r assms(4-7) _ this assms(10), where out = b and ex = ex and st = st and lds = lds and sts = sts and silu = silu and ld = ld]
        obtain a' where a': "?f i (a, b) = Some (a', b[i := ?v i i])" "writes (wcell cs (?slot i) c ` {..<state_len}) (?u i) a a'"
          using valid l(2) assms(8) w unfolding rc [symmetric] by (auto simp: r_def [symmetric] c_def [symmetric])
        moreover have "writes (?E i) (?v i) b (b[i := ?v i i])" using True ilen by (auto simp: writes_def nth_list_update)
        ultimately show ?thesis using True valid by (simp add: slot_cells_def c_def)
      qed
    qed
  qed
  then obtain state' out' where R: "foldM ?f sched (state, out) = Some (state', out')" "rows_done ?C ?u state {..<?N} state'" "rows_done ?E ?v out {..<?N} out'" by blast
  have cell: "if null_slot (indices ! b) nslots then out' ! (b * n_dim + c) = st 0
      else let r = conv_step (conv_act ex silu) (lds \<circ> sts) (conv_weights ld weight taps c) (bias_val ld bias c)
          (window_of lds cs state_len state (indices ! b) c) (ld (x ! (b * n_dim + c)))
        in out' ! (b * n_dim + c) = st (fst r) \<and> window_of lds cs state_len state' (indices ! b) c = snd r" if b: "b < batch" "c < n_dim" for b c
  proof -
    let ?i = "b * n_dim + c"
    have i: "?i < ?n" "?i < ?N" "?i div n_dim = b" "?i mod n_dim = c" using row_add_less [OF b] rounded_up [of ?n] b(2) by simp_all
    have o: "out' ! ?i = ?v ?i ?i" by (rule rows_done_cell [OF R(3) i(2)]) (use i(1) assms(8) in simp_all)
    show ?thesis
    proof (cases "null_slot (indices ! b) nslots")
      case False
      have sv: "0 \<le> indices ! b" "nat (indices ! b) < nslots" using slot_valid(1,2) [OF assms(10) _ False] b(1) assms(4) by simp_all
      have inj: "inj_on (wcell cs (indices ! b) c) {..<state_len}" using layout3_inj [OF assms(9) sv b(2) _ sv b(2)] by (auto intro: inj_onI)
      have "state' ! wcell cs (indices ! b) c k = sts (?w ?i ! (k + 1))" if k: "k < state_len" for k
      proof -
        have "state' ! wcell cs (indices ! b) c k = ?u ?i (wcell cs (indices ! b) c k)"
          by (rule rows_done_cell [OF R(2) i(2)]) (use i False k layout3_range(2) [OF assms(9) sv b(2) k] in \<open>simp_all add: slot_cells_def\<close>)
        then show ?thesis using i k inj by (simp add: the_inv_into_f_f)
      qed
      then have "window_of lds cs state_len state' (indices ! b) c = map (lds \<circ> sts) (tl (window_of lds cs state_len state (indices ! b) c @ [ld (x ! ?i)]))"
        unfolding window_of_def [of _ _ _ state'] by (intro window_shift) (use i(3,4) in \<open>simp_all add: window_of_def\<close>)
      then show ?thesis using o False i(3,4) by (simp add: conv_step_def Let_def)
    qed (use o i in simp)
  qed
  have "state' ! a = state ! a" if "a < length state" "\<forall>gid<?n. a \<notin> slot_cells cs state_len indices nslots n_dim gid" for a
    by (rule rows_done_frame [OF R(2) that(1)]) (use that(2) in auto)
  moreover have "causal_conv1d_decode ex ld st lds sts x weight bias indices silu batch n_dim state_len taps nslots cs sched (state, out) = Some (state', out')"
    using R(1) assms(1,2) by (simp add: causal_conv1d_decode_def)
  ultimately show ?thesis using cell by blast
qed

section \<open>Packed sequences\<close>

lemma conv_dot_cong: "(\<And>k. k < length wt \<Longrightarrow> ws ! k = ws' ! k) \<Longrightarrow> conv_dot wt b ws = conv_dot wt b ws'"
  unfolding conv_dot_def by (rule fold_cong) auto

lemma conv_run_window:
  assumes "length wt = Suc (length w)" "\<And>v. v \<in> set (w @ xs) \<Longrightarrow> rnd v = v"
  shows "conv_run act rnd wt b xs w = (map (\<lambda>t. act (conv_dot wt b (drop t (w @ xs)))) [0..<length xs], drop (length xs) (w @ xs))"
  using assms
proof (induction xs arbitrary: w)
  case (Cons x xs)
  let ?w = "tl (w @ [x])"
  have r: "map rnd (tl (w @ [x])) = ?w" using Cons.prems(2) by (cases w) (auto simp: map_idI)
  define e where "e = w @ x # xs"
  have tl: "?w @ xs = drop 1 e" by (cases w) (auto simp: e_def)
  have IH: "conv_run act rnd wt b xs ?w = (map (\<lambda>t. act (conv_dot wt b (drop t (?w @ xs)))) [0..<length xs], drop (length xs) (?w @ xs))"
    by (rule Cons.IH) (use Cons.prems in \<open>cases w; auto\<close>)+
  have h: "conv_dot wt b (w @ [x]) = conv_dot wt b (drop 0 e)"
    by (rule conv_dot_cong) (use Cons.prems(1) in \<open>auto simp: nth_append e_def\<close>)
  have m: "map (\<lambda>t. act (conv_dot wt b (drop t e))) [0..<length (x # xs)] =
      act (conv_dot wt b (drop 0 e)) # map (\<lambda>t. act (conv_dot wt b (drop t (drop 1 e)))) [0..<length xs]"
    unfolding length_Cons map_upt_Suc by (simp add: comp_def)
  show ?case unfolding conv_run.simps conv_step_def r Let_def IH h tl prod.case e_def [symmetric] m by simp
qed simp

lemma cp_find_seq_owner:
  assumes "packed qsl batch ntok" "s < batch" "nat (qsl ! s) \<le> tok" "tok < nat (qsl ! (s + 1))" "j \<le> s"
  shows "cp_find_seq qsl batch tok [j..<batch] = Some s"
  using assms(5)
proof (induction rule: inc_induct)
  case base
  then show ?case using assms(2,4) packed_rd [OF assms(1), of "s + 1"] by (simp add: upt_conv_Cons)
next
  case (step j)
  have "qsl ! (j + 1) \<le> qsl ! s" by (rule packed_mono [OF assms(1)]) (use step assms(2) in auto)
  then have "\<not> tok < nat (qsl ! (j + 1))" using assms(3) by linarith
  then show ?case using step assms(2) packed_rd [OF assms(1), of "j + 1"] by (simp add: upt_conv_Cons)
qed

lemma packed_owner:
  assumes "packed qsl batch ntok" "tok < ntok"
  obtains s t where "s < batch" "t < seq_len qsl s" "tok = bos_of qsl s + t" "cp_find_seq qsl batch tok [0..<batch] = Some s"
proof -
  obtain s t where s: "s < batch" "t < seq_len qsl s" "tok = bos_of qsl s + t" by (rule packed_token [OF assms])
  have "cp_find_seq qsl batch tok [0..<batch] = Some s"
    by (rule cp_find_seq_owner [OF assms(1) s(1)]) (use s in \<open>auto simp: seq_len_def bos_of_def\<close>)
  then show ?thesis using that s by blast
qed

lemma owner_token:
  assumes "packed qsl batch ntok" "s < batch" "t < seq_len qsl s"
  shows "bos_of qsl s + t < ntok" "cp_find_seq qsl batch (bos_of qsl s + t) [0..<batch] = Some s"
proof -
  have "qsl ! (s + 1) \<le> int ntok" using packed_bounds [OF assms(1), of "s + 1"] assms(2) by simp
  then show "bos_of qsl s + t < ntok" using assms(3) unfolding bos_of_def seq_len_def by linarith
  show "cp_find_seq qsl batch (bos_of qsl s + t) [0..<batch] = Some s"
    by (rule cp_find_seq_owner [OF assms(1,2)]) (use assms(3) in \<open>simp_all add: bos_of_def seq_len_def\<close>)
qed

section \<open>Prefill\<close>

definition seq_samples :: "('t \<Rightarrow> 'f) \<Rightarrow> 't list \<Rightarrow> int \<times> int \<Rightarrow> int list \<Rightarrow> nat \<Rightarrow> nat \<Rightarrow> 'f list" where
  "seq_samples ld x xs qsl s c = map (\<lambda>t. ld (x ! nat (int c * fst xs + int (bos_of qsl s + t) * snd xs))) [0..< seq_len qsl s]"

definition start_window :: "('s \<Rightarrow> 'f::zero) \<Rightarrow> int \<times> int \<times> int \<Rightarrow> nat \<Rightarrow> 's list \<Rightarrow> bool list option \<Rightarrow> int list \<Rightarrow> nat \<Rightarrow> nat \<Rightarrow> 'f list" where
  "start_window lds cs n state has_init indices s c =
     (if has_init \<noteq> None \<and> the has_init ! s then window_of lds cs n state (indices ! s) c else replicate n 0)"

definition in_range2 :: "int \<times> int \<Rightarrow> nat \<Rightarrow> nat \<Rightarrow> nat \<Rightarrow> bool" where
  "in_range2 xs n_dim ntok len \<longleftrightarrow> (\<forall>c<n_dim. \<forall>t<ntok. 0 \<le> int c * fst xs + int t * snd xs \<and> int c * fst xs + int t * snd xs < int len)"

lemma in_range2D: "in_range2 xs n_dim ntok len \<Longrightarrow> c < n_dim \<Longrightarrow> t < ntok \<Longrightarrow>
    0 \<le> int c * fst xs + int t * snd xs \<and> nat (int c * fst xs + int t * snd xs) < len"
  by (auto simp: in_range2_def nat_less_iff)

lemma conv_sample_nth:
  assumes "packed qsl batch ntok" "s < batch" "c < n_dim" "in_range2 xs n_dim ntok (length x)"
    "layout3 cs nslots n_dim n (length state)" "0 \<le> indices ! s" "nat (indices ! s) < nslots"
    and j: "j < n + seq_len qsl s" and init: "init = (has_init \<noteq> None \<and> the has_init ! s)"
  shows "conv_sample ld lds x state init n xs cs (indices ! s) c (bos_of qsl s) (int j - int n) =
    Some ((start_window lds cs n state has_init indices s c @ seq_samples ld x xs qsl s c) ! j)"
proof -
  have l: "length (start_window lds cs n state has_init indices s c) = n" by (simp add: start_window_def window_of_def)
  show ?thesis
  proof (cases "j < n")
    case True
    have R: "0 \<le> saddr cs (indices ! s) c (int j)" "wcell cs (indices ! s) c j < length state"
      using layout3_range [OF assms(5-7,3) True] by simp_all
    have "int n + (int j - int n) = int j" by simp
    then show ?thesis using True l R init by (simp add: conv_sample_def nth_append start_window_def window_of_def wcell_def)
  next
    case False
    define t where "t = j - n"
    have t: "t < seq_len qsl s" "int j - int n = int t" using False j by (simp_all add: t_def of_nat_diff)
    have a: "0 \<le> int c * fst xs + int (bos_of qsl s + t) * snd xs" "nat (int c * fst xs + int (bos_of qsl s + t) * snd xs) < length x"
      using in_range2D [OF assms(4,3) owner_token(1) [OF assms(1,2) t(1)]] by simp_all
    show ?thesis using False l a t unfolding t(2) by (simp add: conv_sample_def nth_append seq_samples_def t_def [symmetric])
  qed
qed

lemma use_init_Some: "(\<And>h. has_init = Some h \<Longrightarrow> length h = batch) \<Longrightarrow> s < batch \<Longrightarrow> use_init has_init s = Some (has_init \<noteq> None \<and> the has_init ! s)"
  by (auto simp: use_init_def split: option.splits)

text \<open>The address of an output, and what the kernel stores there.\<close>

definition oaddr :: "int \<times> int \<Rightarrow> nat \<Rightarrow> nat \<Rightarrow> int" where
  "oaddr os c tok = int c * fst os + int tok * snd os"

lemma conv_out_item_owner:
  assumes L: "taps = n + 1" and q: "packed qsl batch ntok" "s < batch" "t < seq_len qsl s" and c: "c < n_dim"
    and x: "in_range2 xs n_dim ntok (length x)" and lay: "layout3 cs nslots n_dim n (length state)"
    and len: "length indices = batch" "length weight = n_dim * taps" "\<And>bs. bias = Some bs \<Longrightarrow> length bs = n_dim" "\<And>h. has_init = Some h \<Longrightarrow> length h = batch"
    and i32: "i32_slots indices"
  shows "conv_out_item ex ld st lds state x weight bias qsl indices has_init silu ntok batch n_dim n taps nslots xs os cs ((bos_of qsl s + t) * n_dim + c) out =
    wri out (oaddr os c (bos_of qsl s + t)) (if null_slot (indices ! s) nslots then st 0
      else st (conv_act ex silu (conv_dot (conv_weights ld weight taps c) (bias_val ld bias c)
        (drop t (start_window lds cs n state has_init indices s c @ seq_samples ld x xs qsl s c)))))"
proof -
  let ?tok = "bos_of qsl s + t" and ?eff = "start_window lds cs n state has_init indices s c @ seq_samples ld x xs qsl s c"
  let ?i = "has_init \<noteq> None \<and> the has_init ! s"
  have tok: "?tok < ntok" "cp_find_seq qsl batch ?tok [0..<batch] = Some s" by (rule owner_token [OF q])+
  have g: "\<not> ntok * n_dim \<le> ?tok * n_dim + c" using row_add_less [OF tok(1) c] by simp
  have gd: "(?tok * n_dim + c) div n_dim = ?tok" using c by simp
  have qs: "rd qsl s = Some (qsl ! s)" "usize (qsl ! s) = bos_of qsl s" using packed_rd [OF q(1), of s] q(2) by (simp_all add: bos_of_def)
  show ?thesis
  proof (cases "null_slot (indices ! s) nslots")
    case True
    then show ?thesis using g gd tok(2) qs q(2) len(1) by (simp add: conv_out_item_def Let_def oaddr_def)
  next
    case False
    have sv: "0 \<le> indices ! s" "nat (indices ! s) < nslots" using slot_valid(1,2) [OF i32 _ False] q(2) len(1) by simp_all
    have le: "length ?eff = n + seq_len qsl s" by (simp add: start_window_def window_of_def seq_samples_def)
    have smp: "conv_sample ld lds x state ?i n xs cs (indices ! s) c (bos_of qsl s) (int t - int (taps - 1) + int k) = Some (drop t ?eff ! k)" if "k < taps" for k
    proof -
      have e: "int t - int (taps - 1) + int k = int (t + k) - int n" using L by simp
      have d: "drop t ?eff ! k = ?eff ! (t + k)" by (rule nth_drop) (use le q(3) in simp)
      show ?thesis unfolding e d by (rule conv_sample_nth [OF q(1,2) c x lay sv _ refl]) (use that L q(3) in simp)
    qed
    have "foldM (\<lambda>k acc. do { val \<leftarrow> conv_sample ld lds x state ?i n xs cs (indices ! s) c (bos_of qsl s) (int t - int (taps - 1) + int k);
        wt \<leftarrow> rd weight (c * taps + k); Some (acc + val * ld wt) }) [0..<taps] (bias_val ld bias c) =
      Some (conv_dot (conv_weights ld weight taps c) (bias_val ld bias c) (drop t ?eff))"
      unfolding conv_weights_def by (rule conv_dot_loop [OF smp]) (use row_add_less [OF c] len(2) in auto)
    moreover have "use_init has_init s = Some ?i" by (rule use_init_Some [OF len(4) q(2)])
    moreover have "conv_bias ld bias c = Some (bias_val ld bias c)" by (rule conv_bias_Some [OF c len(3)])
    ultimately show ?thesis using False g gd tok(2) qs q(2) len(1)
      by (simp add: conv_out_item_def Let_def oaddr_def)
  qed
qed

lemma conv_state_item_valid:
  fixes state :: "'s list"
  assumes q: "packed qsl batch ntok" "s < batch" and c: "c < n_dim" and n: "n \<le> kMaxTaps"
    and x: "in_range2 xs n_dim ntok (length x)" and lay: "layout3 cs nslots n_dim n (length state)"
    and len: "length indices = batch" "\<And>h. has_init = Some h \<Longrightarrow> length h = batch"
    and i32: "i32_slots indices" "\<not> null_slot (indices ! s) nslots" and ne: "0 < seq_len qsl s"
  shows "\<exists>state'. conv_state_item ld lds sts x qsl indices has_init batch n_dim n nslots xs cs (s * n_dim + c) state = Some state' \<and>
    writes (wcell cs (indices ! s) c ` {..<n}) (\<lambda>a. sts ((start_window lds cs n state has_init indices s c @ seq_samples ld x xs qsl s c) !
      (seq_len qsl s + the_inv_into {..<n} (wcell cs (indices ! s) c) a))) state state'"
proof -
  let ?slot = "indices ! s" and ?eff = "start_window lds cs n state has_init indices s c @ seq_samples ld x xs qsl s c"
  let ?i = "has_init \<noteq> None \<and> the has_init ! s" and ?h = "\<lambda>m. (start_window lds cs n state has_init indices s c @ seq_samples ld x xs qsl s c) ! (seq_len qsl s + m)"
  have g: "\<not> batch * n_dim \<le> s * n_dim + c" using row_add_less [OF q(2) c] by simp
  have gd: "(s * n_dim + c) div n_dim = s" using c by simp
  have qs: "rd qsl s = Some (qsl ! s)" "usize (qsl ! s) = bos_of qsl s" "rd qsl (s + 1) = Some (qsl ! (s + 1))" "usize (qsl ! (s + 1)) = nat (qsl ! (s + 1))"
    using packed_rd [OF q(1), of s] packed_rd [OF q(1), of "s + 1"] q(2) by (simp_all add: bos_of_def)
  have ln: "\<not> nat (qsl ! (s + 1)) \<le> bos_of qsl s" "nat (qsl ! (s + 1)) - bos_of qsl s = seq_len qsl s" using ne unfolding seq_len_def bos_of_def by linarith+
  have sv: "0 \<le> ?slot" "nat ?slot < nslots" using slot_valid(1,2) [OF i32(1) _ i32(2)] q(2) len(1) by simp_all
  have smp: "conv_sample ld lds x state ?i n xs cs ?slot c (bos_of qsl s) (int (seq_len qsl s) - int n + int m) = Some (?h m)" if "m < n" for m
  proof -
    have e: "int (seq_len qsl s) - int n + int m = int (seq_len qsl s + m) - int n" by simp
    show ?thesis unfolding e by (rule conv_sample_nth [OF q c x lay sv _ refl]) (use that in simp)
  qed
  have ld1: "foldM (\<lambda>m win. do { v \<leftarrow> conv_sample ld lds x state ?i n xs cs ?slot c (bos_of qsl s) (int (seq_len qsl s) - int n + int m); wr win m v }) [0..<n] (replicate kMaxTaps 0) =
      Some (map ?h [0..<n] @ replicate (kMaxTaps - n) 0)"
    using load_regs [where f = "\<lambda>v. v", OF n smp refl] by simp
  have inj: "inj_on (wcell cs ?slot c) {..<n}" using layout3_inj [OF lay sv c _ sv c] by (auto intro: inj_onI)
  note R = layout3_range [OF lay sv c]
  let ?win = "map ?h [0..<n] @ replicate (kMaxTaps - n) 0"
  have "\<exists>state'. foldM (\<lambda>m state. do { v \<leftarrow> rd ?win m; wri state (saddr cs ?slot c (int m)) (sts v) }) [0..<n] state = Some state' \<and>
      writes (wcell cs ?slot c ` {..<n}) (\<lambda>a. sts (?h (the_inv_into {..<n} (wcell cs ?slot c) a))) state state'"
  proof (rule store_cells [OF inj])
    fix k and m :: "'s list" assume k: "k < n" "length m = length state"
    then have "rd ?win k = Some (?h k)" by (simp add: rd_def nth_append)
    then show "do { v \<leftarrow> rd ?win k; wri m (saddr cs ?slot c (int k)) (sts v) } = Some (m[wcell cs ?slot c k := sts (?h k)])"
      using R [OF k(1)] k(2) by (simp add: wcell_def)
  qed (use R in auto)
  then obtain state' where state': "foldM (\<lambda>m state. do { v \<leftarrow> rd ?win m; wri state (saddr cs ?slot c (int m)) (sts v) }) [0..<n] state = Some state'"
      "writes (wcell cs ?slot c ` {..<n}) (\<lambda>a. sts (?h (the_inv_into {..<n} (wcell cs ?slot c) a))) state state'" by blast
  have ui: "use_init has_init s = Some ?i" by (rule use_init_Some [OF len(2) q(2)])
  have "conv_state_item ld lds sts x qsl indices has_init batch n_dim n nslots xs cs (s * n_dim + c) state = Some state'"
    unfolding conv_state_item_def Let_def gd add_diff_cancel_left' using g q(2) len(1) i32(2) qs(1,3) ln ui ld1 state'(1)
    by (simp add: qs(2,4) del: One_nat_def)
  then show ?thesis using state'(2) by blast
qed

definition layout2 :: "int \<times> int \<Rightarrow> nat \<Rightarrow> nat \<Rightarrow> nat \<Rightarrow> bool" where
  "layout2 os n_dim ntok len \<longleftrightarrow> in_range2 os n_dim ntok len \<and> inj_on (\<lambda>(c, t). oaddr os c t) ({..<n_dim} \<times> {..<ntok})"

lemma layout2_inj:
  assumes "layout2 os n_dim ntok len" "c < n_dim" "t < ntok" "c' < n_dim" "t' < ntok" "nat (oaddr os c t) = nat (oaddr os c' t')"
  shows "c = c' \<and> t = t'"
proof -
  have "0 \<le> oaddr os c t" "0 \<le> oaddr os c' t'" using assms(1-5) by (auto simp: layout2_def in_range2_def oaddr_def)
  then have "oaddr os c t = oaddr os c' t'" using assms(6) by simp
  then show ?thesis using assms(1-5) unfolding layout2_def by (auto dest!: inj_onD [where x = "(c, t)" and y = "(c', t')"])
qed

lemma conv_out_launch:
  fixes out :: "'t list"
  assumes "taps = n + 1" "schedule (cdiv (ntok * n_dim) kLocal * kLocal) sched" and q: "packed qsl batch ntok"
    and x: "in_range2 xs n_dim ntok (length x)" and lay: "layout3 cs nslots n_dim n (length state)" and os: "layout2 os n_dim ntok (length out)"
    and len: "length indices = batch" "length weight = n_dim * taps" "\<And>bs. bias = Some bs \<Longrightarrow> length bs = n_dim" "\<And>h. has_init = Some h \<Longrightarrow> length h = batch"
    and i32: "i32_slots indices"
  shows "\<exists>out'. foldM (conv_out_item ex ld st lds state x weight bias qsl indices has_init silu ntok batch n_dim n taps nslots xs os cs) sched out = Some out' \<and>
    (\<forall>s<batch. \<forall>c<n_dim. \<forall>t< seq_len qsl s. out' ! nat (oaddr os c (bos_of qsl s + t)) = (if null_slot (indices ! s) nslots then st 0
      else st (conv_act ex silu (conv_dot (conv_weights ld weight taps c) (bias_val ld bias c)
        (drop t (start_window lds cs n state has_init indices s c @ seq_samples ld x xs qsl s c))))))"
proof -
  let ?n = "ntok * n_dim" and ?N = "cdiv (ntok * n_dim) kLocal * kLocal"
  let ?f = "conv_out_item ex ld st lds state x weight bias qsl indices has_init silu ntok batch n_dim n taps nslots xs os cs"
  let ?v = "\<lambda>s c t. if null_slot (indices ! s) nslots then st 0
      else st (conv_act ex silu (conv_dot (conv_weights ld weight taps c) (bias_val ld bias c)
        (drop t (start_window lds cs n state has_init indices s c @ seq_samples ld x xs qsl s c))))"
  let ?a = "\<lambda>i. nat (oaddr os (i mod n_dim) (i div n_dim))"
  let ?E = "\<lambda>i. if i < ?n then {?a i} else {}"
  let ?w = "\<lambda>i a. let s = the (cp_find_seq qsl batch (i div n_dim) [0..<batch]) in ?v s (i mod n_dim) (i div n_dim - bos_of qsl s)"
  have tc: "i div n_dim < ntok" "i mod n_dim < n_dim" if "i < ?n" for i
  proof -
    have "0 < n_dim" using that by (cases n_dim) auto
    then show "i div n_dim < ntok" "i mod n_dim < n_dim" using that by (simp_all add: less_mult_imp_div_less)
  qed
  have inr: "0 \<le> oaddr os c t \<and> nat (oaddr os c t) < length out" if "c < n_dim" "t < ntok" for c t
    using in_range2D [of os n_dim ntok "length out" c t] os that by (simp add: layout2_def oaddr_def)
  have "\<exists>out'. foldM ?f sched out = Some out' \<and> rows_done ?E ?w out {..<?N} out'"
  proof (rule launch_rows [OF assms(2)])
    show "owns ?N ?E"
    proof (rule cells_guard_owns, unfold owns_def, intro allI impI)
      fix i j assume ij: "i < ?n" "j < ?n" "i \<noteq> j"
      have "?a i \<noteq> ?a j" using layout2_inj [OF os tc(2,1) [OF ij(1)] tc(2,1) [OF ij(2)]] ij(3) by (metis div_mult_mod_eq)
      then show "{?a i} \<inter> {?a j} = {}" by simp
    qed
    fix i and m :: "'t list" assume i: "i < ?N" and m: "length m = length out"
    show "\<exists>m'. ?f i m = Some m' \<and> writes (?E i) (?w i) m m'"
    proof (cases "i < ?n")
      case False
      then show ?thesis by (simp add: conv_out_item_def)
    next
      case True
      obtain s t where st: "s < batch" "t < seq_len qsl s" "i div n_dim = bos_of qsl s + t" "cp_find_seq qsl batch (i div n_dim) [0..<batch] = Some s"
        by (rule packed_owner [OF q tc(1) [OF True]])
      have ie: "(bos_of qsl s + t) * n_dim + i mod n_dim = i" using st(3) by (metis div_mult_mod_eq)
      have "?f i m = wri m (oaddr os (i mod n_dim) (i div n_dim)) (?v s (i mod n_dim) t)"
        using conv_out_item_owner [where ex = ex and ld = ld and st = st and lds = lds and silu = silu and out = m and os = os, OF assms(1) q st(1,2) tc(2) [OF True] x lay len i32]
        unfolding ie st(3) .
      also have "\<dots> = Some (m[?a i := ?v s (i mod n_dim) t])" using inr [OF tc(2,1) [OF True]] m by simp
      finally have f: "?f i m = Some (m[?a i := ?v s (i mod n_dim) t])" .
      have "?w i (?a i) = ?v s (i mod n_dim) t" using st(3,4) by (simp add: Let_def)
      then have "writes (?E i) (?w i) m (m[?a i := ?v s (i mod n_dim) t])"
        using True inr [OF tc(2,1) [OF True]] m by (auto simp: writes_def nth_list_update Let_def)
      then show ?thesis using f by blast
    qed
  qed
  then obtain out' where o: "foldM ?f sched out = Some out'" "rows_done ?E ?w out {..<?N} out'" by blast
  have "out' ! nat (oaddr os c (bos_of qsl s + t)) = ?v s c t" if s: "s < batch" "c < n_dim" "t < seq_len qsl s" for s c t
  proof -
    let ?i = "(bos_of qsl s + t) * n_dim + c"
    note tok = owner_token [OF q s(1,3)]
    have i: "?i < ?n" "?i < ?N" "?i div n_dim = bos_of qsl s + t" "?i mod n_dim = c"
      using row_add_less [OF tok(1) s(2)] rounded_up [of ?n] s(2) by simp_all
    have "out' ! ?a ?i = ?w ?i (?a ?i)"
      by (rule rows_done_cell [OF o(2) i(2)]) (use i inr [OF s(2) tok(1)] in simp_all)
    then show ?thesis using tok(2) unfolding i(3,4) by (simp add: Let_def)
  qed
  then show ?thesis using o(1) by blast
qed

lemma map_tail: "length e = n + m \<Longrightarrow> (\<And>k. k < n \<Longrightarrow> v k = sts (e ! (m + k))) \<Longrightarrow> map (\<lambda>k. lds (v k)) [0..<n] = map (lds \<circ> sts) (drop m e)"
  by (rule nth_equalityI) simp_all

lemma conv_state_launch:
  fixes state :: "'s list"
  assumes sched: "schedule (cdiv (batch * n_dim) kLocal * kLocal) sched" and q: "packed qsl batch ntok" and n: "n \<le> kMaxTaps"
    and x: "in_range2 xs n_dim ntok (length x)" and lay: "layout3 cs nslots n_dim n (length state)"
    and len: "length indices = batch" "\<And>h. has_init = Some h \<Longrightarrow> length h = batch"
    and i32: "i32_slots indices" "slots_distinct indices nslots"
  shows "\<exists>state'. foldM (conv_state_item ld lds sts x qsl indices has_init batch n_dim n nslots xs cs) sched state = Some state' \<and>
    (\<forall>s<batch. \<forall>c<n_dim. \<not> null_slot (indices ! s) nslots \<longrightarrow> 0 < seq_len qsl s \<longrightarrow>
      window_of lds cs n state' (indices ! s) c = map (lds \<circ> sts) (drop (seq_len qsl s) (start_window lds cs n state has_init indices s c @ seq_samples ld x xs qsl s c))) \<and>
    (\<forall>a<length state. (\<forall>gid<batch * n_dim. a \<in> slot_cells cs n indices nslots n_dim gid \<longrightarrow> seq_len qsl (gid div n_dim) = 0) \<longrightarrow> state' ! a = state ! a)"
proof -
  let ?n = "batch * n_dim" and ?N = "cdiv (batch * n_dim) kLocal * kLocal"
  let ?f = "conv_state_item ld lds sts x qsl indices has_init batch n_dim n nslots xs cs"
  let ?Cs = "\<lambda>i. if seq_len qsl (i div n_dim) = 0 then {} else slot_cells cs n indices nslots n_dim i"
  let ?C = "\<lambda>i. if i < ?n then ?Cs i else {}"
  let ?eff = "\<lambda>s c. start_window lds cs n state has_init indices s c @ seq_samples ld x xs qsl s c"
  let ?w = "\<lambda>i a. sts (?eff (i div n_dim) (i mod n_dim) ! (seq_len qsl (i div n_dim) + the_inv_into {..<n} (wcell cs (indices ! (i div n_dim)) (i mod n_dim)) a))"
  have "\<exists>state'. foldM ?f sched state = Some state' \<and> rows_done ?C ?w state {..<?N} state'"
  proof (rule launch_rows [OF sched])
    have "owns (batch * n_dim) ?Cs" using slot_cells_owns [OF lay i32 len(1)] by (auto simp: owns_def)
    from cells_guard_owns [OF this] show "owns ?N ?C" .
    fix i and m :: "'s list" assume i: "i < ?N" and m: "length m = length state" and eq: "\<And>a. a \<in> ?C i \<Longrightarrow> a < length state \<Longrightarrow> m ! a = state ! a"
    show "\<exists>m'. ?f i m = Some m' \<and> writes (?C i) (?w i) m m'"
    proof (cases "i < ?n")
      case False
      then show ?thesis by (simp add: conv_state_item_def)
    next
      case True
      define s c where "s = i div n_dim" and "c = i mod n_dim"
      have ie: "s * n_dim + c = i" by (simp add: s_def c_def)
      have "0 < n_dim" using True by (cases n_dim) auto
      then have s: "s < batch" "c < n_dim" using True by (simp_all add: s_def c_def less_mult_imp_div_less)
      have qs: "rd qsl s = Some (qsl ! s)" "usize (qsl ! s) = nat (qsl ! s)" "rd qsl (s + 1) = Some (qsl ! (s + 1))" "usize (qsl ! (s + 1)) = nat (qsl ! (s + 1))"
        using packed_rd [OF q, of s] packed_rd [OF q, of "s + 1"] s(1) by simp_all
      show ?thesis
      proof (cases "null_slot (indices ! s) nslots \<or> seq_len qsl s = 0")
        case skip: True
        have "?f i m = Some m"
        proof (cases "null_slot (indices ! s) nslots")
          case False
          then have "nat (qsl ! (s + 1)) \<le> nat (qsl ! s)" using skip by (simp add: seq_len_def)
          then show ?thesis using False True s len(1) qs unfolding conv_state_item_def s_def [symmetric] by (simp add: Let_def)
        qed (use True s len(1) in \<open>simp add: conv_state_item_def s_def [symmetric] Let_def\<close>)
        moreover have "?C i = {}" using skip by (auto simp: slot_cells_def s_def)
        ultimately show ?thesis by simp
      next
        case False
        then have v: "\<not> null_slot (indices ! s) nslots" "0 < seq_len qsl s" by simp_all
        have sv: "0 \<le> indices ! s" "nat (indices ! s) < nslots" using slot_valid(1,2) [OF i32(1) _ v(1)] s(1) len(1) by simp_all
        have Ci: "?C i = wcell cs (indices ! s) c ` {..<n}" using True v by (simp add: slot_cells_def s_def c_def)
        have "m ! wcell cs (indices ! s) c k = state ! wcell cs (indices ! s) c k" if "k < n" for k
          by (rule eq) (use Ci that layout3_range(2) [OF lay sv s(2) that] in auto)
        then have w: "start_window lds cs n m has_init indices s c = start_window lds cs n state has_init indices s c"
          using window_of_cong [of n m cs "indices ! s" c state lds] by (simp add: start_window_def)
        have lm: "layout3 cs nslots n_dim n (length m)" using lay m by simp
        have "\<exists>m'. ?f (s * n_dim + c) m = Some m' \<and> writes (wcell cs (indices ! s) c ` {..<n}) (\<lambda>a. sts ((start_window lds cs n m has_init indices s c @ seq_samples ld x xs qsl s c) !
            (seq_len qsl s + the_inv_into {..<n} (wcell cs (indices ! s) c) a))) m m'"
          by (rule conv_state_item_valid [OF q s n x lm len(1) _ i32(1) v]) (rule len(2))
        then obtain m' where m': "?f i m = Some m'" "writes (wcell cs (indices ! s) c ` {..<n}) (\<lambda>a. sts (?eff s c ! (seq_len qsl s + the_inv_into {..<n} (wcell cs (indices ! s) c) a))) m m'"
          unfolding ie w by (elim exE conjE) (rule that)
        have "writes (?C i) (?w i) m m'" unfolding Ci using m'(2) by (simp only: s_def [symmetric] c_def [symmetric])
        then show ?thesis using m'(1) by blast
      qed
    qed
  qed
  then obtain state' where R: "foldM ?f sched state = Some state'" "rows_done ?C ?w state {..<?N} state'" by blast
  have "window_of lds cs n state' (indices ! s) c = map (lds \<circ> sts) (drop (seq_len qsl s) (?eff s c))"
    if s: "s < batch" "c < n_dim" and v: "\<not> null_slot (indices ! s) nslots" "0 < seq_len qsl s" for s c
  proof -
    let ?i = "s * n_dim + c"
    have i: "?i < ?n" "?i < ?N" "?i div n_dim = s" "?i mod n_dim = c" using row_add_less [OF s] rounded_up [of ?n] s(2) by simp_all
    have sv: "0 \<le> indices ! s" "nat (indices ! s) < nslots" using slot_valid(1,2) [OF i32(1) _ v(1)] s(1) len(1) by simp_all
    have inj: "inj_on (wcell cs (indices ! s) c) {..<n}" using layout3_inj [OF lay sv s(2) _ sv s(2)] by (auto intro: inj_onI)
    have l: "length (?eff s c) = n + seq_len qsl s" by (simp add: start_window_def window_of_def seq_samples_def)
    have "state' ! wcell cs (indices ! s) c k = sts (?eff s c ! (seq_len qsl s + k))" if k: "k < n" for k
    proof -
      have "state' ! wcell cs (indices ! s) c k = ?w ?i (wcell cs (indices ! s) c k)"
        by (rule rows_done_cell [OF R(2) i(2)]) (use i v k layout3_range(2) [OF lay sv s(2) k] in \<open>simp_all add: slot_cells_def\<close>)
      then show ?thesis unfolding i(3,4) using k inj by (simp add: the_inv_into_f_f)
    qed
    then show ?thesis unfolding window_of_def [of _ _ _ state'] by (rule map_tail [OF l])
  qed
  moreover have "state' ! a = state ! a" if "a < length state" "\<forall>gid<?n. a \<in> slot_cells cs n indices nslots n_dim gid \<longrightarrow> seq_len qsl (gid div n_dim) = 0" for a
    by (rule rows_done_frame [OF R(2) that(1)]) (use that(2) in auto)
  ultimately show ?thesis using R(1) by blast
qed

text \<open>C28: prefill implements the same abstract machine as decode.  If the state type represents the samples
  exactly, then for every packed batch, every pair of schedules and every strided layout the outputs
  of a sequence are those of running \<open>conv_step\<close> over its tokens from the cached window (or from zeros), and the
  cache is left with the window that run ends with; null slots give zeros, and empty sequences and all
  other cells are left alone.\<close>

theorem conv1d_prefill_refines:
  fixes state :: "'s list" and out :: "'t list"
  assumes "taps = n + 1" "taps \<le> kMaxTaps" "schedule (cdiv (ntok * n_dim) kLocal * kLocal) sched_a" "schedule (cdiv (batch * n_dim) kLocal * kLocal) sched_b"
    and "packed qsl batch ntok" "in_range2 xs n_dim ntok (length x)" "layout3 cs nslots n_dim n (length state)" "layout2 os n_dim ntok (length out)"
    and "length indices = batch" "length weight = n_dim * taps" "\<And>bs. bias = Some bs \<Longrightarrow> length bs = n_dim" "\<And>h. has_init = Some h \<Longrightarrow> length h = batch"
    and "i32_slots indices" "slots_distinct indices nslots"
    and "\<And>s c v. s < batch \<Longrightarrow> c < n_dim \<Longrightarrow> v \<in> set (start_window lds cs n state has_init indices s c @ seq_samples ld x xs qsl s c) \<Longrightarrow> lds (sts v) = v"
  shows "\<exists>state' out'. causal_conv1d_prefill ex ld st lds sts x weight bias qsl indices has_init silu ntok batch n_dim n taps nslots xs os cs sched_a sched_b (state, out) = Some (state', out') \<and>
    (\<forall>s<batch. \<forall>c<n_dim.
      let r = conv_run (conv_act ex silu) (lds \<circ> sts) (conv_weights ld weight taps c) (bias_val ld bias c) (seq_samples ld x xs qsl s c) (start_window lds cs n state has_init indices s c)
      in (\<forall>t< seq_len qsl s. out' ! nat (oaddr os c (bos_of qsl s + t)) = (if null_slot (indices ! s) nslots then st 0 else st (fst r ! t))) \<and>
        (\<not> null_slot (indices ! s) nslots \<longrightarrow> 0 < seq_len qsl s \<longrightarrow> window_of lds cs n state' (indices ! s) c = snd r)) \<and>
    (\<forall>a<length state. (\<forall>gid<batch * n_dim. a \<in> slot_cells cs n indices nslots n_dim gid \<longrightarrow> seq_len qsl (gid div n_dim) = 0) \<longrightarrow> state' ! a = state ! a)"
proof -
  obtain out' where o: "foldM (conv_out_item ex ld st lds state x weight bias qsl indices has_init silu ntok batch n_dim n taps nslots xs os cs) sched_a out = Some out'"
    "\<forall>s<batch. \<forall>c<n_dim. \<forall>t< seq_len qsl s. out' ! nat (oaddr os c (bos_of qsl s + t)) = (if null_slot (indices ! s) nslots then st 0
      else st (conv_act ex silu (conv_dot (conv_weights ld weight taps c) (bias_val ld bias c)
        (drop t (start_window lds cs n state has_init indices s c @ seq_samples ld x xs qsl s c)))))"
    using conv_out_launch [where ex = ex and ld = ld and st = st and lds = lds and silu = silu and bias = bias and has_init = has_init, OF assms(1,3,5,6,7,8,9,10) assms(11) assms(12) assms(13)] by blast
  have n: "n \<le> kMaxTaps" using assms(1,2) by simp
  obtain state' where s: "foldM (conv_state_item ld lds sts x qsl indices has_init batch n_dim n nslots xs cs) sched_b state = Some state'"
    "\<forall>s<batch. \<forall>c<n_dim. \<not> null_slot (indices ! s) nslots \<longrightarrow> 0 < seq_len qsl s \<longrightarrow>
      window_of lds cs n state' (indices ! s) c = map (lds \<circ> sts) (drop (seq_len qsl s) (start_window lds cs n state has_init indices s c @ seq_samples ld x xs qsl s c))"
    "\<forall>a<length state. (\<forall>gid<batch * n_dim. a \<in> slot_cells cs n indices nslots n_dim gid \<longrightarrow> seq_len qsl (gid div n_dim) = 0) \<longrightarrow> state' ! a = state ! a"
    using conv_state_launch [where ld = ld and lds = lds and sts = sts and has_init = has_init, OF assms(4,5) n assms(6,7,9) assms(12) assms(13,14)] by blast
  have run: "causal_conv1d_prefill ex ld st lds sts x weight bias qsl indices has_init silu ntok batch n_dim n taps nslots xs os cs sched_a sched_b (state, out) = Some (state', out')"
    using o(1) s(1) assms(1,2) by (simp add: causal_conv1d_prefill_def)
  have r: "conv_run (conv_act ex silu) (lds \<circ> sts) (conv_weights ld weight taps c) (bias_val ld bias c) (seq_samples ld x xs qsl i c) (start_window lds cs n state has_init indices i c) =
      (map (\<lambda>t. conv_act ex silu (conv_dot (conv_weights ld weight taps c) (bias_val ld bias c) (drop t (start_window lds cs n state has_init indices i c @ seq_samples ld x xs qsl i c)))) [0..< seq_len qsl i],
       drop (seq_len qsl i) (start_window lds cs n state has_init indices i c @ seq_samples ld x xs qsl i c))" if "i < batch" "c < n_dim" for i c
  proof -
    let ?w = "start_window lds cs n state has_init indices i c" and ?xs = "seq_samples ld x xs qsl i c"
    have l: "length ?w = n" "length ?xs = seq_len qsl i" by (simp_all add: start_window_def window_of_def seq_samples_def)
    have "length (conv_weights ld weight taps c) = Suc (length ?w)" using assms(1) l(1) by (simp add: conv_weights_def)
    from conv_run_window [OF this, of ?xs "lds \<circ> sts" "conv_act ex silu" "bias_val ld bias c"] show ?thesis
      using assms(15) [OF that] l(2) by simp
  qed
  have fix_map: "map (lds \<circ> sts) (drop m (start_window lds cs n state has_init indices i c @ seq_samples ld x xs qsl i c)) =
      drop m (start_window lds cs n state has_init indices i c @ seq_samples ld x xs qsl i c)" if "i < batch" "c < n_dim" for i c m
    by (rule map_idI) (use assms(15) [OF that] in_set_dropD in \<open>fastforce simp del: drop_append set_append\<close>)
  have "let r = conv_run (conv_act ex silu) (lds \<circ> sts) (conv_weights ld weight taps c) (bias_val ld bias c) (seq_samples ld x xs qsl i c) (start_window lds cs n state has_init indices i c)
      in (\<forall>t< seq_len qsl i. out' ! nat (oaddr os c (bos_of qsl i + t)) = (if null_slot (indices ! i) nslots then st 0 else st (fst r ! t))) \<and>
        (\<not> null_slot (indices ! i) nslots \<longrightarrow> 0 < seq_len qsl i \<longrightarrow> window_of lds cs n state' (indices ! i) c = snd r)" if b: "i < batch" "c < n_dim" for i c
    unfolding Let_def r [OF b] fst_conv snd_conv
  proof (intro conjI allI impI)
    fix t assume t: "t < seq_len qsl i"
    then show "out' ! nat (oaddr os c (bos_of qsl i + t)) = (if null_slot (indices ! i) nslots then st 0 else st (map (\<lambda>t. conv_act ex silu (conv_dot (conv_weights ld weight taps c) (bias_val ld bias c)
        (drop t (start_window lds cs n state has_init indices i c @ seq_samples ld x xs qsl i c)))) [0..< seq_len qsl i] ! t))"
      using o(2) b by simp
  next
    assume "\<not> null_slot (indices ! i) nslots" "0 < seq_len qsl i"
    then show "window_of lds cs n state' (indices ! i) c = drop (seq_len qsl i) (start_window lds cs n state has_init indices i c @ seq_samples ld x xs qsl i c)"
      using s(2) b fix_map [OF b] by metis
  qed
  then show ?thesis using run s(3) by blast
qed

theorem conv1d_prefill_refines_witness:
  "\<exists>state' out'. causal_conv1d_prefill exp id id id id [5, 11] [2, 3] None [0, 2] [0] (Some [True]) False 2 1 1 1 2 1 (2, 1) (2, 1) (1, 1, 1)
      [0..<cdiv (2 * 1) kLocal * kLocal] [0..<cdiv (1 * 1) kLocal * kLocal] ([7 :: real], [0, 0]) = Some (state', out') \<and> out' ! 0 = 29 \<and> out' ! 1 = 43 \<and> state' ! 0 = 11"
proof -
  have s: "seq_samples id [5, 11] (2, 1) [0, 2] 0 0 = [5, 11 :: real]" "start_window id (1, 1, 1) 1 [7 :: real] (Some [True]) [0] 0 0 = [7]"
    by (simp_all add: seq_samples_def start_window_def window_of_def wcell_def saddr_def seq_len_def bos_of_def upt_rec numeral_2_eq_2)
  have "\<exists>state' out'. causal_conv1d_prefill exp id id id id [5, 11] [2, 3] None [0, 2] [0] (Some [True]) False 2 1 1 1 2 1 (2, 1) (2, 1) (1, 1, 1)
      [0..<cdiv (2 * 1) kLocal * kLocal] [0..<cdiv (1 * 1) kLocal * kLocal] ([7 :: real], [0, 0]) = Some (state', out') \<and>
    (\<forall>s<1. \<forall>c<1. let r = conv_run (conv_act exp False) (id \<circ> id) (conv_weights id [2, 3] 2 c) (bias_val id None c) (seq_samples id [5, 11] (2, 1) [0, 2] s c) (start_window id (1, 1, 1) 1 [7] (Some [True]) [0] s c)
      in (\<forall>t< seq_len [0, 2] s. out' ! nat (oaddr (2, 1) c (bos_of [0, 2] s + t)) = (if null_slot ([0] ! s) 1 then id 0 else id (fst r ! t))) \<and>
        (\<not> null_slot ([0] ! s) 1 \<longrightarrow> 0 < seq_len [0, 2] s \<longrightarrow> window_of id (1, 1, 1) 1 state' ([0] ! s) c = snd r)) \<and>
    (\<forall>a<length [7 :: real]. (\<forall>gid<1 * 1. a \<in> slot_cells (1, 1, 1) 1 [0] 1 1 gid \<longrightarrow> seq_len [0, 2] (gid div 1) = 0) \<longrightarrow> state' ! a = [7] ! a)"
    by (rule conv1d_prefill_refines)
      (simp_all add: kMaxTaps_def layout3_def layout2_def in_range2_def oaddr_def saddr_def i32_slots_def slots_distinct_def inj_on_def packed_def)
  then obtain state' out' where r: "causal_conv1d_prefill exp id id id id [5, 11] [2, 3] None [0, 2] [0] (Some [True]) False 2 1 1 1 2 1 (2, 1) (2, 1) (1, 1, 1)
      [0..<cdiv (2 * 1) kLocal * kLocal] [0..<cdiv (1 * 1) kLocal * kLocal] ([7 :: real], [0, 0]) = Some (state', out')"
    "\<forall>s<1. \<forall>c<1. let r = conv_run (conv_act exp False) (id \<circ> id) (conv_weights id [2, 3] 2 c) (bias_val id None c) (seq_samples id [5, 11] (2, 1) [0, 2] s c) (start_window id (1, 1, 1) 1 [7] (Some [True]) [0] s c)
      in (\<forall>t< seq_len [0, 2] s. out' ! nat (oaddr (2, 1) c (bos_of [0, 2] s + t)) = (if null_slot ([0] ! s) 1 then id 0 else id (fst r ! t))) \<and>
        (\<not> null_slot ([0] ! s) 1 \<longrightarrow> 0 < seq_len [0, 2] s \<longrightarrow> window_of id (1, 1, 1) 1 state' ([0] ! s) c = snd r)" by blast
  have run: "conv_run (conv_act exp False) (id \<circ> id) (conv_weights id [2, 3] 2 0) (bias_val id None 0) [5, 11 :: real] [7] = ([29, 43], [11])"
    by (simp add: Let_def conv_step_def conv_act_def conv_dot_def conv_weights_def bias_val_def upt_rec numeral_2_eq_2)
  have q: "seq_len [0, 2] 0 = 2" "bos_of [0, 2] 0 = 0" "\<not> null_slot 0 1" by (simp_all add: seq_len_def bos_of_def null_slot_def)
  have c: "(\<forall>t<2. out' ! nat (oaddr (2, 1) 0 t) = [29, 43] ! t) \<and> window_of id (1, 1, 1) 1 state' 0 0 = [11]"
    using r(2) [THEN spec, THEN mp, OF zero_less_one, THEN spec, THEN mp, OF zero_less_one] unfolding s nth_Cons_0 run q Let_def fst_conv snd_conv using q(3)
    by (simp del: One_nat_def)
  have "out' ! nat (oaddr (2, 1) 0 0) = 29" "out' ! nat (oaddr (2, 1) 0 1) = 43" using c by (simp_all del: One_nat_def)
  then have "out' ! 0 = 29" "out' ! 1 = 43" by (simp_all add: oaddr_def)
  moreover have "state' ! 0 = 11" using c by (simp add: window_of_def wcell_def saddr_def)
  ultimately show ?thesis using r(1) by blast
qed

end
