(* ===== verification/Ssd.thy ===== *)
theory Ssd
  imports Recurrence Conv1d
begin

text \<open>
  State-space layers: the scalar-decay selective state update in its decode (\<open>ssd_decode.sycl.cpp\<close>) and varlen prefill
  (\<open>ssd_prefill.sycl.cpp\<close>) forms, and the diagonal selective scan (\<open>selective_scan.sycl.cpp\<close>).  A work-item owns one row of
  \<open>dstate\<close> elements.  Decode takes the row from a source slot of the cache and stores it in a destination slot, at
  strides of the caller; prefill runs a packed sequence over it.  Both are proved to take the steps of one machine, \<open>ssd_step\<close>.  \<open>lg\<close> is the
  logarithm of the device library.
\<close>

section \<open>Kernels\<close>

record ('t, 'f) ssd_in =
  ssd_x :: "'t list"
  ssd_dt :: "'f list"
  ssd_A :: "'f list"
  ssd_B :: "'t list"
  ssd_C :: "'t list"
  ssd_D :: "'f list option"
  ssd_bias :: "'f list"

record ssd_shape =
  nheads :: nat
  headdim :: nat
  dstate :: nat
  ngroups :: nat

definition softplus :: "('f::{plus,one,ord}, 'z) gmath_scheme \<Rightarrow> ('f \<Rightarrow> 'f) \<Rightarrow> 'f \<Rightarrow> 'f" where
  "softplus M lg x = (if x \<le> of_num M 20 then lg (1 + exp_fn M x) else x)"

definition s4addr :: "int \<times> int \<times> int \<times> int \<Rightarrow> int \<Rightarrow> nat \<Rightarrow> nat \<Rightarrow> nat \<Rightarrow> int" where
  "s4addr ss slot h d n = (case ss of (s0, s1, s2, s3) \<Rightarrow> slot * s0 + int h * s1 + int d * s2 + int n * s3)"

definition ssd_decode_item :: "('f::{plus,times,zero,one,ord}, 'z) gmath_scheme \<Rightarrow> ('f \<Rightarrow> 'f) \<Rightarrow> ('t \<Rightarrow> 'f) \<Rightarrow> ('f \<Rightarrow> 't) \<Rightarrow> ('s \<Rightarrow> 'f) \<Rightarrow> ('f \<Rightarrow> 's) \<Rightarrow>
    ('t, 'f) ssd_in \<Rightarrow> int list \<Rightarrow> int list \<Rightarrow> bool \<Rightarrow> ssd_shape \<Rightarrow> nat \<Rightarrow> int \<times> int \<times> int \<times> int \<Rightarrow> nat \<Rightarrow> 's list \<times> 't list \<Rightarrow> ('s list \<times> 't list) option" where
  "ssd_decode_item M lg ld st lds sts X src_indices dst_indices dt_softplus S nslots ss gid s = do {
     let (state, out) = s;
     let bh = gid div headdim S;
     let d = gid mod headdim S;
     let b = bh div nheads S;
     let h = bh - b * nheads S;
     src \<leftarrow> rd src_indices b;
     dst \<leftarrow> rd dst_indices b;
     if null_slot src nslots then do { out \<leftarrow> wr out ((b * nheads S + h) * headdim S + d) (st 0); Some (state, out) }
     else do {
       let g = h div (nheads S div ngroups S);
       dr \<leftarrow> rd (ssd_dt X) (b * nheads S + h);
       bi \<leftarrow> rd (ssd_bias X) h;
       let dt_h = (if dt_softplus then softplus M lg (dr + bi) else dr + bi);
       a \<leftarrow> rd (ssd_A X) h;
       let dA = exp_fn M (dt_h * a);
       xv \<leftarrow> rd (ssd_x X) ((b * nheads S + h) * headdim S + d);
       let x_d = ld xv;
       let dst_ok = (\<not> null_slot dst nslots);
       let dtx = dt_h * x_d;
       (state, y) \<leftarrow> foldM (\<lambda>n (state, y). do {
         sv \<leftarrow> rdi state (s4addr ss src h d n);
         bv \<leftarrow> rd (ssd_B X) ((b * ngroups S + g) * dstate S + n);
         let s = lds sv * dA + dtx * ld bv;
         state \<leftarrow> (if dst_ok then wri state (s4addr ss dst h d n) (sts s) else Some state);
         cv \<leftarrow> rd (ssd_C X) ((b * ngroups S + g) * dstate S + n);
         Some (state, y + s * ld cv) }) [0..<dstate S] (state, 0);
       y \<leftarrow> (case ssd_D X of None \<Rightarrow> Some y | Some D \<Rightarrow> do { dv \<leftarrow> rd D (h * headdim S + d); Some (y + dv * x_d) });
       out \<leftarrow> wr out ((b * nheads S + h) * headdim S + d) (st y);
       Some (state, out) } }"

definition ssd_decode :: "('f::{plus,times,zero,one,ord}, 'z) gmath_scheme \<Rightarrow> ('f \<Rightarrow> 'f) \<Rightarrow> ('t \<Rightarrow> 'f) \<Rightarrow> ('f \<Rightarrow> 't) \<Rightarrow> ('s \<Rightarrow> 'f) \<Rightarrow> ('f \<Rightarrow> 's) \<Rightarrow>
    ('t, 'f) ssd_in \<Rightarrow> int list \<Rightarrow> int list \<Rightarrow> bool \<Rightarrow> ssd_shape \<Rightarrow> nat \<Rightarrow> int \<times> int \<times> int \<times> int \<Rightarrow> nat list \<Rightarrow> 's list \<times> 't list \<Rightarrow> ('s list \<times> 't list) option" where
  "ssd_decode M lg ld st lds sts X src_indices dst_indices dt_softplus S nslots ss sched s =
     foldM (ssd_decode_item M lg ld st lds sts X src_indices dst_indices dt_softplus S nslots ss) sched s"

definition ssd_decode_sycl :: "f32 gmath \<Rightarrow> (f32 \<Rightarrow> f32) \<Rightarrow> DType \<Rightarrow> DType \<Rightarrow>
    (32 word, f32) ssd_in \<Rightarrow> int list \<Rightarrow> int list \<Rightarrow> bool \<Rightarrow> ssd_shape \<Rightarrow> nat \<Rightarrow> int \<times> int \<times> int \<times> int \<Rightarrow> nat list \<Rightarrow> 32 word list \<times> 32 word list \<Rightarrow> (32 word list \<times> 32 word list) option" where
  "ssd_decode_sycl M lg act_dt state_dt = ssd_decode M lg (elem_ld act_dt) (elem_st act_dt) (elem_ld state_dt) (elem_st state_dt)"

text \<open>\<open>fmin (fmax v lo) hi\<close>, where a NaN gives way to the bound.\<close>

definition clamp_dt :: "'f::ord \<Rightarrow> 'f \<Rightarrow> 'f \<Rightarrow> 'f" where
  "clamp_dt dt_lo dt_hi v = (let w = (if dt_lo < v then v else dt_lo) in if w < dt_hi then w else dt_hi)"

definition ssd_token_step :: "('f::{plus,times,zero,one,ord}, 'z) gmath_scheme \<Rightarrow> ('f \<Rightarrow> 'f) \<Rightarrow> ('t \<Rightarrow> 'f) \<Rightarrow> ('f \<Rightarrow> 't) \<Rightarrow>
    ('t, 'f) ssd_in \<Rightarrow> bool \<Rightarrow> 'f \<Rightarrow> 'f \<Rightarrow> ssd_shape \<Rightarrow> nat \<Rightarrow> nat \<Rightarrow> 'f \<Rightarrow> 'f \<Rightarrow> 'f \<Rightarrow> nat \<Rightarrow> 'f list \<times> 't list \<Rightarrow> ('f list \<times> 't list) option" where
  "ssd_token_step M lg ld st X dt_softplus dt_lo dt_hi S h d A_h bias_h D_hd t s = do {
     let (srow, out) = s;
     let g = h div (nheads S div ngroups S);
     dr \<leftarrow> rd (ssd_dt X) (t * nheads S + h);
     let dt_h = (if dt_softplus then softplus M lg (dr + bias_h) else dr + bias_h);
     let dt_h = clamp_dt dt_lo dt_hi dt_h;
     let dA = exp_fn M (dt_h * A_h);
     xv \<leftarrow> rd (ssd_x X) ((t * nheads S + h) * headdim S + d);
     let x_hd = ld xv;
     let dtx = dt_h * x_hd;
     (srow, y) \<leftarrow> foldM (\<lambda>n (srow, y). do {
       r \<leftarrow> rd srow n;
       bv \<leftarrow> rd (ssd_B X) ((t * ngroups S + g) * dstate S + n);
       let sn = r * dA + dtx * ld bv;
       srow \<leftarrow> wr srow n sn;
       cv \<leftarrow> rd (ssd_C X) ((t * ngroups S + g) * dstate S + n);
       Some (srow, y + sn * ld cv) }) [0..<dstate S] (srow, 0);
     let y = (case ssd_D X of None \<Rightarrow> y | Some _ \<Rightarrow> y + D_hd * x_hd);
     out \<leftarrow> wr out ((t * nheads S + h) * headdim S + d) (st y);
     Some (srow, out) }"

definition ssd_prefill_item :: "('f::{plus,times,zero,one,ord}, 'z) gmath_scheme \<Rightarrow> ('f \<Rightarrow> 'f) \<Rightarrow> ('t \<Rightarrow> 'f) \<Rightarrow> ('f \<Rightarrow> 't) \<Rightarrow> ('s \<Rightarrow> 'f) \<Rightarrow> ('f \<Rightarrow> 's) \<Rightarrow>
    ('t, 'f) ssd_in \<Rightarrow> int list \<Rightarrow> 's list option \<Rightarrow> bool \<Rightarrow> 'f \<Rightarrow> 'f \<Rightarrow> ssd_shape \<Rightarrow> nat \<Rightarrow> 's list \<times> 't list \<Rightarrow> ('s list \<times> 't list) option" where
  "ssd_prefill_item M lg ld st lds sts X cu_seqlens initial dt_softplus dt_lo dt_hi S gid s = do {
     let (varlen, out) = s;
     let bh = gid div headdim S;
     let d = gid mod headdim S;
     let q = bh div nheads S;
     let h = bh - q * nheads S;
     let st_base = ((q * nheads S + h) * headdim S + d) * dstate S;
     srow \<leftarrow> (case initial of
        Some ini \<Rightarrow> those (map (\<lambda>n. map_option lds (rd ini (st_base + n))) [0..<dstate S])
      | None \<Rightarrow> Some (replicate (dstate S) 0));
     lo \<leftarrow> rd cu_seqlens q;
     hi \<leftarrow> rd cu_seqlens (q + 1);
     A_h \<leftarrow> rd (ssd_A X) h;
     bias_h \<leftarrow> rd (ssd_bias X) h;
     D_hd \<leftarrow> (case ssd_D X of None \<Rightarrow> Some 0 | Some D \<Rightarrow> rd D (h * headdim S + d));
     (srow, out) \<leftarrow> foldM (ssd_token_step M lg ld st X dt_softplus dt_lo dt_hi S h d A_h bias_h D_hd) [usize lo..<usize hi] (srow, out);
     varlen \<leftarrow> foldM (\<lambda>n varlen. do { r \<leftarrow> rd srow n; wr varlen (st_base + n) (sts r) }) [0..<dstate S] varlen;
     Some (varlen, out) }"

definition ssd_prefill :: "('f::{plus,times,zero,one,ord}, 'z) gmath_scheme \<Rightarrow> ('f \<Rightarrow> 'f) \<Rightarrow> ('t \<Rightarrow> 'f) \<Rightarrow> ('f \<Rightarrow> 't) \<Rightarrow> ('s \<Rightarrow> 'f) \<Rightarrow> ('f \<Rightarrow> 's) \<Rightarrow>
    ('t, 'f) ssd_in \<Rightarrow> int list \<Rightarrow> 's list option \<Rightarrow> bool \<Rightarrow> 'f \<Rightarrow> 'f \<Rightarrow> ssd_shape \<Rightarrow> nat list \<Rightarrow> 's list \<times> 't list \<Rightarrow> ('s list \<times> 't list) option" where
  "ssd_prefill M lg ld st lds sts X cu_seqlens initial dt_softplus dt_lo dt_hi S sched s =
     foldM (ssd_prefill_item M lg ld st lds sts X cu_seqlens initial dt_softplus dt_lo dt_hi S) sched s"

text \<open>The entry point leaves everything alone when the state does not fit the local memory of the device.\<close>

definition ssd_prefill_sycl :: "f32 gmath \<Rightarrow> (f32 \<Rightarrow> f32) \<Rightarrow> nat \<Rightarrow> nat \<Rightarrow> DType \<Rightarrow> DType \<Rightarrow>
    (32 word, f32) ssd_in \<Rightarrow> int list \<Rightarrow> 32 word list option \<Rightarrow> bool \<Rightarrow> f32 \<Rightarrow> f32 \<Rightarrow> ssd_shape \<Rightarrow> nat list \<Rightarrow> 32 word list \<times> 32 word list \<Rightarrow> (32 word list \<times> 32 word list) option" where
  "ssd_prefill_sycl M lg local_mem_size max_work_group_size act_dt state_dt X cu_seqlens initial dt_softplus dt_lo dt_hi S sched s =
     (if headdim S * dstate S * 4 > local_mem_size \<or> headdim S > max_work_group_size then Some s
      else ssd_prefill M lg (elem_ld act_dt) (elem_st act_dt) (elem_ld state_dt) (elem_st state_dt) X cu_seqlens initial dt_softplus dt_lo dt_hi S sched s)"

text \<open>The diagonal scan, one work-item per channel with its state in registers.\<close>

definition kMaxState :: nat where "kMaxState = 16"

definition scan_item :: "('f::{plus,times,zero}, 'z) gmath_scheme \<Rightarrow> ('t \<Rightarrow> 'f) \<Rightarrow> ('f \<Rightarrow> 't) \<Rightarrow> 't list \<Rightarrow> 't list \<Rightarrow> 't list \<Rightarrow> 't list \<Rightarrow> 't list \<Rightarrow> 't list \<Rightarrow> nat \<Rightarrow> nat \<Rightarrow> nat \<Rightarrow> 't list \<Rightarrow> 't list option" where
  "scan_item M ld st u delta A B C D seq n_state c out = do {
     h \<leftarrow> (if n_state \<le> kMaxState then Some (replicate n_state 0) else None);
     dc \<leftarrow> rd D c;
     let Dc = ld dc;
     (h, out) \<leftarrow> foldM (\<lambda>t (h, out). do {
       dl \<leftarrow> rd delta (c * seq + t);
       let dt_v = ld dl;
       uv \<leftarrow> rd u (c * seq + t);
       let ut = ld uv;
       (h, yt) \<leftarrow> foldM (\<lambda>s (h, yt). do {
         av \<leftarrow> rd A (c * n_state + s);
         let dA = exp_fn M (dt_v * ld av);
         bv \<leftarrow> rd B (t * n_state + s);
         let dBu = dt_v * ld bv * ut;
         hv \<leftarrow> rd h s;
         h \<leftarrow> wr h s (dA * hv + dBu);
         cv \<leftarrow> rd C (t * n_state + s);
         Some (h, yt + ld cv * (dA * hv + dBu)) }) [0..<n_state] (h, 0);
       out \<leftarrow> wr out (c * seq + t) (st (yt + Dc * ut));
       Some (h, out) }) [0..<seq] (h, out);
     Some out }"

definition selective_scan :: "('f::{plus,times,zero}, 'z) gmath_scheme \<Rightarrow> ('t \<Rightarrow> 'f) \<Rightarrow> ('f \<Rightarrow> 't) \<Rightarrow> 't list \<Rightarrow> 't list \<Rightarrow> 't list \<Rightarrow> 't list \<Rightarrow> 't list \<Rightarrow> 't list \<Rightarrow> nat \<Rightarrow> nat \<Rightarrow> nat list \<Rightarrow> 't list \<Rightarrow> 't list option" where
  "selective_scan M ld st u delta A B C D seq n_state sched out = foldM (scan_item M ld st u delta A B C D seq n_state) sched out"

definition selective_scan_sycl :: "f32 gmath \<Rightarrow> DType \<Rightarrow> 32 word list \<Rightarrow> 32 word list \<Rightarrow> 32 word list \<Rightarrow> 32 word list \<Rightarrow> 32 word list \<Rightarrow> 32 word list \<Rightarrow> nat \<Rightarrow> nat \<Rightarrow> nat list \<Rightarrow> 32 word list \<Rightarrow> 32 word list option" where
  "selective_scan_sycl M dt = selective_scan M (elem_ld dt) (elem_st dt)"

section \<open>The machine\<close>

type_synonym 'f ssd_tok = "'f \<times> 'f \<times> (nat \<Rightarrow> 'f) \<times> (nat \<Rightarrow> 'f) \<times> ('f \<Rightarrow> 'f)"

text \<open>Decay, input times step, \<open>B\<close> row, \<open>C\<close> row and the skip connection of a token.\<close>

definition ssd_step :: "'f::{plus,times,zero} ssd_tok \<Rightarrow> 'f list \<Rightarrow> 'f \<times> 'f list" where
  "ssd_step = (\<lambda>(dA, dtx, bs, cs, fin). lin_step (\<lambda>n s. s * dA + dtx * bs n) (\<lambda>n s. s * cs n) fin)"

lemma ssd_step_eq: "ssd_step (dA, dtx, bs, cs, fin) w = lin_step (\<lambda>n s. s * dA + dtx * bs n) (\<lambda>n s. s * cs n) fin w"
  by (simp add: ssd_step_def)

interpretation ssd: row_machine ssd_step n for n
  by unfold_locales (auto simp: ssd_step_def split: prod.splits)

definition ssd_token :: "('f::{plus,times,one,ord}, 'z) gmath_scheme \<Rightarrow> ('f \<Rightarrow> 'f) \<Rightarrow> ('t \<Rightarrow> 'f) \<Rightarrow> ('t, 'f) ssd_in \<Rightarrow> ssd_shape \<Rightarrow> bool \<Rightarrow> ('f \<Rightarrow> 'f) \<Rightarrow> nat \<Rightarrow> nat \<Rightarrow> nat \<Rightarrow> 'f ssd_tok" where
  "ssd_token M lg ld X S dt_softplus clamp h d t =
     (let g = h div (nheads S div ngroups S);
          dt0 = ssd_dt X ! (t * nheads S + h) + ssd_bias X ! h;
          dt_h = clamp (if dt_softplus then softplus M lg dt0 else dt0);
          x_d = ld (ssd_x X ! tcell (nheads S) (headdim S) h d t)
      in (exp_fn M (dt_h * ssd_A X ! h), dt_h * x_d,
          \<lambda>n. ld (ssd_B X ! ((t * ngroups S + g) * dstate S + n)), \<lambda>n. ld (ssd_C X ! ((t * ngroups S + g) * dstate S + n)),
          case ssd_D X of None \<Rightarrow> \<lambda>y. y | Some D \<Rightarrow> \<lambda>y. y + D ! (h * headdim S + d) * x_d))"

definition ssd_ok :: "nat \<Rightarrow> ('t, 'f) ssd_in \<Rightarrow> ssd_shape \<Rightarrow> bool" where
  "ssd_ok T X S \<longleftrightarrow> 0 < ngroups S \<and> ngroups S dvd nheads S \<and> length (ssd_x X) = T * nheads S * headdim S \<and> length (ssd_dt X) = T * nheads S \<and>
     length (ssd_A X) = nheads S \<and> length (ssd_bias X) = nheads S \<and> length (ssd_B X) = T * ngroups S * dstate S \<and> length (ssd_C X) = T * ngroups S * dstate S \<and>
     (\<forall>D. ssd_D X = Some D \<longrightarrow> length D = nheads S * headdim S)"

lemma head_group: "g dvd n \<Longrightarrow> 0 < g \<Longrightarrow> h < n \<Longrightarrow> h div (n div g) < g" for h :: nat
proof -
  assume a: "g dvd n" "0 < g" "h < n"
  then obtain k where "n = g * k" by (elim dvdE)
  then show ?thesis using a(2,3) by (simp add: less_mult_imp_div_less)
qed

lemma ssd_reads:
  assumes "ssd_ok T X S" "t < T" "h < nheads S" "d < headdim S"
  shows "rd (ssd_dt X) (t * nheads S + h) = Some (ssd_dt X ! (t * nheads S + h))" "rd (ssd_bias X) h = Some (ssd_bias X ! h)" "rd (ssd_A X) h = Some (ssd_A X ! h)"
    "rd (ssd_x X) ((t * nheads S + h) * headdim S + d) = Some (ssd_x X ! tcell (nheads S) (headdim S) h d t)"
    "\<And>n. n < dstate S \<Longrightarrow> rd (ssd_B X) ((t * ngroups S + h div (nheads S div ngroups S)) * dstate S + n) = Some (ssd_B X ! ((t * ngroups S + h div (nheads S div ngroups S)) * dstate S + n))"
    "\<And>n. n < dstate S \<Longrightarrow> rd (ssd_C X) ((t * ngroups S + h div (nheads S div ngroups S)) * dstate S + n) = Some (ssd_C X ! ((t * ngroups S + h div (nheads S div ngroups S)) * dstate S + n))"
    "\<And>D. ssd_D X = Some D \<Longrightarrow> rd D (h * headdim S + d) = Some (D ! (h * headdim S + d))"
proof -
  note ok = assms(1) [unfolded ssd_ok_def]
  have g: "h div (nheads S div ngroups S) < ngroups S" using head_group ok assms(3) by blast
  show "rd (ssd_dt X) (t * nheads S + h) = Some (ssd_dt X ! (t * nheads S + h))" "rd (ssd_bias X) h = Some (ssd_bias X ! h)" "rd (ssd_A X) h = Some (ssd_A X ! h)"
    using ok assms div_mult_add_lt [of t T h "nheads S"] by simp_all
  show "rd (ssd_x X) ((t * nheads S + h) * headdim S + d) = Some (ssd_x X ! tcell (nheads S) (headdim S) h d t)"
    using ok tcell_less [OF assms(2-4)] by (simp add: tcell_def)
  show "\<And>n. n < dstate S \<Longrightarrow> rd (ssd_B X) ((t * ngroups S + h div (nheads S div ngroups S)) * dstate S + n) = Some (ssd_B X ! ((t * ngroups S + h div (nheads S div ngroups S)) * dstate S + n))"
    "\<And>n. n < dstate S \<Longrightarrow> rd (ssd_C X) ((t * ngroups S + h div (nheads S div ngroups S)) * dstate S + n) = Some (ssd_C X ! ((t * ngroups S + h div (nheads S div ngroups S)) * dstate S + n))"
    using ok div_mult_add_lt [OF div_mult_add_lt [OF assms(2) g]] by simp_all
  show "\<And>D. ssd_D X = Some D \<Longrightarrow> rd D (h * headdim S + d) = Some (D ! (h * headdim S + d))"
    using ok div_mult_add_lt [OF assms(3,4)] by simp
qed

lemma lin_step_fin: "lin_step upd prd fin w = (fin (fst (lin_step upd prd id w)), snd (lin_step upd prd id w))"
  by (simp add: lin_step_def)

section \<open>Prefill\<close>

lemma ssd_token_step_ok:
  assumes ok: "ssd_ok T X S" and t: "t < T" "h < nheads S" "d < headdim S" and w: "length w = dstate S" and out: "length out = T * nheads S * headdim S"
    and D: "\<And>D. ssd_D X = Some D \<Longrightarrow> D_hd = D ! (h * headdim S + d)"
  shows "ssd_token_step M lg ld st X dt_softplus dt_lo dt_hi S h d (ssd_A X ! h) (ssd_bias X ! h) D_hd t (w, out) =
    (let r = ssd_step (ssd_token M lg ld X S dt_softplus (clamp_dt dt_lo dt_hi) h d t) w
     in Some (snd r, out[tcell (nheads S) (headdim S) h d t := st (fst r)]))"
proof -
  note R = ssd_reads [OF ok t]
  let ?g = "h div (nheads S div ngroups S)"
  let ?dt0 = "ssd_dt X ! (t * nheads S + h) + ssd_bias X ! h"
  let ?dt = "clamp_dt dt_lo dt_hi (if dt_softplus then softplus M lg ?dt0 else ?dt0)"
  let ?x = "ld (ssd_x X ! tcell (nheads S) (headdim S) h d t)"
  let ?dA = "exp_fn M (?dt * ssd_A X ! h)" and ?dtx = "?dt * ?x"
  let ?b = "\<lambda>n. ld (ssd_B X ! ((t * ngroups S + ?g) * dstate S + n))" and ?c = "\<lambda>n. ld (ssd_C X ! ((t * ngroups S + ?g) * dstate S + n))"
  let ?L = "lin_step (\<lambda>n s. s * ?dA + ?dtx * ?b n) (\<lambda>n s. s * ?c n) id w"
  have inner: "foldM (\<lambda>n (srow, y). do {
       r \<leftarrow> rd srow n;
       bv \<leftarrow> rd (ssd_B X) ((t * ngroups S + ?g) * dstate S + n);
       let sn = r * ?dA + ?dtx * ld bv;
       srow \<leftarrow> wr srow n sn;
       cv \<leftarrow> rd (ssd_C X) ((t * ngroups S + ?g) * dstate S + n);
       Some (srow, y + sn * ld cv) }) [0..<dstate S] (w, 0) = Some (snd ?L, fst ?L)"
    unfolding w [symmetric] by (rule lin_loop) (use R(5,6) w in \<open>simp add: Let_def\<close>)
  have o: "tcell (nheads S) (headdim S) h d t < length out" "(t * nheads S + h) * headdim S + d = tcell (nheads S) (headdim S) h d t"
    using tcell_less [OF t] out by (simp_all add: tcell_def)
  show ?thesis
  proof (cases "ssd_D X")
    case None
    then show ?thesis
      unfolding ssd_token_step_def Let_def prod.case R(1,4) Option.bind.bind_lunit inner [unfolded Let_def] ssd_step_def ssd_token_def option.case
      using o by (simp add: id_def)
  next
    case (Some Dl)
    then show ?thesis
      unfolding ssd_token_step_def Let_def prod.case R(1,4) Option.bind.bind_lunit inner [unfolded Let_def] ssd_step_def ssd_token_def Some option.case
        lin_step_fin [where fin = "\<lambda>y. y + Dl ! (h * headdim S + d) * ?x"]
      using o D [OF Some] by simp
  qed
qed

definition ssd_init :: "('s \<Rightarrow> 'f::zero) \<Rightarrow> 's list option \<Rightarrow> nat \<Rightarrow> nat \<Rightarrow> 'f list" where
  "ssd_init lds initial N i = (case initial of None \<Rightarrow> replicate N 0 | Some ini \<Rightarrow> map (\<lambda>n. lds (ini ! (i * N + n))) [0..<N])"

text \<open>What lane \<open>i\<close> computes.\<close>

definition ssd_lane_run :: "('f::{plus,times,zero,one,ord}, 'z) gmath_scheme \<Rightarrow> ('f \<Rightarrow> 'f) \<Rightarrow> ('t \<Rightarrow> 'f) \<Rightarrow> ('s \<Rightarrow> 'f) \<Rightarrow> ('t, 'f) ssd_in \<Rightarrow> int list \<Rightarrow> 's list option \<Rightarrow> bool \<Rightarrow> 'f \<Rightarrow> 'f \<Rightarrow> ssd_shape \<Rightarrow> nat \<Rightarrow> nat \<Rightarrow> nat \<Rightarrow> 'f list \<times> 'f list" where
  "ssd_lane_run M lg ld lds X qsl initial dt_softplus dt_lo dt_hi S q h d =
     scan_run ssd_step (map (ssd_token M lg ld X S dt_softplus (clamp_dt dt_lo dt_hi) h d) [bos_of qsl q..<bos_of qsl (q + 1)])
       (ssd_init lds initial (dstate S) (tcell (nheads S) (headdim S) h d q))"

lemma ssd_prefill_item_ok:
  fixes varlen :: "'s list" and out :: "'t list"
  assumes ok: "ssd_ok ntok X S" and qsl: "packed qsl batch ntok" and q: "q < batch" "h < nheads S" "d < headdim S"
    and len: "length varlen = batch * nheads S * headdim S * dstate S" "length out = ntok * nheads S * headdim S"
      "\<And>ini. initial = Some ini \<Longrightarrow> length ini = batch * nheads S * headdim S * dstate S"
    and i_def: "i = tcell (nheads S) (headdim S) h d q" and run_def: "run = ssd_lane_run M lg ld lds X qsl initial dt_softplus dt_lo dt_hi S q h d"
  shows "\<exists>varlen' out'. ssd_prefill_item M lg ld st lds sts X qsl initial dt_softplus dt_lo dt_hi S i (varlen, out) = Some (varlen', out') \<and>
    writes {i * dstate S..<i * dstate S + dstate S} (\<lambda>c. sts (snd run ! (c - i * dstate S))) varlen varlen' \<and>
    writes (seq_cells qsl (nheads S) (headdim S) i)
      (\<lambda>a. st (fst run ! (the_inv_into {bos_of qsl q..<bos_of qsl (q + 1)} (tcell (nheads S) (headdim S) h d) a - bos_of qsl q))) out out'"
proof -
  let ?lo = "bos_of qsl q" and ?hi = "bos_of qsl (q + 1)" and ?w = "ssd_init lds initial (dstate S) i"
  have il: "i < batch * nheads S * headdim S" unfolding i_def by (rule tcell_less [OF q])
  have id: "i div headdim S = q * nheads S + h" "i mod headdim S = d" "i div headdim S div nheads S = q" "i div headdim S mod nheads S = h"
    using q(2,3) by (simp_all add: i_def tcell_def)
  have base: "((q * nheads S + h) * headdim S + d) * dstate S = i * dstate S" by (simp add: i_def tcell_def)
  have b: "?lo \<le> ?hi" "?hi \<le> ntok" using packed_bos [OF qsl q(1)] by simp_all
  have row: "i * dstate S + n < batch * nheads S * headdim S * dstate S" if "n < dstate S" for n by (rule div_mult_add_lt [OF il that])
  have w: "length ?w = dstate S" by (simp add: ssd_init_def split: option.splits)
  have init: "(case initial of Some ini \<Rightarrow> those (map (\<lambda>n. map_option lds (rd ini (i * dstate S + n))) [0..<dstate S]) | None \<Rightarrow> Some (replicate (dstate S) 0)) = Some ?w"
  proof (cases initial)
    case (Some ini)
    have "those (map (\<lambda>n. map_option lds (rd ini (i * dstate S + n))) [0..<dstate S]) = Some (map (\<lambda>n. lds (ini ! (i * dstate S + n))) [0..<dstate S])"
      by (rule those_map_Some) (simp add: rd_def row len(3) [OF Some])
    then show ?thesis by (simp add: Some ssd_init_def)
  qed (simp add: ssd_init_def)
  define Dv where "Dv = (case ssd_D X of None \<Rightarrow> 0 | Some D \<Rightarrow> D ! (h * headdim S + d))"
  have D: "(case ssd_D X of None \<Rightarrow> Some 0 | Some D \<Rightarrow> rd D (h * headdim S + d)) = Some Dv"
  proof (cases "ssd_D X")
    case (Some D)
    then show ?thesis using ok div_mult_add_lt [OF q(2,3)] by (simp add: ssd_ok_def Dv_def)
  qed (simp add: Dv_def)
  have A: "rd (ssd_A X) h = Some (ssd_A X ! h)" "rd (ssd_bias X) h = Some (ssd_bias X ! h)" using ok q(2) by (simp_all add: ssd_ok_def)
  have "\<exists>out'. foldM (ssd_token_step M lg ld st X dt_softplus dt_lo dt_hi S h d (ssd_A X ! h) (ssd_bias X ! h) Dv) [?lo..<?hi] (?w, out) = Some (snd run, out') \<and>
    writes (tcell (nheads S) (headdim S) h d ` {?lo..<?hi}) (\<lambda>a. st (fst run ! (the_inv_into {?lo..<?hi} (tcell (nheads S) (headdim S) h d) a - ?lo))) out out'"
    unfolding run_def ssd_lane_run_def i_def [symmetric]
  proof (rule ssd.token_loop [OF _ _ _ w len(2) b(1)])
    fix t and w' :: "'a list" and o' :: "'t list" assume t: "?lo \<le> t" "t < ?hi" and l: "length w' = dstate S" "length o' = ntok * nheads S * headdim S"
    show "ssd_token_step M lg ld st X dt_softplus dt_lo dt_hi S h d (ssd_A X ! h) (ssd_bias X ! h) Dv t (w', o') =
      Some (snd (ssd_step (ssd_token M lg ld X S dt_softplus (clamp_dt dt_lo dt_hi) h d t) w'),
        o'[tcell (nheads S) (headdim S) h d t := st (fst (ssd_step (ssd_token M lg ld X S dt_softplus (clamp_dt dt_lo dt_hi) h d t) w'))])"
      using ssd_token_step_ok [OF ok _ q(2,3) l, of t Dv] t(2) b(2) by (simp add: Let_def Dv_def)
  next
    fix t assume "t < ?hi"
    then show "tcell (nheads S) (headdim S) h d t < ntok * nheads S * headdim S" using tcell_less [OF _ q(2,3), of t ntok] b(2) by simp
  qed (rule tcell_inj_on [OF q(2,3)])
  then obtain out' where o: "foldM (ssd_token_step M lg ld st X dt_softplus dt_lo dt_hi S h d (ssd_A X ! h) (ssd_bias X ! h) Dv) [?lo..<?hi] (?w, out) = Some (snd run, out')"
    and o2: "writes (tcell (nheads S) (headdim S) h d ` {?lo..<?hi}) (\<lambda>a. st (fst run ! (the_inv_into {?lo..<?hi} (tcell (nheads S) (headdim S) h d) a - ?lo))) out out'"
    by (elim exE conjE)
  have sc: "seq_cells qsl (nheads S) (headdim S) i = tcell (nheads S) (headdim S) h d ` {?lo..<?hi}" unfolding seq_cells_def id(2-4) by (rule refl)
  have lr: "length (snd run) = dstate S" unfolding run_def ssd_lane_run_def i_def [symmetric] by (rule ssd.run_length [OF w])
  have "\<exists>varlen'. foldM (\<lambda>n varlen. do { r \<leftarrow> rd (snd run) n; wr varlen (i * dstate S + n) (sts r) }) [0..<dstate S] varlen = Some varlen' \<and>
      writes {i * dstate S..<i * dstate S + dstate S} (\<lambda>c. sts (snd run ! (c - i * dstate S))) varlen varlen'"
    by (rule store_loop [where v = "\<lambda>n. sts (snd run ! n)"]) (simp_all add: lr len(1) src_row [OF il])
  then obtain varlen' where v: "foldM (\<lambda>n varlen. do { r \<leftarrow> rd (snd run) n; wr varlen (i * dstate S + n) (sts r) }) [0..<dstate S] varlen = Some varlen'"
      "writes {i * dstate S..<i * dstate S + dstate S} (\<lambda>c. sts (snd run ! (c - i * dstate S))) varlen varlen'" by blast
  have us: "rd qsl q = Some (qsl ! q)" "usize (qsl ! q) = ?lo" "rd qsl (q + 1) = Some (qsl ! (q + 1))" "usize (qsl ! (q + 1)) = ?hi"
    using packed_rd [OF qsl, of q] packed_rd [OF qsl, of "q + 1"] q(1) by (simp_all add: bos_of_def)
  have hh: "q * nheads S + h - q * nheads S = h" by simp
  have "ssd_prefill_item M lg ld st lds sts X qsl initial dt_softplus dt_lo dt_hi S i (varlen, out) = Some (varlen', out')"
    unfolding ssd_prefill_item_def Let_def prod.case id id(3) [unfolded id(1)] hh base init us A D o v(1) Option.bind.bind_lunit by simp
  then show ?thesis using v(2) o2 unfolding sc by (intro exI conjI)
qed

lemma ssd_prefill_runs:
  fixes varlen :: "'s list" and out :: "'t list"
  assumes ok: "ssd_ok ntok X S" and qsl: "packed qsl batch ntok" and sched: "schedule (batch * nheads S * headdim S) sched"
    and len: "length varlen = batch * nheads S * headdim S * dstate S" "length out = ntok * nheads S * headdim S"
      "\<And>ini. initial = Some ini \<Longrightarrow> length ini = batch * nheads S * headdim S * dstate S"
  shows "\<exists>varlen' out'. ssd_prefill M lg ld st lds sts X qsl initial dt_softplus dt_lo dt_hi S sched (varlen, out) = Some (varlen', out') \<and>
    (\<forall>q<batch. \<forall>h<nheads S. \<forall>d<headdim S. let run = ssd_lane_run M lg ld lds X qsl initial dt_softplus dt_lo dt_hi S q h d in
      (\<forall>t. bos_of qsl q \<le> t \<and> t < bos_of qsl (q + 1) \<longrightarrow> out' ! tcell (nheads S) (headdim S) h d t = st (fst run ! (t - bos_of qsl q))) \<and>
      (\<forall>n<dstate S. varlen' ! (tcell (nheads S) (headdim S) h d q * dstate S + n) = sts (snd run ! n)))"
proof -
  let ?N = "batch * nheads S * headdim S" and ?H = "nheads S" and ?D = "headdim S" and ?n = "dstate S"
  let ?run = "\<lambda>i. ssd_lane_run M lg ld lds X qsl initial dt_softplus dt_lo dt_hi S (i div ?D div ?H) (i div ?D mod ?H) (i mod ?D)"
  let ?lo = "\<lambda>i. bos_of qsl (i div ?D div ?H)" and ?hi = "\<lambda>i. bos_of qsl (i div ?D div ?H + 1)"
  let ?u = "\<lambda>i c. sts (snd (?run i) ! (c - i * ?n))"
  let ?v = "\<lambda>i a. st (fst (?run i) ! (the_inv_into {?lo i..<?hi i} (tcell ?H ?D (i div ?D mod ?H) (i mod ?D)) a - ?lo i))"
  have lane: "i = tcell ?H ?D (i div ?D mod ?H) (i mod ?D) (i div ?D div ?H)" for i by (simp add: tcell_def)
  have "\<exists>a b. foldM (ssd_prefill_item M lg ld st lds sts X qsl initial dt_softplus dt_lo dt_hi S) sched (varlen, out) = Some (a, b) \<and>
      rows_done (\<lambda>i. {i * ?n..<i * ?n + ?n}) ?u varlen {..<?N} a \<and> rows_done (seq_cells qsl ?H ?D) ?v out {..<?N} b"
  proof (rule launch_rows2 [OF sched row_owns seq_cells_owns [OF qsl]])
    fix i and a :: "'s list" and b :: "'t list" assume i: "i < ?N" and l: "length a = length varlen" "length b = length out"
    note li = head_split [OF i]
    show "\<exists>a' b'. ssd_prefill_item M lg ld st lds sts X qsl initial dt_softplus dt_lo dt_hi S i (a, b) = Some (a', b') \<and>
        writes {i * ?n..<i * ?n + ?n} (?u i) a a' \<and> writes (seq_cells qsl ?H ?D i) (?v i) b b'"
      by (rule ssd_prefill_item_ok [OF ok qsl li _ _ len(3) lane refl]) (use l len in simp_all)
  qed
  then obtain a b where ab: "foldM (ssd_prefill_item M lg ld st lds sts X qsl initial dt_softplus dt_lo dt_hi S) sched (varlen, out) = Some (a, b)"
      "rows_done (\<lambda>i. {i * ?n..<i * ?n + ?n}) ?u varlen {..<?N} a" "rows_done (seq_cells qsl ?H ?D) ?v out {..<?N} b" by (elim exE conjE)
  show ?thesis
  proof (rule exI [of _ a], rule exI [of _ b], intro conjI allI impI)
    show "ssd_prefill M lg ld st lds sts X qsl initial dt_softplus dt_lo dt_hi S sched (varlen, out) = Some (a, b)" using ab(1) by (simp add: ssd_prefill_def)
    fix q h d assume q: "q < batch" "h < ?H" "d < ?D"
    let ?i = "tcell ?H ?D h d q"
    have i: "?i < ?N" by (rule tcell_less [OF q])
    have id: "?i div ?D div ?H = q" "?i div ?D mod ?H = h" "?i mod ?D = d" using q(2,3) by (simp_all add: tcell_def)
    have 1: "b ! tcell ?H ?D h d t = st (fst (ssd_lane_run M lg ld lds X qsl initial dt_softplus dt_lo dt_hi S q h d) ! (t - bos_of qsl q))"
      if t: "bos_of qsl q \<le> t" "t < bos_of qsl (q + 1)" for t
    proof -
      have c: "tcell ?H ?D h d t \<in> seq_cells qsl ?H ?D ?i" unfolding seq_cells_def id using t by simp
      have "tcell ?H ?D h d t < length out" using tcell_less [OF _ q(2,3), of t ntok] packed_bos [OF qsl q(1)] t len(2) by simp
      from rows_done_cell [OF ab(3) i c this] show ?thesis
        unfolding id using t by (simp add: the_inv_into_f_f [OF tcell_inj_on [OF q(2,3)]])
    qed
    have 2: "a ! (?i * ?n + n) = sts (snd (ssd_lane_run M lg ld lds X qsl initial dt_softplus dt_lo dt_hi S q h d) ! n)" if n: "n < ?n" for n
      using rows_done_cell [OF ab(2) i, of "?i * ?n + n"] div_mult_add_lt [OF i n] len(1) n unfolding id by simp
    show "let run = ssd_lane_run M lg ld lds X qsl initial dt_softplus dt_lo dt_hi S q h d in
      (\<forall>t. bos_of qsl q \<le> t \<and> t < bos_of qsl (q + 1) \<longrightarrow> b ! tcell ?H ?D h d t = st (fst run ! (t - bos_of qsl q))) \<and>
      (\<forall>n<?n. a ! (?i * ?n + n) = sts (snd run ! n))"
      using 1 2 by (simp add: Let_def)
  qed
qed

section \<open>The recurrence unrolled\<close>

text \<open>Over the reals the state after \<open>k\<close> tokens is a decayed sum of what the tokens put in.\<close>

lemma ssd_state_unrolled:
  fixes a x :: "nat \<Rightarrow> real"
  assumes w: "length w = N" and n: "n < N"
  shows "snd (scan_run ssd_step (map (\<lambda>t. (a t, x t, b t, c t, fin t)) [0..<k]) w) ! n =
    (\<Prod>u<k. a u) * w ! n + (\<Sum>s<k. (\<Prod>u\<in>{s + 1..<k}. a u) * x s * b s n)"
proof (induction k)
  case (Suc k)
  let ?tok = "\<lambda>t. (a t, x t, b t, c t, fin t)"
  let ?w = "snd (scan_run ssd_step (map ?tok [0..<k]) w)"
  have l: "length ?w = N" by (rule ssd.run_length [OF w])
  have p: "(\<Prod>u\<in>{s + 1..<Suc k}. a u) = a k * (\<Prod>u\<in>{s + 1..<k}. a u)" if "s < k" for s
    using that by (simp add: prod.atLeastLessThan_Suc mult.commute)
  have "snd (scan_run ssd_step (map ?tok [0..<Suc k]) w) ! n = ?w ! n * a k + x k * b k n"
    using l n by (simp add: scan_run_snoc ssd_step_eq lin_step_def)
  also have "\<dots> = (\<Prod>u<Suc k. a u) * w ! n + ((\<Sum>s<k. (\<Prod>u\<in>{s + 1..<k}. a u) * x s * b s n) * a k + x k * b k n)"
    by (simp add: Suc algebra_simps)
  also have "(\<Sum>s<k. (\<Prod>u\<in>{s + 1..<k}. a u) * x s * b s n) * a k = (\<Sum>s<k. (\<Prod>u\<in>{s + 1..<Suc k}. a u) * x s * b s n)"
    unfolding sum_distrib_right by (rule sum.cong) (simp_all only: lessThan_iff p, simp add: mult_ac)
  finally show ?case by simp
qed simp

lemma ssd_output_unrolled:
  fixes a x :: "nat \<Rightarrow> real"
  assumes w: "length w = N" and t: "t < k"
  shows "fst (scan_run ssd_step (map (\<lambda>t. (a t, x t, b t, c t, fin t)) [0..<k]) w) ! t =
    fin t ((\<Prod>u\<in>{..t}. a u) * (\<Sum>n<N. w ! n * c t n) + (\<Sum>s\<le>t. (\<Prod>u\<in>{s + 1..t}. a u) * x s * (\<Sum>n<N. b s n * c t n)))"
proof -
  let ?tok = "\<lambda>t. (a t, x t, b t, c t, fin t)"
  let ?w = "\<lambda>k. snd (scan_run ssd_step (map ?tok [0..<k]) w)"
  have l: "length (?w k) = N" for k by (rule ssd.run_length [OF w])
  have tk: "take t (map ?tok [0..<k]) = map ?tok [0..<t]" using t by (simp add: take_map take_upt)
  have "fst (scan_run ssd_step (map ?tok [0..<k]) w) ! t = fst (ssd_step (?tok t) (?w t))"
    using scan_run_nth [of t "map ?tok [0..<k]" ssd_step w] t unfolding tk by simp
  also have "\<dots> = fin t (\<Sum>n<N. (?w t ! n * a t + x t * b t n) * c t n)"
    by (simp add: ssd_step_eq lin_step_def l fold_plus_sum interv_sum_list_conv_sum_set_nat lessThan_atLeast0)
  also have "(\<Sum>n<N. (?w t ! n * a t + x t * b t n) * c t n) = (\<Sum>n<N. ?w (Suc t) ! n * c t n)"
    by (rule sum.cong) (simp_all add: scan_run_snoc ssd_step_eq lin_step_def l)
  also have "\<dots> = (\<Sum>n<N. ((\<Prod>u<Suc t. a u) * w ! n + (\<Sum>s<Suc t. (\<Prod>u\<in>{s + 1..<Suc t}. a u) * x s * b s n)) * c t n)"
    by (rule sum.cong) (simp_all only: lessThan_iff ssd_state_unrolled [OF w])
  also have "\<dots> = (\<Prod>u<Suc t. a u) * (\<Sum>n<N. w ! n * c t n) + (\<Sum>n<N. \<Sum>s<Suc t. (\<Prod>u\<in>{s + 1..<Suc t}. a u) * x s * b s n * c t n)"
    by (simp only: distrib_right sum.distrib sum_distrib_left sum_distrib_right mult.assoc)
  also have "(\<Sum>n<N. \<Sum>s<Suc t. (\<Prod>u\<in>{s + 1..<Suc t}. a u) * x s * b s n * c t n) = (\<Sum>s<Suc t. (\<Prod>u\<in>{s + 1..<Suc t}. a u) * x s * (\<Sum>n<N. b s n * c t n))"
    by (subst sum.swap) (simp only: sum_distrib_left mult.assoc)
  finally show ?thesis by (simp only: lessThan_Suc_atMost atLeastLessThanSuc_atLeastAtMost)
qed

section \<open>Decode\<close>

definition swc :: "int \<times> int \<times> int \<times> int \<Rightarrow> int \<Rightarrow> nat \<Rightarrow> nat \<Rightarrow> nat \<Rightarrow> nat" where
  "swc ss slot h d n = nat (s4addr ss slot h d n)"

text \<open>The strides address different cells of the cache.\<close>

definition layout4 :: "int \<times> int \<times> int \<times> int \<Rightarrow> nat \<Rightarrow> ssd_shape \<Rightarrow> nat \<Rightarrow> bool" where
  "layout4 ss nslots S len \<longleftrightarrow>
     (\<forall>s<nslots. \<forall>h<nheads S. \<forall>d<headdim S. \<forall>n<dstate S. 0 \<le> s4addr ss (int s) h d n \<and> s4addr ss (int s) h d n < int len) \<and>
     inj_on (\<lambda>(s, h, d, n). s4addr ss (int s) h d n) ({..<nslots} \<times> {..<nheads S} \<times> {..<headdim S} \<times> {..<dstate S})"

lemma layout4_range:
  assumes "layout4 ss nslots S len" "0 \<le> slot" "nat slot < nslots" "h < nheads S" "d < headdim S" "n < dstate S"
  shows "0 \<le> s4addr ss slot h d n" "swc ss slot h d n < len"
proof -
  have "0 \<le> s4addr ss (int (nat slot)) h d n \<and> s4addr ss (int (nat slot)) h d n < int len"
    using assms(1,3-6) unfolding layout4_def by blast
  then show "0 \<le> s4addr ss slot h d n" "swc ss slot h d n < len" using assms(2) by (simp_all add: swc_def nat_less_iff)
qed

lemma layout4_inj:
  assumes L: "layout4 ss nslots S len" and a: "0 \<le> slot" "nat slot < nslots" "h < nheads S" "d < headdim S" "n < dstate S"
    and b: "0 \<le> slot'" "nat slot' < nslots" "h' < nheads S" "d' < headdim S" "n' < dstate S" and e: "swc ss slot h d n = swc ss slot' h' d' n'"
  shows "slot = slot' \<and> h = h' \<and> d = d' \<and> n = n'"
proof -
  have "s4addr ss slot h d n = s4addr ss slot' h' d' n'"
    using layout4_range(1) [OF L a] layout4_range(1) [OF L b] e by (simp add: swc_def)
  then have "(nat slot, h, d, n) = (nat slot', h', d', n')"
    using L a b unfolding layout4_def by (auto dest!: inj_onD [where x = "(nat slot, h, d, n)" and y = "(nat slot', h', d', n')"])
  then show ?thesis using a(1) b(1) by auto
qed

text \<open>Copy on write: no row writes a slot another row reads or writes.\<close>

definition cow_ok :: "int list \<Rightarrow> int list \<Rightarrow> nat \<Rightarrow> bool" where
  "cow_ok src dst nslots \<longleftrightarrow> length dst = length src \<and> i32_slots src \<and> i32_slots dst \<and>
     (\<forall>b<length src. \<forall>b'<length src. b \<noteq> b' \<longrightarrow> \<not> null_slot (src ! b) nslots \<longrightarrow> \<not> null_slot (dst ! b) nslots \<longrightarrow> dst ! b \<noteq> src ! b' \<and> dst ! b \<noteq> dst ! b')"

definition ssd_row :: "('s \<Rightarrow> 'f) \<Rightarrow> int \<times> int \<times> int \<times> int \<Rightarrow> nat \<Rightarrow> 's list \<Rightarrow> int \<Rightarrow> nat \<Rightarrow> nat \<Rightarrow> 'f list" where
  "ssd_row lds ss N state slot h d = map (\<lambda>n. lds (state ! swc ss slot h d n)) [0..<N]"

definition lane_reads :: "int list \<Rightarrow> nat \<Rightarrow> int \<times> int \<times> int \<times> int \<Rightarrow> ssd_shape \<Rightarrow> nat \<Rightarrow> nat set" where
  "lane_reads src nslots ss S i = (let b = i div headdim S div nheads S in
     if null_slot (src ! b) nslots then {} else swc ss (src ! b) (i div headdim S mod nheads S) (i mod headdim S) ` {..<dstate S})"

definition lane_cells :: "int list \<Rightarrow> int list \<Rightarrow> nat \<Rightarrow> int \<times> int \<times> int \<times> int \<Rightarrow> ssd_shape \<Rightarrow> nat \<Rightarrow> nat set" where
  "lane_cells src dst nslots ss S i = (let b = i div headdim S div nheads S in
     if null_slot (src ! b) nslots \<or> null_slot (dst ! b) nslots then {} else swc ss (dst ! b) (i div headdim S mod nheads S) (i mod headdim S) ` {..<dstate S})"

lemma lane_eq: "i div D div H = j div D div H \<Longrightarrow> i div D mod H = j div D mod H \<Longrightarrow> i mod D = j mod D \<Longrightarrow> i = (j :: nat)"
  using lane_unique [of "i div D" H "j div D"] lane_unique [of i D j] by blast

lemma lanes_apart:
  assumes L: "layout4 ss nslots S len" and cow: "cow_ok src dst nslots"
    and i: "i < length src * nheads S * headdim S" "j < length src * nheads S * headdim S" "i \<noteq> j"
  shows "lane_reads src nslots ss S i \<inter> lane_cells src dst nslots ss S j = {}" "lane_cells src dst nslots ss S i \<inter> lane_cells src dst nslots ss S j = {}"
proof -
  let ?b = "\<lambda>i. i div headdim S div nheads S" and ?h = "\<lambda>i. i div headdim S mod nheads S" and ?d = "\<lambda>i. i mod headdim S"
  have no: False if n: "n < dstate S" "m < dstate S" "swc ss slot (?h i) (?d i) n = swc ss (dst ! ?b j) (?h j) (?d j) m"
    and slot: "slot = src ! ?b i \<or> slot = dst ! ?b i" "\<not> null_slot slot nslots" "\<not> null_slot (src ! ?b j) nslots" "\<not> null_slot (dst ! ?b j) nslots" for slot n m
  proof -
    note li = head_split [OF i(1)] and lj = head_split [OF i(2)]
    have si: "0 \<le> slot" "nat slot < nslots" using slot(1,2) li(1) cow slot_valid [of src "?b i" nslots] slot_valid [of dst "?b i" nslots] by (auto simp: cow_ok_def)
    have sj: "0 \<le> dst ! ?b j" "nat (dst ! ?b j) < nslots" using slot(4) lj(1) cow slot_valid [of dst "?b j" nslots] by (auto simp: cow_ok_def)
    have e: "slot = dst ! ?b j" "?h i = ?h j" "?d i = ?d j"
      using layout4_inj [OF L si li(2,3) n(1) sj lj(2,3) n(2,3)] by simp_all
    have "?b j \<noteq> ?b i" using lane_eq [of i "headdim S" "nheads S" j] e(2,3) i(3) by metis
    then show False using cow li(1) lj(1) slot e(1) unfolding cow_ok_def by metis
  qed
  show "lane_reads src nslots ss S i \<inter> lane_cells src dst nslots ss S j = {}" "lane_cells src dst nslots ss S i \<inter> lane_cells src dst nslots ss S j = {}"
    unfolding lane_reads_def lane_cells_def Let_def by (auto dest: no)
qed

lemma lin_read:
  assumes "\<And>n y. n < N \<Longrightarrow> body n (a, y) = Some (a, y + prd n (upd n (row ! n)))" "length row = N"
  shows "foldM body [0..<N] (a, 0) = Some (a, fst (lin_step upd prd id row))"
proof -
  have "\<exists>s. foldM body [0..<N] (a, 0) = Some s \<and> s = (a, fold (\<lambda>n y. y + prd n (upd n (row ! n))) [0..<N] 0)"
    by (rule foldM_upt [where P = "\<lambda>k s. s = (a, fold (\<lambda>n y. y + prd n (upd n (row ! n))) [0..<k] 0)"]) (use assms(1) in auto)
  then show ?thesis by (simp add: lin_step_def assms(2))
qed

lemma ssd_decode_item_ok:
  fixes state :: "'s list" and out :: "'t list"
  assumes ok: "ssd_ok (length src) X S" and L: "layout4 ss nslots S (length state)" and cow: "cow_ok src dst nslots"
    and b: "b < length src" "h < nheads S" "d < headdim S" and out: "length out = length src * nheads S * headdim S"
    and i_def: "i = tcell (nheads S) (headdim S) h d b"
    and r_def: "r = ssd_step (ssd_token M lg ld X S dt_softplus id h d b) (ssd_row lds ss (dstate S) state (src ! b) h d)"
  shows "\<exists>state'. ssd_decode_item M lg ld st lds sts X src dst dt_softplus S nslots ss i (state, out) =
      Some (state', out[i := (if null_slot (src ! b) nslots then st 0 else st (fst r))]) \<and>
    writes (lane_cells src dst nslots ss S i) (\<lambda>c. sts (snd r ! the_inv_into {..<dstate S} (swc ss (dst ! b) h d) c)) state state'"
proof -
  have id: "i div headdim S = b * nheads S + h" "i mod headdim S = d" "i div headdim S div nheads S = b" "i div headdim S mod nheads S = h"
    using b(2,3) by (simp_all add: i_def tcell_def)
  have hh: "b * nheads S + h - b * nheads S = h" and ii: "(b * nheads S + h) * headdim S + d = i" by (simp_all add: i_def tcell_def)
  have il: "i < length out" unfolding i_def out by (rule tcell_less [OF b])
  have sl: "rd src b = Some (src ! b)" "rd dst b = Some (dst ! b)" using b(1) cow by (simp_all add: cow_ok_def)
  have lc: "lane_cells src dst nslots ss S i = (if null_slot (src ! b) nslots \<or> null_slot (dst ! b) nslots then {} else swc ss (dst ! b) h d ` {..<dstate S})"
    by (simp only: lane_cells_def Let_def id(2-4))
  note pre = ssd_decode_item_def Let_def prod.case id(1,2) id(3) [unfolded id(1)] hh ii sl Option.bind.bind_lunit
  show ?thesis
  proof (cases "null_slot (src ! b) nslots")
    case True
    then show ?thesis unfolding pre using il by (simp add: lc)
  next
    case False
    note R = ssd_reads [OF ok b]
    let ?g = "h div (nheads S div ngroups S)"
    let ?dt0 = "ssd_dt X ! (b * nheads S + h) + ssd_bias X ! h"
    let ?dt = "if dt_softplus then softplus M lg ?dt0 else ?dt0"
    let ?x = "ld (ssd_x X ! tcell (nheads S) (headdim S) h d b)"
    let ?dA = "exp_fn M (?dt * ssd_A X ! h)" and ?dtx = "?dt * ?x"
    let ?b = "\<lambda>n. ld (ssd_B X ! ((b * ngroups S + ?g) * dstate S + n))" and ?c = "\<lambda>n. ld (ssd_C X ! ((b * ngroups S + ?g) * dstate S + n))"
    let ?row = "ssd_row lds ss (dstate S) state (src ! b) h d"
    let ?L = "lin_step (\<lambda>n s. s * ?dA + ?dtx * ?b n) (\<lambda>n s. s * ?c n) id ?row"
    let ?body = "\<lambda>n (state, y). do {
         sv \<leftarrow> rdi state (s4addr ss (src ! b) h d n);
         bv \<leftarrow> rd (ssd_B X) ((b * ngroups S + ?g) * dstate S + n);
         let s = lds sv * ?dA + ?dtx * ld bv;
         state \<leftarrow> (if \<not> null_slot (dst ! b) nslots then wri state (s4addr ss (dst ! b) h d n) (sts s) else Some state);
         cv \<leftarrow> rd (ssd_C X) ((b * ngroups S + ?g) * dstate S + n);
         Some (state, y + s * ld cv) }"
    have sv: "0 \<le> src ! b" "nat (src ! b) < nslots" using slot_valid [of src b nslots] cow b(1) False by (simp_all add: cow_ok_def)
    note RS = layout4_range [OF L sv b(2,3)]
    have rl: "length ?row = dstate S" "\<And>n. n < dstate S \<Longrightarrow> ?row ! n = lds (state ! swc ss (src ! b) h d n)" by (simp_all add: ssd_row_def)
    have "\<exists>state'. foldM ?body [0..<dstate S] (state, 0) = Some (state', fst ?L) \<and>
        writes (lane_cells src dst nslots ss S i) (\<lambda>c. sts (snd ?L ! the_inv_into {..<dstate S} (swc ss (dst ! b) h d) c)) state state'"
    proof (cases "null_slot (dst ! b) nslots")
      case True
      have "foldM ?body [0..<dstate S] (state, 0) = Some (state, fst ?L)"
        by (rule lin_read [OF _ rl(1)]) (use R(5,6) RS rl(2) True in \<open>simp add: Let_def swc_def\<close>)
      then show ?thesis using True by (simp add: lc)
    next
      case dst: False
      have dv: "0 \<le> dst ! b" "nat (dst ! b) < nslots" using slot_valid [of dst b nslots] cow b(1) dst by (simp_all add: cow_ok_def)
      note RD = layout4_range [OF L dv b(2,3)]
      have inj: "inj_on (swc ss (dst ! b) h d) {..<dstate S}" using layout4_inj [OF L dv b(2,3) _ dv b(2,3)] by (auto intro: inj_onI)
      have ap: "swc ss (src ! b) h d n \<noteq> swc ss (dst ! b) h d m" if "n < dstate S" "m < dstate S" "n \<noteq> m" for n m
        using layout4_inj [OF L sv b(2,3) that(1) dv b(2,3) that(2)] that(3) by blast
      have c: "lane_cells src dst nslots ss S i = swc ss (dst ! b) h d ` {..<dstate S}" using False dst by (simp add: lc)
      show ?thesis unfolding c
        by (rule lin_memory [where lds = lds and row = ?row and R = "swc ss (src ! b) h d", OF _ inj RD(2) ap _ RS(2)])
          (use R(5,6) RS RD dst in \<open>simp_all add: ssd_row_def Let_def swc_def\<close>)
    qed
    then obtain state' where s': "foldM ?body [0..<dstate S] (state, 0) = Some (state', fst ?L)"
        "writes (lane_cells src dst nslots ss S i) (\<lambda>c. sts (snd ?L ! the_inv_into {..<dstate S} (swc ss (dst ! b) h d) c)) state state'" by (elim exE conjE)
    have r: "snd r = snd ?L" "fst r = (case ssd_D X of None \<Rightarrow> fst ?L | Some D \<Rightarrow> fst ?L + D ! (h * headdim S + d) * ?x)"
      unfolding r_def ssd_token_def Let_def ssd_step_eq id_apply by (simp_all add: lin_step_def split: option.splits)
    have y: "(case ssd_D X of None \<Rightarrow> Some (fst ?L) | Some D \<Rightarrow> do { dv \<leftarrow> rd D (h * headdim S + d); Some (fst ?L + dv * ?x) }) = Some (fst r)"
      unfolding r(2) using R(7) by (simp split: option.splits)
    have "ssd_decode_item M lg ld st lds sts X src dst dt_softplus S nslots ss i (state, out) = Some (state', out[i := st (fst r)])"
      using False il y unfolding pre R(1-3) R(4) [unfolded ii] Option.bind.bind_lunit s'(1) [unfolded Let_def] by simp
    then show ?thesis using s'(2) False unfolding r(1) by auto
  qed
qed

lemma ssd_decode_runs:
  fixes state :: "'s list" and out :: "'t list"
  assumes ok: "ssd_ok (length src) X S" and L: "layout4 ss nslots S (length state)" and cow: "cow_ok src dst nslots"
    and out: "length out = length src * nheads S * headdim S" and sched: "schedule (length src * nheads S * headdim S) sched"
  shows "\<exists>state' out'. ssd_decode M lg ld st lds sts X src dst dt_softplus S nslots ss sched (state, out) = Some (state', out') \<and>
    (\<forall>b<length src. \<forall>h<nheads S. \<forall>d<headdim S.
      let r = ssd_step (ssd_token M lg ld X S dt_softplus id h d b) (ssd_row lds ss (dstate S) state (src ! b) h d)
      in out' ! tcell (nheads S) (headdim S) h d b = (if null_slot (src ! b) nslots then st 0 else st (fst r)) \<and>
        (\<not> null_slot (src ! b) nslots \<and> \<not> null_slot (dst ! b) nslots \<longrightarrow> (\<forall>n<dstate S. state' ! swc ss (dst ! b) h d n = sts (snd r ! n)))) \<and>
    (\<forall>a<length state. (\<forall>b<length src. \<not> null_slot (src ! b) nslots \<longrightarrow> \<not> null_slot (dst ! b) nslots \<longrightarrow>
      (\<forall>h<nheads S. \<forall>d<headdim S. \<forall>n<dstate S. a \<noteq> swc ss (dst ! b) h d n)) \<longrightarrow> state' ! a = state ! a)"
proof -
  let ?H = "nheads S" and ?D = "headdim S" and ?n = "dstate S" and ?N = "length src * nheads S * headdim S"
  let ?b = "\<lambda>i. i div ?D div ?H" and ?h = "\<lambda>i. i div ?D mod ?H" and ?d = "\<lambda>i. i mod ?D"
  let ?r = "\<lambda>b h d. ssd_step (ssd_token M lg ld X S dt_softplus id h d b) (ssd_row lds ss ?n state (src ! b) h d)"
  let ?u = "\<lambda>i c. sts (snd (?r (?b i) (?h i) (?d i)) ! the_inv_into {..<?n} (swc ss (dst ! ?b i) (?h i) (?d i)) c)"
  let ?v = "\<lambda>i a. if null_slot (src ! ?b i) nslots then st 0 else st (fst (?r (?b i) (?h i) (?d i)))"
  have lane: "i = tcell ?H ?D (?h i) (?d i) (?b i)" for i by (simp add: tcell_def)
  have own: "owns ?N (lane_cells src dst nslots ss S)" unfolding owns_def using lanes_apart(2) [OF L cow] by blast
  have own': "owns ?N (\<lambda>i. {i})" by (auto simp: owns_def)
  have "\<exists>a b. foldM (ssd_decode_item M lg ld st lds sts X src dst dt_softplus S nslots ss) sched (state, out) = Some (a, b) \<and>
      rows_done (lane_cells src dst nslots ss S) ?u state {..<?N} a \<and> rows_done (\<lambda>i. {i}) ?v out {..<?N} b"
  proof (rule launch_reads2 [OF sched own own', where reads = "lane_reads src nslots ss S"])
    fix i j assume "i < ?N" "j < ?N" "i \<noteq> j"
    then show "lane_reads src nslots ss S i \<inter> lane_cells src dst nslots ss S j = {}" by (rule lanes_apart(1) [OF L cow])
  next
    fix i and a :: "'s list" and b :: "'t list" assume i: "i < ?N" and l: "length a = length state" "length b = length out"
      and same: "\<And>c. c \<in> lane_reads src nslots ss S i \<Longrightarrow> c < length state \<Longrightarrow> a ! c = state ! c"
    note li = head_split [OF i]
    have La: "layout4 ss nslots S (length a)" using L l by simp
    have ob: "length b = length src * nheads S * headdim S" using l out by simp
    have row: "ssd_row lds ss ?n a (src ! ?b i) (?h i) (?d i) = ssd_row lds ss ?n state (src ! ?b i) (?h i) (?d i)" if "\<not> null_slot (src ! ?b i) nslots"
    proof -
      have sv: "0 \<le> src ! ?b i" "nat (src ! ?b i) < nslots" using slot_valid [of src "?b i" nslots] cow li(1) that by (simp_all add: cow_ok_def)
      have "a ! swc ss (src ! ?b i) (?h i) (?d i) n = state ! swc ss (src ! ?b i) (?h i) (?d i) n" if n: "n < ?n" for n
        by (rule same) (use layout4_range(2) [OF L sv li(2,3) n] n \<open>\<not> null_slot (src ! ?b i) nslots\<close> in \<open>simp_all add: lane_reads_def Let_def\<close>)
      then show ?thesis by (simp add: ssd_row_def)
    qed
    from ssd_decode_item_ok [OF ok La cow li ob lane refl, of M lg ld st lds sts dt_softplus] obtain a' where
      a': "ssd_decode_item M lg ld st lds sts X src dst dt_softplus S nslots ss i (a, b) =
          Some (a', b[i := (if null_slot (src ! ?b i) nslots then st 0 else st (fst (ssd_step (ssd_token M lg ld X S dt_softplus id (?h i) (?d i) (?b i)) (ssd_row lds ss ?n a (src ! ?b i) (?h i) (?d i)))))])"
        "writes (lane_cells src dst nslots ss S i) (\<lambda>c. sts (snd (ssd_step (ssd_token M lg ld X S dt_softplus id (?h i) (?d i) (?b i)) (ssd_row lds ss ?n a (src ! ?b i) (?h i) (?d i))) !
          the_inv_into {..<?n} (swc ss (dst ! ?b i) (?h i) (?d i)) c)) a a'" by (elim exE conjE)
    have w: "writes (lane_cells src dst nslots ss S i) (?u i) a a'"
    proof (cases "null_slot (src ! ?b i) nslots")
      case True
      then have "lane_cells src dst nslots ss S i = {}" by (simp add: lane_cells_def Let_def)
      then show ?thesis using a'(2) by simp
    qed (use a'(2) row in simp)
    have "b[i := (if null_slot (src ! ?b i) nslots then st 0 else st (fst (ssd_step (ssd_token M lg ld X S dt_softplus id (?h i) (?d i) (?b i)) (ssd_row lds ss ?n a (src ! ?b i) (?h i) (?d i)))))] = b[i := ?v i i]"
      using row by simp
    moreover have "writes {i} (?v i) b (b[i := ?v i i])" by (rule writes_single) (use ob i in simp)
    ultimately show "\<exists>a' b'. ssd_decode_item M lg ld st lds sts X src dst dt_softplus S nslots ss i (a, b) = Some (a', b') \<and>
        writes (lane_cells src dst nslots ss S i) (?u i) a a' \<and> writes {i} (?v i) b b'"
      using a'(1) w by metis
  qed
  then obtain a b where ab: "foldM (ssd_decode_item M lg ld st lds sts X src dst dt_softplus S nslots ss) sched (state, out) = Some (a, b)"
      "rows_done (lane_cells src dst nslots ss S) ?u state {..<?N} a" "rows_done (\<lambda>i. {i}) ?v out {..<?N} b" by (elim exE conjE)
  have cell: "b ! tcell ?H ?D h d q = (if null_slot (src ! q) nslots then st 0 else st (fst (?r q h d)))"
      "\<not> null_slot (src ! q) nslots \<Longrightarrow> \<not> null_slot (dst ! q) nslots \<Longrightarrow> n < ?n \<Longrightarrow> a ! swc ss (dst ! q) h d n = sts (snd (?r q h d) ! n)"
    if q: "q < length src" "h < ?H" "d < ?D" for q h d n
  proof -
    let ?i = "tcell ?H ?D h d q"
    have i: "?i < ?N" by (rule tcell_less [OF q])
    have id: "?b ?i = q" "?h ?i = h" "?d ?i = d" using q(2,3) by (simp_all add: tcell_def)
    show "b ! ?i = (if null_slot (src ! q) nslots then st 0 else st (fst (?r q h d)))"
      using rows_done_cell [OF ab(3) i, of ?i] i out unfolding id by simp
    assume nn: "\<not> null_slot (src ! q) nslots" "\<not> null_slot (dst ! q) nslots" and n: "n < ?n"
    have dv: "0 \<le> dst ! q" "nat (dst ! q) < nslots" using slot_valid [of dst q nslots] cow q(1) nn(2) by (simp_all add: cow_ok_def)
    have inj: "inj_on (swc ss (dst ! q) h d) {..<?n}" using layout4_inj [OF L dv q(2,3) _ dv q(2,3)] by (auto intro: inj_onI)
    have "swc ss (dst ! q) h d n \<in> lane_cells src dst nslots ss S ?i" using nn n by (simp add: lane_cells_def Let_def id)
    from rows_done_cell [OF ab(2) i this layout4_range(2) [OF L dv q(2,3) n]]
    show "a ! swc ss (dst ! q) h d n = sts (snd (?r q h d) ! n)" unfolding id using n by (simp add: the_inv_into_f_f [OF inj])
  qed
  have frame: "a ! c = state ! c" if c: "c < length state" and fr: "\<forall>b<length src. \<not> null_slot (src ! b) nslots \<longrightarrow> \<not> null_slot (dst ! b) nslots \<longrightarrow>
      (\<forall>h<?H. \<forall>d<?D. \<forall>n<?n. c \<noteq> swc ss (dst ! b) h d n)" for c
  proof (rule rows_done_frame [OF ab(2) c])
    fix i assume "i \<in> {..<?N}"
    then have li: "?b i < length src" "?h i < ?H" "?d i < ?D" using head_split by simp_all
    show "c \<notin> lane_cells src dst nslots ss S i" using fr li by (auto simp: lane_cells_def Let_def)
  qed
  show ?thesis
    by (rule exI [of _ a], rule exI [of _ b]) (use ab(1) cell frame in \<open>simp add: ssd_decode_def Let_def\<close>)
qed

section \<open>The diagonal scan\<close>

definition sscan_step :: "('f \<times> (nat \<Rightarrow> 'f) \<times> (nat \<Rightarrow> 'f) \<times> (nat \<Rightarrow> 'f) \<times> 'f) \<Rightarrow> 'f::{plus,times,zero} list \<Rightarrow> 'f \<times> 'f list" where
  "sscan_step = (\<lambda>(ut, dA, dBu, cs, Dc). lin_step (\<lambda>s h. dA s * h + dBu s) (\<lambda>s h. cs s * h) (\<lambda>yt. yt + Dc * ut))"

interpretation sscan: row_machine sscan_step n for n
  by unfold_locales (auto simp: sscan_step_def split: prod.splits)

definition sscan_token :: "('f::{plus,times,zero}, 'z) gmath_scheme \<Rightarrow> ('t \<Rightarrow> 'f) \<Rightarrow> 't list \<Rightarrow> 't list \<Rightarrow> 't list \<Rightarrow> 't list \<Rightarrow> 't list \<Rightarrow> 't list \<Rightarrow> nat \<Rightarrow> nat \<Rightarrow> nat \<Rightarrow> nat \<Rightarrow>
    'f \<times> (nat \<Rightarrow> 'f) \<times> (nat \<Rightarrow> 'f) \<times> (nat \<Rightarrow> 'f) \<times> 'f" where
  "sscan_token M ld u delta A B C D seq n_state c t =
     (let dt_v = ld (delta ! (c * seq + t)); ut = ld (u ! (c * seq + t))
      in (ut, \<lambda>s. exp_fn M (dt_v * ld (A ! (c * n_state + s))), \<lambda>s. dt_v * ld (B ! (t * n_state + s)) * ut, \<lambda>s. ld (C ! (t * n_state + s)), ld (D ! c)))"

lemma scan_item_ok:
  fixes out :: "'t list"
  assumes n: "n_state \<le> kMaxState" and c: "c < n_chan"
    and len: "length u = n_chan * seq" "length delta = n_chan * seq" "length A = n_chan * n_state" "length B = seq * n_state" "length C = seq * n_state" "length D = n_chan" "length out = n_chan * seq"
  shows "\<exists>out'. scan_item M ld st u delta A B C D seq n_state c out = Some out' \<and>
    writes (row_cells seq c) (\<lambda>a. st (fst (scan_run sscan_step (map (sscan_token M ld u delta A B C D seq n_state c) [0..<seq]) (replicate n_state 0)) ! (a - c * seq))) out out'"
proof -
  let ?tok = "sscan_token M ld u delta A B C D seq n_state c"
  let ?body = "\<lambda>t (h, out). do {
       dl \<leftarrow> rd delta (c * seq + t);
       let dt_v = ld dl;
       uv \<leftarrow> rd u (c * seq + t);
       let ut = ld uv;
       (h, yt) \<leftarrow> foldM (\<lambda>s (h, yt). do {
         av \<leftarrow> rd A (c * n_state + s);
         let dA = exp_fn M (dt_v * ld av);
         bv \<leftarrow> rd B (t * n_state + s);
         let dBu = dt_v * ld bv * ut;
         hv \<leftarrow> rd h s;
         h \<leftarrow> wr h s (dA * hv + dBu);
         cv \<leftarrow> rd C (t * n_state + s);
         Some (h, yt + ld cv * (dA * hv + dBu)) }) [0..<n_state] (h, 0);
       out \<leftarrow> wr out (c * seq + t) (st (yt + ld (D ! c) * ut));
       Some (h, out) }"
  have body: "?body t (w, o1) = Some (snd (sscan_step (?tok t) w), o1[c * seq + t := st (fst (sscan_step (?tok t) w))])"
    if t: "t < seq" and w: "length w = n_state" and o1: "length o1 = n_chan * seq" for t w and o1 :: "'t list"
  proof -
    have i: "c * seq + t < n_chan * seq" by (rule div_mult_add_lt [OF c t])
    let ?dt = "ld (delta ! (c * seq + t))" and ?ut = "ld (u ! (c * seq + t))"
    let ?L = "lin_step (\<lambda>s h. exp_fn M (?dt * ld (A ! (c * n_state + s))) * h + ?dt * ld (B ! (t * n_state + s)) * ?ut) (\<lambda>s h. ld (C ! (t * n_state + s)) * h) id w"
    have inner: "foldM (\<lambda>s (h, yt). do {
         av \<leftarrow> rd A (c * n_state + s);
         let dA = exp_fn M (?dt * ld av);
         bv \<leftarrow> rd B (t * n_state + s);
         let dBu = ?dt * ld bv * ?ut;
         hv \<leftarrow> rd h s;
         h \<leftarrow> wr h s (dA * hv + dBu);
         cv \<leftarrow> rd C (t * n_state + s);
         Some (h, yt + ld cv * (dA * hv + dBu)) }) [0..<n_state] (w, 0) = Some (snd ?L, fst ?L)"
      unfolding w [symmetric]
      by (rule lin_loop) (use len w div_mult_add_lt [OF c] div_mult_add_lt [OF t] in \<open>simp add: Let_def\<close>)
    show ?thesis
      using i len(1,2) o1 by (simp add: inner [unfolded Let_def] sscan_step_def sscan_token_def Let_def lin_step_fin [where fin = "\<lambda>yt. yt + ld (D ! c) * ?ut"])
  qed
  have "\<exists>out'. foldM ?body [0..<seq] (replicate n_state 0, out) = Some (snd (scan_run sscan_step (map ?tok [0..<seq]) (replicate n_state 0)), out') \<and>
      writes ((+) (c * seq) ` {0..<seq}) (\<lambda>a. st (fst (scan_run sscan_step (map ?tok [0..<seq]) (replicate n_state 0)) ! (the_inv_into {0..<seq} ((+) (c * seq)) a - 0))) out out'"
    by (rule sscan.token_loop [OF body, where n = n_state]) (use len(7) div_mult_add_lt [OF c] in auto)
  then obtain out' where o: "foldM ?body [0..<seq] (replicate n_state 0, out) = Some (snd (scan_run sscan_step (map ?tok [0..<seq]) (replicate n_state 0)), out')"
      "writes ((+) (c * seq) ` {0..<seq}) (\<lambda>a. st (fst (scan_run sscan_step (map ?tok [0..<seq]) (replicate n_state 0)) ! (the_inv_into {0..<seq} ((+) (c * seq)) a - 0))) out out'"
    by (elim exE conjE)
  have inv: "the_inv_into {0..<seq} ((+) (c * seq)) a = a - c * seq" if "a \<in> row_cells seq c" for a
    using that the_inv_into_f_f [of "(+) (c * seq)" "{0..<seq}" "a - c * seq"] by auto
  have "writes (row_cells seq c) (\<lambda>a. st (fst (scan_run sscan_step (map ?tok [0..<seq]) (replicate n_state 0)) ! (a - c * seq))) out out'"
    using o(2) inv by (auto simp: writes_def add.commute image_add_atLeastLessThan)
  moreover have "scan_item M ld st u delta A B C D seq n_state c out = Some out'"
    using n c len(6) o(1) by (simp add: scan_item_def)
  ultimately show ?thesis by blast
qed

lemma scan_runs:
  fixes out :: "'t list"
  assumes n: "n_state \<le> kMaxState" and sched: "schedule n_chan sched"
    and len: "length u = n_chan * seq" "length delta = n_chan * seq" "length A = n_chan * n_state" "length B = seq * n_state" "length C = seq * n_state" "length D = n_chan" "length out = n_chan * seq"
  shows "selective_scan M ld st u delta A B C D seq n_state sched out =
    Some (map (\<lambda>a. st (fst (scan_run sscan_step (map (sscan_token M ld u delta A B C D seq n_state (a div seq)) [0..<seq]) (replicate n_state 0)) ! (a mod seq))) [0..<n_chan * seq])"
  unfolding selective_scan_def
  by (rule rows_launch [OF sched len(7), where u = "\<lambda>c k. st (fst (scan_run sscan_step (map (sscan_token M ld u delta A B C D seq n_state c) [0..<seq]) (replicate n_state 0)) ! k)"])
    (rule scan_item_ok [OF n _ len(1-6)])

section \<open>Properties\<close>

text \<open>Decay, scaled input, \<open>B\<close> and \<open>C\<close> rows and skip connection of a token.\<close>

abbreviation tok_decay :: "'f ssd_tok \<Rightarrow> 'f" where "tok_decay T \<equiv> fst T"
abbreviation tok_input :: "'f ssd_tok \<Rightarrow> 'f" where "tok_input T \<equiv> fst (snd T)"
abbreviation tok_B :: "'f ssd_tok \<Rightarrow> nat \<Rightarrow> 'f" where "tok_B T \<equiv> fst (snd (snd T))"
abbreviation tok_C :: "'f ssd_tok \<Rightarrow> nat \<Rightarrow> 'f" where "tok_C T \<equiv> fst (snd (snd (snd T)))"
abbreviation tok_skip :: "'f ssd_tok \<Rightarrow> 'f \<Rightarrow> 'f" where "tok_skip T \<equiv> snd (snd (snd (snd T)))"

text \<open>C29: The prefill kernel refines the recurrence: in any arithmetic and under every order of its work-items, for every packed sequence, head and
  row, the outputs are the conversions of the outputs of \<open>ssd_step\<close> run over the tokens of the sequence from its initial state (zero without one), and the
  final state row is stored; empty sequences store their initial state.\<close>

theorem ssd_prefill_refines:
  fixes varlen :: "'s list" and out :: "'t list"
  assumes "ssd_ok ntok X S" "packed qsl batch ntok" "schedule (batch * nheads S * headdim S) sched"
    and "length varlen = batch * nheads S * headdim S * dstate S" "length out = ntok * nheads S * headdim S"
    and "\<And>ini. initial = Some ini \<Longrightarrow> length ini = batch * nheads S * headdim S * dstate S"
  shows "\<exists>varlen' out'. ssd_prefill M lg ld st lds sts X qsl initial dt_softplus dt_lo dt_hi S sched (varlen, out) = Some (varlen', out') \<and>
    (\<forall>q<batch. \<forall>h<nheads S. \<forall>d<headdim S. let run = ssd_lane_run M lg ld lds X qsl initial dt_softplus dt_lo dt_hi S q h d in
      (\<forall>t. bos_of qsl q \<le> t \<and> t < bos_of qsl (q + 1) \<longrightarrow> out' ! tcell (nheads S) (headdim S) h d t = st (fst run ! (t - bos_of qsl q))) \<and>
      (\<forall>n<dstate S. varlen' ! (tcell (nheads S) (headdim S) h d q * dstate S + n) = sts (snd run ! n)))"
  by (rule ssd_prefill_runs [OF assms])

text \<open>C8: Over the reals prefill is the masked attention that the recurrence unrolls to: the output for token \<open>k\<close> of a sequence is, up to the skip connection, the
  initial state decayed by all tokens up to \<open>k\<close> and read through \<open>C\<close>, plus the sum over \<open>s \<le> k\<close> of the scaled input of \<open>s\<close> times \<open>B \<bullet> C\<close>, decayed by the
  tokens in between.\<close>

theorem ssd_prefill_unrolled:
  fixes X :: "('t, real) ssd_in" and varlen :: "'s list" and out :: "'t list"
  assumes ok: "ssd_ok ntok X S" and qsl: "packed qsl batch ntok" and sched: "schedule (batch * nheads S * headdim S) sched"
    and len: "length varlen = batch * nheads S * headdim S * dstate S" "length out = ntok * nheads S * headdim S"
      "\<And>ini. initial = Some ini \<Longrightarrow> length ini = batch * nheads S * headdim S * dstate S"
  shows "\<exists>varlen' out'. ssd_prefill exact_math lg ld st lds sts X qsl initial dt_softplus dt_lo dt_hi S sched (varlen, out) = Some (varlen', out') \<and>
    (\<forall>q<batch. \<forall>h<nheads S. \<forall>d<headdim S. \<forall>k< seq_len qsl q.
      let T = (\<lambda>s. ssd_token exact_math lg ld X S dt_softplus (clamp_dt dt_lo dt_hi) h d (bos_of qsl q + s));
          w = ssd_init lds initial (dstate S) (tcell (nheads S) (headdim S) h d q)
      in out' ! tcell (nheads S) (headdim S) h d (bos_of qsl q + k) = st (tok_skip (T k)
        ((\<Prod>u\<in>{..k}. tok_decay (T u)) * (\<Sum>n<dstate S. w ! n * tok_C (T k) n) +
         (\<Sum>s\<le>k. (\<Prod>u\<in>{s + 1..k}. tok_decay (T u)) * tok_input (T s) * (\<Sum>n<dstate S. tok_B (T s) n * tok_C (T k) n)))))"
proof -
  let ?run = "\<lambda>q h d. ssd_lane_run exact_math lg ld lds X qsl initial dt_softplus dt_lo dt_hi S q h d"
  have "\<exists>varlen' out'. ssd_prefill exact_math lg ld st lds sts X qsl initial dt_softplus dt_lo dt_hi S sched (varlen, out) = Some (varlen', out') \<and>
    (\<forall>q<batch. \<forall>h<nheads S. \<forall>d<headdim S. let run = ?run q h d in
      (\<forall>t. bos_of qsl q \<le> t \<and> t < bos_of qsl (q + 1) \<longrightarrow> out' ! tcell (nheads S) (headdim S) h d t = st (fst run ! (t - bos_of qsl q))) \<and>
      (\<forall>n<dstate S. varlen' ! (tcell (nheads S) (headdim S) h d q * dstate S + n) = sts (snd run ! n)))"
    by (rule ssd_prefill_runs [OF ok qsl sched len(1,2)]) (rule len(3))
  then obtain varlen' out' where r: "ssd_prefill exact_math lg ld st lds sts X qsl initial dt_softplus dt_lo dt_hi S sched (varlen, out) = Some (varlen', out')"
    and all: "\<forall>q<batch. \<forall>h<nheads S. \<forall>d<headdim S. let run = ?run q h d in
      (\<forall>t. bos_of qsl q \<le> t \<and> t < bos_of qsl (q + 1) \<longrightarrow> out' ! tcell (nheads S) (headdim S) h d t = st (fst run ! (t - bos_of qsl q))) \<and>
      (\<forall>n<dstate S. varlen' ! (tcell (nheads S) (headdim S) h d q * dstate S + n) = sts (snd run ! n))"
    by (elim exE conjE)
  have "out' ! tcell (nheads S) (headdim S) h d (bos_of qsl q + k) = st (tok_skip (T k)
        ((\<Prod>u\<in>{..k}. tok_decay (T u)) * (\<Sum>n<dstate S. w ! n * tok_C (T k) n) +
         (\<Sum>s\<le>k. (\<Prod>u\<in>{s + 1..k}. tok_decay (T u)) * tok_input (T s) * (\<Sum>n<dstate S. tok_B (T s) n * tok_C (T k) n))))"
    if q: "q < batch" "h < nheads S" "d < headdim S" and k: "k < seq_len qsl q"
      and T: "T = (\<lambda>s. ssd_token exact_math lg ld X S dt_softplus (clamp_dt dt_lo dt_hi) h d (bos_of qsl q + s))"
      and w: "w = ssd_init lds initial (dstate S) (tcell (nheads S) (headdim S) h d q)" for q h d k T w
  proof -
    let ?lo = "bos_of qsl q" and ?hi = "bos_of qsl (q + 1)"
    have sl: "seq_len qsl q = ?hi - ?lo" by (simp add: seq_len_def bos_of_def)
    have toks: "map (ssd_token exact_math lg ld X S dt_softplus (clamp_dt dt_lo dt_hi) h d) [?lo..<?hi] =
        map (\<lambda>s. (tok_decay (T s), tok_input (T s), tok_B (T s), tok_C (T s), tok_skip (T s))) [0..< seq_len qsl q]"
      unfolding sl T by (rule nth_equalityI) simp_all
    have lw: "length w = dstate S" by (simp add: w ssd_init_def split: option.splits)
    have "out' ! tcell (nheads S) (headdim S) h d (?lo + k) = st (fst (ssd_lane_run exact_math lg ld lds X qsl initial dt_softplus dt_lo dt_hi S q h d) ! k)"
      using all [rule_format, OF q, unfolded Let_def, THEN conjunct1, rule_format, of "?lo + k"] k sl by simp
    then show ?thesis unfolding ssd_lane_run_def toks w [symmetric] ssd_output_unrolled [OF lw k] .
  qed
  then show ?thesis using r unfolding Let_def by blast
qed

text \<open>The decode kernel takes one step of the same recurrence per row of the batch: in any arithmetic, under every order of the work-items and for every strides that address
  different cells, the output is that of \<open>ssd_step\<close> on the row of the source slot and the new row is stored in the destination slot (when it exists), read from the
  state before the launch even when other rows are being written; rows with a null source emit zero; no other cell of the cache changes.\<close>

theorem ssd_decode_refines:
  fixes state :: "'s list" and out :: "'t list"
  assumes "ssd_ok (length src) X S" "layout4 ss nslots S (length state)" "cow_ok src dst nslots"
    and "length out = length src * nheads S * headdim S" "schedule (length src * nheads S * headdim S) sched"
  shows "\<exists>state' out'. ssd_decode M lg ld st lds sts X src dst dt_softplus S nslots ss sched (state, out) = Some (state', out') \<and>
    (\<forall>b<length src. \<forall>h<nheads S. \<forall>d<headdim S.
      let r = ssd_step (ssd_token M lg ld X S dt_softplus id h d b) (ssd_row lds ss (dstate S) state (src ! b) h d)
      in out' ! tcell (nheads S) (headdim S) h d b = (if null_slot (src ! b) nslots then st 0 else st (fst r)) \<and>
        (\<not> null_slot (src ! b) nslots \<and> \<not> null_slot (dst ! b) nslots \<longrightarrow> (\<forall>n<dstate S. state' ! swc ss (dst ! b) h d n = sts (snd r ! n)))) \<and>
    (\<forall>a<length state. (\<forall>b<length src. \<not> null_slot (src ! b) nslots \<longrightarrow> \<not> null_slot (dst ! b) nslots \<longrightarrow>
      (\<forall>h<nheads S. \<forall>d<headdim S. \<forall>n<dstate S. a \<noteq> swc ss (dst ! b) h d n)) \<longrightarrow> state' ! a = state ! a)"
  by (rule ssd_decode_runs [OF assms])

text \<open>The selective scan is its recurrence: with at most 16 states a channel, in any arithmetic and order of the channels, cell \<open>(c, t)\<close> of the output is the output for
  token \<open>t\<close> of the diagonal machine started from zero; with more states the register array of the kernel is overrun.\<close>

theorem selective_scan_refines:
  fixes out :: "'t list"
  assumes "schedule n_chan sched" "length u = n_chan * seq" "length delta = n_chan * seq" "length A = n_chan * n_state" "length B = seq * n_state" "length C = seq * n_state"
    and "length D = n_chan" "length out = n_chan * seq"
  shows "selective_scan M ld st u delta A B C D seq n_state sched out =
    (if n_state \<le> kMaxState \<or> n_chan = 0
     then Some (map (\<lambda>a. st (fst (scan_run sscan_step (map (sscan_token M ld u delta A B C D seq n_state (a div seq)) [0..<seq]) (replicate n_state 0)) ! (a mod seq))) [0..<n_chan * seq])
     else None)"
proof (cases "n_state \<le> kMaxState")
  case True
  then show ?thesis using scan_runs [OF True assms] by simp
next
  case False
  then have no: "scan_item M ld st u delta A B C D seq n_state c m = None" for c m by (simp add: scan_item_def)
  show ?thesis
  proof (cases sched)
    case Nil
    then have "n_chan = 0" using schedule_length [OF assms(1)] by simp
    then show ?thesis using Nil assms(8) by (simp add: selective_scan_def)
  next
    case (Cons c cs)
    then have "n_chan \<noteq> 0" using schedule_length [OF assms(1)] by auto
    then show ?thesis using False Cons no by (simp add: selective_scan_def)
  qed
qed

text \<open>One head, one row of two states; two tokens.\<close>

definition x_two :: "(real, real) ssd_in" where
  "x_two = \<lparr>ssd_x = [3, 5], ssd_dt = [1, 2], ssd_A = [0], ssd_B = [1, 2, 3, 4], ssd_C = [5, 6, 7, 8], ssd_D = Some [10], ssd_bias = [1]\<rparr>"

definition s_two :: ssd_shape where
  "s_two = \<lparr>nheads = 1, headdim = 1, dstate = 2, ngroups = 1\<rparr>"

lemma x_two_ok: "ssd_ok 2 x_two s_two"
  by (simp add: ssd_ok_def x_two_def s_two_def)

lemma two_packed: "packed [0, 2] 1 2"
  by (simp add: packed_def)

lemma ssd_prefill_refines_witness:
  "\<exists>varlen' out'. ssd_prefill exact_math ln id id id id x_two [0, 2] None False 0 10 s_two [0] ([8, 8], [9, 9]) = Some (varlen', out') \<and>
    out' ! 1 = fst (ssd_lane_run exact_math ln id id x_two [0, 2] None False 0 10 s_two 0 0 0) ! 1"
proof -
  have s: "nheads s_two = 1" "headdim s_two = 1" "dstate s_two = 2" by (simp_all add: s_two_def)
  have b: "bos_of [0, 2] 0 = 0" "bos_of [0, 2] (0 + 1) = 2" by (simp_all add: bos_of_def)
  from ssd_prefill_refines [OF x_two_ok two_packed, of "[0]" "[8, 8 :: real]" "[9, 9 :: real]" None exact_math ln id id id id False 0 10]
  obtain v o1 where "ssd_prefill exact_math ln id id id id x_two [0, 2] None False 0 10 s_two [0] ([8, 8], [9, 9]) = Some (v, o1)"
    "\<forall>t. bos_of [0, 2] 0 \<le> t \<and> t < bos_of [0, 2] (0 + 1) \<longrightarrow>
      o1 ! tcell 1 1 0 0 t = id (fst (ssd_lane_run exact_math ln id id x_two [0, 2] None False 0 10 s_two 0 0 0) ! (t - bos_of [0, 2] 0))"
    by (auto simp: s schedule_def Let_def)
  moreover from this(2) [rule_format, of 1] have "o1 ! 1 = fst (ssd_lane_run exact_math ln id id x_two [0, 2] None False 0 10 s_two 0 0 0) ! 1"
    unfolding b by (simp add: tcell_def)
  ultimately show ?thesis by blast
qed

lemma s_two_fields: "nheads s_two = 1" "headdim s_two = 1" "dstate s_two = 2" "ngroups s_two = 1"
  by (simp_all add: s_two_def)

lemma ssd_prefill_unrolled_witness:
  "\<exists>varlen' out'. ssd_prefill exact_math ln id id id id x_two [0, 2] None False 0 10 s_two [0] ([8, 8], [9, 9]) = Some (varlen', out') \<and> out' ! 0 = 6 * (1 * 5 + 2 * 6) + 10 * 3"
proof -
  let ?T = "\<lambda>s. ssd_token exact_math ln id x_two s_two False (clamp_dt 0 10) 0 0 (bos_of [0, 2] 0 + s)"
  let ?w = "ssd_init id None (dstate s_two) (tcell (nheads s_two) (headdim s_two) 0 0 0)"
  have sched: "schedule (1 * nheads s_two * headdim s_two) [0]"
    by (simp add: s_two_def schedule_def lessThan_Suc)
  have z: "(0 :: nat) < 1" "0 < nheads s_two" "0 < headdim s_two" "0 < seq_len [0, 2] 0"
    by (simp_all add: s_two_def seq_len_def)
  have "\<exists>v o1. ssd_prefill exact_math ln id id id id x_two [0, 2] None False 0 10 s_two [0] ([8, 8], [9, 9]) = Some (v, o1) \<and>
    (\<forall>q<1. \<forall>h<nheads s_two. \<forall>d<headdim s_two. \<forall>k< seq_len [0, 2] q.
      let T = (\<lambda>s. ssd_token exact_math ln id x_two s_two False (clamp_dt 0 10) h d (bos_of [0, 2] q + s));
          w = ssd_init id None (dstate s_two) (tcell (nheads s_two) (headdim s_two) h d q)
      in o1 ! tcell (nheads s_two) (headdim s_two) h d (bos_of [0, 2] q + k) = id (tok_skip (T k)
        ((\<Prod>u\<in>{..k}. tok_decay (T u)) * (\<Sum>n<dstate s_two. w ! n * tok_C (T k) n) +
         (\<Sum>s\<le>k. (\<Prod>u\<in>{s + 1..k}. tok_decay (T u)) * tok_input (T s) * (\<Sum>n<dstate s_two. tok_B (T s) n * tok_C (T k) n)))))"
    by (rule ssd_prefill_unrolled [OF x_two_ok two_packed sched]) (simp_all add: s_two_fields)
  then obtain v o1 where r: "ssd_prefill exact_math ln id id id id x_two [0, 2] None False 0 10 s_two [0] ([8, 8], [9, 9]) = Some (v, o1)"
    and all: "\<forall>q<1. \<forall>h<nheads s_two. \<forall>d<headdim s_two. \<forall>k< seq_len [0, 2] q.
      let T = (\<lambda>s. ssd_token exact_math ln id x_two s_two False (clamp_dt 0 10) h d (bos_of [0, 2] q + s));
          w = ssd_init id None (dstate s_two) (tcell (nheads s_two) (headdim s_two) h d q)
      in o1 ! tcell (nheads s_two) (headdim s_two) h d (bos_of [0, 2] q + k) = id (tok_skip (T k)
        ((\<Prod>u\<in>{..k}. tok_decay (T u)) * (\<Sum>n<dstate s_two. w ! n * tok_C (T k) n) +
         (\<Sum>s\<le>k. (\<Prod>u\<in>{s + 1..k}. tok_decay (T u)) * tok_input (T s) * (\<Sum>n<dstate s_two. tok_B (T s) n * tok_C (T k) n))))"
    by (elim exE conjE)
  have l2: "{..<2 :: nat} = {0, 1}" by auto
  have "o1 ! 0 = 6 * (1 * 5 + 2 * 6) + 10 * 3"
    using all [rule_format, OF z, unfolded Let_def s_two_fields l2]
    by (simp add: tcell_def ssd_token_def Let_def x_two_def s_two_def clamp_dt_def ssd_init_def bos_of_def)
  then show ?thesis using r by blast
qed

end
