(* ===== verification/Gdn.thy ===== *)
theory Gdn
  imports Ssd
begin

text \<open>
  The gated delta rule (\<open>gated_delta_rule.sycl.cpp\<close>: normalization of queries and keys, prefill and decode in one kernel) and the
  fixed-shape decode of Qwen (\<open>qwen_gdn.sycl.cpp\<close>: a width-4 causal convolution and then the recurrence on its result).  A work-item owns
  one row of the state of a head.  Both recurrences are proved to take the steps of one machine, \<open>gdr_step\<close>, and over the reals that
  machine is the delta rule.  Between the two barriers of a token the local arrays hold what the items of the group staged.
\<close>

section \<open>The varlen kernel\<close>

record ('t, 'f) gdn_in =
  gdn_Q :: "'t list"
  gdn_K :: "'t list"
  gdn_V :: "'t list"
  gdn_b :: "'f list"
  gdn_a :: "'f list"
  gdn_A_log :: "'f list"
  gdn_bias :: "'f list option"

record gdn_shape =
  k_heads :: nat
  k_dim :: nat
  v_heads :: nat
  v_dim :: nat

definition kMaxDk :: nat where "kMaxDk = 128"

definition gdr_sigmoid :: "('f::{plus,uminus,inverse,one}, 'z) gmath_scheme \<Rightarrow> 'f \<Rightarrow> 'f" where
  "gdr_sigmoid M x = 1 / (1 + exp_fn M (- x))"

definition l2norm_item :: "('f::{plus,times,zero}, 'z) gmath_scheme \<Rightarrow> ('t \<Rightarrow> 'f) \<Rightarrow> ('f \<Rightarrow> 't) \<Rightarrow> nat \<Rightarrow> 'f \<Rightarrow> nat \<Rightarrow> 't list \<Rightarrow> 't list option" where
  "l2norm_item M ld st dk eps r qk = do {
     ss \<leftarrow> foldM (\<lambda>i ss. do { v \<leftarrow> rd qk (r * dk + i); let f = ld v; Some (ss + f * f) }) [0..<dk] 0;
     let inv = rsqrt_fn M (ss + eps);
     foldM (\<lambda>i qk. do { v \<leftarrow> rd qk (r * dk + i); wr qk (r * dk + i) (st (ld v * inv)) }) [0..<dk] qk }"

definition l2norm_typed :: "('f::{plus,times,zero}, 'z) gmath_scheme \<Rightarrow> ('t \<Rightarrow> 'f) \<Rightarrow> ('f \<Rightarrow> 't) \<Rightarrow> nat \<Rightarrow> 'f \<Rightarrow> nat list \<Rightarrow> 't list \<Rightarrow> 't list option" where
  "l2norm_typed M ld st dk eps sched qk = foldM (l2norm_item M ld st dk eps) sched qk"

definition gdn_l2norm_qk_sycl :: "f32 gmath \<Rightarrow> DType \<Rightarrow> nat \<Rightarrow> f32 \<Rightarrow> nat list \<Rightarrow> 32 word list \<Rightarrow> 32 word list option" where
  "gdn_l2norm_qk_sycl M dt = l2norm_typed M (elem_ld dt) (elem_st dt)"

text \<open>The items of a group of \<open>dv\<close> copy \<open>dk\<close> elements to local memory, in any order.\<close>

definition stage_local :: "('t \<Rightarrow> 'f::zero) \<Rightarrow> 't list \<Rightarrow> nat \<Rightarrow> nat \<Rightarrow> nat \<Rightarrow> nat list \<Rightarrow> 'f list option" where
  "stage_local ld src base dk dv lanes =
     foldM (\<lambda>d. foldM (\<lambda>i qs. do { v \<leftarrow> rd src (base + i); wr qs i (ld v) }) (strided d dv dk)) lanes (replicate dk 0)"

definition gdr_token_step :: "('f::{plus,times,minus,uminus,inverse,zero,one,ord}, 'z) gmath_scheme \<Rightarrow> ('f \<Rightarrow> 'f) \<Rightarrow> ('t \<Rightarrow> 'f) \<Rightarrow> ('f \<Rightarrow> 't) \<Rightarrow>
    ('t, 'f) gdn_in \<Rightarrow> gdn_shape \<Rightarrow> (nat \<Rightarrow> nat list) \<Rightarrow> bool \<Rightarrow> nat \<Rightarrow> nat \<Rightarrow> nat \<Rightarrow> 'f \<Rightarrow> 'f \<Rightarrow> nat \<Rightarrow> 'f list \<times> 't list \<Rightarrow> ('f list \<times> 't list) option" where
  "gdr_token_step M lg ld st X S lanes slot_ok hv hk d neg_A bias t s = do {
     let (state, core_out) = s;
     qs \<leftarrow> stage_local ld (gdn_Q X) ((t * k_heads S + hk) * k_dim S) (k_dim S) (v_dim S) (lanes t);
     ks \<leftarrow> stage_local ld (gdn_K X) ((t * k_heads S + hk) * k_dim S) (k_dim S) (v_dim S) (lanes t);
     bv \<leftarrow> rd (gdn_b X) (t * v_heads S + hv);
     let beta = gdr_sigmoid M bv;
     av \<leftarrow> rd (gdn_a X) (t * v_heads S + hv);
     let g = exp_fn M (neg_A * softplus M lg (av + bias));
     (state, kv) \<leftarrow> foldM (\<lambda>i (state, kv). do {
       sv \<leftarrow> rd state i;
       state \<leftarrow> wr state i (sv * g);
       k \<leftarrow> rd ks i;
       Some (state, kv + sv * g * k) }) [0..<k_dim S] (state, 0);
     vv \<leftarrow> rd (gdn_V X) ((t * v_heads S + hv) * v_dim S + d);
     let delta = (ld vv - kv) * beta;
     (state, out) \<leftarrow> foldM (\<lambda>i (state, out). do {
       sv \<leftarrow> rd state i;
       k \<leftarrow> rd ks i;
       state \<leftarrow> wr state i (sv + k * delta);
       q \<leftarrow> rd qs i;
       Some (state, out + (sv + k * delta) * q) }) [0..<k_dim S] (state, 0);
     core_out \<leftarrow> wr core_out ((t * v_heads S + hv) * v_dim S + d) (if slot_ok then st out else st 0);
     Some (state, core_out) }"

definition gdr_item :: "('f::{plus,times,minus,uminus,inverse,zero,one,ord}, 'z) gmath_scheme \<Rightarrow> ('f \<Rightarrow> 'f) \<Rightarrow> ('t \<Rightarrow> 'f) \<Rightarrow> ('f \<Rightarrow> 't) \<Rightarrow> ('s \<Rightarrow> 'f) \<Rightarrow> ('f \<Rightarrow> 's) \<Rightarrow>
    ('t, 'f) gdn_in \<Rightarrow> gdn_shape \<Rightarrow> int list \<Rightarrow> int list \<Rightarrow> bool list option \<Rightarrow> nat \<Rightarrow> (nat \<Rightarrow> nat list) \<Rightarrow> nat \<Rightarrow> 's list \<times> 't list \<Rightarrow> ('s list \<times> 't list) option" where
  "gdr_item M lg ld st lds sts X S cu_seqlens state_indices has_initial_state nslots lanes gid s = do {
     let (ssm_state, core_out) = s;
     let shv = gid div v_dim S;
     let d = gid mod v_dim S;
     let q = shv div v_heads S;
     let hv = shv mod v_heads S;
     let hk = hv div (v_heads S div k_heads S);
     slot \<leftarrow> rd state_indices q;
     let slot_ok = (\<not> null_slot slot nslots);
     lo \<leftarrow> rd cu_seqlens q;
     hi \<leftarrow> rd cu_seqlens (q + 1);
     let row = ((usize slot * v_heads S + hv) * v_dim S + d) * k_dim S;
     use_init \<leftarrow> (if slot_ok then (case has_initial_state of None \<Rightarrow> Some True | Some h \<Rightarrow> rd h q) else Some False);
     state \<leftarrow> (if k_dim S \<le> kMaxDk then those (map (\<lambda>i. if use_init then map_option lds (rd ssm_state (row + i)) else Some 0) [0..<k_dim S]) else None);
     al \<leftarrow> rd (gdn_A_log X) hv;
     let neg_A = - exp_fn M al;
     bias \<leftarrow> (case gdn_bias X of None \<Rightarrow> Some 0 | Some bs \<Rightarrow> rd bs hv);
     (state, core_out) \<leftarrow> foldM (gdr_token_step M lg ld st X S lanes slot_ok hv hk d neg_A bias) [usize lo..<usize hi] (state, core_out);
     ssm_state \<leftarrow> (if slot_ok \<and> usize hi > usize lo
        then foldM (\<lambda>i ssm_state. do { r \<leftarrow> rd state i; wr ssm_state (row + i) (sts r) }) [0..<k_dim S] ssm_state
        else Some ssm_state);
     Some (ssm_state, core_out) }"

text \<open>The entry point rejects heads that do not fit the registers or do not divide.\<close>

definition gated_delta_rule :: "('f::{plus,times,minus,uminus,inverse,zero,one,ord}, 'z) gmath_scheme \<Rightarrow> ('f \<Rightarrow> 'f) \<Rightarrow> ('t \<Rightarrow> 'f) \<Rightarrow> ('f \<Rightarrow> 't) \<Rightarrow> ('s \<Rightarrow> 'f) \<Rightarrow> ('f \<Rightarrow> 's) \<Rightarrow>
    ('t, 'f) gdn_in \<Rightarrow> gdn_shape \<Rightarrow> int list \<Rightarrow> int list \<Rightarrow> bool list option \<Rightarrow> nat \<Rightarrow> (nat \<Rightarrow> nat list) \<Rightarrow> nat list \<Rightarrow> 's list \<times> 't list \<Rightarrow> ('s list \<times> 't list) option" where
  "gated_delta_rule M lg ld st lds sts X S cu_seqlens state_indices has_initial_state nslots lanes sched s =
     (if k_dim S > kMaxDk \<or> v_heads S mod k_heads S \<noteq> 0 then Some s
      else foldM (gdr_item M lg ld st lds sts X S cu_seqlens state_indices has_initial_state nslots lanes) sched s)"

definition gated_delta_rule_varlen_sycl :: "f32 gmath \<Rightarrow> (f32 \<Rightarrow> f32) \<Rightarrow> DType \<Rightarrow> DType \<Rightarrow>
    (32 word, f32) gdn_in \<Rightarrow> gdn_shape \<Rightarrow> int list \<Rightarrow> int list \<Rightarrow> bool list option \<Rightarrow> nat \<Rightarrow> (nat \<Rightarrow> nat list) \<Rightarrow> nat list \<Rightarrow> 32 word list \<times> 32 word list \<Rightarrow> (32 word list \<times> 32 word list) option" where
  "gated_delta_rule_varlen_sycl M lg act_dt state_dt = gated_delta_rule M lg (elem_ld act_dt) (elem_st act_dt) (elem_ld state_dt) (elem_st state_dt)"

section \<open>The machine\<close>

text \<open>Decay, \<open>beta\<close>, value, key and query of a token.\<close>

type_synonym 'f gdr_tok = "'f \<times> 'f \<times> 'f \<times> (nat \<Rightarrow> 'f) \<times> (nat \<Rightarrow> 'f)"

definition gdr_step :: "'f::{plus,times,minus,zero} gdr_tok \<Rightarrow> 'f list \<Rightarrow> 'f \<times> 'f list" where
  "gdr_step = (\<lambda>(g, beta, v, ks, qs) w. let (kv, w) = lin_step (\<lambda>i s. s * g) (\<lambda>i s. s * ks i) id w
     in lin_step (\<lambda>i s. s + ks i * ((v - kv) * beta)) (\<lambda>i s. s * qs i) id w)"

lemma gdr_step_length: "length (snd (gdr_step tok w)) = length w"
  by (simp add: gdr_step_def Let_def split: prod.splits) (metis lin_step_length snd_conv)

interpretation gdr: row_machine gdr_step n for n
  by unfold_locales (simp add: gdr_step_length)

definition bias_at :: "'f::zero list option \<Rightarrow> nat \<Rightarrow> 'f" where
  "bias_at bias h = (case bias of None \<Rightarrow> 0 | Some bs \<Rightarrow> bs ! h)"

definition gdr_token :: "('f::{plus,times,uminus,inverse,zero,one,ord}, 'z) gmath_scheme \<Rightarrow> ('f \<Rightarrow> 'f) \<Rightarrow> ('t \<Rightarrow> 'f) \<Rightarrow> ('t, 'f) gdn_in \<Rightarrow> gdn_shape \<Rightarrow> nat \<Rightarrow> nat \<Rightarrow> nat \<Rightarrow> 'f gdr_tok" where
  "gdr_token M lg ld X S hv d t =
     (let hk = hv div (v_heads S div k_heads S)
      in (exp_fn M (- exp_fn M (gdn_A_log X ! hv) * softplus M lg (gdn_a X ! (t * v_heads S + hv) + bias_at (gdn_bias X) hv)),
          gdr_sigmoid M (gdn_b X ! (t * v_heads S + hv)),
          ld (gdn_V X ! tcell (v_heads S) (v_dim S) hv d t),
          \<lambda>i. ld (gdn_K X ! ((t * k_heads S + hk) * k_dim S + i)),
          \<lambda>i. ld (gdn_Q X ! ((t * k_heads S + hk) * k_dim S + i))))"

definition gdr_ok :: "nat \<Rightarrow> ('t, 'f) gdn_in \<Rightarrow> gdn_shape \<Rightarrow> bool" where
  "gdr_ok T X S \<longleftrightarrow> 0 < k_heads S \<and> k_heads S dvd v_heads S \<and> k_dim S \<le> kMaxDk \<and>
     length (gdn_Q X) = T * k_heads S * k_dim S \<and> length (gdn_K X) = T * k_heads S * k_dim S \<and> length (gdn_V X) = T * v_heads S * v_dim S \<and>
     length (gdn_b X) = T * v_heads S \<and> length (gdn_a X) = T * v_heads S \<and> length (gdn_A_log X) = v_heads S \<and>
     (\<forall>bs. gdn_bias X = Some bs \<longrightarrow> length bs = v_heads S)"

lemma stage_local_all:
  assumes "schedule dv lanes" "0 < dv" "base + dk \<le> length src"
  shows "stage_local ld src base dk dv lanes = Some (map (\<lambda>i. ld (src ! (base + i))) [0..<dk])"
proof -
  have r: "rd src (base + i) = Some (src ! (base + i))" if "i < dk" for i using assms(3) that by simp
  have "stage_local ld src base dk dv lanes = row_store 1 dv dk 0 (\<lambda>i. map_option ld (rd src (base + i))) lanes (replicate dk 0)"
    unfolding stage_local_def row_store_def lane_indices_1 by (intro foldM_cong refl ext) (auto split: option.splits bind_splits)
  moreover obtain m where "row_store 1 dv dk 0 (\<lambda>i. map_option ld (rd src (base + i))) lanes (replicate dk 0) = Some m"
      "writes {0..<0 + dk} (\<lambda>a. ld (src ! (base + (a - 0)))) (replicate dk 0) m"
    using row_store_writes [OF assms(1,2), of 1 0 dk "replicate dk 0" "\<lambda>i. map_option ld (rd src (base + i))" "\<lambda>i. ld (src ! (base + i))"] r by auto
  ultimately show ?thesis using writes_map_upt [of dk _ _ m] by (simp add: atLeast0LessThan)
qed

lemma gdr_group:
  assumes "0 < k_heads S" "k_heads S dvd v_heads S" "hv < v_heads S"
  shows "hv div (v_heads S div k_heads S) < k_heads S"
proof -
  have "v_heads S = k_heads S * (v_heads S div k_heads S)" using assms(2) by simp
  then show ?thesis using assms(1,3) by (metis less_mult_imp_div_less mult.commute)
qed

lemma gdr_token_step_ok:
  fixes out :: "'t list" and w :: "'f::{plus,times,minus,uminus,inverse,zero,one,ord} list"
  assumes ok: "gdr_ok ntok X S" and t: "t < ntok" "hv < v_heads S" "d < v_dim S" and w: "length w = k_dim S" and out: "length out = ntok * v_heads S * v_dim S"
    and lanes: "\<And>t. schedule (v_dim S) (lanes t)"
  shows "gdr_token_step M lg ld st X S lanes slot_ok hv (hv div (v_heads S div k_heads S)) d (- exp_fn M (gdn_A_log X ! hv)) (bias_at (gdn_bias X) hv) t (w, out) =
    (let r = gdr_step (gdr_token M lg ld X S hv d t) w in Some (snd r, out[tcell (v_heads S) (v_dim S) hv d t := (if slot_ok then st else (\<lambda>_. st 0)) (fst r)]))"
proof -
  let ?hk = "hv div (v_heads S div k_heads S)" and ?n = "k_dim S"
  let ?off = "(t * k_heads S + ?hk) * ?n"
  have hk: "?hk < k_heads S" by (rule gdr_group [OF _ _ t(2)]) (use ok in \<open>simp_all add: gdr_ok_def\<close>)
  have row: "?off + ?n \<le> ntok * k_heads S * ?n" by (rule src_row [OF div_mult_add_lt [OF t(1) hk]])
  have v0: "0 < v_dim S" using t(3) by simp
  let ?ks = "\<lambda>i. ld (gdn_K X ! (?off + i))" and ?qs = "\<lambda>i. ld (gdn_Q X ! (?off + i))"
  have stage: "stage_local ld (gdn_Q X) ?off ?n (v_dim S) (lanes t) = Some (map ?qs [0..<?n])" "stage_local ld (gdn_K X) ?off ?n (v_dim S) (lanes t) = Some (map ?ks [0..<?n])"
    by (rule stage_local_all [OF lanes v0], use row ok in \<open>simp only: gdr_ok_def\<close>)+
  have ba: "rd (gdn_b X) (t * v_heads S + hv) = Some (gdn_b X ! (t * v_heads S + hv))" "rd (gdn_a X) (t * v_heads S + hv) = Some (gdn_a X ! (t * v_heads S + hv))"
    using ok div_mult_add_lt [OF t(1,2)] by (simp_all add: gdr_ok_def)
  have V: "rd (gdn_V X) ((t * v_heads S + hv) * v_dim S + d) = Some (gdn_V X ! tcell (v_heads S) (v_dim S) hv d t)"
    using ok tcell_less [OF t] by (simp add: gdr_ok_def tcell_def)
  have o: "(t * v_heads S + hv) * v_dim S + d < length out" using tcell_less [OF t] out by (simp add: tcell_def)
  let ?beta = "gdr_sigmoid M (gdn_b X ! (t * v_heads S + hv))"
  let ?g = "exp_fn M (- exp_fn M (gdn_A_log X ! hv) * softplus M lg (gdn_a X ! (t * v_heads S + hv) + bias_at (gdn_bias X) hv))"
  let ?v = "ld (gdn_V X ! tcell (v_heads S) (v_dim S) hv d t)"
  define L1 where "L1 = lin_step (\<lambda>i s. s * ?g) (\<lambda>i s. s * ?ks i) id w"
  let ?delta = "(?v - fst L1) * ?beta"
  define L2 where "L2 = lin_step (\<lambda>i s. s + ?ks i * ?delta) (\<lambda>i s. s * ?qs i) id (snd L1)"
  have l1: "length (snd L1) = ?n" by (simp add: L1_def w)
  have a: "foldM (\<lambda>i (state, kv). do {
       sv \<leftarrow> rd state i;
       state \<leftarrow> wr state i (sv * ?g);
       k \<leftarrow> rd (map ?ks [0..<?n]) i;
       Some (state, kv + sv * ?g * k) }) [0..<?n] (w, 0) = Some (snd L1, fst L1)"
    unfolding L1_def w [symmetric] by (rule lin_loop) (use w in simp)
  have b: "foldM (\<lambda>i (state, out). do {
       sv \<leftarrow> rd state i;
       k \<leftarrow> rd (map ?ks [0..<?n]) i;
       state \<leftarrow> wr state i (sv + k * ?delta);
       q \<leftarrow> rd (map ?qs [0..<?n]) i;
       Some (state, out + (sv + k * ?delta) * q) }) [0..<?n] (snd L1, 0) = Some (snd L2, fst L2)"
    unfolding L2_def l1 [symmetric] by (rule lin_loop) (use l1 in simp)
  have r: "gdr_step (gdr_token M lg ld X S hv d t) w = (fst L2, snd L2)"
    unfolding gdr_token_def gdr_step_def Let_def case_prod_beta L2_def L1_def by simp
  show ?thesis
    unfolding gdr_token_step_def Let_def prod.case stage ba V Option.bind.bind_lunit a b r using o by (simp add: tcell_def)
qed

section \<open>The launch\<close>

definition gdr_init :: "('s \<Rightarrow> 'f::zero) \<Rightarrow> 's list \<Rightarrow> nat \<Rightarrow> nat \<Rightarrow> bool \<Rightarrow> 'f list" where
  "gdr_init lds ssm N row from_cache = map (\<lambda>i. if from_cache then lds (ssm ! (row * N + i)) else 0) [0..<N]"

definition starts_from_cache :: "int list \<Rightarrow> nat \<Rightarrow> bool list option \<Rightarrow> nat \<Rightarrow> bool" where
  "starts_from_cache slots nslots has_init q \<longleftrightarrow> \<not> null_slot (slots ! q) nslots \<and> (case has_init of None \<Rightarrow> True | Some h \<Rightarrow> h ! q)"

definition gdr_row :: "gdn_shape \<Rightarrow> int list \<Rightarrow> nat \<Rightarrow> nat \<Rightarrow> nat \<Rightarrow> nat" where
  "gdr_row S slots q hv d = tcell (v_heads S) (v_dim S) hv d (nat (slots ! q))"

text \<open>What the lane of row \<open>d\<close> of head \<open>hv\<close> computes for sequence \<open>q\<close>.\<close>

definition gdr_lane_run :: "('f::{plus,times,minus,uminus,inverse,zero,one,ord}, 'z) gmath_scheme \<Rightarrow> ('f \<Rightarrow> 'f) \<Rightarrow> ('t \<Rightarrow> 'f) \<Rightarrow> ('s \<Rightarrow> 'f) \<Rightarrow>
    ('t, 'f) gdn_in \<Rightarrow> gdn_shape \<Rightarrow> int list \<Rightarrow> int list \<Rightarrow> bool list option \<Rightarrow> nat \<Rightarrow> 's list \<Rightarrow> nat \<Rightarrow> nat \<Rightarrow> nat \<Rightarrow> 'f list \<times> 'f list" where
  "gdr_lane_run M lg ld lds X S qsl slots has_init nslots ssm q hv d =
     scan_run gdr_step (map (gdr_token M lg ld X S hv d) [bos_of qsl q..<bos_of qsl (q + 1)])
       (gdr_init lds ssm (k_dim S) (gdr_row S slots q hv d) (starts_from_cache slots nslots has_init q))"

definition gdr_reads :: "gdn_shape \<Rightarrow> int list \<Rightarrow> nat \<Rightarrow> nat \<Rightarrow> nat set" where
  "gdr_reads S slots nslots i = (let q = i div v_dim S div v_heads S in
     if null_slot (slots ! q) nslots then {} else row_cells (k_dim S) (gdr_row S slots q (i div v_dim S mod v_heads S) (i mod v_dim S)))"

definition gdr_cells :: "gdn_shape \<Rightarrow> int list \<Rightarrow> int list \<Rightarrow> nat \<Rightarrow> nat \<Rightarrow> nat set" where
  "gdr_cells S qsl slots nslots i = (let q = i div v_dim S div v_heads S in if bos_of qsl q < bos_of qsl (q + 1) then gdr_reads S slots nslots i else {})"

lemma usize_slot: "i32_slots slots \<Longrightarrow> q < length slots \<Longrightarrow> \<not> null_slot (slots ! q) nslots \<Longrightarrow> usize (slots ! q) = nat (slots ! q)"
  using slot_valid(1) [of slots q nslots] nth_mem [of q slots] unfolding i32_slots_def by fastforce

lemma gdr_row_less:
  assumes "i32_slots slots" "q < length slots" "\<not> null_slot (slots ! q) nslots" "hv < v_heads S" "d < v_dim S"
  shows "gdr_row S slots q hv d < nslots * v_heads S * v_dim S"
  unfolding gdr_row_def by (rule tcell_less [OF slot_valid(2) [OF assms(1-3)] assms(4,5)])

lemma gdr_rows_apart:
  assumes sl: "i32_slots slots" "slots_distinct slots nslots" and i: "i < length slots * v_heads S * v_dim S" "j < length slots * v_heads S * v_dim S" "i \<noteq> j"
  shows "gdr_reads S slots nslots i \<inter> gdr_reads S slots nslots j = {}"
proof (rule ccontr)
  let ?q = "\<lambda>i. i div v_dim S div v_heads S" and ?h = "\<lambda>i. i div v_dim S mod v_heads S" and ?d = "\<lambda>i. i mod v_dim S"
  assume ne: "gdr_reads S slots nslots i \<inter> gdr_reads S slots nslots j \<noteq> {}"
  then have nn: "\<not> null_slot (slots ! ?q i) nslots" "\<not> null_slot (slots ! ?q j) nslots" by (auto simp: gdr_reads_def Let_def split: if_splits)
  have "gdr_row S slots (?q i) (?h i) (?d i) = gdr_row S slots (?q j) (?h j) (?d j)"
    using ne rows_apart [of "gdr_row S slots (?q i) (?h i) (?d i)" "gdr_row S slots (?q j) (?h j) (?d j)" "k_dim S"] nn by (auto simp: gdr_reads_def Let_def)
  note e = tcell_inj [OF this [unfolded gdr_row_def] head_split(2,3) [OF i(1)] head_split(2,3) [OF i(2)]]
  have "slots ! ?q i = slots ! ?q j"
    using e slot_valid(3) [OF sl(1) head_split(1) [OF i(1)] nn(1)] slot_valid(3) [OF sl(1) head_split(1) [OF i(2)] nn(2)] by simp
  then have "?q i = ?q j" using sl(2) nn head_split(1) [OF i(1)] head_split(1) [OF i(2)] unfolding slots_distinct_def by blast
  then show False using lane_eq [of i "v_dim S" "v_heads S" j] e i(3) by simp
qed

lemma gdr_item_ok:
  fixes ssm :: "'s list" and out :: "'t list"
  assumes ok: "gdr_ok ntok X S" and qsl: "packed qsl batch ntok" and sl: "i32_slots slots" "length slots = batch"
    and hi: "\<And>h. has_init = Some h \<Longrightarrow> length h = batch" and lanes: "\<And>t. schedule (v_dim S) (lanes t)"
    and q: "q < batch" "hv < v_heads S" "d < v_dim S"
    and len: "length ssm = nslots * v_heads S * v_dim S * k_dim S" "length out = ntok * v_heads S * v_dim S"
    and i_def: "i = tcell (v_heads S) (v_dim S) hv d q" and run_def: "run = gdr_lane_run M lg ld lds X S qsl slots has_init nslots ssm q hv d"
  shows "\<exists>ssm' out'. gdr_item M lg ld st lds sts X S qsl slots has_init nslots lanes i (ssm, out) = Some (ssm', out') \<and>
    writes (gdr_cells S qsl slots nslots i) (\<lambda>c. sts (snd run ! (c - gdr_row S slots q hv d * k_dim S))) ssm ssm' \<and>
    writes (seq_cells qsl (v_heads S) (v_dim S) i)
      (\<lambda>a. (if \<not> null_slot (slots ! q) nslots then st else (\<lambda>_. st 0)) (fst run ! (the_inv_into {bos_of qsl q..<bos_of qsl (q + 1)} (tcell (v_heads S) (v_dim S) hv d) a - bos_of qsl q))) out out'"
proof -
  let ?lo = "bos_of qsl q" and ?hi = "bos_of qsl (q + 1)" and ?n = "k_dim S" and ?ok = "\<not> null_slot (slots ! q) nslots"
  let ?row = "gdr_row S slots q hv d" and ?init = "starts_from_cache slots nslots has_init q"
  let ?w = "gdr_init lds ssm ?n ?row ?init" and ?st = "if ?ok then st else (\<lambda>_. st 0)"
  have id: "i div v_dim S = q * v_heads S + hv" "i mod v_dim S = d" "i div v_dim S div v_heads S = q" "i div v_dim S mod v_heads S = hv"
    using q(2,3) by (simp_all add: i_def tcell_def)
  have b: "?lo \<le> ?hi" "?hi \<le> ntok" using packed_bos [OF qsl q(1)] by simp_all
  have q': "q < length slots" using q(1) sl(2) by simp
  have us: "rd qsl q = Some (qsl ! q)" "usize (qsl ! q) = ?lo" "rd qsl (q + 1) = Some (qsl ! (q + 1))" "usize (qsl ! (q + 1)) = ?hi" "rd slots q = Some (slots ! q)"
    using packed_rd [OF qsl, of q] packed_rd [OF qsl, of "q + 1"] q' q(1) by (simp_all add: bos_of_def)
  have init: "(if ?ok then (case has_init of None \<Rightarrow> Some True | Some h \<Rightarrow> rd h q) else Some False) = Some ?init"
    using hi q(1) by (auto simp: starts_from_cache_def split: option.splits)
  let ?base = "((usize (slots ! q) * v_heads S + hv) * v_dim S + d) * ?n"
  have base: "?base = ?row * ?n" if "?ok" using usize_slot [OF sl(1) q' that] by (simp add: gdr_row_def tcell_def)
  have row: "?row * ?n + k < length ssm" if "?ok" "k < ?n" for k
    using div_mult_add_lt [OF gdr_row_less [OF sl(1) q' that(1) q(2,3)] that(2)] len(1) by simp
  have load: "(if ?n \<le> kMaxDk then those (map (\<lambda>i. if ?init then map_option lds (rd ssm (?base + i)) else Some 0) [0..<?n]) else None) = Some ?w"
  proof -
    have "those (map (\<lambda>i. if ?init then map_option lds (rd ssm (?base + i)) else Some 0) [0..<?n]) = Some ?w"
      unfolding gdr_init_def
    proof (rule those_map_Some)
      fix k assume "k \<in> set [0..<?n]"
      then show "(if ?init then map_option lds (rd ssm (?base + k)) else Some 0) = Some (if ?init then lds (ssm ! (?row * ?n + k)) else 0)"
        using base row by (auto simp: starts_from_cache_def)
    qed
    then show ?thesis using ok by (simp add: gdr_ok_def)
  qed
  have w: "length ?w = ?n" by (simp add: gdr_init_def)
  have A: "rd (gdn_A_log X) hv = Some (gdn_A_log X ! hv)" using ok q(2) by (simp add: gdr_ok_def)
  have B: "(case gdn_bias X of None \<Rightarrow> Some 0 | Some bs \<Rightarrow> rd bs hv) = Some (bias_at (gdn_bias X) hv)"
    using ok q(2) by (auto simp: gdr_ok_def bias_at_def split: option.splits)
  let ?body = "gdr_token_step M lg ld st X S lanes ?ok hv (hv div (v_heads S div k_heads S)) d (- exp_fn M (gdn_A_log X ! hv)) (bias_at (gdn_bias X) hv)"
  have "\<exists>out'. foldM ?body [?lo..<?hi] (?w, out) = Some (snd run, out') \<and>
    writes (tcell (v_heads S) (v_dim S) hv d ` {?lo..<?hi}) (\<lambda>a. ?st (fst run ! (the_inv_into {?lo..<?hi} (tcell (v_heads S) (v_dim S) hv d) a - ?lo))) out out'"
    unfolding run_def gdr_lane_run_def
  proof (rule gdr.token_loop [OF _ _ _ w len(2) b(1)])
    fix t and w' :: "'a list" and o' :: "'t list" assume t: "?lo \<le> t" "t < ?hi" and l: "length w' = ?n" "length o' = ntok * v_heads S * v_dim S"
    show "?body t (w', o') = Some (snd (gdr_step (gdr_token M lg ld X S hv d t) w'),
        o'[tcell (v_heads S) (v_dim S) hv d t := ?st (fst (gdr_step (gdr_token M lg ld X S hv d t) w'))])"
      using gdr_token_step_ok [where t = t and M = M and lg = lg and ld = ld and st = st and slot_ok = ?ok, OF ok _ q(2,3) l lanes] t(2) b(2) by (simp add: Let_def)
  next
    fix t assume "t < ?hi"
    then show "tcell (v_heads S) (v_dim S) hv d t < ntok * v_heads S * v_dim S" using tcell_less [OF _ q(2,3), of t ntok] b(2) by simp
  qed (rule tcell_inj_on [OF q(2,3)])
  then obtain out' where o: "foldM ?body [?lo..<?hi] (?w, out) = Some (snd run, out')"
    and o2: "writes (tcell (v_heads S) (v_dim S) hv d ` {?lo..<?hi}) (\<lambda>a. ?st (fst run ! (the_inv_into {?lo..<?hi} (tcell (v_heads S) (v_dim S) hv d) a - ?lo))) out out'"
    by (elim exE conjE)
  have sc: "seq_cells qsl (v_heads S) (v_dim S) i = tcell (v_heads S) (v_dim S) hv d ` {?lo..<?hi}" unfolding seq_cells_def id(2-4) by (rule refl)
  have gc: "gdr_cells S qsl slots nslots i = (if ?lo < ?hi \<and> ?ok then row_cells ?n ?row else {})" unfolding gdr_cells_def gdr_reads_def Let_def id(2-4) by simp
  have lr: "length (snd run) = ?n" unfolding run_def gdr_lane_run_def by (rule gdr.run_length [OF w])
  have "\<exists>ssm'. (if ?ok \<and> ?hi > ?lo then foldM (\<lambda>i ssm. do { r \<leftarrow> rd (snd run) i; wr ssm (?base + i) (sts r) }) [0..<?n] ssm else Some ssm) = Some ssm' \<and>
      writes (gdr_cells S qsl slots nslots i) (\<lambda>c. sts (snd run ! (c - ?row * ?n))) ssm ssm'"
  proof (cases "?ok \<and> ?hi > ?lo")
    case True
    have r: "?row * ?n + ?n \<le> length ssm" using src_row [OF gdr_row_less [OF sl(1) q' conjunct1 [OF True] q(2,3)]] len(1) by simp
    have "\<exists>ssm'. foldM (\<lambda>i ssm. do { r \<leftarrow> rd (snd run) i; wr ssm (?row * ?n + i) (sts r) }) [0..<?n] ssm = Some ssm' \<and>
        writes {?row * ?n..<?row * ?n + ?n} (\<lambda>c. sts (snd run ! (c - ?row * ?n))) ssm ssm'"
      by (rule store_loop [where v = "\<lambda>i. sts (snd run ! i)"]) (simp_all add: lr r)
    then show ?thesis unfolding gc if_P [OF True] base [OF conjunct1 [OF True]] using True by (simp only: if_True conj_commute simp_thms)
  next
    case False
    then show ?thesis unfolding gc by auto
  qed
  then obtain ssm' where v: "(if ?ok \<and> ?hi > ?lo then foldM (\<lambda>i ssm. do { r \<leftarrow> rd (snd run) i; wr ssm (?base + i) (sts r) }) [0..<?n] ssm else Some ssm) = Some ssm'"
      "writes (gdr_cells S qsl slots nslots i) (\<lambda>c. sts (snd run ! (c - ?row * ?n))) ssm ssm'" by (elim exE conjE)
  have "gdr_item M lg ld st lds sts X S qsl slots has_init nslots lanes i (ssm, out) = Some (ssm', out')"
    unfolding gdr_item_def Let_def prod.case id id(3,4) [unfolded id(1)] us Option.bind.bind_lunit init load A B o v(1) by simp
  then show ?thesis using v(2) o2 unfolding sc by (intro exI conjI)
qed

lemma gdr_runs:
  fixes ssm :: "'s list" and out :: "'t list"
  assumes ok: "gdr_ok ntok X S" and qsl: "packed qsl batch ntok" and sl: "i32_slots slots" "slots_distinct slots nslots" "length slots = batch"
    and sched: "schedule (batch * v_heads S * v_dim S) sched" and lanes: "\<And>t. schedule (v_dim S) (lanes t)"
    and hi: "\<And>h. has_init = Some h \<Longrightarrow> length h = batch"
    and len: "length ssm = nslots * v_heads S * v_dim S * k_dim S" "length out = ntok * v_heads S * v_dim S"
  shows "\<exists>ssm' out'. gated_delta_rule M lg ld st lds sts X S qsl slots has_init nslots lanes sched (ssm, out) = Some (ssm', out') \<and>
    (\<forall>q<batch. \<forall>hv<v_heads S. \<forall>d<v_dim S. let run = gdr_lane_run M lg ld lds X S qsl slots has_init nslots ssm q hv d in
      (\<forall>t. bos_of qsl q \<le> t \<and> t < bos_of qsl (q + 1) \<longrightarrow>
        out' ! tcell (v_heads S) (v_dim S) hv d t = (if null_slot (slots ! q) nslots then st 0 else st (fst run ! (t - bos_of qsl q)))) \<and>
      (\<not> null_slot (slots ! q) nslots \<longrightarrow> bos_of qsl q < bos_of qsl (q + 1) \<longrightarrow>
        (\<forall>n<k_dim S. ssm' ! (gdr_row S slots q hv d * k_dim S + n) = sts (snd run ! n)))) \<and>
    (\<forall>a<length ssm. (\<forall>q<batch. \<not> null_slot (slots ! q) nslots \<longrightarrow> bos_of qsl q < bos_of qsl (q + 1) \<longrightarrow>
      (\<forall>hv<v_heads S. \<forall>d<v_dim S. a \<notin> row_cells (k_dim S) (gdr_row S slots q hv d))) \<longrightarrow> ssm' ! a = ssm ! a)"
proof -
  let ?H = "v_heads S" and ?D = "v_dim S" and ?n = "k_dim S" and ?N = "batch * v_heads S * v_dim S"
  let ?q = "\<lambda>i. i div ?D div ?H" and ?h = "\<lambda>i. i div ?D mod ?H" and ?d = "\<lambda>i. i mod ?D"
  let ?lr = "gdr_lane_run M lg ld lds X S qsl slots has_init nslots"
  let ?lo = "\<lambda>i. bos_of qsl (?q i)" and ?hi = "\<lambda>i. bos_of qsl (?q i + 1)"
  let ?u = "\<lambda>i c. sts (snd (?lr ssm (?q i) (?h i) (?d i)) ! (c - gdr_row S slots (?q i) (?h i) (?d i) * ?n))"
  let ?v = "\<lambda>i a. (if \<not> null_slot (slots ! ?q i) nslots then st else (\<lambda>_. st 0)) (fst (?lr ssm (?q i) (?h i) (?d i)) ! (the_inv_into {?lo i..<?hi i} (tcell ?H ?D (?h i) (?d i)) a - ?lo i))"
  have lane: "i = tcell ?H ?D (?h i) (?d i) (?q i)" for i by (simp add: tcell_def)
  have apart: "gdr_reads S slots nslots i \<inter> gdr_reads S slots nslots j = {}" if "i < ?N" "j < ?N" "i \<noteq> j" for i j
    using gdr_rows_apart [OF sl(1,2)] that sl(3) by simp
  have sub: "gdr_cells S qsl slots nslots i \<subseteq> gdr_reads S slots nslots i" for i by (simp add: gdr_cells_def Let_def)
  have own: "owns ?N (gdr_cells S qsl slots nslots)" unfolding owns_def using apart sub by blast
  have guard: "\<not> k_dim S > kMaxDk" "v_heads S mod k_heads S = 0" using ok by (simp_all add: gdr_ok_def)
  have "\<exists>a b. foldM (gdr_item M lg ld st lds sts X S qsl slots has_init nslots lanes) sched (ssm, out) = Some (a, b) \<and>
      rows_done (gdr_cells S qsl slots nslots) ?u ssm {..<?N} a \<and> rows_done (seq_cells qsl ?H ?D) ?v out {..<?N} b"
  proof (rule launch_reads2 [OF sched own seq_cells_owns [OF qsl], where reads = "gdr_reads S slots nslots"])
    fix i j assume "i < ?N" "j < ?N" "i \<noteq> j"
    then show "gdr_reads S slots nslots i \<inter> gdr_cells S qsl slots nslots j = {}" using apart sub by blast
  next
    fix i and a :: "'s list" and b :: "'t list" assume i: "i < ?N" and l: "length a = length ssm" "length b = length out"
      and same: "\<And>c. c \<in> gdr_reads S slots nslots i \<Longrightarrow> c < length ssm \<Longrightarrow> a ! c = ssm ! c"
    note li = head_split [OF i]
    have q': "?q i < length slots" using li(1) sl(3) by simp
    have "gdr_init lds a ?n (gdr_row S slots (?q i) (?h i) (?d i)) (starts_from_cache slots nslots has_init (?q i)) =
        gdr_init lds ssm ?n (gdr_row S slots (?q i) (?h i) (?d i)) (starts_from_cache slots nslots has_init (?q i))"
    proof (cases "null_slot (slots ! ?q i) nslots")
      case True
      then show ?thesis by (simp add: gdr_init_def starts_from_cache_def)
    next
      case False
      have "a ! (gdr_row S slots (?q i) (?h i) (?d i) * ?n + n) = ssm ! (gdr_row S slots (?q i) (?h i) (?d i) * ?n + n)" if n: "n < ?n" for n
        by (rule same) (use False n div_mult_add_lt [OF gdr_row_less [OF sl(1) q' False li(2,3)] n] len(1) in \<open>simp_all add: gdr_reads_def Let_def\<close>)
      then show ?thesis by (simp add: gdr_init_def)
    qed
    then have run: "?lr a (?q i) (?h i) (?d i) = ?lr ssm (?q i) (?h i) (?d i)" by (simp add: gdr_lane_run_def)
    have la: "length a = nslots * ?H * ?D * ?n" "length b = ntok * ?H * ?D" using l len by simp_all
    show "\<exists>a' b'. gdr_item M lg ld st lds sts X S qsl slots has_init nslots lanes i (a, b) = Some (a', b') \<and>
        writes (gdr_cells S qsl slots nslots i) (?u i) a a' \<and> writes (seq_cells qsl ?H ?D i) (?v i) b b'"
      by (rule gdr_item_ok [OF ok qsl sl(1,3) hi lanes li la lane run [symmetric]])
  qed
  then obtain a b where ab: "foldM (gdr_item M lg ld st lds sts X S qsl slots has_init nslots lanes) sched (ssm, out) = Some (a, b)"
      "rows_done (gdr_cells S qsl slots nslots) ?u ssm {..<?N} a" "rows_done (seq_cells qsl ?H ?D) ?v out {..<?N} b" by (elim exE conjE)
  have 1: "b ! tcell ?H ?D h d t = (if null_slot (slots ! q) nslots then st 0 else st (fst (?lr ssm q h d) ! (t - bos_of qsl q)))"
    if q: "q < batch" "h < ?H" "d < ?D" and t: "bos_of qsl q \<le> t" "t < bos_of qsl (q + 1)" for q h d t
  proof -
    let ?i = "tcell ?H ?D h d q"
    have i: "?i < ?N" by (rule tcell_less [OF q])
    have id: "?q ?i = q" "?h ?i = h" "?d ?i = d" using q(2,3) by (simp_all add: tcell_def)
    have c: "tcell ?H ?D h d t \<in> seq_cells qsl ?H ?D ?i" unfolding seq_cells_def id using t by simp
    have "tcell ?H ?D h d t < length out" using tcell_less [OF _ q(2,3), of t ntok] packed_bos [OF qsl q(1)] t len(2) by simp
    from rows_done_cell [OF ab(3) i c this] show ?thesis unfolding id using t by (simp add: the_inv_into_f_f [OF tcell_inj_on [OF q(2,3)]])
  qed
  have 2: "a ! (gdr_row S slots q h d * ?n + n) = sts (snd (?lr ssm q h d) ! n)"
    if q: "q < batch" "h < ?H" "d < ?D" and nn: "\<not> null_slot (slots ! q) nslots" "bos_of qsl q < bos_of qsl (q + 1)" and n: "n < ?n" for q h d n
  proof -
    let ?i = "tcell ?H ?D h d q"
    have i: "?i < ?N" by (rule tcell_less [OF q])
    have id: "?q ?i = q" "?h ?i = h" "?d ?i = d" using q(2,3) by (simp_all add: tcell_def)
    have q': "q < length slots" using q(1) sl(3) by simp
    have c: "gdr_row S slots q h d * ?n + n \<in> gdr_cells S qsl slots nslots ?i" unfolding gdr_cells_def gdr_reads_def Let_def id using nn n by simp
    have "gdr_row S slots q h d * ?n + n < length ssm" using div_mult_add_lt [OF gdr_row_less [OF sl(1) q' nn(1) q(2,3)] n] len(1) by simp
    from rows_done_cell [OF ab(2) i c this] show ?thesis unfolding id by simp
  qed
  have 3: "a ! c = ssm ! c" if c: "c < length ssm" and fr: "\<forall>q<batch. \<not> null_slot (slots ! q) nslots \<longrightarrow> bos_of qsl q < bos_of qsl (q + 1) \<longrightarrow>
      (\<forall>hv<?H. \<forall>d<?D. c \<notin> row_cells ?n (gdr_row S slots q hv d))" for c
  proof (rule rows_done_frame [OF ab(2) c])
    fix i assume "i \<in> {..<?N}"
    then have li: "?q i < batch" "?h i < ?H" "?d i < ?D" using head_split by simp_all
    show "c \<notin> gdr_cells S qsl slots nslots i" using fr [rule_format, OF li(1) _ _ li(2,3)] by (simp add: gdr_cells_def gdr_reads_def Let_def del: atLeastLessThan_iff)
  qed
  have run: "gated_delta_rule M lg ld st lds sts X S qsl slots has_init nslots lanes sched (ssm, out) = Some (a, b)"
    using ab(1) guard by (simp add: gated_delta_rule_def)
  show ?thesis
    by (rule exI [of _ a], rule exI [of _ b]) (use run 1 2 3 in \<open>simp add: Let_def del: atLeastLessThan_iff\<close>)
qed

section \<open>The machine over the reals\<close>

abbreviation tok_g :: "'f gdr_tok \<Rightarrow> 'f" where "tok_g T \<equiv> fst T"
abbreviation tok_beta :: "'f gdr_tok \<Rightarrow> 'f" where "tok_beta T \<equiv> fst (snd T)"
abbreviation tok_v :: "'f gdr_tok \<Rightarrow> 'f" where "tok_v T \<equiv> fst (snd (snd T))"
abbreviation tok_k :: "'f gdr_tok \<Rightarrow> nat \<Rightarrow> 'f" where "tok_k T \<equiv> fst (snd (snd (snd T)))"
abbreviation tok_q :: "'f gdr_tok \<Rightarrow> nat \<Rightarrow> 'f" where "tok_q T \<equiv> snd (snd (snd (snd T)))"

lemma lin_step_sum:
  fixes row :: "'f::comm_monoid_add list"
  shows "fst (lin_step upd prd id row) = (\<Sum>n<length row. prd n (upd n (row ! n)))"
  by (simp add: lin_step_def fold_add_sum [OF refl] interv_sum_list_conv_sum_set_nat atLeast0LessThan)

lemma lin_step_nth: "n < length row \<Longrightarrow> snd (lin_step upd prd fin row) ! n = upd n (row ! n)"
  by (simp add: lin_step_def)

text \<open>One token is a decay, a read, and a rank-one correction towards the value.\<close>

lemma gdr_step_real:
  fixes w :: "real list"
  assumes "length w = N"
  shows "n < N \<Longrightarrow> snd (gdr_step T w) ! n = tok_g T * (w ! n - tok_beta T * (\<Sum>m<N. w ! m * tok_k T m) * tok_k T n) + tok_beta T * tok_v T * tok_k T n"
    and "fst (gdr_step T w) = (\<Sum>n<N. snd (gdr_step T w) ! n * tok_q T n)"
proof -
  obtain g beta v ks qs where T: "T = (g, beta, v, ks, qs)" by (cases T)
  define L1 where "L1 = lin_step (\<lambda>i s. s * g) (\<lambda>i s. s * ks i) id w"
  have l: "length (snd L1) = N" by (simp add: L1_def assms)
  have kv: "fst L1 = g * (\<Sum>m<N. w ! m * ks m)" by (simp add: L1_def lin_step_sum assms sum_distrib_left mult.commute mult.left_commute)
  have s: "gdr_step T w = lin_step (\<lambda>i s. s + ks i * ((v - fst L1) * beta)) (\<lambda>i s. s * qs i) id (snd L1)"
    by (simp add: T gdr_step_def L1_def case_prod_beta)
  show "snd (gdr_step T w) ! n = tok_g T * (w ! n - tok_beta T * (\<Sum>m<N. w ! m * tok_k T m) * tok_k T n) + tok_beta T * tok_v T * tok_k T n" if "n < N"
    using that assms l by (simp add: s lin_step_nth kv) (simp add: L1_def lin_step_nth T algebra_simps)
  show "fst (gdr_step T w) = (\<Sum>n<N. snd (gdr_step T w) ! n * tok_q T n)"
    unfolding s using l by (simp add: lin_step_sum lin_step_nth T)
qed

text \<open>The rows of the state after each token.\<close>

lemma gdr_run_rows:
  fixes w :: "real list" and toks :: "real gdr_tok list"
  assumes w: "length w = N"
  defines "W \<equiv> \<lambda>k. snd (scan_run gdr_step (take k toks) w)"
  shows "W 0 = w" "k < length toks \<Longrightarrow> W (Suc k) = snd (gdr_step (toks ! k) (W k))" "k < length toks \<Longrightarrow> fst (scan_run gdr_step toks w) ! k = fst (gdr_step (toks ! k) (W k))"
    "W (length toks) = snd (scan_run gdr_step toks w)" "length (W k) = N"
  by (simp_all add: W_def take_Suc_conv_app_nth scan_run_snoc scan_run_nth gdr.run_length [OF w])

section \<open>Decode of Qwen\<close>

definition kQueryHeads :: nat where "kQueryHeads = 16"
definition kValueHeads :: nat where "kValueHeads = 32"
definition kHeadDim :: nat where "kHeadDim = 128"
definition kQueryDim :: nat where "kQueryDim = kQueryHeads * kHeadDim"
definition kKeyDim :: nat where "kKeyDim = kQueryHeads * kHeadDim"
definition kValueDim :: nat where "kValueDim = kValueHeads * kHeadDim"
definition kConvDim :: nat where "kConvDim = kQueryDim + kKeyDim + kValueDim"
definition kQkvzDim :: nat where "kQkvzDim = kConvDim + kValueDim"
definition kBaDim :: nat where "kBaDim = 2 * kValueHeads"

record ('t, 'b, 'f) qwen_in =
  projected_qkvz :: "'t list"
  projected_ba :: "'t list"
  conv_weight :: "'t list"
  qconv_bias :: "'t list option"
  qA_log :: "'f list"
  dt_bias :: "'b list"
  qstate_indices :: "int list"

definition qwen_conv_item :: "('f::{plus,times,uminus,inverse,zero,one}, 'z) gmath_scheme \<Rightarrow> ('t \<Rightarrow> 'f) \<Rightarrow> ('f \<Rightarrow> 't) \<Rightarrow> ('t, 'b, 'f) qwen_in \<Rightarrow> bool \<Rightarrow> nat \<Rightarrow> nat \<Rightarrow> nat \<Rightarrow>
    't list \<times> 't list \<times> 't list \<Rightarrow> ('t list \<times> 't list \<times> 't list) option" where
  "qwen_conv_item M ld st X conv_dim_first state_slots batch index s =
     (if index \<ge> batch * kConvDim then Some s else do {
       let (conv_state, mixed_qkv, z_out) = s;
       let b = index div kConvDim;
       let channel = index mod kConvDim;
       z_out \<leftarrow> (if channel \<ge> kConvDim - kValueDim then do {
           let value_channel = channel - (kConvDim - kValueDim);
           v \<leftarrow> rd (projected_qkvz X) (b * kQkvzDim + kConvDim + value_channel);
           wr z_out (b * kValueDim + value_channel) v }
         else Some z_out);
       slot \<leftarrow> rd (qstate_indices X) b;
       if null_slot slot state_slots then do { mixed_qkv \<leftarrow> wr mixed_qkv index (st 0); Some (conv_state, mixed_qkv, z_out) }
       else do {
         input \<leftarrow> rd (projected_qkvz X) (b * kQkvzDim + channel);
         let state = usize slot * 3 * kConvDim + (if conv_dim_first then channel * 3 else channel);
         let stride = (if conv_dim_first then 1 else kConvDim);
         v0 \<leftarrow> rd conv_state state;
         v1 \<leftarrow> rd conv_state (state + stride);
         v2 \<leftarrow> rd conv_state (state + 2 * stride);
         conv_state \<leftarrow> wr conv_state state (st (ld v1));
         conv_state \<leftarrow> wr conv_state (state + stride) (st (ld v2));
         conv_state \<leftarrow> wr conv_state (state + 2 * stride) input;
         acc \<leftarrow> conv_bias ld (qconv_bias X) channel;
         w0 \<leftarrow> rd (conv_weight X) (channel * 4);
         let acc = acc + ld v0 * ld w0;
         w1 \<leftarrow> rd (conv_weight X) (channel * 4 + 1);
         let acc = acc + ld v1 * ld w1;
         w2 \<leftarrow> rd (conv_weight X) (channel * 4 + 2);
         let acc = acc + ld v2 * ld w2;
         w3 \<leftarrow> rd (conv_weight X) (channel * 4 + 3);
         let acc = acc + ld input * ld w3;
         mixed_qkv \<leftarrow> wr mixed_qkv index (st (conv1d_silu (exp_fn M) acc));
         Some (conv_state, mixed_qkv, z_out) } })"

text \<open>\<open>1e-6f\<close> and \<open>0.08838834764831845f\<close> are the parameters \<open>eps\<close> and \<open>qscale\<close>; the group shares the staged rows \<open>query\<close> and \<open>key\<close>.\<close>

definition qwen_rec_item :: "('f::{plus,times,minus,uminus,inverse,zero,one,ord}, 'z) gmath_scheme \<Rightarrow> ('f \<Rightarrow> 'f) \<Rightarrow> 'f \<Rightarrow> 'f \<Rightarrow> ('t \<Rightarrow> 'f) \<Rightarrow> ('f \<Rightarrow> 't) \<Rightarrow> ('b \<Rightarrow> 'f) \<Rightarrow> ('s \<Rightarrow> 'f) \<Rightarrow> ('f \<Rightarrow> 's) \<Rightarrow>
    ('t, 'b, 'f) qwen_in \<Rightarrow> 't list \<Rightarrow> nat \<Rightarrow> nat \<Rightarrow> 's list \<times> 't list \<Rightarrow> ('s list \<times> 't list) option" where
  "qwen_rec_item M lg eps qscale ld st ldb lds sts X mixed_qkv state_slots gid s = do {
     let (ssm_state, core_out) = s;
     let packed_head = gid div kHeadDim;
     let lane = gid mod kHeadDim;
     let b = packed_head div kValueHeads;
     let value_head = packed_head mod kValueHeads;
     let query_head = value_head div (kValueHeads div kQueryHeads);
     slot \<leftarrow> rd (qstate_indices X) b;
     if null_slot slot state_slots then do { core_out \<leftarrow> wr core_out (packed_head * kHeadDim + lane) (st 0); Some (ssm_state, core_out) }
     else do {
       let query_row = b * kConvDim + query_head * kHeadDim;
       let key_row = b * kConvDim + kQueryDim + query_head * kHeadDim;
       let value_row = b * kConvDim + kQueryDim + kKeyDim + value_head * kHeadDim;
       let state_row = ((usize slot * kValueHeads + value_head) * kHeadDim + lane) * kHeadDim;
       ql \<leftarrow> those (map (\<lambda>l. map_option ld (rd mixed_qkv (query_row + l))) [0..<kHeadDim]);
       kl \<leftarrow> those (map (\<lambda>l. map_option ld (rd mixed_qkv (key_row + l))) [0..<kHeadDim]);
       let query_norm = sum_group M (map (\<lambda>x. x * x) ql) + eps;
       let key_norm = sum_group M (map (\<lambda>x. x * x) kl) + eps;
       let query = map (\<lambda>x. x * rsqrt_fn M query_norm * qscale) ql;
       let key = map (\<lambda>x. x * rsqrt_fn M key_norm) kl;
       av \<leftarrow> rd (projected_ba X) (b * kBaDim + kValueHeads + value_head);
       bv \<leftarrow> rd (projected_ba X) (b * kBaDim + value_head);
       al \<leftarrow> rd (qA_log X) value_head;
       db \<leftarrow> rd (dt_bias X) value_head;
       let log_decay = - exp_fn M al * softplus M lg (ld av + ldb db);
       let decay = exp_fn M log_decay;
       let beta = 1 / (1 + exp_fn M (- ld bv));
       prediction \<leftarrow> foldM (\<lambda>k prediction. do {
         sv \<leftarrow> rd ssm_state (state_row + k); kv \<leftarrow> rd key k; Some (prediction + lds sv * decay * kv) }) [0..<kHeadDim] 0;
       vv \<leftarrow> rd mixed_qkv (value_row + lane);
       let delta = (ld vv - prediction) * beta;
       (ssm_state, output) \<leftarrow> foldM (\<lambda>k (ssm_state, output). do {
         sv \<leftarrow> rd ssm_state (state_row + k);
         kv \<leftarrow> rd key k;
         let updated = lds sv * decay + delta * kv;
         ssm_state \<leftarrow> wr ssm_state (state_row + k) (sts updated);
         qv \<leftarrow> rd query k;
         Some (ssm_state, output + updated * qv) }) [0..<kHeadDim] (ssm_state, 0);
       core_out \<leftarrow> wr core_out (packed_head * kHeadDim + lane) (st output);
       Some (ssm_state, core_out) } }"

definition qwen_gdn_decode :: "('f::{plus,times,minus,uminus,inverse,zero,one,ord}, 'z) gmath_scheme \<Rightarrow> ('f \<Rightarrow> 'f) \<Rightarrow> 'f \<Rightarrow> 'f \<Rightarrow> ('t \<Rightarrow> 'f) \<Rightarrow> ('f \<Rightarrow> 't) \<Rightarrow> ('b \<Rightarrow> 'f) \<Rightarrow> ('s \<Rightarrow> 'f) \<Rightarrow> ('f \<Rightarrow> 's) \<Rightarrow>
    ('t, 'b, 'f) qwen_in \<Rightarrow> bool \<Rightarrow> nat \<Rightarrow> nat \<Rightarrow> nat list \<Rightarrow> nat list \<Rightarrow> 't list \<Rightarrow> 's list \<Rightarrow> 't list \<Rightarrow> 't list \<Rightarrow> 't list \<Rightarrow>
    ('t list \<times> 's list \<times> 't list \<times> 't list \<times> 't list) option" where
  "qwen_gdn_decode M lg eps qscale ld st ldb lds sts X conv_dim_first state_slots batch csched rsched conv_state ssm_state mixed_qkv core_out z_out = do {
     (conv_state, mixed_qkv, z_out) \<leftarrow> foldM (qwen_conv_item M ld st X conv_dim_first state_slots batch) csched (conv_state, mixed_qkv, z_out);
     (ssm_state, core_out) \<leftarrow> foldM (qwen_rec_item M lg eps qscale ld st ldb lds sts X mixed_qkv state_slots) rsched (ssm_state, core_out);
     Some (conv_state, ssm_state, mixed_qkv, core_out, z_out) }"

definition qwen_gdn_decode_sycl :: "f32 gmath \<Rightarrow> (f32 \<Rightarrow> f32) \<Rightarrow> DType \<Rightarrow> DType \<Rightarrow> DType \<Rightarrow>
    (32 word, 32 word, f32) qwen_in \<Rightarrow> bool \<Rightarrow> nat \<Rightarrow> nat \<Rightarrow> nat list \<Rightarrow> nat list \<Rightarrow> 32 word list \<Rightarrow> 32 word list \<Rightarrow> 32 word list \<Rightarrow> 32 word list \<Rightarrow> 32 word list \<Rightarrow>
    (32 word list \<times> 32 word list \<times> 32 word list \<times> 32 word list \<times> 32 word list) option" where
  "qwen_gdn_decode_sycl M lg act_dt state_dt dt_bias_dt =
     qwen_gdn_decode M lg (elem_ld DF32 0x358637BD) (elem_ld DF32 0x3DB504F3) (elem_ld act_dt) (elem_st act_dt) (elem_ld dt_bias_dt) (elem_ld state_dt) (elem_st state_dt)"


section \<open>The convolution stage\<close>

lemma launch_own3:
  assumes sched: "schedule n ord" and own: "owns n ca" "owns n cb" "owns n cc"
    and item: "\<And>i a b c. i < n \<Longrightarrow> length a = length a0 \<Longrightarrow> length b = length b0 \<Longrightarrow> length c = length c0 \<Longrightarrow> (\<And>x. x \<in> ca i \<Longrightarrow> x < length a0 \<Longrightarrow> a ! x = a0 ! x) \<Longrightarrow>
      \<exists>a' b' c'. f i (a, b, c) = Some (a', b', c') \<and> writes (ca i) (u i) a a' \<and> writes (cb i) (v i) b b' \<and> writes (cc i) (w i) c c'"
  shows "\<exists>a b c. foldM f ord (a0, b0, c0) = Some (a, b, c) \<and> rows_done ca u a0 {..<n} a \<and> rows_done cb v b0 {..<n} b \<and> rows_done cc w c0 {..<n} c"
proof -
  let ?P = "\<lambda>D s. rows_done ca u a0 D (fst s) \<and> rows_done cb v b0 D (fst (snd s)) \<and> rows_done cc w c0 D (snd (snd s)) \<and> D \<subseteq> {..<n}"
  have "\<exists>s. foldM f ord (a0, b0, c0) = Some s \<and> ?P {..<n} s"
  proof (rule foldM_schedule [OF sched, where P = ?P])
    fix D i s assume i: "i < n" "i \<notin> D" and P: "?P D s"
    obtain a b c where s: "s = (a, b, c)" by (cases s)
    have d: "rows_done ca u a0 D a" "rows_done cb v b0 D b" "rows_done cc w c0 D c" "D \<subseteq> {..<n}" using P s by simp_all
    have "a ! x = a0 ! x" if x: "x \<in> ca i" "x < length a0" for x
    proof (rule rows_done_frame [OF d(1) x(2)])
      fix j assume "j \<in> D"
      then have "j < n" "j \<noteq> i" using d(4) i(2) by auto
      then show "x \<notin> ca j" using own(1) i(1) x(1) unfolding owns_def by blast
    qed
    from item [OF i(1) rows_done_length [OF d(1)] rows_done_length [OF d(2)] rows_done_length [OF d(3)] this] obtain a' b' c'
      where r: "f i (a, b, c) = Some (a', b', c')" "writes (ca i) (u i) a a'" "writes (cb i) (v i) b b'" "writes (cc i) (w i) c c'" by blast
    have "?P (insert i D) (a', b', c')"
      using rows_done_step [OF own(1) d(1) r(2) i d(4)] rows_done_step [OF own(2) d(2) r(3) i d(4)] rows_done_step [OF own(3) d(3) r(4) i d(4)] d(4) i(1) by simp
    then show "\<exists>s'. f i s = Some s' \<and> ?P (insert i D) s'" using r(1) s by blast
  qed simp
  then obtain a b c where "foldM f ord (a0, b0, c0) = Some (a, b, c)" "?P {..<n} (a, b, c)" by fast
  then show ?thesis by auto
qed

text \<open>Cell \<open>k\<close> of the window of a slot and channel, in either layout.\<close>

definition qcell :: "bool \<Rightarrow> nat \<Rightarrow> nat \<Rightarrow> nat \<Rightarrow> nat" where
  "qcell conv_dim_first slot c k = (if conv_dim_first then tcell kConvDim 3 c k slot else tcell 3 kConvDim k c slot)"

lemma qcell_less: "slot < nslots \<Longrightarrow> c < kConvDim \<Longrightarrow> k < 3 \<Longrightarrow> qcell df slot c k < nslots * 3 * kConvDim"
  using tcell_less [of slot nslots c kConvDim k 3] tcell_less [of slot nslots k 3 c kConvDim] by (simp add: qcell_def mult.commute mult.left_commute)

lemma qcell_inj: "qcell df slot c k = qcell df slot' c' k' \<Longrightarrow> c < kConvDim \<Longrightarrow> c' < kConvDim \<Longrightarrow> k < 3 \<Longrightarrow> k' < 3 \<Longrightarrow> slot = slot' \<and> c = c' \<and> k = k'"
  using tcell_inj [of kConvDim 3 c k slot c' k' slot'] tcell_inj [of 3 kConvDim k c slot k' c' slot'] by (auto simp: qcell_def split: if_splits)

lemma qcell_addr:
  "slot * 3 * kConvDim + (if df then c * 3 else c) = qcell df slot c 0"
  "qcell df slot c 0 + (if df then 1 else kConvDim) = qcell df slot c 1"
  "qcell df slot c 0 + 2 * (if df then 1 else kConvDim) = qcell df slot c 2"
  by (simp_all add: qcell_def tcell_def algebra_simps)

lemma kConvDim_pos: "0 < kConvDim" "kConvDim = kQueryDim + kKeyDim + kValueDim" "kConvDim - kValueDim = kQueryDim + kKeyDim" "0 < kValueDim"
  by (simp_all add: kConvDim_def kQueryDim_def kKeyDim_def kValueDim_def kQueryHeads_def kValueHeads_def kHeadDim_def)

definition qwen_ok :: "nat \<Rightarrow> ('t, 'b, 'f) qwen_in \<Rightarrow> nat \<Rightarrow> bool" where
  "qwen_ok batch X nslots \<longleftrightarrow> length (projected_qkvz X) = batch * kQkvzDim \<and> length (projected_ba X) = batch * kBaDim \<and> length (conv_weight X) = kConvDim * 4 \<and>
     (\<forall>bs. qconv_bias X = Some bs \<longrightarrow> length bs = kConvDim) \<and> length (qA_log X) = kValueHeads \<and> length (dt_bias X) = kValueHeads \<and>
     length (qstate_indices X) = batch \<and> i32_slots (qstate_indices X) \<and> slots_distinct (qstate_indices X) nslots"

definition qwen_window :: "('t \<Rightarrow> 'f) \<Rightarrow> bool \<Rightarrow> 't list \<Rightarrow> int \<Rightarrow> nat \<Rightarrow> 'f list" where
  "qwen_window ld df cs slot c = map (\<lambda>k. ld (cs ! qcell df (nat slot) c k)) [0..<3]"

definition qwen_conv :: "('f::{plus,times,uminus,inverse,zero,one}, 'z) gmath_scheme \<Rightarrow> ('t \<Rightarrow> 'f) \<Rightarrow> ('f \<Rightarrow> 't) \<Rightarrow> ('t, 'b, 'f) qwen_in \<Rightarrow> bool \<Rightarrow> 't list \<Rightarrow> nat \<Rightarrow> nat \<Rightarrow> 'f \<times> 'f list" where
  "qwen_conv M ld st X df cs b c = conv_step (conv1d_silu (exp_fn M)) (\<lambda>x. ld (st x)) (conv_weights ld (conv_weight X) 4 c) (bias_val ld (qconv_bias X) c)
     (qwen_window ld df cs (qstate_indices X ! b) c) (ld (projected_qkvz X ! (b * kQkvzDim + c)))"

definition qwin_cells :: "bool \<Rightarrow> int list \<Rightarrow> nat \<Rightarrow> nat \<Rightarrow> nat \<Rightarrow> nat set" where
  "qwin_cells df slots nslots batch i = (if i < batch * kConvDim \<and> \<not> null_slot (slots ! (i div kConvDim)) nslots
     then qcell df (nat (slots ! (i div kConvDim))) (i mod kConvDim) ` {..<3} else {})"

definition qz_cells :: "nat \<Rightarrow> nat \<Rightarrow> nat set" where
  "qz_cells batch i = (if i < batch * kConvDim \<and> kConvDim - kValueDim \<le> i mod kConvDim
     then {i div kConvDim * kValueDim + (i mod kConvDim - (kConvDim - kValueDim))} else {})"

lemma qwin_own:
  assumes "qwen_ok batch X nslots"
  shows "owns N (qwin_cells df (qstate_indices X) nslots batch)"
  unfolding owns_def
proof (intro allI impI, rule ccontr)
  let ?sl = "qstate_indices X"
  fix i j assume ij: "i < N" "j < N" "i \<noteq> j" and ne: "qwin_cells df ?sl nslots batch i \<inter> qwin_cells df ?sl nslots batch j \<noteq> {}"
  have nn: "i < batch * kConvDim" "\<not> null_slot (?sl ! (i div kConvDim)) nslots" "j < batch * kConvDim" "\<not> null_slot (?sl ! (j div kConvDim)) nslots"
    using ne by (auto simp: qwin_cells_def split: if_splits)
  have b: "i div kConvDim < batch" "j div kConvDim < batch" using item_split(1) nn by simp_all
  have sl: "i32_slots ?sl" "slots_distinct ?sl nslots" "length ?sl = batch" using assms by (simp_all add: qwen_ok_def)
  obtain k k' where k: "k < 3" "k' < 3" "qcell df (nat (?sl ! (i div kConvDim))) (i mod kConvDim) k = qcell df (nat (?sl ! (j div kConvDim))) (j mod kConvDim) k'"
    using ne nn by (auto simp: qwin_cells_def)
  have e: "nat (?sl ! (i div kConvDim)) = nat (?sl ! (j div kConvDim))" "i mod kConvDim = j mod kConvDim"
    using qcell_inj [OF k(3) item_split(2) [OF nn(1)] item_split(2) [OF nn(3)] k(1,2)] by simp_all
  have "?sl ! (i div kConvDim) = ?sl ! (j div kConvDim)"
    using e(1) slot_valid(3) [OF sl(1) _ nn(2)] slot_valid(3) [OF sl(1) _ nn(4)] b sl(3) by simp
  then have "i div kConvDim = j div kConvDim" using sl(2,3) nn b unfolding slots_distinct_def by blast
  then show False using e(2) ij(3) lane_unique by blast
qed

lemma qz_own: "owns N (qz_cells batch)"
  unfolding owns_def
proof (intro allI impI, rule ccontr)
  fix i j assume "i \<noteq> j" and ne: "qz_cells batch i \<inter> qz_cells batch j \<noteq> {}"
  let ?c = "\<lambda>i. i mod kConvDim - (kConvDim - kValueDim)"
  have g: "kConvDim - kValueDim \<le> i mod kConvDim" "kConvDim - kValueDim \<le> j mod kConvDim" "i div kConvDim * kValueDim + ?c i = j div kConvDim * kValueDim + ?c j"
    using ne by (auto simp: qz_cells_def split: if_splits)
  have l: "?c i < kValueDim" "?c j < kValueDim" using mod_less_divisor [OF kConvDim_pos(1)] g(1,2) kConvDim_pos(2,3) by (metis add.commute less_diff_conv2 less_diff_conv add_diff_inverse_nat)+
  have "i div kConvDim = j div kConvDim" "?c i = ?c j" using row_col_inj [OF l] g(3) by simp_all
  then show False using g(1,2) lane_unique [of i kConvDim j] \<open>i \<noteq> j\<close> by (metis le_add_diff_inverse2)
qed


lemma qwen_conv_item_ok:
  fixes cs mixed z :: "'t list"
  assumes ok: "qwen_ok batch X nslots" and len: "length cs = nslots * 3 * kConvDim" "length mixed = batch * kConvDim" "length z = batch * kValueDim"
  shows "\<exists>cs' mixed' z'. qwen_conv_item M ld st X df nslots batch i (cs, mixed, z) = Some (cs', mixed', z') \<and>
    writes (qwin_cells df (qstate_indices X) nslots batch i)
      (\<lambda>a. if a = qcell df (nat (qstate_indices X ! (i div kConvDim))) (i mod kConvDim) 2 then projected_qkvz X ! (i div kConvDim * kQkvzDim + i mod kConvDim)
        else if a = qcell df (nat (qstate_indices X ! (i div kConvDim))) (i mod kConvDim) 1 then st (qwen_window ld df cs (qstate_indices X ! (i div kConvDim)) (i mod kConvDim) ! 2)
        else st (qwen_window ld df cs (qstate_indices X ! (i div kConvDim)) (i mod kConvDim) ! 1)) cs cs' \<and>
    writes (if i < batch * kConvDim then {i} else {})
      (\<lambda>a. if null_slot (qstate_indices X ! (i div kConvDim)) nslots then st 0 else st (fst (qwen_conv M ld st X df cs (i div kConvDim) (i mod kConvDim)))) mixed mixed' \<and>
    writes (qz_cells batch i) (\<lambda>a. projected_qkvz X ! (i div kConvDim * kQkvzDim + kConvDim + (i mod kConvDim - (kConvDim - kValueDim)))) z z'"
proof (cases "i < batch * kConvDim")
  case False
  then show ?thesis by (simp add: qwen_conv_item_def qwin_cells_def qz_cells_def)
next
  case True
  let ?b = "i div kConvDim" and ?c = "i mod kConvDim"
  let ?slot = "qstate_indices X ! ?b"
  have b: "?b < batch" and c: "?c < kConvDim" using item_split [OF True] by simp_all
  have sl: "rd (qstate_indices X) ?b = Some ?slot" using ok b by (simp add: qwen_ok_def)
  have lq: "length (projected_qkvz X) = batch * kQkvzDim" using ok by (simp add: qwen_ok_def)
  define zs where "zs = kConvDim - kValueDim"
  have zc: "?c - zs < kValueDim" if "zs \<le> ?c" using that c kConvDim_pos unfolding zs_def by linarith
  let ?zv = "projected_qkvz X ! (?b * kQkvzDim + kConvDim + (?c - zs))"
  let ?z' = "if zs \<le> ?c then z[?b * kValueDim + (?c - zs) := ?zv] else z"
  have zsrc: "?b * kQkvzDim + kConvDim + (?c - zs) < length (projected_qkvz X)" if "zs \<le> ?c"
    using div_mult_add_lt [OF b, of "kConvDim + (?c - zs)" kQkvzDim] zc [OF that] lq by (simp add: kQkvzDim_def add.assoc)
  have zdst: "?b * kValueDim + (?c - zs) < length z" if "zs \<le> ?c" using div_mult_add_lt [OF b zc [OF that]] len(3) by simp
  have z: "(if ?c \<ge> zs then do { v \<leftarrow> rd (projected_qkvz X) (?b * kQkvzDim + kConvDim + (?c - zs)); wr z (?b * kValueDim + (?c - zs)) v } else Some z) = Some ?z'"
    using zsrc zdst by simp
  have wz: "writes (qz_cells batch i) (\<lambda>a. ?zv) z ?z'"
  proof (cases "zs \<le> ?c")
    case zc: True
    then show ?thesis unfolding qz_cells_def zs_def [symmetric] using True writes_single [OF zdst [OF zc], of "\<lambda>a. ?zv"] by (simp only: simp_thms if_True)
  next
    case False
    then show ?thesis unfolding qz_cells_def zs_def [symmetric] by simp
  qed
  have im: "i < length mixed" using True len(2) by simp
  show ?thesis
  proof (cases "null_slot ?slot nslots")
    case nul: True
    have "qwen_conv_item M ld st X df nslots batch i (cs, mixed, z) = Some (cs, mixed[i := st 0], ?z')"
      using True nul im unfolding qwen_conv_item_def Let_def prod.case zs_def [symmetric] z sl Option.bind.bind_lunit by simp
    moreover have "writes {i} (\<lambda>a. st 0) mixed (mixed[i := st 0])" using writes_single [OF im, of "\<lambda>a. st 0"] .
    ultimately show ?thesis using True nul wz unfolding zs_def by (intro exI conjI) (assumption | simp add: qwin_cells_def)+
  next
    case False
    have q': "?b < length (qstate_indices X)" using ok b by (simp add: qwen_ok_def)
    have i32: "i32_slots (qstate_indices X)" using ok by (simp add: qwen_ok_def)
    have us: "usize ?slot = nat ?slot" by (rule usize_slot [OF i32 q' False])
    have sv: "nat ?slot < nslots" by (rule slot_valid(2) [OF i32 q' False])
    let ?q = "\<lambda>k. qcell df (nat ?slot) ?c k"
    have Q: "?q k < length cs" if "k < 3" for k using qcell_less [OF sv c that] len(1) by simp
    have ne: "?q 0 \<noteq> ?q 1" "?q 0 \<noteq> ?q 2" "?q 1 \<noteq> ?q 2" 
      using qcell_inj [OF _ c c, of df "nat ?slot" 0 "nat ?slot" 1] qcell_inj [OF _ c c, of df "nat ?slot" 0 "nat ?slot" 2] qcell_inj [OF _ c c, of df "nat ?slot" 1 "nat ?slot" 2]
      by (simp_all del: One_nat_def) fastforce+
    let ?x = "projected_qkvz X ! (?b * kQkvzDim + ?c)"
    have x: "rd (projected_qkvz X) (?b * kQkvzDim + ?c) = Some ?x"
      using div_mult_add_lt [OF b, of ?c kQkvzDim] c lq by (simp add: kQkvzDim_def)
    have W: "rd (conv_weight X) (?c * 4 + k) = Some (conv_weight X ! (?c * 4 + k))" if "k < 4" for k
      using div_mult_add_lt [OF c that] ok by (simp add: qwen_ok_def)
    have bias: "conv_bias ld (qconv_bias X) ?c = Some (bias_val ld (qconv_bias X) ?c)" by (rule conv_bias_Some [OF c]) (use ok in \<open>simp add: qwen_ok_def\<close>)
    let ?cs' = "cs[?q 0 := st (ld (cs ! ?q 1)), ?q 1 := st (ld (cs ! ?q 2)), ?q 2 := ?x]"
    have win: "qwen_window ld df cs ?slot ?c = [ld (cs ! ?q 0), ld (cs ! ?q 1), ld (cs ! ?q 2)]" by (simp add: qwen_window_def upt_rec numeral_eq_Suc)
    have y: "fst (qwen_conv M ld st X df cs ?b ?c) = conv1d_silu (exp_fn M) (bias_val ld (qconv_bias X) ?c + ld (cs ! ?q 0) * ld (conv_weight X ! (?c * 4 + 0)) +
        ld (cs ! ?q 1) * ld (conv_weight X ! (?c * 4 + 1)) + ld (cs ! ?q 2) * ld (conv_weight X ! (?c * 4 + 2)) + ld ?x * ld (conv_weight X ! (?c * 4 + 3)))"
      by (simp add: qwen_conv_def conv_step_def conv_dot_def win conv_weights_def upt_rec numeral_3_eq_3)
    have run: "qwen_conv_item M ld st X df nslots batch i (cs, mixed, z) = Some (?cs', mixed[i := st (fst (qwen_conv M ld st X df cs ?b ?c))], ?z')"
      using True False im Q [of 0] Q [of 1] Q [of 2] W [of 0] W [of 1] W [of 2] W [of 3] ne
      unfolding qwen_conv_item_def Let_def prod.case zs_def [symmetric] z sl Option.bind.bind_lunit x bias us qcell_addr y by simp
    have "writes (qwin_cells df (qstate_indices X) nslots batch i)
      (\<lambda>a. if a = ?q 2 then ?x else if a = ?q 1 then st (qwen_window ld df cs ?slot ?c ! 2) else st (qwen_window ld df cs ?slot ?c ! 1)) cs ?cs'"
    proof -
      have 3: "{..<3 :: nat} = {0, 1, 2}" by auto
      have "qwin_cells df (qstate_indices X) nslots batch i = {?q 0, ?q 1, ?q 2}" using True False by (simp add: qwin_cells_def 3)
      then show ?thesis using ne Q [of 0] Q [of 1] Q [of 2] by (auto simp: writes_def win nth_list_update)
    qed
    moreover have "writes {i} (\<lambda>a. st (fst (qwen_conv M ld st X df cs ?b ?c))) mixed (mixed[i := st (fst (qwen_conv M ld st X df cs ?b ?c))])"
      using writes_single [OF im, of "\<lambda>a. st (fst (qwen_conv M ld st X df cs ?b ?c))"] .
    ultimately show ?thesis using True False wz run unfolding zs_def by (intro exI conjI) (assumption | simp)+
  qed
qed


lemma qwen_convs:
  fixes cs mixed z :: "'t list"
  assumes ok: "qwen_ok batch X nslots" and len: "length cs = nslots * 3 * kConvDim" "length mixed = batch * kConvDim" "length z = batch * kValueDim"
    and sched: "schedule N csched" "batch * kConvDim \<le> N"
  shows "\<exists>cs' mixed' z'. foldM (qwen_conv_item M ld st X df nslots batch) csched (cs, mixed, z) = Some (cs', mixed', z') \<and> length mixed' = batch * kConvDim \<and>
    (\<forall>b<batch. \<forall>c<kConvDim.
      mixed' ! (b * kConvDim + c) = (if null_slot (qstate_indices X ! b) nslots then st 0 else st (fst (qwen_conv M ld st X df cs b c))) \<and>
      (\<not> null_slot (qstate_indices X ! b) nslots \<longrightarrow> (\<forall>k<3. cs' ! qcell df (nat (qstate_indices X ! b)) c k =
        (if k < 2 then st (qwen_window ld df cs (qstate_indices X ! b) c ! (k + 1)) else projected_qkvz X ! (b * kQkvzDim + c))))) \<and>
    (\<forall>b<batch. \<forall>c<kValueDim. z' ! (b * kValueDim + c) = projected_qkvz X ! (b * kQkvzDim + kConvDim + c)) \<and>
    (\<forall>a<length cs. (\<forall>b<batch. \<not> null_slot (qstate_indices X ! b) nslots \<longrightarrow> (\<forall>c<kConvDim. \<forall>k<3. a \<noteq> qcell df (nat (qstate_indices X ! b)) c k)) \<longrightarrow> cs' ! a = cs ! a)"
proof -
  let ?sl = "qstate_indices X" and ?C = kConvDim
  let ?win = "\<lambda>cs i. qwen_window ld df cs (?sl ! (i div ?C)) (i mod ?C)"
  let ?ca = "qwin_cells df ?sl nslots batch"
  let ?u = "\<lambda>i a. if a = qcell df (nat (?sl ! (i div ?C))) (i mod ?C) 2 then projected_qkvz X ! (i div ?C * kQkvzDim + i mod ?C)
        else if a = qcell df (nat (?sl ! (i div ?C))) (i mod ?C) 1 then st (?win cs i ! 2) else st (?win cs i ! 1)"
  let ?v = "\<lambda>i a. if null_slot (?sl ! (i div ?C)) nslots then st 0 else st (fst (qwen_conv M ld st X df cs (i div ?C) (i mod ?C)))"
  let ?w = "\<lambda>i a. projected_qkvz X ! (i div ?C * kQkvzDim + ?C + (i mod ?C - (?C - kValueDim)))"
  let ?cb = "\<lambda>i. if i < batch * ?C then {i} else {}"
  have slen: "length ?sl = batch" "i32_slots ?sl" using ok by (simp_all add: qwen_ok_def)
  have own: "owns N ?cb" by (auto simp: owns_def)
  have "\<exists>a b c. foldM (qwen_conv_item M ld st X df nslots batch) csched (cs, mixed, z) = Some (a, b, c) \<and>
      rows_done ?ca ?u cs {..<N} a \<and> rows_done ?cb ?v mixed {..<N} b \<and> rows_done (qz_cells batch) ?w z {..<N} c"
  proof (rule launch_own3 [OF sched(1) qwin_own [OF ok] own qz_own])
    fix i and a b c :: "'t list" assume l: "length a = length cs" "length b = length mixed" "length c = length z"
      and same: "\<And>x. x \<in> ?ca i \<Longrightarrow> x < length cs \<Longrightarrow> a ! x = cs ! x"
    have la: "length a = nslots * 3 * ?C" "length b = batch * ?C" "length c = batch * kValueDim" using l len by simp_all
    have win: "?win a i = ?win cs i" if i: "i < batch * ?C" and nn: "\<not> null_slot (?sl ! (i div ?C)) nslots"
    proof -
      have sv: "nat (?sl ! (i div ?C)) < nslots" using slot_valid(2) [OF slen(2) _ nn] item_split(1) [OF i] slen(1) by simp
      have "a ! qcell df (nat (?sl ! (i div ?C))) (i mod ?C) k = cs ! qcell df (nat (?sl ! (i div ?C))) (i mod ?C) k" if "k < 3" for k
        by (rule same) (use i nn that qcell_less [OF sv item_split(2) [OF i] that] len(1) in \<open>simp_all add: qwin_cells_def\<close>)
      then show ?thesis by (simp add: qwen_window_def)
    qed
    from qwen_conv_item_ok [OF ok la, of M ld st df i] obtain a' b' c' where r: "qwen_conv_item M ld st X df nslots batch i (a, b, c) = Some (a', b', c')"
      "writes (?ca i) (\<lambda>x. if x = qcell df (nat (?sl ! (i div ?C))) (i mod ?C) 2 then projected_qkvz X ! (i div ?C * kQkvzDim + i mod ?C)
        else if x = qcell df (nat (?sl ! (i div ?C))) (i mod ?C) 1 then st (?win a i ! 2) else st (?win a i ! 1)) a a'"
      "writes (?cb i) (\<lambda>x. if null_slot (?sl ! (i div ?C)) nslots then st 0 else st (fst (qwen_conv M ld st X df a (i div ?C) (i mod ?C)))) b b'"
      "writes (qz_cells batch i) (?w i) c c'" by (elim exE conjE)
    have "writes (?ca i) (?u i) a a'"
    proof (cases "i < batch * ?C \<and> \<not> null_slot (?sl ! (i div ?C)) nslots")
      case True
      show ?thesis by (rule r(2) [unfolded win [OF conjunct1 [OF True] conjunct2 [OF True]]])
    next
      case False
      then have "?ca i = {}" by (auto simp: qwin_cells_def)
      then show ?thesis using r(2) by simp
    qed
    moreover have "writes (?cb i) (?v i) b b'"
    proof (cases "i < batch * ?C \<and> \<not> null_slot (?sl ! (i div ?C)) nslots")
      case True
      then show ?thesis using r(3) unfolding qwen_conv_def win [OF conjunct1 [OF True] conjunct2 [OF True]] by simp
    next
      case False
      then show ?thesis using r(3) by (cases "i < batch * ?C") simp_all
    qed
    ultimately show "\<exists>a' b' c'. qwen_conv_item M ld st X df nslots batch i (a, b, c) = Some (a', b', c') \<and>
        writes (?ca i) (?u i) a a' \<and> writes (?cb i) (?v i) b b' \<and> writes (qz_cells batch i) (?w i) c c'" using r(1,4) by blast
  qed
  then obtain a b c where abc: "foldM (qwen_conv_item M ld st X df nslots batch) csched (cs, mixed, z) = Some (a, b, c)"
      "rows_done ?ca ?u cs {..<N} a" "rows_done ?cb ?v mixed {..<N} b" "rows_done (qz_cells batch) ?w z {..<N} c" by (elim exE conjE)
  have cell: "q * ?C + k < N" "q * ?C + k < batch * ?C" "(q * ?C + k) div ?C = q" "(q * ?C + k) mod ?C = k" if "q < batch" "k < ?C" for q k
    using div_mult_add_lt [OF that] that sched(2) by simp_all
  have 1: "b ! (q * ?C + k) = (if null_slot (?sl ! q) nslots then st 0 else st (fst (qwen_conv M ld st X df cs q k)))" if q: "q < batch" "k < ?C" for q k
    using rows_done_cell [OF abc(3) cell(1) [OF q], of "q * ?C + k"] cell(2) [OF q] len(2) unfolding cell(3,4) [OF q] by simp
  have 2: "a ! qcell df (nat (?sl ! q)) k j = (if j < 2 then st (qwen_window ld df cs (?sl ! q) k ! (j + 1)) else projected_qkvz X ! (q * kQkvzDim + k))"
    if q: "q < batch" "k < ?C" and nn: "\<not> null_slot (?sl ! q) nslots" and j: "j < 3" for q k j
  proof -
    have sv: "nat (?sl ! q) < nslots" using slot_valid(2) [OF slen(2) _ nn] q(1) slen(1) by simp
    have m: "qcell df (nat (?sl ! q)) k j \<in> ?ca (q * ?C + k)" unfolding qwin_cells_def cell(3,4) [OF q] using cell(2) [OF q] nn j by simp
    have inj: "qcell df (nat (?sl ! q)) k j = qcell df (nat (?sl ! q)) k j' \<longleftrightarrow> j = j'" if "j' < 3" for j'
      using qcell_inj [OF _ q(2) q(2) j that, of df "nat (?sl ! q)" "nat (?sl ! q)"] by blast
    have "j = 0 \<or> j = 1 \<or> j = 2" using j by auto
    then show ?thesis using rows_done_cell [OF abc(2) cell(1) [OF q] m] qcell_less [OF sv q(2) j] len(1) inj [of 1] inj [of 2] unfolding cell(3,4) [OF q] by (auto simp: numeral_2_eq_2)
  qed
  have 3: "c ! (q * kValueDim + k) = projected_qkvz X ! (q * kQkvzDim + ?C + k)" if q: "q < batch" "k < kValueDim" for q k
  proof -
    let ?k = "?C - kValueDim + k"
    have k: "?k < ?C" "?k - (?C - kValueDim) = k" "?C - kValueDim \<le> ?k" using q(2) kConvDim_pos by simp_all
    have m: "q * kValueDim + k \<in> qz_cells batch (q * ?C + ?k)" unfolding qz_cells_def cell(3,4) [OF q(1) k(1)] using cell(2) [OF q(1) k(1)] k(2,3) by simp
    show ?thesis using rows_done_cell [OF abc(4) cell(1) [OF q(1) k(1)] m] div_mult_add_lt [OF q] len(3) unfolding cell(3,4) [OF q(1) k(1)] k(2) by simp
  qed
  have 4: "a ! x = cs ! x" if x: "x < length cs" and fr: "\<forall>b<batch. \<not> null_slot (?sl ! b) nslots \<longrightarrow> (\<forall>c<?C. \<forall>k<3. x \<noteq> qcell df (nat (?sl ! b)) c k)" for x
  proof (rule rows_done_frame [OF abc(2) x])
    fix i
    show "x \<notin> ?ca i"
    proof (cases "i < batch * ?C")
      case True
      then show ?thesis using fr [rule_format, OF item_split(1) [OF True] _ item_split(2) [OF True]] by (auto simp: qwin_cells_def)
    qed (simp add: qwin_cells_def)
  qed
  have 5: "length b = batch * ?C" using rows_done_length [OF abc(3)] len(2) by simp
  show ?thesis
    by (rule exI [of _ a], rule exI [of _ b], rule exI [of _ c]) (intro conjI allI impI, rule abc(1), rule 5, simp_all add: 1 2 3 4 del: One_nat_def)
qed


section \<open>The recurrent stage\<close>

definition qwen_shape :: gdn_shape where
  "qwen_shape = \<lparr>k_heads = kQueryHeads, k_dim = kHeadDim, v_heads = kValueHeads, v_dim = kHeadDim\<rparr>"

lemma qwen_shape_simps [simp]: "k_heads qwen_shape = kQueryHeads" "k_dim qwen_shape = kHeadDim" "v_heads qwen_shape = kValueHeads" "v_dim qwen_shape = kHeadDim"
  by (simp_all add: qwen_shape_def)

text \<open>A row of the convolved activations, normalized.\<close>

definition unit_row :: "('f::{plus,times}, 'z) gmath_scheme \<Rightarrow> 'f \<Rightarrow> ('t \<Rightarrow> 'f) \<Rightarrow> 't list \<Rightarrow> nat \<Rightarrow> nat \<Rightarrow> 'f" where
  "unit_row M eps ld mixed row i = ld (mixed ! (row + i)) * rsqrt_fn M (sum_group M (map (\<lambda>l. ld (mixed ! (row + l)) * ld (mixed ! (row + l))) [0..<kHeadDim]) + eps)"

definition qwen_token :: "('f::{plus,times,uminus,inverse,one,ord}, 'z) gmath_scheme \<Rightarrow> ('f \<Rightarrow> 'f) \<Rightarrow> 'f \<Rightarrow> 'f \<Rightarrow> ('t \<Rightarrow> 'f) \<Rightarrow> ('b \<Rightarrow> 'f) \<Rightarrow> ('t, 'b, 'f) qwen_in \<Rightarrow> 't list \<Rightarrow> nat \<Rightarrow> nat \<Rightarrow> nat \<Rightarrow> 'f gdr_tok" where
  "qwen_token M lg eps qscale ld ldb X mixed vh lane b =
     (let qh = vh div (kValueHeads div kQueryHeads)
      in (exp_fn M (- exp_fn M (qA_log X ! vh) * softplus M lg (ld (projected_ba X ! (b * kBaDim + kValueHeads + vh)) + ldb (dt_bias X ! vh))),
          gdr_sigmoid M (ld (projected_ba X ! (b * kBaDim + vh))),
          ld (mixed ! (b * kConvDim + kQueryDim + kKeyDim + vh * kHeadDim + lane)),
          unit_row M eps ld mixed (b * kConvDim + kQueryDim + qh * kHeadDim),
          \<lambda>i. unit_row M eps ld mixed (b * kConvDim + qh * kHeadDim) i * qscale))"

definition qwen_step :: "('f::{plus,times,minus,uminus,inverse,zero,one,ord}, 'z) gmath_scheme \<Rightarrow> ('f \<Rightarrow> 'f) \<Rightarrow> 'f \<Rightarrow> 'f \<Rightarrow> ('t \<Rightarrow> 'f) \<Rightarrow> ('b \<Rightarrow> 'f) \<Rightarrow> ('s \<Rightarrow> 'f) \<Rightarrow> ('t, 'b, 'f) qwen_in \<Rightarrow> 't list \<Rightarrow> 's list \<Rightarrow> nat \<Rightarrow> nat \<Rightarrow> nat \<Rightarrow> 'f \<times> 'f list" where
  "qwen_step M lg eps qscale ld ldb lds X mixed ssm b vh lane =
     gdr_step (qwen_token M lg eps qscale ld ldb X mixed vh lane b) (gdr_init lds ssm kHeadDim (gdr_row qwen_shape (qstate_indices X) b vh lane) True)"

lemma lin_step_comp: "lin_step upd2 prd fin (snd (lin_step upd1 prd1 fin1 row)) = lin_step (\<lambda>i s. upd2 i (upd1 i s)) prd fin row"
  unfolding lin_step_def by (auto intro!: arg_cong [where f = fin] fold_cong)

lemma kHeads: "kValueHeads div kQueryHeads = 2" "vh < kValueHeads \<Longrightarrow> vh div 2 < kQueryHeads"
  by (simp_all add: kValueHeads_def kQueryHeads_def)

lemma qwen_rows_in:
  assumes b: "b < batch" and vh: "vh < kValueHeads" and l: "l < kHeadDim"
  shows "b * kConvDim + vh div (kValueHeads div kQueryHeads) * kHeadDim + l < batch * kConvDim"
    and "b * kConvDim + kQueryDim + vh div (kValueHeads div kQueryHeads) * kHeadDim + l < batch * kConvDim"
    and "b * kConvDim + kQueryDim + kKeyDim + vh * kHeadDim + l < batch * kConvDim"
proof -
  let ?qh = "vh div (kValueHeads div kQueryHeads)"
  have q: "?qh * kHeadDim + l < kQueryHeads * kHeadDim" by (rule div_mult_add_lt [OF _ l]) (use kHeads vh in simp)
  have v: "vh * kHeadDim + l < kValueHeads * kHeadDim" by (rule div_mult_add_lt [OF vh l])
  have in': "b * kConvDim + c < batch * kConvDim" if "c < kConvDim" for c by (rule div_mult_add_lt [OF b that])
  show "b * kConvDim + ?qh * kHeadDim + l < batch * kConvDim"
    using in' [of "?qh * kHeadDim + l"] q unfolding kConvDim_def kQueryDim_def by simp
  show "b * kConvDim + kQueryDim + ?qh * kHeadDim + l < batch * kConvDim"
    using in' [of "kQueryDim + (?qh * kHeadDim + l)"] q unfolding kConvDim_def kKeyDim_def by simp
  show "b * kConvDim + kQueryDim + kKeyDim + vh * kHeadDim + l < batch * kConvDim"
    using in' [of "kQueryDim + kKeyDim + (vh * kHeadDim + l)"] v unfolding kConvDim_def kValueDim_def by simp
qed

lemma qwen_rec_item_ok:
  fixes ssm :: "'s list" and out mixed :: "'t list" and M :: "('f::{plus,times,minus,uminus,inverse,zero,one,ord}, 'z) gmath_scheme"
  assumes ok: "qwen_ok batch X nslots" and comm: "\<And>x y :: 'f. x * y = y * x" and b: "b < batch" "vh < kValueHeads" "lane < kHeadDim"
    and len: "length mixed = batch * kConvDim" "length ssm = nslots * kValueHeads * kHeadDim * kHeadDim" "length out = batch * kValueHeads * kHeadDim"
    and i_def: "i = tcell kValueHeads kHeadDim vh lane b" and r_def: "r = qwen_step M lg eps qscale ld ldb lds X mixed ssm b vh lane"
  shows "\<exists>ssm'. qwen_rec_item M lg eps qscale ld st ldb lds sts X mixed nslots i (ssm, out) = Some (ssm', out[i := (if null_slot (qstate_indices X ! b) nslots then st 0 else st (fst r))]) \<and>
    writes (gdr_reads qwen_shape (qstate_indices X) nslots i) (\<lambda>c. sts (snd r ! (c - gdr_row qwen_shape (qstate_indices X) b vh lane * kHeadDim))) ssm ssm'"
proof -
  let ?slot = "qstate_indices X ! b" and ?row = "gdr_row qwen_shape (qstate_indices X) b vh lane"
  have id: "i div kHeadDim = b * kValueHeads + vh" "i mod kHeadDim = lane" "i div kHeadDim div kValueHeads = b" "i div kHeadDim mod kValueHeads = vh"
    using b(2,3) by (simp_all add: i_def tcell_def)
  have ii: "(b * kValueHeads + vh) * kHeadDim + lane = i" by (simp add: i_def tcell_def)
  have il: "i < length out" unfolding i_def len(3) by (rule tcell_less [OF b])
  have sl: "rd (qstate_indices X) b = Some ?slot" "i32_slots (qstate_indices X)" "b < length (qstate_indices X)" using ok b(1) by (simp_all add: qwen_ok_def)
  have gr: "gdr_reads qwen_shape (qstate_indices X) nslots i = (if null_slot ?slot nslots then {} else row_cells kHeadDim ?row)"
    unfolding gdr_reads_def Let_def qwen_shape_simps id(2-4) by (rule refl)
  note pre = qwen_rec_item_def Let_def prod.case id(1,2) id(3,4) [unfolded id(1)] ii sl(1) Option.bind.bind_lunit
  show ?thesis
  proof (cases "null_slot ?slot nslots")
    case True
    then show ?thesis unfolding pre using il by (simp add: gr)
  next
    case False
    let ?qh = "vh div (kValueHeads div kQueryHeads)"
    let ?qr = "b * kConvDim + ?qh * kHeadDim" and ?kr = "b * kConvDim + kQueryDim + ?qh * kHeadDim" and ?vr = "b * kConvDim + kQueryDim + kKeyDim + vh * kHeadDim"
    have rows: "those (map (\<lambda>l. map_option ld (rd mixed (?qr + l))) [0..<kHeadDim]) = Some (map (\<lambda>l. ld (mixed ! (?qr + l))) [0..<kHeadDim])"
      "those (map (\<lambda>l. map_option ld (rd mixed (?kr + l))) [0..<kHeadDim]) = Some (map (\<lambda>l. ld (mixed ! (?kr + l))) [0..<kHeadDim])"
      by (rule those_map_Some, use qwen_rows_in(1,2) [OF b(1,2)] len(1) in simp)+
    have vrow: "rd mixed (?vr + lane) = Some (mixed ! (?vr + lane))" using qwen_rows_in(3) [OF b] len(1) by simp
    let ?key = "unit_row M eps ld mixed ?kr" and ?query = "\<lambda>i. unit_row M eps ld mixed ?qr i * qscale"
    define query key where "query = map ?query [0..<kHeadDim]" and "key = map ?key [0..<kHeadDim]"
    have q: "map (\<lambda>x. x * rsqrt_fn M (sum_group M (map (\<lambda>x. x * x) (map (\<lambda>l. ld (mixed ! (?qr + l))) [0..<kHeadDim])) + eps) * qscale) (map (\<lambda>l. ld (mixed ! (?qr + l))) [0..<kHeadDim]) = query"
      "map (\<lambda>x. x * rsqrt_fn M (sum_group M (map (\<lambda>x. x * x) (map (\<lambda>l. ld (mixed ! (?kr + l))) [0..<kHeadDim])) + eps)) (map (\<lambda>l. ld (mixed ! (?kr + l))) [0..<kHeadDim]) = key"
      by (simp_all add: query_def key_def unit_row_def comp_def)
    have rq: "rd query k = Some (?query k)" "rd key k = Some (?key k)" if "k < kHeadDim" for k using that by (simp_all add: query_def key_def)
    have ba: "b * kBaDim + kValueHeads + vh < length (projected_ba X)" "b * kBaDim + vh < length (projected_ba X)"
      using div_mult_add_lt [OF b(1), of "kValueHeads + vh" kBaDim] div_mult_add_lt [OF b(1), of vh kBaDim] b(2) ok by (simp_all add: kBaDim_def qwen_ok_def)
    have rb: "rd (projected_ba X) (b * kBaDim + kValueHeads + vh) = Some (projected_ba X ! (b * kBaDim + kValueHeads + vh))" "rd (projected_ba X) (b * kBaDim + vh) = Some (projected_ba X ! (b * kBaDim + vh))"
      "rd (qA_log X) vh = Some (qA_log X ! vh)" "rd (dt_bias X) vh = Some (dt_bias X ! vh)" using ba b(2) ok by (simp_all add: qwen_ok_def)
    let ?g = "exp_fn M (- exp_fn M (qA_log X ! vh) * softplus M lg (ld (projected_ba X ! (b * kBaDim + kValueHeads + vh)) + ldb (dt_bias X ! vh)))"
    let ?beta = "1 / (1 + exp_fn M (- ld (projected_ba X ! (b * kBaDim + vh))))"
    let ?v = "ld (mixed ! (?vr + lane))"
    have base: "((usize ?slot * kValueHeads + vh) * kHeadDim + lane) * kHeadDim = ?row * kHeadDim"
      using usize_slot [OF sl(2,3) False] by (simp add: gdr_row_def tcell_def)
    have rowlt: "?row < nslots * kValueHeads * kHeadDim" using gdr_row_less [OF sl(2,3) False, of vh qwen_shape lane] b by simp
    have cell: "?row * kHeadDim + k < length ssm" if "k < kHeadDim" for k using div_mult_add_lt [OF rowlt that] len(2) by simp
    define w where "w = gdr_init lds ssm kHeadDim ?row True"
    have w: "length w = kHeadDim" "\<And>k. k < kHeadDim \<Longrightarrow> w ! k = lds (ssm ! (?row * kHeadDim + k))" by (simp_all add: w_def gdr_init_def)
    define L1 where "L1 = lin_step (\<lambda>i s. s * ?g) (\<lambda>i s. s * ?key i) id w"
    have pred: "foldM (\<lambda>k prediction. do { sv \<leftarrow> rd ssm (?row * kHeadDim + k); kv \<leftarrow> rd key k; Some (prediction + lds sv * ?g * kv) }) [0..<kHeadDim] 0 = Some (fst L1)"
    proof -
      have "foldM (\<lambda>k prediction. do { sv \<leftarrow> rd ssm (?row * kHeadDim + k); kv \<leftarrow> rd key k; Some (prediction + lds sv * ?g * kv) }) [0..<kHeadDim] 0 =
          Some (fold (\<lambda>n y. y + w ! n * ?g * ?key n) [0..<kHeadDim] 0)" by (rule foldM_pure') (simp add: cell rq w)
      then show ?thesis by (simp add: L1_def lin_step_def w(1))
    qed
    let ?delta = "(?v - fst L1) * ?beta"
    let ?L = "lin_step (\<lambda>k s. s * ?g + ?delta * ?key k) (\<lambda>k s. s * ?query k) id w"
    have r: "r = ?L"
    proof -
      have "r = lin_step (\<lambda>i s. s + ?key i * ?delta) (\<lambda>i s. s * ?query i) id (snd L1)"
        unfolding r_def qwen_step_def qwen_token_def gdr_step_def Let_def case_prod_beta gdr_sigmoid_def L1_def w_def by simp
      also have "\<dots> = ?L"
      proof -
        have c: "?key i * ?delta = ?delta * ?key i" for i by (rule comm)
        show ?thesis unfolding c unfolding L1_def lin_step_comp by (rule refl)
      qed
      finally show ?thesis .
    qed
    have "\<exists>ssm'. foldM (\<lambda>k (ssm, output). do {
         sv \<leftarrow> rd ssm (?row * kHeadDim + k);
         kv \<leftarrow> rd key k;
         ssm \<leftarrow> wr ssm (?row * kHeadDim + k) (sts (lds sv * ?g + ?delta * kv));
         qv \<leftarrow> rd query k;
         Some (ssm, output + (lds sv * ?g + ?delta * kv) * qv) }) [0..<kHeadDim] (ssm, 0) = Some (ssm', fst ?L) \<and>
        writes ((+) (?row * kHeadDim) ` {..<kHeadDim}) (\<lambda>c. sts (snd ?L ! the_inv_into {..<kHeadDim} ((+) (?row * kHeadDim)) c)) ssm ssm'"
      by (rule lin_memory [where lds = lds and row = w and R = "(+) (?row * kHeadDim)"]) (simp_all add: w_def gdr_init_def cell rq)
    then obtain ssm' where s: "foldM (\<lambda>k (ssm, output). do {
         sv \<leftarrow> rd ssm (?row * kHeadDim + k);
         kv \<leftarrow> rd key k;
         ssm \<leftarrow> wr ssm (?row * kHeadDim + k) (sts (lds sv * ?g + ?delta * kv));
         qv \<leftarrow> rd query k;
         Some (ssm, output + (lds sv * ?g + ?delta * kv) * qv) }) [0..<kHeadDim] (ssm, 0) = Some (ssm', fst ?L)"
      "writes ((+) (?row * kHeadDim) ` {..<kHeadDim}) (\<lambda>c. sts (snd ?L ! the_inv_into {..<kHeadDim} ((+) (?row * kHeadDim)) c)) ssm ssm'" by (elim exE conjE)
    have "writes (row_cells kHeadDim ?row) (\<lambda>c. sts (snd ?L ! (c - ?row * kHeadDim))) ssm ssm'"
    proof -
      have inv: "the_inv_into {..<kHeadDim} ((+) (?row * kHeadDim)) c = c - ?row * kHeadDim" if "c \<in> row_cells kHeadDim ?row" for c
        using that the_inv_into_f_f [of "(+) (?row * kHeadDim)" "{..<kHeadDim}" "c - ?row * kHeadDim"] by auto
      moreover have "(+) (?row * kHeadDim) ` {..<kHeadDim} = row_cells kHeadDim ?row" by (simp add: lessThan_atLeast0 add.commute)
      ultimately show ?thesis using s(2) by (simp add: writes_def)
    qed
    moreover have "qwen_rec_item M lg eps qscale ld st ldb lds sts X mixed nslots i (ssm, out) = Some (ssm', out[i := st (fst ?L)])"
      unfolding pre base rows q vrow rb Option.bind.bind_lunit pred s(1) using False il by simp
    ultimately show ?thesis using False unfolding r by (simp add: gr)
  qed
qed


lemma qwen_recs:
  fixes ssm :: "'s list" and out mixed :: "'t list" and M :: "('f::{plus,times,minus,uminus,inverse,zero,one,ord}, 'z) gmath_scheme"
  assumes ok: "qwen_ok batch X nslots" and comm: "\<And>x y :: 'f. x * y = y * x" and sched: "schedule (batch * kValueHeads * kHeadDim) rsched"
    and len: "length mixed = batch * kConvDim" "length ssm = nslots * kValueHeads * kHeadDim * kHeadDim" "length out = batch * kValueHeads * kHeadDim"
  shows "\<exists>ssm' out'. foldM (qwen_rec_item M lg eps qscale ld st ldb lds sts X mixed nslots) rsched (ssm, out) = Some (ssm', out') \<and>
    (\<forall>b<batch. \<forall>vh<kValueHeads. \<forall>lane<kHeadDim. let r = qwen_step M lg eps qscale ld ldb lds X mixed ssm b vh lane in
      out' ! tcell kValueHeads kHeadDim vh lane b = (if null_slot (qstate_indices X ! b) nslots then st 0 else st (fst r)) \<and>
      (\<not> null_slot (qstate_indices X ! b) nslots \<longrightarrow> (\<forall>n<kHeadDim. ssm' ! (gdr_row qwen_shape (qstate_indices X) b vh lane * kHeadDim + n) = sts (snd r ! n)))) \<and>
    (\<forall>a<length ssm. (\<forall>b<batch. \<not> null_slot (qstate_indices X ! b) nslots \<longrightarrow>
      (\<forall>vh<kValueHeads. \<forall>lane<kHeadDim. a \<notin> row_cells kHeadDim (gdr_row qwen_shape (qstate_indices X) b vh lane))) \<longrightarrow> ssm' ! a = ssm ! a)"
proof -
  let ?sl = "qstate_indices X" and ?H = kValueHeads and ?D = kHeadDim and ?N = "batch * kValueHeads * kHeadDim"
  let ?b = "\<lambda>i. i div ?D div ?H" and ?h = "\<lambda>i. i div ?D mod ?H" and ?d = "\<lambda>i. i mod ?D"
  let ?row = "gdr_row qwen_shape ?sl" and ?reads = "gdr_reads qwen_shape ?sl nslots"
  let ?r = "\<lambda>ssm i. qwen_step M lg eps qscale ld ldb lds X mixed ssm (?b i) (?h i) (?d i)"
  let ?u = "\<lambda>i c. sts (snd (?r ssm i) ! (c - ?row (?b i) (?h i) (?d i) * ?D))"
  let ?v = "\<lambda>i a. if null_slot (?sl ! ?b i) nslots then st 0 else st (fst (?r ssm i))"
  have sl: "i32_slots ?sl" "slots_distinct ?sl nslots" "length ?sl = batch" using ok by (simp_all add: qwen_ok_def)
  have lane: "i = tcell ?H ?D (?h i) (?d i) (?b i)" for i by (simp add: tcell_def)
  have own: "owns ?N ?reads" unfolding owns_def using gdr_rows_apart [OF sl(1,2), of _ qwen_shape] sl(3) by simp
  have own': "owns ?N (\<lambda>i. {i})" by (auto simp: owns_def)
  have row_less: "?row b h d * ?D + n < length ssm" if "b < batch" "h < ?H" "d < ?D" "\<not> null_slot (?sl ! b) nslots" "n < ?D" for b h d n
    using div_mult_add_lt [OF gdr_row_less [OF sl(1) _ that(4), of h qwen_shape d] that(5)] that(1-3) sl(3) len(2) by simp
  have "\<exists>a b. foldM (qwen_rec_item M lg eps qscale ld st ldb lds sts X mixed nslots) rsched (ssm, out) = Some (a, b) \<and>
      rows_done ?reads ?u ssm {..<?N} a \<and> rows_done (\<lambda>i. {i}) ?v out {..<?N} b"
  proof (rule launch_rows2 [OF sched own own'])
    fix i and a :: "'s list" and b :: "'t list" assume i: "i < ?N" and l: "length a = length ssm" "length b = length out"
      and same: "\<And>c. c \<in> ?reads i \<Longrightarrow> c < length ssm \<Longrightarrow> a ! c = ssm ! c"
    note li = head_split [OF i]
    have la: "length a = nslots * ?H * ?D * ?D" "length b = batch * ?H * ?D" using l len by simp_all
    have ib: "i < length b" using i la(2) by simp
    have eq: "?r a i = ?r ssm i" if nn: "\<not> null_slot (?sl ! ?b i) nslots"
    proof -
      have "a ! (?row (?b i) (?h i) (?d i) * ?D + n) = ssm ! (?row (?b i) (?h i) (?d i) * ?D + n)" if n: "n < ?D" for n
        by (rule same) (use nn n row_less [OF li nn n] in \<open>simp_all add: gdr_reads_def Let_def\<close>)
      then have "gdr_init lds a ?D (?row (?b i) (?h i) (?d i)) True = gdr_init lds ssm ?D (?row (?b i) (?h i) (?d i)) True" by (simp add: gdr_init_def)
      then show ?thesis by (simp add: qwen_step_def)
    qed
    from qwen_rec_item_ok [OF ok comm li len(1) la lane refl, of M lg eps qscale ld st ldb lds sts] obtain a' where
      r: "qwen_rec_item M lg eps qscale ld st ldb lds sts X mixed nslots i (a, b) = Some (a', b[i := (if null_slot (?sl ! ?b i) nslots then st 0 else st (fst (?r a i)))])"
        "writes (?reads i) (\<lambda>c. sts (snd (?r a i) ! (c - ?row (?b i) (?h i) (?d i) * ?D))) a a'" by (elim exE conjE)
    have "b[i := (if null_slot (?sl ! ?b i) nslots then st 0 else st (fst (?r a i)))] = b[i := ?v i i]" using eq by simp
    moreover have "writes {i} (?v i) b (b[i := ?v i i])" by (rule writes_single [OF ib])
    moreover have "writes (?reads i) (?u i) a a'"
    proof (cases "null_slot (?sl ! ?b i) nslots")
      case True
      then have "?reads i = {}" by (simp add: gdr_reads_def Let_def)
      then show ?thesis using r(2) by simp
    qed (use r(2) eq in simp)
    ultimately show "\<exists>a' b'. qwen_rec_item M lg eps qscale ld st ldb lds sts X mixed nslots i (a, b) = Some (a', b') \<and> writes (?reads i) (?u i) a a' \<and> writes {i} (?v i) b b'"
      using r(1) by metis
  qed
  then obtain a b where ab: "foldM (qwen_rec_item M lg eps qscale ld st ldb lds sts X mixed nslots) rsched (ssm, out) = Some (a, b)"
      "rows_done ?reads ?u ssm {..<?N} a" "rows_done (\<lambda>i. {i}) ?v out {..<?N} b" by (elim exE conjE)
  have 1: "b ! tcell ?H ?D h d q = (if null_slot (?sl ! q) nslots then st 0 else st (fst (qwen_step M lg eps qscale ld ldb lds X mixed ssm q h d)))"
    if q: "q < batch" "h < ?H" "d < ?D" for q h d
  proof -
    let ?i = "tcell ?H ?D h d q"
    have i: "?i < ?N" by (rule tcell_less [OF q])
    have id: "?b ?i = q" "?h ?i = h" "?d ?i = d" using q(2,3) by (simp_all add: tcell_def)
    show ?thesis using rows_done_cell [OF ab(3) i, of ?i] i len(3) unfolding id by simp
  qed
  have 2: "a ! (?row q h d * ?D + n) = sts (snd (qwen_step M lg eps qscale ld ldb lds X mixed ssm q h d) ! n)"
    if q: "q < batch" "h < ?H" "d < ?D" and nn: "\<not> null_slot (?sl ! q) nslots" and n: "n < ?D" for q h d n
  proof -
    let ?i = "tcell ?H ?D h d q"
    have i: "?i < ?N" by (rule tcell_less [OF q])
    have id: "?b ?i = q" "?h ?i = h" "?d ?i = d" using q(2,3) by (simp_all add: tcell_def)
    have "?row q h d * ?D + n \<in> ?reads ?i" unfolding gdr_reads_def Let_def qwen_shape_simps id using nn n by simp
    from rows_done_cell [OF ab(2) i this row_less [OF q nn n]] show ?thesis unfolding id by simp
  qed
  have 3: "a ! c = ssm ! c" if c: "c < length ssm" and fr: "\<forall>b<batch. \<not> null_slot (?sl ! b) nslots \<longrightarrow>
      (\<forall>vh<?H. \<forall>lane<?D. c \<notin> row_cells ?D (?row b vh lane))" for c
  proof (rule rows_done_frame [OF ab(2) c])
    fix i assume "i \<in> {..<?N}"
    then have li: "?b i < batch" "?h i < ?H" "?d i < ?D" using head_split by simp_all
    show "c \<notin> ?reads i" using fr [rule_format, OF li(1) _ li(2,3)] by (simp add: gdr_reads_def Let_def del: atLeastLessThan_iff)
  qed
  show ?thesis
    by (rule exI [of _ a], rule exI [of _ b]) (use ab(1) 1 2 3 in \<open>simp add: Let_def del: atLeastLessThan_iff\<close>)
qed


section \<open>Normalization\<close>

lemma l2norm_rows:
  fixes qk :: "'t list" and M :: "('f::{plus,times,zero}, 'z) gmath_scheme"
  assumes sched: "schedule rows sched" and len: "length qk = rows * dk"
  shows "l2norm_typed M ld st dk eps sched qk = Some (map (\<lambda>a. st (ld (qk ! a) *
    rsqrt_fn M (fold (\<lambda>i ss. ss + ld (qk ! (a div dk * dk + i)) * ld (qk ! (a div dk * dk + i))) [0..<dk] 0 + eps))) [0..<rows * dk])"
proof -
  let ?ss = "\<lambda>r. fold (\<lambda>i ss. ss + ld (qk ! (r * dk + i)) * ld (qk ! (r * dk + i))) [0..<dk] 0"
  let ?u = "\<lambda>r a. st (ld (qk ! a) * rsqrt_fn M (?ss r + eps))"
  have "\<exists>m. foldM (l2norm_item M ld st dk eps) sched qk = Some m \<and> rows_done (row_cells dk) ?u qk {..<rows} m"
  proof (rule launch_rows [OF sched rows_own])
    fix r and m :: "'t list" assume r: "r < rows" and l: "length m = length qk" and same: "\<And>a. a \<in> row_cells dk r \<Longrightarrow> a < length qk \<Longrightarrow> m ! a = qk ! a"
    have c: "r * dk + i < length qk" "m ! (r * dk + i) = qk ! (r * dk + i)" if "i < dk" for i
      using div_mult_add_lt [OF r that] len that same [of "r * dk + i"] by simp_all
    have ss: "foldM (\<lambda>i ss. do { v \<leftarrow> rd m (r * dk + i); let f = ld v; Some (ss + f * f) }) [0..<dk] 0 = Some (?ss r)"
      by (rule foldM_pure') (simp add: c l Let_def)
    have "\<exists>m'. foldM (\<lambda>i qk. do { v \<leftarrow> rd qk (r * dk + i); wr qk (r * dk + i) (st (ld v * rsqrt_fn M (?ss r + eps))) }) [0..<dk] m = Some m' \<and>
        writes {r * dk..<r * dk + dk} (?u r) m m'"
    proof (rule foldM_upt [where P = "\<lambda>k m'. writes {r * dk..<r * dk + k} (?u r) m m'"])
      fix k m' assume k: "k < dk" and w: "writes {r * dk..<r * dk + k} (?u r) m m'"
      have "m' ! (r * dk + k) = qk ! (r * dk + k)" using w c(1,2) [OF k] l by (simp add: writes_def)
      moreover have "r * dk + k < length m'" using w c(1) [OF k] l by (simp add: writes_def)
      ultimately show "\<exists>s'. do { v \<leftarrow> rd m' (r * dk + k); wr m' (r * dk + k) (st (ld v * rsqrt_fn M (?ss r + eps))) } = Some s' \<and> writes {r * dk..<r * dk + Suc k} (?u r) m s'"
        using writes_Suc [OF w, of "?u r (r * dk + k)"] by simp
    qed simp_all
    then show "\<exists>m'. l2norm_item M ld st dk eps r m = Some m' \<and> writes (row_cells dk r) (?u r) m m'"
      unfolding l2norm_item_def ss [unfolded Let_def] Let_def Option.bind.bind_lunit .
  qed
  then obtain m where m: "foldM (l2norm_item M ld st dk eps) sched qk = Some m" "rows_done (row_cells dk) ?u qk {..<rows} m" by blast
  have "m = map (\<lambda>a. ?u (a div dk) a) [0..<rows * dk]"
  proof (rule nth_equalityI)
    fix a assume "a < length m"
    then have a: "a < rows * dk" using rows_done_length [OF m(2)] len by simp
    have "a div dk * dk + a mod dk = a" by simp
    then have "a div dk * dk \<le> a" "a < a div dk * dk + dk" using item_split(2) [OF a] by linarith+
    then have "a \<in> row_cells dk (a div dk)" by simp
    from rows_done_cell [OF m(2) item_split(1) [OF a] this] show "m ! a = map (\<lambda>a. ?u (a div dk) a) [0..<rows * dk] ! a" using a len by simp
  qed (simp add: rows_done_length [OF m(2)] len)
  then show ?thesis using m(1) by (simp add: l2norm_typed_def)
qed

section \<open>Properties\<close>

text \<open>C30: The gated delta rule kernel refines the recurrence: in any arithmetic and under every order of its work-items and of the staging, for every packed
  sequence, head and row, the outputs are those of \<open>gdr_step\<close> run over the tokens of the sequence, starting from the row of its slot (zero where the caller says so),
  and the final row is stored in the slot unless the sequence is empty; sequences with a null slot emit zeros; no other cell of the cache changes.\<close>

theorem gdn_refines:
  fixes ssm :: "'s list" and out :: "'t list"
  assumes "gdr_ok ntok X S" "packed qsl batch ntok" "i32_slots slots" "slots_distinct slots nslots" "length slots = batch"
    and "schedule (batch * v_heads S * v_dim S) sched" "\<And>t. schedule (v_dim S) (lanes t)" "\<And>h. has_init = Some h \<Longrightarrow> length h = batch"
    and "length ssm = nslots * v_heads S * v_dim S * k_dim S" "length out = ntok * v_heads S * v_dim S"
  shows "\<exists>ssm' out'. gated_delta_rule M lg ld st lds sts X S qsl slots has_init nslots lanes sched (ssm, out) = Some (ssm', out') \<and>
    (\<forall>q<batch. \<forall>hv<v_heads S. \<forall>d<v_dim S. let run = gdr_lane_run M lg ld lds X S qsl slots has_init nslots ssm q hv d in
      (\<forall>t. bos_of qsl q \<le> t \<and> t < bos_of qsl (q + 1) \<longrightarrow>
        out' ! tcell (v_heads S) (v_dim S) hv d t = (if null_slot (slots ! q) nslots then st 0 else st (fst run ! (t - bos_of qsl q)))) \<and>
      (\<not> null_slot (slots ! q) nslots \<longrightarrow> bos_of qsl q < bos_of qsl (q + 1) \<longrightarrow>
        (\<forall>n<k_dim S. ssm' ! (gdr_row S slots q hv d * k_dim S + n) = sts (snd run ! n)))) \<and>
    (\<forall>a<length ssm. (\<forall>q<batch. \<not> null_slot (slots ! q) nslots \<longrightarrow> bos_of qsl q < bos_of qsl (q + 1) \<longrightarrow>
      (\<forall>hv<v_heads S. \<forall>d<v_dim S. a \<notin> row_cells (k_dim S) (gdr_row S slots q hv d))) \<longrightarrow> ssm' ! a = ssm ! a)"
  by (rule gdr_runs [OF assms])

text \<open>C7: Over the reals the kernel is the gated delta rule: the state \<open>W\<close> of a head starts from the cache (or zero), each token takes it to
  \<open>g W (I - beta k k\<^sup>T) + beta v k\<^sup>T\<close>, emits \<open>W q\<close>, and the state after the last token is what the cache holds.\<close>

theorem gdn_delta_rule:
  fixes X :: "('t, real) gdn_in" and ssm :: "'s list" and out :: "'t list"
  assumes ok: "gdr_ok ntok X S" and qsl: "packed qsl batch ntok" and sl: "i32_slots slots" "slots_distinct slots nslots" "length slots = batch"
    and sched: "schedule (batch * v_heads S * v_dim S) sched" and lanes: "\<And>t. schedule (v_dim S) (lanes t)" and hi: "\<And>h. has_init = Some h \<Longrightarrow> length h = batch"
    and len: "length ssm = nslots * v_heads S * v_dim S * k_dim S" "length out = ntok * v_heads S * v_dim S"
  shows "\<exists>ssm' out'. gated_delta_rule exact_math lg ld st lds sts X S qsl slots has_init nslots lanes sched (ssm, out) = Some (ssm', out') \<and>
    (\<forall>q<batch. \<forall>hv<v_heads S. \<not> null_slot (slots ! q) nslots \<longrightarrow> (\<exists>W. \<forall>d<v_dim S.
      (\<forall>n<k_dim S. W 0 d n = (if starts_from_cache slots nslots has_init q then lds (ssm ! (gdr_row S slots q hv d * k_dim S + n)) else 0)) \<and>
      (\<forall>k< seq_len qsl q. let T = gdr_token exact_math lg ld X S hv d (bos_of qsl q + k) in
        (\<forall>n<k_dim S. W (Suc k) d n = tok_g T * (W k d n - tok_beta T * (\<Sum>m<k_dim S. W k d m * tok_k T m) * tok_k T n) + tok_beta T * tok_v T * tok_k T n) \<and>
        out' ! tcell (v_heads S) (v_dim S) hv d (bos_of qsl q + k) = st (\<Sum>n<k_dim S. W (Suc k) d n * tok_q T n)) \<and>
      (0 < seq_len qsl q \<longrightarrow> (\<forall>n<k_dim S. ssm' ! (gdr_row S slots q hv d * k_dim S + n) = sts (W (seq_len qsl q) d n)))))"
proof -
  let ?lr = "gdr_lane_run exact_math lg ld lds X S qsl slots has_init nslots ssm"
  have "\<exists>ssm' out'. gated_delta_rule exact_math lg ld st lds sts X S qsl slots has_init nslots lanes sched (ssm, out) = Some (ssm', out') \<and>
    (\<forall>q<batch. \<forall>hv<v_heads S. \<forall>d<v_dim S. let run = ?lr q hv d in
      (\<forall>t. bos_of qsl q \<le> t \<and> t < bos_of qsl (q + 1) \<longrightarrow>
        out' ! tcell (v_heads S) (v_dim S) hv d t = (if null_slot (slots ! q) nslots then st 0 else st (fst run ! (t - bos_of qsl q)))) \<and>
      (\<not> null_slot (slots ! q) nslots \<longrightarrow> bos_of qsl q < bos_of qsl (q + 1) \<longrightarrow>
        (\<forall>n<k_dim S. ssm' ! (gdr_row S slots q hv d * k_dim S + n) = sts (snd run ! n)))) \<and>
    (\<forall>a<length ssm. (\<forall>q<batch. \<not> null_slot (slots ! q) nslots \<longrightarrow> bos_of qsl q < bos_of qsl (q + 1) \<longrightarrow>
      (\<forall>hv<v_heads S. \<forall>d<v_dim S. a \<notin> row_cells (k_dim S) (gdr_row S slots q hv d))) \<longrightarrow> ssm' ! a = ssm ! a)"
    by (rule gdr_runs [OF ok qsl sl sched lanes hi len])
  then obtain ssm' out' where r: "gated_delta_rule exact_math lg ld st lds sts X S qsl slots has_init nslots lanes sched (ssm, out) = Some (ssm', out')"
    and all: "\<forall>q<batch. \<forall>hv<v_heads S. \<forall>d<v_dim S. let run = ?lr q hv d in
      (\<forall>t. bos_of qsl q \<le> t \<and> t < bos_of qsl (q + 1) \<longrightarrow>
        out' ! tcell (v_heads S) (v_dim S) hv d t = (if null_slot (slots ! q) nslots then st 0 else st (fst run ! (t - bos_of qsl q)))) \<and>
      (\<not> null_slot (slots ! q) nslots \<longrightarrow> bos_of qsl q < bos_of qsl (q + 1) \<longrightarrow>
        (\<forall>n<k_dim S. ssm' ! (gdr_row S slots q hv d * k_dim S + n) = sts (snd run ! n)))"
    by (elim exE conjE)
  have "\<exists>W. \<forall>d<v_dim S.
      (\<forall>n<k_dim S. W 0 d n = (if starts_from_cache slots nslots has_init q then lds (ssm ! (gdr_row S slots q hv d * k_dim S + n)) else 0)) \<and>
      (\<forall>k< seq_len qsl q. let T = gdr_token exact_math lg ld X S hv d (bos_of qsl q + k) in
        (\<forall>n<k_dim S. W (Suc k) d n = tok_g T * (W k d n - tok_beta T * (\<Sum>m<k_dim S. W k d m * tok_k T m) * tok_k T n) + tok_beta T * tok_v T * tok_k T n) \<and>
        out' ! tcell (v_heads S) (v_dim S) hv d (bos_of qsl q + k) = st (\<Sum>n<k_dim S. W (Suc k) d n * tok_q T n)) \<and>
      (0 < seq_len qsl q \<longrightarrow> (\<forall>n<k_dim S. ssm' ! (gdr_row S slots q hv d * k_dim S + n) = sts (W (seq_len qsl q) d n)))"
    if q: "q < batch" "hv < v_heads S" and nn: "\<not> null_slot (slots ! q) nslots" for q hv
  proof -
    let ?lo = "bos_of qsl q" and ?hi = "bos_of qsl (q + 1)"
    have slen: "seq_len qsl q = ?hi - ?lo" by (simp add: seq_len_def bos_of_def)
    let ?toks = "\<lambda>d. map (gdr_token exact_math lg ld X S hv d) [?lo..<?hi]"
    let ?w = "\<lambda>d. gdr_init lds ssm (k_dim S) (gdr_row S slots q hv d) (starts_from_cache slots nslots has_init q)"
    let ?W = "\<lambda>k d. snd (scan_run gdr_step (take k (?toks d)) (?w d))"
    have w: "length (?w d) = k_dim S" for d by (simp add: gdr_init_def)
    note G = gdr_run_rows [OF w]
    have lr: "?lr q hv d = scan_run gdr_step (?toks d) (?w d)" for d by (simp add: gdr_lane_run_def)
    have tl: "length (?toks d) = seq_len qsl q" for d by (simp add: slen)
    have tn: "?toks d ! k = gdr_token exact_math lg ld X S hv d (?lo + k)" if "k < seq_len qsl q" for d k using that slen by simp
    show ?thesis
    proof (rule exI [of _ "\<lambda>k d n. ?W k d ! n"], intro allI impI conjI)
      fix d n assume d: "d < v_dim S"
      show "?W 0 d ! n = (if starts_from_cache slots nslots has_init q then lds (ssm ! (gdr_row S slots q hv d * k_dim S + n)) else 0)" if "n < k_dim S"
        using that by (simp add: gdr_init_def)
      show "ssm' ! (gdr_row S slots q hv d * k_dim S + n) = sts (?W (seq_len qsl q) d ! n)" if "0 < seq_len qsl q" "n < k_dim S"
        using all [rule_format, OF q d, unfolded Let_def, THEN conjunct2, rule_format, OF nn _ that(2)] that slen by (simp add: lr)
    next
      fix d k assume d: "d < v_dim S" and k: "k < seq_len qsl q"
      let ?T = "gdr_token exact_math lg ld X S hv d (?lo + k)"
      have S: "?W (Suc k) d = snd (gdr_step ?T (?W k d))" "fst (scan_run gdr_step (?toks d) (?w d)) ! k = fst (gdr_step ?T (?W k d))"
        using G(2,3) [where toks = "?toks d" and k = k] k tn [OF k] unfolding tl by simp_all
      have l: "length (?W k d) = k_dim S" by (rule G(5))
      have o: "out' ! tcell (v_heads S) (v_dim S) hv d (?lo + k) = st (fst (gdr_step ?T (?W k d)))"
        using all [rule_format, OF q d, unfolded Let_def, THEN conjunct1, rule_format, of "?lo + k"] k slen nn S(2) by (simp add: lr)
      show "let T = ?T in
        (\<forall>n<k_dim S. ?W (Suc k) d ! n = tok_g T * (?W k d ! n - tok_beta T * (\<Sum>m<k_dim S. ?W k d ! m * tok_k T m) * tok_k T n) + tok_beta T * tok_v T * tok_k T n) \<and>
        out' ! tcell (v_heads S) (v_dim S) hv d (?lo + k) = st (\<Sum>n<k_dim S. ?W (Suc k) d ! n * tok_q T n)"
        unfolding Let_def o S(1) gdr_step_real(2) [OF l] using gdr_step_real(1) [OF l] by blast
    qed
  qed
  then show ?thesis using r by blast
qed


text \<open>Decode of Qwen is its two machines in sequence: in any arithmetic with a commutative multiplication, for both layouts of the windows and every order of the
  work-items, the activations are one step of the four-tap convolution, and the output and the new row of the state are one \<open>gdr_step\<close> on the normalized slices of these
  activations; \<open>z\<close> is copied, rows with a null slot emit zeros, and other cells of the two caches do not change.\<close>

theorem qwen_gdn_refines:
  fixes cs mixed z out :: "'t list" and ssm :: "'s list" and M :: "('f::{plus,times,minus,uminus,inverse,zero,one,ord}, 'z) gmath_scheme"
  assumes ok: "qwen_ok batch X nslots" and comm: "\<And>x y :: 'f. x * y = y * x"
    and sched: "schedule N csched" "batch * kConvDim \<le> N" "schedule (batch * kValueHeads * kHeadDim) rsched"
    and len: "length cs = nslots * 3 * kConvDim" "length ssm = nslots * kValueHeads * kHeadDim * kHeadDim" "length mixed = batch * kConvDim"
      "length out = batch * kValueHeads * kHeadDim" "length z = batch * kValueDim"
  shows "\<exists>cs' ssm' mixed' out' z'.
    qwen_gdn_decode M lg eps qscale ld st ldb lds sts X df nslots batch csched rsched cs ssm mixed out z = Some (cs', ssm', mixed', out', z') \<and>
    (\<forall>b<batch. \<forall>c<kConvDim.
      mixed' ! (b * kConvDim + c) = (if null_slot (qstate_indices X ! b) nslots then st 0 else st (fst (qwen_conv M ld st X df cs b c))) \<and>
      (\<not> null_slot (qstate_indices X ! b) nslots \<longrightarrow> (\<forall>k<3. cs' ! qcell df (nat (qstate_indices X ! b)) c k =
        (if k < 2 then st (qwen_window ld df cs (qstate_indices X ! b) c ! (k + 1)) else projected_qkvz X ! (b * kQkvzDim + c))))) \<and>
    (\<forall>b<batch. \<forall>vh<kValueHeads. \<forall>lane<kHeadDim. let r = qwen_step M lg eps qscale ld ldb lds X mixed' ssm b vh lane in
      out' ! tcell kValueHeads kHeadDim vh lane b = (if null_slot (qstate_indices X ! b) nslots then st 0 else st (fst r)) \<and>
      (\<not> null_slot (qstate_indices X ! b) nslots \<longrightarrow> (\<forall>n<kHeadDim. ssm' ! (gdr_row qwen_shape (qstate_indices X) b vh lane * kHeadDim + n) = sts (snd r ! n)))) \<and>
    (\<forall>b<batch. \<forall>c<kValueDim. z' ! (b * kValueDim + c) = projected_qkvz X ! (b * kQkvzDim + kConvDim + c)) \<and>
    (\<forall>a<length cs. (\<forall>b<batch. \<not> null_slot (qstate_indices X ! b) nslots \<longrightarrow> (\<forall>c<kConvDim. \<forall>k<3. a \<noteq> qcell df (nat (qstate_indices X ! b)) c k)) \<longrightarrow> cs' ! a = cs ! a) \<and>
    (\<forall>a<length ssm. (\<forall>b<batch. \<not> null_slot (qstate_indices X ! b) nslots \<longrightarrow>
      (\<forall>vh<kValueHeads. \<forall>lane<kHeadDim. a \<notin> row_cells kHeadDim (gdr_row qwen_shape (qstate_indices X) b vh lane))) \<longrightarrow> ssm' ! a = ssm ! a)"
proof -
  from qwen_convs [OF ok len(1,3,5) sched(1,2), of M ld st df] obtain cs' mixed' z' where
    c: "foldM (qwen_conv_item M ld st X df nslots batch) csched (cs, mixed, z) = Some (cs', mixed', z')" "length mixed' = batch * kConvDim" and c': "(\<forall>b<batch. \<forall>c<kConvDim.
      mixed' ! (b * kConvDim + c) = (if null_slot (qstate_indices X ! b) nslots then st 0 else st (fst (qwen_conv M ld st X df cs b c))) \<and>
      (\<not> null_slot (qstate_indices X ! b) nslots \<longrightarrow> (\<forall>k<3. cs' ! qcell df (nat (qstate_indices X ! b)) c k =
        (if k < 2 then st (qwen_window ld df cs (qstate_indices X ! b) c ! (k + 1)) else projected_qkvz X ! (b * kQkvzDim + c)))))"
      "(\<forall>b<batch. \<forall>c<kValueDim. z' ! (b * kValueDim + c) = projected_qkvz X ! (b * kQkvzDim + kConvDim + c))"
      "(\<forall>a<length cs. (\<forall>b<batch. \<not> null_slot (qstate_indices X ! b) nslots \<longrightarrow> (\<forall>c<kConvDim. \<forall>k<3. a \<noteq> qcell df (nat (qstate_indices X ! b)) c k)) \<longrightarrow> cs' ! a = cs ! a)"
    by (elim exE conjE)
  from qwen_recs [OF ok comm sched(3) c(2) len(2,4), of M lg eps qscale ld st ldb lds sts] obtain ssm' out' where
    r: "foldM (qwen_rec_item M lg eps qscale ld st ldb lds sts X mixed' nslots) rsched (ssm, out) = Some (ssm', out')" and r': "(\<forall>b<batch. \<forall>vh<kValueHeads. \<forall>lane<kHeadDim. let r = qwen_step M lg eps qscale ld ldb lds X mixed' ssm b vh lane in
      out' ! tcell kValueHeads kHeadDim vh lane b = (if null_slot (qstate_indices X ! b) nslots then st 0 else st (fst r)) \<and>
      (\<not> null_slot (qstate_indices X ! b) nslots \<longrightarrow> (\<forall>n<kHeadDim. ssm' ! (gdr_row qwen_shape (qstate_indices X) b vh lane * kHeadDim + n) = sts (snd r ! n))))"
    "(\<forall>a<length ssm. (\<forall>b<batch. \<not> null_slot (qstate_indices X ! b) nslots \<longrightarrow>
      (\<forall>vh<kValueHeads. \<forall>lane<kHeadDim. a \<notin> row_cells kHeadDim (gdr_row qwen_shape (qstate_indices X) b vh lane))) \<longrightarrow> ssm' ! a = ssm ! a)"
    by (elim exE conjE)
  have "qwen_gdn_decode M lg eps qscale ld st ldb lds sts X df nslots batch csched rsched cs ssm mixed out z = Some (cs', ssm', mixed', out', z')"
    by (simp add: qwen_gdn_decode_def c(1) r)
  then show ?thesis using c' r' by (intro exI conjI)
qed

text \<open>One head of one dimension: the cached 4 decays to 2, the value 3 pulls it half the way.\<close>

definition x_gdn :: "(real, real) gdn_in" where
  "x_gdn = \<lparr>gdn_Q = [1], gdn_K = [1], gdn_V = [3], gdn_b = [0], gdn_a = [0], gdn_A_log = [0], gdn_bias = None\<rparr>"

definition s_gdn :: gdn_shape where
  "s_gdn = \<lparr>k_heads = 1, k_dim = 1, v_heads = 1, v_dim = 1\<rparr>"

lemma gdn_setting:
  "gdr_ok 1 x_gdn s_gdn" "packed [0, 1] 1 1" "i32_slots [0]" "slots_distinct [0] 1" "length [0 :: int] = 1" "schedule (1 * v_heads s_gdn * v_dim s_gdn) [0]" "schedule (v_dim s_gdn) [0]"
  "length [4 :: real] = 1 * v_heads s_gdn * v_dim s_gdn * k_dim s_gdn" "length [9 :: real] = 1 * v_heads s_gdn * v_dim s_gdn"
  by (auto simp: gdr_ok_def x_gdn_def s_gdn_def kMaxDk_def packed_def i32_slots_def slots_distinct_def schedule_def)

lemma gdn_setting':
  "\<not> null_slot ([0] ! 0) 1" "gdr_row s_gdn [0] 0 0 0 = 0" "bos_of [0, 1] 0 = 0" "bos_of [0, 1] 1 = 1" "seq_len [0, 1] 0 = 1" "starts_from_cache [0] 1 None 0"
  "0 < v_heads s_gdn" "0 < v_dim s_gdn" "k_dim s_gdn = 1" "tcell (v_heads s_gdn) (v_dim s_gdn) 0 0 t = t"
  by (simp_all add: null_slot_def usize_def gdr_row_def tcell_def s_gdn_def bos_of_def seq_len_def starts_from_cache_def)

lemma x_gdn_token: "gdr_token exact_math ln id x_gdn s_gdn 0 0 0 = (1 / 2, 1 / 2, 3, \<lambda>i. [1] ! i, \<lambda>i. [1] ! i)"
  by (simp add: gdr_token_def Let_def x_gdn_def s_gdn_def bias_at_def softplus_def gdr_sigmoid_def tcell_def exp_minus)

lemma gdn_refines_witness:
  "\<exists>ssm' out'. gated_delta_rule exact_math ln id id id id x_gdn s_gdn [0, 1] [0] None 1 (\<lambda>_. [0]) [0] ([4], [9]) = Some (ssm', out') \<and> ssm' ! 0 = 5 / 2"
proof -
  from gdn_refines [where lanes = "\<lambda>_. [0]" and has_init = None, OF gdn_setting(1-6) gdn_setting(7) _ gdn_setting(8,9), of exact_math ln id id id id]
  obtain s' o' where r: "gated_delta_rule exact_math ln id id id id x_gdn s_gdn [0, 1] [0] None 1 (\<lambda>_. [0]) [0] ([4], [9]) = Some (s', o')"
    and all: "\<forall>q<1. \<forall>hv<v_heads s_gdn. \<forall>d<v_dim s_gdn. let run = gdr_lane_run exact_math ln id id x_gdn s_gdn [0, 1] [0] None 1 [4] q hv d in
      (\<forall>t. bos_of [0, 1] q \<le> t \<and> t < bos_of [0, 1] (q + 1) \<longrightarrow>
        o' ! tcell (v_heads s_gdn) (v_dim s_gdn) hv d t = (if null_slot ([0] ! q) 1 then id 0 else id (fst run ! (t - bos_of [0, 1] q)))) \<and>
      (\<not> null_slot ([0] ! q) 1 \<longrightarrow> bos_of [0, 1] q < bos_of [0, 1] (q + 1) \<longrightarrow>
        (\<forall>n<k_dim s_gdn. s' ! (gdr_row s_gdn [0] q hv d * k_dim s_gdn + n) = id (snd run ! n)))"
    by auto
  have "s' ! 0 = snd (gdr_lane_run exact_math ln id id x_gdn s_gdn [0, 1] [0] None 1 [4] 0 0 0) ! 0"
    using all [rule_format, OF _ gdn_setting'(7,8), of 0, unfolded Let_def, THEN conjunct2, rule_format, of 0] gdn_setting' by simp
  also have "\<dots> = 5 / 2"
    using gdn_setting' by (simp add: gdr_lane_run_def x_gdn_token gdr_init_def gdr_step_def lin_step_def)
  finally show ?thesis using r by blast
qed

lemma gdn_delta_rule_witness:
  "\<exists>ssm' out'. gated_delta_rule exact_math ln id id id id x_gdn s_gdn [0, 1] [0] None 1 (\<lambda>_. [0]) [0] ([4], [9]) = Some (ssm', out') \<and> out' ! 0 = 5 / 2"
proof -
  from gdn_delta_rule [where lanes = "\<lambda>_. [0]" and has_init = None, OF gdn_setting(1-6) gdn_setting(7) _ gdn_setting(8,9), of ln id id id id]
  obtain s' o' where r: "gated_delta_rule exact_math ln id id id id x_gdn s_gdn [0, 1] [0] None 1 (\<lambda>_. [0]) [0] ([4], [9]) = Some (s', o')"
    and all: "\<forall>q<1. \<forall>hv<v_heads s_gdn. \<not> null_slot ([0] ! q) 1 \<longrightarrow> (\<exists>W. \<forall>d<v_dim s_gdn.
      (\<forall>n<k_dim s_gdn. W 0 d n = (if starts_from_cache [0] 1 None q then id ([4] ! (gdr_row s_gdn [0] q hv d * k_dim s_gdn + n)) else 0)) \<and>
      (\<forall>k< seq_len [0, 1] q. let T = gdr_token exact_math ln id x_gdn s_gdn hv d (bos_of [0, 1] q + k) in
        (\<forall>n<k_dim s_gdn. W (Suc k) d n = tok_g T * (W k d n - tok_beta T * (\<Sum>m<k_dim s_gdn. W k d m * tok_k T m) * tok_k T n) + tok_beta T * tok_v T * tok_k T n) \<and>
        o' ! tcell (v_heads s_gdn) (v_dim s_gdn) hv d (bos_of [0, 1] q + k) = id (\<Sum>n<k_dim s_gdn. W (Suc k) d n * tok_q T n)) \<and>
      (0 < seq_len [0, 1] q \<longrightarrow> (\<forall>n<k_dim s_gdn. s' ! (gdr_row s_gdn [0] q hv d * k_dim s_gdn + n) = id (W (seq_len [0, 1] q) d n))))"
    by auto
  from all [rule_format, OF zero_less_one gdn_setting'(7,1)] obtain W where
    W: "\<forall>d<v_dim s_gdn. (\<forall>n<k_dim s_gdn. W 0 d n = (if starts_from_cache [0] 1 None 0 then id ([4] ! (gdr_row s_gdn [0] 0 0 d * k_dim s_gdn + n)) else 0)) \<and>
      (\<forall>k< seq_len [0, 1] 0. let T = gdr_token exact_math ln id x_gdn s_gdn 0 d (bos_of [0, 1] 0 + k) in
        (\<forall>n<k_dim s_gdn. W (Suc k) d n = tok_g T * (W k d n - tok_beta T * (\<Sum>m<k_dim s_gdn. W k d m * tok_k T m) * tok_k T n) + tok_beta T * tok_v T * tok_k T n) \<and>
        o' ! tcell (v_heads s_gdn) (v_dim s_gdn) 0 d (bos_of [0, 1] 0 + k) = id (\<Sum>n<k_dim s_gdn. W (Suc k) d n * tok_q T n)) \<and>
      (0 < seq_len [0, 1] 0 \<longrightarrow> (\<forall>n<k_dim s_gdn. s' ! (gdr_row s_gdn [0] 0 0 d * k_dim s_gdn + n) = id (W (seq_len [0, 1] 0) d n)))"
    by (elim exE)
  note W0 = W [rule_format, OF gdn_setting'(8)]
  have "W 0 0 0 = 4" using W0 [THEN conjunct1, rule_format, of 0] gdn_setting' by simp
  moreover have "W 1 0 0 = tok_g (gdr_token exact_math ln id x_gdn s_gdn 0 0 0) * (W 0 0 0 - tok_beta (gdr_token exact_math ln id x_gdn s_gdn 0 0 0) *
      (W 0 0 0 * tok_k (gdr_token exact_math ln id x_gdn s_gdn 0 0 0) 0) * tok_k (gdr_token exact_math ln id x_gdn s_gdn 0 0 0) 0) +
      tok_beta (gdr_token exact_math ln id x_gdn s_gdn 0 0 0) * tok_v (gdr_token exact_math ln id x_gdn s_gdn 0 0 0) * tok_k (gdr_token exact_math ln id x_gdn s_gdn 0 0 0) 0"
      "o' ! 0 = W 1 0 0 * tok_q (gdr_token exact_math ln id x_gdn s_gdn 0 0 0) 0"
    using W0 [THEN conjunct2, THEN conjunct1, rule_format, of 0, unfolded Let_def gdn_setting'] by simp_all
  ultimately have "o' ! 0 = 5 / 2" by (simp add: x_gdn_token)
  then show ?thesis using r by blast
qed


text \<open>One row, all ones: the convolution of a channel is \<open>silu 4\<close>.\<close>

definition x_qwen :: "(real, real, real) qwen_in" where
  "x_qwen = \<lparr>projected_qkvz = replicate kQkvzDim 1, projected_ba = replicate kBaDim 0, conv_weight = replicate (kConvDim * 4) 1, qconv_bias = None,
     qA_log = replicate kValueHeads 0, dt_bias = replicate kValueHeads 0, qstate_indices = [0]\<rparr>"

end
