(* ===== verification/Gguf.thy ===== *)
theory Gguf
  imports GgufTables Elem
begin

text \<open>
  Matrix-vector products over GGUF quantized weights (\<open>gguf_gemv.sycl.cpp\<close>): sixteen block formats.

  A row of the weight matrix is a sequence of byte blocks; a 32-lane subgroup owns a row, lane \<open>l\<close>
  decodes the blocks \<open>l, l + 32, ...\<close>, accumulates weight times activation in the order of its loops,
  and the lanes are added by \<open>reduce_over_group\<close>, a parameter \<open>red\<close>.  For each format the loops over
  one block are a list of \<open>(offset, weight)\<close> terms in program order.  The arithmetic is given by a
  record of operations, so the same definitions run on \<open>f32\<close> bit for bit and on exact numbers.
\<close>

section \<open>Arithmetic and bytes\<close>

record 'f flt =
  of_i :: "int \<Rightarrow> 'f"
  of_half :: "16 word \<Rightarrow> 'f"
  c0_5 :: 'f
  c0_25 :: 'f
  c0_125 :: 'f

definition f32_flt :: "f32 flt" where
  "f32_flt = \<lparr>of_i = f32_of_int, of_half = f16_bits_to_f32, c0_5 = F32 0x3f000000, c0_25 = F32 0x3e800000,
     c0_125 = F32 0x3e000000\<rparr>"

definition le16 :: "8 word \<Rightarrow> 8 word \<Rightarrow> 16 word" where
  "le16 p0 p1 = ucast p0 OR push_bit 8 (ucast p1)"

definition load_half :: "'f flt \<Rightarrow> 8 word list \<Rightarrow> nat \<Rightarrow> 'f" where
  "load_half F p i = of_half F (le16 (p ! i) (p ! (i + 1)))"

definition rd_u32 :: "8 word list \<Rightarrow> nat \<Rightarrow> 32 word" where
  "rd_u32 p i = ucast (p ! i) OR push_bit 8 (ucast (p ! (i + 1))) OR push_bit 16 (ucast (p ! (i + 2)))
     OR push_bit 24 (ucast (p ! (i + 3)))"

text \<open>\<open>static_cast<int8_t>((g >> (8 * j)) & 0xFF)\<close>\<close>

definition s8_at :: "'a::len word \<Rightarrow> nat \<Rightarrow> int" where
  "s8_at g j = sint (ucast (drop_bit (8 * j) g AND 0xFF) :: 8 word)"

section \<open>The product over blocks\<close>

definition kSG :: nat where "kSG = 32"
definition kRowsPerWG :: nat where "kRowsPerWG = 8"

type_synonym 'f terms = "(nat \<times> 'f) list"

definition block_at :: "'b list \<Rightarrow> nat \<Rightarrow> nat \<Rightarrow> 'b list option" where
  "block_at w off bytes = (if off + bytes \<le> length w then Some (take bytes (drop off w)) else None)"

definition lane_acc :: "nat \<Rightarrow> nat \<Rightarrow> ('b list \<Rightarrow> 'f terms) \<Rightarrow> ('t \<Rightarrow> 'f) \<Rightarrow> 'b list \<Rightarrow> 't list \<Rightarrow> nat \<Rightarrow> nat \<Rightarrow> nat \<Rightarrow>
    'f::{plus,times,zero} option" where
  "lane_acc bytes qk decode ld w x row_off blocks lane = foldM (\<lambda>b acc. do {
     blk \<leftarrow> block_at w (row_off + b * bytes) bytes;
     foldM (\<lambda>(off, wt) acc. do {
       xv \<leftarrow> rd x (b * qk + off);
       Some (acc + wt * ld xv) }) (decode blk) acc }) (strided lane kSG blocks) 0"

definition gemv_item :: "nat \<Rightarrow> nat \<Rightarrow> ('b list \<Rightarrow> 'f::{plus,times,zero} terms) \<Rightarrow> ('t \<Rightarrow> 'f) \<Rightarrow> ('f \<Rightarrow> 't) \<Rightarrow> ('f list \<Rightarrow> 'f) \<Rightarrow> 'b list \<Rightarrow> 't list \<Rightarrow>
    nat \<Rightarrow> nat \<Rightarrow> nat \<Rightarrow> 't list \<Rightarrow> 't list option" where
  "gemv_item bytes qk decode ld st red w x N K n y =
     (if n \<ge> N then Some y
      else do {
        accs \<leftarrow> those (map (lane_acc bytes qk decode ld w x (n * (K div qk * bytes)) (K div qk)) [0..<kSG]);
        wr y n (st (red accs)) })"

text \<open>Work-group \<open>g\<close>, subgroup \<open>s\<close> owns row \<open>8 * g + s\<close>; the schedule runs over all subgroups of the launch.\<close>

definition gemv_launch :: "nat \<Rightarrow> nat" where
  "gemv_launch N = cdiv N kRowsPerWG * kRowsPerWG"

definition gguf_gemv :: "nat \<Rightarrow> nat \<Rightarrow> ('b list \<Rightarrow> 'f::{plus,times,zero} terms) \<Rightarrow> ('t \<Rightarrow> 'f) \<Rightarrow> ('f \<Rightarrow> 't) \<Rightarrow> ('f list \<Rightarrow> 'f) \<Rightarrow> 'b list \<Rightarrow> 't list \<Rightarrow>
    nat \<Rightarrow> nat \<Rightarrow> nat list \<Rightarrow> 't list \<Rightarrow> 't list option" where
  "gguf_gemv bytes qk decode ld st red w x N K sched y =
     foldM (gemv_item bytes qk decode ld st red w x N K) sched y"

section \<open>The block formats\<close>

definition q8_0 :: "'f::times flt \<Rightarrow> 8 word list \<Rightarrow> 'f terms" where
  "q8_0 F blk = (let d = load_half F blk 0; qs = drop 2 blk in
     map (\<lambda>i. (i, of_i F (sint (qs ! i)) * d)) [0..<32])"

definition q4_0 :: "'f::times flt \<Rightarrow> 8 word list \<Rightarrow> 'f terms" where
  "q4_0 F blk = (let d = load_half F blk 0; qs = drop 2 blk in
     concat (map (\<lambda>i.
       let lo = uint (qs ! i AND 0xF) - 8; hi = uint (drop_bit 4 (qs ! i)) - 8
       in [(i, of_i F lo * d), (16 + i, of_i F hi * d)]) [0..<16]))"

definition q6_k :: "'f::times flt \<Rightarrow> 8 word list \<Rightarrow> 'f terms" where
  "q6_k F blk = (let ql = blk; qh = drop 128 blk; sc = drop 192 blk; d = load_half F blk 208 in
     concat (map (\<lambda>half.
       let qlh = drop (half * 64) ql; qhh = drop (half * 32) qh; sch = drop (half * 8) sc; yoff = half * 128
       in concat (map (\<lambda>l.
         let is = l div 16;
             q1 = uint ((qlh ! l AND 0xF) OR push_bit 4 (drop_bit 0 (qhh ! l) AND 3)) - 32;
             q2 = uint ((qlh ! (l + 32) AND 0xF) OR push_bit 4 (drop_bit 2 (qhh ! l) AND 3)) - 32;
             q3 = uint (drop_bit 4 (qlh ! l) OR push_bit 4 (drop_bit 4 (qhh ! l) AND 3)) - 32;
             q4 = uint (drop_bit 4 (qlh ! (l + 32)) OR push_bit 4 (drop_bit 6 (qhh ! l) AND 3)) - 32
         in [(yoff + l + 0, d * of_i F (sint (sch ! (is + 0))) * of_i F q1),
             (yoff + l + 32, d * of_i F (sint (sch ! (is + 2))) * of_i F q2),
             (yoff + l + 64, d * of_i F (sint (sch ! (is + 4))) * of_i F q3),
             (yoff + l + 96, d * of_i F (sint (sch ! (is + 6))) * of_i F q4)]) [0..<32])) [0..<2]))"

text \<open>The packed 6-bit scales and minima of \<open>q4_K\<close> and \<open>q5_K\<close>.\<close>

definition scale_min_k4 :: "nat \<Rightarrow> 8 word list \<Rightarrow> int \<times> int" where
  "scale_min_k4 j s =
     (if j < 4 then (uint (s ! j AND 63), uint (s ! (j + 4) AND 63))
      else (uint ((s ! (j + 4) AND 0xF) OR push_bit 4 (drop_bit 6 (s ! (j - 4)))),
            uint (drop_bit 4 (s ! (j + 4)) OR push_bit 4 (drop_bit 6 (s ! j)))))"

definition q4_k :: "'f::{times,minus} flt \<Rightarrow> 8 word list \<Rightarrow> 'f terms" where
  "q4_k F blk = (let d = load_half F blk 0; dmin = load_half F blk 2; sc = drop 4 blk; qs = drop 16 blk in
     concat (map (\<lambda>iter.
       let (s1, m1i) = scale_min_k4 (iter * 2 + 0) sc;
           (s2, m2i) = scale_min_k4 (iter * 2 + 1) sc;
           d1 = d * of_i F s1; mm1 = dmin * of_i F m1i;
           d2 = d * of_i F s2; mm2 = dmin * of_i F m2i;
           qq = drop (iter * 32) qs; yb = iter * 64
       in concat (map (\<lambda>l. [(yb + l, d1 * of_i F (uint (qq ! l AND 0xF)) - mm1),
            (yb + 32 + l, d2 * of_i F (uint (drop_bit 4 (qq ! l))) - mm2)]) [0..<32])) [0..<4]))"

definition q5_k :: "'f::{times,minus} flt \<Rightarrow> 8 word list \<Rightarrow> 'f terms" where
  "q5_k F blk = (let d = load_half F blk 0; dmin = load_half F blk 2; sc = drop 4 blk; qh = drop 16 blk; qs = drop 48 blk in
     concat (map (\<lambda>iter.
       let (s1, m1i) = scale_min_k4 (iter * 2 + 0) sc;
           (s2, m2i) = scale_min_k4 (iter * 2 + 1) sc;
           d1 = d * of_i F s1; mm1 = dmin * of_i F m1i;
           d2 = d * of_i F s2; mm2 = dmin * of_i F m2i;
           ql = drop (iter * 32) qs;
           u1 = push_bit (2 * iter) 1; u2 = push_bit (2 * iter) 2; yb = iter * 64
       in concat (map (\<lambda>l.
            let q1 = of_i F (uint (ql ! l AND 0xF) + (if qh ! l AND u1 \<noteq> 0 then 16 else 0));
                q2 = of_i F (uint (drop_bit 4 (ql ! l)) + (if qh ! l AND u2 \<noteq> 0 then 16 else 0))
            in [(yb + l, d1 * q1 - mm1), (yb + 32 + l, d2 * q2 - mm2)]) [0..<32])) [0..<4]))"

definition q2_k :: "'f::{times,minus} flt \<Rightarrow> 8 word list \<Rightarrow> 'f terms" where
  "q2_k F blk = (let scales = blk; qs = drop 16 blk; d = load_half F blk 80; dmin = load_half F blk 82 in
     concat (map (\<lambda>h. let qb = drop (h * 32) qs in
       concat (map (\<lambda>j.
         let shift = 2 * j; sc1 = scales ! (h * 8 + j * 2); sc2 = scales ! (h * 8 + j * 2 + 1);
             dl1 = d * of_i F (uint (sc1 AND 0xF)); ml1 = dmin * of_i F (uint (drop_bit 4 sc1));
             dl2 = d * of_i F (uint (sc2 AND 0xF)); ml2 = dmin * of_i F (uint (drop_bit 4 sc2));
             yb = h * 128 + j * 32
         in concat (map (\<lambda>l. [(yb + l, dl1 * of_i F (uint (drop_bit shift (qb ! l) AND 3)) - ml1),
              (yb + 16 + l, dl2 * of_i F (uint (drop_bit shift (qb ! (l + 16)) AND 3)) - ml2)]) [0..<16])) [0..<4])) [0..<2]))"

text \<open>The scale shuffle of \<open>q3_K\<close>: the four words \<open>aux\<close> and the signed byte \<open>scl i\<close>.\<close>

definition q3_aux :: "8 word list \<Rightarrow> nat \<Rightarrow> 32 word" where
  "q3_aux sc j = (let a0 = rd_u32 sc 0; a1 = rd_u32 sc 4; tmp = rd_u32 sc 8;
       kmask1 = 0x03030303; kmask2 = 0x0f0f0f0f
     in if j = 2 then (drop_bit 4 a0 AND kmask2) OR push_bit 4 (drop_bit 4 tmp AND kmask1)
        else if j = 3 then (drop_bit 4 a1 AND kmask2) OR push_bit 4 (drop_bit 6 tmp AND kmask1)
        else if j = 0 then (a0 AND kmask2) OR push_bit 4 (drop_bit 0 tmp AND kmask1)
        else (a1 AND kmask2) OR push_bit 4 (drop_bit 2 tmp AND kmask1))"

definition q3_scl :: "8 word list \<Rightarrow> nat \<Rightarrow> int" where
  "q3_scl sc i = s8_at (q3_aux sc (i div 4)) (i mod 4)"

definition q3_k :: "'f::times flt \<Rightarrow> 8 word list \<Rightarrow> 'f terms" where
  "q3_k F blk = (let hm = blk; qs = drop 32 blk; sc = drop 96 blk; d = load_half F blk 108 in
     concat (map (\<lambda>h. let qb = drop (h * 32) qs in
       concat (map (\<lambda>j.
         let shift = 2 * j; is = h * 8 + j * 2; mbit = push_bit (h * 4 + j) 1 :: 8 word;
             dl1 = d * of_i F (q3_scl sc is - 32); dl2 = d * of_i F (q3_scl sc (is + 1) - 32); yb = h * 128 + j * 32
         in concat (map (\<lambda>l.
              let v1 = uint (drop_bit shift (qb ! l) AND 3) - (if hm ! l AND mbit \<noteq> 0 then 0 else 4);
                  v2 = uint (drop_bit shift (qb ! (l + 16)) AND 3) - (if hm ! (l + 16) AND mbit \<noteq> 0 then 0 else 4)
              in [(yb + l, dl1 * of_i F v1), (yb + 16 + l, dl2 * of_i F v2)]) [0..<16])) [0..<4])) [0..<2]))"

definition kIQ4NL :: "int list" where
  "kIQ4NL = [-127, -104, -83, -65, -49, -35, -22, -10, 1, 13, 25, 38, 53, 69, 89, 113]"

definition iq4_nl :: "'f::times flt \<Rightarrow> 8 word list \<Rightarrow> 'f terms" where
  "iq4_nl F blk = (let d = load_half F blk 0; qs = drop 2 blk in
     concat (map (\<lambda>j. [(j, d * of_i F (kIQ4NL ! unat (qs ! j AND 0xF))),
       (16 + j, d * of_i F (kIQ4NL ! unat (drop_bit 4 (qs ! j))))]) [0..<16]))"

definition q4_1 :: "'f::{times,plus} flt \<Rightarrow> 8 word list \<Rightarrow> 'f terms" where
  "q4_1 F blk = (let d = load_half F blk 0; m = load_half F blk 2; qs = drop 4 blk in
     concat (map (\<lambda>j. [(j, of_i F (uint (qs ! j AND 0xF)) * d + m),
       (16 + j, of_i F (uint (drop_bit 4 (qs ! j))) * d + m)]) [0..<16]))"

text \<open>\<open>q5_0\<close> and \<open>q5_1\<close>: the fifth bits of all 32 elements are in the word \<open>qh\<close>.\<close>

definition q5_legacy :: "bool \<Rightarrow> 'f::{times,plus,zero} flt \<Rightarrow> 8 word list \<Rightarrow> 'f terms" where
  "q5_legacy affine F blk = (let d = load_half F blk 0; m = (if affine then load_half F blk 2 else 0);
       qh = rd_u32 blk (if affine then 4 else 2); qs = drop (if affine then 8 else 6) blk
     in concat (map (\<lambda>j.
       let xh0 = push_bit 4 (drop_bit (j + 0) qh) AND 0x10; xh1 = drop_bit (j + 12) qh AND 0x10;
           x0 = uint (ucast (qs ! j AND 0xF) OR xh0); x1 = uint (ucast (drop_bit 4 (qs ! j)) OR xh1);
           x0 = (if \<not> affine then x0 - 16 else x0); x1 = (if \<not> affine then x1 - 16 else x1)
       in [(j, of_i F x0 * d + m), (16 + j, of_i F x1 * d + m)]) [0..<16]))"

definition iq4_xs :: "'f::times flt \<Rightarrow> 8 word list \<Rightarrow> 'f terms" where
  "iq4_xs F blk = (let d = load_half F blk 0; scales_h = ucast (le16 (blk ! 2) (blk ! 3)) :: 32 word;
       scales_l = drop 4 blk; qs = drop 8 blk
     in concat (map (\<lambda>ib.
       let ls = uint (ucast (drop_bit (4 * (ib mod 2)) (scales_l ! (ib div 2)) AND 0xF) OR push_bit 4 (drop_bit (2 * ib) scales_h AND 3));
           dl = d * of_i F (ls - 32); qq = drop (ib * 16) qs; yb = ib * 32
       in concat (map (\<lambda>j. [(yb + j, dl * of_i F (kIQ4NL ! unat (qq ! j AND 0xF))),
            (yb + 16 + j, dl * of_i F (kIQ4NL ! unat (drop_bit 4 (qq ! j))))]) [0..<16])) [0..<8]))"

definition iq1_s :: "'f::{times,plus,uminus} flt \<Rightarrow> 8 word list \<Rightarrow> 'f terms" where
  "iq1_s F blk = (let d = load_half F blk 0; qs = drop 2 blk; qhb = drop 34 blk in
     concat (map (\<lambda>ib.
       let qh = le16 (qhb ! (2 * ib)) (qhb ! (2 * ib + 1));
           dl = d * of_i F (2 * uint (drop_bit 12 qh AND 7) + 1);
           delta = (if qh AND 0x8000 \<noteq> 0 then - c0_125 F else c0_125 F)
       in concat (map (\<lambda>l.
         let gi = ucast (qs ! (4 * ib + l)) OR push_bit 8 (ucast (drop_bit (3 * l) qh AND 7)) :: 32 word;
             g = iq1s_grid ! unat gi; yb = ib * 32 + l * 8
         in map (\<lambda>j. (yb + j, dl * (of_i F (s8_at g j) + delta))) [0..<8]) [0..<4])) [0..<8]))"

definition sign_of :: "8 word \<Rightarrow> nat \<Rightarrow> 'f::{one,uminus}" where
  "sign_of signs j = (if signs AND kmask_iq2xs ! j \<noteq> 0 then - 1 else 1)"

definition iq2_xxs :: "'f::{times,plus,uminus,one} flt \<Rightarrow> 8 word list \<Rightarrow> 'f terms" where
  "iq2_xxs F blk = (let d = load_half F blk 0; qs = drop 2 blk in
     concat (map (\<lambda>ib.
       let aux = drop (8 * ib) qs; a1 = rd_u32 aux 4;
           db = d * (c0_5 F + of_i F (uint (drop_bit 28 a1))) * c0_25 F
       in concat (map (\<lambda>l.
         let g = iq2xxs_grid ! unat (aux ! l); signs = ksigns_iq2xs ! unat (drop_bit (7 * l) a1 AND 127); yb = ib * 32 + l * 8
         in map (\<lambda>j. (yb + j, db * of_i F (s8_at g j) * sign_of signs j)) [0..<8]) [0..<4])) [0..<8]))"

definition iq2_xs :: "'f::{times,plus,uminus,one} flt \<Rightarrow> 8 word list \<Rightarrow> 'f terms" where
  "iq2_xs F blk = (let d = load_half F blk 0; qsb = drop 2 blk; scales = drop 66 blk in
     concat (map (\<lambda>ib.
       let ls1 = uint (scales ! ib AND 0xF); ls2 = uint (drop_bit 4 (scales ! ib));
           db1 = d * (c0_5 F + of_i F ls1) * c0_25 F; db2 = d * (c0_5 F + of_i F ls2) * c0_25 F
       in concat (map (\<lambda>l.
         let q2 = le16 (qsb ! (8 * ib + 2 * l)) (qsb ! (8 * ib + 2 * l + 1));
             g = iq2xs_grid ! unat (q2 AND 511); signs = ksigns_iq2xs ! unat (drop_bit 9 q2);
             db = (if l < 2 then db1 else db2); yb = ib * 32 + l * 8
         in map (\<lambda>j. (yb + j, db * of_i F (s8_at g j) * sign_of signs j)) [0..<8]) [0..<4])) [0..<8]))"

definition iq3_xxs :: "'f::{times,plus,uminus,one} flt \<Rightarrow> 8 word list \<Rightarrow> 'f terms" where
  "iq3_xxs F blk = (let d = load_half F blk 0; q3 = drop 2 blk; gas = drop (2 + 64) blk in
     concat (map (\<lambda>ib.
       let a = rd_u32 gas (4 * ib); db = d * (c0_5 F + of_i F (uint (drop_bit 28 a))) * c0_5 F; q3b = drop (8 * ib) q3
       in concat (map (\<lambda>l.
         let signs = ksigns_iq2xs ! unat (drop_bit (7 * l) a AND 127);
             g1 = iq3xxs_grid ! unat (q3b ! (2 * l + 0)); g2 = iq3xxs_grid ! unat (q3b ! (2 * l + 1)); yb = ib * 32 + l * 8
         in concat (map (\<lambda>j. [(yb + j, db * of_i F (s8_at g1 j) * sign_of signs (j + 0)),
              (yb + 4 + j, db * of_i F (s8_at g2 j) * sign_of signs (j + 4))]) [0..<4])) [0..<4])) [0..<8]))"


section \<open>One kernel per format\<close>

text \<open>Each template instantiates the launch at its block size and decoder; \<open>tp\<close> is the template argument \<open>TYPE\<close>.\<close>

definition gguf_typed :: "int \<Rightarrow> 'f::{plus,minus,times,uminus,zero,one} flt \<Rightarrow> ('t \<Rightarrow> 'f) \<Rightarrow> ('f \<Rightarrow> 't) \<Rightarrow> ('f list \<Rightarrow> 'f) \<Rightarrow>
    8 word list \<Rightarrow> 't list \<Rightarrow> nat \<Rightarrow> nat \<Rightarrow> nat list \<Rightarrow> 't list \<Rightarrow> 't list option" where
  "gguf_typed tp F = gguf_gemv (if tp = 0 then 34 else 18) 32 (if tp = 0 then q8_0 F else q4_0 F)"

definition gguf_legacy_typed :: "int \<Rightarrow> 'f::{plus,minus,times,uminus,zero,one} flt \<Rightarrow> ('t \<Rightarrow> 'f) \<Rightarrow> ('f \<Rightarrow> 't) \<Rightarrow> ('f list \<Rightarrow> 'f) \<Rightarrow>
    8 word list \<Rightarrow> 't list \<Rightarrow> nat \<Rightarrow> nat \<Rightarrow> nat list \<Rightarrow> 't list \<Rightarrow> 't list option" where
  "gguf_legacy_typed tp F = gguf_gemv (if tp = 8 then 20 else if tp = 9 then 22 else 24) 32
     (if tp = 8 then q4_1 F else q5_legacy (tp = 10) F)"

definition gguf_q6k_typed :: "'f::{plus,minus,times,uminus,zero,one} flt \<Rightarrow> ('t \<Rightarrow> 'f) \<Rightarrow> ('f \<Rightarrow> 't) \<Rightarrow> ('f list \<Rightarrow> 'f) \<Rightarrow>
    8 word list \<Rightarrow> 't list \<Rightarrow> nat \<Rightarrow> nat \<Rightarrow> nat list \<Rightarrow> 't list \<Rightarrow> 't list option" where
  "gguf_q6k_typed F = gguf_gemv 210 256 (q6_k F)"

definition gguf_q4k_typed :: "'f::{plus,minus,times,uminus,zero,one} flt \<Rightarrow> ('t \<Rightarrow> 'f) \<Rightarrow> ('f \<Rightarrow> 't) \<Rightarrow> ('f list \<Rightarrow> 'f) \<Rightarrow>
    8 word list \<Rightarrow> 't list \<Rightarrow> nat \<Rightarrow> nat \<Rightarrow> nat list \<Rightarrow> 't list \<Rightarrow> 't list option" where
  "gguf_q4k_typed F = gguf_gemv 144 256 (q4_k F)"

definition gguf_q5k_typed :: "'f::{plus,minus,times,uminus,zero,one} flt \<Rightarrow> ('t \<Rightarrow> 'f) \<Rightarrow> ('f \<Rightarrow> 't) \<Rightarrow> ('f list \<Rightarrow> 'f) \<Rightarrow>
    8 word list \<Rightarrow> 't list \<Rightarrow> nat \<Rightarrow> nat \<Rightarrow> nat list \<Rightarrow> 't list \<Rightarrow> 't list option" where
  "gguf_q5k_typed F = gguf_gemv 176 256 (q5_k F)"

definition gguf_q2k_typed :: "'f::{plus,minus,times,uminus,zero,one} flt \<Rightarrow> ('t \<Rightarrow> 'f) \<Rightarrow> ('f \<Rightarrow> 't) \<Rightarrow> ('f list \<Rightarrow> 'f) \<Rightarrow>
    8 word list \<Rightarrow> 't list \<Rightarrow> nat \<Rightarrow> nat \<Rightarrow> nat list \<Rightarrow> 't list \<Rightarrow> 't list option" where
  "gguf_q2k_typed F = gguf_gemv 84 256 (q2_k F)"

definition gguf_q3k_typed :: "'f::{plus,minus,times,uminus,zero,one} flt \<Rightarrow> ('t \<Rightarrow> 'f) \<Rightarrow> ('f \<Rightarrow> 't) \<Rightarrow> ('f list \<Rightarrow> 'f) \<Rightarrow>
    8 word list \<Rightarrow> 't list \<Rightarrow> nat \<Rightarrow> nat \<Rightarrow> nat list \<Rightarrow> 't list \<Rightarrow> 't list option" where
  "gguf_q3k_typed F = gguf_gemv 110 256 (q3_k F)"

definition gguf_iq4nl_typed :: "'f::{plus,minus,times,uminus,zero,one} flt \<Rightarrow> ('t \<Rightarrow> 'f) \<Rightarrow> ('f \<Rightarrow> 't) \<Rightarrow> ('f list \<Rightarrow> 'f) \<Rightarrow>
    8 word list \<Rightarrow> 't list \<Rightarrow> nat \<Rightarrow> nat \<Rightarrow> nat list \<Rightarrow> 't list \<Rightarrow> 't list option" where
  "gguf_iq4nl_typed F = gguf_gemv 18 32 (iq4_nl F)"

definition gguf_iq4xs_typed :: "'f::{plus,minus,times,uminus,zero,one} flt \<Rightarrow> ('t \<Rightarrow> 'f) \<Rightarrow> ('f \<Rightarrow> 't) \<Rightarrow> ('f list \<Rightarrow> 'f) \<Rightarrow>
    8 word list \<Rightarrow> 't list \<Rightarrow> nat \<Rightarrow> nat \<Rightarrow> nat list \<Rightarrow> 't list \<Rightarrow> 't list option" where
  "gguf_iq4xs_typed F = gguf_gemv 136 256 (iq4_xs F)"

definition iq1s_typed :: "'f::{plus,minus,times,uminus,zero,one} flt \<Rightarrow> ('t \<Rightarrow> 'f) \<Rightarrow> ('f \<Rightarrow> 't) \<Rightarrow> ('f list \<Rightarrow> 'f) \<Rightarrow>
    8 word list \<Rightarrow> 't list \<Rightarrow> nat \<Rightarrow> nat \<Rightarrow> nat list \<Rightarrow> 't list \<Rightarrow> 't list option" where
  "iq1s_typed F = gguf_gemv 50 256 (iq1_s F)"

definition iq2xxs_typed :: "'f::{plus,minus,times,uminus,zero,one} flt \<Rightarrow> ('t \<Rightarrow> 'f) \<Rightarrow> ('f \<Rightarrow> 't) \<Rightarrow> ('f list \<Rightarrow> 'f) \<Rightarrow>
    8 word list \<Rightarrow> 't list \<Rightarrow> nat \<Rightarrow> nat \<Rightarrow> nat list \<Rightarrow> 't list \<Rightarrow> 't list option" where
  "iq2xxs_typed F = gguf_gemv 66 256 (iq2_xxs F)"

definition iq2xs_typed :: "'f::{plus,minus,times,uminus,zero,one} flt \<Rightarrow> ('t \<Rightarrow> 'f) \<Rightarrow> ('f \<Rightarrow> 't) \<Rightarrow> ('f list \<Rightarrow> 'f) \<Rightarrow>
    8 word list \<Rightarrow> 't list \<Rightarrow> nat \<Rightarrow> nat \<Rightarrow> nat list \<Rightarrow> 't list \<Rightarrow> 't list option" where
  "iq2xs_typed F = gguf_gemv 74 256 (iq2_xs F)"

definition iq3xxs_typed :: "'f::{plus,minus,times,uminus,zero,one} flt \<Rightarrow> ('t \<Rightarrow> 'f) \<Rightarrow> ('f \<Rightarrow> 't) \<Rightarrow> ('f list \<Rightarrow> 'f) \<Rightarrow>
    8 word list \<Rightarrow> 't list \<Rightarrow> nat \<Rightarrow> nat \<Rightarrow> nat list \<Rightarrow> 't list \<Rightarrow> 't list option" where
  "iq3xxs_typed F = gguf_gemv 98 256 (iq3_xxs F)"

lemmas gguf_kernels = gguf_typed_def gguf_legacy_typed_def gguf_q6k_typed_def gguf_q4k_typed_def gguf_q5k_typed_def gguf_q2k_typed_def gguf_q3k_typed_def gguf_iq4nl_typed_def gguf_iq4xs_typed_def iq1s_typed_def iq2xxs_typed_def iq2xs_typed_def iq3xxs_typed_def

section \<open>Dispatch on the type code\<close>

definition dispatch_type :: "'f::{plus,minus,times,uminus,zero,one} flt \<Rightarrow> ('t \<Rightarrow> 'f) \<Rightarrow> ('f \<Rightarrow> 't) \<Rightarrow> ('f list \<Rightarrow> 'f) \<Rightarrow>
    8 word list \<Rightarrow> 't list \<Rightarrow> nat \<Rightarrow> nat \<Rightarrow> int \<Rightarrow> nat list \<Rightarrow> 't list \<Rightarrow> 't list option" where
  "dispatch_type F ld st red w x N K type sched y =
     (if type = 12 \<or> type = 13 \<or> type = 14 then
        if type = 12 then iq2xxs_typed F ld st red w x N K sched y
        else if type = 13 then iq2xs_typed F ld st red w x N K sched y
        else iq3xxs_typed F ld st red w x N K sched y
      else if type = 15 then iq1s_typed F ld st red w x N K sched y
      else if type = 7 then gguf_iq4nl_typed F ld st red w x N K sched y
      else if type = 8 then gguf_legacy_typed 8 F ld st red w x N K sched y
      else if type = 9 then gguf_legacy_typed 9 F ld st red w x N K sched y
      else if type = 10 then gguf_legacy_typed 10 F ld st red w x N K sched y
      else if type = 11 then gguf_iq4xs_typed F ld st red w x N K sched y
      else if type = 2 then gguf_q6k_typed F ld st red w x N K sched y
      else if type = 3 then gguf_q4k_typed F ld st red w x N K sched y
      else if type = 4 then gguf_q5k_typed F ld st red w x N K sched y
      else if type = 5 then gguf_q2k_typed F ld st red w x N K sched y
      else if type = 6 then gguf_q3k_typed F ld st red w x N K sched y
      else if type = 0 then gguf_typed 0 F ld st red w x N K sched y
      else gguf_typed 1 F ld st red w x N K sched y)"

definition gguf_gemv_sycl :: "(f32 list \<Rightarrow> f32) \<Rightarrow> 8 word list \<Rightarrow> 32 word list \<Rightarrow> nat \<Rightarrow> nat \<Rightarrow> int \<Rightarrow> DType \<Rightarrow> nat list \<Rightarrow>
    32 word list \<Rightarrow> 32 word list option" where
  "gguf_gemv_sycl red w x N K type act_dt sched y =
     (case act_dt of
        DF32 \<Rightarrow> dispatch_type f32_flt (elem_ld DF32) (elem_st DF32) red w x N K type sched y
      | DF16 \<Rightarrow> dispatch_type f32_flt (elem_ld DF16) (elem_st DF16) red w x N K type sched y
      | DBF16 \<Rightarrow> dispatch_type f32_flt (elem_ld DBF16) (elem_st DBF16) red w x N K type sched y)"

end
