(* ===== verification/GgufFormats.thy ===== *)
theory GgufFormats
  imports Gguf
begin

text \<open>
  Correctness of the GGUF products.  For each of the sixteen formats \<open>elem_<format>\<close> gives the value of
  element \<open>k\<close> of a block by index arithmetic; the decoder's loops produce every element exactly once
  (\<open>block_format\<close>, the interface the products rely on, interpreted for every type code).  The launch
  lemmas reduce a product to its lanes, and the lanes to one sum.
\<close>

section \<open>Regrouping loops\<close>

lemma map_upt_add: "map e [0..<m + n] = map e [0..<m] @ map (\<lambda>j. e (m + j)) [0..<n]"
  by (intro nth_equalityI) (auto simp: nth_append)

lemma map_upt_mult: "map e [0..<m * n] = concat (map (\<lambda>i. map (\<lambda>j. e (i * n + j)) [0..<n]) [0..<m])"
proof (induction m)
  case (Suc m)
  then show ?case using map_upt_add [of e "m * n" n] by (simp add: add.commute)
qed simp

lemma mset_blocks:
  assumes "N = m * n" "\<And>i. i < m \<Longrightarrow> mset (f i) = mset (map (\<lambda>j. e (i * n + j)) [0..<n])"
  shows "mset (concat (map f [0..<m])) = mset (map e [0..<N])"
proof -
  have "mset (concat (map f [0..<k])) = mset (concat (map (\<lambda>i. map (\<lambda>j. e (i * n + j)) [0..<n]) [0..<k]))" if "k \<le> m" for k
    using that by (induction k) (use assms(2) in auto)
  then show ?thesis by (simp add: assms(1) map_upt_mult)
qed

lemma mset_pairs:
  assumes "N = n + n" "\<And>l. l < n \<Longrightarrow> f l = [e l, e (n + l)]"
  shows "mset (concat (map f [0..<n])) = mset (map e [0..<N])"
proof -
  have "mset (concat (map f [0..<k])) = mset (map e [0..<k] @ map (\<lambda>j. e (n + j)) [0..<k])" if "k \<le> n" for k
    using that by (induction k) (use assms(2) in auto)
  then show ?thesis by (simp add: assms(1) map_upt_add)
qed

lemma mset_quads:
  assumes "N = n + (n + (n + n))" "\<And>l. l < n \<Longrightarrow> f l = [e l, e (n + l), e (n + (n + l)), e (n + (n + (n + l)))]"
  shows "mset (concat (map f [0..<n])) = mset (map e [0..<N])"
proof -
  have "mset (concat (map f [0..<k])) = mset (map e [0..<k] @ map (\<lambda>j. e (n + j)) [0..<k] @
      map (\<lambda>j. e (n + (n + j))) [0..<k] @ map (\<lambda>j. e (n + (n + (n + j)))) [0..<k])" if "k \<le> n" for k
    using that by (induction k) (use assms(2) in auto)
  then show ?thesis by (simp add: assms(1) map_upt_add)
qed

section \<open>Bit fields\<close>

lemma or_push:
  fixes a b :: "'a::len word"
  assumes "uint a < 2 ^ n" "uint b * 2 ^ n < 2 ^ LENGTH('a)"
  shows "uint (a OR push_bit n b) = uint a + 2 ^ n * uint b"
proof -
  have "take_bit LENGTH('a) (push_bit n (uint b)) = push_bit n (uint b)"
    using assms(2) by (simp add: take_bit_int_eq_self_iff push_bit_eq_mult)
  then have "uint (a OR push_bit n b) = uint a OR push_bit n (uint b)"
    by (simp add: unsigned_or_eq unsigned_push_bit_eq)
  also have "\<dots> = uint a + push_bit n (uint b)"
  proof (rule disjunctive_add [symmetric])
    have "take_bit n (uint a) = uint a" using assms(1) by (simp add: take_bit_int_eq_self_iff)
    then show "\<not> bit (uint a) i \<or> \<not> bit (push_bit n (uint b)) i" for i
      by (metis bit_push_bit_iff_int bit_take_bit_iff linorder_not_less)
  qed
  finally show ?thesis by (simp add: push_bit_eq_mult mult.commute)
qed

lemma uint_mask: "uint (b AND mask n :: 'a::len word) < 2 ^ n"
  by (simp flip: take_bit_eq_mask add: unsigned_take_bit_eq)

lemma nib_lt: "uint (b AND 0xF :: 8 word) < 16" "uint (drop_bit 4 b :: 8 word) < 16" "uint (b AND 3 :: 8 word) < 4"
    "uint (drop_bit 6 b :: 8 word) < 4" "uint (b AND 63 :: 8 word) < 64"
proof -
  show "uint (b AND 0xF :: 8 word) < 16" "uint (b AND 3 :: 8 word) < 4" "uint (b AND 63 :: 8 word) < 64"
    using uint_mask [of b 4] uint_mask [of b 2] uint_mask [of b 6] by (simp_all add: mask_numeral)
  show "uint (drop_bit 4 b :: 8 word) < 16" "uint (drop_bit 6 b :: 8 word) < 4"
    using uint_lt2p [of b] unfolding uint_drop by simp_all
qed

lemma bit6: "uint ((a AND 0xF) OR push_bit 4 (b AND 3) :: 8 word) = uint (a AND 0xF) + 16 * uint (b AND 3)"
  "uint (drop_bit 4 a OR push_bit 4 (b AND 3) :: 8 word) = uint (drop_bit 4 a) + 16 * uint (b AND 3)"
proof -
  have "uint (b AND 3) * 2 ^ 4 < 2 ^ LENGTH(8)" using nib_lt(3) [of b] by simp
  from or_push [OF _ this] nib_lt(1,2) [of a]
  show "uint ((a AND 0xF) OR push_bit 4 (b AND 3) :: 8 word) = uint (a AND 0xF) + 16 * uint (b AND 3)"
    "uint (drop_bit 4 a OR push_bit 4 (b AND 3) :: 8 word) = uint (drop_bit 4 a) + 16 * uint (b AND 3)" by auto
qed

section \<open>The formats element by element\<close>

text \<open>The value of element \<open>k\<close> of a block, by index arithmetic: which byte, which bits, which scale.\<close>

definition nibble :: "8 word \<Rightarrow> nat \<Rightarrow> 8 word" where
  "nibble b s = (if s = 0 then b AND 0xF else drop_bit 4 b)"

definition elem_q8_0 :: "'f::times flt \<Rightarrow> 8 word list \<Rightarrow> nat \<Rightarrow> 'f" where
  "elem_q8_0 F blk k = of_i F (sint (blk ! (2 + k))) * load_half F blk 0"

definition elem_q4_0 :: "'f::times flt \<Rightarrow> 8 word list \<Rightarrow> nat \<Rightarrow> 'f" where
  "elem_q4_0 F blk k = of_i F (uint (nibble (blk ! (2 + k mod 16)) (k div 16)) - 8) * load_half F blk 0"

definition elem_q4_1 :: "'f::{times,plus} flt \<Rightarrow> 8 word list \<Rightarrow> nat \<Rightarrow> 'f" where
  "elem_q4_1 F blk k = of_i F (uint (nibble (blk ! (4 + k mod 16)) (k div 16))) * load_half F blk 0 + load_half F blk 2"

definition elem_q5_0 :: "'f::{times,plus,zero} flt \<Rightarrow> 8 word list \<Rightarrow> nat \<Rightarrow> 'f" where
  "elem_q5_0 F blk k = of_i F (uint (nibble (blk ! (6 + k mod 16)) (k div 16)) + 16 * of_bool (bit (rd_u32 blk 2) k) - 16)
     * load_half F blk 0 + 0"

definition elem_q5_1 :: "'f::{times,plus} flt \<Rightarrow> 8 word list \<Rightarrow> nat \<Rightarrow> 'f" where
  "elem_q5_1 F blk k = of_i F (uint (nibble (blk ! (8 + k mod 16)) (k div 16)) + 16 * of_bool (bit (rd_u32 blk 4) k))
     * load_half F blk 0 + load_half F blk 2"

definition elem_iq4_nl :: "'f::times flt \<Rightarrow> 8 word list \<Rightarrow> nat \<Rightarrow> 'f" where
  "elem_iq4_nl F blk k = load_half F blk 0 * of_i F (kIQ4NL ! unat (nibble (blk ! (2 + k mod 16)) (k div 16)))"

definition elem_q6_k :: "'f::times flt \<Rightarrow> 8 word list \<Rightarrow> nat \<Rightarrow> 'f" where
  "elem_q6_k F blk k = (let h = k div 128; g = k div 32 mod 4; l = k mod 32;
       q = uint (nibble (blk ! (64 * h + 32 * (g mod 2) + l)) (g div 2)) + 16 * uint (drop_bit (2 * g) (blk ! (128 + 32 * h + l)) AND 3) - 32
     in load_half F blk 208 * of_i F (sint (blk ! (192 + 8 * h + 2 * g + l div 16))) * of_i F q)"

definition elem_q4_k :: "'f::{times,minus} flt \<Rightarrow> 8 word list \<Rightarrow> nat \<Rightarrow> 'f" where
  "elem_q4_k F blk k = (let j = k div 32; (sc, m) = scale_min_k4 j (drop 4 blk);
       q = uint (nibble (blk ! (16 + 32 * (k div 64) + k mod 32)) (j mod 2))
     in load_half F blk 0 * of_i F sc * of_i F q - load_half F blk 2 * of_i F m)"

definition elem_q5_k :: "'f::{times,minus} flt \<Rightarrow> 8 word list \<Rightarrow> nat \<Rightarrow> 'f" where
  "elem_q5_k F blk k = (let j = k div 32; (sc, m) = scale_min_k4 j (drop 4 blk);
       q = uint (nibble (blk ! (48 + 32 * (k div 64) + k mod 32)) (j mod 2)) + 16 * of_bool (bit (blk ! (16 + k mod 32)) j)
     in load_half F blk 0 * of_i F sc * of_i F q - load_half F blk 2 * of_i F m)"

definition elem_q2_k :: "'f::{times,minus} flt \<Rightarrow> 8 word list \<Rightarrow> nat \<Rightarrow> 'f" where
  "elem_q2_k F blk k = (let sc = blk ! (k div 16);
       q = uint (drop_bit (2 * (k div 32 mod 4)) (blk ! (16 + 32 * (k div 128) + k mod 32)) AND 3)
     in load_half F blk 80 * of_i F (uint (sc AND 0xF)) * of_i F q - load_half F blk 82 * of_i F (uint (drop_bit 4 sc)))"

text \<open>The 6-bit scale \<open>i\<close> of \<open>q3_K\<close>: a nibble of the first eight bytes and two bits of the last four.\<close>

definition q3_scale :: "8 word list \<Rightarrow> nat \<Rightarrow> int" where
  "q3_scale sc i = uint (nibble (sc ! (i mod 8)) (i div 8)) + 16 * uint (drop_bit (2 * (i div 4)) (sc ! (8 + i mod 4)) AND 3)"

definition elem_q3_k :: "'f::times flt \<Rightarrow> 8 word list \<Rightarrow> nat \<Rightarrow> 'f" where
  "elem_q3_k F blk k = (let q = uint (drop_bit (2 * (k div 32 mod 4)) (blk ! (32 + 32 * (k div 128) + k mod 32)) AND 3)
       - (if bit (blk ! (k mod 32)) (k div 32) then 0 else 4)
     in load_half F blk 108 * of_i F (q3_scale (drop 96 blk) (k div 16) - 32) * of_i F q)"

definition elem_iq4_xs :: "'f::times flt \<Rightarrow> 8 word list \<Rightarrow> nat \<Rightarrow> 'f" where
  "elem_iq4_xs F blk k = (let ib = k div 32;
       ls = uint (nibble (blk ! (4 + ib div 2)) (ib mod 2)) + 16 * uint (drop_bit (2 * ib) (le16 (blk ! 2) (blk ! 3)) AND 3)
     in load_half F blk 0 * of_i F (ls - 32) * of_i F (kIQ4NL ! unat (nibble (blk ! (8 + 16 * ib + k mod 16)) (k div 16 mod 2))))"

definition elem_iq1_s :: "'f::{times,plus,uminus} flt \<Rightarrow> 8 word list \<Rightarrow> nat \<Rightarrow> 'f" where
  "elem_iq1_s F blk k = (let ib = k div 32; l = k div 8 mod 4;
       qh = le16 (blk ! (34 + 2 * ib)) (blk ! (34 + 2 * ib + 1));
       gi = unat (blk ! (2 + k div 8)) + 256 * unat (drop_bit (3 * l) qh AND 7)
     in load_half F blk 0 * of_i F (2 * uint (drop_bit 12 qh AND 7) + 1) *
        (of_i F (s8_at (iq1s_grid ! gi) (k mod 8)) + (if bit qh 15 then - c0_125 F else c0_125 F)))"

definition elem_iq2_xxs :: "'f::{times,plus,uminus,one} flt \<Rightarrow> 8 word list \<Rightarrow> nat \<Rightarrow> 'f" where
  "elem_iq2_xxs F blk k = (let ib = k div 32; l = k div 8 mod 4; a = rd_u32 (drop (2 + 8 * ib) blk) 4
     in load_half F blk 0 * (c0_5 F + of_i F (uint (drop_bit 28 a))) * c0_25 F *
        of_i F (s8_at (iq2xxs_grid ! unat (blk ! (2 + 8 * ib + l))) (k mod 8)) *
        (if bit (ksigns_iq2xs ! unat (drop_bit (7 * l) a AND 127)) (k mod 8) then - 1 else 1))"

definition elem_iq2_xs :: "'f::{times,plus,uminus,one} flt \<Rightarrow> 8 word list \<Rightarrow> nat \<Rightarrow> 'f" where
  "elem_iq2_xs F blk k = (let ib = k div 32; l = k div 8 mod 4; q2 = le16 (blk ! (2 + 2 * (k div 8))) (blk ! (2 + 2 * (k div 8) + 1))
     in load_half F blk 0 * (c0_5 F + of_i F (uint (nibble (blk ! (66 + ib)) (l div 2)))) * c0_25 F *
        of_i F (s8_at (iq2xs_grid ! unat (q2 AND 511)) (k mod 8)) *
        (if bit (ksigns_iq2xs ! unat (drop_bit 9 q2)) (k mod 8) then - 1 else 1))"

definition elem_iq3_xxs :: "'f::{times,plus,uminus,one} flt \<Rightarrow> 8 word list \<Rightarrow> nat \<Rightarrow> 'f" where
  "elem_iq3_xxs F blk k = (let ib = k div 32; l = k div 8 mod 4; a = rd_u32 (drop 66 blk) (4 * ib)
     in load_half F blk 0 * (c0_5 F + of_i F (uint (drop_bit 28 a))) * c0_5 F *
        of_i F (s8_at (iq3xxs_grid ! unat (blk ! (2 + k div 4))) (k mod 4)) *
        (if bit (ksigns_iq2xs ! unat (drop_bit (7 * l) a AND 127)) (k mod 8) then - 1 else 1))"

section \<open>Index arithmetic\<close>

lemma dm: "l < n \<Longrightarrow> (a * n + l) div n = (a::nat)" "l < n \<Longrightarrow> (a * n + l) mod n = (l::nat)"
  by simp_all

lemma idx16:
  assumes "l < 16"
  shows "l div 16 = 0" "l mod 16 = l" "(16 + l) div 16 = 1" "(16 + l) mod 16 = (l::nat)"
  using assms by (simp_all add: le_div_geq mod_if)

lemma idx64:
  assumes "l < 32"
  shows "(h * 64 + l) div 64 = h" "(h * 64 + l) div 32 = 2 * h" "(h * 64 + l) mod 32 = l"
    "(h * 64 + (32 + l)) div 64 = h" "(h * 64 + (32 + l)) div 32 = 2 * h + 1" "(h * 64 + (32 + l)) mod 32 = (l::nat)"
proof -
  have e: "h * 64 + l = (2 * h) * 32 + l" "h * 64 + (32 + l) = (2 * h + 1) * 32 + l" by simp_all
  show "(h * 64 + l) div 64 = h" "(h * 64 + (32 + l)) div 64 = h" using assms by (auto intro!: dm)
  show "(h * 64 + l) div 32 = 2 * h" "(h * 64 + l) mod 32 = l"
    "(h * 64 + (32 + l)) div 32 = 2 * h + 1" "(h * 64 + (32 + l)) mod 32 = l"
    unfolding e by (rule dm, fact)+
qed

lemma idx128:
  assumes "l < 32" "c < 4"
  shows "(h * 128 + (c * 32 + l)) div 128 = h" "(h * 128 + (c * 32 + l)) div 32 mod 4 = c" "(h * 128 + (c * 32 + l)) mod 32 = l"
    "(h * 128 + (c * 32 + l)) div 32 = h * 4 + (c::nat)"
proof -
  have e: "h * 128 + (c * 32 + l) = (h * 4 + c) * 32 + l" by simp
  show d: "(h * 128 + (c * 32 + l)) div 32 = h * 4 + c" unfolding e by (rule dm) fact
  then show "(h * 128 + (c * 32 + l)) div 32 mod 4 = c" using dm(2) [OF assms(2), of h] by simp
  show "(h * 128 + (c * 32 + l)) mod 32 = l" unfolding e by (rule dm) fact
  have "c * 32 + l < 128" using assms by linarith
  then show "(h * 128 + (c * 32 + l)) div 128 = h" by (rule dm)
qed

lemma idx128':
  assumes "l < 32"
  shows "(h * 128 + l) div 128 = h" "(h * 128 + l) div 32 mod 4 = 0" "(h * 128 + l) mod 32 = l"
    "(h * 128 + (32 + l)) div 128 = h" "(h * 128 + (32 + l)) div 32 mod 4 = 1" "(h * 128 + (32 + l)) mod 32 = l"
    "(h * 128 + (64 + l)) div 128 = h" "(h * 128 + (64 + l)) div 32 mod 4 = 2" "(h * 128 + (64 + l)) mod 32 = l"
    "(h * 128 + (96 + l)) div 128 = h" "(h * 128 + (96 + l)) div 32 mod 4 = 3" "(h * 128 + (96 + l)) mod 32 = (l :: nat)"
proof -
  have n: "0 * 32 = (0::nat)" "1 * 32 = (32::nat)" "2 * 32 = (64::nat)" "3 * 32 = (96::nat)" "0 + l = l" by simp_all
  have c: "0 < (4::nat)" "1 < (4::nat)" "2 < (4::nat)" "3 < (4::nat)" by simp_all
  note i = idx128 [OF assms c(1), of h, unfolded n] idx128 [OF assms c(2), of h, unfolded n]
    idx128 [OF assms c(3), of h, unfolded n] idx128 [OF assms c(4), of h, unfolded n]
  show "(h * 128 + l) div 128 = h" "(h * 128 + l) div 32 mod 4 = 0" "(h * 128 + l) mod 32 = l"
    "(h * 128 + (32 + l)) div 128 = h" "(h * 128 + (32 + l)) div 32 mod 4 = 1" "(h * 128 + (32 + l)) mod 32 = l"
    "(h * 128 + (64 + l)) div 128 = h" "(h * 128 + (64 + l)) div 32 mod 4 = 2" "(h * 128 + (64 + l)) mod 32 = l"
    "(h * 128 + (96 + l)) div 128 = h" "(h * 128 + (96 + l)) div 32 mod 4 = 3" "(h * 128 + (96 + l)) mod 32 = (l :: nat)"
    by (rule i)+
qed

text \<open>Sixteen-element sub-blocks, at \<open>h * 128 + j * 32\<close> and 16 further.\<close>

lemma idx_sub16:
  assumes "l < 16" "j < 4"
  shows "(h * 128 + (j * 32 + l)) div 128 = h" "(h * 128 + (j * 32 + l)) div 32 mod 4 = j" "(h * 128 + (j * 32 + l)) mod 32 = l"
    "(h * 128 + (j * 32 + l)) div 32 = h * 4 + j" "(h * 128 + (j * 32 + l)) div 16 = h * 8 + j * 2"
    "(h * 128 + (j * 32 + (16 + l))) div 128 = h" "(h * 128 + (j * 32 + (16 + l))) div 32 mod 4 = j"
    "(h * 128 + (j * 32 + (16 + l))) mod 32 = 16 + l"
    "(h * 128 + (j * 32 + (16 + l))) div 32 = h * 4 + j" "(h * 128 + (j * 32 + (16 + l))) div 16 = h * 8 + j * 2 + (1::nat)"
proof -
  have e: "h * 128 + (j * 32 + l) = (h * 8 + j * 2) * 16 + l" "h * 128 + (j * 32 + (16 + l)) = (h * 8 + j * 2 + 1) * 16 + l" by simp_all
  show "(h * 128 + (j * 32 + l)) div 16 = h * 8 + j * 2" "(h * 128 + (j * 32 + (16 + l))) div 16 = h * 8 + j * 2 + 1"
    unfolding e by (rule dm, fact)+
qed (rule idx128, use assms in simp_all)+

lemma idx32:
  assumes "l < 16"
  shows "(i * 32 + l) div 32 = i" "(i * 32 + l) mod 16 = l" "(i * 32 + l) div 16 mod 2 = 0"
    "(i * 32 + (16 + l)) div 32 = i" "(i * 32 + (16 + l)) mod 16 = l" "(i * 32 + (16 + l)) div 16 mod 2 = (1::nat)"
proof -
  have e: "i * 32 + l = (2 * i) * 16 + l" "i * 32 + (16 + l) = (2 * i + 1) * 16 + l" by simp_all
  have "(i * 32 + l) div 16 = 2 * i" "(i * 32 + (16 + l)) div 16 = 2 * i + 1" unfolding e by (rule dm, fact)+
  then show "(i * 32 + l) div 16 mod 2 = 0" "(i * 32 + (16 + l)) div 16 mod 2 = 1" by simp_all
  show "(i * 32 + l) mod 16 = l" "(i * 32 + (16 + l)) mod 16 = l" unfolding e by (rule dm, fact)+
  show "(i * 32 + l) div 32 = i" "(i * 32 + (16 + l)) div 32 = i" using assms by (auto intro!: dm)
qed

text \<open>Groups of eight, at \<open>i * 32 + l * 8\<close>.\<close>

lemma idx8:
  assumes "j < 8" "l < 4"
  shows "(i * 32 + (l * 8 + j)) div 32 = i" "(i * 32 + (l * 8 + j)) div 8 mod 4 = l" "(i * 32 + (l * 8 + j)) mod 8 = j"
    "(i * 32 + (l * 8 + j)) div 8 = i * 4 + (l::nat)"
proof -
  have e: "i * 32 + (l * 8 + j) = (i * 4 + l) * 8 + j" by simp
  show d: "(i * 32 + (l * 8 + j)) div 8 = i * 4 + l" unfolding e by (rule dm) fact
  then show "(i * 32 + (l * 8 + j)) div 8 mod 4 = l" using dm(2) [OF assms(2), of i] by simp
  show "(i * 32 + (l * 8 + j)) mod 8 = j" unfolding e by (rule dm) fact
  have "l * 8 + j < 32" using assms by linarith
  then show "(i * 32 + (l * 8 + j)) div 32 = i" by (rule dm)
qed

lemma idx4:
  assumes "j < 4" "l < 4"
  shows "(i * 32 + (l * 8 + j)) mod 4 = j" "(i * 32 + (l * 8 + j)) div 4 = i * 8 + 2 * l"
    "(i * 32 + (l * 8 + (4 + j))) mod 4 = j" "(i * 32 + (l * 8 + (4 + j))) div 4 = i * 8 + 2 * l + (1::nat)"
proof -
  have e: "i * 32 + (l * 8 + j) = (i * 8 + 2 * l) * 4 + j" "i * 32 + (l * 8 + (4 + j)) = (i * 8 + 2 * l + 1) * 4 + j" by simp_all
  show "(i * 32 + (l * 8 + j)) mod 4 = j" "(i * 32 + (l * 8 + j)) div 4 = i * 8 + 2 * l"
    "(i * 32 + (l * 8 + (4 + j))) mod 4 = j" "(i * 32 + (l * 8 + (4 + j))) div 4 = i * 8 + 2 * l + 1"
    unfolding e by (rule dm, fact)+
qed

section \<open>Words of the formats\<close>


lemma sign_of_bit: "j < 8 \<Longrightarrow> sign_of s j = (if bit s j then - 1 else 1)"
proof -
  assume "j < 8"
  then consider "j = 0" | "j = 1" | "j = 2" | "j = 3" | "j = 4" | "j = 5" | "j = 6" | "j = 7" by linarith
  then have "kmask_iq2xs ! j = push_bit j 1" by cases (simp_all add: kmask_iq2xs_def)
  then show ?thesis by (simp add: sign_of_def bit_iff_and_push_bit_not_eq_0)
qed

lemma bit15: "qh AND 0x8000 \<noteq> 0 \<longleftrightarrow> bit (qh :: 16 word) 15"
  using bit_iff_and_push_bit_not_eq_0 [of qh 15] by simp

lemma bit_and_push: "b AND push_bit n 1 \<noteq> 0 \<longleftrightarrow> bit (b :: 8 word) n" "b AND push_bit n 2 \<noteq> 0 \<longleftrightarrow> bit (b :: 8 word) (n + 1)"
proof -
  show "b AND push_bit n 1 \<noteq> 0 \<longleftrightarrow> bit b n" by (simp add: bit_iff_and_push_bit_not_eq_0)
  have "push_bit n 2 = (push_bit (n + 1) 1 :: 8 word)" by (simp add: push_bit_eq_mult)
  then show "b AND push_bit n 2 \<noteq> 0 \<longleftrightarrow> bit b (n + 1)" by (simp add: bit_iff_and_push_bit_not_eq_0)
qed

lemma bit_sixteen: "bit (16 :: int) n \<longleftrightarrow> n = 4" "bit (16 :: nat) n \<longleftrightarrow> n = 4"
  using bit_exp_iff [where 'a = int, of 4 n] bit_exp_iff [where 'a = nat, of 4 n] by (auto simp: possible_bit_def)

lemma bit_three: "bit (3 :: int) n \<longleftrightarrow> n < 2" "bit (3 :: nat) n \<longleftrightarrow> n < 2"
proof -
  have "(3 :: int) = mask 2" "(3 :: nat) = mask 2" by (simp_all add: mask_eq_exp_minus_1)
  then show "bit (3 :: int) n \<longleftrightarrow> n < 2" "bit (3 :: nat) n \<longleftrightarrow> n < 2"
    by (simp_all only: bit_mask_iff) (simp_all add: possible_bit_def)
qed

lemma fifth_bit: "push_bit 4 (drop_bit j qh) AND 0x10 = push_bit 4 (of_bool (bit (qh :: 32 word) j))"
  "drop_bit (j + 12) qh AND 0x10 = push_bit 4 (of_bool (bit (qh :: 32 word) (j + 16)))"
  by (rule bit_word_eqI; auto simp: bit_simps bit_sixteen ac_simps)+

lemma nib5: "uint (ucast (nibble q s) OR push_bit 4 (of_bool c) :: 32 word) = uint (nibble q s) + 16 * of_bool c"
proof -
  have "uint (nibble q s) < 16" using nib_lt by (simp add: nibble_def)
  then show ?thesis by (subst or_push) (auto simp: unsigned_ucast_eq take_bit_int_eq_self)
qed

lemma idx1s: "unat (ucast q OR push_bit 8 (ucast (w AND 7)) :: 32 word) = unat (q :: 8 word) + 256 * unat (w AND 7 :: 16 word)"
proof -
  have w: "uint (w AND 7) < 8" using uint_mask [of w 3] by (simp add: mask_numeral)
  have "uint (ucast q OR push_bit 8 (ucast (w AND 7)) :: 32 word) = uint (ucast q :: 32 word) + 2 ^ 8 * uint (ucast (w AND 7) :: 32 word)"
    using w uint_lt2p [of q] by (intro or_push) (auto simp: unsigned_ucast_eq take_bit_int_eq_self)
  also have "\<dots> = uint q + 256 * uint (w AND 7)"
    using w uint_lt2p [of q] by (simp add: unsigned_ucast_eq take_bit_int_eq_self)
  finally show ?thesis 
    by (simp only: unat_eq_nat_uint nat_add_distrib nat_mult_distrib uint_ge_0 mult_nonneg_nonneg zero_le_numeral nat_numeral)
qed

lemma iq4xs_scale:
  "uint (ucast (drop_bit (4 * (ib mod 2)) b AND 0xF) OR push_bit 4 (drop_bit (2 * ib) (ucast sh) AND 3) :: 32 word) =
    uint (nibble (b :: 8 word) (ib mod 2)) + 16 * uint (drop_bit (2 * ib) (sh :: 16 word) AND 3)"
proof -
  have n: "drop_bit (4 * (ib mod 2)) b AND 0xF = nibble b (ib mod 2)"
  proof (cases "even ib")
    case False
    then have "ib mod 2 = 1" by (simp add: odd_iff_mod_2_eq_one)
    moreover have "drop_bit 4 b AND 0xF = drop_bit 4 b"
    proof -
      have "take_bit 4 (drop_bit 4 b) = drop_bit 4 b" by (simp add: take_bit_drop_bit take_bit_word_eq_self)
      then show ?thesis by (simp add: take_bit_eq_mask mask_numeral)
    qed
    ultimately show ?thesis by (simp add: nibble_def)
  qed (simp add: nibble_def)
  have s: "(drop_bit (2 * ib) (ucast sh :: 32 word)) AND 3 = ucast (drop_bit (2 * ib) sh AND 3)"
    by (rule bit_word_eqI) (auto simp: bit_simps bit_three dest: bit_imp_le_length)
  have "uint (nibble b (ib mod 2)) < 16" using nib_lt by (simp add: nibble_def)
  moreover have "uint (drop_bit (2 * ib) sh AND 3) < 4" using uint_mask [of "drop_bit (2 * ib) sh" 2] by (simp add: mask_numeral)
  ultimately show ?thesis unfolding n s by (subst or_push) (auto simp: unsigned_ucast_eq take_bit_int_eq_self)
qed


text \<open>Bytes of the words of the \<open>q3_K\<close> scales.\<close>

definition byte :: "32 word \<Rightarrow> nat \<Rightarrow> 8 word" where
  "byte w m = ucast (drop_bit (8 * m) w)"

lemma byte_bit: "bit (byte w m) i \<longleftrightarrow> i < 8 \<and> bit w (8 * m + i)"
  by (auto simp: byte_def bit_simps)

lemma lt4: "m < 4 \<longleftrightarrow> m = 0 \<or> m = 1 \<or> m = 2 \<or> m = (3::nat)"
  by auto

lemma byte_rd:
  assumes "m < 4"
  shows "byte (rd_u32 p i) m = p ! (i + m)"
proof -
  have hi: "\<not> bit (b :: 8 word) n" if "8 \<le> n" for b n
    using that bit_imp_le_length [of b n] by auto
  consider "m = 0" | "m = 1" | "m = 2" | "m = 3" using assms by linarith
  then show ?thesis
    by cases (rule bit_word_eqI, simp add: byte_bit rd_u32_def bit_or_iff bit_push_bit_iff bit_ucast_iff hi)+
qed

lemma m4: "byte (w AND v) m = byte w m AND byte v m" "byte (w OR v) m = byte w m OR byte v m"
  by (rule bit_word_eqI, auto simp: byte_bit bit_simps)+

lemma byte_masks:
  assumes "m < 4"
  shows "byte 0x0f0f0f0f m = 0xF" "byte 0x03030303 m = 3"
proof -
  consider "m = 0" | "m = 1" | "m = 2" | "m = 3" using assms by linarith
  then show "byte 0x0f0f0f0f m = 0xF" "byte 0x03030303 m = 3" by (cases; simp add: byte_def)+
qed

lemma kmask_bits:
  "bit (0x0f0f0f0f :: 32 word) n \<longleftrightarrow> n < 32 \<and> n mod 8 < 4" "bit (0x03030303 :: 32 word) n \<longleftrightarrow> n < 32 \<and> n mod 8 < 2"
proof -
  have "bit (0x0f0f0f0f :: 32 word) n \<longleftrightarrow> bit (0xF :: 8 word) (n mod 8)" "bit (0x03030303 :: 32 word) n \<longleftrightarrow> bit (3 :: 8 word) (n mod 8)"
    if "n < 32"
  proof -
    have m: "n div 8 < 4" using that by linarith
    show "bit (0x0f0f0f0f :: 32 word) n \<longleftrightarrow> bit (0xF :: 8 word) (n mod 8)"
      using byte_bit [of "0x0f0f0f0f" "n div 8" "n mod 8"] unfolding byte_masks(1) [OF m] by simp
    show "bit (0x03030303 :: 32 word) n \<longleftrightarrow> bit (3 :: 8 word) (n mod 8)"
      using byte_bit [of "0x03030303" "n div 8" "n mod 8"] unfolding byte_masks(2) [OF m] by simp
  qed
  moreover have nib: "bit (0xF :: 8 word) i \<longleftrightarrow> i < 4" "bit (3 :: 8 word) i \<longleftrightarrow> i < 2" for i
  proof -
    have "(0xF :: 8 word) = mask 4" "(3 :: 8 word) = mask 2" by (simp_all add: mask_eq_exp_minus_1)
    then show "bit (0xF :: 8 word) i \<longleftrightarrow> i < 4" "bit (3 :: 8 word) i \<longleftrightarrow> i < 2" by (simp_all only: bit_mask_iff) auto
  qed
  moreover have "n < 32" if "bit (0x0f0f0f0f :: 32 word) n \<or> bit (0x03030303 :: 32 word) n"
    using that bit_imp_le_length [of "0x0f0f0f0f :: 32 word" n] bit_imp_le_length [of "0x03030303 :: 32 word" n]
    by (elim disjE) (simp_all only: len_num0 len_num1 len_bit0 len_bit1, simp_all)
  ultimately show "bit (0x0f0f0f0f :: 32 word) n \<longleftrightarrow> n < 32 \<and> n mod 8 < 4" "bit (0x03030303 :: 32 word) n \<longleftrightarrow> n < 32 \<and> n mod 8 < 2"
    by blast+
qed

lemma byte_hi: "m < 4 \<Longrightarrow> byte (drop_bit 4 a AND 0x0f0f0f0f) m = drop_bit 4 (byte a m)"
proof (rule bit_word_eqI)
  fix i :: nat assume m: "m < 4" and i: "i < LENGTH(8)"
  then have "8 * m + i < 32" "(8 * m + i) mod 8 = i" by simp_all
  then show "bit (byte (drop_bit 4 a AND 0x0f0f0f0f) m) i \<longleftrightarrow> bit (drop_bit 4 (byte a m)) i"
    using i unfolding byte_bit bit_drop_bit_eq comp_def bit_and_iff kmask_bits by (auto simp: ac_simps)
qed

lemma byte_two: "m < 4 \<Longrightarrow> s \<le> 6 \<Longrightarrow> byte (push_bit 4 (drop_bit s a AND 0x03030303)) m = push_bit 4 (drop_bit s (byte a m) AND 3)"
proof (rule bit_word_eqI)
  fix i :: nat assume m: "m < 4" "s \<le> 6" and i: "i < LENGTH(8)"
  have three: "bit (3 :: 8 word) j \<longleftrightarrow> j < 2" for j
  proof -
    have "(3 :: 8 word) = mask 2" by (simp add: mask_eq_exp_minus_1)
    then show ?thesis by (simp only: bit_mask_iff) auto
  qed
  show "bit (byte (push_bit 4 (drop_bit s a AND 0x03030303)) m) i \<longleftrightarrow> bit (push_bit 4 (drop_bit s (byte a m) AND 3)) i"
  proof (cases "4 \<le> i")
    case True
    then obtain j where j: "i = 4 + j" using le_Suc_ex by blast
    have "8 * m + j < 32" "(8 * m + j) mod 8 = j" "j < 4" using m i j by simp_all
    moreover have "8 * m + i - 4 = 8 * m + j" "i - 4 = j" "4 \<le> 8 * m + i" "8 * m + i < 32" using j m i by simp_all
    ultimately show ?thesis using i True m
      unfolding byte_bit bit_push_bit_iff bit_drop_bit_eq comp_def bit_and_iff kmask_bits three by (auto simp: ac_simps)
  next
    case False
    show ?thesis
    proof (cases m)
      case (Suc m')
      then have e: "8 * m + i - 4 = 8 * m' + (4 + i)" by simp
      have "(8 * m' + (4 + i)) mod 8 = 4 + i" using False by simp
      then show ?thesis using False unfolding byte_bit bit_push_bit_iff bit_and_iff e kmask_bits by simp
    next
      case 0
      then show ?thesis using False unfolding byte_bit bit_push_bit_iff by simp
    qed
  qed
qed

lemma s8_byte: "s8_at w m = sint (byte w m)"
proof -
  have "(0xFF :: 32 word) = mask 8" by (simp add: mask_eq_exp_minus_1)
  then have "ucast (drop_bit (8 * m) w AND 0xFF) = byte w m"
    by (simp only:) (rule bit_word_eqI, auto simp only: byte_bit bit_ucast_iff bit_and_iff bit_mask_iff bit_drop_bit_eq comp_def, auto)
  then show ?thesis by (simp add: s8_at_def)
qed

lemma sint_small: "uint (w :: 8 word) < 128 \<Longrightarrow> sint w = uint w"
proof -
  assume a: "uint w < 128"
  have "signed_take_bit 7 (uint w) = uint w"
    unfolding signed_take_bit_int_eq_self_iff by (rule conjI, rule order_trans [OF _ uint_ge_0]) (use a in simp_all)
  then show ?thesis by (simp add: sint_uint)
qed

lemma q3_scl_eq:
  assumes "i < 16"
  shows "q3_scl sc i = q3_scale sc i"
proof -
  define m where "m = i mod 4"
  have m: "m < 4" by (simp add: m_def)
  have lo: "byte (a AND 0x0f0f0f0f) m = byte a m AND 0xF" for a
    using byte_masks(1) [OF m] by (simp add: m4)
  have val: "sint ((b AND 0xF) OR push_bit 4 (drop_bit s c AND 3)) = uint (b AND 0xF) + 16 * uint (drop_bit s c AND 3)"
    "sint (drop_bit 4 b OR push_bit 4 (drop_bit s c AND 3)) = uint (drop_bit 4 b) + 16 * uint (drop_bit s c AND 3)" for b c :: "8 word" and s
  proof -
    show "sint ((b AND 0xF) OR push_bit 4 (drop_bit s c AND 3)) = uint (b AND 0xF) + 16 * uint (drop_bit s c AND 3)"
      by (subst sint_small; unfold bit6) (use nib_lt(1) [of b] nib_lt(3) [of "drop_bit s c"] in linarith, rule refl)
    show "sint (drop_bit 4 b OR push_bit 4 (drop_bit s c AND 3)) = uint (drop_bit 4 b) + 16 * uint (drop_bit s c AND 3)"
      by (subst sint_small; unfold bit6) (use nib_lt(2) [of b] nib_lt(3) [of "drop_bit s c"] in linarith, rule refl)
  qed
  have aux: "byte (q3_aux sc 0) m = (sc ! m AND 0xF) OR push_bit 4 (drop_bit 0 (sc ! (8 + m)) AND 3)"
    "byte (q3_aux sc 1) m = (sc ! (4 + m) AND 0xF) OR push_bit 4 (drop_bit 2 (sc ! (8 + m)) AND 3)"
    "byte (q3_aux sc 2) m = drop_bit 4 (sc ! m) OR push_bit 4 (drop_bit 4 (sc ! (8 + m)) AND 3)"
    "byte (q3_aux sc 3) m = drop_bit 4 (sc ! (4 + m)) OR push_bit 4 (drop_bit 6 (sc ! (8 + m)) AND 3)"
  proof -
    have s: "(0::nat) \<le> 6" "(2::nat) \<le> 6" "(4::nat) \<le> 6" "(6::nat) \<le> 6" by simp_all
    note r = q3_aux_def Let_def m4(2) lo [of "rd_u32 sc 0"] lo [of "rd_u32 sc 4"] byte_hi [OF m] byte_two [OF m s(1)] byte_two [OF m s(2)] byte_two [OF m s(3)]
      byte_two [OF m s(4)] byte_rd [OF m] add_0
    have d: "(0::nat) = 2 \<longleftrightarrow> False" "(0::nat) = 3 \<longleftrightarrow> False" "(1::nat) = 2 \<longleftrightarrow> False" "(1::nat) = 3 \<longleftrightarrow> False" "(1::nat) = 0 \<longleftrightarrow> False"
      "(3::nat) = 2 \<longleftrightarrow> False" by simp_all
    show "byte (q3_aux sc 0) m = (sc ! m AND 0xF) OR push_bit 4 (drop_bit 0 (sc ! (8 + m)) AND 3)"
      "byte (q3_aux sc 1) m = (sc ! (4 + m) AND 0xF) OR push_bit 4 (drop_bit 2 (sc ! (8 + m)) AND 3)"
      "byte (q3_aux sc 2) m = drop_bit 4 (sc ! m) OR push_bit 4 (drop_bit 4 (sc ! (8 + m)) AND 3)"
      "byte (q3_aux sc 3) m = drop_bit 4 (sc ! (4 + m)) OR push_bit 4 (drop_bit 6 (sc ! (8 + m)) AND 3)"
      by (simp_all only: r d if_True if_False simp_thms)
  qed
  have "i div 4 = 0 \<or> i div 4 = 1 \<or> i div 4 = 2 \<or> i div 4 = 3" using assms by linarith
  moreover have "i = 4 * (i div 4) + m" by (simp add: m_def)
  ultimately consider "i = m" | "i = 4 + m" | "i = 8 + m" | "i = 12 + m" by linarith
  then show ?thesis
  proof cases
    case 1
    then have "i div 4 = 0" "i div 8 = 0" "i mod 8 = m" using m by simp_all
    then show ?thesis unfolding q3_scl_def s8_byte q3_scale_def by (simp only: aux val nibble_def m_def [symmetric] mult_0_right simp_thms if_True)
  next
    case 2
    then have "i div 4 = 1" "i div 8 = 0" "i mod 8 = 4 + m" using m by presburger+
    then show ?thesis unfolding q3_scl_def s8_byte q3_scale_def by (simp only: aux val nibble_def m_def [symmetric] mult_1_right simp_thms if_True)
  next
    case 3
    then have "i div 4 = 2" "i div 8 = 1" "i mod 8 = m" using m by simp_all
    then show ?thesis unfolding q3_scl_def s8_byte q3_scale_def by (simp only: aux val nibble_def m_def [symmetric]) simp
  next
    case 4
    then have "i div 4 = 3" "i div 8 = 1" "i mod 8 = 4 + m" using m by presburger+
    then show ?thesis unfolding q3_scl_def s8_byte q3_scale_def by (simp only: aux val nibble_def m_def [symmetric]) simp
  qed
qed


section \<open>Every format decodes each element once\<close>

text \<open>The interface of a block format: a block has \<open>bytes\<close> bytes and \<open>qk\<close> elements, and the terms its
  decoder produces are, in some order, the elements with their values.\<close>

locale block_format =
  fixes bytes qk :: nat and decode :: "8 word list \<Rightarrow> (nat \<times> 'f) list" and elem :: "8 word list \<Rightarrow> nat \<Rightarrow> 'f"
  assumes decode_elem: "length blk = bytes \<Longrightarrow> mset (decode blk) = mset (map (\<lambda>k. (k, elem blk k)) [0..<qk])"

lemma nibble_simps [simp]: "nibble b 0 = b AND 0xF" "nibble b 1 = drop_bit 4 b" "nibble b (Suc 0) = drop_bit 4 b"
  by (simp_all add: nibble_def)

lemma par: "(2 * h) mod 2 = (0::nat)" "(2 * h + 1) mod 2 = (1::nat)"
  by simp_all

lemma mset_quads32:
  assumes "\<And>l. l < 32 \<Longrightarrow> f l = [e l, e (32 + l), e (64 + l), e (96 + l)]"
  shows "mset (concat (map f [0..<32])) = mset (map e [0..<128])"
  by (rule mset_quads) (simp_all add: assms)

lemma q8_0_elem: "length blk = 34 \<Longrightarrow> mset (q8_0 F blk) = mset (map (\<lambda>k. (k, elem_q8_0 F blk k)) [0..<32])"
  by (simp add: q8_0_def elem_q8_0_def Let_def)

lemma mset_pairs16:
  assumes "\<And>l. l < 16 \<Longrightarrow> f l = [e l, e (16 + l)]"
  shows "mset (concat (map f [0..<16])) = mset (map e [0..<32])"
  by (rule mset_pairs) (simp_all add: assms)

lemma mset_pairs32:
  assumes "\<And>l. l < 32 \<Longrightarrow> f l = [e l, e (32 + l)]"
  shows "mset (concat (map f [0..<32])) = mset (map e [0..<64])"
  by (rule mset_pairs) (simp_all add: assms)

lemma q4_0_elem: "length blk = 18 \<Longrightarrow> mset (q4_0 F blk) = mset (map (\<lambda>k. (k, elem_q4_0 F blk k)) [0..<32])"
  unfolding q4_0_def Let_def by (rule mset_pairs16) (simp add: elem_q4_0_def idx16)

lemma q4_1_elem: "length blk = 20 \<Longrightarrow> mset (q4_1 F blk) = mset (map (\<lambda>k. (k, elem_q4_1 F blk k)) [0..<32])"
  unfolding q4_1_def Let_def by (rule mset_pairs16) (simp add: elem_q4_1_def idx16)

lemma iq4_nl_elem: "length blk = 18 \<Longrightarrow> mset (iq4_nl F blk) = mset (map (\<lambda>k. (k, elem_iq4_nl F blk k)) [0..<32])"
  unfolding iq4_nl_def Let_def by (rule mset_pairs16) (simp add: elem_iq4_nl_def idx16)

lemma q5_0_elem: "length blk = 22 \<Longrightarrow> mset (q5_legacy False F blk) = mset (map (\<lambda>k. (k, elem_q5_0 F blk k)) [0..<32])"
  unfolding q5_legacy_def Let_def
  by (rule mset_pairs16)
     (simp only: add_0_right fifth_bit nib5 [of _ 0, unfolded nibble_simps] nib5 [of _ 1, unfolded nibble_simps] elem_q5_0_def idx16 nibble_simps
       if_False if_True simp_thms nth_drop, simp add: ac_simps)

lemma q5_1_elem: "length blk = 24 \<Longrightarrow> mset (q5_legacy True F blk) = mset (map (\<lambda>k. (k, elem_q5_1 F blk k)) [0..<32])"
  unfolding q5_legacy_def Let_def
  by (rule mset_pairs16)
     (simp only: add_0_right fifth_bit nib5 [of _ 0, unfolded nibble_simps] nib5 [of _ 1, unfolded nibble_simps] elem_q5_1_def idx16 nibble_simps
       if_False if_True simp_thms nth_drop, simp add: ac_simps)

lemma q6_k_elem: "length blk = 210 \<Longrightarrow> mset (q6_k F blk) = mset (map (\<lambda>k. (k, elem_q6_k F blk k)) [0..<256])"
  unfolding q6_k_def Let_def
  by (rule mset_blocks [where n = 128], simp, rule mset_quads32)
     (simp only: elem_q6_k_def Let_def idx128' bit6, simp add: bit6 ac_simps flip: numeral_2_eq_2)

lemma q4_k_elem: "length blk = 144 \<Longrightarrow> mset (q4_k F blk) = mset (map (\<lambda>k. (k, elem_q4_k F blk k)) [0..<256])"
  unfolding q4_k_def Let_def case_prod_beta
  by (rule mset_blocks [where n = 64], simp, rule mset_pairs32)
     (simp only: elem_q4_k_def Let_def idx64 par nibble_simps case_prod_beta, simp add: ac_simps)

lemma q5_k_elem: "length blk = 176 \<Longrightarrow> mset (q5_k F blk) = mset (map (\<lambda>k. (k, elem_q5_k F blk k)) [0..<256])"
  unfolding q5_k_def Let_def case_prod_beta
  by (rule mset_blocks [where n = 64], simp, rule mset_pairs32)
     (simp only: elem_q5_k_def Let_def idx64 par nibble_simps case_prod_beta bit_and_push, simp add: ac_simps)


lemma mset_nest:
  assumes "N = m * M" "M = n * w"
    and "\<And>i j. i < m \<Longrightarrow> j < n \<Longrightarrow> mset (f i j) = mset (map (\<lambda>l. e (i * M + (j * w + l))) [0..<w])"
  shows "mset (concat (map (\<lambda>i. concat (map (f i) [0..<n])) [0..<m])) = mset (map e [0..<N])"
  by (rule mset_blocks [OF assms(1)], rule mset_blocks [OF assms(2)]) (simp add: assms(3))

lemma q2_k_elem: "length blk = 84 \<Longrightarrow> mset (q2_k F blk) = mset (map (\<lambda>k. (k, elem_q2_k F blk k)) [0..<256])"
  unfolding q2_k_def Let_def
  by (rule mset_nest [where M = 128 and w = 32], simp, simp, rule mset_pairs16)
     (simp only: elem_q2_k_def Let_def idx_sub16, simp add: ac_simps)

lemma q3_k_elem: "length blk = 110 \<Longrightarrow> mset (q3_k F blk) = mset (map (\<lambda>k. (k, elem_q3_k F blk k)) [0..<256])"
  unfolding q3_k_def Let_def
  by (rule mset_nest [where M = 128 and w = 32], simp, simp, rule mset_pairs16)
     (simp only: elem_q3_k_def Let_def idx_sub16 bit_and_push, simp add: q3_scl_eq ac_simps)

lemma iq4_xs_elem: "length blk = 136 \<Longrightarrow> mset (iq4_xs F blk) = mset (map (\<lambda>k. (k, elem_iq4_xs F blk k)) [0..<256])"
  unfolding iq4_xs_def Let_def
  by (rule mset_blocks [where n = 32], simp, rule mset_pairs16)
     (simp only: elem_iq4_xs_def Let_def idx32 iq4xs_scale nibble_simps, simp add: ac_simps)

lemma map_groups:
  assumes "\<And>i l j. i < 8 \<Longrightarrow> l < 4 \<Longrightarrow> j < 8 \<Longrightarrow> f i l j = e (i * 32 + (l * 8 + j))"
  shows "mset (concat (map (\<lambda>i. concat (map (\<lambda>l. map (f i l) [0..<8]) [0..<4])) [0..<8])) = mset (map e [0..<256])"
proof (rule mset_nest [where M = 32 and w = 8])
  fix i l :: nat assume "i < 8" "l < 4"
  then show "mset (map (f i l) [0..<8]) = mset (map (\<lambda>j. e (i * 32 + (l * 8 + j))) [0..<8])"
    by (intro arg_cong [where f = mset] map_cong) (simp_all add: assms)
qed simp_all

lemma iq1_s_elem: "length blk = 50 \<Longrightarrow> mset (iq1_s F blk) = mset (map (\<lambda>k. (k, elem_iq1_s F blk k)) [0..<256])"
  unfolding iq1_s_def Let_def
  by (rule map_groups) (simp only: elem_iq1_s_def Let_def idx8 idx1s bit15, simp add: ac_simps)

lemma iq2_xxs_elem: "length blk = 66 \<Longrightarrow> mset (iq2_xxs F blk) = mset (map (\<lambda>k. (k, elem_iq2_xxs F blk k)) [0..<256])"
  unfolding iq2_xxs_def Let_def
  by (rule map_groups) (simp only: elem_iq2_xxs_def Let_def idx8 sign_of_bit, simp add: ac_simps)

lemma iq2_xs_elem: "length blk = 74 \<Longrightarrow> mset (iq2_xs F blk) = mset (map (\<lambda>k. (k, elem_iq2_xs F blk k)) [0..<256])"
  unfolding iq2_xs_def Let_def
  by (rule map_groups) (simp only: elem_iq2_xs_def Let_def idx8 sign_of_bit, auto simp: nibble_def ac_simps)

lemma mset_pairs4:
  assumes "\<And>l. l < 4 \<Longrightarrow> f l = [e l, e (4 + l)]"
  shows "mset (concat (map f [0..<4])) = mset (map e [0..<8])"
  by (rule mset_pairs) (simp_all add: assms)

lemma idx44:
  assumes "j < 4" "l < 4"
  shows "(i * 32 + (l * 8 + j)) div 32 = i" "(i * 32 + (l * 8 + j)) div 8 mod 4 = l" "(i * 32 + (l * 8 + j)) mod 8 = j"
    "(i * 32 + (l * 8 + (4 + j))) div 32 = i" "(i * 32 + (l * 8 + (4 + j))) div 8 mod 4 = l"
    "(i * 32 + (l * 8 + (4 + j))) mod 8 = 4 + (j::nat)" "j < 8" "4 + j < 8"
  using assms idx8 [of j l i] idx8 [of "4 + j" l i] by simp_all

lemma iq3_xxs_elem: "length blk = 98 \<Longrightarrow> mset (iq3_xxs F blk) = mset (map (\<lambda>k. (k, elem_iq3_xxs F blk k)) [0..<256])"
  unfolding iq3_xxs_def Let_def
  by (rule mset_nest [where M = 32 and w = 8], simp, simp, rule mset_pairs4)
     (simp only: elem_iq3_xxs_def Let_def idx44 idx4 sign_of_bit, simp add: idx44 sign_of_bit ac_simps)


section \<open>The launch\<close>

definition row_block :: "nat \<Rightarrow> 'b list \<Rightarrow> nat \<Rightarrow> nat \<Rightarrow> 'b list" where
  "row_block bytes w row_off b = take bytes (drop (row_off + b * bytes) w)"

definition lane_val :: "nat \<Rightarrow> nat \<Rightarrow> ('b list \<Rightarrow> 'f terms) \<Rightarrow> ('t \<Rightarrow> 'f) \<Rightarrow> 'b list \<Rightarrow> 't list \<Rightarrow> nat \<Rightarrow> nat \<Rightarrow> nat \<Rightarrow>
    'f::{plus,times,zero}" where
  "lane_val bytes qk decode ld w x row_off blocks lane =
     fold (\<lambda>b acc. fold (\<lambda>(off, wt) acc. acc + wt * ld (x ! (b * qk + off))) (decode (row_block bytes w row_off b)) acc)
       (strided lane kSG blocks) 0"

lemma lane_acc_val:
  assumes dec: "\<And>blk t. length blk = bytes \<Longrightarrow> t \<in> set (decode blk) \<Longrightarrow> fst t < qk"
    and "row_off + blocks * bytes \<le> length w" "blocks * qk \<le> length x"
  shows "lane_acc bytes qk decode ld w x row_off blocks lane = Some (lane_val bytes qk decode ld w x row_off blocks lane)"
proof -
  have "(block_at w (row_off + b * bytes) bytes \<bind> (\<lambda>blk. foldM (\<lambda>(off, wt) acc. do {
       xv \<leftarrow> rd x (b * qk + off);
       Some (acc + wt * ld xv) }) (decode blk) acc)) =
     Some (fold (\<lambda>(off, wt) acc. acc + wt * ld (x ! (b * qk + off))) (decode (row_block bytes w row_off b)) acc)"
    if "b \<in> set (strided lane kSG blocks)" for b acc
  proof -
    have b: "b < blocks" using strided_ge [OF that] by simp
    then have "b * bytes + bytes \<le> blocks * bytes" using mult_le_mono1 [of "Suc b" blocks bytes] by simp
    then have le: "row_off + b * bytes + bytes \<le> length w" using assms(2) by simp
    then have len: "length (row_block bytes w row_off b) = bytes" by (simp add: row_block_def)
    have "fst t < qk" if "t \<in> set (decode (row_block bytes w row_off b))" for t using dec len that by blast
    then have "b * qk + off < length x" if "(off, wt) \<in> set (decode (row_block bytes w row_off b))" for off wt
      using that div_mult_add_lt [OF b, of off qk] assms(3) by fastforce
    then show ?thesis using le
      by (simp add: block_at_def row_block_def [symmetric]) (rule foldM_pure', auto)
  qed
  then show ?thesis unfolding lane_acc_def lane_val_def by (rule foldM_pure')
qed

lemma gemv_launch_ge: "N \<le> gemv_launch N"
  unfolding gemv_launch_def kRowsPerWG_def by (rule cdiv_upper) simp

lemma gguf_gemv_val:
  assumes sched: "schedule (gemv_launch N) sched"
    and dec: "\<And>blk t. length blk = bytes \<Longrightarrow> t \<in> set (decode blk) \<Longrightarrow> fst t < qk"
    and "N * (K div qk * bytes) \<le> length w" "K div qk * qk \<le> length x" "length y = N"
  shows "gguf_gemv bytes qk decode ld st red w x N K sched y =
    Some (map (\<lambda>n. st (red (map (lane_val bytes qk decode ld w x (n * (K div qk * bytes)) (K div qk)) [0..<kSG]))) [0..<N])"
proof -
  let ?v = "\<lambda>n. st (red (map (lane_val bytes qk decode ld w x (n * (K div qk * bytes)) (K div qk)) [0..<kSG]))"
  have item: "\<exists>m'. gemv_item bytes qk decode ld st red w x N K i m = Some m' \<and> writes (if i < N then {i} else {}) ?v m m'"
    if "length m = length y" for i m
  proof (cases "i < N")
    case True
    have "i * (K div qk * bytes) + K div qk * bytes \<le> N * (K div qk * bytes)"
      using True mult_le_mono1 [of "Suc i" N "K div qk * bytes"] by simp
    then have "those (map (lane_acc bytes qk decode ld w x (i * (K div qk * bytes)) (K div qk)) [0..<kSG]) =
        Some (map (lane_val bytes qk decode ld w x (i * (K div qk * bytes)) (K div qk)) [0..<kSG])"
      using assms(3,4) by (intro those_map_Some lane_acc_val dec) auto
    then show ?thesis using True that assms(5) writes_single [of i m ?v] by (simp add: gemv_item_def)
  qed (simp add: gemv_item_def)
  have "\<exists>b'. gguf_gemv bytes qk decode ld st red w x N K sched y = Some b' \<and> writes (\<Union>i<gemv_launch N. if i < N then {i} else {}) ?v y b'"
    unfolding gguf_gemv_def by (rule launch_writes [OF sched]) (rule item)
  moreover have "(\<Union>i<gemv_launch N. if i < N then {i} else {}) = {..<N}" using gemv_launch_ge [of N] by auto
  ultimately have "\<exists>b'. gguf_gemv bytes qk decode ld st red w x N K sched y = Some b' \<and> writes {..<N} ?v y b'" by (simp only:)
  then show ?thesis using writes_map_upt [OF _ assms(5)] by blast
qed

text \<open>In exact arithmetic the lanes' sums add up to the sum over all blocks.\<close>

lemma fold_terms_sum:
  fixes acc :: "'f::comm_semiring_0"
  shows "fold (\<lambda>(off, wt) acc. acc + wt * g off) ts acc = acc + (\<Sum>t\<leftarrow>ts. snd t * g (fst t))"
  by (induction ts arbitrary: acc) (auto simp: ac_simps)

lemma sum_grid: "(\<Sum>b<m. \<Sum>k<n. f b k) = (\<Sum>i<m * n. f (i div n) (i mod (n::nat)))" for f :: "nat \<Rightarrow> nat \<Rightarrow> 'a::comm_monoid_add"
proof (induction m)
  case (Suc m)
  have "{..<Suc m * n} = {..<m * n} \<union> {m * n..<m * n + n}" by auto
  then have "(\<Sum>i<Suc m * n. f (i div n) (i mod n)) = (\<Sum>i<m * n. f (i div n) (i mod n)) + (\<Sum>i=m * n..<m * n + n. f (i div n) (i mod n))"
    using sum.union_disjoint [of "{..<m * n}" "{m * n..<m * n + n}" "\<lambda>i. f (i div n) (i mod n)"]
    by (simp only: finite_lessThan finite_atLeastLessThan) (simp add: ivl_disj_int)
  also have "(\<Sum>i=m * n..<m * n + n. f (i div n) (i mod n)) = (\<Sum>k<n. f m k)"
    using sum.shift_bounds_nat_ivl [of "\<lambda>i. f (i div n) (i mod n)" 0 "m * n" n]
    by (simp add: atLeast0LessThan add.commute)
  finally show ?case using Suc by simp
qed simp

lemma sum_list_image_mset: "sum_mset (image_mset h (mset xs)) = (\<Sum>x\<leftarrow>xs. h x)"
  by (induction xs) auto

lemma lanes_sum:
  fixes ld :: "'t \<Rightarrow> 'f::comm_semiring_0"
  assumes "\<And>b. b < blocks \<Longrightarrow> mset (decode (row_block bytes w row_off b)) = mset (map (\<lambda>k. (k, elem (row_block bytes w row_off b) k)) [0..<qk])"
  shows "(\<Sum>lane\<leftarrow>[0..<kSG]. lane_val bytes qk decode ld w x row_off blocks lane) =
    (\<Sum>k<blocks * qk. elem (row_block bytes w row_off (k div qk)) (k mod qk) * ld (x ! k))"
proof -
  let ?B = "\<lambda>b. (\<Sum>t\<leftarrow>decode (row_block bytes w row_off b). snd t * ld (x ! (b * qk + fst t)))"
  have lane: "lane_val bytes qk decode ld w x row_off blocks lane = (\<Sum>b\<leftarrow>strided lane kSG blocks. ?B b)" for lane
    unfolding lane_val_def by (subst fold_add_sum [where g = ?B]) (simp_all add: fold_terms_sum)
  have "(\<Sum>lane\<leftarrow>[0..<kSG]. lane_val bytes qk decode ld w x row_off blocks lane) = (\<Sum>b<blocks. ?B b)"
    unfolding lane by (rule sum_strided_lanes) (simp add: kSG_def)
  also have "\<dots> = (\<Sum>b<blocks. \<Sum>k<qk. elem (row_block bytes w row_off b) k * ld (x ! (b * qk + k)))"
  proof (rule sum.cong [OF refl])
    fix b assume "b \<in> {..<blocks}"
    then have e: "mset (decode (row_block bytes w row_off b)) = mset (map (\<lambda>k. (k, elem (row_block bytes w row_off b) k)) [0..<qk])"
      using assms by simp
    have "?B b = (\<Sum>t\<leftarrow>map (\<lambda>k. (k, elem (row_block bytes w row_off b) k)) [0..<qk]. snd t * ld (x ! (b * qk + fst t)))"
      unfolding sum_list_image_mset [symmetric] e ..
    also have "\<dots> = (\<Sum>k\<leftarrow>[0..<qk]. elem (row_block bytes w row_off b) k * ld (x ! (b * qk + k)))"
      by (simp add: comp_def)
    finally show "?B b = (\<Sum>k<qk. elem (row_block bytes w row_off b) k * ld (x ! (b * qk + k)))"
      by (simp add: interv_sum_list_conv_sum_set_nat atLeast0LessThan)
  qed
  also have "\<dots> = (\<Sum>k<blocks * qk. elem (row_block bytes w row_off (k div qk)) (k mod qk) * ld (x ! k))"
    by (subst sum_grid) simp
  finally show ?thesis .
qed

section \<open>The formats as one interface\<close>

text \<open>Bytes and elements per block, decoder and element value of a type code; an unknown code is read
  as \<open>q4_0\<close>, as in the code.\<close>

definition gguf_shape :: "int \<Rightarrow> nat \<times> nat" where
  "gguf_shape type = (if type = 0 then (34, 32) else if type = 2 then (210, 256) else if type = 3 then (144, 256)
     else if type = 4 then (176, 256) else if type = 5 then (84, 256) else if type = 6 then (110, 256)
     else if type = 7 then (18, 32) else if type = 8 then (20, 32) else if type = 9 then (22, 32)
     else if type = 10 then (24, 32) else if type = 11 then (136, 256) else if type = 12 then (66, 256)
     else if type = 13 then (74, 256) else if type = 14 then (98, 256) else if type = 15 then (50, 256) else (18, 32))"

definition gguf_decode :: "'f::{plus,minus,times,uminus,zero,one} flt \<Rightarrow> int \<Rightarrow> 8 word list \<Rightarrow> 'f terms" where
  "gguf_decode F type = (if type = 0 then q8_0 F else if type = 2 then q6_k F else if type = 3 then q4_k F
     else if type = 4 then q5_k F else if type = 5 then q2_k F else if type = 6 then q3_k F
     else if type = 7 then iq4_nl F else if type = 8 then q4_1 F else if type = 9 then q5_legacy False F
     else if type = 10 then q5_legacy True F else if type = 11 then iq4_xs F else if type = 12 then iq2_xxs F
     else if type = 13 then iq2_xs F else if type = 14 then iq3_xxs F else if type = 15 then iq1_s F else q4_0 F)"

definition gguf_elem :: "'f::{plus,minus,times,uminus,zero,one} flt \<Rightarrow> int \<Rightarrow> 8 word list \<Rightarrow> nat \<Rightarrow> 'f" where
  "gguf_elem F type = (if type = 0 then elem_q8_0 F else if type = 2 then elem_q6_k F else if type = 3 then elem_q4_k F
     else if type = 4 then elem_q5_k F else if type = 5 then elem_q2_k F else if type = 6 then elem_q3_k F
     else if type = 7 then elem_iq4_nl F else if type = 8 then elem_q4_1 F else if type = 9 then elem_q5_0 F
     else if type = 10 then elem_q5_1 F else if type = 11 then elem_iq4_xs F else if type = 12 then elem_iq2_xxs F
     else if type = 13 then elem_iq2_xs F else if type = 14 then elem_iq3_xxs F else if type = 15 then elem_iq1_s F else elem_q4_0 F)"

context block_format
begin

lemma decode_less:
  assumes "length blk = bytes" "t \<in> set (decode blk)"
  shows "fst t < qk"
proof -
  have "set (decode blk) = set (map (\<lambda>k. (k, elem blk k)) [0..<qk])"
    using decode_elem [OF assms(1)] by (metis set_mset_mset)
  then show ?thesis using assms(2) by auto
qed

lemma decode_value: "length blk = bytes \<Longrightarrow> k < qk \<Longrightarrow> (k, elem blk k) \<in> set (decode blk)"
  using decode_elem [of blk] by (metis (no_types, lifting) atLeastLessThan_upt atLeast0LessThan image_eqI lessThan_iff list.set_map set_mset_mset)

end

interpretation gguf: block_format "fst (gguf_shape type)" "snd (gguf_shape type)" "gguf_decode F type" "gguf_elem F type"
  for F :: "'f::{plus,minus,times,uminus,zero,one} flt" and type
  by unfold_locales
     (simp add: gguf_shape_def gguf_decode_def gguf_elem_def q8_0_elem q6_k_elem q4_k_elem q5_k_elem q2_k_elem q3_k_elem iq4_nl_elem
       q4_1_elem q5_0_elem q5_1_elem iq4_xs_elem iq2_xxs_elem iq2_xs_elem iq3_xxs_elem iq1_s_elem q4_0_elem split: if_splits)

lemma dispatch_gguf:
  "dispatch_type F ld st red w x N K type sched y =
     gguf_gemv (fst (gguf_shape type)) (snd (gguf_shape type)) (gguf_decode F type) ld st red w x N K sched y"
  unfolding dispatch_type_def gguf_kernels gguf_shape_def gguf_decode_def by simp

text \<open>The buffers of a product of an \<open>N\<close> by \<open>K\<close> matrix cover the launch.\<close>

definition gemv_sizes :: "int \<Rightarrow> nat \<Rightarrow> nat \<Rightarrow> 8 word list \<Rightarrow> 't list \<Rightarrow> 't list \<Rightarrow> bool" where
  "gemv_sizes type N K w x y \<longleftrightarrow> (let (bytes, qk) = gguf_shape type in
     N * (K div qk * bytes) \<le> length w \<and> K div qk * qk \<le> length x \<and> length y = N)"

definition gguf_weight :: "'f::{plus,minus,times,uminus,zero,one} flt \<Rightarrow> int \<Rightarrow> 8 word list \<Rightarrow> nat \<Rightarrow> nat \<Rightarrow> nat \<Rightarrow> 'f" where
  "gguf_weight F type w K n k = (let (bytes, qk) = gguf_shape type in
     gguf_elem F type (row_block bytes w (n * (K div qk * bytes)) (k div qk)) (k mod qk))"

lemma gguf_run:
  assumes "schedule (gemv_launch N) sched" "gemv_sizes type N K w x y"
  shows "dispatch_type F ld st red w x N K type sched y =
    Some (map (\<lambda>n. st (red (map (lane_val (fst (gguf_shape type)) (snd (gguf_shape type)) (gguf_decode F type) ld w x
      (n * (K div snd (gguf_shape type) * fst (gguf_shape type))) (K div snd (gguf_shape type))) [0..<kSG]))) [0..<N])"
  unfolding dispatch_gguf
  by (rule gguf_gemv_val [OF assms(1) gguf.decode_less]) (use assms(2) in \<open>auto simp: gemv_sizes_def case_prod_beta Let_def\<close>)

text \<open>C12: in exact arithmetic, with a group reduction that adds the 32 lanes, the product over every
  format equals the plain sum of dequantized weight times activation; the tail of a row beyond the last
  whole block is ignored, and so is the order in which the device runs the rows.\<close>

theorem gguf_gemv_exact:
  fixes F :: "'f::comm_ring_1 flt"
  assumes "schedule (gemv_launch N) sched" "gemv_sizes type N K w x y"
    and "\<And>vs. length vs = 32 \<Longrightarrow> red vs = sum_list vs"
  shows "dispatch_type F ld st red w x N K type sched y =
    Some (map (\<lambda>n. st (\<Sum>k<K div snd (gguf_shape type) * snd (gguf_shape type). gguf_weight F type w K n k * ld (x ! k))) [0..<N])"
proof -
  let ?b = "fst (gguf_shape type)" and ?q = "snd (gguf_shape type)"
  have "red (map (lane_val ?b ?q (gguf_decode F type) ld w x (n * (K div ?q * ?b)) (K div ?q)) [0..<kSG]) =
      (\<Sum>k<K div ?q * ?q. gguf_weight F type w K n k * ld (x ! k))" if n: "n < N" for n
  proof -
    have "length (row_block ?b w (n * (K div ?q * ?b)) b) = ?b" if b: "b < K div ?q" for b
    proof -
      have "b * ?b + ?b \<le> K div ?q * ?b" using b mult_le_mono1 [of "Suc b" "K div ?q" ?b] by simp
      moreover have "n * (K div ?q * ?b) + K div ?q * ?b \<le> N * (K div ?q * ?b)"
        using n mult_le_mono1 [of "Suc n" N "K div ?q * ?b"] by simp
      moreover have "N * (K div ?q * ?b) \<le> length w" using assms(2) by (simp add: gemv_sizes_def case_prod_beta Let_def)
      ultimately have "n * (K div ?q * ?b) + b * ?b + ?b \<le> length w" by linarith
      then show ?thesis by (simp add: row_block_def)
    qed
    then have "(\<Sum>lane\<leftarrow>[0..<kSG]. lane_val ?b ?q (gguf_decode F type) ld w x (n * (K div ?q * ?b)) (K div ?q) lane) =
        (\<Sum>k<K div ?q * ?q. gguf_elem F type (row_block ?b w (n * (K div ?q * ?b)) (k div ?q)) (k mod ?q) * ld (x ! k))"
      by (intro lanes_sum gguf.decode_elem)
    then show ?thesis using assms(3) by (simp add: kSG_def gguf_weight_def case_prod_beta Let_def)
  qed
  then show ?thesis unfolding gguf_run [OF assms(1,2)] by simp
qed

theorem gguf_gemv_exact_witness:
  "dispatch_type \<lparr>of_i = of_int, of_half = (\<lambda>_. 1), c0_5 = 1 / 2, c0_25 = 1 / 4, c0_125 = 1 / 8\<rparr> id id sum_list
     (replicate 18 0x99) (replicate 32 3) 1 32 1 [0..<8] [0 :: rat] = Some [96]"
proof -
  let ?F = "\<lparr>of_i = of_int, of_half = (\<lambda>_. 1), c0_5 = 1 / 2, c0_25 = 1 / 4, c0_125 = 1 / 8\<rparr> :: rat flt"
  have s: "schedule (gemv_launch 1) [0..<8]" by (simp add: gemv_launch_def cdiv_def kRowsPerWG_def)
  have z: "gemv_sizes 1 1 32 (replicate 18 0x99) (replicate 32 3) [0 :: rat]" by (simp add: gemv_sizes_def gguf_shape_def)
  have w: "gguf_weight ?F 1 (replicate 18 0x99) 32 0 k = 1" if "k < 32" for k
  proof -
    have "k mod 16 < 16" by simp
    then have "replicate 18 (0x99 :: 8 word) ! (2 + k mod 16) = 0x99" by (intro nth_replicate) linarith
    moreover have "k div 16 = 0 \<or> k div 16 = 1" using that by linarith
    ultimately show ?thesis using that
      by (auto simp: gguf_weight_def gguf_shape_def gguf_elem_def elem_q4_0_def row_block_def load_half_def)
  qed
  show ?thesis
    using gguf_gemv_exact [OF s z, of sum_list ?F id id] by (simp add: gguf_shape_def w)
qed

text \<open>On floats, for every format, element type, reduction and order of the subgroups, no access
  leaves its buffer, and row \<open>n\<close> of the result is, bit for bit, the reduction of the 32 lanes' sums, each
  taken over the lane's blocks in ascending order and over a block's terms in the order of the loops.\<close>

theorem gguf_gemv_float:
  assumes "schedule (gemv_launch N) sched" "gemv_sizes type N K w x y"
  shows "gguf_gemv_sycl red w x N K type dt sched y =
    Some (map (\<lambda>n. elem_st dt (red (map (\<lambda>lane.
        fold (\<lambda>b acc. fold (\<lambda>(off, wt) acc. acc + wt * elem_ld dt (x ! (b * snd (gguf_shape type) + off)))
            (gguf_decode f32_flt type (row_block (fst (gguf_shape type)) w
               (n * (K div snd (gguf_shape type) * fst (gguf_shape type))) b)) acc)
          (strided lane 32 (K div snd (gguf_shape type))) 0) [0..<32]))) [0..<N])"
proof -
  have l: "lane_val bytes qk dec ld w x off blocks = (\<lambda>lane. fold (\<lambda>b acc. fold (\<lambda>(off, wt) acc. acc + wt * ld (x ! (b * qk + off)))
      (dec (row_block bytes w off b)) acc) (strided lane 32 blocks) 0)"
    for bytes qk dec off blocks and ld :: "32 word \<Rightarrow> f32" by (rule ext) (simp add: lane_val_def kSG_def)
  have "gguf_gemv_sycl red w x N K type dt sched y = dispatch_type f32_flt (elem_ld dt) (elem_st dt) red w x N K type sched y"
    by (cases dt) (simp_all add: gguf_gemv_sycl_def)
  then show ?thesis using gguf_run [OF assms, where F = f32_flt and ld = "elem_ld dt" and st = "elem_st dt" and red = red]
    by (simp only: l kSG_def)
qed

text \<open>whatever the block bytes are, every codebook index the decoders form lies inside its table.\<close>

theorem gguf_tables_in_range:
  "unat (nibble b s) < length kIQ4NL \<and>
   unat (q :: 8 word) + 256 * unat (drop_bit l qh AND 7 :: 16 word) < length iq1s_grid \<and>
   unat q < length iq2xxs_grid \<and> unat (q2 AND 511 :: 16 word) < length iq2xs_grid \<and> unat q < length iq3xxs_grid \<and>
   unat (drop_bit l a AND 127 :: 32 word) < length ksigns_iq2xs \<and> unat (drop_bit 9 q2) < length ksigns_iq2xs"
proof -
  have u: "unat v < k" if "uint v < int k" for v :: "'a::len word" and k
    unfolding unat_eq_nat_uint using that nat_less_iff [OF uint_ge_0, of v k] by blast
  have e: "(7 :: 16 word) = mask 3" "(511 :: 16 word) = mask 9" "(127 :: 32 word) = mask 7" by (simp_all add: mask_eq_exp_minus_1)
  have "unat (nibble b s) < 16" using nib_lt [of b] by (intro u) (simp add: nibble_def)
  moreover have "unat (drop_bit l qh AND 7 :: 16 word) < 8" unfolding e using uint_mask [of "drop_bit l qh" 3] by (intro u) simp
  moreover have "unat (q2 AND 511 :: 16 word) < 512" unfolding e using uint_mask [of q2 9] by (intro u) simp
  moreover have "unat (drop_bit l a AND 127 :: 32 word) < 128" unfolding e using uint_mask [of "drop_bit l a" 7] by (intro u) simp
  moreover have "unat (drop_bit 9 q2 :: 16 word) < 128" unfolding unat_eq_nat_uint uint_drop using uint_lt2p [of q2] by simp
  moreover have "unat q < 256" using uint_lt2p [of q] by (intro u) simp
  ultimately show ?thesis by (simp add: kIQ4NL_def)
qed

section \<open>Packed scales and signs\<close>


text \<open>The packing of eight 6-bit scales and minima into twelve bytes (ggml's layout).\<close>

definition k4_pack :: "(nat \<Rightarrow> 8 word) \<Rightarrow> (nat \<Rightarrow> 8 word) \<Rightarrow> 8 word list" where
  "k4_pack sc m = map (\<lambda>j. (sc j AND 63) OR push_bit 6 (drop_bit 4 (sc (j + 4)) AND 3)) [0, 1, 2, 3]
     @ map (\<lambda>j. (m j AND 63) OR push_bit 6 (drop_bit 4 (m (j + 4)) AND 3)) [0, 1, 2, 3]
     @ map (\<lambda>j. (sc (j + 4) AND 0xF) OR push_bit 4 (m (j + 4) AND 0xF)) [0, 1, 2, 3]"

lemma k4_bits:
  fixes a b :: "8 word"
  shows "((a AND 63) OR push_bit 6 (b AND 3)) AND 63 = a AND 63"
    "drop_bit 6 ((a AND 63) OR push_bit 6 (b AND 3)) = b AND 3"
    "((a AND 0xF) OR push_bit 4 (b AND 0xF)) AND 0xF = a AND 0xF"
    "drop_bit 4 ((a AND 0xF) OR push_bit 4 (b AND 0xF)) = b AND 0xF"
    "(a AND 0xF) OR push_bit 4 (drop_bit 4 a AND 3) = a AND 63"
    "drop_bit 6 (push_bit 6 (b AND 3)) = b AND 3" "drop_bit 4 (push_bit 4 (b AND 0xF)) = b AND 0xF"
proof -
  have e: "(63 :: 8 word) = mask 6" "(3 :: 8 word) = mask 2" "(0xF :: 8 word) = mask 4" by (simp_all add: mask_eq_exp_minus_1)
  note b = bit_and_iff bit_or_iff bit_push_bit_iff bit_drop_bit_eq comp_def bit_mask_iff
  show "((a AND 63) OR push_bit 6 (b AND 3)) AND 63 = a AND 63" unfolding e by (rule bit_word_eqI) (auto simp only: b)
  show "drop_bit 6 ((a AND 63) OR push_bit 6 (b AND 3)) = b AND 3" unfolding e by (rule bit_word_eqI) (auto simp only: b, auto)
  show "((a AND 0xF) OR push_bit 4 (b AND 0xF)) AND 0xF = a AND 0xF" unfolding e by (rule bit_word_eqI) (auto simp only: b)
  show "drop_bit 4 ((a AND 0xF) OR push_bit 4 (b AND 0xF)) = b AND 0xF" unfolding e by (rule bit_word_eqI) (auto simp only: b, auto)
  show "(a AND 0xF) OR push_bit 4 (drop_bit 4 a AND 3) = a AND 63" unfolding e by (rule bit_word_eqI) (auto simp only: b, auto)
  show "drop_bit 6 (push_bit 6 (b AND 3)) = b AND 3" "drop_bit 4 (push_bit 4 (b AND 0xF)) = b AND 0xF"
    unfolding e by (rule bit_word_eqI; auto simp only: b; auto)+
qed

text \<open>every choice of eight 6-bit scales and minima has a packing, and scale_min_k4 reads each of
  them back from it.\<close>

theorem scale_min_k4_roundtrip:
  "\<forall>j\<in>{0, 1, 2, 3, 4, 5, 6, 7}. scale_min_k4 j (k4_pack sc m) = (uint (sc j AND 63), uint (m j AND 63))"
  by (simp add: scale_min_k4_def k4_pack_def k4_bits del: push_bit_and)

text \<open>The sign bytes of the i-quants: entry \<open>i\<close> holds the seven sign bits of \<open>i\<close>, and its top bit
  makes the number of negative signs even.\<close>

theorem ksigns_parity:
  "list_all (\<lambda>(i, s). s AND 0x7f = word_of_nat i \<and> even (length (filter (bit s) [0..<8]))) (enumerate 0 ksigns_iq2xs)"
  by (simp add: ksigns_iq2xs_def upt_rec)

end
