(* ===== verification/Serving.thy ===== *)
theory Serving
  imports Turboquant Elem
begin

text \<open>
  Serving kernels: indexed row copies (embedding lookup, contiguous KV cache) from
  \<open>serving.sycl.cpp\<close> and the paged KV cache write and read from \<open>kv_cache_paged.sycl.cpp\<close>.
  Cells are copied as raw bits, so the contiguous copies are polymorphic in the cell.  A work-item is
  named by its linear index in the launch.
\<close>

section \<open>Indexed row copies\<close>

definition indexed_copy_item :: "bool \<Rightarrow> 'w list \<Rightarrow> int list \<Rightarrow> nat \<Rightarrow> nat \<Rightarrow> 'w list \<Rightarrow> 'w list option" where
  "indexed_copy_item index_src src index row gid dst = do {
     let i = gid div row;
     let j = gid mod row;
     idx \<leftarrow> rd index i;
     if idx < 0 then Some dst
     else if index_src then do { v \<leftarrow> rd src (nat idx * row + j); wr dst (i * row + j) v }
     else do { v \<leftarrow> rd src (i * row + j); wr dst (nat idx * row + j) v } }"

definition indexed_copy :: "bool \<Rightarrow> 'w list \<Rightarrow> int list \<Rightarrow> nat \<Rightarrow> nat list \<Rightarrow> 'w list \<Rightarrow> 'w list option" where
  "indexed_copy index_src src index row sched dst = foldM (indexed_copy_item index_src src index row) sched dst"

text \<open>\<open>by_width\<close> chooses the cell width; the copy is the same at both.\<close>

definition by_width :: "bool \<Rightarrow> 'w list \<Rightarrow> int list \<Rightarrow> nat \<Rightarrow> DType \<Rightarrow> nat list \<Rightarrow> 'w list \<Rightarrow> 'w list option" where
  "by_width index_src src index row dt sched dst =
     (if dtype_size dt = 4 then indexed_copy index_src src index row sched dst
      else indexed_copy index_src src index row sched dst)"

definition embedding_lookup :: "'w list \<Rightarrow> int list \<Rightarrow> nat \<Rightarrow> DType \<Rightarrow> nat list \<Rightarrow> 'w list \<Rightarrow> 'w list option" where
  "embedding_lookup tbl ids width dt sched out = by_width True tbl ids width dt sched out"

definition kv_cache_scatter :: "'w list \<Rightarrow> int list \<Rightarrow> nat \<Rightarrow> DType \<Rightarrow> nat list \<Rightarrow> 'w list \<Rightarrow> 'w list option" where
  "kv_cache_scatter src slots row dt sched cache = by_width False src slots row dt sched cache"

definition kv_cache_gather :: "'w list \<Rightarrow> int list \<Rightarrow> nat \<Rightarrow> DType \<Rightarrow> nat list \<Rightarrow> 'w list \<Rightarrow> 'w list option" where
  "kv_cache_gather cache index row dt sched out = by_width True cache index row dt sched out"

lemma by_width_eq: "by_width s src index row dt sched dst = foldM (indexed_copy_item s src index row) sched dst"
  by (simp add: by_width_def indexed_copy_def)

lemma gather_launch:
  assumes sched: "schedule (length index * row) sched" and out: "length dst = length index * row"
    and rows: "\<forall>i<length index. index ! i < int n" "n * row \<le> length src"
  shows "foldM (indexed_copy_item True src index row) sched dst =
    Some (map (\<lambda>a. if index ! (a div row) < 0 then dst ! a else src ! (nat (index ! (a div row)) * row + a mod row)) [0..<length index * row])"
proof -
  let ?v = "\<lambda>a. src ! (nat (index ! (a div row)) * row + a mod row)"
  let ?c = "\<lambda>a. if index ! (a div row) < 0 then {} else {a}"
  have "\<exists>b'. foldM (indexed_copy_item True src index row) sched dst = Some b' \<and> writes (\<Union>a<length index * row. ?c a) ?v dst b'"
  proof (rule launch_writes [OF sched])
    fix a and m :: "'a list" assume a: "a < length index * row" and m: "length m = length dst"
    note t = tq_idx [OF a]
    show "\<exists>m'. indexed_copy_item True src index row a m = Some m' \<and> writes (?c a) ?v m m'"
    proof (cases "index ! (a div row) < 0")
      case False
      then have "nat (index ! (a div row)) < n" using rows(1) t by auto
      then have "nat (index ! (a div row)) * row + a mod row < length src"
        using t rows(2) div_mult_add_lt [of "nat (index ! (a div row))" n "a mod row" row] by linarith
      then show ?thesis using False t m out a writes_single [of a m ?v] by (simp add: indexed_copy_item_def Let_def)
    qed (use t in \<open>simp add: indexed_copy_item_def Let_def\<close>)
  qed
  then obtain b' where b': "foldM (indexed_copy_item True src index row) sched dst = Some b'"
    "writes (\<Union>a<length index * row. ?c a) ?v dst b'" by blast
  have "b' = map (\<lambda>a. if index ! (a div row) < 0 then dst ! a else ?v a) [0..<length index * row]"
    using b'(2) out unfolding writes_def by (intro nth_equalityI) auto
  then show ?thesis using b'(1) by simp
qed

text \<open>A scatter to distinct slots: cell \<open>j\<close> of row \<open>slots ! i\<close> holds cell \<open>j\<close> of source row \<open>i\<close>, the rest is kept.\<close>

definition slot_cells :: "int list \<Rightarrow> nat \<Rightarrow> nat \<Rightarrow> nat set" where
  "slot_cells slots row a = (if slots ! (a div row) < 0 then {} else {nat (slots ! (a div row)) * row + a mod row})"

lemma slot_cells_own:
  assumes "slots_ok slots S"
  shows "owns (length slots * row) (slot_cells slots row)"
proof -
  have "slot_cells slots row a \<inter> slot_cells slots row b = {}"
    if ab: "a < length slots * row" "b < length slots * row" "a \<noteq> b" for a b
  proof (cases "slots ! (a div row) < 0 \<or> slots ! (b div row) < 0")
    case False
    note ta = tq_idx [OF ab(1)] and tb = tq_idx [OF ab(2)]
    have "nat (slots ! (a div row)) \<noteq> nat (slots ! (b div row)) \<or> a mod row \<noteq> b mod row"
    proof (cases "a div row = b div row")
      case True
      then show ?thesis using ab(3) ta tb by metis
    next
      case ne: False
      then have "slots ! (a div row) \<noteq> slots ! (b div row)"
        using assms False ta tb unfolding slots_ok_def by (metis linorder_not_less)
      then show ?thesis using False by (simp add: nat_eq_iff)
    qed
    then show ?thesis using False ta tb by (auto simp: slot_cells_def row_col_inj)
  qed (auto simp: slot_cells_def)
  then show ?thesis unfolding owns_def by blast
qed

lemma scatter_copy_launch:
  assumes sched: "schedule (length slots * row) sched" and ok: "slots_ok slots S" and cache: "S * row \<le> length cache"
    and src: "length src = length slots * row"
  shows "\<exists>cache'. foldM (indexed_copy_item False src slots row) sched cache = Some cache' \<and>
    rows_done (slot_cells slots row) (\<lambda>a _. src ! a) cache {..<length slots * row} cache'"
proof -
  let ?c = "slot_cells slots row"
  have "\<exists>m. foldM (indexed_copy_item False src slots row) sched cache = Some m \<and>
    (rows_done ?c (\<lambda>a _. src ! a) cache {..<length slots * row} m \<and> {..<length slots * row} \<subseteq> {..<length slots * row})"
  proof (rule foldM_schedule [OF sched, where P = "\<lambda>D m. rows_done ?c (\<lambda>a _. src ! a) cache D m \<and> D \<subseteq> {..<length slots * row}"])
    fix D a m assume a: "a < length slots * row" "a \<notin> D"
      and P: "rows_done ?c (\<lambda>a _. src ! a) cache D m \<and> D \<subseteq> {..<length slots * row}"
    note t = tq_idx [OF a(1)]
    have len: "length m = length cache" using P by (auto dest: rows_done_length)
    have "\<exists>m'. indexed_copy_item False src slots row a m = Some m' \<and> writes (?c a) (\<lambda>_. src ! a) m m'"
    proof (cases "slots ! (a div row) < 0")
      case False
      then have "nat (slots ! (a div row)) < S" using ok t by (auto simp: slots_ok_def)
      then have "nat (slots ! (a div row)) * row + a mod row < length m"
        using t cache len div_mult_add_lt [of "nat (slots ! (a div row))" S "a mod row" row] by linarith
      then show ?thesis using False t a src writes_single [of "nat (slots ! (a div row)) * row + a mod row" m "\<lambda>_. src ! a"]
        by (simp add: indexed_copy_item_def Let_def slot_cells_def)
    qed (use t in \<open>simp add: indexed_copy_item_def Let_def slot_cells_def\<close>)
    then obtain m' where m': "indexed_copy_item False src slots row a m = Some m'" "writes (?c a) (\<lambda>_. src ! a) m m'" by blast
    have "rows_done ?c (\<lambda>a _. src ! a) cache (insert a D) m'"
      by (rule rows_done_step [where w = "\<lambda>a _. src ! a", OF slot_cells_own [OF ok] _ m'(2) a]) (use P in auto)
    then show "\<exists>m'. indexed_copy_item False src slots row a m = Some m' \<and>
        (rows_done ?c (\<lambda>a _. src ! a) cache (insert a D) m' \<and> insert a D \<subseteq> {..<length slots * row})"
      using m'(1) a P by auto
  qed simp
  then show ?thesis by blast
qed

text \<open>For every width and every order of the work-items, gathering the slots a scatter wrote returns
  the scattered rows bit for bit; rows of skipped slots are left as they were in the output, and cache
  rows no slot names are untouched.\<close>

theorem kv_cache_scatter_gather:
  assumes "slots_ok slots S" "S * row \<le> length cache" "length src = length slots * row" "length out = length slots * row"
    and "schedule (length slots * row) o1" "schedule (length slots * row) o2"
  shows "\<exists>cache'. kv_cache_scatter src slots row dt o1 cache = Some cache' \<and> length cache' = length cache \<and>
    (\<forall>r j. j < row \<and> r * row + j < length cache \<and> int r \<notin> set slots \<longrightarrow> cache' ! (r * row + j) = cache ! (r * row + j)) \<and>
    kv_cache_gather cache' slots row dt o2 out =
      Some (map (\<lambda>a. if slots ! (a div row) < 0 then out ! a else src ! a) [0..<length slots * row])"
proof -
  let ?c = "slot_cells slots row"
  obtain cache' where c: "foldM (indexed_copy_item False src slots row) o1 cache = Some cache'"
    "rows_done ?c (\<lambda>a _. src ! a) cache {..<length slots * row} cache'"
    using scatter_copy_launch [OF assms(5,1,2,3)] by blast
  have len: "length cache' = length cache" using c(2) by (rule rows_done_length)
  have "cache' ! (nat (slots ! (a div row)) * row + a mod row) = src ! a"
    if "a < length slots * row" "\<not> slots ! (a div row) < 0" for a
  proof -
    note t = tq_idx [OF that(1)]
    have "nat (slots ! (a div row)) < S" using assms(1) t that(2) by (auto simp: slots_ok_def)
    then have "nat (slots ! (a div row)) * row + a mod row < length cache"
      using t assms(2) div_mult_add_lt [of "nat (slots ! (a div row))" S "a mod row" row] by linarith
    then show ?thesis using rows_done_cell [OF c(2) that(1)] that by (simp add: slot_cells_def)
  qed
  then have g: "foldM (indexed_copy_item True cache' slots row) o2 out =
      Some (map (\<lambda>a. if slots ! (a div row) < 0 then out ! a else src ! a) [0..<length slots * row])"
    using gather_launch [OF assms(6,4), of S cache'] assms(1,2) len by (auto simp: slots_ok_def)
  have "cache' ! (r * row + j) = cache ! (r * row + j)" if "j < row" "r * row + j < length cache" "int r \<notin> set slots" for r j
  proof (rule rows_done_frame [OF c(2) that(2)])
    fix a assume "a \<in> {..<length slots * row}"
    then have t: "a div row < length slots" "a mod row < row" using tq_idx [of a "length slots" row] by auto
    show "r * row + j \<notin> ?c a"
    proof
      assume "r * row + j \<in> ?c a"
      then have "\<not> slots ! (a div row) < 0" "r * row + j = nat (slots ! (a div row)) * row + a mod row"
        by (auto simp: slot_cells_def split: if_splits)
      then have "int r = slots ! (a div row)" using row_col_inj [OF that(1) t(2)] by simp
      then show False using that(3) t(1) by (metis nth_mem)
    qed
  qed
  then show ?thesis using c(1) g len by (auto simp: kv_cache_scatter_def kv_cache_gather_def by_width_eq)
qed

section \<open>The paged KV cache\<close>

text \<open>A cache cell holds an element of the caches' type or, in fp8 mode, one byte (in the low bits of the
  cell); \<open>None\<close> is the null scale pointer.\<close>

definition kv_scale :: "f32 option \<Rightarrow> f32" where
  "kv_scale s = (case s of None \<Rightarrow> 1 | Some v \<Rightarrow> v)"

definition paged_store :: "bool \<Rightarrow> DType \<Rightarrow> f32 option \<Rightarrow> 32 word \<Rightarrow> 32 word" where
  "paged_store fp8 dt scale x = (if fp8 then ucast (e4m3_encode (elem_ld dt x / kv_scale scale)) else x)"

definition paged_load :: "bool \<Rightarrow> DType \<Rightarrow> f32 option \<Rightarrow> 32 word \<Rightarrow> 32 word" where
  "paged_load fp8 dt scale c = (if fp8 then elem_st dt (e4m3_decode (ucast c) * kv_scale scale) else c)"

definition paged_addr :: "nat \<Rightarrow> nat \<Rightarrow> nat \<Rightarrow> nat \<Rightarrow> nat \<Rightarrow> nat" where
  "paged_addr page_size stride row slot e = (let page = slot div page_size; off = slot mod page_size in
     page * stride + off * row + e)"

definition paged_write_item :: "bool \<Rightarrow> DType \<Rightarrow> 32 word list \<Rightarrow> 32 word list \<Rightarrow> int list \<Rightarrow> nat \<Rightarrow> nat \<Rightarrow> nat \<Rightarrow>
    f32 option \<Rightarrow> f32 option \<Rightarrow> nat \<Rightarrow> 32 word list \<times> 32 word list \<Rightarrow> (32 word list \<times> 32 word list) option" where
  "paged_write_item fp8 dt key val slot_mapping row page_size stride k_scale v_scale gid caches = do {
     let (k_cache, v_cache) = caches;
     let t = gid div row;
     let e = gid mod row;
     slot \<leftarrow> rd slot_mapping t;
     if slot < 0 then Some (k_cache, v_cache)
     else do {
       let dst = paged_addr page_size stride row (nat slot) e;
       k \<leftarrow> rd key (t * row + e);
       k_cache \<leftarrow> wr k_cache dst (paged_store fp8 dt k_scale k);
       v \<leftarrow> rd val (t * row + e);
       v_cache \<leftarrow> wr v_cache dst (paged_store fp8 dt v_scale v);
       Some (k_cache, v_cache) } }"

definition kv_cache_scatter_paged :: "32 word list \<Rightarrow> 32 word list \<Rightarrow> int list \<Rightarrow> nat \<Rightarrow> nat \<Rightarrow> nat \<Rightarrow> nat \<Rightarrow>
    f32 option \<Rightarrow> f32 option \<Rightarrow> bool \<Rightarrow> DType \<Rightarrow> nat list \<Rightarrow> 32 word list \<times> 32 word list \<Rightarrow> (32 word list \<times> 32 word list) option" where
  "kv_cache_scatter_paged key val slot_mapping n_kv_heads d page_size stride k_scale v_scale fp8 dt sched caches =
     foldM (paged_write_item fp8 dt key val slot_mapping (n_kv_heads * d) page_size stride k_scale v_scale) sched caches"

definition paged_gather_item :: "bool \<Rightarrow> DType \<Rightarrow> 32 word list \<Rightarrow> 32 word list \<Rightarrow> int list \<Rightarrow> nat \<Rightarrow> nat \<Rightarrow> nat \<Rightarrow>
    f32 option \<Rightarrow> f32 option \<Rightarrow> nat \<Rightarrow> 32 word list \<times> 32 word list \<Rightarrow> (32 word list \<times> 32 word list) option" where
  "paged_gather_item fp8 dt k_cache v_cache slots row page_size stride k_scale v_scale gid outs = do {
     let (k_out, v_out) = outs;
     let t = gid div row;
     let e = gid mod row;
     slot \<leftarrow> rd slots t;
     if slot < 0 then do {
       k_out \<leftarrow> wr k_out gid (elem_st dt 0);
       v_out \<leftarrow> wr v_out gid (elem_st dt 0);
       Some (k_out, v_out) }
     else do {
       let src = paged_addr page_size stride row (nat slot) e;
       k \<leftarrow> rd k_cache src;
       k_out \<leftarrow> wr k_out gid (paged_load fp8 dt k_scale k);
       v \<leftarrow> rd v_cache src;
       v_out \<leftarrow> wr v_out gid (paged_load fp8 dt v_scale v);
       Some (k_out, v_out) } }"

definition kv_cache_gather_paged :: "32 word list \<Rightarrow> 32 word list \<Rightarrow> int list \<Rightarrow> nat \<Rightarrow> nat \<Rightarrow> nat \<Rightarrow> nat \<Rightarrow>
    f32 option \<Rightarrow> f32 option \<Rightarrow> bool \<Rightarrow> DType \<Rightarrow> nat list \<Rightarrow> 32 word list \<times> 32 word list \<Rightarrow> (32 word list \<times> 32 word list) option" where
  "kv_cache_gather_paged k_cache v_cache slots n_kv_heads d page_size stride k_scale v_scale fp8 dt sched outs =
     foldM (paged_gather_item fp8 dt k_cache v_cache slots (n_kv_heads * d) page_size stride k_scale v_scale) sched outs"

text \<open>The dispatch layer maps every cache type but \<open>same\<close> to the e4m3 path.\<close>

datatype KvCacheDType = KvSame | KvE4m3 | KvE5m2

definition ops_kv_cache_scatter_paged :: "32 word list \<Rightarrow> 32 word list \<Rightarrow> int list \<Rightarrow> nat \<Rightarrow> nat \<Rightarrow> nat \<Rightarrow> nat \<Rightarrow>
    f32 option \<Rightarrow> f32 option \<Rightarrow> KvCacheDType \<Rightarrow> DType \<Rightarrow> nat list \<Rightarrow> 32 word list \<times> 32 word list \<Rightarrow> (32 word list \<times> 32 word list) option" where
  "ops_kv_cache_scatter_paged key val slot_mapping n_kv_heads d page_size stride k_scale v_scale kv_dt dt sched caches =
     kv_cache_scatter_paged key val slot_mapping n_kv_heads d page_size stride k_scale v_scale (kv_dt \<noteq> KvSame) dt sched caches"

definition ops_kv_cache_gather_paged :: "32 word list \<Rightarrow> 32 word list \<Rightarrow> int list \<Rightarrow> nat \<Rightarrow> nat \<Rightarrow> nat \<Rightarrow> nat \<Rightarrow>
    f32 option \<Rightarrow> f32 option \<Rightarrow> KvCacheDType \<Rightarrow> DType \<Rightarrow> nat list \<Rightarrow> 32 word list \<times> 32 word list \<Rightarrow> (32 word list \<times> 32 word list) option" where
  "ops_kv_cache_gather_paged k_cache v_cache slots n_kv_heads d page_size stride k_scale v_scale kv_dt dt sched outs =
     kv_cache_gather_paged k_cache v_cache slots n_kv_heads d page_size stride k_scale v_scale (kv_dt \<noteq> KvSame) dt sched outs"

lemma ucast_byte: "ucast (ucast (b :: 8 word) :: 32 word) = b"
  by (rule bit_word_eqI) (simp add: bit_ucast_iff)

text \<open>Distinct slots have distinct cells when a page fits its stride.\<close>

lemma paged_addr_inj:
  assumes "page_size * row \<le> stride" "0 < page_size" "e < row" "e' < row"
    and "paged_addr page_size stride row s e = paged_addr page_size stride row s' e'"
  shows "s = s' \<and> e = e'"
proof -
  have in_page: "s mod page_size * row + e < stride" if "e < row" for s e
    using div_mult_add_lt [of "s mod page_size" page_size e row] assms(1,2) that by simp
  have "s div page_size * stride + (s mod page_size * row + e) = s' div page_size * stride + (s' mod page_size * row + e')"
    using assms(5) by (simp add: paged_addr_def Let_def)
  then have "s div page_size = s' div page_size" "s mod page_size * row + e = s' mod page_size * row + e'"
    using row_col_inj [OF in_page [OF assms(3)] in_page [OF assms(4)]] by blast+
  moreover from this(2) have "s mod page_size = s' mod page_size" "e = e'" using row_col_inj [OF assms(3,4)] by blast+
  ultimately show ?thesis by (metis div_mult_mod_eq)
qed

lemma paged_addr_less:
  assumes "page_size * row \<le> stride" "0 < page_size" "e < row" "s < n_pages * page_size"
  shows "paged_addr page_size stride row s e < n_pages * stride"
proof -
  have "s mod page_size * row + e < stride"
    using div_mult_add_lt [of "s mod page_size" page_size e row] assms(1-3) by simp
  moreover have "s div page_size < n_pages" using assms(2,4) by (simp add: div_less_iff_less_mult)
  ultimately show ?thesis using div_mult_add_lt [of "s div page_size" n_pages "s mod page_size * row + e" stride]
    by (simp add: paged_addr_def Let_def)
qed

definition paged_cells :: "int list \<Rightarrow> nat \<Rightarrow> nat \<Rightarrow> nat \<Rightarrow> nat \<Rightarrow> nat set" where
  "paged_cells slots page_size stride row a =
     (if slots ! (a div row) < 0 then {} else {paged_addr page_size stride row (nat (slots ! (a div row))) (a mod row)})"

lemma paged_cells_own:
  assumes "slots_ok slots S" "page_size * row \<le> stride" "0 < page_size"
  shows "owns (length slots * row) (paged_cells slots page_size stride row)"
proof -
  have "paged_cells slots page_size stride row a \<inter> paged_cells slots page_size stride row b = {}"
    if ab: "a < length slots * row" "b < length slots * row" "a \<noteq> b" for a b
  proof (rule ccontr)
    assume ne: "\<not> ?thesis"
    then have nn: "\<not> slots ! (a div row) < 0" "\<not> slots ! (b div row) < 0" by (auto simp: paged_cells_def split: if_splits)
    note ta = tq_idx [OF ab(1)] and tb = tq_idx [OF ab(2)]
    have "paged_addr page_size stride row (nat (slots ! (a div row))) (a mod row) =
        paged_addr page_size stride row (nat (slots ! (b div row))) (b mod row)"
      using ne nn by (simp add: paged_cells_def)
    then have "nat (slots ! (a div row)) = nat (slots ! (b div row))" "a mod row = b mod row"
      using paged_addr_inj [OF assms(2,3)] ta tb by blast+
    moreover from this(1) nn have "slots ! (a div row) = slots ! (b div row)" by simp
    then have "a div row = b div row" using assms(1) nn ta tb unfolding slots_ok_def by (metis linorder_not_less)
    ultimately show False using ab(3) ta tb by metis
  qed
  then show ?thesis unfolding owns_def by blast
qed

text \<open>The shapes of the paged buffers: \<open>n_pages\<close> pages, slots inside them.\<close>

definition paged_ok :: "int list \<Rightarrow> nat \<Rightarrow> nat \<Rightarrow> nat \<Rightarrow> nat \<Rightarrow> 'w list \<times> 'w list \<Rightarrow> bool" where
  "paged_ok slots row n_pages page_size stride caches \<longleftrightarrow> slots_ok slots (n_pages * page_size) \<and> 0 < page_size \<and>
     page_size * row \<le> stride \<and> n_pages * stride \<le> length (fst caches) \<and> n_pages * stride \<le> length (snd caches)"

lemma paged_bound:
  assumes "paged_ok slots row n_pages page_size stride caches" "a < length slots * row" "\<not> slots ! (a div row) < 0"
  shows "paged_addr page_size stride row (nat (slots ! (a div row))) (a mod row) < n_pages * stride"
proof (rule paged_addr_less)
  note t = tq_idx [OF assms(2)]
  show "nat (slots ! (a div row)) < n_pages * page_size" "a mod row < row"
    using assms(1,3) t by (auto simp: paged_ok_def slots_ok_def nat_less_iff)
qed (use assms(1) in \<open>simp_all add: paged_ok_def\<close>)

lemma paged_write_launch:
  assumes ok: "paged_ok slots row n_pages page_size stride (kc, vc)" and sched: "schedule (length slots * row) sched"
    and len: "length key = length slots * row" "length val = length slots * row"
  shows "\<exists>kc' vc'. foldM (paged_write_item fp8 dt key val slots row page_size stride ks vs) sched (kc, vc) = Some (kc', vc') \<and>
    rows_done (paged_cells slots page_size stride row) (\<lambda>a _. paged_store fp8 dt ks (key ! a)) kc {..<length slots * row} kc' \<and>
    rows_done (paged_cells slots page_size stride row) (\<lambda>a _. paged_store fp8 dt vs (val ! a)) vc {..<length slots * row} vc'"
proof (rule launch_pair [OF sched])
  show "owns (length slots * row) (paged_cells slots page_size stride row)"
    using ok by (intro paged_cells_own) (auto simp: paged_ok_def)
next
  fix a and m m' :: "32 word list" assume a: "a < length slots * row" and l: "length m = length kc" "length m' = length vc"
  note t = tq_idx [OF a]
  show "\<exists>m1 m2. paged_write_item fp8 dt key val slots row page_size stride ks vs a (m, m') = Some (m1, m2) \<and>
    writes (paged_cells slots page_size stride row a) (\<lambda>_. paged_store fp8 dt ks (key ! a)) m m1 \<and>
    writes (paged_cells slots page_size stride row a) (\<lambda>_. paged_store fp8 dt vs (val ! a)) m' m2"
  proof (cases "slots ! (a div row) < 0")
    case False
    let ?d = "paged_addr page_size stride row (nat (slots ! (a div row))) (a mod row)"
    have "?d < length m" "?d < length m'" using paged_bound [OF ok a False] ok l by (auto simp: paged_ok_def)
    then show ?thesis
      using False t a len writes_single [of ?d m "\<lambda>_. paged_store fp8 dt ks (key ! a)"] writes_single [of ?d m' "\<lambda>_. paged_store fp8 dt vs (val ! a)"]
      by (simp add: paged_write_item_def Let_def paged_cells_def)
  qed (use t in \<open>simp add: paged_write_item_def Let_def paged_cells_def\<close>)
qed

lemma paged_gather_launch:
  assumes ok: "paged_ok slots row n_pages page_size stride (kc, vc)" and sched: "schedule (length slots * row) sched"
    and len: "length ko = length slots * row" "length vo = length slots * row"
  shows "foldM (paged_gather_item fp8 dt kc vc slots row page_size stride ks vs) sched (ko, vo) = Some
    (map (\<lambda>a. if slots ! (a div row) < 0 then elem_st dt 0
        else paged_load fp8 dt ks (kc ! paged_addr page_size stride row (nat (slots ! (a div row))) (a mod row))) [0..<length slots * row],
     map (\<lambda>a. if slots ! (a div row) < 0 then elem_st dt 0
        else paged_load fp8 dt vs (vc ! paged_addr page_size stride row (nat (slots ! (a div row))) (a mod row))) [0..<length slots * row])"
proof -
  let ?f = "\<lambda>s c a. if slots ! (a div row) < 0 then elem_st dt 0
        else paged_load fp8 dt s (c ! paged_addr page_size stride row (nat (slots ! (a div row))) (a mod row))"
  have "\<exists>ko' vo'. foldM (paged_gather_item fp8 dt kc vc slots row page_size stride ks vs) sched (ko, vo) = Some (ko', vo') \<and>
    rows_done (\<lambda>a. {a}) (\<lambda>a. ?f ks kc) ko {..<length slots * row} ko' \<and> rows_done (\<lambda>a. {a}) (\<lambda>a. ?f vs vc) vo {..<length slots * row} vo'"
  proof (rule launch_pair [OF sched])
    show "owns (length slots * row) (\<lambda>a. {a})" by (simp add: owns_def)
  next
    fix a and m m' :: "32 word list" assume a: "a < length slots * row" and l: "length m = length ko" "length m' = length vo"
    note t = tq_idx [OF a]
    have wg: "writes {a} F b (b[a := F a])" if "a < length b" for F and b :: "32 word list"
      using that by (rule writes_single)
    note w = wg [of m "?f ks kc"] wg [of m' "?f vs vc"]
    show "\<exists>m1 m2. paged_gather_item fp8 dt kc vc slots row page_size stride ks vs a (m, m') = Some (m1, m2) \<and>
      writes {a} (?f ks kc) m m1 \<and> writes {a} (?f vs vc) m' m2"
    proof (cases "slots ! (a div row) < 0")
      case True
      then show ?thesis using t a l len w by (simp add: paged_gather_item_def Let_def)
    next
      case False
      have "paged_addr page_size stride row (nat (slots ! (a div row))) (a mod row) < length kc"
        "paged_addr page_size stride row (nat (slots ! (a div row))) (a mod row) < length vc"
        using paged_bound [OF ok a False] ok by (auto simp: paged_ok_def)
      then show ?thesis using False t a l len w by (simp add: paged_gather_item_def Let_def)
    qed
  qed
  then obtain ko' vo' where o: "foldM (paged_gather_item fp8 dt kc vc slots row page_size stride ks vs) sched (ko, vo) = Some (ko', vo')"
    and r: "rows_done (\<lambda>a. {a}) (\<lambda>a. ?f ks kc) ko {..<length slots * row} ko'" "rows_done (\<lambda>a. {a}) (\<lambda>a. ?f vs vc) vo {..<length slots * row} vo'"
    by blast
  note q = rows_done_writes [where w = "?f ks kc", OF r(1)] rows_done_writes [where w = "?f vs vc", OF r(2)]
  have u: "(\<Union>a<length slots * row. {a}) = {..<length slots * row}" by auto
  show ?thesis using o writes_map_upt [OF q(1) [unfolded u] len(1)] writes_map_upt [OF q(2) [unfolded u] len(2)] by simp
qed

text \<open>C20: writing tokens to distinct slots of the paged caches and gathering the same slots returns, for
  every page layout and every order of the work-items, the tokens themselves when the cache has the
  activation type, and \<open>decode (encode (x / scale)) * scale\<close> of each element in fp8 mode; skipped
  tokens come back as zero rows and cells no slot names keep their contents.\<close>

theorem paged_cache_roundtrip:
  assumes "paged_ok slots (n_kv_heads * d) n_pages page_size stride (kc, vc)"
    and "length key = length slots * (n_kv_heads * d)" "length val = length slots * (n_kv_heads * d)"
    and "length ko = length slots * (n_kv_heads * d)" "length vo = length slots * (n_kv_heads * d)"
    and "schedule (length slots * (n_kv_heads * d)) o1" "schedule (length slots * (n_kv_heads * d)) o2"
  shows "\<exists>kc' vc'. kv_cache_scatter_paged key val slots n_kv_heads d page_size stride ks vs fp8 dt o1 (kc, vc) = Some (kc', vc') \<and>
    (\<forall>c<length kc. c \<notin> (\<Union>a<length slots * (n_kv_heads * d). paged_cells slots page_size stride (n_kv_heads * d) a) \<longrightarrow> kc' ! c = kc ! c) \<and>
    kv_cache_gather_paged kc' vc' slots n_kv_heads d page_size stride ks vs fp8 dt o2 (ko, vo) = Some
      (map (\<lambda>a. if slots ! (a div (n_kv_heads * d)) < 0 then elem_st dt 0
          else if fp8 then elem_st dt (e4m3_decode (e4m3_encode (elem_ld dt (key ! a) / kv_scale ks)) * kv_scale ks) else key ! a)
         [0..<length slots * (n_kv_heads * d)],
       map (\<lambda>a. if slots ! (a div (n_kv_heads * d)) < 0 then elem_st dt 0
          else if fp8 then elem_st dt (e4m3_decode (e4m3_encode (elem_ld dt (val ! a) / kv_scale vs)) * kv_scale vs) else val ! a)
         [0..<length slots * (n_kv_heads * d)])"
proof -
  let ?r = "n_kv_heads * d" and ?n = "length slots * (n_kv_heads * d)"
  let ?c = "paged_cells slots page_size stride (n_kv_heads * d)"
  obtain kc' vc' where w: "foldM (paged_write_item fp8 dt key val slots ?r page_size stride ks vs) o1 (kc, vc) = Some (kc', vc')"
    "rows_done ?c (\<lambda>a _. paged_store fp8 dt ks (key ! a)) kc {..<?n} kc'" "rows_done ?c (\<lambda>a _. paged_store fp8 dt vs (val ! a)) vc {..<?n} vc'"
    using paged_write_launch [OF assms(1,6,2,3)] by blast
  have ok': "paged_ok slots ?r n_pages page_size stride (kc', vc')"
    using assms(1) rows_done_length [OF w(2)] rows_done_length [OF w(3)] by (simp add: paged_ok_def)
  have cell: "kc' ! paged_addr page_size stride ?r (nat (slots ! (a div ?r))) (a mod ?r) = paged_store fp8 dt ks (key ! a)"
    "vc' ! paged_addr page_size stride ?r (nat (slots ! (a div ?r))) (a mod ?r) = paged_store fp8 dt vs (val ! a)"
    if "a < ?n" "\<not> slots ! (a div ?r) < 0" for a
    using rows_done_cell [OF w(2) that(1)] rows_done_cell [OF w(3) that(1)] paged_bound [OF assms(1) that] assms(1) that(2)
    by (auto simp: paged_cells_def paged_ok_def)
  have ps: "paged_load fp8 dt s (paged_store fp8 dt s x) =
      (if fp8 then elem_st dt (e4m3_decode (e4m3_encode (elem_ld dt x / kv_scale s)) * kv_scale s) else x)" for s x
    by (simp add: paged_load_def paged_store_def ucast_byte)
  have frame: "kc' ! c = kc ! c" if "c < length kc" "c \<notin> (\<Union>a<?n. ?c a)" for c
    using rows_done_frame [OF w(2) that(1)] that(2) by blast
  have g: "foldM (paged_gather_item fp8 dt kc' vc' slots ?r page_size stride ks vs) o2 (ko, vo) = Some
      (map (\<lambda>a. if slots ! (a div ?r) < 0 then elem_st dt 0
          else if fp8 then elem_st dt (e4m3_decode (e4m3_encode (elem_ld dt (key ! a) / kv_scale ks)) * kv_scale ks) else key ! a) [0..<?n],
       map (\<lambda>a. if slots ! (a div ?r) < 0 then elem_st dt 0
          else if fp8 then elem_st dt (e4m3_decode (e4m3_encode (elem_ld dt (val ! a) / kv_scale vs)) * kv_scale vs) else val ! a) [0..<?n])"
    unfolding paged_gather_launch [OF ok' assms(7,4,5)] using cell ps by (auto intro!: map_cong)
  show ?thesis
    unfolding kv_cache_scatter_paged_def kv_cache_gather_paged_def using w(1) frame g by blast
qed

theorem paged_cache_roundtrip_witness:
  "\<exists>kc' vc'. kv_cache_scatter_paged [5, 6] [7, 8] [3, -1] 1 1 2 4 None None False DF32 [1, 0] (replicate 8 0, replicate 8 1) = Some (kc', vc') \<and>
     kv_cache_gather_paged kc' vc' [3, -1] 1 1 2 4 None None False DF32 [0, 1] ([9, 9], [9, 9]) = Some ([5, 0], [7, 0])"
proof -
  have ok: "paged_ok [3, -1] (1 * 1) 2 2 4 (replicate 8 0 :: 32 word list, replicate 8 1)"
    by (auto simp: paged_ok_def slots_ok_def less_Suc_eq)
  have o: "schedule (length [3, -1 :: int] * (1 * 1)) [1, 0]" "schedule (length [3, -1 :: int] * (1 * 1)) [0, 1]" by (auto simp: schedule_def)
  show ?thesis using paged_cache_roundtrip [OF ok _ _ _ _ o, of "[5, 6]" "[7, 8]" "[9, 9]" "[9, 9]" None None False DF32]
    by (auto simp: upt_rec zero_f32_def)
qed

end
