(* ===== verification/Argmax.thy ===== *)
theory Argmax
  imports Lanes Select
begin

text \<open>
  Greedy argmax (\<open>argmax.sycl.cpp\<close>).  A group of 256 work-items scans a row, each item keeping the
  first strict maximum of the elements it visits, and a tree over two local arrays picks the winner
  of the row, the lower index on equal values.  The items of a tree step run in any order (\<open>lords\<close>
  gives one for every step), the rows in any order.
\<close>

section \<open>The kernel\<close>

definition neg_inf :: f32 where "neg_inf = F32 0xff800000"

definition argmax_lane :: "('t \<Rightarrow> 'v::ord) \<Rightarrow> 'v \<Rightarrow> nat \<Rightarrow> 't list \<Rightarrow> nat \<Rightarrow> nat \<Rightarrow> nat \<Rightarrow> ('v \<times> nat) option" where
  "argmax_lane ld ninf V logits row vocab lid = lane_loop V kRowThreads vocab (\<lambda>j (best, best_i). do {
     x \<leftarrow> rd logits (row * vocab + j);
     let val = ld x;
     Some (if val > best then (val, j) else (best, best_i)) }) (ninf, 0) lid"

definition argmax_tree_item :: "nat \<Rightarrow> nat \<Rightarrow> 'v::ord list \<times> nat list \<Rightarrow> ('v list \<times> nat list) option" where
  "argmax_tree_item stride lid slm = do {
     let (svals, sidx) = slm;
     if lid < stride then do {
       ov \<leftarrow> rd svals (lid + stride);
       oi \<leftarrow> rd sidx (lid + stride);
       v \<leftarrow> rd svals lid;
       i \<leftarrow> rd sidx lid;
       if ov > v \<or> ((ov \<le> v \<and> v \<le> ov) \<and> oi < i) then do {
         svals \<leftarrow> wr svals lid ov;
         sidx \<leftarrow> wr sidx lid oi;
         Some (svals, sidx) }
       else Some (svals, sidx) }
     else Some (svals, sidx) }"

fun argmax_tree :: "(nat \<Rightarrow> nat list) \<Rightarrow> nat \<Rightarrow> 'v::ord list \<times> nat list \<Rightarrow> ('v list \<times> nat list) option" where
  "argmax_tree lords stride slm =
     (if stride = 0 then Some slm
      else do { slm \<leftarrow> foldM (argmax_tree_item stride) (lords stride) slm; argmax_tree lords (stride div 2) slm })"

declare argmax_tree.simps [simp del]

definition argmax_item :: "('t \<Rightarrow> 'v::ord) \<Rightarrow> 'v \<Rightarrow> nat \<Rightarrow> 't list \<Rightarrow> nat \<Rightarrow> (nat \<Rightarrow> nat list) \<Rightarrow> nat \<Rightarrow> nat list \<Rightarrow> nat list option" where
  "argmax_item ld ninf V logits vocab lords row out = do {
     best \<leftarrow> those (map (argmax_lane ld ninf V logits row vocab) [0..<kRowThreads]);
     (svals, sidx) \<leftarrow> argmax_tree lords (kRowThreads div 2) (map fst best, map snd best);
     i \<leftarrow> rd sidx 0;
     wr out row i }"

definition argmax_sycl :: "32 word list \<Rightarrow> nat \<Rightarrow> DType \<Rightarrow> (nat \<Rightarrow> nat list) \<Rightarrow> nat list \<Rightarrow> nat list \<Rightarrow> nat list option" where
  "argmax_sycl logits vocab dt lords sched out =
     foldM (argmax_item (elem_ld dt) neg_inf (vec_width dt) logits vocab lords) sched out"

lemma neg_inf_least: "\<not> f32_nan neg_inf" "\<not> f32_nan x \<Longrightarrow> f32_key neg_inf \<le> f32_key x"
proof -
  have m: "f32_mag neg_inf = 0x7f800000" "f32_neg neg_inf" by (simp_all add: neg_inf_def f32_mag_def f32_neg_def)
  then show "\<not> f32_nan neg_inf" by (simp add: f32_nan_def f32_inf_def)
  show "\<not> f32_nan x \<Longrightarrow> f32_key neg_inf \<le> f32_key x" using m by (auto simp: f32_key_def f32_nan_def f32_inf_def)
qed

section \<open>Items visit ascending indices\<close>

lemma mem_rows: "x \<in> set (concat (map (\<lambda>i. map (\<lambda>k. i * V + k) [0..<V]) xs)) \<longleftrightarrow> (\<exists>i\<in>set xs. i * V \<le> x \<and> x < i * V + V)"
  by (simp add: add.commute)

lemma sorted_concat_rows: "sorted_wrt (<) xs \<Longrightarrow> sorted_wrt (<) (concat (map (\<lambda>i. map (\<lambda>k. i * V + k) [0..<V]) xs))"
proof (induction xs)
  case (Cons a xs)
  let ?c = "concat (map (\<lambda>i. map (\<lambda>k. i * V + k) [0..<V]) xs)"
  have "x < z" if x: "x < a * V + V" and z: "z \<in> set ?c" for x z
  proof -
    from z obtain i where i: "i \<in> set xs" "i * V \<le> z" unfolding mem_rows by blast
    then have "a < i" using Cons.prems by simp
    then show ?thesis using src_row [of a i V] i x by linarith
  qed
  moreover have "x < a * V + V" if "x \<in> set (map (\<lambda>k. a * V + k) [0..<V])" for x using that by auto
  ultimately have "\<forall>x\<in>set (map (\<lambda>k. a * V + k) [0..<V]). \<forall>z\<in>set ?c. x < z" by blast
  moreover have "sorted_wrt (<) (map (\<lambda>k. a * V + k) [0..<V])" by (simp add: sorted_wrt_map)
  ultimately show ?case using Cons by (simp only: list.map concat.simps sorted_wrt_append sorted_wrt.simps)
qed simp

lemma sorted_lane_indices: "sorted_wrt (<) (lane_indices V T n l)"
proof -
  let ?vs = "concat (map (\<lambda>vi. map (\<lambda>k. vi * V + k) [0..<V]) (strided l T (n div V)))"
  have "x < n div V * V" if "x \<in> set ?vs" for x
  proof -
    from that obtain vi where vi: "vi \<in> set (strided l T (n div V))" "x < vi * V + V" unfolding mem_rows by blast
    then show ?thesis using src_row [of vi "n div V" V] strided_ge [OF vi(1)] by linarith
  qed
  moreover have "n div V * V \<le> y" if "y \<in> set (strided (n div V * V + l) T n)" for y
    using strided_ge [OF that] by simp
  ultimately have lt: "\<forall>x\<in>set ?vs. \<forall>y\<in>set (strided (n div V * V + l) T n). x < y"
    by (meson order_less_le_trans)
  show ?thesis unfolding lane_indices_def sorted_wrt_append using lt by (intro conjI sorted_concat_rows sorted_strided)
qed

section \<open>The winner\<close>

text \<open>The order of \<open>f32\<close> also decides \<open>\<le>\<close>, hence equality of floats.\<close>

locale key_order_le = key_order +
  assumes le_key: "good a \<Longrightarrow> good b \<Longrightarrow> a \<le> b \<longleftrightarrow> key a \<le> key b"
begin

definition best_of :: "'a \<Rightarrow> (nat \<Rightarrow> 'a) \<Rightarrow> nat set \<Rightarrow> 'a \<times> nat \<Rightarrow> bool" where
  "best_of ninf f A p \<longleftrightarrow> (p = (ninf, 0) \<and> (\<forall>e\<in>A. key (f e) \<le> key ninf)) \<or>
     (first_max key f A (snd p) \<and> fst p = f (snd p) \<and> key ninf < key (fst p))"

lemma best_of_scan:
  assumes "good ninf" "\<forall>e\<in>set xs. good (f e)" "sorted_wrt (<) xs"
  shows "best_of ninf f (set xs) (fold (amax_step f) xs (ninf, 0))"
proof -
  obtain b m where st: "fold (amax_step f) xs (ninf, 0) = (b, m)" by fastforce
  show ?thesis using scan_cases [OF assms st] st by (auto simp: best_of_def)
qed

definition comb :: "'a \<times> nat \<Rightarrow> 'a \<times> nat \<Rightarrow> 'a \<times> nat" where
  "comb p q = (if fst q > fst p \<or> ((fst q \<le> fst p \<and> fst p \<le> fst q) \<and> snd q < snd p) then q else p)"

lemma best_of_good: "good ninf \<Longrightarrow> \<forall>e\<in>A. good (f e) \<Longrightarrow> best_of ninf f A p \<Longrightarrow> good (fst p)"
  by (auto simp: best_of_def first_max_def)

lemma best_of_comb:
  assumes ninf: "good ninf" and good: "\<forall>e\<in>A \<union> B. good (f e)" and p: "best_of ninf f A p" and q: "best_of ninf f B q"
  shows "best_of ninf f (A \<union> B) (comb p q)"
proof -
  have g: "good (fst p)" "good (fst q)" using best_of_good assms by blast+
  have c: "comb p q = (if key (fst p) < key (fst q) \<or> (key (fst q) = key (fst p) \<and> snd q < snd p) then q else p)"
    using less_key [OF g] le_key [OF g] le_key [OF g(2,1)] by (auto simp: comb_def)
  show ?thesis
    using p q unfolding c best_of_def first_max_def by (cases p; cases q) (auto 4 3)
qed

lemma best_of_full:
  assumes "best_of ninf f {..<n} p" "0 < n" "\<And>e. e < n \<Longrightarrow> key ninf \<le> key (f e)"
  shows "first_max key f {..<n} (snd p)"
  using assms by (auto simp: best_of_def first_max_def intro: order_trans)

end

interpretation f32le: key_order_le f32_key "\<lambda>x. \<not> f32_nan x"
  by unfold_locales (auto simp: less_eq_f32_def)

section \<open>The tree reduction\<close>

context key_order_le
begin

definition cell :: "'a list \<times> nat list \<Rightarrow> nat \<Rightarrow> 'a \<times> nat" where
  "cell slm l = (fst slm ! l, snd slm ! l)"

lemma tree_step:
  assumes sched: "schedule T ord" and len: "length (fst slm) = T" "length (snd slm) = T" and st: "2 * stride \<le> T"
  shows "\<exists>slm'. foldM (argmax_tree_item stride) ord slm = Some slm' \<and> length (fst slm') = T \<and> length (snd slm') = T \<and>
    (\<forall>l < stride. cell slm' l = comb (cell slm l) (cell slm (l + stride)))"
proof -
  let ?P = "\<lambda>D s. length (fst s) = T \<and> length (snd s) = T \<and>
    (\<forall>l<T. cell s l = (if l \<in> D \<and> l < stride then comb (cell slm l) (cell slm (l + stride)) else cell slm l))"
  have "\<exists>s'. foldM (argmax_tree_item stride) ord slm = Some s' \<and> ?P {..<T} s'"
  proof (rule foldM_schedule [OF sched, where P = ?P])
    fix D i s assume i: "i < T" "i \<notin> D" and P: "?P D s"
    obtain sv si where s: "s = (sv, si)" by fastforce
    show "\<exists>s'. argmax_tree_item stride i s = Some s' \<and> ?P (insert i D) s'"
    proof (cases "i < stride")
      case True
      have b: "i < T" "i + stride < T" using True st by auto
      have c: "(sv ! i, si ! i) = cell slm i" "(sv ! (i + stride), si ! (i + stride)) = cell slm (i + stride)"
        using P b i True s by (auto simp: cell_def)
      let ?c = "comb (cell slm i) (cell slm (i + stride))"
      have "argmax_tree_item stride i s = Some (sv[i := fst ?c], si[i := snd ?c])"
        using True b P s c [symmetric] by (auto simp: argmax_tree_item_def comb_def)
      moreover have "?P (insert i D) (sv[i := fst ?c], si[i := snd ?c])"
        using P s b True by (auto simp: cell_def nth_list_update)
      ultimately show ?thesis by blast
    next
      case False
      then show ?thesis using P s by (auto simp: argmax_tree_item_def)
    qed
  qed (use len in simp)
  then show ?thesis using st by (metis lessThan_iff mult_2 order_less_le_trans trans_less_add1)
qed

lemma mod_halves: "{j. j < (T::nat) \<and> j mod (2 * w) = l} \<union> {j. j < T \<and> j mod (2 * w) = l + w} = {j. j < T \<and> j mod w = l}"
  if "l < w"
proof -
  have "j mod (2 * w) = l \<or> j mod (2 * w) = l + w \<longleftrightarrow> j mod w = l" for j
  proof -
    have e: "j mod (2 * w) = w * (j div w mod 2) + j mod w" by (metis mod_mult2_eq mult.commute)
    have "j mod w \<noteq> l + w" using that mod_less_divisor [of w j] by linarith
    then show ?thesis using that unfolding e by (cases "even (j div w)") (auto simp: odd_iff_mod_2_eq_one)
  qed
  then show ?thesis by auto
qed

lemma tree_best:
  assumes "\<And>i. schedule T (lords i)" "length (fst slm) = T" "length (snd slm) = T" "2 * 2 ^ k \<le> T"
    and ninf: "good ninf" and good: "\<forall>j<T. \<forall>e\<in>S j. good (f e)"
    and "\<And>l. l < 2 * 2 ^ k \<Longrightarrow> best_of ninf f (\<Union>j\<in>{j. j < T \<and> j mod (2 * 2 ^ k) = l}. S j) (cell slm l)"
  shows "\<exists>slm'. argmax_tree lords (2 ^ k) slm = Some slm' \<and> length (snd slm') = T \<and> best_of ninf f (\<Union>j<T. S j) (cell slm' 0)"
  using assms(2-4,7)
proof (induction k arbitrary: slm)
  case (Suc k)
  let ?w = "2 * 2 ^ k :: nat"
  have w: "2 ^ Suc k = ?w" by simp
  obtain s1 where s1: "foldM (argmax_tree_item ?w) (lords ?w) slm = Some s1" "length (fst s1) = T" "length (snd s1) = T"
    "\<forall>l < ?w. cell s1 l = comb (cell slm l) (cell slm (l + ?w))"
    using tree_step [OF assms(1) [of ?w] Suc.prems(1,2), of ?w] Suc.prems(3) unfolding w by blast
  have b: "best_of ninf f (\<Union>j\<in>{j. j < T \<and> j mod ?w = l}. S j) (cell s1 l)" if l: "l < ?w" for l
  proof -
    have "best_of ninf f ((\<Union>j\<in>{j. j < T \<and> j mod (2 * ?w) = l}. S j) \<union> (\<Union>j\<in>{j. j < T \<and> j mod (2 * ?w) = l + ?w}. S j))
        (comb (cell slm l) (cell slm (l + ?w)))"
      using Suc.prems(4) [of l] Suc.prems(4) [of "l + ?w"] l good by (intro best_of_comb [OF ninf]) (auto simp: mult.assoc)
    then show ?thesis using s1(4) l unfolding UN_Un [symmetric] mod_halves [OF l] by simp
  qed
  have "\<exists>slm'. argmax_tree lords (2 ^ k) s1 = Some slm' \<and> length (snd slm') = T \<and> best_of ninf f (\<Union>j<T. S j) (cell slm' 0)"
    using Suc.prems(3) s1(2,3) b by (intro Suc.IH) auto
  moreover have "argmax_tree lords (2 ^ Suc k) slm = argmax_tree lords (2 ^ k) s1"
    unfolding w by (subst argmax_tree.simps) (simp add: s1(1))
  ultimately show ?case by simp
next
  case 0
  obtain s1 where s1: "foldM (argmax_tree_item 1) (lords 1) slm = Some s1" "length (fst s1) = T" "length (snd s1) = T"
    "\<forall>l < 1. cell s1 l = comb (cell slm l) (cell slm (l + 1))"
    using tree_step [OF assms(1) [of 1] 0(1,2), of 1] 0(3) by (simp only: power_0) blast
  have "best_of ninf f ((\<Union>j\<in>{j. j < T \<and> j mod (2 * 1) = 0}. S j) \<union> (\<Union>j\<in>{j. j < T \<and> j mod (2 * 1) = 0 + 1}. S j)) (comb (cell slm 0) (cell slm 1))"
    using 0(4) [of 0] 0(4) [of 1] good by (intro best_of_comb [OF ninf]) auto
  then have "best_of ninf f (\<Union>j\<in>{j. j < T \<and> j mod 1 = 0}. S j) (cell s1 0)"
    using s1(4) unfolding UN_Un [symmetric] mod_halves [OF zero_less_one] by simp
  moreover have "{j. j < T \<and> j mod 1 = 0} = {..<T}" by auto
  moreover have "argmax_tree lords (2 ^ 0) slm = Some s1"
    using s1(1) by (subst argmax_tree.simps) (simp add: argmax_tree.simps [of _ 0])
  ultimately show ?case using s1(3) by simp
qed

lemma argmax_lane_fold:
  assumes "0 < V" "lid < kRowThreads" "row * vocab + vocab \<le> length logits"
  shows "argmax_lane ld ninf V logits row vocab lid =
    Some (fold (amax_step (\<lambda>j. ld (logits ! (row * vocab + j)))) (lane_indices V kRowThreads vocab lid) (ninf, 0))"
  unfolding argmax_lane_def
  by (rule lane_loop_pure) (use assms in \<open>auto simp: amax_step_def split: prod.splits\<close>)

lemma argmax_item_first:
  assumes V: "0 < V" and ords: "\<And>i. schedule kRowThreads (lords i)" and row: "row * vocab + vocab \<le> length logits" "row < length out"
    and vocab: "0 < vocab" and ninf: "good ninf"
    and good: "\<And>j. j < vocab \<Longrightarrow> good (ld (logits ! (row * vocab + j))) \<and> key ninf \<le> key (ld (logits ! (row * vocab + j)))"
  shows "\<exists>i. argmax_item ld ninf V logits vocab lords row out = Some (out[row := i]) \<and>
    first_max key (\<lambda>j. ld (logits ! (row * vocab + j))) {..<vocab} i"
proof -
  let ?f = "\<lambda>j. ld (logits ! (row * vocab + j))"
  let ?S = "\<lambda>l. set (lane_indices V kRowThreads vocab l)"
  let ?b = "\<lambda>l. fold (amax_step ?f) (lane_indices V kRowThreads vocab l) (ninf, 0)"
  let ?slm = "(map (fst \<circ> ?b) [0..<kRowThreads], map (snd \<circ> ?b) [0..<kRowThreads])"
  have k: "kRowThreads = 2 * 2 ^ 7" "kRowThreads div 2 = 2 ^ 7" by (simp_all add: kRowThreads_def)
  have S: "?S l \<subseteq> {..<vocab}" if "l < kRowThreads" for l using lane_index_less [OF kRowThreads_pos V that] by blast
  have lanes: "those (map (argmax_lane ld ninf V logits row vocab) [0..<kRowThreads]) = Some (map ?b [0..<kRowThreads])"
    using argmax_lane_fold [OF V _ row(1)] by (intro those_map_Some) auto
  have m: "{j. j < kRowThreads \<and> j mod (2 * 2 ^ 7) = l} = {l}" if "l < 2 * 2 ^ 7" for l
    using that unfolding k(1) by auto
  have b: "best_of ninf ?f (\<Union>j\<in>{j. j < kRowThreads \<and> j mod (2 * 2 ^ 7) = l}. ?S j) (cell ?slm l)" if l: "l < 2 * 2 ^ 7" for l
  proof -
    have l': "l < kRowThreads" using l unfolding k(1) .
    have "best_of ninf ?f (?S l) (?b l)" using good S [OF l'] by (intro best_of_scan [OF ninf _ sorted_lane_indices]) auto
    then show ?thesis using l' unfolding m [OF l] by (simp add: cell_def comp_def)
  qed
  have "\<exists>slm'. argmax_tree lords (2 ^ 7) ?slm = Some slm' \<and> length (snd slm') = kRowThreads \<and>
    best_of ninf ?f (\<Union>j<kRowThreads. ?S j) (cell slm' 0)"
  proof (rule tree_best [OF ords _ _ _ ninf _ b])
    show "\<forall>j<kRowThreads. \<forall>e\<in>?S j. good (?f e)" using good S by blast
  qed (simp_all add: k(1))
  then obtain slm' where t: "argmax_tree lords (2 ^ 7) ?slm = Some slm'" "length (snd slm') = kRowThreads"
    "best_of ninf ?f (\<Union>j<kRowThreads. ?S j) (cell slm' 0)" by blast
  have "(\<Union>j<kRowThreads. ?S j) = {..<vocab}"
    using S lanes_cover [OF kRowThreads_pos V] by blast
  then have "first_max key ?f {..<vocab} (snd slm' ! 0)"
    using best_of_full [OF _ vocab, of ninf ?f "cell slm' 0"] t(3) good by (simp add: cell_def)
  moreover have "argmax_item ld ninf V logits vocab lords row out = Some (out[row := snd slm' ! 0])"
    using lanes t(1,2) row(2) kRowThreads_pos unfolding argmax_item_def k(2) by (simp add: split_beta)
  ultimately show ?thesis by blast
qed

lemma argmax_launch:
  assumes "0 < V" "\<And>i. schedule kRowThreads (lords i)" "schedule rows sched" "length logits = rows * vocab" "length out = rows"
    and "0 < vocab" "good ninf"
    and good: "\<And>a. a < rows * vocab \<Longrightarrow> good (ld (logits ! a)) \<and> key ninf \<le> key (ld (logits ! a))"
  shows "\<exists>out'. foldM (argmax_item ld ninf V logits vocab lords) sched out = Some out' \<and> length out' = rows \<and>
    (\<forall>r<rows. first_max key (\<lambda>j. ld (logits ! (r * vocab + j))) {..<vocab} (out' ! r))"
proof -
  let ?F = "\<lambda>r. first_max key (\<lambda>j. ld (logits ! (r * vocab + j))) {..<vocab}"
  have item: "\<exists>i. argmax_item ld ninf V logits vocab lords r m = Some (m[r := i]) \<and> ?F r i" if r: "r < rows" "length m = rows" for r m
  proof (rule argmax_item_first [OF assms(1,2) _ _ assms(6,7)])
    show "r * vocab + vocab \<le> length logits" "r < length m" using src_row [OF r(1), of vocab] assms(4) r by simp_all
    show "good (ld (logits ! (r * vocab + j))) \<and> key ninf \<le> key (ld (logits ! (r * vocab + j)))" if "j < vocab" for j
      by (rule good [OF div_mult_add_lt [OF r(1) that]])
  qed
  then show ?thesis by (rule launch_choose [OF assms(3,5)])
qed

end

text \<open>C23: for every row length, element type, order of the rows and order of the work-items in each step of
  the tree, argmax writes for each row the lowest index among the largest logits (rows hold no NaN; minus
  infinity is allowed, a row of nothing else gives 0).\<close>

theorem argmax_lowest_index:
  assumes "\<And>i. schedule kRowThreads (lords i)" "schedule rows sched" "length logits = rows * vocab" "length out = rows" "0 < vocab"
    and "\<And>a. a < rows * vocab \<Longrightarrow> \<not> f32_nan (elem_ld dt (logits ! a))"
  shows "\<exists>out'. argmax_sycl logits vocab dt lords sched out = Some out' \<and> length out' = rows \<and>
    (\<forall>r<rows. out' ! r < vocab \<and> (\<forall>j<vocab. elem_ld dt (logits ! (r * vocab + j)) \<le> elem_ld dt (logits ! (r * vocab + out' ! r)) \<and>
       (j < out' ! r \<longrightarrow> elem_ld dt (logits ! (r * vocab + j)) < elem_ld dt (logits ! (r * vocab + out' ! r)))))"
proof -
  have "\<exists>out'. foldM (argmax_item (elem_ld dt) neg_inf (vec_width dt) logits vocab lords) sched out = Some out' \<and> length out' = rows \<and>
    (\<forall>r<rows. first_max f32_key (\<lambda>j. elem_ld dt (logits ! (r * vocab + j))) {..<vocab} (out' ! r))"
    using assms by (intro f32le.argmax_launch) (auto simp: neg_inf_least)
  then obtain out' where o: "argmax_sycl logits vocab dt lords sched out = Some out'" "length out' = rows"
    "\<And>r. r < rows \<Longrightarrow> first_max f32_key (\<lambda>j. elem_ld dt (logits ! (r * vocab + j))) {..<vocab} (out' ! r)"
    by (auto simp: argmax_sycl_def)
  have n: "\<not> f32_nan (elem_ld dt (logits ! (r * vocab + j)))" if "r < rows" "j < vocab" for r j
    using assms(6) div_mult_add_lt [OF that] by blast
  have "out' ! r < vocab \<and> (\<forall>j<vocab. elem_ld dt (logits ! (r * vocab + j)) \<le> elem_ld dt (logits ! (r * vocab + out' ! r)) \<and>
       (j < out' ! r \<longrightarrow> elem_ld dt (logits ! (r * vocab + j)) < elem_ld dt (logits ! (r * vocab + out' ! r))))" if r: "r < rows" for r
    using o(3) [OF r] n [OF r] unfolding first_max_def less_f32_def less_eq_f32_def by (auto simp: order_less_le leD)
  then show ?thesis using o(1,2) by blast
qed

theorem argmax_lowest_index_witness:
  "argmax_sycl [0x3f800000, 0x40000000, 0x40000000] 3 DF32 (\<lambda>_. rev [0..<kRowThreads]) [0] [7] = Some [1]"
proof -
  let ?l = "[0x3f800000, 0x40000000, 0x40000000] :: 32 word list"
  have n: "\<not> f32_nan (elem_ld DF32 (?l ! a))" if a: "a < 1 * 3" for a
  proof -
    consider "a = 0" | "a = 1" | "a = 2" using a by linarith
    then show ?thesis by cases (simp_all add: f32_eval)
  qed
  have o: "schedule 1 [0]" by (auto simp: schedule_def)
  have l: "length ?l = 1 * 3" "length [7 :: nat] = 1" "0 < (3 :: nat)" by simp_all
  obtain out' where r: "argmax_sycl ?l 3 DF32 (\<lambda>_. rev [0..<kRowThreads]) [0] [7] = Some out'" "length out' = 1"
    and best: "\<forall>r<1. out' ! r < 3 \<and> (\<forall>j<3. elem_ld DF32 (?l ! (r * 3 + j)) \<le> elem_ld DF32 (?l ! (r * 3 + out' ! r)) \<and>
       (j < out' ! r \<longrightarrow> elem_ld DF32 (?l ! (r * 3 + j)) < elem_ld DF32 (?l ! (r * 3 + out' ! r))))"
    using argmax_lowest_index [OF schedule_rev_upt o l n] by blast
  have b: "out' ! 0 < 3" "\<And>j. j < 3 \<Longrightarrow> elem_ld DF32 (?l ! j) \<le> elem_ld DF32 (?l ! (out' ! 0))"
    "\<And>j. j < 3 \<Longrightarrow> j < out' ! 0 \<Longrightarrow> elem_ld DF32 (?l ! j) < elem_ld DF32 (?l ! (out' ! 0))"
    using best by auto
  consider "out' ! 0 = 0" | "out' ! 0 = 1" | "out' ! 0 = 2" using b(1) by linarith
  then have "out' ! 0 = 1"
    by cases (use b(2) [of 1] b(3) [of 1] in \<open>simp_all add: f32_eval\<close>)
  then show ?thesis using r(1,2) by (cases out') auto
qed

end
