(* ===== verification/Renorm.thy ===== *)
theory Renorm
  imports Lanes Moe
begin

text \<open>
  Renormalization of probabilities (\<open>renorm.sycl.cpp\<close>): one work-item per row finds a threshold, the
  k-th largest distinct value (top-k) or by bisection the largest whose kept mass reaches \<open>top_p\<close>,
  keeps the values at least as large and divides by their sum.  The kernels are generic in the
  arithmetic: they run on \<open>f32\<close> and, for the statements on distributions, on exact numbers.
\<close>

section \<open>Renormalization\<close>

definition renorm_kMaxK :: int where "renorm_kMaxK = 64"

definition kept_mass :: "('t \<Rightarrow> 'v::{plus,zero,ord}) \<Rightarrow> 't list \<Rightarrow> nat \<Rightarrow> nat \<Rightarrow> 'v \<Rightarrow> 'v option" where
  "kept_mass ld probs vocab t thresh = foldM (\<lambda>v kept. do {
     x \<leftarrow> rd probs (t * vocab + v);
     let p = ld x;
     Some (if p \<ge> thresh then kept + p else kept) }) [0..<vocab] 0"

definition renorm_row :: "('t \<Rightarrow> 'v::{plus,times,inverse,zero,one,ord}) \<Rightarrow> ('v \<Rightarrow> 't) \<Rightarrow> 't list \<Rightarrow> nat \<Rightarrow> nat \<Rightarrow> 'v \<Rightarrow>
    't list \<Rightarrow> 't list option" where
  "renorm_row ld st probs vocab t thresh out = do {
     kept \<leftarrow> kept_mass ld probs vocab t thresh;
     let inv = (if kept > 0 then 1 / kept else 0);
     foldM (\<lambda>v out. do {
       x \<leftarrow> rd probs (t * vocab + v);
       let p = ld x;
       wr out (t * vocab + v) (if kept > 0 then st (if p \<ge> thresh then p * inv else 0) else x) }) [0..<vocab] out }"

text \<open>\<open>prev\<close> starts at the literal \<open>3.4e38f\<close> (\<open>big\<close>); the scan takes the largest value below \<open>prev\<close>.\<close>

definition topk_best :: "('t \<Rightarrow> 'v::{uminus,one,ord}) \<Rightarrow> 't list \<Rightarrow> nat \<Rightarrow> nat \<Rightarrow> 'v \<Rightarrow> 'v option" where
  "topk_best ld probs vocab t prev = foldM (\<lambda>v best. do {
     x \<leftarrow> rd probs (t * vocab + v);
     let p = ld x;
     Some (if p < prev \<and> p > best then p else best) }) [0..<vocab] (- 1)"

primrec topk_thresh :: "('t \<Rightarrow> 'v::{uminus,zero,one,ord}) \<Rightarrow> 't list \<Rightarrow> nat \<Rightarrow> nat \<Rightarrow> nat \<Rightarrow> 'v \<Rightarrow> 'v \<Rightarrow> 'v option" where
  "topk_thresh ld probs vocab t 0 thresh prev = Some thresh"
| "topk_thresh ld probs vocab t (Suc n) thresh prev = do {
     best \<leftarrow> topk_best ld probs vocab t prev;
     if best < 0 then Some thresh else topk_thresh ld probs vocab t n best best }"

definition topk_renorm_item :: "('t \<Rightarrow> 'v::{plus,uminus,times,inverse,zero,one,ord}) \<Rightarrow> ('v \<Rightarrow> 't) \<Rightarrow> 'v \<Rightarrow> 't list \<Rightarrow> nat \<Rightarrow> nat \<Rightarrow>
    nat \<Rightarrow> 't list \<Rightarrow> 't list option" where
  "topk_renorm_item ld st big probs vocab k t out = do {
     thresh \<leftarrow> topk_thresh ld probs vocab t k 0 big;
     renorm_row ld st probs vocab t thresh out }"

definition topp_bisect :: "('t \<Rightarrow> 'v::{plus,times,zero,ord}) \<Rightarrow> 'v \<Rightarrow> 't list \<Rightarrow> nat \<Rightarrow> nat \<Rightarrow> 'v \<Rightarrow> 'v \<times> 'v \<Rightarrow> ('v \<times> 'v) option" where
  "topp_bisect ld half probs vocab t top_p st = do {
     let (lo, hi) = st;
     let mid = half * (lo + hi);
     mass \<leftarrow> kept_mass ld probs vocab t mid;
     Some (if mass \<ge> top_p then (mid, hi) else (lo, mid)) }"

definition topp_renorm_item :: "('t \<Rightarrow> 'v::{plus,times,inverse,zero,one,ord}) \<Rightarrow> ('v \<Rightarrow> 't) \<Rightarrow> 'v \<Rightarrow> 't list \<Rightarrow> nat \<Rightarrow> 'v \<Rightarrow>
    nat \<Rightarrow> 't list \<Rightarrow> 't list option" where
  "topp_renorm_item ld st half probs vocab top_p t out = do {
     pmax \<leftarrow> foldM (\<lambda>v pmax. do { x \<leftarrow> rd probs (t * vocab + v); Some (fmax pmax (ld x)) }) [0..<vocab] 0;
     (lo, hi) \<leftarrow> foldM (\<lambda>_. topp_bisect ld half probs vocab t top_p) [0..<32] (0, pmax);
     renorm_row ld st probs vocab t lo out }"

text \<open>\<open>k\<close> outside \<open>1..64\<close> is rejected: the output is left as it was.\<close>

definition top_k_renorm_sycl :: "32 word list \<Rightarrow> nat \<Rightarrow> int \<Rightarrow> DType \<Rightarrow> nat list \<Rightarrow> 32 word list \<Rightarrow> 32 word list option" where
  "top_k_renorm_sycl probs vocab k dt sched out =
     (if k < 1 \<or> k > renorm_kMaxK then Some out
      else foldM (topk_renorm_item (elem_ld dt) (elem_st dt) (f32_of_rat 340000000000000000000000000000000000000) probs vocab (nat k)) sched out)"

definition top_p_renorm_sycl :: "32 word list \<Rightarrow> nat \<Rightarrow> f32 \<Rightarrow> DType \<Rightarrow> nat list \<Rightarrow> 32 word list \<Rightarrow> 32 word list option" where
  "top_p_renorm_sycl probs vocab top_p dt sched out =
     foldM (topp_renorm_item (elem_ld dt) (elem_st dt) (F32 0x3f000000) probs vocab top_p) sched out"

section \<open>Exact rows\<close>

text \<open>The probabilities of row \<open>t\<close>, the mass of those at least \<open>th\<close>, and the renormalized row.\<close>

definition prow :: "'v list \<Rightarrow> nat \<Rightarrow> nat \<Rightarrow> nat \<Rightarrow> 'v" where
  "prow probs vocab t v = probs ! (t * vocab + v)"

definition mass_from :: "(nat \<Rightarrow> 'v::{comm_monoid_add,ord}) \<Rightarrow> nat \<Rightarrow> 'v \<Rightarrow> 'v" where
  "mass_from p n th = (\<Sum>v<n. if th \<le> p v then p v else 0)"

definition renormed :: "(nat \<Rightarrow> 'v::linordered_field) \<Rightarrow> nat \<Rightarrow> 'v \<Rightarrow> nat \<Rightarrow> 'v" where
  "renormed p n th v = (if 0 < mass_from p n th then if th \<le> p v then p v / mass_from p n th else 0 else p v)"

lemma kept_mass_val:
  assumes "t * vocab + vocab \<le> length probs"
  shows "kept_mass id probs vocab t th = Some (mass_from (prow probs vocab t) vocab th)"
proof -
  have "kept_mass id probs vocab t th = Some (fold (\<lambda>v kept. kept + (if th \<le> prow probs vocab t v then prow probs vocab t v else 0)) [0..<vocab] 0)"
    unfolding kept_mass_def by (rule foldM_pure') (use assms in \<open>simp add: prow_def\<close>)
  then show ?thesis by (simp add: fold_plus_sum mass_from_def interv_sum_list_conv_sum_set_nat lessThan_atLeast0)
qed

lemma renorm_row_val:
  fixes probs :: "'v::linordered_field list"
  assumes "t * vocab + vocab \<le> length probs" "t * vocab + vocab \<le> length out"
  shows "\<exists>out'. renorm_row id id probs vocab t th out = Some out' \<and>
    writes {t * vocab..<t * vocab + vocab} (\<lambda>a. renormed (prow probs vocab t) vocab th (a - t * vocab)) out out'"
proof -
  let ?m = "mass_from (prow probs vocab t) vocab th"
  have "\<exists>out'. foldM (\<lambda>v out. do {
       x \<leftarrow> rd probs (t * vocab + v);
       let p = id x;
       wr out (t * vocab + v) (if ?m > 0 then id (if p \<ge> th then p * (if ?m > 0 then 1 / ?m else 0) else 0) else x) }) [0..<vocab] out = Some out' \<and>
    writes {t * vocab..<t * vocab + vocab} (\<lambda>a. renormed (prow probs vocab t) vocab th (a - t * vocab)) out out'"
    by (rule store_loop) (use assms in \<open>auto simp: renormed_def simp flip: prow_def\<close>)
  then show ?thesis by (simp add: renorm_row_def kept_mass_val [OF assms(1)] Let_def)
qed

lemma renorm_launch:
  fixes probs :: "'v::linordered_field list"
  assumes sched: "schedule rows sched" and len: "length probs = rows * vocab" "length out = rows * vocab"
    and thr: "\<And>t. t < rows \<Longrightarrow> thr t = Some (th t)"
  shows "foldM (\<lambda>t out. do { th \<leftarrow> thr t; renorm_row id id probs vocab t th out }) sched out =
    Some (map (\<lambda>a. renormed (prow probs vocab (a div vocab)) vocab (th (a div vocab)) (a mod vocab)) [0..<rows * vocab])"
proof (rule rows_launch [OF sched len(2)])
  fix t and m :: "'v list" assume t: "t < rows" "length m = rows * vocab"
  then show "\<exists>m'. do { th \<leftarrow> thr t; renorm_row id id probs vocab t th m } = Some m' \<and>
      writes {t * vocab..<t * vocab + vocab} (\<lambda>a. renormed (prow probs vocab t) vocab (th t) (a - t * vocab)) m m'"
    using renorm_row_val [of t vocab probs m "th t"] src_row [OF t(1), of vocab] len(1) by (simp add: thr)
qed

lemma renormed_sum: "0 < mass_from p n th \<Longrightarrow> (\<Sum>v<n. renormed p n th v) = 1"
proof -
  assume m: "0 < mass_from p n th"
  then have "(\<Sum>v<n. renormed p n th v) = (\<Sum>v<n. (if th \<le> p v then p v else 0) / mass_from p n th)"
    by (intro sum.cong) (auto simp: renormed_def)
  also have "\<dots> = mass_from p n th / mass_from p n th"
    unfolding sum_divide_distrib [symmetric] by (simp only: mass_from_def [symmetric])
  finally show ?thesis using m by simp
qed

lemma mass_from_pos:
  fixes p :: "nat \<Rightarrow> 'v::linordered_field"
  assumes "\<And>v. v < n \<Longrightarrow> 0 \<le> p v" "v < n" "th \<le> p v" "0 < p v"
  shows "0 < mass_from p n th"
  unfolding mass_from_def by (rule sum_pos2 [of _ v]) (use assms in auto)

lemma renormed_cases:
  fixes p q :: "nat \<Rightarrow> 'v::linordered_field"
  assumes "0 < n" "\<And>v. v < n \<Longrightarrow> 0 \<le> p v" "th \<le> Max (p ` {..<n})" "\<And>v. v < n \<Longrightarrow> q v = renormed p n th v"
  shows "if Max (p ` {..<n}) = 0 then \<forall>v<n. q v = p v
    else (\<Sum>v<n. q v) = 1 \<and> (\<forall>v<n. q v = (if th \<le> p v then p v / mass_from p n th else 0))"
proof (cases "Max (p ` {..<n}) = 0")
  case True
  have z: "p v = 0" if "v < n" for v using True assms(2) [OF that] Max_ge [of "p ` {..<n}" "p v"] that by simp
  then have "mass_from p n th = 0" unfolding mass_from_def by (intro sum.neutral) auto
  then show ?thesis using True assms(4) z by (simp add: renormed_def)
next
  case False
  have "Max (p ` {..<n}) \<in> p ` {..<n}" using assms(1) by (intro Max_in) auto
  then obtain v where v: "v < n" "p v = Max (p ` {..<n})" by auto
  have "0 < mass_from p n th"
    using mass_from_pos [of n p v th] assms(2,3) v False by (metis order_less_le)
  then show ?thesis using False assms(4) renormed_sum [of p n th] by (simp add: renormed_def)
qed

section \<open>The k-th largest distinct value\<close>

lemma topk_best_val:
  fixes probs :: "'v::linordered_field list"
  assumes len: "t * vocab + vocab \<le> length probs" and nn: "\<And>v. v < vocab \<Longrightarrow> 0 \<le> prow probs vocab t v"
  shows "topk_best id probs vocab t prev = Some (let S = {x \<in> prow probs vocab t ` {..<vocab}. x < prev} in if S = {} then - 1 else Max S)"
proof -
  let ?p = "prow probs vocab t"
  have "topk_best id probs vocab t prev = Some (fold (\<lambda>v best. if ?p v < prev \<and> ?p v > best then ?p v else best) [0..<vocab] (- 1))"
    unfolding topk_best_def by (rule foldM_pure') (use len in \<open>simp add: prow_def\<close>)
  moreover have "fold (\<lambda>v best. if ?p v < prev \<and> ?p v > best then ?p v else best) [0..<n] (- 1) =
      (let S = {x \<in> ?p ` {..<n}. x < prev} in if S = {} then - 1 else Max S)" if "n \<le> vocab" for n
    using that
  proof (induction n)
    case (Suc n)
    let ?S = "{x \<in> ?p ` {..<n}. x < prev}"
    have S: "{x \<in> ?p ` {..<Suc n}. x < prev} = (if ?p n < prev then insert (?p n) ?S else ?S)"
      by (auto simp: lessThan_Suc)
    have "- 1 < ?p n" using nn [of n] Suc.prems by (simp add: order_less_le_trans [of _ 0])
    moreover obtain mx where "Max ?S = mx" by simp
    moreover have "Max (insert (?p n) ?S) = max (?p n) (Max ?S)" if "?S \<noteq> {}" using that by (intro Max_insert) auto
    moreover have "fold (\<lambda>v best. if ?p v < prev \<and> ?p v > best then ?p v else best) [0..<n] (- 1) = (if ?S = {} then - 1 else Max ?S)"
      using Suc by (simp only: Let_def)
    ultimately show ?case unfolding S Let_def
      by (cases "?p n < prev"; cases "?S = {}") (simp_all only: if_True if_False, simp_all add: max_def)
  qed simp
  ultimately show ?thesis by simp
qed

lemma topk_thresh_val:
  fixes probs :: "'v::linordered_field list"
  assumes len: "t * vocab + vocab \<le> length probs" and nn: "\<And>v. v < vocab \<Longrightarrow> 0 \<le> prow probs vocab t v"
  defines "A \<equiv> prow probs vocab t ` {..<vocab}"
  shows "\<exists>r. topk_thresh id probs vocab t n th prev = Some r \<and>
    (if n = 0 \<or> {x \<in> A. x < prev} = {} then r = th
     else r \<in> A \<and> r < prev \<and> card {x \<in> A. r \<le> x \<and> x < prev} = min n (card {x \<in> A. x < prev}))"
proof (induction n arbitrary: th prev)
  case (Suc n)
  let ?S = "\<lambda>prev. {x \<in> A. x < prev}"
  have fin: "finite A" by (simp add: A_def)
  have best: "topk_best id probs vocab t prev = Some (if ?S prev = {} then - 1 else Max (?S prev))"
    unfolding A_def using topk_best_val [OF len, of prev] nn by (simp only: Let_def)
  show ?case
  proof (cases "?S prev = {}")
    case True
    then show ?thesis unfolding topk_thresh.simps best by simp
  next
    case False
    define b where "b = Max (?S prev)"
    have b: "b \<in> A" "b < prev" "\<And>x. x \<in> A \<Longrightarrow> x < prev \<Longrightarrow> x \<le> b"
      using Max_in [OF _ False] fin by (auto simp: b_def)
    have "0 \<le> b" using b(1) nn by (auto simp: A_def)
    then have step: "topk_thresh id probs vocab t (Suc n) th prev = topk_thresh id probs vocab t n b b"
      unfolding topk_thresh.simps best if_not_P [OF False] b_def [symmetric] by simp
    obtain r where r: "topk_thresh id probs vocab t n b b = Some r"
      "if n = 0 \<or> ?S b = {} then r = b else r \<in> A \<and> r < b \<and> card {x \<in> A. r \<le> x \<and> x < b} = min n (card (?S b))"
      using Suc.IH by blast
    have S: "?S prev = insert b (?S b)" using b by force
    then have cS: "card (?S prev) = Suc (card (?S b))" using fin by simp
    have "r \<in> A \<and> r < prev \<and> card {x \<in> A. r \<le> x \<and> x < prev} = min (Suc n) (card (?S prev))"
    proof (cases "n = 0 \<or> ?S b = {}")
      case True
      then have "r = b" using r(2) by simp
      moreover have "{x \<in> A. b \<le> x \<and> x < prev} = {b}" using b by force
      moreover have "n = 0 \<or> card (?S b) = 0" using True by (metis card.empty)
      then have "min (Suc n) (card (?S prev)) = 1" unfolding cS by auto
      ultimately show ?thesis using b by simp
    next
      case False
      then have r': "r \<in> A" "r < b" "card {x \<in> A. r \<le> x \<and> x < b} = min n (card (?S b))" using r(2) by auto
      have "{x \<in> A. r \<le> x \<and> x < prev} = insert b {x \<in> A. r \<le> x \<and> x < b}" using b r'(2) by force
      then have "card {x \<in> A. r \<le> x \<and> x < prev} = Suc (min n (card (?S b)))" using r'(3) fin by simp
      then show ?thesis using r' b cS by simp
    qed
    moreover have "\<not> (Suc n = 0 \<or> ?S prev = {})" using False by blast
    ultimately show ?thesis unfolding step r(1) by (simp only: if_False) blast
  qed
qed simp

text \<open>In exact arithmetic top-k renormalization keeps in every row exactly the values at least as large
  as the \<open>k\<close>-th largest \<^emph>\<open>distinct\<close> probability (all of them if there are fewer), zeroes the rest and
  scales the kept ones to sum 1; a row of zeros passes through unchanged.\<close>

theorem top_k_renorm_exact:
  fixes probs :: "'v::linordered_field list"
  assumes "schedule rows sched" "length probs = rows * vocab" "length out = rows * vocab" "0 < vocab" "0 < k"
    and "\<And>a. a < rows * vocab \<Longrightarrow> 0 \<le> probs ! a \<and> probs ! a < big"
  shows "\<exists>out' th. foldM (topk_renorm_item id id big probs vocab k) sched out = Some out' \<and>
    (\<forall>t<rows. let p = prow probs vocab t; q = prow out' vocab t; A = p ` {..<vocab} in
       th t \<in> A \<and> card {x \<in> A. th t \<le> x} = min k (card A) \<and>
       (if Max A = 0 then \<forall>v<vocab. q v = p v
        else (\<Sum>v<vocab. q v) = 1 \<and> (\<forall>v<vocab. q v = (if th t \<le> p v then p v / mass_from p vocab (th t) else 0))))"
proof -
  let ?p = "prow probs vocab"
  have nn: "0 \<le> ?p t v \<and> ?p t v < big" if "t < rows" "v < vocab" for t v
    using assms(6) div_mult_add_lt [OF that] by (simp add: prow_def)
  have "\<exists>r. topk_thresh id probs vocab t k 0 big = Some r \<and> r \<in> ?p t ` {..<vocab} \<and>
      card {x \<in> ?p t ` {..<vocab}. r \<le> x} = min k (card (?p t ` {..<vocab}))" if t: "t < rows" for t
  proof -
    have len: "t * vocab + vocab \<le> length probs" using src_row [OF t, of vocab] assms(2) by simp
    have A: "{x \<in> ?p t ` {..<vocab}. x < big} = ?p t ` {..<vocab}" "\<And>r. {x \<in> ?p t ` {..<vocab}. r \<le> x \<and> x < big} = {x \<in> ?p t ` {..<vocab}. r \<le> x}"
      using nn [OF t] by auto
    have "?p t ` {..<vocab} \<noteq> {}" using assms(4) by auto
    then show ?thesis using topk_thresh_val [OF len, of k 0 big] nn [OF t] assms(5) unfolding A by auto
  qed
  then have "\<forall>t. \<exists>r. t < rows \<longrightarrow> topk_thresh id probs vocab t k 0 big = Some r \<and> r \<in> ?p t ` {..<vocab} \<and>
      card {x \<in> ?p t ` {..<vocab}. r \<le> x} = min k (card (?p t ` {..<vocab}))" by blast
  from choice [OF this] obtain th where th: "\<And>t. t < rows \<Longrightarrow> topk_thresh id probs vocab t k 0 big = Some (th t)"
    "\<And>t. t < rows \<Longrightarrow> th t \<in> ?p t ` {..<vocab} \<and> card {x \<in> ?p t ` {..<vocab}. th t \<le> x} = min k (card (?p t ` {..<vocab}))" by blast
  let ?o = "map (\<lambda>a. renormed (?p (a div vocab)) vocab (th (a div vocab)) (a mod vocab)) [0..<rows * vocab]"
  have run: "foldM (topk_renorm_item id id big probs vocab k) sched out = Some ?o"
    using renorm_launch [OF assms(1-3), of "\<lambda>t. topk_thresh id probs vocab t k 0 big" th] th(1)
    unfolding topk_renorm_item_def [abs_def] by simp
  have q: "prow ?o vocab t v = renormed (?p t) vocab (th t) v" if "t < rows" "v < vocab" for t v
    using that div_mult_add_lt [OF that] by (simp add: prow_def)
  have "if Max (?p t ` {..<vocab}) = 0 then \<forall>v<vocab. prow ?o vocab t v = ?p t v
        else (\<Sum>v<vocab. prow ?o vocab t v) = 1 \<and> (\<forall>v<vocab. prow ?o vocab t v = (if th t \<le> ?p t v then ?p t v / mass_from (?p t) vocab (th t) else 0))"
    if t: "t < rows" for t
  proof (rule renormed_cases)
    show "th t \<le> Max (?p t ` {..<vocab})" using th(2) [OF t] by simp
  qed (use assms(4) nn [OF t] q [OF t] in auto)
  then show ?thesis using run th(2) unfolding Let_def by blast
qed

section \<open>The nucleus threshold\<close>

lemma mass_from_mono:
  fixes p :: "nat \<Rightarrow> 'v::linordered_field"
  assumes "\<And>v. v < n \<Longrightarrow> 0 \<le> p v" "x \<le> y"
  shows "mass_from p n y \<le> mass_from p n x"
  unfolding mass_from_def by (rule sum_mono) (use assms in auto)

lemma topp_search:
  fixes probs :: "'v::linordered_field list"
  assumes len: "t * vocab + vocab \<le> length probs" and pmax: "0 \<le> pmax"
  shows "\<exists>st. foldM (\<lambda>_. topp_bisect id (1 / 2) probs vocab t top_p) [0..<n] (0, pmax) = Some st \<and>
    0 \<le> fst st \<and> snd st = fst st + pmax / 2 ^ n \<and> snd st \<le> pmax \<and>
    (fst st = 0 \<or> top_p \<le> mass_from (prow probs vocab t) vocab (fst st)) \<and>
    (snd st = pmax \<or> mass_from (prow probs vocab t) vocab (snd st) < top_p)"
    (is "\<exists>st. _ \<and> ?P n st")
proof (rule foldM_upt [where P = ?P])
  fix i and st :: "'v \<times> 'v" assume P: "?P i st"
  obtain lo hi where st: "st = (lo, hi)" by fastforce
  define h where "h = pmax / 2 ^ Suc i"
  have e: "pmax / 2 ^ i = 2 * h" by (simp add: h_def field_simps)
  have hi: "hi = lo + 2 * h" "0 \<le> lo" "hi \<le> pmax" using P st e by simp_all
  have bound: "lo = 0 \<or> top_p \<le> mass_from (prow probs vocab t) vocab lo" "hi = pmax \<or> mass_from (prow probs vocab t) vocab hi < top_p"
    using P unfolding st fst_conv snd_conv by blast+
  from hi have mid: "1 / 2 * (lo + hi) = lo + h" by (simp add: field_simps)
  have nn: "0 \<le> h" using pmax by (simp add: h_def)
  show "\<exists>s'. topp_bisect id (1 / 2) probs vocab t top_p st = Some s' \<and> ?P (Suc i) s'"
  proof (cases "top_p \<le> mass_from (prow probs vocab t) vocab (lo + h)")
    case True
    have "topp_bisect id (1 / 2) probs vocab t top_p st = Some (lo + h, hi)"
      using True unfolding topp_bisect_def st Let_def prod.case mid kept_mass_val [OF len] by simp
    moreover have "0 \<le> lo + h" "hi = lo + h + h" using hi nn by (simp_all add: add.assoc)
    then have "?P (Suc i) (lo + h, hi)" using hi(3) True bound unfolding h_def [symmetric] fst_conv snd_conv by blast
    ultimately show ?thesis by blast
  next
    case False
    have "topp_bisect id (1 / 2) probs vocab t top_p st = Some (lo, lo + h)"
      using False unfolding topp_bisect_def st Let_def prod.case mid kept_mass_val [OF len] by simp
    moreover have "lo + h \<le> pmax" "mass_from (prow probs vocab t) vocab (lo + h) < top_p" using hi nn False by simp_all
    then have "?P (Suc i) (lo, lo + h)" using hi(2) bound unfolding h_def [symmetric] fst_conv snd_conv by blast
    ultimately show ?thesis by blast
  qed
qed (use pmax in simp_all)

lemma topp_max:
  fixes probs :: "'v::linordered_field list"
  assumes len: "t * vocab + vocab \<le> length probs" and nn: "\<And>v. v < vocab \<Longrightarrow> 0 \<le> prow probs vocab t v" and "0 < vocab"
  shows "foldM (\<lambda>v pmax. do { x \<leftarrow> rd probs (t * vocab + v); Some (fmax pmax (id x)) }) [0..<vocab] 0 = Some (Max (prow probs vocab t ` {..<vocab}))"
proof -
  let ?p = "prow probs vocab t"
  have "foldM (\<lambda>v pmax. do { x \<leftarrow> rd probs (t * vocab + v); Some (fmax pmax (id x)) }) [0..<vocab] 0 = Some (fold (\<lambda>v pmax. max pmax (?p v)) [0..<vocab] 0)"
    by (rule foldM_pure') (use len in \<open>simp add: prow_def fmax_def max_def\<close>)
  moreover have "fold (\<lambda>v pmax. max pmax (?p v)) [0..<Suc n] 0 = Max (?p ` {..<Suc n})" if "Suc n \<le> vocab" for n
    using that
  proof (induction n)
    case 0
    then show ?case using nn [of 0] by (simp add: max_def lessThan_Suc)
  next
    case (Suc n)
    have "Max (?p ` {..<Suc (Suc n)}) = max (?p (Suc n)) (Max (?p ` {..<Suc n}))"
      by (subst lessThan_Suc, simp only: image_insert, rule Max_insert) auto
    then show ?case using Suc by (simp add: max.commute)
  qed
  ultimately show ?thesis using assms(3) by (cases vocab) auto
qed

text \<open>C21: in exact arithmetic top-p renormalization uses for every row a threshold within \<open>max / 2 ^ 32\<close> of the
  largest one whose kept mass reaches \<open>top_p\<close>: the kept mass reaches \<open>top_p\<close> whenever the row's does,
  no threshold further up does, the kept values (ties included) are scaled to sum 1 and the rest zeroed; a row
  of zeros passes through unchanged.\<close>

theorem top_p_renorm_exact:
  fixes probs :: "'v::linordered_field list"
  assumes "schedule rows sched" "length probs = rows * vocab" "length out = rows * vocab" "0 < vocab" "0 < top_p"
    and "\<And>a. a < rows * vocab \<Longrightarrow> 0 \<le> probs ! a"
  shows "\<exists>out' th. foldM (topp_renorm_item id id (1 / 2) probs vocab top_p) sched out = Some out' \<and>
    (\<forall>t<rows. let p = prow probs vocab t; q = prow out' vocab t; pmax = Max (p ` {..<vocab}) in
       0 \<le> th t \<and> (top_p \<le> (\<Sum>v<vocab. p v) \<longrightarrow> top_p \<le> mass_from p vocab (th t)) \<and>
       (\<forall>x>th t + pmax / 2 ^ 32. mass_from p vocab x < top_p) \<and>
       (if pmax = 0 then \<forall>v<vocab. q v = p v
        else (\<Sum>v<vocab. q v) = 1 \<and> (\<forall>v<vocab. q v = (if th t \<le> p v then p v / mass_from p vocab (th t) else 0))))"
proof -
  let ?p = "prow probs vocab"
  let ?M = "\<lambda>t. Max (?p t ` {..<vocab})"
  let ?thr = "\<lambda>t. do {
     pmax \<leftarrow> foldM (\<lambda>v pmax. do { x \<leftarrow> rd probs (t * vocab + v); Some (fmax pmax (id x)) }) [0..<vocab] 0;
     (lo, hi) \<leftarrow> foldM (\<lambda>_. topp_bisect id (1 / 2) probs vocab t top_p) [0..<32] (0, pmax);
     Some lo }"
  have nn: "0 \<le> ?p t v" if "t < rows" "v < vocab" for t v
    using assms(6) div_mult_add_lt [OF that] by (simp add: prow_def)
  have M: "?M t \<in> ?p t ` {..<vocab}" for t using assms(4) by (intro Max_in) auto
  have M0: "0 \<le> ?M t" if "t < rows" for t using M [of t] nn [OF that] by auto
  have "\<exists>th. ?thr t = Some th \<and> 0 \<le> th \<and> th + ?M t / 2 ^ 32 \<le> ?M t \<and> (th = 0 \<or> top_p \<le> mass_from (?p t) vocab th) \<and>
      (th + ?M t / 2 ^ 32 = ?M t \<or> mass_from (?p t) vocab (th + ?M t / 2 ^ 32) < top_p)" if t: "t < rows" for t
  proof -
    have len: "t * vocab + vocab \<le> length probs" using src_row [OF t, of vocab] assms(2) by simp
    have mx: "foldM (\<lambda>v pmax. do { x \<leftarrow> rd probs (t * vocab + v); Some (fmax pmax (id x)) }) [0..<vocab] 0 = Some (?M t)"
      by (rule topp_max [OF len _ assms(4)]) (rule nn [OF t])
    obtain lo hi where st: "foldM (\<lambda>_. topp_bisect id (1 / 2) probs vocab t top_p) [0..<32] (0, ?M t) = Some (lo, hi)"
      and b: "0 \<le> lo" "hi = lo + ?M t / 2 ^ 32" "hi \<le> ?M t" "lo = 0 \<or> top_p \<le> mass_from (?p t) vocab lo" "hi = ?M t \<or> mass_from (?p t) vocab hi < top_p"
      using topp_search [OF len M0 [OF t], of top_p 32] by (metis prod.collapse)
    have "?thr t = Some lo" unfolding mx bind.bind_lunit st prod.case ..
    then show ?thesis using b(1,3-5) unfolding b(2) by blast
  qed
  then have "\<forall>t. \<exists>th. t < rows \<longrightarrow> ?thr t = Some th \<and> 0 \<le> th \<and> th + ?M t / 2 ^ 32 \<le> ?M t \<and> (th = 0 \<or> top_p \<le> mass_from (?p t) vocab th) \<and>
      (th + ?M t / 2 ^ 32 = ?M t \<or> mass_from (?p t) vocab (th + ?M t / 2 ^ 32) < top_p)" by blast
  from choice [OF this] obtain th where th: "\<And>t. t < rows \<Longrightarrow> ?thr t = Some (th t)" "\<And>t. t < rows \<Longrightarrow> 0 \<le> th t"
    "\<And>t. t < rows \<Longrightarrow> th t + ?M t / 2 ^ 32 \<le> ?M t" "\<And>t. t < rows \<Longrightarrow> th t = 0 \<or> top_p \<le> mass_from (?p t) vocab (th t)"
    "\<And>t. t < rows \<Longrightarrow> th t + ?M t / 2 ^ 32 = ?M t \<or> mass_from (?p t) vocab (th t + ?M t / 2 ^ 32) < top_p" by blast
  let ?o = "map (\<lambda>a. renormed (?p (a div vocab)) vocab (th (a div vocab)) (a mod vocab)) [0..<rows * vocab]"
  have item: "topp_renorm_item id id (1 / 2) probs vocab top_p = (\<lambda>t out. do { th \<leftarrow> ?thr t; renorm_row id id probs vocab t th out })"
    by (simp add: topp_renorm_item_def fun_eq_iff Option.bind_assoc case_prod_unfold)
  have run: "foldM (topp_renorm_item id id (1 / 2) probs vocab top_p) sched out = Some ?o"
    unfolding item using th(1) by (intro renorm_launch assms(1-3))
  have q: "prow ?o vocab t v = renormed (?p t) vocab (th t) v" if "t < rows" "v < vocab" for t v
    using that div_mult_add_lt [OF that] by (simp add: prow_def)
  have above: "mass_from (?p t) vocab x < top_p" if t: "t < rows" and x: "x > th t + ?M t / 2 ^ 32" for t x
  proof (cases "mass_from (?p t) vocab (th t + ?M t / 2 ^ 32) < top_p")
    case True
    then show ?thesis using mass_from_mono [of vocab "?p t" "th t + ?M t / 2 ^ 32" x] nn [OF t] x by auto
  next
    case False
    then have "?M t < x" using th(5) [OF t] x by auto
    moreover have "?p t v \<le> ?M t" if "v < vocab" for v using that by (intro Max_ge) auto
    ultimately have "\<not> x \<le> ?p t v" if "v < vocab" for v using that by (meson leD le_less_trans not_less)
    then have "mass_from (?p t) vocab x = 0" unfolding mass_from_def by (intro sum.neutral) auto
    then show ?thesis using assms(5) by simp
  qed
  have reach: "top_p \<le> (\<Sum>v<vocab. ?p t v) \<longrightarrow> top_p \<le> mass_from (?p t) vocab (th t)" if t: "t < rows" for t
  proof -
    have "mass_from (?p t) vocab 0 = (\<Sum>v<vocab. ?p t v)" unfolding mass_from_def using nn [OF t] by (intro sum.cong) auto
    then show ?thesis using th(4) [OF t] by auto
  qed
  have "if ?M t = 0 then \<forall>v<vocab. prow ?o vocab t v = ?p t v
        else (\<Sum>v<vocab. prow ?o vocab t v) = 1 \<and> (\<forall>v<vocab. prow ?o vocab t v = (if th t \<le> ?p t v then ?p t v / mass_from (?p t) vocab (th t) else 0))"
    if t: "t < rows" for t
  proof (rule renormed_cases)
    show "th t \<le> ?M t" using th(3) [OF t] M0 [OF t] by (meson dual_order.trans le_add_same_cancel1 divide_nonneg_pos zero_less_numeral zero_less_power)
  qed (use assms(4) nn [OF t] q [OF t] in auto)
  then show ?thesis using run th(2) above reach unfolding Let_def by blast
qed

theorem top_p_renorm_exact_witness:
  "\<exists>out'. foldM (topp_renorm_item id id (1 / 2) [1/2, 1/4, 1/4 :: rat] 3 (1/2)) [0] [0, 0, 0] = Some out' \<and>
     (\<Sum>v<3. prow out' 3 0 v) = 1 \<and> prow out' 3 0 1 = 0"
proof -
  let ?l = "[1/2, 1/4, 1/4] :: rat list"
  have o: "schedule 1 [0]" by (auto simp: schedule_def)
  have l: "length ?l = 1 * 3" "length [0, 0, 0 :: rat] = 1 * 3" "0 < (3 :: nat)" "0 < (1/2 :: rat)" by simp_all
  have b: "0 \<le> ?l ! a" if a: "a < 1 * 3" for a
  proof -
    consider "a = 0" | "a = 1" | "a = 2" using a by linarith
    then show ?thesis by cases simp_all
  qed
  have u: "{..<3} = {0, 1, 2 :: nat}" by auto
  have A: "Max (prow ?l 3 0 ` {..<3}) = 1/2" unfolding u by (simp add: prow_def)
  have z: "(0 :: nat) < 1" by simp
  obtain out' th where o': "foldM (topp_renorm_item id id (1 / 2) ?l 3 (1/2)) [0] [0, 0, 0] = Some out'"
    and all: "\<forall>t<1. let p = prow ?l 3 t; q = prow out' 3 t; pmax = Max (p ` {..<3}) in
       0 \<le> th t \<and> (1/2 \<le> (\<Sum>v<3. p v) \<longrightarrow> 1/2 \<le> mass_from p 3 (th t)) \<and>
       (\<forall>x>th t + pmax / 2 ^ 32. mass_from p 3 x < 1/2) \<and>
       (if pmax = 0 then \<forall>v<3. q v = p v
        else (\<Sum>v<3. q v) = 1 \<and> (\<forall>v<3. q v = (if th t \<le> p v then p v / mass_from p 3 (th t) else 0)))"
    using top_p_renorm_exact [OF o l b] by blast
  note row = all [rule_format, OF z, unfolded Let_def A]
  have "(1/2 :: rat) \<noteq> 0" by simp
  then have q: "(\<Sum>v<3. prow out' 3 0 v) = 1" "\<forall>v<3. prow out' 3 0 v = (if th 0 \<le> prow ?l 3 0 v then prow ?l 3 0 v / mass_from (prow ?l 3 0) 3 (th 0) else 0)"
    using row by (metis (no_types, lifting))+
  have up: "\<forall>x>th 0 + 1/2 / 2 ^ 32. mass_from (prow ?l 3 0) 3 x < 1/2" using row by blast
  have "mass_from (prow ?l 3 0) 3 (1/2) = 1/2" unfolding mass_from_def u by (simp add: prow_def)
  then have "\<not> th 0 + 1/2 / 2 ^ 32 < 1/2" using up by (metis less_irrefl)
  then have "1/4 < th 0" by simp
  then have "prow out' 3 0 1 = 0" using q(2) [rule_format, of 1] by (simp add: prow_def)
  then show ?thesis using o' q(1) by blast
qed

end
