(* ===== verification/Rendezvous.thy ===== *)
theory Rendezvous
  imports Prelude "HOL-Library.Word"
begin

text \<open>
  The flag protocol of the all-reduce (\<open>rendezvous\<close> in \<open>all_reduce.sycl.cpp\<close>), for one work-group
  number and \<open>world\<close> ranks.

  A rank's region holds \<open>flag p from\<close>, the last value rank \<open>from\<close> stored for phase \<open>p\<close>, and the
  counter \<open>gen\<close>.  In a rendezvous work-item \<open>l < world\<close> of rank \<open>r\<close> loads its target \<open>gen + 1\<close>, stores
  it into rank \<open>l\<close>'s region, and spins until rank \<open>l\<close>'s flag in its own region is no longer below it;
  work-item 0 then stores the target into \<open>gen\<close>, after the trailing barrier, or in the depart phase,
  which has none, right after its own spin.  \<open>ep r\<close> counts the rendezvous rank \<open>r\<close> has left, and
  \<open>phases n\<close> is the phase of the \<open>n\<close>-th one: every rank runs the same sequence of collectives, so it is
  one function.  A step is one memory access; the leading barrier makes all work-items of the group start
  a rendezvous together, so they are at \<open>Begin\<close> when it is entered.  The spin bound \<open>kSpinCap\<close> is
  taken not to be reached.  Nothing is assumed of how the work-items of a group interleave between barriers: in
  the depart phase work-item 0 may store \<open>gen\<close> before another one has loaded it.
\<close>

definition kArPhaseArrive :: nat where "kArPhaseArrive = 0"
definition kArPhaseMid :: nat where "kArPhaseMid = 1"
definition kArPhaseDepart :: nat where "kArPhaseDepart = 2"

datatype lane = Begin | Loaded "32 word" | Published "32 word" | Passed "32 word"

record ar_state =
  gen :: "nat \<Rightarrow> 32 word"
  flag :: "nat \<Rightarrow> nat \<Rightarrow> nat \<Rightarrow> 32 word"
  lane :: "nat \<Rightarrow> nat \<Rightarrow> lane"
  ep :: "nat \<Rightarrow> nat"
  bumped :: "nat \<Rightarrow> bool"

fun is_passed :: "lane \<Rightarrow> bool" where
  "is_passed (Passed _) = True"
| "is_passed _ = False"

fun is_published :: "lane \<Rightarrow> bool" where
  "is_published (Published _) = True"
| "is_published (Passed _) = True"
| "is_published _ = False"

definition trailing :: "nat \<Rightarrow> bool" where
  "trailing p \<longleftrightarrow> p \<noteq> kArPhaseDepart"

definition set_lane :: "nat \<Rightarrow> nat \<Rightarrow> lane \<Rightarrow> ar_state \<Rightarrow> ar_state" where
  "set_lane r l c s = s\<lparr>lane := (lane s)(r := (lane s r)(l := c))\<rparr>"

inductive ar_step :: "nat \<Rightarrow> (nat \<Rightarrow> nat) \<Rightarrow> nat \<Rightarrow> ar_state \<Rightarrow> ar_state \<Rightarrow> bool"
  for world phases N where
  load: "r < world \<Longrightarrow> l < world \<Longrightarrow> ep s r < N \<Longrightarrow> lane s r l = Begin \<Longrightarrow>
    ar_step world phases N s (set_lane r l (Loaded (gen s r + 1)) s)"
| publish: "r < world \<Longrightarrow> l < world \<Longrightarrow> ep s r < N \<Longrightarrow> lane s r l = Loaded t \<Longrightarrow>
    ar_step world phases N s (set_lane r l (Published t)
      (s\<lparr>flag := (flag s)(l := (flag s l)(phases (ep s r) := (flag s l (phases (ep s r)))(r := t)))\<rparr>))"
| observe: "r < world \<Longrightarrow> l < world \<Longrightarrow> ep s r < N \<Longrightarrow> lane s r l = Published t \<Longrightarrow>
    \<not> flag s r (phases (ep s r)) l < t \<Longrightarrow> ar_step world phases N s (set_lane r l (Passed t) s)"
| bump: "r < world \<Longrightarrow> ep s r < N \<Longrightarrow> lane s r 0 = Passed t \<Longrightarrow> \<not> bumped s r \<Longrightarrow>
    (trailing (phases (ep s r)) \<longrightarrow> (\<forall>l<world. is_passed (lane s r l))) \<Longrightarrow>
    ar_step world phases N s (s\<lparr>gen := (gen s)(r := t), bumped := (bumped s)(r := True)\<rparr>)"
| leave: "r < world \<Longrightarrow> ep s r < N \<Longrightarrow> (\<forall>l<world. is_passed (lane s r l)) \<Longrightarrow> bumped s r \<Longrightarrow>
    ar_step world phases N s (s\<lparr>ep := (ep s)(r := Suc (ep s r)), lane := (lane s)(r := \<lambda>_. Begin), bumped := (bumped s)(r := False)\<rparr>)"

text \<open>Regions are zero-filled once.\<close>

definition ar_init :: ar_state where
  "ar_init = \<lparr>gen = \<lambda>_. 0, flag = \<lambda>_ _ _. 0, lane = \<lambda>_ _. Begin, ep = \<lambda>_. 0, bumped = \<lambda>_. False\<rparr>"

inductive ar_run :: "nat \<Rightarrow> (nat \<Rightarrow> nat) \<Rightarrow> nat \<Rightarrow> nat \<Rightarrow> ar_state \<Rightarrow> bool"
  for world phases N where
  start: "ar_run world phases N 0 ar_init"
| step: "ar_run world phases N k s \<Longrightarrow> ar_step world phases N s s' \<Longrightarrow> ar_run world phases N (Suc k) s'"

section \<open>The invariant\<close>

text \<open>Rank \<open>r\<close> has stored its flag of rendezvous \<open>m\<close> in rank \<open>l\<close>'s region, or passed it.\<close>

definition stored :: "ar_state \<Rightarrow> nat \<Rightarrow> nat \<Rightarrow> nat \<Rightarrow> bool" where
  "stored s r l m \<longleftrightarrow> m < ep s r \<or> (m = ep s r \<and> is_published (lane s r l))"

definition passed :: "ar_state \<Rightarrow> nat \<Rightarrow> nat \<Rightarrow> nat \<Rightarrow> bool" where
  "passed s r l m \<longleftrightarrow> m < ep s r \<or> (m = ep s r \<and> is_passed (lane s r l))"

fun lane_target :: "lane \<Rightarrow> 32 word option" where
  "lane_target Begin = None"
| "lane_target (Loaded t) = Some t"
| "lane_target (Published t) = Some t"
| "lane_target (Passed t) = Some t"

definition rank_inv :: "nat \<Rightarrow> (nat \<Rightarrow> nat) \<Rightarrow> nat \<Rightarrow> ar_state \<Rightarrow> nat \<Rightarrow> bool" where
  "rank_inv world phases N s r \<longleftrightarrow> ep s r \<le> N \<and>
     unat (gen s r) = ep s r + (if bumped s r then 1 else 0) \<and>
     (bumped s r \<longrightarrow> ep s r < N \<and> (trailing (phases (ep s r)) \<longrightarrow> (\<forall>l<world. is_passed (lane s r l)))) \<and>
     (\<forall>l<world. \<forall>t. lane_target (lane s r l) = Some t \<longrightarrow> ep s r < N \<and>
       (unat t = ep s r + 1 \<or> (bumped s r \<and> \<not> trailing (phases (ep s r)) \<and> unat t = ep s r + 2)))"

definition flag_inv :: "(nat \<Rightarrow> nat) \<Rightarrow> ar_state \<Rightarrow> nat \<Rightarrow> nat \<Rightarrow> bool" where
  "flag_inv phases s r l \<longleftrightarrow> (\<forall>p. 
     (unat (flag s l p r) = 0 \<or> (\<exists>m. phases m = p \<and> stored s r l m \<and> unat (flag s l p r) \<le> m + 2)) \<and>
     (\<forall>m. phases m = p \<and> stored s r l m \<longrightarrow> m + 1 \<le> unat (flag s l p r)))"

definition ar_inv :: "nat \<Rightarrow> (nat \<Rightarrow> nat) \<Rightarrow> nat \<Rightarrow> ar_state \<Rightarrow> bool" where
  "ar_inv world phases N s \<longleftrightarrow> (\<forall>r<world. rank_inv world phases N s r \<and>
     (\<forall>l<world. flag_inv phases s r l \<and> (\<forall>m. passed s r l m \<longrightarrow> stored s l r m)))"

lemma stored_down: "stored s r l m \<Longrightarrow> n \<le> m \<Longrightarrow> stored s r l n"
  by (auto simp: stored_def)

lemma passed_stored: "is_passed c \<Longrightarrow> is_published c"
  by (cases c) auto

lemma lane_fields [simp]:
  "gen (set_lane r l c s) = gen s" "flag (set_lane r l c s) = flag s" "ep (set_lane r l c s) = ep s" "bumped (set_lane r l c s) = bumped s"
  "lane (set_lane r l c s) r' l' = (if r' = r \<and> l' = l then c else lane s r' l')"
  by (simp_all add: set_lane_def)

lemma ar_inv_init: "ar_inv world phases N ar_init"
  by (simp add: ar_inv_def ar_init_def rank_inv_def flag_inv_def stored_def passed_def)

lemma ar_inv_rank: "ar_inv world phases N s \<Longrightarrow> r < world \<Longrightarrow> rank_inv world phases N s r"
  by (simp add: ar_inv_def)

lemma ar_inv_target:
  assumes "ar_inv world phases N s" "r < world" "l < world" "lane_target (lane s r l) = Some t"
  shows "unat t = ep s r + 1 \<or> (bumped s r \<and> \<not> trailing (phases (ep s r)) \<and> unat t = ep s r + 2)"
  using ar_inv_rank [OF assms(1,2)] assms(3,4) unfolding rank_inv_def by blast

lemma ar_inv_load:
  assumes inv: "ar_inv world phases N s" and N: "N + 2 < 2 ^ 32"
    and r: "r < world" "l < world" "ep s r < N" "lane s r l = Begin"
  shows "ar_inv world phases N (set_lane r l (Loaded (gen s r + 1)) s)"
proof -
  let ?s = "set_lane r l (Loaded (gen s r + 1)) s"
  have g: "unat (gen s r) = ep s r + (if bumped s r then 1 else 0)" and
    b: "bumped s r \<Longrightarrow> \<not> trailing (phases (ep s r))"
    using inv r unfolding ar_inv_def rank_inv_def by (auto, metis is_passed.simps(2))
  have t: "unat (gen s r + 1) = unat (gen s r) + 1"
    using N r(3) g by (simp add: unat_word_ariths split: if_splits)
  have st: "stored ?s = stored s" "passed ?s = passed s"
    using r(4) by (auto simp: stored_def passed_def fun_eq_iff)
  have "rank_inv world phases N ?s r'" if "r' < world" for r'
    using inv that r t g b unfolding ar_inv_def rank_inv_def by auto
  then show ?thesis using inv unfolding ar_inv_def flag_inv_def st by simp
qed

lemma ar_inv_publish:
  assumes inv: "ar_inv world phases N s"
    and r: "r < world" "l < world" "ep s r < N" "lane s r l = Loaded t"
  shows "ar_inv world phases N (set_lane r l (Published t)
      (s\<lparr>flag := (flag s)(l := (flag s l)(phases (ep s r) := (flag s l (phases (ep s r)))(r := t)))\<rparr>))"
    (is "ar_inv world phases N ?s")
proof -
  have t: "ep s r + 1 \<le> unat t" "unat t \<le> ep s r + 2"
    using ar_inv_target [OF inv r(1,2), of t] r(4) by auto
  have rank: "rank_inv world phases N ?s r'" if "r' < world" for r'
    using ar_inv_rank [OF inv that] r unfolding rank_inv_def by auto
  have st: "stored ?s a b m \<longleftrightarrow> stored s a b m \<or> (a = r \<and> b = l \<and> m = ep s r)" for a b m
    by (auto simp: stored_def r(4))
  have pa: "passed ?s = passed s" using r(4) by (auto simp: passed_def fun_eq_iff)
  have "flag_inv phases ?s a b" if ab: "a < world" "b < world" for a b
  proof (cases "a = r \<and> b = l")
    case True
    have f: "flag_inv phases s r l" using inv r unfolding ar_inv_def by blast
    have le: "Suc m \<le> unat t" if "stored s r l m" for m using that t(1) by (auto simp: stored_def)
    show ?thesis using f t True unfolding flag_inv_def st by (auto simp: fun_upd_def dest: le)
  next
    case False
    then have "flag ?s b p a = flag s b p a" for p by auto
    moreover have "stored ?s a b = stored s a b" using st False by auto
    moreover have "flag_inv phases s a b" using inv ab unfolding ar_inv_def by blast
    ultimately show ?thesis unfolding flag_inv_def by metis
  qed
  then show ?thesis using rank inv unfolding ar_inv_def pa st by blast
qed

lemma ar_inv_observe:
  assumes inv: "ar_inv world phases N s" and alt: "\<And>n. phases (Suc n) \<noteq> phases n"
    and r: "r < world" "l < world" "ep s r < N" "lane s r l = Published t" "\<not> flag s r (phases (ep s r)) l < t"
  shows "ar_inv world phases N (set_lane r l (Passed t) s)" (is "ar_inv world phases N ?s")
proof -
  have t: "ep s r + 1 \<le> unat t" using ar_inv_target [OF inv r(1,2), of t] r(4) by auto
  have rank: "rank_inv world phases N ?s r'" if "r' < world" for r'
    using ar_inv_rank [OF inv that] r(1-4) unfolding rank_inv_def by auto
  have st: "stored ?s = stored s" using r(4) by (auto simp: stored_def fun_eq_iff)
  have pa: "passed ?s a b m \<longleftrightarrow> passed s a b m \<or> (a = r \<and> b = l \<and> m = ep s r)" for a b m
    by (auto simp: passed_def r(4))
  have "flag_inv phases s l r" using inv r unfolding ar_inv_def by blast
  moreover have "ep s r + 1 \<le> unat (flag s r (phases (ep s r)) l)" using r(5) t by (simp add: word_less_nat_alt)
  ultimately obtain m where m: "phases m = phases (ep s r)" "stored s l r m" "ep s r + 1 \<le> m + 2"
    unfolding flag_inv_def by (metis le_trans not_one_le_zero add_is_0 le_zero_eq one_neq_zero)
  have "ep s r \<le> m"
  proof (rule ccontr)
    assume "\<not> ep s r \<le> m"
    then have "ep s r = Suc m" using m(3) by simp
    then show False using alt [of m] m(1) by simp
  qed
  then have "stored s l r (ep s r)" using stored_down m(2) by blast
  moreover have "flag_inv phases ?s a b = flag_inv phases s a b" for a b by (simp add: flag_inv_def st)
  ultimately show ?thesis using rank inv unfolding ar_inv_def pa st by blast
qed

lemma ar_inv_bump:
  assumes inv: "ar_inv world phases N s"
    and r: "r < world" "ep s r < N" "lane s r 0 = Passed t" "\<not> bumped s r" "trailing (phases (ep s r)) \<longrightarrow> (\<forall>l<world. is_passed (lane s r l))"
  shows "ar_inv world phases N (s\<lparr>gen := (gen s)(r := t), bumped := (bumped s)(r := True)\<rparr>)" (is "ar_inv world phases N ?s")
proof -
  have t: "unat t = ep s r + 1" using ar_inv_target [OF inv r(1), of 0 t] r(1,3,4) by auto
  have rank: "rank_inv world phases N ?s r'" if "r' < world" for r'
    using ar_inv_rank [OF inv that] r t unfolding rank_inv_def by auto
  have "stored ?s = stored s" "passed ?s = passed s" by (auto simp: stored_def passed_def fun_eq_iff)
  then show ?thesis using inv rank unfolding ar_inv_def flag_inv_def by simp
qed

lemma ar_inv_leave:
  assumes inv: "ar_inv world phases N s"
    and r: "r < world" "ep s r < N" "\<forall>l<world. is_passed (lane s r l)" "bumped s r"
  shows "ar_inv world phases N (s\<lparr>ep := (ep s)(r := Suc (ep s r)), lane := (lane s)(r := \<lambda>_. Begin), bumped := (bumped s)(r := False)\<rparr>)"
    (is "ar_inv world phases N ?s")
proof -
  have rank: "rank_inv world phases N ?s r'" if "r' < world" for r'
    using ar_inv_rank [OF inv that] r unfolding rank_inv_def by (cases "r' = r") auto
  have st: "stored ?s a b m \<longleftrightarrow> stored s a b m" if "b < world" for a b m
    using r(3) that passed_stored by (auto simp: stored_def less_Suc_eq)
  have pa: "passed ?s a b m \<longleftrightarrow> passed s a b m" if "b < world" for a b m
    using r(3) that by (auto simp: passed_def less_Suc_eq)
  have "flag_inv phases ?s a b = flag_inv phases s a b" if "b < world" for a b
    using st [OF that] by (simp add: flag_inv_def)
  then show ?thesis using rank inv st pa by (simp add: ar_inv_def)
qed

lemma ar_inv_step:
  assumes "ar_inv world phases N s" "ar_step world phases N s s'" and b: "N + 2 < 2 ^ 32" and alt: "\<And>n. phases (Suc n) \<noteq> phases n"
  shows "ar_inv world phases N s'"
  using assms(2)
proof cases
  case load
  then show ?thesis using ar_inv_load [OF assms(1) b] by simp
next
  case publish
  then show ?thesis using ar_inv_publish [OF assms(1)] by simp
next
  case (observe r l t)
  then show ?thesis using ar_inv_observe [where phases = phases, OF assms(1) alt] by simp
next
  case bump
  then show ?thesis using ar_inv_bump [OF assms(1)] by simp
next
  case leave
  then show ?thesis using ar_inv_leave [OF assms(1)] by simp
qed

lemma ar_inv_run:
  assumes "ar_run world phases N k s" "N + 2 < 2 ^ 32" "\<And>n. phases (Suc n) \<noteq> phases n"
  shows "ar_inv world phases N s"
  using assms(1)
proof induction
  case (step k s s')
  show ?case by (rule ar_inv_step [where phases = phases, OF step.IH step.hyps(2) assms(2,3)])
qed (rule ar_inv_init)

text \<open>C1: at no moment of any execution, over any number of collectives up to the range of the counters, is a rank
  past a rendezvous that another rank has not reached: ranks are never more than one rendezvous apart,
  and a rank that is one ahead of \<open>s\<close>, or has a work-item through the current one, finds \<open>s\<close> inside it, having
  stored its flag; so everything \<open>s\<close> did before that rendezvous is done.  No order among the
  work-items of a group is assumed beyond its barriers.\<close>

theorem rendezvous_safe:
  assumes "ar_run world phases N k s" "N + 2 < 2 ^ 32" "\<And>n. phases (Suc n) \<noteq> phases n"
    and "r < world" "q < world"
  shows "ep s r \<le> ep s q + 1 \<and> (ep s r = ep s q + 1 \<longrightarrow> is_published (lane s q r)) \<and>
    (is_passed (lane s r q) \<longrightarrow> ep s q > ep s r \<or> (ep s q = ep s r \<and> is_published (lane s q r)))"
proof -
  have inv: "passed s r q m \<Longrightarrow> stored s q r m" for m
    using ar_inv_run [OF assms(1-3)] assms(4,5) unfolding ar_inv_def by blast
  have ahead: "is_published (lane s q r) \<and> ep s r = ep s q + 1" if "ep s q < ep s r"
  proof -
    have "stored s q r (ep s r - 1)" using inv [of "ep s r - 1"] that by (simp add: passed_def)
    then show ?thesis using that by (auto simp: stored_def)
  qed
  have "is_passed (lane s r q) \<longrightarrow> ep s q > ep s r \<or> (ep s q = ep s r \<and> is_published (lane s q r))"
    using inv [of "ep s r"] by (auto simp: passed_def stored_def)
  moreover have "ep s r \<le> ep s q + 1" using ahead by linarith
  ultimately show ?thesis using ahead by simp
qed

theorem rendezvous_safe_witness:
  "let s1 = set_lane 0 0 (Loaded 1) ar_init;
       s2 = set_lane 0 0 (Published 1) (s1\<lparr>flag := (flag s1)(0 := (flag s1 0)(0 := (flag s1 0 0)(0 := 1)))\<rparr>);
       s3 = set_lane 0 0 (Passed 1) s2
   in ar_run 2 (\<lambda>n. 2 * (n mod 2)) 9 3 s3 \<and> is_passed (lane s3 0 0) \<and> is_published (lane s3 0 0) \<and> ep s3 0 \<le> ep s3 1 + 1"
proof -
  let ?ph = "\<lambda>n. 2 * (n mod 2 :: nat)"
  define s1 where "s1 = set_lane 0 0 (Loaded 1) ar_init"
  define s2 where "s2 = set_lane 0 0 (Published 1) (s1\<lparr>flag := (flag s1)(0 := (flag s1 0)(0 := (flag s1 0 0)(0 := 1)))\<rparr>)"
  define s3 where "s3 = set_lane 0 0 (Passed 1) s2"
  have "ar_step 2 ?ph 9 ar_init s1"
    using ar_step.load [of 0 2 0 ar_init 9 ?ph] by (simp add: s1_def ar_init_def)
  moreover have "ar_step 2 ?ph 9 s1 s2"
    using ar_step.publish [of 0 2 0 s1 9 1 ?ph] by (simp add: s2_def s1_def ar_init_def)
  moreover have "ar_step 2 ?ph 9 s2 s3"
    using ar_step.observe [of 0 2 0 s2 9 1 ?ph] by (simp add: s3_def s2_def s1_def ar_init_def)
  ultimately have "ar_run 2 ?ph 9 (Suc (Suc (Suc 0))) s3" by (intro ar_run.step [OF ar_run.step [OF ar_run.step [OF ar_run.start]]])
  then have run: "ar_run 2 ?ph 9 3 s3" by (simp add: numeral_3_eq_3)
  have alt: "?ph (Suc n) \<noteq> ?ph n" for n by presburger
  have p: "is_passed (lane s3 0 0)" by (simp add: s3_def)
  have "ep s3 0 \<le> ep s3 0 + 1 \<and> (ep s3 0 = ep s3 0 + 1 \<longrightarrow> is_published (lane s3 0 0)) \<and>
      (is_passed (lane s3 0 0) \<longrightarrow> ep s3 0 > ep s3 0 \<or> (ep s3 0 = ep s3 0 \<and> is_published (lane s3 0 0)))"
    by (rule rendezvous_safe [OF run _ alt]) simp_all
  moreover have "ep s3 0 \<le> ep s3 1 + 1 \<and> (ep s3 0 = ep s3 1 + 1 \<longrightarrow> is_published (lane s3 1 0)) \<and>
      (is_passed (lane s3 0 1) \<longrightarrow> ep s3 1 > ep s3 0 \<or> (ep s3 1 = ep s3 0 \<and> is_published (lane s3 1 0)))"
    by (rule rendezvous_safe [OF run _ alt]) simp_all
  ultimately show ?thesis using run p unfolding Let_def s1_def [symmetric] s2_def [symmetric] s3_def [symmetric] by blast
qed

section \<open>Progress\<close>




















section \<open>An execution that is overtaken\<close>

datatype ar_act = Load nat nat | Publish nat nat | Observe nat nat | Bump nat | Leave nat

fun ar_exec :: "(nat \<Rightarrow> nat) \<Rightarrow> ar_act \<Rightarrow> ar_state \<Rightarrow> ar_state option" where
  "ar_exec phases (Load r l) s = (case lane s r l of Begin \<Rightarrow> Some (set_lane r l (Loaded (gen s r + 1)) s) | _ \<Rightarrow> None)"
| "ar_exec phases (Publish r l) s = (case lane s r l of
     Loaded t \<Rightarrow> Some (set_lane r l (Published t)
      (s\<lparr>flag := (flag s)(l := (flag s l)(phases (ep s r) := (flag s l (phases (ep s r)))(r := t)))\<rparr>)) | _ \<Rightarrow> None)"
| "ar_exec phases (Observe r l) s = (case lane s r l of
     Published t \<Rightarrow> if flag s r (phases (ep s r)) l < t then None else Some (set_lane r l (Passed t) s) | _ \<Rightarrow> None)"
| "ar_exec phases (Bump r) s = (case lane s r 0 of
     Passed t \<Rightarrow> if bumped s r \<or> (trailing (phases (ep s r)) \<and> \<not> list_all (\<lambda>l. is_passed (lane s r l)) [0, 1]) then None
       else Some (s\<lparr>gen := (gen s)(r := t), bumped := (bumped s)(r := True)\<rparr>) | _ \<Rightarrow> None)"
| "ar_exec phases (Leave r) s = (if list_all (\<lambda>l. is_passed (lane s r l)) [0, 1] \<and> bumped s r
     then Some (s\<lparr>ep := (ep s)(r := Suc (ep s r)), lane := (lane s)(r := \<lambda>_. Begin), bumped := (bumped s)(r := False)\<rparr>) else None)"

fun act_ok :: "ar_act \<Rightarrow> bool" where
  "act_ok (Load r l) = (r < 2 \<and> l < 2)"
| "act_ok (Publish r l) = (r < 2 \<and> l < 2)"
| "act_ok (Observe r l) = (r < 2 \<and> l < 2)"
| "act_ok (Bump r) = (r < 2)"
| "act_ok (Leave r) = (r < 2)"

fun act_rank :: "ar_act \<Rightarrow> nat" where
  "act_rank (Load r l) = r"
| "act_rank (Publish r l) = r"
| "act_rank (Observe r l) = r"
| "act_rank (Bump r) = r"
| "act_rank (Leave r) = r"

lemma two: "(\<forall>l<2. P l) \<longleftrightarrow> list_all P [0, 1 :: nat]"
  by (auto simp: less_2_cases_iff)

lemma ar_exec_step:
  assumes "ar_exec phases a s = Some s'" "act_ok a" "ep s (act_rank a) < N"
  shows "ar_step 2 phases N s s'"
proof (cases a)
  case (Load r l)
  then show ?thesis using assms ar_step.load [of r 2 l s N phases] by (simp split: lane.splits)
next
  case (Publish r l)
  then show ?thesis using assms ar_step.publish [of r 2 l s N _ phases] by (simp split: lane.splits)
next
  case (Observe r l)
  then show ?thesis using assms ar_step.observe [of r 2 l s N _ phases] by (simp split: lane.splits if_splits)
next
  case (Bump r)
  then show ?thesis using assms ar_step.bump [of r 2 s N _ phases] by (simp add: two split: lane.splits if_splits)
next
  case (Leave r)
  then show ?thesis using assms ar_step.leave [of r 2 s N phases] by (simp add: two split: if_splits)
qed

text \<open>The arrive rendezvous of both ranks; then in the depart phase work-item 0 of rank 0 finishes and stores the counter
  before work-item 1 has loaded it, which then waits for a value rank 1 never stores.\<close>

definition depart_acts :: "ar_act list" where
  "depart_acts =
     [Load 0 0, Load 0 1, Load 1 0, Load 1 1, Publish 0 0, Publish 0 1, Publish 1 0, Publish 1 1,
      Observe 0 0, Observe 0 1, Observe 1 0, Observe 1 1, Bump 0, Bump 1, Leave 0, Leave 1,
      Load 0 0, Publish 0 0, Observe 0 0, Bump 0, Load 0 1, Publish 0 1,
      Load 1 0, Load 1 1, Publish 1 0, Publish 1 1, Observe 1 0, Observe 1 1, Bump 1, Leave 1]"

definition depart_phases :: "nat \<Rightarrow> nat" where
  "depart_phases n = (if even n then kArPhaseArrive else kArPhaseDepart)"

lemma depart_run:
  "\<exists>s. foldM (\<lambda>a s. if act_ok a \<and> ep s (act_rank a) < 2 then ar_exec depart_phases a s else None) depart_acts ar_init = Some s \<and>
     lane s 0 0 = Passed 2 \<and> lane s 0 1 = Published 3 \<and> flag s 0 kArPhaseDepart 1 = 2 \<and> bumped s 0 \<and> ep s 0 = 1 \<and> ep s 1 = 2"
  by (simp add: depart_acts_def ar_init_def depart_phases_def kArPhaseArrive_def kArPhaseDepart_def trailing_def set_lane_def)

lemma exec_run:
  "foldM (\<lambda>a s. if act_ok a \<and> ep s (act_rank a) < N then ar_exec phases a s else None) as s = Some s' \<Longrightarrow>
   ar_run 2 phases N k s \<Longrightarrow> \<exists>k'. ar_run 2 phases N k' s'"
proof (induction as arbitrary: s k)
  case (Cons a as)
  then obtain t where t: "act_ok a" "ep s (act_rank a) < N" "ar_exec phases a s = Some t"
    "foldM (\<lambda>a s. if act_ok a \<and> ep s (act_rank a) < N then ar_exec phases a s else None) as t = Some s'"
    by (auto split: bind_splits if_splits)
  then show ?case using Cons.IH ar_run.step [OF Cons.prems(2) ar_exec_step [OF t(3,1,2)]] by blast
qed auto

text \<open>Two ranks, one collective: an execution that stops with rank 0 in its depart phase.\<close>

lemma depart_race:
  "\<exists>k s. ar_run 2 depart_phases 2 k s \<and> ep s 0 = 1 \<and> (\<nexists>s'. ar_step 2 depart_phases 2 s s')"
proof -
  obtain s where s: "foldM (\<lambda>a s. if act_ok a \<and> ep s (act_rank a) < 2 then ar_exec depart_phases a s else None) depart_acts ar_init = Some s"
    "lane s 0 0 = Passed 2" "lane s 0 1 = Published 3" "flag s 0 kArPhaseDepart 1 = 2" "bumped s 0" "ep s 0 = 1" "ep s 1 = 2"
    using depart_run by blast
  obtain k where k: "ar_run 2 depart_phases 2 k s" using exec_run [OF s(1) ar_run.start] by blast
  have ph: "depart_phases 1 = kArPhaseDepart" by (simp add: depart_phases_def)
  have "\<not> ar_step 2 depart_phases 2 s s'" for s'
  proof
    assume "ar_step 2 depart_phases 2 s s'"
    then show False
      by cases (use s(2-7) ph in \<open>auto simp: less_2_cases_iff two\<close>)
  qed
  then show ?thesis using k s(6) by blast
qed

section \<open>Completion\<close>



end
