(* ===== verification/AllReduce.thy ===== *)
theory AllReduce
  imports Elem
begin

text \<open>
  The data of the peer-to-peer all-reduce (\<open>all_reduce.sycl.cpp\<close>).  \<open>world\<close> ranks each own a staging
  buffer all can read and an output buffer.  The work of one work-item between two rendezvous is an
  event: staging its input elements, the one-shot sum, or for the two-shot algorithm the
  reduce-scatter of its slice and the all-gather of its slices.  An execution is any order of the events
  that respects what the code enforces: a rank's reduction kernel starts after its staging kernel, and
  the arrive and mid rendezvous, which tie work-group \<open>b\<close> only to the work-groups \<open>b\<close> of the other ranks
  (theory \<open>Rendezvous\<close> proves that a group past a rendezvous finds the others in it).
\<close>

section \<open>The kernels\<close>

definition kArBlocks :: nat where "kArBlocks = 64"
definition kArWgSize :: nat where "kArWgSize = 256"
definition kArMaxWorld :: int where "kArMaxWorld = 8"

definition rd2 :: "'w list list \<Rightarrow> nat \<Rightarrow> nat \<Rightarrow> 'w option" where
  "rd2 b r i = do { row \<leftarrow> rd b r; rd row i }"

definition wr2 :: "'w list list \<Rightarrow> nat \<Rightarrow> nat \<Rightarrow> 'w \<Rightarrow> 'w list list option" where
  "wr2 b r i v = do { row \<leftarrow> rd b r; row \<leftarrow> wr row i v; wr b r row }"

record 'w ar_mem =
  staged :: "'w list list"
  outs :: "'w list list"

definition ar_stride :: nat where "ar_stride = kArBlocks * kArWgSize"

definition stage_item :: "'w list list \<Rightarrow> nat \<Rightarrow> nat \<Rightarrow> nat \<Rightarrow> 'w list list \<Rightarrow> 'w list list option" where
  "stage_item inp numel rank gid st = foldM (\<lambda>i st. do { v \<leftarrow> rd2 inp rank i; wr2 st rank i v }) (strided gid ar_stride numel) st"

text \<open>The sum over the ranks, in the order \<open>0, 1, ...\<close> on every rank.\<close>

definition rank_sum :: "('w \<Rightarrow> 'f::{plus,zero}) \<Rightarrow> ('f \<Rightarrow> 'w) \<Rightarrow> nat \<Rightarrow> 'w list list \<Rightarrow> nat \<Rightarrow> 'w option" where
  "rank_sum ld st world staging i = do {
     acc \<leftarrow> foldM (\<lambda>r acc. do { v \<leftarrow> rd2 staging r i; Some (acc + ld v) }) [0..<world] 0;
     Some (st acc) }"

definition one_shot_item :: "('w \<Rightarrow> 'f::{plus,zero}) \<Rightarrow> ('f \<Rightarrow> 'w) \<Rightarrow> nat \<Rightarrow> nat \<Rightarrow> 'w list list \<Rightarrow> nat \<Rightarrow> nat \<Rightarrow> nat \<Rightarrow>
    'w list list \<Rightarrow> 'w list list option" where
  "one_shot_item ld st world numel staging rank block lid out =
     foldM (\<lambda>i out. do { v \<leftarrow> rank_sum ld st world staging i; wr2 out rank i v }) (strided (block * kArWgSize + lid) ar_stride numel) out"

definition slice_lo :: "nat \<Rightarrow> nat \<Rightarrow> nat \<Rightarrow> nat \<Rightarrow> nat" where
  "slice_lo chunk per_block block owner = owner * chunk + block * per_block"

definition slice_hi :: "nat \<Rightarrow> nat \<Rightarrow> nat \<Rightarrow> nat \<Rightarrow> nat \<Rightarrow> nat" where
  "slice_hi numel chunk per_block block owner =
     (let w0 = (block + 1) * per_block; w1 = (if w0 > chunk then chunk else w0); e = owner * chunk + w1
      in if e < numel then e else numel)"

definition ar_chunk :: "nat \<Rightarrow> nat \<Rightarrow> nat" where
  "ar_chunk world numel = (numel + world - 1) div world"

definition ar_per_block :: "nat \<Rightarrow> nat \<Rightarrow> nat" where
  "ar_per_block world numel = (ar_chunk world numel + kArBlocks - 1) div kArBlocks"

definition slice_indices :: "nat \<Rightarrow> nat \<Rightarrow> nat \<Rightarrow> nat \<Rightarrow> nat \<Rightarrow> nat list" where
  "slice_indices world numel owner block lid =
     (let chunk = ar_chunk world numel; per_block = ar_per_block world numel in
      strided (slice_lo chunk per_block block owner + lid) kArWgSize (slice_hi numel chunk per_block block owner))"

definition scatter_item :: "('w \<Rightarrow> 'f::{plus,zero}) \<Rightarrow> ('f \<Rightarrow> 'w) \<Rightarrow> nat \<Rightarrow> nat \<Rightarrow> nat \<Rightarrow> nat \<Rightarrow> nat \<Rightarrow>
    'w list list \<Rightarrow> 'w list list option" where
  "scatter_item ld st world numel rank block lid staging =
     foldM (\<lambda>i staging. do { v \<leftarrow> rank_sum ld st world staging i; wr2 staging rank i v }) (slice_indices world numel rank block lid) staging"

definition gather_item :: "nat \<Rightarrow> nat \<Rightarrow> 'w list list \<Rightarrow> nat \<Rightarrow> nat \<Rightarrow> nat \<Rightarrow> 'w list list \<Rightarrow> 'w list list option" where
  "gather_item world numel staging rank block lid out =
     foldM (\<lambda>owner. foldM (\<lambda>i out. do { v \<leftarrow> rd2 staging owner i; wr2 out rank i v }) (slice_indices world numel owner block lid))
       [0..<world] out"

datatype ar_event = Stage nat nat | OneShot nat nat nat | Scatter nat nat nat | Gather nat nat nat

fun ar_event_step :: "('w \<Rightarrow> 'f::{plus,zero}) \<Rightarrow> ('f \<Rightarrow> 'w) \<Rightarrow> nat \<Rightarrow> nat \<Rightarrow> 'w list list \<Rightarrow> ar_event \<Rightarrow> 'w ar_mem \<Rightarrow> 'w ar_mem option" where
  "ar_event_step ld st world numel inp (Stage r g) m = do { s \<leftarrow> stage_item inp numel r g (staged m); Some (m\<lparr>staged := s\<rparr>) }"
| "ar_event_step ld st world numel inp (OneShot r b l) m = do { o' \<leftarrow> one_shot_item ld st world numel (staged m) r b l (outs m); Some (m\<lparr>outs := o'\<rparr>) }"
| "ar_event_step ld st world numel inp (Scatter r b l) m = do { s \<leftarrow> scatter_item ld st world numel r b l (staged m); Some (m\<lparr>staged := s\<rparr>) }"
| "ar_event_step ld st world numel inp (Gather r b l) m = do { o' \<leftarrow> gather_item world numel (staged m) r b l (outs m); Some (m\<lparr>outs := o'\<rparr>) }"

text \<open>Which events a collective has, and when an event may run after the events \<open>D\<close>.\<close>

definition ar_events :: "nat \<Rightarrow> bool \<Rightarrow> ar_event set" where
  "ar_events world twoshot = (\<lambda>(r, g). Stage r g) ` ({..<world} \<times> {..<ar_stride}) \<union>
     (if twoshot
      then (\<lambda>(r, b, l). Scatter r b l) ` ({..<world} \<times> {..<kArBlocks} \<times> {..<kArWgSize}) \<union>
        (\<lambda>(r, b, l). Gather r b l) ` ({..<world} \<times> {..<kArBlocks} \<times> {..<kArWgSize})
      else (\<lambda>(r, b, l). OneShot r b l) ` ({..<world} \<times> {..<kArBlocks} \<times> {..<kArWgSize}))"

fun ar_ready :: "nat \<Rightarrow> ar_event set \<Rightarrow> ar_event \<Rightarrow> bool" where
  "ar_ready world D (Stage r g) = True"
| "ar_ready world D (OneShot r b l) = (\<forall>r'<world. \<forall>g<ar_stride. Stage r' g \<in> D)"
| "ar_ready world D (Scatter r b l) = (\<forall>r'<world. \<forall>g<ar_stride. Stage r' g \<in> D)"
| "ar_ready world D (Gather r b l) = (\<forall>r'<world. \<forall>l'<kArWgSize. Scatter r' b l' \<in> D)"

primrec ar_valid :: "nat \<Rightarrow> ar_event set \<Rightarrow> ar_event list \<Rightarrow> bool" where
  "ar_valid world D [] = True"
| "ar_valid world D (e # es) = (ar_ready world D e \<and> ar_valid world (insert e D) es)"

definition ar_order :: "nat \<Rightarrow> bool \<Rightarrow> ar_event list \<Rightarrow> bool" where
  "ar_order world twoshot ord \<longleftrightarrow> distinct ord \<and> set ord = ar_events world twoshot \<and> ar_valid world {} ord"

definition ar_twoshot :: "nat \<Rightarrow> DType \<Rightarrow> nat \<Rightarrow> bool" where
  "ar_twoshot numel dt twoshot_min_bytes \<longleftrightarrow> \<not> numel * dtype_size dt < twoshot_min_bytes"

text \<open>The collective of all ranks; a world outside the flag arrays is rejected by every rank.\<close>

definition all_reduce :: "nat \<Rightarrow> nat \<Rightarrow> DType \<Rightarrow> 32 word list list \<Rightarrow> ar_event list \<Rightarrow> 32 word ar_mem \<Rightarrow> 32 word ar_mem option" where
  "all_reduce world numel dt inp ord m =
     (if world < 2 \<or> int world > kArMaxWorld then Some m
      else foldM (ar_event_step (elem_ld dt) (elem_st dt) world numel inp) ord m)"

section \<open>Slices partition the elements\<close>

definition blk :: "nat \<Rightarrow> nat \<Rightarrow> nat \<Rightarrow> nat" where
  "blk world numel i = (i mod ar_chunk world numel) div ar_per_block world numel"

definition lid_of :: "nat \<Rightarrow> nat \<Rightarrow> nat \<Rightarrow> nat" where
  "lid_of world numel i = ((i mod ar_chunk world numel) mod ar_per_block world numel) mod kArWgSize"

lemma ar_consts [simp]: "0 < kArBlocks" "0 < kArWgSize" "0 < ar_stride"
  by (simp_all add: kArBlocks_def kArWgSize_def ar_stride_def)

lemma ar_chunk_cdiv: "ar_chunk world numel = cdiv numel world" "ar_per_block world numel = cdiv (ar_chunk world numel) kArBlocks"
  by (simp_all add: ar_chunk_def ar_per_block_def cdiv_def)

lemma slice_cell:
  assumes "0 < world" "i < numel"
  shows "i div ar_chunk world numel < world" "blk world numel i < kArBlocks" "lid_of world numel i < kArWgSize"
    "0 < ar_chunk world numel" "0 < ar_per_block world numel"
proof -
  have n: "numel \<le> ar_chunk world numel * world" using cdiv_upper [OF assms(1), of numel] by (simp add: ar_chunk_cdiv)
  then show c: "0 < ar_chunk world numel" using assms(2) by (cases "ar_chunk world numel") auto
  show "i div ar_chunk world numel < world" using n assms(2) by (simp add: less_mult_imp_div_less mult.commute)
  have m: "ar_chunk world numel \<le> ar_per_block world numel * kArBlocks" using cdiv_upper [of kArBlocks "ar_chunk world numel"] by (simp add: ar_chunk_cdiv)
  then show "0 < ar_per_block world numel" using c by (cases "ar_per_block world numel") auto
  have "i mod ar_chunk world numel < ar_per_block world numel * kArBlocks" using mod_less_divisor [OF c, of i] m by linarith
  then show "blk world numel i < kArBlocks" by (simp add: blk_def less_mult_imp_div_less mult.commute)
  show "lid_of world numel i < kArWgSize" by (simp add: lid_of_def)
qed

lemma slice_set:
  assumes "0 < world" "l < kArWgSize"
  shows "set (slice_indices world numel owner b l) = {i. i < numel \<and> i div ar_chunk world numel = owner \<and> blk world numel i = b \<and> lid_of world numel i = l}"
proof (cases "numel = 0")
  case True
  then show ?thesis by (auto simp: slice_indices_def slice_hi_def Let_def dest: strided_ge)
next
  case False
  let ?c = "ar_chunk world numel" and ?p = "ar_per_block world numel"
  have c: "0 < ?c" "0 < ?p" using slice_cell(4,5) [OF assms(1), of 0 numel] False by simp_all
  have hi: "slice_hi numel ?c ?p b owner = min (owner * ?c + min (b * ?p + ?p) ?c) numel"
    by (simp add: slice_hi_def Let_def min_def add.commute)
  have "i \<in> set (slice_indices world numel owner b l) \<longleftrightarrow> i < numel \<and> i div ?c = owner \<and> blk world numel i = b \<and> lid_of world numel i = l" for i
  proof -
    let ?k = "i mod ?c"
    have i: "i = i div ?c * ?c + ?k" by (rule div_mult_mod_eq [symmetric])
    have k: "?k = blk world numel i * ?p + ?k mod ?p" unfolding blk_def by (rule div_mult_mod_eq [symmetric])
    have "i \<in> set (slice_indices world numel owner b l) \<longleftrightarrow>
        owner * ?c + b * ?p + l \<le> i \<and> i < min (owner * ?c + min (b * ?p + ?p) ?c) numel \<and> i mod kArWgSize = (owner * ?c + b * ?p + l) mod kArWgSize"
      unfolding slice_indices_def Let_def hi by (simp add: set_strided slice_lo_def)
    also have "\<dots> \<longleftrightarrow> i < numel \<and> i div ?c = owner \<and> blk world numel i = b \<and> lid_of world numel i = l"
    proof
      assume L: "owner * ?c + b * ?p + l \<le> i \<and> i < min (owner * ?c + min (b * ?p + ?p) ?c) numel \<and> i mod kArWgSize = (owner * ?c + b * ?p + l) mod kArWgSize"
      define e where "e = i - (owner * ?c + b * ?p)"
      have ie: "i = owner * ?c + (b * ?p + e)" "b * ?p + e < ?c" "e < ?p" "l \<le> e" using L by (auto simp: e_def)
      have d: "i div ?c = owner" "?k = b * ?p + e" using ie(1,2) by simp_all
      have "blk world numel i = b" "?k mod ?p = e" using ie(3) unfolding blk_def d(2) by simp_all
      moreover have "e mod kArWgSize = l"
      proof -
        have "owner * ?c + b * ?p + l \<le> i" "i mod kArWgSize = (owner * ?c + b * ?p + l) mod kArWgSize" using L by blast+
        then have "kArWgSize dvd i - (owner * ?c + b * ?p + l)" using mod_eq_dvd_iff_nat [THEN iffD1] by blast
        moreover have "i - (owner * ?c + b * ?p + l) = e - l" by (simp add: ie(1))
        ultimately have "e mod kArWgSize = l mod kArWgSize" using ie(4) by (simp add: mod_eq_dvd_iff_nat)
        then show ?thesis using assms(2) by simp
      qed
      ultimately show "i < numel \<and> i div ?c = owner \<and> blk world numel i = b \<and> lid_of world numel i = l"
        using L d(1) by (simp add: lid_of_def)
    next
      assume R: "i < numel \<and> i div ?c = owner \<and> blk world numel i = b \<and> lid_of world numel i = l"
      define e where "e = ?k mod ?p"
      have e: "e < ?p" "e mod kArWgSize = l" using R c(2) by (simp_all add: e_def lid_of_def)
      have ke: "?k = b * ?p + e" using k R by (simp add: e_def)
      have ie: "i = owner * ?c + (b * ?p + e)" using i R ke by simp
      have "?k < ?c" using c(1) by simp
      moreover have "l \<le> e" using e(2) by (metis mod_less_eq_dividend)
      moreover have "i mod kArWgSize = (owner * ?c + b * ?p + l) mod kArWgSize" unfolding ie using e(2) by (metis add.assoc mod_add_right_eq)
      ultimately show "owner * ?c + b * ?p + l \<le> i \<and> i < min (owner * ?c + min (b * ?p + ?p) ?c) numel \<and> i mod kArWgSize = (owner * ?c + b * ?p + l) mod kArWgSize"
        using R e(1) ke ie by simp
    qed
    finally show ?thesis .
  qed
  then show ?thesis by blast
qed

section \<open>Writes of an event\<close>

definition shaped :: "nat \<Rightarrow> nat \<Rightarrow> 'w list list \<Rightarrow> bool" where
  "shaped world numel b \<longleftrightarrow> length b = world \<and> (\<forall>r<world. numel \<le> length (b ! r))"

text \<open>\<open>b'\<close> is \<open>b\<close> with the elements \<open>I\<close> of rank \<open>r\<close> overwritten by \<open>v\<close>.\<close>

definition wrote :: "nat \<Rightarrow> nat \<Rightarrow> nat \<Rightarrow> nat set \<Rightarrow> (nat \<Rightarrow> 'w) \<Rightarrow> 'w list list \<Rightarrow> 'w list list \<Rightarrow> bool" where
  "wrote world numel r I v b b' \<longleftrightarrow> shaped world numel b' \<and>
     (\<forall>q<world. \<forall>i<numel. b' ! q ! i = (if q = r \<and> i \<in> I then v i else b ! q ! i))"

lemma rd2_shaped: "shaped world numel b \<Longrightarrow> r < world \<Longrightarrow> i < numel \<Longrightarrow> rd2 b r i = Some (b ! r ! i)"
  by (fastforce simp: shaped_def rd2_def rd_def)

lemma wr2_shaped:
  assumes "shaped world numel b" "r < world" "i < numel"
  shows "\<exists>b'. wr2 b r i x = Some b' \<and> wrote world numel r {i} (\<lambda>_. x) b b'"
proof -
  have "i < length (b ! r)" using assms by (auto simp: shaped_def intro: less_le_trans)
  then have "wr2 b r i x = Some (b[r := (b ! r)[i := x]])" using assms(1,2) by (simp add: shaped_def wr2_def rd_def wr_def)
  moreover have "wrote world numel r {i} (\<lambda>_. x) b (b[r := (b ! r)[i := x]])"
    using assms \<open>i < length (b ! r)\<close> by (simp add: wrote_def shaped_def nth_list_update)
  ultimately show ?thesis by blast
qed

lemma wrote_refl: "shaped world numel b \<Longrightarrow> wrote world numel r {} v b b"
  by (simp add: wrote_def)

lemma wrote_trans:
  assumes "wrote world numel r I v b b'" "wrote world numel r J w b' b''" "\<And>i. i \<in> J \<Longrightarrow> w i = v i"
  shows "wrote world numel r (I \<union> J) v b b''"
  using assms unfolding wrote_def by auto

lemma wrote_fold:
  assumes "distinct is" "set is \<subseteq> {..<numel}" "r < world" "shaped world numel b"
    and f: "\<And>c i. shaped world numel c \<Longrightarrow> i \<in> set is \<Longrightarrow> (\<And>q. q < world \<Longrightarrow> c ! q ! i = b ! q ! i) \<Longrightarrow> f c i = Some (v i)"
  shows "\<exists>b'. foldM (\<lambda>i c. do { x \<leftarrow> f c i; wr2 c r i x }) is b = Some b' \<and> wrote world numel r (set is) v b b'"
proof -
  let ?P = "\<lambda>D c. wrote world numel r D v b c"
  have "\<exists>b'. foldM (\<lambda>i c. do { x \<leftarrow> f c i; wr2 c r i x }) is b = Some b' \<and> ?P ({} \<union> set is) b'"
  proof (rule foldM_distinct [where P = ?P])
    show "?P {} b" using assms(4) by (rule wrote_refl)
    fix i D c assume i: "i \<in> set is" "i \<notin> D" and c: "?P D c"
    have n: "i < numel" using i(1) assms(2) by auto
    have sc: "shaped world numel c" using c by (simp add: wrote_def)
    have fi: "f c i = Some (v i)" by (rule f [OF sc i(1)]) (use c i(2) n in \<open>simp add: wrote_def\<close>)
    obtain c' where c': "wr2 c r i (v i) = Some c'" "wrote world numel r {i} (\<lambda>_. v i) c c'"
      using wr2_shaped [OF sc assms(3) n] by blast
    have "wrote world numel r (D \<union> {i}) v b c'" by (rule wrote_trans [OF c c'(2)]) simp
    then show "\<exists>c'. do { x \<leftarrow> f c i; wr2 c r i x } = Some c' \<and> ?P (insert i D) c'"
      by (intro exI [of _ c'] conjI) (simp_all only: fi c'(1) bind.simps Un_insert_right Un_empty_right)
  qed (use assms(1) in auto)
  then show ?thesis by simp
qed

section \<open>The sum every rank ends with\<close>

definition ar_total :: "('w \<Rightarrow> 'f::{plus,zero}) \<Rightarrow> ('f \<Rightarrow> 'w) \<Rightarrow> nat \<Rightarrow> 'w list list \<Rightarrow> nat \<Rightarrow> 'w" where
  "ar_total ld st world inp i = st (foldl (\<lambda>acc r. acc + ld (inp ! r ! i)) 0 [0..<world])"

lemma rank_sum_total:
  assumes "shaped world numel s" "i < numel" "\<And>q. q < world \<Longrightarrow> s ! q ! i = inp ! q ! i"
  shows "rank_sum ld st world s i = Some (ar_total ld st world inp i)"
proof -
  have "foldM (\<lambda>r acc. do { v \<leftarrow> rd2 s r i; Some (acc + ld v) }) [0..<n] a = Some (foldl (\<lambda>acc r. acc + ld (inp ! r ! i)) a [0..<n])"
    if "n \<le> world" for n a
    using that by (induction n) (simp_all add: foldM_append rd2_shaped [OF assms(1) _ assms(2)] assms(3))
  then show ?thesis by (simp add: rank_sum_def ar_total_def)
qed

abbreviation stage_cells :: "nat \<Rightarrow> nat \<Rightarrow> nat set" where
  "stage_cells numel g \<equiv> {i. i < numel \<and> i mod ar_stride = g}"

abbreviation slice_cells :: "nat \<Rightarrow> nat \<Rightarrow> nat \<Rightarrow> nat \<Rightarrow> nat \<Rightarrow> nat set" where
  "slice_cells world numel owner b l \<equiv> {i. i < numel \<and> i div ar_chunk world numel = owner \<and> blk world numel i = b \<and> lid_of world numel i = l}"

lemma stage_set: "g < ar_stride \<Longrightarrow> set (strided g ar_stride numel) = stage_cells numel g"
  by (auto simp: set_strided)

lemma stage_item_wrote:
  assumes "shaped world numel inp" "shaped world numel s" "r < world" "g < ar_stride"
  shows "\<exists>s'. stage_item inp numel r g s = Some s' \<and> wrote world numel r (stage_cells numel g) (\<lambda>i. inp ! r ! i) s s'"
  unfolding stage_item_def stage_set [OF assms(4), symmetric]
  by (rule wrote_fold [where f = "\<lambda>_ i. rd2 inp r i"])
    (use assms in \<open>auto simp: stage_set intro: rd2_shaped\<close>)

lemma one_shot_item_wrote:
  assumes "shaped world numel s" "\<And>q i. q < world \<Longrightarrow> i < numel \<Longrightarrow> s ! q ! i = inp ! q ! i"
    "shaped world numel out" "r < world" "b < kArBlocks" "l < kArWgSize"
  shows "\<exists>o'. one_shot_item ld st world numel s r b l out = Some o' \<and>
    wrote world numel r (stage_cells numel (b * kArWgSize + l)) (ar_total ld st world inp) out o'"
proof -
  have "Suc b * kArWgSize \<le> kArBlocks * kArWgSize" using assms(5) by (intro mult_le_mono1) simp
  then have g: "b * kArWgSize + l < ar_stride" using assms(6) by (simp add: ar_stride_def)
  show ?thesis
    unfolding one_shot_item_def stage_set [OF g, symmetric]
    by (rule wrote_fold [where f = "\<lambda>_ i. rank_sum ld st world s i"])
      (use assms g in \<open>auto simp: stage_set intro: rank_sum_total [OF assms(1)]\<close>)
qed

lemma scatter_item_wrote:
  assumes "shaped world numel s" "r < world" "l < kArWgSize"
    "\<And>q i. q < world \<Longrightarrow> i \<in> slice_cells world numel r b l \<Longrightarrow> s ! q ! i = inp ! q ! i"
  shows "\<exists>s'. scatter_item ld st world numel r b l s = Some s' \<and>
    wrote world numel r (slice_cells world numel r b l) (ar_total ld st world inp) s s'"
proof -
  have w: "0 < world" using assms(2) by simp
  note S = slice_set [OF w assms(3), of numel r b]
  show ?thesis
    unfolding scatter_item_def S [symmetric]
  proof (rule wrote_fold [where f = "\<lambda>c i. rank_sum ld st world c i"])
    show "distinct (slice_indices world numel r b l)" by (simp add: slice_indices_def Let_def)
    fix c i assume c: "shaped world numel c" "i \<in> set (slice_indices world numel r b l)" "\<And>q. q < world \<Longrightarrow> c ! q ! i = s ! q ! i"
    have i: "i \<in> slice_cells world numel r b l" using c(2) unfolding S .
    then show "rank_sum ld st world c i = Some (ar_total ld st world inp i)"
      using c(3) assms(4) by (intro rank_sum_total [OF c(1)]) auto
  qed (use assms in \<open>auto simp: S\<close>)
qed

lemma gather_item_wrote:
  assumes "shaped world numel s" "shaped world numel out" "r < world" "l < kArWgSize"
    "\<And>i. i < numel \<Longrightarrow> blk world numel i = b \<Longrightarrow> lid_of world numel i = l \<Longrightarrow> s ! (i div ar_chunk world numel) ! i = t i"
  shows "\<exists>o'. gather_item world numel s r b l out = Some o' \<and>
    wrote world numel r {i. i < numel \<and> blk world numel i = b \<and> lid_of world numel i = l} t out o'"
proof -
  have w: "0 < world" using assms(3) by simp
  let ?f = "\<lambda>owner. foldM (\<lambda>i out. do { v \<leftarrow> rd2 s owner i; wr2 out r i v }) (slice_indices world numel owner b l)"
  have "\<exists>o'. foldM ?f [0..<world] out = Some o' \<and> wrote world numel r (\<Union>owner<world. slice_cells world numel owner b l) t out o'"
  proof (rule foldM_upt [where P = "\<lambda>k c. wrote world numel r (\<Union>owner<k. slice_cells world numel owner b l) t out c"])
    show "wrote world numel r (\<Union>owner<0. slice_cells world numel owner b l) t out out" using wrote_refl [OF assms(2)] by simp
    fix k c assume k: "0 \<le> k" "k < world" and c: "wrote world numel r (\<Union>owner<k. slice_cells world numel owner b l) t out c"
    note S = slice_set [OF w assms(4), of numel k b]
    have "\<exists>o'. ?f k c = Some o' \<and> wrote world numel r (set (slice_indices world numel k b l)) t c o'"
    proof (rule wrote_fold [where f = "\<lambda>_ i. rd2 s k i"])
      show "distinct (slice_indices world numel k b l)" by (simp add: slice_indices_def Let_def)
      show "shaped world numel c" using c by (simp add: wrote_def)
      fix d i assume "i \<in> set (slice_indices world numel k b l)"
      then show "rd2 s k i = Some (t i)" using rd2_shaped [OF assms(1) k(2), of i] assms(5) [of i] unfolding S by auto
    qed (use assms in \<open>auto simp: S\<close>)
    then obtain o' where o': "?f k c = Some o'" "wrote world numel r (slice_cells world numel k b l) t c o'" unfolding S by blast
    have "wrote world numel r (\<Union>owner<Suc k. slice_cells world numel owner b l) t out o'"
      using wrote_trans [OF c o'(2)] by (simp add: lessThan_Suc Un_commute)
    then show "\<exists>o'. ?f k c = Some o' \<and> wrote world numel r (\<Union>owner<Suc k. slice_cells world numel owner b l) t out o'" using o'(1) by blast
  qed simp
  moreover have "(\<Union>owner<world. slice_cells world numel owner b l) = {i. i < numel \<and> blk world numel i = b \<and> lid_of world numel i = l}"
    using slice_cell(1) [OF w] by blast
  ultimately show ?thesis unfolding gather_item_def by simp
qed

section \<open>Any execution\<close>

text \<open>The event that writes element \<open>i\<close> of rank \<open>r\<close>'s output.\<close>

definition out_event :: "nat \<Rightarrow> nat \<Rightarrow> bool \<Rightarrow> nat \<Rightarrow> nat \<Rightarrow> ar_event" where
  "out_event world numel twoshot r i =
     (if twoshot then Gather r (blk world numel i) (lid_of world numel i)
      else OneShot r (i mod ar_stride div kArWgSize) (i mod ar_stride mod kArWgSize))"

definition ar_inv :: "('w \<Rightarrow> 'f::{plus,zero}) \<Rightarrow> ('f \<Rightarrow> 'w) \<Rightarrow> nat \<Rightarrow> nat \<Rightarrow> bool \<Rightarrow> 'w list list \<Rightarrow> ar_event set \<Rightarrow> 'w ar_mem \<Rightarrow> bool" where
  "ar_inv ld st world numel twoshot inp D m \<longleftrightarrow> shaped world numel (staged m) \<and> shaped world numel (outs m) \<and>
     (\<forall>q<world. \<forall>i<numel. Stage q (i mod ar_stride) \<in> D \<longrightarrow> Scatter q (blk world numel i) (lid_of world numel i) \<notin> D \<or> i div ar_chunk world numel \<noteq> q \<longrightarrow>
        staged m ! q ! i = inp ! q ! i) \<and>
     (\<forall>q<world. \<forall>i<numel. i div ar_chunk world numel = q \<longrightarrow> Scatter q (blk world numel i) (lid_of world numel i) \<in> D \<longrightarrow>
        staged m ! q ! i = ar_total ld st world inp i) \<and>
     (\<forall>q<world. \<forall>i<numel. out_event world numel twoshot q i \<in> D \<longrightarrow> outs m ! q ! i = ar_total ld st world inp i) \<and>
     ((\<exists>q b l. Scatter q b l \<in> D) \<longrightarrow> (\<forall>q<world. \<forall>g<ar_stride. Stage q g \<in> D))"

lemma ar_invD:
  assumes "ar_inv ld st world numel twoshot inp D m"
  shows "shaped world numel (staged m)" "shaped world numel (outs m)"
    "\<And>q i. q < world \<Longrightarrow> i < numel \<Longrightarrow> Stage q (i mod ar_stride) \<in> D \<Longrightarrow> Scatter q (blk world numel i) (lid_of world numel i) \<notin> D \<or> i div ar_chunk world numel \<noteq> q \<Longrightarrow>
        staged m ! q ! i = inp ! q ! i"
    "\<And>q i. q < world \<Longrightarrow> i < numel \<Longrightarrow> i div ar_chunk world numel = q \<Longrightarrow> Scatter q (blk world numel i) (lid_of world numel i) \<in> D \<Longrightarrow>
        staged m ! q ! i = ar_total ld st world inp i"
    "\<And>q i. q < world \<Longrightarrow> i < numel \<Longrightarrow> out_event world numel twoshot q i \<in> D \<Longrightarrow> outs m ! q ! i = ar_total ld st world inp i"
    "\<And>q b l q' g. Scatter q b l \<in> D \<Longrightarrow> q' < world \<Longrightarrow> g < ar_stride \<Longrightarrow> Stage q' g \<in> D"
  using assms unfolding ar_inv_def by blast+

lemma mem_ar_events [simp]:
  "Stage r g \<in> ar_events world twoshot \<longleftrightarrow> r < world \<and> g < ar_stride"
  "OneShot r b l \<in> ar_events world twoshot \<longleftrightarrow> \<not> twoshot \<and> r < world \<and> b < kArBlocks \<and> l < kArWgSize"
  "Scatter r b l \<in> ar_events world twoshot \<longleftrightarrow> twoshot \<and> r < world \<and> b < kArBlocks \<and> l < kArWgSize"
  "Gather r b l \<in> ar_events world twoshot \<longleftrightarrow> twoshot \<and> r < world \<and> b < kArBlocks \<and> l < kArWgSize"
  by (auto simp: ar_events_def image_iff)

lemma ar_event_inv:
  assumes inp: "shaped world numel inp" and D: "D \<subseteq> ar_events world twoshot" "e \<in> ar_events world twoshot" "e \<notin> D" "ar_ready world D e"
    and m: "ar_inv ld st world numel twoshot inp D m"
  shows "\<exists>m'. ar_event_step ld st world numel inp e m = Some m' \<and> ar_inv ld st world numel twoshot inp (insert e D) m'"
proof (cases e)
  case (Stage r g)
  note I = ar_invD [OF m]
  have r: "r < world" "g < ar_stride" "Stage r g \<notin> D" using D(2,3) Stage by auto
  have nosc: "Scatter q b l \<notin> D" for q b l using I(6) [OF _ r(1,2)] r(3) by blast
  obtain s' where s': "stage_item inp numel r g (staged m) = Some s'" "wrote world numel r (stage_cells numel g) (\<lambda>i. inp ! r ! i) (staged m) s'"
    using stage_item_wrote [OF inp I(1) r(1,2)] by blast
  have "ar_inv ld st world numel twoshot inp (insert e D) (m\<lparr>staged := s'\<rparr>)"
    unfolding ar_inv_def Stage using s'(2) I(2,3,5) nosc by (auto simp: wrote_def out_event_def)
  then show ?thesis using s'(1) Stage by simp
next
  case (OneShot r b l)
  note I = ar_invD [OF m]
  have r: "r < world" "b < kArBlocks" "l < kArWgSize" "\<not> twoshot" using D(2) OneShot by auto
  have st: "Stage q g \<in> D" if "q < world" "g < ar_stride" for q g using D(4) OneShot that by simp
  have nosc: "Scatter q b l \<notin> D" for q b l using D(1) r(4) by (auto dest!: subsetD)
  have s: "staged m ! q ! i = inp ! q ! i" if "q < world" "i < numel" for q i
    by (rule I(3)) (use that st nosc in auto)
  obtain o' where o': "one_shot_item ld st world numel (staged m) r b l (outs m) = Some o'"
      "wrote world numel r (stage_cells numel (b * kArWgSize + l)) (ar_total ld st world inp) (outs m) o'"
    using one_shot_item_wrote [OF I(1) s I(2) r(1-3)] by blast
  have g: "x = b * kArWgSize + l" if "x div kArWgSize = b" "x mod kArWgSize = l" for x
    using that div_mult_mod_eq [of x kArWgSize] by simp
  have "ar_inv ld st world numel twoshot inp (insert e D) (m\<lparr>outs := o'\<rparr>)"
    unfolding ar_inv_def OneShot using o'(2) I(1) s I(5) nosc r(4) by (auto simp: wrote_def out_event_def g)
  then show ?thesis using o'(1) OneShot by simp
next
  case (Scatter r b l)
  note I = ar_invD [OF m]
  have r: "r < world" "b < kArBlocks" "l < kArWgSize" "twoshot" using D(2) Scatter by auto
  have st: "Stage q g \<in> D" if "q < world" "g < ar_stride" for q g using D(4) Scatter that by simp
  have s: "staged m ! q ! i = inp ! q ! i" if "q < world" "i \<in> slice_cells world numel r b l" for q i
    by (rule I(3)) (use that st D(3) Scatter in auto)
  obtain s' where s': "scatter_item ld st world numel r b l (staged m) = Some s'"
      "wrote world numel r (slice_cells world numel r b l) (ar_total ld st world inp) (staged m) s'"
    using scatter_item_wrote [OF I(1) r(1,3) s] by blast
  have "ar_inv ld st world numel twoshot inp (insert e D) (m\<lparr>staged := s'\<rparr>)"
    unfolding ar_inv_def Scatter using s'(2) I(2-5) st r(4) by (auto simp: wrote_def out_event_def)
  then show ?thesis using s'(1) Scatter by simp
next
  case (Gather r b l)
  note I = ar_invD [OF m]
  have r: "r < world" "b < kArBlocks" "l < kArWgSize" "twoshot" using D(2) Gather by auto
  have s: "staged m ! (i div ar_chunk world numel) ! i = ar_total ld st world inp i"
    if "i < numel" "blk world numel i = b" "lid_of world numel i = l" for i
  proof -
    have "i div ar_chunk world numel < world" using slice_cell(1) [of world i numel] r(1) that(1) by simp
    then show ?thesis using I(4) [of _ i] that D(4) Gather r(3) by auto
  qed
  obtain o' where o': "gather_item world numel (staged m) r b l (outs m) = Some o'"
      "wrote world numel r {i. i < numel \<and> blk world numel i = b \<and> lid_of world numel i = l} (ar_total ld st world inp) (outs m) o'"
    using gather_item_wrote [OF I(1,2) r(1,3) s] by blast
  have "ar_inv ld st world numel twoshot inp (insert e D) (m\<lparr>outs := o'\<rparr>)"
    unfolding ar_inv_def Gather using o'(2) I(1,3-6) r(4) by (auto simp: wrote_def out_event_def)
  then show ?thesis using o'(1) Gather by simp
qed

lemma ar_run_inv:
  assumes "shaped world numel inp" "D \<union> set ord \<subseteq> ar_events world twoshot" "distinct ord" "set ord \<inter> D = {}" "ar_valid world D ord"
    "ar_inv ld st world numel twoshot inp D m"
  shows "\<exists>m'. foldM (ar_event_step ld st world numel inp) ord m = Some m' \<and> ar_inv ld st world numel twoshot inp (D \<union> set ord) m'"
  using assms
proof (induction ord arbitrary: D m)
  case (Cons e es)
  obtain m1 where m1: "ar_event_step ld st world numel inp e m = Some m1" "ar_inv ld st world numel twoshot inp (insert e D) m1"
    using ar_event_inv [of world numel inp D twoshot e ld st m] Cons.prems by auto
  have "\<exists>m'. foldM (ar_event_step ld st world numel inp) es m1 = Some m' \<and> ar_inv ld st world numel twoshot inp (insert e D \<union> set es) m'"
    using Cons.prems m1(2) by (intro Cons.IH) auto
  then show ?case using m1(1) by auto
qed simp

text \<open>An order exists: all the staging, then the reductions, then the gathers.\<close>

lemma ar_valid_ready: "(\<And>e. e \<in> set es \<Longrightarrow> ar_ready world D e) \<Longrightarrow> ar_valid world D es"
proof (induction es arbitrary: D)
  case (Cons e es)
  have "ar_ready world (insert e D) x" if "x \<in> set es" for x
    using Cons.prems [of x] that by (cases x) auto
  then show ?case using Cons by simp
qed simp

lemma ar_valid_append: "ar_valid world D (xs @ ys) \<longleftrightarrow> ar_valid world D xs \<and> ar_valid world (D \<union> set xs) ys"
  by (induction xs arbitrary: D) auto

lemma listed: "finite S \<Longrightarrow> (\<And>xs. set xs = S \<Longrightarrow> distinct xs \<Longrightarrow> thesis) \<Longrightarrow> thesis"
  using finite_distinct_list [of S] by blast

lemma ar_order_exists: "\<exists>ord. ar_order world twoshot ord"
proof -
  let ?S = "(\<lambda>(r, g). Stage r g) ` ({..<world} \<times> {..<ar_stride})"
  let ?R = "(if twoshot then (\<lambda>(r, b, l). Scatter r b l) ` ({..<world} \<times> {..<kArBlocks} \<times> {..<kArWgSize})
    else (\<lambda>(r, b, l). OneShot r b l) ` ({..<world} \<times> {..<kArBlocks} \<times> {..<kArWgSize}))"
  let ?G = "(if twoshot then (\<lambda>(r, b, l). Gather r b l) ` ({..<world} \<times> {..<kArBlocks} \<times> {..<kArWgSize}) else {})"
  have "finite ?S" by simp
  then obtain ss where ss: "set ss = ?S" "distinct ss" by (rule listed)
  have "finite ?R" by simp
  then obtain rs where rs: "set rs = ?R" "distinct rs" by (rule listed)
  have "finite ?G" by simp
  then obtain gs where gs: "set gs = ?G" "distinct gs" by (rule listed)
  have "set (ss @ rs @ gs) = ar_events world twoshot" unfolding set_append ss(1) rs(1) gs(1) ar_events_def by simp
  moreover have "distinct (ss @ rs @ gs)" unfolding distinct_append set_append ss(1) rs(1) gs(1) using ss(2) rs(2) gs(2) by auto
  moreover have "ar_valid world {} ss" by (rule ar_valid_ready) (auto simp: ss(1))
  moreover have "ar_valid world (set ss) rs" by (rule ar_valid_ready) (auto simp: ss(1) rs(1) image_iff split: if_splits)
  moreover have "ar_valid world (set ss \<union> set rs) gs" by (rule ar_valid_ready) (auto simp: rs(1) gs(1) image_iff split: if_splits)
  ultimately show ?thesis unfolding ar_order_def by (intro exI [of _ "ss @ rs @ gs"]) (simp add: ar_valid_append)
qed

section \<open>The collective\<close>

text \<open>C3: in every execution the rendezvous allow, one-shot or two-shot, the all-reduce of two to eight
  ranks leaves in element \<open>i\<close> of every rank's output the same bits: the \<open>float\<close> sum of the ranks' inputs
  in rank order, converted once.  So the two algorithms agree bit for bit, and no staged value is read
  before it is published or after it is overwritten.\<close>

theorem all_reduce_sums:
  assumes "2 \<le> world" "int world \<le> kArMaxWorld"
    and "shaped world numel inp" "shaped world numel (staged m)" "shaped world numel (outs m)"
    and "ar_order world (ar_twoshot numel dt twoshot_min_bytes) ord"
  shows "\<exists>m'. all_reduce world numel dt inp ord m = Some m' \<and>
    (\<forall>r<world. \<forall>i<numel. outs m' ! r ! i = elem_st dt (foldl (\<lambda>acc q. acc + elem_ld dt (inp ! q ! i)) 0 [0..<world]))"
proof -
  let ?t = "ar_twoshot numel dt twoshot_min_bytes"
  have ord: "distinct ord" "set ord = ar_events world ?t" "ar_valid world {} ord" using assms(6) by (simp_all add: ar_order_def)
  have "ar_inv (elem_ld dt) (elem_st dt) world numel ?t inp {} m" using assms(4,5) by (simp add: ar_inv_def)
  then obtain m' where m': "foldM (ar_event_step (elem_ld dt) (elem_st dt) world numel inp) ord m = Some m'"
      "ar_inv (elem_ld dt) (elem_st dt) world numel ?t inp (set ord) m'"
    using ar_run_inv [OF assms(3) _ ord(1) _ ord(3), of ?t "elem_ld dt" "elem_st dt" m] ord(2) by auto
  have "outs m' ! r ! i = ar_total (elem_ld dt) (elem_st dt) world inp i" if i: "r < world" "i < numel" for r i
  proof (rule ar_invD(5) [OF m'(2) i])
    have "i mod ar_stride < kArBlocks * kArWgSize" by (simp add: ar_stride_def kArBlocks_def kArWgSize_def)
    then have "i mod ar_stride div kArWgSize < kArBlocks" by (simp add: less_mult_imp_div_less)
    then show "out_event world numel ?t r i \<in> set ord"
      using i assms(1) slice_cell [of world i numel] by (simp add: ord(2) out_event_def)
  qed
  then show ?thesis using m'(1) assms(1,2) by (simp add: all_reduce_def ar_total_def)
qed

theorem all_reduce_sums_witness:
  "\<exists>ord m'. ar_order 2 (ar_twoshot 3 DF16 0) ord \<and>
     all_reduce 2 3 DF16 [[1, 2, 3], [4, 5, 6]] ord \<lparr>staged = replicate 2 (replicate 3 0), outs = replicate 2 (replicate 3 0)\<rparr> = Some m' \<and>
     outs m' ! 1 ! 2 = elem_st DF16 (0 + elem_ld DF16 3 + elem_ld DF16 6)"
proof -
  obtain ord where o: "ar_order 2 (ar_twoshot 3 DF16 0) ord" using ar_order_exists by blast
  have s: "shaped 2 3 [[1, 2, 3], [4, 5, 6 :: 32 word]]" "shaped 2 3 (replicate 2 (replicate 3 (0 :: 32 word)))"
    by (simp_all add: shaped_def less_2_cases_iff)
  obtain m' where m': "all_reduce 2 3 DF16 [[1, 2, 3], [4, 5, 6]] ord \<lparr>staged = replicate 2 (replicate 3 0), outs = replicate 2 (replicate 3 0)\<rparr> = Some m'"
      "\<forall>r<2. \<forall>i<3. outs m' ! r ! i = elem_st DF16 (foldl (\<lambda>acc q. acc + elem_ld DF16 ([[1, 2, 3], [4, 5, 6]] ! q ! i)) 0 [0..<2])"
    using all_reduce_sums [of 2 3 "[[1, 2, 3], [4, 5, 6]]" "\<lparr>staged = replicate 2 (replicate 3 0), outs = replicate 2 (replicate 3 0)\<rparr>" DF16 0 ord] s o
    by (auto simp: kArMaxWorld_def)
  have "outs m' ! 1 ! 2 = elem_st DF16 (foldl (\<lambda>acc q. acc + elem_ld DF16 ([[1, 2, 3], [4, 5, 6]] ! q ! 2)) 0 [0..<2])"
    using m'(2) by simp
  then show ?thesis using o m'(1) by (intro exI [of _ ord] exI [of _ m']) (simp add: upt_rec [of 0 2] upt_rec [of "Suc 0" 2])
qed

end
