(* ===== verification/Flash.thy ===== *)
theory Flash
  imports Lanes Moe
begin

text \<open>
  The online-softmax recurrence all attention kernels share: a work-item streams keys, keeping the
  running maximum \<open>m\<close> of the scores, the sum \<open>l\<close> of their exponentials and the weighted sums \<open>acc\<close> of the value
  rows, both relative to \<open>m\<close>.  The kernels are written over any arithmetic; \<open>xreal\<close> is exact arithmetic
  with the minus infinity the recurrence starts from.  \<open>flash_rep\<close> relates a state to the keys it has
  absorbed, and the locale \<open>key_stream\<close> is what a loop over keys needs to know of that relation.
\<close>

section \<open>Exact arithmetic with minus infinity\<close>

datatype xreal = MInf | Fin real

instantiation xreal :: "{comm_monoid_add, minus, uminus, times, inverse, one, linorder}"
begin

definition zero_xreal :: xreal where "0 = Fin 0"
definition one_xreal :: xreal where "1 = Fin 1"

fun plus_xreal :: "xreal \<Rightarrow> xreal \<Rightarrow> xreal" where
  "Fin a + Fin b = Fin (a + b)"
| "MInf + b = MInf"
| "Fin a + MInf = MInf"

fun minus_xreal :: "xreal \<Rightarrow> xreal \<Rightarrow> xreal" where
  "Fin a - Fin b = Fin (a - b)"
| "MInf - b = MInf"
| "Fin a - MInf = MInf"

fun uminus_xreal :: "xreal \<Rightarrow> xreal" where
  "- Fin a = Fin (- a)"
| "- MInf = MInf"

fun times_xreal :: "xreal \<Rightarrow> xreal \<Rightarrow> xreal" where
  "Fin a * Fin b = Fin (a * b)"
| "MInf * b = MInf"
| "Fin a * MInf = MInf"

fun inverse_xreal :: "xreal \<Rightarrow> xreal" where
  "inverse (Fin a) = Fin (inverse a)"
| "inverse MInf = MInf"

definition divide_xreal :: "xreal \<Rightarrow> xreal \<Rightarrow> xreal" where "x div y = x * inverse (y :: xreal)"

fun less_eq_xreal :: "xreal \<Rightarrow> xreal \<Rightarrow> bool" where
  "MInf \<le> b \<longleftrightarrow> True"
| "Fin a \<le> MInf \<longleftrightarrow> False"
| "Fin a \<le> Fin b \<longleftrightarrow> a \<le> b"

definition less_xreal :: "xreal \<Rightarrow> xreal \<Rightarrow> bool" where "x < y \<longleftrightarrow> x \<le> y \<and> \<not> y \<le> (x :: xreal)"

instance
proof
  fix a b c :: xreal
  show "a + b + c = a + (b + c)" by (cases a; cases b; cases c) simp_all
  show "a + b = b + a" by (cases a; cases b) simp_all
  show "0 + a = a" by (cases a) (simp_all add: zero_xreal_def)
  show "a < b \<longleftrightarrow> a \<le> b \<and> \<not> b \<le> a" by (rule less_xreal_def)
  show "a \<le> a" by (cases a) simp_all
  show "a \<le> b \<Longrightarrow> b \<le> c \<Longrightarrow> a \<le> c" by (cases a; cases b; cases c) simp_all
  show "a \<le> b \<Longrightarrow> b \<le> a \<Longrightarrow> a = b" by (cases a; cases b) simp_all
  show "a \<le> b \<or> b \<le> a" by (cases a; cases b) auto
qed

end

lemma xreal_less [simp]: "MInf < Fin b" "Fin a < Fin b \<longleftrightarrow> a < b" "\<not> x < MInf"
  by (auto simp: less_xreal_def)

lemma xreal_div [simp]: "Fin a / Fin b = Fin (a / b)"
  by (simp add: divide_xreal_def divide_inverse)

lemma sum_list_Fin [simp]: "(\<Sum>x\<leftarrow>xs. Fin (f x)) = Fin (\<Sum>x\<leftarrow>xs. f x)"
  by (induction xs) (simp_all add: zero_xreal_def)

lemma sum_Fin [simp]: "(\<Sum>i\<in>A. Fin (f i)) = Fin (\<Sum>i\<in>A. f i)"
  by (induction A rule: infinite_finite_induct) (simp_all add: zero_xreal_def)

record 'f amath = "'f gmath" +
  log_fn :: "'f \<Rightarrow> 'f"
  sqrt_fn :: "'f \<Rightarrow> 'f"
  ninf :: 'f

fun xreal_map :: "(real \<Rightarrow> real) \<Rightarrow> xreal \<Rightarrow> xreal \<Rightarrow> xreal" where
  "xreal_map f z (Fin a) = Fin (f a)"
| "xreal_map f z MInf = z"

primrec xval :: "xreal \<Rightarrow> real" where
  "xval MInf = 0"
| "xval (Fin a) = a"

definition exact_amath :: "xreal amath" where
  "exact_amath = \<lparr>sum_group = sum_list, max_group = (\<lambda>xs. Max (set xs)), rsqrt_fn = xreal_map (\<lambda>x. 1 / sqrt x) MInf, exp_fn = xreal_map exp 0,
     scan_group = (\<lambda>xs. map (\<lambda>l. sum_list (take l xs)) [0..<length xs]), fma_fn = (\<lambda>a b c. a * b + c), of_num = (\<lambda>i. Fin (of_int i)),
     log_fn = xreal_map ln MInf, sqrt_fn = xreal_map sqrt MInf, ninf = MInf\<rparr>"

lemma exact_amath_simps [simp]:
  "sum_group exact_amath = sum_list" "exp_fn exact_amath (Fin a) = Fin (exp a)" "exp_fn exact_amath MInf = 0"
  "of_num exact_amath i = Fin (of_int i)" "log_fn exact_amath (Fin a) = Fin (ln a)" "sqrt_fn exact_amath (Fin a) = Fin (sqrt a)" "ninf exact_amath = MInf"
  by (simp_all add: exact_amath_def)

section \<open>The recurrence\<close>

definition flash_init :: "('f::zero, 'z) amath_scheme \<Rightarrow> nat \<Rightarrow> 'f \<times> 'f \<times> 'f list" where
  "flash_init M n = (ninf M, 0, replicate n 0)"

definition flash_key :: "('f::{plus,minus,times,ord}, 'z) amath_scheme \<Rightarrow> nat \<Rightarrow> 'f \<Rightarrow> (nat \<Rightarrow> 'f option) \<Rightarrow> 'f \<times> 'f \<times> 'f list \<Rightarrow> ('f \<times> 'f \<times> 'f list) option" where
  "flash_key M d score v s = do {
     let (m, l, acc) = s;
     let m_new = fmax m score;
     let corr = exp_fn M (m - m_new);
     let p = exp_fn M (score - m_new);
     let l = l * corr + p;
     acc \<leftarrow> foldM (\<lambda>j acc. do { a \<leftarrow> rd acc j; x \<leftarrow> v j; wr acc j (a * corr + p * x) }) [0..<d] acc;
     Some (m_new, l, acc) }"

text \<open>The score of a key, one work-item per query.\<close>

definition dot_score :: "(nat \<Rightarrow> 'f::{plus,times,zero} option) \<Rightarrow> (nat \<Rightarrow> 'f option) \<Rightarrow> nat \<Rightarrow> 'f \<Rightarrow> 'f option" where
  "dot_score qreg key d scale = do {
     score \<leftarrow> foldM (\<lambda>j score. do { a \<leftarrow> qreg j; b \<leftarrow> key j; Some (score + a * b) }) [0..<d] 0;
     Some (score * scale) }"

section \<open>Keys absorbed\<close>

type_synonym akey = "real \<times> (nat \<Rightarrow> real)"

definition softmax_den :: "akey list \<Rightarrow> real" where
  "softmax_den ks = (\<Sum>k\<leftarrow>ks. exp (fst k))"

definition softmax_num :: "akey list \<Rightarrow> nat \<Rightarrow> real" where
  "softmax_num ks j = (\<Sum>k\<leftarrow>ks. exp (fst k) * snd k j)"

definition top_score :: "akey list \<Rightarrow> real" where
  "top_score ks = Max (fst ` set ks)"

definition flash_rep :: "nat \<Rightarrow> nat \<Rightarrow> akey list \<Rightarrow> xreal \<times> xreal \<times> xreal list \<Rightarrow> bool" where
  "flash_rep d n ks s \<longleftrightarrow> (case s of (m, l, acc) \<Rightarrow> length acc = n \<and>
     (if ks = [] then m = MInf \<and> l = 0 \<and> (\<forall>j<d. acc ! j = 0)
      else m = Fin (top_score ks) \<and> l = Fin (softmax_den ks / exp (top_score ks)) \<and> (\<forall>j<d. acc ! j = Fin (softmax_num ks j / exp (top_score ks)))))"

lemma softmax_simps [simp]:
  "softmax_den [] = 0" "softmax_num [] j = 0"
  "softmax_den (ks @ ks') = softmax_den ks + softmax_den ks'" "softmax_num (ks @ ks') j = softmax_num ks j + softmax_num ks' j"
  "softmax_den [k] = exp (fst k)" "softmax_num [k] j = exp (fst k) * snd k j"
  by (simp_all add: softmax_den_def softmax_num_def)

lemma softmax_den_pos: "ks \<noteq> [] \<Longrightarrow> 0 < softmax_den ks"
proof (induction ks rule: rev_induct)
  case (snoc k ks)
  then show ?case by (cases "ks = []") (simp_all add: add_pos_pos)
qed simp

lemma update_loop:
  assumes "d \<le> length acc" "\<And>j. j < d \<Longrightarrow> v j = Some (x j)"
  shows "foldM (\<lambda>j acc. do { a \<leftarrow> rd acc j; x \<leftarrow> v j; wr acc j (f a x) }) [0..<d] acc = Some (map (\<lambda>j. if j < d then f (acc ! j) (x j) else acc ! j) [0..<length acc])"
  using assms
proof (induction d)
  case 0
  show ?case by (simp add: map_nth)
next
  case (Suc d)
  have "(map (\<lambda>j. if j < d then f (acc ! j) (x j) else acc ! j) [0..<length acc])[d := f (acc ! d) (x d)] =
      map (\<lambda>j. if j < Suc d then f (acc ! j) (x j) else acc ! j) [0..<length acc]"
    using Suc.prems(1) by (intro nth_equalityI) (auto simp: nth_list_update)
  then show ?case using Suc by (simp add: foldM_append)
qed

lemma flash_rep_init: "flash_rep d n [] (flash_init exact_amath n)" if "d \<le> n"
  using that by (simp add: flash_rep_def flash_init_def)

lemma flash_rep_key:
  assumes "flash_rep d n ks s" "d \<le> n" "\<And>j. j < d \<Longrightarrow> v j = Some (Fin (snd k j))"
  shows "\<exists>s'. flash_key exact_amath d (Fin (fst k)) v s = Some s' \<and> flash_rep d n (ks @ [k]) s'"
proof -
  obtain m l acc where s: "s = (m, l, acc)" by (cases s)
  have len: "length acc = n" using assms(1) s by (simp add: flash_rep_def)
  let ?M' = "fmax m (Fin (fst k))"
  define corr p where "corr = exp_fn exact_amath (m - ?M')" and "p = exp_fn exact_amath (Fin (fst k) - ?M')"
  let ?acc = "map (\<lambda>j. if j < d then acc ! j * corr + p * Fin (snd k j) else acc ! j) [0..<length acc]"
  have "foldM (\<lambda>j acc. do { a \<leftarrow> rd acc j; x \<leftarrow> v j; wr acc j (a * corr + p * x) }) [0..<d] acc = Some ?acc"
    by (rule update_loop) (use assms(2,3) len in simp_all)
  then have run: "flash_key exact_amath d (Fin (fst k)) v s = Some (?M', l * corr + p, ?acc)"
    by (simp add: flash_key_def s Let_def corr_def p_def)
  have "flash_rep d n (ks @ [k]) (?M', l * corr + p, ?acc)"
  proof (cases "ks = []")
    case True
    then have e: "m = MInf" "l = 0" "\<forall>j<d. acc ! j = 0" using assms(1) s by (simp_all add: flash_rep_def)
    have "?M' = Fin (fst k)" using e(1) by (simp add: fmax_def)
    moreover have "corr = Fin 0" "p = Fin 1" unfolding corr_def p_def calculation using e(1) by (simp_all add: zero_xreal_def)
    ultimately show ?thesis using True e(2,3) len assms(2) by (simp add: flash_rep_def zero_xreal_def top_score_def)
  next
    case False
    define M where "M = top_score ks"
    have M: "m = Fin M" "l = Fin (softmax_den ks / exp M)" "\<forall>j<d. acc ! j = Fin (softmax_num ks j / exp M)"
      using assms(1) s False by (auto simp: flash_rep_def M_def)
    define M' where "M' = max M (fst k)"
    have top: "top_score (ks @ [k]) = M'" using False by (simp add: top_score_def M'_def M_def max.commute)
    have m': "?M' = Fin M'" using M(1) by (auto simp: fmax_def M'_def max_def)
    have c: "corr = Fin (exp (M - M'))" "p = Fin (exp (fst k - M'))" unfolding corr_def p_def m' using M(1) by simp_all
    have e: "x / exp M * exp (M - M') = x / exp M'" for x by (simp add: exp_diff)
    have "l * corr + p = Fin (softmax_den (ks @ [k]) / exp M')" by (simp add: M(2) c e) (simp add: exp_diff add_divide_distrib)
    moreover have "?acc ! j = Fin (softmax_num (ks @ [k]) j / exp M')" if "j < d" for j
      using that M(3) len assms(2) by (simp add: c e) (simp add: exp_diff add_divide_distrib)
    ultimately show ?thesis unfolding flash_rep_def m' top using len by auto
  qed
  then show ?thesis using run by blast
qed

section \<open>Streams of keys\<close>

locale key_stream =
  fixes rep :: "'k list \<Rightarrow> 's \<Rightarrow> bool" and absorb :: "'k \<Rightarrow> 's \<Rightarrow> 's option" and start :: 's
  assumes rep_start: "rep [] start"
    and rep_absorb: "rep ks s \<Longrightarrow> \<exists>s'. absorb k s = Some s' \<and> rep (ks @ [k]) s'"
begin

text \<open>A loop that absorbs the keys of some indices and skips the others.\<close>

lemma stream_from:
  assumes "rep ks s" "\<And>i s. i \<in> set js \<Longrightarrow> body i s = (if skip i then Some s else absorb (key i) s)"
  shows "\<exists>s'. foldM body js s = Some s' \<and> rep (ks @ map key (filter (\<lambda>i. \<not> skip i) js)) s'"
  using assms
proof (induction js arbitrary: ks s)
  case (Cons i js)
  show ?case
  proof (cases "skip i")
    case True
    then show ?thesis using Cons.IH [OF Cons.prems(1)] Cons.prems(2) by simp
  next
    case False
    obtain s1 where s1: "absorb (key i) s = Some s1" "rep (ks @ [key i]) s1" using rep_absorb [OF Cons.prems(1)] by blast
    have "\<exists>s'. foldM body js s1 = Some s' \<and> rep ((ks @ [key i]) @ map key (filter (\<lambda>i. \<not> skip i) js)) s'"
      by (rule Cons.IH [OF s1(2)]) (use Cons.prems(2) in simp)
    then show ?thesis using False s1(1) Cons.prems(2) [of i s] by simp
  qed
qed simp

lemma stream:
  assumes "\<And>i s. i \<in> set js \<Longrightarrow> body i s = (if skip i then Some s else absorb (key i) s)"
  shows "\<exists>s'. foldM body js start = Some s' \<and> rep (map key (filter (\<lambda>i. \<not> skip i) js)) s'"
  using stream_from [OF rep_start assms] by simp

end

text \<open>The recurrence is such a stream, for head sizes that fit the registers.\<close>

definition absorb_key :: "nat \<Rightarrow> akey \<Rightarrow> xreal \<times> xreal \<times> xreal list \<Rightarrow> (xreal \<times> xreal \<times> xreal list) option" where
  "absorb_key d k s = flash_key exact_amath d (Fin (fst k)) (\<lambda>j. Some (Fin (snd k j))) s"

interpretation flash: key_stream "flash_rep (min d n) n" "absorb_key (min d n)" "flash_init exact_amath n" for d n
proof unfold_locales
  show "flash_rep (min d n) n [] (flash_init exact_amath n)" by (rule flash_rep_init) simp
  show "\<exists>s'. absorb_key (min d n) k s = Some s' \<and> flash_rep (min d n) n (ks @ [k]) s'" if "flash_rep (min d n) n ks s" for ks s k
    unfolding absorb_key_def by (rule flash_rep_key [OF that]) simp_all
qed

lemma flash_key_absorb:
  assumes "\<And>j. j < d \<Longrightarrow> v j = Some (Fin (x j))"
  shows "flash_key exact_amath d (Fin sc) v s = absorb_key d (sc, x) s"
proof -
  obtain m l acc where s: "s = (m, l, acc)" by (cases s)
  show ?thesis unfolding absorb_key_def flash_key_def s fst_conv snd_conv Let_def prod.case
    by (rule arg_cong [where f = "\<lambda>a. Option.bind a _"], rule foldM_cong) (use assms in auto)
qed

lemma dot_score_exact:
  assumes "\<And>j. j < d \<Longrightarrow> qr j = Some (Fin (a j))" "\<And>j. j < d \<Longrightarrow> key j = Some (Fin (b j))"
  shows "dot_score qr key d (Fin c) = Some (Fin ((\<Sum>j<d. a j * b j) * c))"
proof -
  have "foldM (\<lambda>j score. do { a \<leftarrow> qr j; b \<leftarrow> key j; Some (score + a * b) }) [0..<d] 0 = Some (fold (\<lambda>j score. score + Fin (a j * b j)) [0..<d] 0)"
    by (rule foldM_pure') (use assms in auto)
  also have "fold (\<lambda>j score. score + Fin (a j * b j)) [0..<d] 0 = Fin (\<Sum>j<d. a j * b j)"
    by (simp add: fold_add_sum [OF refl] interv_sum_list_conv_sum_set_nat atLeast0LessThan)
  finally show ?thesis by (simp add: dot_score_def)
qed

text \<open>What a finished state divides out to.\<close>

definition attends :: "akey list \<Rightarrow> real option \<Rightarrow> nat \<Rightarrow> real" where
  "attends ks sink j = (if ks = [] then 0 else softmax_num ks j / (softmax_den ks + (case sink of None \<Rightarrow> 0 | Some s \<Rightarrow> exp s)))"

lemma flash_finish:
  assumes "flash_rep d n ks (m, l, acc)" "j < d"
  shows "acc ! j * (if l > 0 then 1 / l else 0) = Fin (attends ks None j)"
proof (cases "ks = []")
  case False
  then have M: "l = Fin (softmax_den ks / exp (top_score ks))" "acc ! j = Fin (softmax_num ks j / exp (top_score ks))"
    using assms by (auto simp: flash_rep_def)
  then show ?thesis using softmax_den_pos [OF False] False by (simp add: zero_xreal_def one_xreal_def attends_def)
qed (use assms in \<open>simp add: flash_rep_def attends_def zero_xreal_def\<close>)

text \<open>The same with an attention sink in the denominator, and the logarithm of the sum of exponentials.\<close>

definition sink_exp :: "real option \<Rightarrow> real" where
  "sink_exp sink = (case sink of None \<Rightarrow> 0 | Some s \<Rightarrow> exp s)"

lemma sink_exp_simps [simp]: "sink_exp None = 0" "sink_exp (Some s) = exp s" "0 \<le> sink_exp sink"
  by (simp_all add: sink_exp_def split: option.splits)

definition attends_lse :: "akey list \<Rightarrow> real option \<Rightarrow> xreal" where
  "attends_lse ks sink = (if ks = [] then MInf else Fin (ln (softmax_den ks + sink_exp sink)))"

lemma flash_sink_state:
  assumes "flash_rep d n ks (m, l, acc)" "ks \<noteq> []"
  shows "(case sink of Some s \<Rightarrow> if m > MInf then l + exp_fn exact_amath (Fin s - m) else l | None \<Rightarrow> l) =
    Fin ((softmax_den ks + sink_exp sink) / exp (top_score ks))"
  using assms by (simp add: flash_rep_def split: option.splits) (simp add: exp_diff add_divide_distrib)

lemma flash_finish_sink:
  assumes "flash_rep d n ks (m, l, acc)" "j < d"
    and l': "l' = (case sink of Some s \<Rightarrow> if m > MInf then l + exp_fn exact_amath (Fin s - m) else l | None \<Rightarrow> l)"
  shows "acc ! j * (if l' > 0 then 1 / l' else 0) = Fin (attends ks sink j)"
proof (cases "ks = []")
  case True
  then have "m = MInf" "l = 0" "acc ! j = 0" using assms(1,2) by (auto simp: flash_rep_def)
  then show ?thesis using True by (simp add: l' attends_def zero_xreal_def split: option.splits)
next
  case False
  have "acc ! j = Fin (softmax_num ks j / exp (top_score ks))" using assms(1,2) False by (simp add: flash_rep_def)
  moreover have "0 < softmax_den ks + sink_exp sink" using softmax_den_pos [OF False] by (simp add: add_pos_nonneg)
  ultimately show ?thesis using False flash_sink_state [OF assms(1) False, of sink]
    by (simp add: l' attends_def zero_xreal_def one_xreal_def sink_exp_def)
qed

lemma flash_finish_lse:
  assumes "flash_rep d n ks (m, l, acc)"
    and l': "l' = (case sink of Some s \<Rightarrow> if m > MInf then l + exp_fn exact_amath (Fin s - m) else l | None \<Rightarrow> l)"
  shows "(if m > MInf then m + log_fn exact_amath l' else MInf) = attends_lse ks sink"
proof (cases "ks = []")
  case True
  then show ?thesis using assms(1) by (simp add: flash_rep_def attends_lse_def)
next
  case False
  have m: "m = Fin (top_score ks)" using assms(1) False by (simp add: flash_rep_def)
  have "0 < softmax_den ks + sink_exp sink" using softmax_den_pos [OF False] by (simp add: add_pos_nonneg)
  then have "ln ((softmax_den ks + sink_exp sink) / exp (top_score ks)) = ln (softmax_den ks + sink_exp sink) - top_score ks" by (simp add: ln_div)
  then show ?thesis using flash_sink_state [OF assms(1) False, of sink] False by (simp add: l' m attends_lse_def)
qed

end
