(* ===== verification/Attention.thy ===== *)
theory Attention
  imports Flash
begin

text \<open>
  Dense, sliding-window and context-storing attention (\<open>attention.sycl.cpp\<close>, \<open>attn_swa.sycl.cpp\<close>,
  \<open>attn_f16ctx.sycl.cpp\<close>).  One work-item per head and query streams its keys through the recurrence of
  \<open>Flash\<close>.  \<open>attn_scan\<close> is the part the three kernels have in common, up to the size of the register arrays
  (\<open>qreg\<close>, \<open>acc\<close>), which the kernels do not check against the head size; entries beyond \<open>d\<close>, uninitialised in the
  code, are zero here and never read.  \<open>size_t\<close> differences are taken modulo \<open>2 ^ 64\<close>.
\<close>

section \<open>The kernels\<close>

definition kMaxD_dense :: nat where "kMaxD_dense = 128"
definition kMaxD_swa :: nat where "kMaxD_swa = 256"

definition attn_scan :: "('f::{plus,minus,times,inverse,zero,one,ord}, 'z) amath_scheme \<Rightarrow> ('t \<Rightarrow> 'f) \<Rightarrow> nat \<Rightarrow> 't list \<Rightarrow> 't list \<Rightarrow> 't list \<Rightarrow>
    nat \<Rightarrow> nat \<Rightarrow> nat \<Rightarrow> nat \<Rightarrow> nat list \<Rightarrow> nat \<Rightarrow> nat \<Rightarrow> ('f \<times> 'f \<times> 'f list) option" where
  "attn_scan M ld nreg Q K V gqa seq_q seq_k d keys h qi = do {
     let scale = 1 / sqrt_fn M (of_num M (int d));
     let kvh = h div gqa;
     let qrow = (h * seq_q + qi) * d;
     let kbase = kvh * seq_k * d;
     let vbase = kvh * seq_k * d;
     qreg \<leftarrow> foldM (\<lambda>j qreg. do { x \<leftarrow> rd Q (qrow + j); wr qreg j (ld x) }) [0..<d] (replicate nreg 0);
     foldM (\<lambda>ki s. do {
       score \<leftarrow> dot_score (rd qreg) (\<lambda>j. map_option ld (rd K (kbase + ki * d + j))) d scale;
       flash_key M d score (\<lambda>j. map_option ld (rd V (vbase + ki * d + j))) s }) keys (flash_init M nreg) }"

definition attn_inv :: "'f::{inverse,zero,one,ord} \<Rightarrow> 'f" where
  "attn_inv l = (if l > 0 then 1 / l else 0)"

definition attn_keys :: "nat \<Rightarrow> nat \<Rightarrow> bool \<Rightarrow> nat \<Rightarrow> nat list" where
  "attn_keys seq_q seq_k causal qi =
     (let delta = usize (int seq_k - int seq_q);
          last = if causal then usize (int qi + int delta) else usize (int seq_k - 1)
      in [0..<min (Suc last) seq_k])"

definition attn_typed :: "('f::{plus,minus,times,inverse,zero,one,ord}, 'z) amath_scheme \<Rightarrow> ('t \<Rightarrow> 'f) \<Rightarrow> ('f \<Rightarrow> 't) \<Rightarrow> 't list \<Rightarrow> 't list \<Rightarrow> 't list \<Rightarrow>
    nat \<Rightarrow> nat \<Rightarrow> nat \<Rightarrow> nat \<Rightarrow> nat \<Rightarrow> bool \<Rightarrow> nat list \<Rightarrow> 't list \<Rightarrow> 't list option" where
  "attn_typed M ld st Q K V n_heads n_kv_heads seq_q seq_k d causal = foldM (\<lambda>idx out. do {
     let h = idx div seq_q;
     let qi = idx mod seq_q;
     (m, l, acc) \<leftarrow> attn_scan M ld kMaxD_dense Q K V (n_heads div n_kv_heads) seq_q seq_k d (attn_keys seq_q seq_k causal qi) h qi;
     let inv = attn_inv l;
     foldM (\<lambda>j out. do { a \<leftarrow> rd acc j; wr out ((h * seq_q + qi) * d + j) (st (a * inv)) }) [0..<d] out })"

definition attention_sycl :: "f32 amath \<Rightarrow> DType \<Rightarrow> 32 word list \<Rightarrow> 32 word list \<Rightarrow> 32 word list \<Rightarrow> nat \<Rightarrow> nat \<Rightarrow> nat \<Rightarrow> nat \<Rightarrow> nat \<Rightarrow> bool \<Rightarrow>
    nat list \<Rightarrow> 32 word list \<Rightarrow> 32 word list option" where
  "attention_sycl M dt = attn_typed M (elem_ld dt) (elem_st dt)"

definition attn_f16ctx_typed :: "('f::{plus,minus,times,inverse,zero,one,ord}, 'z) amath_scheme \<Rightarrow> ('t \<Rightarrow> 'f) \<Rightarrow> ('f \<Rightarrow> 't) \<Rightarrow> ('f \<Rightarrow> 'h) \<Rightarrow> 't list \<Rightarrow> 't list \<Rightarrow> 't list \<Rightarrow>
    nat \<Rightarrow> nat \<Rightarrow> nat \<Rightarrow> nat \<Rightarrow> nat \<Rightarrow> bool \<Rightarrow> nat list \<Rightarrow> 't list \<times> 'h list \<Rightarrow> ('t list \<times> 'h list) option" where
  "attn_f16ctx_typed M ld st st16 Q K V n_heads n_kv_heads seq_q seq_k d causal = foldM (\<lambda>idx outs. do {
     let h = idx div seq_q;
     let qi = idx mod seq_q;
     (m, l, acc) \<leftarrow> attn_scan M ld kMaxD_dense Q K V (n_heads div n_kv_heads) seq_q seq_k d (attn_keys seq_q seq_k causal qi) h qi;
     let inv = attn_inv l;
     foldM (\<lambda>j (out, out16). do {
       a \<leftarrow> rd acc j;
       let res = a * inv;
       out \<leftarrow> wr out ((h * seq_q + qi) * d + j) (st res);
       out16 \<leftarrow> wr out16 ((h * seq_q + qi) * d + j) (st16 res);
       Some (out, out16) }) [0..<d] outs })"

definition attention_f16ctx_sycl :: "f32 amath \<Rightarrow> DType \<Rightarrow> 32 word list \<Rightarrow> 32 word list \<Rightarrow> 32 word list \<Rightarrow> nat \<Rightarrow> nat \<Rightarrow> nat \<Rightarrow> nat \<Rightarrow> nat \<Rightarrow> bool \<Rightarrow>
    nat list \<Rightarrow> 32 word list \<times> 32 word list \<Rightarrow> (32 word list \<times> 32 word list) option" where
  "attention_f16ctx_sycl M dt = attn_f16ctx_typed M (elem_ld dt) (elem_st dt) (elem_st DF16)"

definition swa_keys :: "nat \<Rightarrow> nat \<Rightarrow> nat \<Rightarrow> nat \<Rightarrow> nat list" where
  "swa_keys seq_q seq_k window qi =
     (let delta = usize (int seq_k - int seq_q);
          half = window div 2;
          center = usize (int qi + int delta);
          cand = usize (int center + int half + 1)
      in if window \<noteq> 0 then [(if center > half then center - half else 0)..<(if cand < seq_k then cand else seq_k)]
         else [0..<seq_k])"

definition attn_swa_typed :: "('f::{plus,minus,times,inverse,zero,one,ord}, 'z) amath_scheme \<Rightarrow> ('t \<Rightarrow> 'f) \<Rightarrow> ('f \<Rightarrow> 't) \<Rightarrow> 't list \<Rightarrow> 't list \<Rightarrow> 't list \<Rightarrow>
    nat \<Rightarrow> nat \<Rightarrow> nat \<Rightarrow> nat \<Rightarrow> nat \<Rightarrow> nat \<Rightarrow> nat list \<Rightarrow> 't list \<Rightarrow> 't list option" where
  "attn_swa_typed M ld st Q K V n_heads n_kv_heads seq_q seq_k d window = foldM (\<lambda>idx out. do {
     let h = idx div seq_q;
     let qi = idx mod seq_q;
     (m, l, acc) \<leftarrow> attn_scan M ld kMaxD_swa Q K V (n_heads div n_kv_heads) seq_q seq_k d (swa_keys seq_q seq_k window qi) h qi;
     let inv = attn_inv l;
     foldM (\<lambda>j out. do { a \<leftarrow> rd acc j; wr out ((h * seq_q + qi) * d + j) (st (a * inv)) }) [0..<d] out })"

definition attn_swa_sycl :: "f32 amath \<Rightarrow> DType \<Rightarrow> 32 word list \<Rightarrow> 32 word list \<Rightarrow> 32 word list \<Rightarrow> nat \<Rightarrow> nat \<Rightarrow> nat \<Rightarrow> nat \<Rightarrow> nat \<Rightarrow> nat \<Rightarrow>
    nat list \<Rightarrow> 32 word list \<Rightarrow> 32 word list option" where
  "attn_swa_sycl M dt = attn_swa_typed M (elem_ld dt) (elem_st dt)"

section \<open>A scan returns, and what it leaves does not depend on spare registers\<close>

definition regs_agree :: "nat \<Rightarrow> 'f \<times> 'f \<times> 'f list \<Rightarrow> 'f \<times> 'f \<times> 'f list \<Rightarrow> bool" where
  "regs_agree d s t \<longleftrightarrow> (case (s, t) of ((m, l, acc), (m', l', acc')) \<Rightarrow>
     m = m' \<and> l = l' \<and> d \<le> length acc \<and> d \<le> length acc' \<and> (\<forall>j<d. acc ! j = acc' ! j))"

lemma flash_key_agree:
  assumes "regs_agree d s t" "\<And>j. j < d \<Longrightarrow> v j = Some (x j)"
  shows "\<exists>s' t'. flash_key M d score v s = Some s' \<and> flash_key M d score v t = Some t' \<and> regs_agree d s' t'"
proof -
  obtain m l acc m' l' acc' where st: "s = (m, l, acc)" "t = (m', l', acc')" by (metis prod_cases3)
  have a: "m' = m" "l' = l" "d \<le> length acc" "d \<le> length acc'" "\<forall>j<d. acc ! j = acc' ! j"
    using assms(1) by (simp_all add: regs_agree_def st)
  let ?c = "exp_fn M (m - fmax m score)" and ?p = "exp_fn M (score - fmax m score)"
  have u: "foldM (\<lambda>j acc. do { a \<leftarrow> rd acc j; x \<leftarrow> v j; wr acc j (a * ?c + ?p * x) }) [0..<d] r =
      Some (map (\<lambda>j. if j < d then r ! j * ?c + ?p * x j else r ! j) [0..<length r])" if "d \<le> length r" for r
    by (rule update_loop [OF that assms(2)])
  show ?thesis using a by (simp add: flash_key_def st Let_def u [OF a(3)] u [OF a(4)] regs_agree_def)
qed

lemma attn_qreg:
  assumes "d \<le> nreg" "qrow + d \<le> length Q"
  shows "foldM (\<lambda>j qreg. do { x \<leftarrow> rd Q (qrow + j); wr qreg j (ld x) }) [0..<d] (replicate nreg 0) =
    Some (map (\<lambda>j. ld (Q ! (qrow + j))) [0..<d] @ replicate (nreg - d) 0)"
  by (rule load_regs) (use assms in auto)

lemma foldM_agree:
  assumes "R s t" "\<And>x s t. x \<in> set xs \<Longrightarrow> R s t \<Longrightarrow> \<exists>s' t'. f x s = Some s' \<and> g x t = Some t' \<and> R s' t'"
  shows "\<exists>s' t'. foldM f xs s = Some s' \<and> foldM g xs t = Some t' \<and> R s' t'"
  using assms
proof (induction xs arbitrary: s t)
  case (Cons x xs)
  obtain s1 t1 where 1: "f x s = Some s1" "g x t = Some t1" "R s1 t1" using Cons.prems(2) [of x s t] Cons.prems(1) by auto
  have "\<exists>s' t'. foldM f xs s1 = Some s' \<and> foldM g xs t1 = Some t' \<and> R s' t'" by (rule Cons.IH [OF 1(3)]) (use Cons.prems(2) in auto)
  then show ?case using 1 by simp
qed simp

text \<open>The buffers hold what the shape says, and every query head has a key head.\<close>

definition attn_shape :: "nat \<Rightarrow> nat \<Rightarrow> nat \<Rightarrow> nat \<Rightarrow> nat \<Rightarrow> 't list \<Rightarrow> 't list \<Rightarrow> 't list \<Rightarrow> bool" where
  "attn_shape n_heads n_kv_heads seq_q seq_k d Q K V \<longleftrightarrow> 0 < n_kv_heads \<and> n_kv_heads dvd n_heads \<and>
     length Q = n_heads * seq_q * d \<and> length K = n_kv_heads * seq_k * d \<and> length V = n_kv_heads * seq_k * d"

lemma kv_head: "n_kv_heads dvd n_heads \<Longrightarrow> 0 < n_kv_heads \<Longrightarrow> h < n_heads \<Longrightarrow> h div (n_heads div n_kv_heads) < n_kv_heads" for h :: nat
proof -
  assume a: "n_kv_heads dvd n_heads" "0 < n_kv_heads" "h < n_heads"
  then obtain g where "n_heads = n_kv_heads * g" by (elim dvdE)
  then show ?thesis using a(2,3) by (simp add: less_mult_imp_div_less)
qed

lemma cell_row: "a < r \<Longrightarrow> b < s \<Longrightarrow> a * s * d + b * d + d \<le> r * s * (d :: nat)"
proof -
  assume "a < r" "b < s"
  then have "(a * s + b) * d + d \<le> r * s * d" by (intro src_row div_mult_add_lt)
  then show ?thesis by (simp add: algebra_simps)
qed

text \<open>Two scans over the same keys with enough registers.\<close>

lemma attn_scan_agree:
  fixes M :: "('f::{plus,minus,times,inverse,zero,one,ord}, 'z) amath_scheme"
  assumes shape: "attn_shape n_heads n_kv_heads seq_q seq_k d Q K V" and h: "h < n_heads" "qi < seq_q"
    and reg: "d \<le> nreg" "d \<le> nreg'" and keys: "set keys \<subseteq> {..<seq_k}"
  shows "\<exists>s t. attn_scan M ld nreg Q K V (n_heads div n_kv_heads) seq_q seq_k d keys h qi = Some s \<and>
    attn_scan M ld nreg' Q K V (n_heads div n_kv_heads) seq_q seq_k d keys h qi = Some t \<and> regs_agree d s t"
proof -
  let ?kvh = "h div (n_heads div n_kv_heads)" and ?scale = "1 / sqrt_fn M (of_num M (int d))"
  have kvh: "?kvh < n_kv_heads" using shape h(1) by (auto simp: attn_shape_def intro: kv_head)
  have q: "(h * seq_q + qi) * d + d \<le> length Q"
    using cell_row [OF h, of d] shape by (simp add: attn_shape_def algebra_simps)
  have kv: "?kvh * seq_k * d + ki * d + j < length K" "?kvh * seq_k * d + ki * d + j < length V" if "ki \<in> set keys" "j < d" for ki j
    using cell_row [OF kvh, of ki seq_k d] keys that shape by (force simp: attn_shape_def)+
  let ?q = "\<lambda>n. map (\<lambda>j. ld (Q ! ((h * seq_q + qi) * d + j))) [0..<d] @ replicate (n - d) 0"
  let ?score = "\<lambda>n ki. dot_score (rd (?q n)) (\<lambda>j. map_option ld (rd K (?kvh * seq_k * d + ki * d + j))) d ?scale"
  have sc: "\<exists>c. \<forall>n\<ge>d. ?score n ki = Some c" if ki: "ki \<in> set keys" for ki
  proof -
    have "foldM (\<lambda>j score. do { a \<leftarrow> rd (?q n) j; b \<leftarrow> map_option ld (rd K (?kvh * seq_k * d + ki * d + j)); Some (score + a * b) }) [0..<d] 0 =
        Some (fold (\<lambda>j score. score + ld (Q ! ((h * seq_q + qi) * d + j)) * ld (K ! (?kvh * seq_k * d + ki * d + j))) [0..<d] 0)" for n
      by (rule foldM_pure') (use kv [OF ki] in \<open>auto simp: nth_append\<close>)
    then show ?thesis by (simp add: dot_score_def)
  qed
  let ?step = "\<lambda>n ki s. do { score \<leftarrow> ?score n ki; flash_key M d score (\<lambda>j. map_option ld (rd V (?kvh * seq_k * d + ki * d + j))) s }"
  have "\<exists>s t. foldM (?step nreg) keys (flash_init M nreg) = Some s \<and> foldM (?step nreg') keys (flash_init M nreg') = Some t \<and> regs_agree d s t"
  proof (rule foldM_agree)
    show "regs_agree d (flash_init M nreg) (flash_init M nreg')" using reg by (simp add: regs_agree_def flash_init_def)
    fix ki and s t :: "'f \<times> 'f \<times> 'f list" assume ki: "ki \<in> set keys" and st: "regs_agree d s t"
    obtain c where c: "?score nreg ki = Some c" "?score nreg' ki = Some c" using sc [OF ki] reg by blast
    have "\<exists>s' t'. flash_key M d c (\<lambda>j. map_option ld (rd V (?kvh * seq_k * d + ki * d + j))) s = Some s' \<and>
        flash_key M d c (\<lambda>j. map_option ld (rd V (?kvh * seq_k * d + ki * d + j))) t = Some t' \<and> regs_agree d s' t'"
      by (rule flash_key_agree [where x = "\<lambda>j. ld (V ! (?kvh * seq_k * d + ki * d + j))", OF st]) (use kv [OF ki] in simp)
    then show "\<exists>s' t'. ?step nreg ki s = Some s' \<and> ?step nreg' ki t = Some t' \<and> regs_agree d s' t'" using c by simp
  qed
  then show ?thesis by (simp add: attn_scan_def Let_def attn_qreg [OF reg(1) q] attn_qreg [OF reg(2) q])
qed

lemma idx_split: "r < n_heads * seq_q \<Longrightarrow> r div seq_q < n_heads" "r < n_heads * seq_q \<Longrightarrow> r mod seq_q < seq_q" for r :: nat
  by (auto simp: less_mult_imp_div_less) (metis gr_zeroI less_nat_zero_code mod_less_divisor mult_0_right)

text \<open>The result a scan divides out to.\<close>

definition attn_res :: "('f::{plus,minus,times,inverse,zero,one,ord}, 'z) amath_scheme \<Rightarrow> ('t \<Rightarrow> 'f) \<Rightarrow> nat \<Rightarrow> 't list \<Rightarrow> 't list \<Rightarrow> 't list \<Rightarrow>
    nat \<Rightarrow> nat \<Rightarrow> nat \<Rightarrow> nat \<Rightarrow> (nat \<Rightarrow> nat list) \<Rightarrow> nat \<Rightarrow> nat \<Rightarrow> 'f" where
  "attn_res M ld nreg Q K V gqa seq_q seq_k d keys idx j =
     (case the (attn_scan M ld nreg Q K V gqa seq_q seq_k d (keys (idx mod seq_q)) (idx div seq_q) (idx mod seq_q)) of
        (m, l, acc) \<Rightarrow> acc ! j * attn_inv l)"

lemma attn_launch:
  assumes shape: "attn_shape n_heads n_kv_heads seq_q seq_k d Q K V" and sched: "schedule (n_heads * seq_q) sched"
    and reg: "d \<le> nreg" and keys: "\<And>qi. set (keys qi) \<subseteq> {..<seq_k}" and len: "length out = n_heads * seq_q * d"
  shows "foldM (\<lambda>idx out. do {
     let h = idx div seq_q;
     let qi = idx mod seq_q;
     (m, l, acc) \<leftarrow> attn_scan M ld nreg Q K V (n_heads div n_kv_heads) seq_q seq_k d (keys qi) h qi;
     let inv = attn_inv l;
     foldM (\<lambda>j out. do { a \<leftarrow> rd acc j; wr out ((h * seq_q + qi) * d + j) (st (a * inv)) }) [0..<d] out }) sched out =
    Some (map (\<lambda>a. st (attn_res M ld nreg Q K V (n_heads div n_kv_heads) seq_q seq_k d keys (a div d) (a mod d))) [0..<n_heads * seq_q * d])"
proof (rule rows_launch [OF sched len])
  fix r and m :: "'b list" assume r: "r < n_heads * seq_q" and lm: "length m = n_heads * seq_q * d"
  have h: "r div seq_q < n_heads" "r mod seq_q < seq_q"
    using r by (auto simp: less_mult_imp_div_less) (metis gr_zeroI less_nat_zero_code mod_less_divisor mult_0_right)
  obtain mx l acc where s: "attn_scan M ld nreg Q K V (n_heads div n_kv_heads) seq_q seq_k d (keys (r mod seq_q)) (r div seq_q) (r mod seq_q) = Some (mx, l, acc)"
      "d \<le> length acc"
    using attn_scan_agree [OF shape h reg reg keys [of "r mod seq_q"], of M ld] by (auto simp: regs_agree_def)
  have "\<exists>m'. foldM (\<lambda>j out. do { a \<leftarrow> rd acc j; wr out (r * d + j) (st (a * attn_inv l)) }) [0..<d] m = Some m' \<and>
      writes {r * d..<r * d + d} (\<lambda>a. st (acc ! (a - r * d) * attn_inv l)) m m'"
    by (rule store_loop) (use s(2) lm src_row [OF r, of d] in auto)
  then show "\<exists>m'. (do {
     let h = r div seq_q;
     let qi = r mod seq_q;
     (mx, l, acc) \<leftarrow> attn_scan M ld nreg Q K V (n_heads div n_kv_heads) seq_q seq_k d (keys qi) h qi;
     let inv = attn_inv l;
     foldM (\<lambda>j out. do { a \<leftarrow> rd acc j; wr out ((h * seq_q + qi) * d + j) (st (a * inv)) }) [0..<d] m }) = Some m' \<and>
    writes {r * d..<r * d + d} (\<lambda>a. st (attn_res M ld nreg Q K V (n_heads div n_kv_heads) seq_q seq_k d keys r (a - r * d))) m m'"
    by (simp add: Let_def s(1) attn_res_def)
qed


section \<open>What the kernels compute\<close>

text \<open>Key \<open>ki\<close> as query \<open>idx\<close> sees it: the scaled score and the value row.\<close>

definition attn_key :: "('t \<Rightarrow> real) \<Rightarrow> 't list \<Rightarrow> 't list \<Rightarrow> 't list \<Rightarrow> nat \<Rightarrow> nat \<Rightarrow> nat \<Rightarrow> nat \<Rightarrow> nat \<Rightarrow> nat \<Rightarrow> nat \<Rightarrow> akey" where
  "attn_key lr Q K V n_heads n_kv_heads seq_q seq_k d idx ki =
     (let row = (idx div seq_q div (n_heads div n_kv_heads) * seq_k + ki) * d
      in ((\<Sum>j<d. lr (Q ! (idx * d + j)) * lr (K ! (row + j))) / sqrt (real d), \<lambda>j. lr (V ! (row + j))))"

definition attn_sees :: "nat \<Rightarrow> nat \<Rightarrow> bool \<Rightarrow> nat \<Rightarrow> nat list" where
  "attn_sees seq_q seq_k causal qi = filter (\<lambda>k. causal \<longrightarrow> k + seq_q \<le> qi + seq_k) [0..<seq_k]"

definition swa_sees :: "nat \<Rightarrow> nat \<Rightarrow> nat \<Rightarrow> nat \<Rightarrow> nat list" where
  "swa_sees seq_q seq_k window qi =
     filter (\<lambda>k. window \<noteq> 0 \<longrightarrow> qi + seq_k \<le> k + seq_q + window div 2 \<and> k + seq_q \<le> qi + seq_k + window div 2) [0..<seq_k]"

lemma filter_upt_less: "filter (\<lambda>k. a \<le> k \<and> k < b) [0..<n] = [a..<min b n]"
proof -
  have "sorted (filter (\<lambda>k. a \<le> k \<and> k < b) [0..<n])" "distinct (filter (\<lambda>k. a \<le> k \<and> k < b) [0..<n])" by (simp_all add: sorted_wrt_filter)
  moreover have "set (filter (\<lambda>k. a \<le> k \<and> k < b) [0..<n]) = set [a..<min b n]" by auto
  ultimately show ?thesis by (intro sorted_distinct_set_unique) auto
qed

lemma attn_keys_sees:
  assumes "seq_q \<le> seq_k" "seq_k < 2 ^ 64" "qi < seq_q"
  shows "attn_keys seq_q seq_k causal qi = attn_sees seq_q seq_k causal qi"
proof -
  have d: "usize (int seq_k - int seq_q) = seq_k - seq_q" using assms by (subst usize_nonneg) (auto simp: nat_diff_distrib)
  have c: "usize (int qi + int (seq_k - seq_q)) = qi + (seq_k - seq_q)" using assms by (subst usize_nonneg) auto
  have l: "usize (int seq_k - 1) = seq_k - 1" using assms by (subst usize_nonneg) auto
  have "attn_sees seq_q seq_k causal qi = filter (\<lambda>k. 0 \<le> k \<and> k < (if causal then Suc (qi + (seq_k - seq_q)) else seq_k)) [0..<seq_k]"
    unfolding attn_sees_def using assms by (intro filter_cong) auto
  also have "\<dots> = attn_keys seq_q seq_k causal qi"
    unfolding filter_upt_less attn_keys_def Let_def d c l using assms by (cases seq_k) auto
  finally show ?thesis by simp
qed

lemma swa_keys_sees:
  assumes "seq_q \<le> seq_k" "seq_k + window < 2 ^ 64" "qi < seq_q"
  shows "swa_keys seq_q seq_k window qi = swa_sees seq_q seq_k window qi"
proof -
  have d: "usize (int seq_k - int seq_q) = seq_k - seq_q" using assms by (subst usize_nonneg) (auto simp: nat_diff_distrib)
  have c: "usize (int qi + int (seq_k - seq_q)) = qi + (seq_k - seq_q)" using assms by (subst usize_nonneg) auto
  have e: "usize (int (qi + (seq_k - seq_q)) + int (window div 2) + 1) = qi + (seq_k - seq_q) + window div 2 + 1"
    using assms by (subst usize_nonneg) auto
  show ?thesis
  proof (cases "window = 0")
    case False
    have "swa_sees seq_q seq_k window qi = filter (\<lambda>k. qi + (seq_k - seq_q) - window div 2 \<le> k \<and> k < qi + (seq_k - seq_q) + window div 2 + 1) [0..<seq_k]"
      unfolding swa_sees_def using assms(1) False by (intro filter_cong) auto
    moreover have "(if a > b then a - b else 0) = a - b" "(if a < b then a else b) = min a b" for a b :: nat by auto
    ultimately show ?thesis unfolding filter_upt_less swa_keys_def Let_def d c e using False by simp
  qed (simp add: swa_keys_def swa_sees_def)
qed

lemma cell_split:
  fixes a :: nat
  assumes "a < n_heads * seq_q * d"
  shows "a div d < n_heads * seq_q" "a mod d < d" "a div d mod seq_q < seq_q" "a div d div seq_q < n_heads"
proof -
  have "0 < d" using assms by (cases d) auto
  show c: "a div d < n_heads * seq_q" "a mod d < d" using assms \<open>0 < d\<close> by (simp_all add: less_mult_imp_div_less)
  have "0 < seq_q" using assms by (cases seq_q) auto
  show "a div d mod seq_q < seq_q" "a div d div seq_q < n_heads" using c(1) \<open>0 < seq_q\<close> by (simp_all add: less_mult_imp_div_less)
qed

lemma attn_keys_range: "set (attn_keys seq_q seq_k causal qi) \<subseteq> {..<seq_k}"
  by (auto simp: attn_keys_def Let_def)

lemma swa_keys_range: "set (swa_keys seq_q seq_k window qi) \<subseteq> {..<seq_k}"
  by (auto simp: swa_keys_def Let_def)

lemma attn_res_exact:
  fixes Q :: "'t list"
  assumes shape: "attn_shape n_heads n_kv_heads seq_q seq_k d Q K V" and idx: "idx < n_heads * seq_q"
    and reg: "d \<le> nreg" and keys: "set (keys (idx mod seq_q)) \<subseteq> {..<seq_k}" and j: "j < d"
  shows "attn_res exact_amath (\<lambda>w. Fin (lr w)) nreg Q K V (n_heads div n_kv_heads) seq_q seq_k d keys idx j =
    Fin (attends (map (attn_key lr Q K V n_heads n_kv_heads seq_q seq_k d idx) (keys (idx mod seq_q))) None j)"
proof -
  let ?h = "idx div seq_q" and ?qi = "idx mod seq_q" and ?ld = "\<lambda>w. Fin (lr w)"
  let ?kvh = "?h div (n_heads div n_kv_heads)"
  have h: "?h < n_heads" "?qi < seq_q" using idx
    by (auto simp: less_mult_imp_div_less) (metis gr_zeroI less_nat_zero_code mod_less_divisor mult_0_right)
  have kvh: "?kvh < n_kv_heads" using shape h(1) by (auto simp: attn_shape_def intro: kv_head)
  have q: "idx * d + d \<le> length Q"
    using src_row [OF idx, of d] shape by (simp add: attn_shape_def)
  have row: "?kvh * seq_k * d + ki * d + j = (?kvh * seq_k + ki) * d + j" for ki j by (simp add: algebra_simps)
  have kv: "(?kvh * seq_k + ki) * d + j < length K" "(?kvh * seq_k + ki) * d + j < length V" if "ki \<in> set (keys ?qi)" "j < d" for ki j
    using cell_row [OF kvh, of ki seq_k d] keys that shape unfolding row [symmetric] by (force simp: attn_shape_def)+
  let ?q = "map (\<lambda>j. ?ld (Q ! (idx * d + j))) [0..<d] @ replicate (nreg - d) 0"
  let ?body = "\<lambda>ki s. do { score \<leftarrow> dot_score (rd ?q) (\<lambda>j. map_option ?ld (rd K ((?kvh * seq_k + ki) * d + j))) d (1 / Fin (sqrt (real d)));
      flash_key exact_amath d score (\<lambda>j. map_option ?ld (rd V ((?kvh * seq_k + ki) * d + j))) s }"
  have "\<exists>s. foldM ?body (keys ?qi) (flash_init exact_amath nreg) = Some s \<and>
      flash_rep (min d nreg) nreg (map (attn_key lr Q K V n_heads n_kv_heads seq_q seq_k d idx) (filter (\<lambda>i. \<not> False) (keys ?qi))) s"
  proof (rule flash.stream)
    fix ki s assume ki: "ki \<in> set (keys ?qi)"
    have "dot_score (rd ?q) (\<lambda>j. map_option ?ld (rd K ((?kvh * seq_k + ki) * d + j))) d (Fin (1 / sqrt (real d))) =
        Some (Fin (fst (attn_key lr Q K V n_heads n_kv_heads seq_q seq_k d idx ki)))"
      by (subst dot_score_exact [where a = "\<lambda>j. lr (Q ! (idx * d + j))" and b = "\<lambda>j. lr (K ! ((?kvh * seq_k + ki) * d + j))"])
        (use kv [OF ki] reg in \<open>auto simp: nth_append attn_key_def Let_def rd_def\<close>)
    moreover have "flash_key exact_amath d (Fin (fst (attn_key lr Q K V n_heads n_kv_heads seq_q seq_k d idx ki)))
        (\<lambda>j. map_option ?ld (rd V ((?kvh * seq_k + ki) * d + j))) s = absorb_key d (attn_key lr Q K V n_heads n_kv_heads seq_q seq_k d idx ki) s"
      by (subst flash_key_absorb [where x = "\<lambda>j. lr (V ! ((?kvh * seq_k + ki) * d + j))"]) (use kv [OF ki] in \<open>auto simp: attn_key_def Let_def\<close>)
    ultimately show "?body ki s = (if False then Some s else absorb_key (min d nreg) (attn_key lr Q K V n_heads n_kv_heads seq_q seq_k d idx ki) s)"
      using reg by (simp add: one_xreal_def)
  qed
  then obtain m l acc where s: "foldM ?body (keys ?qi) (flash_init exact_amath nreg) = Some (m, l, acc)"
      "flash_rep d nreg (map (attn_key lr Q K V n_heads n_kv_heads seq_q seq_k d idx) (keys ?qi)) (m, l, acc)"
    using reg by (auto simp: min_absorb1)
  have "attn_scan exact_amath ?ld nreg Q K V (n_heads div n_kv_heads) seq_q seq_k d (keys ?qi) ?h ?qi = Some (m, l, acc)"
    using s(1) by (simp add: attn_scan_def Let_def row attn_qreg [OF reg q])
  then show ?thesis using flash_finish [OF s(2) j] by (simp add: attn_res_def attn_inv_def)
qed

lemma attn_typed_rows:
  assumes "attn_shape n_heads n_kv_heads seq_q seq_k d Q K V" "schedule (n_heads * seq_q) sched" "d \<le> kMaxD_dense" "length out = n_heads * seq_q * d"
  shows "attn_typed M ld st Q K V n_heads n_kv_heads seq_q seq_k d causal sched out =
    Some (map (\<lambda>a. st (attn_res M ld kMaxD_dense Q K V (n_heads div n_kv_heads) seq_q seq_k d (attn_keys seq_q seq_k causal) (a div d) (a mod d))) [0..<n_heads * seq_q * d])"
  unfolding attn_typed_def by (rule attn_launch [OF assms(1-3) attn_keys_range assms(4)])

lemma attn_swa_rows:
  assumes "attn_shape n_heads n_kv_heads seq_q seq_k d Q K V" "schedule (n_heads * seq_q) sched" "d \<le> kMaxD_swa" "length out = n_heads * seq_q * d"
  shows "attn_swa_typed M ld st Q K V n_heads n_kv_heads seq_q seq_k d window sched out =
    Some (map (\<lambda>a. st (attn_res M ld kMaxD_swa Q K V (n_heads div n_kv_heads) seq_q seq_k d (swa_keys seq_q seq_k window) (a div d) (a mod d))) [0..<n_heads * seq_q * d])"
  unfolding attn_swa_typed_def by (rule attn_launch [OF assms(1-3) swa_keys_range assms(4)])

lemma attn_f16ctx_rows:
  fixes out :: "'t list" and out16 :: "'h list"
  assumes shape: "attn_shape n_heads n_kv_heads seq_q seq_k d Q K V" and sched: "schedule (n_heads * seq_q) sched" and reg: "d \<le> kMaxD_dense"
    and len: "length out = n_heads * seq_q * d" "length out16 = n_heads * seq_q * d"
  shows "attn_f16ctx_typed M ld st st16 Q K V n_heads n_kv_heads seq_q seq_k d causal sched (out, out16) =
    Some (map (\<lambda>a. st (attn_res M ld kMaxD_dense Q K V (n_heads div n_kv_heads) seq_q seq_k d (attn_keys seq_q seq_k causal) (a div d) (a mod d))) [0..<n_heads * seq_q * d],
      map (\<lambda>a. st16 (attn_res M ld kMaxD_dense Q K V (n_heads div n_kv_heads) seq_q seq_k d (attn_keys seq_q seq_k causal) (a div d) (a mod d))) [0..<n_heads * seq_q * d])"
  unfolding attn_f16ctx_typed_def
proof (rule rows_launch2 [OF sched len])
  fix r and m :: "'t list" and m16 :: "'h list"
  assume r: "r < n_heads * seq_q" and lm: "length m = n_heads * seq_q * d" "length m16 = n_heads * seq_q * d"
  let ?res = "attn_res M ld kMaxD_dense Q K V (n_heads div n_kv_heads) seq_q seq_k d (attn_keys seq_q seq_k causal) r"
  obtain mx l acc where s: "attn_scan M ld kMaxD_dense Q K V (n_heads div n_kv_heads) seq_q seq_k d (attn_keys seq_q seq_k causal (r mod seq_q)) (r div seq_q) (r mod seq_q) = Some (mx, l, acc)"
      "d \<le> length acc"
    using attn_scan_agree [OF shape idx_split [OF r] reg reg attn_keys_range [of seq_q seq_k causal "r mod seq_q"], of M ld] by (auto simp: regs_agree_def)
  have res: "?res j = acc ! j * attn_inv l" for j by (simp add: attn_res_def s(1))
  have "\<exists>a b. foldM (\<lambda>j (out, out16). do {
       a \<leftarrow> rd acc j;
       let res = a * attn_inv l;
       out \<leftarrow> wr out (r * d + j) (st res);
       out16 \<leftarrow> wr out16 (r * d + j) (st16 res);
       Some (out, out16) }) [0..<d] (m, m16) = Some (a, b) \<and>
     writes {r * d..<r * d + d} (\<lambda>c. st (?res (c - r * d))) m a \<and> writes {r * d..<r * d + d} (\<lambda>c. st16 (?res (c - r * d))) m16 b"
    by (rule store2_loop) (use s(2) lm src_row [OF r, of d] in \<open>auto simp: Let_def res\<close>)
  then show "\<exists>a' b'. (do {
     let h = r div seq_q;
     let qi = r mod seq_q;
     (mx, l, acc) \<leftarrow> attn_scan M ld kMaxD_dense Q K V (n_heads div n_kv_heads) seq_q seq_k d (attn_keys seq_q seq_k causal qi) h qi;
     let inv = attn_inv l;
     foldM (\<lambda>j (out, out16). do {
       a \<leftarrow> rd acc j;
       let res = a * inv;
       out \<leftarrow> wr out ((h * seq_q + qi) * d + j) (st res);
       out16 \<leftarrow> wr out16 ((h * seq_q + qi) * d + j) (st16 res);
       Some (out, out16) }) [0..<d] (m, m16) }) = Some (a', b') \<and>
     writes {r * d..<r * d + d} (\<lambda>c. st (?res (c - r * d))) m a' \<and> writes {r * d..<r * d + d} (\<lambda>c. st16 (?res (c - r * d))) m16 b'"
    by (simp add: Let_def s(1))
qed

text \<open>C16: Attention computes softmax attention: with the recurrence in exact arithmetic, every order of the work-items stores in each cell
  of the output the softmax-weighted mean of the value rows the query sees, all of them or with \<open>causal\<close> those up to its
  end-aligned position, with scores scaled by \<open>1 / sqrt d\<close> and query heads sharing key heads in groups.\<close>

theorem attention_exact:
  assumes "attn_shape n_heads n_kv_heads seq_q seq_k d Q K V" "schedule (n_heads * seq_q) sched" "d \<le> kMaxD_dense"
    and "seq_q \<le> seq_k" "seq_k < 2 ^ 64" "length out = n_heads * seq_q * d"
  shows "attn_typed exact_amath (\<lambda>w. Fin (lr w)) st Q K V n_heads n_kv_heads seq_q seq_k d causal sched out =
    Some (map (\<lambda>a. let idx = a div d in st (Fin (attends (map (attn_key lr Q K V n_heads n_kv_heads seq_q seq_k d idx)
      (attn_sees seq_q seq_k causal (idx mod seq_q))) None (a mod d)))) [0..<n_heads * seq_q * d])"
proof -
  have "attn_res exact_amath (\<lambda>w. Fin (lr w)) kMaxD_dense Q K V (n_heads div n_kv_heads) seq_q seq_k d (attn_keys seq_q seq_k causal) (a div d) (a mod d) =
      Fin (attends (map (attn_key lr Q K V n_heads n_kv_heads seq_q seq_k d (a div d)) (attn_sees seq_q seq_k causal (a div d mod seq_q))) None (a mod d))"
    if "a < n_heads * seq_q * d" for a
    using cell_split [OF that] by (simp add: attn_res_exact [OF assms(1) _ assms(3) attn_keys_range] attn_keys_sees [OF assms(4,5)])
  then show ?thesis unfolding attn_typed_rows [OF assms(1-3,6)] by (simp add: Let_def)
qed

theorem attention_exact_witness:
  "attn_typed exact_amath Fin xval [1, 1] [0, 0] [3, 5] 1 1 2 2 1 True [1, 0] [0, 0] = Some [3, 4]"
proof -
  have "schedule (1 * 2) [1, 0 :: nat]" by (auto simp: schedule_def)
  from attention_exact [where lr = "\<lambda>x. x" and st = xval and Q = "[1, 1]" and K = "[0, 0]" and V = "[3, 5]" and causal = True
      and out = "[0, 0]" and seq_k = 2 and d = 1 and n_kv_heads = 1, OF _ this]
  show ?thesis by (simp add: attn_shape_def kMaxD_dense_def upt_rec attn_sees_def attn_key_def attends_def softmax_num_def softmax_den_def lessThan_Suc)
qed

text \<open>Sliding-window attention computes softmax attention over the symmetric band of keys within \<open>window / 2\<close> of the
  query's end-aligned position, and over all keys when the window is zero.\<close>

theorem attn_swa_exact:
  assumes "attn_shape n_heads n_kv_heads seq_q seq_k d Q K V" "schedule (n_heads * seq_q) sched" "d \<le> kMaxD_swa"
    and "seq_q \<le> seq_k" "seq_k + window < 2 ^ 64" "length out = n_heads * seq_q * d"
  shows "attn_swa_typed exact_amath (\<lambda>w. Fin (lr w)) st Q K V n_heads n_kv_heads seq_q seq_k d window sched out =
    Some (map (\<lambda>a. let idx = a div d in st (Fin (attends (map (attn_key lr Q K V n_heads n_kv_heads seq_q seq_k d idx)
      (swa_sees seq_q seq_k window (idx mod seq_q))) None (a mod d)))) [0..<n_heads * seq_q * d])"
proof -
  have "attn_res exact_amath (\<lambda>w. Fin (lr w)) kMaxD_swa Q K V (n_heads div n_kv_heads) seq_q seq_k d (swa_keys seq_q seq_k window) (a div d) (a mod d) =
      Fin (attends (map (attn_key lr Q K V n_heads n_kv_heads seq_q seq_k d (a div d)) (swa_sees seq_q seq_k window (a div d mod seq_q))) None (a mod d))"
    if "a < n_heads * seq_q * d" for a
    using cell_split [OF that] by (simp add: attn_res_exact [OF assms(1) _ assms(3) swa_keys_range] swa_keys_sees [OF assms(4,5)])
  then show ?thesis unfolding attn_swa_rows [OF assms(1-3,6)] by (simp add: Let_def)
qed

text \<open>A window of zero makes the sliding-window kernel store the very bits the dense kernel stores, in any arithmetic and
  any order of the work-items, although its register arrays are larger.\<close>

theorem attn_swa_dense:
  assumes "attn_shape n_heads n_kv_heads seq_q seq_k d Q K V" "schedule (n_heads * seq_q) sched" "schedule (n_heads * seq_q) sched'"
    and "d \<le> kMaxD_dense" "seq_k < 2 ^ 64" "length out = n_heads * seq_q * d"
  shows "attn_swa_sycl M dt Q K V n_heads n_kv_heads seq_q seq_k d 0 sched out = attention_sycl M dt Q K V n_heads n_kv_heads seq_q seq_k d False sched' out
    \<and> attention_sycl M dt Q K V n_heads n_kv_heads seq_q seq_k d False sched' out \<noteq> None"
proof -
  have l: "usize (int seq_k - 1) = seq_k - 1" if "0 < seq_k" using assms(5) that by (subst usize_nonneg) auto
  have keys: "attn_keys seq_q seq_k False qi = swa_keys seq_q seq_k 0 qi" for qi
    using l by (cases seq_k) (auto simp: attn_keys_def swa_keys_def Let_def)
  have reg: "d \<le> kMaxD_swa" using assms(4) by (simp add: kMaxD_dense_def kMaxD_swa_def)
  have "attn_res M (elem_ld dt) kMaxD_swa Q K V (n_heads div n_kv_heads) seq_q seq_k d (swa_keys seq_q seq_k 0) (a div d) (a mod d) =
      attn_res M (elem_ld dt) kMaxD_dense Q K V (n_heads div n_kv_heads) seq_q seq_k d (attn_keys seq_q seq_k False) (a div d) (a mod d)"
    if "a < n_heads * seq_q * d" for a
  proof -
    note c = cell_split [OF that]
    obtain s t where "attn_scan M (elem_ld dt) kMaxD_swa Q K V (n_heads div n_kv_heads) seq_q seq_k d (swa_keys seq_q seq_k 0 (a div d mod seq_q)) (a div d div seq_q) (a div d mod seq_q) = Some s"
      "attn_scan M (elem_ld dt) kMaxD_dense Q K V (n_heads div n_kv_heads) seq_q seq_k d (swa_keys seq_q seq_k 0 (a div d mod seq_q)) (a div d div seq_q) (a div d mod seq_q) = Some t"
      "regs_agree d s t"
      using attn_scan_agree [OF assms(1) c(4,3) reg assms(4) swa_keys_range [of seq_q seq_k 0 "a div d mod seq_q"], of M "elem_ld dt"] by blast
    then show ?thesis using c(2) by (auto simp: attn_res_def keys regs_agree_def)
  qed
  then show ?thesis
    unfolding attn_swa_sycl_def attention_sycl_def attn_swa_rows [OF assms(1,2) reg assms(6)] attn_typed_rows [OF assms(1,3,4,6)] by simp
qed

text \<open>Storing a half and rounding it to a half again changes nothing.\<close>

lemma f16_of_f32_again: "f16_of_f32 (f16_bits_to_f32 (f16_of_f32 x)) = f16_of_f32 x"
proof (cases "f32_nan x")
  case True
  then have "f16_of_f32 x = 0x7e00 \<or> f16_of_f32 x = 0xfe00" by (simp add: f16_of_f32_def)
  moreover have "f16_of_f32 (f16_bits_to_f32 0x7e00) = 0x7e00" "f16_of_f32 (f16_bits_to_f32 0xfe00) = 0xfe00"
    by (simp_all add: f16_of_f32_def f16_bits_to_f32_def f32_nan_def Let_def f32_eval)
  ultimately show ?thesis by metis
next
  case False
  then have "f16_mag (f16_of_f32 x) \<le> 0x7c00" by (simp add: f16_of_f32_mag)
  then show ?thesis using f16c.enc_dec unfolding f32_to_f16_bits_nearest by simp
qed

lemma elem_st_copy:
  assumes "dt = DF32 \<or> dt = DF16"
  shows "elem_st DF16 (elem_ld dt (elem_st dt x)) = elem_st DF16 x"
  using assms by (auto simp: f16_of_f32_again ucast_up_ucast_id is_up)

text \<open>The fused kernel stores what the plain kernel stores, and for \<open>float\<close> and \<open>half\<close> tensors the extra context is that output
  rounded to half, bit for bit, in any arithmetic and any order of the work-items.\<close>

theorem attention_f16ctx_copies:
  assumes "attn_shape n_heads n_kv_heads seq_q seq_k d Q K V" "schedule (n_heads * seq_q) sched" "schedule (n_heads * seq_q) sched'"
    and "d \<le> kMaxD_dense" "length out = n_heads * seq_q * d" "length out16 = n_heads * seq_q * d" "dt = DF32 \<or> dt = DF16"
  shows "\<exists>o1. attention_sycl M dt Q K V n_heads n_kv_heads seq_q seq_k d causal sched' out = Some o1 \<and>
    attention_f16ctx_sycl M dt Q K V n_heads n_kv_heads seq_q seq_k d causal sched (out, out16) = Some (o1, map (\<lambda>w. elem_st DF16 (elem_ld dt w)) o1)"
  unfolding attention_sycl_def attention_f16ctx_sycl_def attn_typed_rows [OF assms(1,3,4,5)] attn_f16ctx_rows [OF assms(1,2,4,5,6)]
  by (simp only: option.inject ex_simps simp_thms map_map comp_def elem_st_copy [OF assms(7)])

end
