(* ===== verification/PagedAttention.thy ===== *)
theory PagedAttention
  imports Attention
begin

text \<open>
  Decode attention over the paged key/value cache (\<open>paged_attention_decode.sycl.cpp\<close>).  The keys of a
  sequence are split over sub-groups of 16 work-items, each of which holds every 16th element of the head; a second
  launch merges the splits' states.  Pages are looked up in a block table; negative
  entries are skipped.  \<open>kl\<close> and \<open>vl\<close> decode a cache cell (\<open>kv_at\<close>).  Pointers that may be null are options.
\<close>

section \<open>The cache\<close>

record paged_shape =
  q_heads :: nat
  kv_heads :: nat
  head_dim :: nat
  page_size :: nat
  max_pages :: nat
  page_stride :: nat

definition kMaxD_paged :: nat where "kMaxD_paged = 256"
definition kSG :: nat where "kSG = 16"
definition kPerLane :: nat where "kPerLane = kMaxD_paged div kSG"

definition kv_at :: "DType \<Rightarrow> int \<Rightarrow> f32 \<Rightarrow> 32 word \<Rightarrow> f32" where
  "kv_at dt kv_dt scale w =
     (if kv_dt = 1 then fp8_e4m3 (ucast w) * scale else if kv_dt = 2 then fp8_e5m2 (ucast w) * scale else elem_ld dt w)"

definition scale_of :: "f32 option \<Rightarrow> f32" where
  "scale_of s = (case s of Some x \<Rightarrow> x | None \<Rightarrow> 1)"

text \<open>Where key \<open>k\<close> of sequence \<open>b\<close> starts: \<open>Some None\<close> when its page is not mapped.\<close>

definition kv_base :: "paged_shape \<Rightarrow> int list option \<Rightarrow> nat \<Rightarrow> nat \<Rightarrow> nat \<Rightarrow> nat \<Rightarrow> nat option option" where
  "kv_base g block_table max_seqlen_k b kvh k = (case block_table of
     Some table \<Rightarrow> do {
       page \<leftarrow> rd table (b * max_pages g + k div page_size g);
       Some (if page < 0 then None
         else Some (usize page * page_stride g + ((k mod page_size g) * kv_heads g + kvh) * head_dim g)) }
   | None \<Rightarrow> Some (Some (((b * max_seqlen_k + k) * kv_heads g + kvh) * head_dim g)))"

section \<open>Decode\<close>

definition split_keys :: "nat \<Rightarrow> int \<Rightarrow> nat \<Rightarrow> nat \<Rightarrow> nat list" where
  "split_keys ctx window_left splits sp =
     (let lo = if window_left \<ge> 0 then let w = usize window_left + 1 in if ctx > w then ctx - w else 0 else 0;
          rng = if ctx > lo then ctx - lo else 0;
          per = (rng + splits - 1) div splits;
          k0 = lo + sp * per;
          k1 = min (k0 + per) ctx
      in [k0..<k1])"

definition decode_group :: "('f::{plus,minus,times,zero,ord}, 'z) amath_scheme \<Rightarrow> ('t \<Rightarrow> 'f) \<Rightarrow> ('c \<Rightarrow> 'f) \<Rightarrow> ('c \<Rightarrow> 'f) \<Rightarrow> paged_shape \<Rightarrow> 't list \<Rightarrow> 'c list \<Rightarrow> 'c list \<Rightarrow>
    int list \<Rightarrow> int list \<Rightarrow> nat \<Rightarrow> 'f \<Rightarrow> int \<Rightarrow> (nat \<Rightarrow> nat list) \<Rightarrow> nat \<Rightarrow> 'f list \<times> 'f list \<times> 'f list \<Rightarrow> ('f list \<times> 'f list \<times> 'f list) option" where
  "decode_group M ld kl vl g Q kc vc block_table seq_lens splits sm_scale window_left lanes grp bufs = do {
     let sp = grp mod splits;
     let bh = grp div splits;
     let b = bh div q_heads g;
     let h = bh mod q_heads g;
     let kvh = h div (q_heads g div kv_heads g);
     n \<leftarrow> rd seq_lens b;
     let ctx = usize n;
     let nsl = head_dim g div kSG;
     qregs \<leftarrow> those (map (\<lambda>lane. foldM (\<lambda>i qreg. do {
       x \<leftarrow> rd Q ((b * q_heads g + h) * head_dim g + (lane + i * kSG)); wr qreg i (ld x) }) [0..<nsl] (replicate kPerLane 0)) [0..<kSG]);
     states \<leftarrow> foldM (\<lambda>k states. do {
       base \<leftarrow> kv_base g (Some block_table) 0 b kvh k;
       case base of None \<Rightarrow> Some states
       | Some base \<Rightarrow> do {
           partials \<leftarrow> those (map (\<lambda>lane. foldM (\<lambda>i partial. do {
             a \<leftarrow> rd (qregs ! lane) i; x \<leftarrow> rd kc (base + lane + i * kSG); Some (partial + a * kl x) }) [0..<nsl] 0) [0..<kSG]);
           let score = sum_group M partials * sm_scale;
           those (map (\<lambda>lane. flash_key M nsl score (\<lambda>i. map_option vl (rd vc (base + lane + i * kSG))) (states ! lane)) [0..<kSG]) } })
       (split_keys ctx window_left splits sp) (replicate kSG (flash_init M kPerLane));
     let widx = (b * q_heads g + h) * splits + sp;
     foldM (\<lambda>lane (tmp, es, ml). do {
       let (m, l, acc) = states ! lane;
       es \<leftarrow> (if lane = 0 then wr es widx l else Some es);
       ml \<leftarrow> (if lane = 0 then wr ml widx m else Some ml);
       tmp \<leftarrow> foldM (\<lambda>i tmp. do { a \<leftarrow> rd acc i; wr tmp (widx * head_dim g + (lane + i * kSG)) a }) [0..<nsl] tmp;
       Some (tmp, es, ml) }) (lanes grp) bufs }"

definition reduce_item :: "('f::{plus,minus,times,inverse,zero,one,ord}, 'z) amath_scheme \<Rightarrow> ('f \<Rightarrow> 't) \<Rightarrow> paged_shape \<Rightarrow> nat \<Rightarrow> 'f list option \<Rightarrow>
    'f list \<times> 'f list \<times> 'f list \<Rightarrow> nat \<Rightarrow> 't list \<Rightarrow> 't list option" where
  "reduce_item M st g splits sinks bufs idx out = do {
     let (tmp, es, ml) = bufs;
     let b = idx div q_heads g;
     let h = idx mod q_heads g;
     let base = (b * q_heads g + h) * splits;
     m \<leftarrow> foldM (\<lambda>sp m. do { x \<leftarrow> rd ml (base + sp); Some (fmax m x) }) [0..<splits] (ninf M);
     denom \<leftarrow> (case sinks of Some s \<Rightarrow> if m > ninf M then do { x \<leftarrow> rd s h; Some (0 + exp_fn M (x - m)) } else Some 0 | None \<Rightarrow> Some 0);
     (denom, acc) \<leftarrow> foldM (\<lambda>sp (denom, acc). do {
       msp \<leftarrow> rd ml (base + sp);
       if \<not> msp > ninf M then Some (denom, acc)
       else do {
         let w = exp_fn M (msp - m);
         e \<leftarrow> rd es (base + sp);
         acc \<leftarrow> foldM (\<lambda>j acc. do { a \<leftarrow> rd acc j; x \<leftarrow> rd tmp ((base + sp) * head_dim g + j); wr acc j (a + x * w) }) [0..<head_dim g] acc;
         Some (denom + e * w, acc) } }) [0..<splits] (denom, replicate kMaxD_paged 0);
     let inv = attn_inv denom;
     foldM (\<lambda>j out. do { a \<leftarrow> rd acc j; wr out ((b * q_heads g + h) * head_dim g + j) (st (a * inv)) }) [0..<head_dim g] out }"

definition decode_typed :: "('f::{plus,minus,times,inverse,zero,one,ord}, 'z) amath_scheme \<Rightarrow> ('t \<Rightarrow> 'f) \<Rightarrow> ('f \<Rightarrow> 't) \<Rightarrow> ('c \<Rightarrow> 'f) \<Rightarrow> ('c \<Rightarrow> 'f) \<Rightarrow> paged_shape \<Rightarrow> 't list \<Rightarrow> 'c list \<Rightarrow> 'c list \<Rightarrow>
    int list \<Rightarrow> int list \<Rightarrow> nat \<Rightarrow> 'f \<Rightarrow> int \<Rightarrow> 'f list option \<Rightarrow> nat list \<Rightarrow> (nat \<Rightarrow> nat list) \<Rightarrow> nat list \<Rightarrow>
    't list \<times> 'f list \<times> 'f list \<times> 'f list \<Rightarrow> ('t list \<times> 'f list \<times> 'f list \<times> 'f list) option" where
  "decode_typed M ld st kl vl g Q kc vc block_table seq_lens splits sm_scale window_left sinks sched lanes sched' s = do {
     let (out, bufs) = s;
     bufs \<leftarrow> foldM (decode_group M ld kl vl g Q kc vc block_table seq_lens splits sm_scale window_left lanes) sched bufs;
     out \<leftarrow> foldM (reduce_item M st g splits sinks bufs) sched' out;
     Some (out, bufs) }"

definition paged_attention_decode_sycl :: "f32 amath \<Rightarrow> DType \<Rightarrow> int \<Rightarrow> paged_shape \<Rightarrow> 32 word list \<Rightarrow> 32 word list \<Rightarrow> 32 word list \<Rightarrow>
    int list \<Rightarrow> int list \<Rightarrow> int \<Rightarrow> f32 \<Rightarrow> int \<Rightarrow> f32 list option \<Rightarrow> f32 option \<Rightarrow> f32 option \<Rightarrow> nat list \<Rightarrow> (nat \<Rightarrow> nat list) \<Rightarrow> nat list \<Rightarrow>
    32 word list \<times> f32 list \<times> f32 list \<times> f32 list \<Rightarrow> (32 word list \<times> f32 list \<times> f32 list \<times> f32 list) option" where
  "paged_attention_decode_sycl M dt kv_dt g Q kc vc block_table seq_lens num_kv_splits sm_scale window_left sinks k_scale v_scale sched lanes sched' s =
     (if head_dim g > kMaxD_paged \<or> head_dim g mod 16 \<noteq> 0 \<or> num_kv_splits < 1 then Some s
      else decode_typed M (elem_ld dt) (elem_st dt) (kv_at dt kv_dt (scale_of k_scale)) (kv_at dt kv_dt (scale_of v_scale)) g Q kc vc
        block_table seq_lens (nat num_kv_splits) sm_scale window_left sinks sched lanes sched' s)"

section \<open>Keys of the cache\<close>

definition cache_key :: "('t \<Rightarrow> real) \<Rightarrow> ('c \<Rightarrow> real) \<Rightarrow> ('c \<Rightarrow> real) \<Rightarrow> 't list \<Rightarrow> 'c list \<Rightarrow> 'c list \<Rightarrow> nat \<Rightarrow> nat \<Rightarrow> real \<Rightarrow> nat \<Rightarrow> akey" where
  "cache_key lq lk lv Q kc vc qrow d scale base =
     ((\<Sum>j<d. lq (Q ! (qrow + j)) * lk (kc ! (base + j))) * scale, \<lambda>j. lv (vc ! (base + j)))"

definition paged_keys :: "('t \<Rightarrow> real) \<Rightarrow> ('c \<Rightarrow> real) \<Rightarrow> ('c \<Rightarrow> real) \<Rightarrow> paged_shape \<Rightarrow> int list option \<Rightarrow> nat \<Rightarrow> 't list \<Rightarrow> 'c list \<Rightarrow> 'c list \<Rightarrow>
    nat \<Rightarrow> nat \<Rightarrow> nat \<Rightarrow> real \<Rightarrow> nat list \<Rightarrow> akey list" where
  "paged_keys lq lk lv g block_table msk Q kc vc qrow b kvh scale ks =
     map (\<lambda>k. cache_key lq lk lv Q kc vc qrow (head_dim g) scale (the (the (kv_base g block_table msk b kvh k))))
       (filter (\<lambda>k. \<not> kv_base g block_table msk b kvh k = Some None) ks)"

lemma paged_keys_append: "paged_keys lq lk lv g bt msk Q kc vc qrow b kvh scale (ks @ ks') =
    paged_keys lq lk lv g bt msk Q kc vc qrow b kvh scale ks @ paged_keys lq lk lv g bt msk Q kc vc qrow b kvh scale ks'"
  by (simp add: paged_keys_def)

text \<open>Keys below \<open>n\<close> are found in the caches.\<close>

definition kv_fits :: "paged_shape \<Rightarrow> int list option \<Rightarrow> nat \<Rightarrow> nat \<Rightarrow> nat \<Rightarrow> 'c list \<Rightarrow> 'c list \<Rightarrow> bool" where
  "kv_fits g block_table msk b n kc vc \<longleftrightarrow> (\<forall>kvh<kv_heads g. \<forall>k<n. \<exists>bo. kv_base g block_table msk b kvh k = Some bo \<and>
     (\<forall>o1. bo = Some o1 \<longrightarrow> o1 + head_dim g \<le> length kc \<and> o1 + head_dim g \<le> length vc))"

lemma kv_fits_cases:
  assumes "kv_fits g bt msk b n kc vc" "kvh < kv_heads g" "k < n"
  obtains "kv_base g bt msk b kvh k = Some None"
  | o1 where "kv_base g bt msk b kvh k = Some (Some o1)" "o1 + head_dim g \<le> length kc" "o1 + head_dim g \<le> length vc"
  using assms unfolding kv_fits_def by (metis option.exhaust)

section \<open>A sub-group absorbs keys\<close>

definition lane_key :: "nat \<Rightarrow> akey \<Rightarrow> akey" where
  "lane_key lane k = (fst k, \<lambda>i. snd k (lane + i * kSG))"

definition sg_rep :: "nat \<Rightarrow> akey list \<Rightarrow> (xreal \<times> xreal \<times> xreal list) list \<Rightarrow> bool" where
  "sg_rep nsl ks states \<longleftrightarrow> length states = kSG \<and> (\<forall>lane<kSG. flash_rep nsl kPerLane (map (lane_key lane) ks) (states ! lane))"

definition absorb_sg :: "nat \<Rightarrow> akey \<Rightarrow> (xreal \<times> xreal \<times> xreal list) list \<Rightarrow> (xreal \<times> xreal \<times> xreal list) list option" where
  "absorb_sg nsl k states = those (map (\<lambda>lane. absorb_key nsl (lane_key lane k) (states ! lane)) [0..<kSG])"

lemma kSG_pos [simp]: "0 < kSG"
  by (simp add: kSG_def)

lemma those_map_ex:
  assumes "\<And>i. i < n \<Longrightarrow> \<exists>y. f i = Some y \<and> P i y"
  shows "\<exists>ys. those (map f [0..<n]) = Some ys \<and> length ys = n \<and> (\<forall>i<n. P i (ys ! i))"
proof -
  have "those (map f [0..<n]) = Some (map (\<lambda>i. the (f i)) [0..<n])"
    by (rule those_map_Some) (use assms in fastforce)
  moreover have "P i (the (f i))" if "i < n" for i using assms [OF that] by auto
  ultimately show ?thesis by simp
qed

interpretation sg: key_stream "sg_rep (min nsl kPerLane)" "absorb_sg (min nsl kPerLane)" "replicate kSG (flash_init exact_amath kPerLane)" for nsl
proof unfold_locales
  show "sg_rep (min nsl kPerLane) [] (replicate kSG (flash_init exact_amath kPerLane))"
    by (simp add: sg_rep_def flash.rep_start)
  fix ks ss k assume ss: "sg_rep (min nsl kPerLane) ks ss"
  have "\<exists>y. absorb_key (min nsl kPerLane) (lane_key lane k) (ss ! lane) = Some y \<and> flash_rep (min nsl kPerLane) kPerLane (map (lane_key lane) ks @ [lane_key lane k]) y"
    if "lane < kSG" for lane
    by (rule flash.rep_absorb) (use ss that in \<open>simp add: sg_rep_def\<close>)
  from those_map_ex [OF this] show "\<exists>s'. absorb_sg (min nsl kPerLane) k ss = Some s' \<and> sg_rep (min nsl kPerLane) (ks @ [k]) s'"
    by (simp add: absorb_sg_def sg_rep_def)
qed

text \<open>The lanes' slices make up the head.\<close>

lemma sum_lanes: "(\<Sum>lane<kSG. \<Sum>i<nsl. f (lane + i * kSG)) = (\<Sum>j<kSG * nsl. f j)" for f :: "nat \<Rightarrow> 'a::comm_monoid_add"
proof -
  have "(\<Sum>lane<kSG. \<Sum>i<nsl. f (lane + i * kSG)) = (\<Sum>i<nsl. \<Sum>lane<kSG. f (lane + i * kSG))" by (rule sum.swap)
  also have "\<dots> = (\<Sum>i<nsl. sum f {i * kSG..<i * kSG + kSG})"
  proof (rule sum.cong [OF refl])
    fix i
    show "(\<Sum>lane<kSG. f (lane + i * kSG)) = sum f {i * kSG..<i * kSG + kSG}"
      using sum.shift_bounds_nat_ivl [of f 0 "i * kSG" kSG] by (simp add: atLeast0LessThan add.commute)
  qed
  also have "\<dots> = (\<Sum>j<nsl * kSG. f j)" by (rule sum.nat_group)
  finally show ?thesis by (simp add: mult.commute)
qed

lemma lane_split: "j < kSG * nsl \<Longrightarrow> j mod kSG < kSG \<and> j div kSG < nsl \<and> j = j mod kSG + j div kSG * kSG"
  by (simp add: less_mult_imp_div_less mult.commute)

lemma lane_in: "lane < kSG \<Longrightarrow> i < nsl \<Longrightarrow> lane + i * kSG < kSG * nsl"
  using div_mult_add_lt [of i nsl lane kSG] by (simp add: mult.commute add.commute)

lemma sg_state:
  assumes "sg_rep nsl ks states"
  shows "flash_rep (kSG * nsl) (kSG * nsl) ks (fst (states ! 0), fst (snd (states ! 0)), map (\<lambda>j. snd (snd (states ! (j mod kSG))) ! (j div kSG)) [0..<kSG * nsl])"
proof -
  have r: "flash_rep nsl kPerLane (map (lane_key lane) ks) (states ! lane)" if "lane < kSG" for lane using assms that by (simp add: sg_rep_def)
  have top: "top_score (map (lane_key lane) ks) = top_score ks" for lane by (simp add: top_score_def lane_key_def image_image)
  have den: "softmax_den (map (lane_key lane) ks) = softmax_den ks" for lane by (simp add: softmax_den_def lane_key_def comp_def)
  have num: "softmax_num (map (lane_key lane) ks) i = softmax_num ks (lane + i * kSG)" for lane i by (simp add: softmax_num_def lane_key_def comp_def)
  have cell: "snd (snd (states ! (j mod kSG))) ! (j div kSG) = (if ks = [] then 0 else Fin (softmax_num ks j / exp (top_score ks)))"
    if j: "j < kSG * nsl" for j
  proof -
    note ls = lane_split [OF j]
    show ?thesis using r [of "j mod kSG"] ls by (cases "ks = []") (auto simp: flash_rep_def top num split: prod.splits)
  qed
  show ?thesis using r [of 0] cell by (auto simp: flash_rep_def top den split: prod.splits)
qed

text \<open>A loop over keys, in the sub-group.\<close>

lemma sg_scan:
  assumes fits: "kv_fits g bt msk b n kc vc" "kvh < kv_heads g" "set ks \<subseteq> {..<n}"
    and d: "head_dim g = kSG * nsl" "nsl \<le> kPerLane" and q: "qrow + head_dim g \<le> length Q"
  shows "\<exists>states. foldM (\<lambda>k states. do {
       base \<leftarrow> kv_base g bt msk b kvh k;
       case base of None \<Rightarrow> Some states
       | Some base \<Rightarrow> do {
           partials \<leftarrow> those (map (\<lambda>lane. foldM (\<lambda>i partial. do {
             a \<leftarrow> rd (map (\<lambda>lane. map (\<lambda>i. Fin (lq (Q ! (qrow + (lane + i * kSG))))) [0..<nsl] @ replicate (kPerLane - nsl) 0) [0..<kSG] ! lane) i;
             x \<leftarrow> rd kc (base + lane + i * kSG); Some (partial + a * Fin (lk x)) }) [0..<nsl] 0) [0..<kSG]);
           let score = sum_group exact_amath partials * Fin scale;
           those (map (\<lambda>lane. flash_key exact_amath nsl score (\<lambda>i. map_option (\<lambda>w. Fin (lv w)) (rd vc (base + lane + i * kSG))) (states ! lane)) [0..<kSG]) } })
       ks (replicate kSG (flash_init exact_amath kPerLane)) = Some states \<and>
     sg_rep nsl (paged_keys lq lk lv g bt msk Q kc vc qrow b kvh scale ks) states"
    (is "\<exists>states. foldM ?body ks ?init = _ \<and> _")
proof -
  let ?key = "\<lambda>k. cache_key lq lk lv Q kc vc qrow (head_dim g) scale (the (the (kv_base g bt msk b kvh k)))"
  have "\<exists>states. foldM ?body ks ?init = Some states \<and>
      sg_rep (min nsl kPerLane) (map ?key (filter (\<lambda>k. \<not> kv_base g bt msk b kvh k = Some None) ks)) states"
  proof (rule sg.stream)
    fix k states assume k: "k \<in> set ks"
    show "?body k states = (if kv_base g bt msk b kvh k = Some None then Some states else absorb_sg (min nsl kPerLane) (?key k) states)"
    proof (cases rule: kv_fits_cases [OF fits(1,2), of k])
      case 1
      then show ?case using k fits(3) by auto
    next
      case 2
      then show ?thesis by simp
    next
      case (3 o1)
      have in': "o1 + lane + i * kSG < length kc" "o1 + lane + i * kSG < length vc" if "lane < kSG" "i < nsl" for lane i
        using 3(2,3) lane_in [OF that] d(1) by linarith+
      have p: "foldM (\<lambda>i partial. do {
             a \<leftarrow> rd (map (\<lambda>lane. map (\<lambda>i. Fin (lq (Q ! (qrow + (lane + i * kSG))))) [0..<nsl] @ replicate (kPerLane - nsl) 0) [0..<kSG] ! lane) i;
             x \<leftarrow> rd kc (o1 + lane + i * kSG); Some (partial + a * Fin (lk x)) }) [0..<nsl] 0 =
          Some (Fin (\<Sum>i<nsl. lq (Q ! (qrow + (lane + i * kSG))) * lk (kc ! (o1 + (lane + i * kSG)))))" if "lane < kSG" for lane
      proof -
        have "foldM (\<lambda>i partial. do {
             a \<leftarrow> rd (map (\<lambda>lane. map (\<lambda>i. Fin (lq (Q ! (qrow + (lane + i * kSG))))) [0..<nsl] @ replicate (kPerLane - nsl) 0) [0..<kSG] ! lane) i;
             x \<leftarrow> rd kc (o1 + lane + i * kSG); Some (partial + a * Fin (lk x)) }) [0..<nsl] 0 =
          Some (fold (\<lambda>i partial. partial + Fin (lq (Q ! (qrow + (lane + i * kSG))) * lk (kc ! (o1 + (lane + i * kSG))))) [0..<nsl] 0)"
          by (rule foldM_pure') (use that in' [OF that] in \<open>auto simp: nth_append rd_def add.assoc\<close>)
        then show ?thesis by (simp add: fold_add_sum [OF refl] interv_sum_list_conv_sum_set_nat atLeast0LessThan)
      qed
      have ps: "those (map (\<lambda>lane. foldM (\<lambda>i partial. do {
             a \<leftarrow> rd (map (\<lambda>lane. map (\<lambda>i. Fin (lq (Q ! (qrow + (lane + i * kSG))))) [0..<nsl] @ replicate (kPerLane - nsl) 0) [0..<kSG] ! lane) i;
             x \<leftarrow> rd kc (o1 + lane + i * kSG); Some (partial + a * Fin (lk x)) }) [0..<nsl] 0) [0..<kSG]) =
          Some (map (\<lambda>lane. Fin (\<Sum>i<nsl. lq (Q ! (qrow + (lane + i * kSG))) * lk (kc ! (o1 + (lane + i * kSG))))) [0..<kSG])"
        by (rule those_map_Some, rule p) simp
      have score: "(\<Sum>lane\<leftarrow>[0..<kSG]. Fin (\<Sum>i<nsl. lq (Q ! (qrow + (lane + i * kSG))) * lk (kc ! (o1 + (lane + i * kSG))))) * Fin scale = Fin (fst (?key k))"
        using sum_lanes [of "\<lambda>j. lq (Q ! (qrow + j)) * lk (kc ! (o1 + j))" nsl]
        by (simp add: 3(1) cache_key_def d(1) interv_sum_list_conv_sum_set_nat atLeast0LessThan)
      have abs: "flash_key exact_amath nsl (Fin (fst (?key k))) (\<lambda>i. map_option (\<lambda>w. Fin (lv w)) (rd vc (o1 + lane + i * kSG))) s =
          absorb_key nsl (lane_key lane (?key k)) s" if "lane < kSG" for lane s
        by (subst flash_key_absorb [where x = "\<lambda>i. lv (vc ! (o1 + (lane + i * kSG)))"])
          (use in' [OF that] 3(1) in \<open>auto simp: lane_key_def cache_key_def add.assoc\<close>)
      show ?thesis using 3(1) d(2) score
        by (simp add: ps Let_def absorb_sg_def min_absorb1)
          (rule arg_cong [where f = those], rule map_cong [OF refl], use abs 3(1) in simp)
    qed
  qed
  then show ?thesis using d(2) by (simp only: paged_keys_def min_absorb1)
qed


section \<open>A split leaves its state in the workspaces\<close>

text \<open>The state stored for group \<open>grp\<close>.\<close>

definition ws_rep :: "nat \<Rightarrow> akey list \<Rightarrow> nat \<Rightarrow> xreal list \<times> xreal list \<times> xreal list \<Rightarrow> bool" where
  "ws_rep d ks grp bufs \<longleftrightarrow> (case bufs of (tmp, es, ml) \<Rightarrow> flash_rep d d ks (ml ! grp, es ! grp, map (\<lambda>j. tmp ! (grp * d + j)) [0..<d]))"

definition ws_len :: "nat \<Rightarrow> nat \<Rightarrow> 'f list \<times> 'f list \<times> 'f list \<Rightarrow> bool" where
  "ws_len n d bufs \<longleftrightarrow> (case bufs of (tmp, es, ml) \<Rightarrow> length tmp = n * d \<and> length es = n \<and> length ml = n)"

lemma sg_store:
  fixes tmp :: "xreal list"
  assumes lanes: "schedule kSG lanes" and len: "ws_len n d (tmp, es, ml)" and grp: "grp < n" and d: "d = kSG * nsl" "nsl \<le> kPerLane"
    and acc: "\<And>lane. lane < kSG \<Longrightarrow> length (snd (snd (states ! lane))) = kPerLane"
  shows "\<exists>bufs. foldM (\<lambda>lane (tmp, es, ml). do {
       let (m, l, acc) = states ! lane;
       es \<leftarrow> (if lane = 0 then wr es grp l else Some es);
       ml \<leftarrow> (if lane = 0 then wr ml grp m else Some ml);
       tmp \<leftarrow> foldM (\<lambda>i tmp. do { a \<leftarrow> rd acc i; wr tmp (grp * d + (lane + i * kSG)) a }) [0..<nsl] tmp;
       Some (tmp, es, ml) }) lanes (tmp, es, ml) = Some bufs \<and>
     (case bufs of (tmp', es', ml') \<Rightarrow> ws_len n d bufs \<and> es' = es[grp := fst (snd (states ! 0))] \<and> ml' = ml[grp := fst (states ! 0)] \<and>
       (\<forall>a<length tmp. tmp' ! a = (if a \<in> row_cells d grp then snd (snd (states ! ((a - grp * d) mod kSG))) ! ((a - grp * d) div kSG) else tmp ! a)))"
    (is "\<exists>bufs. foldM ?body lanes _ = _ \<and> _")
proof -
  let ?cell = "\<lambda>lane i. grp * d + (lane + i * kSG)"
  define I where "I = (\<lambda>bufs. case bufs of (tmp', es', ml') \<Rightarrow> ws_len n d bufs \<and> (\<forall>c. c \<noteq> grp \<longrightarrow> es' ! c = es ! c) \<and> (\<forall>c. c \<noteq> grp \<longrightarrow> ml' ! c = ml ! c) \<and>
    (\<forall>a<length tmp. a \<notin> row_cells d grp \<longrightarrow> tmp' ! a = tmp ! a))"
  define Q where "Q = (\<lambda>lane bufs. case bufs of (tmp', es', ml') \<Rightarrow> (\<forall>i<nsl. tmp' ! ?cell lane i = snd (snd (states ! lane)) ! i) \<and>
    (lane = 0 \<longrightarrow> es' ! grp = fst (snd (states ! 0)) \<and> ml' ! grp = fst (states ! 0)))"
  have in': "?cell lane i \<in> row_cells d grp" "?cell lane i < n * d" if "lane < kSG" "i < nsl" for lane i
    using lane_in [OF that] src_row [OF grp, of d] unfolding d(1) by (simp, linarith)
  have "\<exists>bufs. foldM ?body lanes (tmp, es, ml) = Some bufs \<and> I bufs \<and> (\<forall>lane<kSG. Q lane bufs)"
  proof (rule launch_inv [OF lanes])
    show "I (tmp, es, ml)" using len by (simp add: I_def)
    fix lane and bufs :: "xreal list \<times> xreal list \<times> xreal list" assume lane: "lane < kSG" and I: "I bufs"
    obtain t e m where b: "bufs = (t, e, m)" by (cases bufs)
    obtain mm ll acc where st: "states ! lane = (mm, ll, acc)" by (cases "states ! lane")
    have la: "length acc = kPerLane" using acc [OF lane] st by simp
    have l: "length t = n * d" "length e = n" "length m = n" using I b by (simp_all add: I_def ws_len_def)
    have inj: "inj_on (?cell lane) {..<nsl}" by (rule inj_onI) (simp add: kSG_def)
    have "\<exists>t'. foldM (\<lambda>i tmp. do { a \<leftarrow> rd acc i; wr tmp (?cell lane i) a }) [0..<nsl] t = Some t' \<and>
        writes (?cell lane ` {..<nsl}) (\<lambda>a. acc ! the_inv_into {..<nsl} (?cell lane) a) t t'"
      by (rule store_cells [OF inj]) (use in' [OF lane] l la d(2) in auto)
    then obtain t' where t': "foldM (\<lambda>i tmp. do { a \<leftarrow> rd acc i; wr tmp (?cell lane i) a }) [0..<nsl] t = Some t'"
        "writes (?cell lane ` {..<nsl}) (\<lambda>a. acc ! the_inv_into {..<nsl} (?cell lane) a) t t'" by blast
    have mine: "t' ! ?cell lane i = acc ! i" if "i < nsl" for i
    proof -
      have "?cell lane i \<in> ?cell lane ` {..<nsl}" using that by blast
      then have "t' ! ?cell lane i = acc ! the_inv_into {..<nsl} (?cell lane) (?cell lane i)"
        using t'(2) in'(2) [OF lane that] l(1) unfolding writes_def by metis
      then show ?thesis using the_inv_into_f_f [OF inj, of i] that by simp
    qed
    have other: "t' ! a = t ! a" if "a < n * d" "\<And>i. i < nsl \<Longrightarrow> a \<noteq> ?cell lane i" for a
      using t'(2) that l(1) by (auto simp: writes_def)
    define e' m' where "e' = (if lane = 0 then e[grp := ll] else e)" and "m' = (if lane = 0 then m[grp := mm] else m)"
    have "?body lane bufs = Some (t', e', m')"
      using t'(1) grp l by (simp add: b st Let_def e'_def m'_def)
    moreover have "I (t', e', m')"
    proof -
      have "t' ! a = tmp ! a" if a: "a < length tmp" "a \<notin> row_cells d grp" for a
      proof -
        have "t' ! a = t ! a" using a in'(1) [OF lane] len by (intro other) (auto simp: ws_len_def)
        then show ?thesis using I a by (simp add: I_def b)
      qed
      then show ?thesis using I writes_length [OF t'(2)] by (simp add: I_def ws_len_def b e'_def m'_def)
    qed
    moreover have "Q lane (t', e', m')" using mine st grp l by (auto simp: Q_def e'_def m'_def)
    moreover have "Q j (t', e', m')" if j: "j < kSG" "j \<noteq> lane" "Q j bufs" for j
    proof -
      have "t' ! ?cell j i = t ! ?cell j i" if i: "i < nsl" for i
      proof (rule other [OF in'(2) [OF j(1) i]])
        fix i' assume "i' < nsl"
        show "?cell j i \<noteq> ?cell lane i'"
          using row_col_inj [OF j(1) lane, of i i'] j(2) by (auto simp: add.commute)
      qed
      then show ?thesis using j by (auto simp: Q_def b e'_def m'_def)
    qed
    ultimately show "\<exists>s'. ?body lane bufs = Some s' \<and> I s' \<and> Q lane s' \<and> (\<forall>j<kSG. j \<noteq> lane \<longrightarrow> Q j bufs \<longrightarrow> Q j s')" by blast
  qed
  then obtain t e m where r: "foldM ?body lanes (tmp, es, ml) = Some (t, e, m)" "I (t, e, m)" "\<forall>lane<kSG. Q lane (t, e, m)" by fast
  have l: "length e = length es" "length m = length ml" "length es = n" "length ml = n" "length tmp = n * d"
    using r(2) len by (simp_all add: I_def ws_len_def)
  have "e = es[grp := fst (snd (states ! 0))]" "m = ml[grp := fst (states ! 0)]"
  proof -
    have "Q 0 (t, e, m)" using r(3) kSG_pos by blast
    then have "e ! grp = fst (snd (states ! 0))" "m ! grp = fst (states ! 0)" by (simp_all add: Q_def)
    then show "e = es[grp := fst (snd (states ! 0))]" "m = ml[grp := fst (states ! 0)]"
      using r(2) l grp by (auto simp: I_def list_eq_iff_nth_eq nth_list_update)
  qed
  moreover have "t ! a = snd (snd (states ! ((a - grp * d) mod kSG))) ! ((a - grp * d) div kSG)" if "a \<in> row_cells d grp" for a
  proof -
    have "a - grp * d < kSG * nsl" using that d(1) by auto
    note ls = lane_split [OF this]
    define lane i where "lane = (a - grp * d) mod kSG" and "i = (a - grp * d) div kSG"
    have a: "a = ?cell lane i" "lane < kSG" "i < nsl" using that ls unfolding lane_def i_def by auto
    have "Q lane (t, e, m)" using r(3) a(2) by blast
    then have "t ! ?cell lane i = snd (snd (states ! lane)) ! i" using a(3) by (simp add: Q_def)
    then show ?thesis unfolding a(1) [symmetric] lane_def [symmetric] i_def [symmetric] .
  qed
  moreover have "ws_len n d (t, e, m)" "\<forall>a<length tmp. a \<notin> row_cells d grp \<longrightarrow> t ! a = tmp ! a" using r(2) by (simp_all add: I_def)
  ultimately show ?thesis using r(1) by auto
qed

text \<open>The buffers hold what the shape says, and the keys of every sequence are in the caches.\<close>

definition decode_shape :: "paged_shape \<Rightarrow> nat \<Rightarrow> 't list \<Rightarrow> 'c list \<Rightarrow> 'c list \<Rightarrow> int list \<Rightarrow> int list \<Rightarrow> bool" where
  "decode_shape g batch Q kc vc block_table seq_lens \<longleftrightarrow> 0 < kv_heads g \<and> kv_heads g dvd q_heads g \<and>
     length Q = batch * q_heads g * head_dim g \<and> length seq_lens = batch \<and>
     (\<forall>b<batch. kv_fits g (Some block_table) 0 b (usize (seq_lens ! b)) kc vc)"

definition decode_keys :: "('t \<Rightarrow> real) \<Rightarrow> ('c \<Rightarrow> real) \<Rightarrow> ('c \<Rightarrow> real) \<Rightarrow> paged_shape \<Rightarrow> int list \<Rightarrow> 't list \<Rightarrow> 'c list \<Rightarrow> 'c list \<Rightarrow> real \<Rightarrow> nat \<Rightarrow> nat list \<Rightarrow> akey list" where
  "decode_keys lq lk lv g block_table Q kc vc scale bh ks =
     paged_keys lq lk lv g (Some block_table) 0 Q kc vc (bh * head_dim g) (bh div q_heads g) (bh mod q_heads g div (q_heads g div kv_heads g)) scale ks"

lemma ws_rep_cong:
  assumes "\<And>j. j < d \<Longrightarrow> tmp' ! (grp * d + j) = tmp ! (grp * d + j)" "es' ! grp = es ! grp" "ml' ! grp = ml ! grp" "ws_rep d ks grp (tmp, es, ml)"
  shows "ws_rep d ks grp (tmp', es', ml')"
proof -
  have eq: "map (\<lambda>j. tmp' ! (grp * d + j)) [0..<d] = map (\<lambda>j. tmp ! (grp * d + j)) [0..<d]" by (rule map_cong [OF refl]) (use assms(1) in simp)
  show ?thesis using assms(4) unfolding ws_rep_def prod.case assms(2,3) eq .
qed

lemma flash_rep_length: "flash_rep d n ks s \<Longrightarrow> length (snd (snd s)) = n"
  by (cases s) (simp add: flash_rep_def)

lemma split_keys_range: "set (split_keys ctx window_left splits sp) \<subseteq> {..<ctx}"
proof
  fix k assume "k \<in> set (split_keys ctx window_left splits sp)"
  then have "\<exists>a b. k \<in> {a..<min b ctx}" unfolding split_keys_def Let_def set_upt by blast
  then show "k \<in> {..<ctx}" by auto
qed

lemma decode_group_step:
  assumes shape: "decode_shape g batch Q kc vc bt seq_lens" and d: "head_dim g = kSG * nsl" "nsl \<le> kPerLane"
    and grp: "grp < batch * q_heads g * splits" and lanes: "schedule kSG (lanes grp)" and len: "ws_len (batch * q_heads g * splits) (head_dim g) bufs"
  shows "\<exists>bufs'. decode_group exact_amath (\<lambda>w. Fin (lq w)) (\<lambda>w. Fin (lk w)) (\<lambda>w. Fin (lv w)) g Q kc vc bt seq_lens splits (Fin scale) wl lanes grp bufs = Some bufs' \<and>
     ws_len (batch * q_heads g * splits) (head_dim g) bufs' \<and>
     ws_rep (head_dim g) (decode_keys lq lk lv g bt Q kc vc scale (grp div splits)
       (split_keys (usize (seq_lens ! (grp div splits div q_heads g))) wl splits (grp mod splits))) grp bufs' \<and>
     (\<forall>ks. \<forall>j<batch * q_heads g * splits. j \<noteq> grp \<longrightarrow> ws_rep (head_dim g) ks j bufs \<longrightarrow> ws_rep (head_dim g) ks j bufs')"
proof -
  let ?bh = "grp div splits" and ?n = "batch * q_heads g * splits"
  let ?b = "?bh div q_heads g" and ?h = "?bh mod q_heads g"
  let ?kvh = "?h div (q_heads g div kv_heads g)" and ?ctx = "usize (seq_lens ! (grp div splits div q_heads g))"
  let ?keys = "split_keys ?ctx wl splits (grp mod splits)"
  let ?K = "decode_keys lq lk lv g bt Q kc vc scale ?bh ?keys"
  have bh: "?bh < batch * q_heads g" using grp by (simp add: less_mult_imp_div_less)
  have bi: "?b < batch" "?h < q_heads g" using idx_split [OF bh] by blast+
  have kvh: "?kvh < kv_heads g" using kv_head [OF _ _ bi(2)] shape by (simp add: decode_shape_def)
  have q: "?bh * head_dim g + head_dim g \<le> length Q" using src_row [OF bh, of "head_dim g"] shape by (simp add: decode_shape_def)
  have fits: "kv_fits g (Some bt) 0 ?b ?ctx kc vc" using shape bi(1) by (simp add: decode_shape_def)
  have keys: "set ?keys \<subseteq> {..<?ctx}" by (rule split_keys_range)
  have widx: "(?b * q_heads g + ?h) * splits + grp mod splits = grp" by simp
  have nsl: "head_dim g div kSG = nsl" using d(1) by simp
  obtain tmp es ml where b: "bufs = (tmp, es, ml)" by (cases bufs)
  let ?qregs = "map (\<lambda>lane. map (\<lambda>i. Fin (lq (Q ! (?bh * head_dim g + (lane + i * kSG))))) [0..<nsl] @ replicate (kPerLane - nsl) 0) [0..<kSG]"
  have qr: "those (map (\<lambda>lane. foldM (\<lambda>i qreg. do {
       x \<leftarrow> rd Q (?bh * head_dim g + (lane + i * kSG)); wr qreg i (Fin (lq x)) }) [0..<nsl] (replicate kPerLane 0)) [0..<kSG]) = Some ?qregs"
  proof (rule those_map_Some, rule load_regs [OF d(2), where r = "\<lambda>i. Q ! (?bh * head_dim g + (_ + i * kSG))"])
    fix lane i assume "lane \<in> set [0..<kSG]" "i < nsl"
    then have "?bh * head_dim g + (lane + i * kSG) < length Q" using lane_in [of lane i nsl] q d(1) by simp
    then show "rd Q (?bh * head_dim g + (lane + i * kSG)) = Some (Q ! (?bh * head_dim g + (lane + i * kSG)))" by simp
  qed simp
  have "\<exists>states. foldM (\<lambda>k states. do {
       base \<leftarrow> kv_base g (Some bt) 0 ?b ?kvh k;
       case base of None \<Rightarrow> Some states
       | Some base \<Rightarrow> do {
           partials \<leftarrow> those (map (\<lambda>lane. foldM (\<lambda>i partial. do {
             a \<leftarrow> rd (?qregs ! lane) i;
             x \<leftarrow> rd kc (base + lane + i * kSG); Some (partial + a * Fin (lk x)) }) [0..<nsl] 0) [0..<kSG]);
           let score = sum_group exact_amath partials * Fin scale;
           those (map (\<lambda>lane. flash_key exact_amath nsl score (\<lambda>i. map_option (\<lambda>w. Fin (lv w)) (rd vc (base + lane + i * kSG))) (states ! lane)) [0..<kSG]) } })
       ?keys (replicate kSG (flash_init exact_amath kPerLane)) = Some states \<and> sg_rep nsl ?K states"
    unfolding decode_keys_def by (rule sg_scan [OF fits kvh keys d q])
  then obtain states where st: "foldM (\<lambda>k states. do {
       base \<leftarrow> kv_base g (Some bt) 0 ?b ?kvh k;
       case base of None \<Rightarrow> Some states
       | Some base \<Rightarrow> do {
           partials \<leftarrow> those (map (\<lambda>lane. foldM (\<lambda>i partial. do {
             a \<leftarrow> rd (?qregs ! lane) i;
             x \<leftarrow> rd kc (base + lane + i * kSG); Some (partial + a * Fin (lk x)) }) [0..<nsl] 0) [0..<kSG]);
           let score = sum_group exact_amath partials * Fin scale;
           those (map (\<lambda>lane. flash_key exact_amath nsl score (\<lambda>i. map_option (\<lambda>w. Fin (lv w)) (rd vc (base + lane + i * kSG))) (states ! lane)) [0..<kSG]) } })
       ?keys (replicate kSG (flash_init exact_amath kPerLane)) = Some states" "sg_rep nsl ?K states" by blast
  have acc: "length (snd (snd (states ! lane))) = kPerLane" if "lane < kSG" for lane
    using st(2) that flash_rep_length unfolding sg_rep_def by blast
  obtain tmp' es' ml' where s: "foldM (\<lambda>lane (tmp, es, ml). do {
       let (m, l, acc) = states ! lane;
       es \<leftarrow> (if lane = 0 then wr es grp l else Some es);
       ml \<leftarrow> (if lane = 0 then wr ml grp m else Some ml);
       tmp \<leftarrow> foldM (\<lambda>i tmp. do { a \<leftarrow> rd acc i; wr tmp (grp * head_dim g + (lane + i * kSG)) a }) [0..<nsl] tmp;
       Some (tmp, es, ml) }) (lanes grp) (tmp, es, ml) = Some (tmp', es', ml')"
      "ws_len ?n (head_dim g) (tmp', es', ml')" "es' = es[grp := fst (snd (states ! 0))]" "ml' = ml[grp := fst (states ! 0)]"
      "\<forall>a<length tmp. tmp' ! a = (if a \<in> row_cells (head_dim g) grp then snd (snd (states ! ((a - grp * head_dim g) mod kSG))) ! ((a - grp * head_dim g) div kSG) else tmp ! a)"
    using sg_store [OF lanes len [unfolded b] grp d acc] by (auto split: prod.splits)
  have len': "length tmp = ?n * head_dim g" "length es = ?n" "length ml = ?n" using len b by (simp_all add: ws_len_def)
  have run: "decode_group exact_amath (\<lambda>w. Fin (lq w)) (\<lambda>w. Fin (lk w)) (\<lambda>w. Fin (lv w)) g Q kc vc bt seq_lens splits (Fin scale) wl lanes grp bufs = Some (tmp', es', ml')"
  proof -
    have "rd seq_lens ?b = Some (seq_lens ! ?b)" using bi(1) shape by (simp add: decode_shape_def)
    moreover have "?b * q_heads g + ?h = ?bh" by simp
    ultimately show ?thesis
      by (simp only: decode_group_def Let_def div_mult_mod_eq nsl Option.bind.bind_lunit qr st(1) [unfolded Let_def] b prod.case s(1) [unfolded Let_def])
  qed
  have row: "tmp' ! (grp * head_dim g + j) = snd (snd (states ! (j mod kSG))) ! (j div kSG)" if "j < head_dim g" for j
    using s(5) src_row [OF grp, of "head_dim g"] that len'(1) by auto
  have row: "map (\<lambda>j. tmp' ! (grp * head_dim g + j)) [0..<head_dim g] = map (\<lambda>j. snd (snd (states ! (j mod kSG))) ! (j div kSG)) [0..<head_dim g]"
    by (rule map_cong [OF refl]) (use row in simp)
  have "es' ! grp = fst (snd (states ! 0))" "ml' ! grp = fst (states ! 0)" using s(3,4) grp len' by simp_all
  then have "ws_rep (head_dim g) ?K grp (tmp', es', ml')"
    using sg_state [OF st(2)] unfolding ws_rep_def prod.case d(1) row [unfolded d(1)] by simp
  moreover have "ws_rep (head_dim g) ks j (tmp', es', ml')" if j: "j < ?n" "j \<noteq> grp" "ws_rep (head_dim g) ks j bufs" for ks j
  proof (rule ws_rep_cong [OF _ _ _ j(3) [unfolded b]])
    fix i assume i: "i < head_dim g"
    have "j * head_dim g + i \<in> row_cells (head_dim g) j" using i by simp
    then have "j * head_dim g + i \<notin> row_cells (head_dim g) grp" using rows_apart [OF j(2), of "head_dim g"] by blast
    moreover have "j * head_dim g + i < length tmp" using src_row [OF j(1), of "head_dim g"] i len'(1) by linarith
    ultimately show "tmp' ! (j * head_dim g + i) = tmp ! (j * head_dim g + i)" using s(5) by metis
  qed (use j(2) s(3,4) in simp_all)
  ultimately show ?thesis using run s(2) by blast
qed

section \<open>Merging the splits\<close>

lemma top_score_append: "ks \<noteq> [] \<Longrightarrow> ks' \<noteq> [] \<Longrightarrow> top_score (ks @ ks') = max (top_score ks) (top_score ks')"
  by (simp add: top_score_def image_Un Max_Un)

definition top_x :: "akey list \<Rightarrow> xreal" where
  "top_x ks = (if ks = [] then MInf else Fin (top_score ks))"

lemma top_x_append: "top_x (ks @ ks') = fmax (top_x ks) (top_x ks')"
proof -
  have f: "fmax (Fin a) (Fin b) = Fin (max a b)" "fmax MInf x = x" "fmax x MInf = x" for a b x
    by (auto simp: fmax_def max_def less_xreal_def) (cases x; simp)
  show ?thesis by (cases "ks = []"; cases "ks' = []") (simp_all add: top_x_def f top_score_append)
qed

lemma fold_top: "fold (\<lambda>sp m. fmax m (top_x (kss sp))) [0..<n] MInf = top_x (concat (map kss [0..<n]))"
  by (induction n) (simp_all add: top_x_append, simp add: top_x_def)

lemma update_loop_Some:
  assumes "d \<le> length acc" "\<And>j. j < d \<Longrightarrow> v j = Some (x j)"
  shows "\<exists>acc'. foldM (\<lambda>j acc. do { a \<leftarrow> rd acc j; x \<leftarrow> v j; wr acc j (f a x) }) [0..<d] acc = Some acc' \<and> length acc' = length acc \<and> (\<forall>j<d. acc' ! j = f (acc ! j) (x j))"
  using update_loop [OF assms, where f = f] assms(1) by simp

text \<open>The merge loop over splits whose workspaces hold the states of \<open>kss sp\<close>.\<close>

lemma merge_loop:
  assumes ws: "\<And>sp. sp < n \<Longrightarrow> ws_rep d (kss sp) (base + sp) (tmp, es, ml)"
    and len: "base + n \<le> length ml" "length es = length ml" "length tmp = length ml * d" and d: "d \<le> kMaxD_paged"
    and K: "K = concat (map kss [0..<n])" and den: "denom = (if K = [] then 0 else Fin (sk / exp (top_score K)))"
  shows "\<exists>denom' acc. foldM (\<lambda>sp (denom, acc). do {
       msp \<leftarrow> rd ml (base + sp);
       if \<not> msp > MInf then Some (denom, acc)
       else do {
         let w = exp_fn exact_amath (msp - top_x K);
         e \<leftarrow> rd es (base + sp);
         acc \<leftarrow> foldM (\<lambda>j acc. do { a \<leftarrow> rd acc j; x \<leftarrow> rd tmp ((base + sp) * d + j); wr acc j (a + x * w) }) [0..<d] acc;
         Some (denom + e * w, acc) } }) [0..<n] (denom, replicate kMaxD_paged 0) = Some (denom', acc) \<and> length acc = kMaxD_paged \<and>
     (if K = [] then denom' = 0 \<and> (\<forall>j<d. acc ! j = 0)
      else denom' = Fin ((sk + softmax_den K) / exp (top_score K)) \<and> (\<forall>j<d. acc ! j = Fin (softmax_num K j / exp (top_score K))))"
    (is "\<exists>denom' acc. foldM ?body _ _ = _ \<and> _")
proof -
  let ?E = "exp (top_score K)" and ?pre = "\<lambda>m. concat (map kss [0..<m])"
  define P where "P = (\<lambda>m (denom', acc :: xreal list). length acc = kMaxD_paged \<and>
     (if K = [] then denom' = 0 \<and> (\<forall>j<d. acc ! j = 0)
      else denom' = Fin ((sk + softmax_den (?pre m)) / ?E) \<and> (\<forall>j<d. acc ! j = Fin (softmax_num (?pre m) j / ?E))))"
  have "\<exists>s. foldM ?body [0..<n] (denom, replicate kMaxD_paged 0) = Some s \<and> P n s"
  proof (rule foldM_upt)
    show "P 0 (denom, replicate kMaxD_paged 0)" using den d by (auto simp: P_def zero_xreal_def)
    fix sp s assume sp: "sp < n" and s: "P sp s"
    obtain de acc where s': "s = (de, acc)" by (cases s)
    have la: "length acc = kMaxD_paged" using s s' by (simp add: P_def)
    have r: "rd ml (base + sp) = Some (ml ! (base + sp))" "rd es (base + sp) = Some (es ! (base + sp))" using sp len by simp_all
    have w: "flash_rep d d (kss sp) (ml ! (base + sp), es ! (base + sp), map (\<lambda>j. tmp ! ((base + sp) * d + j)) [0..<d])"
      using ws [OF sp] by (simp add: ws_rep_def)
    have pre: "?pre (Suc sp) = ?pre sp @ kss sp" by simp
    show "\<exists>s'. ?body sp s = Some s' \<and> P (Suc sp) s'"
    proof (cases "kss sp = []")
      case True
      then have "ml ! (base + sp) = MInf" using w by (simp add: flash_rep_def)
      then have "?body sp s = Some s" using r by (simp add: s')
      moreover have "P (Suc sp) s" using s by (simp only: P_def pre True append_Nil2)
      ultimately show ?thesis by blast
    next
      case False
      have K0: "K \<noteq> []" using False sp by (auto simp: K)
      have f: "ml ! (base + sp) = Fin (top_score (kss sp))" "es ! (base + sp) = Fin (softmax_den (kss sp) / exp (top_score (kss sp)))"
        "\<And>j. j < d \<Longrightarrow> tmp ! ((base + sp) * d + j) = Fin (softmax_num (kss sp) j / exp (top_score (kss sp)))"
        using w False by (simp_all add: flash_rep_def)
      define w where "w = exp (top_score (kss sp) - top_score K)"
      have e: "x * w / exp (top_score (kss sp)) = x / ?E" for x by (simp add: w_def exp_diff)
      have tl: "(base + sp) * d + j < length tmp" if "j < d" for j
        using src_row [of "base + sp" "length ml" d] sp len that by linarith
      have "\<exists>acc'. foldM (\<lambda>j acc. do { a \<leftarrow> rd acc j; x \<leftarrow> rd tmp ((base + sp) * d + j); wr acc j (a + x * Fin w) }) [0..<d] acc = Some acc' \<and>
          length acc' = length acc \<and> (\<forall>j<d. acc' ! j = acc ! j + tmp ! ((base + sp) * d + j) * Fin w)"
        by (rule update_loop_Some) (use tl d la in simp_all)
      then obtain acc' where acc': "foldM (\<lambda>j acc. do { a \<leftarrow> rd acc j; x \<leftarrow> rd tmp ((base + sp) * d + j); wr acc j (a + x * Fin w) }) [0..<d] acc = Some acc'"
          "length acc' = length acc" "\<forall>j<d. acc' ! j = acc ! j + tmp ! ((base + sp) * d + j) * Fin w" by blast
      have "?body sp s = Some (de + es ! (base + sp) * Fin w, acc')"
        using r f(1) K0 acc'(1) by (simp add: s' top_x_def w_def Let_def)
      moreover have "P (Suc sp) (de + es ! (base + sp) * Fin w, acc')"
        using s s' K0 f(2,3) acc'(2,3) la unfolding P_def pre by (simp add: e add_divide_distrib)
      ultimately show ?thesis by blast
    qed
  qed simp
  then obtain de acc where "foldM ?body [0..<n] (denom, replicate kMaxD_paged 0) = Some (de, acc)" "P n (de, acc)" by fast
  then show ?thesis unfolding P_def K [symmetric] by auto
qed

lemma merge_finish:
  assumes "if K = [] then denom = 0 \<and> a = 0 else denom = Fin ((sink_exp sink + softmax_den K) / exp (top_score K)) \<and> a = Fin (softmax_num K j / exp (top_score K))"
  shows "a * attn_inv denom = Fin (attends K sink j)"
proof (cases "K = []")
  case False
  have "0 < sink_exp sink + softmax_den K" using softmax_den_pos [OF False] by (simp add: add_nonneg_pos)
  then show ?thesis using assms False by (simp add: attn_inv_def attends_def sink_exp_def zero_xreal_def one_xreal_def add.commute)
qed (use assms in \<open>simp add: attn_inv_def attends_def zero_xreal_def\<close>)

lemma reduce_item_step:
  assumes idx: "idx < batch * q_heads g" and d: "head_dim g \<le> kMaxD_paged" and len: "ws_len (batch * q_heads g * splits) (head_dim g) bufs" "length out = batch * q_heads g * head_dim g"
    and ws: "\<And>sp. sp < splits \<Longrightarrow> ws_rep (head_dim g) (kss sp) (idx * splits + sp) bufs" and sinks: "\<And>s. sinks = Some s \<Longrightarrow> length s = q_heads g"
  shows "\<exists>out'. reduce_item exact_amath st g splits (map_option (map Fin) sinks) bufs idx out = Some out' \<and>
    writes (row_cells (head_dim g) idx) (\<lambda>a. st (Fin (attends (concat (map kss [0..<splits])) (map_option (\<lambda>s. s ! (idx mod q_heads g)) sinks) (a - idx * head_dim g)))) out out'"
proof -
  let ?K = "concat (map kss [0..<splits])" and ?h = "idx mod q_heads g" and ?base = "idx * splits"
  let ?sink = "map_option (\<lambda>s. s ! ?h) sinks"
  obtain tmp es ml where b: "bufs = (tmp, es, ml)" by (cases bufs)
  have l: "?base + splits \<le> length ml" "length es = length ml" "length tmp = length ml * head_dim g"
    using len(1) src_row [OF idx, of splits] by (simp_all add: ws_len_def b)
  have h: "?h < q_heads g" using idx_split(2) [OF idx] .
  have top: "ml ! (?base + sp) = top_x (kss sp)" if "sp < splits" for sp
    using ws [OF that] by (simp add: ws_rep_def b flash_rep_def top_x_def split: if_splits)
  have "foldM (\<lambda>sp m. do { x \<leftarrow> rd ml (?base + sp); Some (fmax m x) }) [0..<splits] MInf = Some (fold (\<lambda>sp m. fmax m (top_x (kss sp))) [0..<splits] MInf)"
    by (rule foldM_pure') (use top l in auto)
  then have m: "foldM (\<lambda>sp m. do { x \<leftarrow> rd ml (?base + sp); Some (fmax m x) }) [0..<splits] MInf = Some (top_x ?K)" by (simp only: fold_top)
  define de where "de = (if ?K = [] then 0 else Fin (sink_exp ?sink / exp (top_score ?K)))"
  have de: "(case map_option (map Fin) sinks of Some s \<Rightarrow> if top_x ?K > MInf then do { x \<leftarrow> rd s ?h; Some (0 + exp_fn exact_amath (x - top_x ?K)) } else Some 0 | None \<Rightarrow> Some 0) = Some de"
    using h sinks by (auto simp: de_def top_x_def zero_xreal_def exp_diff split: option.splits)
  obtain denom acc where r: "foldM (\<lambda>sp (denom, acc). do {
       msp \<leftarrow> rd ml (?base + sp);
       if \<not> msp > MInf then Some (denom, acc)
       else do {
         let w = exp_fn exact_amath (msp - top_x ?K);
         e \<leftarrow> rd es (?base + sp);
         acc \<leftarrow> foldM (\<lambda>j acc. do { a \<leftarrow> rd acc j; x \<leftarrow> rd tmp ((?base + sp) * head_dim g + j); wr acc j (a + x * w) }) [0..<head_dim g] acc;
         Some (denom + e * w, acc) } }) [0..<splits] (de, replicate kMaxD_paged 0) = Some (denom, acc)" "length acc = kMaxD_paged"
     "if ?K = [] then denom = 0 \<and> (\<forall>j<head_dim g. acc ! j = 0)
      else denom = Fin ((sink_exp ?sink + softmax_den ?K) / exp (top_score ?K)) \<and> (\<forall>j<head_dim g. acc ! j = Fin (softmax_num ?K j / exp (top_score ?K)))"
    using merge_loop [OF ws [unfolded b] l d refl de_def] by blast
  have "\<exists>out'. foldM (\<lambda>j out. do { a \<leftarrow> rd acc j; wr out (idx * head_dim g + j) (st (a * attn_inv denom)) }) [0..<head_dim g] out = Some out' \<and>
      writes {idx * head_dim g..<idx * head_dim g + head_dim g} (\<lambda>a. st (acc ! (a - idx * head_dim g) * attn_inv denom)) out out'"
    by (rule store_loop) (use r(2) d len(2) src_row [OF idx, of "head_dim g"] in simp_all)
  then obtain out' where out': "foldM (\<lambda>j out. do { a \<leftarrow> rd acc j; wr out (idx * head_dim g + j) (st (a * attn_inv denom)) }) [0..<head_dim g] out = Some out'"
      "writes (row_cells (head_dim g) idx) (\<lambda>a. st (acc ! (a - idx * head_dim g) * attn_inv denom)) out out'" by blast
  have "acc ! j * attn_inv denom = Fin (attends ?K ?sink j)" if "j < head_dim g" for j
    by (rule merge_finish) (use r(3) that in \<open>auto split: if_splits\<close>)
  then have "writes (row_cells (head_dim g) idx) (\<lambda>a. st (Fin (attends ?K ?sink (a - idx * head_dim g)))) out out'"
    using out'(2) by (auto simp: writes_def)
  moreover have "reduce_item exact_amath st g splits (map_option (map Fin) sinks) bufs idx out = Some out'"
    by (simp only: reduce_item_def b Let_def prod.case div_mult_mod_eq exact_amath_simps m Option.bind.bind_lunit de r(1) [unfolded Let_def] out'(1))
  ultimately show ?thesis by blast
qed

section \<open>Decode computes attention over the window\<close>

text \<open>The splits partition the keys in the window.\<close>

definition decode_sees :: "nat \<Rightarrow> int \<Rightarrow> nat list" where
  "decode_sees ctx window_left = filter (\<lambda>k. window_left \<ge> 0 \<longrightarrow> ctx \<le> k + usize window_left + 1) [0..<ctx]"

lemma concat_ranges:
  assumes "lo \<le> hi"
  shows "concat (map (\<lambda>sp. [lo + sp * per..<min (lo + sp * per + per) hi]) [0..<n]) = [lo..<min (lo + n * per) hi]"
proof (induction n)
  case 0
  then show ?case by simp
next
  case (Suc n)
  have "[lo..<min (lo + n * per) hi] @ [lo + n * per..<min (lo + n * per + per) hi] = [lo..<min (lo + n * per + per) hi]"
  proof (cases "lo + n * per \<le> hi")
    case True
    then have "lo \<le> lo + n * per" "lo + n * per \<le> min (lo + n * per + per) hi" by auto
    then show ?thesis using True upt_add_eq_append [of lo "lo + n * per" "min (lo + n * per + per) hi - (lo + n * per)"] by (simp add: min_absorb1)
  qed (simp add: min_absorb2)
  then show ?case using Suc by (simp add: algebra_simps)
qed

lemma concat_split_keys:
  assumes "0 < splits"
  shows "concat (map (split_keys ctx window_left splits) [0..<splits]) = decode_sees ctx window_left"
proof -
  define lo where "lo = (if window_left \<ge> 0 then ctx - (usize window_left + 1) else 0)"
  let ?per = "(ctx - lo + splits - 1) div splits"
  have lo: "lo \<le> ctx" by (simp add: lo_def)
  have keys: "split_keys ctx window_left splits = (\<lambda>sp. [lo + sp * ?per..<min (lo + sp * ?per + ?per) ctx])"
  proof -
    have "(if a > b then a - b else 0) = a - b" for a b :: nat by auto
    then show ?thesis by (intro ext) (simp only: split_keys_def Let_def lo_def)
  qed
  have "ctx - lo \<le> ?per * splits" using cdiv_upper [OF assms, of "ctx - lo"] by (simp add: cdiv_def)
  then have "min (lo + splits * ?per) ctx = ctx" using lo by (simp add: mult.commute)
  then have "concat (map (split_keys ctx window_left splits) [0..<splits]) = [lo..<ctx]"
    unfolding keys concat_ranges [OF lo] by simp
  also have "[lo..<ctx] = filter (\<lambda>k. lo \<le> k \<and> k < ctx) [0..<ctx]" unfolding filter_upt_less by simp
  also have "\<dots> = decode_sees ctx window_left" unfolding decode_sees_def by (intro filter_cong) (auto simp: lo_def)
  finally show ?thesis .
qed

lemma decode_keys_concat: "concat (map (\<lambda>sp. decode_keys lq lk lv g bt Q kc vc scale bh (f sp)) sps) = decode_keys lq lk lv g bt Q kc vc scale bh (concat (map f sps))"
  by (induction sps) (simp_all add: decode_keys_def paged_keys_append, simp add: paged_keys_def)

text \<open>C4: Paged decode computes softmax attention: whatever the number of splits and the order of sub-groups, lanes and
  work-items, the partial states merge to the softmax-weighted mean of the value rows of the keys in the window whose pages are mapped,
  the attention sink of the head joining the denominator; every load and store is within its buffer.\<close>

theorem paged_decode_exact:
  fixes out :: "'t list"
  assumes shape: "decode_shape g batch Q kc vc bt seq_lens" and d: "head_dim g mod 16 = 0" "head_dim g \<le> kMaxD_paged" and splits: "0 < splits"
    and sched: "schedule (batch * q_heads g * splits) sched" "\<And>grp. schedule kSG (lanes grp)" "schedule (batch * q_heads g) sched'"
    and len: "ws_len (batch * q_heads g * splits) (head_dim g) bufs" "length out = batch * q_heads g * head_dim g"
    and sinks: "\<And>s. sinks = Some s \<Longrightarrow> length s = q_heads g"
  shows "\<exists>bufs'. decode_typed exact_amath (\<lambda>w. Fin (lq w)) st (\<lambda>w. Fin (lk w)) (\<lambda>w. Fin (lv w)) g Q kc vc bt seq_lens splits (Fin scale) wl
      (map_option (map Fin) sinks) sched lanes sched' (out, bufs) =
    Some (map (\<lambda>a. let bh = a div head_dim g in st (Fin (attends
      (decode_keys lq lk lv g bt Q kc vc scale bh (decode_sees (usize (seq_lens ! (bh div q_heads g))) wl))
      (map_option (\<lambda>s. s ! (bh mod q_heads g)) sinks) (a mod head_dim g)))) [0..<batch * q_heads g * head_dim g], bufs')"
proof -
  let ?n = "batch * q_heads g * splits" and ?D = "head_dim g"
  let ?ks = "\<lambda>grp. decode_keys lq lk lv g bt Q kc vc scale (grp div splits) (split_keys (usize (seq_lens ! (grp div splits div q_heads g))) wl splits (grp mod splits))"
  have nsl: "?D = kSG * (?D div kSG)" using d(1) unfolding kSG_def by presburger
  have "?D div kSG \<le> kPerLane" unfolding kPerLane_def using d(2) by (rule div_le_mono)
  note step = decode_group_step [OF shape nsl this, where lanes = lanes and lq = lq and lk = lk and lv = lv and scale = scale and wl = wl]
  have "\<exists>bufs'. foldM (decode_group exact_amath (\<lambda>w. Fin (lq w)) (\<lambda>w. Fin (lk w)) (\<lambda>w. Fin (lv w)) g Q kc vc bt seq_lens splits (Fin scale) wl lanes) sched bufs = Some bufs' \<and>
      ws_len ?n ?D bufs' \<and> (\<forall>grp<?n. ws_rep ?D (?ks grp) grp bufs')"
  proof (rule launch_inv [where I = "ws_len ?n ?D" and Q = "\<lambda>grp. ws_rep ?D (?ks grp) grp", OF sched(1) len(1)])
    fix grp and b :: "xreal list \<times> xreal list \<times> xreal list" assume grp: "grp < ?n" and b: "ws_len ?n ?D b"
    show "\<exists>b'. decode_group exact_amath (\<lambda>w. Fin (lq w)) (\<lambda>w. Fin (lk w)) (\<lambda>w. Fin (lv w)) g Q kc vc bt seq_lens splits (Fin scale) wl lanes grp b = Some b' \<and>
        ws_len ?n ?D b' \<and> ws_rep ?D (?ks grp) grp b' \<and> (\<forall>j<?n. j \<noteq> grp \<longrightarrow> ws_rep ?D (?ks j) j b \<longrightarrow> ws_rep ?D (?ks j) j b')"
      using step [OF grp sched(2) b] by blast
  qed
  then obtain bufs' where b: "foldM (decode_group exact_amath (\<lambda>w. Fin (lq w)) (\<lambda>w. Fin (lk w)) (\<lambda>w. Fin (lv w)) g Q kc vc bt seq_lens splits (Fin scale) wl lanes) sched bufs = Some bufs'"
      "ws_len ?n ?D bufs'" "\<forall>grp<?n. ws_rep ?D (?ks grp) grp bufs'" by blast
  let ?u = "\<lambda>bh j. st (Fin (attends (decode_keys lq lk lv g bt Q kc vc scale bh (decode_sees (usize (seq_lens ! (bh div q_heads g))) wl))
      (map_option (\<lambda>s. s ! (bh mod q_heads g)) sinks) j))"
  have "foldM (reduce_item exact_amath st g splits (map_option (map Fin) sinks) bufs') sched' out =
      Some (map (\<lambda>a. ?u (a div ?D) (a mod ?D)) [0..<batch * q_heads g * ?D])"
  proof (rule rows_launch [OF sched(3) len(2)])
    fix bh and m :: "'t list" assume bh: "bh < batch * q_heads g" and m: "length m = batch * q_heads g * ?D"
    let ?kss = "\<lambda>sp. decode_keys lq lk lv g bt Q kc vc scale bh (split_keys (usize (seq_lens ! (bh div q_heads g))) wl splits sp)"
    have ws: "ws_rep ?D (?kss sp) (bh * splits + sp) bufs'" if "sp < splits" for sp
      using b(3) [rule_format, OF div_mult_add_lt [OF bh that]] that by simp
    show "\<exists>m'. reduce_item exact_amath st g splits (map_option (map Fin) sinks) bufs' bh m = Some m' \<and> writes (row_cells ?D bh) (\<lambda>a. ?u bh (a - bh * ?D)) m m'"
      using reduce_item_step [OF bh d(2) b(2) m ws sinks, where st = st] unfolding decode_keys_concat concat_split_keys [OF splits] .
  qed
  then show ?thesis using b(1) by (intro exI [of _ bufs']) (simp add: decode_typed_def Let_def)
qed

theorem paged_decode_exact_witness:
  "\<exists>bufs'. decode_typed exact_amath Fin xval Fin Fin \<lparr>q_heads = 1, kv_heads = 1, head_dim = 16, page_size = 1, max_pages = 3, page_stride = 16\<rparr>
      (replicate 16 1) (replicate 32 0) (replicate 16 5 @ replicate 16 2) [1, -1, 0] [3] 2 (Fin 1) (-1) (Some [Fin 0]) [1, 0] (\<lambda>_. rev [0..<16]) [0]
      (replicate 16 0, replicate 32 0, [0, 0], [0, 0]) = Some (replicate 16 (7 / 3), bufs')"
proof -
  let ?g = "\<lparr>q_heads = 1, kv_heads = 1, head_dim = 16, page_size = 1, max_pages = 3, page_stride = 16\<rparr>"
  have sched: "schedule (1 * q_heads ?g * 2) [1, 0 :: nat]" by (auto simp: schedule_def)
  have lanes: "schedule kSG (rev [0..<16])" by (simp add: kSG_def)
  have three: "k = 0 \<or> k = 1 \<or> k = 2" if "k < 3" for k :: nat using that by auto
  have fits: "kv_fits ?g (Some [1, -1, 0]) 0 0 3 (replicate 32 (0 :: real)) (replicate 16 5 @ replicate 16 2)"
    unfolding kv_fits_def by (auto simp: kv_base_def usize_def rd_def dest!: three)
  have us: "usize 3 = 3" by (simp add: usize_def)
  have shape: "decode_shape ?g 1 (replicate 16 (1 :: real)) (replicate 32 (0 :: real)) (replicate 16 5 @ replicate 16 2) [1, -1, 0] [3]"
    using fits by (simp add: decode_shape_def us)
  have keys: "decode_keys (\<lambda>x. x) (\<lambda>x. x) (\<lambda>x. x) ?g [1, -1, 0] (replicate 16 (1 :: real)) (replicate 32 (0 :: real)) (replicate 16 5 @ replicate 16 2) 1 0 [0, 1, 2] =
      [(0, \<lambda>j. (replicate 16 5 @ replicate 16 2) ! (16 + j)), (0, \<lambda>j. (replicate 16 5 @ replicate 16 2) ! j)]"
    by (simp add: decode_keys_def paged_keys_def kv_base_def cache_key_def usize_def rd_def)
  have "\<exists>bufs'. decode_typed exact_amath Fin xval Fin Fin ?g
      (replicate 16 1) (replicate 32 0) (replicate 16 5 @ replicate 16 2) [1, -1, 0] [3] 2 (Fin 1) (-1) (map_option (map Fin) (Some [0])) [1, 0] (\<lambda>_. rev [0..<16]) [0]
      (replicate 16 0, replicate 32 0, [0, 0], [0, 0]) =
    Some (map (\<lambda>a. let bh = a div head_dim ?g in xval (Fin (attends
      (decode_keys (\<lambda>x. x) (\<lambda>x. x) (\<lambda>x. x) ?g [1, -1, 0] (replicate 16 1) (replicate 32 0) (replicate 16 5 @ replicate 16 2) 1 bh (decode_sees (usize ([3] ! (bh div q_heads ?g))) (-1)))
      (map_option (\<lambda>s. s ! (bh mod q_heads ?g)) (Some [0])) (a mod head_dim ?g)))) [0..<1 * q_heads ?g * head_dim ?g], bufs')"
    by (rule paged_decode_exact [OF shape _ _ _ sched lanes]) (simp_all add: kMaxD_paged_def schedule_def ws_len_def lessThan_Suc)
  moreover have "map (\<lambda>a. let bh = a div head_dim ?g in xval (Fin (attends
      (decode_keys (\<lambda>x. x) (\<lambda>x. x) (\<lambda>x. x) ?g [1, -1, 0] (replicate 16 1) (replicate 32 0) (replicate 16 5 @ replicate 16 2) 1 bh (decode_sees (usize ([3] ! (bh div q_heads ?g))) (-1)))
      (map_option (\<lambda>s. s ! (bh mod q_heads ?g)) (Some [0])) (a mod head_dim ?g)))) [0..<1 * q_heads ?g * head_dim ?g] = replicate 16 (7 / 3)"
  proof (rule nth_equalityI)
    fix i assume "i < length (map (\<lambda>a. let bh = a div head_dim ?g in xval (Fin (attends
      (decode_keys (\<lambda>x. x) (\<lambda>x. x) (\<lambda>x. x) ?g [1, -1, 0] (replicate 16 1) (replicate 32 0) (replicate 16 5 @ replicate 16 2) 1 bh (decode_sees (usize ([3] ! (bh div q_heads ?g))) (-1)))
      (map_option (\<lambda>s. s ! (bh mod q_heads ?g)) (Some [0])) (a mod head_dim ?g)))) [0..<1 * q_heads ?g * head_dim ?g])"
    then have i: "i < 16" by simp
    have s: "decode_sees 3 (-1) = [0, 1, 2]" by (simp add: decode_sees_def upt_rec)
    show "map (\<lambda>a. let bh = a div head_dim ?g in xval (Fin (attends
      (decode_keys (\<lambda>x. x) (\<lambda>x. x) (\<lambda>x. x) ?g [1, -1, 0] (replicate 16 1) (replicate 32 0) (replicate 16 5 @ replicate 16 2) 1 bh (decode_sees (usize ([3] ! (bh div q_heads ?g))) (-1)))
      (map_option (\<lambda>s. s ! (bh mod q_heads ?g)) (Some [0])) (a mod head_dim ?g)))) [0..<1 * q_heads ?g * head_dim ?g] ! i = replicate 16 (7 / 3) ! i"
      using i by (simp add: us s keys [simplified] Let_def attends_def softmax_num_def softmax_den_def nth_append)
  qed simp
  ultimately show ?thesis by simp
qed

end
