(* ===== verification/PagedPrefill.thy ===== *)
theory PagedPrefill
  imports PagedAttention
begin

text \<open>
  Prefill attention over the paged or contiguous cache (\<open>paged_attention_prefill.sycl.cpp\<close>) and the merge of
  two partial results (\<open>merge_attn_states.sycl.cpp\<close>).  Prefill packs the query tokens of a batch of sequences and gives a
  work-item to each token and head; it can leave out the log-sum-exp output (\<open>want_lse\<close>: the pointer is not null), which the
  merge kernel consumes.
\<close>

section \<open>Prefill\<close>

function pf_find_seq :: "int list \<Rightarrow> nat \<Rightarrow> nat \<Rightarrow> nat \<Rightarrow> nat option" where
  "pf_find_seq cu batch tok b =
     (if b + 1 < batch then do {
        e \<leftarrow> rd cu (b + 1);
        if tok \<ge> usize e then pf_find_seq cu batch tok (b + 1) else Some b }
      else Some b)"
  by pat_completeness auto
termination
  by (relation "measure (\<lambda>(cu, batch, tok, b). batch - b)") auto

declare pf_find_seq.simps [simp del]

text \<open>\<open>static_cast<std::int64_t>\<close> of a \<open>size_t\<close>.\<close>

definition i64 :: "nat \<Rightarrow> int" where
  "i64 n = (if n < 2 ^ 63 then int n else int n - 2 ^ 64)"

definition pf_band :: "nat \<Rightarrow> nat \<Rightarrow> nat \<Rightarrow> bool \<Rightarrow> int \<Rightarrow> int \<Rightarrow> int list" where
  "pf_band qi seq_q seq_k causal window_left window_right =
     (let center = i64 qi + i64 seq_k - i64 seq_q;
          lo = 0;
          hi = i64 seq_k - 1;
          hi = (if causal then if center < hi then center else hi else hi);
          lo = (if window_left \<ge> 0 then let l2 = center - window_left in if l2 > lo then l2 else lo else lo);
          hi = (if window_right \<ge> 0 \<and> \<not> causal then let r2 = center + window_right in if r2 < hi then r2 else hi else hi)
      in [lo..hi])"

definition prefill_item :: "('f::{plus,minus,times,inverse,zero,one,ord}, 'z) amath_scheme \<Rightarrow> ('t \<Rightarrow> 'f) \<Rightarrow> ('f \<Rightarrow> 't) \<Rightarrow> ('c \<Rightarrow> 'f) \<Rightarrow> ('c \<Rightarrow> 'f) \<Rightarrow> paged_shape \<Rightarrow>
    't list \<Rightarrow> 'c list \<Rightarrow> 'c list \<Rightarrow> int list option \<Rightarrow> int list \<Rightarrow> int list \<Rightarrow> bool list option \<Rightarrow> nat \<Rightarrow> nat \<Rightarrow> 'f \<Rightarrow> bool \<Rightarrow> int \<Rightarrow> int \<Rightarrow> 'f list option \<Rightarrow> bool \<Rightarrow>
    nat \<Rightarrow> 't list \<times> 'f list \<Rightarrow> ('t list \<times> 'f list) option" where
  "prefill_item M ld st kl vl g Q kc vc block_table cu_q cu_k is_prefill batch msk sm_scale causal window_left window_right sinks want_lse idx s = do {
     let tok = idx div q_heads g;
     let h = idx mod q_heads g;
     let kvh = h div (q_heads g div kv_heads g);
     b \<leftarrow> pf_find_seq cu_q batch tok 0;
     active \<leftarrow> (case is_prefill of Some f \<Rightarrow> rd f b | None \<Rightarrow> Some True);
     if \<not> active then Some s
     else do {
       q0 \<leftarrow> rd cu_q b;
       q1 \<leftarrow> rd cu_q (b + 1);
       let q_lo = usize q0;
       let seq_q = usize (int (usize q1) - int q_lo);
       k0 \<leftarrow> rd cu_k b;
       k1 \<leftarrow> rd cu_k (b + 1);
       let k_start = usize k0;
       let seq_k = usize (int (usize k1) - int k_start);
       let qi = usize (int tok - int q_lo);
       qreg \<leftarrow> foldM (\<lambda>j qreg. do { x \<leftarrow> rd Q ((tok * q_heads g + h) * head_dim g + j); wr qreg j (ld x) }) [0..<head_dim g] (replicate kMaxD_paged 0);
       (m, l, acc) \<leftarrow> foldM (\<lambda>k s. do {
         base \<leftarrow> kv_base g block_table msk b kvh (usize k);
         case base of None \<Rightarrow> Some s
         | Some base \<Rightarrow> do {
             score \<leftarrow> dot_score (rd qreg) (\<lambda>j. map_option kl (rd kc (base + j))) (head_dim g) sm_scale;
             flash_key M (head_dim g) score (\<lambda>j. map_option vl (rd vc (base + j))) s } })
         (pf_band qi seq_q seq_k causal window_left window_right) (flash_init M kMaxD_paged);
       l \<leftarrow> (case sinks of Some sk \<Rightarrow> if m > ninf M then do { x \<leftarrow> rd sk h; Some (l + exp_fn M (x - m)) } else Some l | None \<Rightarrow> Some l);
       let (out, lse) = s;
       let inv = attn_inv l;
       out \<leftarrow> foldM (\<lambda>j out. do { a \<leftarrow> rd acc j; wr out ((tok * q_heads g + h) * head_dim g + j) (st (a * inv)) }) [0..<head_dim g] out;
       lse \<leftarrow> (if want_lse then wr lse (tok * q_heads g + h) (if m > ninf M then m + log_fn M l else ninf M) else Some lse);
       Some (out, lse) } }"

definition prefill_typed :: "('f::{plus,minus,times,inverse,zero,one,ord}, 'z) amath_scheme \<Rightarrow> ('t \<Rightarrow> 'f) \<Rightarrow> ('f \<Rightarrow> 't) \<Rightarrow> ('c \<Rightarrow> 'f) \<Rightarrow> ('c \<Rightarrow> 'f) \<Rightarrow> paged_shape \<Rightarrow>
    't list \<Rightarrow> 'c list \<Rightarrow> 'c list \<Rightarrow> int list option \<Rightarrow> int list \<Rightarrow> int list \<Rightarrow> bool list option \<Rightarrow> nat \<Rightarrow> nat \<Rightarrow> 'f \<Rightarrow> bool \<Rightarrow> int \<Rightarrow> int \<Rightarrow> 'f list option \<Rightarrow> bool \<Rightarrow>
    nat list \<Rightarrow> 't list \<times> 'f list \<Rightarrow> ('t list \<times> 'f list) option" where
  "prefill_typed M ld st kl vl g Q kc vc block_table cu_q cu_k is_prefill batch msk sm_scale causal window_left window_right sinks want_lse =
     foldM (prefill_item M ld st kl vl g Q kc vc block_table cu_q cu_k is_prefill batch msk sm_scale causal window_left window_right sinks want_lse)"

definition paged_attention_prefill_sycl :: "f32 amath \<Rightarrow> DType \<Rightarrow> int \<Rightarrow> paged_shape \<Rightarrow> 32 word list \<Rightarrow> 32 word list \<Rightarrow> 32 word list \<Rightarrow>
    int list option \<Rightarrow> int list \<Rightarrow> int list \<Rightarrow> bool list option \<Rightarrow> nat \<Rightarrow> nat \<Rightarrow> nat \<Rightarrow> f32 \<Rightarrow> bool \<Rightarrow> int \<Rightarrow> int \<Rightarrow> f32 list option \<Rightarrow> f32 option \<Rightarrow> f32 option \<Rightarrow> bool \<Rightarrow>
    nat list \<Rightarrow> 32 word list \<times> f32 list \<Rightarrow> (32 word list \<times> f32 list) option" where
  "paged_attention_prefill_sycl M dt kv_dt g Q kc vc block_table cu_q cu_k is_prefill total_q batch msk sm_scale causal window_left window_right sinks k_scale v_scale want_lse sched s =
     (if head_dim g > kMaxD_paged \<or> total_q = 0 then Some s
      else prefill_typed M (elem_ld dt) (elem_st dt) (kv_at dt kv_dt (scale_of k_scale)) (kv_at dt kv_dt (scale_of v_scale)) g Q kc vc
        block_table cu_q cu_k is_prefill batch msk sm_scale causal window_left window_right sinks want_lse sched s)"

section \<open>Merge\<close>

definition merge_item :: "('f::{plus,minus,times,inverse,zero,one,ord}, 'z) amath_scheme \<Rightarrow> ('t \<Rightarrow> 'f) \<Rightarrow> ('f \<Rightarrow> 't) \<Rightarrow> 't list \<Rightarrow> 'f list \<Rightarrow> 't list \<Rightarrow> 'f list \<Rightarrow> bool \<Rightarrow> nat \<Rightarrow>
    nat \<Rightarrow> 't list \<times> 'f list \<Rightarrow> ('t list \<times> 'f list) option" where
  "merge_item M ld st out_a lse_a out_b lse_b want_lse d idx s = do {
     let r = idx div d;
     la \<leftarrow> rd lse_a r;
     lb \<leftarrow> rd lse_b r;
     let m = fmax la lb;
     let empty = (\<not> m > ninf M);
     let wa = (if empty \<or> \<not> la > ninf M then 0 else exp_fn M (la - m));
     let wb = (if empty \<or> \<not> lb > ninf M then 0 else exp_fn M (lb - m));
     let denom = wa + wb;
     let inv = attn_inv denom;
     a \<leftarrow> rd out_a idx;
     b \<leftarrow> rd out_b idx;
     let (out, lse) = s;
     out \<leftarrow> wr out idx (st ((wa * ld a + wb * ld b) * inv));
     lse \<leftarrow> (if want_lse \<and> idx mod d = 0 then wr lse r (if empty then ninf M else m + log_fn M denom) else Some lse);
     Some (out, lse) }"

definition merge_typed :: "('f::{plus,minus,times,inverse,zero,one,ord}, 'z) amath_scheme \<Rightarrow> ('t \<Rightarrow> 'f) \<Rightarrow> ('f \<Rightarrow> 't) \<Rightarrow> 't list \<Rightarrow> 'f list \<Rightarrow> 't list \<Rightarrow> 'f list \<Rightarrow> bool \<Rightarrow> nat \<Rightarrow>
    nat list \<Rightarrow> 't list \<times> 'f list \<Rightarrow> ('t list \<times> 'f list) option" where
  "merge_typed M ld st out_a lse_a out_b lse_b want_lse d = foldM (merge_item M ld st out_a lse_a out_b lse_b want_lse d)"

definition merge_attn_states_sycl :: "f32 amath \<Rightarrow> DType \<Rightarrow> 32 word list \<Rightarrow> f32 list \<Rightarrow> 32 word list \<Rightarrow> f32 list \<Rightarrow> bool \<Rightarrow> nat \<Rightarrow>
    nat list \<Rightarrow> 32 word list \<times> f32 list \<Rightarrow> (32 word list \<times> f32 list) option" where
  "merge_attn_states_sycl M dt = merge_typed M (elem_ld dt) (elem_st dt)"

section \<open>Sequences and bands\<close>

lemma pf_find_seq_owner:
  assumes "packed cu batch ntok" "s < batch" "t < seq_len cu s" "j \<le> s"
  shows "pf_find_seq cu batch (bos_of cu s + t) j = Some s"
  using assms(4)
proof (induction rule: inc_induct)
  case base
  have "bos_of cu s + t < nat (cu ! (s + 1))" using assms(3) by (simp add: bos_of_def seq_len_def)
  then show ?case using packed_rd [OF assms(1), of "s + 1"] assms(2) by (subst pf_find_seq.simps) simp
next
  case (step j)
  have "cu ! (j + 1) \<le> cu ! s" by (rule packed_mono [OF assms(1)]) (use step assms(2) in auto)
  then have "nat (cu ! (j + 1)) \<le> bos_of cu s + t" by (simp add: bos_of_def)
  then show ?case using packed_rd [OF assms(1), of "j + 1"] step assms(2) by (subst pf_find_seq.simps) simp
qed

definition pf_sees :: "nat \<Rightarrow> nat \<Rightarrow> nat \<Rightarrow> bool \<Rightarrow> int \<Rightarrow> int \<Rightarrow> nat list" where
  "pf_sees qi seq_q seq_k causal window_left window_right =
     filter (\<lambda>k. let dist = int k + int seq_q - (int qi + int seq_k) in (causal \<longrightarrow> dist \<le> 0) \<and> (window_left \<ge> 0 \<longrightarrow> - window_left \<le> dist) \<and>
       (window_right \<ge> 0 \<and> \<not> causal \<longrightarrow> dist \<le> window_right)) [0..<seq_k]"

lemma upto_filter:
  assumes "0 \<le> lo" "hi < int n"
  shows "[lo..hi] = map int (filter (\<lambda>k. lo \<le> int k \<and> int k \<le> hi) [0..<n])"
proof (rule sorted_distinct_set_unique)
  show "set [lo..hi] = set (map int (filter (\<lambda>k. lo \<le> int k \<and> int k \<le> hi) [0..<n]))"
  proof (intro set_eqI iffI)
    fix i assume i: "i \<in> set [lo..hi]"
    then have "i = int (nat i)" "nat i < n" using assms by auto
    then show "i \<in> set (map int (filter (\<lambda>k. lo \<le> int k \<and> int k \<le> hi) [0..<n]))" using i by (auto intro!: image_eqI [of _ int "nat i"])
  qed auto
  have "sorted (filter (\<lambda>k. lo \<le> int k \<and> int k \<le> hi) [0..<n])" by (simp add: sorted_wrt_filter)
  then show "sorted (map int (filter (\<lambda>k. lo \<le> int k \<and> int k \<le> hi) [0..<n]))" by (simp add: sorted_map)
qed (auto simp: distinct_map)

lemma pf_band_sees:
  assumes "seq_q < 2 ^ 31" "seq_k < 2 ^ 31" "qi < seq_q"
  shows "pf_band qi seq_q seq_k causal wl wR = map int (pf_sees qi seq_q seq_k causal wl wR)"
proof -
  define center where "center = int qi + int seq_k - int seq_q"
  define hi where "hi = (if causal then min center (int seq_k - 1) else if wR \<ge> 0 then min (center + wR) (int seq_k - 1) else int seq_k - 1)"
  define lo where "lo = (if wl \<ge> 0 then max 0 (center - wl) else 0)"
  have i: "i64 qi = int qi" "i64 seq_k = int seq_k" "i64 seq_q = int seq_q" using assms by (simp_all add: i64_def)
  have "(if a < b then a else b) = min a b" "(if a > b then a else b) = max a b" for a b :: int by auto
  then have "pf_band qi seq_q seq_k causal wl wR = [lo..hi]"
    unfolding pf_band_def i Let_def lo_def hi_def center_def by (simp add: max.commute)
  also have "\<dots> = map int (filter (\<lambda>k. lo \<le> int k \<and> int k \<le> hi) [0..<seq_k])"
    by (rule upto_filter) (auto simp: lo_def hi_def)
  also have "filter (\<lambda>k. lo \<le> int k \<and> int k \<le> hi) [0..<seq_k] = pf_sees qi seq_q seq_k causal wl wR"
    unfolding pf_sees_def Let_def by (rule filter_cong) (auto simp: lo_def hi_def center_def)
  finally show ?thesis .
qed

text \<open>A work-item streams the keys of a band.\<close>

lemma paged_scan:
  assumes fits: "kv_fits g bt msk b n kc vc" "kvh < kv_heads g" "set ks \<subseteq> {..<n}" "n < 2 ^ 31"
    and d: "head_dim g \<le> kMaxD_paged" and q: "qrow + head_dim g \<le> length Q"
  shows "\<exists>s. foldM (\<lambda>k s. do {
         base \<leftarrow> kv_base g bt msk b kvh (usize k);
         case base of None \<Rightarrow> Some s
         | Some base \<Rightarrow> do {
             score \<leftarrow> dot_score (rd (map (\<lambda>j. Fin (lq (Q ! (qrow + j)))) [0..<head_dim g] @ replicate (kMaxD_paged - head_dim g) 0))
               (\<lambda>j. map_option (\<lambda>w. Fin (lk w)) (rd kc (base + j))) (head_dim g) (Fin scale);
             flash_key exact_amath (head_dim g) score (\<lambda>j. map_option (\<lambda>w. Fin (lv w)) (rd vc (base + j))) s } })
       (map int ks) (flash_init exact_amath kMaxD_paged) = Some s \<and>
     flash_rep (head_dim g) kMaxD_paged (paged_keys lq lk lv g bt msk Q kc vc qrow b kvh scale ks) s"
    (is "\<exists>s. foldM ?body _ ?init = _ \<and> _")
proof -
  let ?key = "\<lambda>k. cache_key lq lk lv Q kc vc qrow (head_dim g) scale (the (the (kv_base g bt msk b kvh k)))"
  have "\<exists>s. foldM (\<lambda>k. ?body (int k)) ks ?init = Some s \<and>
      flash_rep (min (head_dim g) kMaxD_paged) kMaxD_paged (map ?key (filter (\<lambda>k. \<not> kv_base g bt msk b kvh k = Some None) ks)) s"
  proof (rule flash.stream)
    fix k s assume k: "k \<in> set ks"
    have kn: "k < n" "usize (int k) = k" using k fits(3,4) by auto
    show "?body (int k) s = (if kv_base g bt msk b kvh k = Some None then Some s else absorb_key (min (head_dim g) kMaxD_paged) (?key k) s)"
    proof (cases rule: kv_fits_cases [OF fits(1,2) kn(1)])
      case 1
      then show ?thesis by (simp add: kn(2))
    next
      case (2 o1)
      have in': "o1 + j < length kc" "o1 + j < length vc" if "j < head_dim g" for j using 2(2,3) that by linarith+
      have sc: "dot_score (rd (map (\<lambda>j. Fin (lq (Q ! (qrow + j)))) [0..<head_dim g] @ replicate (kMaxD_paged - head_dim g) 0))
          (\<lambda>j. map_option (\<lambda>w. Fin (lk w)) (rd kc (o1 + j))) (head_dim g) (Fin scale) = Some (Fin (fst (?key k)))"
        by (subst dot_score_exact [where a = "\<lambda>j. lq (Q ! (qrow + j))" and b = "\<lambda>j. lk (kc ! (o1 + j))"])
          (use in' d 2(1) in \<open>auto simp: nth_append cache_key_def rd_def\<close>)
      have fk: "flash_key exact_amath (head_dim g) (Fin (fst (?key k))) (\<lambda>j. map_option (\<lambda>w. Fin (lv w)) (rd vc (o1 + j))) s = absorb_key (head_dim g) (?key k) s"
        by (subst flash_key_absorb [where x = "\<lambda>j. lv (vc ! (o1 + j))"]) (use in' 2(1) in \<open>auto simp: cache_key_def\<close>)
      have "kv_base g bt msk b kvh (usize (int k)) = Some (Some o1)" using 2(1) kn(2) by simp
      then show ?thesis using 2(1) d sc fk by (simp add: min_absorb1)
    qed
  qed
  then show ?thesis unfolding foldM_map using d by (simp only: paged_keys_def min_absorb1)
qed

section \<open>Prefill computes attention over the band\<close>

definition prefill_shape :: "paged_shape \<Rightarrow> nat \<Rightarrow> nat \<Rightarrow> 't list \<Rightarrow> 'c list \<Rightarrow> 'c list \<Rightarrow> int list option \<Rightarrow> nat \<Rightarrow> int list \<Rightarrow> int list \<Rightarrow> bool list option \<Rightarrow> bool" where
  "prefill_shape g batch total_q Q kc vc block_table msk cu_q cu_k is_prefill \<longleftrightarrow> 0 < kv_heads g \<and> kv_heads g dvd q_heads g \<and>
     length Q = total_q * q_heads g * head_dim g \<and> packed cu_q batch total_q \<and> (\<exists>total_k. packed cu_k batch total_k) \<and>
     (\<forall>f. is_prefill = Some f \<longrightarrow> length f = batch) \<and> (\<forall>b<batch. kv_fits g block_table msk b (seq_len cu_k b) kc vc)"

definition prefill_active :: "bool list option \<Rightarrow> nat \<Rightarrow> bool" where
  "prefill_active is_prefill b = (case is_prefill of Some f \<Rightarrow> f ! b | None \<Rightarrow> True)"

definition prefill_keys :: "('t \<Rightarrow> real) \<Rightarrow> ('c \<Rightarrow> real) \<Rightarrow> ('c \<Rightarrow> real) \<Rightarrow> paged_shape \<Rightarrow> int list option \<Rightarrow> nat \<Rightarrow> 't list \<Rightarrow> 'c list \<Rightarrow> 'c list \<Rightarrow> real \<Rightarrow>
    bool \<Rightarrow> int \<Rightarrow> int \<Rightarrow> int list \<Rightarrow> int list \<Rightarrow> nat \<Rightarrow> nat \<Rightarrow> nat \<Rightarrow> akey list" where
  "prefill_keys lq lk lv g block_table msk Q kc vc scale causal wl wR cu_q cu_k b t h =
     paged_keys lq lk lv g block_table msk Q kc vc (((bos_of cu_q b + t) * q_heads g + h) * head_dim g) b (h div (q_heads g div kv_heads g)) scale
       (pf_sees t (seq_len cu_q b) (seq_len cu_k b) causal wl wR)"

abbreviation head_sink :: "real list option \<Rightarrow> nat \<Rightarrow> real option" where
  "head_sink sinks h \<equiv> map_option (\<lambda>s. s ! h) sinks"

lemma packed_seq_len:
  assumes "packed cu batch ntok" "b < batch"
  shows "usize (int (usize (cu ! (b + 1))) - int (usize (cu ! b))) = seq_len cu b" "seq_len cu b < 2 ^ 31" "bos_of cu b < 2 ^ 31"
proof -
  have u: "usize (cu ! (b + 1)) = nat (cu ! (b + 1))" "usize (cu ! b) = nat (cu ! b)" using packed_rd(2) [OF assms(1)] assms(2) by simp_all
  have "cu ! b \<le> cu ! (b + 1)" by (rule packed_mono [OF assms(1)]) (use assms(2) in auto)
  moreover have "cu ! (b + 1) < 2 ^ 31" "0 \<le> cu ! b" using packed_bounds [OF assms(1), of "b + 1"] packed_bounds [OF assms(1), of b] assms by (simp_all add: packed_def)
  ultimately show "usize (int (usize (cu ! (b + 1))) - int (usize (cu ! b))) = seq_len cu b" "seq_len cu b < 2 ^ 31" "bos_of cu b < 2 ^ 31"
    unfolding u by (simp_all add: seq_len_def bos_of_def usize_def nat_diff_distrib)
qed

lemma prefill_item_step:
  fixes out :: "'t list"
  assumes shape: "prefill_shape g batch total_q Q kc vc bt msk cu_q cu_k is_prefill" and d: "head_dim g \<le> kMaxD_paged"
    and b: "b < batch" "t < seq_len cu_q b" "h < q_heads g" and len: "length out = total_q * q_heads g * head_dim g" "length lse = total_q * q_heads g"
    and sinks: "\<And>s. sinks = Some s \<Longrightarrow> length s = q_heads g" and idx: "idx = (bos_of cu_q b + t) * q_heads g + h"
    and act: "prefill_active is_prefill b"
  shows "\<exists>out'. prefill_item exact_amath (\<lambda>w. Fin (lq w)) st (\<lambda>w. Fin (lk w)) (\<lambda>w. Fin (lv w)) g Q kc vc bt cu_q cu_k is_prefill batch msk (Fin scale) causal wl wR
       (map_option (map Fin) sinks) want_lse idx (out, lse) =
     Some (out', if want_lse then lse[idx := attends_lse (prefill_keys lq lk lv g bt msk Q kc vc scale causal wl wR cu_q cu_k b t h) (head_sink sinks h)] else lse) \<and>
     writes (row_cells (head_dim g) idx) (\<lambda>a. st (Fin (attends (prefill_keys lq lk lv g bt msk Q kc vc scale causal wl wR cu_q cu_k b t h) (head_sink sinks h) (a - idx * head_dim g)))) out out'"
proof -
  let ?tok = "bos_of cu_q b + t" and ?kvh = "h div (q_heads g div kv_heads g)" and ?D = "head_dim g"
  let ?sq = "seq_len cu_q b" and ?sk = "seq_len cu_k b"
  let ?ks = "prefill_keys lq lk lv g bt msk Q kc vc scale causal wl wR cu_q cu_k b t h" and ?sink = "head_sink sinks h"
  obtain total_k where pk: "packed cu_q batch total_q" "packed cu_k batch total_k" using shape by (auto simp: prefill_shape_def)
  have tok: "?tok < total_q"
  proof -
    have "cu_q ! (b + 1) \<le> int total_q" using packed_bounds [OF pk(1), of "b + 1"] b(1) by simp
    then show ?thesis using b(2) unfolding bos_of_def seq_len_def by linarith
  qed
  have idx_less: "idx < total_q * q_heads g" unfolding idx by (rule div_mult_add_lt [OF tok b(3)])
  have td: "idx div q_heads g = ?tok" "idx mod q_heads g = h" using b(3) unfolding idx by simp_all
  have kvh: "?kvh < kv_heads g" using kv_head [OF _ _ b(3)] shape by (simp add: prefill_shape_def)
  have q: "idx * ?D + ?D \<le> length Q" using src_row [OF idx_less, of ?D] shape by (simp add: prefill_shape_def)
  have fits: "kv_fits g bt msk b ?sk kc vc" using shape b(1) by (simp add: prefill_shape_def)
  have keys: "set (pf_sees t ?sq ?sk causal wl wR) \<subseteq> {..<?sk}" by (auto simp: pf_sees_def)
  note lq = packed_seq_len [OF pk(1) b(1)] and lk = packed_seq_len [OF pk(2) b(1)]
  have rds: "rd cu_q b = Some (cu_q ! b)" "rd cu_q (b + 1) = Some (cu_q ! (b + 1))" "rd cu_k b = Some (cu_k ! b)" "rd cu_k (b + 1) = Some (cu_k ! (b + 1))"
    using packed_rd(1) [OF pk(1)] packed_rd(1) [OF pk(2)] b(1) by simp_all
  have qi: "usize (int ?tok - int (usize (cu_q ! b))) = t"
  proof -
    have "usize (cu_q ! b) = bos_of cu_q b" using packed_rd(2) [OF pk(1), of b] b(1) by (simp add: bos_of_def)
    then show ?thesis using b(2) lq(2) by (simp add: usize_def)
  qed
  have band: "pf_band t ?sq ?sk causal wl wR = map int (pf_sees t ?sq ?sk causal wl wR)" by (rule pf_band_sees [OF lq(2) lk(2) b(2)])
  have qreg: "foldM (\<lambda>j qreg. do { x \<leftarrow> rd Q (idx * ?D + j); wr qreg j (Fin (lq x)) }) [0..<?D] (replicate kMaxD_paged 0) =
      Some (map (\<lambda>j. Fin (lq (Q ! (idx * ?D + j)))) [0..<?D] @ replicate (kMaxD_paged - ?D) 0)"
    by (rule load_regs) (use d q in auto)
  have "\<exists>s. foldM (\<lambda>k s. do {
         base \<leftarrow> kv_base g bt msk b ?kvh (usize k);
         case base of None \<Rightarrow> Some s
         | Some base \<Rightarrow> do {
             score \<leftarrow> dot_score (rd (map (\<lambda>j. Fin (lq (Q ! (idx * ?D + j)))) [0..<?D] @ replicate (kMaxD_paged - ?D) 0))
               (\<lambda>j. map_option (\<lambda>w. Fin (lk w)) (rd kc (base + j))) ?D (Fin scale);
             flash_key exact_amath ?D score (\<lambda>j. map_option (\<lambda>w. Fin (lv w)) (rd vc (base + j))) s } })
       (map int (pf_sees t ?sq ?sk causal wl wR)) (flash_init exact_amath kMaxD_paged) = Some s \<and> flash_rep ?D kMaxD_paged ?ks s"
    unfolding prefill_keys_def idx [symmetric] by (rule paged_scan [OF fits kvh keys lk(2) d q])
  then obtain m l acc where s: "foldM (\<lambda>k s. do {
         base \<leftarrow> kv_base g bt msk b ?kvh (usize k);
         case base of None \<Rightarrow> Some s
         | Some base \<Rightarrow> do {
             score \<leftarrow> dot_score (rd (map (\<lambda>j. Fin (lq (Q ! (idx * ?D + j)))) [0..<?D] @ replicate (kMaxD_paged - ?D) 0))
               (\<lambda>j. map_option (\<lambda>w. Fin (lk w)) (rd kc (base + j))) ?D (Fin scale);
             flash_key exact_amath ?D score (\<lambda>j. map_option (\<lambda>w. Fin (lv w)) (rd vc (base + j))) s } })
       (map int (pf_sees t ?sq ?sk causal wl wR)) (flash_init exact_amath kMaxD_paged) = Some (m, l, acc)" "flash_rep ?D kMaxD_paged ?ks (m, l, acc)" by fast
  define l' where "l' = (case ?sink of Some x \<Rightarrow> if m > MInf then l + exp_fn exact_amath (Fin x - m) else l | None \<Rightarrow> l)"
  note fin = flash_finish_sink [OF s(2) _ l'_def]
  have sk: "(case map_option (map Fin) sinks of Some sk \<Rightarrow> if m > MInf then do { x \<leftarrow> rd sk h; Some (l + exp_fn exact_amath (x - m)) } else Some l | None \<Rightarrow> Some l) = Some l'"
    using b(3) sinks by (auto simp: l'_def split: option.splits)
  have la: "length acc = kMaxD_paged" using flash_rep_length [OF s(2)] by simp
  have "\<exists>out'. foldM (\<lambda>j out. do { a \<leftarrow> rd acc j; wr out (idx * ?D + j) (st (a * attn_inv l')) }) [0..<?D] out = Some out' \<and>
      writes {idx * ?D..<idx * ?D + ?D} (\<lambda>a. st (acc ! (a - idx * ?D) * attn_inv l')) out out'"
    by (rule store_loop) (use la d len(1) src_row [OF idx_less, of ?D] in simp_all)
  then obtain out' where out': "foldM (\<lambda>j out. do { a \<leftarrow> rd acc j; wr out (idx * ?D + j) (st (a * attn_inv l')) }) [0..<?D] out = Some out'"
      "writes (row_cells ?D idx) (\<lambda>a. st (acc ! (a - idx * ?D) * attn_inv l')) out out'" by blast
  have "writes (row_cells ?D idx) (\<lambda>a. st (Fin (attends ?ks ?sink (a - idx * ?D)))) out out'"
  proof -
    have "acc ! (a - idx * ?D) * attn_inv l' = Fin (attends ?ks ?sink (a - idx * ?D))" if "a \<in> row_cells ?D idx" for a
      using fin [of "a - idx * ?D"] that by (auto simp: attn_inv_def)
    then show ?thesis using out'(2) by (simp add: writes_def)
  qed
  moreover have "prefill_item exact_amath (\<lambda>w. Fin (lq w)) st (\<lambda>w. Fin (lk w)) (\<lambda>w. Fin (lv w)) g Q kc vc bt cu_q cu_k is_prefill batch msk (Fin scale) causal wl wR
       (map_option (map Fin) sinks) want_lse idx (out, lse) = Some (out', if want_lse then lse[idx := attends_lse ?ks ?sink] else lse)"
  proof -
    have a: "(case is_prefill of Some f \<Rightarrow> rd f b | None \<Rightarrow> Some True) = Some True"
      using act shape b(1) by (auto simp: prefill_active_def prefill_shape_def split: option.splits)
    have w: "(if want_lse then wr lse idx (if m > MInf then m + log_fn exact_amath l' else MInf) else Some lse) = Some (if want_lse then lse[idx := attends_lse ?ks ?sink] else lse)"
      using flash_finish_lse [OF s(2) l'_def] idx_less len(2) by simp
    show ?thesis
      by (simp only: prefill_item_def Let_def td pf_find_seq_owner [OF pk(1) b(1,2) le0] Option.bind.bind_lunit a rds lq(1) lk(1) qi idx [symmetric] qreg band
        s(1) [unfolded Let_def] prod.case exact_amath_simps sk out'(1) w if_True not_True_eq_False if_False simp_thms)
  qed
  ultimately show ?thesis by blast
qed

text \<open>C5: Paged prefill computes softmax attention: every query token of an active sequence gets, for each head, the softmax-weighted
  mean of the value rows of the keys of its own sequence inside the causal and window band whose pages are mapped, with the head's sink in
  the denominator, and, when asked, the logarithm of that denominator; the rows of the sequences masked out, and every
  log-sum-exp cell when none is asked, keep their bits.\<close>

theorem paged_prefill_exact:
  fixes out :: "'t list"
  assumes shape: "prefill_shape g batch total_q Q kc vc bt msk cu_q cu_k is_prefill" and d: "head_dim g \<le> kMaxD_paged"
    and sched: "schedule (total_q * q_heads g) sched" and len: "length out = total_q * q_heads g * head_dim g" "length lse = total_q * q_heads g"
    and sinks: "\<And>s. sinks = Some s \<Longrightarrow> length s = q_heads g"
  shows "\<exists>out' lse'. prefill_typed exact_amath (\<lambda>w. Fin (lq w)) st (\<lambda>w. Fin (lk w)) (\<lambda>w. Fin (lv w)) g Q kc vc bt cu_q cu_k is_prefill batch msk (Fin scale) causal wl wR
       (map_option (map Fin) sinks) want_lse sched (out, lse) = Some (out', lse') \<and> length out' = length out \<and> length lse' = length lse \<and>
     (\<forall>b<batch. \<forall>t< seq_len cu_q b. \<forall>h<q_heads g. let idx = (bos_of cu_q b + t) * q_heads g + h;
         ks = prefill_keys lq lk lv g bt msk Q kc vc scale causal wl wR cu_q cu_k b t h in
       (\<forall>j<head_dim g. out' ! (idx * head_dim g + j) =
         (if prefill_active is_prefill b then st (Fin (attends ks (head_sink sinks h) j)) else out ! (idx * head_dim g + j))) \<and>
       lse' ! idx = (if prefill_active is_prefill b \<and> want_lse then attends_lse ks (head_sink sinks h) else lse ! idx))"
proof -
  let ?n = "total_q * q_heads g" and ?D = "head_dim g"
  define B where "B = (\<lambda>idx. the (pf_find_seq cu_q batch (idx div q_heads g) 0))"
  define T where "T = (\<lambda>idx. idx div q_heads g - bos_of cu_q (B idx))"
  define K where "K = (\<lambda>idx. prefill_keys lq lk lv g bt msk Q kc vc scale causal wl wR cu_q cu_k (B idx) (T idx) (idx mod q_heads g))"
  define S where "S = (\<lambda>idx. head_sink sinks (idx mod q_heads g))"
  let ?rows = "\<lambda>idx. if prefill_active is_prefill (B idx) then row_cells ?D idx else {}"
  let ?lses = "\<lambda>idx. if prefill_active is_prefill (B idx) \<and> want_lse then {idx} else {}"
  let ?u = "\<lambda>idx a. st (Fin (attends (K idx) (S idx) (a - idx * ?D)))" and ?v = "\<lambda>idx (a :: nat). attends_lse (K idx) (S idx)"
  let ?item = "prefill_item exact_amath (\<lambda>w. Fin (lq w)) st (\<lambda>w. Fin (lk w)) (\<lambda>w. Fin (lv w)) g Q kc vc bt cu_q cu_k is_prefill batch msk (Fin scale) causal wl wR
       (map_option (map Fin) sinks) want_lse"
  have pk: "packed cu_q batch total_q" using shape by (simp add: prefill_shape_def)
  have at: "B idx = b" "T idx = t" "idx mod q_heads g = h" if "b < batch" "t < seq_len cu_q b" "h < q_heads g" "idx = (bos_of cu_q b + t) * q_heads g + h" for b t h idx
    using pf_find_seq_owner [OF pk that(1,2), of 0] that(3) unfolding B_def T_def that(4) by simp_all
  have own: "owns ?n ?rows" "owns ?n ?lses" using rows_apart by (auto simp: owns_def)
  have "\<exists>a b. foldM ?item sched (out, lse) = Some (a, b) \<and> rows_done ?rows ?u out {..<?n} a \<and> rows_done ?lses ?v lse {..<?n} b"
  proof (rule launch_rows2 [OF sched own])
    fix idx and o1 :: "'t list" and l1 :: "xreal list" assume idx: "idx < ?n" and l: "length o1 = length out" "length l1 = length lse"
    have tok: "idx div q_heads g < total_q" "idx mod q_heads g < q_heads g" using idx_split [OF idx] by blast+
    obtain b t where bt: "b < batch" "t < seq_len cu_q b" "idx div q_heads g = bos_of cu_q b + t" by (rule packed_token [OF pk tok(1)])
    have i: "idx = (bos_of cu_q b + t) * q_heads g + idx mod q_heads g" using bt(3) by (metis div_mult_mod_eq)
    note a = at [OF bt(1,2) tok(2) i]
    show "\<exists>a' b'. ?item idx (o1, l1) = Some (a', b') \<and> writes (?rows idx) (?u idx) o1 a' \<and> writes (?lses idx) (?v idx) l1 b'"
    proof (cases "prefill_active is_prefill b")
      case True
      have len1: "length o1 = ?n * ?D" "length l1 = ?n" using l len by simp_all
      obtain o2 where "?item idx (o1, l1) = Some (o2, if want_lse then l1[idx := attends_lse (K idx) (S idx)] else l1)" "writes (row_cells ?D idx) (?u idx) o1 o2"
        using prefill_item_step [OF shape d bt(1,2) tok(2) len1 sinks i True, where lq = lq and st = st and lk = lk and lv = lv and scale = scale and causal = causal and wl = wl and wR = wR and want_lse = want_lse] unfolding K_def S_def a(1,2) by blast
      then show ?thesis using True idx len1 by (auto simp: a(1) intro!: writes_single [where v = "?v idx", simplified])
    next
      case False
      have "?item idx (o1, l1) = Some (o1, l1)"
      proof -
        have "(case is_prefill of Some f \<Rightarrow> rd f b | None \<Rightarrow> Some True) = Some False"
          using False shape bt(1) by (auto simp: prefill_active_def prefill_shape_def split: option.splits)
        then show ?thesis using pf_find_seq_owner [OF pk bt(1,2) le0] by (simp add: prefill_item_def Let_def bt(3))
      qed
      then show ?thesis using False by (simp add: a(1))
    qed
  qed
  then obtain o2 l2 where r: "foldM ?item sched (out, lse) = Some (o2, l2)" "rows_done ?rows ?u out {..<?n} o2" "rows_done ?lses ?v lse {..<?n} l2" by blast
  have "(\<forall>j<?D. o2 ! (idx * ?D + j) = (if prefill_active is_prefill b then ?u idx (idx * ?D + j) else out ! (idx * ?D + j))) \<and>
      l2 ! idx = (if prefill_active is_prefill b \<and> want_lse then ?v idx idx else lse ! idx)" if bt: "b < batch" "t < seq_len cu_q b" "h < q_heads g"
      and i: "idx = (bos_of cu_q b + t) * q_heads g + h" for b t h idx
  proof -
    note a = at [OF bt i]
    have "cu_q ! (b + 1) \<le> int total_q" using packed_bounds [OF pk, of "b + 1"] bt(1) by simp
    then have "bos_of cu_q b + t < total_q" using bt(2) unfolding bos_of_def seq_len_def by linarith
    then have idx: "idx < ?n" unfolding i using bt(3) by (intro div_mult_add_lt)
    have row: "idx * ?D + j < length out" "idx * ?D + j \<in> row_cells ?D idx" if "j < ?D" for j using src_row [OF idx, of ?D] len(1) that by auto
    show ?thesis
    proof (cases "prefill_active is_prefill b")
      case True
      have "o2 ! (idx * ?D + j) = ?u idx (idx * ?D + j)" if "j < ?D" for j
        by (rule rows_done_cell [OF r(2) idx]) (use row [OF that] True a(1) in auto)
      moreover have "l2 ! idx = (if want_lse then ?v idx idx else lse ! idx)"
      proof (cases want_lse)
        case True
        then show ?thesis using rows_done_cell [OF r(3) idx, of idx] \<open>prefill_active is_prefill b\<close> a(1) idx len(2) by simp
      next
        case False
        then show ?thesis using rows_done_frame [OF r(3), of idx] idx len(2) by simp
      qed
      ultimately show ?thesis using True by auto
    next
      case False
      have "o2 ! (idx * ?D + j) = out ! (idx * ?D + j)" if "j < ?D" for j
      proof (rule rows_done_frame [OF r(2) row(1) [OF that]])
        fix q assume "q \<in> {..<?n}"
        show "idx * ?D + j \<notin> ?rows q"
        proof (cases "q = idx")
          case False
          then show ?thesis using rows_apart [of q idx ?D] row(2) [OF that] by auto
        qed (use False a(1) in simp)
      qed
      moreover have "l2 ! idx = lse ! idx" by (rule rows_done_frame [OF r(3)]) (use idx len(2) False a(1) in auto)
      ultimately show ?thesis using False by simp
    qed
  qed
  note cells = this
  show ?thesis
    by (intro exI [of _ o2] exI [of _ l2] conjI)
      (use r cells at in \<open>auto simp: prefill_typed_def Let_def K_def S_def dest: rows_done_length\<close>)
qed

section \<open>Merging partitions\<close>

lemma xreal_less_cases [simp]: "MInf < x \<longleftrightarrow> x \<noteq> MInf"
  by (cases x) simp_all

lemma fmax_xreal: "fmax (Fin a) (Fin b) = Fin (max a b)" "fmax MInf x = x" "fmax x MInf = x"
  by (auto simp: fmax_def max_def)

lemma attends_None: "ks \<noteq> [] \<Longrightarrow> attends ks None j = softmax_num ks j / softmax_den ks"
  by (simp add: attends_def)

lemma merge_values:
  assumes la: "la = attends_lse ka None" and lb: "lb = attends_lse kb None"
    and m: "m = fmax la lb" and wa: "wa = (if \<not> m > MInf \<or> \<not> la > MInf then 0 else exp_fn exact_amath (la - m))"
    and wb: "wb = (if \<not> m > MInf \<or> \<not> lb > MInf then 0 else exp_fn exact_amath (lb - m))"
  shows "(wa * Fin (attends ka None j) + wb * Fin (attends kb None j)) * attn_inv (wa + wb) = Fin (attends (ka @ kb) None j)"
    and "(if \<not> m > MInf then MInf else m + log_fn exact_amath (wa + wb)) = attends_lse (ka @ kb) None"
proof -
  let ?A = "softmax_den ka" and ?B = "softmax_den kb"
  consider "ka = []" "kb = []" | "ka = []" "kb \<noteq> []" | "ka \<noteq> []" "kb = []" | "ka \<noteq> []" "kb \<noteq> []" by blast
  then have "(wa * Fin (attends ka None j) + wb * Fin (attends kb None j)) * attn_inv (wa + wb) = Fin (attends (ka @ kb) None j) \<and>
      (if \<not> m > MInf then MInf else m + log_fn exact_amath (wa + wb)) = attends_lse (ka @ kb) None"
  proof cases
    case 1
    then show ?thesis by (simp add: la lb m wa wb attends_lse_def fmax_xreal attends_def attn_inv_def zero_xreal_def)
  next
    case 2
    then show ?thesis using softmax_den_pos [of kb]
      by (simp add: la lb m wa wb attends_lse_def fmax_xreal attends_def attn_inv_def zero_xreal_def one_xreal_def)
  next
    case 3
    then show ?thesis using softmax_den_pos [of ka]
      by (simp add: la lb m wa wb attends_lse_def fmax_xreal attends_def attn_inv_def zero_xreal_def one_xreal_def)
  next
    case 4
    have p: "0 < ?A" "0 < ?B" "0 < ?A + ?B" using softmax_den_pos 4 by (simp_all add: add_pos_pos)
    define E where "E = exp (max (ln ?A) (ln ?B))"
    have E: "0 < E" by (simp add: E_def)
    have v: "m = Fin (max (ln ?A) (ln ?B))" "wa = Fin (?A / E)" "wb = Fin (?B / E)"
      using 4 p by (simp_all add: la lb m wa wb attends_lse_def fmax_xreal exp_diff E_def)
    have w: "wa + wb = Fin ((?A + ?B) / E)" by (simp add: v add_divide_distrib)
    have "0 < (?A + ?B) / E" using p(3) E by simp
    then have inv: "attn_inv (wa + wb) = Fin (E / (?A + ?B))" by (simp add: w attn_inv_def zero_xreal_def one_xreal_def)
    have "(?A / E * (softmax_num ka j / ?A) + ?B / E * (softmax_num kb j / ?B)) * (E / (?A + ?B)) = (softmax_num ka j + softmax_num kb j) / (?A + ?B)"
    proof -
      have "?A / E * (softmax_num ka j / ?A) = softmax_num ka j / E" "?B / E * (softmax_num kb j / ?B) = softmax_num kb j / E" using p by simp_all
      then have "?A / E * (softmax_num ka j / ?A) + ?B / E * (softmax_num kb j / ?B) = (softmax_num ka j + softmax_num kb j) / E" by (simp add: add_divide_distrib)
      then show ?thesis using E by simp
    qed
    moreover have "ln ((?A + ?B) / E) = ln (?A + ?B) - max (ln ?A) (ln ?B)" using p(3) E by (simp add: ln_div E_def)
    ultimately show ?thesis using 4 by (simp add: inv) (simp add: v(1) w, simp add: v attends_None attends_lse_def)
  qed
  then show "(wa * Fin (attends ka None j) + wb * Fin (attends kb None j)) * attn_inv (wa + wb) = Fin (attends (ka @ kb) None j)"
    "(if \<not> m > MInf then MInf else m + log_fn exact_amath (wa + wb)) = attends_lse (ka @ kb) None" by blast+
qed

text \<open>What a partition stores: its result and its log-sum-exp, per row.\<close>

definition partial_result :: "('t \<Rightarrow> xreal) \<Rightarrow> nat \<Rightarrow> nat \<Rightarrow> 't list \<Rightarrow> xreal list \<Rightarrow> (nat \<Rightarrow> akey list) \<Rightarrow> bool" where
  "partial_result ld rows d out lse keys \<longleftrightarrow> length out = rows * d \<and> length lse = rows \<and>
     (\<forall>r<rows. lse ! r = attends_lse (keys r) None \<and> (\<forall>j<d. ld (out ! (r * d + j)) = Fin (attends (keys r) None j)))"

text \<open>Merging the results and log-sum-exps of two partitions of the keys gives the result and the log-sum-exp of attention over all
  of them, empty partitions included.\<close>

theorem merge_attn_exact:
  fixes out :: "'t list"
  assumes a: "partial_result ld rows d out_a lse_a ka" and b: "partial_result ld rows d out_b lse_b kb" and d: "0 < d"
    and sched: "schedule (rows * d) sched" and len: "length out = rows * d" "length lse = rows"
  shows "merge_typed exact_amath ld st out_a lse_a out_b lse_b want_lse d sched (out, lse) =
    Some (map (\<lambda>i. st (Fin (attends (ka (i div d) @ kb (i div d)) None (i mod d)))) [0..<rows * d],
      if want_lse then map (\<lambda>r. attends_lse (ka r @ kb r) None) [0..<rows] else lse)"
proof -
  let ?u = "\<lambda>i. st (Fin (attends (ka (i div d) @ kb (i div d)) None (i mod d)))" and ?v = "\<lambda>r. attends_lse (ka r @ kb r) None"
  let ?item = "merge_item exact_amath ld st out_a lse_a out_b lse_b want_lse d"
  define I where "I = (\<lambda>s :: 't list \<times> xreal list. length (fst s) = rows * d \<and> length (snd s) = rows \<and> (\<not> want_lse \<longrightarrow> snd s = lse))"
  define Q where "Q = (\<lambda>i (s :: 't list \<times> xreal list). fst s ! i = ?u i \<and> (want_lse \<and> i mod d = 0 \<longrightarrow> snd s ! (i div d) = ?v (i div d)))"
  have "\<exists>s. foldM ?item sched (out, lse) = Some s \<and> I s \<and> (\<forall>i<rows * d. Q i s)"
  proof (rule launch_inv [OF sched])
    show "I (out, lse)" using len by (simp add: I_def)
    fix i and s :: "'t list \<times> xreal list" assume i: "i < rows * d" and I: "I s"
    obtain o1 l1 where s: "s = (o1, l1)" by (cases s)
    have r: "i div d < rows" "i mod d < d" using i d by (simp_all add: less_mult_imp_div_less)
    have ab: "lse_a ! (i div d) = attends_lse (ka (i div d)) None" "lse_b ! (i div d) = attends_lse (kb (i div d)) None"
      "ld (out_a ! i) = Fin (attends (ka (i div d)) None (i mod d))" "ld (out_b ! i) = Fin (attends (kb (i div d)) None (i mod d))"
      using a b r unfolding partial_result_def by (metis div_mult_mod_eq)+
    have rds: "rd lse_a (i div d) = Some (lse_a ! (i div d))" "rd lse_b (i div d) = Some (lse_b ! (i div d))" "rd out_a i = Some (out_a ! i)" "rd out_b i = Some (out_b ! i)"
      using a b r i by (simp_all add: partial_result_def)
    note v = merge_values [OF ab(1,2) refl refl refl]
    have run: "?item i s = Some (o1[i := ?u i], if want_lse \<and> i mod d = 0 then l1[i div d := ?v (i div d)] else l1)"
      using I i r by (simp only: merge_item_def Let_def rds Option.bind.bind_lunit ab(3,4) exact_amath_simps v s prod.case)
        (simp add: I_def)
    show "\<exists>s'. ?item i s = Some s' \<and> I s' \<and> Q i s' \<and> (\<forall>j<rows * d. j \<noteq> i \<longrightarrow> Q j s \<longrightarrow> Q j s')"
    proof (intro exI conjI allI impI, rule run)
      show "I (o1[i := ?u i], if want_lse \<and> i mod d = 0 then l1[i div d := ?v (i div d)] else l1)" using I by (auto simp: I_def s)
      show "Q i (o1[i := ?u i], if want_lse \<and> i mod d = 0 then l1[i div d := ?v (i div d)] else l1)" using I i r by (simp add: Q_def I_def s)
      fix j assume j: "j \<noteq> i" "Q j s"
      then show "Q j (o1[i := ?u i], if want_lse \<and> i mod d = 0 then l1[i div d := ?v (i div d)] else l1)"
        using I r by (auto simp: Q_def I_def s nth_list_update)
    qed
  qed
  then obtain o2 l2 where r: "foldM ?item sched (out, lse) = Some (o2, l2)" "I (o2, l2)" "\<forall>i<rows * d. Q i (o2, l2)" by fast
  have "o2 = map ?u [0..<rows * d]" using r(2,3) by (auto simp: I_def Q_def list_eq_iff_nth_eq)
  moreover have "l2 = (if want_lse then map ?v [0..<rows] else lse)"
  proof (cases want_lse)
    case True
    have "l2 ! q = ?v q" if "q < rows" for q
    proof -
      have "q * d < rows * d" using that d by simp
      then have "Q (q * d) (o2, l2)" using r(3) by blast
      then show ?thesis using True d by (simp add: Q_def)
    qed
    then show ?thesis using True r(2) by (auto simp: I_def list_eq_iff_nth_eq)
  qed (use r(2) in \<open>simp add: I_def\<close>)
  ultimately show ?thesis using r(1) by (simp add: merge_typed_def)
qed

theorem paged_prefill_exact_witness:
  "\<exists>out' lse'. prefill_typed exact_amath Fin xval Fin Fin \<lparr>q_heads = 1, kv_heads = 1, head_dim = 1, page_size = 1, max_pages = 1, page_stride = 1\<rparr>
     [1] [0, 0] [3, 5] None [0, 1] [0, 2] None 1 2 (Fin 1) True (-1) (-1) None True [0] ([0], [MInf]) = Some (out', lse') \<and> out' ! 0 = 4 \<and> lse' ! 0 = Fin (ln 2)"
proof -
  let ?g = "\<lparr>q_heads = 1, kv_heads = 1, head_dim = 1, page_size = 1, max_pages = 1, page_stride = 1\<rparr>"
  have k: "packed [0, 2] 1 2" "packed [0, 1] 1 1" by (simp_all add: packed_def)
  have f: "kv_fits ?g None 2 0 (seq_len [0, 2] 0) [0 :: real, 0] [3 :: real, 5]" by (auto simp: kv_fits_def kv_base_def seq_len_def)
  have shape: "prefill_shape ?g 1 1 [1 :: real] [0 :: real, 0] [3, 5] None 2 [0, 1] [0, 2] None"
    using k f by (auto simp: prefill_shape_def)
  have ks: "prefill_keys (\<lambda>x. x) (\<lambda>x. x) (\<lambda>x. x) ?g None 2 [1 :: real] [0 :: real, 0] [3, 5] 1 True (-1) (-1) [0, 1] [0, 2] 0 0 0 =
      [(0, \<lambda>j. [3, 5] ! j), (0, \<lambda>j. [3, 5] ! (1 + j))]"
    by (simp add: prefill_keys_def paged_keys_def kv_base_def cache_key_def pf_sees_def seq_len_def upt_rec Let_def)
  have "schedule (1 * q_heads ?g) [0 :: nat]" by (simp add: schedule_def lessThan_Suc)
  from paged_prefill_exact [OF shape _ this, of "[0]" "[MInf]" None "\<lambda>x. x" xval "\<lambda>x. x" "\<lambda>x. x" 1 True "-1" "-1" True]
  obtain out' lse' where r: "prefill_typed exact_amath Fin xval Fin Fin ?g [1] [0, 0] [3, 5] None [0, 1] [0, 2] None 1 2 (Fin 1) True (-1) (-1) None True [0] ([0], [MInf]) = Some (out', lse')"
     "\<forall>b<1. \<forall>t< seq_len [0, 1] b. \<forall>h<q_heads ?g. let idx = (bos_of [0, 1] b + t) * q_heads ?g + h;
         ks = prefill_keys (\<lambda>x. x) (\<lambda>x. x) (\<lambda>x. x) ?g None 2 [1] [0, 0] [3, 5] 1 True (-1) (-1) [0, 1] [0, 2] b t h in
       (\<forall>j<head_dim ?g. out' ! (idx * head_dim ?g + j) =
         (if prefill_active None b then xval (Fin (attends ks (head_sink None h) j)) else [0] ! (idx * head_dim ?g + j))) \<and>
       lse' ! idx = (if prefill_active None b \<and> True then attends_lse ks (head_sink None h) else [MInf] ! idx)"
    by (auto simp: kMaxD_paged_def)
  have "out' ! 0 = 4 \<and> lse' ! 0 = Fin (ln 2)"
    using r(2) [rule_format, of 0 0 0] by (simp add: seq_len_def bos_of_def prefill_active_def ks [simplified] attends_def attends_lse_def softmax_num_def softmax_den_def)
  then show ?thesis using r(1) by blast
qed

end
