(* ===== verification/Nvfp4Moe.thy ===== *)
theory Nvfp4Moe
  imports Nvfp4 Moe Norms
begin

text \<open>
  The routed NVFP4 mixture of experts (\<open>nvfp4_moe.sycl.cpp\<close>, dispatched by \<open>moe.cpp\<close>).  For every
  (token, choice) pair a work-group computes the hidden activation of the chosen expert in local memory
  and adds its share of the down projection to the output row of the token with atomic adds.  The
  fused kernel does both halves in one group.  The split path stores the gate and up rows of every pair in a
  scratch buffer first and lets several groups, each recomputing the activation, own tiles of the output rows.  The
  squared-ReLU kernels have one up projection instead of gate and up.

  The contents of local memory before a group starts and the order of its sub-groups and work-items are a
  \<open>group_env\<close> for every group.  The atomic adds of a launch are slots (pair, row); a launch runs them in an
  order \<open>ord\<close> that is any permutation of the slots the groups own.  What a group adds in a slot depends on inputs
  and its own local memory only, so a slot step recomputes it.
\<close>

section \<open>Kernels\<close>

definition kSubgroups :: nat where "kSubgroups = 8"
definition kWG_moe :: nat where "kWG_moe = 256"
definition kTargetOutputWorkGroups :: nat where "kTargetOutputWorkGroups = 128"

record 'f moe_weights =
  up_w :: "8 word list"
  up_s :: "8 word list"
  up_g :: "'f list"
  dn_w :: "8 word list"
  dn_s :: "8 word list"
  dn_g :: "'f list"

record 'f group_env =
  sg_order :: "nat list"
  item_order :: "nat list"
  local_a :: "'f list"
  local_b :: "'f list"

record moe_shape =
  n_exp :: nat
  top_k :: nat
  hid :: nat
  inter :: nat

definition silu :: "('f::{plus,uminus,inverse,one}, 'z) gmath_scheme \<Rightarrow> 'f \<Rightarrow> 'f" where
  "silu M v = v / (1 + exp_fn M (- v))"

definition relu2 :: "'f::{times,zero,ord} \<Rightarrow> 'f" where
  "relu2 v = (let rectified = fmax 0 v in rectified * rectified)"

definition hidden_row :: "('t \<Rightarrow> 'f) \<Rightarrow> 't list \<Rightarrow> nat \<Rightarrow> nat \<Rightarrow> nat \<Rightarrow> 'f option" where
  "hidden_row ld hidden K token j = map_option ld (rd hidden (token * K + j))"

definition gate_up_pair :: "('f::{plus,times,zero}, 'z) gmath_scheme \<Rightarrow> (16 word \<Rightarrow> 'f) \<Rightarrow> ('t \<Rightarrow> 'f) \<Rightarrow> 'f moe_weights \<Rightarrow> 't list \<Rightarrow> moe_shape \<Rightarrow> nat \<Rightarrow> nat \<Rightarrow> 'f \<Rightarrow> nat \<Rightarrow> ('f \<times> 'f) option" where
  "gate_up_pair M hv ld W hidden S expert token w13_global row =
     (let K = hid S; I = inter S; ew = expert * (2 * I * (K div 2)); es = expert * (2 * I * (K div 16))
      in nvfp4_row_dot_pair M hv (up_w W) (ew + row * (K div 2)) (ew + (row + I) * (K div 2))
           (up_s W) (es + row * (K div 16)) (es + (row + I) * (K div 16)) w13_global (hidden_row ld hidden K token) K)"

definition up_single :: "('f::{plus,times,zero}, 'z) gmath_scheme \<Rightarrow> (16 word \<Rightarrow> 'f) \<Rightarrow> ('t \<Rightarrow> 'f) \<Rightarrow> 'f moe_weights \<Rightarrow> 't list \<Rightarrow> moe_shape \<Rightarrow> nat \<Rightarrow> nat \<Rightarrow> 'f \<Rightarrow> nat \<Rightarrow> 'f option" where
  "up_single M hv ld W hidden S expert token w1_global row =
     (let K = hid S; I = inter S
      in nvfp4_row_dot M hv (up_w W) (expert * (I * (K div 2)) + row * (K div 2))
           (up_s W) (expert * (I * (K div 16)) + row * (K div 16)) w1_global (hidden_row ld hidden K token) K)"

text \<open>The activation, from rows at \<open>base\<close> of a buffer to local memory.\<close>

definition swiglu_items :: "('f::{plus,times,uminus,inverse,one}, 'z) gmath_scheme \<Rightarrow> nat \<Rightarrow> nat list \<Rightarrow> 'f list \<Rightarrow> nat \<Rightarrow> 'f list \<Rightarrow> 'f list option" where
  "swiglu_items M I items gate_up base activated = foldM (\<lambda>thread. foldM (\<lambda>i activated. do {
     g \<leftarrow> rd gate_up (base + i);
     u \<leftarrow> rd gate_up (base + i + I);
     wr activated i (silu M g * u) }) (strided thread kWG_moe I)) items activated"

definition relu2_items :: "nat \<Rightarrow> nat list \<Rightarrow> 'f::{times,zero,ord} list \<Rightarrow> nat \<Rightarrow> 'f list \<Rightarrow> 'f list option" where
  "relu2_items I items up base activated = foldM (\<lambda>thread. foldM (\<lambda>i activated. do {
     v \<leftarrow> rd up (base + i);
     wr activated i (relu2 v) }) (strided thread kWG_moe I)) items activated"

definition fused_act :: "('f::{plus,times,zero,uminus,inverse,one}, 'z) gmath_scheme \<Rightarrow> (16 word \<Rightarrow> 'f) \<Rightarrow> ('t \<Rightarrow> 'f) \<Rightarrow> 'f moe_weights \<Rightarrow> 't list \<Rightarrow> moe_shape \<Rightarrow> 'f group_env \<Rightarrow> nat \<Rightarrow> nat \<Rightarrow> 'f list option" where
  "fused_act M hv ld W hidden S env expert token = do {
     g \<leftarrow> rd (up_g W) expert;
     let w13_global = g * of_num M 4194304;
     gate_up \<leftarrow> foldM (\<lambda>sg. foldM (\<lambda>row gate_up. do {
       (gate, up) \<leftarrow> gate_up_pair M hv ld W hidden S expert token w13_global row;
       gate_up \<leftarrow> wr gate_up row gate;
       wr gate_up (row + inter S) up }) (strided sg kSubgroups (inter S))) (sg_order env) (local_a env);
     swiglu_items M (inter S) (item_order env) gate_up 0 (local_b env) }"

definition relu2_act :: "('f::{plus,times,zero,ord}, 'z) gmath_scheme \<Rightarrow> (16 word \<Rightarrow> 'f) \<Rightarrow> ('t \<Rightarrow> 'f) \<Rightarrow> 'f moe_weights \<Rightarrow> 't list \<Rightarrow> moe_shape \<Rightarrow> 'f group_env \<Rightarrow> nat \<Rightarrow> nat \<Rightarrow> 'f list option" where
  "relu2_act M hv ld W hidden S env expert token = do {
     g \<leftarrow> rd (up_g W) expert;
     let w1_global = g * of_num M 4194304;
     up \<leftarrow> foldM (\<lambda>sg. foldM (\<lambda>row up. do {
       v \<leftarrow> up_single M hv ld W hidden S expert token w1_global row;
       wr up row v }) (strided sg kSubgroups (inter S))) (sg_order env) (local_a env);
     relu2_items (inter S) (item_order env) up 0 (local_b env) }"

text \<open>One atomic add of the down projection.\<close>

definition moe_add :: "('f::{plus,times,zero,one}, 'z) gmath_scheme \<Rightarrow> (16 word \<Rightarrow> 'f) \<Rightarrow> 'f moe_weights \<Rightarrow> 'f list \<Rightarrow> bool \<Rightarrow> moe_shape \<Rightarrow> nat \<Rightarrow> nat \<Rightarrow> nat \<Rightarrow> 'f list \<Rightarrow> nat \<Rightarrow> 'f list \<Rightarrow> 'f list option" where
  "moe_add M hv W topk_weights mulrw S expert token pair activated row out = do {
     router_weight \<leftarrow> (if mulrw then rd topk_weights pair else Some 1);
     g \<leftarrow> rd (dn_g W) expert;
     let w2_global = g * of_num M 4194304;
     let K = hid S;
     let I = inter S;
     v \<leftarrow> nvfp4_row_dot M hv (dn_w W) (expert * (K * (I div 2)) + row * (I div 2))
       (dn_s W) (expert * (K * (I div 16)) + row * (I div 16)) w2_global (rd activated) I;
     old \<leftarrow> rd out (token * K + row);
     wr out (token * K + row) (old + router_weight * v) }"

text \<open>The slots a launch issues: one group per pair, or one per pair and tile of rows.\<close>

definition fused_slots :: "nat \<Rightarrow> nat \<Rightarrow> (nat \<times> nat) list" where
  "fused_slots pairs K = concat (map (\<lambda>pair. concat (map (\<lambda>sg. map (Pair pair) (strided sg kSubgroups K)) [0..<kSubgroups])) [0..<pairs])"

definition tile_rows :: "nat \<Rightarrow> nat \<Rightarrow> nat \<Rightarrow> nat \<Rightarrow> nat list" where
  "tile_rows R K tile sg = takeWhile (\<lambda>row. row < K) (map (\<lambda>r. tile * (kSubgroups * R) + sg + r * kSubgroups) [0..<R])"

definition output_slots :: "nat \<Rightarrow> nat \<Rightarrow> nat \<Rightarrow> (nat \<times> nat \<times> nat) list" where
  "output_slots R pairs K = concat (map (\<lambda>pair. concat (map (\<lambda>tile. concat (map (\<lambda>sg.
     map (\<lambda>row. (pair, tile, row)) (tile_rows R K tile sg)) [0..<kSubgroups])) [0..<cdiv K (kSubgroups * R)])) [0..<pairs])"

definition output_rows_per_subgroup :: "nat \<Rightarrow> nat \<Rightarrow> nat" where
  "output_rows_per_subgroup pairs K =
     (let base = pairs * cdiv K kSubgroups
      in if kTargetOutputWorkGroups * 16 \<le> base then 16
         else if kTargetOutputWorkGroups * 8 \<le> base then 8
         else if kTargetOutputWorkGroups * 4 \<le> base then 4
         else if kTargetOutputWorkGroups * 2 \<le> base then 2 else 1)"

definition fused_slot :: "('f::{plus,times,zero,uminus,inverse,one}, 'z) gmath_scheme \<Rightarrow> (16 word \<Rightarrow> 'f) \<Rightarrow> ('t \<Rightarrow> 'f) \<Rightarrow> 'f moe_weights \<Rightarrow> 't list \<Rightarrow> int list \<Rightarrow> 'f list \<Rightarrow> bool \<Rightarrow> moe_shape \<Rightarrow> (nat \<Rightarrow> 'f group_env) \<Rightarrow> nat \<times> nat \<Rightarrow> 'f list \<Rightarrow> 'f list option" where
  "fused_slot M hv ld W hidden topk_ids topk_weights mulrw S envs = (\<lambda>(pair, row) out. do {
     let token = pair div top_k S;
     e \<leftarrow> rd topk_ids pair;
     if \<not> valid_id (n_exp S) e then Some out
     else do {
       activated \<leftarrow> fused_act M hv ld W hidden S (envs pair) (nat e) token;
       moe_add M hv W topk_weights mulrw S (nat e) token pair activated row out } })"

definition relu2_slot :: "('f::{plus,times,zero,one,ord}, 'z) gmath_scheme \<Rightarrow> (16 word \<Rightarrow> 'f) \<Rightarrow> ('t \<Rightarrow> 'f) \<Rightarrow> 'f moe_weights \<Rightarrow> 't list \<Rightarrow> int list \<Rightarrow> 'f list \<Rightarrow> bool \<Rightarrow> moe_shape \<Rightarrow> (nat \<Rightarrow> 'f group_env) \<Rightarrow> nat \<times> nat \<Rightarrow> 'f list \<Rightarrow> 'f list option" where
  "relu2_slot M hv ld W hidden topk_ids topk_weights mulrw S envs = (\<lambda>(pair, row) out. do {
     let token = pair div top_k S;
     e \<leftarrow> rd topk_ids pair;
     if \<not> valid_id (n_exp S) e then Some out
     else do {
       activated \<leftarrow> relu2_act M hv ld W hidden S (envs pair) (nat e) token;
       moe_add M hv W topk_weights mulrw S (nat e) token pair activated row out } })"

text \<open>The first half of the split path: sub-group \<open>g\<close> of the launch owns one row of one pair.\<close>

definition gate_up_typed :: "('f::{plus,times,zero}, 'z) gmath_scheme \<Rightarrow> (16 word \<Rightarrow> 'f) \<Rightarrow> ('t \<Rightarrow> 'f) \<Rightarrow> 'f moe_weights \<Rightarrow> 't list \<Rightarrow> int list \<Rightarrow> moe_shape \<Rightarrow> nat list \<Rightarrow> 'f list \<Rightarrow> 'f list option" where
  "gate_up_typed M hv ld W hidden topk_ids S sched scratch =
     (let I = inter S; row_tiles = cdiv I kSubgroups in foldM (\<lambda>g scratch. do {
        let pair = g div (row_tiles * kSubgroups);
        let row = g mod (row_tiles * kSubgroups);
        e \<leftarrow> rd topk_ids pair;
        if \<not> valid_id (n_exp S) e then Some scratch
        else if I \<le> row then Some scratch
        else do {
          gs \<leftarrow> rd (up_g W) (nat e);
          (gate, up) \<leftarrow> gate_up_pair M hv ld W hidden S (nat e) (pair div top_k S) (gs * of_num M 4194304) row;
          scratch \<leftarrow> wr scratch (pair * (2 * I) + row) gate;
          wr scratch (pair * (2 * I) + row + I) up } }) sched scratch)"

definition relu2_up_typed :: "('f::{plus,times,zero}, 'z) gmath_scheme \<Rightarrow> (16 word \<Rightarrow> 'f) \<Rightarrow> ('t \<Rightarrow> 'f) \<Rightarrow> 'f moe_weights \<Rightarrow> 't list \<Rightarrow> int list \<Rightarrow> moe_shape \<Rightarrow> nat list \<Rightarrow> 'f list \<Rightarrow> 'f list option" where
  "relu2_up_typed M hv ld W hidden topk_ids S sched scratch =
     (let I = inter S; row_tiles = cdiv I kSubgroups in foldM (\<lambda>g scratch. do {
        let pair = g div (row_tiles * kSubgroups);
        let row = g mod (row_tiles * kSubgroups);
        e \<leftarrow> rd topk_ids pair;
        if \<not> valid_id (n_exp S) e then Some scratch
        else if I \<le> row then Some scratch
        else do {
          gs \<leftarrow> rd (up_g W) (nat e);
          v \<leftarrow> up_single M hv ld W hidden S (nat e) (pair div top_k S) (gs * of_num M 4194304) row;
          wr scratch (pair * I + row) v } }) sched scratch)"

text \<open>The second half: a slot of group (pair, tile).\<close>

definition output_slot :: "('f::{plus,times,zero,uminus,inverse,one}, 'z) gmath_scheme \<Rightarrow> (16 word \<Rightarrow> 'f) \<Rightarrow> 'f moe_weights \<Rightarrow> 'f list \<Rightarrow> int list \<Rightarrow> 'f list \<Rightarrow> bool \<Rightarrow> moe_shape \<Rightarrow> (nat \<Rightarrow> nat \<Rightarrow> 'f group_env) \<Rightarrow> nat \<times> nat \<times> nat \<Rightarrow> 'f list \<Rightarrow> 'f list option" where
  "output_slot M hv W scratch topk_ids topk_weights mulrw S envs = (\<lambda>(pair, tile, row) out. do {
     e \<leftarrow> rd topk_ids pair;
     if \<not> valid_id (n_exp S) e then Some out
     else do {
       activated \<leftarrow> swiglu_items M (inter S) (item_order (envs pair tile)) scratch (pair * (2 * inter S)) (local_b (envs pair tile));
       moe_add M hv W topk_weights mulrw S (nat e) (pair div top_k S) pair activated row out } })"

definition relu2_output_slot :: "('f::{plus,times,zero,one,ord}, 'z) gmath_scheme \<Rightarrow> (16 word \<Rightarrow> 'f) \<Rightarrow> 'f moe_weights \<Rightarrow> 'f list \<Rightarrow> int list \<Rightarrow> 'f list \<Rightarrow> bool \<Rightarrow> moe_shape \<Rightarrow> (nat \<Rightarrow> nat \<Rightarrow> 'f group_env) \<Rightarrow> nat \<times> nat \<times> nat \<Rightarrow> 'f list \<Rightarrow> 'f list option" where
  "relu2_output_slot M hv W scratch topk_ids topk_weights mulrw S envs = (\<lambda>(pair, tile, row) out. do {
     e \<leftarrow> rd topk_ids pair;
     if \<not> valid_id (n_exp S) e then Some out
     else do {
       activated \<leftarrow> relu2_items (inter S) (item_order (envs pair tile)) scratch (pair * inter S) (local_b (envs pair tile));
       moe_add M hv W topk_weights mulrw S (nat e) (pair div top_k S) pair activated row out } })"

text \<open>The entry points: the output is cleared, then the launches run.\<close>

definition memset_zero :: "nat \<Rightarrow> 'f::zero list \<Rightarrow> 'f list option" where
  "memset_zero n out = (if n \<le> length out then Some (replicate n 0 @ drop n out) else None)"

definition nvfp4_moe_fused :: "('f::{plus,times,zero,uminus,inverse,one}, 'z) gmath_scheme \<Rightarrow> (16 word \<Rightarrow> 'f) \<Rightarrow> ('t \<Rightarrow> 'f) \<Rightarrow> 'f moe_weights \<Rightarrow> 't list \<Rightarrow> int list \<Rightarrow> 'f list \<Rightarrow> bool \<Rightarrow> nat \<Rightarrow> moe_shape \<Rightarrow> (nat \<Rightarrow> 'f group_env) \<Rightarrow> (nat \<times> nat) list \<Rightarrow> 'f list \<Rightarrow> 'f list option" where
  "nvfp4_moe_fused M hv ld W hidden topk_ids topk_weights mulrw n_tok S envs ord out = do {
     out \<leftarrow> memset_zero (n_tok * hid S) out;
     foldM (fused_slot M hv ld W hidden topk_ids topk_weights mulrw S envs) ord out }"

definition nvfp4_moe_split :: "('f::{plus,times,zero,uminus,inverse,one}, 'z) gmath_scheme \<Rightarrow> (16 word \<Rightarrow> 'f) \<Rightarrow> ('t \<Rightarrow> 'f) \<Rightarrow> 'f moe_weights \<Rightarrow> 't list \<Rightarrow> int list \<Rightarrow> 'f list \<Rightarrow> bool \<Rightarrow> nat \<Rightarrow> moe_shape \<Rightarrow> (nat \<Rightarrow> nat \<Rightarrow> 'f group_env) \<Rightarrow> nat list \<Rightarrow> (nat \<times> nat \<times> nat) list \<Rightarrow> 'f list \<Rightarrow> 'f list \<Rightarrow> 'f list option" where
  "nvfp4_moe_split M hv ld W hidden topk_ids topk_weights mulrw n_tok S envs sched ord scratch out = do {
     out \<leftarrow> memset_zero (n_tok * hid S) out;
     scratch \<leftarrow> gate_up_typed M hv ld W hidden topk_ids S sched scratch;
     foldM (output_slot M hv W scratch topk_ids topk_weights mulrw S envs) ord out }"

definition nvfp4_moe_relu2_fused :: "('f::{plus,times,zero,one,ord}, 'z) gmath_scheme \<Rightarrow> (16 word \<Rightarrow> 'f) \<Rightarrow> ('t \<Rightarrow> 'f) \<Rightarrow> 'f moe_weights \<Rightarrow> 't list \<Rightarrow> int list \<Rightarrow> 'f list \<Rightarrow> bool \<Rightarrow> nat \<Rightarrow> moe_shape \<Rightarrow> (nat \<Rightarrow> 'f group_env) \<Rightarrow> (nat \<times> nat) list \<Rightarrow> 'f list \<Rightarrow> 'f list option" where
  "nvfp4_moe_relu2_fused M hv ld W hidden topk_ids topk_weights mulrw n_tok S envs ord out = do {
     out \<leftarrow> memset_zero (n_tok * hid S) out;
     foldM (relu2_slot M hv ld W hidden topk_ids topk_weights mulrw S envs) ord out }"

definition nvfp4_moe_relu2_split :: "('f::{plus,times,zero,one,ord}, 'z) gmath_scheme \<Rightarrow> (16 word \<Rightarrow> 'f) \<Rightarrow> ('t \<Rightarrow> 'f) \<Rightarrow> 'f moe_weights \<Rightarrow> 't list \<Rightarrow> int list \<Rightarrow> 'f list \<Rightarrow> bool \<Rightarrow> nat \<Rightarrow> moe_shape \<Rightarrow> (nat \<Rightarrow> nat \<Rightarrow> 'f group_env) \<Rightarrow> nat list \<Rightarrow> (nat \<times> nat \<times> nat) list \<Rightarrow> 'f list \<Rightarrow> 'f list \<Rightarrow> 'f list option" where
  "nvfp4_moe_relu2_split M hv ld W hidden topk_ids topk_weights mulrw n_tok S envs sched ord scratch out = do {
     out \<leftarrow> memset_zero (n_tok * hid S) out;
     scratch \<leftarrow> relu2_up_typed M hv ld W hidden topk_ids S sched scratch;
     foldM (relu2_output_slot M hv W scratch topk_ids topk_weights mulrw S envs) ord out }"

text \<open>The typed entry points.\<close>

definition nvfp4_moe_fused_sycl :: "f32 gmath \<Rightarrow> f32 moe_weights \<Rightarrow> 32 word list \<Rightarrow> int list \<Rightarrow> f32 list \<Rightarrow> bool \<Rightarrow> nat \<Rightarrow> moe_shape \<Rightarrow> DType \<Rightarrow> (nat \<Rightarrow> f32 group_env) \<Rightarrow> (nat \<times> nat) list \<Rightarrow> f32 list \<Rightarrow> f32 list option" where
  "nvfp4_moe_fused_sycl M W hidden topk_ids topk_weights mulrw n_tok S act_dt = nvfp4_moe_fused M f16_bits_to_f32 (elem_ld act_dt) W hidden topk_ids topk_weights mulrw n_tok S"

definition nvfp4_moe_split_sycl :: "f32 gmath \<Rightarrow> f32 moe_weights \<Rightarrow> 32 word list \<Rightarrow> int list \<Rightarrow> f32 list \<Rightarrow> bool \<Rightarrow> nat \<Rightarrow> moe_shape \<Rightarrow> DType \<Rightarrow> (nat \<Rightarrow> nat \<Rightarrow> f32 group_env) \<Rightarrow> nat list \<Rightarrow> (nat \<times> nat \<times> nat) list \<Rightarrow> f32 list \<Rightarrow> f32 list \<Rightarrow> f32 list option" where
  "nvfp4_moe_split_sycl M W hidden topk_ids topk_weights mulrw n_tok S act_dt = nvfp4_moe_split M f16_bits_to_f32 (elem_ld act_dt) W hidden topk_ids topk_weights mulrw n_tok S"

definition nvfp4_moe_relu2_fused_sycl :: "f32 gmath \<Rightarrow> f32 moe_weights \<Rightarrow> 32 word list \<Rightarrow> int list \<Rightarrow> f32 list \<Rightarrow> bool \<Rightarrow> nat \<Rightarrow> moe_shape \<Rightarrow> DType \<Rightarrow> (nat \<Rightarrow> f32 group_env) \<Rightarrow> (nat \<times> nat) list \<Rightarrow> f32 list \<Rightarrow> f32 list option" where
  "nvfp4_moe_relu2_fused_sycl M W hidden topk_ids topk_weights mulrw n_tok S act_dt = nvfp4_moe_relu2_fused M f16_bits_to_f32 (elem_ld act_dt) W hidden topk_ids topk_weights mulrw n_tok S"

definition nvfp4_moe_relu2_split_sycl :: "f32 gmath \<Rightarrow> f32 moe_weights \<Rightarrow> 32 word list \<Rightarrow> int list \<Rightarrow> f32 list \<Rightarrow> bool \<Rightarrow> nat \<Rightarrow> moe_shape \<Rightarrow> DType \<Rightarrow> (nat \<Rightarrow> nat \<Rightarrow> f32 group_env) \<Rightarrow> nat list \<Rightarrow> (nat \<times> nat \<times> nat) list \<Rightarrow> f32 list \<Rightarrow> f32 list \<Rightarrow> f32 list option" where
  "nvfp4_moe_relu2_split_sycl M W hidden topk_ids topk_weights mulrw n_tok S act_dt = nvfp4_moe_relu2_split M f16_bits_to_f32 (elem_ld act_dt) W hidden topk_ids topk_weights mulrw n_tok S"

section \<open>Definedness\<close>

lemma foldM_defined: "(\<And>x s. x \<in> set xs \<Longrightarrow> \<exists>s'. f x s = Some s') \<Longrightarrow> \<exists>s'. foldM f xs s = Some s'"
proof (induction xs arbitrary: s)
  case (Cons x xs)
  then obtain s' where "f x s = Some s'" by (meson list.set_intros(1))
  then show ?case using Cons by simp
qed simp

lemma those_defined: "(\<And>x. x \<in> set xs \<Longrightarrow> \<exists>y. f x = Some y) \<Longrightarrow> \<exists>ys. those (map f xs) = Some ys"
proof -
  assume "\<And>x. x \<in> set xs \<Longrightarrow> \<exists>y. f x = Some y"
  then have "\<And>x. x \<in> set xs \<Longrightarrow> f x = Some (the (f x))" by force
  then show ?thesis using those_map_Some [of xs f "\<lambda>x. the (f x)"] by blast
qed

lemma row_word_defined:
  assumes "w0 + chunk * 16 + wi * 4 + 4 \<le> length weight" "\<And>k. k < 8 \<Longrightarrow> \<exists>v. input (chunk * 32 + wi * 8 + k) = Some v"
  shows "\<exists>v. row_word hv weight w0 input chunk wi = Some v"
proof -
  obtain word where word: "rd32 weight (w0 + chunk * 16 + wi * 4) = Some word" using rd32_Some assms(1) by blast
  have "\<exists>s. foldM (\<lambda>pair (low, high). do {
       let decoded = decode_e2m1_pair hv (drop_bit (4 * pair) word);
       x_low \<leftarrow> input (chunk * 32 + wi * 8 + pair);
       x_high \<leftarrow> input (chunk * 32 + wi * 8 + (pair + 4));
       Some (low + fst decoded * x_low, high + snd decoded * x_high) }) [0..<4] (0, 0) = Some s"
  proof (rule foldM_defined)
    fix p s assume "p \<in> set [0..<4 :: nat]"
    then have "p < 8" "p + 4 < 8" by auto
    then obtain a b where "input (chunk * 32 + wi * 8 + p) = Some a" "input (chunk * 32 + wi * 8 + (p + 4)) = Some b" using assms(2) by meson
    then show "\<exists>s'. (case s of (low, high) \<Rightarrow> do {
       let decoded = decode_e2m1_pair hv (drop_bit (4 * p) word);
       x_low \<leftarrow> input (chunk * 32 + wi * 8 + p);
       x_high \<leftarrow> input (chunk * 32 + wi * 8 + (p + 4));
       Some (low + fst decoded * x_low, high + snd decoded * x_high) }) = Some s'" by (cases s) (simp add: Let_def)
  qed
  then show ?thesis unfolding row_word_def word by auto
qed

lemma row_dot_defined:
  assumes "w0 + K div 32 * 16 \<le> length weight" "s0 + K div 32 * 2 \<le> length scales" "\<And>j. j < K \<Longrightarrow> \<exists>v. input j = Some v"
  shows "\<exists>v. nvfp4_row_dot M hv weight w0 scales s0 global input K = Some v"
proof -
  have "\<exists>v. row_lane hv weight w0 scales s0 global input K lane = Some v" for lane
    unfolding row_lane_def
  proof (rule foldM_defined)
    fix c partial assume "c \<in> set (strided lane kSG_moe (K div 32))"
    then have c: "c < K div 32" using strided_ge by blast
    then have cs: "s0 + 2 * c < length scales" "s0 + (2 * c + 1) < length scales" and c16: "c * 16 + 16 \<le> K div 32 * 16" and cK: "c * 32 + 32 \<le> K"
      using assms(2) by linarith+
    have "\<exists>ws. those (map (row_word hv weight w0 input c) [0..<4]) = Some ws"
      by (rule those_defined, rule row_word_defined) (use assms(1,3) c16 cK in auto)
    then obtain ws where "those (map (row_word hv weight w0 input c) [0..<4]) = Some ws" by blast
    then show "\<exists>s'. do {
        b0 \<leftarrow> rd scales (s0 + 2 * c);
        b1 \<leftarrow> rd scales (s0 + (2 * c + 1));
        let scale0 = decode_e4m3_raw hv b0 * global;
        let scale1 = decode_e4m3_raw hv b1 * global;
        words \<leftarrow> those (map (row_word hv weight w0 input c) [0..<4]);
        Some (partial + ((words ! 0 + words ! 1) * scale0 + (words ! 2 + words ! 3) * scale1)) } = Some s'"
      using cs by (simp add: Let_def)
  qed
  then obtain ps where "those (map (row_lane hv weight w0 scales s0 global input K) [0..<kSG_moe]) = Some ps" using those_defined by metis
  then show ?thesis by (simp add: nvfp4_row_dot_def)
qed

section \<open>The activation of a pair\<close>

lemma swiglu_items_ok:
  assumes "schedule kWG_moe items" "base + 2 * I \<le> length gate_up" "length activated = I"
  shows "swiglu_items M I items gate_up base activated = Some (map (\<lambda>i. silu M (gate_up ! (base + i)) * gate_up ! (base + i + I)) [0..<I])"
proof -
  let ?v = "\<lambda>i. do { g \<leftarrow> rd gate_up (base + i); u \<leftarrow> rd gate_up (base + i + I); Some (silu M g * u) }"
  let ?u = "\<lambda>i. silu M (gate_up ! (base + i)) * gate_up ! (base + i + I)"
  have "\<exists>out'. row_store 1 kWG_moe I 0 ?v items activated = Some out' \<and> writes {0..<0 + I} (\<lambda>a. ?u (a - 0)) activated out'"
    by (rule row_store_writes [OF assms(1)]) (use assms(2,3) in \<open>auto simp: kWG_moe_def\<close>)
  moreover have "row_store 1 kWG_moe I 0 ?v items activated = swiglu_items M I items gate_up base activated"
    by (simp add: row_store_def swiglu_items_def lane_indices_1 [simplified])
  moreover have "{0..<0 + I} = {..<I}" by auto
  ultimately show ?thesis using writes_map_upt [of I ?u activated] assms(3) by (metis (no_types, lifting) diff_zero writes_cong)
qed

lemma relu2_items_ok:
  assumes "schedule kWG_moe items" "base + I \<le> length up" "length activated = I"
  shows "relu2_items I items up base activated = Some (map (\<lambda>i. relu2 (up ! (base + i))) [0..<I])"
proof -
  let ?v = "\<lambda>i. do { v \<leftarrow> rd up (base + i); Some (relu2 v) }"
  have "\<exists>out'. row_store 1 kWG_moe I 0 ?v items activated = Some out' \<and> writes {0..<0 + I} (\<lambda>a. relu2 (up ! (base + (a - 0)))) activated out'"
    by (rule row_store_writes [OF assms(1)]) (use assms(2,3) in \<open>auto simp: kWG_moe_def\<close>)
  moreover have "row_store 1 kWG_moe I 0 ?v items activated = relu2_items I items up base activated"
    by (simp add: row_store_def relu2_items_def lane_indices_1 [simplified])
  moreover have "{0..<0 + I} = {..<I}" by auto
  ultimately show ?thesis using writes_map_upt [of I "\<lambda>i. relu2 (up ! (base + i))" activated] assms(3) by (metis (no_types, lifting) diff_zero writes_cong)
qed

definition env_ok :: "nat \<Rightarrow> nat \<Rightarrow> 'f group_env \<Rightarrow> bool" where
  "env_ok a b env \<longleftrightarrow> schedule kSubgroups (sg_order env) \<and> schedule kWG_moe (item_order env) \<and> length (local_a env) = a \<and> length (local_b env) = b"

lemma sg_rows:
  assumes "schedule kSubgroups sgs"
  shows "distinct (concat (map (\<lambda>sg. strided sg kSubgroups I) sgs))" "set (concat (map (\<lambda>sg. strided sg kSubgroups I) sgs)) = {..<I}"
proof -
  have e: "lane_indices 1 kSubgroups I = (\<lambda>sg. strided sg kSubgroups I)" by (rule ext) (rule lane_indices_1)
  show "distinct (concat (map (\<lambda>sg. strided sg kSubgroups I) sgs))" "set (concat (map (\<lambda>sg. strided sg kSubgroups I) sgs)) = {..<I}"
    using lane_indices_distinct [OF assms, of 1 I] unfolding e by (simp_all only: kSubgroups_def zero_less_numeral zero_less_one)
qed

lemma fused_act_ok:
  assumes env: "env_ok (2 * inter S) (inter S) env" and g: "rd (up_g W) e = Some g"
    and dp: "\<And>row. row < inter S \<Longrightarrow> gate_up_pair M hv ld W hidden S e token (g * of_num M 4194304) row = Some (dp row)"
  shows "fused_act M hv ld W hidden S env e token = Some (map (\<lambda>i. silu M (fst (dp i)) * snd (dp i)) [0..<inter S])"
proof -
  let ?I = "inter S" and ?rows = "concat (map (\<lambda>sg. strided sg kSubgroups (inter S)) (sg_order env))"
  let ?f = "\<lambda>row gate_up. do {
       (gate, up) \<leftarrow> gate_up_pair M hv ld W hidden S e token (g * of_num M 4194304) row;
       gate_up \<leftarrow> wr gate_up row gate;
       wr gate_up (row + inter S) up }"
  let ?P = "\<lambda>D m. length m = 2 * ?I \<and> (\<forall>row\<in>D. row < ?I \<longrightarrow> m ! row = fst (dp row) \<and> m ! (row + ?I) = snd (dp row))"
  note rows = sg_rows [of "sg_order env" ?I]
  have sg: "schedule kSubgroups (sg_order env)" and it: "schedule kWG_moe (item_order env)" and l: "length (local_a env) = 2 * ?I" "length (local_b env) = ?I"
    using env by (auto simp: env_ok_def)
  have "\<exists>m. foldM ?f ?rows (local_a env) = Some m \<and> ?P ({} \<union> set ?rows) m"
  proof (rule foldM_distinct [OF rows(1) [OF sg], where P = ?P])
    fix D row m assume r: "row \<in> set ?rows" "row \<notin> D" and P: "?P D m"
    have row: "row < ?I" using r(1) rows(2) [OF sg] by blast
    have "?f row m = Some (m[row := fst (dp row), row + ?I := snd (dp row)])" using row P dp [OF row] by (cases "dp row") simp
    moreover have "?P (insert row D) (m[row := fst (dp row), row + ?I := snd (dp row)])"
      using P r(2) row by (auto simp: nth_list_update)
    ultimately show "\<exists>m'. ?f row m = Some m' \<and> ?P (insert row D) m'" by blast
  qed (use l in auto)
  then obtain m where m: "foldM ?f ?rows (local_a env) = Some m" "length m = 2 * ?I"
      "\<And>row. row < ?I \<Longrightarrow> m ! row = fst (dp row) \<and> m ! (row + ?I) = snd (dp row)"
    unfolding rows(2) [OF sg] by auto
  have "foldM (\<lambda>sg. foldM ?f (strided sg kSubgroups ?I)) (sg_order env) (local_a env) = Some m"
    using m(1) by (simp add: foldM_concat foldM_map)
  then show ?thesis unfolding fused_act_def g
    using swiglu_items_ok [OF it, of 0 ?I m "local_b env" M] m(2,3) l(2) by (simp add: Let_def)
qed

lemma relu2_act_ok:
  assumes env: "env_ok (inter S) (inter S) env" and g: "rd (up_g W) e = Some g"
    and d: "\<And>row. row < inter S \<Longrightarrow> up_single M hv ld W hidden S e token (g * of_num M 4194304) row = Some (dp row)"
  shows "relu2_act M hv ld W hidden S env e token = Some (map (\<lambda>i. relu2 (dp i)) [0..<inter S])"
proof -
  let ?I = "inter S" and ?rows = "concat (map (\<lambda>sg. strided sg kSubgroups (inter S)) (sg_order env))"
  let ?f = "\<lambda>row up. do {
       v \<leftarrow> up_single M hv ld W hidden S e token (g * of_num M 4194304) row;
       wr up row v }"
  let ?P = "\<lambda>D m. length m = ?I \<and> (\<forall>row\<in>D. row < ?I \<longrightarrow> m ! row = dp row)"
  note rows = sg_rows [of "sg_order env" ?I]
  have sg: "schedule kSubgroups (sg_order env)" and it: "schedule kWG_moe (item_order env)" and l: "length (local_a env) = ?I" "length (local_b env) = ?I"
    using env by (auto simp: env_ok_def)
  have "\<exists>m. foldM ?f ?rows (local_a env) = Some m \<and> ?P ({} \<union> set ?rows) m"
  proof (rule foldM_distinct [OF rows(1) [OF sg], where P = ?P])
    fix D row m assume r: "row \<in> set ?rows" "row \<notin> D" and P: "?P D m"
    have row: "row < ?I" using r(1) rows(2) [OF sg] by blast
    have "?f row m = Some (m[row := dp row])" using row P d [OF row] by simp
    moreover have "?P (insert row D) (m[row := dp row])" using P row by (auto simp: nth_list_update)
    ultimately show "\<exists>m'. ?f row m = Some m' \<and> ?P (insert row D) m'" by blast
  qed (use l in auto)
  then obtain m where m: "foldM ?f ?rows (local_a env) = Some m" "length m = ?I" "\<And>row. row < ?I \<Longrightarrow> m ! row = dp row"
    unfolding rows(2) [OF sg] by auto
  have "foldM (\<lambda>sg. foldM ?f (strided sg kSubgroups ?I)) (sg_order env) (local_a env) = Some m"
    using m(1) by (simp add: foldM_concat foldM_map)
  then show ?thesis unfolding relu2_act_def g
    using relu2_items_ok [OF it, of 0 ?I m "local_b env"] m(2,3) l(2) by (simp add: Let_def)
qed

section \<open>The first half of the split path\<close>

lemma tile_div_mod:
  fixes n :: nat
  assumes "g < pairs * n"
  shows "g div n < pairs" "g mod n < n"
  using assms by (simp_all add: less_mult_imp_div_less) (metis gr_implies_not0 mod_less_divisor mult_0_right not_gr_zero)

lemma pair_div_mod: "r < n \<Longrightarrow> (p * n + r) div n = p" "r < n \<Longrightarrow> (p * n + r) mod n = r" for n :: nat
  by simp_all

lemma pair_cells:
  assumes "p * w + r = p' * w + r'" "r < w" "r' < (w :: nat)"
  shows "p = p' \<and> r = r'"
  using row_col_inj [of r w r' p p'] assms by simp

lemma gate_up_typed_ok:
  fixes scratch :: "'f::{plus,times,zero} list"
  assumes sched: "schedule (pairs * (cdiv (inter S) kSubgroups * kSubgroups)) sched" and len: "length scratch = pairs * (2 * inter S)" "length ids = pairs"
    and g: "\<And>p. p < pairs \<Longrightarrow> valid_id (n_exp S) (ids ! p) \<Longrightarrow> rd (up_g W) (nat (ids ! p)) = Some (g p)"
    and dp: "\<And>p row. p < pairs \<Longrightarrow> valid_id (n_exp S) (ids ! p) \<Longrightarrow> row < inter S \<Longrightarrow>
      gate_up_pair M hv ld W hidden S (nat (ids ! p)) (p div top_k S) (g p * of_num M 4194304) row = Some (dp p row)"
  shows "\<exists>scratch'. gate_up_typed M hv ld W hidden ids S sched scratch = Some scratch' \<and> length scratch' = length scratch \<and>
    (\<forall>p<pairs. valid_id (n_exp S) (ids ! p) \<longrightarrow> (\<forall>row<inter S. scratch' ! (p * (2 * inter S) + row) = fst (dp p row) \<and>
      scratch' ! (p * (2 * inter S) + row + inter S) = snd (dp p row)))"
proof -
  let ?I = "inter S" and ?n = "cdiv (inter S) kSubgroups * kSubgroups"
  let ?live = "\<lambda>g. valid_id (n_exp S) (ids ! (g div ?n)) \<and> g mod ?n < ?I"
  let ?Q = "\<lambda>g m. ?live g \<longrightarrow> m ! (g div ?n * (2 * ?I) + g mod ?n) = fst (dp (g div ?n) (g mod ?n)) \<and>
    m ! (g div ?n * (2 * ?I) + (g mod ?n + ?I)) = snd (dp (g div ?n) (g mod ?n))"
  have nI: "?I \<le> ?n" by (rule cdiv_upper) (simp add: kSubgroups_def)
  have "\<exists>m. gate_up_typed M hv ld W hidden ids S sched scratch = Some m \<and> length m = length scratch \<and> (\<forall>g<pairs * ?n. ?Q g m)"
    unfolding gate_up_typed_def Let_def
  proof (rule launch_inv [OF sched])
    fix i and m :: "'f list" assume i: "i < pairs * ?n" and m: "length m = length scratch"
    let ?p = "i div ?n" and ?r = "i mod ?n"
    have p: "?p < pairs" "rd ids ?p = Some (ids ! ?p)" using tile_div_mod [OF i] len by simp_all
    show "\<exists>m'. do {
        e \<leftarrow> rd ids ?p;
        if \<not> valid_id (n_exp S) e then Some m
        else if ?I \<le> ?r then Some m
        else do {
          gs \<leftarrow> rd (up_g W) (nat e);
          (gate, up) \<leftarrow> gate_up_pair M hv ld W hidden S (nat e) (?p div top_k S) (gs * of_num M 4194304) ?r;
          m \<leftarrow> wr m (?p * (2 * ?I) + ?r) gate;
          wr m (?p * (2 * ?I) + ?r + ?I) up } } = Some m' \<and> length m' = length scratch \<and> ?Q i m' \<and>
        (\<forall>j<pairs * ?n. j \<noteq> i \<longrightarrow> ?Q j m \<longrightarrow> ?Q j m')"
    proof (cases "?live i")
      case False
      then show ?thesis using p m by auto
    next
      case True
      obtain a b where ab: "dp ?p ?r = (a, b)" by (cases "dp ?p ?r")
      have ws: "?p * (2 * ?I) + ?r < length m" "?p * (2 * ?I) + (?r + ?I) < length m"
        using div_mult_add_lt [OF p(1), of "?r" "2 * ?I"] div_mult_add_lt [OF p(1), of "?r + ?I" "2 * ?I"] True m len(1) by simp_all
      let ?m = "m[?p * (2 * ?I) + ?r := a, ?p * (2 * ?I) + (?r + ?I) := b]"
      have "?Q j ?m" if "j < pairs * ?n" "j \<noteq> i" "?Q j m" for j
      proof
        assume lj: "?live j"
        have ne: "j div ?n \<noteq> ?p \<or> j mod ?n \<noteq> ?r" using that(2) by (metis div_mult_mod_eq)
        have apart: "j div ?n * (2 * ?I) + x \<noteq> ?p * (2 * ?I) + y" if "(j div ?n, x) \<noteq> (?p, y)" "x < 2 * ?I" "y < 2 * ?I" for x y
          using pair_cells [of "j div ?n" "2 * ?I" x ?p y] that by blast
        have "j div ?n * (2 * ?I) + j mod ?n \<noteq> ?p * (2 * ?I) + ?r" "j div ?n * (2 * ?I) + j mod ?n \<noteq> ?p * (2 * ?I) + (?r + ?I)"
            "j div ?n * (2 * ?I) + (j mod ?n + ?I) \<noteq> ?p * (2 * ?I) + ?r" "j div ?n * (2 * ?I) + (j mod ?n + ?I) \<noteq> ?p * (2 * ?I) + (?r + ?I)"
          by (rule apart; use ne lj True in auto)+
        then show "?m ! (j div ?n * (2 * ?I) + j mod ?n) = fst (dp (j div ?n) (j mod ?n)) \<and>
            ?m ! (j div ?n * (2 * ?I) + (j mod ?n + ?I)) = snd (dp (j div ?n) (j mod ?n))"
          using that(3) lj ne True by (simp add: nth_list_update_neq)
      qed
      moreover have "?Q i ?m" using ws ab True by (simp add: nth_list_update)
      ultimately show ?thesis
        using p m True g [OF p(1)] dp [OF p(1)] ab ws by (simp add: Let_def add.assoc)
    qed
  qed simp
  then obtain m where m: "gate_up_typed M hv ld W hidden ids S sched scratch = Some m" "length m = length scratch" "\<And>g. g < pairs * ?n \<Longrightarrow> ?Q g m" by blast
  have "m ! (p * (2 * ?I) + row) = fst (dp p row) \<and> m ! (p * (2 * ?I) + row + ?I) = snd (dp p row)"
    if "p < pairs" "valid_id (n_exp S) (ids ! p)" "row < ?I" for p row
  proof -
    have r: "row < ?n" using that(3) nI by linarith
    have "p * ?n + row < pairs * ?n" by (rule div_mult_add_lt [OF that(1) r])
    from m(3) [OF this] show ?thesis unfolding pair_div_mod [OF r] using that by (simp add: add.assoc)
  qed
  then show ?thesis using m(1,2) by blast
qed

lemma relu2_up_typed_ok:
  fixes scratch :: "'f::{plus,times,zero} list"
  assumes sched: "schedule (pairs * (cdiv (inter S) kSubgroups * kSubgroups)) sched" and len: "length scratch = pairs * inter S" "length ids = pairs"
    and g: "\<And>p. p < pairs \<Longrightarrow> valid_id (n_exp S) (ids ! p) \<Longrightarrow> rd (up_g W) (nat (ids ! p)) = Some (g p)"
    and dp: "\<And>p row. p < pairs \<Longrightarrow> valid_id (n_exp S) (ids ! p) \<Longrightarrow> row < inter S \<Longrightarrow>
      up_single M hv ld W hidden S (nat (ids ! p)) (p div top_k S) (g p * of_num M 4194304) row = Some (dp p row)"
  shows "\<exists>scratch'. relu2_up_typed M hv ld W hidden ids S sched scratch = Some scratch' \<and> length scratch' = length scratch \<and>
    (\<forall>p<pairs. valid_id (n_exp S) (ids ! p) \<longrightarrow> (\<forall>row<inter S. scratch' ! (p * inter S + row) = dp p row))"
proof -
  let ?I = "inter S" and ?n = "cdiv (inter S) kSubgroups * kSubgroups"
  let ?live = "\<lambda>g. valid_id (n_exp S) (ids ! (g div ?n)) \<and> g mod ?n < ?I"
  let ?Q = "\<lambda>g m. ?live g \<longrightarrow> m ! (g div ?n * ?I + g mod ?n) = dp (g div ?n) (g mod ?n)"
  have nI: "?I \<le> ?n" by (rule cdiv_upper) (simp add: kSubgroups_def)
  have "\<exists>m. relu2_up_typed M hv ld W hidden ids S sched scratch = Some m \<and> length m = length scratch \<and> (\<forall>g<pairs * ?n. ?Q g m)"
    unfolding relu2_up_typed_def Let_def
  proof (rule launch_inv [OF sched])
    fix i and m :: "'f list" assume i: "i < pairs * ?n" and m: "length m = length scratch"
    let ?p = "i div ?n" and ?r = "i mod ?n"
    have p: "?p < pairs" "rd ids ?p = Some (ids ! ?p)" using tile_div_mod [OF i] len by simp_all
    show "\<exists>m'. do {
        e \<leftarrow> rd ids ?p;
        if \<not> valid_id (n_exp S) e then Some m
        else if ?I \<le> ?r then Some m
        else do {
          gs \<leftarrow> rd (up_g W) (nat e);
          v \<leftarrow> up_single M hv ld W hidden S (nat e) (?p div top_k S) (gs * of_num M 4194304) ?r;
          wr m (?p * ?I + ?r) v } } = Some m' \<and> length m' = length scratch \<and> ?Q i m' \<and>
        (\<forall>j<pairs * ?n. j \<noteq> i \<longrightarrow> ?Q j m \<longrightarrow> ?Q j m')"
    proof (cases "?live i")
      case False
      then show ?thesis using p m by auto
    next
      case True
      have ws: "?p * ?I + ?r < length m" using div_mult_add_lt [OF p(1), of "?r" ?I] True m len(1) by simp
      have "?Q j (m[?p * ?I + ?r := dp ?p ?r])" if "j < pairs * ?n" "j \<noteq> i" "?Q j m" for j
      proof
        assume lj: "?live j"
        have "j div ?n \<noteq> ?p \<or> j mod ?n \<noteq> ?r" using that(2) by (metis div_mult_mod_eq)
        then have "j div ?n * ?I + j mod ?n \<noteq> ?p * ?I + ?r" using pair_cells [of "j div ?n" ?I "j mod ?n" ?p ?r] lj True by blast
        then show "m[?p * ?I + ?r := dp ?p ?r] ! (j div ?n * ?I + j mod ?n) = dp (j div ?n) (j mod ?n)"
          using that(3) lj by (simp add: nth_list_update_neq)
      qed
      then show ?thesis using p m True g [OF p(1)] dp [OF p(1)] ws by (simp add: Let_def)
    qed
  qed simp
  then obtain m where m: "relu2_up_typed M hv ld W hidden ids S sched scratch = Some m" "length m = length scratch" "\<And>g. g < pairs * ?n \<Longrightarrow> ?Q g m" by blast
  have "m ! (p * ?I + row) = dp p row" if "p < pairs" "valid_id (n_exp S) (ids ! p)" "row < ?I" for p row
  proof -
    have r: "row < ?n" using that(3) nI by linarith
    have "p * ?n + row < pairs * ?n" by (rule div_mult_add_lt [OF that(1) r])
    from m(3) [OF this] show ?thesis unfolding pair_div_mod [OF r] using that by simp
  qed
  then show ?thesis using m(1,2) by blast
qed

section \<open>Every row of every pair is one slot\<close>

lemma mset_tile:
  "mset (concat (map (\<lambda>sg. map (\<lambda>r. f (sg + r * kSubgroups)) [0..<R]) [0..<kSubgroups])) = mset (map f [0..<R * kSubgroups])"
proof (induction R)
  case (Suc R)
  have snoc: "mset (concat (map (\<lambda>x. g x @ [h x]) xs)) = mset (concat (map g xs)) + mset (map h xs)" for g h and xs :: "nat list"
    by (induction xs) auto
  have m: "map (\<lambda>sg. f (sg + R * kSubgroups)) [0..<kSubgroups] = map f [R * kSubgroups..<Suc R * kSubgroups]"
    by (rule nth_equalityI) (simp_all add: add.commute)
  have u: "[0..<Suc R * kSubgroups] = [0..<R * kSubgroups] @ [R * kSubgroups..<Suc R * kSubgroups]"
    using upt_add_eq_append [of 0 "R * kSubgroups" kSubgroups] by (simp add: add.commute)
  show ?case by (simp only: u upt_Suc_append [OF zero_le] map_append list.map snoc Suc m mset_append)
qed simp

lemma takeWhile_filter: "sorted_wrt (<) xs \<Longrightarrow> takeWhile (\<lambda>x. x < (K :: nat)) xs = filter (\<lambda>x. x < K) xs"
proof (induction xs)
  case (Cons x xs)
  then have "filter (\<lambda>y. y < K) xs = []" if "\<not> x < K" using that by (fastforce simp: filter_empty_conv)
  then show ?case using Cons by auto
qed simp

lemma tile_rows_filter:
  "tile_rows R K tile sg = filter (\<lambda>row. row < K) (map (\<lambda>r. tile * (kSubgroups * R) + sg + r * kSubgroups) [0..<R])"
  unfolding tile_rows_def by (rule takeWhile_filter) (simp add: sorted_wrt_map kSubgroups_def sorted_wrt_upt)

lemma mset_concat_cong: "(\<And>x. x \<in> set xs \<Longrightarrow> mset (f x) = mset (g x)) \<Longrightarrow> mset (concat (map f xs)) = mset (concat (map g xs))"
  by (induction xs) auto

lemma filter_upt_below: "K \<le> n \<Longrightarrow> filter (\<lambda>row. row < K) [0..<n] = [0..<K]"
proof -
  assume "K \<le> n"
  then have "[0..<n] = [0..<K] @ [K..<n]" by (metis le_add_diff_inverse upt_add_eq_append zero_le)
  then show ?thesis by (simp add: filter_empty_conv)
qed

lemma mset_tiles:
  assumes "0 < R"
  shows "mset (concat (map (\<lambda>tile. concat (map (\<lambda>sg. tile_rows R K tile sg) [0..<kSubgroups])) [0..<cdiv K (kSubgroups * R)])) = mset [0..<K]"
proof -
  let ?w = "kSubgroups * R" and ?n = "cdiv K (kSubgroups * R)"
  have w: "0 < ?w" using assms by (simp add: kSubgroups_def)
  have all: "mset (concat (map (\<lambda>sg. map (\<lambda>r. tile * ?w + sg + r * kSubgroups) [0..<R]) [0..<kSubgroups])) = mset (map (\<lambda>k. tile * ?w + k) [0..<?w])" for tile
    using mset_tile [of "\<lambda>k. tile * ?w + k" R] by (simp add: add.assoc mult.commute)
  have "mset (concat (map (\<lambda>sg. tile_rows R K tile sg) [0..<kSubgroups])) = mset (filter (\<lambda>row. row < K) (map (\<lambda>k. tile * ?w + k) [0..<?w]))" for tile
    unfolding tile_rows_filter mset_filter all [symmetric] by (simp only: mset_filter [symmetric] filter_concat map_map comp_def)
  then have "mset (concat (map (\<lambda>tile. concat (map (\<lambda>sg. tile_rows R K tile sg) [0..<kSubgroups])) [0..<?n])) =
      mset (concat (map (\<lambda>tile. filter (\<lambda>row. row < K) (map (\<lambda>k. tile * ?w + k) [0..<?w])) [0..<?n]))"
    by (rule mset_concat_cong)
  also have "\<dots> = mset (filter (\<lambda>row. row < K) (concat (map (\<lambda>tile. map (\<lambda>k. tile * ?w + k) [0..<?w]) [0..<?n])))"
    by (simp only: filter_concat map_map comp_def)
  also have "\<dots> = mset [0..<K]" unfolding concat_rows filter_upt_below [OF cdiv_upper [OF w]] by (rule refl)
  finally show ?thesis .
qed

lemma mset_fused_slots: "mset (fused_slots pairs K) = mset (concat (map (\<lambda>pair. map (Pair pair) [0..<K]) [0..<pairs]))"
  unfolding fused_slots_def
proof (rule mset_concat_cong)
  fix pair :: nat
  have "mset (concat (map (\<lambda>sg. strided sg kSubgroups K) [0..<kSubgroups])) = mset [0..<K]"
    using mset_concat_strided [of kSubgroups "\<lambda>x. [x]" K] by (simp add: kSubgroups_def sum_list_mset_concat comp_def)
  then have "mset (map (Pair pair) (concat (map (\<lambda>sg. strided sg kSubgroups K) [0..<kSubgroups]))) = mset (map (Pair pair) [0..<K])" by simp
  then show "mset (concat (map (\<lambda>sg. map (Pair pair) (strided sg kSubgroups K)) [0..<kSubgroups])) = mset (map (Pair pair) [0..<K])"
    by (simp only: map_concat map_map comp_def)
qed

definition row_slot :: "nat \<times> nat \<times> nat \<Rightarrow> nat \<times> nat" where
  "row_slot = (\<lambda>(pair, tile, row). (pair, row))"

lemma mset_output_slots: "0 < R \<Longrightarrow> mset (map row_slot (output_slots R pairs K)) = mset (fused_slots pairs K)"
proof -
  assume R: "0 < R"
  have "mset (map row_slot (output_slots R pairs K)) = mset (concat (map (\<lambda>pair. map (Pair pair)
      (concat (map (\<lambda>tile. concat (map (\<lambda>sg. tile_rows R K tile sg) [0..<kSubgroups])) [0..<cdiv K (kSubgroups * R)]))) [0..<pairs]))"
    by (simp add: output_slots_def map_concat comp_def row_slot_def)
  also have "\<dots> = mset (concat (map (\<lambda>pair. map (Pair pair) [0..<K]) [0..<pairs]))"
    by (rule mset_concat_cong) (simp only: mset_map mset_tiles [OF R])
  finally show ?thesis by (simp only: mset_fused_slots)
qed

lemma output_rows_per_subgroup_pos: "0 < output_rows_per_subgroup pairs K"
  by (simp add: output_rows_per_subgroup_def Let_def)

lemma fused_slots_set: "x \<in> set (fused_slots pairs K) \<longleftrightarrow> fst x < pairs \<and> snd x < K"
proof -
  have "set (fused_slots pairs K) = set (concat (map (\<lambda>pair. map (Pair pair) [0..<K]) [0..<pairs]))"
    using mset_fused_slots [of pairs K] by (metis set_mset_mset)
  then show ?thesis by (cases x) (auto intro!: bexI image_eqI)
qed

lemma some_the: "\<exists>v. x = Some v \<Longrightarrow> x = Some (the x)"
  by auto

section \<open>Split and fused agree in every arithmetic\<close>

definition moe_ok :: "nat \<Rightarrow> 'f moe_weights \<Rightarrow> 't list \<Rightarrow> int list \<Rightarrow> 'f list \<Rightarrow> bool \<Rightarrow> nat \<Rightarrow> moe_shape \<Rightarrow> bool" where
  "moe_ok n_up W hidden topk_ids topk_weights mulrw n_tok S \<longleftrightarrow>
     32 dvd hid S \<and> 32 dvd inter S \<and> length hidden = n_tok * hid S \<and> length topk_ids = n_tok * top_k S \<and>
     (mulrw \<longrightarrow> length topk_weights = n_tok * top_k S) \<and> length (up_g W) = n_exp S \<and> length (dn_g W) = n_exp S \<and>
     length (up_w W) = n_exp S * (n_up * (hid S div 2)) \<and> length (up_s W) = n_exp S * (n_up * (hid S div 16)) \<and>
     length (dn_w W) = n_exp S * (hid S * (inter S div 2)) \<and> length (dn_s W) = n_exp S * (hid S * (inter S div 16))"

definition split_order :: "nat \<Rightarrow> nat \<Rightarrow> (nat \<times> nat \<times> nat) list \<Rightarrow> bool" where
  "split_order pairs K ord \<longleftrightarrow> mset ord = mset (output_slots (output_rows_per_subgroup pairs K) pairs K)"

definition fused_order :: "nat \<Rightarrow> nat \<Rightarrow> (nat \<times> nat) list \<Rightarrow> bool" where
  "fused_order pairs K ord \<longleftrightarrow> mset ord = mset (fused_slots pairs K)"

lemma split_order_fused: "split_order pairs K ord \<Longrightarrow> fused_order pairs K (map row_slot ord)"
  unfolding split_order_def fused_order_def
  using mset_output_slots [OF output_rows_per_subgroup_pos [of pairs K], of pairs K] by (metis mset_map)

lemma split_order_in: "split_order pairs K ord \<Longrightarrow> (p, t, row) \<in> set ord \<Longrightarrow> p < pairs \<and> row < K"
proof -
  assume "split_order pairs K ord" "(p, t, row) \<in> set ord"
  then have "(p, row) \<in> set (map row_slot ord)" "set (map row_slot ord) = set (fused_slots pairs K)"
    using split_order_fused [of pairs K ord] unfolding fused_order_def by (force simp: row_slot_def, metis set_mset_mset)
  then show ?thesis using fused_slots_set by (metis fst_conv snd_conv)
qed

lemma expert_row: "e < E \<Longrightarrow> row < n \<Longrightarrow> e * (n * h) + row * h + h \<le> E * (n * (h :: nat))"
  using src_row [of "e * n + row" "E * n" h] div_mult_add_lt [of e E row n] by (simp add: algebra_simps)

lemma aligned: "32 dvd (K :: nat) \<Longrightarrow> K div 32 * 16 = K div 2" "32 dvd K \<Longrightarrow> K div 32 * 2 = K div 16"
  by auto

lemma hidden_defined: "length hidden = n_tok * K \<Longrightarrow> token < n_tok \<Longrightarrow> j < K \<Longrightarrow> hidden_row ld hidden K token j = Some (ld (hidden ! (token * K + j)))"
  using div_mult_add_lt [of token n_tok j K] by (simp add: hidden_row_def)

lemma gate_up_halves:
  assumes ok: "moe_ok (2 * inter S) W hidden ids wts mulrw n_tok S" and e: "e < n_exp S" and row: "row < inter S" and tok: "token < n_tok"
  shows "e * (2 * inter S * (hid S div 2)) + row * (hid S div 2) + hid S div 32 * 16 \<le> length (up_w W)"
    "e * (2 * inter S * (hid S div 2)) + (row + inter S) * (hid S div 2) + hid S div 32 * 16 \<le> length (up_w W)"
    "e * (2 * inter S * (hid S div 16)) + row * (hid S div 16) + hid S div 32 * 2 \<le> length (up_s W)"
    "e * (2 * inter S * (hid S div 16)) + (row + inter S) * (hid S div 16) + hid S div 32 * 2 \<le> length (up_s W)"
    "\<And>j. j < hid S \<Longrightarrow> hidden_row ld hidden (hid S) token j = Some (ld (hidden ! (token * hid S + j)))"
proof -
  have l: "length (up_w W) = n_exp S * (2 * inter S * (hid S div 2))" "length (up_s W) = n_exp S * (2 * inter S * (hid S div 16))"
    and K: "32 dvd hid S" and h: "length hidden = n_tok * hid S" using ok by (simp_all add: moe_ok_def)
  have r: "row < 2 * inter S" "row + inter S < 2 * inter S" using row by simp_all
  show "e * (2 * inter S * (hid S div 2)) + row * (hid S div 2) + hid S div 32 * 16 \<le> length (up_w W)"
    "e * (2 * inter S * (hid S div 2)) + (row + inter S) * (hid S div 2) + hid S div 32 * 16 \<le> length (up_w W)"
    "e * (2 * inter S * (hid S div 16)) + row * (hid S div 16) + hid S div 32 * 2 \<le> length (up_s W)"
    "e * (2 * inter S * (hid S div 16)) + (row + inter S) * (hid S div 16) + hid S div 32 * 2 \<le> length (up_s W)"
    unfolding aligned [OF K] l by (rule expert_row [OF e r(1)] expert_row [OF e r(2)])+
  show "\<And>j. j < hid S \<Longrightarrow> hidden_row ld hidden (hid S) token j = Some (ld (hidden ! (token * hid S + j)))" by (rule hidden_defined [OF h tok])
qed

lemma gate_up_defined:
  assumes "moe_ok (2 * inter S) W hidden ids wts mulrw n_tok S" "e < n_exp S" "row < inter S" "token < n_tok"
  shows "\<exists>v. gate_up_pair M hv ld W hidden S e token global row = Some v"
proof -
  note b = gate_up_halves [OF assms]
  have d: "\<And>j. j < hid S \<Longrightarrow> \<exists>v. hidden_row ld hidden (hid S) token j = Some v" using b(5) by blast
  obtain g where "nvfp4_row_dot M hv (up_w W) (e * (2 * inter S * (hid S div 2)) + row * (hid S div 2)) (up_s W)
      (e * (2 * inter S * (hid S div 16)) + row * (hid S div 16)) global (hidden_row ld hidden (hid S) token) (hid S) = Some g"
    using row_dot_defined [where input = "hidden_row ld hidden (hid S) token", OF b(1,3) d] by blast
  moreover obtain u where "nvfp4_row_dot M hv (up_w W) (e * (2 * inter S * (hid S div 2)) + (row + inter S) * (hid S div 2)) (up_s W)
      (e * (2 * inter S * (hid S div 16)) + (row + inter S) * (hid S div 16)) global (hidden_row ld hidden (hid S) token) (hid S) = Some u"
    using row_dot_defined [where input = "hidden_row ld hidden (hid S) token", OF b(2,4) d] by blast
  ultimately show ?thesis unfolding gate_up_pair_def Let_def using row_dot_pair_split by blast
qed

lemma up_single_defined:
  assumes ok: "moe_ok (inter S) W hidden ids wts mulrw n_tok S" and e: "e < n_exp S" and row: "row < inter S" and tok: "token < n_tok"
  shows "\<exists>v. up_single M hv ld W hidden S e token global row = Some v"
proof -
  have l: "length (up_w W) = n_exp S * (inter S * (hid S div 2))" "length (up_s W) = n_exp S * (inter S * (hid S div 16))"
    and K: "32 dvd hid S" and h: "length hidden = n_tok * hid S" using ok by (simp_all add: moe_ok_def)
  show ?thesis unfolding up_single_def Let_def
  proof (rule row_dot_defined)
    show "e * (inter S * (hid S div 2)) + row * (hid S div 2) + hid S div 32 * 16 \<le> length (up_w W)"
      "e * (inter S * (hid S div 16)) + row * (hid S div 16) + hid S div 32 * 2 \<le> length (up_s W)"
      unfolding aligned [OF K] l by (rule expert_row [OF e row])+
  qed (use hidden_defined [OF h tok] in blast)
qed

lemma pair_of:
  assumes "moe_ok n_up W hidden ids wts mulrw n_tok S" "p < n_tok * top_k S"
  shows "rd ids p = Some (ids ! p)" "p div top_k S < n_tok" "valid_id (n_exp S) (ids ! p) \<Longrightarrow> nat (ids ! p) < n_exp S \<and> rd (up_g W) (nat (ids ! p)) = Some (up_g W ! nat (ids ! p))"
  using assms tile_div_mod [OF assms(2)] by (auto simp: moe_ok_def valid_id_def)

lemma split_eq_fused_slots:
  assumes ok: "moe_ok (2 * inter S) W hidden ids wts mulrw n_tok S"
    and envs: "\<And>p. env_ok (2 * inter S) (inter S) (envs p)" "\<And>p t. env_ok a (inter S) (envs' p t)"
    and sched: "schedule (n_tok * top_k S * (cdiv (inter S) kSubgroups * kSubgroups)) sched" "length scratch = n_tok * top_k S * (2 * inter S)"
    and ord: "split_order (n_tok * top_k S) (hid S) ord"
  shows "nvfp4_moe_split M hv ld W hidden ids wts mulrw n_tok S envs' sched ord scratch out =
    nvfp4_moe_fused M hv ld W hidden ids wts mulrw n_tok S envs (map row_slot ord) out"
proof -
  let ?P = "n_tok * top_k S" and ?I = "inter S"
  let ?g = "\<lambda>p. up_g W ! nat (ids ! p)"
  let ?dp = "\<lambda>p row. the (gate_up_pair M hv ld W hidden S (nat (ids ! p)) (p div top_k S) (?g p * of_num M 4194304) row)"
  note pair = pair_of [OF ok]
  have dp: "gate_up_pair M hv ld W hidden S (nat (ids ! p)) (p div top_k S) (?g p * of_num M 4194304) row = Some (?dp p row)"
    if "p < ?P" "valid_id (n_exp S) (ids ! p)" "row < ?I" for p row
    by (rule some_the) (rule gate_up_defined [OF ok conjunct1 [OF pair(3) [OF that(1,2)]] that(3) pair(2) [OF that(1)]])
  obtain scratch' where s: "gate_up_typed M hv ld W hidden ids S sched scratch = Some scratch'" "length scratch' = length scratch"
      "\<And>p row. p < ?P \<Longrightarrow> valid_id (n_exp S) (ids ! p) \<Longrightarrow> row < ?I \<Longrightarrow> scratch' ! (p * (2 * ?I) + row) = fst (?dp p row) \<and>
        scratch' ! (p * (2 * ?I) + row + ?I) = snd (?dp p row)"
    using gate_up_typed_ok [OF sched, of ids W ?g M hv ld hidden ?dp] ok pair(3) dp unfolding moe_ok_def by blast
  have slot: "output_slot M hv W scratch' ids wts mulrw S envs' x = fused_slot M hv ld W hidden ids wts mulrw S envs (row_slot x)" if x: "x \<in> set ord" for x
  proof -
    obtain p t row where px: "x = (p, t, row)" by (cases x) auto
    have p: "p < ?P" using split_order_in [OF ord] x px by blast
    show ?thesis
    proof (cases "valid_id (n_exp S) (ids ! p)")
      case False
      then show ?thesis using pair(1) [OF p] by (simp add: px output_slot_def fused_slot_def row_slot_def Let_def)
    next
      case True
      have f: "fused_act M hv ld W hidden S (envs p) (nat (ids ! p)) (p div top_k S) = Some (map (\<lambda>i. silu M (fst (?dp p i)) * snd (?dp p i)) [0..<?I])"
        using fused_act_ok [OF envs(1) conjunct2 [OF pair(3) [OF p True]] dp [OF p True]] .
      have "p * (2 * ?I) + 2 * ?I \<le> length scratch'" using src_row [OF p, of "2 * ?I"] s(2) sched(2) by simp
      then have "swiglu_items M ?I (item_order (envs' p t)) scratch' (p * (2 * ?I)) (local_b (envs' p t)) =
          Some (map (\<lambda>i. silu M (scratch' ! (p * (2 * ?I) + i)) * scratch' ! (p * (2 * ?I) + i + ?I)) [0..<?I])"
        using envs(2) [of p t] by (intro swiglu_items_ok) (auto simp: env_ok_def)
      also have "\<dots> = Some (map (\<lambda>i. silu M (fst (?dp p i)) * snd (?dp p i)) [0..<?I])"
        using s(3) [OF p True] by (intro arg_cong [where f = Some] map_cong) auto
      finally show ?thesis using pair(1) [OF p] f True by (simp add: px output_slot_def fused_slot_def row_slot_def Let_def)
    qed
  qed
  have "foldM (output_slot M hv W scratch' ids wts mulrw S envs') ord out = foldM (fused_slot M hv ld W hidden ids wts mulrw S envs) (map row_slot ord) out" for out
    unfolding foldM_map by (rule foldM_cong) (simp_all add: slot)
  then show ?thesis by (simp add: nvfp4_moe_split_def nvfp4_moe_fused_def s(1))
qed

lemma relu2_split_eq_fused_slots:
  assumes ok: "moe_ok (inter S) W hidden ids wts mulrw n_tok S"
    and envs: "\<And>p. env_ok (inter S) (inter S) (envs p)" "\<And>p t. env_ok a (inter S) (envs' p t)"
    and sched: "schedule (n_tok * top_k S * (cdiv (inter S) kSubgroups * kSubgroups)) sched" "length scratch = n_tok * top_k S * inter S"
    and ord: "mset ord = mset (output_slots 1 (n_tok * top_k S) (hid S))"
  shows "nvfp4_moe_relu2_split M hv ld W hidden ids wts mulrw n_tok S envs' sched ord scratch out =
    nvfp4_moe_relu2_fused M hv ld W hidden ids wts mulrw n_tok S envs (map row_slot ord) out"
proof -
  let ?P = "n_tok * top_k S" and ?I = "inter S"
  let ?g = "\<lambda>p. up_g W ! nat (ids ! p)"
  let ?dp = "\<lambda>p row. the (up_single M hv ld W hidden S (nat (ids ! p)) (p div top_k S) (?g p * of_num M 4194304) row)"
  note pair = pair_of [OF ok]
  have dp: "up_single M hv ld W hidden S (nat (ids ! p)) (p div top_k S) (?g p * of_num M 4194304) row = Some (?dp p row)"
    if "p < ?P" "valid_id (n_exp S) (ids ! p)" "row < ?I" for p row
    by (rule some_the) (rule up_single_defined [OF ok conjunct1 [OF pair(3) [OF that(1,2)]] that(3) pair(2) [OF that(1)]])
  obtain scratch' where s: "relu2_up_typed M hv ld W hidden ids S sched scratch = Some scratch'" "length scratch' = length scratch"
      "\<And>p row. p < ?P \<Longrightarrow> valid_id (n_exp S) (ids ! p) \<Longrightarrow> row < ?I \<Longrightarrow> scratch' ! (p * ?I + row) = ?dp p row"
    using relu2_up_typed_ok [OF sched, of ids W ?g M hv ld hidden ?dp] ok pair(3) dp unfolding moe_ok_def by blast
  have slot: "relu2_output_slot M hv W scratch' ids wts mulrw S envs' x = relu2_slot M hv ld W hidden ids wts mulrw S envs (row_slot x)" if x: "x \<in> set ord" for x
  proof -
    obtain p t row where px: "x = (p, t, row)" by (cases x) auto
    have "row_slot x \<in> set (map row_slot ord)" using x by simp
    also have "set (map row_slot ord) = set (fused_slots ?P (hid S))"
      using mset_output_slots [of 1 ?P "hid S"] ord by (metis mset_map set_mset_mset zero_less_one)
    finally have p: "p < ?P" by (simp add: fused_slots_set px row_slot_def)
    show ?thesis
    proof (cases "valid_id (n_exp S) (ids ! p)")
      case False
      then show ?thesis using pair(1) [OF p] by (simp add: px relu2_output_slot_def relu2_slot_def row_slot_def Let_def)
    next
      case True
      have f: "relu2_act M hv ld W hidden S (envs p) (nat (ids ! p)) (p div top_k S) = Some (map (\<lambda>i. relu2 (?dp p i)) [0..<?I])"
        using relu2_act_ok [OF envs(1) conjunct2 [OF pair(3) [OF p True]] dp [OF p True]] .
      have "p * ?I + ?I \<le> length scratch'" using src_row [OF p, of ?I] s(2) sched(2) by simp
      then have "relu2_items ?I (item_order (envs' p t)) scratch' (p * ?I) (local_b (envs' p t)) = Some (map (\<lambda>i. relu2 (scratch' ! (p * ?I + i))) [0..<?I])"
        using envs(2) [of p t] by (intro relu2_items_ok) (auto simp: env_ok_def)
      also have "\<dots> = Some (map (\<lambda>i. relu2 (?dp p i)) [0..<?I])"
        using s(3) [OF p True] by (intro arg_cong [where f = Some] map_cong) auto
      finally show ?thesis using pair(1) [OF p] f True by (simp add: px relu2_output_slot_def relu2_slot_def row_slot_def Let_def)
    qed
  qed
  have "foldM (relu2_output_slot M hv W scratch' ids wts mulrw S envs') ord out = foldM (relu2_slot M hv ld W hidden ids wts mulrw S envs) (map row_slot ord) out" for out
    unfolding foldM_map by (rule foldM_cong) (simp_all add: slot)
  then show ?thesis by (simp add: nvfp4_moe_relu2_split_def nvfp4_moe_relu2_fused_def s(1))
qed

section \<open>The layer in exact arithmetic\<close>

text \<open>Activation \<open>i\<close> of an expert at a token, and row \<open>row\<close> of its output.\<close>

definition up_row :: "real moe_weights \<Rightarrow> ('t \<Rightarrow> real) \<Rightarrow> 't list \<Rightarrow> moe_shape \<Rightarrow> nat \<Rightarrow> nat \<Rightarrow> nat \<Rightarrow> nat \<Rightarrow> real" where
  "up_row W ld hidden S n_up e token row = up_g W ! e * (\<Sum>j<hid S.
     w_el (up_w W) (e * (n_up * (hid S div 2)) + row * (hid S div 2)) (up_s W) (e * (n_up * (hid S div 16)) + row * (hid S div 16)) j
       * ld (hidden ! (token * hid S + j)))"

definition swiglu_act :: "real moe_weights \<Rightarrow> ('t \<Rightarrow> real) \<Rightarrow> 't list \<Rightarrow> moe_shape \<Rightarrow> nat \<Rightarrow> nat \<Rightarrow> nat \<Rightarrow> real" where
  "swiglu_act W ld hidden S e token i =
     (let g = up_row W ld hidden S (2 * inter S) e token i in g / (1 + exp (- g)) * up_row W ld hidden S (2 * inter S) e token (i + inter S))"

definition relu2_unit :: "real moe_weights \<Rightarrow> ('t \<Rightarrow> real) \<Rightarrow> 't list \<Rightarrow> moe_shape \<Rightarrow> nat \<Rightarrow> nat \<Rightarrow> nat \<Rightarrow> real" where
  "relu2_unit W ld hidden S e token i = (max 0 (up_row W ld hidden S (inter S) e token i))\<^sup>2"

definition down_row :: "real moe_weights \<Rightarrow> moe_shape \<Rightarrow> nat \<Rightarrow> (nat \<Rightarrow> real) \<Rightarrow> nat \<Rightarrow> real" where
  "down_row W S e act row = dn_g W ! e * (\<Sum>i<inter S.
     w_el (dn_w W) (e * (hid S * (inter S div 2)) + row * (inter S div 2)) (dn_s W) (e * (hid S * (inter S div 16)) + row * (inter S div 16)) i * act i)"

text \<open>The router-weighted sum over the valid choices of a token.\<close>

definition moe_layer :: "real moe_weights \<Rightarrow> int list \<Rightarrow> real list \<Rightarrow> bool \<Rightarrow> moe_shape \<Rightarrow> (nat \<Rightarrow> nat \<Rightarrow> nat \<Rightarrow> real) \<Rightarrow> nat \<Rightarrow> nat \<Rightarrow> real" where
  "moe_layer W ids wts mulrw S act token row = (\<Sum>c<top_k S. let p = token * top_k S + c in
     if valid_id (n_exp S) (ids ! p) then (if mulrw then wts ! p else 1) * down_row W S (nat (ids ! p)) (act (nat (ids ! p)) token) row else 0)"

lemma aligned_all: "32 dvd (K :: nat) \<Longrightarrow> K div 32 * 32 = K"
  by simp

lemma gate_up_pair_exact:
  assumes ok: "moe_ok (2 * inter S) W hidden ids wts mulrw n_tok S" and a: "e < n_exp S" "row < inter S" "token < n_tok"
  shows "gate_up_pair exact_math half_val ld W hidden S e token (up_g W ! e * 4194304) row =
    Some (up_row W ld hidden S (2 * inter S) e token row, up_row W ld hidden S (2 * inter S) e token (row + inter S))"
proof -
  note b = gate_up_halves [OF ok a]
  have K: "hid S div 32 * 32 = hid S" using ok by (simp add: moe_ok_def)
  have gs: "up_g W ! e * 4194304 = up_g W ! e * 2 ^ 22" by simp
  show ?thesis unfolding gate_up_pair_def Let_def up_row_def
    by (rule row_dot_pair_split)
      (rule row_dot_exact [OF b(1,3) b(5) gs, unfolded K] row_dot_exact [OF b(2,4) b(5) gs, unfolded K], assumption)+
qed

lemma up_single_exact:
  assumes ok: "moe_ok (inter S) W hidden ids wts mulrw n_tok S" and e: "e < n_exp S" and row: "row < inter S" and tok: "token < n_tok"
  shows "up_single exact_math half_val ld W hidden S e token (up_g W ! e * 4194304) row = Some (up_row W ld hidden S (inter S) e token row)"
proof -
  have l: "length (up_w W) = n_exp S * (inter S * (hid S div 2))" "length (up_s W) = n_exp S * (inter S * (hid S div 16))"
    and K: "32 dvd hid S" and h: "length hidden = n_tok * hid S" using ok by (simp_all add: moe_ok_def)
  have gs: "up_g W ! e * 4194304 = up_g W ! e * 2 ^ 22" by simp
  have b: "e * (inter S * (hid S div 2)) + row * (hid S div 2) + hid S div 32 * 16 \<le> length (up_w W)"
      "e * (inter S * (hid S div 16)) + row * (hid S div 16) + hid S div 32 * 2 \<le> length (up_s W)"
    unfolding aligned [OF K] l by (rule expert_row [OF e row])+
  show ?thesis unfolding up_single_def Let_def up_row_def
    by (rule row_dot_exact [OF b hidden_defined [OF h tok] gs, unfolded aligned_all [OF K]]) assumption
qed

lemma moe_add_exact:
  assumes ok: "moe_ok n_up W hidden ids wts mulrw n_tok S" and p: "p < n_tok * top_k S" and e: "e < n_exp S" and row: "row < hid S"
    and out: "length out = n_tok * hid S"
  shows "moe_add exact_math half_val W wts mulrw S e (p div top_k S) p (map act [0..<inter S]) row out =
    (let a = p div top_k S * hid S + row in Some (out[a := out ! a + (if mulrw then wts ! p else 1) * down_row W S e act row]))"
proof -
  have l: "length (dn_w W) = n_exp S * (hid S * (inter S div 2))" "length (dn_s W) = n_exp S * (hid S * (inter S div 16))"
    and I: "32 dvd inter S" and w: "mulrw \<Longrightarrow> length wts = n_tok * top_k S" and g: "length (dn_g W) = n_exp S" using ok by (simp_all add: moe_ok_def)
  have gs: "dn_g W ! e * 4194304 = dn_g W ! e * 2 ^ 22" by simp
  have b: "e * (hid S * (inter S div 2)) + row * (inter S div 2) + inter S div 32 * 16 \<le> length (dn_w W)"
      "e * (hid S * (inter S div 16)) + row * (inter S div 16) + inter S div 32 * 2 \<le> length (dn_s W)"
    unfolding aligned [OF I] l by (rule expert_row [OF e row])+
  have d: "nvfp4_row_dot exact_math half_val (dn_w W) (e * (hid S * (inter S div 2)) + row * (inter S div 2)) (dn_s W)
      (e * (hid S * (inter S div 16)) + row * (inter S div 16)) (dn_g W ! e * 4194304) (rd (map act [0..<inter S])) (inter S) = Some (down_row W S e act row)"
    unfolding down_row_def
    by (rule row_dot_exact [OF b _ gs, unfolded aligned_all [OF I]]) simp
  have a: "p div top_k S * hid S + row < length out" unfolding out by (rule div_mult_add_lt [OF tile_div_mod(1) [OF p] row])
  show ?thesis using w g e p a d by (simp add: moe_add_def Let_def)
qed

lemma accumulate:
  fixes out :: "'a::comm_monoid_add list"
  assumes "\<And>s m. s \<in> set ord \<Longrightarrow> length m = n \<Longrightarrow> f s m = Some (if live s then m[addr s := m ! addr s + v s] else m)"
    and "\<And>s. s \<in> set ord \<Longrightarrow> live s \<Longrightarrow> addr s < n" and "length out = n"
  shows "foldM f ord out = Some (map (\<lambda>a. out ! a + (\<Sum>s\<leftarrow>ord. if live s \<and> addr s = a then v s else 0)) [0..<n])"
  using assms
proof (induction ord arbitrary: out)
  case Nil
  then show ?case by (simp add: list_eq_iff_nth_eq)
next
  case (Cons s ord)
  let ?m = "if live s then out[addr s := out ! addr s + v s] else out"
  have "foldM f (s # ord) out = foldM f ord ?m" using Cons.prems by simp
  also have "\<dots> = Some (map (\<lambda>a. ?m ! a + (\<Sum>s\<leftarrow>ord. if live s \<and> addr s = a then v s else 0)) [0..<n])"
    by (rule Cons.IH) (use Cons.prems in auto)
  also have "\<dots> = Some (map (\<lambda>a. out ! a + (\<Sum>s\<leftarrow>s # ord. if live s \<and> addr s = a then v s else 0)) [0..<n])"
    using Cons.prems(3) by (auto simp: nth_list_update add.assoc)
  finally show ?case .
qed

lemma slots_total:
  fixes v :: "nat \<Rightarrow> nat \<Rightarrow> real"
  assumes ord: "fused_order (n_tok * k) K ord" and a: "a < n_tok * K"
  shows "(\<Sum>s\<leftarrow>ord. if live (fst s) \<and> fst s div k * K + snd s = a then v (fst s) (snd s) else 0) =
    (\<Sum>c<k. if live (a div K * k + c) then v (a div K * k + c) (a mod K) else 0)"
proof -
  let ?F = "\<lambda>p row. if live p \<and> p div k * K + row = a then v p row else 0"
  let ?G = "\<lambda>p. if live p then v p (a mod K) else 0"
  have K: "0 < K" using a by (cases K) auto
  have t: "a div K < n_tok" "a mod K < K" using a K by (simp_all add: less_mult_imp_div_less)
  have "(\<Sum>s\<leftarrow>ord. ?F (fst s) (snd s)) = sum_mset (image_mset (\<lambda>s. ?F (fst s) (snd s)) (mset (concat (map (\<lambda>pair. map (Pair pair) [0..<K]) [0..<n_tok * k]))))"
  proof -
    have "(\<Sum>s\<leftarrow>ord. ?F (fst s) (snd s)) = sum_mset (image_mset (\<lambda>s. ?F (fst s) (snd s)) (mset ord))" by (simp only: mset_map [symmetric] sum_mset_sum_list)
    then show ?thesis using ord unfolding fused_order_def mset_fused_slots by (simp only:)
  qed
  also have "\<dots> = (\<Sum>s\<leftarrow>concat (map (\<lambda>pair. map (Pair pair) [0..<K]) [0..<n_tok * k]). ?F (fst s) (snd s))"
    by (simp only: mset_map [symmetric] sum_mset_sum_list)
  also have "\<dots> = (\<Sum>p\<leftarrow>[0..<n_tok * k]. \<Sum>row\<leftarrow>[0..<K]. ?F p row)"
  proof -
    have "(\<Sum>s\<leftarrow>concat (map (\<lambda>pair. map (Pair pair) [0..<K]) ps). ?F (fst s) (snd s)) = (\<Sum>p\<leftarrow>ps. \<Sum>row\<leftarrow>[0..<K]. ?F p row)" for ps
      by (induction ps) (simp_all add: comp_def cong: if_cong)
    then show ?thesis .
  qed
  also have "\<dots> = (\<Sum>p<n_tok * k. \<Sum>row<K. ?F p row)" by (simp only: interv_sum_list_conv_sum_set_nat atLeast_upt [symmetric] lessThan_atLeast0)
  also have "\<dots> = (\<Sum>p<n_tok * k. if p div k = a div K then ?G p else 0)"
  proof (rule sum.cong [OF refl])
    fix p
    have "p div k * K + row = a \<longleftrightarrow> p div k = a div K \<and> row = a mod K" if "row < K" for row
      using that by (metis div_mult_mod_eq pair_div_mod)
    then have "(\<Sum>row<K. ?F p row) = (\<Sum>row<K. if row = a mod K then (if p div k = a div K then ?G p else 0) else 0)"
      by (intro sum.cong) auto
    then show "(\<Sum>row<K. ?F p row) = (if p div k = a div K then ?G p else 0)" using t by simp
  qed
  also have "\<dots> = (\<Sum>t<n_tok. \<Sum>p = t * k..<t * k + k. if p div k = a div K then ?G p else 0)" by (rule sum.nat_group [symmetric])
  also have "\<dots> = (\<Sum>t<n_tok. if t = a div K then (\<Sum>p = t * k..<t * k + k. ?G p) else 0)"
  proof (rule sum.cong [OF refl])
    fix t
    have "p div k = t" if "p \<in> {t * k..<t * k + k}" for p
      using row_div_mod(1) [where a = p and n = k and r = t] that by simp
    then show "(\<Sum>p = t * k..<t * k + k. if p div k = a div K then ?G p else 0) = (if t = a div K then (\<Sum>p = t * k..<t * k + k. ?G p) else 0)"
      by auto
  qed
  also have "\<dots> = (\<Sum>p = a div K * k..<a div K * k + k. ?G p)" using t by simp
  also have "\<dots> = (\<Sum>c<k. ?G (a div K * k + c))"
  proof -
    have "(\<Sum>p = m..<m + k. ?G p) = (\<Sum>c<k. ?G (m + c))" for m
      using sum.shift_bounds_nat_ivl [of ?G 0 m k] by (simp only: add_0 add_0_right add.commute [of _ m] lessThan_atLeast0)
    then show ?thesis .
  qed
  finally show ?thesis .
qed

lemma slots_layer:
  assumes ok: "moe_ok n_up W hidden ids wts mulrw n_tok S" and ord: "fused_order (n_tok * top_k S) (hid S) ord" and out: "length out = n_tok * hid S"
    and slot: "\<And>p row m. p < n_tok * top_k S \<Longrightarrow> f (p, row) m = (if \<not> valid_id (n_exp S) (ids ! p) then Some m
      else moe_add exact_math half_val W wts mulrw S (nat (ids ! p)) (p div top_k S) p (map (act (nat (ids ! p)) (p div top_k S)) [0..<inter S]) row m)"
  shows "do { m \<leftarrow> memset_zero (n_tok * hid S) out; foldM f ord m } =
    Some (map (\<lambda>a. moe_layer W ids wts mulrw S act (a div hid S) (a mod hid S)) [0..<n_tok * hid S])"
proof -
  let ?live = "\<lambda>p. valid_id (n_exp S) (ids ! p)"
  let ?v = "\<lambda>p row. (if mulrw then wts ! p else 1) * down_row W S (nat (ids ! p)) (act (nat (ids ! p)) (p div top_k S)) row"
  let ?addr = "\<lambda>s. fst s div top_k S * hid S + snd s"
  have s: "fst x < n_tok * top_k S \<and> snd x < hid S" if "x \<in> set ord" for x
    using that ord fused_slots_set unfolding fused_order_def by (metis set_mset_mset)
  have "foldM f ord (replicate (n_tok * hid S) 0) = Some (map (\<lambda>a. replicate (n_tok * hid S) 0 ! a +
      (\<Sum>s\<leftarrow>ord. if ?live (fst s) \<and> ?addr s = a then ?v (fst s) (snd s) else 0)) [0..<n_tok * hid S])"
  proof (rule accumulate [where live = "\<lambda>s. ?live (fst s)" and addr = ?addr and v = "\<lambda>s. ?v (fst s) (snd s)"])
    fix x and m :: "real list" assume x: "x \<in> set ord" and m: "length m = n_tok * hid S"
    note p = s [OF x]
    show "f x m = Some (if ?live (fst x) then m[?addr x := m ! ?addr x + ?v (fst x) (snd x)] else m)"
    proof (cases "?live (fst x)")
      case True
      note e = conjunct1 [OF pair_of(3) [OF ok conjunct1 [OF p] True]]
      have "f (fst x, snd x) m = moe_add exact_math half_val W wts mulrw S (nat (ids ! fst x)) (fst x div top_k S) (fst x) (map (act (nat (ids ! fst x)) (fst x div top_k S)) [0..<inter S]) (snd x) m"
        using slot [OF conjunct1 [OF p], of "snd x" m] True by (simp only: simp_thms if_True if_False)
      then show ?thesis
        unfolding prod.collapse moe_add_exact [OF ok conjunct1 [OF p] e conjunct2 [OF p] m] using True by (simp add: Let_def)
    next
      case False
      then show ?thesis using slot [of "fst x" "snd x" m] p by simp
    qed
  next
    fix x assume "x \<in> set ord"
    then show "?addr x < n_tok * hid S" using div_mult_add_lt [OF tile_div_mod(1) [OF conjunct1 [OF s]] conjunct2 [OF s]] by blast
  qed simp
  also have "\<dots> = Some (map (\<lambda>a. moe_layer W ids wts mulrw S act (a div hid S) (a mod hid S)) [0..<n_tok * hid S])"
  proof (intro arg_cong [where f = Some] map_cong refl)
    fix a assume a: "a \<in> set [0..<n_tok * hid S]"
    have d: "(a div hid S * top_k S + c) div top_k S = a div hid S" if "c < top_k S" for c using that by simp
    show "replicate (n_tok * hid S) 0 ! a + (\<Sum>s\<leftarrow>ord. if ?live (fst s) \<and> ?addr s = a then ?v (fst s) (snd s) else 0) =
        moe_layer W ids wts mulrw S act (a div hid S) (a mod hid S)"
      using a slots_total [OF ord, of a ?live ?v] d by (auto simp: moe_layer_def Let_def intro!: sum.cong)
  qed
  finally show ?thesis using out by (simp add: memset_zero_def)
qed

lemma fused_exact:
  assumes ok: "moe_ok (2 * inter S) W hidden ids wts mulrw n_tok S" and envs: "\<And>p. env_ok (2 * inter S) (inter S) (envs p)"
    and ord: "fused_order (n_tok * top_k S) (hid S) ord" and out: "length out = n_tok * hid S"
  shows "nvfp4_moe_fused exact_math half_val ld W hidden ids wts mulrw n_tok S envs ord out =
    Some (map (\<lambda>a. moe_layer W ids wts mulrw S (swiglu_act W ld hidden S) (a div hid S) (a mod hid S)) [0..<n_tok * hid S])"
  unfolding nvfp4_moe_fused_def
proof (rule slots_layer [OF ok ord out])
  fix p row and m :: "real list" assume p: "p < n_tok * top_k S"
  note pr = pair_of [OF ok p]
  show "fused_slot exact_math half_val ld W hidden ids wts mulrw S envs (p, row) m = (if \<not> valid_id (n_exp S) (ids ! p) then Some m
      else moe_add exact_math half_val W wts mulrw S (nat (ids ! p)) (p div top_k S) p (map (swiglu_act W ld hidden S (nat (ids ! p)) (p div top_k S)) [0..<inter S]) row m)"
  proof (cases "valid_id (n_exp S) (ids ! p)")
    case True
    note e = pr(3) [OF True]
    have "fused_act exact_math half_val ld W hidden S (envs p) (nat (ids ! p)) (p div top_k S) = Some (map (swiglu_act W ld hidden S (nat (ids ! p)) (p div top_k S)) [0..<inter S])"
      by (subst fused_act_ok [OF envs conjunct2 [OF e], of exact_math half_val ld hidden _ "\<lambda>row. (up_row W ld hidden S (2 * inter S) (nat (ids ! p)) (p div top_k S) row, up_row W ld hidden S (2 * inter S) (nat (ids ! p)) (p div top_k S) (row + inter S))"])
        (use gate_up_pair_exact [OF ok conjunct1 [OF e] _ pr(2)] in \<open>simp_all add: swiglu_act_def Let_def silu_def\<close>)
    then show ?thesis using pr(1) True by (simp add: fused_slot_def Let_def)
  qed (use pr in \<open>simp add: fused_slot_def Let_def\<close>)
qed

lemma relu2_fused_exact:
  assumes ok: "moe_ok (inter S) W hidden ids wts mulrw n_tok S" and envs: "\<And>p. env_ok (inter S) (inter S) (envs p)"
    and ord: "fused_order (n_tok * top_k S) (hid S) ord" and out: "length out = n_tok * hid S"
  shows "nvfp4_moe_relu2_fused exact_math half_val ld W hidden ids wts mulrw n_tok S envs ord out =
    Some (map (\<lambda>a. moe_layer W ids wts mulrw S (relu2_unit W ld hidden S) (a div hid S) (a mod hid S)) [0..<n_tok * hid S])"
  unfolding nvfp4_moe_relu2_fused_def
proof (rule slots_layer [OF ok ord out])
  fix p row and m :: "real list" assume p: "p < n_tok * top_k S"
  note pr = pair_of [OF ok p]
  have r: "relu2 v = (max 0 v)\<^sup>2" for v :: real by (simp add: relu2_def fmax_def power2_eq_square)
  show "relu2_slot exact_math half_val ld W hidden ids wts mulrw S envs (p, row) m = (if \<not> valid_id (n_exp S) (ids ! p) then Some m
      else moe_add exact_math half_val W wts mulrw S (nat (ids ! p)) (p div top_k S) p (map (relu2_unit W ld hidden S (nat (ids ! p)) (p div top_k S)) [0..<inter S]) row m)"
  proof (cases "valid_id (n_exp S) (ids ! p)")
    case True
    note e = pr(3) [OF True]
    have "relu2_act exact_math half_val ld W hidden S (envs p) (nat (ids ! p)) (p div top_k S) = Some (map (relu2_unit W ld hidden S (nat (ids ! p)) (p div top_k S)) [0..<inter S])"
      by (subst relu2_act_ok [OF envs conjunct2 [OF e], of exact_math half_val ld hidden _ "up_row W ld hidden S (inter S) (nat (ids ! p)) (p div top_k S)"])
        (use up_single_exact [OF ok conjunct1 [OF e] _ pr(2)] in \<open>simp_all add: relu2_unit_def r\<close>)
    then show ?thesis using pr(1) True by (simp add: relu2_slot_def Let_def)
  qed (use pr in \<open>simp add: relu2_slot_def Let_def\<close>)
qed

section \<open>Properties\<close>

text \<open>C13: The fused kernel computes the mixture-of-experts layer: in exact arithmetic, for every order of the atomic adds of all
  groups, of the sub-groups and work-items in each group and for any contents of local memory and of the output buffer, cell \<open>(t, row)\<close> of the
  output is the sum over the choices of token \<open>t\<close> with a valid expert of router weight times
  the down projection of \<open>silu (gate) * up\<close>, where every weight has the value of its e2m1 and e4m3 codes and the factor \<open>2\<^sup>22\<close> cancels the offsets of
  the decoders exactly.\<close>

theorem nvfp4_moe_fused_exact:
  fixes out :: "real list"
  assumes "moe_ok (2 * inter S) W hidden ids wts mulrw n_tok S" "\<And>p. env_ok (2 * inter S) (inter S) (envs p)"
    and "fused_order (n_tok * top_k S) (hid S) ord" "length out = n_tok * hid S"
  shows "nvfp4_moe_fused exact_math half_val ld W hidden ids wts mulrw n_tok S envs ord out =
    Some (map (\<lambda>a. moe_layer W ids wts mulrw S (swiglu_act W ld hidden S) (a div hid S) (a mod hid S)) [0..<n_tok * hid S])"
  by (rule fused_exact [OF assms])

text \<open>C14: The split path is the fused kernel: in every arithmetic, for every order of its two launches and whatever the scratch buffer
  held, it performs the same additions to the output, in the order in which its own slots ran, and that
  order is one the fused kernel could have chosen.  So the tile width picked from the launch size changes no result, and the buffers agree
  bit for bit under the same order of the atomic adds.\<close>

theorem nvfp4_moe_split_is_fused:
  fixes out :: "'f::{plus,times,zero,uminus,inverse,one} list"
  assumes "moe_ok (2 * inter S) W hidden ids wts mulrw n_tok S"
    and "\<And>p. env_ok (2 * inter S) (inter S) (envs p)" "\<And>p t. env_ok a (inter S) (envs' p t)"
    and "schedule (n_tok * top_k S * (cdiv (inter S) kSubgroups * kSubgroups)) sched" "length scratch = n_tok * top_k S * (2 * inter S)"
    and "split_order (n_tok * top_k S) (hid S) ord"
  shows "nvfp4_moe_split M hv ld W hidden ids wts mulrw n_tok S envs' sched ord scratch out =
      nvfp4_moe_fused M hv ld W hidden ids wts mulrw n_tok S envs (map row_slot ord) out \<and>
    fused_order (n_tok * top_k S) (hid S) (map row_slot ord)"
  using split_eq_fused_slots [where envs = envs and envs' = envs', OF assms] split_order_fused [OF assms(6)] by (rule conjI)

text \<open>The squared-ReLU kernels compute their layer, split or fused: in exact arithmetic both leave in every cell the router-weighted sum of the down
  projections of \<open>max 0 v\<close> squared, over the valid choices of the token.\<close>

theorem nvfp4_moe_relu2_exact:
  fixes out :: "real list"
  assumes "moe_ok (inter S) W hidden ids wts mulrw n_tok S"
    and "\<And>p. env_ok (inter S) (inter S) (envs p)" "\<And>p t. env_ok a (inter S) (envs' p t)"
    and "schedule (n_tok * top_k S * (cdiv (inter S) kSubgroups * kSubgroups)) sched" "length scratch = n_tok * top_k S * inter S"
    and "mset ord = mset (output_slots 1 (n_tok * top_k S) (hid S))" "fused_order (n_tok * top_k S) (hid S) ord'" "length out = n_tok * hid S"
  shows "nvfp4_moe_relu2_split exact_math half_val ld W hidden ids wts mulrw n_tok S envs' sched ord scratch out =
      Some (map (\<lambda>a. moe_layer W ids wts mulrw S (relu2_unit W ld hidden S) (a div hid S) (a mod hid S)) [0..<n_tok * hid S]) \<and>
    nvfp4_moe_relu2_fused exact_math half_val ld W hidden ids wts mulrw n_tok S envs ord' out =
      Some (map (\<lambda>a. moe_layer W ids wts mulrw S (relu2_unit W ld hidden S) (a div hid S) (a mod hid S)) [0..<n_tok * hid S])"
proof -
  have o: "fused_order (n_tok * top_k S) (hid S) (map row_slot ord)"
    using assms(6) mset_output_slots [of 1 "n_tok * top_k S" "hid S"] unfolding fused_order_def by (metis mset_map zero_less_one)
  show ?thesis unfolding relu2_split_eq_fused_slots [where envs = envs and envs' = envs', OF assms(1-6)]
    by (rule conjI; rule relu2_fused_exact [where envs = envs]) (rule assms o)+
qed

text \<open>One token, one expert, 32 features: every weight is the code of 1, every scale the code of 1 and the activations are 1.\<close>

definition one_row :: "nat \<Rightarrow> nat \<Rightarrow> 8 word list" where
  "one_row n c = replicate n (word_of_nat c)"

definition w_swiglu :: "real moe_weights" where
  "w_swiglu = \<lparr>up_w = one_row 1024 0x22, up_s = one_row 128 0x38, up_g = [1 / 32], dn_w = one_row 512 0x22, dn_s = one_row 64 0x38, dn_g = [1]\<rparr>"

definition w_relu2 :: "real moe_weights" where
  "w_relu2 = \<lparr>up_w = one_row 512 0x22, up_s = one_row 64 0x38, up_g = [1 / 32], dn_w = one_row 512 0x22, dn_s = one_row 64 0x38, dn_g = [1]\<rparr>"

definition s_one :: moe_shape where
  "s_one = \<lparr>n_exp = 1, top_k = 2, hid = 32, inter = 32\<rparr>"

definition env_of :: "nat \<Rightarrow> real group_env" where
  "env_of a = \<lparr>sg_order = [0..<8], item_order = [0..<256], local_a = replicate a 7, local_b = replicate 32 9\<rparr>"

lemma env_of_ok: "env_ok a 32 (env_of a)"
  by (simp add: env_ok_def env_of_def kSubgroups_def kWG_moe_def)

lemma w_one_ok:
  "moe_ok 64 w_swiglu (replicate 32 (1 :: real)) [0, -1] [2, 3] True 1 s_one" "moe_ok 32 w_relu2 (replicate 32 (1 :: real)) [0, -1] [2, 3] True 1 s_one"
  by (simp_all add: moe_ok_def w_swiglu_def w_relu2_def s_one_def one_row_def)

lemma nvfp4_moe_fused_exact_witness:
  "nvfp4_moe_fused exact_math half_val id w_swiglu (replicate 32 1) [0, -1] [2, 3] True 1 s_one (\<lambda>p. env_of 64) (fused_slots 2 32) (replicate 32 5) =
    Some (map (\<lambda>a. moe_layer w_swiglu [0, -1] [2, 3] True s_one (swiglu_act w_swiglu id (replicate 32 1) s_one) (a div 32) (a mod 32)) [0..<32])"
proof -
  have s: "inter s_one = 32" "hid s_one = 32" "top_k s_one = 2" by (simp_all add: s_one_def)
  show ?thesis
    using nvfp4_moe_fused_exact [of s_one w_swiglu "replicate 32 1" "[0, -1]" "[2, 3]" True 1 "\<lambda>p. env_of 64" "fused_slots 2 32" "replicate 32 5" id]
    by (simp add: s w_one_ok env_of_ok fused_order_def del: One_nat_def)
qed

lemma nvfp4_moe_split_is_fused_witness:
  "nvfp4_moe_split exact_math half_val id w_swiglu (replicate 32 1) [0, -1] [2, 3] True 1 s_one (\<lambda>p t. env_of 0) (rev [0..<64]) (rev (output_slots 1 2 32)) (replicate 128 4) (replicate 32 5) =
    nvfp4_moe_fused exact_math half_val id w_swiglu (replicate 32 1) [0, -1] [2, 3] True 1 s_one (\<lambda>p. env_of 64) (map row_slot (rev (output_slots 1 2 32))) (replicate 32 5)"
proof -
  have s: "inter s_one = 32" "hid s_one = 32" "top_k s_one = 2" by (simp_all add: s_one_def)
  have c: "cdiv 32 kSubgroups * kSubgroups = 32" "output_rows_per_subgroup 2 32 = 1" by (simp_all add: cdiv_def output_rows_per_subgroup_def kSubgroups_def kTargetOutputWorkGroups_def)
  show ?thesis
    using nvfp4_moe_split_is_fused [of s_one w_swiglu "replicate 32 1" "[0, -1]" "[2, 3]" True 1 "\<lambda>p. env_of 64" 0 "\<lambda>p t. env_of 0" "rev [0..<64]" "replicate 128 4" "rev (output_slots 1 2 32)" exact_math half_val id "replicate 32 5"]
    by (simp add: s c w_one_ok env_of_ok split_order_def del: One_nat_def)
qed

end
