(* ===== verification/Spec2Isabelle.thy ===== *)
theory Spec2Isabelle
  imports MoeLayer Dispatch Centroids RowOps Xmx Pointwise Rotary Ssd Gdn Codecs Runtime Turboquant Moe GgufFormats Serving Argmax Sampling Renorm Rendezvous AllReduce Norms Conv1d Attention PagedAttention PagedPrefill Nvfp4Moe
begin

text \<open>
  A verification development of the QuixiCore XPU backend, a library of SYCL kernels for language models on Intel GPUs.

  \<^bold>\<open>The program.\<close>  A client asks the host runtime (\<open>src/runtime\<close>) for a queue on a GPU and calls the operations of
  \<open>include/quixicore/xpu/ops.hpp\<close>.  The dispatch layer (\<open>src/dispatch\<close>) picks an implementation and forwards to an entry
  point \<open><op>_sycl\<close> in \<open>kernels/<family>/<op>/variants/xpu_sycl\<close>, which instantiates a kernel template at the element type
  and launches it; some operations also have a oneDNN implementation.  Headers in \<open>kernels/common\<close> hold what kernels share:
  codecs, the vectorized map, the matrix-engine tile, the random numbers.  A command graph records launches and replays them.

  \<^bold>\<open>Conventions.\<close>
  A definition is named after the function it models; the entry point is \<open><op>_sycl\<close>, the template \<open><op>_typed\<close> or \<open><op>\<close>, the
  body of one work-item or group \<open><op>_item\<close>, \<open><op>_group\<close>.
  \<^item> Memory: a device buffer is a list, every access goes through \<open>rd\<close> and \<open>wr\<close> (theory \<open>Prelude\<close>), which give \<open>None\<close> out of bounds.  A theorem
    with \<open>Some\<close> on its right-hand side therefore says that the kernel stays inside its buffers.  A pointer that may be null is an option, an in-out
    pointer an argument that is returned.  Local memory is an argument with arbitrary initial contents.
  \<^item> Concurrency: a launch is a fold over an arbitrary permutation of its work-items or groups (\<open>schedule\<close>), and between two barriers the items of a group
    run in an arbitrary order (\<open>lanes\<close>); where items communicate through atomics or flags the steps are single accesses (\<open>Moe\<close>, \<open>Nvfp4Moe\<close>,
    \<open>Rendezvous\<close>, \<open>AllReduce\<close>).  The theorems hold for all orders.
  \<^item> Arithmetic: the kernels are polymorphic in the arithmetic.  At \<open>f32\<close> (theory \<open>Ieee\<close>) they run bit for bit, with the conversions of the element types
    (\<open>elem_ld\<close>, \<open>elem_st\<close>, a cell being 32 bits wide); at \<open>real\<close>, or \<open>xreal\<close> where minus infinity occurs, they are exact.  The
    functions of the device library are fields of \<open>gmath\<close>, \<open>qmath\<close>, \<open>pmath\<close>, \<open>amath\<close>; the instances \<open>exact_math\<close> and so on are the
    mathematical functions.  Statements on bits, indices and copies hold at every type; statements on sums hold over the reals.
  \<^item> Integers: packed codes, float patterns, random numbers, generations and the int8 accumulator are machine words; sizes and addresses are
    naturals or integers, taken not to wrap, except where the code relies on wrapping (\<open>Attention\<close>) or overflow is the point (\<open>Quantize\<close>).
  \<^item> Termination: every definition is total, so no fuel is needed: loops are folds over index lists, or functions with a measure (the strided loop, the
    butterfly stages, the two segment searches); the loops that wait for other ranks are steps of the relation \<open>ar_step\<close>: every execution
    is finite, and it completes unless a work-item of a depart rendezvous is overtaken by the store of the counter, which the code does not exclude.

  \<^bold>\<open>Theories.\<close>  Each opens with the files it models.
  \<^item> Foundations: \<open>Prelude\<close> (buffers, loops, schedules, launches that write disjoint cells), \<open>Ieee\<close> (binary32, binary16 and small formats with nearest-even
    rounding), \<open>Codecs\<close> (conversions of \<open>quant_codecs.hpp\<close> and \<open>turboquant_codec.hpp\<close> proved equal to the rounding), \<open>Elem\<close> (element types),
    \<open>Lanes\<close> (groups sharing a row), \<open>Select\<close> (largest element, lowest index), \<open>Recurrence\<close> (machines that walk a sequence).
  \<^item> Host: \<open>Runtime\<close> (device choice, variants, command graphs as a state machine with its reachable states, the exceptions of the
    queue and of \<open>finalize\<close> included), \<open>Dispatch\<close> (routing between implementations,
    bias corrections of AdamW), \<open>Centroids\<close> (the solver for the TurboQuant codebook).
  \<^item> Attention: \<open>Flash\<close> (the online-softmax recurrence), \<open>Attention\<close> (dense, sliding window), \<open>PagedAttention\<close> (decode over a paged cache in splits and their
    merge), \<open>PagedPrefill\<close> (packed prefill, merge of partial results), \<open>Rotary\<close> (rotary embeddings), \<open>Serving\<close> (embedding lookup and caches),
    \<open>Turboquant\<close> (the compressed cache).
  \<^item> Mixture of experts: \<open>Moe\<close> (routing, permutation by expert and its inverse), \<open>Xmx\<close> (matrix-engine tiles, the product grouped by expert), \<open>MoeLayer\<close>
    (the composite with SwiGLU and the whole layer), \<open>Nvfp4\<close> and \<open>Nvfp4Moe\<close> (the routed NVFP4 kernels, fused and split).
  \<^item> Quantized and dense products: \<open>GgufTables\<close>, \<open>Gguf\<close>, \<open>GgufFormats\<close> (sixteen block formats), \<open>Gemv\<close> (NVFP4), \<open>Qgemv\<close> (int4, MXFP4, FP8), \<open>Quantize\<close>
    (quantization, the int8 product), \<open>RowQuant\<close> (fused norm and quantization), \<open>Dense\<close> (tiled product, low-rank adapters, linear attention, stream mixing).
  \<^item> State-space and recurrent layers: \<open>Conv1d\<close>, \<open>Ssd\<close>, \<open>Gdn\<close>.
  \<^item> Rows and elements: \<open>Norms\<close>, \<open>RowOps\<close> (Hadamard transform, cross entropy, gated norm, pooling), \<open>Pointwise\<close> (activations, dropout, AdamW),
    \<open>Argmax\<close>, \<open>Sampling\<close>, \<open>Renorm\<close>.
  \<^item> Collectives: \<open>Rendezvous\<close> (the flag protocol), \<open>AllReduce\<close> (what the data movement around it computes).

  \<^bold>\<open>What the lemmas show.\<close>
  Lemmas named \<open><op>_item_writes\<close> or \<open><op>_group_writes\<close> say which cells an item or group writes and with what; a launch lemma of \<open>Prelude\<close> turns them
  into the contents of the whole output, and an \<open>_exact\<close> theorem compares those with a specification written as a sum, a maximum or a mean.  \<open>_refines\<close> theorems relate a
  kernel to an abstract machine (a convolution window, a state row, a delta-rule step).  Round trips concern codecs, caches and the permutation; safety and
  progress of the rendezvous and of command graphs are invariants of step relations.
  The interfaces are locales, each interpreted on the definitions of the code: \<open>code\<close> (encoder and decoder of a format), \<open>key_order\<close> and
  \<open>key_order_le\<close> (a float comparison that is the order of an integer key), \<open>block_format\<close> (the elements of a GGUF block), \<open>key_stream\<close> (a recurrence that absorbs
  keys one by one), \<open>row_machine\<close> (a step that keeps the shape of its row).

  \<^bold>\<open>Limits.\<close>
  Assumed of code outside the sources: a queue refuses \<open>wait\<close> while it records a graph and accepts the calls made
  in turn (\<open>graph_queue\<close>), \<open>joint_matrix_mad\<close> multiplies and accumulates the staged tiles (\<open>dpas\<close>), sub-group and group reductions
  combine the values of their items, and the device library functions of the exact instances are the mathematical ones.  Not modelled: contraction to fused operations and
  fast-math, the NaN cases of \<open>fmax\<close> and \<open>fmin\<close>, the contents of uninitialised registers (zeros that are never read), the bound \<open>kSpinCap\<close> on spinning, and the interleaving
  of single accesses inside one all-reduce event.  Counters of the permutation and row counts are unbounded integers.
  Not modelled at all, because they hold no logic of their own: generated contract headers, declarations, forwarding functions of the dispatch layer, the Level Zero handles of \<open>ipc.cpp\<close>, the
  oneDNN variants (descriptions of third-party primitives, parameters of \<open>Dispatch\<close>), and the benchmarks, tests, examples and bindings.
\<close>

end
